(* ===== verification/Prelude.thy ===== *)
theory Prelude
  imports Main "HOL-Library.Word" "HOL-Library.Monad_Syntax"
begin

text \<open>
  The shared vocabulary of the development: Go's fixed-width integers, byte slices with their
  capacity, the run-time panics of out-of-range accesses, the error values several packages
  share, and the big-endian helpers of \<^verbatim>\<open>encoding/binary\<close>. A computation that may panic
  returns an \<open>option\<close>; \<open>None\<close> is the panic. Go's \<open>(value, error)\<close> results are pairs whose second
  part is an optional \<open>go_error\<close>.
\<close>

unbundle bit_operations_syntax

named_theorems wire_simps \<open>rewrite rules for encoded bytes\<close>
named_theorems slice_simps \<open>rewrite rules for byte slices\<close>

section \<open>Integers\<close>

type_synonym byte = "8 word"
type_synonym u16 = "16 word"
type_synonym u32 = "32 word"
type_synonym 'a go = "'a option"

lemma unat_byte_less: "unat (b :: byte) < 256"
  using unsigned_less [of b, where 'a = nat] by simp

lemma unat_u16_less: "unat (w :: u16) < 65536"
  using unsigned_less [of w, where 'a = nat] by simp

lemma unat_u32_less: "unat (w :: u32) < 4294967296"
  using unsigned_less [of w, where 'a = nat] by simp

lemma unat_of_nat_byte: "n < 256 \<Longrightarrow> unat (of_nat n :: byte) = n"
  by (simp add: unsigned_of_nat take_bit_nat_eq_self)

lemma unat_of_nat_u16: "n < 65536 \<Longrightarrow> unat (of_nat n :: u16) = n"
  by (simp add: unsigned_of_nat take_bit_nat_eq_self)

lemma unat_of_nat_u32: "n < 4294967296 \<Longrightarrow> unat (of_nat n :: u32) = n"
  by (simp add: unsigned_of_nat take_bit_nat_eq_self)

text \<open>
  Go's \<^verbatim>\<open>int32\<close> arithmetic as integers, with the wrap-around written out.
\<close>

definition int32 :: "int \<Rightarrow> int" where
  "int32 x = (x + 2147483648) mod 4294967296 - 2147483648"

lemma int32_id [simp]: "-2147483648 \<le> x \<Longrightarrow> x < 2147483648 \<Longrightarrow> int32 x = x"
  by (simp add: int32_def)

lemma int32_bounds: "-2147483648 \<le> int32 x" "int32 x < 2147483648"
proof -
  have "0 \<le> (x + 2147483648) mod 4294967296" and "(x + 2147483648) mod 4294967296 < 4294967296"
    by simp_all
  then show "-2147483648 \<le> int32 x" and "int32 x < 2147483648"
    unfolding int32_def by linarith+
qed

lemma int32_overflow: "2147483648 \<le> x \<Longrightarrow> x < 4294967296 \<Longrightarrow> int32 x = x - 4294967296"
proof -
  assume x: "2147483648 \<le> x" "x < 4294967296"
  have "(x + 2147483648) mod 4294967296 = ((x - 2147483648) + 4294967296) mod 4294967296"
    by (simp add: add.commute)
  also have "\<dots> = (x - 2147483648) mod 4294967296"
    by (rule mod_add_self2)
  also have "\<dots> = x - 2147483648"
    using x by (intro mod_pos_pos_trivial) auto
  finally show ?thesis by (simp add: int32_def)
qed

lemma int32_add_int32 [simp]: "int32 (int32 x + y) = int32 (x + y)"
proof -
  have "((x + 2147483648) mod 4294967296 - 2147483648 + y + 2147483648) mod 4294967296
      = (x + y + 2147483648) mod 4294967296"
    by (simp add: mod_simps algebra_simps)
  then show ?thesis by (simp add: int32_def)
qed

text \<open>Go strings are byte sequences; \<open>str\<close> gives the bytes of an ASCII literal.\<close>

type_synonym gostring = "byte list"

definition ascii :: "char \<Rightarrow> byte" where
  "ascii c = of_char c"

definition str :: "string \<Rightarrow> gostring" where
  "str s = map ascii s"

section \<open>Errors shared by several packages\<close>

datatype go_error =
    EOF                     \<comment> \<open>io.EOF\<close>
  | ErrUnexpectedEOF        \<comment> \<open>io.ErrUnexpectedEOF\<close>
  | ErrClosedPipe           \<comment> \<open>io.ErrClosedPipe\<close>
  | ErrBufferFull           \<comment> \<open>buf.ErrBufferFull\<close>
  | ErrReadTimeout          \<comment> \<open>buf.ErrReadTimeout\<close>
  | ErrNew string           \<comment> \<open>errors.New, with the constant part of its message\<close>

section \<open>Byte slices\<close>

text \<open>
  A slice is the part of its backing array from the slice's first element to its capacity,
  with the length; the capacity is \<open>length (sl_arr s)\<close>. The nil slice has no backing array.
  Index expressions are checked against the length, slice expressions against the capacity.
\<close>

datatype slice = Slice (sl_arr: "byte list") (sl_len: nat)

definition nil_slice :: slice where
  "nil_slice = Slice [] 0"

definition sl_cap :: "slice \<Rightarrow> nat" where
  "sl_cap s = length (sl_arr s)"

definition sl_bytes :: "slice \<Rightarrow> byte list" where
  "sl_bytes s = take (sl_len s) (sl_arr s)"

definition sl_wf :: "slice \<Rightarrow> bool" where
  "sl_wf s \<longleftrightarrow> sl_len s \<le> sl_cap s"

definition sl_of :: "byte list \<Rightarrow> slice" where
  "sl_of bs = Slice bs (length bs)"

definition sl_make :: "nat \<Rightarrow> slice" where
  "sl_make n = sl_of (replicate n 0)"

text \<open>\<^verbatim>\<open>s[i]\<close>, \<^verbatim>\<open>s[i] = x\<close> and the bytes of \<^verbatim>\<open>s[i:j]\<close>.\<close>

definition sl_get :: "slice \<Rightarrow> int \<Rightarrow> byte go" where
  "sl_get s i = (if 0 \<le> i \<and> i < int (sl_len s) then Some (sl_arr s ! nat i) else None)"

definition sl_set :: "slice \<Rightarrow> int \<Rightarrow> byte \<Rightarrow> slice go" where
  "sl_set s i x = (if 0 \<le> i \<and> i < int (sl_len s)
     then Some (Slice ((sl_arr s)[nat i := x]) (sl_len s)) else None)"

definition sl_sub :: "slice \<Rightarrow> int \<Rightarrow> int \<Rightarrow> byte list go" where
  "sl_sub s i j = (if 0 \<le> i \<and> i \<le> j \<and> j \<le> int (sl_cap s)
     then Some (take (nat j - nat i) (drop (nat i) (sl_arr s))) else None)"

text \<open>
  Storing bytes at an offset: the effect on \<open>s\<close> of writing into \<^verbatim>\<open>s[i:]\<close> through \<^verbatim>\<open>copy\<close>,
  \<^verbatim>\<open>clear\<close> or \<^verbatim>\<open>Read\<close>. Callers pass at most the bytes that fit.
\<close>

definition list_blit :: "'a list \<Rightarrow> nat \<Rightarrow> 'a list \<Rightarrow> 'a list" where
  "list_blit xs i ys = take i xs @ take (length xs - i) ys @ drop (i + length ys) xs"

definition sl_blit :: "slice \<Rightarrow> nat \<Rightarrow> byte list \<Rightarrow> slice" where
  "sl_blit s i ys = Slice (list_blit (sl_arr s) i ys) (sl_len s)"

lemma length_list_blit [simp]: "i \<le> length xs \<Longrightarrow> length (list_blit xs i ys) = length xs"
  by (simp add: list_blit_def)

lemma take_list_blit: "i \<le> length xs \<Longrightarrow> j \<le> i \<Longrightarrow> take j (list_blit xs i ys) = take j xs"
  by (simp add: list_blit_def min_absorb1)

lemma take_list_blit_end:
  "i + length ys \<le> length xs \<Longrightarrow> take (i + length ys) (list_blit xs i ys) = take i xs @ ys"
  by (simp add: list_blit_def)

lemma drop_list_blit_end:
  "i + length ys \<le> length xs \<Longrightarrow> i + length ys \<le> j \<Longrightarrow> drop j (list_blit xs i ys) = drop j xs"
  by (simp add: list_blit_def)

lemma sl_len_blit [simp]: "sl_len (sl_blit s i ys) = sl_len s"
  by (simp add: sl_blit_def)

lemma sl_cap_blit [simp]: "i \<le> sl_cap s \<Longrightarrow> sl_cap (sl_blit s i ys) = sl_cap s"
  by (simp add: sl_blit_def sl_cap_def)

lemma sl_wf_of [simp]: "sl_wf (sl_of bs)"
  by (simp add: sl_wf_def sl_of_def sl_cap_def)

lemma sl_len_of [simp]: "sl_len (sl_of bs) = length bs"
  by (simp add: sl_of_def)

lemma sl_cap_of [simp]: "sl_cap (sl_of bs) = length bs"
  by (simp add: sl_of_def sl_cap_def)

lemma sl_bytes_of [simp]: "sl_bytes (sl_of bs) = bs"
  by (simp add: sl_of_def sl_bytes_def)

lemma sl_sub_Some_iff:
  "sl_sub s i j = Some bs \<longleftrightarrow>
     0 \<le> i \<and> i \<le> j \<and> j \<le> int (sl_cap s) \<and> bs = take (nat j - nat i) (drop (nat i) (sl_arr s))"
  by (auto simp: sl_sub_def)

lemma length_sl_sub: "sl_sub s i j = Some bs \<Longrightarrow> int (length bs) = j - i"
  by (auto simp: sl_sub_Some_iff sl_cap_def)

lemma sl_sub_room:
  assumes "0 \<le> i" and "i \<le> j" and "j \<le> int (sl_cap s)"
  shows "\<exists>cut. sl_sub s i j = Some cut \<and> length cut = nat (j - i)"
proof -
  from assms obtain cut where cut: "sl_sub s i j = Some cut"
    by (simp add: sl_sub_def)
  then show ?thesis
    using length_sl_sub [OF cut] by (intro exI [of _ cut]) simp
qed

section \<open>Big-endian integers\<close>

text \<open>
  \<^verbatim>\<open>binary.BigEndian\<close>: \<^verbatim>\<open>PutUint16\<close>, \<^verbatim>\<open>PutUint32\<close> as the bytes stored, \<^verbatim>\<open>Uint16\<close>, \<^verbatim>\<open>Uint32\<close>
  as reads that panic on a slice that is too short.
\<close>

definition be_put16 :: "u16 \<Rightarrow> byte list" where
  "be_put16 w = [ucast (drop_bit 8 w), ucast w]"

definition be_put32 :: "u32 \<Rightarrow> byte list" where
  "be_put32 w = [ucast (drop_bit 24 w), ucast (drop_bit 16 w), ucast (drop_bit 8 w), ucast w]"

fun be_get16 :: "byte list \<Rightarrow> u16 go" where
  "be_get16 (a # b # _) = Some (ucast b OR push_bit 8 (ucast a))"
| "be_get16 _ = None"

fun be_get32 :: "byte list \<Rightarrow> u32 go" where
  "be_get32 (a # b # c # d # _) =
     Some (ucast d OR push_bit 8 (ucast c) OR push_bit 16 (ucast b) OR push_bit 24 (ucast a))"
| "be_get32 _ = None"

lemma length_be_put16 [simp, wire_simps]: "length (be_put16 w) = 2"
  by (simp add: be_put16_def)

lemma length_be_put32 [simp, wire_simps]: "length (be_put32 w) = 4"
  by (simp add: be_put32_def)

lemma be_get_put16 [wire_simps]: "be_get16 (be_put16 w @ bs) = Some w"
proof -
  have "ucast (ucast w :: byte) OR push_bit 8 (ucast (ucast (drop_bit 8 w) :: byte)) = w"
    by (rule bit_word_eqI)
      (auto simp: bit_or_iff bit_push_bit_iff bit_ucast_iff bit_drop_bit_eq not_le)
  then show ?thesis by (simp add: be_put16_def)
qed

lemma be_get_put32 [wire_simps]: "be_get32 (be_put32 w @ bs) = Some w"
proof -
  have "ucast (ucast w :: byte) OR push_bit 8 (ucast (ucast (drop_bit 8 w) :: byte))
      OR push_bit 16 (ucast (ucast (drop_bit 16 w) :: byte))
      OR push_bit 24 (ucast (ucast (drop_bit 24 w) :: byte)) = w" (is "?l = w")
  proof (rule bit_word_eqI)
    fix n assume n: "n < LENGTH(32)"
    then consider "n < 8" | "8 \<le> n" "n < 16" | "16 \<le> n" "n < 24" | "24 \<le> n" "n < 32"
      by fastforce
    then show "bit ?l n = bit w n"
      by cases (auto simp: bit_or_iff bit_push_bit_iff bit_ucast_iff bit_drop_bit_eq)
  qed
  then show ?thesis by (simp add: be_put32_def)
qed

lemma be_get16_long: "2 \<le> length bs \<Longrightarrow> be_get16 bs \<noteq> None"
  by (cases bs rule: be_get16.cases) auto

lemma be_get32_long: "4 \<le> length bs \<Longrightarrow> be_get32 bs \<noteq> None"
  by (cases bs rule: be_get32.cases) auto

lemma be_get16_at: "n + 2 \<le> length bs \<Longrightarrow> \<exists>w. be_get16 (drop n bs) = Some w"
  using be_get16_long [of "drop n bs"] by auto

lemma be_get32_at: "n + 4 \<le> length bs \<Longrightarrow> \<exists>w. be_get32 (drop n bs) = Some w"
  using be_get32_long [of "drop n bs"] by auto

section \<open>Lists\<close>

lemma sum_list_map_length_concat: "sum_list (map length xss) = length (concat xss)"
  by (induction xss) auto

lemma drop_window:
  "s \<le> e \<Longrightarrow> k \<le> e - s \<Longrightarrow> drop (e - s - k) (take (e - s) (drop s xs)) = take k (drop (e - k) xs)"
  for s e k :: nat
  by (simp add: drop_take)

lemma take_append_exact: "length xs = n \<Longrightarrow> take n (xs @ ys) = xs"
  by simp

lemma drop_append_exact: "length xs = n \<Longrightarrow> drop n (xs @ ys) = ys"
  by simp

end
