(* ===== verification/Net_Addr.thy ===== *)
theory Net_Addr
  imports Prelude
begin

text \<open>
  The network vocabulary of \<^verbatim>\<open>common/net\<close>: addresses and their families, ports, port ranges
  and lists, networks and destinations. A Go interface or pointer that may be nil is an
  \<open>option\<close>. \<^verbatim>\<open>net.ParseIP\<close> of the standard library, on which \<open>ParseAddress\<close> rests, is modelled
  first; zone-qualified addresses are rejected by it, as in Go.
\<close>

section \<open>The standard library's textual IP addresses\<close>

definition is_digit :: "byte \<Rightarrow> bool" where
  "is_digit c \<longleftrightarrow> 48 \<le> c \<and> c \<le> 57"

definition hex_val :: "byte \<Rightarrow> nat option" where
  "hex_val c = (if is_digit c then Some (unat c - 48)
     else if 97 \<le> c \<and> c \<le> 102 then Some (unat c - 97 + 10)
     else if 65 \<le> c \<and> c \<le> 70 then Some (unat c - 65 + 10) else None)"

text \<open>
  \<^verbatim>\<open>netip.parseIPv4Fields\<close>: the octets read so far, the current value and its number of digits;
  \<open>prev_dot\<close> records that the position just before is a dot or the start.
\<close>

fun parse_ipv4_fields :: "gostring \<Rightarrow> byte list \<Rightarrow> nat \<Rightarrow> nat \<Rightarrow> bool \<Rightarrow> byte list option" where
  "parse_ipv4_fields [] acc val digLen prev_dot =
     (if length acc < 3 then None else Some (acc @ [of_nat val]))"
| "parse_ipv4_fields (c # s) acc val digLen prev_dot =
     (if is_digit c then
        if digLen = 1 \<and> val = 0 then None
        else let val' = val * 10 + unat c - 48 in
          if val' > 255 then None
          else parse_ipv4_fields s acc val' (digLen + 1) False
      else if c = 46 then
        if prev_dot \<or> s = [] then None
        else if length acc = 3 then None
        else parse_ipv4_fields s (acc @ [of_nat val]) 0 0 True
      else None)"

definition parse_ipv4 :: "gostring \<Rightarrow> byte list option" where
  "parse_ipv4 s = parse_ipv4_fields s [] 0 0 True"

text \<open>
  \<^verbatim>\<open>netip.parseIPv6\<close>, without a zone: one group of hexadecimal digits, then the loop over the
  groups with the bytes collected so far and the position of the ellipsis.
\<close>

fun hex_group :: "gostring \<Rightarrow> nat \<Rightarrow> nat \<Rightarrow> (nat \<times> nat \<times> gostring) option" where
  "hex_group [] off acc = Some (off, acc, [])"
| "hex_group (c # s) off acc =
     (case hex_val c of
        None \<Rightarrow> Some (off, acc, c # s)
      | Some h \<Rightarrow> if off > 3 then None else hex_group s (off + 1) (acc * 16 + h))"

fun ipv6_groups :: "nat \<Rightarrow> gostring \<Rightarrow> byte list \<Rightarrow> nat option
    \<Rightarrow> (gostring \<times> byte list \<times> nat option) option" where
  "ipv6_groups 0 s ip ell = Some (s, ip, ell)"
| "ipv6_groups (Suc n) s ip ell =
     (if 16 \<le> length ip then Some (s, ip, ell)
      else case hex_group s 0 0 of
        None \<Rightarrow> None
      | Some (off, acc, rest) \<Rightarrow>
          if off = 0 then None
          else if rest \<noteq> [] \<and> hd rest = 46 then
            if ell = None \<and> length ip \<noteq> 12 then None
            else if length ip + 4 > 16 then None
            else (case parse_ipv4 s of
                None \<Rightarrow> None
              | Some v4 \<Rightarrow> Some ([], ip @ v4, ell))
          else let ip' = ip @ [of_nat (acc div 256), of_nat (acc mod 256)] in
            (case rest of
               [] \<Rightarrow> Some ([], ip', ell)
             | c # r \<Rightarrow>
                 if c \<noteq> 58 then None
                 else if r = [] then None
                 else if hd r = 58 then
                   if ell \<noteq> None then None
                   else if tl r = [] then Some ([], ip', Some (length ip'))
                   else ipv6_groups n (tl r) ip' (Some (length ip'))
                 else ipv6_groups n r ip' ell))"

definition parse_ipv6 :: "gostring \<Rightarrow> byte list option" where
  "parse_ipv6 s =
     (if take 2 s = [58, 58] \<and> drop 2 s = [] then Some (replicate 16 0)
      else let lead = take 2 s = [58, 58] in
        case ipv6_groups 8 (if lead then drop 2 s else s) [] (if lead then Some 0 else None) of
          None \<Rightarrow> None
        | Some (rest, ip, ell) \<Rightarrow>
            if rest \<noteq> [] then None
            else if length ip < 16 then
              (case ell of
                 None \<Rightarrow> None
               | Some e \<Rightarrow> Some (take e ip @ replicate (16 - length ip) 0 @ drop e ip))
            else if ell \<noteq> None then None
            else Some ip)"

text \<open>
  \<^verbatim>\<open>net.ParseIP\<close>: the first of \<^verbatim>\<open>'.'\<close>, \<^verbatim>\<open>':'\<close> and \<^verbatim>\<open>'%'\<close> decides the form; the result has 16 bytes.
\<close>

definition ParseIP :: "gostring \<Rightarrow> byte list option" where
  "ParseIP s =
     (case find (\<lambda>c. c = 46 \<or> c = 58 \<or> c = 37) s of
        None \<Rightarrow> None
      | Some c \<Rightarrow>
          if c = 46 then map_option (\<lambda>ip. replicate 10 0 @ [255, 255] @ ip) (parse_ipv4 s)
          else if c = 58 \<and> 37 \<notin> set s then parse_ipv6 s
          else None)"

lemma parse_ipv4_fields_length:
  "length acc \<le> 3 \<Longrightarrow> parse_ipv4_fields s acc val dl pd = Some ip \<Longrightarrow> length ip = 4"
  by (induction s acc val dl pd rule: parse_ipv4_fields.induct)
    (auto simp: Let_def split: if_splits)

lemma parse_ipv4_length: "parse_ipv4 s = Some ip \<Longrightarrow> length ip = 4"
  using parse_ipv4_fields_length [of "[]"] by (simp add: parse_ipv4_def)

lemma ipv6_groups_length:
  "ipv6_groups n s ip ell = Some (r', ip', ell') \<Longrightarrow> even (length ip) \<Longrightarrow> length ip \<le> 16
     \<Longrightarrow> (\<forall>e. ell = Some e \<longrightarrow> e \<le> length ip)
     \<Longrightarrow> length ip' \<le> 16 \<and> (\<forall>e. ell' = Some e \<longrightarrow> e \<le> length ip')"
proof (induction n s ip ell rule: ipv6_groups.induct)
  case (1 s ip ell)
  then show ?case by simp
next
  case (2 n s ip ell)
  show ?case
  proof (cases "16 \<le> length ip")
    case True
    with "2.prems" show ?thesis by simp
  next
    case False
    with "2.prems"(2) have room: "length ip \<le> 14" by presburger
    obtain off acc rest where hg: "hex_group s 0 0 = Some (off, acc, rest)"
      using "2.prems"(1) False by (auto split: option.splits)
    show ?thesis
    proof (cases "rest \<noteq> [] \<and> hd rest = 46")
      case True
      with "2.prems" False hg show ?thesis
        by (auto split: if_splits option.splits dest!: parse_ipv4_length)
    next
      case no_dot: False
      show ?thesis
      proof (cases rest)
        case Nil
        with "2.prems" False hg no_dot room show ?thesis
          by (fastforce simp: Let_def split: if_splits)
      next
        case (Cons c r)
        let ?ip = "ip @ [of_nat (acc div 256), of_nat (acc mod 256)]"
        note unf = "2.prems"(1) False hg no_dot Cons
        show ?thesis
        proof (cases "hd r = 58")
          case ell: True
          show ?thesis
          proof (cases "tl r = []")
            case True
            with unf ell room show ?thesis by (simp add: Let_def split: if_splits) auto
          next
            case more: False
            with unf ell have "ipv6_groups n (tl r) ?ip (Some (length ?ip)) = Some (r', ip', ell')"
              by (simp add: Let_def split: if_splits)
            with "2.IH"(1) [OF False hg] unf ell more room "2.prems" show ?thesis
              by (simp add: Let_def split: if_splits)
          qed
        next
          case plain: False
          with unf have "ipv6_groups n r ?ip ell = Some (r', ip', ell')"
            by (simp add: Let_def split: if_splits)
          with "2.IH"(2) [OF False hg] unf plain room "2.prems" show ?thesis
            by (simp add: Let_def le_SucI split: if_splits)
        qed
      qed
    qed
  qed
qed

lemma parse_ipv6_length: "parse_ipv6 s = Some ip \<Longrightarrow> length ip = 16"
  using ipv6_groups_length
  by (fastforce simp: parse_ipv6_def Let_def split: if_splits option.splits prod.splits)

lemma ParseIP_length: "ParseIP s = Some ip \<Longrightarrow> length ip = 16"
  by (auto simp: ParseIP_def split: option.splits if_splits
      dest: parse_ipv4_length parse_ipv6_length)

section \<open>Addresses\<close>

datatype AddressFamily = AddressFamilyIPv4 | AddressFamilyIPv6 | AddressFamilyDomain

datatype Address =
    ipv4Address "byte list"
  | ipv6Address "byte list"
  | domainAddress gostring

fun Family :: "Address \<Rightarrow> AddressFamily" where
  "Family (ipv4Address _) = AddressFamilyIPv4"
| "Family (ipv6Address _) = AddressFamilyIPv6"
| "Family (domainAddress _) = AddressFamilyDomain"

definition IsIP :: "AddressFamily \<Rightarrow> bool" where
  "IsIP f \<longleftrightarrow> f = AddressFamilyIPv4 \<or> f = AddressFamilyIPv6"

text \<open>The accessors panic on an address of the other kind.\<close>

fun Address_IP :: "Address \<Rightarrow> byte list go" where
  "Address_IP (ipv4Address ip) = Some ip"
| "Address_IP (ipv6Address ip) = Some ip"
| "Address_IP (domainAddress _) = None"

fun Address_Domain :: "Address \<Rightarrow> gostring go" where
  "Address_Domain (domainAddress d) = Some d"
| "Address_Domain _ = None"

text \<open>The Go types \<^verbatim>\<open>[4]byte\<close> and \<^verbatim>\<open>[16]byte\<close> have a fixed length.\<close>

fun addr_wf :: "Address \<Rightarrow> bool" where
  "addr_wf (ipv4Address ip) = (length ip = 4)"
| "addr_wf (ipv6Address ip) = (length ip = 16)"
| "addr_wf (domainAddress _) = True"

definition v4_in_v6 :: "byte list \<Rightarrow> bool" where
  "v4_in_v6 ip \<longleftrightarrow> take 10 ip = replicate 10 0 \<and> ip ! 10 = 255 \<and> ip ! 11 = 255"

definition IPAddress :: "byte list \<Rightarrow> Address option" where
  "IPAddress ip =
     (if length ip = 4 then Some (ipv4Address ip)
      else if length ip = 16 then
        if v4_in_v6 ip then Some (ipv4Address (drop 12 ip))
        else Some (ipv6Address ip)
      else None)"

definition DomainAddress :: "gostring \<Rightarrow> Address" where
  "DomainAddress d = domainAddress d"

lemma IPAddress_wf: "IPAddress ip = Some a \<Longrightarrow> addr_wf a"
  by (auto simp: IPAddress_def split: if_splits)

lemma IPAddress_family: "IPAddress ip = Some a \<Longrightarrow> IsIP (Family a)"
  by (auto simp: IPAddress_def IsIP_def split: if_splits)

lemma IPAddress_Some_iff: "(\<exists>a. IPAddress ip = Some a) \<longleftrightarrow> length ip = 4 \<or> length ip = 16"
  by (auto simp: IPAddress_def)

section \<open>Parsing addresses\<close>

text \<open>
  \<^verbatim>\<open>strings.TrimSpace\<close> removes the UTF-8 encodings of Unicode white space at both ends.
\<close>

definition space_seqs :: "gostring list" where
  "space_seqs = [[9], [10], [11], [12], [13], [32], [0xC2, 0x85], [0xC2, 0xA0], [0xE1, 0x9A, 0x80],
     [0xE2, 0x80, 0x80], [0xE2, 0x80, 0x81], [0xE2, 0x80, 0x82], [0xE2, 0x80, 0x83],
     [0xE2, 0x80, 0x84], [0xE2, 0x80, 0x85], [0xE2, 0x80, 0x86], [0xE2, 0x80, 0x87],
     [0xE2, 0x80, 0x88], [0xE2, 0x80, 0x89], [0xE2, 0x80, 0x8A], [0xE2, 0x80, 0xA8],
     [0xE2, 0x80, 0xA9], [0xE2, 0x80, 0xAF], [0xE2, 0x81, 0x9F], [0xE3, 0x80, 0x80]]"

fun strip_seqs :: "gostring list \<Rightarrow> nat \<Rightarrow> gostring \<Rightarrow> gostring" where
  "strip_seqs seqs 0 s = s"
| "strip_seqs seqs (Suc n) s =
     (case find (\<lambda>q. take (length q) s = q) seqs of
        None \<Rightarrow> s
      | Some q \<Rightarrow> strip_seqs seqs n (drop (length q) s))"

definition TrimSpace :: "gostring \<Rightarrow> gostring" where
  "TrimSpace s =
     (let l = strip_seqs space_seqs (length s) s
      in rev (strip_seqs (map rev space_seqs) (length l) (rev l)))"

definition isAlphaNum :: "byte \<Rightarrow> bool" where
  "isAlphaNum c \<longleftrightarrow> is_digit c \<or> (97 \<le> c \<and> c \<le> 122) \<or> (65 \<le> c \<and> c \<le> 90)"

definition ParseAddress :: "gostring \<Rightarrow> Address option" where
  "ParseAddress addr0 =
     (let addr1 = (if addr0 \<noteq> [] \<and> hd addr0 = 91 \<and> last addr0 = 93
                   then butlast (tl addr0) else addr0);
          addr = (if addr1 \<noteq> [] \<and> (\<not> isAlphaNum (hd addr1) \<or> \<not> isAlphaNum (last addr1))
                  then TrimSpace addr1 else addr1)
      in case ParseIP addr of
           Some ip \<Rightarrow> IPAddress ip
         | None \<Rightarrow> Some (DomainAddress addr))"

lemma ParseAddress_total: "\<exists>a. ParseAddress s = Some a \<and> addr_wf a"
proof -
  have "\<exists>a. IPAddress ip = Some a \<and> addr_wf a" if "ParseIP x = Some ip" for x ip
    using that ParseIP_length IPAddress_Some_iff IPAddress_wf by blast
  then show ?thesis
    by (auto simp: ParseAddress_def Let_def DomainAddress_def split: option.splits)
qed

section \<open>Ports\<close>

type_synonym Port = u16

definition PortFromBytes :: "byte list \<Rightarrow> Port go" where
  "PortFromBytes bs = be_get16 bs"

definition PortFromInt :: "u32 \<Rightarrow> go_error + Port" where
  "PortFromInt val = (if val > 65535 then Inl (ErrNew ''invalid port range: '') else Inr (ucast val))"

text \<open>\<^verbatim>\<open>strconv.ParseUint(s, 10, 32)\<close>: decimal digits only, at least one, below \<open>2 ^ 32\<close>.\<close>

definition dec_val :: "gostring \<Rightarrow> nat" where
  "dec_val s = foldl (\<lambda>n c. n * 10 + (unat c - 48)) 0 s"

definition ParseUint32 :: "gostring \<Rightarrow> u32 option" where
  "ParseUint32 s =
     (if s \<noteq> [] \<and> list_all is_digit s \<and> dec_val s < 4294967296 then Some (of_nat (dec_val s)) else None)"

definition PortFromString :: "gostring \<Rightarrow> go_error + Port" where
  "PortFromString s =
     (case ParseUint32 s of
        None \<Rightarrow> Inl (ErrNew ''invalid port range: '')
      | Some val \<Rightarrow> PortFromInt val)"

text \<open>\<^verbatim>\<open>strconv.Itoa\<close> on a port number.\<close>

fun itoa :: "nat \<Rightarrow> gostring" where
  "itoa n = (if n < 10 then [48 + of_nat n] else itoa (n div 10) @ [48 + of_nat (n mod 10)])"

declare itoa.simps [simp del]

definition Port_String :: "Port \<Rightarrow> gostring" where
  "Port_String p = itoa (unat p)"

record PortRange =
  From :: u32
  To :: u32

definition FromPort :: "PortRange \<Rightarrow> Port" where
  "FromPort r = ucast (From r)"

definition ToPort :: "PortRange \<Rightarrow> Port" where
  "ToPort r = ucast (To r)"

definition PortRange_Contains :: "PortRange \<Rightarrow> Port \<Rightarrow> bool" where
  "PortRange_Contains r port \<longleftrightarrow> FromPort r \<le> port \<and> port \<le> ToPort r"

definition SinglePortRange :: "Port \<Rightarrow> PortRange" where
  "SinglePortRange p = \<lparr>From = ucast p, To = ucast p\<rparr>"

record MemoryPortRange =
  mFrom :: Port
  mTo :: Port

definition MemoryPortRange_Contains :: "MemoryPortRange \<Rightarrow> Port \<Rightarrow> bool" where
  "MemoryPortRange_Contains r port \<longleftrightarrow> mFrom r \<le> port \<and> port \<le> mTo r"

definition PortListFromProto :: "PortRange list \<Rightarrow> MemoryPortRange list" where
  "PortListFromProto l = map (\<lambda>r. \<lparr>mFrom = ucast (From r), mTo = ucast (To r)\<rparr>) l"

fun MemoryPortList_Contains :: "MemoryPortRange list \<Rightarrow> Port \<Rightarrow> bool" where
  "MemoryPortList_Contains [] port = False"
| "MemoryPortList_Contains (pr # mpl) port =
     (if MemoryPortRange_Contains pr port then True else MemoryPortList_Contains mpl port)"

lemma digit_byte: "n < 10 \<Longrightarrow> is_digit (48 + of_nat n) \<and> unat (48 + of_nat n :: byte) = 48 + n"
proof -
  assume n: "n < 10"
  then have u: "unat (48 + of_nat n :: byte) = 48 + n"
    by (simp add: unat_word_ariths unat_of_nat)
  then have "(48::byte) \<le> 48 + of_nat n" and "(48 + of_nat n :: byte) \<le> 57"
    using n by (simp_all add: word_le_nat_alt)
  with u show ?thesis by (simp add: is_digit_def)
qed

lemma dec_val_snoc: "dec_val (s @ [c]) = dec_val s * 10 + (unat c - 48)"
  by (simp add: dec_val_def)

lemma itoa_digits: "list_all is_digit (itoa n) \<and> itoa n \<noteq> [] \<and> dec_val (itoa n) = n"
proof (induction n rule: itoa.induct)
  case (1 n)
  show ?case
  proof (cases "n < 10")
    case True
    then show ?thesis
      by (subst (1 2 3) itoa.simps) (simp add: digit_byte dec_val_def)
  next
    case False
    with 1 show ?thesis
      by (subst (1 2 3) itoa.simps) (simp add: digit_byte dec_val_snoc)
  qed
qed

lemma PortFromInt_Inr_iff: "PortFromInt v = Inr p \<longleftrightarrow> v = ucast p"
proof -
  have down: "v = ucast (ucast v :: u16)" if "v \<le> 65535"
    using that by (simp add: word_unat_eq_iff unsigned_ucast_eq word_le_nat_alt unsigned_take_bit_eq take_bit_nat_eq_self)
  have up: "(ucast p :: u32) \<le> 65535" for p :: u16
    using unat_u16_less [of p] by (simp add: word_le_nat_alt unsigned_ucast_eq take_bit_nat_eq_self)
  have inv: "ucast (ucast p :: u32) = p" for p :: u16
    using unat_u16_less [of p] by (simp add: word_unat_eq_iff unsigned_ucast_eq unsigned_take_bit_eq take_bit_nat_eq_self)
  show ?thesis
    using down up inv by (auto simp: PortFromInt_def not_less [symmetric])
qed

text \<open>Printing a port and reading the text back gives the port.\<close>

lemma PortFromString_Port_String: "PortFromString (Port_String p) = Inr p"
proof -
  have "unat p < 65536"
    using unat_u16_less [of p] by simp
  moreover have "(of_nat (unat p) :: u32) = ucast p"
    using unat_u16_less [of p] by (simp add: word_unat_eq_iff unsigned_ucast_eq unat_of_nat take_bit_nat_eq_self)
  ultimately show ?thesis
    using itoa_digits [of "unat p"]
    by (simp add: PortFromString_def ParseUint32_def Port_String_def PortFromInt_Inr_iff)
qed

lemma MemoryPortList_Contains_iff:
  "MemoryPortList_Contains l p \<longleftrightarrow> (\<exists>r \<in> set l. mFrom r \<le> p \<and> p \<le> mTo r)"
  by (induction l) (auto simp: MemoryPortRange_Contains_def)

lemma PortListFromProto_Contains:
  "MemoryPortList_Contains (PortListFromProto l) p \<longleftrightarrow> (\<exists>r \<in> set l. PortRange_Contains r p)"
  by (simp add: MemoryPortList_Contains_iff PortListFromProto_def PortRange_Contains_def
      FromPort_def ToPort_def)

section \<open>Networks and destinations\<close>

datatype Network = Network_Unknown | Network_TCP | Network_UDP | Network_UNIX

fun SystemString :: "Network \<Rightarrow> string" where
  "SystemString Network_TCP = ''tcp''"
| "SystemString Network_UDP = ''udp''"
| "SystemString Network_UNIX = ''unix''"
| "SystemString _ = ''unknown''"

fun HasNetwork :: "Network list \<Rightarrow> Network \<Rightarrow> bool" where
  "HasNetwork [] network = False"
| "HasNetwork (value # ns) network = (if value = network then True else HasNetwork ns network)"

record Destination =
  dest_Address :: "Address option"
  dest_Port :: Port
  dest_Network :: Network

definition TCPDestination :: "Address option \<Rightarrow> Port \<Rightarrow> Destination" where
  "TCPDestination a p = \<lparr>dest_Address = a, dest_Port = p, dest_Network = Network_TCP\<rparr>"

definition UDPDestination :: "Address option \<Rightarrow> Port \<Rightarrow> Destination" where
  "UDPDestination a p = \<lparr>dest_Address = a, dest_Port = p, dest_Network = Network_UDP\<rparr>"

definition UnixDestination :: "Address option \<Rightarrow> Destination" where
  "UnixDestination a = \<lparr>dest_Address = a, dest_Port = 0, dest_Network = Network_UNIX\<rparr>"

definition zero_Destination :: Destination where
  "zero_Destination = \<lparr>dest_Address = None, dest_Port = 0, dest_Network = Network_Unknown\<rparr>"

definition Destination_IsValid :: "Destination \<Rightarrow> bool" where
  "Destination_IsValid d \<longleftrightarrow> dest_Network d \<noteq> Network_Unknown"

end
