(* ===== verification/Byte_Channel.thy ===== *)
theory Byte_Channel
  imports Prelude
begin

text \<open>
  The contract of the packages' byte containers: a write appends a prefix of the bytes it is given
  and says how many it took, a read removes a prefix of what is held. A container keeps the
  contract when its operations satisfy the laws of \<open>byte_channel\<close>; the locale's lemmas then hold for
  every sequence of writes and reads. \<open>lossless_channel\<close> is the stronger contract of the containers
  that grow: their writes take everything.
\<close>

datatype chan_op = ChWrite "byte list" | ChRead nat

type_synonym 's chan_write = "'s \<Rightarrow> byte list \<Rightarrow> (nat \<times> 's) go"
type_synonym 's chan_read = "'s \<Rightarrow> nat \<Rightarrow> (byte list \<times> 's) go"

text \<open>The bytes accepted by the writes, the bytes returned by the reads, and the final state.\<close>

fun chan_run :: "'s chan_write \<Rightarrow> 's chan_read \<Rightarrow> 's \<Rightarrow> chan_op list \<Rightarrow> (byte list \<times> byte list \<times> 's) go" where
  "chan_run wr rd s [] = Some ([], [], s)"
| "chan_run wr rd s (ChWrite bs # ops) = do {
     (n, s') \<leftarrow> wr s bs;
     (ins, outs, t) \<leftarrow> chan_run wr rd s' ops;
     Some (take n bs @ ins, outs, t)
   }"
| "chan_run wr rd s (ChRead k # ops) = do {
     (bs, s') \<leftarrow> rd s k;
     (ins, outs, t) \<leftarrow> chan_run wr rd s' ops;
     Some (ins, bs @ outs, t)
   }"

fun offered :: "chan_op list \<Rightarrow> byte list" where
  "offered [] = []"
| "offered (ChWrite bs # ops) = bs @ offered ops"
| "offered (ChRead k # ops) = offered ops"

locale byte_channel =
  fixes inv :: "'s \<Rightarrow> bool"
    and held :: "'s \<Rightarrow> byte list"
    and wr :: "'s \<Rightarrow> byte list \<Rightarrow> (nat \<times> 's) option"
    and rd :: "'s \<Rightarrow> nat \<Rightarrow> (byte list \<times> 's) option"
  assumes wr_law: "inv s \<Longrightarrow>
      \<exists>n s'. wr s bs = Some (n, s') \<and> n \<le> length bs \<and> inv s' \<and> held s' = held s @ take n bs"
    and rd_law: "inv s \<Longrightarrow>
      \<exists>s'. rd s k = Some (take k (held s), s') \<and> inv s' \<and> held s' = drop k (held s)"
begin

lemma run_fifo:
  "inv s \<Longrightarrow> \<exists>ins outs t. chan_run wr rd s ops = Some (ins, outs, t) \<and> inv t
     \<and> held s @ ins = outs @ held t"
proof (induction ops arbitrary: s)
  case Nil
  then show ?case by simp
next
  case (Cons op ops)
  show ?case
  proof (cases op)
    case (ChWrite bs)
    from wr_law [OF Cons.prems, of bs] obtain n s' where w: "wr s bs = Some (n, s')" "inv s'"
        "held s' = held s @ take n bs"
      by blast
    from Cons.IH [OF w(2)] w ChWrite show ?thesis by auto
  next
    case (ChRead k)
    from rd_law [OF Cons.prems, of k] obtain s' where r: "rd s k = Some (take k (held s), s')" "inv s'"
        "held s' = drop k (held s)"
      by blast
    from Cons.IH [OF r(2)] obtain ins outs t
      where i: "chan_run wr rd s' ops = Some (ins, outs, t)" "inv t" "held s' @ ins = outs @ held t"
      by blast
    have "held s @ ins = take k (held s) @ held s' @ ins"
      by (simp add: r(3) flip: append_assoc)
    with i r(1) ChRead show ?thesis by auto
  qed
qed

end

locale lossless_channel = byte_channel +
  assumes wr_all: "inv s \<Longrightarrow> wr s bs = Some (n, s') \<Longrightarrow> n = length bs"
begin

lemma run_accepts:
  "inv s \<Longrightarrow> chan_run wr rd s ops = Some (ins, outs, t) \<Longrightarrow> ins = offered ops"
proof (induction ops arbitrary: s ins outs t)
  case Nil
  then show ?case by simp
next
  case (Cons op ops)
  show ?case
  proof (cases op)
    case (ChWrite bs)
    from wr_law [OF Cons.prems(1), of bs] obtain n s' where w: "wr s bs = Some (n, s')" "inv s'"
      by blast
    with wr_all [OF Cons.prems(1) w(1)] Cons.prems(2) Cons.IH [OF w(2)] ChWrite
    show ?thesis by (auto split: bind_splits)
  next
    case (ChRead k)
    from rd_law [OF Cons.prems(1), of k] obtain s' where "rd s k = Some (take k (held s), s')" "inv s'"
      by blast
    with Cons.prems(2) Cons.IH ChRead show ?thesis by (auto split: bind_splits)
  qed
qed

text \<open>What comes out is a prefix of what was held and offered; the rest is still held.\<close>

lemma run_lossless:
  assumes "inv s"
  shows "\<exists>outs t. chan_run wr rd s ops = Some (offered ops, outs, t) \<and> inv t
    \<and> held s @ offered ops = outs @ held t"
  using run_fifo [OF assms, of ops] run_accepts [OF assms] by blast

end

end
