(* ===== verification/Wire_Codec.thy ===== *)
theory Wire_Codec
  imports Prelude
begin

text \<open>
  The contract of the self-delimiting encodings of the wire formats: decoding what was encoded,
  followed by anything, gives back the encoded value as far as \<open>view\<close> sees it and leaves exactly
  the bytes that follow. The locale's lemma lifts the contract to packets that carry several
  encoded values, which a reader takes apart one after the other.
\<close>

text \<open>
  A reader loop: decode until the input is used up or a decoder call fails. The decoder's first
  argument counts the calls, for decoders that take a fresh resource each time.
\<close>

fun decode_all :: "(nat \<Rightarrow> byte list \<Rightarrow> ('a \<times> byte list) option) \<Rightarrow> nat \<Rightarrow> nat \<Rightarrow> byte list \<Rightarrow> 'a list" where
  "decode_all dec k 0 bs = []"
| "decode_all dec k (Suc n) bs =
     (if bs = [] then []
      else case dec k bs of None \<Rightarrow> [] | Some (x, rest) \<Rightarrow> x # decode_all dec (Suc k) n rest)"

locale wire_codec =
  fixes ok :: "'a \<Rightarrow> bool"
    and enc :: "'a \<Rightarrow> byte list"
    and dec :: "nat \<Rightarrow> byte list \<Rightarrow> ('b \<times> byte list) option"
    and same :: "'a \<Rightarrow> 'b \<Rightarrow> bool"
  assumes dec_enc: "ok x \<Longrightarrow> \<exists>y. dec k (enc x @ rest) = Some (y, rest) \<and> same x y"
    and enc_some: "ok x \<Longrightarrow> enc x \<noteq> []"
begin

lemma decode_all_enc:
  "list_all ok xs \<Longrightarrow> length (concat (map enc xs)) \<le> n \<Longrightarrow>
     list_all2 same xs (decode_all dec k n (concat (map enc xs)))"
proof (induction xs arbitrary: n k)
  case Nil
  then show ?case by (cases n) auto
next
  case (Cons x xs)
  then have ok: "ok x" "list_all ok xs" by simp_all
  from dec_enc [OF ok(1), of k "concat (map enc xs)"] obtain y where
    y: "dec k (enc x @ concat (map enc xs)) = Some (y, concat (map enc xs))" "same x y"
    by blast
  from enc_some [OF ok(1)] Cons.prems(2) obtain m where m: "n = Suc m" "length (concat (map enc xs)) \<le> m"
    by (cases n) (auto simp: neq_Nil_conv)
  from Cons.IH [OF ok(2) m(2)] y m(1) enc_some [OF ok(1)] show ?case by auto
qed

end

end
