(* ===== verification/Buffer.thy ===== *)
theory Buffer
  imports Net_Addr Byte_Channel
begin

text \<open>
  \<^verbatim>\<open>common/buf/buffer.go\<close> and \<^verbatim>\<open>common/bytespool/pool.go\<close>. A \<open>Buffer\<close> is a window \<open>[start, end)\<close>
  into a recycled byte slice; the two positions are \<^verbatim>\<open>int32\<close> values and every sum of them wraps
  as in Go. A slice taken from a pool has arbitrary contents, so the constructors take the
  slice the pool hands out as an argument. Operations that index or slice return \<open>None\<close> where Go
  panics. \<open>buf_inv\<close> is the representation invariant; \<open>content\<close> is the abstraction, the bytes
  the window shows.
\<close>

section \<open>The byte pools\<close>

definition numPools :: nat where
  "numPools = 4"

text \<open>The sizes that \<^verbatim>\<open>init\<close> computes: 2 KiB times powers of \<^verbatim>\<open>sizeMulti\<close>.\<close>

fun pool_sizes :: "nat \<Rightarrow> nat \<Rightarrow> nat list" where
  "pool_sizes 0 sz = []"
| "pool_sizes (Suc n) sz = sz # pool_sizes n (sz * 4)"

definition poolSize :: "nat list" where
  "poolSize = pool_sizes numPools 2048"

fun first_pool :: "nat list \<Rightarrow> nat \<Rightarrow> int \<Rightarrow> nat option" where
  "first_pool [] idx sz = None"
| "first_pool (ps # pss) idx sz =
     (if sz \<le> int ps then Some idx else first_pool pss (Suc idx) sz)"

definition GetPool :: "int \<Rightarrow> nat option" where
  "GetPool sz = first_pool poolSize 0 sz"

text \<open>
  The pools as the slices put into them. \<open>Alloc\<close> takes the slice the chosen pool's \<^verbatim>\<open>Get\<close>
  returned; \<open>pool_get\<close> says which slices that may be: one put there, or a fresh one.
\<close>

type_synonym pools = "slice list list"

definition pool_get :: "pools \<Rightarrow> nat \<Rightarrow> slice \<Rightarrow> bool" where
  "pool_get ps i s \<longleftrightarrow> s = sl_make (poolSize ! i) \<or> s \<in> set (ps ! i)"

definition Alloc :: "int \<Rightarrow> slice \<Rightarrow> slice" where
  "Alloc sz got = (case GetPool sz of Some _ \<Rightarrow> got | None \<Rightarrow> sl_make (nat sz))"

fun last_pool :: "nat \<Rightarrow> int \<Rightarrow> nat option" where
  "last_pool 0 sz = None"
| "last_pool (Suc i) sz = (if int (poolSize ! i) \<le> sz then Some i else last_pool i sz)"

definition Free :: "pools \<Rightarrow> slice \<Rightarrow> pools" where
  "Free ps b =
     (case last_pool numPools (int32 (int (sl_cap b))) of
        None \<Rightarrow> ps
      | Some i \<Rightarrow> ps[i := ps ! i @ [Slice (sl_arr b) (sl_cap b)]])"

definition pools_inv :: "pools \<Rightarrow> bool" where
  "pools_inv ps \<longleftrightarrow> length ps = numPools \<and>
     (\<forall>i < numPools. \<forall>s \<in> set (ps ! i). poolSize ! i \<le> sl_len s \<and> sl_wf s)"

lemma poolSize_eq: "poolSize = [2048, 8192, 32768, 131072]"
proof -
  have "pool_sizes (Suc (Suc (Suc (Suc 0)))) 2048 = [2048, 8192, 32768, 131072]"
    by simp
  moreover have "numPools = Suc (Suc (Suc (Suc 0)))"
    by (simp add: numPools_def)
  ultimately show ?thesis
    by (metis poolSize_def)
qed

lemma last_pool_Some: "last_pool n sz = Some i \<Longrightarrow> i < n \<and> int (poolSize ! i) \<le> sz"
  by (induction n sz rule: last_pool.induct) (auto split: if_splits)

lemma Free_inv:
  assumes "pools_inv ps" and "sl_cap b < 2147483648"
  shows "pools_inv (Free ps b)"
proof (cases "last_pool numPools (int32 (int (sl_cap b)))")
  case None
  with assms show ?thesis by (simp add: Free_def)
next
  case (Some i)
  with assms(2) have "i < numPools" and "poolSize ! i \<le> sl_cap b"
    using last_pool_Some [OF Some] by auto
  with assms(1) Some show ?thesis
    by (auto simp: Free_def pools_inv_def nth_list_update sl_wf_def sl_cap_def)
qed

lemma first_pool_Some:
  "first_pool pss idx sz = Some i \<Longrightarrow>
     idx \<le> i \<and> i - idx < length pss \<and> sz \<le> int (pss ! (i - idx))"
proof (induction pss idx sz rule: first_pool.induct)
  case (2 ps pss idx sz)
  then show ?case
    by (auto split: if_splits simp: nth_Cons' Suc_diff_le)
qed simp

lemma Alloc_enough:
  assumes "pools_inv ps" and "\<And>i. GetPool sz = Some i \<Longrightarrow> pool_get ps i got"
  shows "sz \<le> int (sl_len (Alloc sz got)) \<and> sl_wf (Alloc sz got)"
proof (cases "GetPool sz")
  case None
  then show ?thesis by (simp add: Alloc_def sl_make_def)
next
  case (Some i)
  then have i: "i < numPools" "sz \<le> int (poolSize ! i)"
    using first_pool_Some [of poolSize 0 sz i] by (auto simp: GetPool_def poolSize_eq numPools_def)
  with assms(1) assms(2) [OF Some] have "poolSize ! i \<le> sl_len got \<and> sl_wf got"
    by (auto simp: pool_get_def pools_inv_def sl_make_def)
  with i Some show ?thesis
    by (auto simp: Alloc_def)
qed

section \<open>Buffers\<close>

abbreviation Size :: nat where
  "Size \<equiv> 8192"

datatype ownership = managed | unmanaged | bytespools

record Buffer =
  buf_v :: slice
  buf_start :: int
  buf_end :: int
  buf_ownership :: ownership
  buf_UDP :: "Destination option"

definition Buffer_New :: "slice \<Rightarrow> Buffer" where
  "Buffer_New got =
     \<lparr>buf_v = (if Size \<le> sl_cap got then Slice (sl_arr got) Size else sl_make Size),
      buf_start = 0, buf_end = 0, buf_ownership = managed, buf_UDP = None\<rparr>"

definition NewExisted :: "slice \<Rightarrow> Buffer go" where
  "NewExisted b =
     (if sl_cap b < Size then None
      else Some \<lparr>buf_v = (if sl_len b < Size then Slice (sl_arr b) Size else b),
                 buf_start = 0, buf_end = int32 (int (sl_len b)),
                 buf_ownership = managed, buf_UDP = None\<rparr>)"

definition FromBytes :: "slice \<Rightarrow> Buffer" where
  "FromBytes b = \<lparr>buf_v = b, buf_start = 0, buf_end = int32 (int (sl_len b)),
     buf_ownership = unmanaged, buf_UDP = None\<rparr>"

definition NewWithSize :: "int \<Rightarrow> slice \<Rightarrow> Buffer" where
  "NewWithSize sz got = \<lparr>buf_v = Alloc sz got, buf_start = 0, buf_end = 0,
     buf_ownership = bytespools, buf_UDP = None\<rparr>"

definition Buffer_Clear :: "Buffer \<Rightarrow> Buffer" where
  "Buffer_Clear b = b\<lparr>buf_start := 0, buf_end := 0\<rparr>"

text \<open>
  \<^verbatim>\<open>Release\<close> gives back the released buffer and what happens to its slice.
\<close>

datatype recycled = NotRecycled | ToBufPool slice | ToBytespool slice

definition Buffer_Release :: "Buffer \<Rightarrow> Buffer \<times> recycled" where
  "Buffer_Release b =
     (if buf_v b = nil_slice \<or> buf_ownership b = unmanaged then (b, NotRecycled)
      else let p = buf_v b; b' = Buffer_Clear (b\<lparr>buf_v := nil_slice\<rparr>) in
        (b'\<lparr>buf_UDP := None\<rparr>,
         case buf_ownership b of
           managed \<Rightarrow> if sl_cap p = Size then ToBufPool p else NotRecycled
         | _ \<Rightarrow> ToBytespool p))"

definition Buffer_Byte :: "Buffer \<Rightarrow> int \<Rightarrow> byte go" where
  "Buffer_Byte b index = sl_get (buf_v b) (int32 (buf_start b + index))"

definition Buffer_SetByte :: "Buffer \<Rightarrow> int \<Rightarrow> byte \<Rightarrow> Buffer go" where
  "Buffer_SetByte b index value =
     map_option (\<lambda>v. b\<lparr>buf_v := v\<rparr>) (sl_set (buf_v b) (int32 (buf_start b + index)) value)"

definition Buffer_Bytes :: "Buffer \<Rightarrow> byte list go" where
  "Buffer_Bytes b = sl_sub (buf_v b) (buf_start b) (buf_end b)"

definition Buffer_Len :: "Buffer \<Rightarrow> int" where
  "Buffer_Len b = int32 (buf_end b - buf_start b)"

definition Buffer_Cap :: "Buffer \<Rightarrow> int" where
  "Buffer_Cap b = int32 (int (sl_len (buf_v b)))"

definition Buffer_Available :: "Buffer \<Rightarrow> int" where
  "Buffer_Available b = int32 (int32 (int (sl_len (buf_v b))) - buf_end b)"

definition Buffer_IsEmpty :: "Buffer \<Rightarrow> bool" where
  "Buffer_IsEmpty b \<longleftrightarrow> Buffer_Len b = 0"

definition Buffer_IsFull :: "Buffer \<Rightarrow> bool" where
  "Buffer_IsFull b \<longleftrightarrow> buf_end b = int32 (int (sl_len (buf_v b)))"

text \<open>
  \<^verbatim>\<open>Extend\<close> returns the cleared part \<^verbatim>\<open>v[end:end+n]\<close>, which callers fill through the slice;
  \<open>Buffer_fill\<close> is such a store at a position of the backing slice.
\<close>

definition Buffer_fill :: "Buffer \<Rightarrow> int \<Rightarrow> byte list \<Rightarrow> Buffer" where
  "Buffer_fill b pos bs = b\<lparr>buf_v := sl_blit (buf_v b) (nat pos) bs\<rparr>"

definition Buffer_Extend :: "Buffer \<Rightarrow> int \<Rightarrow> Buffer go" where
  "Buffer_Extend b n =
     (let end' = int32 (buf_end b + n) in
      if end' > int32 (int (sl_len (buf_v b))) then None
      else do {
        ext \<leftarrow> sl_sub (buf_v b) (buf_end b) end';
        Some (Buffer_fill b (buf_end b) (replicate (length ext) 0) \<lparr>buf_end := end'\<rparr>)
      })"

definition Buffer_BytesRange :: "Buffer \<Rightarrow> int \<Rightarrow> int \<Rightarrow> byte list go" where
  "Buffer_BytesRange b from to =
     (let from' = (if from < 0 then int32 (from + Buffer_Len b) else from);
          to' = (if to < 0 then int32 (to + Buffer_Len b) else to)
      in sl_sub (buf_v b) (int32 (buf_start b + from')) (int32 (buf_start b + to')))"

definition Buffer_BytesFrom :: "Buffer \<Rightarrow> int \<Rightarrow> byte list go" where
  "Buffer_BytesFrom b from =
     (let from' = (if from < 0 then int32 (from + Buffer_Len b) else from)
      in sl_sub (buf_v b) (int32 (buf_start b + from')) (buf_end b))"

definition Buffer_BytesTo :: "Buffer \<Rightarrow> int \<Rightarrow> byte list go" where
  "Buffer_BytesTo b to =
     (let to1 = (if to < 0 then int32 (to + Buffer_Len b) else to);
          to2 = (if to1 < 0 then 0 else to1)
      in sl_sub (buf_v b) (buf_start b) (int32 (buf_start b + to2)))"

definition Buffer_Check :: "Buffer \<Rightarrow> Buffer" where
  "Buffer_Check b =
     (let b1 = (if buf_start b < 0 then b\<lparr>buf_start := 0\<rparr> else b);
          b2 = (if buf_end b1 < 0 then b1\<lparr>buf_end := 0\<rparr> else b1)
      in if buf_start b2 > buf_end b2 then b2\<lparr>buf_start := buf_end b2\<rparr> else b2)"

definition Buffer_Resize :: "Buffer \<Rightarrow> int \<Rightarrow> int \<Rightarrow> Buffer go" where
  "Buffer_Resize b from to =
     (let oldEnd = buf_end b;
          from' = (if from < 0 then int32 (from + Buffer_Len b) else from);
          to' = (if to < 0 then int32 (to + Buffer_Len b) else to)
      in if to' < from' then None
         else let b' = Buffer_Check (b\<lparr>buf_end := int32 (buf_start b + to'),
                                       buf_start := int32 (buf_start b + from')\<rparr>)
              in if buf_end b' > oldEnd then do {
                   cut \<leftarrow> sl_sub (buf_v b') oldEnd (buf_end b');
                   Some (Buffer_fill b' oldEnd (replicate (length cut) 0))
                 } else Some b')"

definition Buffer_Advance :: "Buffer \<Rightarrow> int \<Rightarrow> Buffer" where
  "Buffer_Advance b from =
     (let from' = (if from < 0 then int32 (from + Buffer_Len b) else from)
      in Buffer_Check (b\<lparr>buf_start := int32 (buf_start b + from')\<rparr>))"

text \<open>
  \<^verbatim>\<open>Write\<close>: the number of bytes copied and the error; \<^verbatim>\<open>v[end:]\<close> panics past the length.
\<close>

definition Buffer_Write :: "Buffer \<Rightarrow> byte list \<Rightarrow> (nat \<times> go_error option \<times> Buffer) go" where
  "Buffer_Write b data =
     (if 0 \<le> buf_end b \<and> buf_end b \<le> int (sl_len (buf_v b)) then
        let room = sl_len (buf_v b) - nat (buf_end b);
            n = min room (length data);
            b' = Buffer_fill b (buf_end b) (take n data) \<lparr>buf_end := int32 (buf_end b + int n)\<rparr>
        in Some (n, if n < length data then Some ErrBufferFull else None, b')
      else None)"

definition Buffer_WriteByte :: "Buffer \<Rightarrow> byte \<Rightarrow> (go_error option \<times> Buffer) go" where
  "Buffer_WriteByte b x =
     (if Buffer_IsFull b then Some (Some ErrBufferFull, b)
      else do {
        v \<leftarrow> sl_set (buf_v b) (buf_end b) x;
        Some (None, b\<lparr>buf_v := v, buf_end := int32 (buf_end b + 1)\<rparr>)
      })"

definition Buffer_ReadByte :: "Buffer \<Rightarrow> (byte \<times> go_error option \<times> Buffer) go" where
  "Buffer_ReadByte b =
     (if buf_start b = buf_end b then Some (0, Some EOF, b)
      else do {
        nb \<leftarrow> sl_get (buf_v b) (buf_start b);
        Some (nb, None, b\<lparr>buf_start := int32 (buf_start b + 1)\<rparr>)
      })"

definition Buffer_ReadBytes :: "Buffer \<Rightarrow> int \<Rightarrow> (byte list \<times> go_error option \<times> Buffer) go" where
  "Buffer_ReadBytes b len =
     (if int32 (buf_end b - buf_start b) < len then Some ([], Some EOF, b)
      else do {
        nb \<leftarrow> sl_sub (buf_v b) (buf_start b) (int32 (buf_start b + len));
        Some (nb, None, b\<lparr>buf_start := int32 (buf_start b + len)\<rparr>)
      })"

text \<open>\<^verbatim>\<open>Read\<close> into a slice of \<open>n\<close> bytes: the bytes stored there, the error, the buffer after it.\<close>

definition Buffer_Read :: "Buffer \<Rightarrow> nat \<Rightarrow> (byte list \<times> go_error option \<times> Buffer) go" where
  "Buffer_Read b n =
     (if Buffer_Len b = 0 then Some ([], Some EOF, b)
      else do {
        bs \<leftarrow> Buffer_Bytes b;
        let out = take n bs;
        Some (out, None,
          if int32 (int (length out)) = Buffer_Len b then Buffer_Clear b
          else b\<lparr>buf_start := int32 (buf_start b + int32 (int (length out)))\<rparr>)
      })"

text \<open>
  \<^verbatim>\<open>ReadFrom\<close> makes one \<^verbatim>\<open>Read\<close> call; \<open>rd room\<close> is what that call stores in a slice of
  \<open>room\<close> bytes, with its error.
\<close>

definition Buffer_ReadFrom ::
  "Buffer \<Rightarrow> (nat \<Rightarrow> byte list \<times> go_error option) \<Rightarrow> (nat \<times> go_error option \<times> Buffer) go" where
  "Buffer_ReadFrom b rd =
     (if 0 \<le> buf_end b \<and> buf_end b \<le> int (sl_len (buf_v b)) then
        let (bs, err) = rd (sl_len (buf_v b) - nat (buf_end b))
        in Some (length bs, err,
             Buffer_fill b (buf_end b) bs \<lparr>buf_end := int32 (buf_end b + int32 (int (length bs)))\<rparr>)
      else None)"

text \<open>
  \<^verbatim>\<open>io.ReadFull\<close> gathers short reads, so its result depends on the reader only through the bytes
  the reader delivers before \<^verbatim>\<open>io.EOF\<close>; a reader is that byte list here.
\<close>

definition ReadFull :: "byte list \<Rightarrow> nat \<Rightarrow> byte list \<times> go_error option \<times> byte list" where
  "ReadFull input n =
     (take n input,
      if n \<le> length input then None
      else if input = [] then Some EOF else Some ErrUnexpectedEOF,
      drop n input)"

definition Buffer_ReadFullFrom ::
  "Buffer \<Rightarrow> byte list \<Rightarrow> int \<Rightarrow> (nat \<times> go_error option \<times> Buffer \<times> byte list) go" where
  "Buffer_ReadFullFrom b input sz =
     (let end' = int32 (buf_end b + sz) in
      if end' > int32 (int (sl_len (buf_v b))) then Some (0, Some (ErrNew ''out of bound: ''), b, input)
      else do {
        room \<leftarrow> sl_sub (buf_v b) (buf_end b) end';
        let (bs, err, rest) = ReadFull input (length room);
        Some (length bs, err,
          Buffer_fill b (buf_end b) bs \<lparr>buf_end := int32 (buf_end b + int32 (int (length bs)))\<rparr>, rest)
      })"

section \<open>The representation invariant\<close>

definition buf_inv :: "Buffer \<Rightarrow> bool" where
  "buf_inv b \<longleftrightarrow> sl_wf (buf_v b) \<and> sl_len (buf_v b) < 2147483648 \<and>
     0 \<le> buf_start b \<and> buf_start b \<le> buf_end b \<and> buf_end b \<le> int (sl_len (buf_v b))"

definition content :: "Buffer \<Rightarrow> byte list" where
  "content b = take (nat (buf_end b) - nat (buf_start b)) (drop (nat (buf_start b)) (sl_arr (buf_v b)))"

lemmas buf_inv_defs = buf_inv_def sl_wf_def sl_cap_def

lemma Buffer_Bytes_content: "buf_inv b \<Longrightarrow> Buffer_Bytes b = Some (content b)"
  by (auto simp: Buffer_Bytes_def content_def buf_inv_defs sl_sub_def)

lemma length_content: "buf_inv b \<Longrightarrow> length (content b) = nat (buf_end b - buf_start b)"
  by (auto simp: content_def buf_inv_defs)

lemma Buffer_Len_content: "buf_inv b \<Longrightarrow> Buffer_Len b = int (length (content b))"
  by (auto simp: Buffer_Len_def length_content buf_inv_defs)

lemma Buffer_IsEmpty_content: "buf_inv b \<Longrightarrow> Buffer_IsEmpty b \<longleftrightarrow> content b = []"
  by (simp add: Buffer_IsEmpty_def Buffer_Len_content)

lemma Buffer_IsFull_inv: "buf_inv b \<Longrightarrow> Buffer_IsFull b \<longleftrightarrow> buf_end b = int (sl_len (buf_v b))"
  by (auto simp: Buffer_IsFull_def buf_inv_defs)

lemma Buffer_Available_inv:
  "buf_inv b \<Longrightarrow> Buffer_Available b = int (sl_len (buf_v b)) - buf_end b"
  by (auto simp: Buffer_Available_def buf_inv_defs)

text \<open>Appending at the end of the window, the common effect of every writing operation.\<close>

lemma append_at_end:
  assumes "buf_inv b" and "nat (buf_end b) + length bs \<le> sl_len (buf_v b)"
  defines "b' \<equiv> Buffer_fill b (buf_end b) bs \<lparr>buf_end := buf_end b + int (length bs)\<rparr>"
  shows "buf_inv b'" and "content b' = content b @ bs" and "sl_len (buf_v b') = sl_len (buf_v b)"
    and "sl_cap (buf_v b') = sl_cap (buf_v b)"
proof -
  let ?a = "sl_arr (buf_v b)" and ?s = "nat (buf_start b)" and ?e = "nat (buf_end b)"
  from assms have ord: "?s \<le> ?e" "?e + length bs \<le> length ?a"
    by (auto simp: buf_inv_defs)
  show "buf_inv b'"
    using assms by (auto simp: buf_inv_defs Buffer_fill_def sl_blit_def)
  have "drop ?s (take (?e + length bs) (list_blit ?a ?e bs)) = drop ?s (take ?e ?a) @ bs"
    using ord take_list_blit_end [of ?e bs ?a] by simp
  moreover have "nat (buf_end b + int (length bs)) = ?e + length bs"
    using assms(1) by (auto simp: buf_inv_defs)
  ultimately show "content b' = content b @ bs"
    by (simp add: content_def b'_def Buffer_fill_def sl_blit_def drop_take)
  show "sl_len (buf_v b') = sl_len (buf_v b)" and "sl_cap (buf_v b') = sl_cap (buf_v b)"
    using ord by (auto simp: b'_def Buffer_fill_def sl_cap_def sl_blit_def)
qed

lemma Buffer_New_inv: "buf_inv (Buffer_New got)" "content (Buffer_New got) = []"
  by (auto simp: Buffer_New_def buf_inv_defs content_def sl_make_def sl_of_def)

lemma Buffer_New_len [simp]: "sl_len (buf_v (Buffer_New got)) = Size"
  by (simp add: Buffer_New_def sl_make_def)

lemma FromBytes_inv:
  "sl_wf s \<Longrightarrow> sl_len s < 2147483648 \<Longrightarrow> buf_inv (FromBytes s) \<and> content (FromBytes s) = sl_bytes s"
  by (auto simp: FromBytes_def buf_inv_defs content_def sl_bytes_def)

text \<open>\<^verbatim>\<open>Write\<close> appends the longest prefix that fits, and reports the full buffer iff it truncates.\<close>

lemma Buffer_Write_spec:
  assumes "buf_inv b"
  shows "\<exists>b'. Buffer_Write b data =
      Some (min (nat (Buffer_Available b)) (length data),
        if nat (Buffer_Available b) < length data then Some ErrBufferFull else None, b')
    \<and> buf_inv b' \<and> content b' = content b @ take (nat (Buffer_Available b)) data
    \<and> sl_len (buf_v b') = sl_len (buf_v b)"
proof -
  let ?n = "min (sl_len (buf_v b) - nat (buf_end b)) (length data)"
  let ?b = "Buffer_fill b (buf_end b) (take ?n data) \<lparr>buf_end := buf_end b + int ?n\<rparr>"
  have av: "nat (Buffer_Available b) = sl_len (buf_v b) - nat (buf_end b)"
    using assms by (simp add: Buffer_Available_inv) (auto simp: buf_inv_defs)
  have bnd: "0 \<le> buf_end b" "buf_end b \<le> int (sl_len (buf_v b))" "sl_len (buf_v b) < 2147483648"
    using assms by (auto simp: buf_inv_defs)
  then have wr: "int32 (buf_end b + int ?n) = buf_end b + int ?n"
    by (intro int32_id) auto
  have "Buffer_Write b data = Some (?n, if ?n < length data then Some ErrBufferFull else None, ?b)"
    using bnd wr by (simp add: Buffer_Write_def Let_def)
  moreover have "nat (buf_end b) + length (take ?n data) \<le> sl_len (buf_v b)"
    using bnd by auto
  note append_at_end [OF assms this]
  ultimately show ?thesis
    unfolding av by (intro exI [of _ ?b]) (auto simp: min_def)
qed

lemma Buffer_Clear_inv: "buf_inv b \<Longrightarrow> buf_inv (Buffer_Clear b) \<and> content (Buffer_Clear b) = []"
  by (auto simp: Buffer_Clear_def buf_inv_defs content_def)

text \<open>Moving the window's start forward by \<open>k\<close> drops \<open>k\<close> bytes.\<close>

lemma advance_start:
  assumes "buf_inv b" and "0 \<le> k" and "k \<le> buf_end b - buf_start b"
  shows "buf_inv (b\<lparr>buf_start := buf_start b + k\<rparr>)"
    and "content (b\<lparr>buf_start := buf_start b + k\<rparr>) = drop (nat k) (content b)"
  using assms by (auto simp: buf_inv_defs content_def drop_take nat_add_distrib add.commute)

lemma Buffer_ReadByte_spec:
  assumes "buf_inv b"
  shows "Buffer_ReadByte b =
    (case content b of
       [] \<Rightarrow> Some (0, Some EOF, b)
     | x # xs \<Rightarrow> Some (x, None, b\<lparr>buf_start := buf_start b + 1\<rparr>))"
proof (cases "content b")
  case Nil
  with assms show ?thesis
    using length_content [OF assms] by (auto simp: Buffer_ReadByte_def buf_inv_defs)
next
  case (Cons x xs)
  with assms have lt: "buf_start b < buf_end b"
    using length_content [OF assms] by simp
  have "sl_arr (buf_v b) ! nat (buf_start b) = x"
    using Cons lt by (cases "drop (nat (buf_start b)) (sl_arr (buf_v b))")
      (auto simp: content_def take_Cons' nth_via_drop split: if_splits)
  with Cons lt assms show ?thesis
    by (auto simp: Buffer_ReadByte_def sl_get_def buf_inv_defs)
qed

lemma Buffer_ReadBytes_spec:
  assumes "buf_inv b" and "0 \<le> n" and "n < 2147483648"
  shows "Buffer_ReadBytes b n =
    (if int (length (content b)) < n then Some ([], Some EOF, b)
     else Some (take (nat n) (content b), None, b\<lparr>buf_start := buf_start b + n\<rparr>))"
proof -
  have len: "int32 (buf_end b - buf_start b) = int (length (content b))"
    using assms(1) Buffer_Len_content by (simp add: Buffer_Len_def)
  show ?thesis
  proof (cases "int (length (content b)) < n")
    case True
    with len show ?thesis by (simp add: Buffer_ReadBytes_def)
  next
    case False
    with assms len have fits: "buf_start b + n \<le> buf_end b"
      using length_content [OF assms(1)] by (auto simp: buf_inv_defs)
    with assms have id: "int32 (buf_start b + n) = buf_start b + n"
      by (intro int32_id) (auto simp: buf_inv_defs)
    have "sl_sub (buf_v b) (buf_start b) (buf_start b + n) = Some (take (nat n) (content b))"
      using assms fits by (auto simp: sl_sub_def buf_inv_defs content_def nat_add_distrib min_def)
    with False len id show ?thesis
      by (simp add: Buffer_ReadBytes_def)
  qed
qed

lemma Buffer_Read_spec:
  assumes "buf_inv b"
  shows "\<exists>b'. Buffer_Read b n =
      Some (take n (content b), if content b = [] then Some EOF else None, b')
    \<and> buf_inv b' \<and> content b' = drop n (content b) \<and> buf_v b' = buf_v b
    \<and> buf_ownership b' = buf_ownership b \<and> buf_UDP b' = buf_UDP b"
proof (cases "content b = []")
  case True
  with assms show ?thesis
    by (intro exI [of _ b]) (simp add: Buffer_Read_def Buffer_Len_content)
next
  case False
  let ?k = "min n (length (content b))"
  have small: "int (length (content b)) < 2147483648"
    using assms length_content [OF assms] by (auto simp: buf_inv_defs)
  have len: "Buffer_Len b = int (length (content b))"
    using assms by (rule Buffer_Len_content)
  show ?thesis
  proof (cases "length (content b) \<le> n")
    case True
    with False assms len small Buffer_Clear_inv [OF assms] show ?thesis
      by (intro exI [of _ "Buffer_Clear b"])
        (simp add: Buffer_Read_def Buffer_Bytes_content Buffer_Clear_def)
  next
    case less: False
    have le: "int n \<le> buf_end b - buf_start b"
      using less length_content [OF assms] by linarith
    then have "int32 (buf_start b + int n) = buf_start b + int n"
      using assms by (intro int32_id) (auto simp: buf_inv_defs)
    with False assms len small less advance_start [OF assms _ le] show ?thesis
      by (intro exI [of _ "b\<lparr>buf_start := buf_start b + int n\<rparr>"])
        (simp add: Buffer_Read_def Buffer_Bytes_content min_absorb2)
  qed
qed

lemma Buffer_Extend_spec:
  assumes "buf_inv b" and "0 \<le> n" and "n \<le> Buffer_Available b"
  shows "\<exists>b'. Buffer_Extend b n = Some b' \<and> buf_inv b'
    \<and> content b' = content b @ replicate (nat n) 0 \<and> buf_end b' = buf_end b + n
    \<and> sl_len (buf_v b') = sl_len (buf_v b) \<and> buf_start b' = buf_start b"
proof -
  let ?b = "Buffer_fill b (buf_end b) (replicate (nat n) 0) \<lparr>buf_end := buf_end b + int (nat n)\<rparr>"
  have fits: "nat (buf_end b) + length (replicate (nat n) (0::byte)) \<le> sl_len (buf_v b)"
    using assms by (simp add: Buffer_Available_inv) (auto simp: buf_inv_defs)
  then have id: "int32 (buf_end b + n) = buf_end b + n" "buf_end b + n \<le> int (sl_len (buf_v b))"
    using assms by (auto intro!: int32_id simp: buf_inv_defs)
  have "length (the (sl_sub (buf_v b) (buf_end b) (buf_end b + n))) = nat n"
    and "sl_sub (buf_v b) (buf_end b) (buf_end b + n) \<noteq> None"
    using id assms(1,2) by (auto simp: sl_sub_def buf_inv_defs nat_add_distrib)
  then have "Buffer_Extend b n = Some ?b"
    using id assms(1,2) by (auto simp: Buffer_Extend_def Let_def buf_inv_defs)
  with append_at_end [OF assms(1) fits] assms(2) show ?thesis
    by (intro exI [of _ ?b]) (simp add: Buffer_fill_def)
qed

text \<open>Extending past the room panics, also where \<open>end + n\<close> overflows \<^verbatim>\<open>int32\<close>.\<close>

lemma Buffer_Extend_panics:
  assumes "buf_inv b" and "Buffer_Available b < n" and "n < 2147483648"
  shows "Buffer_Extend b n = None"
proof (cases "buf_end b + n < 2147483648")
  case True
  with assms have "int32 (buf_end b + n) = buf_end b + n"
    by (intro int32_id) (auto simp: buf_inv_defs Buffer_Available_inv)
  with assms show ?thesis
    by (auto simp: Buffer_Extend_def Buffer_Available_inv buf_inv_defs Let_def)
next
  case False
  with assms have "int32 (buf_end b + n) = buf_end b + n - 4294967296"
    by (intro int32_overflow) (auto simp: buf_inv_defs)
  with assms have "int32 (buf_end b + n) < buf_end b"
    by linarith
  then show ?thesis
    by (simp add: Buffer_Extend_def Let_def sl_sub_def)
qed

lemma Buffer_ReadFullFrom_spec:
  assumes "buf_inv b" and "0 \<le> n" and "n \<le> Buffer_Available b"
  shows "\<exists>b'. Buffer_ReadFullFrom b input n =
      Some (min (nat n) (length input), fst (snd (ReadFull input (nat n))), b', drop (nat n) input)
    \<and> buf_inv b' \<and> content b' = content b @ take (nat n) input
    \<and> sl_len (buf_v b') = sl_len (buf_v b) \<and> buf_start b' = buf_start b"
proof -
  let ?bs = "take (nat n) input"
  let ?b = "Buffer_fill b (buf_end b) ?bs \<lparr>buf_end := buf_end b + int (length ?bs)\<rparr>"
  have fits: "nat (buf_end b) + length ?bs \<le> sl_len (buf_v b)"
    using assms by (simp add: Buffer_Available_inv) (auto simp: buf_inv_defs)
  have id: "int32 (buf_end b + n) = buf_end b + n" "buf_end b + n \<le> int (sl_len (buf_v b))"
    using assms by (auto intro!: int32_id simp: buf_inv_defs Buffer_Available_inv)
  have ids: "int32 (int (length ?bs)) = int (length ?bs)"
    "int32 (buf_end b + int (length ?bs)) = buf_end b + int (length ?bs)"
    using fits assms(1) by (auto intro!: int32_id simp: buf_inv_defs)
  obtain room where room: "sl_sub (buf_v b) (buf_end b) (buf_end b + n) = Some room"
    using id assms(1,2) by (auto simp: sl_sub_def buf_inv_defs)
  then have "length room = nat n"
    using length_sl_sub [OF room] by simp
  with room id ids assms(1) have
    "Buffer_ReadFullFrom b input n =
      Some (length ?bs, fst (snd (ReadFull input (nat n))), ?b, drop (nat n) input)"
    by (auto simp: Buffer_ReadFullFrom_def Let_def ReadFull_def buf_inv_defs)
  with append_at_end [OF assms(1) fits] show ?thesis
    by (intro exI [of _ ?b]) (simp add: Buffer_fill_def min.commute)
qed

lemma Buffer_Advance_spec:
  assumes "buf_inv b" and "0 \<le> n" and "n \<le> Buffer_Len b"
  shows "buf_inv (Buffer_Advance b n)" and "content (Buffer_Advance b n) = drop (nat n) (content b)"
proof -
  have le: "n \<le> buf_end b - buf_start b"
    using assms by (auto simp: Buffer_Len_def buf_inv_defs)
  then have "Buffer_Advance b n = b\<lparr>buf_start := buf_start b + n\<rparr>"
    using assms by (auto simp: Buffer_Advance_def Buffer_Check_def buf_inv_defs Let_def)
  with advance_start [OF assms(1,2) le]
  show "buf_inv (Buffer_Advance b n)" and "content (Buffer_Advance b n) = drop (nat n) (content b)"
    by simp_all
qed

lemma Buffer_BytesTo_spec:
  assumes "buf_inv b" and "0 \<le> n" and "n \<le> Buffer_Len b"
  shows "Buffer_BytesTo b n = Some (take (nat n) (content b))"
proof -
  have le: "n \<le> buf_end b - buf_start b"
    using assms by (auto simp: Buffer_Len_def buf_inv_defs)
  then have "int32 (buf_start b + n) = buf_start b + n"
    using assms by (intro int32_id) (auto simp: buf_inv_defs)
  with assms le show ?thesis
    by (auto simp: Buffer_BytesTo_def sl_sub_def buf_inv_defs content_def nat_add_distrib min_def)
qed

lemma Buffer_BytesFrom_neg_spec:
  assumes "buf_inv b" and "0 < n" and "n \<le> Buffer_Len b"
  shows "Buffer_BytesFrom b (- n) = Some (drop (length (content b) - nat n) (content b))"
proof -
  have L: "Buffer_Len b = buf_end b - buf_start b"
    using assms by (auto simp: Buffer_Len_def buf_inv_defs)
  have bnd: "0 \<le> buf_start b" "buf_start b \<le> buf_end b" "n \<le> buf_end b - buf_start b"
    "buf_end b < 2147483648" "buf_end b \<le> int (length (sl_arr (buf_v b)))"
    using assms L by (auto simp: buf_inv_defs)
  have "int32 (- n + Buffer_Len b) = Buffer_Len b - n"
    using bnd assms(2) unfolding L by (subst int32_id) auto
  moreover have "int32 (buf_start b + (Buffer_Len b - n)) = buf_end b - n"
    using bnd assms(2) unfolding L by (subst int32_id) auto
  ultimately have sub: "Buffer_BytesFrom b (- n) = sl_sub (buf_v b) (buf_end b - n) (buf_end b)"
    using assms(2) by (simp add: Buffer_BytesFrom_def)
  have n: "nat (buf_start b) \<le> nat (buf_end b)" "nat n \<le> nat (buf_end b) - nat (buf_start b)"
    "length (content b) = nat (buf_end b) - nat (buf_start b)"
    "nat (buf_end b - n) = nat (buf_end b) - nat n" "nat n \<le> nat (buf_end b)"
    using bnd assms(2) length_content [OF assms(1)] by linarith+
  have "sl_sub (buf_v b) (buf_end b - n) (buf_end b)
      = Some (take (nat n) (drop (nat (buf_end b) - nat n) (sl_arr (buf_v b))))"
    using bnd assms(2) n(4,5) unfolding sl_sub_def sl_cap_def by (auto simp: diff_diff_cancel)
  also have "\<dots> = Some (drop (length (content b) - nat n) (content b))"
    using drop_window [OF n(1,2), of "sl_arr (buf_v b)"]
    by (subst n(3)) (simp add: content_def)
  finally show ?thesis
    unfolding sub .
qed

section \<open>Sequences of operations\<close>

text \<open>
  The operations a client may run on one buffer. Each gives the bytes and the error the caller
  sees; \<^verbatim>\<open>None\<close> is a panic. \<open>OpRead\<close> has the length of the caller's slice, \<open>OpReadFullFrom\<close>
  what the reader will deliver; the integer arguments are read as \<^verbatim>\<open>int32\<close> values.
\<close>

datatype buf_op =
    OpWrite "byte list" | OpWriteByte byte | OpExtend int | OpClear | OpSetByte int byte
  | OpAdvance int | OpResize int int | OpBytes | OpReadByte | OpReadBytes int | OpRead nat
  | OpReadFullFrom "byte list" int
  | OpByte int | OpBytesRange int int | OpBytesFrom int | OpBytesTo int

type_synonym buf_out = "byte list \<times> go_error option"

fun buf_step :: "Buffer \<Rightarrow> buf_op \<Rightarrow> (buf_out \<times> Buffer) go" where
  "buf_step b (OpWrite data) = do { (n, err, b') \<leftarrow> Buffer_Write b data; Some ((take n data, err), b') }"
| "buf_step b (OpWriteByte x) = do { (err, b') \<leftarrow> Buffer_WriteByte b x; Some (([], err), b') }"
| "buf_step b (OpExtend n) = do { b' \<leftarrow> Buffer_Extend b (int32 n); Some (([], None), b') }"
| "buf_step b OpClear = Some (([], None), Buffer_Clear b)"
| "buf_step b (OpSetByte i x) = do { b' \<leftarrow> Buffer_SetByte b (int32 i) x; Some (([], None), b') }"
| "buf_step b (OpAdvance n) = Some (([], None), Buffer_Advance b (int32 n))"
| "buf_step b (OpResize from to) = do { b' \<leftarrow> Buffer_Resize b (int32 from) (int32 to); Some (([], None), b') }"
| "buf_step b OpBytes = do { bs \<leftarrow> Buffer_Bytes b; Some ((bs, None), b) }"
| "buf_step b OpReadByte = do { (x, err, b') \<leftarrow> Buffer_ReadByte b; Some (([x], err), b') }"
| "buf_step b (OpReadBytes n) = do { (bs, err, b') \<leftarrow> Buffer_ReadBytes b (int32 n); Some ((bs, err), b') }"
| "buf_step b (OpRead n) = do { (bs, err, b') \<leftarrow> Buffer_Read b n; Some ((bs, err), b') }"
| "buf_step b (OpReadFullFrom input n) =
     do { (m, err, b', rest) \<leftarrow> Buffer_ReadFullFrom b input (int32 n); Some ((take m input, err), b') }"
| "buf_step b (OpByte i) = do { x \<leftarrow> Buffer_Byte b (int32 i); Some (([x], None), b) }"
| "buf_step b (OpBytesRange from to) = do { bs \<leftarrow> Buffer_BytesRange b (int32 from) (int32 to); Some ((bs, None), b) }"
| "buf_step b (OpBytesFrom from) = do { bs \<leftarrow> Buffer_BytesFrom b (int32 from); Some ((bs, None), b) }"
| "buf_step b (OpBytesTo to) = do { bs \<leftarrow> Buffer_BytesTo b (int32 to); Some ((bs, None), b) }"

fun buf_run :: "Buffer \<Rightarrow> buf_op list \<Rightarrow> (buf_out list \<times> Buffer) go" where
  "buf_run b [] = Some ([], b)"
| "buf_run b (op # ops) =
     do { (out, b') \<leftarrow> buf_step b op; (outs, b'') \<leftarrow> buf_run b' ops; Some (out # outs, b'') }"

text \<open>
  \<^verbatim>\<open>Byte\<close>, \<^verbatim>\<open>BytesRange\<close> and \<^verbatim>\<open>BytesTo\<close> take an index and do not compare it with the end of the content.
  A read stays inside when it asks for nothing behind that end; the other operations always do.
\<close>

fun reads_inside :: "Buffer \<Rightarrow> buf_op \<Rightarrow> bool" where
  "reads_inside b (OpByte i) \<longleftrightarrow> int32 (buf_start b + int32 i) < buf_end b"
| "reads_inside b (OpBytesRange from to) \<longleftrightarrow>
     int32 (buf_start b + (if int32 to < 0 then int32 (int32 to + Buffer_Len b) else int32 to)) \<le> buf_end b"
| "reads_inside b (OpBytesTo to) \<longleftrightarrow>
     int32 (buf_start b + max 0 (if int32 to < 0 then int32 (int32 to + Buffer_Len b) else int32 to)) \<le> buf_end b"
| "reads_inside b _ \<longleftrightarrow> True"

fun inside_run :: "Buffer \<Rightarrow> buf_op list \<Rightarrow> bool" where
  "inside_run b [] \<longleftrightarrow> True"
| "inside_run b (op # ops) \<longleftrightarrow> reads_inside b op \<and>
     (case buf_step b op of None \<Rightarrow> True | Some (out, b') \<Rightarrow> inside_run b' ops)"

text \<open>
  Two buffers a client cannot tell apart: the same window, the same bytes below its end.
\<close>

definition same_view :: "Buffer \<Rightarrow> Buffer \<Rightarrow> bool" where
  "same_view b c \<longleftrightarrow> buf_start b = buf_start c \<and> buf_end b = buf_end c
     \<and> sl_len (buf_v b) = sl_len (buf_v c) \<and> sl_cap (buf_v b) = sl_cap (buf_v c)
     \<and> take (nat (buf_end c)) (sl_arr (buf_v b)) = take (nat (buf_end c)) (sl_arr (buf_v c))"

definition exact :: "Buffer \<Rightarrow> bool" where
  "exact b \<longleftrightarrow> sl_cap (buf_v b) = sl_len (buf_v b)"

lemma exact_fill: "exact b \<Longrightarrow> nat pos \<le> sl_len (buf_v b) \<Longrightarrow> exact (Buffer_fill b pos bs)"
  by (simp add: exact_def Buffer_fill_def)

lemma buf_inv_fill:
  "buf_inv b \<Longrightarrow> nat pos \<le> sl_len (buf_v b) \<Longrightarrow> buf_inv (Buffer_fill b pos bs)"
  by (auto simp: buf_inv_defs Buffer_fill_def sl_blit_def)

text \<open>Every window inside the length keeps the invariant, whatever was stored in the slice.\<close>

lemma buf_inv_window:
  "buf_inv b \<Longrightarrow> 0 \<le> s \<Longrightarrow> s \<le> e \<Longrightarrow> e \<le> int (sl_len (buf_v b))
     \<Longrightarrow> buf_inv (b\<lparr>buf_start := s, buf_end := e\<rparr>)"
  by (simp add: buf_inv_defs)

lemma window_cong: "b\<lparr>buf_end := e\<rparr> = b\<lparr>buf_start := buf_start b, buf_end := e\<rparr>"
  "b\<lparr>buf_start := s\<rparr> = b\<lparr>buf_start := s, buf_end := buf_end b\<rparr>"
  by simp_all

lemma exact_window [simp]: "exact (b\<lparr>buf_start := s, buf_end := e\<rparr>) = exact b"
  "exact (b\<lparr>buf_start := s\<rparr>) = exact b" "exact (b\<lparr>buf_end := e\<rparr>) = exact b"
  by (simp_all add: exact_def)

lemma Buffer_fill_window [simp]:
  "buf_start (Buffer_fill b p bs) = buf_start b" "buf_end (Buffer_fill b p bs) = buf_end b"
  "sl_len (buf_v (Buffer_fill b p bs)) = sl_len (buf_v b)"
  by (simp_all add: Buffer_fill_def)

lemma Buffer_Check_window:
  "Buffer_Check b =
     b\<lparr>buf_start := min (max 0 (buf_start b)) (max 0 (buf_end b)), buf_end := max 0 (buf_end b)\<rparr>"
  by (cases b) (auto simp: Buffer_Check_def Let_def min_def max_def)

lemma Buffer_Advance_inv: "buf_inv b \<Longrightarrow> buf_inv (Buffer_Advance b n)"
  by (auto simp: Buffer_Advance_def Let_def Buffer_Check_window buf_inv_defs)

text \<open>\<^verbatim>\<open>Resize\<close> in one equation: the window it computes, and the zeros it stores where the end grows.\<close>

definition resize_to :: "Buffer \<Rightarrow> int \<Rightarrow> int" where
  "resize_to b x = (if x < 0 then int32 (x + Buffer_Len b) else x)"

definition resize_end :: "Buffer \<Rightarrow> int \<Rightarrow> int" where
  "resize_end b hi = max 0 (int32 (buf_start b + resize_to b hi))"

definition resize_start :: "Buffer \<Rightarrow> int \<Rightarrow> int \<Rightarrow> int" where
  "resize_start b lo hi = min (max 0 (int32 (buf_start b + resize_to b lo))) (resize_end b hi)"

lemma Buffer_Resize_eq:
  fixes b :: Buffer and lo hi :: int
  assumes "buf_inv b"
  defines "s \<equiv> resize_start b lo hi" and "e \<equiv> resize_end b hi"
  shows "Buffer_Resize b lo hi =
    (if resize_to b hi < resize_to b lo then None
     else if buf_end b < e then
       if e \<le> int (sl_cap (buf_v b))
       then Some (Buffer_fill (b\<lparr>buf_start := s, buf_end := e\<rparr>) (buf_end b)
              (replicate (nat (e - buf_end b)) 0))
       else None
     else Some (b\<lparr>buf_start := s, buf_end := e\<rparr>))"
proof -
  have unf: "Buffer_Resize b lo hi =
    (if resize_to b hi < resize_to b lo then None
     else if buf_end b < e then do {
       cut \<leftarrow> sl_sub (buf_v b) (buf_end b) e;
       Some (Buffer_fill (b\<lparr>buf_start := s, buf_end := e\<rparr>) (buf_end b) (replicate (length cut) 0)) }
     else Some (b\<lparr>buf_start := s, buf_end := e\<rparr>))"
    by (simp add: Buffer_Resize_def Buffer_Check_window Let_def s_def e_def resize_start_def
        resize_end_def resize_to_def cong: if_cong)
  have "sl_sub (buf_v b) (buf_end b) e = None" if "\<not> e \<le> int (sl_cap (buf_v b))"
    using that by (simp add: sl_sub_def)
  moreover have "\<exists>cut. sl_sub (buf_v b) (buf_end b) e = Some cut \<and> length cut = nat (e - buf_end b)"
    if "e \<le> int (sl_cap (buf_v b))" "buf_end b < e"
    using that assms(1) by (intro sl_sub_room) (simp_all add: buf_inv_defs)
  ultimately show ?thesis
    unfolding unf by auto
qed

lemma resize_bounds: "0 \<le> resize_start b lo hi" "resize_start b lo hi \<le> resize_end b hi"
  by (simp_all add: resize_start_def resize_end_def)

lemma Buffer_Resize_inv:
  assumes "buf_inv b" and "exact b" and "Buffer_Resize b lo hi = Some b'"
  shows "buf_inv b' \<and> exact b'"
proof -
  let ?e = "resize_end b hi" and ?s = "resize_start b lo hi"
  have e: "?e \<le> int (sl_len (buf_v b))"
    using assms by (auto simp: Buffer_Resize_eq exact_def buf_inv_defs split: if_splits)
  have win: "buf_inv (b\<lparr>buf_start := ?s, buf_end := ?e\<rparr>)"
    using assms(1) resize_bounds e by (rule buf_inv_window)
  have "nat (buf_end b) \<le> sl_len (buf_v b)"
    using assms(1) by (auto simp: buf_inv_defs)
  then show ?thesis
    using assms win by (auto simp: Buffer_Resize_eq intro!: buf_inv_fill exact_fill split: if_splits)
qed

lemma append_window_inv:
  assumes "buf_inv b" and "0 \<le> k" and "k \<le> int (sl_len (buf_v b)) - buf_end b"
  shows "buf_inv (Buffer_fill b (buf_end b) bs \<lparr>buf_end := int32 (buf_end b + k)\<rparr>)"
proof -
  have "int32 (buf_end b + k) = buf_end b + k"
    using assms by (auto simp: buf_inv_defs)
  moreover have "nat (buf_end b) \<le> sl_len (buf_v b)"
    using assms(1) by (auto simp: buf_inv_defs)
  then have "buf_inv (Buffer_fill b (buf_end b) bs)"
    by (rule buf_inv_fill [OF assms(1)])
  moreover have "0 \<le> buf_start b" "buf_start b \<le> buf_end b"
    using assms(1) by (simp_all add: buf_inv_defs)
  ultimately show ?thesis
    using assms by (subst window_cong(1)) (rule buf_inv_window, simp_all)
qed

lemma Buffer_Write_inv:
  assumes "buf_inv b" and "exact b" and "Buffer_Write b data = Some (n, err, b')"
  shows "buf_inv b' \<and> exact b'"
proof -
  let ?n = "min (sl_len (buf_v b) - nat (buf_end b)) (length data)"
  have "b' = Buffer_fill b (buf_end b) (take ?n data) \<lparr>buf_end := int32 (buf_end b + int ?n)\<rparr>"
    using assms(3) by (auto simp: Buffer_Write_def Let_def split: if_splits)
  moreover have "int ?n \<le> int (sl_len (buf_v b)) - buf_end b" "nat (buf_end b) \<le> sl_len (buf_v b)"
    using assms(1) by (auto simp: buf_inv_defs)
  ultimately show ?thesis
    using append_window_inv [OF assms(1)] exact_fill [OF assms(2)] by simp
qed

lemma Buffer_Extend_inv:
  assumes "buf_inv b" and "exact b" and "Buffer_Extend b n = Some b'"
  shows "buf_inv b' \<and> exact b'"
proof -
  let ?e = "int32 (buf_end b + n)"
  obtain z where b': "b' = Buffer_fill b (buf_end b) z \<lparr>buf_end := ?e\<rparr>"
    and e: "buf_end b \<le> ?e" "?e \<le> int (sl_len (buf_v b))"
    using assms by (auto simp: Buffer_Extend_def Let_def bind_eq_Some_conv sl_sub_Some_iff
        exact_def split: if_splits)
  then have "b' = Buffer_fill b (buf_end b) z \<lparr>buf_end := int32 (buf_end b + (?e - buf_end b))\<rparr>"
    using int32_bounds [of "buf_end b + n"] by simp
  moreover have "nat (buf_end b) \<le> sl_len (buf_v b)"
    using assms(1) by (auto simp: buf_inv_defs)
  ultimately show ?thesis
    using append_window_inv [OF assms(1), of "?e - buf_end b" z] exact_fill [OF assms(2)] e by simp
qed

lemma Buffer_ReadFullFrom_inv:
  assumes "buf_inv b" and "exact b" and "Buffer_ReadFullFrom b input n = Some (m, err, b', rest)"
  shows "buf_inv b' \<and> exact b'"
proof (cases "int32 (buf_end b + n) > int32 (int (sl_len (buf_v b)))")
  case True
  with assms show ?thesis
    by (simp add: Buffer_ReadFullFrom_def Let_def)
next
  case False
  let ?e = "int32 (buf_end b + n)"
  obtain room where room: "sl_sub (buf_v b) (buf_end b) ?e = Some room"
    and b': "b' = Buffer_fill b (buf_end b) (take (length room) input)
      \<lparr>buf_end := int32 (buf_end b + int32 (int (length (take (length room) input))))\<rparr>"
    using assms False
    by (auto simp: Buffer_ReadFullFrom_def Let_def bind_eq_Some_conv ReadFull_def)
  let ?k = "int (length (take (length room) input))"
  have k: "?k \<le> int (sl_len (buf_v b)) - buf_end b" "nat (buf_end b) \<le> sl_len (buf_v b)"
    using room length_sl_sub [OF room] assms(1,2)
    by (auto simp: sl_sub_Some_iff exact_def buf_inv_defs)
  then have "int32 ?k = ?k"
    using assms(1) by (intro int32_id) (auto simp: buf_inv_defs)
  with b' k append_window_inv [OF assms(1), of ?k] exact_fill [OF assms(2)] show ?thesis
    by simp
qed

lemma Buffer_reads_inv:
  assumes "buf_inv b"
  shows "Buffer_ReadByte b = Some (x, err, b') \<Longrightarrow> buf_inv b' \<and> buf_v b' = buf_v b"
    and "Buffer_ReadBytes b (int32 n) = Some (bs, err, b') \<Longrightarrow> buf_inv b' \<and> buf_v b' = buf_v b"
    and "Buffer_Read b k = Some (bs, err, b') \<Longrightarrow> buf_inv b' \<and> buf_v b' = buf_v b"
proof -
  show "Buffer_ReadByte b = Some (x, err, b') \<Longrightarrow> buf_inv b' \<and> buf_v b' = buf_v b"
    using assms by (auto simp: Buffer_ReadByte_def bind_eq_Some_conv sl_get_def buf_inv_defs
        split: if_splits)
  show "Buffer_Read b k = Some (bs, err, b') \<Longrightarrow> buf_inv b' \<and> buf_v b' = buf_v b"
    using Buffer_Read_spec [OF assms, of k] by auto
  assume read: "Buffer_ReadBytes b (int32 n) = Some (bs, err, b')"
  let ?n = "int32 n"
  show "buf_inv b' \<and> buf_v b' = buf_v b"
  proof (cases "int32 (buf_end b - buf_start b) < ?n")
    case True
    with read assms show ?thesis by (simp add: Buffer_ReadBytes_def)
  next
    case False
    with read have b': "buf_start b \<le> int32 (buf_start b + ?n)"
      "b' = b\<lparr>buf_start := int32 (buf_start b + ?n)\<rparr>"
      by (auto simp: Buffer_ReadBytes_def bind_eq_Some_conv sl_sub_Some_iff)
    have bnd: "0 \<le> buf_start b" "buf_start b \<le> buf_end b" "buf_end b < 2147483648"
      using assms by (auto simp: buf_inv_defs)
    with False have "?n \<le> buf_end b - buf_start b"
      by simp
    with bnd int32_bounds(1) [of n] have "int32 (buf_start b + ?n) = buf_start b + ?n"
      by (intro int32_id) linarith+
    with b' \<open>?n \<le> _\<close> assms show ?thesis
      by (simp add: buf_inv_defs)
  qed
qed

lemma buf_step_inv:
  assumes "buf_inv b" and "exact b" and "buf_step b op = Some (out, b')"
  shows "buf_inv b' \<and> exact b'"
proof (cases op)
  case (OpWriteByte x)
  with assms show ?thesis
    by (auto simp: Buffer_WriteByte_def bind_eq_Some_conv sl_set_def Buffer_IsFull_def
        exact_def buf_inv_defs split: if_splits)
next
  case (OpSetByte i x)
  with assms show ?thesis
    by (auto simp: Buffer_SetByte_def bind_eq_Some_conv sl_set_def exact_def buf_inv_defs
        split: if_splits)
next
  case (OpAdvance n)
  with assms Buffer_Advance_inv [OF assms(1)] show ?thesis
    by (auto simp: exact_def Buffer_Advance_def Buffer_Check_window Let_def)
next
  case OpReadByte
  with assms(3) obtain x err where "Buffer_ReadByte b = Some (x, err, b')"
    by (auto simp: bind_eq_Some_conv)
  with Buffer_reads_inv(1) [OF assms(1)] assms(2) show ?thesis
    by (auto simp: exact_def)
next
  case (OpReadBytes n)
  with assms(3) obtain bs err where "Buffer_ReadBytes b (int32 n) = Some (bs, err, b')"
    by (auto simp: bind_eq_Some_conv)
  with Buffer_reads_inv(2) [OF assms(1)] assms(2) show ?thesis
    by (auto simp: exact_def)
next
  case (OpRead n)
  with assms(3) obtain bs err where "Buffer_Read b n = Some (bs, err, b')"
    by (auto simp: bind_eq_Some_conv)
  with Buffer_reads_inv(3) [OF assms(1)] assms(2) show ?thesis
    by (auto simp: exact_def)
next
  case OpClear
  with assms Buffer_Clear_inv [OF assms(1)] show ?thesis
    by (auto simp: Buffer_Clear_def exact_def)
qed (use assms in \<open>auto simp: bind_eq_Some_conv
    dest: Buffer_Write_inv Buffer_Extend_inv Buffer_ReadFullFrom_inv Buffer_Resize_inv\<close>)

lemma buf_run_inv:
  "buf_inv b \<Longrightarrow> exact b \<Longrightarrow> buf_run b ops = Some (outs, b') \<Longrightarrow> buf_inv b' \<and> exact b'"
  by (induction ops arbitrary: b outs) (auto simp: bind_eq_Some_conv dest: buf_step_inv)

subsection \<open>Recycled bytes stay invisible\<close>

lemma same_view_fill_end:
  assumes "same_view b c" and "buf_inv b" and "nat (buf_end b) + length bs \<le> sl_cap (buf_v b)"
    and "e = buf_end b + int (length bs)"
  shows "same_view (Buffer_fill b (buf_end b) bs \<lparr>buf_end := e\<rparr>)
    (Buffer_fill c (buf_end c) bs \<lparr>buf_end := e\<rparr>)"
proof -
  have "0 \<le> buf_end b"
    using assms(2) by (simp add: buf_inv_defs)
  then have "nat e = nat (buf_end b) + length bs"
    using assms(4) by (simp add: nat_add_distrib)
  with assms show ?thesis
    using take_list_blit_end [of "nat (buf_end b)" bs]
    by (simp add: same_view_def Buffer_fill_def sl_blit_def sl_cap_def)
qed

lemma same_view_shrink:
  assumes "same_view b c" and "e \<le> buf_end b"
  shows "same_view (b\<lparr>buf_start := s, buf_end := e\<rparr>) (c\<lparr>buf_start := s, buf_end := e\<rparr>)"
proof -
  have "take (nat e) (take (nat (buf_end c)) (sl_arr (buf_v b)))
      = take (nat e) (take (nat (buf_end c)) (sl_arr (buf_v c)))"
    using assms(1) by (simp add: same_view_def)
  moreover have "min (nat e) (nat (buf_end c)) = nat e"
    using assms by (auto simp: same_view_def)
  ultimately show ?thesis
    using assms by (simp add: same_view_def)
qed

lemma same_view_inv: "same_view b c \<Longrightarrow> buf_inv b \<Longrightarrow> exact b \<Longrightarrow> buf_inv c \<and> exact c"
  by (simp add: same_view_def buf_inv_defs exact_def)

lemma same_view_content: "same_view b c \<Longrightarrow> content b = content c"
proof -
  assume v: "same_view b c"
  then have "drop (nat (buf_start c)) (take (nat (buf_end c)) (sl_arr (buf_v b)))
      = drop (nat (buf_start c)) (take (nat (buf_end c)) (sl_arr (buf_v c)))"
    by (simp add: same_view_def)
  then have "take (nat (buf_end c) - nat (buf_start c)) (drop (nat (buf_start c)) (sl_arr (buf_v b)))
      = take (nat (buf_end c) - nat (buf_start c)) (drop (nat (buf_start c)) (sl_arr (buf_v c)))"
    by (simp only: drop_take)
  moreover have "buf_start b = buf_start c" "buf_end b = buf_end c"
    using v by (simp_all add: same_view_def)
  ultimately show ?thesis
    by (simp add: content_def)
qed

lemma same_view_Len: "same_view b c \<Longrightarrow> Buffer_Len b = Buffer_Len c"
  by (simp add: same_view_def Buffer_Len_def)

text \<open>Two runs in lock step: both panic, or both give the same output and indistinguishable buffers.\<close>

definition same_result :: "('o \<times> Buffer) go \<Rightarrow> ('o \<times> Buffer) go \<Rightarrow> bool" where
  "same_result x y \<longleftrightarrow> rel_option (\<lambda>(o1, b) (o2, c). o1 = o2 \<and> same_view b c) x y"

lemma same_resultI: "o1 = o2 \<Longrightarrow> same_view b c \<Longrightarrow> same_result (Some (o1, b)) (Some (o2, c))"
  by (simp add: same_result_def)

lemma same_result_None [simp]: "same_result None None"
  by (simp add: same_result_def)

lemma same_view_WriteByte:
  assumes "same_view b c" and "buf_inv b"
  shows "same_result (Buffer_WriteByte b x) (Buffer_WriteByte c x)"
proof (cases "Buffer_IsFull b")
  case True
  with assms show ?thesis
    by (auto simp: Buffer_WriteByte_def Buffer_IsFull_def same_view_def same_result_def)
next
  case False
  then have lt: "buf_end b < int (sl_len (buf_v b))" "0 \<le> buf_end b"
    using assms(2) Buffer_IsFull_inv [OF assms(2)] by (auto simp: buf_inv_defs)
  then have id: "int32 (buf_end b + 1) = buf_end b + 1"
    using assms(2) by (intro int32_id) (auto simp: buf_inv_defs)
  have upd: "xs[i := x] = list_blit xs i [x]" if "i < length xs" for xs i
    using that by (simp add: list_blit_def upd_conv_take_nth_drop)
  have st: "sl_set (buf_v d) (buf_end d) x = Some (sl_blit (buf_v d) (nat (buf_end d)) [x])"
    if "buf_inv d" "buf_end d < int (sl_len (buf_v d))" "0 \<le> buf_end d" for d
    using that by (auto simp: sl_set_def sl_blit_def buf_inv_defs upd)
  have cinv: "buf_inv c" "buf_end c = buf_end b" "sl_len (buf_v c) = sl_len (buf_v b)" "\<not> Buffer_IsFull c"
    using assms False by (auto simp: same_view_def buf_inv_defs Buffer_IsFull_def)
  have "same_view (Buffer_fill b (buf_end b) [x] \<lparr>buf_end := buf_end b + 1\<rparr>)
      (Buffer_fill c (buf_end c) [x] \<lparr>buf_end := buf_end b + 1\<rparr>)"
    using assms lt by (intro same_view_fill_end) (auto simp: buf_inv_defs)
  with False cinv lt id assms st [of b] st [of c] show ?thesis
    by (simp add: Buffer_WriteByte_def same_result_def Buffer_fill_def)
qed

lemma same_view_Resize:
  assumes "same_view b c" and "buf_inv b" and "exact b"
  shows "rel_option same_view (Buffer_Resize b lo hi) (Buffer_Resize c lo hi)"
proof -
  have eqs: "buf_start c = buf_start b" "buf_end c = buf_end b" "Buffer_Len c = Buffer_Len b"
    "sl_cap (buf_v c) = sl_cap (buf_v b)" "buf_inv c"
    using assms(1) same_view_Len [OF assms(1)] same_view_inv [OF assms]
    by (auto simp: same_view_def)
  then have win: "resize_to c x = resize_to b x" "resize_end c hi = resize_end b hi"
    "resize_start c lo hi = resize_start b lo hi" for x
    by (simp_all add: resize_to_def resize_end_def resize_start_def)
  let ?e = "resize_end b hi" and ?s = "resize_start b lo hi"
  let ?z = "replicate (nat (?e - buf_end b)) (0 :: byte)"
  have grow: "same_view (Buffer_fill (b\<lparr>buf_start := ?s, buf_end := ?e\<rparr>) (buf_end b) ?z)
      (Buffer_fill (c\<lparr>buf_start := ?s, buf_end := ?e\<rparr>) (buf_end b) ?z)"
    if "buf_end b < ?e" "?e \<le> int (sl_cap (buf_v b))"
  proof -
    have "same_view (Buffer_fill b (buf_end b) ?z \<lparr>buf_end := ?e\<rparr>)
        (Buffer_fill c (buf_end c) ?z \<lparr>buf_end := ?e\<rparr>)"
      using assms that by (intro same_view_fill_end) (auto simp: buf_inv_defs)
    then show ?thesis
      using eqs by (simp add: same_view_def Buffer_fill_def)
  qed
  have shrink: "same_view (b\<lparr>buf_start := ?s, buf_end := ?e\<rparr>) (c\<lparr>buf_start := ?s, buf_end := ?e\<rparr>)"
    if "\<not> buf_end b < ?e"
    using assms(1) that by (intro same_view_shrink) auto
  show ?thesis
    using grow shrink by (simp add: Buffer_Resize_eq assms(2) eqs win)
qed

lemma same_view_Extend:
  assumes "same_view b c" and "buf_inv b" and "exact b"
  shows "rel_option same_view (Buffer_Extend b n) (Buffer_Extend c n)"
proof -
  let ?e = "int32 (buf_end b + n)"
  have eqs: "buf_end c = buf_end b" "sl_len (buf_v c) = sl_len (buf_v b)"
    "sl_cap (buf_v c) = sl_cap (buf_v b)"
    using assms(1) by (auto simp: same_view_def)
  show ?thesis
  proof (cases "buf_end b \<le> ?e \<and> ?e \<le> int (sl_cap (buf_v b)) \<and> ?e \<le> int32 (int (sl_len (buf_v b)))")
    case False
    then show ?thesis
      using eqs by (auto simp: Buffer_Extend_def Let_def sl_sub_def)
  next
    case True
    let ?z = "replicate (nat (?e - buf_end b)) (0 :: byte)"
    have "0 \<le> buf_end b"
      using assms(2) by (simp add: buf_inv_defs)
    then have sub: "\<exists>cut. sl_sub (buf_v d) (buf_end b) ?e = Some cut \<and> length cut = nat (?e - buf_end b)"
      if "sl_cap (buf_v d) = sl_cap (buf_v b)" for d
      using True that by (intro sl_sub_room) simp_all
    have "same_view (Buffer_fill b (buf_end b) ?z \<lparr>buf_end := ?e\<rparr>)
        (Buffer_fill c (buf_end c) ?z \<lparr>buf_end := ?e\<rparr>)"
      using assms True \<open>0 \<le> buf_end b\<close> by (intro same_view_fill_end) auto
    then show ?thesis
      using True eqs sub [of b] sub [of c] by (auto simp: Buffer_Extend_def Let_def)
  qed
qed

lemma same_view_Write:
  assumes "same_view b c" and "buf_inv b"
  shows "same_result (do { (n, err, b') \<leftarrow> Buffer_Write b data; Some ((take n data, err), b') })
    (do { (n, err, c') \<leftarrow> Buffer_Write c data; Some ((take n data, err), c') })"
proof -
  let ?n = "min (sl_len (buf_v b) - nat (buf_end b)) (length data)"
  have eqs: "buf_end c = buf_end b" "sl_len (buf_v c) = sl_len (buf_v b)"
    using assms(1) by (auto simp: same_view_def)
  have bnd: "0 \<le> buf_end b" "buf_end b \<le> int (sl_len (buf_v b))" "sl_len (buf_v b) < 2147483648"
    "sl_len (buf_v b) \<le> sl_cap (buf_v b)"
    using assms(2) by (auto simp: buf_inv_def sl_wf_def)
  have id: "int32 (buf_end b + int ?n) = buf_end b + int ?n"
    using bnd by (intro int32_id) auto
  have "same_view (Buffer_fill b (buf_end b) (take ?n data) \<lparr>buf_end := buf_end b + int ?n\<rparr>)
      (Buffer_fill c (buf_end c) (take ?n data) \<lparr>buf_end := buf_end b + int ?n\<rparr>)"
    using assms bnd by (intro same_view_fill_end) auto
  then show ?thesis
    using bnd eqs id by (simp add: Buffer_Write_def Let_def same_result_def)
qed

lemma same_view_ReadFullFrom:
  assumes "same_view b c" and "buf_inv b" and "exact b"
  shows "same_result
    (do { (m, err, b', rest) \<leftarrow> Buffer_ReadFullFrom b input n; Some ((take m input, err), b') })
    (do { (m, err, c', rest) \<leftarrow> Buffer_ReadFullFrom c input n; Some ((take m input, err), c') })"
proof -
  let ?e = "int32 (buf_end b + n)"
  have eqs: "buf_end c = buf_end b" "sl_len (buf_v c) = sl_len (buf_v b)"
    "sl_cap (buf_v c) = sl_cap (buf_v b)"
    using assms(1) by (auto simp: same_view_def)
  show ?thesis
  proof (cases "?e > int32 (int (sl_len (buf_v b)))")
    case True
    then show ?thesis
      using eqs assms(1) by (simp add: Buffer_ReadFullFrom_def Let_def same_result_def)
  next
    case False
    show ?thesis
    proof (cases "sl_sub (buf_v b) (buf_end b) ?e")
      case None
      then have "sl_sub (buf_v c) (buf_end b) ?e = None"
        using eqs by (auto simp: sl_sub_def split: if_splits)
      with None False eqs show ?thesis
        by (simp add: Buffer_ReadFullFrom_def Let_def)
    next
      case (Some room)
      then obtain room' where room': "sl_sub (buf_v c) (buf_end b) ?e = Some room'"
        using eqs by (auto simp: sl_sub_def split: if_splits)
      have len: "length room' = length room"
        using length_sl_sub [OF Some] length_sl_sub [OF room'] by simp
      let ?bs = "take (length room) input"
      have fits: "nat (buf_end b) + length ?bs \<le> sl_cap (buf_v b)"
      proof -
        have "int (length room) = ?e - buf_end b" "0 \<le> buf_end b" "?e \<le> int (sl_cap (buf_v b))"
          using length_sl_sub [OF Some] Some by (simp_all add: sl_sub_Some_iff)
        then show ?thesis by simp
      qed
      have "0 \<le> buf_end b" "sl_cap (buf_v b) < 2147483648"
        using assms(2,3) by (simp_all add: buf_inv_def exact_def)
      with fits have "int32 (int (length ?bs)) = int (length ?bs)"
        "int32 (buf_end b + int (length ?bs)) = buf_end b + int (length ?bs)"
        by (intro int32_id; linarith)+
      moreover have "same_view
          (Buffer_fill b (buf_end b) ?bs \<lparr>buf_end := buf_end b + int (length ?bs)\<rparr>)
          (Buffer_fill c (buf_end c) ?bs \<lparr>buf_end := buf_end b + int (length ?bs)\<rparr>)"
        using assms(1,2) fits by (intro same_view_fill_end) auto
      ultimately show ?thesis
        using False Some room' len eqs
        by (simp add: Buffer_ReadFullFrom_def Let_def ReadFull_def same_result_def)
    qed
  qed
qed

lemma same_view_reads:
  assumes "same_view b c" and "buf_inv b" and "buf_inv c"
  shows "same_result (buf_step b OpReadByte) (buf_step c OpReadByte)"
    and "same_result (buf_step b (OpReadBytes n)) (buf_step c (OpReadBytes n))"
    and "same_result (buf_step b (OpRead k)) (buf_step c (OpRead k))"
    and "same_result (buf_step b OpBytes) (buf_step c OpBytes)"
proof -
  have eqs: "buf_start c = buf_start b" "buf_end c = buf_end b" "content c = content b"
    "Buffer_Len c = Buffer_Len b" "sl_cap (buf_v c) = sl_cap (buf_v b)"
    using assms(1) same_view_content [OF assms(1)] same_view_Len [OF assms(1)]
    by (simp_all add: same_view_def)
  have move: "same_view (b\<lparr>buf_start := s\<rparr>) (c\<lparr>buf_start := s\<rparr>)" for s
    using assms(1) by (simp add: same_view_def)
  have clear: "same_view (Buffer_Clear b) (Buffer_Clear c)"
    using assms(1) by (simp add: same_view_def Buffer_Clear_def)
  show "same_result (buf_step b OpBytes) (buf_step c OpBytes)"
    using assms eqs by (simp add: Buffer_Bytes_content same_result_def)
  show "same_result (buf_step b OpReadByte) (buf_step c OpReadByte)"
    using assms eqs move
    by (simp add: Buffer_ReadByte_spec same_result_def split: list.splits)
  show "same_result (buf_step b (OpRead k)) (buf_step c (OpRead k))"
    using assms eqs move clear
    by (simp add: Buffer_Read_def Buffer_Bytes_content same_result_def Let_def)
  show "same_result (buf_step b (OpReadBytes n)) (buf_step c (OpReadBytes n))"
  proof (cases "int32 n < 0")
    case False
    then show ?thesis
      using assms eqs move int32_bounds(2) [of n]
      by (simp add: Buffer_ReadBytes_spec same_result_def)
  next
    case True
    have bnd: "0 \<le> buf_start b" "buf_start b \<le> buf_end b" "buf_end b < 2147483648"
      using assms(2) by (auto simp: buf_inv_defs)
    then have "int32 (buf_start b + int32 n) = buf_start b + int32 n"
      using True int32_bounds(1) [of n] by (intro int32_id) linarith+
    with True bnd eqs have "Buffer_ReadBytes b (int32 n) = None" "Buffer_ReadBytes c (int32 n) = None"
      by (simp_all add: Buffer_ReadBytes_def sl_sub_def)
    then show ?thesis
      by simp
  qed
qed

lemma same_view_sub:
  assumes "same_view b c" and "hi \<le> buf_end b"
  shows "sl_sub (buf_v b) lo hi = sl_sub (buf_v c) lo hi"
proof -
  have eq: "take (nat (buf_end b)) (sl_arr (buf_v b)) = take (nat (buf_end b)) (sl_arr (buf_v c))" "sl_cap (buf_v b) = sl_cap (buf_v c)"
    using assms(1) by (simp_all add: same_view_def)
  have "nat hi \<le> nat (buf_end b)" using assms(2) by simp
  then have "take (nat hi) (sl_arr (buf_v b)) = take (nat hi) (sl_arr (buf_v c))" using eq(1) by (metis min.absorb1 take_take)
  then have "take (nat hi - nat lo) (drop (nat lo) (sl_arr (buf_v b))) = take (nat hi - nat lo) (drop (nat lo) (sl_arr (buf_v c)))"
    by (metis drop_take)
  then show ?thesis using eq(2) by (auto simp: sl_sub_def nat_diff_distrib)
qed

lemma same_view_indexed:
  assumes v: "same_view b c"
  shows "reads_inside b (OpByte i) \<Longrightarrow> same_result (buf_step b (OpByte i)) (buf_step c (OpByte i))"
    and "reads_inside b (OpBytesRange m n) \<Longrightarrow> same_result (buf_step b (OpBytesRange m n)) (buf_step c (OpBytesRange m n))"
    and "same_result (buf_step b (OpBytesFrom n)) (buf_step c (OpBytesFrom n))"
    and "reads_inside b (OpBytesTo n) \<Longrightarrow> same_result (buf_step b (OpBytesTo n)) (buf_step c (OpBytesTo n))"
proof -
  have eqs: "buf_start c = buf_start b" "buf_end c = buf_end b" "Buffer_Len c = Buffer_Len b" "sl_len (buf_v c) = sl_len (buf_v b)"
    using v same_view_Len [OF v] by (simp_all add: same_view_def)
  have get: "sl_get (buf_v b) j = sl_get (buf_v c) j" if "j < buf_end b" for j
  proof -
    have "sl_arr (buf_v b) ! nat j = sl_arr (buf_v c) ! nat j" if "0 \<le> j"
    proof -
      have n: "nat j < nat (buf_end b)" using that \<open>j < buf_end b\<close> by simp
      have "take (nat (buf_end b)) (sl_arr (buf_v b)) ! nat j = take (nat (buf_end b)) (sl_arr (buf_v c)) ! nat j"
        using v by (simp add: same_view_def)
      then show ?thesis using n by simp
    qed
    then show ?thesis using eqs(4) by (simp add: sl_get_def)
  qed
  have same: "same_result (do { x \<leftarrow> p; Some (f x, b) }) (do { x \<leftarrow> p; Some (f x, c) })" for p :: "'x option" and f
    using v by (cases p) (simp_all add: same_result_def)
  show "same_result (buf_step b (OpByte i)) (buf_step c (OpByte i))" if "reads_inside b (OpByte i)"
  proof -
    have "Buffer_Byte b (int32 i) = Buffer_Byte c (int32 i)" using get that by (simp add: Buffer_Byte_def eqs)
    then show ?thesis using same by simp
  qed
  show "same_result (buf_step b (OpBytesRange m n)) (buf_step c (OpBytesRange m n))" if "reads_inside b (OpBytesRange m n)"
  proof -
    have "Buffer_BytesRange b (int32 m) (int32 n) = Buffer_BytesRange c (int32 m) (int32 n)"
      using same_view_sub [OF v] that by (simp add: Buffer_BytesRange_def eqs Let_def)
    then show ?thesis using same by simp
  qed
  show "same_result (buf_step b (OpBytesFrom n)) (buf_step c (OpBytesFrom n))"
  proof -
    have "Buffer_BytesFrom b (int32 n) = Buffer_BytesFrom c (int32 n)"
      using same_view_sub [OF v order_refl] by (simp add: Buffer_BytesFrom_def eqs Let_def)
    then show ?thesis using same by simp
  qed
  show "same_result (buf_step b (OpBytesTo n)) (buf_step c (OpBytesTo n))" if "reads_inside b (OpBytesTo n)"
  proof -
    have "Buffer_BytesTo b (int32 n) = Buffer_BytesTo c (int32 n)"
      using same_view_sub [OF v] that by (simp add: Buffer_BytesTo_def eqs Let_def max_def not_less split: if_splits)
    then show ?thesis using same by simp
  qed
qed

lemma rel_option_same_result:
  "rel_option same_view x y \<Longrightarrow>
     same_result (do { b \<leftarrow> x; Some (out, b) }) (do { c \<leftarrow> y; Some (out, c) })"
  by (cases x; cases y) (auto simp: same_result_def)

lemma same_view_step:
  assumes "same_view b c" and "buf_inv b" and "exact b" and inside: "reads_inside b op"
  shows "same_result (buf_step b op) (buf_step c op)"
proof -
  note cinv = same_view_inv [OF assms(1-3)]
  show ?thesis
  proof (cases op)
    case (OpWriteByte x)
    have "same_result (Buffer_WriteByte b x) (Buffer_WriteByte c x)"
      using assms by (intro same_view_WriteByte)
    then show ?thesis
      unfolding OpWriteByte
      by (cases "Buffer_WriteByte b x"; cases "Buffer_WriteByte c x")
        (auto simp: same_result_def)
  next
    case OpClear
    then show ?thesis
      using assms by (simp add: same_result_def same_view_def Buffer_Clear_def)
  next
    case (OpSetByte i x)
    have "rel_option same_view (Buffer_SetByte b m x) (Buffer_SetByte c m x)" for m
    proof -
      let ?j = "nat (int32 (buf_start c + m))" and ?k = "nat (buf_end c)"
      have "take ?k ((sl_arr (buf_v b))[?j := x]) = take ?k ((sl_arr (buf_v c))[?j := x])"
        using assms(1) by (simp add: take_update_swap same_view_def)
      then show ?thesis
        using assms(1) by (simp add: Buffer_SetByte_def sl_set_def same_view_def sl_cap_def)
    qed
    from rel_option_same_result [OF this] show ?thesis
      unfolding OpSetByte buf_step.simps .
  next
    case (OpAdvance n)
    have eqs: "buf_start c = buf_start b" "buf_end c = buf_end b" "Buffer_Len c = Buffer_Len b"
      "0 \<le> buf_end b"
      using assms(1,2) same_view_Len [OF assms(1)] by (simp_all add: same_view_def buf_inv_def)
    have "same_view (Buffer_Advance b m) (Buffer_Advance c m)" for m
      using same_view_shrink [OF assms(1) order_refl] eqs
      by (simp add: Buffer_Advance_def Buffer_Check_window Let_def)
    with OpAdvance show ?thesis
      by (simp add: same_result_def)
  next
    case (OpByte i)
    then show ?thesis using same_view_indexed(1) [OF assms(1)] inside by blast
  next
    case (OpBytesRange m n)
    then show ?thesis using same_view_indexed(2) [OF assms(1)] inside by blast
  next
    case (OpBytesFrom n)
    then show ?thesis using same_view_indexed(3) [OF assms(1)] by blast
  next
    case (OpBytesTo n)
    then show ?thesis using same_view_indexed(4) [OF assms(1)] inside by blast
  qed (use assms(1-3) cinv same_view_reads same_view_Write same_view_ReadFullFrom
      rel_option_same_result [OF same_view_Extend] rel_option_same_result [OF same_view_Resize]
      in \<open>auto simp del: bind.simps\<close>)
qed

lemma same_view_run:
  "same_view b c \<Longrightarrow> buf_inv b \<Longrightarrow> exact b \<Longrightarrow> inside_run b ops \<Longrightarrow> same_result (buf_run b ops) (buf_run c ops)"
proof (induction ops arbitrary: b c)
  case Nil
  then show ?case by (simp add: same_result_def)
next
  case (Cons op ops)
  have st: "same_result (buf_step b op) (buf_step c op)"
    using Cons.prems by (intro same_view_step) simp_all
  show ?case
  proof (cases "buf_step b op")
    case None
    with st show ?thesis by (simp add: same_result_def)
  next
    case (Some r)
    with st obtain out b' c' where b': "buf_step b op = Some (out, b')"
      and c': "buf_step c op = Some (out, c')" and v: "same_view b' c'"
      by (auto simp: same_result_def elim!: option.rel_cases)
    have "buf_inv b' \<and> exact b'"
      using buf_step_inv [OF Cons.prems(2,3) b'] .
    moreover have "inside_run b' ops" using Cons.prems(4) b' by simp
    ultimately have "same_result (buf_run b' ops) (buf_run c' ops)"
      using Cons.IH v by blast
    with b' c' show ?thesis
      by (cases "buf_run b' ops"; cases "buf_run c' ops") (auto simp: same_result_def)
  qed
qed

section \<open>Properties\<close>

text \<open>
  C17. Recycled memory does not show through a buffer, as long as its reads by index and by range stay below the
  end of its content. Two buffers made from pool slices of the regular capacity, whatever bytes the
  slices hold, give the same outputs and the same errors under every sequence of operations in which
  \<^verbatim>\<open>Byte\<close>, \<^verbatim>\<open>BytesRange\<close> and \<^verbatim>\<open>BytesTo\<close> ask for nothing behind the end, panic at the same step, and end with
  the same contents. The condition is needed: a byte behind the end, inside the slice, is returned as the slice
  held it.
\<close>

theorem recycled_bytes_invisible:
  assumes "sl_cap got1 = Size" and "sl_cap got2 = Size" and "inside_run (Buffer_New got1) ops"
  shows "rel_option (\<lambda>(o1, b) (o2, c). o1 = o2 \<and> content b = content c)
      (buf_run (Buffer_New got1) ops) (buf_run (Buffer_New got2) ops) \<and>
    (\<forall>k < Size. buf_run (Buffer_New got1) [OpByte (int k)] = Some ([([sl_arr got1 ! k], None)], Buffer_New got1))"
proof -
  have "same_view (Buffer_New got1) (Buffer_New got2)" "exact (Buffer_New got1)"
    using assms by (simp_all add: same_view_def exact_def Buffer_New_def sl_cap_def)
  then have "same_result (buf_run (Buffer_New got1) ops) (buf_run (Buffer_New got2) ops)"
    using Buffer_New_inv(1) assms(3) by (intro same_view_run)
  then have run: "rel_option (\<lambda>(o1, b) (o2, c). o1 = o2 \<and> content b = content c)
      (buf_run (Buffer_New got1) ops) (buf_run (Buffer_New got2) ops)"
    unfolding same_result_def
    by (rule option.rel_mono_strong) (auto dest: same_view_content)
  have "buf_run (Buffer_New got1) [OpByte (int k)] = Some ([([sl_arr got1 ! k], None)], Buffer_New got1)" if "k < Size" for k
  proof -
    have "int32 (int k) = int k" using that by (intro int32_id) simp_all
    then show ?thesis using that assms(1) by (simp add: Buffer_Byte_def Buffer_New_def sl_get_def)
  qed
  then show ?thesis using run by blast
qed

theorem recycled_bytes_invisible_witness:
  "sl_cap (sl_of (replicate Size 0)) = Size \<and> sl_cap (sl_of (replicate Size 255)) = Size \<and>
   rel_option (\<lambda>(o1, b) (o2, c). o1 = o2 \<and> content b = content c)
     (buf_run (Buffer_New (sl_of (replicate Size 0))) [OpWrite [1, 2], OpByte 1, OpBytesTo 2, OpBytes])
     (buf_run (Buffer_New (sl_of (replicate Size 255))) [OpWrite [1, 2], OpByte 1, OpBytesTo 2, OpBytes])"
proof -
  have h: "sl_cap (sl_of (replicate Size 0)) = Size" "sl_cap (sl_of (replicate Size 255)) = Size"
    by simp_all
  have "inside_run (Buffer_New (sl_of (replicate Size 0))) [OpWrite [1, 2], OpByte 1, OpBytesTo 2, OpBytes]"
    by (auto simp: Buffer_Write_def Buffer_New_def bind_eq_Some_conv split: option.splits)
  then show ?thesis
    using h recycled_bytes_invisible [OF h] by blast
qed

text \<open>
  The positions of a buffer stay ordered and inside its slice: whatever sequence of
  operations a client runs without a panic, the invariant \<open>0 \<le> start \<le> end \<le> len(v)\<close> holds afterwards.
\<close>

theorem buffer_run_keeps_invariant:
  assumes "buf_inv b" and "exact b" and "buf_run b ops = Some (outs, b')"
  shows "buf_inv b' \<and> 0 \<le> buf_start b' \<and> buf_start b' \<le> buf_end b' \<and> buf_end b' \<le> Buffer_Cap b'"
  using buf_run_inv [OF assms] by (auto simp: buf_inv_def Buffer_Cap_def)

theorem buffer_run_keeps_invariant_witness:
  "\<exists>outs b'. buf_run (Buffer_New nil_slice) [OpWrite [7, 8, 9], OpAdvance 1, OpReadByte] = Some (outs, b')
     \<and> buf_inv b' \<and> 0 \<le> buf_start b' \<and> buf_start b' \<le> buf_end b' \<and> buf_end b' \<le> Buffer_Cap b'"
proof -
  let ?b = "Buffer_New nil_slice"
  have inv: "buf_inv ?b"
    by (rule Buffer_New_inv)
  have ex: "exact ?b"
    by (simp add: exact_def Buffer_New_def nil_slice_def sl_cap_def sl_make_def sl_of_def)
  have "buf_run ?b [OpWrite [7, 8, 9], OpAdvance 1, OpReadByte] \<noteq> None"
    by (simp add: Buffer_New_def nil_slice_def sl_cap_def sl_make_def sl_of_def Buffer_Write_def
        Buffer_fill_def sl_blit_def list_blit_def Buffer_Advance_def Buffer_Check_def Let_def
        Buffer_ReadByte_def sl_get_def)
  then obtain outs b' where run:
    "buf_run ?b [OpWrite [7, 8, 9], OpAdvance 1, OpReadByte] = Some (outs, b')"
    by auto
  with buffer_run_keeps_invariant [OF inv ex run] show ?thesis
    by blast
qed

text \<open>
  The byte pools: \<^verbatim>\<open>Free\<close> keeps every pool's slices at least as long as the pool's size, and
  then \<^verbatim>\<open>Alloc\<close> returns a slice of at least the requested length, whichever slice the pool hands out.
\<close>

theorem bytespool_alloc_enough:
  assumes "pools_inv ps" and "sl_cap b < 2147483648"
    and "\<And>i. GetPool sz = Some i \<Longrightarrow> pool_get (Free ps b) i got"
  shows "pools_inv (Free ps b) \<and> sz \<le> int (sl_len (Alloc sz got)) \<and> sl_wf (Alloc sz got)"
  using Free_inv [OF assms(1,2)] Alloc_enough [OF _ assms(3)] by simp

theorem bytespool_alloc_enough_witness:
  "pools_inv (Free [[], [], [], []] (sl_make 9000))
   \<and> 8192 \<le> int (sl_len (Alloc 8192 (sl_make 9000))) \<and> sl_wf (Alloc 8192 (sl_make 9000))"
proof -
  have inv: "pools_inv [[], [], [], []]"
    by (auto simp: pools_inv_def numPools_def nth_Cons' split: if_splits)
  have cap: "sl_cap (sl_make 9000) < 2147483648"
    by (simp add: sl_make_def)
  have "last_pool numPools 9000 = Some 1"
  proof -
    have four: "numPools = Suc (Suc (Suc (Suc 0)))"
      by (simp add: numPools_def)
    show ?thesis
      unfolding four by (simp add: poolSize_eq)
  qed
  then have "pool_get (Free [[], [], [], []] (sl_make 9000)) i (sl_make 9000)" if "GetPool 8192 = Some i" for i
    using that
    by (simp add: pool_get_def Free_def GetPool_def sl_make_def sl_of_def sl_cap_def poolSize_eq)
      auto
  from bytespool_alloc_enough [OF inv cap this] show ?thesis .
qed

section \<open>A buffer as a byte channel\<close>

text \<open>A buffer keeps the channel contract, bounded: \<^verbatim>\<open>Write\<close> may take only a prefix.\<close>

definition buffer_wr :: "Buffer chan_write" where
  "buffer_wr b bs = do { (n, _, b') \<leftarrow> Buffer_Write b bs; Some (n, b') }"

definition buffer_rd :: "Buffer chan_read" where
  "buffer_rd b k = do { (bs, _, b') \<leftarrow> Buffer_Read b k; Some (bs, b') }"

interpretation buffer_chan: byte_channel buf_inv content buffer_wr buffer_rd
proof
  fix b :: Buffer and bs :: "byte list" and k :: nat
  assume inv: "buf_inv b"
  from Buffer_Write_spec [OF inv, of bs]
  show "\<exists>n b'. buffer_wr b bs = Some (n, b') \<and> n \<le> length bs \<and> buf_inv b' \<and> content b' = content b @ take n bs"
    by (auto simp: buffer_wr_def min_def)
  from Buffer_Read_spec [OF inv, of k]
  show "\<exists>b'. buffer_rd b k = Some (take k (content b), b') \<and> buf_inv b' \<and> content b' = drop k (content b)"
    by (auto simp: buffer_rd_def)
qed

text \<open>
  A buffer is a bounded first-in first-out byte queue: over any sequence of \<^verbatim>\<open>Write\<close> and \<^verbatim>\<open>Read\<close>
  calls no call panics, and the bytes read followed by the bytes left are the bytes held at
  first followed by the prefixes the writes reported as taken.
\<close>
theorem buffer_is_fifo:
  assumes "buf_inv b"
  shows "\<exists>ins outs b'. chan_run buffer_wr buffer_rd b ops = Some (ins, outs, b') \<and> buf_inv b'
    \<and> content b @ ins = outs @ content b'"
  by (rule buffer_chan.run_fifo [OF assms])

theorem buffer_is_fifo_witness:
  "\<exists>ins outs b'. chan_run buffer_wr buffer_rd (Buffer_New nil_slice) [ChWrite [1, 2], ChRead 1, ChWrite [3]]
      = Some (ins, outs, b') \<and> ins = outs @ content b'"
  using buffer_is_fifo [OF Buffer_New_inv(1), of nil_slice "[ChWrite [1, 2], ChRead 1, ChWrite [3]]"]
  by (auto simp: Buffer_New_inv)

end
