(* ===== verification/Multi_Buffer.thy ===== *)
theory Multi_Buffer
  imports Buffer Byte_Channel
begin

text \<open>
  \<^verbatim>\<open>common/buf/multi_buffer.go\<close>: lists of buffers and the operations that merge, split, compact and
  drain them. A \<^verbatim>\<open>MultiBuffer\<close> is the list of the buffers its pointers denote; the entries a Go
  function sets to nil behind the slice it returns are not part of the returned list. Every call
  of \<^verbatim>\<open>New\<close> takes the slice that the buffer pool hands out from a supply \<open>gots\<close>, so that results
  hold for every recycled slice. Functions that release buffers also return what each
  \<^verbatim>\<open>Release\<close> gave back, in order.

  The lemmas show that the operations neither lose, duplicate nor reorder bytes.
\<close>

type_synonym MultiBuffer = "Buffer list"

section \<open>Operations\<close>

definition MergeMulti :: "MultiBuffer \<Rightarrow> MultiBuffer \<Rightarrow> MultiBuffer \<times> MultiBuffer" where
  "MergeMulti dest src = (dest @ src, [])"

text \<open>The loop of \<^verbatim>\<open>MergeBytes\<close>; \<open>k\<close> counts the buffers allocated so far.\<close>

function merge_loop :: "(nat \<Rightarrow> slice) \<Rightarrow> nat \<Rightarrow> MultiBuffer \<Rightarrow> byte list \<Rightarrow> MultiBuffer go" where
  "merge_loop gots k dest src =
     (if src = [] then Some dest
      else do {
        (nBytes, _, b) \<leftarrow> Buffer_Write (Buffer_New (gots k)) src;
        merge_loop gots (Suc k) (dest @ [b]) (drop nBytes src)
      })"
  by pat_completeness auto

lemma Buffer_Available_New [simp]: "Buffer_Available (Buffer_New got) = int Size"
  using Buffer_New_inv(1) [of got] by (simp add: Buffer_Available_inv) (simp add: Buffer_New_def)

lemma Buffer_Write_New:
  "\<exists>b. Buffer_Write (Buffer_New got) src =
       Some (min Size (length src), if Size < length src then Some ErrBufferFull else None, b)
     \<and> buf_inv b \<and> content b = take Size src \<and> sl_len (buf_v b) = Size"
  using Buffer_Write_spec [OF Buffer_New_inv(1) [of got], of src] by (simp add: Buffer_New_inv)

termination merge_loop
proof (relation "measure (\<lambda>(_, _, _, src). length src)", goal_cases)
  case (2 gots k dest src y n z err b)
  then show ?case
    using Buffer_Write_New [of "gots k" src] by auto
qed simp

definition MergeBytes :: "(nat \<Rightarrow> slice) \<Rightarrow> MultiBuffer \<Rightarrow> byte list \<Rightarrow> MultiBuffer go" where
  "MergeBytes gots dest src =
     (if dest \<noteq> [] \<and> \<not> Buffer_IsFull (last dest) then do {
        (nBytes, _, b) \<leftarrow> Buffer_Write (last dest) src;
        merge_loop gots 0 (butlast dest @ [b]) (drop nBytes src)
      } else merge_loop gots 0 dest src)"

definition ReleaseMulti :: "MultiBuffer \<Rightarrow> MultiBuffer \<times> recycled list" where
  "ReleaseMulti mb = ([], map (\<lambda>b. snd (Buffer_Release b)) mb)"

text \<open>\<^verbatim>\<open>Copy\<close> into a slice of \<open>room\<close> bytes: the bytes stored, whose number is the result.\<close>

fun MultiBuffer_Copy :: "MultiBuffer \<Rightarrow> nat \<Rightarrow> byte list go" where
  "MultiBuffer_Copy [] room = Some []"
| "MultiBuffer_Copy (bb # mb) room = do {
     bs \<leftarrow> Buffer_Bytes bb;
     let out = take room bs;
     if int32 (int (length out)) < Buffer_Len bb then Some out
     else do { rest \<leftarrow> MultiBuffer_Copy mb (room - length out); Some (out @ rest) }
   }"

text \<open>\<^verbatim>\<open>ReadFrom\<close> on a reader that delivers the bytes \<open>input\<close> and then \<^verbatim>\<open>io.EOF\<close>.\<close>

function read_from_loop ::
  "(nat \<Rightarrow> slice) \<Rightarrow> nat \<Rightarrow> MultiBuffer \<Rightarrow> byte list \<Rightarrow> (MultiBuffer \<times> go_error option) go" where
  "read_from_loop gots k mb input = do {
     (_, err, b, rest) \<leftarrow> Buffer_ReadFullFrom (Buffer_New (gots k)) input (int Size);
     let mb' = (if Buffer_IsEmpty b then mb else mb @ [b]);
     case err of
       None \<Rightarrow> read_from_loop gots (Suc k) mb' rest
     | Some e \<Rightarrow> Some (mb', if e = EOF \<or> e = ErrUnexpectedEOF then None else Some e)
   }"
  by pat_completeness auto

lemma Buffer_ReadFullFrom_New:
  "\<exists>b. Buffer_ReadFullFrom (Buffer_New got) input (int Size) =
       Some (min Size (length input), fst (snd (ReadFull input Size)), b, drop Size input)
     \<and> buf_inv b \<and> content b = take Size input"
  using Buffer_ReadFullFrom_spec [OF Buffer_New_inv(1) [of got], of "int Size" input]
  by (auto simp: Buffer_New_inv)

termination read_from_loop
proof (relation "measure (\<lambda>(_, _, _, input). length input)", goal_cases)
  case (2 gots k mb input r n r1 err r2 b rest mb')
  then show ?case
    using Buffer_ReadFullFrom_New [of "gots k" input] by (auto simp: ReadFull_def split: if_splits)
qed simp

definition MultiBuffer_ReadFrom :: "(nat \<Rightarrow> slice) \<Rightarrow> byte list \<Rightarrow> (MultiBuffer \<times> go_error option) go" where
  "MultiBuffer_ReadFrom gots input = read_from_loop gots 0 [] input"

text \<open>
  \<^verbatim>\<open>SplitBytes\<close> into a slice of \<open>room\<close> bytes: the remaining list, the bytes stored, what the
  drained buffers released.
\<close>

fun SplitBytes :: "MultiBuffer \<Rightarrow> nat \<Rightarrow> (MultiBuffer \<times> byte list \<times> recycled list) go" where
  "SplitBytes [] room = Some ([], [], [])"
| "SplitBytes (p # mb) room = do {
     (bs, _, p') \<leftarrow> Buffer_Read p room;
     if \<not> Buffer_IsEmpty p' then Some (p' # mb, bs, [])
     else do {
       (rest, out, rel) \<leftarrow> SplitBytes mb (room - length bs);
       Some (rest, bs @ out, snd (Buffer_Release p') # rel)
     }
   }"

definition SplitFirst :: "MultiBuffer \<Rightarrow> MultiBuffer \<times> Buffer option" where
  "SplitFirst mb = (case mb of [] \<Rightarrow> (mb, None) | b # mb' \<Rightarrow> (mb', Some b))"

definition SplitFirstBytes :: "MultiBuffer \<Rightarrow> nat \<Rightarrow> (MultiBuffer \<times> byte list \<times> recycled list) go" where
  "SplitFirstBytes mb room =
     (case SplitFirst mb of
        (mb', None) \<Rightarrow> Some (mb', [], [])
      | (mb', Some b) \<Rightarrow> do {
          bs \<leftarrow> Buffer_Bytes b;
          Some (mb', take room bs, [snd (Buffer_Release b)])
        })"

text \<open>
  \<^verbatim>\<open>common.Must2(last.ReadFrom(curr))\<close>: one \<^verbatim>\<open>Read\<close> of the buffer \<open>curr\<close> into the free part of
  \<open>last\<close>; an error of that read, \<^verbatim>\<open>io.EOF\<close> of an empty \<open>curr\<close> included, panics.
\<close>

definition read_buffer_into :: "Buffer \<Rightarrow> Buffer \<Rightarrow> (Buffer \<times> Buffer) go" where
  "read_buffer_into lst cur = do {
     (bs, err, cur') \<leftarrow> Buffer_Read cur (sl_len (buf_v lst) - nat (buf_end lst));
     (_, err', lst') \<leftarrow> Buffer_ReadFrom lst (\<lambda>_. (bs, err));
     if err' = None then Some (lst', cur') else None
   }"

fun compact_loop :: "MultiBuffer \<Rightarrow> Buffer \<Rightarrow> MultiBuffer \<Rightarrow> (MultiBuffer \<times> recycled list) go" where
  "compact_loop mb2 lst [] = Some (mb2 @ [lst], [])"
| "compact_loop mb2 lst (cur # mb) =
     (if Buffer_Len cur > Buffer_Available lst then compact_loop (mb2 @ [lst]) cur mb
      else do {
        (lst', cur') \<leftarrow> read_buffer_into lst cur;
        (res, rel) \<leftarrow> compact_loop mb2 lst' mb;
        Some (res, snd (Buffer_Release cur') # rel)
      })"

definition Compact :: "MultiBuffer \<Rightarrow> (MultiBuffer \<times> recycled list) go" where
  "Compact mb = (case mb of [] \<Rightarrow> Some ([], []) | b # bs \<Rightarrow> compact_loop [] b bs)"

fun split_size_loop :: "MultiBuffer \<Rightarrow> int \<Rightarrow> int \<Rightarrow> MultiBuffer \<times> MultiBuffer" where
  "split_size_loop [] totalBytes sz = ([], [])"
| "split_size_loop (b # mb) totalBytes sz =
     (if int32 (totalBytes + Buffer_Len b) > sz then (b # mb, [])
      else let (rest, r) = split_size_loop mb (int32 (totalBytes + Buffer_Len b)) sz
           in (rest, b # r))"

text \<open>The result's second list is nil in Go when it is empty here.\<close>

definition SplitSize :: "slice \<Rightarrow> MultiBuffer \<Rightarrow> int \<Rightarrow> (MultiBuffer \<times> MultiBuffer) go" where
  "SplitSize got mb sz =
     (case mb of
        [] \<Rightarrow> Some (mb, [])
      | b0 # mb' \<Rightarrow>
          if Buffer_Len b0 > sz then do {
            let b = Buffer_New got;
            b' \<leftarrow> Buffer_Extend b sz;
            bs \<leftarrow> Buffer_BytesTo b0 sz;
            let b'' = Buffer_fill b' (buf_end b) (take (nat (buf_end b' - buf_end b)) bs);
            Some (Buffer_Advance b0 sz # mb', [b''])
          } else Some (split_size_loop mb 0 sz))"

definition SplitMulti :: "MultiBuffer \<Rightarrow> int \<Rightarrow> MultiBuffer \<times> MultiBuffer" where
  "SplitMulti mb i =
     (if i < int (length mb) \<and> 0 \<le> i then (take (nat i) mb, drop (nat i) mb) else (mb, []))"

text \<open>
  \<^verbatim>\<open>WriteMultiBuffer\<close> on a writer whose successive \<^verbatim>\<open>Write\<close> calls return the errors of \<open>errs\<close>
  (\<open>None\<close> once the list is used up); the result is the leftover list, the error, the byte strings
  passed to \<^verbatim>\<open>Write\<close> in order, and what was released.
\<close>

fun WriteMultiBuffer :: "go_error option list \<Rightarrow> MultiBuffer \<Rightarrow>
    (MultiBuffer \<times> go_error option \<times> byte list list \<times> recycled list) go" where
  "WriteMultiBuffer errs [] = Some ([], None, [], [])"
| "WriteMultiBuffer errs (b # mb) = do {
     bs \<leftarrow> Buffer_Bytes b;
     let err = (case errs of [] \<Rightarrow> None | e # _ \<Rightarrow> e);
     if err \<noteq> None then Some (mb, err, [bs], [snd (Buffer_Release b)])
     else do {
       (left, e, out, rel) \<leftarrow> WriteMultiBuffer (tl errs) mb;
       Some (left, e, bs # out, snd (Buffer_Release b) # rel)
     }
   }"

definition MultiBuffer_Len :: "MultiBuffer \<Rightarrow> int" where
  "MultiBuffer_Len mb = fold (\<lambda>b sz. int32 (sz + Buffer_Len b)) mb 0"

definition MultiBuffer_IsEmpty :: "MultiBuffer \<Rightarrow> bool" where
  "MultiBuffer_IsEmpty mb = list_all Buffer_IsEmpty mb"

definition MultiBuffer_String :: "MultiBuffer \<Rightarrow> gostring go" where
  "MultiBuffer_String mb = map_option concat (those (map Buffer_Bytes mb))"

definition ReadAllToBytes ::
  "(nat \<Rightarrow> slice) \<Rightarrow> byte list \<Rightarrow> (byte list \<times> go_error option \<times> recycled list) go" where
  "ReadAllToBytes gots input = do {
     (mb, err) \<leftarrow> MultiBuffer_ReadFrom gots input;
     if err \<noteq> None then Some ([], err, [])
     else if MultiBuffer_Len mb = 0 then Some ([], None, [])
     else if MultiBuffer_Len mb < 0 then None
     else do {
       (mb', bs, rel) \<leftarrow> SplitBytes mb (nat (MultiBuffer_Len mb));
       let b = list_blit (replicate (nat (MultiBuffer_Len mb)) 0) 0 bs;
       Some (b, None, rel @ snd (ReleaseMulti mb'))
     }
   }"

section \<open>The container\<close>

text \<open>\<^verbatim>\<open>MultiBufferContainer\<close>: its one field is the list.\<close>

definition Container_Read :: "MultiBuffer \<Rightarrow> nat \<Rightarrow> (byte list \<times> go_error option \<times> MultiBuffer) go" where
  "Container_Read c room =
     (if MultiBuffer_IsEmpty c then Some ([], Some EOF, c)
      else do { (mb, bs, _) \<leftarrow> SplitBytes c room; Some (bs, None, mb) })"

definition Container_ReadMultiBuffer :: "MultiBuffer \<Rightarrow> MultiBuffer \<times> go_error option \<times> MultiBuffer" where
  "Container_ReadMultiBuffer c = (c, None, [])"

definition Container_Write ::
  "(nat \<Rightarrow> slice) \<Rightarrow> MultiBuffer \<Rightarrow> byte list \<Rightarrow> (nat \<times> go_error option \<times> MultiBuffer) go" where
  "Container_Write gots c b = do { c' \<leftarrow> MergeBytes gots c b; Some (length b, None, c') }"

definition Container_WriteMultiBuffer :: "MultiBuffer \<Rightarrow> MultiBuffer \<Rightarrow> go_error option \<times> MultiBuffer" where
  "Container_WriteMultiBuffer c b = (None, fst (MergeMulti c b))"

definition Container_Close :: "MultiBuffer \<Rightarrow> go_error option \<times> MultiBuffer \<times> recycled list" where
  "Container_Close c = (None, ReleaseMulti c)"

section \<open>Contents\<close>

definition mb_inv :: "MultiBuffer \<Rightarrow> bool" where
  "mb_inv mb = list_all buf_inv mb"

definition mcontent :: "MultiBuffer \<Rightarrow> byte list" where
  "mcontent mb = concat (map content mb)"

lemma mb_inv_simps [simp]:
  "mb_inv []" "mb_inv (b # mb) \<longleftrightarrow> buf_inv b \<and> mb_inv mb" "mb_inv (mb @ mb') \<longleftrightarrow> mb_inv mb \<and> mb_inv mb'"
  by (auto simp: mb_inv_def)

lemma mcontent_simps [simp]:
  "mcontent [] = []" "mcontent (b # mb) = content b @ mcontent mb"
  "mcontent (mb @ mb') = mcontent mb @ mcontent mb'"
  by (auto simp: mcontent_def)

declare merge_loop.simps [simp del] read_from_loop.simps [simp del]

lemma merge_loop_spec:
  "mb_inv dest \<Longrightarrow>
     \<exists>mb. merge_loop gots k dest src = Some mb \<and> mb_inv mb \<and> mcontent mb = mcontent dest @ src"
proof (induction "length src" arbitrary: k dest src rule: less_induct)
  case less
  show ?case
  proof (cases "src = []")
    case True
    with less.prems show ?thesis by (simp add: merge_loop.simps)
  next
    case False
    from Buffer_Write_New [of "gots k" src] obtain err b where
      w: "Buffer_Write (Buffer_New (gots k)) src = Some (min Size (length src), err, b)"
        "buf_inv b" "content b = take Size src"
      by blast
    from False have "length (drop (min Size (length src)) src) < length src"
      by (cases src) auto
    from less.hyps [OF this, of "dest @ [b]" "Suc k"] less.prems w False
    show ?thesis
      by (subst merge_loop.simps) (auto simp: min_def split: if_splits)
  qed
qed

text \<open>\<^verbatim>\<open>MergeBytes\<close> never panics and appends exactly the given bytes.\<close>

lemma MergeBytes_spec:
  assumes "mb_inv dest"
  shows "\<exists>mb. MergeBytes gots dest src = Some mb \<and> mb_inv mb \<and> mcontent mb = mcontent dest @ src"
proof (cases "dest \<noteq> [] \<and> \<not> Buffer_IsFull (last dest)")
  case True
  let ?i = "butlast dest" and ?l = "last dest"
  from True have d: "dest = ?i @ [?l]" by simp
  with assms have inv: "mb_inv ?i" "buf_inv ?l"
    by (metis mb_inv_simps(2,3))+
  from Buffer_Write_spec [OF inv(2), of src] obtain err b where
    w: "Buffer_Write ?l src = Some (min (nat (Buffer_Available ?l)) (length src), err, b)"
      "buf_inv b" "content b = content ?l @ take (nat (Buffer_Available ?l)) src"
    by blast
  from d have "mcontent dest = mcontent ?i @ content ?l"
    by (metis mcontent_simps append.right_neutral)
  with merge_loop_spec [of "?i @ [b]" gots 0 "drop (min (nat (Buffer_Available ?l)) (length src)) src"]
    inv w True show ?thesis
    by (auto simp: MergeBytes_def min_def split: if_splits)
next
  case False
  with merge_loop_spec [OF assms] show ?thesis by (auto simp: MergeBytes_def)
qed

lemma SplitBytes_spec:
  "mb_inv mb \<Longrightarrow> \<exists>rest rel. SplitBytes mb room = Some (rest, take room (mcontent mb), rel)
     \<and> mb_inv rest \<and> mcontent rest = drop room (mcontent mb) \<and> length rel + length rest = length mb
     \<and> (rest \<noteq> [] \<longrightarrow> content (hd rest) \<noteq> [])"
proof (induction mb arbitrary: room)
  case Nil
  then show ?case by simp
next
  case (Cons p mb)
  then have p: "buf_inv p" and mb: "mb_inv mb" by simp_all
  from Buffer_Read_spec [OF p, of room] obtain err p' where
    r: "Buffer_Read p room = Some (take room (content p), err, p')" "buf_inv p'"
      "content p' = drop room (content p)"
    by blast
  show ?case
  proof (cases "drop room (content p) = []")
    case True
    then have le: "length (content p) \<le> room" by simp
    from Cons.IH [OF mb, of "room - length (content p)"] r True le show ?thesis
      by (auto simp: Buffer_IsEmpty_content)
  next
    case False
    then have "room < length (content p)" by simp
    with False r mb show ?thesis
      by (auto simp: Buffer_IsEmpty_content)
  qed
qed

lemma MultiBuffer_Copy_spec:
  "mb_inv mb \<Longrightarrow> MultiBuffer_Copy mb room = Some (take room (mcontent mb))"
proof (induction mb arbitrary: room)
  case Nil
  then show ?case by simp
next
  case (Cons b mb)
  then have b: "buf_inv b" and mb: "mb_inv mb" by simp_all
  have len: "length (content b) < 2147483648"
    using b by (auto simp: length_content buf_inv_defs)
  then have wrap: "int32 (int (min (length (content b)) room)) = int (min (length (content b)) room)"
    by (intro int32_id) auto
  show ?case
    using Cons.IH [OF mb, of "room - length (content b)"] wrap b
    by (cases "room < length (content b)")
       (auto simp: Buffer_Bytes_content Buffer_Len_content min_def Let_def)
qed

lemma MultiBuffer_Len_mcontent:
  assumes "mb_inv mb"
  shows "MultiBuffer_Len mb = int32 (int (length (mcontent mb)))"
proof -
  have "fold (\<lambda>b sz. int32 (sz + Buffer_Len b)) mb (int32 x) = int32 (x + int (length (mcontent mb)))" for x
    using assms by (induction mb arbitrary: x) (simp_all add: Buffer_Len_content algebra_simps)
  from this [of 0] show ?thesis by (simp add: MultiBuffer_Len_def)
qed

lemma MultiBuffer_IsEmpty_mcontent: "mb_inv mb \<Longrightarrow> MultiBuffer_IsEmpty mb \<longleftrightarrow> mcontent mb = []"
  by (induction mb) (auto simp: MultiBuffer_IsEmpty_def Buffer_IsEmpty_content)

lemma MultiBuffer_String_mcontent: "mb_inv mb \<Longrightarrow> MultiBuffer_String mb = Some (mcontent mb)"
  by (induction mb) (auto simp: MultiBuffer_String_def Buffer_Bytes_content)

text \<open>The one \<^verbatim>\<open>Read\<close> of \<^verbatim>\<open>Compact\<close>: it moves everything, or panics on an empty buffer.\<close>

lemma read_buffer_into_empty:
  assumes "buf_inv lst" and "buf_inv cur" and "content cur = []"
  shows "read_buffer_into lst cur = None"
  using Buffer_Read_spec [OF assms(2), of "sl_len (buf_v lst) - nat (buf_end lst)"] assms
  by (auto simp: read_buffer_into_def Buffer_ReadFrom_def buf_inv_defs)

lemma read_buffer_into_spec:
  assumes "buf_inv lst" and "buf_inv cur" and "content cur \<noteq> []" and "Buffer_Len cur \<le> Buffer_Available lst"
  shows "\<exists>lst' cur'. read_buffer_into lst cur = Some (lst', cur') \<and> buf_inv lst'
    \<and> content lst' = content lst @ content cur"
proof -
  let ?room = "sl_len (buf_v lst) - nat (buf_end lst)" and ?bs = "content cur"
  have fits: "nat (buf_end lst) + length ?bs \<le> sl_len (buf_v lst)"
    using assms by (simp add: Buffer_Available_inv Buffer_Len_content) (auto simp: buf_inv_defs)
  then have "length ?bs \<le> ?room" by simp
  with Buffer_Read_spec [OF assms(2), of ?room] assms(3) obtain cur' where
    r: "Buffer_Read cur ?room = Some (?bs, None, cur')"
    by auto
  have "int32 (int (length ?bs)) = int (length ?bs)"
    "int32 (buf_end lst + int (length ?bs)) = buf_end lst + int (length ?bs)"
    using assms(1) fits by (auto simp: buf_inv_defs)
  with r append_at_end [OF assms(1) fits] assms(1) show ?thesis
    by (auto simp: read_buffer_into_def Buffer_ReadFrom_def buf_inv_defs)
qed

lemma compact_loop_spec:
  "mb_inv mb2 \<Longrightarrow> buf_inv lst \<Longrightarrow> mb_inv mb \<Longrightarrow> list_all (\<lambda>b. content b \<noteq> []) mb \<Longrightarrow>
     \<exists>res rel. compact_loop mb2 lst mb = Some (res, rel) \<and> mb_inv res
       \<and> mcontent res = mcontent mb2 @ content lst @ mcontent mb
       \<and> length res + length rel = Suc (length mb2 + length mb)"
proof (induction mb2 lst mb rule: compact_loop.induct)
  case (1 mb2 lst)
  then show ?case by simp
next
  case (2 mb2 lst cur mb)
  show ?case
  proof (cases "Buffer_Len cur > Buffer_Available lst")
    case True
    with 2 show ?thesis by simp
  next
    case False
    with read_buffer_into_spec [of lst cur] "2.prems" obtain lst' cur' where
      r: "read_buffer_into lst cur = Some (lst', cur')" "buf_inv lst'"
        "content lst' = content lst @ content cur"
      by auto
    from "2.IH"(2) [OF False r(1) refl "2.prems"(1) r(2)] "2.prems" r False show ?thesis by auto
  qed
qed

lemma compact_loop_panics:
  "buf_inv lst \<Longrightarrow> mb_inv mb \<Longrightarrow> \<exists>b \<in> set mb. content b = [] \<Longrightarrow> compact_loop mb2 lst mb = None"
proof (induction mb2 lst mb rule: compact_loop.induct)
  case (1 mb2 lst)
  then show ?case by simp
next
  case (2 mb2 lst cur mb)
  then have inv: "buf_inv lst" "buf_inv cur" "mb_inv mb" by simp_all
  show ?case
  proof (cases "content cur = []")
    case True
    then have "\<not> Buffer_Len cur > Buffer_Available lst"
      using inv by (auto simp: Buffer_Len_content Buffer_Available_inv buf_inv_defs)
    with True inv show ?thesis by (simp add: read_buffer_into_empty)
  next
    case False
    with "2.prems" have ex: "\<exists>b \<in> set mb. content b = []" by auto
    show ?thesis
    proof (cases "Buffer_Len cur > Buffer_Available lst")
      case True
      with "2.IH"(1) inv ex show ?thesis by simp
    next
      case le: False
      with read_buffer_into_spec [OF inv(1,2) False] obtain lst' cur' where
        r: "read_buffer_into lst cur = Some (lst', cur')" "buf_inv lst'" by auto
      from "2.IH"(2) [OF le r(1) refl r(2) inv(3) ex] r le show ?thesis by simp
    qed
  qed
qed

lemma split_size_loop_spec:
  "mb_inv mb \<Longrightarrow> 0 \<le> tot \<Longrightarrow> tot + int (length (mcontent mb)) < 2147483648 \<Longrightarrow>
   split_size_loop mb tot sz = (rest, r) \<Longrightarrow>
     r @ rest = mb \<and> (r \<noteq> [] \<longrightarrow> tot + int (length (mcontent r)) \<le> sz)
     \<and> (rest \<noteq> [] \<longrightarrow> tot + int (length (mcontent (r @ [hd rest]))) > sz)"
proof (induction mb tot sz arbitrary: rest r rule: split_size_loop.induct)
  case (1 tot sz)
  then show ?case by simp
next
  case (2 b mb tot sz)
  then have b: "buf_inv b" and mb: "mb_inv mb" by simp_all
  define t where "t = tot + int (length (content b))"
  have t: "int32 (tot + Buffer_Len b) = t"
    using "2.prems"(2,3) b by (simp add: Buffer_Len_content t_def)
  show ?case
  proof (cases "t > sz")
    case True
    with "2.prems" t show ?thesis by (auto simp: t_def)
  next
    case False
    obtain rest' r' where s: "split_size_loop mb t sz = (rest', r')" by fastforce
    have "r' @ rest' = mb \<and> (r' \<noteq> [] \<longrightarrow> t + int (length (mcontent r')) \<le> sz)
        \<and> (rest' \<noteq> [] \<longrightarrow> t + int (length (mcontent (r' @ [hd rest']))) > sz)"
      using "2.IH" [of rest' r'] False mb "2.prems"(2,3) t s by (auto simp: t_def)
    moreover have "rest = rest'" "r = b # r'"
      using "2.prems"(4) False t s by auto
    ultimately show ?thesis
      using False by (cases "r' = []") (auto simp: t_def)
  qed
qed

text \<open>The case of \<^verbatim>\<open>SplitSize\<close> that cuts the first buffer.\<close>

lemma SplitSize_cut:
  assumes inv: "buf_inv b0" and sz: "0 \<le> sz" "sz \<le> int Size" "sz < Buffer_Len b0"
  shows "\<exists>b c. SplitSize got (b0 # mb) sz = Some (c # mb, [b]) \<and> buf_inv b \<and> buf_inv c
    \<and> content b = take (nat sz) (content b0) \<and> content c = drop (nat sz) (content b0)"
proof -
  let ?n = "Buffer_New got"
  from Buffer_Extend_spec [OF Buffer_New_inv(1) [of got], of sz] sz obtain e where
    e: "Buffer_Extend ?n sz = Some e" "buf_inv e" "content e = replicate (nat sz) 0"
      "buf_end e = buf_end ?n + sz" "sl_len (buf_v e) = Size" "buf_start e = buf_start ?n"
    by (auto simp: Buffer_New_inv)
  define bs where "bs = take (nat sz) (content b0)"
  have to: "Buffer_BytesTo b0 sz = Some bs"
    using Buffer_BytesTo_spec [OF inv] sz by (simp add: bs_def)
  have len: "length bs = nat sz"
    using sz inv by (simp add: bs_def Buffer_Len_content)
  define b where "b = Buffer_fill e 0 bs"
  have z: "buf_end ?n = 0" "buf_start ?n = 0" by (simp_all add: Buffer_New_def)
  have room: "nat sz \<le> length (sl_arr (buf_v e))"
    using e z by (auto simp: buf_inv_defs)
  have "buf_inv b"
    using e z by (auto simp: b_def buf_inv_defs Buffer_fill_def sl_blit_def)
  moreover have "content b = bs"
    using e z len room take_list_blit_end [of 0 bs "sl_arr (buf_v e)"]
    by (simp add: b_def content_def Buffer_fill_def sl_blit_def)
  moreover have "SplitSize got (b0 # mb) sz = Some (Buffer_Advance b0 sz # mb, [b])"
    using sz e z to len by (simp add: SplitSize_def Let_def b_def)
  ultimately show ?thesis
    using Buffer_Advance_spec [OF inv, of sz] sz by (auto simp: bs_def)
qed

lemma WriteMultiBuffer_ok:
  assumes "mb_inv mb"
  shows "WriteMultiBuffer [] mb = Some ([], None, map content mb, snd (ReleaseMulti mb))"
  using assms by (induction mb) (auto simp: Buffer_Bytes_content ReleaseMulti_def)

lemma read_from_loop_spec:
  "mb_inv mb \<Longrightarrow> \<exists>res. read_from_loop gots k mb input = Some (res, None) \<and> mb_inv res
     \<and> mcontent res = mcontent mb @ input"
proof (induction "length input" arbitrary: k mb input rule: less_induct)
  case less
  from Buffer_ReadFullFrom_New [of "gots k" input] obtain b where
    b: "Buffer_ReadFullFrom (Buffer_New (gots k)) input (int Size) =
          Some (min Size (length input), fst (snd (ReadFull input Size)), b, drop Size input)"
      "buf_inv b" "content b = take Size input"
    by blast
  show ?case
  proof (cases "Size \<le> length input")
    case True
    then have "length (drop Size input) < length input" by simp
    from less.hyps [OF this, of "mb @ [b]" "Suc k"] b less.prems True show ?thesis
      by (subst read_from_loop.simps) (auto simp: ReadFull_def Buffer_IsEmpty_content)
  next
    case False
    with b less.prems show ?thesis
      by (subst read_from_loop.simps) (auto simp: ReadFull_def Buffer_IsEmpty_content)
  qed
qed

section \<open>The container as a byte channel\<close>

definition container_wr :: "(nat \<Rightarrow> slice) \<Rightarrow> MultiBuffer chan_write" where
  "container_wr gots c bs = do { (n, _, c') \<leftarrow> Container_Write gots c bs; Some (n, c') }"

definition container_rd :: "MultiBuffer chan_read" where
  "container_rd c k = do { (bs, _, c') \<leftarrow> Container_Read c k; Some (bs, c') }"

lemma container_wr_spec:
  "mb_inv c \<Longrightarrow> \<exists>c'. container_wr gots c bs = Some (length bs, c') \<and> mb_inv c' \<and> mcontent c' = mcontent c @ bs"
  using MergeBytes_spec [of c gots bs] by (auto simp: container_wr_def Container_Write_def)

lemma container_rd_spec:
  assumes "mb_inv c"
  shows "\<exists>c'. container_rd c k = Some (take k (mcontent c), c') \<and> mb_inv c' \<and> mcontent c' = drop k (mcontent c)"
proof (cases "mcontent c = []")
  case True
  with assms show ?thesis
    by (simp add: container_rd_def Container_Read_def MultiBuffer_IsEmpty_mcontent)
next
  case False
  from SplitBytes_spec [OF assms, of k] False assms show ?thesis
    by (auto simp: container_rd_def Container_Read_def MultiBuffer_IsEmpty_mcontent)
qed

interpretation container: lossless_channel mb_inv mcontent "container_wr gots" container_rd for gots
proof
  fix s :: MultiBuffer and bs :: "byte list" and n k :: nat and s' :: MultiBuffer
  assume inv: "mb_inv s"
  show "\<exists>n s'. container_wr gots s bs = Some (n, s') \<and> n \<le> length bs \<and> mb_inv s'
      \<and> mcontent s' = mcontent s @ take n bs"
    using container_wr_spec [OF inv] by fastforce
  show "\<exists>s'. container_rd s k = Some (take k (mcontent s), s') \<and> mb_inv s' \<and> mcontent s' = drop k (mcontent s)"
    by (rule container_rd_spec [OF inv])
  show "n = length bs" if "container_wr gots s bs = Some (n, s')"
    using container_wr_spec [OF inv, of gots bs] that by auto
qed

section \<open>Properties\<close>

text \<open>
  C18. A \<^verbatim>\<open>MultiBufferContainer\<close> is a lossless first-in first-out byte queue: whatever the sequence of
  \<^verbatim>\<open>Write\<close> and \<^verbatim>\<open>Read\<close> calls, none panics, the bytes read so far followed by the bytes still held
  are the bytes held at first followed by all bytes written, for every recycled slice the pool returns.
\<close>
theorem container_is_fifo:
  assumes "mb_inv c"
  shows "\<exists>outs c'. chan_run (container_wr gots) container_rd c ops = Some (offered ops, outs, c')
    \<and> mb_inv c' \<and> mcontent c @ offered ops = outs @ mcontent c'"
  by (rule container.run_lossless [OF assms])

theorem container_is_fifo_witness:
  "\<exists>outs c'. chan_run (container_wr (\<lambda>_. nil_slice)) container_rd []
       [ChWrite [1, 2, 3], ChRead 2, ChWrite [4]] = Some ([1, 2, 3, 4], outs, c')
     \<and> [1, 2, 3, 4] = outs @ mcontent c'"
  using container_is_fifo [of "[]" "\<lambda>_. nil_slice" "[ChWrite [1, 2, 3], ChRead 2, ChWrite [4]]"] by auto

text \<open>
  \<^verbatim>\<open>SplitSize\<close> with a size between 0 and the size of a pooled buffer cuts the byte sequence in two:
  the split part followed by the rest is the original content, the split part has at most the
  requested number of bytes, and it is as long as whole buffers allow: either everything was
  split, or the first buffer was cut to exactly the size, or the next buffer does not fit.
\<close>
theorem SplitSize_spec:
  assumes "mb_inv mb" and "0 \<le> sz" and "sz \<le> int Size" and "length (mcontent mb) < 2147483648"
  shows "\<exists>rest r. SplitSize got mb sz = Some (rest, r) \<and> mb_inv rest \<and> mb_inv r
    \<and> mcontent r @ mcontent rest = mcontent mb \<and> int (length (mcontent r)) \<le> sz
    \<and> (rest = [] \<or> int (length (mcontent r)) = sz
       \<or> sz < int (length (mcontent r)) + int (length (content (hd rest))))"
proof (cases mb)
  case Nil
  with assms(2) show ?thesis by (simp add: SplitSize_def)
next
  case (Cons b0 mb')
  with assms(1) have inv: "buf_inv b0" "mb_inv mb'" by simp_all
  show ?thesis
  proof (cases "sz < Buffer_Len b0")
    case True
    with SplitSize_cut [OF inv(1) assms(2,3) True, of got mb'] Cons inv assms(2) show ?thesis
      by (auto simp: Buffer_Len_content)
  next
    case False
    obtain rest r where s: "split_size_loop mb 0 sz = (rest, r)" by fastforce
    then have "SplitSize got mb sz = Some (rest, r)"
      using False Cons by (simp add: SplitSize_def)
    moreover have "r @ rest = mb \<and> (r \<noteq> [] \<longrightarrow> 0 + int (length (mcontent r)) \<le> sz)
        \<and> (rest \<noteq> [] \<longrightarrow> 0 + int (length (mcontent (r @ [hd rest]))) > sz)"
      by (rule split_size_loop_spec [OF assms(1) _ _ s]) (use assms(4) in auto)
    ultimately show ?thesis
      using assms(1,2) by (intro exI [of _ rest] exI [of _ r]) (cases "r = []"; auto)
  qed
qed

theorem SplitSize_spec_witness:
  "\<exists>rest r. SplitSize nil_slice [FromBytes (sl_of [1, 2, 3])] 2 = Some (rest, r)
     \<and> mcontent r @ mcontent rest = [1, 2, 3] \<and> int (length (mcontent r)) \<le> 2"
  using SplitSize_spec [of "[FromBytes (sl_of [1, 2, 3])]" 2 nil_slice] FromBytes_inv [of "sl_of [1, 2, 3]"]
  by auto

text \<open>
  \<^verbatim>\<open>Compact\<close> keeps the byte sequence and never makes the list longer, releasing exactly the
  buffers it emptied, when no buffer after the first is empty; when one is, \<^verbatim>\<open>Compact\<close> panics, since
  reading from it gives \<^verbatim>\<open>io.EOF\<close>.
\<close>
theorem Compact_spec:
  assumes "mb_inv mb"
  shows "if \<exists>b \<in> set (tl mb). content b = [] then Compact mb = None
    else \<exists>res rel. Compact mb = Some (res, rel) \<and> mb_inv res \<and> mcontent res = mcontent mb
      \<and> length res + length rel = length mb"
  using assms compact_loop_spec [of "[]" "hd mb" "tl mb"] compact_loop_panics [of "hd mb" "tl mb" "[]"]
  by (cases mb) (auto simp: Compact_def list_all_iff)

theorem Compact_spec_witness:
  "\<exists>res rel. Compact [FromBytes (sl_of [1]), FromBytes (sl_of [2])] = Some (res, rel) \<and> mcontent res = [1, 2]"
  using Compact_spec [of "[FromBytes (sl_of [1]), FromBytes (sl_of [2])]"]
    FromBytes_inv [of "sl_of [1]"] FromBytes_inv [of "sl_of [2]"]
  by auto

text \<open>
  \<^verbatim>\<open>ReadAllToBytes\<close> returns, without an error, exactly the bytes the reader delivers before
  \<^verbatim>\<open>io.EOF\<close>, whatever the recycled slices held, as long as there are fewer than 2 GiB of them.
\<close>
theorem ReadAllToBytes_spec:
  assumes "length input < 2147483648"
  shows "\<exists>rel. ReadAllToBytes gots input = Some (input, None, rel)"
proof -
  from read_from_loop_spec [of "[]" gots 0 input] obtain mb where
    mb: "MultiBuffer_ReadFrom gots input = Some (mb, None)" "mb_inv mb" "mcontent mb = input"
    by (auto simp: MultiBuffer_ReadFrom_def)
  have len: "MultiBuffer_Len mb = int (length input)"
    using mb assms by (simp add: MultiBuffer_Len_mcontent)
  from SplitBytes_spec [OF mb(2), of "length input"] mb(3) obtain rest rel where
    "SplitBytes mb (length input) = Some (rest, input, rel)"
    by auto
  with mb(1) len show ?thesis
    by (auto simp: ReadAllToBytes_def list_blit_def)
qed

theorem ReadAllToBytes_spec_witness:
  "\<exists>rel. ReadAllToBytes (\<lambda>_. nil_slice) [7, 8, 9] = Some ([7, 8, 9], None, rel)"
  using ReadAllToBytes_spec [of "[7, 8, 9]" "\<lambda>_. nil_slice"] by simp

end
