(* ===== verification/Pipe.thy ===== *)
theory Pipe
  imports Multi_Buffer
begin

text \<open>
  \<^verbatim>\<open>transport/pipe\<close> with the notifier of \<^verbatim>\<open>common/signal\<close> and the done flag of
  \<^verbatim>\<open>common/signal/done\<close>: the bounded in-memory pipe that joins an inbound and an outbound handler.
  The operations that hold the pipe's mutex are functions on the record \<open>pipe\<close>. The blocking loops of
  \<^verbatim>\<open>ReadMultiBuffer\<close>, \<^verbatim>\<open>ReadMultiBufferTimeout\<close> and \<^verbatim>\<open>WriteMultiBuffer\<close> are a step relation over any number of
  readers and writers, which are numbered, interleaved with each other and with \<^verbatim>\<open>Close\<close>, \<^verbatim>\<open>Interrupt\<close>,
  \<^verbatim>\<open>ReturnAnError\<close> and \<^verbatim>\<open>Recover\<close> calls from anywhere. The states of the system also record, as
  history, the bytes accepted by writes, delivered by reads and dropped by \<^verbatim>\<open>Interrupt\<close>.
\<close>

section \<open>Signals\<close>

text \<open>A notifier is a channel with room for one element, the done flag a channel closed once.\<close>

type_synonym Notifier = bool

definition NewNotifier :: Notifier where
  "NewNotifier = False"

definition Notifier_Signal :: "Notifier \<Rightarrow> Notifier" where
  "Notifier_Signal n = True"

record done_Instance =
  done_closed :: bool

definition done_New :: done_Instance where
  "done_New = \<lparr>done_closed = False\<rparr>"

definition done_Done :: "done_Instance \<Rightarrow> bool" where
  "done_Done d = done_closed d"

definition done_Close :: "done_Instance \<Rightarrow> go_error option \<times> done_Instance" where
  "done_Close d = (if done_closed d then (None, d) else (None, d\<lparr>done_closed := True\<rparr>))"

section \<open>The pipe\<close>

datatype pipe_state = st_open | st_closed | st_errord

record pipeOption =
  limit :: int
  discardOverflow :: bool

definition isFull :: "pipeOption \<Rightarrow> int \<Rightarrow> bool" where
  "isFull opt curSize \<longleftrightarrow> limit opt \<ge> 0 \<and> curSize > limit opt"

record pipe =
  p_data :: "MultiBuffer option"
  readSignal :: Notifier
  writeSignal :: Notifier
  p_done :: done_Instance
  errChan :: "go_error option"
  p_option :: pipeOption
  p_state :: pipe_state

definition errBufferFull :: go_error where
  "errBufferFull = ErrNew ''buffer full''"

text \<open>A nil \<^verbatim>\<open>MultiBuffer\<close> has length 0 and is empty, like an empty list.\<close>

definition mb_of :: "MultiBuffer option \<Rightarrow> MultiBuffer" where
  "mb_of x = (case x of None \<Rightarrow> [] | Some mb \<Rightarrow> mb)"

definition pipe_Len :: "pipe \<Rightarrow> int" where
  "pipe_Len p = (case p_data p of None \<Rightarrow> 0 | Some data \<Rightarrow> MultiBuffer_Len data)"

definition getState :: "pipe \<Rightarrow> bool \<Rightarrow> go_error option" where
  "getState p forRead =
     (case p_state p of
        st_open \<Rightarrow>
          if \<not> forRead \<and> isFull (p_option p) (MultiBuffer_Len (mb_of (p_data p)))
          then Some errBufferFull else None
      | st_closed \<Rightarrow>
          if \<not> forRead then Some ErrClosedPipe
          else if \<not> MultiBuffer_IsEmpty (mb_of (p_data p)) then None else Some EOF
      | st_errord \<Rightarrow> Some ErrClosedPipe)"

definition readMultiBufferInternal :: "pipe \<Rightarrow> (MultiBuffer option \<times> go_error option) \<times> pipe" where
  "readMultiBufferInternal p =
     (case getState p True of
        Some err \<Rightarrow> ((None, Some err), p)
      | None \<Rightarrow> ((p_data p, None), p\<lparr>p_data := None\<rparr>))"

definition writeMultiBufferInternal :: "pipe \<Rightarrow> MultiBuffer \<Rightarrow> go_error option \<times> pipe" where
  "writeMultiBufferInternal p mb =
     (case getState p False of
        Some err \<Rightarrow> (Some err, p)
      | None \<Rightarrow> (None,
          case p_data p of
            None \<Rightarrow> p\<lparr>p_data := Some mb\<rparr>
          | Some data \<Rightarrow> p\<lparr>p_data := Some (fst (MergeMulti data mb))\<rparr>))"

definition pipe_Close :: "pipe \<Rightarrow> pipe" where
  "pipe_Close p =
     (if p_state p = st_closed \<or> p_state p = st_errord then p
      else p\<lparr>p_state := st_closed, p_done := snd (done_Close (p_done p))\<rparr>)"

definition Interrupt :: "pipe \<Rightarrow> pipe \<times> recycled list" where
  "Interrupt p =
     (let data = mb_of (p_data p);
          (p1, rel) =
            (if \<not> MultiBuffer_IsEmpty data then
               (let q = p\<lparr>p_data := None\<rparr> in
                (if p_state q = st_closed then q\<lparr>p_state := st_errord\<rparr> else q, snd (ReleaseMulti data)))
             else (p, []))
      in if p_state p1 = st_closed \<or> p_state p1 = st_errord then (p1, rel)
         else (p1\<lparr>p_state := st_errord, p_done := snd (done_Close (p_done p1))\<rparr>, rel))"

text \<open>
  The reader's error channel has room for one error: \<open>ReturnAnError\<close> blocks (\<open>None\<close>) while one is
  there, \<open>Recover\<close> takes it if there is one.
\<close>

definition ReturnAnError :: "go_error \<Rightarrow> pipe \<Rightarrow> pipe option" where
  "ReturnAnError e p = (if errChan p = None then Some (p\<lparr>errChan := Some e\<rparr>) else None)"

definition Recover :: "pipe \<Rightarrow> go_error option \<times> pipe" where
  "Recover p = (errChan p, p\<lparr>errChan := None\<rparr>)"

text \<open>The options of \<^verbatim>\<open>New\<close>, applied in order.\<close>

definition WithoutSizeLimit :: "pipeOption \<Rightarrow> pipeOption" where
  "WithoutSizeLimit opt = opt\<lparr>limit := -1\<rparr>"

definition WithSizeLimit :: "int \<Rightarrow> pipeOption \<Rightarrow> pipeOption" where
  "WithSizeLimit n opt = opt\<lparr>limit := n\<rparr>"

definition DiscardOverflow :: "pipeOption \<Rightarrow> pipeOption" where
  "DiscardOverflow opt = opt\<lparr>discardOverflow := True\<rparr>"

text \<open>The \<^verbatim>\<open>PerConnection\<close> value of the context's buffer policy picks the option.\<close>

definition OptionsFromContext :: "int \<Rightarrow> (pipeOption \<Rightarrow> pipeOption) list" where
  "OptionsFromContext PerConnection =
     (if PerConnection \<ge> 0 then [WithSizeLimit PerConnection] else [WithoutSizeLimit])"

definition pipe_New :: "(pipeOption \<Rightarrow> pipeOption) list \<Rightarrow> pipe" where
  "pipe_New opts =
     \<lparr>p_data = None, readSignal = NewNotifier, writeSignal = NewNotifier, p_done = done_New,
      errChan = None, p_option = fold (\<lambda>opt o1. opt o1) opts \<lparr>limit = -1, discardOverflow = False\<rparr>,
      p_state = st_open\<rparr>"

section \<open>The blocking operations\<close>

text \<open>
  Where a reader is: outside, about to call \<open>readMultiBufferInternal\<close>, about to signal a
  writer with a result in hand, or blocked in the \<^verbatim>\<open>select\<close>. The flag tells the variant with a timer.
\<close>

datatype reader_pc =
    RIdle
  | RTry bool
  | RSignal "MultiBuffer option \<times> go_error option"
  | RSelect bool

text \<open>
  Where a writer is: outside, about to call \<open>writeMultiBufferInternal\<close>, about to signal a
  reader before returning, or blocked in the \<^verbatim>\<open>select\<close> of a full pipe.
\<close>

datatype writer_pc =
    WIdle
  | WTry MultiBuffer
  | WSignal "go_error option"
  | WSelect MultiBuffer

record pipe_sys =
  sys_pipe :: pipe
  sys_readers :: "nat \<Rightarrow> reader_pc"
  sys_writers :: "nat \<Rightarrow> writer_pc"
  accepted :: "byte list"
  delivered :: "byte list"
  dropped :: "byte list"
  sys_reads :: "(MultiBuffer option \<times> go_error option) list"
  sys_writes :: "go_error option list"

definition pipe_init :: "(pipeOption \<Rightarrow> pipeOption) list \<Rightarrow> pipe_sys" where
  "pipe_init opts = \<lparr>sys_pipe = pipe_New opts, sys_readers = (\<lambda>_. RIdle), sys_writers = (\<lambda>_. WIdle),
     accepted = [], delivered = [], dropped = [], sys_reads = [], sys_writes = []\<rparr>"

definition reader_at :: "nat \<Rightarrow> reader_pc \<Rightarrow> pipe_sys \<Rightarrow> pipe_sys" where
  "reader_at i pc s = s\<lparr>sys_readers := (sys_readers s)(i := pc)\<rparr>"

definition writer_at :: "nat \<Rightarrow> writer_pc \<Rightarrow> pipe_sys \<Rightarrow> pipe_sys" where
  "writer_at i pc s = s\<lparr>sys_writers := (sys_writers s)(i := pc)\<rparr>"

definition reader_returns :: "nat \<Rightarrow> MultiBuffer option \<times> go_error option \<Rightarrow> pipe_sys \<Rightarrow> pipe_sys" where
  "reader_returns i r s = (reader_at i RIdle s)\<lparr>sys_reads := sys_reads s @ [r]\<rparr>"

definition writer_returns :: "nat \<Rightarrow> go_error option \<Rightarrow> pipe_sys \<Rightarrow> pipe_sys" where
  "writer_returns i e s = (writer_at i WIdle s)\<lparr>sys_writes := sys_writes s @ [e]\<rparr>"

text \<open>One iteration's call of the reader's loop, and what it does next.\<close>

definition reader_try :: "nat \<Rightarrow> bool \<Rightarrow> pipe_sys \<Rightarrow> pipe_sys" where
  "reader_try i timed s =
     (let ((data, err), p) = readMultiBufferInternal (sys_pipe s);
          s' = s\<lparr>sys_pipe := p, delivered := delivered s @ mcontent (mb_of data)\<rparr>
      in if data \<noteq> None \<or> err \<noteq> None then reader_at i (RSignal (data, err)) s'
         else reader_at i (RSelect timed) s')"

text \<open>One iteration's call of the writer's loop and its branches.\<close>

definition writer_try :: "nat \<Rightarrow> MultiBuffer \<Rightarrow> pipe_sys \<Rightarrow> pipe_sys" where
  "writer_try i mb s =
     (let (err, p) = writeMultiBufferInternal (sys_pipe s) mb;
          s' = s\<lparr>sys_pipe := p\<rparr>
      in if err = None then writer_at i (WSignal None) (s'\<lparr>accepted := accepted s @ mcontent mb\<rparr>)
         else if err = Some errBufferFull then
           if discardOverflow (p_option p) then writer_returns i None s'
           else writer_at i (WSelect mb) s'
         else writer_at i (WSignal err) s')"

definition writer_call :: "nat \<Rightarrow> MultiBuffer \<Rightarrow> pipe_sys \<Rightarrow> pipe_sys" where
  "writer_call i mb s =
     (if MultiBuffer_IsEmpty mb then writer_returns i None s else writer_at i (WTry mb) s)"

definition sys_interrupt :: "pipe_sys \<Rightarrow> pipe_sys" where
  "sys_interrupt s =
     s\<lparr>sys_pipe := fst (Interrupt (sys_pipe s)),
       dropped := dropped s @
         (if MultiBuffer_IsEmpty (mb_of (p_data (sys_pipe s))) then []
          else mcontent (mb_of (p_data (sys_pipe s))))\<rparr>"

inductive pipe_step :: "pipe_sys \<Rightarrow> pipe_sys \<Rightarrow> bool" where
  read_call: "sys_readers s i = RIdle \<Longrightarrow> pipe_step s (reader_at i (RTry timed) s)"
| read_try: "sys_readers s i = RTry timed \<Longrightarrow> pipe_step s (reader_try i timed s)"
| read_signal: "sys_readers s i = RSignal r \<Longrightarrow>
    pipe_step s (reader_returns i r
      (s\<lparr>sys_pipe := (sys_pipe s)\<lparr>writeSignal := Notifier_Signal (writeSignal (sys_pipe s))\<rparr>\<rparr>))"
| read_wake: "sys_readers s i = RSelect timed \<Longrightarrow> readSignal (sys_pipe s) \<Longrightarrow>
    pipe_step s (reader_at i (RTry timed) (s\<lparr>sys_pipe := (sys_pipe s)\<lparr>readSignal := False\<rparr>\<rparr>))"
| read_done: "sys_readers s i = RSelect timed \<Longrightarrow> done_Done (p_done (sys_pipe s)) \<Longrightarrow>
    pipe_step s (reader_at i (RTry timed) s)"
| read_err: "sys_readers s i = RSelect False \<Longrightarrow> errChan (sys_pipe s) = Some e \<Longrightarrow>
    pipe_step s (reader_returns i (None, Some e) (s\<lparr>sys_pipe := (sys_pipe s)\<lparr>errChan := None\<rparr>\<rparr>))"
| read_timeout: "sys_readers s i = RSelect True \<Longrightarrow> pipe_step s (reader_returns i (None, Some ErrReadTimeout) s)"
| write_call: "sys_writers s i = WIdle \<Longrightarrow> mb_inv mb \<Longrightarrow> pipe_step s (writer_call i mb s)"
| write_try: "sys_writers s i = WTry mb \<Longrightarrow> pipe_step s (writer_try i mb s)"
| write_signal: "sys_writers s i = WSignal e \<Longrightarrow>
    pipe_step s (writer_returns i e
      (s\<lparr>sys_pipe := (sys_pipe s)\<lparr>readSignal := Notifier_Signal (readSignal (sys_pipe s))\<rparr>\<rparr>))"
| write_wake: "sys_writers s i = WSelect mb \<Longrightarrow> writeSignal (sys_pipe s) \<Longrightarrow>
    pipe_step s (writer_at i (WTry mb) (s\<lparr>sys_pipe := (sys_pipe s)\<lparr>writeSignal := False\<rparr>\<rparr>))"
| write_done: "sys_writers s i = WSelect mb \<Longrightarrow> done_Done (p_done (sys_pipe s)) \<Longrightarrow>
    pipe_step s (writer_returns i (Some ErrClosedPipe) s)"
| close: "pipe_step s (s\<lparr>sys_pipe := pipe_Close (sys_pipe s)\<rparr>)"
| interrupt: "pipe_step s (sys_interrupt s)"
| return_error: "ReturnAnError e (sys_pipe s) = Some p \<Longrightarrow> pipe_step s (s\<lparr>sys_pipe := p\<rparr>)"
| recover: "pipe_step s (s\<lparr>sys_pipe := snd (Recover (sys_pipe s))\<rparr>)"

inductive pipe_reachable :: "(pipeOption \<Rightarrow> pipeOption) list \<Rightarrow> pipe_sys \<Rightarrow> bool" for opts where
  init: "pipe_reachable opts (pipe_init opts)"
| step: "pipe_reachable opts s \<Longrightarrow> pipe_step s s' \<Longrightarrow> pipe_reachable opts s'"

section \<open>The invariant\<close>

definition held :: "pipe_sys \<Rightarrow> byte list" where
  "held s = mcontent (mb_of (p_data (sys_pipe s)))"

definition pipe_full :: "pipe \<Rightarrow> bool" where
  "pipe_full p \<longleftrightarrow> isFull (p_option p) (MultiBuffer_Len (mb_of (p_data p)))"

definition pipe_ok :: "pipe \<Rightarrow> bool" where
  "pipe_ok p \<longleftrightarrow>
     (\<forall>mb. p_data p = Some mb \<longrightarrow> mb_inv mb \<and> mcontent mb \<noteq> [])
     \<and> done_closed (p_done p) = (p_state p \<noteq> st_open)
     \<and> (p_state p = st_errord \<longrightarrow> p_data p = None)"

definition pending :: "writer_pc \<Rightarrow> MultiBuffer option" where
  "pending w = (case w of WTry mb \<Rightarrow> Some mb | WSelect mb \<Rightarrow> Some mb | _ \<Rightarrow> None)"

text \<open>
  Nothing is lost, and no wake-up is. A reader that is blocked while there is data has a signal waiting, a
  writer about to give it, or another reader about to take the data. A writer that is blocked while the open pipe is
  empty has a signal waiting, a reader about to give it, or another writer about to try.
\<close>

definition history_ok :: "pipe_sys \<Rightarrow> bool" where
  "history_ok s \<longleftrightarrow> accepted s = delivered s @ dropped s @ held s
     \<and> (p_state (sys_pipe s) \<noteq> st_errord \<longrightarrow> dropped s = [])"

definition reader_wakes :: "pipe_sys \<Rightarrow> bool" where
  "reader_wakes s \<longleftrightarrow>
     (\<forall>i t. sys_readers s i = RSelect t \<and> p_data (sys_pipe s) \<noteq> None \<longrightarrow>
        readSignal (sys_pipe s) \<or> (\<exists>j e. sys_writers s j = WSignal e) \<or> (\<exists>j t. sys_readers s j = RTry t))"

definition writer_wakes :: "pipe_sys \<Rightarrow> bool" where
  "writer_wakes s \<longleftrightarrow>
     (\<forall>i mb. sys_writers s i = WSelect mb \<and> p_state (sys_pipe s) = st_open \<and> p_data (sys_pipe s) = None \<longrightarrow>
        writeSignal (sys_pipe s) \<or> (\<exists>j r. sys_readers s j = RSignal r) \<or> (\<exists>j mb. sys_writers s j = WTry mb))"

definition pipe_inv :: "pipe_sys \<Rightarrow> bool" where
  "pipe_inv s \<longleftrightarrow> pipe_ok (sys_pipe s)
     \<and> (\<forall>i mb. pending (sys_writers s i) = Some mb \<longrightarrow> mb_inv mb \<and> mcontent mb \<noteq> [])
     \<and> history_ok s \<and> reader_wakes s \<and> writer_wakes s"

lemmas pipe_inv_defs = pipe_inv_def pipe_ok_def history_ok_def reader_wakes_def writer_wakes_def
  held_def pending_def

lemma mb_of_simps [simp]: "mb_of None = []" "mb_of (Some mb) = mb"
  by (simp_all add: mb_of_def)

lemma pipe_ok_empty: "pipe_ok p \<Longrightarrow> MultiBuffer_IsEmpty (mb_of (p_data p)) \<longleftrightarrow> p_data p = None"
  by (cases "p_data p") (simp_all add: pipe_ok_def MultiBuffer_IsEmpty_mcontent)

text \<open>The three outcomes of the guarded read.\<close>

lemma readMultiBufferInternal_spec:
  assumes "pipe_ok p"
  shows "readMultiBufferInternal p =
    (case p_data p of
       Some mb \<Rightarrow> ((Some mb, None), p\<lparr>p_data := None\<rparr>)
     | None \<Rightarrow> ((None, case p_state p of st_open \<Rightarrow> None | st_closed \<Rightarrow> Some EOF | st_errord \<Rightarrow> Some ErrClosedPipe), p))"
  using assms pipe_ok_empty [OF assms]
  by (cases "p_state p"; cases "p_data p")
     (auto simp: readMultiBufferInternal_def getState_def pipe_ok_def)

lemma writeMultiBufferInternal_spec:
  "writeMultiBufferInternal p mb =
    (if p_state p \<noteq> st_open then (Some ErrClosedPipe, p)
     else if pipe_full p then (Some errBufferFull, p)
     else (None, p\<lparr>p_data := Some (mb_of (p_data p) @ mb)\<rparr>))"
  by (cases "p_state p"; cases "p_data p")
     (auto simp: writeMultiBufferInternal_def getState_def pipe_full_def MergeMulti_def)

lemma Interrupt_spec:
  assumes "pipe_ok p"
  shows "fst (Interrupt p) =
    (case (p_state p, p_data p) of
       (st_open, _) \<Rightarrow> p\<lparr>p_data := None, p_state := st_errord, p_done := \<lparr>done_closed = True\<rparr>\<rparr>
     | (st_closed, Some _) \<Rightarrow> p\<lparr>p_data := None, p_state := st_errord\<rparr>
     | _ \<Rightarrow> p)"
  using assms pipe_ok_empty [OF assms]
  by (cases "p_state p"; cases "p_data p")
     (auto simp: Interrupt_def pipe_ok_def done_Close_def)

lemma MultiBuffer_Len_empty [simp]: "MultiBuffer_Len [] = 0"
  by (simp add: MultiBuffer_Len_def)

text \<open>A thread that moves on keeps or becomes the one that wakes another.\<close>

lemma moved_readers:
  "sys_readers (reader_at i pc s) j = (if j = i then pc else sys_readers s j)"
  "sys_writers (reader_at i pc s) = sys_writers s" "sys_pipe (reader_at i pc s) = sys_pipe s"
  "accepted (reader_at i pc s) = accepted s" "delivered (reader_at i pc s) = delivered s" "dropped (reader_at i pc s) = dropped s"
  by (simp_all add: reader_at_def)

lemma moved_writers:
  "sys_writers (writer_at i pc s) j = (if j = i then pc else sys_writers s j)"
  "sys_readers (writer_at i pc s) = sys_readers s" "sys_pipe (writer_at i pc s) = sys_pipe s"
  "accepted (writer_at i pc s) = accepted s" "delivered (writer_at i pc s) = delivered s" "dropped (writer_at i pc s) = dropped s"
  by (simp_all add: writer_at_def)

lemmas moved = moved_readers moved_writers reader_returns_def writer_returns_def

lemma pipe_inv_init: "pipe_inv (pipe_init opts)"
  by (simp add: pipe_inv_defs pipe_init_def pipe_New_def done_New_def)

text \<open>The parts of the invariant, for steps that leave the rest alone.\<close>

lemma pipe_invI:
  assumes "pipe_ok (sys_pipe s)" "\<And>i mb. pending (sys_writers s i) = Some mb \<Longrightarrow> mb_inv mb \<and> mcontent mb \<noteq> []"
    and "history_ok s" "reader_wakes s" "writer_wakes s"
  shows "pipe_inv s"
  using assms by (simp add: pipe_inv_def)

lemma pipe_invD:
  assumes "pipe_inv s"
  shows "pipe_ok (sys_pipe s)" "\<And>i mb. pending (sys_writers s i) = Some mb \<Longrightarrow> mb_inv mb \<and> mcontent mb \<noteq> []"
    "history_ok s" "reader_wakes s" "writer_wakes s"
  using assms by (simp_all add: pipe_inv_def)

lemma pipe_inv_reader_try:
  assumes "pipe_inv s" "sys_readers s i = RTry t"
  shows "pipe_inv (reader_try i t s)"
proof (cases "p_data (sys_pipe s)")
  case None
  note inv = pipe_invD [OF assms(1)]
  define pc where "pc = (case p_state (sys_pipe s) of st_open \<Rightarrow> RSelect t | st_closed \<Rightarrow> RSignal (None, Some EOF)
      | st_errord \<Rightarrow> RSignal (None, Some ErrClosedPipe))"
  have eq: "reader_try i t s = reader_at i pc s"
    using inv(1) None by (simp add: reader_try_def readMultiBufferInternal_spec pc_def split: pipe_state.splits)
  have "writer_wakes (reader_at i pc s)"
    using inv(5) assms(2) None unfolding writer_wakes_def moved by (metis reader_pc.distinct(7))
  then show ?thesis
    unfolding eq using inv None by (intro pipe_invI) (auto simp: moved history_ok_def held_def reader_wakes_def)
next
  case (Some mb)
  note inv = pipe_invD [OF assms(1)]
  have eq: "reader_try i t s = reader_at i (RSignal (Some mb, None))
      (s\<lparr>sys_pipe := (sys_pipe s)\<lparr>p_data := None\<rparr>, delivered := delivered s @ mcontent mb\<rparr>)"
    using inv(1) Some by (simp add: reader_try_def readMultiBufferInternal_spec)
  show ?thesis
    unfolding eq using inv Some
    by (intro pipe_invI) (auto simp: moved history_ok_def held_def reader_wakes_def writer_wakes_def pipe_ok_def)
qed

lemma pipe_inv_writer_try:
  assumes "pipe_inv s" "sys_writers s i = WTry mb"
  shows "pipe_inv (writer_try i mb s)"
proof -
  note inv = pipe_invD [OF assms(1)]
  have mb: "mb_inv mb" "mcontent mb \<noteq> []" using inv(2) [of i mb] assms(2) by (simp_all add: pending_def)
  consider "p_state (sys_pipe s) \<noteq> st_open" | "p_state (sys_pipe s) = st_open" "pipe_full (sys_pipe s)"
    | "p_state (sys_pipe s) = st_open" "\<not> pipe_full (sys_pipe s)" by blast
  then show ?thesis
  proof cases
    case 1
    then have eq: "writer_try i mb s = writer_at i (WSignal (Some ErrClosedPipe)) s"
      by (simp add: writer_try_def writeMultiBufferInternal_spec errBufferFull_def)
    show ?thesis
      unfolding eq using inv 1
      by (intro pipe_invI) (auto simp: moved history_ok_def held_def reader_wakes_def writer_wakes_def pending_def split: if_splits)
  next
    case 2
    then have data: "p_data (sys_pipe s) \<noteq> None" by (cases "p_data (sys_pipe s)") (auto simp: pipe_full_def isFull_def)
    have rw: "reader_wakes (writer_at i pc s)" for pc
      using inv(4) assms(2) unfolding reader_wakes_def moved by (metis writer_pc.distinct(7))
    have "pipe_inv (writer_at i pc s)" if "pending pc = Some mb \<or> pending pc = None" for pc
      using inv data that mb rw
      by (intro pipe_invI) (auto simp: moved history_ok_def held_def writer_wakes_def split: if_splits)
    from this [of WIdle] this [of "WSelect mb"] show ?thesis
      using 2 by (simp add: writer_try_def writeMultiBufferInternal_spec pending_def writer_returns_def pipe_inv_def
          history_ok_def held_def reader_wakes_def writer_wakes_def)
  next
    case 3
    then have eq: "writer_try i mb s = writer_at i (WSignal None)
        (s\<lparr>sys_pipe := (sys_pipe s)\<lparr>p_data := Some (mb_of (p_data (sys_pipe s)) @ mb)\<rparr>, accepted := accepted s @ mcontent mb\<rparr>)"
      by (simp add: writer_try_def writeMultiBufferInternal_spec)
    have "mb_inv (mb_of (p_data (sys_pipe s)))" using inv(1) by (cases "p_data (sys_pipe s)") (auto simp: pipe_ok_def)
    then show ?thesis
      unfolding eq using inv 3 mb
      by (intro pipe_invI)
        (auto simp: moved history_ok_def held_def reader_wakes_def writer_wakes_def pending_def pipe_ok_def split: if_splits)
  qed
qed

lemma pipe_inv_interrupt: "pipe_inv s \<Longrightarrow> pipe_inv (sys_interrupt s)"
  by (cases "p_data (sys_pipe s)"; cases "p_state (sys_pipe s)")
     (auto simp: sys_interrupt_def Interrupt_spec MultiBuffer_IsEmpty_mcontent pipe_inv_defs)

lemma pipe_inv_close: "pipe_inv s \<Longrightarrow> pipe_inv (s\<lparr>sys_pipe := pipe_Close (sys_pipe s)\<rparr>)"
  by (cases "p_state (sys_pipe s)") (auto simp: pipe_Close_def done_Close_def pipe_inv_defs)

text \<open>Threads that change their place only, and the signals.\<close>

lemma pipe_inv_idle:
  assumes "pipe_inv s" "sys_writers s i = WIdle \<or> (\<exists>mb. sys_writers s i = WSelect mb)"
    and "\<And>mb. pending pc = Some mb \<Longrightarrow> mb_inv mb \<and> mcontent mb \<noteq> []" "\<And>mb. pc \<noteq> WSelect mb"
  shows "pipe_inv (writer_at i pc s)"
proof -
  note inv = pipe_invD [OF assms(1)]
  have "reader_wakes (writer_at i pc s)"
    using inv(4) assms(2) unfolding reader_wakes_def moved by (metis writer_pc.distinct)
  moreover have "writer_wakes (writer_at i pc s)"
    using inv(5) assms(2,4) unfolding writer_wakes_def moved by (metis writer_pc.distinct)
  ultimately show ?thesis
    using inv assms(3) by (intro pipe_invI) (auto simp: moved history_ok_def held_def split: if_splits)
qed

lemma pipe_inv_reader_at:
  assumes "pipe_inv s" "sys_readers s i = RIdle \<or> (\<exists>t. sys_readers s i = RSelect t)" "\<And>t. pc \<noteq> RSelect t"
  shows "pipe_inv (reader_at i pc s)"
proof -
  note inv = pipe_invD [OF assms(1)]
  have "reader_wakes (reader_at i pc s)"
    using inv(4) assms(2,3) unfolding reader_wakes_def moved by (metis reader_pc.distinct)
  moreover have "writer_wakes (reader_at i pc s)"
    using inv(5) assms(2) unfolding writer_wakes_def moved by (metis reader_pc.distinct)
  ultimately show ?thesis using inv by (intro pipe_invI) (auto simp: moved history_ok_def held_def)
qed

lemma pipe_inv_results [simp]:
  "pipe_inv (s\<lparr>sys_reads := x\<rparr>) = pipe_inv s" "pipe_inv (s\<lparr>sys_writes := y\<rparr>) = pipe_inv s"
  by (simp_all add: pipe_inv_defs)

lemma pipe_inv_errChan [simp]: "pipe_inv (s\<lparr>sys_pipe := (sys_pipe s)\<lparr>errChan := e\<rparr>\<rparr>) = pipe_inv s"
  by (simp add: pipe_inv_defs)

lemma pipe_inv_signals:
  assumes "pipe_inv s"
  shows "sys_readers s i = RSignal r \<Longrightarrow> pipe_inv (reader_at i RIdle (s\<lparr>sys_pipe := (sys_pipe s)\<lparr>writeSignal := True\<rparr>\<rparr>))"
    and "sys_readers s i = RSelect t \<Longrightarrow> pipe_inv (reader_at i (RTry t) (s\<lparr>sys_pipe := (sys_pipe s)\<lparr>readSignal := False\<rparr>\<rparr>))"
    and "sys_writers s i = WSignal e \<Longrightarrow> pipe_inv (writer_at i WIdle (s\<lparr>sys_pipe := (sys_pipe s)\<lparr>readSignal := True\<rparr>\<rparr>))"
    and "sys_writers s i = WSelect mb \<Longrightarrow> pipe_inv (writer_at i (WTry mb) (s\<lparr>sys_pipe := (sys_pipe s)\<lparr>writeSignal := False\<rparr>\<rparr>))"
proof -
  note inv = pipe_invD [OF assms]
  note frame = moved history_ok_def held_def pipe_ok_def
  {
    assume i: "sys_readers s i = RSignal r"
    have "reader_wakes (reader_at i RIdle (s\<lparr>sys_pipe := (sys_pipe s)\<lparr>writeSignal := True\<rparr>\<rparr>))"
      using inv(4) i unfolding reader_wakes_def by (simp add: moved) (metis reader_pc.distinct)
    then show "pipe_inv (reader_at i RIdle (s\<lparr>sys_pipe := (sys_pipe s)\<lparr>writeSignal := True\<rparr>\<rparr>))"
      using inv by (intro pipe_invI) (auto simp: frame writer_wakes_def)
  next
    assume i: "sys_readers s i = RSelect t"
    have "writer_wakes (reader_at i (RTry t) (s\<lparr>sys_pipe := (sys_pipe s)\<lparr>readSignal := False\<rparr>\<rparr>))"
      using inv(5) i unfolding writer_wakes_def by (simp add: moved) (metis reader_pc.distinct)
    then show "pipe_inv (reader_at i (RTry t) (s\<lparr>sys_pipe := (sys_pipe s)\<lparr>readSignal := False\<rparr>\<rparr>))"
      using inv by (intro pipe_invI) (auto simp: frame reader_wakes_def)
  next
    assume i: "sys_writers s i = WSignal e"
    have "writer_wakes (writer_at i WIdle (s\<lparr>sys_pipe := (sys_pipe s)\<lparr>readSignal := True\<rparr>\<rparr>))"
      using inv(5) i unfolding writer_wakes_def by (simp add: moved) (metis writer_pc.distinct)
    then show "pipe_inv (writer_at i WIdle (s\<lparr>sys_pipe := (sys_pipe s)\<lparr>readSignal := True\<rparr>\<rparr>))"
      using inv by (intro pipe_invI) (auto simp: frame reader_wakes_def pending_def split: if_splits)
  next
    assume i: "sys_writers s i = WSelect mb"
    have "reader_wakes (writer_at i (WTry mb) (s\<lparr>sys_pipe := (sys_pipe s)\<lparr>writeSignal := False\<rparr>\<rparr>))"
      using inv(4) i unfolding reader_wakes_def by (simp add: moved) (metis writer_pc.distinct)
    then show "pipe_inv (writer_at i (WTry mb) (s\<lparr>sys_pipe := (sys_pipe s)\<lparr>writeSignal := False\<rparr>\<rparr>))"
      using inv i inv(2) [of i mb]
      by (intro pipe_invI) (auto simp: frame writer_wakes_def pending_def split: if_splits)
  }
qed

lemma pipe_inv_write_call:
  "pipe_inv s \<Longrightarrow> sys_writers s i = WIdle \<Longrightarrow> mb_inv mb \<Longrightarrow> pipe_inv (writer_call i mb s)"
  using pipe_inv_idle [of s i WIdle] pipe_inv_idle [of s i "WTry mb"]
  by (auto simp: writer_call_def writer_returns_def MultiBuffer_IsEmpty_mcontent pending_def)

lemma pipe_inv_step: "pipe_step s s' \<Longrightarrow> pipe_inv s \<Longrightarrow> pipe_inv s'"
proof (induction rule: pipe_step.induct)
  case (read_err s i e)
  then have "pipe_inv (s\<lparr>sys_pipe := (sys_pipe s)\<lparr>errChan := None\<rparr>\<rparr>)" by simp
  from pipe_inv_reader_at [OF this, of i RIdle] read_err show ?case by (auto simp: reader_returns_def)
next
  case (return_error e s p)
  then have "p = (sys_pipe s)\<lparr>errChan := Some e\<rparr>" by (simp add: ReturnAnError_def split: if_splits)
  with return_error.prems show ?case by simp
next
  case (read_timeout s i)
  then show ?case using pipe_inv_reader_at [of s i RIdle] by (auto simp: reader_returns_def)
next
  case (write_done s i mb)
  then show ?case using pipe_inv_idle [of s i WIdle] by (simp add: writer_returns_def pending_def)
qed (simp_all add: pipe_inv_reader_try pipe_inv_writer_try pipe_inv_write_call pipe_inv_interrupt pipe_inv_close
    pipe_inv_reader_at pipe_inv_signals reader_returns_def writer_returns_def Notifier_Signal_def Recover_def)

lemma pipe_reachable_inv: "pipe_reachable opts s \<Longrightarrow> pipe_inv s"
  by (induction rule: pipe_reachable.induct) (auto intro: pipe_inv_init pipe_inv_step)

lemma pipe_reachable_option:
  "pipe_reachable opts s \<Longrightarrow> p_option (sys_pipe s) = p_option (pipe_New opts)"
proof (induction rule: pipe_reachable.induct)
  case (step s s')
  from step.hyps(2) have "p_option (sys_pipe s') = p_option (sys_pipe s)"
    by (induction rule: pipe_step.induct)
       (auto simp: reader_try_def readMultiBufferInternal_def writer_try_def writeMultiBufferInternal_def
          writer_call_def reader_returns_def writer_returns_def reader_at_def writer_at_def pipe_Close_def sys_interrupt_def Interrupt_def
          ReturnAnError_def Recover_def Let_def split: option.splits prod.splits if_splits)
  with step.IH show ?case by simp
qed (simp add: pipe_init_def)

section \<open>Properties\<close>

text \<open>
  C4. The pipe is lossless and keeps the order: in every reachable state of any number of readers
  and writers and any calls of \<^verbatim>\<open>Close\<close>, \<^verbatim>\<open>Interrupt\<close>, \<^verbatim>\<open>ReturnAnError\<close> and \<^verbatim>\<open>Recover\<close>, the bytes accepted by
  successful writes are the bytes delivered to readers, followed by those an interrupt dropped,
  followed by those still in the pipe; only an interrupted pipe drops bytes.
\<close>
theorem pipe_lossless:
  assumes "pipe_reachable opts s"
  shows "accepted s = delivered s @ dropped s @ held s
    \<and> (p_state (sys_pipe s) \<noteq> st_errord \<longrightarrow> accepted s = delivered s @ held s)"
  using pipe_reachable_inv [OF assms] by (simp add: pipe_inv_def history_ok_def)

definition sample_mb :: MultiBuffer where
  "sample_mb = [FromBytes (sl_of [1, 2, 3])]"

lemma sample_mb_facts: "mb_inv sample_mb" "mcontent sample_mb = [1, 2, 3]" "\<not> MultiBuffer_IsEmpty sample_mb"
proof -
  have "buf_inv (FromBytes (sl_of [1, 2, 3]))" "content (FromBytes (sl_of [1, 2, 3])) = [1, 2, 3]"
    using FromBytes_inv [of "sl_of [1, 2, 3]"] by simp_all
  then show a: "mb_inv sample_mb" "mcontent sample_mb = [1, 2, 3]"
    by (simp_all add: sample_mb_def)
  then show "\<not> MultiBuffer_IsEmpty sample_mb"
    by (simp add: MultiBuffer_IsEmpty_mcontent)
qed

text \<open>A run: a write that succeeds, up to before its signal.\<close>

definition sample_written :: pipe_sys where
  "sample_written = writer_try 0 sample_mb (writer_call 0 sample_mb (pipe_init []))"

lemma sample_written_reachable: "pipe_reachable [] sample_written"
proof -
  have "pipe_reachable [] (writer_call 0 sample_mb (pipe_init []))"
    by (rule pipe_reachable.step [OF pipe_reachable.init write_call])
       (simp_all add: pipe_init_def sample_mb_facts)
  then show ?thesis
    unfolding sample_written_def
    by (rule pipe_reachable.step [OF _ write_try]) (simp add: writer_call_def writer_at_def sample_mb_facts)
qed

lemma sample_written_eq:
  "accepted sample_written = [1, 2, 3]" "delivered sample_written = []" "sys_readers sample_written 0 = RIdle"
  "sys_writers sample_written 0 = WSignal None" "p_data (sys_pipe sample_written) = Some sample_mb"
  "p_state (sys_pipe sample_written) = st_open"
  by (simp_all add: sample_written_def writer_try_def writer_call_def writer_at_def sample_mb_facts pipe_init_def
      pipe_New_def writeMultiBufferInternal_spec pipe_full_def isFull_def)

theorem pipe_lossless_witness:
  "accepted sample_written = [1, 2, 3] \<and> [1, 2, 3] = delivered sample_written @ held sample_written"
  using pipe_lossless [OF sample_written_reachable] sample_written_eq by auto

text \<open>
  C5. No wake-up is lost and there is no deadlock, for any number of readers and writers on the one-slot
  signals. In every reachable state: a reader blocked in its \<^verbatim>\<open>select\<close> while the pipe holds data has the
  read signal pending, a writer about to give it, or another reader about to take the data; a writer
  blocked while the open pipe is empty has the write signal pending, a reader about to give it, or another
  writer about to try; once the pipe is closed or interrupted the done channel wakes all; and when a
  reader and a writer are blocked, a signal is pending, the pipe is done, or some thread can run. (A signal
  wakes one writer: with data left in the pipe the others may wait for the signal of the next read, even if there
  is room.)
\<close>
theorem pipe_no_lost_wakeup:
  assumes "pipe_reachable opts s"
  defines "p \<equiv> sys_pipe s"
  shows "(sys_readers s i = RSelect t \<and> p_data p \<noteq> None \<longrightarrow>
         readSignal p \<or> (\<exists>j e. sys_writers s j = WSignal e) \<or> (\<exists>j t. sys_readers s j = RTry t))
    \<and> (sys_writers s k = WSelect mb \<and> p_state p = st_open \<and> p_data p = None \<longrightarrow>
         writeSignal p \<or> (\<exists>j r. sys_readers s j = RSignal r) \<or> (\<exists>j mb. sys_writers s j = WTry mb))
    \<and> (p_state p \<noteq> st_open \<longrightarrow> done_Done (p_done p))
    \<and> (sys_readers s i = RSelect t \<and> sys_writers s k = WSelect mb \<longrightarrow>
         readSignal p \<or> writeSignal p \<or> done_Done (p_done p) \<or>
         (\<exists>j. (\<exists>t. sys_readers s j = RTry t) \<or> (\<exists>r. sys_readers s j = RSignal r) \<or>
              (\<exists>mb. sys_writers s j = WTry mb) \<or> (\<exists>e. sys_writers s j = WSignal e)))"
proof -
  note inv = pipe_invD [OF pipe_reachable_inv [OF assms(1)]]
  have r: "sys_readers s i = RSelect t \<and> p_data p \<noteq> None \<longrightarrow>
      readSignal p \<or> (\<exists>j e. sys_writers s j = WSignal e) \<or> (\<exists>j t. sys_readers s j = RTry t)"
    using inv(4) unfolding reader_wakes_def p_def by blast
  have w: "sys_writers s k = WSelect mb \<and> p_state p = st_open \<and> p_data p = None \<longrightarrow>
      writeSignal p \<or> (\<exists>j r. sys_readers s j = RSignal r) \<or> (\<exists>j mb. sys_writers s j = WTry mb)"
    using inv(5) unfolding writer_wakes_def p_def by blast
  have d: "p_state p \<noteq> st_open \<longrightarrow> done_Done (p_done p)" using inv(1) by (simp add: pipe_ok_def done_Done_def p_def)
  have "sys_readers s i = RSelect t \<and> sys_writers s k = WSelect mb \<longrightarrow>
      readSignal p \<or> writeSignal p \<or> done_Done (p_done p) \<or>
      (\<exists>j. (\<exists>t. sys_readers s j = RTry t) \<or> (\<exists>r. sys_readers s j = RSignal r) \<or>
           (\<exists>mb. sys_writers s j = WTry mb) \<or> (\<exists>e. sys_writers s j = WSignal e))"
    using r w d by (cases "p_data p = None"; cases "p_state p = st_open"; simp; blast)
  then show ?thesis by (intro conjI r w d)
qed

text \<open>A state in which a reader is blocked while two writers are about to signal it.\<close>

theorem pipe_no_lost_wakeup_witness:
  "\<exists>s. pipe_reachable [] s \<and> sys_readers s 0 = RSelect False \<and> sys_writers s 2 = WSignal None \<and> p_data (sys_pipe s) \<noteq> None
     \<and> (readSignal (sys_pipe s) \<or> (\<exists>j e. sys_writers s j = WSignal e) \<or> (\<exists>j t. sys_readers s j = RTry t))"
proof -
  define r where "r = reader_try 0 False (reader_at 0 (RTry False) (pipe_init []))"
  define w where "w = writer_call 0 sample_mb r"
  define v where "v = writer_call 2 sample_mb (writer_try 0 sample_mb w)"
  define u where "u = writer_try 2 sample_mb v"
  have 1: "pipe_reachable [] (reader_at 0 (RTry False) (pipe_init []))"
    by (rule pipe_reachable.step [OF pipe_reachable.init read_call]) (simp add: pipe_init_def)
  have 2: "pipe_reachable [] r"
    unfolding r_def by (rule pipe_reachable.step [OF 1 read_try]) (simp add: moved)
  have r: "sys_readers r 0 = RSelect False" "sys_writers r = (\<lambda>_. WIdle)" "sys_pipe r = pipe_New []"
    by (simp_all add: r_def reader_try_def readMultiBufferInternal_def getState_def reader_at_def pipe_init_def pipe_New_def)
  have 3: "pipe_reachable [] w"
    unfolding w_def by (rule pipe_reachable.step [OF 2 write_call]) (simp_all add: r sample_mb_facts)
  have 4: "pipe_reachable [] (writer_try 0 sample_mb w)"
    by (rule pipe_reachable.step [OF 3 write_try]) (simp add: w_def writer_call_def moved sample_mb_facts)
  have w: "sys_readers (writer_try 0 sample_mb w) 0 = RSelect False" "sys_writers (writer_try 0 sample_mb w) 2 = WIdle"
    by (simp_all add: w_def writer_try_def writer_call_def writer_at_def sample_mb_facts r
        writeMultiBufferInternal_spec pipe_New_def pipe_full_def isFull_def)
  have 5: "pipe_reachable [] v"
    unfolding v_def by (rule pipe_reachable.step [OF 4 write_call]) (simp_all add: w sample_mb_facts)
  have 6: "pipe_reachable [] u"
    unfolding u_def by (rule pipe_reachable.step [OF 5 write_try]) (simp add: v_def writer_call_def moved sample_mb_facts)
  have u: "sys_readers u 0 = RSelect False" "p_data (sys_pipe u) \<noteq> None" "sys_writers u 2 = WSignal None"
    by (simp_all add: u_def v_def w_def writer_try_def writer_call_def writer_at_def sample_mb_facts r
        writeMultiBufferInternal_spec pipe_New_def pipe_full_def isFull_def)
  with pipe_no_lost_wakeup [OF 6, of 0 False] 6 show ?thesis by blast
qed

text \<open>
  The life cycle of a reachable pipe. \<^verbatim>\<open>Close\<close> of an open pipe keeps the data: the next read returns
  all of it and the one after that \<^verbatim>\<open>io.EOF\<close>. Any write to a closed or interrupted pipe fails with
  \<^verbatim>\<open>io.ErrClosedPipe\<close> and changes nothing. After \<^verbatim>\<open>Interrupt\<close> a pipe that was open or held data gives
  \<^verbatim>\<open>io.ErrClosedPipe\<close> to every read and holds nothing.
\<close>
theorem pipe_life_cycle:
  assumes "pipe_reachable opts s" and "p_state (sys_pipe s) = st_open"
  defines "p \<equiv> sys_pipe s"
  shows "(\<exists>q. readMultiBufferInternal (pipe_Close p) =
          ((p_data p, if p_data p = None then Some EOF else None), q)
      \<and> fst (readMultiBufferInternal q) = (None, Some EOF)
      \<and> (\<forall>mb. writeMultiBufferInternal (pipe_Close p) mb = (Some ErrClosedPipe, pipe_Close p)))
    \<and> fst (readMultiBufferInternal (fst (Interrupt p))) = (None, Some ErrClosedPipe)
      \<and> p_data (fst (Interrupt p)) = None
      \<and> (\<forall>mb. writeMultiBufferInternal (fst (Interrupt p)) mb = (Some ErrClosedPipe, fst (Interrupt p)))"
proof -
  from pipe_reachable_inv [OF assms(1)] have ok: "pipe_ok p"
    by (simp add: pipe_inv_def p_def)
  have st: "p_state p = st_open" using assms(2) by (simp add: p_def)
  have cl: "pipe_ok (pipe_Close p)" "p_state (pipe_Close p) = st_closed" "p_data (pipe_Close p) = p_data p"
    using ok st by (auto simp: pipe_Close_def done_Close_def pipe_ok_def)
  have q: "pipe_ok (pipe_Close p\<lparr>p_data := None\<rparr>)"
    using cl by (auto simp: pipe_ok_def)
  have closing: "\<exists>q. readMultiBufferInternal (pipe_Close p) =
          ((p_data p, if p_data p = None then Some EOF else None), q)
      \<and> fst (readMultiBufferInternal q) = (None, Some EOF)
      \<and> (\<forall>mb. writeMultiBufferInternal (pipe_Close p) mb = (Some ErrClosedPipe, pipe_Close p))"
    using cl q
    by (cases "p_data p") (auto simp: readMultiBufferInternal_spec writeMultiBufferInternal_spec)
  have it: "fst (Interrupt p) = p\<lparr>p_data := None, p_state := st_errord, p_done := \<lparr>done_closed = True\<rparr>\<rparr>"
    using Interrupt_spec [OF ok] st by simp
  with closing show ?thesis
    by (auto simp: writeMultiBufferInternal_spec readMultiBufferInternal_def getState_def)
qed

theorem pipe_life_cycle_witness:
  "\<exists>q. readMultiBufferInternal (pipe_Close (sys_pipe sample_written)) = ((Some sample_mb, None), q)
     \<and> fst (readMultiBufferInternal q) = (None, Some EOF)"
  using pipe_life_cycle [OF sample_written_reachable] by (simp add: sample_written_eq) blast

text \<open>
  The size limit: a pipe created with a limit accepts a write only while it holds at most that
  many bytes, so it never holds more than the limit and the bytes of one write; a pipe without a
  limit never reports itself full.
\<close>
theorem pipe_limit:
  assumes "pipe_reachable opts s" and "writeMultiBufferInternal (sys_pipe s) mb = (None, p')"
    and "length (held s) < 2147483648"
  defines "n \<equiv> limit (p_option (pipe_New opts))"
  shows "mcontent (mb_of (p_data p')) = held s @ mcontent mb
    \<and> (0 \<le> n \<longrightarrow> int (length (mcontent (mb_of (p_data p')))) \<le> n + int (length (mcontent mb)))"
proof -
  have ok: "mb_inv (mb_of (p_data (sys_pipe s)))"
    using pipe_reachable_inv [OF assms(1)] by (cases "p_data (sys_pipe s)") (auto simp: pipe_inv_def pipe_ok_def)
  have len: "MultiBuffer_Len (mb_of (p_data (sys_pipe s))) = int (length (held s))"
    using assms(3) ok by (simp add: MultiBuffer_Len_mcontent held_def)
  from assms(2) have "\<not> pipe_full (sys_pipe s)"
    and p': "p' = (sys_pipe s)\<lparr>p_data := Some (mb_of (p_data (sys_pipe s)) @ mb)\<rparr>"
    by (auto simp: writeMultiBufferInternal_spec split: if_splits)
  then have "0 \<le> n \<longrightarrow> int (length (held s)) \<le> n"
    using pipe_reachable_option [OF assms(1)] len by (auto simp: pipe_full_def isFull_def n_def)
  then show ?thesis using p' by (auto simp: held_def)
qed

theorem pipe_limit_witness:
  "\<exists>p'. writeMultiBufferInternal (sys_pipe (pipe_init [WithSizeLimit 0])) sample_mb = (None, p')
     \<and> int (length (mcontent (mb_of (p_data p')))) \<le> 0 + 3"
proof -
  obtain p' where p': "writeMultiBufferInternal (sys_pipe (pipe_init [WithSizeLimit 0])) sample_mb = (None, p')"
    by (simp add: writeMultiBufferInternal_spec pipe_init_def pipe_New_def pipe_full_def isFull_def WithSizeLimit_def)
  have "length (held (pipe_init [WithSizeLimit 0])) < 2147483648"
    by (simp add: held_def pipe_init_def pipe_New_def)
  from pipe_limit [OF pipe_reachable.init p' this] p' show ?thesis
    by (auto simp: sample_mb_facts pipe_New_def WithSizeLimit_def)
qed

end
