(* ===== verification/Addr_Codec.thy ===== *)
theory Addr_Codec
  imports Net_Addr Buffer Wire_Codec
begin

text \<open>
  The address-and-port serializer of \<^verbatim>\<open>common/protocol/address.go\<close> that the proxy protocols and the
  multiplexer build on, and the integer helpers of \<^verbatim>\<open>common/serial\<close>. An \<^verbatim>\<open>io.Writer\<close> is a function
  on a state of its own; an \<^verbatim>\<open>io.Reader\<close> that is read by \<^verbatim>\<open>io.ReadFull\<close> only is the bytes it delivers.
  The locale \<open>append_writer\<close> is what the encoder relies on in a writer, and \<open>Buffer\<close> provides it.
\<close>

section \<open>Writers\<close>

type_synonym 'w writer = "'w \<Rightarrow> byte list \<Rightarrow> (go_error option \<times> 'w) go"

text \<open>
  The contract of a writer with room for \<open>room w\<close> more bytes: a write that fits succeeds and appends.
\<close>

locale append_writer =
  fixes wr :: "'w writer"
    and wok :: "'w \<Rightarrow> bool"
    and out :: "'w \<Rightarrow> byte list"
    and room :: "'w \<Rightarrow> nat"
  assumes wr_fits: "wok w \<Longrightarrow> length bs \<le> room w \<Longrightarrow>
      \<exists>w'. wr w bs = Some (None, w') \<and> wok w' \<and> out w' = out w @ bs \<and> room w' = room w - length bs"

text \<open>\<^verbatim>\<open>common/serial\<close>\<close>

definition ReadUint16 :: "byte list \<Rightarrow> ((go_error + u16) \<times> byte list) go" where
  "ReadUint16 input =
     (let (b, err, rest) = ReadFull input 2 in
      case err of
        Some e \<Rightarrow> Some (Inl e, rest)
      | None \<Rightarrow> do { v \<leftarrow> be_get16 b; Some (Inr v, rest) })"

definition WriteUint16 :: "'w writer \<Rightarrow> 'w \<Rightarrow> u16 \<Rightarrow> (go_error option \<times> 'w) go" where
  "WriteUint16 wr w value = wr w (be_put16 value)"

section \<open>The serializer\<close>

definition af_index :: "AddressFamily \<Rightarrow> nat" where
  "af_index f = (case f of AddressFamilyIPv4 \<Rightarrow> 0 | AddressFamilyIPv6 \<Rightarrow> 1 | AddressFamilyDomain \<Rightarrow> 2)"

definition afInvalid :: byte where
  "afInvalid = 255"

text \<open>An entry \<open>None\<close> of the type map is \<^verbatim>\<open>net.AddressFamily(afInvalid)\<close>.\<close>

record addr_option =
  o_addrTypeMap :: "AddressFamily option list"
  o_addrByteMap :: "byte list"
  o_portFirst :: bool
  o_typeParser :: "(byte \<Rightarrow> byte) option"

record addressParser =
  addrTypeMap :: "AddressFamily option list"
  addrByteMap :: "byte list"
  typeParser :: "(byte \<Rightarrow> byte) option"

datatype AddressSerializer =
    portFirstAddressParser addressParser
  | portLastAddressParser addressParser

type_synonym AddressOption = "addr_option \<Rightarrow> addr_option"

definition PortThenAddress :: AddressOption where
  "PortThenAddress p = p\<lparr>o_portFirst := True\<rparr>"

definition AddressFamilyByte :: "byte \<Rightarrow> AddressFamily \<Rightarrow> AddressOption go" where
  "AddressFamilyByte b f =
     (if b \<ge> 16 then None
      else Some (\<lambda>p. p\<lparr>o_addrTypeMap := (o_addrTypeMap p)[unat b := Some f],
                       o_addrByteMap := (o_addrByteMap p)[af_index f := b]\<rparr>))"

definition WithAddressTypeParser :: "(byte \<Rightarrow> byte) \<Rightarrow> AddressOption" where
  "WithAddressTypeParser atp p = p\<lparr>o_typeParser := Some atp\<rparr>"

definition NewAddressParser :: "AddressOption list \<Rightarrow> AddressSerializer" where
  "NewAddressParser options =
     (let o0 = \<lparr>o_addrTypeMap = replicate 16 None, o_addrByteMap = replicate 16 afInvalid,
                o_portFirst = False, o_typeParser = None\<rparr>;
          o1 = foldl (\<lambda>p opt. opt p) o0 options;
          ap = \<lparr>addrTypeMap = o_addrTypeMap o1, addrByteMap = o_addrByteMap o1, typeParser = o_typeParser o1\<rparr>
      in if o_portFirst o1 then portFirstAddressParser ap else portLastAddressParser ap)"

definition isDomainTooLong :: "gostring \<Rightarrow> bool" where
  "isDomainTooLong domain \<longleftrightarrow> length domain > 256"

definition maybeIPPrefix :: "byte \<Rightarrow> bool" where
  "maybeIPPrefix b \<longleftrightarrow> b = 91 \<or> (48 \<le> b \<and> b \<le> 57)"

text \<open>
  The source ranges over the runes of the string; a byte outside ASCII belongs to a rune outside
  the accepted set, so the check is the same byte by byte.
\<close>

definition domain_char :: "byte \<Rightarrow> bool" where
  "domain_char c \<longleftrightarrow> (48 \<le> c \<and> c \<le> 57) \<or> (97 \<le> c \<and> c \<le> 122) \<or> (65 \<le> c \<and> c \<le> 90) \<or> c = 45 \<or> c = 46 \<or> c = 95"

definition isValidDomain :: "gostring \<Rightarrow> bool" where
  "isValidDomain d \<longleftrightarrow> list_all domain_char d"

definition readPort :: "Buffer \<Rightarrow> byte list \<Rightarrow> ((go_error + Port) \<times> Buffer \<times> byte list) go" where
  "readPort b reader = do {
     (_, err, b, reader) \<leftarrow> Buffer_ReadFullFrom b reader 2;
     case err of
       Some e \<Rightarrow> Some (Inl e, b, reader)
     | None \<Rightarrow> do {
         bs \<leftarrow> Buffer_BytesFrom b (-2);
         port \<leftarrow> PortFromBytes bs;
         Some (Inr port, b, reader)
       } }"

definition writePort :: "'w writer \<Rightarrow> 'w \<Rightarrow> Port \<Rightarrow> (go_error option \<times> 'w) go" where
  "writePort wr w port = WriteUint16 wr w port"

text \<open>The two IP cases of the switch: \<open>n\<close> bytes made into an address.\<close>

definition read_ip :: "int \<Rightarrow> Buffer \<Rightarrow> byte list \<Rightarrow> ((go_error + Address option) \<times> Buffer \<times> byte list) go" where
  "read_ip n b reader = do {
     (_, err, b, reader) \<leftarrow> Buffer_ReadFullFrom b reader n;
     case err of
       Some e \<Rightarrow> Some (Inl e, b, reader)
     | None \<Rightarrow> do {
         ip \<leftarrow> Buffer_BytesFrom b (int32 (- n));
         Some (Inr (IPAddress ip), b, reader)
       } }"

definition read_domain :: "Buffer \<Rightarrow> byte list \<Rightarrow> ((go_error + Address option) \<times> Buffer \<times> byte list) go" where
  "read_domain b reader = do {
     (_, err, b, reader) \<leftarrow> Buffer_ReadFullFrom b reader 1;
     case err of
       Some e \<Rightarrow> Some (Inl e, b, reader)
     | None \<Rightarrow> do {
         l \<leftarrow> Buffer_Byte b (int32 (Buffer_Len b - 1));
         let domainLength = int (unat l);
         (_, err, b, reader) \<leftarrow> Buffer_ReadFullFrom b reader domainLength;
         case err of
           Some e \<Rightarrow> Some (Inl e, b, reader)
         | None \<Rightarrow> do {
             domain \<leftarrow> Buffer_BytesFrom b (int32 (- domainLength));
             c \<leftarrow> (case domain of [] \<Rightarrow> None | c # _ \<Rightarrow> Some c);
             addr \<leftarrow> (if maybeIPPrefix c then do {
                 a \<leftarrow> ParseAddress domain;
                 Some (if IsIP (Family a) then Some a else None)
               } else Some None);
             case addr of
               Some a \<Rightarrow> Some (Inr (Some a), b, reader)
             | None \<Rightarrow>
                 if \<not> isValidDomain domain then Some (Inl (ErrNew ''invalid domain name: ''), b, reader)
                 else Some (Inr (Some (DomainAddress domain)), b, reader)
           } } }"

definition readAddress ::
  "addressParser \<Rightarrow> Buffer \<Rightarrow> byte list \<Rightarrow> ((go_error + Address option) \<times> Buffer \<times> byte list) go" where
  "readAddress p b reader = do {
     (_, err, b, reader) \<leftarrow> Buffer_ReadFullFrom b reader 1;
     case err of
       Some e \<Rightarrow> Some (Inl e, b, reader)
     | None \<Rightarrow> do {
         t \<leftarrow> Buffer_Byte b (int32 (Buffer_Len b - 1));
         let addrType = (case typeParser p of None \<Rightarrow> t | Some tp \<Rightarrow> tp t);
         if addrType \<ge> 16 then Some (Inl (ErrNew ''unknown address type: ''), b, reader)
         else if unat addrType \<ge> length (addrTypeMap p) then None
         else case addrTypeMap p ! unat addrType of
           None \<Rightarrow> Some (Inl (ErrNew ''unknown address type: ''), b, reader)
         | Some AddressFamilyIPv4 \<Rightarrow> read_ip 4 b reader
         | Some AddressFamilyIPv6 \<Rightarrow> read_ip 16 b reader
         | Some AddressFamilyDomain \<Rightarrow> read_domain b reader
       } }"

definition writeAddress ::
  "addressParser \<Rightarrow> 'w writer \<Rightarrow> 'w \<Rightarrow> Address option \<Rightarrow> (go_error option \<times> 'w) go" where
  "writeAddress p wr w addr = do {
     address \<leftarrow> addr;
     tb \<leftarrow> (if af_index (Family address) < length (addrByteMap p)
            then Some (addrByteMap p ! af_index (Family address)) else None);
     if tb = afInvalid then Some (Some (ErrNew ''unknown address family''), w)
     else case Family address of
       AddressFamilyDomain \<Rightarrow> do {
         domain \<leftarrow> Address_Domain address;
         if isDomainTooLong domain then Some (Some (ErrNew ''Super long domain is not supported: ''), w)
         else do {
           (err, w) \<leftarrow> wr w [tb, of_nat (length domain)];
           case err of Some e \<Rightarrow> Some (Some e, w) | None \<Rightarrow> wr w domain
         } }
     | _ \<Rightarrow> do {
         (err, w) \<leftarrow> wr w [tb];
         case err of
           Some e \<Rightarrow> Some (Some e, w)
         | None \<Rightarrow> do { ip \<leftarrow> Address_IP address; wr w ip } } }"

text \<open>
  \<^verbatim>\<open>ReadAddressPort\<close> reads through the caller's buffer, or through a fresh one when it is nil:
  \<open>got\<close> is the slice the buffer pool hands out then.
\<close>

type_synonym addr_result = "(go_error + Address option \<times> Port) \<times> Buffer \<times> byte list"

fun ReadAddressPort :: "AddressSerializer \<Rightarrow> slice \<Rightarrow> Buffer option \<Rightarrow> byte list \<Rightarrow> addr_result go" where
  "ReadAddressPort (portFirstAddressParser ap) got buffer input = do {
     let b = (case buffer of None \<Rightarrow> Buffer_New got | Some b \<Rightarrow> b);
     (r, b, input) \<leftarrow> readPort b input;
     case r of
       Inl e \<Rightarrow> Some (Inl e, b, input)
     | Inr port \<Rightarrow> do {
         (r, b, input) \<leftarrow> readAddress ap b input;
         case r of Inl e \<Rightarrow> Some (Inl e, b, input) | Inr addr \<Rightarrow> Some (Inr (addr, port), b, input)
       } }"
| "ReadAddressPort (portLastAddressParser ap) got buffer input = do {
     let b = (case buffer of None \<Rightarrow> Buffer_New got | Some b \<Rightarrow> b);
     (r, b, input) \<leftarrow> readAddress ap b input;
     case r of
       Inl e \<Rightarrow> Some (Inl e, b, input)
     | Inr addr \<Rightarrow> do {
         (r, b, input) \<leftarrow> readPort b input;
         case r of Inl e \<Rightarrow> Some (Inl e, b, input) | Inr port \<Rightarrow> Some (Inr (addr, port), b, input)
       } }"

fun WriteAddressPort ::
  "AddressSerializer \<Rightarrow> 'w writer \<Rightarrow> 'w \<Rightarrow> Address option \<Rightarrow> Port \<Rightarrow> (go_error option \<times> 'w) go" where
  "WriteAddressPort (portFirstAddressParser ap) wr w addr port = do {
     (err, w) \<leftarrow> writePort wr w port;
     case err of Some e \<Rightarrow> Some (Some e, w) | None \<Rightarrow> writeAddress ap wr w addr }"
| "WriteAddressPort (portLastAddressParser ap) wr w addr port = do {
     (err, w) \<leftarrow> writeAddress ap wr w addr;
     case err of Some e \<Rightarrow> Some (Some e, w) | None \<Rightarrow> writePort wr w port }"

section \<open>The grammar of an address\<close>

text \<open>
  What the parser reads, as a function of the bytes alone: the number of bytes each field takes and
  the errors on every branch. The buffer the code reads through does not occur in it.
\<close>

definition spec_ip :: "nat \<Rightarrow> byte list \<Rightarrow> (go_error + Address option) \<times> byte list" where
  "spec_ip n bs =
     (if n \<le> length bs then (Inr (IPAddress (take n bs)), drop n bs)
      else (Inl (if bs = [] then EOF else ErrUnexpectedEOF), []))"

definition ip_text :: "gostring \<Rightarrow> bool" where
  "ip_text d \<longleftrightarrow> d \<noteq> [] \<and> maybeIPPrefix (hd d) \<and> (\<exists>a. ParseAddress d = Some a \<and> IsIP (Family a))"

fun spec_domain :: "byte list \<Rightarrow> (go_error + Address option) \<times> byte list" where
  "spec_domain [] = (Inl EOF, [])"
| "spec_domain (l # bs) =
     (let n = unat l; d = take n bs in
      if length bs < n then (Inl (if bs = [] then EOF else ErrUnexpectedEOF), [])
      else (if ip_text d then Inr (ParseAddress d)
            else if d = [] \<or> \<not> isValidDomain d then Inl (ErrNew ''invalid domain name: '')
            else Inr (Some (DomainAddress d)), drop n bs))"

definition family_of :: "addressParser \<Rightarrow> byte \<Rightarrow> AddressFamily option" where
  "family_of p t =
     (let ty = (case typeParser p of None \<Rightarrow> t | Some tp \<Rightarrow> tp t)
      in if ty \<ge> 16 then None else addrTypeMap p ! unat ty)"

fun spec_address :: "addressParser \<Rightarrow> byte list \<Rightarrow> (go_error + Address option) \<times> byte list" where
  "spec_address p [] = (Inl EOF, [])"
| "spec_address p (t # bs) =
     (case family_of p t of
        None \<Rightarrow> (Inl (ErrNew ''unknown address type: ''), bs)
      | Some AddressFamilyIPv4 \<Rightarrow> spec_ip 4 bs
      | Some AddressFamilyIPv6 \<Rightarrow> spec_ip 16 bs
      | Some AddressFamilyDomain \<Rightarrow> spec_domain bs)"

fun spec_port :: "byte list \<Rightarrow> (go_error + Port) \<times> byte list" where
  "spec_port (x # y # bs) = (Inr (ucast y OR push_bit 8 (ucast x)), bs)"
| "spec_port bs = (Inl (if bs = [] then EOF else ErrUnexpectedEOF), [])"

fun spec_address_port :: "AddressSerializer \<Rightarrow> byte list \<Rightarrow> (go_error + Address option \<times> Port) \<times> byte list" where
  "spec_address_port (portFirstAddressParser p) bs =
     (case spec_port bs of
        (Inl e, rest) \<Rightarrow> (Inl e, rest)
      | (Inr port, rest) \<Rightarrow>
          (case spec_address p rest of (Inl e, rest) \<Rightarrow> (Inl e, rest) | (Inr a, rest) \<Rightarrow> (Inr (a, port), rest)))"
| "spec_address_port (portLastAddressParser p) bs =
     (case spec_address p bs of
        (Inl e, rest) \<Rightarrow> (Inl e, rest)
      | (Inr a, rest) \<Rightarrow>
          (case spec_port rest of (Inl e, rest) \<Rightarrow> (Inl e, rest) | (Inr port, rest) \<Rightarrow> (Inr (a, port), rest)))"

section \<open>Reading through a buffer\<close>

lemma Buffer_Available_end:
  "buf_inv b \<Longrightarrow> Buffer_Available b = int (sl_len (buf_v b)) - buf_start b - int (length (content b))"
  by (simp add: Buffer_Available_inv length_content) (simp add: buf_inv_defs)

lemma read_step:
  assumes "buf_inv b" and "int n \<le> Buffer_Available b"
  shows "\<exists>b' m. Buffer_ReadFullFrom b input (int n) = Some (m,
       (if n \<le> length input then None else if input = [] then Some EOF else Some ErrUnexpectedEOF), b', drop n input)
    \<and> buf_inv b' \<and> content b' = content b @ take n input
    \<and> Buffer_Available b' = Buffer_Available b - int (min n (length input))"
proof -
  from Buffer_ReadFullFrom_spec [OF assms(1) _ assms(2), of input] obtain b' where
    b': "Buffer_ReadFullFrom b input (int n) = Some (min n (length input), fst (snd (ReadFull input n)), b', drop n input)"
    "buf_inv b'" "content b' = content b @ take n input" "sl_len (buf_v b') = sl_len (buf_v b)"
    "buf_start b' = buf_start b"
    by auto
  from b'(3-5) have "Buffer_Available b' = Buffer_Available b - int (min n (length input))"
    using Buffer_Available_end [OF assms(1)] Buffer_Available_end [OF b'(2)] by (simp add: min.commute)
  with b' show ?thesis
    by (intro exI [of _ b'] exI [of _ "min n (length input)"]) (simp_all add: ReadFull_def)
qed

lemma content_bound: "buf_inv b \<Longrightarrow> int (length (content b)) < 2147483648"
  by (simp add: length_content) (auto simp: buf_inv_defs)

lemma Buffer_Byte_last:
  assumes "buf_inv b" and "content b = xs @ [x]"
  shows "Buffer_Byte b (int32 (Buffer_Len b - 1)) = Some x"
proof -
  have len: "nat (buf_end b - buf_start b) = Suc (length xs)"
    using length_content [OF assms(1)] assms(2) by simp
  have bnd: "0 \<le> buf_start b" "buf_end b \<le> int (sl_len (buf_v b))" "sl_len (buf_v b) \<le> length (sl_arr (buf_v b))"
    "int (sl_len (buf_v b)) < 2147483648"
    using assms(1) by (auto simp: buf_inv_defs)
  from len have e: "buf_end b = buf_start b + int (length xs) + 1" by linarith
  have "Buffer_Len b = int (length xs) + 1"
    using assms by (simp add: Buffer_Len_content)
  with e bnd have i: "int32 (buf_start b + int32 (Buffer_Len b - 1)) = buf_start b + int (length xs)"
    by simp
  have "x = content b ! length xs" by (simp add: assms(2))
  also have "\<dots> = sl_arr (buf_v b) ! (nat (buf_start b) + length xs)"
    using e bnd unfolding content_def by (subst nth_take) (auto simp: nat_add_distrib)
  finally show ?thesis
    using i e bnd by (simp add: Buffer_Byte_def sl_get_def nat_add_distrib)
qed

lemma BytesFrom_suffix:
  assumes "buf_inv b" and "content b = xs @ ys" and "ys \<noteq> []"
  shows "Buffer_BytesFrom b (int32 (- int (length ys))) = Some ys"
proof -
  have "int (length ys) < 2147483648" using content_bound [OF assms(1)] assms(2) by simp
  then have "int32 (- int (length ys)) = - int (length ys)" by (intro int32_id) simp_all
  moreover have "int (length ys) \<le> Buffer_Len b" by (simp add: Buffer_Len_content assms)
  ultimately show ?thesis
    using Buffer_BytesFrom_neg_spec [OF assms(1), of "int (length ys)"] assms(2,3) by simp
qed

lemma BytesFrom_all: "buf_inv b \<Longrightarrow> Buffer_BytesFrom b 0 = Some (content b)"
  by (auto simp: Buffer_BytesFrom_def sl_sub_def buf_inv_defs content_def)

text \<open>No textual IP address contains a zero byte.\<close>

lemma hex_val_0: "hex_val 0 = None"
  by (simp add: hex_val_def is_digit_def)

lemma parse_ipv4_fields_zero: "parse_ipv4_fields s acc val dl pd = Some ip \<Longrightarrow> 0 \<notin> set s"
proof (induction s acc val dl pd rule: parse_ipv4_fields.induct)
  case (2 c s acc val dl pd)
  then have "c \<noteq> 0" by (auto simp: is_digit_def split: if_splits)
  with 2 show ?case by (auto simp: Let_def split: if_splits)
qed simp

lemma parse_ipv4_zero: "parse_ipv4 s = Some ip \<Longrightarrow> 0 \<notin> set s"
  using parse_ipv4_fields_zero by (simp add: parse_ipv4_def)

lemma hex_group_zero: "hex_group s off acc = Some (off', acc', rest) \<Longrightarrow> 0 \<in> set s \<Longrightarrow> 0 \<in> set rest"
  by (induction s off acc rule: hex_group.induct) (auto simp: hex_val_0 split: option.splits if_splits)

lemma ipv6_groups_zero: "ipv6_groups n s ip ell = Some (r', ip', ell') \<Longrightarrow> 0 \<in> set s \<Longrightarrow> 0 \<in> set r'"
proof (induction n s ip ell rule: ipv6_groups.induct)
  case (1 s ip ell)
  then show ?case by simp
next
  case (2 n s ip ell)
  show ?case
  proof (cases "16 \<le> length ip")
    case True
    with "2.prems" show ?thesis by simp
  next
    case False
    obtain off acc rest where hg: "hex_group s 0 0 = Some (off, acc, rest)"
      using "2.prems"(1) False by (auto split: option.splits)
    have rest: "0 \<in> set rest" using hex_group_zero [OF hg "2.prems"(2)] .
    then obtain c r where cr: "rest = c # r" by (cases rest) auto
    have no_v4: "parse_ipv4 s = None" using "2.prems"(2) parse_ipv4_zero [of s] by (cases "parse_ipv4 s") auto
    let ?ip = "ip @ [of_nat (acc div 256), of_nat (acc mod 256)]"
    note unf = "2.prems"(1) False hg cr no_v4
    have c: "c = 58" "off \<noteq> 0" "r \<noteq> []" using unf by (auto simp: Let_def split: if_splits)
    with rest cr have r: "0 \<in> set r" by auto
    show ?thesis
    proof (cases "hd r = 58")
      case ell: True
      with c(3) r have tl: "0 \<in> set (tl r)" "tl r \<noteq> []" by (cases r; auto)+
      with unf ell c have "ipv6_groups n (tl r) ?ip (Some (length ?ip)) = Some (r', ip', ell')"
        by (simp add: Let_def split: if_splits)
      with "2.IH"(1) [OF False hg] unf ell c tl show ?thesis by (simp add: Let_def split: if_splits)
    next
      case plain: False
      with unf c have "ipv6_groups n r ?ip ell = Some (r', ip', ell')"
        by (simp add: Let_def split: if_splits)
      with "2.IH"(2) [OF False hg] unf plain c r show ?thesis by (simp add: Let_def split: if_splits)
    qed
  qed
qed

lemma parse_ipv6_zero: "parse_ipv6 s = Some ip \<Longrightarrow> 0 \<notin> set s"
proof
  assume p: "parse_ipv6 s = Some ip" and z: "0 \<in> set s"
  let ?lead = "take 2 s = [58, 58]"
  have "set s = set (take 2 s) \<union> set (drop 2 s)" by (metis append_take_drop_id set_append)
  with z have dz: "0 \<in> set (drop 2 s)" if ?lead using that by auto
  let ?s = "if ?lead then drop 2 s else s"
  have zs: "0 \<in> set ?s" using z dz by simp
  have "drop 2 s \<noteq> []" if ?lead using dz [OF that] by auto
  with p obtain rest ip' ell where "ipv6_groups 8 ?s [] (if ?lead then Some 0 else None) = Some (rest, ip', ell)" "rest = []"
    unfolding parse_ipv6_def Let_def by (auto split: if_splits option.splits)
  with ipv6_groups_zero zs show False by fastforce
qed

lemma ParseIP_zero: "ParseIP s = Some ip \<Longrightarrow> 0 \<notin> set s"
  using parse_ipv4_zero parse_ipv6_zero by (auto simp: ParseIP_def split: option.splits if_splits)

lemma strip_seqs_zero: "\<forall>q \<in> set seqs. 0 \<notin> set q \<Longrightarrow> 0 \<in> set s \<Longrightarrow> 0 \<in> set (strip_seqs seqs n s)"
proof (induction seqs n s rule: strip_seqs.induct)
  case (2 seqs n s)
  show ?case
  proof (cases "find (\<lambda>q. take (length q) s = q) seqs")
    case (Some q)
    then have q: "q \<in> set seqs" "take (length q) s = q" by (auto simp: find_Some_iff)
    with "2.prems" append_take_drop_id [of "length q" s] have "0 \<in> set (drop (length q) s)"
      by (metis Un_iff set_append)
    with "2.IH" "2.prems"(1) Some show ?thesis by simp
  qed (use "2.prems" in simp)
qed simp

lemma TrimSpace_zero: "0 \<in> set s \<Longrightarrow> 0 \<in> set (TrimSpace s)"
proof -
  have "\<forall>q \<in> set space_seqs. 0 \<notin> set q" by (simp add: space_seqs_def)
  moreover from this have "\<forall>q \<in> set (map rev space_seqs). 0 \<notin> set q" by simp
  ultimately show "0 \<in> set s \<Longrightarrow> 0 \<in> set (TrimSpace s)"
    by (simp add: TrimSpace_def Let_def strip_seqs_zero)
qed

lemma ip_text_zero: "0 \<in> set d \<Longrightarrow> \<not> ip_text d"
proof
  assume z: "0 \<in> set d" and t: "ip_text d"
  define d1 where "d1 = (if d \<noteq> [] \<and> hd d = 91 \<and> last d = 93 then butlast (tl d) else d)"
  define d2 where "d2 = (if d1 \<noteq> [] \<and> (\<not> isAlphaNum (hd d1) \<or> \<not> isAlphaNum (last d1)) then TrimSpace d1 else d1)"
  have "0 \<in> set (butlast (tl d))" if "d \<noteq> []" "hd d = 91" "last d = 93"
  proof -
    from that z have "0 \<in> set (tl d)" by (cases d) auto
    moreover have "last (tl d) = 93" if "tl d \<noteq> []" using \<open>last d = 93\<close> that by (cases d) auto
    ultimately show ?thesis by (cases "tl d" rule: rev_cases) auto
  qed
  with z have "0 \<in> set d1" by (simp add: d1_def)
  then have "0 \<in> set d2" using TrimSpace_zero by (simp add: d2_def)
  then have "ParseIP d2 = None" using ParseIP_zero by (cases "ParseIP d2") auto
  then have "ParseAddress d = Some (DomainAddress d2)"
    unfolding ParseAddress_def Let_def d1_def [symmetric] d2_def [symmetric] by simp
  with t show False by (simp add: ip_text_def DomainAddress_def IsIP_def)
qed

lemma Buffer_New_room [simp]: "Buffer_Available (Buffer_New got) = 8192"
  using Buffer_New_inv [of got] by (simp add: Buffer_Available_inv) (simp add: Buffer_New_def)

section \<open>The parser implements the grammar\<close>

text \<open>
  A parser run on a good buffer: no panic, the result and the unread bytes given, a good buffer
  afterwards, and at most \<open>k\<close> bytes of the buffer used.
\<close>

definition reads :: "Buffer \<Rightarrow> int \<Rightarrow> 'r \<times> byte list \<Rightarrow> ('r \<times> Buffer \<times> byte list) go \<Rightarrow> bool" where
  "reads b k x res \<longleftrightarrow> (\<exists>b'. res = Some (fst x, b', snd x) \<and> buf_inv b'
     \<and> Buffer_Available b - k \<le> Buffer_Available b')"

lemma readsI: "res = Some (r, b', rest) \<Longrightarrow> x = (r, rest) \<Longrightarrow> buf_inv b' \<Longrightarrow>
    Buffer_Available b - k \<le> Buffer_Available b' \<Longrightarrow> reads b k x res"
  by (simp add: reads_def)

lemma reads_after: "reads b' k' x res \<Longrightarrow> Buffer_Available b - j \<le> Buffer_Available b' \<Longrightarrow> j + k' \<le> k \<Longrightarrow> reads b k x res"
  by (force simp: reads_def)

lemma readPort_reads:
  assumes "buf_inv b" and "2 \<le> Buffer_Available b"
  shows "reads b 2 (spec_port input) (readPort b input)"
proof -
  from read_step [of b 2 input] assms obtain b' m where
    rd: "Buffer_ReadFullFrom b input 2 = Some (m,
       (if 2 \<le> length input then None else if input = [] then Some EOF else Some ErrUnexpectedEOF), b', drop 2 input)"
    and b': "buf_inv b'" "content b' = content b @ take 2 input"
      "Buffer_Available b' = Buffer_Available b - int (min 2 (length input))"
    by auto
  show ?thesis
  proof (cases input rule: spec_port.cases)
    case (1 x y bs)
    with b'(2) have c: "content b' = content b @ [x, y]" by (simp add: numeral_2_eq_2)
    with BytesFrom_suffix [OF b'(1), of "content b" "[x, y]"]
    have "Buffer_BytesFrom b' (-2) = Some [x, y]" by simp
    with rd b' 1 show ?thesis
      by (intro readsI [of _ "Inr (ucast y OR push_bit 8 (ucast x))" b' bs])
        (simp_all add: readPort_def PortFromBytes_def numeral_2_eq_2)
  qed (use rd b' in \<open>auto intro!: readsI [of _ _ b' "[]"] simp: readPort_def\<close>)
qed

lemma IPAddress_total: "length ip = 4 \<or> length ip = 16 \<Longrightarrow> \<exists>a. IPAddress ip = Some a \<and> addr_wf a"
  using IPAddress_Some_iff IPAddress_wf by blast

lemma read_ip_reads:
  assumes "buf_inv b" and "int n \<le> Buffer_Available b" and "0 < n"
  shows "reads b (int n) (spec_ip n input) (read_ip (int n) b input)"
proof -
  from read_step [OF assms(1,2), of input] obtain b' m where
    rd: "Buffer_ReadFullFrom b input (int n) = Some (m,
       (if n \<le> length input then None else if input = [] then Some EOF else Some ErrUnexpectedEOF), b', drop n input)"
    and b': "buf_inv b'" "content b' = content b @ take n input"
      "Buffer_Available b' = Buffer_Available b - int (min n (length input))"
    by auto
  show ?thesis
  proof (cases "n \<le> length input")
    case True
    then have "int32 (- int n) = int32 (- int (length (take n input)))" "take n input \<noteq> []"
      using assms(3) by (auto simp: min_def)
    with BytesFrom_suffix [OF b'(1,2)] have "Buffer_BytesFrom b' (int32 (- int n)) = Some (take n input)"
      by simp
    with True rd b' show ?thesis
      by (intro readsI [of _ "Inr (IPAddress (take n input))" b' "drop n input"])
        (simp_all add: read_ip_def spec_ip_def)
  next
    case False
    with rd b' show ?thesis
      by (intro readsI [of _ "Inl (if input = [] then EOF else ErrUnexpectedEOF)" b' "[]"])
        (auto simp: read_ip_def spec_ip_def)
  qed
qed

text \<open>
  The last steps of the domain case, on the string the code takes out of the buffer. With an empty
  domain that string is the whole buffer (\<open>-0 = 0\<close>), which ends in the zero length byte, so it is
  neither an IP address nor a valid domain.
\<close>

definition domain_result :: "gostring \<Rightarrow> go_error + Address option" where
  "domain_result d = (if ip_text d then Inr (ParseAddress d)
     else if d = [] \<or> \<not> isValidDomain d then Inl (ErrNew ''invalid domain name: '')
     else Inr (Some (DomainAddress d)))"

lemma domain_result_code:
  assumes "domain \<noteq> []"
  shows "do {
      c \<leftarrow> (case domain of [] \<Rightarrow> None | c # _ \<Rightarrow> Some c);
      addr \<leftarrow> (if maybeIPPrefix c then do {
          a \<leftarrow> ParseAddress domain;
          Some (if IsIP (Family a) then Some a else None)
        } else Some None);
      case addr of
        Some a \<Rightarrow> Some (Inr (Some a), b, reader)
      | None \<Rightarrow>
          if \<not> isValidDomain domain then Some (Inl (ErrNew ''invalid domain name: ''), b, reader)
          else Some (Inr (Some (DomainAddress domain)), b, reader)
    } = Some (domain_result domain, b, reader)"
proof -
  from assms obtain c cs where [simp]: "domain = c # cs" by (cases domain) auto
  from ParseAddress_total [of domain] obtain a where [simp]: "ParseAddress (c # cs) = Some a" by auto
  show ?thesis by (auto simp: domain_result_def ip_text_def)
qed

lemma domain_result_zero: "0 \<in> set d \<Longrightarrow> domain_result d = Inl (ErrNew ''invalid domain name: '')"
proof -
  assume z: "0 \<in> set d"
  moreover have "\<not> domain_char 0" by (simp add: domain_char_def)
  ultimately have "\<not> isValidDomain d" by (auto simp: isValidDomain_def list_all_iff)
  with ip_text_zero [OF z] show ?thesis by (simp add: domain_result_def)
qed

lemma read_domain_reads:
  assumes "buf_inv b" and "256 \<le> Buffer_Available b"
  shows "reads b 256 (spec_domain input) (read_domain b input)"
proof (cases input)
  case Nil
  from read_step [OF assms(1), of 1 input] assms(2) obtain b' m where
    "Buffer_ReadFullFrom b input 1 = Some (m, Some EOF, b', [])" "buf_inv b'"
    "Buffer_Available b' = Buffer_Available b"
    using Nil by auto
  then show ?thesis
    using Nil by (intro readsI [of _ "Inl EOF" b' "[]"]) (simp_all add: read_domain_def)
next
  case (Cons l bs)
  from read_step [OF assms(1), of 1 input] assms(2) obtain b1 m where
    1: "Buffer_ReadFullFrom b input 1 = Some (m, None, b1, bs)" "buf_inv b1" "content b1 = content b @ [l]"
    "Buffer_Available b1 = Buffer_Available b - 1"
    using Cons by auto
  have l: "Buffer_Byte b1 (int32 (Buffer_Len b1 - 1)) = Some l" using Buffer_Byte_last [OF 1(2,3)] .
  let ?n = "unat l"
  have n: "?n < 256" by (rule unat_byte_less)
  with 1(4) assms(2) have "int ?n \<le> Buffer_Available b1" by linarith
  from read_step [OF 1(2) this, of bs] obtain b2 m2 where
    2: "Buffer_ReadFullFrom b1 bs (int ?n) = Some (m2,
       (if ?n \<le> length bs then None else if bs = [] then Some EOF else Some ErrUnexpectedEOF), b2, drop ?n bs)"
    and b2: "buf_inv b2" "content b2 = (content b @ [l]) @ take ?n bs"
      "Buffer_Available b2 = Buffer_Available b1 - int (min ?n (length bs))"
    using 1(3) by auto
  have av: "Buffer_Available b - 256 \<le> Buffer_Available b2" using b2(3) 1(4) n by (auto simp: min_def)
  show ?thesis
  proof (cases "?n \<le> length bs")
    case False
    with 1 2 b2 l av Cons show ?thesis
      by (intro readsI [of _ "Inl (if bs = [] then EOF else ErrUnexpectedEOF)" b2 "[]"])
        (auto simp: read_domain_def Let_def)
  next
    case True
    define d where "d = (if ?n = 0 then content b2 else take ?n bs)"
    have d: "d \<noteq> []" using True b2(2) by (auto simp: d_def)
    have from_end: "Buffer_BytesFrom b2 (int32 (- int ?n)) = Some d"
    proof (cases "?n = 0")
      case True
      then show ?thesis using BytesFrom_all [OF b2(1)] by (simp add: d_def)
    next
      case nz: False
      then have "take ?n bs \<noteq> []" "length (take ?n bs) = ?n" using True by auto
      with BytesFrom_suffix [OF b2(1,2)] nz show ?thesis by (simp add: d_def)
    qed
    have "domain_result d = domain_result (take ?n bs)"
    proof (cases "?n = 0")
      case True
      then have "l = 0" by (simp add: unat_eq_zero)
      with b2(2) have "0 \<in> set (content b2)" by simp
      from domain_result_zero [OF this] True show ?thesis
        by (simp add: d_def domain_result_def [of "[]"] ip_text_def)
    qed (simp add: d_def)
    with 1 2 l from_end True domain_result_code [OF d, of b2 "drop ?n bs"]
    have "read_domain b input = Some (domain_result (take ?n bs), b2, drop ?n bs)"
      by (simp add: read_domain_def Let_def)
    with True Cons b2(1) av show ?thesis
      by (intro readsI) (auto simp: domain_result_def Let_def)
  qed
qed

lemma readAddress_reads:
  assumes "buf_inv b" and "257 \<le> Buffer_Available b" and "length (addrTypeMap p) = 16"
  shows "reads b 257 (spec_address p input) (readAddress p b input)"
proof (cases input)
  case Nil
  from read_step [OF assms(1), of 1 input] assms(2) obtain b' m where
    "Buffer_ReadFullFrom b input 1 = Some (m, Some EOF, b', [])" "buf_inv b'"
    "Buffer_Available b' = Buffer_Available b"
    using Nil by auto
  then show ?thesis
    using Nil by (intro readsI [of _ "Inl EOF" b' "[]"]) (simp_all add: readAddress_def)
next
  case (Cons t bs)
  from read_step [OF assms(1), of 1 input] assms(2) obtain b1 m where
    1: "Buffer_ReadFullFrom b input 1 = Some (m, None, b1, bs)" "buf_inv b1" "content b1 = content b @ [t]"
    "Buffer_Available b1 = Buffer_Available b - 1"
    using Cons by auto
  have t: "Buffer_Byte b1 (int32 (Buffer_Len b1 - 1)) = Some t" using Buffer_Byte_last [OF 1(2,3)] .
  have small: "\<not> length (addrTypeMap p) \<le> unat ty" if "\<not> ty \<ge> 16" for ty :: byte
    using that assms(3) by (simp add: word_le_nat_alt)
  have code: "readAddress p b input =
      (case family_of p t of
         None \<Rightarrow> Some (Inl (ErrNew ''unknown address type: ''), b1, bs)
       | Some AddressFamilyIPv4 \<Rightarrow> read_ip 4 b1 bs
       | Some AddressFamilyIPv6 \<Rightarrow> read_ip 16 b1 bs
       | Some AddressFamilyDomain \<Rightarrow> read_domain b1 bs)"
    using 1(1) t small by (auto simp: readAddress_def family_of_def Let_def)
  have av: "256 \<le> Buffer_Available b1" using assms(2) 1(4) by simp
  show ?thesis
  proof (cases "family_of p t")
    case None
    with code 1 Cons show ?thesis
      by (intro readsI [of _ "Inl (ErrNew ''unknown address type: '')" b1 bs]) simp_all
  next
    case (Some f)
    have "reads b1 256 (spec_address p input) (readAddress p b input)"
      using read_ip_reads [OF 1(2), of 4 bs] read_ip_reads [OF 1(2), of 16 bs] read_domain_reads [OF 1(2) av, of bs] av
        code Some Cons by (cases f) (auto elim: reads_after)
    then show ?thesis by (rule reads_after [where j = 1]) (use 1(4) in simp_all)
  qed
qed

fun ser_parser :: "AddressSerializer \<Rightarrow> addressParser" where
  "ser_parser (portFirstAddressParser p) = p"
| "ser_parser (portLastAddressParser p) = p"

definition ser_wf :: "AddressSerializer \<Rightarrow> bool" where
  "ser_wf s \<longleftrightarrow> length (addrTypeMap (ser_parser s)) = 16 \<and> length (addrByteMap (ser_parser s)) = 16"

lemma ReadAddressPort_reads:
  fixes s :: AddressSerializer and got :: slice and buffer :: "Buffer option"
  assumes "ser_wf s"
  defines "b \<equiv> case buffer of None \<Rightarrow> Buffer_New got | Some b \<Rightarrow> b"
  assumes "buf_inv b" and "259 \<le> Buffer_Available b"
  shows "reads b 259 (spec_address_port s input) (ReadAddressPort s got buffer input)"
proof (cases s)
  case (portFirstAddressParser p)
  from readPort_reads [OF assms(3), of input] assms(4) obtain b1 where
    1: "readPort b input = Some (fst (spec_port input), b1, snd (spec_port input))" "buf_inv b1"
    "Buffer_Available b - 2 \<le> Buffer_Available b1"
    by (auto simp: reads_def)
  have "257 \<le> Buffer_Available b1" "length (addrTypeMap p) = 16"
    using 1(3) assms(1,4) portFirstAddressParser by (simp_all add: ser_wf_def)
  from readAddress_reads [OF 1(2) this, of "snd (spec_port input)"] 1 portFirstAddressParser show ?thesis
    unfolding b_def by (auto simp: reads_def Let_def split: sum.splits prod.splits)
next
  case (portLastAddressParser p)
  have "257 \<le> Buffer_Available b" "length (addrTypeMap p) = 16"
    using assms(1,4) portLastAddressParser by (simp_all add: ser_wf_def)
  from readAddress_reads [OF assms(3) this, of input] obtain b1 where
    1: "readAddress p b input = Some (fst (spec_address p input), b1, snd (spec_address p input))" "buf_inv b1"
    "Buffer_Available b - 257 \<le> Buffer_Available b1"
    by (auto simp: reads_def)
  have "2 \<le> Buffer_Available b1" using 1(3) assms(4) by simp
  from readPort_reads [OF 1(2) this, of "snd (spec_address p input)"] 1 portLastAddressParser show ?thesis
    unfolding b_def by (auto simp: reads_def Let_def split: sum.splits prod.splits)
qed

section \<open>Encoding\<close>

fun addr_payload :: "Address \<Rightarrow> byte list" where
  "addr_payload (ipv4Address ip) = ip"
| "addr_payload (ipv6Address ip) = ip"
| "addr_payload (domainAddress d) = of_nat (length d) # d"

definition enc_address :: "addressParser \<Rightarrow> Address \<Rightarrow> byte list" where
  "enc_address p a = (addrByteMap p ! af_index (Family a)) # addr_payload a"

fun enc_address_port :: "AddressSerializer \<Rightarrow> Address \<times> Port \<Rightarrow> byte list" where
  "enc_address_port (portFirstAddressParser p) (a, port) = be_put16 port @ enc_address p a"
| "enc_address_port (portLastAddressParser p) (a, port) = enc_address p a @ be_put16 port"

text \<open>What the encoder accepts.\<close>

definition writable :: "AddressSerializer \<Rightarrow> Address \<Rightarrow> bool" where
  "writable s a \<longleftrightarrow> addrByteMap (ser_parser s) ! af_index (Family a) \<noteq> afInvalid
     \<and> (\<forall>d. a = domainAddress d \<longrightarrow> \<not> isDomainTooLong d)"

lemma af_index_less: "af_index f < 3"
  by (cases f) (simp_all add: af_index_def)

context append_writer
begin

lemma wr_two:
  assumes "wok w" and "length xs + length ys \<le> room w"
  shows "\<exists>w1 w'. wr w xs = Some (None, w1) \<and> wr w1 ys = Some (None, w') \<and> wok w'
    \<and> out w' = out w @ xs @ ys \<and> room w' = room w - length (xs @ ys)"
proof -
  from assms have "length xs \<le> room w" by simp
  from wr_fits [OF assms(1) this] obtain w1 where
    1: "wr w xs = Some (None, w1)" "wok w1" "out w1 = out w @ xs" "room w1 = room w - length xs"
    by blast
  with assms(2) have "length ys \<le> room w1" by simp
  from wr_fits [OF 1(2) this] 1 show ?thesis by auto
qed

lemma writeAddress_out:
  assumes "wok w" and "length (addrByteMap p) = 16" and "writable (portLastAddressParser p) a"
    and "length (enc_address p a) \<le> room w"
  shows "\<exists>w'. writeAddress p wr w (Some a) = Some (None, w') \<and> wok w' \<and> out w' = out w @ enc_address p a
    \<and> room w' = room w - length (enc_address p a)"
proof -
  let ?tb = "addrByteMap p ! af_index (Family a)"
  have tb: "af_index (Family a) < length (addrByteMap p)" "?tb \<noteq> afInvalid"
    using assms(2,3) af_index_less [of "Family a"] by (simp_all add: writable_def)
  show ?thesis
  proof (cases a)
    case (domainAddress d)
    with assms(3) have "\<not> isDomainTooLong d" by (simp add: writable_def)
    with wr_two [OF assms(1), of "[?tb, of_nat (length d)]" d] domainAddress tb assms(4) show ?thesis
      by (auto simp: writeAddress_def enc_address_def)
  qed (use wr_two [OF assms(1), of "[?tb]" "addr_payload a"] tb assms(4) in
      \<open>auto simp: writeAddress_def enc_address_def\<close>)
qed

lemma WriteAddressPort_out:
  assumes "wok w" and "ser_wf s" and "writable s a" and "length (enc_address_port s (a, port)) \<le> room w"
  shows "\<exists>w'. WriteAddressPort s wr w (Some a) port = Some (None, w') \<and> wok w'
    \<and> out w' = out w @ enc_address_port s (a, port)
    \<and> room w' = room w - length (enc_address_port s (a, port))"
proof (cases s)
  case (portFirstAddressParser p)
  with assms(4) have len: "length (be_put16 port) \<le> room w" by simp
  from wr_fits [OF assms(1) len] obtain w1 where
    1: "wr w (be_put16 port) = Some (None, w1)" "wok w1" "out w1 = out w @ be_put16 port" "room w1 = room w - 2"
    by auto
  have "length (addrByteMap p) = 16" "writable (portLastAddressParser p) a" "length (enc_address p a) \<le> room w1"
    using assms portFirstAddressParser 1(4) by (simp_all add: ser_wf_def writable_def)
  from writeAddress_out [OF 1(2) this] 1 portFirstAddressParser show ?thesis
    by (auto simp: writePort_def WriteUint16_def)
next
  case (portLastAddressParser p)
  have "length (addrByteMap p) = 16" "writable (portLastAddressParser p) a" "length (enc_address p a) \<le> room w"
    using assms portLastAddressParser by (simp_all add: ser_wf_def writable_def)
  from writeAddress_out [OF assms(1) this] obtain w1 where
    1: "writeAddress p wr w (Some a) = Some (None, w1)" "wok w1" "out w1 = out w @ enc_address p a"
    "room w1 = room w - length (enc_address p a)"
    by auto
  have "length (be_put16 port) \<le> room w1" using assms(4) 1(4) portLastAddressParser by simp
  from wr_fits [OF 1(2) this] 1 portLastAddressParser show ?thesis
    by (auto simp: writePort_def WriteUint16_def)
qed

end

text \<open>A buffer is such a writer.\<close>

definition buffer_writer :: "Buffer writer" where
  "buffer_writer b bs = do { (n, err, b') \<leftarrow> Buffer_Write b bs; Some (err, b') }"

lemma Buffer_Write_room:
  assumes "buf_inv b" and "int (length bs) \<le> Buffer_Available b"
  shows "\<exists>b'. Buffer_Write b bs = Some (length bs, None, b') \<and> buf_inv b' \<and> content b' = content b @ bs
    \<and> Buffer_Available b' = Buffer_Available b - int (length bs) \<and> buf_start b' = buf_start b
    \<and> buf_UDP b' = buf_UDP b"
proof -
  from Buffer_Write_spec [OF assms(1), of bs] assms(2) obtain b' where
    b': "Buffer_Write b bs = Some (length bs, None, b')" "buf_inv b'" "content b' = content b @ bs"
    "sl_len (buf_v b') = sl_len (buf_v b)"
    by auto
  from b'(1) have st: "buf_start b' = buf_start b" "buf_UDP b' = buf_UDP b"
    by (auto simp: Buffer_Write_def Buffer_fill_def Let_def split: if_splits)
  have "Buffer_Available b' = Buffer_Available b - int (length bs)"
    using b'(3,4) st Buffer_Available_end [OF assms(1)] Buffer_Available_end [OF b'(2)] by simp
  with b' st show ?thesis by blast
qed

definition buf_at :: "int \<Rightarrow> Destination option \<Rightarrow> Buffer \<Rightarrow> bool" where
  "buf_at s u b \<longleftrightarrow> buf_inv b \<and> buf_start b = s \<and> buf_UDP b = u"

interpretation buffer_app: append_writer buffer_writer "buf_at s u" content "\<lambda>b. nat (Buffer_Available b)" for s u
proof
  fix b and bs :: "byte list"
  assume b: "buf_at s u b" and len: "length bs \<le> nat (Buffer_Available b)"
  then have inv: "buf_inv b" by (simp add: buf_at_def)
  then have "0 \<le> Buffer_Available b" by (simp add: Buffer_Available_inv) (simp add: buf_inv_defs)
  with len have "int (length bs) \<le> Buffer_Available b" by simp
  from Buffer_Write_room [OF inv this] b show "\<exists>b'. buffer_writer b bs = Some (None, b') \<and> buf_at s u b'
    \<and> content b' = content b @ bs \<and> nat (Buffer_Available b') = nat (Buffer_Available b) - length bs"
    by (auto simp: buffer_writer_def nat_diff_distrib buf_at_def)
qed

text \<open>A buffer that has grown at its end.\<close>

definition grows :: "Buffer \<Rightarrow> byte list \<Rightarrow> Buffer \<Rightarrow> bool" where
  "grows b bs b' \<longleftrightarrow> buf_inv b' \<and> content b' = content b @ bs
     \<and> Buffer_Available b' = Buffer_Available b - int (length bs)
     \<and> buf_start b' = buf_start b \<and> buf_UDP b' = buf_UDP b"

lemma grows_trans: "grows b xs b1 \<Longrightarrow> grows b1 ys b2 \<Longrightarrow> grows b (xs @ ys) b2"
  by (simp add: grows_def)

lemma grows_inv: "grows b xs b' \<Longrightarrow> buf_inv b'"
  by (simp add: grows_def)

lemma grows_Available: "grows b xs b' \<Longrightarrow> Buffer_Available b' = Buffer_Available b - int (length xs)"
  by (simp add: grows_def)

lemma Available_nonneg: "buf_inv b \<Longrightarrow> 0 \<le> Buffer_Available b"
  by (simp add: Buffer_Available_inv) (simp add: buf_inv_defs)

lemma WriteAddressPort_grows:
  assumes "buf_inv b" and "ser_wf s" and "writable s a"
    and "int (length (enc_address_port s (a, port))) \<le> Buffer_Available b"
  shows "\<exists>b'. WriteAddressPort s buffer_writer b (Some a) port = Some (None, b')
    \<and> grows b (enc_address_port s (a, port)) b'"
proof -
  have b: "buf_at (buf_start b) (buf_UDP b) b" using assms(1) by (simp add: buf_at_def)
  have "length (enc_address_port s (a, port)) \<le> nat (Buffer_Available b)" using assms(4) by simp
  from buffer_app.WriteAddressPort_out [OF b assms(2,3) this] obtain b' where
    b': "WriteAddressPort s buffer_writer b (Some a) port = Some (None, b')" "buf_at (buf_start b) (buf_UDP b) b'"
    "content b' = content b @ enc_address_port s (a, port)"
    "nat (Buffer_Available b') = nat (Buffer_Available b) - length (enc_address_port s (a, port))"
    by blast
  then have inv: "buf_inv b'" by (simp add: buf_at_def)
  from b'(4) assms(4) Available_nonneg [OF inv] Available_nonneg [OF assms(1)]
  have "Buffer_Available b' = Buffer_Available b - int (length (enc_address_port s (a, port)))" by linarith
  with b' show ?thesis by (auto simp: grows_def buf_at_def)
qed

lemma Buffer_Extend_grows:
  assumes "buf_inv b" and "int n \<le> Buffer_Available b"
  shows "\<exists>b'. Buffer_Extend b (int n) = Some b' \<and> grows b (replicate n 0) b'"
proof -
  from Buffer_Extend_spec [OF assms(1) _ assms(2)] obtain b' where
    b': "Buffer_Extend b (int n) = Some b'" "buf_inv b'" "content b' = content b @ replicate n 0"
    by auto
  from b'(1) have st: "buf_start b' = buf_start b" "buf_UDP b' = buf_UDP b" "sl_len (buf_v b') = sl_len (buf_v b)"
    by (auto simp: Buffer_Extend_def Buffer_fill_def Let_def split: if_splits bind_splits)
  have "Buffer_Available b' = Buffer_Available b - int n"
    using b'(3) st Buffer_Available_end [OF assms(1)] Buffer_Available_end [OF b'(2)] by simp
  with b' st show ?thesis by (auto simp: grows_def)
qed

lemma Buffer_Write_grows:
  "buf_inv b \<Longrightarrow> int (length bs) \<le> Buffer_Available b \<Longrightarrow>
     \<exists>b'. Buffer_Write b bs = Some (length bs, None, b') \<and> grows b bs b'"
  using Buffer_Write_room [of b bs] by (auto simp: grows_def)

text \<open>Overwriting bytes inside the window.\<close>

lemma fill_inside:
  assumes "buf_inv b" and "content b = xs @ ys @ zs" and "length ys' = length ys"
    and "pos = buf_start b + int (length xs)"
  shows "buf_inv (Buffer_fill b pos ys')" and "content (Buffer_fill b pos ys') = xs @ ys' @ zs"
    and "Buffer_Available (Buffer_fill b pos ys') = Buffer_Available b"
    and "buf_start (Buffer_fill b pos ys') = buf_start b" and "buf_UDP (Buffer_fill b pos ys') = buf_UDP b"
proof -
  let ?v = "sl_arr (buf_v b)" and ?s = "nat (buf_start b)" and ?e = "nat (buf_end b)"
  have bnd: "0 \<le> buf_start b" "buf_start b \<le> buf_end b" "buf_end b \<le> int (sl_len (buf_v b))"
    "sl_len (buf_v b) \<le> length ?v"
    using assms(1) by (auto simp: buf_inv_defs)
  have len: "?e - ?s = length xs + length ys + length zs"
    using length_content [OF assms(1)] assms(2) bnd by (simp add: nat_diff_distrib)
  with bnd have le: "nat pos = ?s + length xs" "?s + length xs + length ys + length zs = ?e" "?e \<le> length ?v"
    using assms(4) by auto
  show inv: "buf_inv (Buffer_fill b pos ys')"
    using le bnd by (intro buf_inv_fill [OF assms(1)]) linarith
  define pre where "pre = take ?s ?v"
  define post where "post = drop ?e ?v"
  have "take (?e - ?s) (drop ?s ?v) = xs @ ys @ zs" using assms(2) by (simp add: content_def)
  then have "drop ?s ?v = (xs @ ys @ zs) @ post"
    using append_take_drop_id [of "?e - ?s" "drop ?s ?v"] bnd by (simp add: post_def)
  then have v: "?v = pre @ xs @ ys @ zs @ post"
    using append_take_drop_id [of ?s ?v] by (simp add: pre_def)
  have pre: "length pre = ?s" using le bnd by (simp add: pre_def)
  have "list_blit ?v (nat pos) ys' = pre @ xs @ ys' @ zs @ post"
    unfolding v le(1) using assms(3) pre by (simp add: list_blit_def)
  moreover have "take (?e - ?s) (drop ?s (pre @ xs @ ys' @ zs @ post)) = xs @ ys' @ zs"
    using pre len assms(3) by simp
  ultimately show "content (Buffer_fill b pos ys') = xs @ ys' @ zs"
    by (simp add: content_def Buffer_fill_def sl_blit_def)
qed (simp_all add: Buffer_fill_def Buffer_Available_def)

lemma buf_end_content: "buf_inv b \<Longrightarrow> buf_end b = buf_start b + int (length (content b))"
  by (simp add: length_content) (simp add: buf_inv_defs)

lemma fill_grows:
  assumes "grows b (xs @ ys @ zs) b1" and "buf_inv b" and "length ys' = length ys"
    and "pos = buf_start b + int (length (content b @ xs))"
  shows "grows b (xs @ ys' @ zs) (Buffer_fill b1 pos ys')"
proof -
  from assms(1) have 1: "buf_inv b1" "content b1 = (content b @ xs) @ ys @ zs" "buf_start b1 = buf_start b"
    by (simp_all add: grows_def)
  with fill_inside [OF 1(1,2) assms(3)] assms show ?thesis by (auto simp: grows_def)
qed

section \<open>Round trips\<close>

text \<open>
  The addresses that survive: the family has a byte and the byte is read back as that family, an IPv6
  address is not an IPv4 address in disguise, and a domain is a valid one of at most 255 bytes that
  does not read as an IP address.
\<close>

fun readable :: "Address \<Rightarrow> bool" where
  "readable (ipv4Address ip) \<longleftrightarrow> length ip = 4"
| "readable (ipv6Address ip) \<longleftrightarrow> length ip = 16 \<and> \<not> v4_in_v6 ip"
| "readable (domainAddress d) \<longleftrightarrow> d \<noteq> [] \<and> length d \<le> 255 \<and> isValidDomain d \<and> \<not> ip_text d"

definition addr_ok :: "AddressSerializer \<Rightarrow> Address \<Rightarrow> bool" where
  "addr_ok s a \<longleftrightarrow> readable a \<and> addrByteMap (ser_parser s) ! af_index (Family a) \<noteq> afInvalid
     \<and> family_of (ser_parser s) (addrByteMap (ser_parser s) ! af_index (Family a)) = Some (Family a)"

lemma addr_ok_writable: "addr_ok s a \<Longrightarrow> writable s a"
  by (cases a) (auto simp: addr_ok_def writable_def isDomainTooLong_def)

lemma spec_address_enc:
  assumes "addr_ok s a"
  shows "spec_address (ser_parser s) (enc_address (ser_parser s) a @ rest) = (Inr (Some a), rest)"
proof (cases a)
  case (domainAddress d)
  with assms have d: "d \<noteq> []" "length d \<le> 255" "isValidDomain d" "\<not> ip_text d" by (simp_all add: addr_ok_def)
  have n: "unat (of_nat (length d) :: byte) = length d" using d(2) by (intro unat_of_nat_byte) simp
  from domainAddress assms d n show ?thesis
    by (simp add: addr_ok_def enc_address_def Let_def DomainAddress_def)
qed (use assms in \<open>auto simp: addr_ok_def enc_address_def spec_ip_def IPAddress_def\<close>)

lemma spec_port_put: "spec_port (be_put16 port @ rest) = (Inr port, rest)"
  using be_get_put16 [of port rest] by (simp add: be_put16_def)

lemma spec_address_port_enc:
  "addr_ok s a \<Longrightarrow> spec_address_port s (enc_address_port s (a, port) @ rest) = (Inr (Some a, port), rest)"
  using spec_address_enc [of s a] by (cases s) (simp_all add: spec_port_put)

lemma length_enc: "readable a \<Longrightarrow> length (enc_address_port s (a, port)) \<le> 259"
  by (cases s; cases a) (auto simp: enc_address_def)

section \<open>Properties\<close>

text \<open>
  C20. An address and port written by \<^verbatim>\<open>WriteAddressPort\<close> into a buffer with room for it, followed by
  anything, is read back by \<^verbatim>\<open>ReadAddressPort\<close> with the same serializer through a fresh buffer: same address, same port,
  and exactly the bytes that follow left unread, for both orders of port and address.
\<close>
theorem address_port_roundtrip:
  assumes "ser_wf s" and "addr_ok s a" and "buf_inv b" and "259 \<le> Buffer_Available b"
  shows "\<exists>b' enc bs. WriteAddressPort s buffer_writer b (Some a) port = Some (None, b') \<and> content b' = content b @ enc
    \<and> ReadAddressPort s got None (enc @ rest) = Some (Inr (Some a, port), bs, rest)"
proof -
  let ?enc = "enc_address_port s (a, port)"
  have "length ?enc \<le> 259" using assms(2) length_enc by (simp add: addr_ok_def)
  with assms(4) have "int (length ?enc) \<le> Buffer_Available b" by linarith
  from WriteAddressPort_grows [OF assms(3,1) addr_ok_writable [OF assms(2)] this] obtain b' where
    "WriteAddressPort s buffer_writer b (Some a) port = Some (None, b')" "content b' = content b @ ?enc"
    by (auto simp: grows_def)
  moreover have "buf_inv (Buffer_New got)" "259 \<le> Buffer_Available (Buffer_New got)"
    by (simp_all add: Buffer_New_inv)
  then have "reads (Buffer_New got) 259 (spec_address_port s (?enc @ rest)) (ReadAddressPort s got None (?enc @ rest))"
    using ReadAddressPort_reads [OF assms(1), of got None] by simp
  then obtain bs where "ReadAddressPort s got None (?enc @ rest) = Some (Inr (Some a, port), bs, rest)"
    by (auto simp: reads_def spec_address_port_enc [OF assms(2)])
  ultimately show ?thesis by blast
qed

text \<open>The serializer that SOCKS-like protocols use: types 1, 3 and 4, the port last.\<close>

definition sample_serializer :: AddressSerializer where
  "sample_serializer = NewAddressParser (map the [AddressFamilyByte 1 AddressFamilyIPv4,
     AddressFamilyByte 4 AddressFamilyIPv6, AddressFamilyByte 3 AddressFamilyDomain])"

lemma sample_serializer_eq:
  "sample_serializer = portLastAddressParser \<lparr>
     addrTypeMap = (replicate 16 None)[1 := Some AddressFamilyIPv4, 4 := Some AddressFamilyIPv6, 3 := Some AddressFamilyDomain],
     addrByteMap = (replicate 16 255)[0 := 1, 1 := 4, 2 := 3], typeParser = None\<rparr>"
  by (simp add: sample_serializer_def NewAddressParser_def AddressFamilyByte_def af_index_def afInvalid_def
      word_le_nat_alt)

lemma sample_serializer_wf: "ser_wf sample_serializer"
  by (simp add: sample_serializer_eq ser_wf_def)

lemma sample_addr_ok: "addr_ok sample_serializer (domainAddress [97, 46, 98])"
  by (simp add: sample_serializer_eq addr_ok_def ip_text_def maybeIPPrefix_def isValidDomain_def domain_char_def
      af_index_def afInvalid_def family_of_def)

theorem address_port_roundtrip_witness:
  "\<exists>b' enc bs. WriteAddressPort sample_serializer buffer_writer (Buffer_New nil_slice) (Some (domainAddress [97, 46, 98])) 443
       = Some (None, b') \<and> content b' = content (Buffer_New nil_slice) @ enc
     \<and> ReadAddressPort sample_serializer nil_slice None (enc @ [7]) = Some (Inr (Some (domainAddress [97, 46, 98]), 443), bs, [7])"
  by (rule address_port_roundtrip [OF sample_serializer_wf sample_addr_ok Buffer_New_inv(1)]) simp

text \<open>
  C21. \<^verbatim>\<open>ReadAddressPort\<close> never panics and implements the address grammar on every byte string, malformed
  and truncated ones included: the result and the bytes left unread are those of the grammar, which does
  not depend on what the buffer held before, although the code takes the fields out of that buffer.
\<close>
theorem address_parser_refines:
  assumes "ser_wf s" and "buf_inv b" and "259 \<le> Buffer_Available b"
  shows "\<exists>b'. ReadAddressPort s got (Some b) input =
     Some (fst (spec_address_port s input), b', snd (spec_address_port s input)) \<and> buf_inv b'"
  using ReadAddressPort_reads [OF assms(1), of got "Some b"] assms(2,3) by (auto simp: reads_def)

theorem address_parser_refines_witness:
  "\<exists>b'. ReadAddressPort sample_serializer nil_slice (Some (Buffer_New nil_slice)) [3, 0, 1, 2] =
     Some (Inl (ErrNew ''invalid domain name: ''), b', [1, 2]) \<and> buf_inv b'"
proof -
  have "259 \<le> Buffer_Available (Buffer_New nil_slice)"
    by simp
  from address_parser_refines [OF sample_serializer_wf Buffer_New_inv(1) this, of nil_slice "[3, 0, 1, 2]"]
  show ?thesis
    by (simp add: sample_serializer_eq family_of_def Let_def ip_text_def)
qed

text \<open>
  The encoder's length check lets a domain of 256 bytes through, whose length does not fit the length
  byte: it is written with length 0 and the decoder rejects what was written.
\<close>
theorem domain_256_corrupts:
  fixes p :: addressParser
  assumes "ser_wf (portFirstAddressParser p)" and "length d = 256" and "addrByteMap p ! 2 \<noteq> afInvalid"
    and "family_of p (addrByteMap p ! 2) = Some AddressFamilyDomain" and "buf_inv b" and "260 \<le> Buffer_Available b"
  shows "\<exists>b' bs. WriteAddressPort (portFirstAddressParser p) buffer_writer b (Some (domainAddress d)) port = Some (None, b')
    \<and> content b' = content b @ be_put16 port @ [addrByteMap p ! 2, 0] @ d
    \<and> ReadAddressPort (portFirstAddressParser p) got None (be_put16 port @ [addrByteMap p ! 2, 0] @ d) =
        Some (Inl (ErrNew ''invalid domain name: ''), bs, d)"
proof -
  let ?s = "portFirstAddressParser p" and ?enc = "be_put16 port @ [addrByteMap p ! 2, 0] @ d"
  have w: "writable ?s (domainAddress d)" using assms(2,3) by (simp add: writable_def af_index_def isDomainTooLong_def)
  have "of_nat (length d) = (0 :: byte)" by (subst assms(2)) simp
  then have enc: "enc_address_port ?s (domainAddress d, port) = ?enc"
    by (simp add: enc_address_def af_index_def)
  with assms(2,6) have "int (length (enc_address_port ?s (domainAddress d, port))) \<le> Buffer_Available b" by simp
  from WriteAddressPort_grows [OF assms(5,1) w this] obtain b' where
    1: "WriteAddressPort ?s buffer_writer b (Some (domainAddress d)) port = Some (None, b')" "content b' = content b @ ?enc"
    unfolding enc by (auto simp: grows_def)
  have "reads (Buffer_New got) 259 (spec_address_port ?s ?enc) (ReadAddressPort ?s got None ?enc)"
    using ReadAddressPort_reads [OF assms(1), of got None] Buffer_New_inv [of got] by simp
  moreover have "spec_address_port ?s ?enc = (Inl (ErrNew ''invalid domain name: ''), d)"
    using assms(4) by (simp add: spec_port_put ip_text_def)
  ultimately obtain bs where
    "ReadAddressPort ?s got None ?enc = Some (Inl (ErrNew ''invalid domain name: ''), bs, d)"
    by (auto simp: reads_def)
  with 1 show ?thesis by blast
qed

theorem domain_256_corrupts_witness:
  "\<exists>b' bs. WriteAddressPort (portFirstAddressParser (ser_parser sample_serializer)) buffer_writer (Buffer_New nil_slice)
       (Some (domainAddress (replicate 256 97))) 53 = Some (None, b')
    \<and> content b' = content (Buffer_New nil_slice) @ be_put16 53 @ [addrByteMap (ser_parser sample_serializer) ! 2, 0] @ replicate 256 97
    \<and> ReadAddressPort (portFirstAddressParser (ser_parser sample_serializer)) nil_slice None
        (be_put16 53 @ [addrByteMap (ser_parser sample_serializer) ! 2, 0] @ replicate 256 97) =
        Some (Inl (ErrNew ''invalid domain name: ''), bs, replicate 256 97)"
proof (rule domain_256_corrupts)
  show "buf_inv (Buffer_New nil_slice)" by (rule Buffer_New_inv)
  show "length (replicate 256 (97 :: byte)) = 256" by (rule length_replicate)
qed (simp_all add: sample_serializer_eq ser_wf_def afInvalid_def family_of_def word_le_nat_alt)

end
