(* ===== verification/Buf_IO.thy ===== *)
theory Buf_IO
  imports Multi_Buffer Addr_Codec
begin

text \<open>
  The stream adapters over multi buffers: \<^verbatim>\<open>BufferedReader\<close> and \<^verbatim>\<open>BufferedWriter\<close> of \<^verbatim>\<open>common/buf\<close>, the copy
  loop of \<^verbatim>\<open>copy.go\<close>, and the length-prefixed chunk streams of \<^verbatim>\<open>common/crypto/chunk.go\<close>.
\<close>

section \<open>Readers and writers of multi buffers\<close>

text \<open>
  A \<^verbatim>\<open>buf.Reader\<close> is what its successive \<^verbatim>\<open>ReadMultiBuffer\<close> calls return, and the error of every
  call after those; a \<^verbatim>\<open>buf.Writer\<close> is a function on its own state.
\<close>

record source =
  src_reads :: "(MultiBuffer \<times> go_error option) list"
  src_end :: go_error

definition source_read :: "source \<Rightarrow> MultiBuffer \<times> go_error option \<times> source" where
  "source_read s =
     (case src_reads s of
        [] \<Rightarrow> ([], Some (src_end s), s)
      | (mb, err) # rs \<Rightarrow> (mb, err, s\<lparr>src_reads := rs\<rparr>))"

type_synonym 'w mb_put = "'w \<Rightarrow> MultiBuffer \<Rightarrow> (go_error option \<times> 'w) go"
type_synonym 'r mb_get = "'r \<Rightarrow> (MultiBuffer \<times> go_error option \<times> 'r) go"

text \<open>What the adapters rely on in a writer: it takes the buffers it is given, in order.\<close>

locale mb_sink =
  fixes put :: "'w mb_put"
    and sok :: "'w \<Rightarrow> bool"
    and sent :: "'w \<Rightarrow> byte list"
  assumes put_all: "sok s \<Longrightarrow> mb_inv mb \<Longrightarrow>
      \<exists>s'. put s mb = Some (None, s') \<and> sok s' \<and> sent s' = sent s @ mcontent mb"

text \<open>A container is such a writer.\<close>

definition container_put :: "MultiBuffer mb_put" where
  "container_put c mb = Some (Container_WriteMultiBuffer c mb)"

interpretation container_sink: mb_sink container_put mb_inv mcontent
  by unfold_locales (simp add: container_put_def Container_WriteMultiBuffer_def MergeMulti_def)

section \<open>BufferedReader\<close>

type_synonym splitter = "MultiBuffer \<Rightarrow> nat \<Rightarrow> (MultiBuffer \<times> byte list \<times> recycled list) go"

record BufferedReader =
  br_Reader :: source
  br_Buffer :: MultiBuffer
  br_Splitter :: "splitter option"

definition BufferedBytes :: "BufferedReader \<Rightarrow> int" where
  "BufferedBytes r = MultiBuffer_Len (br_Buffer r)"

text \<open>\<^verbatim>\<open>Read\<close> into a slice of \<open>n\<close> bytes.\<close>

definition BufferedReader_Read :: "BufferedReader \<Rightarrow> nat \<Rightarrow> (byte list \<times> go_error option \<times> BufferedReader) go" where
  "BufferedReader_Read r n =
     (let spliter = (case br_Splitter r of None \<Rightarrow> SplitBytes | Some f \<Rightarrow> f) in
      if \<not> MultiBuffer_IsEmpty (br_Buffer r) then do {
        (buffer, bs, _) \<leftarrow> spliter (br_Buffer r) n;
        Some (bs, None, r\<lparr>br_Buffer := (if MultiBuffer_IsEmpty buffer then [] else buffer)\<rparr>)
      } else
        let (mb, err, src) = source_read (br_Reader r); r = r\<lparr>br_Reader := src\<rparr> in
        if err \<noteq> None then Some ([], err, r)
        else do {
          (mb, bs, _) \<leftarrow> spliter mb n;
          Some (bs, None, if MultiBuffer_IsEmpty mb then r else r\<lparr>br_Buffer := mb\<rparr>)
        })"

definition BufferedReader_ReadByte :: "BufferedReader \<Rightarrow> (byte \<times> go_error option \<times> BufferedReader) go" where
  "BufferedReader_ReadByte r = do {
     (bs, err, r) \<leftarrow> BufferedReader_Read r 1;
     Some (case bs of [] \<Rightarrow> 0 | b # _ \<Rightarrow> b, err, r)
   }"

definition BufferedReader_ReadMultiBuffer :: "BufferedReader mb_get" where
  "BufferedReader_ReadMultiBuffer r =
     Some (if \<not> MultiBuffer_IsEmpty (br_Buffer r) then (br_Buffer r, None, r\<lparr>br_Buffer := []\<rparr>)
           else let (mb, err, src) = source_read (br_Reader r) in (mb, err, r\<lparr>br_Reader := src\<rparr>))"

definition ReadAtMost :: "slice \<Rightarrow> int \<Rightarrow> BufferedReader mb_get" where
  "ReadAtMost got sz r =
     (let (stop, r) =
        (if MultiBuffer_IsEmpty (br_Buffer r) then
           let (mb, err, src) = source_read (br_Reader r); r = r\<lparr>br_Reader := src\<rparr>
           in if MultiBuffer_IsEmpty mb \<and> err \<noteq> None then (err, r) else (None, r\<lparr>br_Buffer := mb\<rparr>)
         else (None, r))
      in if stop \<noteq> None then Some ([], stop, r)
         else do {
           (rb, mb) \<leftarrow> SplitSize got (br_Buffer r) sz;
           Some (mb, None, r\<lparr>br_Buffer := (if MultiBuffer_IsEmpty rb then [] else rb)\<rparr>)
         })"

text \<open>
  \<^verbatim>\<open>io.ReadFull\<close> on it: \<^verbatim>\<open>Read\<close> until \<open>n\<close> bytes have arrived or a call fails. \<open>acc\<close> are the bytes so far.
\<close>

partial_function (option) read_full_loop ::
  "BufferedReader \<Rightarrow> nat \<Rightarrow> byte list \<Rightarrow> (byte list \<times> go_error option \<times> BufferedReader) go" where
  "read_full_loop r n acc =
     (if n \<le> length acc then Some (acc, None, r)
      else Option.bind (BufferedReader_Read r (n - length acc)) (\<lambda>(bs, err, r').
        if n \<le> length (acc @ bs) then Some (acc @ bs, None, r')
        else if err \<noteq> None then
          Some (acc @ bs, if acc @ bs \<noteq> [] \<and> err = Some EOF then Some ErrUnexpectedEOF else err, r')
        else read_full_loop r' n (acc @ bs)))"

definition BufferedReader_ReadFull ::
  "BufferedReader \<Rightarrow> nat \<Rightarrow> (byte list \<times> go_error option \<times> BufferedReader) go" where
  "BufferedReader_ReadFull r n = read_full_loop r n []"

section \<open>Copy\<close>

datatype copy_error = readError go_error | writeError go_error

definition IsReadError :: "copy_error option \<Rightarrow> bool" where
  "IsReadError e = (case e of Some (readError _) \<Rightarrow> True | _ \<Rightarrow> False)"

definition IsWriteError :: "copy_error option \<Rightarrow> bool" where
  "IsWriteError e = (case e of Some (writeError _) \<Rightarrow> True | _ \<Rightarrow> False)"

fun copy_cause :: "copy_error \<Rightarrow> go_error" where
  "copy_cause (readError e) = e"
| "copy_cause (writeError e) = e"

text \<open>The handlers that run on each piece of data, on a state of their own; \<open>CountSize\<close> is one.\<close>

type_synonym 'h data_handler = "MultiBuffer \<Rightarrow> 'h \<Rightarrow> 'h"

definition CountSize :: "int data_handler" where
  "CountSize b sc = (sc + MultiBuffer_Len b + 9223372036854775808) mod 18446744073709551616 - 9223372036854775808"

partial_function (option) copyInternal ::
  "'r mb_get \<Rightarrow> 'w mb_put \<Rightarrow> 'h data_handler list \<Rightarrow> 'r \<Rightarrow> 'w \<Rightarrow> 'h \<Rightarrow> (copy_error \<times> 'r \<times> 'w \<times> 'h) go" where
  "copyInternal get put onData r w h =
     Option.bind (get r) (\<lambda>(buffer, err, r').
       if \<not> MultiBuffer_IsEmpty buffer then
         Option.bind (put w buffer) (\<lambda>(werr, w').
           case werr of
             Some e \<Rightarrow> Some (writeError e, r', w', fold (\<lambda>f. f buffer) onData h)
           | None \<Rightarrow>
               (case err of
                  Some e \<Rightarrow> Some (readError e, r', w', fold (\<lambda>f. f buffer) onData h)
                | None \<Rightarrow> copyInternal get put onData r' w' (fold (\<lambda>f. f buffer) onData h)))
       else case err of
         Some e \<Rightarrow> Some (readError e, r', w, h)
       | None \<Rightarrow> copyInternal get put onData r' w h)"

definition Copy ::
  "'r mb_get \<Rightarrow> 'w mb_put \<Rightarrow> 'h data_handler list \<Rightarrow> 'r \<Rightarrow> 'w \<Rightarrow> 'h \<Rightarrow> (copy_error option \<times> 'r \<times> 'w \<times> 'h) go" where
  "Copy get put onData r w h = do {
     (err, r, w, h) \<leftarrow> copyInternal get put onData r w h;
     Some (if copy_cause err \<noteq> EOF then Some err else None, r, w, h)
   }"

section \<open>Chunk streams\<close>

text \<open>A \<^verbatim>\<open>ChunkSizeDecoder\<close> and a \<^verbatim>\<open>ChunkSizeEncoder\<close> are their two methods.\<close>

record size_decoder =
  dec_SizeBytes :: nat
  dec_Decode :: "byte list \<Rightarrow> (go_error + u16) go"

record size_encoder =
  enc_SizeBytes :: nat
  enc_Encode :: "u16 \<Rightarrow> byte list"

definition PlainChunkSizeDecoder :: size_decoder where
  "PlainChunkSizeDecoder = \<lparr>dec_SizeBytes = 2, dec_Decode = (\<lambda>b. map_option Inr (be_get16 b))\<rparr>"

definition PlainChunkSizeEncoder :: size_encoder where
  "PlainChunkSizeEncoder = \<lparr>enc_SizeBytes = 2, enc_Encode = be_put16\<rparr>"

record ChunkStreamReader =
  cs_sizeDecoder :: size_decoder
  cs_reader :: BufferedReader
  cs_leftOverSize :: int
  cs_maxNumChunk :: u32
  cs_numChunk :: u32

definition NewChunkStreamReaderWithChunkCount :: "size_decoder \<Rightarrow> BufferedReader \<Rightarrow> u32 \<Rightarrow> ChunkStreamReader" where
  "NewChunkStreamReaderWithChunkCount sizeDecoder reader maxNumChunk =
     \<lparr>cs_sizeDecoder = sizeDecoder, cs_reader = reader, cs_leftOverSize = 0, cs_maxNumChunk = maxNumChunk, cs_numChunk = 0\<rparr>"

definition NewChunkStreamReader :: "size_decoder \<Rightarrow> BufferedReader \<Rightarrow> ChunkStreamReader" where
  "NewChunkStreamReader sizeDecoder reader = NewChunkStreamReaderWithChunkCount sizeDecoder reader 0"

definition readSize :: "ChunkStreamReader \<Rightarrow> ((go_error + u16) \<times> ChunkStreamReader) go" where
  "readSize r = do {
     (bs, err, br) \<leftarrow> BufferedReader_ReadFull (cs_reader r) (dec_SizeBytes (cs_sizeDecoder r));
     let r = r\<lparr>cs_reader := br\<rparr>;
     case err of
       Some e \<Rightarrow> Some (Inl e, r)
     | None \<Rightarrow> do { v \<leftarrow> dec_Decode (cs_sizeDecoder r) bs; Some (v, r) }
   }"

text \<open>The end of \<^verbatim>\<open>ReadMultiBuffer\<close>, with the size of the rest of the chunk.\<close>

definition read_chunk_part :: "slice \<Rightarrow> int \<Rightarrow> ChunkStreamReader mb_get" where
  "read_chunk_part got sz r = do {
     let r = r\<lparr>cs_leftOverSize := sz\<rparr>;
     (mb, err, br) \<leftarrow> ReadAtMost got sz (cs_reader r);
     let r = r\<lparr>cs_reader := br\<rparr>;
     if \<not> MultiBuffer_IsEmpty mb
     then Some (mb, None, r\<lparr>cs_leftOverSize := int32 (cs_leftOverSize r - MultiBuffer_Len mb)\<rparr>)
     else Some ([], err, r)
   }"

definition ChunkStreamReader_ReadMultiBuffer :: "slice \<Rightarrow> ChunkStreamReader mb_get" where
  "ChunkStreamReader_ReadMultiBuffer got r =
     (if cs_leftOverSize r = 0 then
        let r = r\<lparr>cs_numChunk := cs_numChunk r + 1\<rparr> in
        if cs_maxNumChunk r > 0 \<and> cs_numChunk r > cs_maxNumChunk r then Some ([], Some EOF, r)
        else do {
          (nextSize, r) \<leftarrow> readSize r;
          case nextSize of
            Inl e \<Rightarrow> Some ([], Some e, r)
          | Inr n \<Rightarrow> if n = 0 then Some ([], Some EOF, r) else read_chunk_part got (int (unat n)) r
        }
      else read_chunk_part got (cs_leftOverSize r) r)"

text \<open>The loop of \<^verbatim>\<open>ChunkStreamWriter.WriteMultiBuffer\<close>: one size buffer before each slice of at most 8 KiB.\<close>

partial_function (option) chunk_write_loop ::
  "size_encoder \<Rightarrow> (nat \<Rightarrow> slice) \<Rightarrow> nat \<Rightarrow> MultiBuffer \<Rightarrow> MultiBuffer \<Rightarrow> MultiBuffer go" where
  "chunk_write_loop enc gots k mb mb2Write =
     Option.bind (SplitSize (gots (2 * k)) mb 8192) (\<lambda>(mb2, slice).
     Option.bind (Buffer_Extend (Buffer_New (gots (2 * k + 1))) (int (enc_SizeBytes enc))) (\<lambda>b.
       let b' = Buffer_fill b 0 (enc_Encode enc (word_of_int (MultiBuffer_Len slice)));
           out = mb2Write @ [b'] @ slice
       in if MultiBuffer_IsEmpty mb2 then Some out else chunk_write_loop enc gots (Suc k) mb2 out))"

definition ChunkStreamWriter_WriteMultiBuffer ::
  "size_encoder \<Rightarrow> 'w mb_put \<Rightarrow> (nat \<Rightarrow> slice) \<Rightarrow> 'w \<Rightarrow> MultiBuffer \<Rightarrow> (go_error option \<times> 'w) go" where
  "ChunkStreamWriter_WriteMultiBuffer enc put gots w mb = do {
     mb2Write \<leftarrow> chunk_write_loop enc gots 0 mb [];
     put w mb2Write
   }"

section \<open>The bytes a reader will deliver\<close>

definition pooled :: "Buffer \<Rightarrow> bool" where
  "pooled b \<longleftrightarrow> buf_inv b \<and> length (content b) \<le> Size"

definition br_bufs :: "BufferedReader \<Rightarrow> MultiBuffer" where
  "br_bufs r = br_Buffer r @ concat (map fst (src_reads (br_Reader r)))"

definition br_rest :: "BufferedReader \<Rightarrow> byte list" where
  "br_rest r = mcontent (br_bufs r)"

definition br_size :: "BufferedReader \<Rightarrow> nat" where
  "br_size r = length (br_rest r) + length (br_bufs r) + length (src_reads (br_Reader r))"

text \<open>
  A reader over a source that delivers pooled buffers and then \<^verbatim>\<open>io.EOF\<close>, as the pipes of the program do.
\<close>

definition br_ok :: "BufferedReader \<Rightarrow> bool" where
  "br_ok r \<longleftrightarrow> br_Splitter r = None \<and> src_end (br_Reader r) = EOF
     \<and> list_all (\<lambda>(mb, err). err = None) (src_reads (br_Reader r))
     \<and> list_all pooled (br_bufs r) \<and> length (br_rest r) < 2147483648"

lemma pooled_inv: "list_all pooled mb \<Longrightarrow> mb_inv mb"
  by (induction mb) (simp_all add: pooled_def)

lemma SplitBytes_pooled:
  "list_all pooled mb \<Longrightarrow> SplitBytes mb room = Some (rest, out, rel) \<Longrightarrow> list_all pooled rest \<and> length rest \<le> length mb"
proof (induction mb arbitrary: room rest out rel)
  case (Cons p mb)
  then have p: "buf_inv p" "length (content p) \<le> Size" by (simp_all add: pooled_def)
  from Buffer_Read_spec [OF p(1), of room] obtain p' where
    p': "Buffer_Read p room = Some (take room (content p), if content p = [] then Some EOF else None, p')"
    "buf_inv p'" "content p' = drop room (content p)" by auto
  have pp: "pooled p'" using p' p(2) by (simp add: pooled_def)
  show ?case
  proof (cases "Buffer_IsEmpty p'")
    case False
    with Cons.prems p'(1) pp show ?thesis by auto
  next
    case True
    with Cons.prems(2) p'(1) obtain out' rel' where
      "SplitBytes mb (room - length (take room (content p))) = Some (rest, out', rel')"
      by (auto split: bind_splits)
    with Cons.IH Cons.prems(1) show ?thesis by fastforce
  qed
qed simp

lemma IsEmpty_pooled: "list_all pooled mb \<Longrightarrow> MultiBuffer_IsEmpty mb \<longleftrightarrow> mcontent mb = []"
  by (simp add: MultiBuffer_IsEmpty_mcontent pooled_inv)

lemma br_okD:
  assumes "br_ok r"
  shows "br_Splitter r = None" and "src_end (br_Reader r) = EOF" and "list_all pooled (br_Buffer r)"
    and "list_all (\<lambda>(mb, err). err = None) (src_reads (br_Reader r))"
    and "\<And>mb err rs. src_reads (br_Reader r) = (mb, err) # rs \<Longrightarrow> err = None \<and> list_all pooled mb"
  using assms by (auto simp: br_ok_def br_bufs_def)

text \<open>What one call does to a reader: some bytes taken off the front, or the end of the stream.\<close>

definition takes :: "BufferedReader \<Rightarrow> byte list \<Rightarrow> BufferedReader \<Rightarrow> bool" where
  "takes r bs r' \<longleftrightarrow> br_ok r' \<and> br_rest r = bs @ br_rest r' \<and> br_size r' < br_size r"

lemma takesI:
  assumes "br_ok r" and "br_Splitter r' = None" "src_end (br_Reader r') = EOF"
    and "src_reads (br_Reader r') = src_reads (br_Reader r) \<or> (\<exists>x. src_reads (br_Reader r) = x # src_reads (br_Reader r'))"
    and "list_all pooled (br_bufs r')" and "br_rest r = bs @ br_rest r'" and "br_size r' < br_size r"
  shows "takes r bs r'"
  using assms by (auto simp: takes_def br_ok_def)

lemma BufferedReader_Read_takes:
  assumes "br_ok r" and "0 < n"
  shows "(br_rest r = [] \<and> (\<exists>r'. BufferedReader_Read r n = Some ([], Some EOF, r') \<and> br_ok r' \<and> br_rest r' = []))
    \<or> (\<exists>bs r'. BufferedReader_Read r n = Some (bs, None, r') \<and> takes r bs r' \<and> length bs \<le> n)"
proof (cases "mcontent (br_Buffer r) = []")
  case False
  note d = br_okD [OF assms(1)]
  from SplitBytes_spec [OF pooled_inv [OF d(3)], of n] obtain rest rel where
    sp: "SplitBytes (br_Buffer r) n = Some (rest, take n (mcontent (br_Buffer r)), rel)"
    "mcontent rest = drop n (mcontent (br_Buffer r))" by blast
  note pl = SplitBytes_pooled [OF d(3) sp(1)]
  define r' where "r' = r\<lparr>br_Buffer := (if mcontent rest = [] then [] else rest)\<rparr>"
  have rest': "mcontent (if mcontent rest = [] then [] else rest) = mcontent rest" by simp
  have "takes r (take n (mcontent (br_Buffer r))) r'"
  proof (rule takesI [OF assms(1)])
    show "list_all pooled (br_bufs r')" using pl assms(1) by (auto simp: br_ok_def br_bufs_def r'_def)
    show "br_rest r = take n (mcontent (br_Buffer r)) @ br_rest r'"
      using rest' sp(2) by (simp add: br_rest_def br_bufs_def r'_def)
    have "length (mcontent rest) < length (mcontent (br_Buffer r))" using sp(2) False assms(2) by simp
    then show "br_size r' < br_size r" using pl rest' False by (simp add: br_size_def br_rest_def br_bufs_def r'_def)
  qed (use d in \<open>simp_all add: r'_def\<close>)
  moreover have "BufferedReader_Read r n = Some (take n (mcontent (br_Buffer r)), None, r')"
    using d False sp(1) pl by (simp add: BufferedReader_Read_def IsEmpty_pooled r'_def)
  ultimately show ?thesis by auto
next
  case True
  note d = br_okD [OF assms(1)]
  show ?thesis
  proof (cases "src_reads (br_Reader r)")
    case Nil
    with True d assms(1) show ?thesis
      by (auto simp: BufferedReader_Read_def IsEmpty_pooled source_read_def br_rest_def br_bufs_def)
  next
    case (Cons x rs)
    obtain mb err where x: "x = (mb, err)" by (cases x)
    with Cons d(5) have mb: "err = None" "list_all pooled mb" by auto
    from SplitBytes_spec [OF pooled_inv [OF mb(2)], of n] obtain rest rel where
      sp: "SplitBytes mb n = Some (rest, take n (mcontent mb), rel)" "mcontent rest = drop n (mcontent mb)" by blast
    note pl = SplitBytes_pooled [OF mb(2) sp(1)]
    define r1 where "r1 = r\<lparr>br_Reader := (br_Reader r)\<lparr>src_reads := rs\<rparr>\<rparr>"
    define r' where "r' = (if mcontent rest = [] then r1 else r1\<lparr>br_Buffer := rest\<rparr>)"
    have "takes r (take n (mcontent mb)) r'"
    proof (rule takesI [OF assms(1)])
      show "list_all pooled (br_bufs r')"
        using pl assms(1) Cons x by (auto simp: br_ok_def br_bufs_def r'_def r1_def)
      show rest: "br_rest r = take n (mcontent mb) @ br_rest r'"
        using True sp(2) Cons x by (simp add: br_rest_def br_bufs_def r'_def r1_def)
      show "br_size r' < br_size r"
        using pl rest Cons x by (simp add: br_size_def br_bufs_def r'_def r1_def)
    qed (use d Cons in \<open>simp_all add: r'_def r1_def\<close>)
    moreover have "BufferedReader_Read r n = Some (take n (mcontent mb), None, r')"
      using d True Cons x mb sp(1) pl
      by (simp add: BufferedReader_Read_def IsEmpty_pooled source_read_def r'_def r1_def)
    ultimately show ?thesis by auto
  qed
qed

lemma read_full_loop_spec:
  "br_ok r \<Longrightarrow> length acc \<le> n \<Longrightarrow>
   \<exists>r'. read_full_loop r n acc = Some (take n (acc @ br_rest r),
       if n \<le> length (acc @ br_rest r) then None else if acc @ br_rest r = [] then Some EOF else Some ErrUnexpectedEOF, r')
     \<and> br_ok r' \<and> br_rest r' = drop (n - length acc) (br_rest r)"
proof (induction "br_size r" arbitrary: r acc rule: less_induct)
  case less
  show ?case
  proof (cases "n \<le> length acc")
    case True
    with less.prems show ?thesis by (simp add: read_full_loop.simps [of r])
  next
    case short: False
    then have "0 < n - length acc" by simp
    from BufferedReader_Read_takes [OF less.prems(1) this] consider
      (eof) r' where "br_rest r = []" "BufferedReader_Read r (n - length acc) = Some ([], Some EOF, r')" "br_ok r'" "br_rest r' = []"
      | (some) bs r' where "BufferedReader_Read r (n - length acc) = Some (bs, None, r')" "takes r bs r'" "length bs \<le> n - length acc"
      by blast
    then show ?thesis
    proof cases
      case eof
      with short show ?thesis by (simp add: read_full_loop.simps [of r])
    next
      case some
      from some(2) have t: "br_ok r'" "br_rest r = bs @ br_rest r'" "br_size r' < br_size r" by (simp_all add: takes_def)
      show ?thesis
      proof (cases "n \<le> length (acc @ bs)")
        case True
        with some(3) less.prems(2) have "length bs = n - length acc" by simp
        with True short some(1) t show ?thesis by (simp add: read_full_loop.simps [of r])
      next
        case False
        then have le: "length (acc @ bs) \<le> n" by simp
        from False short some(1) have "read_full_loop r n acc = read_full_loop r' n (acc @ bs)"
          by (simp add: read_full_loop.simps [of r])
        with less.hyps [OF t(3,1) le] t(2) some(3) show ?thesis by (auto simp: diff_diff_add)
      qed
    qed
  qed
qed

text \<open>\<^verbatim>\<open>io.ReadFull\<close> sees a buffered reader as the bytes it will deliver.\<close>

lemma BufferedReader_ReadFull_spec:
  assumes "br_ok r"
  shows "\<exists>r'. BufferedReader_ReadFull r n = Some (fst (ReadFull (br_rest r) n), fst (snd (ReadFull (br_rest r) n)), r')
    \<and> br_ok r' \<and> br_rest r' = snd (snd (ReadFull (br_rest r) n))"
  using read_full_loop_spec [OF assms, of "[]" n] by (auto simp: BufferedReader_ReadFull_def ReadFull_def)

section \<open>Reading at most a number of bytes\<close>

lemma SplitSize_pieces:
  assumes "list_all pooled mb" and "0 < sz" and "length (mcontent mb) < 2147483648"
  shows "\<exists>rest r. SplitSize got mb sz = Some (rest, r) \<and> mcontent r @ mcontent rest = mcontent mb
    \<and> list_all pooled rest \<and> list_all pooled r \<and> int (length (mcontent r)) \<le> sz \<and> length rest \<le> length mb
    \<and> (mb \<noteq> [] \<longrightarrow> length (mcontent rest) + length rest < length (mcontent mb) + length mb)
    \<and> (int Size \<le> sz \<longrightarrow> mcontent mb \<noteq> [] \<longrightarrow> mcontent r \<noteq> [])"
proof (cases mb)
  case Nil
  then show ?thesis using assms(2) by (simp add: SplitSize_def)
next
  case (Cons b0 mb0)
  with assms(1) have p: "pooled b0" "list_all pooled mb0" and inv: "buf_inv b0" by (simp_all add: pooled_def)
  show ?thesis
  proof (cases "sz < Buffer_Len b0")
    case True
    then have sz: "sz < int (length (content b0))" "sz \<le> int Size"
      using p(1) by (simp_all add: Buffer_Len_content [OF inv] pooled_def)
    from SplitSize_cut [OF inv _ sz(2) True, of got mb0] assms(2) obtain b c where
      sp: "SplitSize got (b0 # mb0) sz = Some (c # mb0, [b])" "buf_inv b" "buf_inv c"
      "content b = take (nat sz) (content b0)" "content c = drop (nat sz) (content b0)" by auto
    have "length (content b0) \<le> Size" using p(1) by (simp add: pooled_def)
    then have "pooled b" "pooled c" using sp(2-5) by (auto simp: pooled_def)
    with sp sz p(2) Cons assms(2) show ?thesis by auto
  next
    case False
    obtain rest r where s: "split_size_loop mb 0 sz = (rest, r)" by fastforce
    then have sp: "SplitSize got mb sz = Some (rest, r)" using False Cons by (simp add: SplitSize_def)
    have "r @ rest = mb \<and> (r \<noteq> [] \<longrightarrow> 0 + int (length (mcontent r)) \<le> sz)
        \<and> (rest \<noteq> [] \<longrightarrow> 0 + int (length (mcontent (r @ [hd rest]))) > sz)"
      by (rule split_size_loop_spec [OF pooled_inv [OF assms(1)] _ _ s]) (use assms(3) in auto)
    moreover have "int32 (int (length (content b0))) = int (length (content b0))"
      using content_bound [OF inv] by (intro int32_id) simp_all
    then have "r \<noteq> []" using s Cons False by (auto simp: Buffer_Len_content [OF inv] Let_def split: prod.splits if_splits)
    ultimately have rr: "mb = r @ rest" "int (length (mcontent r)) \<le> sz" "0 < length r"
      "rest \<noteq> [] \<longrightarrow> sz < int (length (mcontent r)) + int (length (content (hd rest)))" by auto
    have "mcontent r \<noteq> []" if "int Size \<le> sz" "mcontent mb \<noteq> []"
    proof (cases rest)
      case Nil
      with rr(1) that(2) show ?thesis by simp
    next
      case (Cons x xs)
      with rr(1) assms(1) have "length (content x) \<le> Size" by (auto simp: pooled_def)
      with rr(4) Cons that(1) show ?thesis by auto
    qed
    with rr assms(1) sp show ?thesis by (intro exI [of _ rest] exI [of _ r]) auto
  qed
qed

lemma ReadAtMost_takes:
  assumes "br_ok r" and "0 < sz"
  shows "(br_rest r = [] \<and> (\<exists>r'. ReadAtMost got sz r = Some ([], Some EOF, r') \<and> br_ok r' \<and> br_rest r' = []))
    \<or> (\<exists>mb r'. ReadAtMost got sz r = Some (mb, None, r') \<and> takes r (mcontent mb) r' \<and> list_all pooled mb
        \<and> int (length (mcontent mb)) \<le> sz)"
proof -
  note d = br_okD [OF assms(1)]
  have short: "length (br_rest r) < 2147483648" using assms(1) by (simp add: br_ok_def)
  have split: ?thesis
    if r1: "br_Splitter r1 = None" "src_end (br_Reader r1) = EOF" "list_all pooled (br_bufs r1)" "br_rest r1 = br_rest r"
      and src: "src_reads (br_Reader r1) = src_reads (br_Reader r) \<and> br_Buffer r1 = br_Buffer r \<and> br_Buffer r \<noteq> []
        \<or> (\<exists>x. src_reads (br_Reader r) = x # src_reads (br_Reader r1)) \<and> br_size r1 < br_size r"
      and code: "ReadAtMost got sz r = do {
           (rb, mb) \<leftarrow> SplitSize got (br_Buffer r1) sz;
           Some (mb, None, r1\<lparr>br_Buffer := (if MultiBuffer_IsEmpty rb then [] else rb)\<rparr>)
         }" for r1
  proof -
    have pl: "list_all pooled (br_Buffer r1)" using r1(3) by (simp add: br_bufs_def)
    have "length (mcontent (br_Buffer r1)) \<le> length (br_rest r1)" by (simp add: br_rest_def br_bufs_def)
    then have len: "length (mcontent (br_Buffer r1)) < 2147483648" using short r1(4) by simp
    from SplitSize_pieces [OF pl assms(2) len, of got] obtain rest mb where
      sp: "SplitSize got (br_Buffer r1) sz = Some (rest, mb)" "mcontent mb @ mcontent rest = mcontent (br_Buffer r1)"
      "list_all pooled rest" "list_all pooled mb" "int (length (mcontent mb)) \<le> sz" "length rest \<le> length (br_Buffer r1)"
      "br_Buffer r1 \<noteq> [] \<longrightarrow> length (mcontent rest) + length rest < length (mcontent (br_Buffer r1)) + length (br_Buffer r1)"
      by metis
    define rb where "rb = (if mcontent rest = [] then [] else rest)"
    have rb: "mcontent rb = mcontent rest" "length rb \<le> length rest" "list_all pooled rb" using sp(3) by (auto simp: rb_def)
    define r' where "r' = r1\<lparr>br_Buffer := rb\<rparr>"
    have len_mb: "length (mcontent (br_Buffer r1)) = length (mcontent mb) + length (mcontent rest)"
      by (simp flip: sp(2))
    have "takes r (mcontent mb) r'"
    proof (rule takesI [OF assms(1)])
      show "list_all pooled (br_bufs r')" using r1(3) rb(3) by (simp add: br_bufs_def r'_def)
      show "br_rest r = mcontent mb @ br_rest r'"
        unfolding r1(4) [symmetric] using sp(2) rb(1) by (simp add: br_rest_def br_bufs_def r'_def flip: append_assoc)
      have "br_size r' \<le> br_size r1" "br_Buffer r1 \<noteq> [] \<Longrightarrow> br_size r' < br_size r1"
        using len_mb rb(1,2) sp(6,7) by (auto simp: br_size_def br_rest_def br_bufs_def r'_def)
      moreover have "br_size r1 = br_size r" if "src_reads (br_Reader r1) = src_reads (br_Reader r)" "br_Buffer r1 = br_Buffer r"
        using that by (simp add: br_size_def br_rest_def br_bufs_def)
      ultimately show "br_size r' < br_size r" using src by fastforce
    qed (use r1 src in \<open>auto simp: r'_def\<close>)
    moreover have "ReadAtMost got sz r = Some (mb, None, r')"
      using code sp(1,3) by (simp add: IsEmpty_pooled r'_def rb_def)
    ultimately show ?thesis using sp(4,5) by blast
  qed
  show ?thesis
  proof (cases "mcontent (br_Buffer r) = []")
    case False
    then have "br_Buffer r \<noteq> []" by auto
    with False d assms(1) show ?thesis
      by (intro split [of r]) (auto simp: ReadAtMost_def IsEmpty_pooled br_ok_def)
  next
    case empty: True
    show ?thesis
    proof (cases "src_reads (br_Reader r)")
      case Nil
      with empty d assms(1) show ?thesis
        by (auto simp: ReadAtMost_def IsEmpty_pooled source_read_def br_rest_def br_bufs_def)
    next
      case (Cons x rs)
      obtain mb err where x: "x = (mb, err)" by (cases x)
      with Cons d(5) have mb: "err = None" "list_all pooled mb" by auto
      show ?thesis
      proof (rule split [of "r\<lparr>br_Reader := (br_Reader r)\<lparr>src_reads := rs\<rparr>, br_Buffer := mb\<rparr>"])
      qed (use d empty Cons x mb assms(1) in
          \<open>auto simp: ReadAtMost_def IsEmpty_pooled source_read_def br_ok_def br_rest_def br_bufs_def br_size_def\<close>)
    qed
  qed
qed

section \<open>Copying chunk streams\<close>

definition data_bytes :: "byte list \<Rightarrow> byte list" where
  "data_bytes p = be_put16 (of_nat (length p)) @ p"

text \<open>The chunk reader as a reader of multi buffers; \<open>k\<close> counts its calls.\<close>

definition cs_get :: "(nat \<Rightarrow> slice) \<Rightarrow> (nat \<times> ChunkStreamReader) mb_get" where
  "cs_get gots kc = do {
     (mb, err, c) \<leftarrow> ChunkStreamReader_ReadMultiBuffer (gots (fst kc)) (snd kc);
     Some (mb, err, (Suc (fst kc), c))
   }"

text \<open>A chunk reader between two chunks.\<close>

definition cs_at :: "ChunkStreamReader \<Rightarrow> byte list \<Rightarrow> u32 \<Rightarrow> u32 \<Rightarrow> bool" where
  "cs_at c rest mx num \<longleftrightarrow> cs_sizeDecoder c = PlainChunkSizeDecoder \<and> br_ok (cs_reader c)
     \<and> br_rest (cs_reader c) = rest \<and> cs_leftOverSize c = 0 \<and> cs_maxNumChunk c = mx \<and> cs_numChunk c = num"

lemma append_split: "p @ r = m @ b \<Longrightarrow> length m \<le> length p \<Longrightarrow> \<exists>q. p = m @ q \<and> b = q @ r"
proof -
  assume e: "p @ r = m @ b" and le: "length m \<le> length p"
  have "take (length m) (p @ r) = m" unfolding e by simp
  moreover have "drop (length m) (p @ r) = b" unfolding e by simp
  ultimately have "take (length m) p = m" "drop (length m) p @ r = b" using le by simp_all
  then show ?thesis using append_take_drop_id [of "length m" p] by metis
qed

lemma read_chunk_part_step:
  assumes "br_ok (cs_reader c)" and "0 < l" and "l < 65536" and "br_rest (cs_reader c) = p @ rest" and "length p = l"
  shows "\<exists>mb br. read_chunk_part got (int l) c =
       Some (mb, None, c\<lparr>cs_reader := br, cs_leftOverSize := int l - int (length (mcontent mb))\<rparr>)
     \<and> takes (cs_reader c) (mcontent mb) br \<and> mb_inv mb \<and> length (mcontent mb) \<le> l"
proof -
  from assms(2,4,5) have ne: "br_rest (cs_reader c) \<noteq> []" and l0: "0 < int l" by auto
  from ReadAtMost_takes [OF assms(1) l0, of got] ne obtain mb br where
    rd: "ReadAtMost got (int l) (cs_reader c) = Some (mb, None, br)" "takes (cs_reader c) (mcontent mb) br"
    "list_all pooled mb" "length (mcontent mb) \<le> l" by auto
  note inv = pooled_inv [OF rd(3)]
  have "MultiBuffer_Len mb = int (length (mcontent mb))"
    using rd(4) assms(3) by (simp add: MultiBuffer_Len_mcontent [OF inv])
  then have ml: "int32 (int l - MultiBuffer_Len mb) = int l - int (length (mcontent mb))"
    using rd(4) assms(3) by simp
  show ?thesis
  proof (cases "mcontent mb = []")
    case True
    then have "read_chunk_part got (int l) c = Some ([], None, c\<lparr>cs_reader := br, cs_leftOverSize := int l\<rparr>)"
      using rd(1) by (simp add: read_chunk_part_def MultiBuffer_IsEmpty_mcontent [OF inv])
    with True rd(2) show ?thesis by (intro exI [of _ "[]"] exI [of _ br]) simp
  next
    case False
    then have "read_chunk_part got (int l) c = Some (mb, None, c\<lparr>cs_reader := br, cs_leftOverSize := int l - int (length (mcontent mb))\<rparr>)"
      using rd(1) ml by (simp add: read_chunk_part_def MultiBuffer_IsEmpty_mcontent [OF inv])
    with rd inv show ?thesis by blast
  qed
qed

context mb_sink
begin

lemma copy_part:
  "\<lbrakk>sok w; cs_sizeDecoder c = PlainChunkSizeDecoder; br_ok (cs_reader c); 0 < l; l < 65536; cs_leftOverSize c = int l;
    br_rest (cs_reader c) = p @ rest; length p = l\<rbrakk> \<Longrightarrow>
   \<exists>k' c' w' h'. copyInternal (cs_get gots) put onData (k, c) w h = copyInternal (cs_get gots) put onData (k', c') w' h'
     \<and> sok w' \<and> sent w' = sent w @ p \<and> cs_at c' rest (cs_maxNumChunk c) (cs_numChunk c)"
proof (induction "br_size (cs_reader c)" arbitrary: c k w h l p rule: less_induct)
  case less
  from read_chunk_part_step [OF less.prems(3-5,7,8), of "gots k"] obtain mb br where
    rp: "read_chunk_part (gots k) (int l) c =
       Some (mb, None, c\<lparr>cs_reader := br, cs_leftOverSize := int l - int (length (mcontent mb))\<rparr>)"
    "takes (cs_reader c) (mcontent mb) br" "mb_inv mb" "length (mcontent mb) \<le> l" by blast
  define c1 where "c1 = c\<lparr>cs_reader := br, cs_leftOverSize := int l - int (length (mcontent mb))\<rparr>"
  from rp(2) have t: "br_ok br" "br_rest (cs_reader c) = mcontent mb @ br_rest br" "br_size br < br_size (cs_reader c)"
    by (simp_all add: takes_def)
  have "p @ rest = mcontent mb @ br_rest br" using t(2) less.prems(7) by simp
  moreover have "length (mcontent mb) \<le> length p" using less.prems(8) rp(4) by simp
  ultimately obtain q where pq: "p = mcontent mb @ q" "br_rest br = q @ rest"
    using append_split by blast
  have get: "cs_get gots (k, c) = Some (mb, None, (Suc k, c1))"
    using rp(1) less.prems(4,6) by (simp add: cs_get_def ChunkStreamReader_ReadMultiBuffer_def c1_def)
  define h1 where "h1 = (if mcontent mb = [] then h else fold (\<lambda>f. f mb) onData h)"
  obtain w1 where w1: "sok w1" "sent w1 = sent w @ mcontent mb"
    "copyInternal (cs_get gots) put onData (k, c) w h = copyInternal (cs_get gots) put onData (Suc k, c1) w1 h1"
  proof (cases "mcontent mb = []")
    case True
    with that [of w] less.prems(1) get rp(3) show thesis
      by (simp add: copyInternal.simps [of _ _ _ "(k, c)"] MultiBuffer_IsEmpty_mcontent h1_def)
  next
    case False
    from put_all [OF less.prems(1) rp(3)] obtain w1 where
      "put w mb = Some (None, w1)" "sok w1" "sent w1 = sent w @ mcontent mb" by blast
    with that [of w1] False get rp(3) show thesis
      by (simp add: copyInternal.simps [of _ _ _ "(k, c)"] MultiBuffer_IsEmpty_mcontent h1_def)
  qed
  show ?case
  proof (cases "q = []")
    case True
    then have "cs_at c1 rest (cs_maxNumChunk c) (cs_numChunk c)"
      using pq less.prems(2,8) t(1) by (simp add: cs_at_def c1_def)
    with w1 True pq(1) show ?thesis by (intro exI [of _ "Suc k"] exI [of _ c1] exI [of _ w1] exI [of _ h1]) simp
  next
    case False
    have l1: "cs_leftOverSize c1 = int (length q)" "length q < 65536" "0 < length q"
      using pq(1) less.prems(5,8) False by (auto simp: c1_def)
    have "br_size (cs_reader c1) < br_size (cs_reader c)" using t(3) by (simp add: c1_def)
    moreover have "cs_sizeDecoder c1 = PlainChunkSizeDecoder" "br_ok (cs_reader c1)" "br_rest (cs_reader c1) = q @ rest"
      using less.prems(2) t(1) pq(2) by (simp_all add: c1_def)
    ultimately obtain k' c' w' h' where
      "copyInternal (cs_get gots) put onData (Suc k, c1) w1 h1 = copyInternal (cs_get gots) put onData (k', c') w' h'"
      "sok w'" "sent w' = sent w1 @ q" "cs_at c' rest (cs_maxNumChunk c1) (cs_numChunk c1)"
      using less.hyps [of c1 w1 "length q" q "Suc k" h1] w1(1) l1 by blast
    with w1(2,3) pq(1) show ?thesis by (auto simp: c1_def)
  qed
qed

end

text \<open>The size field of the next chunk, and the end of the stream.\<close>

lemma readSize_plain:
  assumes "br_ok (cs_reader c)" and "cs_sizeDecoder c = PlainChunkSizeDecoder" and "br_rest (cs_reader c) = be_put16 n @ rest"
  shows "\<exists>br. readSize c = Some (Inr n, c\<lparr>cs_reader := br\<rparr>) \<and> br_ok br \<and> br_rest br = rest"
proof -
  from BufferedReader_ReadFull_spec [OF assms(1), of 2] obtain br where
    br: "BufferedReader_ReadFull (cs_reader c) 2 = Some (be_put16 n, None, br)" "br_ok br" "br_rest br = rest"
    by (auto simp: ReadFull_def assms(3))
  with be_get_put16 [of n "[]"] assms(2) show ?thesis
    by (auto simp: readSize_def PlainChunkSizeDecoder_def Let_def)
qed

lemma readSize_end:
  assumes "br_ok (cs_reader c)" and "cs_sizeDecoder c = PlainChunkSizeDecoder" and "br_rest (cs_reader c) = []"
  shows "\<exists>br. readSize c = Some (Inl EOF, c\<lparr>cs_reader := br\<rparr>) \<and> br_ok br \<and> br_rest br = []"
  using BufferedReader_ReadFull_spec [OF assms(1), of 2] assms(2,3)
  by (auto simp: readSize_def PlainChunkSizeDecoder_def Let_def ReadFull_def)

definition may_read :: "u32 \<Rightarrow> u32 \<Rightarrow> bool" where
  "may_read mx num \<longleftrightarrow> \<not> (mx > 0 \<and> num + 1 > mx)"

lemma get_next_chunk:
  assumes "cs_at c (data_bytes p @ rest) mx num" and "may_read mx num" and "p \<noteq> []" and "length p < 65536"
  shows "\<exists>c1. cs_get gots (k, c) = cs_get gots (k, c1) \<and> cs_sizeDecoder c1 = PlainChunkSizeDecoder
    \<and> br_ok (cs_reader c1) \<and> br_rest (cs_reader c1) = p @ rest \<and> cs_leftOverSize c1 = int (length p)
    \<and> cs_maxNumChunk c1 = mx \<and> cs_numChunk c1 = num + 1"
proof -
  let ?c = "c\<lparr>cs_numChunk := num + 1\<rparr>" and ?n = "of_nat (length p) :: u16"
  from assms(1) have c: "cs_sizeDecoder c = PlainChunkSizeDecoder" "br_ok (cs_reader c)"
    "br_rest (cs_reader c) = be_put16 ?n @ p @ rest" "cs_leftOverSize c = 0" "cs_maxNumChunk c = mx" "cs_numChunk c = num"
    by (simp_all add: cs_at_def data_bytes_def)
  have n: "unat ?n = length p" using assms(4) by (intro unat_of_nat_u16) simp
  with assms(3) have nz: "?n \<noteq> 0" by (metis length_0_conv unat_0)
  from readSize_plain [of ?c ?n "p @ rest"] c obtain br where
    br: "readSize ?c = Some (Inr ?n, ?c\<lparr>cs_reader := br\<rparr>)" "br_ok br" "br_rest br = p @ rest" by auto
  let ?c1 = "?c\<lparr>cs_reader := br, cs_leftOverSize := int (length p)\<rparr>"
  have "cs_get gots (k, c) = cs_get gots (k, ?c1)"
    using c(4-6) assms(2,3) br(1) n nz
    by (auto simp: cs_get_def ChunkStreamReader_ReadMultiBuffer_def may_read_def read_chunk_part_def Let_def)
  with c br show ?thesis by (intro exI [of _ ?c1]) simp
qed

lemma get_end:
  assumes "cs_at c rest mx num"
    and "\<not> may_read mx num \<and> rest' = rest \<or> may_read mx num \<and> rest = [] \<and> rest' = []
      \<or> may_read mx num \<and> rest = be_put16 0 @ rest'"
  shows "\<exists>c'. cs_get gots (k, c) = Some ([], Some EOF, (Suc k, c')) \<and> br_ok (cs_reader c') \<and> br_rest (cs_reader c') = rest'"
proof -
  let ?c = "c\<lparr>cs_numChunk := num + 1\<rparr>"
  from assms(1) have c: "cs_sizeDecoder c = PlainChunkSizeDecoder" "br_ok (cs_reader c)"
    "br_rest (cs_reader c) = rest" "cs_leftOverSize c = 0" "cs_maxNumChunk c = mx" "cs_numChunk c = num"
    by (simp_all add: cs_at_def)
  from assms(2) consider "\<not> may_read mx num" "rest' = rest" | "may_read mx num" "rest = []" "rest' = []"
    | "may_read mx num" "rest = be_put16 0 @ rest'" by blast
  then show ?thesis
  proof cases
    case 1
    with c show ?thesis
      by (intro exI [of _ ?c]) (simp add: cs_get_def ChunkStreamReader_ReadMultiBuffer_def may_read_def Let_def)
  next
    case 2
    from readSize_end [of ?c] c 2(2) obtain br where
      "readSize ?c = Some (Inl EOF, ?c\<lparr>cs_reader := br\<rparr>)" "br_ok br" "br_rest br = []" by auto
    with 2 c show ?thesis
      by (intro exI [of _ "?c\<lparr>cs_reader := br\<rparr>"])
        (auto simp: cs_get_def ChunkStreamReader_ReadMultiBuffer_def may_read_def Let_def)
  next
    case 3
    from readSize_plain [of ?c 0 rest'] c 3(2) obtain br where
      "readSize ?c = Some (Inr 0, ?c\<lparr>cs_reader := br\<rparr>)" "br_ok br" "br_rest br = rest'" by auto
    with 3 c show ?thesis
      by (intro exI [of _ "?c\<lparr>cs_reader := br\<rparr>"])
        (auto simp: cs_get_def ChunkStreamReader_ReadMultiBuffer_def may_read_def Let_def)
  qed
qed

context mb_sink
begin

lemma copy_chunk:
  assumes "sok w" and "cs_at c (data_bytes p @ rest) mx num" and "may_read mx num" and "p \<noteq> []" and "length p < 65536"
  shows "\<exists>k' c' w' h'. copyInternal (cs_get gots) put onData (k, c) w h = copyInternal (cs_get gots) put onData (k', c') w' h'
     \<and> sok w' \<and> sent w' = sent w @ p \<and> cs_at c' rest mx (num + 1)"
proof -
  from get_next_chunk [OF assms(2-5), of gots k] obtain c1 where
    c1: "cs_get gots (k, c) = cs_get gots (k, c1)" "cs_sizeDecoder c1 = PlainChunkSizeDecoder"
    "br_ok (cs_reader c1)" "br_rest (cs_reader c1) = p @ rest" "cs_leftOverSize c1 = int (length p)"
    "cs_maxNumChunk c1 = mx" "cs_numChunk c1 = num + 1" by blast
  have "copyInternal (cs_get gots) put onData (k, c) w h = copyInternal (cs_get gots) put onData (k, c1) w h"
    using c1(1) by (simp add: copyInternal.simps [of _ _ _ "(k, c)"] copyInternal.simps [of _ _ _ "(k, c1)"])
  moreover have "0 < length p" using assms(4) by simp
  from copy_part [OF assms(1) c1(2,3) this assms(5) c1(5,4) refl, of gots onData k h] c1(6,7)
  obtain k' c' w' h' where
    "copyInternal (cs_get gots) put onData (k, c1) w h = copyInternal (cs_get gots) put onData (k', c') w' h'"
    "sok w'" "sent w' = sent w @ p" "cs_at c' rest mx (num + 1)" by auto
  ultimately show ?thesis by auto
qed

lemma copy_end:
  assumes "cs_at c rest mx num"
    and "\<not> may_read mx num \<and> rest' = rest \<or> may_read mx num \<and> rest = [] \<and> rest' = []
      \<or> may_read mx num \<and> rest = be_put16 0 @ rest'"
  shows "\<exists>c'. copyInternal (cs_get gots) put onData (k, c) w h = Some (readError EOF, (Suc k, c'), w, h)
    \<and> br_ok (cs_reader c') \<and> br_rest (cs_reader c') = rest'"
proof -
  from get_end [OF assms, of gots k] obtain c' where
    "cs_get gots (k, c) = Some ([], Some EOF, (Suc k, c'))" "br_ok (cs_reader c')" "br_rest (cs_reader c') = rest'" by blast
  then show ?thesis
    by (intro exI [of _ c']) (simp add: copyInternal.simps [of _ _ _ "(k, c)"] MultiBuffer_IsEmpty_def)
qed

lemma copy_stream:
  "\<lbrakk>sok w; cs_at c (concat (map data_bytes ps)) 0 num; list_all (\<lambda>p. p \<noteq> [] \<and> length p < 65536) ps\<rbrakk> \<Longrightarrow>
   \<exists>k' c' w' h'. copyInternal (cs_get gots) put onData (k, c) w h = Some (readError EOF, (k', c'), w', h')
     \<and> sok w' \<and> sent w' = sent w @ concat ps"
proof (induction ps arbitrary: c k w h num)
  case Nil
  then have "cs_at c [] 0 num" by simp
  from copy_end [OF this, of "[]" gots onData k w h] Nil.prems(1) show ?case by (auto simp: may_read_def)
next
  case (Cons p ps)
  have "cs_at c (data_bytes p @ concat (map data_bytes ps)) 0 num" using Cons.prems(2) by simp
  from copy_chunk [OF Cons.prems(1) this, of gots onData k h] Cons.prems(3) obtain k1 c1 w1 h1 where
    1: "copyInternal (cs_get gots) put onData (k, c) w h = copyInternal (cs_get gots) put onData (k1, c1) w1 h1"
    "sok w1" "sent w1 = sent w @ p" "cs_at c1 (concat (map data_bytes ps)) 0 (num + 1)"
    by (auto simp: may_read_def)
  from Cons.IH [OF 1(2,4), of k1 h1] Cons.prems(3) 1(1,3) show ?case by auto
qed

end

section \<open>Writing chunk streams\<close>

lemma PlainChunkSizeEncoder_sel [simp]:
  "enc_SizeBytes PlainChunkSizeEncoder = 2" "enc_Encode PlainChunkSizeEncoder = be_put16"
  by (simp_all add: PlainChunkSizeEncoder_def)

lemma size_buffer:
  "\<exists>b. Buffer_Extend (Buffer_New got) 2 = Some b \<and> buf_inv (Buffer_fill b 0 (be_put16 n))
     \<and> content (Buffer_fill b 0 (be_put16 n)) = be_put16 n"
proof -
  have "int (2::nat) \<le> Buffer_Available (Buffer_New got)" by simp
  from Buffer_Extend_grows [OF Buffer_New_inv(1) this] obtain b where
    b: "Buffer_Extend (Buffer_New got) 2 = Some b" "grows (Buffer_New got) ([] @ [0, 0] @ []) b" by (auto simp: numeral_2_eq_2)
  have "buf_start (Buffer_New got) = 0" by (simp add: Buffer_New_def)
  then have "grows (Buffer_New got) ([] @ be_put16 n @ []) (Buffer_fill b 0 (be_put16 n))"
    by (intro fill_grows [OF b(2) Buffer_New_inv(1)]) (simp_all add: Buffer_New_inv)
  with b(1) show ?thesis by (auto simp: grows_def Buffer_New_inv)
qed

lemma chunk_write_loop_spec:
  "\<lbrakk>list_all pooled mb; length (mcontent mb) < 2147483648; mb_inv acc\<rbrakk> \<Longrightarrow>
   \<exists>out ps. chunk_write_loop PlainChunkSizeEncoder gots k mb acc = Some out \<and> mb_inv out
     \<and> mcontent out = mcontent acc @ concat (map data_bytes ps) \<and> concat ps = mcontent mb
     \<and> (mcontent mb \<noteq> [] \<longrightarrow> list_all (\<lambda>p. p \<noteq> [] \<and> length p \<le> Size) ps)"
proof (induction "length (mcontent mb) + length mb" arbitrary: mb k acc rule: less_induct)
  case less
  have "0 < (8192 :: int)" by simp
  from SplitSize_pieces [OF less.prems(1) this less.prems(2), of "gots (2 * k)"] obtain rest r where
    sp: "SplitSize (gots (2 * k)) mb 8192 = Some (rest, r)" "mcontent r @ mcontent rest = mcontent mb"
    "list_all pooled rest" "list_all pooled r" "int (length (mcontent r)) \<le> 8192"
    "mb \<noteq> [] \<longrightarrow> length (mcontent rest) + length rest < length (mcontent mb) + length mb"
    "mcontent mb \<noteq> [] \<longrightarrow> mcontent r \<noteq> []" by auto
  note inv = pooled_inv [OF sp(4)]
  from size_buffer [of "gots (2 * k + 1)" "of_nat (length (mcontent r))"] obtain b where
    b: "Buffer_Extend (Buffer_New (gots (2 * k + 1))) 2 = Some b"
    "buf_inv (Buffer_fill b 0 (be_put16 (of_nat (length (mcontent r)))))"
    "content (Buffer_fill b 0 (be_put16 (of_nat (length (mcontent r))))) = be_put16 (of_nat (length (mcontent r)))" by blast
  have "word_of_int (MultiBuffer_Len r) = (of_nat (length (mcontent r)) :: u16)"
    using sp(5) by (simp add: MultiBuffer_Len_mcontent [OF inv])
  then have code: "chunk_write_loop PlainChunkSizeEncoder gots k mb acc =
      (let out = acc @ [Buffer_fill b 0 (be_put16 (of_nat (length (mcontent r))))] @ r
       in if mcontent rest = [] then Some out else chunk_write_loop PlainChunkSizeEncoder gots (Suc k) rest out)"
    using sp(1,3) b(1) by (simp add: chunk_write_loop.simps [of _ _ k] IsEmpty_pooled)
  define out where "out = acc @ [Buffer_fill b 0 (be_put16 (of_nat (length (mcontent r))))] @ r"
  have out: "mb_inv out" "mcontent out = mcontent acc @ data_bytes (mcontent r)"
    using less.prems(3) b(2,3) inv by (simp_all add: out_def data_bytes_def)
  show ?case
  proof (cases "mcontent rest = []")
    case True
    with code out sp(2,5,7) show ?thesis
      by (intro exI [of _ out] exI [of _ "[mcontent r]"]) (auto simp: out_def)
  next
    case False
    then have "mb \<noteq> []" "mcontent mb \<noteq> []" using sp(2) by auto
    moreover have "length (mcontent rest) < 2147483648"
      using less.prems(2) by (simp flip: sp(2))
    ultimately obtain out' ps where
      "chunk_write_loop PlainChunkSizeEncoder gots (Suc k) rest out = Some out'" "mb_inv out'"
      "mcontent out' = mcontent out @ concat (map data_bytes ps)" "concat ps = mcontent rest"
      "list_all (\<lambda>p. p \<noteq> [] \<and> length p \<le> Size) ps"
      using less.hyps [OF _ sp(3) _ out(1), of "Suc k"] sp(6) False by blast
    with code out(2) False sp(2,5,7) \<open>mcontent mb \<noteq> []\<close> show ?thesis
      by (intro exI [of _ out'] exI [of _ "mcontent r # ps"]) (auto simp: out_def)
  qed
qed

section \<open>Properties\<close>

text \<open>
  C14. A multi buffer written as a chunk stream and read back through a chunk reader gives the same bytes: the copy
  loop delivers exactly what was written and ends without an error, however the network cuts the
  written bytes into buffers on the way.
\<close>
theorem chunk_stream_roundtrip:
  assumes "list_all pooled mb" and "mcontent mb \<noteq> []" and "length (mcontent mb) < 2147483648"
  shows "\<exists>out. ChunkStreamWriter_WriteMultiBuffer PlainChunkSizeEncoder container_put gots [] mb = Some (None, out)
    \<and> (\<forall>r. br_ok r \<and> br_rest r = mcontent out \<longrightarrow>
        (\<exists>r' got h'. Copy (cs_get gots') container_put onData (0, NewChunkStreamReader PlainChunkSizeDecoder r) [] h =
           Some (None, r', got, h') \<and> mcontent got = mcontent mb))"
proof -
  from chunk_write_loop_spec [OF assms(1,3), of "[]" gots 0] assms(2) obtain out ps where
    o: "chunk_write_loop PlainChunkSizeEncoder gots 0 mb [] = Some out" "mb_inv out"
    "mcontent out = concat (map data_bytes ps)" "concat ps = mcontent mb" "list_all (\<lambda>p. p \<noteq> [] \<and> length p \<le> Size) ps" by auto
  have ps: "list_all (\<lambda>p. p \<noteq> [] \<and> length p < 65536) ps" using o(5) by (auto simp: list_all_iff)
  have "\<exists>r' got h'. Copy (cs_get gots') container_put onData (0, NewChunkStreamReader PlainChunkSizeDecoder r) [] h =
      Some (None, r', got, h') \<and> mcontent got = mcontent mb" if "br_ok r \<and> br_rest r = mcontent out" for r
  proof -
    have "cs_at (NewChunkStreamReader PlainChunkSizeDecoder r) (concat (map data_bytes ps)) 0 0"
      using that o(3) by (simp add: cs_at_def NewChunkStreamReader_def NewChunkStreamReaderWithChunkCount_def)
    from container_sink.copy_stream [OF _ this ps, of "[]" gots' onData 0 h] o(4) show ?thesis
      by (auto simp: Copy_def)
  qed
  with o(1) show ?thesis
    by (auto simp: ChunkStreamWriter_WriteMultiBuffer_def container_put_def Container_WriteMultiBuffer_def MergeMulti_def)
qed

theorem chunk_stream_roundtrip_witness:
  "\<exists>out. ChunkStreamWriter_WriteMultiBuffer PlainChunkSizeEncoder container_put (\<lambda>_. nil_slice) [] [FromBytes (sl_of [4, 5, 6])] = Some (None, out)
    \<and> (\<forall>r. br_ok r \<and> br_rest r = mcontent out \<longrightarrow>
        (\<exists>r' got h'. Copy (cs_get (\<lambda>_. nil_slice)) container_put [CountSize] (0, NewChunkStreamReader PlainChunkSizeDecoder r) [] 0 =
           Some (None, r', got, h') \<and> mcontent got = mcontent [FromBytes (sl_of [4, 5, 6])]))"
  by (rule chunk_stream_roundtrip) (use FromBytes_inv [of "sl_of [4, 5, 6]"] in \<open>simp_all add: pooled_def\<close>)

text \<open>
  The reader of a multiplexed stream frame takes exactly one chunk: copying through it delivers the chunk's payload and
  leaves the connection's reader at the first byte after the chunk, so that the next frame is read from the right place.
\<close>
theorem single_chunk_copy:
  assumes "br_ok r" and "br_rest r = data_bytes p @ rest" and "length p < 65536"
  shows "\<exists>k c got h'. Copy (cs_get gots) container_put onData
      (0, NewChunkStreamReaderWithChunkCount PlainChunkSizeDecoder r 1) [] h = Some (None, (k, c), got, h')
    \<and> mcontent got = p \<and> br_ok (cs_reader c) \<and> br_rest (cs_reader c) = rest"
proof -
  let ?c = "NewChunkStreamReaderWithChunkCount PlainChunkSizeDecoder r 1"
  have at: "cs_at ?c (data_bytes p @ rest) 1 0"
    using assms(1,2) by (simp add: cs_at_def NewChunkStreamReaderWithChunkCount_def)
  show ?thesis
  proof (cases "p = []")
    case True
    with at have "cs_at ?c (be_put16 0 @ rest) 1 0" by (simp add: data_bytes_def)
    from container_sink.copy_end [OF this, of rest gots onData 0 "[]" h] True show ?thesis
      by (auto simp: Copy_def may_read_def)
  next
    case False
    from container_sink.copy_chunk [OF _ at _ False assms(3), of "[]" gots onData 0 h] obtain k c w h1 where
      1: "copyInternal (cs_get gots) container_put onData (0, ?c) [] h = copyInternal (cs_get gots) container_put onData (k, c) w h1"
      "mcontent w = p" "cs_at c rest 1 1" by (auto simp: may_read_def)
    have "\<not> may_read 1 1" by (simp add: may_read_def word_less_nat_alt)
    with container_sink.copy_end [OF 1(3), of rest gots onData k w h1] 1(1,2) show ?thesis by (auto simp: Copy_def)
  qed
qed

theorem single_chunk_copy_witness:
  "\<exists>k c got h'. Copy (cs_get (\<lambda>_. nil_slice)) container_put [CountSize]
      (0, NewChunkStreamReaderWithChunkCount PlainChunkSizeDecoder
        \<lparr>br_Reader = \<lparr>src_reads = [([FromBytes (sl_of [0, 2, 7])], None), ([FromBytes (sl_of [8, 9])], None)], src_end = EOF\<rparr>,
         br_Buffer = [], br_Splitter = None\<rparr> 1) [] 0 = Some (None, (k, c), got, h')
    \<and> mcontent got = [7, 8] \<and> br_ok (cs_reader c) \<and> br_rest (cs_reader c) = [9]"
  by (rule single_chunk_copy)
    (use FromBytes_inv [of "sl_of [0, 2, 7]"] FromBytes_inv [of "sl_of [8, 9]"] in
      \<open>simp_all add: br_ok_def br_rest_def br_bufs_def pooled_def data_bytes_def be_put16_def\<close>)

end
