(* ===== verification/Buf_Writer.thy ===== *)
theory Buf_Writer
  imports Buf_IO
begin

text \<open>
  \<^verbatim>\<open>BufferedWriter\<close> of \<^verbatim>\<open>common/buf/writer.go\<close> with the writers it can sit on, and the single-shot readers
  of \<^verbatim>\<open>reader.go\<close>. The locale \<open>byte_sink\<close> extends \<open>mb_sink\<close> by the optional \<^verbatim>\<open>io.Writer\<close> interface of the writer below.
\<close>

section \<open>Writers below\<close>

text \<open>
  The \<^verbatim>\<open>io.Writer\<close> interface of a writer, when it has one: the number of bytes taken and the error.
\<close>

type_synonym 'w io_write = "'w \<Rightarrow> byte list \<Rightarrow> (nat \<times> go_error option \<times> 'w) go"

partial_function (option) WriteAllBytes :: "'w io_write \<Rightarrow> 'w \<Rightarrow> byte list \<Rightarrow> (go_error option \<times> 'w) go" where
  "WriteAllBytes io w payload =
     (if payload = [] then Some (None, w)
      else Option.bind (io w payload) (\<lambda>(n, err, w').
        if err \<noteq> None then Some (err, w')
        else if length payload < n then None
        else WriteAllBytes io w' (drop n payload)))"

locale byte_sink = mb_sink +
  fixes io :: "'a io_write option"
  assumes io_all: "io = Some f \<Longrightarrow> sok s \<Longrightarrow>
      \<exists>s'. f s bs = Some (length bs, None, s') \<and> sok s' \<and> sent s' = sent s @ bs"

text \<open>A container is both, with and without the second interface.\<close>

definition container_io :: "(nat \<Rightarrow> slice) \<Rightarrow> MultiBuffer io_write" where
  "container_io gots c bs = Container_Write gots c bs"

interpretation container_byte_sink: byte_sink container_put mb_inv mcontent "Some (container_io gots)" for gots
proof unfold_locales
  fix f s and bs :: "byte list"
  assume "Some (container_io gots) = Some f" and "mb_inv s"
  with MergeBytes_spec [of s gots bs] show
    "\<exists>s'. f s bs = Some (length bs, None, s') \<and> mb_inv s' \<and> mcontent s' = mcontent s @ bs"
    by (auto simp: container_io_def Container_Write_def)
qed

interpretation container_mb_sink: byte_sink container_put mb_inv mcontent None
  by unfold_locales simp

section \<open>BufferedWriter\<close>

record BufferedWriter =
  bw_buffer :: "Buffer option"
  bw_buffered :: bool
  bw_flushNext :: bool

definition NewBufferedWriter :: "slice \<Rightarrow> BufferedWriter" where
  "NewBufferedWriter got = \<lparr>bw_buffer = Some (Buffer_New got), bw_buffered = True, bw_flushNext = False\<rparr>"

definition opt_IsEmpty :: "Buffer option \<Rightarrow> bool" where
  "opt_IsEmpty b = (case b of None \<Rightarrow> True | Some b \<Rightarrow> Buffer_IsEmpty b)"

definition flushInternal ::
  "'w mb_put \<Rightarrow> 'w io_write option \<Rightarrow> BufferedWriter \<Rightarrow> 'w \<Rightarrow> (go_error option \<times> BufferedWriter \<times> 'w) go" where
  "flushInternal put io w s =
     (if opt_IsEmpty (bw_buffer w) then Some (None, w, s)
      else case bw_buffer w of
        None \<Rightarrow> None
      | Some b \<Rightarrow>
          let w = w\<lparr>bw_buffer := None\<rparr> in
          case io of
            Some f \<Rightarrow> do {
              bs \<leftarrow> Buffer_Bytes b;
              (err, s) \<leftarrow> WriteAllBytes f s bs;
              Some (err, w, s)
            }
          | None \<Rightarrow> do { (err, s) \<leftarrow> put s [b]; Some (err, w, s) })"

text \<open>The loop of \<^verbatim>\<open>Write\<close>; \<open>tot\<close> counts the bytes taken, \<open>k\<close> the buffers allocated.\<close>

partial_function (option) bw_write_loop ::
  "'w mb_put \<Rightarrow> 'w io_write option \<Rightarrow> (nat \<Rightarrow> slice) \<Rightarrow> nat \<Rightarrow> BufferedWriter \<Rightarrow> 'w \<Rightarrow> byte list \<Rightarrow> nat
     \<Rightarrow> (nat \<times> go_error option \<times> BufferedWriter \<times> 'w) go" where
  "bw_write_loop put io gots k w s bs tot =
     (if bs = [] then Some (tot, None, w, s)
      else
        let buffer = (case bw_buffer w of None \<Rightarrow> Buffer_New (gots k) | Some b \<Rightarrow> b) in
        Option.bind (Buffer_Write buffer bs) (\<lambda>(n, err, buffer').
          let w' = w\<lparr>bw_buffer := Some buffer'\<rparr> in
          if err \<noteq> None then Some (tot + n, err, w', s)
          else if \<not> bw_buffered w' \<or> Buffer_IsFull buffer' then
            Option.bind (flushInternal put io w' s) (\<lambda>(err, w'', s').
              if err \<noteq> None then Some (tot + n, err, w'', s')
              else bw_write_loop put io gots (Suc k) w'' s' (drop n bs) (tot + n))
          else bw_write_loop put io gots (Suc k) w' s (drop n bs) (tot + n)))"

definition BufferedWriter_Write ::
  "'w mb_put \<Rightarrow> 'w io_write option \<Rightarrow> (nat \<Rightarrow> slice) \<Rightarrow> BufferedWriter \<Rightarrow> 'w \<Rightarrow> byte list
     \<Rightarrow> (nat \<times> go_error option \<times> BufferedWriter \<times> 'w) go" where
  "BufferedWriter_Write put io gots w s b =
     (if b = [] then Some (0, None, w, s)
      else case io of
        Some f \<Rightarrow>
          if \<not> bw_buffered w then do { (n, err, s) \<leftarrow> f s b; Some (n, err, w, s) }
          else bw_write_loop put io gots 0 w s b 0
      | None \<Rightarrow> bw_write_loop put io gots 0 w s b 0)"

definition BufferedWriter_WriteByte ::
  "'w mb_put \<Rightarrow> 'w io_write option \<Rightarrow> (nat \<Rightarrow> slice) \<Rightarrow> BufferedWriter \<Rightarrow> 'w \<Rightarrow> byte
     \<Rightarrow> (go_error option \<times> BufferedWriter \<times> 'w) go" where
  "BufferedWriter_WriteByte put io gots w s c = do {
     (_, err, w, s) \<leftarrow> BufferedWriter_Write put io gots w s [c];
     Some (err, w, s)
   }"

text \<open>
  The loop of \<^verbatim>\<open>WriteMultiBuffer\<close>: the buffer is filled from the container that holds the argument, by one
  \<^verbatim>\<open>Read\<close> of the container per round. \<^verbatim>\<open>common.Must2\<close> makes a read error a panic.
\<close>

partial_function (option) bw_fill_loop ::
  "'w mb_put \<Rightarrow> 'w io_write option \<Rightarrow> (nat \<Rightarrow> slice) \<Rightarrow> nat \<Rightarrow> BufferedWriter \<Rightarrow> 'w \<Rightarrow> MultiBuffer
     \<Rightarrow> (go_error option \<times> BufferedWriter \<times> 'w) go" where
  "bw_fill_loop put io gots k w s c =
     (if MultiBuffer_IsEmpty c then Some (None, w, s)
      else
        let buffer = (case bw_buffer w of None \<Rightarrow> Buffer_New (gots k) | Some b \<Rightarrow> b) in
        Option.bind (Container_Read c (sl_len (buf_v buffer) - nat (buf_end buffer))) (\<lambda>(bs, err, c').
        Option.bind (Buffer_ReadFrom buffer (\<lambda>_. (bs, err))) (\<lambda>(n, err, buffer').
          if err \<noteq> None then None
          else let w' = w\<lparr>bw_buffer := Some buffer'\<rparr> in
            if Buffer_IsFull buffer' then
              Option.bind (flushInternal put io w' s) (\<lambda>(err, w'', s').
                if err \<noteq> None then Some (err, w'', s')
                else bw_fill_loop put io gots (Suc k) w'' s' c')
            else bw_fill_loop put io gots (Suc k) w' s c')))"

definition BufferedWriter_WriteMultiBuffer ::
  "'w mb_put \<Rightarrow> 'w io_write option \<Rightarrow> (nat \<Rightarrow> slice) \<Rightarrow> BufferedWriter \<Rightarrow> 'w \<Rightarrow> MultiBuffer
     \<Rightarrow> (go_error option \<times> BufferedWriter \<times> 'w) go" where
  "BufferedWriter_WriteMultiBuffer put io gots w s b =
     (if MultiBuffer_IsEmpty b then Some (None, w, s)
      else if \<not> bw_buffered w then do { (err, s) \<leftarrow> put s b; Some (err, w, s) }
      else do {
        (err, w, s) \<leftarrow> bw_fill_loop put io gots 0 w s b;
        if err \<noteq> None then Some (err, w, s)
        else if bw_flushNext w then flushInternal put io (w\<lparr>bw_buffered := False, bw_flushNext := False\<rparr>) s
        else Some (None, w, s)
      })"

definition BufferedWriter_Flush ::
  "'w mb_put \<Rightarrow> 'w io_write option \<Rightarrow> BufferedWriter \<Rightarrow> 'w \<Rightarrow> (go_error option \<times> BufferedWriter \<times> 'w) go" where
  "BufferedWriter_Flush put io w s = flushInternal put io w s"

definition SetBuffered ::
  "'w mb_put \<Rightarrow> 'w io_write option \<Rightarrow> BufferedWriter \<Rightarrow> 'w \<Rightarrow> bool \<Rightarrow> (go_error option \<times> BufferedWriter \<times> 'w) go" where
  "SetBuffered put io w s f =
     (let w = w\<lparr>bw_buffered := f\<rparr> in if \<not> f then flushInternal put io w s else Some (None, w, s))"

definition SetFlushNext :: "BufferedWriter \<Rightarrow> BufferedWriter" where
  "SetFlushNext w = w\<lparr>bw_flushNext := True\<rparr>"

section \<open>Sequences of calls\<close>

datatype bw_op = BwWrite "byte list" | BwWriteByte byte | BwWriteMultiBuffer MultiBuffer | BwFlush
  | BwSetBuffered bool | BwSetFlushNext

text \<open>One call: the bytes it accepted, its error, and the new states.\<close>

fun bw_step ::
  "'w mb_put \<Rightarrow> 'w io_write option \<Rightarrow> (nat \<Rightarrow> slice) \<Rightarrow> BufferedWriter \<Rightarrow> 'w \<Rightarrow> bw_op
     \<Rightarrow> (byte list \<times> go_error option \<times> BufferedWriter \<times> 'w) go" where
  "bw_step put io gots w s (BwWrite bs) = do {
     (n, err, w, s) \<leftarrow> BufferedWriter_Write put io gots w s bs; Some (take n bs, err, w, s) }"
| "bw_step put io gots w s (BwWriteByte c) = do {
     (err, w, s) \<leftarrow> BufferedWriter_WriteByte put io gots w s c; Some (if err = None then [c] else [], err, w, s) }"
| "bw_step put io gots w s (BwWriteMultiBuffer mb) = do {
     (err, w, s) \<leftarrow> BufferedWriter_WriteMultiBuffer put io gots w s mb; Some (mcontent mb, err, w, s) }"
| "bw_step put io gots w s BwFlush = do { (err, w, s) \<leftarrow> BufferedWriter_Flush put io w s; Some ([], err, w, s) }"
| "bw_step put io gots w s (BwSetBuffered f) = do { (err, w, s) \<leftarrow> SetBuffered put io w s f; Some ([], err, w, s) }"
| "bw_step put io gots w s BwSetFlushNext = Some ([], None, SetFlushNext w, s)"

text \<open>A client that stops at the first error.\<close>

fun bw_run ::
  "'w mb_put \<Rightarrow> 'w io_write option \<Rightarrow> (nat \<Rightarrow> nat \<Rightarrow> slice) \<Rightarrow> nat \<Rightarrow> BufferedWriter \<Rightarrow> 'w \<Rightarrow> bw_op list
     \<Rightarrow> (byte list \<times> go_error option \<times> BufferedWriter \<times> 'w) go" where
  "bw_run put io gots j w s [] = Some ([], None, w, s)"
| "bw_run put io gots j w s (op # ops) = do {
     (acc, err, w, s) \<leftarrow> bw_step put io (gots j) w s op;
     if err \<noteq> None then Some (acc, err, w, s)
     else do {
       (accs, err, w, s) \<leftarrow> bw_run put io gots (Suc j) w s ops;
       Some (acc @ accs, err, w, s)
     } }"

section \<open>The buffered bytes\<close>

definition held :: "BufferedWriter \<Rightarrow> byte list" where
  "held w = (case bw_buffer w of None \<Rightarrow> [] | Some b \<Rightarrow> content b)"

text \<open>A pooled buffer that starts at its first byte.\<close>

definition at_start :: "Buffer \<Rightarrow> bool" where
  "at_start b \<longleftrightarrow> buf_inv b \<and> buf_start b = 0 \<and> sl_len (buf_v b) = Size"

definition bw_inv :: "BufferedWriter \<Rightarrow> bool" where
  "bw_inv w \<longleftrightarrow> (\<forall>b. bw_buffer w = Some b \<longrightarrow> at_start b \<and> length (content b) < Size)
     \<and> (\<not> bw_buffered w \<longrightarrow> held w = [])"

definition cur_buffer :: "slice \<Rightarrow> BufferedWriter \<Rightarrow> Buffer" where
  "cur_buffer got w = (case bw_buffer w of None \<Rightarrow> Buffer_New got | Some b \<Rightarrow> b)"

lemma at_start_New: "at_start (Buffer_New got)"
  by (simp add: at_start_def Buffer_New_inv) (simp add: Buffer_New_def)

lemma at_start_room: "at_start b \<Longrightarrow> Buffer_Available b = int Size - int (length (content b))"
  by (simp add: at_start_def Buffer_Available_end)

lemma cur_buffer_at_start:
  "\<forall>b. bw_buffer w = Some b \<longrightarrow> at_start b \<and> length (content b) < Size \<Longrightarrow>
     at_start (cur_buffer got w) \<and> content (cur_buffer got w) = held w \<and> length (held w) < Size"
  by (auto simp: cur_buffer_def held_def at_start_New Buffer_New_inv split: option.split)

lemma at_start_full: "at_start b \<Longrightarrow> Buffer_IsFull b \<longleftrightarrow> length (content b) = Size"
  by (auto simp: at_start_def Buffer_IsFull_inv buf_end_content)

lemma Buffer_Write_at_start:
  assumes "at_start b"
  shows "\<exists>b'. Buffer_Write b bs = Some (min (Size - length (content b)) (length bs),
      if Size - length (content b) < length bs then Some ErrBufferFull else None, b')
    \<and> at_start b' \<and> content b' = content b @ take (Size - length (content b)) bs"
proof -
  have inv: "buf_inv b" using assms by (simp add: at_start_def)
  have av: "nat (Buffer_Available b) = Size - length (content b)" using at_start_room [OF assms] by simp
  from Buffer_Write_spec [OF inv, of bs] obtain b' where
    b': "Buffer_Write b bs = Some (min (Size - length (content b)) (length bs),
      if Size - length (content b) < length bs then Some ErrBufferFull else None, b')"
    "buf_inv b'" "content b' = content b @ take (Size - length (content b)) bs" "sl_len (buf_v b') = sl_len (buf_v b)"
    unfolding av by blast
  from b'(1) have "buf_start b' = buf_start b"
    by (auto simp: Buffer_Write_def Buffer_fill_def Let_def split: if_splits)
  with b' assms show ?thesis by (auto simp: at_start_def)
qed

lemma Buffer_ReadFrom_at_start:
  assumes "at_start b" and "length bs \<le> Size - length (content b)"
  shows "\<exists>b'. Buffer_ReadFrom b (\<lambda>_. (bs, err)) = Some (length bs, err, b') \<and> at_start b' \<and> content b' = content b @ bs"
proof -
  let ?b = "Buffer_fill b (buf_end b) bs \<lparr>buf_end := buf_end b + int (length bs)\<rparr>"
  have inv: "buf_inv b" and st: "buf_start b = 0" "sl_len (buf_v b) = Size" using assms by (simp_all add: at_start_def)
  have e: "buf_end b = int (length (content b))" using buf_end_content [OF inv] st by simp
  have le: "length (content b) \<le> Size" using inv e st(2) by (simp add: buf_inv_defs)
  have fits: "nat (buf_end b) + length bs \<le> sl_len (buf_v b)" using e assms(2) st(2) le by simp
  have ids: "int32 (int (length bs)) = int (length bs)" "int32 (buf_end b + int (length bs)) = buf_end b + int (length bs)"
    using e assms(2) le by (auto intro!: int32_id)
  have "Buffer_ReadFrom b (\<lambda>_. (bs, err)) = Some (length bs, err, ?b)"
    using e le st(2) ids by (simp add: Buffer_ReadFrom_def)
  moreover have "at_start ?b" "content ?b = content b @ bs"
    using append_at_end [OF inv fits] st by (simp_all add: at_start_def)
  ultimately show ?thesis by blast
qed

context byte_sink
begin

lemma WriteAllBytes_all:
  assumes "io = Some f" and "sok s"
  shows "\<exists>s'. WriteAllBytes f s bs = Some (None, s') \<and> sok s' \<and> sent s' = sent s @ bs"
proof (cases "bs = []")
  case True
  with assms(2) show ?thesis by (simp add: WriteAllBytes.simps)
next
  case False
  from io_all [OF assms, of bs] obtain s' where
    s': "f s bs = Some (length bs, None, s')" "sok s'" "sent s' = sent s @ bs" by blast
  with False show ?thesis by (simp add: WriteAllBytes.simps [of f s] WriteAllBytes.simps [of f s'])
qed

lemma flush_spec:
  assumes "sok s" and "\<forall>b. bw_buffer w = Some b \<longrightarrow> buf_inv b"
  shows "\<exists>w' s'. flushInternal put io w s = Some (None, w', s') \<and> sok s' \<and> sent s' = sent s @ held w
    \<and> held w' = [] \<and> (w' = w \<and> held w = [] \<or> w' = w\<lparr>bw_buffer := None\<rparr>)"
proof (cases "held w = []")
  case True
  then have "opt_IsEmpty (bw_buffer w)"
    using assms(2) by (auto simp: opt_IsEmpty_def held_def Buffer_IsEmpty_content split: option.splits)
  with True assms(1) show ?thesis by (simp add: flushInternal_def)
next
  case False
  then obtain b where b: "bw_buffer w = Some b" "held w = content b" "content b \<noteq> []"
    by (cases "bw_buffer w") (auto simp: held_def)
  with assms(2) have inv: "buf_inv b" by blast
  have ne: "\<not> opt_IsEmpty (bw_buffer w)" using b inv by (simp add: opt_IsEmpty_def Buffer_IsEmpty_content)
  show ?thesis
  proof (cases io)
    case None
    have "mb_inv [b]" using inv by simp
    from put_all [OF assms(1) this] None ne b show ?thesis by (auto simp: flushInternal_def held_def Let_def)
  next
    case (Some f)
    from WriteAllBytes_all [OF Some assms(1), of "content b"] Some ne b inv show ?thesis
      by (auto simp: flushInternal_def held_def Let_def Buffer_Bytes_content)
  qed
qed

lemma write_loop_spec:
  assumes "sok s" and "bw_inv w" and "bs \<noteq> []"
  shows "\<exists>n err w' s'. bw_write_loop put io gots k w s bs 0 = Some (n, err, w', s') \<and> sok s'
    \<and> sent s' @ held w' = sent s @ held w @ take n bs \<and> (err = None \<longrightarrow> bw_inv w' \<and> n = length bs)
    \<and> (err = None \<longleftrightarrow> length (held w @ bs) \<le> Size) \<and> err \<in> {None, Some ErrBufferFull}
    \<and> (err \<noteq> None \<longrightarrow> n = Size - length (held w) \<and> s' = s)"
proof -
  let ?b = "cur_buffer (gots k) w"
  have inv: "\<forall>b. bw_buffer w = Some b \<longrightarrow> at_start b \<and> length (content b) < Size" using assms(2) by (simp add: bw_inv_def)
  have b: "at_start ?b" "content ?b = held w" "length (held w) < Size" using cur_buffer_at_start [OF inv] by auto
  let ?a = "Size - length (held w)"
  from Buffer_Write_at_start [OF b(1), of bs] b(2) obtain b' where
    b': "Buffer_Write ?b bs = Some (min ?a (length bs), if ?a < length bs then Some ErrBufferFull else None, b')"
    "at_start b'" "content b' = held w @ take ?a bs" by auto
  define w' where "w' = w\<lparr>bw_buffer := Some b'\<rparr>"
  have hw: "held w' = held w @ take ?a bs" using b'(3) by (simp add: held_def w'_def)
  note code = bw_write_loop.simps [of put io gots k w s bs 0, folded cur_buffer_def]
  show ?thesis
  proof (cases "?a < length bs")
    case True
    with code b'(1) assms(3) have "bw_write_loop put io gots k w s bs 0 = Some (?a, Some ErrBufferFull, w', s)"
      by (simp add: w'_def)
    with True hw assms(1) b(3) show ?thesis by auto
  next
    case fits: False
    then have hw: "held w' = held w @ bs" and le: "length (held w @ bs) \<le> Size" using hw b(3) by auto
    show ?thesis
    proof (cases "\<not> bw_buffered w \<or> Buffer_IsFull b'")
      case True
      have "\<forall>b. bw_buffer w' = Some b \<longrightarrow> buf_inv b" using b'(2) by (simp add: w'_def at_start_def)
      from flush_spec [OF assms(1) this] obtain w2 s2 where
        f: "flushInternal put io w' s = Some (None, w2, s2)" "sok s2" "sent s2 = sent s @ held w'" "held w2 = []"
        "w2 = w' \<and> held w' = [] \<or> w2 = w'\<lparr>bw_buffer := None\<rparr>" by blast
      have "held w' \<noteq> []" using hw assms(3) by simp
      with f(5) have inv2: "bw_inv w2" by (auto simp: bw_inv_def held_def)
      have "bw_write_loop put io gots k w s bs 0 = bw_write_loop put io gots (Suc k) w2 s2 [] (length bs)"
        using code b'(1) assms(3) fits True f(1) by (auto simp: w'_def min_def)
      also have "\<dots> = Some (length bs, None, w2, s2)" by (simp add: bw_write_loop.simps [of _ _ _ _ _ _ "[]"])
      finally show ?thesis using f inv2 hw le by auto
    next
      case False
      have "bw_write_loop put io gots k w s bs 0 = bw_write_loop put io gots (Suc k) w' s [] (length bs)"
        using code b'(1) assms(3) fits False by (auto simp: w'_def min_def)
      also have "\<dots> = Some (length bs, None, w', s)" by (simp add: bw_write_loop.simps [of _ _ _ _ _ _ "[]"])
      moreover have "length (held w') \<noteq> Size" using False at_start_full [OF b'(2)] by (simp add: held_def w'_def)
      then have "bw_inv w'" using b'(2) le hw False by (auto simp: bw_inv_def w'_def held_def)
      ultimately show ?thesis using assms(1) hw le by auto
    qed
  qed
qed

lemma fill_loop_spec:
  "\<lbrakk>sok s; \<forall>b. bw_buffer w = Some b \<longrightarrow> at_start b \<and> length (content b) < Size; mb_inv c\<rbrakk> \<Longrightarrow>
   \<exists>w' s'. bw_fill_loop put io gots k w s c = Some (None, w', s') \<and> sok s'
     \<and> sent s' @ held w' = sent s @ held w @ mcontent c
     \<and> (\<forall>b. bw_buffer w' = Some b \<longrightarrow> at_start b \<and> length (content b) < Size)
     \<and> bw_buffered w' = bw_buffered w \<and> bw_flushNext w' = bw_flushNext w"
proof (induction "length (mcontent c)" arbitrary: c k w s rule: less_induct)
  case less
  show ?case
  proof (cases "mcontent c = []")
    case True
    with less.prems show ?thesis by (simp add: bw_fill_loop.simps [of put io gots k w s c] MultiBuffer_IsEmpty_mcontent)
  next
    case False
    let ?b = "cur_buffer (gots k) w"
    have b: "at_start ?b" "content ?b = held w" "length (held w) < Size" using cur_buffer_at_start [OF less.prems(2)] by auto
    let ?a = "Size - length (held w)"
    have binv: "buf_inv ?b" "buf_start ?b = 0" "sl_len (buf_v ?b) = Size" using b(1) by (simp_all add: at_start_def)
    have room: "sl_len (buf_v ?b) - nat (buf_end ?b) = ?a"
      using buf_end_content [OF binv(1)] binv(2,3) b(2) by simp
    from SplitBytes_spec [OF less.prems(3), of ?a] obtain c' rel where
      sp: "SplitBytes c ?a = Some (c', take ?a (mcontent c), rel)" "mb_inv c'" "mcontent c' = drop ?a (mcontent c)" by blast
    let ?bs = "take ?a (mcontent c)"
    have cr: "Container_Read c ?a = Some (?bs, None, c')"
      using sp(1) False less.prems(3) by (simp add: Container_Read_def MultiBuffer_IsEmpty_mcontent)
    have "length ?bs \<le> Size - length (content ?b)" using b(2) by simp
    from Buffer_ReadFrom_at_start [OF b(1) this, of None] obtain b' where
      b': "Buffer_ReadFrom ?b (\<lambda>_. (?bs, None)) = Some (length ?bs, None, b')" "at_start b'" "content b' = held w @ ?bs"
      using b(2) by auto
    define w1 where "w1 = w\<lparr>bw_buffer := Some b'\<rparr>"
    have h1: "held w1 = held w @ ?bs" using b'(3) by (simp add: held_def w1_def)
    have shrink: "length (mcontent c') < length (mcontent c)" using sp(3) False b(3) by (cases "mcontent c") auto
    note code = bw_fill_loop.simps [of put io gots k w s c, folded cur_buffer_def]
    show ?thesis
    proof (cases "Buffer_IsFull b'")
      case True
      have "\<forall>b. bw_buffer w1 = Some b \<longrightarrow> buf_inv b" using b'(2) by (simp add: w1_def at_start_def)
      from flush_spec [OF less.prems(1) this] obtain w2 s2 where
        f: "flushInternal put io w1 s = Some (None, w2, s2)" "sok s2" "sent s2 = sent s @ held w1" "held w2 = []"
        "w2 = w1 \<and> held w1 = [] \<or> w2 = w1\<lparr>bw_buffer := None\<rparr>" by blast
      have "held w1 \<noteq> []" using True at_start_full [OF b'(2)] h1 b'(3) by auto
      with f(5) have w2: "bw_buffer w2 = None" "bw_buffered w2 = bw_buffered w" "bw_flushNext w2 = bw_flushNext w"
        by (auto simp: w1_def)
      have "bw_fill_loop put io gots k w s c = bw_fill_loop put io gots (Suc k) w2 s2 c'"
        using code room cr b'(1) True f(1) False less.prems(3) by (simp add: MultiBuffer_IsEmpty_mcontent w1_def Let_def)
      moreover obtain w3 s3 where "bw_fill_loop put io gots (Suc k) w2 s2 c' = Some (None, w3, s3)" "sok s3"
        "sent s3 @ held w3 = sent s2 @ held w2 @ mcontent c'"
        "\<forall>b. bw_buffer w3 = Some b \<longrightarrow> at_start b \<and> length (content b) < Size"
        "bw_buffered w3 = bw_buffered w2" "bw_flushNext w3 = bw_flushNext w2"
        using less.hyps [OF shrink f(2) _ sp(2), of w2 "Suc k"] w2(1) by auto
      ultimately show ?thesis using f(3,4) h1 sp(3) w2 by auto
    next
      case notfull: False
      have "length (content b') \<noteq> Size" using notfull at_start_full [OF b'(2)] by simp
      moreover have "length (content b') \<le> Size" using b'(3) b(3) by simp
      ultimately have ok: "\<forall>b. bw_buffer w1 = Some b \<longrightarrow> at_start b \<and> length (content b) < Size"
        using b'(2) by (simp add: w1_def)
      have "bw_fill_loop put io gots k w s c = bw_fill_loop put io gots (Suc k) w1 s c'"
        using code room cr b'(1) notfull False less.prems(3) by (simp add: MultiBuffer_IsEmpty_mcontent w1_def Let_def)
      moreover from less.hyps [OF shrink less.prems(1) ok sp(2), of "Suc k"] obtain w3 s3 where
        "bw_fill_loop put io gots (Suc k) w1 s c' = Some (None, w3, s3)" "sok s3"
        "sent s3 @ held w3 = sent s @ held w1 @ mcontent c'"
        "\<forall>b. bw_buffer w3 = Some b \<longrightarrow> at_start b \<and> length (content b) < Size"
        "bw_buffered w3 = bw_buffered w1" "bw_flushNext w3 = bw_flushNext w1" by blast
      ultimately show ?thesis using h1 sp(3) by (auto simp: w1_def)
    qed
  qed
qed

lemma flush_inv:
  assumes "sok s" and "\<forall>b. bw_buffer w = Some b \<longrightarrow> at_start b \<and> length (content b) < Size"
  shows "\<exists>w' s'. flushInternal put io w s = Some (None, w', s') \<and> sok s' \<and> sent s' = sent s @ held w
    \<and> held w' = [] \<and> bw_inv w'"
proof -
  have "\<forall>b. bw_buffer w = Some b \<longrightarrow> buf_inv b" using assms(2) by (simp add: at_start_def)
  from flush_spec [OF assms(1) this] assms(2) show ?thesis by (fastforce simp: bw_inv_def held_def)
qed

definition step_ok :: "byte list \<Rightarrow> byte list \<times> go_error option \<times> BufferedWriter \<times> 'a \<Rightarrow> bool" where
  "step_ok before = (\<lambda>(acc, err, w, s). sok s \<and> sent s @ held w = before @ acc \<and> (err = None \<longrightarrow> bw_inv w)
     \<and> err \<in> {None, Some ErrBufferFull})"

lemma step_spec:
  assumes "sok s" and "bw_inv w" and "\<And>mb. op = BwWriteMultiBuffer mb \<Longrightarrow> mb_inv mb"
  shows "\<exists>res. bw_step put io gots w s op = Some res \<and> step_ok (sent s @ held w) res"
proof -
  have inv: "\<forall>b. bw_buffer w = Some b \<longrightarrow> at_start b \<and> length (content b) < Size"
    "\<not> bw_buffered w \<longrightarrow> held w = []" using assms(2) by (simp_all add: bw_inv_def)
  have wr1: "\<exists>n err w' s'. BufferedWriter_Write put io gots w s bs = Some (n, err, w', s')
      \<and> step_ok (sent s @ held w) (take n bs, err, w', s') \<and> (length bs = 1 \<longrightarrow> err = None \<and> n = 1)" for bs
  proof (cases "bs = [] \<or> (\<exists>f. io = Some f) \<and> \<not> bw_buffered w")
    case True
    then show ?thesis
      using io_all [OF _ assms(1), of _ bs] assms(1,2) inv(2)
      by (auto simp: BufferedWriter_Write_def step_ok_def)
  next
    case False
    then have "BufferedWriter_Write put io gots w s bs = bw_write_loop put io gots 0 w s bs 0"
      by (auto simp: BufferedWriter_Write_def split: option.splits)
    moreover have "length (held w) < Size" using cur_buffer_at_start [OF inv(1)] by auto
    ultimately show ?thesis
      using write_loop_spec [OF assms(1,2), of bs gots 0] False by (fastforce simp: step_ok_def)
  qed
  show ?thesis
  proof (cases op)
    case (BwWrite bs)
    with wr1 [of bs] show ?thesis by auto
  next
    case (BwWriteByte c)
    with wr1 [of "[c]"] show ?thesis by (auto simp: BufferedWriter_WriteByte_def)
  next
    case (BwWriteMultiBuffer mb)
    with assms(3) have mb: "mb_inv mb" by simp
    show ?thesis
    proof (cases "mcontent mb = [] \<or> \<not> bw_buffered w")
      case True
      with put_all [OF assms(1) mb] mb BwWriteMultiBuffer assms(1,2) inv(2) show ?thesis
        by (auto simp: BufferedWriter_WriteMultiBuffer_def MultiBuffer_IsEmpty_mcontent step_ok_def)
    next
      case False
      from fill_loop_spec [OF assms(1) inv(1) mb, of gots 0] obtain w1 s1 where
        f: "bw_fill_loop put io gots 0 w s mb = Some (None, w1, s1)" "sok s1"
        "sent s1 @ held w1 = sent s @ held w @ mcontent mb"
        "\<forall>b. bw_buffer w1 = Some b \<longrightarrow> at_start b \<and> length (content b) < Size"
        "bw_buffered w1 = bw_buffered w" "bw_flushNext w1 = bw_flushNext w" by blast
      let ?w = "w1\<lparr>bw_buffered := False, bw_flushNext := False\<rparr>"
      have h: "held ?w = held w1" by (simp add: held_def)
      from flush_inv [OF f(2), of ?w] f(4) obtain w2 s2 where
        "flushInternal put io ?w s1 = Some (None, w2, s2)" "sok s2" "sent s2 = sent s1 @ held w1" "held w2 = []" "bw_inv w2"
        unfolding h by auto
      moreover have "bw_inv w1" using f(4,5) False by (simp add: bw_inv_def)
      ultimately show ?thesis
        using f False mb BwWriteMultiBuffer
        by (cases "bw_flushNext w1") (auto simp: BufferedWriter_WriteMultiBuffer_def MultiBuffer_IsEmpty_mcontent step_ok_def)
    qed
  next
    case BwFlush
    with flush_inv [OF assms(1) inv(1)] show ?thesis by (auto simp: BufferedWriter_Flush_def step_ok_def)
  next
    case (BwSetBuffered f)
    have "held (w\<lparr>bw_buffered := f\<rparr>) = held w" by (simp add: held_def)
    with BwSetBuffered flush_inv [OF assms(1), of "w\<lparr>bw_buffered := f\<rparr>"] inv assms(1) show ?thesis
      by (cases f) (auto simp: SetBuffered_def step_ok_def bw_inv_def)
  next
    case BwSetFlushNext
    with assms inv show ?thesis by (auto simp: SetFlushNext_def step_ok_def bw_inv_def held_def)
  qed
qed

lemma run_spec:
  "\<lbrakk>sok s; bw_inv w; \<And>mb. BwWriteMultiBuffer mb \<in> set ops \<Longrightarrow> mb_inv mb\<rbrakk> \<Longrightarrow>
   \<exists>res. bw_run put io gots j w s ops = Some res \<and> step_ok (sent s @ held w) res"
proof (induction ops arbitrary: j w s)
  case Nil
  then show ?case by (simp add: step_ok_def)
next
  case (Cons op ops)
  from step_spec [OF Cons.prems(1,2), of op "gots j"] Cons.prems(3) obtain acc err w1 s1 where
    1: "bw_step put io (gots j) w s op = Some (acc, err, w1, s1)" "step_ok (sent s @ held w) (acc, err, w1, s1)"
    by (metis list.set_intros(1) prod_cases4)
  show ?case
  proof (cases "err = None")
    case False
    with 1 show ?thesis by auto
  next
    case True
    with 1(2) have "sok s1" "bw_inv w1" "sent s1 @ held w1 = (sent s @ held w) @ acc" by (simp_all add: step_ok_def)
    with Cons.IH [of s1 w1 "Suc j"] Cons.prems(3) 1(1) True show ?thesis
      by (fastforce simp: step_ok_def)
  qed
qed

end

section \<open>Single-shot readers and writers\<close>

text \<open>
  An \<^verbatim>\<open>io.Reader\<close> whose \<open>i\<close>-th \<^verbatim>\<open>Read\<close> into a slice of \<open>room\<close> bytes stores and returns \<open>rd i room\<close>.
\<close>

type_synonym io_reads = "nat \<Rightarrow> nat \<Rightarrow> byte list \<times> go_error option"

fun readOneUDP_loop :: "nat \<Rightarrow> nat \<Rightarrow> io_reads \<Rightarrow> Buffer \<Rightarrow> (Buffer option \<times> go_error option) go" where
  "readOneUDP_loop 0 i rd b = Some (None, Some (ErrNew ''Reader returns too many empty payloads.''))"
| "readOneUDP_loop (Suc n) i rd b = do {
     (_, err, b) \<leftarrow> Buffer_ReadFrom b (rd i);
     if \<not> Buffer_IsEmpty b then Some (Some b, None)
     else if err \<noteq> None then Some (None, err)
     else readOneUDP_loop n (Suc i) rd b
   }"

definition readOneUDP :: "slice \<Rightarrow> io_reads \<Rightarrow> (Buffer option \<times> go_error option) go" where
  "readOneUDP got rd = readOneUDP_loop 64 0 rd (Buffer_New got)"

definition ReadBuffer :: "slice \<Rightarrow> io_reads \<Rightarrow> (Buffer option \<times> go_error option) go" where
  "ReadBuffer got rd = do {
     (n, err, b) \<leftarrow> Buffer_ReadFrom (Buffer_New got) (rd 0);
     Some (if n > 0 then Some b else None, err)
   }"

text \<open>A nil buffer in a multi buffer is \<open>None\<close> here.\<close>

definition SingleReader_ReadMultiBuffer :: "slice \<Rightarrow> io_reads \<Rightarrow> (Buffer option list \<times> go_error option) go" where
  "SingleReader_ReadMultiBuffer got rd = do { (b, err) \<leftarrow> ReadBuffer got rd; Some ([b], err) }"

definition buf_PacketReader_ReadMultiBuffer :: "slice \<Rightarrow> io_reads \<Rightarrow> (Buffer option list \<times> go_error option) go" where
  "buf_PacketReader_ReadMultiBuffer got rd = do {
     (b, err) \<leftarrow> readOneUDP got rd;
     if err \<noteq> None then Some ([], err) else Some ([b], None)
   }"

definition SequentialWriter_WriteMultiBuffer :: "go_error option list \<Rightarrow> MultiBuffer \<Rightarrow> (go_error option \<times> byte list list) go" where
  "SequentialWriter_WriteMultiBuffer errs mb = do {
     (mb, err, calls, _) \<leftarrow> WriteMultiBuffer errs mb;
     Some (err, calls)
   }"

lemma readOneUDP_loop_first:
  "\<lbrakk>at_start b; content b = []; k < n; \<And>j. j < k \<Longrightarrow> rd (i + j) Size = ([], None);
    rd (i + k) Size = (p, err); p \<noteq> []; length p \<le> Size\<rbrakk> \<Longrightarrow>
   \<exists>b'. readOneUDP_loop n i rd b = Some (Some b', None) \<and> content b' = p"
proof (induction n arbitrary: i k b)
  case (Suc n)
  have inv: "buf_inv b" "buf_start b = 0" "sl_len (buf_v b) = Size" using Suc.prems(1) by (simp_all add: at_start_def)
  have room: "sl_len (buf_v b) - nat (buf_end b) = Size"
    using buf_end_content [OF inv(1)] inv(2,3) Suc.prems(2) by simp
  have rf: "Buffer_ReadFrom b (rd i) = Buffer_ReadFrom b (\<lambda>_. rd i Size)"
    using room by (simp add: Buffer_ReadFrom_def)
  show ?case
  proof (cases k)
    case 0
    from Buffer_ReadFrom_at_start [OF Suc.prems(1), of p err] Suc.prems(2,5,7) 0 rf obtain b' where
      "Buffer_ReadFrom b (rd i) = Some (length p, err, b')" "at_start b'" "content b' = p" by auto
    with Suc.prems(6) show ?thesis by (auto simp: at_start_def Buffer_IsEmpty_content)
  next
    case (Suc k')
    from Buffer_ReadFrom_at_start [OF Suc.prems(1), of "[]" None] Suc.prems(2) Suc.prems(4) [of 0] Suc rf obtain b' where
      b': "Buffer_ReadFrom b (rd i) = Some (0, None, b')" "at_start b'" "content b' = []" by auto
    moreover have "\<exists>b''. readOneUDP_loop n (Suc i) rd b' = Some (Some b'', None) \<and> content b'' = p"
      using Suc.IH [OF b'(2,3), of k' "Suc i"] Suc.prems(3-7) Suc by force
    ultimately show ?thesis by (auto simp: at_start_def Buffer_IsEmpty_content)
  qed
qed simp

section \<open>Properties\<close>

text \<open>
  C19. A buffered writer keeps its bytes in order and loses none: through every sequence of writes, multi-buffer writes, flushes
  and mode changes up to the first error, what has reached the writer below followed by what is still
  buffered is what the calls accepted; nothing stays behind once the writer is unbuffered. This
  holds whether or not the writer below can also be written to directly.
\<close>
theorem buffered_writer_in_order:
  assumes "\<And>mb. BwWriteMultiBuffer mb \<in> set ops \<Longrightarrow> mb_inv mb" and "io = None \<or> io = Some (container_io g)"
  shows "\<exists>acc err w s. bw_run container_put io gots 0 (NewBufferedWriter got) [] ops = Some (acc, err, w, s)
    \<and> mcontent s @ held w = acc \<and> err \<in> {None, Some ErrBufferFull} \<and> (err = None \<and> \<not> bw_buffered w \<longrightarrow> held w = [])"
proof -
  have inv: "bw_inv (NewBufferedWriter got)" and h: "held (NewBufferedWriter got) = []"
    by (simp_all add: NewBufferedWriter_def bw_inv_def held_def at_start_New Buffer_New_inv)
  have "mb_inv []" by simp
  note runs = container_mb_sink.run_spec [OF this inv, of ops gots 0, OF assms(1)]
    container_byte_sink.run_spec [OF this inv, of ops g gots 0, OF assms(1)]
  from assms(2) show ?thesis
  proof
    assume "io = None"
    with runs(1) h show ?thesis by (fastforce simp: container_mb_sink.step_ok_def bw_inv_def)
  next
    assume "io = Some (container_io g)"
    with runs(2) h show ?thesis by (fastforce simp: container_byte_sink.step_ok_def bw_inv_def)
  qed
qed

theorem buffered_writer_in_order_witness:
  "\<exists>acc err w s. bw_run container_put None (\<lambda>_ _. nil_slice) 0 (NewBufferedWriter nil_slice) []
      [BwWrite [1, 2], BwWriteMultiBuffer [FromBytes (sl_of [3, 4])], BwSetFlushNext, BwWriteByte 5, BwFlush] = Some (acc, err, w, s)
    \<and> mcontent s @ held w = acc \<and> err \<in> {None, Some ErrBufferFull} \<and> (err = None \<and> \<not> bw_buffered w \<longrightarrow> held w = [])"
  using buffered_writer_in_order [of "[BwWrite [1, 2], BwWriteMultiBuffer [FromBytes (sl_of [3, 4])], BwSetFlushNext, BwWriteByte 5, BwFlush]"
      None "\<lambda>_. nil_slice" "\<lambda>_ _. nil_slice" nil_slice] FromBytes_inv [of "sl_of [3, 4]"]
  by auto

text \<open>
  \<^verbatim>\<open>BufferedWriter.Write\<close> does not flush its buffer to make room: a write that does not fit the rest of the buffer fills
  it, sends nothing to the writer below and fails with \<^verbatim>\<open>ErrBufferFull\<close>, although the loop around it is
  written to continue with the rest.
\<close>
theorem buffered_write_short:
  assumes "bw_inv w" and "bw_buffered w" and "mb_inv s" and "Size < length (held w @ bs)"
  shows "\<exists>w'. BufferedWriter_Write container_put None gots w s bs = Some (Size - length (held w), Some ErrBufferFull, w', s)
    \<and> held w' = held w @ take (Size - length (held w)) bs"
proof -
  have len: "length (held w) < Size"
    using cur_buffer_at_start [of w] assms(1) by (simp add: bw_inv_def)
  with assms(4) have ne: "bs \<noteq> []" by auto
  from container_mb_sink.write_loop_spec [OF assms(3,1) ne, of gots 0] assms(4) obtain n err w' where
    "bw_write_loop container_put None gots 0 w s bs 0 = Some (Size - length (held w), Some ErrBufferFull, w', s)"
    "held w' = held w @ take (Size - length (held w)) bs"
    by force
  with ne show ?thesis by (simp add: BufferedWriter_Write_def)
qed

theorem buffered_write_short_witness:
  "\<exists>w'. BufferedWriter_Write container_put None (\<lambda>_. nil_slice) (NewBufferedWriter nil_slice) [] (replicate 9000 1) =
      Some (Size - length (held (NewBufferedWriter nil_slice)), Some ErrBufferFull, w', [])
    \<and> held w' = held (NewBufferedWriter nil_slice) @ take (Size - length (held (NewBufferedWriter nil_slice))) (replicate 9000 1)"
proof (rule buffered_write_short)
  show "bw_inv (NewBufferedWriter nil_slice)"
    by (simp add: NewBufferedWriter_def bw_inv_def held_def at_start_New Buffer_New_inv)
  show "Size < length (held (NewBufferedWriter nil_slice) @ replicate 9000 1)"
    unfolding length_append length_replicate by simp
qed (simp_all add: NewBufferedWriter_def)

end
