(* ===== verification/Mux_Frame.thy ===== *)
theory Mux_Frame
  imports Buf_IO
begin

text \<open>
  The frames of the multiplexer: \<^verbatim>\<open>common/mux/frame.go\<close>, the frame writer of \<^verbatim>\<open>writer.go\<close>, the packet
  reader of \<^verbatim>\<open>reader.go\<close>. The
  interpretation \<open>mux_chunks\<close> of the codec contract says that a stream of frames with their payloads
  is taken apart again at the right places.
\<close>

section \<open>Metadata\<close>

definition bitmask_Has :: "byte \<Rightarrow> byte \<Rightarrow> bool" where
  "bitmask_Has b bb \<longleftrightarrow> b AND bb \<noteq> 0"

definition bitmask_Set :: "byte \<Rightarrow> byte \<Rightarrow> byte" where
  "bitmask_Set b bb = b OR bb"

definition bitmask_Clear :: "byte \<Rightarrow> byte \<Rightarrow> byte" where
  "bitmask_Clear b bb = b AND NOT bb"

definition bitmask_Toggle :: "byte \<Rightarrow> byte \<Rightarrow> byte" where
  "bitmask_Toggle b bb = b XOR bb"

definition SessionStatusNew :: byte where "SessionStatusNew = 1"
definition SessionStatusKeep :: byte where "SessionStatusKeep = 2"
definition SessionStatusEnd :: byte where "SessionStatusEnd = 3"
definition SessionStatusKeepAlive :: byte where "SessionStatusKeepAlive = 4"

definition OptionData :: byte where "OptionData = 1"
definition OptionError :: byte where "OptionError = 2"

definition TargetNetworkTCP :: byte where "TargetNetworkTCP = 1"
definition TargetNetworkUDP :: byte where "TargetNetworkUDP = 2"

lemmas mux_consts = SessionStatusNew_def SessionStatusKeep_def SessionStatusEnd_def
  SessionStatusKeepAlive_def OptionData_def OptionError_def TargetNetworkTCP_def TargetNetworkUDP_def

definition addrParser :: AddressSerializer where
  "addrParser = NewAddressParser (map the [AddressFamilyByte 1 AddressFamilyIPv4,
     AddressFamilyByte 2 AddressFamilyDomain, AddressFamilyByte 3 AddressFamilyIPv6] @ [PortThenAddress])"

text \<open>The two fields of \<^verbatim>\<open>session.Inbound\<close> that a frame carries.\<close>

record Inbound =
  in_Source :: Destination
  in_Local :: Destination

definition zero_Inbound :: Inbound where
  "zero_Inbound = \<lparr>in_Source = zero_Destination, in_Local = zero_Destination\<rparr>"

record FrameMetadata =
  fm_Target :: Destination
  fm_SessionID :: u16
  fm_Option :: byte
  fm_SessionStatus :: byte
  fm_GlobalID :: "byte list"
  fm_Inbound :: "Inbound option"

definition zero_FrameMetadata :: FrameMetadata where
  "zero_FrameMetadata = \<lparr>fm_Target = zero_Destination, fm_SessionID = 0, fm_Option = 0, fm_SessionStatus = 0,
     fm_GlobalID = replicate 8 0, fm_Inbound = None\<rparr>"

text \<open>\<^verbatim>\<open>common.Must(b.WriteByte(x))\<close>: a full buffer panics.\<close>

definition must_byte :: "Buffer \<Rightarrow> byte \<Rightarrow> Buffer go" where
  "must_byte b x = do { (err, b) \<leftarrow> Buffer_WriteByte b x; if err = None then Some b else None }"

fun network_byte :: "Network \<Rightarrow> byte option" where
  "network_byte Network_TCP = Some TargetNetworkTCP"
| "network_byte Network_UDP = Some TargetNetworkUDP"
| "network_byte _ = None"

text \<open>
  The source and local address of a reverse-proxied request: \<open>f.Inbound.Source.Network - 1\<close> is the
  network's byte for TCP and UDP.
\<close>

definition write_inbound :: "Inbound \<Rightarrow> Buffer \<Rightarrow> (go_error option \<times> Buffer) go" where
  "write_inbound inb b =
     (case network_byte (dest_Network (in_Source inb)) of
        None \<Rightarrow> Some (None, b)
      | Some nb \<Rightarrow> do {
          b \<leftarrow> must_byte b nb;
          (err, b) \<leftarrow> WriteAddressPort addrParser buffer_writer b (dest_Address (in_Source inb)) (dest_Port (in_Source inb));
          if err \<noteq> None then Some (err, b)
          else case network_byte (dest_Network (in_Local inb)) of
            None \<Rightarrow> Some (None, b)
          | Some nb \<Rightarrow> do {
              b \<leftarrow> must_byte b nb;
              WriteAddressPort addrParser buffer_writer b (dest_Address (in_Local inb)) (dest_Port (in_Local inb))
            } })"

definition write_new :: "FrameMetadata \<Rightarrow> Buffer \<Rightarrow> (go_error option \<times> Buffer) go" where
  "write_new f b = do {
     b \<leftarrow> (case network_byte (dest_Network (fm_Target f)) of None \<Rightarrow> Some b | Some nb \<Rightarrow> must_byte b nb);
     (err, b) \<leftarrow> WriteAddressPort addrParser buffer_writer b (dest_Address (fm_Target f)) (dest_Port (fm_Target f));
     if err \<noteq> None then Some (err, b)
     else case fm_Inbound f of
       Some inb \<Rightarrow> write_inbound inb b
     | None \<Rightarrow>
         if buf_UDP b \<noteq> None then do { (_, _, b) \<leftarrow> Buffer_Write b (fm_GlobalID f); Some (None, b) }
         else Some (None, b) }"

definition write_rest :: "FrameMetadata \<Rightarrow> Buffer \<Rightarrow> (go_error option \<times> Buffer) go" where
  "write_rest f b =
     (if fm_SessionStatus f = SessionStatusNew then write_new f b
      else case buf_UDP b of
        None \<Rightarrow> Some (None, b)
      | Some d \<Rightarrow> do {
          (_, b) \<leftarrow> Buffer_WriteByte b TargetNetworkUDP;
          (_, b) \<leftarrow> WriteAddressPort addrParser buffer_writer b (dest_Address d) (dest_Port d);
          Some (None, b)
        })"

text \<open>
  \<^verbatim>\<open>lenBytes\<close> and \<^verbatim>\<open>sessionBytes\<close> are slices of the buffer, filled after they were reserved; they are
  the two bytes at the position the buffer's end had.
\<close>

definition FrameMetadata_WriteTo :: "FrameMetadata \<Rightarrow> Buffer \<Rightarrow> (go_error option \<times> Buffer) go" where
  "FrameMetadata_WriteTo f b = do {
     let lenPos = buf_end b;
     b \<leftarrow> Buffer_Extend b 2;
     let len0 = Buffer_Len b;
     let sessionPos = buf_end b;
     b \<leftarrow> Buffer_Extend b 2;
     let b = Buffer_fill b sessionPos (be_put16 (fm_SessionID f));
     b \<leftarrow> must_byte b (fm_SessionStatus f);
     b \<leftarrow> must_byte b (fm_Option f);
     (err, b) \<leftarrow> write_rest f b;
     if err \<noteq> None then Some (err, b)
     else Some (None, Buffer_fill b lenPos (be_put16 (word_of_int (Buffer_Len b - len0))))
   }"

section \<open>Reading metadata\<close>

text \<open>A buffer after the reads of an \<^verbatim>\<open>io.ReadFull\<close> took \<open>n\<close> bytes out of it.\<close>

definition Buffer_taken :: "Buffer \<Rightarrow> nat \<Rightarrow> Buffer" where
  "Buffer_taken b n =
     (if n = 0 then b
      else if int n = Buffer_Len b then Buffer_Clear b
      else b\<lparr>buf_start := int32 (buf_start b + int n)\<rparr>)"

text \<open>The address and port after a network byte, and the switch over that byte.\<close>

definition read_target ::
  "slice \<Rightarrow> string \<Rightarrow> string \<Rightarrow> byte \<Rightarrow> Buffer \<Rightarrow> ((go_error + Destination) \<times> Buffer) go" where
  "read_target got msg1 msg2 network b = do {
     bs \<leftarrow> Buffer_Bytes b;
     (r, _, rest) \<leftarrow> ReadAddressPort addrParser got None bs;
     let b = Buffer_taken b (length bs - length rest);
     case r of
       Inl e \<Rightarrow> Some (Inl (ErrNew msg1), b)
     | Inr (addr, port) \<Rightarrow>
         Some (if network = TargetNetworkTCP then Inr (TCPDestination addr port)
               else if network = TargetNetworkUDP then Inr (UDPDestination addr port)
               else Inl (ErrNew msg2), b)
   }"

definition read_local :: "slice \<Rightarrow> Inbound \<Rightarrow> FrameMetadata \<Rightarrow> Buffer \<Rightarrow> (go_error option \<times> FrameMetadata) go" where
  "read_local got inb f b =
     (if Buffer_Len b = 0 then Some (None, f)
      else do {
        network \<leftarrow> Buffer_Byte b 0;
        if network = 0 then Some (None, f)
        else do {
          let b = Buffer_Advance b 1;
          (r, b) \<leftarrow> read_target got ''reading local: failed to parse address and port''
            ''reading local: unknown network type: '' network b;
          case r of
            Inl e \<Rightarrow> Some (Some e, f)
          | Inr d \<Rightarrow> Some (None, f\<lparr>fm_Inbound := Some (inb\<lparr>in_Local := d\<rparr>)\<rparr>)
        } })"

definition read_inbound :: "(nat \<Rightarrow> slice) \<Rightarrow> FrameMetadata \<Rightarrow> Buffer \<Rightarrow> (go_error option \<times> FrameMetadata) go" where
  "read_inbound gots f0 b =
     (let f = f0\<lparr>fm_Inbound := Some zero_Inbound\<rparr> in
      if Buffer_Len b = 0 then Some (None, f)
      else do {
        network \<leftarrow> Buffer_Byte b 0;
        if network = 0 then Some (None, f)
        else do {
          let b = Buffer_Advance b 1;
          (r, b) \<leftarrow> read_target (gots 1) ''reading source: failed to parse address and port''
            ''reading source: unknown network type: '' network b;
          case r of
            Inl e \<Rightarrow> Some (Some e, f)
          | Inr d \<Rightarrow>
              let inb = zero_Inbound\<lparr>in_Source := d\<rparr>
              in read_local (gots 2) inb (f\<lparr>fm_Inbound := Some inb\<rparr>) b
        } })"

text \<open>
  The end of the handler: the source and local addresses for a reverse proxy, else the global id of
  a UDP session that comes with data.
\<close>

definition unmarshal_tail ::
  "(nat \<Rightarrow> slice) \<Rightarrow> bool \<Rightarrow> FrameMetadata \<Rightarrow> Buffer \<Rightarrow> (go_error option \<times> FrameMetadata) go" where
  "unmarshal_tail gots readSourceAndLocal f b =
     (if fm_SessionStatus f = SessionStatusNew \<and> readSourceAndLocal then read_inbound gots f b
      else if fm_SessionStatus f = SessionStatusNew \<and> bitmask_Has (fm_Option f) OptionData
          \<and> dest_Network (fm_Target f) = Network_UDP \<and> Buffer_Len b \<ge> 8
      then do { bs \<leftarrow> Buffer_Bytes b; Some (None, f\<lparr>fm_GlobalID := take 8 bs\<rparr>) }
      else Some (None, f))"

definition UnmarshalFromBuffer ::
  "(nat \<Rightarrow> slice) \<Rightarrow> bool \<Rightarrow> FrameMetadata \<Rightarrow> Buffer \<Rightarrow> (go_error option \<times> FrameMetadata) go" where
  "UnmarshalFromBuffer gots readSourceAndLocal f b =
     (if Buffer_Len b < 4 then Some (Some (ErrNew ''insufficient buffer: ''), f)
      else do {
        idBytes \<leftarrow> Buffer_BytesTo b 2;
        sid \<leftarrow> be_get16 idBytes;
        status \<leftarrow> Buffer_Byte b 2;
        opt \<leftarrow> Buffer_Byte b 3;
        let f = f\<lparr>fm_SessionID := sid, fm_SessionStatus := status, fm_Option := opt,
                  fm_Target := (fm_Target f)\<lparr>dest_Network := Network_Unknown\<rparr>\<rparr>;
        udp \<leftarrow> (if status = SessionStatusNew then Some True
                else if status = SessionStatusKeep \<and> Buffer_Len b > 4 then
                  map_option (\<lambda>n. n = TargetNetworkUDP) (Buffer_Byte b 4)
                else Some False);
        if udp then
          if Buffer_Len b < 8 then Some (Some (ErrNew ''insufficient buffer: ''), f)
          else do {
            network \<leftarrow> Buffer_Byte b 4;
            let b = Buffer_Advance b 5;
            (r, b) \<leftarrow> read_target (gots 0) ''failed to parse address and port'' ''unknown network type: '' network b;
            case r of
              Inl e \<Rightarrow> Some (Some e, f)
            | Inr d \<Rightarrow> unmarshal_tail gots readSourceAndLocal (f\<lparr>fm_Target := d\<rparr>) b
          }
        else unmarshal_tail gots readSourceAndLocal f b
      })"

text \<open>
  \<^verbatim>\<open>Unmarshal\<close> reads the length, then that many bytes into a fresh buffer; \<open>gots\<close> are the slices of the
  buffers it and \<open>UnmarshalFromBuffer\<close> allocate.
\<close>

definition Unmarshal ::
  "(nat \<Rightarrow> slice) \<Rightarrow> bool \<Rightarrow> FrameMetadata \<Rightarrow> byte list \<Rightarrow> (go_error option \<times> FrameMetadata \<times> byte list) go" where
  "Unmarshal gots readSourceAndLocal f reader = do {
     (r, reader) \<leftarrow> ReadUint16 reader;
     case r of
       Inl e \<Rightarrow> Some (Some e, f, reader)
     | Inr metaLen \<Rightarrow>
         if metaLen > 512 then Some (Some (ErrNew ''invalid metalen ''), f, reader)
         else do {
           (_, err, b, reader) \<leftarrow> Buffer_ReadFullFrom (Buffer_New (gots 3)) reader (int (unat metaLen));
           case err of
             Some e \<Rightarrow> Some (Some e, f, reader)
           | None \<Rightarrow> do {
               (err, f) \<leftarrow> UnmarshalFromBuffer gots readSourceAndLocal f b;
               Some (err, f, reader)
             } } }"

section \<open>Filling a buffer\<close>

lemma must_byte_grows:
  assumes "buf_inv b" and "1 \<le> Buffer_Available b"
  shows "\<exists>b'. must_byte b x = Some b' \<and> Buffer_WriteByte b x = Some (None, b') \<and> grows b [x] b'"
proof -
  let ?b = "Buffer_fill b (buf_end b) [x] \<lparr>buf_end := buf_end b + 1\<rparr>"
  have e: "0 \<le> buf_end b" "buf_end b < int (sl_len (buf_v b))" "sl_len (buf_v b) \<le> length (sl_arr (buf_v b))"
    "int (sl_len (buf_v b)) < 2147483648"
    using assms by (simp_all add: Buffer_Available_inv) (auto simp: buf_inv_defs)
  have "Buffer_WriteByte b x = Some (None, ?b)"
    using e by (auto simp: Buffer_WriteByte_def Buffer_IsFull_inv [OF assms(1)] sl_set_def Buffer_fill_def sl_blit_def
        list_blit_def upd_conv_take_nth_drop)
  moreover have "nat (buf_end b) + length [x] \<le> sl_len (buf_v b)" using e by simp
  note app = append_at_end [OF assms(1) this]
  have "Buffer_Available ?b = Buffer_Available b - 1"
    using app Buffer_Available_end [OF assms(1)] Buffer_Available_end [of ?b] by simp
  with app have "grows b [x] ?b" by (simp add: grows_def) (simp add: Buffer_fill_def)
  ultimately show ?thesis by (simp add: must_byte_def)
qed

section \<open>The bytes of a frame\<close>

lemma addrParser_eq:
  "addrParser = portFirstAddressParser \<lparr>
     addrTypeMap = (replicate 16 None)[1 := Some AddressFamilyIPv4, 2 := Some AddressFamilyDomain, 3 := Some AddressFamilyIPv6],
     addrByteMap = (replicate 16 255)[0 := 1, 2 := 2, 1 := 3], typeParser = None\<rparr>"
  by (simp add: addrParser_def NewAddressParser_def AddressFamilyByte_def af_index_def afInvalid_def
      PortThenAddress_def word_le_nat_alt)

lemma addrParser_wf [simp]: "ser_wf addrParser"
  by (simp add: addrParser_eq ser_wf_def)

text \<open>The multiplexer's serializer reads back every address that is readable at all.\<close>

lemma addrParser_ok: "addr_ok addrParser a \<longleftrightarrow> readable a"
  by (cases a) (auto simp: addr_ok_def addrParser_eq af_index_def afInvalid_def family_of_def word_le_nat_alt)

definition dest_bytes :: "Destination \<Rightarrow> byte list" where
  "dest_bytes d = (case dest_Address d of None \<Rightarrow> [] | Some a \<Rightarrow> enc_address_port addrParser (a, dest_Port d))"

definition dest_ok :: "Destination \<Rightarrow> bool" where
  "dest_ok d \<longleftrightarrow> (\<exists>a. dest_Address d = Some a \<and> readable a)"

definition net_bytes :: "Network \<Rightarrow> byte list" where
  "net_bytes n = (case network_byte n of None \<Rightarrow> [] | Some nb \<Rightarrow> [nb])"

definition inbound_bytes :: "Inbound \<Rightarrow> byte list" where
  "inbound_bytes inb =
     (case network_byte (dest_Network (in_Source inb)) of
        None \<Rightarrow> []
      | Some nb \<Rightarrow> [nb] @ dest_bytes (in_Source inb) @
          (case network_byte (dest_Network (in_Local inb)) of
             None \<Rightarrow> []
           | Some nb \<Rightarrow> [nb] @ dest_bytes (in_Local inb)))"

definition frame_rest :: "FrameMetadata \<Rightarrow> Destination option \<Rightarrow> byte list" where
  "frame_rest f udp =
     (if fm_SessionStatus f = SessionStatusNew then
        net_bytes (dest_Network (fm_Target f)) @ dest_bytes (fm_Target f) @
        (case fm_Inbound f of
           Some inb \<Rightarrow> inbound_bytes inb
         | None \<Rightarrow> if udp = None then [] else fm_GlobalID f)
      else case udp of None \<Rightarrow> [] | Some d \<Rightarrow> [TargetNetworkUDP] @ dest_bytes d)"

definition frame_body :: "FrameMetadata \<Rightarrow> Destination option \<Rightarrow> byte list" where
  "frame_body f udp = be_put16 (fm_SessionID f) @ [fm_SessionStatus f, fm_Option f] @ frame_rest f udp"

definition frame_bytes :: "FrameMetadata \<Rightarrow> Destination option \<Rightarrow> byte list" where
  "frame_bytes f udp = be_put16 (of_nat (length (frame_body f udp))) @ frame_body f udp"

definition frame_ok :: "FrameMetadata \<Rightarrow> Destination option \<Rightarrow> bool" where
  "frame_ok f udp \<longleftrightarrow> length (fm_GlobalID f) = 8 \<and>
     (if fm_SessionStatus f = SessionStatusNew then
        dest_ok (fm_Target f) \<and> network_byte (dest_Network (fm_Target f)) \<noteq> None \<and>
        (\<forall>inb. fm_Inbound f = Some inb \<longrightarrow>
           (network_byte (dest_Network (in_Source inb)) \<noteq> None \<longrightarrow> dest_ok (in_Source inb)) \<and>
           (network_byte (dest_Network (in_Local inb)) \<noteq> None \<longrightarrow> dest_ok (in_Local inb)))
      else \<forall>d. udp = Some d \<longrightarrow> dest_ok d)"

lemma WriteDest_grows:
  assumes "buf_inv b" and "dest_ok d" and "int (length (dest_bytes d)) \<le> Buffer_Available b"
  shows "\<exists>b'. WriteAddressPort addrParser buffer_writer b (dest_Address d) (dest_Port d) = Some (None, b')
    \<and> grows b (dest_bytes d) b'"
proof -
  from assms(2) obtain a where a: "dest_Address d = Some a" "addr_ok addrParser a"
    by (auto simp: dest_ok_def addrParser_ok)
  with WriteAddressPort_grows [OF assms(1) addrParser_wf addr_ok_writable, of a "dest_Port d"] assms(3) show ?thesis
    by (simp add: dest_bytes_def)
qed

text \<open>A network byte and an address in one step.\<close>

lemma write_net_dest_grows:
  assumes "buf_inv b" and "dest_ok d" and "int (length ([nb] @ dest_bytes d)) \<le> Buffer_Available b"
  shows "\<exists>b1 b'. must_byte b nb = Some b1 \<and> Buffer_WriteByte b nb = Some (None, b1)
    \<and> WriteAddressPort addrParser buffer_writer b1 (dest_Address d) (dest_Port d) = Some (None, b')
    \<and> grows b ([nb] @ dest_bytes d) b'"
proof -
  have "1 \<le> Buffer_Available b" using assms(3) by simp
  from must_byte_grows [OF assms(1) this, of nb] obtain b1 where
    1: "must_byte b nb = Some b1" "Buffer_WriteByte b nb = Some (None, b1)" "grows b [nb] b1" by auto
  have "int (length (dest_bytes d)) \<le> Buffer_Available b1" using assms(3) grows_Available [OF 1(3)] by simp
  from WriteDest_grows [OF grows_inv [OF 1(3)] assms(2) this] obtain b' where
    2: "WriteAddressPort addrParser buffer_writer b1 (dest_Address d) (dest_Port d) = Some (None, b')"
    "grows b1 (dest_bytes d) b'" by auto
  from grows_trans [OF 1(3) 2(2)] 1 2 show ?thesis by blast
qed

lemma write_inbound_grows:
  assumes "buf_inv b" and "int (length (inbound_bytes inb)) \<le> Buffer_Available b"
    and "network_byte (dest_Network (in_Source inb)) \<noteq> None \<longrightarrow> dest_ok (in_Source inb)"
    and "network_byte (dest_Network (in_Local inb)) \<noteq> None \<longrightarrow> dest_ok (in_Local inb)"
  shows "\<exists>b'. write_inbound inb b = Some (None, b') \<and> grows b (inbound_bytes inb) b'"
proof (cases "network_byte (dest_Network (in_Source inb))")
  case None
  then show ?thesis using assms(1) by (auto simp: write_inbound_def inbound_bytes_def grows_def)
next
  case src: (Some nb)
  let ?s = "[nb] @ dest_bytes (in_Source inb)"
  have "int (length ?s) \<le> Buffer_Available b" using assms(2) src by (simp add: inbound_bytes_def)
  from write_net_dest_grows [OF assms(1) _ this] assms(3) src obtain b1 b2 where
    1: "must_byte b nb = Some b1" "WriteAddressPort addrParser buffer_writer b1 (dest_Address (in_Source inb)) (dest_Port (in_Source inb)) = Some (None, b2)"
    "grows b ?s b2" by auto
  show ?thesis
  proof (cases "network_byte (dest_Network (in_Local inb))")
    case None
    with 1 src show ?thesis by (auto simp: write_inbound_def inbound_bytes_def)
  next
    case loc: (Some nb2)
    let ?l = "[nb2] @ dest_bytes (in_Local inb)"
    have "int (length ?l) \<le> Buffer_Available b2"
      using assms(2) src loc grows_Available [OF 1(3)] by (simp add: inbound_bytes_def)
    from write_net_dest_grows [OF grows_inv [OF 1(3)] _ this] assms(4) loc obtain b3 b4 where
      "must_byte b2 nb2 = Some b3" "WriteAddressPort addrParser buffer_writer b3 (dest_Address (in_Local inb)) (dest_Port (in_Local inb)) = Some (None, b4)"
      "grows b2 ?l b4" by auto
    with 1 src loc grows_trans [OF 1(3), of ?l b4] show ?thesis
      by (auto simp: write_inbound_def inbound_bytes_def)
  qed
qed

lemma write_new_grows:
  assumes "buf_inv b" and "fm_SessionStatus f = SessionStatusNew" and "frame_ok f (buf_UDP b)"
    and "int (length (frame_rest f (buf_UDP b))) \<le> Buffer_Available b"
  shows "\<exists>b'. write_new f b = Some (None, b') \<and> grows b (frame_rest f (buf_UDP b)) b'"
proof -
  from assms(2,3) have ok: "dest_ok (fm_Target f)" "network_byte (dest_Network (fm_Target f)) \<noteq> None"
    by (simp_all add: frame_ok_def)
  then obtain nb where nb: "network_byte (dest_Network (fm_Target f)) = Some nb" by auto
  let ?t = "[nb] @ dest_bytes (fm_Target f)"
  define tl where "tl = (case fm_Inbound f of Some inb \<Rightarrow> inbound_bytes inb
    | None \<Rightarrow> if buf_UDP b = None then [] else fm_GlobalID f)"
  have rest: "frame_rest f (buf_UDP b) = ?t @ tl"
    using assms(2) nb by (simp add: frame_rest_def net_bytes_def tl_def)
  have "int (length ?t) \<le> Buffer_Available b" using assms(4) rest by simp
  from write_net_dest_grows [OF assms(1) ok(1) this] obtain b1 b2 where
    1: "must_byte b nb = Some b1" "WriteAddressPort addrParser buffer_writer b1 (dest_Address (fm_Target f)) (dest_Port (fm_Target f)) = Some (None, b2)"
    "grows b ?t b2" by auto
  have av: "int (length tl) \<le> Buffer_Available b2" using assms(4) rest grows_Available [OF 1(3)] by simp
  have udp: "buf_UDP b2 = buf_UDP b" using 1(3) by (simp add: grows_def)
  define step where "step = (case fm_Inbound f of Some inb \<Rightarrow> write_inbound inb b2
    | None \<Rightarrow> if buf_UDP b2 \<noteq> None then do { (_, _, b) \<leftarrow> Buffer_Write b2 (fm_GlobalID f); Some (None, b) } else Some (None, b2))"
  have "\<exists>b'. step = Some (None, b') \<and> grows b2 tl b'"
  proof (cases "fm_Inbound f")
    case None
    then show ?thesis using Buffer_Write_grows [OF grows_inv [OF 1(3)], of "fm_GlobalID f"] av udp grows_inv [OF 1(3)]
      by (auto simp: step_def tl_def grows_def)
  next
    case (Some inb)
    with assms(2,3) write_inbound_grows [OF grows_inv [OF 1(3)], of inb] av show ?thesis
      by (auto simp: step_def tl_def frame_ok_def)
  qed
  then obtain b' where b': "step = Some (None, b')" "grows b2 tl b'" by blast
  have "write_new f b = step" using 1 nb by (simp add: write_new_def step_def)
  with b' grows_trans [OF 1(3) b'(2)] rest show ?thesis by simp
qed

lemma write_rest_grows:
  assumes "buf_inv b" and "frame_ok f (buf_UDP b)" and "int (length (frame_rest f (buf_UDP b))) \<le> Buffer_Available b"
  shows "\<exists>b'. write_rest f b = Some (None, b') \<and> grows b (frame_rest f (buf_UDP b)) b'"
proof (cases "fm_SessionStatus f = SessionStatusNew")
  case True
  with write_new_grows [OF assms(1) True assms(2,3)] show ?thesis by (simp add: write_rest_def)
next
  case old: False
  show ?thesis
  proof (cases "buf_UDP b")
    case None
    with old assms(1) show ?thesis by (simp add: write_rest_def frame_rest_def grows_def)
  next
    case (Some d)
    with old assms(2,3) have "dest_ok d" "int (length ([TargetNetworkUDP] @ dest_bytes d)) \<le> Buffer_Available b"
      by (simp_all add: frame_ok_def frame_rest_def)
    from write_net_dest_grows [OF assms(1) this] Some old show ?thesis
      by (auto simp: write_rest_def frame_rest_def)
  qed
qed

lemma WriteTo_grows:
  assumes "buf_inv b" and "frame_ok f (buf_UDP b)" and "int (length (frame_bytes f (buf_UDP b))) \<le> Buffer_Available b"
  shows "\<exists>b'. FrameMetadata_WriteTo f b = Some (None, b') \<and> grows b (frame_bytes f (buf_UDP b)) b'"
proof -
  let ?u = "buf_UDP b" and ?hd = "be_put16 (fm_SessionID f)" and ?bits = "[fm_SessionStatus f, fm_Option f]"
  have len: "6 + int (length (frame_rest f ?u)) \<le> Buffer_Available b"
    using assms(3) by (simp add: frame_bytes_def frame_body_def)
  have av: "int (2::nat) \<le> Buffer_Available b" using len by linarith
  from Buffer_Extend_grows [OF assms(1) av] obtain b1 where
    1: "Buffer_Extend b 2 = Some b1" "grows b [0, 0] b1" by (auto simp: numeral_2_eq_2)
  have av1: "int (2::nat) \<le> Buffer_Available b1" using len grows_Available [OF 1(2)] by simp
  from Buffer_Extend_grows [OF grows_inv [OF 1(2)] av1] obtain b2 where
    2: "Buffer_Extend b1 2 = Some b2" "grows b1 [0, 0] b2" by (auto simp: numeral_2_eq_2)
  define b3 where "b3 = Buffer_fill b2 (buf_end b1) ?hd"
  have "grows b ([0, 0] @ [0, 0] @ []) b2" using grows_trans [OF 1(2) 2(2)] by simp
  moreover have "buf_end b1 = buf_start b + int (length (content b @ [0, 0]))"
    using buf_end_content [OF grows_inv [OF 1(2)]] 1(2) by (simp add: grows_def)
  ultimately have 3: "grows b ([0, 0] @ ?hd) b3"
    using fill_grows [OF _ assms(1), of "[0, 0]" "[0, 0]" "[]" b2 ?hd] by (simp add: b3_def)
  have av3: "1 \<le> Buffer_Available b3" using len grows_Available [OF 3] by simp
  from must_byte_grows [OF grows_inv [OF 3] av3] obtain b4 where
    4: "must_byte b3 (fm_SessionStatus f) = Some b4" "grows b3 [fm_SessionStatus f] b4" by blast
  have av4: "1 \<le> Buffer_Available b4" using len grows_Available [OF 3] grows_Available [OF 4(2)] by simp
  from must_byte_grows [OF grows_inv [OF 4(2)] av4] obtain b5 where
    5: "must_byte b4 (fm_Option f) = Some b5" "grows b4 [fm_Option f] b5" by blast
  have 35: "grows b ([0, 0] @ ?hd @ ?bits) b5" using grows_trans [OF grows_trans [OF 3 4(2)] 5(2)] by simp
  then have u: "buf_UDP b5 = ?u" by (simp add: grows_def)
  have "int (length (frame_rest f (buf_UDP b5))) \<le> Buffer_Available b5"
    using len grows_Available [OF 35] u by simp
  from write_rest_grows [OF grows_inv [OF 35] _ this] assms(2) u obtain b6 where
    6: "write_rest f b5 = Some (None, b6)" "grows b5 (frame_rest f ?u) b6" by auto
  have all: "grows b ([] @ [0, 0] @ frame_body f ?u) b6"
    using grows_trans [OF 35 6(2)] by (simp add: frame_body_def)
  have "Buffer_Len b6 = int (length (content b)) + 2 + int (length (frame_body f ?u))"
    using all by (simp add: Buffer_Len_content [OF grows_inv [OF all]]) (simp add: grows_def)
  moreover have "Buffer_Len b1 = int (length (content b)) + 2"
    using 1(2) by (simp add: Buffer_Len_content [OF grows_inv [OF 1(2)]]) (simp add: grows_def)
  ultimately have l: "word_of_int (Buffer_Len b6 - Buffer_Len b1) = (of_nat (length (frame_body f ?u)) :: u16)"
    by simp
  have "FrameMetadata_WriteTo f b =
      Some (None, Buffer_fill b6 (buf_end b) (be_put16 (of_nat (length (frame_body f ?u)))))"
    using 1(1) 2(1) 4(1) 5(1) 6(1) l by (simp add: FrameMetadata_WriteTo_def b3_def [symmetric] Let_def)
  moreover have "grows b (frame_bytes f ?u) (Buffer_fill b6 (buf_end b) (be_put16 (of_nat (length (frame_body f ?u)))))"
    using fill_grows [OF all assms(1), of "be_put16 (of_nat (length (frame_body f ?u)))" "buf_end b"]
      buf_end_content [OF assms(1)] by (simp add: frame_bytes_def)
  ultimately show ?thesis by blast
qed

section \<open>Reading a frame back\<close>

lemma Buffer_taken_spec:
  assumes "buf_inv b" and "n \<le> length (content b)"
  shows "buf_inv (Buffer_taken b n)" and "content (Buffer_taken b n) = drop n (content b)"
proof -
  have le: "int n \<le> buf_end b - buf_start b" using assms buf_end_content [OF assms(1)] by simp
  have e: "int32 (buf_start b + int n) = buf_start b + int n"
    using assms le by (intro int32_id) (auto simp: buf_inv_defs)
  have "buf_inv (Buffer_taken b n) \<and> content (Buffer_taken b n) = drop n (content b)"
    using advance_start [OF assms(1) _ le] Buffer_Clear_inv [OF assms(1)] assms e
    by (auto simp: Buffer_taken_def Buffer_Len_content)
  then show "buf_inv (Buffer_taken b n)" and "content (Buffer_taken b n) = drop n (content b)" by auto
qed

lemma ReadAddressPort_fresh:
  "\<exists>b'. ReadAddressPort addrParser got None bs =
     Some (fst (spec_address_port addrParser bs), b', snd (spec_address_port addrParser bs))"
  using ReadAddressPort_reads [OF addrParser_wf, of got None bs] Buffer_New_inv(1) [of got] by (auto simp: reads_def)

lemma read_target_total:
  assumes "buf_inv b"
  shows "\<exists>r b'. read_target got m1 m2 network b = Some (r, b') \<and> buf_inv b'"
proof -
  let ?s = "spec_address_port addrParser (content b)"
  have "length (content b) - length (snd ?s) \<le> length (content b)" by simp
  from Buffer_taken_spec(1) [OF assms this] ReadAddressPort_fresh [of got "content b"] show ?thesis
    by (auto simp: read_target_def Let_def Buffer_Bytes_content [OF assms] split: sum.split)
qed

lemma read_target_dest:
  assumes "buf_inv b" and "content b = dest_bytes d @ rest" and "dest_ok d"
    and "network_byte (dest_Network d) = Some nb"
  shows "\<exists>b'. (\<forall>got m1 m2. read_target got m1 m2 nb b = Some (Inr d, b')) \<and> buf_inv b' \<and> content b' = rest"
proof -
  from assms(3) obtain a where a: "dest_Address d = Some a" "addr_ok addrParser a"
    by (auto simp: dest_ok_def addrParser_ok)
  with assms(2) have "spec_address_port addrParser (content b) = (Inr (Some a, dest_Port d), rest)"
    by (simp add: dest_bytes_def spec_address_port_enc)
  with ReadAddressPort_fresh [of _ "content b"] have
    rd: "\<exists>b0. ReadAddressPort addrParser got None (content b) = Some (Inr (Some a, dest_Port d), b0, rest)" for got by auto
  have d: "d = TCPDestination (Some a) (dest_Port d) \<and> nb = TargetNetworkTCP
      \<or> d = UDPDestination (Some a) (dest_Port d) \<and> nb = TargetNetworkUDP"
    using assms(4) a(1) by (cases "dest_Network d") (auto simp: TCPDestination_def UDPDestination_def)
  let ?n = "length (content b) - length rest"
  have n: "?n \<le> length (content b)" "drop ?n (content b) = rest" using assms(2) by simp_all
  have "read_target got m1 m2 nb b = Some (Inr d, Buffer_taken b ?n)" for got m1 m2
    using rd [of got] d by (auto simp: read_target_def Buffer_Bytes_content [OF assms(1)] mux_consts)
  with Buffer_taken_spec [OF assms(1) n(1)] n(2) show ?thesis by auto
qed

text \<open>The metadata a frame is read back as, in a variable that held \<open>f0\<close> before.\<close>

definition norm_Inbound :: "Inbound \<Rightarrow> Inbound" where
  "norm_Inbound inb =
     (if network_byte (dest_Network (in_Source inb)) = None then zero_Inbound
      else if network_byte (dest_Network (in_Local inb)) = None then zero_Inbound\<lparr>in_Source := in_Source inb\<rparr>
      else inb)"

definition carries_id :: "FrameMetadata \<Rightarrow> Destination option \<Rightarrow> bool" where
  "carries_id f udp \<longleftrightarrow> fm_SessionStatus f = SessionStatusNew \<and> fm_Inbound f = None \<and> udp \<noteq> None
     \<and> bitmask_Has (fm_Option f) OptionData \<and> dest_Network (fm_Target f) = Network_UDP"

definition decoded_target :: "FrameMetadata \<Rightarrow> FrameMetadata \<Rightarrow> Destination option \<Rightarrow> Destination" where
  "decoded_target f0 f udp =
     (if fm_SessionStatus f = SessionStatusNew then fm_Target f
      else case udp of
        Some d \<Rightarrow> if fm_SessionStatus f = SessionStatusKeep then d\<lparr>dest_Network := Network_UDP\<rparr>
                  else (fm_Target f0)\<lparr>dest_Network := Network_Unknown\<rparr>
      | None \<Rightarrow> (fm_Target f0)\<lparr>dest_Network := Network_Unknown\<rparr>)"

definition decoded :: "FrameMetadata \<Rightarrow> FrameMetadata \<Rightarrow> Destination option \<Rightarrow> FrameMetadata" where
  "decoded f0 f udp = \<lparr>fm_Target = decoded_target f0 f udp,
     fm_SessionID = fm_SessionID f, fm_Option = fm_Option f, fm_SessionStatus = fm_SessionStatus f,
     fm_GlobalID = (if carries_id f udp then fm_GlobalID f else fm_GlobalID f0),
     fm_Inbound = (if fm_SessionStatus f = SessionStatusNew \<and> fm_Inbound f \<noteq> None
       then map_option norm_Inbound (fm_Inbound f) else fm_Inbound f0)\<rparr>"

text \<open>The reader expects the addresses of the inbound exactly when the writer sent them.\<close>

definition agreed :: "bool \<Rightarrow> FrameMetadata \<Rightarrow> bool" where
  "agreed rsl f \<longleftrightarrow> (fm_SessionStatus f = SessionStatusNew \<longrightarrow> (rsl \<longleftrightarrow> fm_Inbound f \<noteq> None))"

lemma network_byte_pos: "network_byte n = Some nb \<Longrightarrow> nb \<noteq> 0"
  by (cases n) (auto simp: mux_consts)

lemma Buffer_Byte_spec:
  assumes "buf_inv b" and "i < length (content b)"
  shows "Buffer_Byte b (int i) = Some (content b ! i)"
proof -
  have e: "buf_end b = buf_start b + int (length (content b))" by (rule buf_end_content [OF assms(1)])
  have bnd: "0 \<le> buf_start b" "buf_end b \<le> int (sl_len (buf_v b))" "int (sl_len (buf_v b)) < 2147483648"
    using assms(1) by (auto simp: buf_inv_defs)
  have "int32 (buf_start b + int i) = buf_start b + int i"
    using e bnd assms(2) by (intro int32_id) simp_all
  moreover have "content b ! i = sl_arr (buf_v b) ! (nat (buf_start b) + i)"
    using e bnd assms(1,2) unfolding content_def by (subst nth_take) (auto simp: nat_add_distrib buf_inv_defs)
  ultimately show ?thesis
    using e bnd assms(2) by (simp add: Buffer_Byte_def sl_get_def nat_add_distrib)
qed

lemma Advance_prefix:
  assumes "buf_inv b" and "content b = xs @ ys"
  shows "buf_inv (Buffer_Advance b (int (length xs)))" and "content (Buffer_Advance b (int (length xs))) = ys"
  using Buffer_Advance_spec [OF assms(1), of "int (length xs)"] assms by (simp_all add: Buffer_Len_content)

lemma read_local_bytes:
  assumes "buf_inv b" and "network_byte (dest_Network (in_Local inb)) \<noteq> None \<longrightarrow> dest_ok (in_Local inb)"
    and "content b = (case network_byte (dest_Network (in_Local inb)) of None \<Rightarrow> [] | Some nb \<Rightarrow> [nb] @ dest_bytes (in_Local inb))"
  shows "read_local got i0 f b = Some (None,
     if network_byte (dest_Network (in_Local inb)) = None then f
     else f\<lparr>fm_Inbound := Some (i0\<lparr>in_Local := in_Local inb\<rparr>)\<rparr>)"
proof (cases "network_byte (dest_Network (in_Local inb))")
  case None
  then show ?thesis using assms by (simp add: read_local_def Buffer_Len_content)
next
  case (Some nb)
  have c: "content b = [nb] @ dest_bytes (in_Local inb)" using assms(3) Some by simp
  have "buf_inv (Buffer_Advance b 1)" "content (Buffer_Advance b 1) = dest_bytes (in_Local inb) @ []"
    using Advance_prefix [OF assms(1) c] by simp_all
  from read_target_dest [OF this _ Some] assms(2) Some obtain b' where
    "\<forall>got m1 m2. read_target got m1 m2 nb (Buffer_Advance b 1) = Some (Inr (in_Local inb), b')" by blast
  moreover have "Buffer_Byte b 0 = Some nb" using Buffer_Byte_spec [OF assms(1), of 0] c by simp
  ultimately show ?thesis
    using c Some network_byte_pos [OF Some] by (simp add: read_local_def Buffer_Len_content [OF assms(1)])
qed

lemma read_inbound_bytes:
  assumes "buf_inv b" and "content b = inbound_bytes inb"
    and "network_byte (dest_Network (in_Source inb)) \<noteq> None \<longrightarrow> dest_ok (in_Source inb)"
    and "network_byte (dest_Network (in_Local inb)) \<noteq> None \<longrightarrow> dest_ok (in_Local inb)"
  shows "read_inbound gots f b = Some (None, f\<lparr>fm_Inbound := Some (norm_Inbound inb)\<rparr>)"
proof (cases "network_byte (dest_Network (in_Source inb))")
  case None
  then show ?thesis
    using assms(1,2) by (simp add: read_inbound_def Buffer_Len_content inbound_bytes_def norm_Inbound_def)
next
  case (Some nb)
  let ?l = "case network_byte (dest_Network (in_Local inb)) of None \<Rightarrow> [] | Some nb \<Rightarrow> [nb] @ dest_bytes (in_Local inb)"
  have c: "content b = [nb] @ dest_bytes (in_Source inb) @ ?l"
    using assms(2) Some by (simp add: inbound_bytes_def)
  have 1: "buf_inv (Buffer_Advance b 1)" "content (Buffer_Advance b 1) = dest_bytes (in_Source inb) @ ?l"
    using Advance_prefix [OF assms(1) c] by simp_all
  have ok: "dest_ok (in_Source inb)" using assms(3) Some by simp
  from read_target_dest [OF 1 ok Some] obtain b' where
    2: "\<forall>got m1 m2. read_target got m1 m2 nb (Buffer_Advance b 1) = Some (Inr (in_Source inb), b')" "buf_inv b'" "content b' = ?l"
    by blast
  have "Buffer_Byte b 0 = Some nb" using Buffer_Byte_spec [OF assms(1), of 0] c by simp
  moreover have "Buffer_Len b \<noteq> 0" using c by (simp add: Buffer_Len_content [OF assms(1)])
  ultimately show ?thesis
    using Some network_byte_pos [OF Some] 2(1) read_local_bytes [OF 2(2) assms(4) 2(3)]
    by (simp add: read_inbound_def Let_def norm_Inbound_def zero_Inbound_def)
qed

text \<open>The part after the target address.\<close>

definition frame_tail :: "FrameMetadata \<Rightarrow> Destination option \<Rightarrow> byte list" where
  "frame_tail f udp = (case fm_Inbound f of Some inb \<Rightarrow> inbound_bytes inb
     | None \<Rightarrow> if udp = None then [] else fm_GlobalID f)"

lemma unmarshal_tail_new:
  assumes "buf_inv b" and "content b = frame_tail f udp" and "frame_ok f udp" and "agreed rsl f"
    and "fm_SessionStatus f = SessionStatusNew"
    and "fm_SessionStatus g = SessionStatusNew" "fm_Option g = fm_Option f" "fm_Target g = fm_Target f"
  shows "unmarshal_tail gots rsl g b = Some (None, g\<lparr>
     fm_GlobalID := (if carries_id f udp then fm_GlobalID f else fm_GlobalID g),
     fm_Inbound := (if fm_Inbound f \<noteq> None then map_option norm_Inbound (fm_Inbound f) else fm_Inbound g)\<rparr>)"
proof (cases "fm_Inbound f")
  case (Some inb)
  with assms(4,5) have rsl: rsl by (simp add: agreed_def)
  have "content b = inbound_bytes inb" using assms(2) Some by (simp add: frame_tail_def)
  with read_inbound_bytes [OF assms(1), of inb gots g] assms(3,5) Some rsl show ?thesis
    by (simp add: frame_ok_def unmarshal_tail_def assms(6) carries_id_def)
next
  case None
  with assms(4,5) have rsl: "\<not> rsl" by (simp add: agreed_def)
  have "length (fm_GlobalID f) = 8" using assms(3) by (simp add: frame_ok_def)
  then show ?thesis
    using assms None rsl
    by (auto simp: unmarshal_tail_def carries_id_def frame_tail_def Buffer_Len_content Buffer_Bytes_content split: if_splits)
qed

lemma unmarshal_tail_old:
  "fm_SessionStatus g \<noteq> SessionStatusNew \<Longrightarrow> unmarshal_tail gots rsl g b = Some (None, g)"
  by (simp add: unmarshal_tail_def)

lemma dest_bytes_length: "dest_ok d \<Longrightarrow> 5 \<le> length (dest_bytes d)"
proof -
  assume "dest_ok d"
  then obtain a where "dest_Address d = Some a" "readable a" by (auto simp: dest_ok_def)
  moreover have "3 \<le> length (enc_address p a)" for p
    using \<open>readable a\<close> by (cases a) (auto simp: enc_address_def Suc_le_eq)
  ultimately show ?thesis
    using be_put16_def by (simp add: dest_bytes_def addrParser_eq)
qed

lemma d_udp: "d\<lparr>dest_Network := Network_UDP\<rparr> = d \<longleftrightarrow> dest_Network d = Network_UDP"
  by (cases d) auto

lemma UnmarshalFromBuffer_frame:
  assumes "buf_inv b" and "content b = frame_body f udp" and "frame_ok f udp" and "agreed rsl f"
  shows "UnmarshalFromBuffer gots rsl f0 b = Some (None, decoded f0 f udp)"
proof -
  let ?st = "fm_SessionStatus f"
  let ?g = "f0\<lparr>fm_SessionID := fm_SessionID f, fm_SessionStatus := ?st, fm_Option := fm_Option f,
    fm_Target := (fm_Target f0)\<lparr>dest_Network := Network_Unknown\<rparr>\<rparr>"
  obtain x y where xy: "be_put16 (fm_SessionID f) = [x, y]" by (simp add: be_put16_def)
  have c: "content b = [x, y, ?st, fm_Option f] @ frame_rest f udp" using assms(2) xy by (simp add: frame_body_def)
  have len: "Buffer_Len b = 4 + int (length (frame_rest f udp))" using c by (simp add: Buffer_Len_content [OF assms(1)])
  have id: "be_get16 [x, y] = Some (fm_SessionID f)" using be_get_put16 [of "fm_SessionID f" "[]"] xy by simp
  have to2: "Buffer_BytesTo b 2 = Some [x, y]"
    using Buffer_BytesTo_spec [OF assms(1), of 2] len c by (simp add: numeral_2_eq_2)
  have byt: "Buffer_Byte b 2 = Some ?st" "Buffer_Byte b 3 = Some (fm_Option f)"
    using Buffer_Byte_spec [OF assms(1), of 2] Buffer_Byte_spec [OF assms(1), of 3] c by (simp_all add: numeral_eq_Suc)
  note head = len id to2 byt
  show ?thesis
  proof (cases "?st = SessionStatusNew")
    case True
    with assms(3) obtain nb where nb: "network_byte (dest_Network (fm_Target f)) = Some nb" and ok: "dest_ok (fm_Target f)"
      by (auto simp: frame_ok_def)
    have r: "frame_rest f udp = [nb] @ dest_bytes (fm_Target f) @ frame_tail f udp"
      using True nb by (simp add: frame_rest_def net_bytes_def frame_tail_def)
    then have c5: "content b = [x, y, ?st, fm_Option f, nb] @ dest_bytes (fm_Target f) @ frame_tail f udp" using c by simp
    have adv: "buf_inv (Buffer_Advance b 5)" "content (Buffer_Advance b 5) = dest_bytes (fm_Target f) @ frame_tail f udp"
      using Advance_prefix [OF assms(1) c5] by simp_all
    from read_target_dest [OF adv ok nb] obtain b' where
      b': "\<forall>got m1 m2. read_target got m1 m2 nb (Buffer_Advance b 5) = Some (Inr (fm_Target f), b')"
      "buf_inv b'" "content b' = frame_tail f udp" by blast
    have long: "\<not> Buffer_Len b < 8" using len r dest_bytes_length [OF ok] by simp
    have net: "Buffer_Byte b 4 = Some nb" using Buffer_Byte_spec [OF assms(1), of 4] c5 by (simp add: numeral_eq_Suc)
    have "UnmarshalFromBuffer gots rsl f0 b = unmarshal_tail gots rsl (?g\<lparr>fm_Target := fm_Target f\<rparr>) b'"
      using head long net b'(1) True by (simp add: UnmarshalFromBuffer_def Let_def)
    also have "\<dots> = Some (None, decoded f0 f udp)"
      using unmarshal_tail_new [OF b'(2,3) assms(3,4) True, of "?g\<lparr>fm_Target := fm_Target f\<rparr>" gots] True
      by (simp add: decoded_def decoded_target_def)
    finally show ?thesis .
  next
    case old: False
    show ?thesis
    proof (cases "?st = SessionStatusKeep \<and> udp \<noteq> None")
      case True
      then obtain d where d: "udp = Some d" by auto
      with assms(3) old have ok: "dest_ok d" by (simp add: frame_ok_def)
      let ?d = "d\<lparr>dest_Network := Network_UDP\<rparr>"
      have db: "dest_bytes d = dest_bytes ?d" "dest_ok ?d" using ok by (auto simp: dest_bytes_def dest_ok_def)
      have r: "frame_rest f udp = [TargetNetworkUDP] @ dest_bytes ?d" using old d db by (simp add: frame_rest_def)
      then have c5: "content b = [x, y, ?st, fm_Option f, TargetNetworkUDP] @ dest_bytes ?d @ []" using c by simp
      have adv: "buf_inv (Buffer_Advance b 5)" "content (Buffer_Advance b 5) = dest_bytes ?d @ []"
        using Advance_prefix [OF assms(1) c5] by simp_all
      have nb: "network_byte (dest_Network ?d) = Some TargetNetworkUDP" by simp
      from read_target_dest [OF adv db(2) nb] obtain b' where
        b': "\<forall>got m1 m2. read_target got m1 m2 TargetNetworkUDP (Buffer_Advance b 5) = Some (Inr ?d, b')" by blast
      have long: "\<not> Buffer_Len b < 8" using len r dest_bytes_length [OF ok] db(1) by simp
      have net: "Buffer_Byte b 4 = Some TargetNetworkUDP"
        using Buffer_Byte_spec [OF assms(1), of 4] c5 by (simp add: numeral_eq_Suc)
      have "UnmarshalFromBuffer gots rsl f0 b = unmarshal_tail gots rsl (?g\<lparr>fm_Target := ?d\<rparr>) b'"
        using head long net b' True old by (auto simp: UnmarshalFromBuffer_def Let_def)
      with unmarshal_tail_old [of "?g\<lparr>fm_Target := ?d\<rparr>"] old True d show ?thesis
        by (simp add: decoded_def decoded_target_def carries_id_def)
    next
      case False
      then have "?st \<noteq> SessionStatusKeep \<or> \<not> Buffer_Len b > 4" using len old by (auto simp: frame_rest_def)
      then have "UnmarshalFromBuffer gots rsl f0 b = unmarshal_tail gots rsl ?g b"
        using head old by (auto simp: UnmarshalFromBuffer_def Let_def)
      with unmarshal_tail_old [of ?g] old False show ?thesis
        by (auto simp: decoded_def decoded_target_def carries_id_def split: option.splits)
    qed
  qed
qed

lemma Unmarshal_frame:
  assumes "frame_ok f udp" and "agreed rsl f" and "length (frame_body f udp) \<le> 512"
  shows "Unmarshal gots rsl f0 (frame_bytes f udp @ rest) = Some (None, decoded f0 f udp, rest)"
proof -
  let ?body = "frame_body f udp"
  have n: "unat (of_nat (length ?body) :: u16) = length ?body" using assms(3) by (intro unat_of_nat_u16) simp
  then have small: "\<not> (of_nat (length ?body) :: u16) > 512" using assms(3) by (simp add: word_less_nat_alt)
  have rd: "ReadUint16 (frame_bytes f udp @ rest) = Some (Inr (of_nat (length ?body)), ?body @ rest)"
    using be_get_put16 [of "of_nat (length ?body)" "[]"] by (simp add: ReadUint16_def ReadFull_def frame_bytes_def)
  have "int (length ?body) \<le> Buffer_Available (Buffer_New (gots 3))" using assms(3) by simp
  from read_step [OF Buffer_New_inv(1) this, of "?body @ rest"] obtain b' m where
    b': "Buffer_ReadFullFrom (Buffer_New (gots 3)) (?body @ rest) (int (length ?body)) = Some (m, None, b', rest)"
    "buf_inv b'" "content b' = ?body"
    by (auto simp: Buffer_New_inv)
  from UnmarshalFromBuffer_frame [OF b'(2,3) assms(1,2)] rd small b'(1) n show ?thesis
    by (simp add: Unmarshal_def)
qed

text \<open>No input makes the metadata reader panic.\<close>

lemma read_local_total: "buf_inv b \<Longrightarrow> read_local got inb f b \<noteq> None"
proof -
  assume b: "buf_inv b"
  then have "buf_inv (Buffer_Advance b 1)" by (rule Buffer_Advance_inv)
  from read_target_total [OF this] have rt: "\<exists>r b'. read_target got m1 m2 n (Buffer_Advance b 1) = Some (r, b')" for m1 m2 n by blast
  have "Buffer_Len b \<noteq> 0 \<Longrightarrow> \<exists>n. Buffer_Byte b 0 = Some n"
    using Buffer_Byte_spec [OF b, of 0] by (auto simp: Buffer_Len_content [OF b])
  with rt show ?thesis by (auto simp: read_local_def Let_def split: sum.splits bind_splits) (metis option.distinct(1))+
qed

lemma read_inbound_total: "buf_inv b \<Longrightarrow> read_inbound gots f b \<noteq> None"
proof -
  assume b: "buf_inv b"
  then have "buf_inv (Buffer_Advance b 1)" by (rule Buffer_Advance_inv)
  from read_target_total [OF this] have
    rt: "\<exists>r b'. read_target got m1 m2 n (Buffer_Advance b 1) = Some (r, b') \<and> buf_inv b'" for got m1 m2 n by blast
  have byt: "Buffer_Len b \<noteq> 0 \<Longrightarrow> \<exists>n. Buffer_Byte b 0 = Some n"
    using Buffer_Byte_spec [OF b, of 0] by (auto simp: Buffer_Len_content [OF b])
  show ?thesis
  proof (cases "Buffer_Len b = 0")
    case False
    with byt obtain n where n: "Buffer_Byte b 0 = Some n" by blast
    from rt [of "gots 1" "''reading source: failed to parse address and port''" "''reading source: unknown network type: ''" n]
    obtain r b' where "read_target (gots 1) ''reading source: failed to parse address and port''
      ''reading source: unknown network type: '' n (Buffer_Advance b 1) = Some (r, b')" "buf_inv b'" by blast
    with False n read_local_total show ?thesis by (auto simp: read_inbound_def Let_def split: sum.splits)
  qed (simp add: read_inbound_def)
qed

lemma UnmarshalFromBuffer_total: "buf_inv b \<Longrightarrow> UnmarshalFromBuffer gots rsl f b \<noteq> None"
proof -
  assume b: "buf_inv b"
  have tail: "buf_inv b' \<Longrightarrow> unmarshal_tail gots rsl g b' \<noteq> None" for g b'
    using read_inbound_total [of b'] by (simp add: unmarshal_tail_def Buffer_Bytes_content)
  show ?thesis
  proof (cases "Buffer_Len b < 4")
    case False
    then have l: "4 \<le> length (content b)" by (simp add: Buffer_Len_content [OF b])
    have bt: "\<exists>n. Buffer_Byte b (int i) = Some n" if "i < length (content b)" for i
      using Buffer_Byte_spec [OF b that] by blast
    from bt [of 2] bt [of 3] l obtain st opt where h: "Buffer_Byte b 2 = Some st" "Buffer_Byte b 3 = Some opt"
      by auto
    have b4: "\<exists>n. Buffer_Byte b 4 = Some n" if "Buffer_Len b > 4"
      using bt [of 4] that by (simp add: Buffer_Len_content [OF b])
    have to2: "Buffer_BytesTo b 2 = Some (take 2 (content b))"
      using Buffer_BytesTo_spec [OF b, of 2] l by (simp add: Buffer_Len_content [OF b])
    obtain sid where sid: "be_get16 (take 2 (content b)) = Some sid"
      using be_get16_long [of "take 2 (content b)"] l by auto
    have "buf_inv (Buffer_Advance b 5)" using b by (rule Buffer_Advance_inv)
    from read_target_total [OF this] have
      rt: "\<exists>r b'. read_target got m1 m2 n (Buffer_Advance b 5) = Some (r, b') \<and> buf_inv b'" for got m1 m2 n by blast
    define g where "g = f\<lparr>fm_SessionID := sid, fm_SessionStatus := st, fm_Option := opt,
      fm_Target := (fm_Target f)\<lparr>dest_Network := Network_Unknown\<rparr>\<rparr>"
    define with_target where "with_target = (if Buffer_Len b < 8 then Some (Some (ErrNew ''insufficient buffer: ''), g)
          else do {
            network \<leftarrow> Buffer_Byte b 4;
            let b = Buffer_Advance b 5;
            (r, b) \<leftarrow> read_target (gots 0) ''failed to parse address and port'' ''unknown network type: '' network b;
            case r of
              Inl e \<Rightarrow> Some (Some e, g)
            | Inr d \<Rightarrow> unmarshal_tail gots rsl (g\<lparr>fm_Target := d\<rparr>) b
          })"
    have "with_target \<noteq> None"
    proof (cases "Buffer_Len b < 8")
      case False
      with b4 obtain n where n: "Buffer_Byte b 4 = Some n" by auto
      from rt [of "gots 0" "''failed to parse address and port''" "''unknown network type: ''" n] obtain r b' where
        "read_target (gots 0) ''failed to parse address and port'' ''unknown network type: '' n (Buffer_Advance b 5) = Some (r, b')"
        "buf_inv b'" by blast
      with False n tail show ?thesis by (auto simp: with_target_def Let_def split: sum.splits)
    qed (simp add: with_target_def)
    moreover have "UnmarshalFromBuffer gots rsl f b \<in> {with_target, unmarshal_tail gots rsl g b}"
      using False h to2 sid b4 unfolding UnmarshalFromBuffer_def with_target_def g_def Let_def by auto
    ultimately show ?thesis using tail [OF b, of g] by auto
  qed (simp add: UnmarshalFromBuffer_def)
qed

lemma Unmarshal_total: "Unmarshal gots rsl f input \<noteq> None"
proof -
  have "\<exists>r rest. ReadUint16 input = Some (r, rest)"
    using be_get16_long [of "take 2 input"] by (auto simp: ReadUint16_def ReadFull_def)
  then obtain r rest where r: "ReadUint16 input = Some (r, rest)" by blast
  show ?thesis
  proof (cases r)
    case (Inr metaLen)
    show ?thesis
    proof (cases "metaLen > 512")
      case False
      then have "unat metaLen \<le> 512" by (simp add: word_less_nat_alt)
      then have "int (unat metaLen) \<le> Buffer_Available (Buffer_New (gots 3))"
        unfolding Buffer_New_room by linarith
      from read_step [OF Buffer_New_inv(1) this, of rest] obtain b' m err where
        "Buffer_ReadFullFrom (Buffer_New (gots 3)) rest (int (unat metaLen)) = Some (m, err, b', drop (unat metaLen) rest)"
        "buf_inv b'" by blast
      with r Inr False UnmarshalFromBuffer_total [of b' gots rsl f] show ?thesis
        by (auto simp: Unmarshal_def split: option.splits)
    qed (use r Inr in \<open>simp add: Unmarshal_def\<close>)
  qed (use r in \<open>simp add: Unmarshal_def\<close>)
qed

section \<open>Frames with payload\<close>

text \<open>\<^verbatim>\<open>PacketReader\<close>: one packet after the metadata, then \<^verbatim>\<open>io.EOF\<close>.\<close>

record PacketReader =
  pr_eof :: bool
  pr_dest :: "Destination option"

definition NewPacketReader :: "Destination option \<Rightarrow> PacketReader" where
  "NewPacketReader dest = \<lparr>pr_eof = False, pr_dest = dest\<rparr>"

definition PacketReader_ReadMultiBuffer ::
  "slice \<Rightarrow> PacketReader \<Rightarrow> byte list \<Rightarrow> (MultiBuffer \<times> go_error option \<times> PacketReader \<times> byte list) go" where
  "PacketReader_ReadMultiBuffer got r reader =
     (if pr_eof r then Some ([], Some EOF, r, reader)
      else do {
        (sz, reader) \<leftarrow> ReadUint16 reader;
        case sz of
          Inl e \<Rightarrow> Some ([], Some e, r, reader)
        | Inr psize \<Rightarrow>
            if unat psize > Size then Some ([], Some (ErrNew ''packet size too large: ''), r, reader)
            else do {
              (_, err, b, reader) \<leftarrow> Buffer_ReadFullFrom (Buffer_New got) reader (int (unat psize));
              case err of
                Some e \<Rightarrow> Some ([], Some e, r, reader)
              | None \<Rightarrow> Some ([case pr_dest r of
                    Some d \<Rightarrow> if dest_Network d = Network_UDP then b\<lparr>buf_UDP := Some d\<rparr> else b
                  | None \<Rightarrow> b], None, r\<lparr>pr_eof := True\<rparr>, reader)
            } })"

lemma PacketReader_data:
  assumes "length p \<le> Size" and "\<not> pr_eof r"
  shows "\<exists>b. PacketReader_ReadMultiBuffer got r (data_bytes p @ rest) = Some ([b], None, r\<lparr>pr_eof := True\<rparr>, rest)
    \<and> buf_inv b \<and> content b = p \<and> (\<forall>d. pr_dest r = Some d \<and> dest_Network d = Network_UDP \<longrightarrow> buf_UDP b = Some d)"
proof -
  have n: "unat (of_nat (length p) :: u16) = length p" using assms(1) by (intro unat_of_nat_u16) simp
  have rd: "ReadUint16 (data_bytes p @ rest) = Some (Inr (of_nat (length p)), p @ rest)"
    using be_get_put16 [of "of_nat (length p)" "[]"] by (simp add: ReadUint16_def ReadFull_def data_bytes_def)
  have "int (length p) \<le> Buffer_Available (Buffer_New got)" using assms(1) by simp
  from read_step [OF Buffer_New_inv(1) this, of "p @ rest"] obtain b' m where
    b': "Buffer_ReadFullFrom (Buffer_New got) (p @ rest) (int (length p)) = Some (m, None, b', rest)"
    "buf_inv b'" "content b' = p"
    by (auto simp: Buffer_New_inv)
  define b where "b = (case pr_dest r of Some d \<Rightarrow> if dest_Network d = Network_UDP then b'\<lparr>buf_UDP := Some d\<rparr> else b'
    | None \<Rightarrow> b')"
  have "buf_inv b" "content b = p" using b'(2,3) by (auto simp: b_def buf_inv_def content_def split: option.split)
  moreover have "PacketReader_ReadMultiBuffer got r (data_bytes p @ rest) = Some ([b], None, r\<lparr>pr_eof := True\<rparr>, rest)"
    using rd n assms b'(1) by (simp add: PacketReader_ReadMultiBuffer_def b_def)
  moreover have "\<forall>d. pr_dest r = Some d \<and> dest_Network d = Network_UDP \<longrightarrow> buf_UDP b = Some d" by (simp add: b_def)
  ultimately show ?thesis by blast
qed

text \<open>
  A frame with its payload as the readers of both sides take it in: the metadata, then the packet
  when the data option is set.
\<close>

type_synonym chunk = "FrameMetadata \<times> Destination option \<times> byte list"

fun chunk_bytes :: "chunk \<Rightarrow> byte list" where
  "chunk_bytes (f, udp, p) =
     frame_bytes f udp @ (if bitmask_Has (fm_Option f) OptionData then data_bytes p else [])"

definition read_chunk :: "(nat \<Rightarrow> nat \<Rightarrow> slice) \<Rightarrow> bool \<Rightarrow> nat \<Rightarrow> byte list \<Rightarrow> ((FrameMetadata \<times> byte list) \<times> byte list) option" where
  "read_chunk gots rsl k input =
     (case Unmarshal (gots k) rsl zero_FrameMetadata input of
        Some (None, f, rest) \<Rightarrow>
          if bitmask_Has (fm_Option f) OptionData then
            (case PacketReader_ReadMultiBuffer (gots k 4) (NewPacketReader (Some (fm_Target f))) rest of
               Some (mb, None, _, rest') \<Rightarrow> Some ((f, mcontent mb), rest')
             | _ \<Rightarrow> None)
          else Some ((f, []), rest)
      | _ \<Rightarrow> None)"

fun chunk_ok :: "bool \<Rightarrow> chunk \<Rightarrow> bool" where
  "chunk_ok rsl (f, udp, p) \<longleftrightarrow> frame_ok f udp \<and> agreed rsl f \<and> length (frame_body f udp) \<le> 512
     \<and> length p \<le> Size \<and> (bitmask_Has (fm_Option f) OptionData \<or> p = [])"

fun chunk_same :: "chunk \<Rightarrow> FrameMetadata \<times> byte list \<Rightarrow> bool" where
  "chunk_same (f, udp, p) (g, q) \<longleftrightarrow> g = decoded zero_FrameMetadata f udp \<and> q = p"

interpretation mux_chunks: wire_codec "chunk_ok rsl" chunk_bytes "read_chunk gots rsl" chunk_same for rsl gots
proof
  fix x :: chunk and k and rest :: "byte list"
  obtain f udp p where x: "x = (f, udp, p)" by (cases x)
  assume "chunk_ok rsl x"
  with x have ok: "frame_ok f udp" "agreed rsl f" "length (frame_body f udp) \<le> 512" "length p \<le> Size"
    "bitmask_Has (fm_Option f) OptionData \<or> p = []" by simp_all
  show "chunk_bytes x \<noteq> []" by (simp add: x frame_bytes_def frame_body_def)
  let ?g = "decoded zero_FrameMetadata f udp"
  have o: "fm_Option ?g = fm_Option f" by (simp add: decoded_def)
  show "\<exists>y. read_chunk gots rsl k (chunk_bytes x @ rest) = Some (y, rest) \<and> chunk_same x y"
  proof (cases "bitmask_Has (fm_Option f) OptionData")
    case True
    have "\<not> pr_eof (NewPacketReader (Some (fm_Target ?g)))" by (simp add: NewPacketReader_def)
    from PacketReader_data [OF ok(4) this, of "gots k 4" rest] obtain b where
      "PacketReader_ReadMultiBuffer (gots k 4) (NewPacketReader (Some (fm_Target ?g))) (data_bytes p @ rest) =
         Some ([b], None, NewPacketReader (Some (fm_Target ?g))\<lparr>pr_eof := True\<rparr>, rest)" "content b = p" by blast
    with Unmarshal_frame [OF ok(1-3), of "gots k" zero_FrameMetadata "data_bytes p @ rest"] True o show ?thesis
      by (simp add: x read_chunk_def)
  next
    case False
    with Unmarshal_frame [OF ok(1-3), of "gots k" zero_FrameMetadata rest] o ok(5) show ?thesis
      by (simp add: x read_chunk_def)
  qed
qed

section \<open>The frame writer\<close>

datatype TransferType = TransferTypeStream | TransferTypePacket

record MuxWriter =
  mw_dest :: Destination
  mw_id :: u16
  mw_followup :: bool
  mw_hasError :: bool
  mw_transferType :: TransferType
  mw_globalID :: "byte list"
  mw_inbound :: "Inbound option"

definition NewWriter :: "u16 \<Rightarrow> Destination \<Rightarrow> TransferType \<Rightarrow> byte list \<Rightarrow> Inbound option \<Rightarrow> MuxWriter" where
  "NewWriter sid dest transferType globalID inbound = \<lparr>mw_dest = dest, mw_id = sid, mw_followup = False,
     mw_hasError = False, mw_transferType = transferType, mw_globalID = globalID, mw_inbound = inbound\<rparr>"

definition NewResponseWriter :: "u16 \<Rightarrow> TransferType \<Rightarrow> MuxWriter" where
  "NewResponseWriter sid transferType = \<lparr>mw_dest = zero_Destination, mw_id = sid, mw_followup = True,
     mw_hasError = False, mw_transferType = transferType, mw_globalID = replicate 8 0, mw_inbound = None\<rparr>"

definition getNextFrameMeta :: "MuxWriter \<Rightarrow> FrameMetadata \<times> MuxWriter" where
  "getNextFrameMeta w =
     (let meta = zero_FrameMetadata\<lparr>fm_SessionID := mw_id w, fm_Target := mw_dest w,
                   fm_GlobalID := mw_globalID w, fm_Inbound := mw_inbound w\<rparr>
      in if mw_followup w then (meta\<lparr>fm_SessionStatus := SessionStatusKeep\<rparr>, w)
         else (meta\<lparr>fm_SessionStatus := SessionStatusNew\<rparr>, w\<lparr>mw_followup := True\<rparr>))"

definition writeMetaOnly :: "'w mb_put \<Rightarrow> slice \<Rightarrow> MuxWriter \<Rightarrow> 'w \<Rightarrow> (go_error option \<times> MuxWriter \<times> 'w) go" where
  "writeMetaOnly put got w s =
     (let (meta, w) = getNextFrameMeta w in do {
        (err, b) \<leftarrow> FrameMetadata_WriteTo meta (Buffer_New got);
        if err \<noteq> None then Some (err, w, s)
        else do { (err, s) \<leftarrow> put s [b]; Some (err, w, s) }
      })"

definition writeMetaWithFrame ::
  "'w mb_put \<Rightarrow> slice \<Rightarrow> FrameMetadata \<Rightarrow> MultiBuffer \<Rightarrow> 'w \<Rightarrow> (go_error option \<times> 'w) go" where
  "writeMetaWithFrame put got meta data s = do {
     let frame = (case data of [d] \<Rightarrow> (Buffer_New got)\<lparr>buf_UDP := buf_UDP d\<rparr> | _ \<Rightarrow> Buffer_New got);
     (err, frame) \<leftarrow> FrameMetadata_WriteTo meta frame;
     if err \<noteq> None then Some (err, s)
     else do {
       (err, frame) \<leftarrow> WriteUint16 buffer_writer frame (word_of_int (MultiBuffer_Len data));
       if err \<noteq> None then Some (err, s) else put s (frame # data)
     } }"

definition writeData ::
  "'w mb_put \<Rightarrow> slice \<Rightarrow> MuxWriter \<Rightarrow> 'w \<Rightarrow> MultiBuffer \<Rightarrow> (go_error option \<times> MuxWriter \<times> 'w) go" where
  "writeData put got w s mb =
     (let (meta, w) = getNextFrameMeta w in do {
        (err, s) \<leftarrow> writeMetaWithFrame put got (meta\<lparr>fm_Option := bitmask_Set (fm_Option meta) OptionData\<rparr>) mb s;
        Some (err, w, s)
      })"

text \<open>The next piece of the input: up to 8 KiB of a stream, or one packet.\<close>

definition next_piece :: "slice \<Rightarrow> MuxWriter \<Rightarrow> MultiBuffer \<Rightarrow> (MultiBuffer \<times> MultiBuffer) go" where
  "next_piece got w mb =
     (if mw_transferType w = TransferTypeStream then SplitSize got mb 8192
      else case SplitFirst mb of (mb2, Some b) \<Rightarrow> Some (mb2, [b]) | (mb2, None) \<Rightarrow> None)"

text \<open>
  The loop of \<^verbatim>\<open>WriteMultiBuffer\<close>; iteration \<open>k\<close> takes its buffers from \<open>gots\<close>. The deferred release
  of the input only concerns the buffers that an error left in it.
\<close>

partial_function (option) mux_write_loop ::
  "'w mb_put \<Rightarrow> (nat \<Rightarrow> slice) \<Rightarrow> nat \<Rightarrow> MuxWriter \<Rightarrow> 'w \<Rightarrow> MultiBuffer \<Rightarrow> (go_error option \<times> MuxWriter \<times> 'w) go" where
  "mux_write_loop put gots k w s mb =
     (if MultiBuffer_IsEmpty mb then Some (None, w, s)
      else Option.bind (next_piece (gots (2 * k)) w mb) (\<lambda>(mb', chunk).
        Option.bind (writeData put (gots (2 * k + 1)) w s chunk) (\<lambda>(err, w', s').
          if err \<noteq> None then Some (err, w', s') else mux_write_loop put gots (Suc k) w' s' mb')))"

definition MuxWriter_WriteMultiBuffer ::
  "'w mb_put \<Rightarrow> (nat \<Rightarrow> slice) \<Rightarrow> MuxWriter \<Rightarrow> 'w \<Rightarrow> MultiBuffer \<Rightarrow> (go_error option \<times> MuxWriter \<times> 'w) go" where
  "MuxWriter_WriteMultiBuffer put gots w s mb =
     (if MultiBuffer_IsEmpty mb then writeMetaOnly put (gots 0) w s else mux_write_loop put gots 0 w s mb)"

definition MuxWriter_Close :: "'w mb_put \<Rightarrow> slice \<Rightarrow> MuxWriter \<Rightarrow> 'w \<Rightarrow> (go_error option \<times> 'w) go" where
  "MuxWriter_Close put got w s =
     (let meta = zero_FrameMetadata\<lparr>fm_SessionID := mw_id w, fm_SessionStatus := SessionStatusEnd\<rparr>;
          meta = (if mw_hasError w then meta\<lparr>fm_Option := bitmask_Set (fm_Option meta) OptionError\<rparr> else meta)
      in do {
        (err, frame) \<leftarrow> FrameMetadata_WriteTo meta (Buffer_New got);
        if err \<noteq> None then None
        else do { (_, s) \<leftarrow> put s [frame]; Some (None, s) }
      })"

definition udp_ok :: "Buffer \<Rightarrow> bool" where
  "udp_ok b \<longleftrightarrow> (\<forall>d. buf_UDP b = Some d \<longrightarrow> dest_ok d)"

definition mux_ok :: "bool \<Rightarrow> MuxWriter \<Rightarrow> bool" where
  "mux_ok rsl w \<longleftrightarrow> length (mw_globalID w) = 8 \<and> (\<not> mw_followup w \<longrightarrow>
     dest_ok (mw_dest w) \<and> network_byte (dest_Network (mw_dest w)) \<noteq> None \<and> (rsl \<longleftrightarrow> mw_inbound w \<noteq> None) \<and>
     (\<forall>inb. mw_inbound w = Some inb \<longrightarrow>
        (network_byte (dest_Network (in_Source inb)) \<noteq> None \<longrightarrow> dest_ok (in_Source inb)) \<and>
        (network_byte (dest_Network (in_Local inb)) \<noteq> None \<longrightarrow> dest_ok (in_Local inb)) \<and>
        length (inbound_bytes inb) \<le> 200))"

section \<open>What the frame writer sends\<close>

lemma SplitSize_udp:
  assumes "SplitSize got mb sz = Some (rest, r)" and "list_all udp_ok mb"
  shows "list_all udp_ok rest" and "list_all udp_ok r"
proof -
  have loop: "list_all udp_ok rest \<and> list_all udp_ok r"
    if "split_size_loop mb tot sz = (rest, r)" "list_all udp_ok mb" for mb tot rest r
    using that by (induction mb tot sz arbitrary: rest r rule: split_size_loop.induct)
      (auto simp: Let_def split: if_splits prod.splits)
  have adv: "buf_UDP (Buffer_Advance b n) = buf_UDP b" for b n
    by (auto simp: Buffer_Advance_def Buffer_Check_def Let_def)
  have ext: "buf_UDP e = None" if "Buffer_Extend (Buffer_New got) n = Some e" for e n
    using that by (auto simp: Buffer_Extend_def Buffer_New_def Buffer_fill_def Let_def split: if_splits bind_splits)
  show "list_all udp_ok rest" and "list_all udp_ok r"
    using assms loop by (auto simp: SplitSize_def Let_def udp_ok_def adv Buffer_fill_def
        dest: ext split: list.splits if_splits bind_splits prod.splits)
qed

lemma next_piece_spec:
  assumes "mb_inv mb" and "mcontent mb \<noteq> []" and "list_all udp_ok mb" and "length (mcontent mb) < 2147483648"
    and "mw_transferType w = TransferTypePacket \<longrightarrow> (\<forall>b \<in> set mb. length (content b) \<le> Size)"
  shows "\<exists>mb' chunk. next_piece got w mb = Some (mb', chunk) \<and> mcontent chunk @ mcontent mb' = mcontent mb
    \<and> mb_inv chunk \<and> mb_inv mb' \<and> list_all udp_ok chunk \<and> list_all udp_ok mb' \<and> length (mcontent chunk) \<le> Size
    \<and> (mw_transferType w = TransferTypePacket \<longrightarrow> (\<forall>b \<in> set mb'. length (content b) \<le> Size))
    \<and> length (mcontent mb') + length mb' < length (mcontent mb) + length mb"
proof (cases "mw_transferType w")
  case TransferTypePacket
  from assms(2) obtain b mb' where "mb = b # mb'" by (cases mb) auto
  then show ?thesis using assms TransferTypePacket by (simp add: next_piece_def SplitFirst_def)
next
  case TransferTypeStream
  from assms(2) obtain b0 mb0 where mb: "mb = b0 # mb0" by (cases mb) auto
  with assms(1) have inv: "buf_inv b0" "mb_inv mb0" by simp_all
  show ?thesis
  proof (cases "8192 < Buffer_Len b0")
    case True
    from SplitSize_cut [OF inv(1) _ _ True, of got mb0] obtain b c where
      sp: "SplitSize got (b0 # mb0) 8192 = Some (c # mb0, [b])" "buf_inv b" "buf_inv c"
      "content b = take 8192 (content b0)" "content c = drop 8192 (content b0)" by auto
    moreover have "8192 < length (content b0)" using True by (simp add: Buffer_Len_content [OF inv(1)])
    moreover note SplitSize_udp [OF sp(1)]
    ultimately show ?thesis using TransferTypeStream mb inv assms(3) by (simp add: next_piece_def)
  next
    case False
    obtain rest r where s: "split_size_loop mb 0 8192 = (rest, r)" by fastforce
    then have sp: "SplitSize got mb 8192 = Some (rest, r)" using False mb by (simp add: SplitSize_def)
    have "r @ rest = mb \<and> (r \<noteq> [] \<longrightarrow> 0 + int (length (mcontent r)) \<le> 8192)
        \<and> (rest \<noteq> [] \<longrightarrow> 0 + int (length (mcontent (r @ [hd rest]))) > 8192)"
      by (rule split_size_loop_spec [OF assms(1) _ _ s]) (use assms(4) in auto)
    moreover have "r \<noteq> []" using s mb False by (auto simp: Buffer_Len_content [OF inv(1)] Let_def split: prod.splits if_splits)
    ultimately show ?thesis
      using TransferTypeStream sp SplitSize_udp [OF sp assms(3)] assms(1)
      by (intro exI [of _ rest] exI [of _ r]) (auto simp: next_piece_def)
  qed
qed

definition data_meta :: "MuxWriter \<Rightarrow> FrameMetadata" where
  "data_meta w = (let m = fst (getNextFrameMeta w) in m\<lparr>fm_Option := bitmask_Set (fm_Option m) OptionData\<rparr>)"

definition piece_udp :: "MultiBuffer \<Rightarrow> Destination option" where
  "piece_udp data = (case data of [d] \<Rightarrow> buf_UDP d | _ \<Rightarrow> None)"

lemma piece_udp_ok: "list_all udp_ok data \<Longrightarrow> piece_udp data = Some d \<Longrightarrow> dest_ok d"
  by (auto simp: piece_udp_def udp_ok_def split: list.splits)

lemma data_meta_Data: "bitmask_Has (fm_Option (data_meta w)) OptionData"
  by (simp add: data_meta_def bitmask_Has_def bitmask_Set_def OptionData_def getNextFrameMeta_def Let_def
      zero_FrameMetadata_def)

lemma mux_ok_next: "mux_ok rsl w \<Longrightarrow> mux_ok rsl (snd (getNextFrameMeta w))"
  by (simp add: mux_ok_def getNextFrameMeta_def Let_def)

lemma dest_bytes_bound: "dest_ok d \<Longrightarrow> length (dest_bytes d) \<le> 259"
  using length_enc by (auto simp: dest_ok_def dest_bytes_def)

lemma next_meta_ok:
  assumes "mux_ok rsl w" and "\<And>d. udp = Some d \<Longrightarrow> dest_ok d"
    and "f = fst (getNextFrameMeta w) \<or> f = data_meta w"
  shows "frame_ok f udp" and "agreed rsl f" and "length (frame_body f udp) \<le> 512"
proof -
  have f: "fm_SessionStatus f = (if mw_followup w then SessionStatusKeep else SessionStatusNew)"
    "fm_Target f = mw_dest w" "fm_GlobalID f = mw_globalID w" "fm_Inbound f = mw_inbound w"
    using assms(3) by (auto simp: data_meta_def getNextFrameMeta_def Let_def)
  have st: "SessionStatusKeep \<noteq> SessionStatusNew" by (simp add: mux_consts)
  show "frame_ok f udp" using assms(1,2) f st by (auto simp: mux_ok_def frame_ok_def)
  show "agreed rsl f" using assms(1) f st by (auto simp: mux_ok_def agreed_def)
  show "length (frame_body f udp) \<le> 512"
  proof (cases "mw_followup w")
    case True
    have "length (dest_bytes d) \<le> 259" if "udp = Some d" for d using dest_bytes_bound [OF assms(2) [OF that]] .
    with True f st show ?thesis
      by (cases udp) (force simp: frame_body_def frame_rest_def)+
  next
    case False
    with assms(1) have ok: "length (mw_globalID w) = 8" "dest_ok (mw_dest w)"
      "\<And>inb. mw_inbound w = Some inb \<Longrightarrow> length (inbound_bytes inb) \<le> 200"
      by (auto simp: mux_ok_def)
    have n: "length (net_bytes n) \<le> 1" for n by (simp add: net_bytes_def split: option.split)
    define tl where "tl = (case mw_inbound w of Some inb \<Rightarrow> inbound_bytes inb
        | None \<Rightarrow> if udp = None then [] else mw_globalID w)"
    have "length tl \<le> 200" using ok by (auto simp: tl_def split: option.splits)
    moreover have "frame_rest f udp = net_bytes (dest_Network (mw_dest w)) @ dest_bytes (mw_dest w) @ tl"
      using False f by (auto simp: frame_rest_def tl_def split: option.split)
    ultimately have "length (frame_rest f udp) \<le> 1 + (259 + 200)"
      using n [of "dest_Network (mw_dest w)"] dest_bytes_bound [OF ok(2)] by simp
    then show ?thesis by (simp add: frame_body_def)
  qed
qed

lemma UDP_update [simp]:
  "buf_inv (b\<lparr>buf_UDP := u\<rparr>) = buf_inv b" "content (b\<lparr>buf_UDP := u\<rparr>) = content b"
  "Buffer_Available (b\<lparr>buf_UDP := u\<rparr>) = Buffer_Available b"
  by (simp_all add: buf_inv_def content_def Buffer_Available_def)

lemma WriteTo_New:
  assumes "frame_ok f udp" and "length (frame_body f udp) \<le> 512"
  shows "\<exists>b. FrameMetadata_WriteTo f ((Buffer_New got)\<lparr>buf_UDP := udp\<rparr>) = Some (None, b) \<and> buf_inv b
    \<and> content b = frame_bytes f udp \<and> 7000 \<le> Buffer_Available b"
proof -
  let ?b = "(Buffer_New got)\<lparr>buf_UDP := udp\<rparr>"
  have len: "length (frame_bytes f udp) \<le> 514" using assms(2) by (simp add: frame_bytes_def)
  have "buf_inv ?b" "frame_ok f (buf_UDP ?b)" "int (length (frame_bytes f (buf_UDP ?b))) \<le> Buffer_Available ?b"
    using assms(1) len by (simp_all add: Buffer_New_inv)
  from WriteTo_grows [OF this] len show ?thesis by (auto simp: grows_def Buffer_New_inv)
qed

text \<open>The frames of one writer: the first one opens the session, the others continue it.\<close>

fun framed :: "MuxWriter \<Rightarrow> chunk list \<Rightarrow> bool" where
  "framed w [] = True"
| "framed w ((f, udp, p) # cs) \<longleftrightarrow> f = data_meta w \<and> framed (snd (getNextFrameMeta w)) cs"

definition payloads :: "chunk list \<Rightarrow> byte list" where
  "payloads cs = concat (map (\<lambda>(f, udp, p). p) cs)"

context mb_sink
begin

lemma writeData_sends:
  assumes "sok s" and "mux_ok rsl w" and "mb_inv data" and "length (mcontent data) \<le> Size" and "list_all udp_ok data"
  shows "\<exists>s'. writeData put got w s data = Some (None, snd (getNextFrameMeta w), s') \<and> sok s'
    \<and> sent s' = sent s @ chunk_bytes (data_meta w, piece_udp data, mcontent data)
    \<and> chunk_ok rsl (data_meta w, piece_udp data, mcontent data)"
proof -
  let ?u = "piece_udp data" and ?f = "data_meta w"
  note ok = next_meta_ok [OF assms(2) piece_udp_ok [OF assms(5)], of ?u ?f]
  from WriteTo_New [OF ok(1,3), of got] obtain b where
    b: "FrameMetadata_WriteTo ?f ((Buffer_New got)\<lparr>buf_UDP := ?u\<rparr>) = Some (None, b)" "buf_inv b"
    "content b = frame_bytes ?f ?u" "7000 \<le> Buffer_Available b" by auto
  have "(case data of [d] \<Rightarrow> (Buffer_New got)\<lparr>buf_UDP := buf_UDP d\<rparr> | _ \<Rightarrow> Buffer_New got) = (Buffer_New got)\<lparr>buf_UDP := ?u\<rparr>"
    by (simp add: piece_udp_def Buffer_New_def split: list.split)
  note frame = this
  have len: "word_of_int (MultiBuffer_Len data) = (of_nat (length (mcontent data)) :: u16)"
    using assms(4) by (simp add: MultiBuffer_Len_mcontent [OF assms(3)])
  let ?l = "be_put16 (of_nat (length (mcontent data)))"
  have "int (length ?l) \<le> Buffer_Available b" using b(4) by simp
  from Buffer_Write_grows [OF b(2) this] obtain b2 where
    b2: "WriteUint16 buffer_writer b (of_nat (length (mcontent data))) = Some (None, b2)" "buf_inv b2" "content b2 = content b @ ?l"
    by (auto simp: WriteUint16_def buffer_writer_def grows_def)
  have "mb_inv (b2 # data)" using b2(2) assms(3) by simp
  from put_all [OF assms(1) this] obtain s' where
    s': "put s (b2 # data) = Some (None, s')" "sok s'" "sent s' = sent s @ content b2 @ mcontent data" by auto
  have "writeMetaWithFrame put got ?f data s = Some (None, s')"
    using b(1) b2(1) s'(1) by (simp add: writeMetaWithFrame_def frame len)
  then have "writeData put got w s data = Some (None, snd (getNextFrameMeta w), s')"
    by (cases "getNextFrameMeta w") (simp add: writeData_def data_meta_def)
  moreover have "sent s' = sent s @ chunk_bytes (?f, ?u, mcontent data)"
    using s'(3) b2(3) b(3) data_meta_Data by (simp add: data_bytes_def)
  moreover have "chunk_ok rsl (?f, ?u, mcontent data)" using ok assms(4) data_meta_Data by simp
  ultimately show ?thesis using s'(2) by blast
qed

lemma write_loop_sends:
  "\<lbrakk>sok s; mux_ok rsl w; mb_inv mb; list_all udp_ok mb; length (mcontent mb) < 2147483648;
    mw_transferType w = TransferTypePacket \<longrightarrow> (\<forall>b \<in> set mb. length (content b) \<le> Size)\<rbrakk> \<Longrightarrow>
   \<exists>w' s' cs. mux_write_loop put gots k w s mb = Some (None, w', s') \<and> sok s'
     \<and> sent s' = sent s @ concat (map chunk_bytes cs) \<and> list_all (chunk_ok rsl) cs \<and> framed w cs \<and> payloads cs = mcontent mb"
proof (induction "length (mcontent mb) + length mb" arbitrary: mb k w s rule: less_induct)
  case less
  show ?case
  proof (cases "mcontent mb = []")
    case True
    with less.prems show ?thesis
      by (intro exI [of _ w] exI [of _ s] exI [of _ "[]"])
        (simp add: mux_write_loop.simps MultiBuffer_IsEmpty_mcontent payloads_def)
  next
    case False
    from next_piece_spec [OF less.prems(3) False less.prems(4-6), of "gots (2 * k)"] obtain mb' chunk where
      np: "next_piece (gots (2 * k)) w mb = Some (mb', chunk)" "mcontent chunk @ mcontent mb' = mcontent mb"
      "mb_inv chunk" "mb_inv mb'" "list_all udp_ok chunk" "list_all udp_ok mb'" "length (mcontent chunk) \<le> Size"
      "mw_transferType w = TransferTypePacket \<longrightarrow> (\<forall>b \<in> set mb'. length (content b) \<le> Size)"
      "length (mcontent mb') + length mb' < length (mcontent mb) + length mb"
      by blast
    let ?w = "snd (getNextFrameMeta w)" and ?c = "(data_meta w, piece_udp chunk, mcontent chunk)"
    from writeData_sends [OF less.prems(1,2) np(3,7,5), of "gots (2 * k + 1)"] obtain s1 where
      wd: "writeData put (gots (2 * k + 1)) w s chunk = Some (None, ?w, s1)" "sok s1"
      "sent s1 = sent s @ chunk_bytes ?c" "chunk_ok rsl ?c" by blast
    have small: "length (mcontent mb') < 2147483648" using less.prems(5) np(2) by (metis le_add2 length_append order_le_less_trans)
    have tt: "mw_transferType ?w = mw_transferType w" by (simp add: getNextFrameMeta_def Let_def)
    from less.hyps [OF np(9) wd(2) mux_ok_next [OF less.prems(2)] np(4,6) small, of "Suc k"] np(8) obtain w' s' cs where
      ih: "mux_write_loop put gots (Suc k) ?w s1 mb' = Some (None, w', s')" "sok s'"
      "sent s' = sent s1 @ concat (map chunk_bytes cs)" "list_all (chunk_ok rsl) cs" "framed ?w cs" "payloads cs = mcontent mb'"
      unfolding tt by blast
    have "mux_write_loop put gots k w s mb = Some (None, w', s')"
      using False less.prems(3) np(1) wd(1) ih(1) by (subst mux_write_loop.simps) (simp add: MultiBuffer_IsEmpty_mcontent)
    with ih wd(3,4) np(2) show ?thesis
      by (intro exI [of _ w'] exI [of _ s'] exI [of _ "?c # cs"]) (auto simp: payloads_def)
  qed
qed

end

section \<open>Properties\<close>

text \<open>
  C6. What one side of a multiplexed connection writes, the other side reads: a multi buffer written through a
  frame writer is cut into frames that open and then continue the session, and the reader takes the byte
  stream apart into exactly those frames, with the metadata and the payload of each; the payloads together
  are the bytes that were written.
\<close>
theorem mux_payload_delivered:
  assumes "mux_ok rsl w" and "mb_inv mb" and "mcontent mb \<noteq> []" and "list_all udp_ok mb"
    and "length (mcontent mb) < 2147483648"
    and "mw_transferType w = TransferTypePacket \<longrightarrow> (\<forall>b \<in> set mb. length (content b) \<le> Size)"
  shows "\<exists>w' out cs. MuxWriter_WriteMultiBuffer container_put gots w [] mb = Some (None, w', out)
    \<and> framed w cs \<and> payloads cs = mcontent mb
    \<and> list_all2 chunk_same cs (decode_all (read_chunk gots' rsl) 0 (length (mcontent out)) (mcontent out))"
proof -
  have "mb_inv []" by simp
  from container_sink.write_loop_sends [OF this assms(1,2,4-6), of gots 0] obtain w' out cs where
    1: "mux_write_loop container_put gots 0 w [] mb = Some (None, w', out)"
    "mcontent out = concat (map chunk_bytes cs)" "list_all (chunk_ok rsl) cs" "framed w cs" "payloads cs = mcontent mb"
    by auto
  from mux_chunks.decode_all_enc [OF 1(3) order_refl, of gots' 0] 1(2)
  have "list_all2 chunk_same cs (decode_all (read_chunk gots' rsl) 0 (length (mcontent out)) (mcontent out))"
    by simp
  moreover have "MuxWriter_WriteMultiBuffer container_put gots w [] mb = Some (None, w', out)"
    using 1(1) assms(2,3) by (simp add: MuxWriter_WriteMultiBuffer_def MultiBuffer_IsEmpty_mcontent)
  ultimately show ?thesis using 1(4,5) by blast
qed

theorem mux_payload_delivered_witness:
  "\<exists>w' out cs. MuxWriter_WriteMultiBuffer container_put (\<lambda>_. nil_slice)
       (NewWriter 5 (TCPDestination (Some (ipv4Address [1, 2, 3, 4])) 80) TransferTypeStream (replicate 8 0) None)
       [] [FromBytes (sl_of [7, 8, 9])] = Some (None, w', out)
    \<and> framed (NewWriter 5 (TCPDestination (Some (ipv4Address [1, 2, 3, 4])) 80) TransferTypeStream (replicate 8 0) None) cs
    \<and> payloads cs = mcontent [FromBytes (sl_of [7, 8, 9])]
    \<and> list_all2 chunk_same cs (decode_all (read_chunk (\<lambda>_ _. nil_slice) False) 0 (length (mcontent out)) (mcontent out))"
  using FromBytes_inv [of "sl_of [7, 8, 9]"]
  by (intro mux_payload_delivered)
    (simp_all add: mux_ok_def NewWriter_def dest_ok_def TCPDestination_def udp_ok_def FromBytes_def)

text \<open>
  The metadata reader returns on every input, whatever the peer sends and however short it is: truncated
  frames, lengths above the limit, unknown networks and malformed addresses are errors, never a panic.
\<close>
theorem mux_metadata_reader_total:
  "\<exists>err g rest. Unmarshal gots readSourceAndLocal f input = Some (err, g, rest)"
  using Unmarshal_total by (metis not_None_eq prod_cases3)

end
