(* ===== verification/Mux_Session.thy ===== *)
theory Mux_Session
  imports Mux_Frame "HOL-Library.AList"
begin

text \<open>
  The sessions of a multiplexed connection: \<^verbatim>\<open>common/mux/session.go\<close>, the frame handlers of the client and of
  the server worker (\<^verbatim>\<open>client.go\<close>, \<^verbatim>\<open>server.go\<close>), and the manager of UDP sessions that survive their connection.
  Sessions are shared by reference between the manager's table and the goroutines that run them, so
  they live in a store indexed by references.
\<close>

section \<open>State\<close>

datatype xudp_status = Initializing | Active | Expiring

text \<open>
  \<open>s_out\<close> are the bytes written to the session's output, \<open>s_released\<close> counts how often \<open>Close\<close>
  interrupted the input and closed the output (or detached them, for a UDP session with a global id);
  \<open>s_done\<close> is the \<^verbatim>\<open>done\<close> signal, which only client sessions have.
\<close>

record Session =
  s_ID :: u16
  s_transferType :: TransferType
  s_closed :: bool
  s_done :: "bool option"
  s_XUDP :: "nat option"
  s_out :: "byte list"
  s_released :: nat
  s_detached :: nat

record XUDP =
  x_GlobalID :: "byte list"
  x_Status :: xudp_status
  x_Expire :: nat
  x_Mux :: nat

record world =
  w_sessions :: "(u16 \<times> nat) list"
  w_count :: u16
  w_closed :: bool
  w_sess :: "nat \<Rightarrow> Session"
  w_next :: nat
  w_xudp :: "nat \<Rightarrow> XUDP"
  w_xmap :: "(byte list \<times> nat) list"
  w_sent :: "FrameMetadata list"

record ClientStrategy =
  MaxConcurrency :: u32
  MaxConnection :: u32

section \<open>The session manager\<close>

definition NewSessionManager :: "world \<Rightarrow> world" where
  "NewSessionManager w = w\<lparr>w_count := 0, w_sessions := [], w_closed := False\<rparr>"

definition SessionManager_Closed :: "world \<Rightarrow> bool" where
  "SessionManager_Closed w = w_closed w"

definition SessionManager_Size :: "world \<Rightarrow> nat" where
  "SessionManager_Size w = length (w_sessions w)"

definition SessionManager_Count :: "world \<Rightarrow> nat" where
  "SessionManager_Count w = unat (w_count w)"

definition Allocate :: "ClientStrategy \<Rightarrow> world \<Rightarrow> nat option \<times> world" where
  "Allocate strategy w =
     (let maxConcurrency = unat (MaxConcurrency strategy);
          maxConnection = (ucast (MaxConnection strategy) :: u16)
      in if w_closed w \<or> (maxConcurrency > 0 \<and> length (w_sessions w) \<ge> maxConcurrency)
           \<or> (maxConnection > 0 \<and> w_count w \<ge> maxConnection)
         then (None, w)
         else
           let sid = w_count w + 1; r = w_next w;
               s = \<lparr>s_ID = sid, s_transferType = TransferTypeStream, s_closed = False, s_done = Some False,
                    s_XUDP = None, s_out = [], s_released = 0, s_detached = 0\<rparr>
           in (Some r, w\<lparr>w_count := sid, w_sess := (w_sess w)(r := s), w_next := Suc r,
                 w_sessions := AList.update sid r (w_sessions w)\<rparr>))"

definition SessionManager_Add :: "nat \<Rightarrow> world \<Rightarrow> bool \<times> world" where
  "SessionManager_Add r w =
     (if w_closed w then (False, w)
      else (True, w\<lparr>w_count := w_count w + 1, w_sessions := AList.update (s_ID (w_sess w r)) r (w_sessions w)\<rparr>))"

definition SessionManager_Remove :: "u16 \<Rightarrow> world \<Rightarrow> world" where
  "SessionManager_Remove sid w =
     (if w_closed w then w else w\<lparr>w_sessions := AList.delete sid (w_sessions w)\<rparr>)"

definition SessionManager_Get :: "u16 \<Rightarrow> world \<Rightarrow> nat option" where
  "SessionManager_Get sid w = (if w_closed w then None else map_of (w_sessions w) sid)"

definition CloseIfNoSessionAndIdle :: "nat \<Rightarrow> nat \<Rightarrow> world \<Rightarrow> bool \<times> world" where
  "CloseIfNoSessionAndIdle checkSize checkCount w =
     (if w_closed w then (True, w)
      else if length (w_sessions w) \<noteq> 0 \<or> checkSize \<noteq> 0 \<or> checkCount \<noteq> unat (w_count w) then (False, w)
      else (True, w\<lparr>w_closed := True, w_sessions := []\<rparr>))"

text \<open>
  \<^verbatim>\<open>Session.Close\<close>; \<open>now\<close> is the clock in seconds. A session with a global id keeps its pipes for a
  later connection and only starts to expire.
\<close>

definition Session_Close :: "nat \<Rightarrow> nat \<Rightarrow> world \<Rightarrow> world" where
  "Session_Close now r w =
     (let s = w_sess w r in
      if s_closed s then w
      else
        let s = s\<lparr>s_closed := True, s_done := map_option (\<lambda>_. True) (s_done s)\<rparr>;
            w = (case s_XUDP s of
                   None \<Rightarrow> w\<lparr>w_sess := (w_sess w)(r := s\<lparr>s_released := Suc (s_released s)\<rparr>)\<rparr>
                 | Some x \<Rightarrow>
                     let w = w\<lparr>w_sess := (w_sess w)(r := s\<lparr>s_detached := Suc (s_detached s)\<rparr>)\<rparr> in
                     if x_Status (w_xudp w x) = Active
                     then w\<lparr>w_xudp := (w_xudp w)(x := (w_xudp w x)\<lparr>x_Expire := now + 60, x_Status := Expiring\<rparr>)\<rparr>
                     else w)
        in SessionManager_Remove (s_ID s) w)"

definition SessionManager_Close :: "nat \<Rightarrow> world \<Rightarrow> world" where
  "SessionManager_Close now w =
     (if w_closed w then w
      else
        let w1 = fold (\<lambda>(sid, r). Session_Close now r) (w_sessions w) (w\<lparr>w_closed := True\<rparr>)
        in w1\<lparr>w_sessions := []\<rparr>)"

text \<open>
  The goroutine of \<^verbatim>\<open>init\<close>: every minute the expired entries are interrupted and forgotten.
\<close>

definition XUDP_Interrupt :: "nat \<Rightarrow> world \<Rightarrow> world" where
  "XUDP_Interrupt x w =
     (let r = x_Mux (w_xudp w x)
      in w\<lparr>w_sess := (w_sess w)(r := (w_sess w r)\<lparr>s_released := Suc (s_released (w_sess w r))\<rparr>)\<rparr>)"

definition xudp_sweep :: "nat \<Rightarrow> world \<Rightarrow> world" where
  "xudp_sweep now w =
     fold (\<lambda>(gid, x) w.
        if x_Status (w_xudp w x) = Expiring \<and> now > x_Expire (w_xudp w x)
        then (XUDP_Interrupt x w)\<lparr>w_xmap := AList.delete gid (w_xmap w)\<rparr> else w) (w_xmap w) w"

section \<open>The frame handlers\<close>

text \<open>
  A frame arrives with its metadata and the payload that the readers of \<open>Buf_IO\<close> and \<open>Mux_Frame\<close> take
  off the connection when the data option is set. \<open>wfail r = Some k\<close> tells that writing the payload to the
  output of session \<open>r\<close> fails after \<open>k\<close> bytes; the rest of the payload is discarded then. A frame whose payload
  cannot be read to its end is the end of the connection.
\<close>

definition send_end :: "u16 \<Rightarrow> world \<Rightarrow> world" where
  "send_end sid w = w\<lparr>w_sent := w_sent w @ [zero_FrameMetadata\<lparr>fm_SessionID := sid, fm_SessionStatus := SessionStatusEnd\<rparr>]\<rparr>"

text \<open>\<^verbatim>\<open>buf.Copy(rr, s.output)\<close> and the closing of a session whose output fails.\<close>

definition deliver :: "nat \<Rightarrow> byte list \<Rightarrow> world \<Rightarrow> world" where
  "deliver r p w = w\<lparr>w_sess := (w_sess w)(r := (w_sess w r)\<lparr>s_out := s_out (w_sess w r) @ p\<rparr>)\<rparr>"

definition copy_payload :: "nat \<Rightarrow> (nat \<Rightarrow> nat option) \<Rightarrow> nat \<Rightarrow> byte list \<Rightarrow> world \<Rightarrow> world" where
  "copy_payload now wfail r payload w =
     (case wfail r of
        None \<Rightarrow> deliver r payload w
      | Some k \<Rightarrow> Session_Close now r (deliver r (take k payload) w))"

definition handleStatusKeep :: "nat \<Rightarrow> (nat \<Rightarrow> nat option) \<Rightarrow> FrameMetadata \<Rightarrow> byte list \<Rightarrow> world \<Rightarrow> world" where
  "handleStatusKeep now wfail meta payload w =
     (if \<not> bitmask_Has (fm_Option meta) OptionData then w
      else case SessionManager_Get (fm_SessionID meta) w of
        None \<Rightarrow> send_end (fm_SessionID meta) w
      | Some r \<Rightarrow> copy_payload now wfail r payload w)"

definition handleStatusEnd :: "nat \<Rightarrow> FrameMetadata \<Rightarrow> world \<Rightarrow> world" where
  "handleStatusEnd now meta w =
     (case SessionManager_Get (fm_SessionID meta) w of
        None \<Rightarrow> w
      | Some r \<Rightarrow> Session_Close now r w)"

text \<open>The loop body of the client's \<^verbatim>\<open>fetchOutput\<close>; an unknown status ends the connection.\<close>

definition client_frame :: "nat \<Rightarrow> (nat \<Rightarrow> nat option) \<Rightarrow> FrameMetadata \<times> byte list \<Rightarrow> world \<Rightarrow> bool \<times> world" where
  "client_frame now wfail frame w =
     (let (meta, payload) = frame in
      if fm_SessionStatus meta = SessionStatusKeepAlive then (True, w)
      else if fm_SessionStatus meta = SessionStatusEnd then (True, handleStatusEnd now meta w)
      else if fm_SessionStatus meta = SessionStatusNew then (True, w)
      else if fm_SessionStatus meta = SessionStatusKeep then (True, handleStatusKeep now wfail meta payload w)
      else (False, w))"

fun fetchOutput :: "nat \<Rightarrow> (nat \<Rightarrow> nat option) \<Rightarrow> (FrameMetadata \<times> byte list) list \<Rightarrow> world \<Rightarrow> world" where
  "fetchOutput now wfail [] w = w"
| "fetchOutput now wfail (f # fs) w =
     (let (ok, w) = client_frame now wfail f w in if ok then fetchOutput now wfail fs w else w)"

text \<open>
  The client's limits: \<^verbatim>\<open>IsClosing\<close>, \<^verbatim>\<open>IsFull\<close> and \<^verbatim>\<open>Dispatch\<close>; \<open>isdone\<close> is the worker's own signal.
\<close>

definition IsClosing :: "ClientStrategy \<Rightarrow> world \<Rightarrow> bool" where
  "IsClosing strategy w \<longleftrightarrow> MaxConnection strategy > 0 \<and> SessionManager_Count w \<ge> unat (MaxConnection strategy)"

definition IsFull :: "ClientStrategy \<Rightarrow> bool \<Rightarrow> world \<Rightarrow> bool" where
  "IsFull strategy isdone w \<longleftrightarrow> IsClosing strategy w \<or> isdone
     \<or> (MaxConcurrency strategy > 0 \<and> SessionManager_Size w \<ge> unat (MaxConcurrency strategy))"

definition ClientWorker_Dispatch :: "ClientStrategy \<Rightarrow> bool \<Rightarrow> world \<Rightarrow> nat option \<times> world" where
  "ClientWorker_Dispatch strategy isdone w = (if IsFull strategy isdone w then (None, w) else Allocate strategy w)"

text \<open>
  The server's handling of a new session without a global id: \<open>link\<close> tells whether the dispatcher gave
  it a link.
\<close>

definition server_new :: "nat \<Rightarrow> bool \<Rightarrow> (nat \<Rightarrow> nat option) \<Rightarrow> FrameMetadata \<Rightarrow> byte list \<Rightarrow> world \<Rightarrow> go_error option \<times> world" where
  "server_new now link wfail meta payload w =
     (if \<not> link then (Some (ErrNew ''failed to dispatch request.''), w)
      else
        let r = w_next w;
            s = \<lparr>s_ID = fm_SessionID meta,
                 s_transferType = (if dest_Network (fm_Target meta) = Network_UDP then TransferTypePacket else TransferTypeStream),
                 s_closed = False, s_done = None, s_XUDP = None, s_out = [], s_released = 0, s_detached = 0\<rparr>;
            w = w\<lparr>w_sess := (w_sess w)(r := s), w_next := Suc r\<rparr>;
            (added, w) = SessionManager_Add r w
        in if \<not> added then (Some (ErrNew ''failed to add new session''), Session_Close now r w)
           else if \<not> bitmask_Has (fm_Option meta) OptionData then (None, w)
           else (None, copy_payload now wfail r payload w))"

definition server_frame :: "nat \<Rightarrow> bool \<Rightarrow> (nat \<Rightarrow> nat option) \<Rightarrow> FrameMetadata \<times> byte list \<Rightarrow> world \<Rightarrow> go_error option \<times> world" where
  "server_frame now link wfail frame w =
     (let (meta, payload) = frame in
      if fm_SessionStatus meta = SessionStatusKeepAlive then (None, w)
      else if fm_SessionStatus meta = SessionStatusEnd then (None, handleStatusEnd now meta w)
      else if fm_SessionStatus meta = SessionStatusNew then server_new now link wfail meta payload w
      else if fm_SessionStatus meta = SessionStatusKeep then (None, handleStatusKeep now wfail meta payload w)
      else (Some (ErrNew ''unknown status: ''), w))"

section \<open>The client's sessions\<close>

inductive client_step :: "ClientStrategy \<Rightarrow> world \<Rightarrow> world \<Rightarrow> bool" for strategy where
  dispatch: "client_step strategy w (snd (ClientWorker_Dispatch strategy isdone w))"
| frame: "client_step strategy w (snd (client_frame now wfail f w))"
| session_end: "r < w_next w \<Longrightarrow> client_step strategy w (Session_Close now r w)"
| idle: "client_step strategy w (snd (CloseIfNoSessionAndIdle checkSize checkCount w))"
| shutdown: "client_step strategy w (SessionManager_Close now w)"

text \<open>
  The invariant of a client connection: the identifiers of its sessions are different and lie between 1 and the
  counter; the open sessions are those of the table as long as the manager is open, and none afterwards;
  the resources of a session are released when it is closed, once.
\<close>

definition once :: "Session \<Rightarrow> bool" where
  "once s \<longleftrightarrow> s_XUDP s = None \<and> s_detached s = 0 \<and> s_released s = (if s_closed s then 1 else 0)
     \<and> s_done s = Some (s_closed s)"

definition client_inv :: "world \<Rightarrow> bool" where
  "client_inv w \<longleftrightarrow> distinct (map fst (w_sessions w))
     \<and> (\<forall>sid r. (sid, r) \<in> set (w_sessions w) \<longleftrightarrow>
          r < w_next w \<and> \<not> w_closed w \<and> \<not> s_closed (w_sess w r) \<and> s_ID (w_sess w r) = sid)
     \<and> (\<forall>r < w_next w. once (w_sess w r) \<and> 0 < unat (s_ID (w_sess w r)) \<and> unat (s_ID (w_sess w r)) \<le> unat (w_count w))
     \<and> inj_on (\<lambda>r. s_ID (w_sess w r)) {..< w_next w}
     \<and> (w_closed w \<longrightarrow> (\<forall>r < w_next w. s_closed (w_sess w r)))"

lemma client_invD:
  assumes "client_inv w"
  shows "distinct (map fst (w_sessions w))"
    and "(sid, r) \<in> set (w_sessions w) \<longleftrightarrow>
          r < w_next w \<and> \<not> w_closed w \<and> \<not> s_closed (w_sess w r) \<and> s_ID (w_sess w r) = sid"
    and "r < w_next w \<Longrightarrow> once (w_sess w r)"
    and "r < w_next w \<Longrightarrow> unat (s_ID (w_sess w r)) \<le> unat (w_count w)"
    and "r < w_next w \<Longrightarrow> r' < w_next w \<Longrightarrow> s_ID (w_sess w r) = s_ID (w_sess w r') \<Longrightarrow> r = r'"
    and "w_closed w \<Longrightarrow> r < w_next w \<Longrightarrow> s_closed (w_sess w r)"
    and "r < w_next w \<Longrightarrow> 0 < unat (s_ID (w_sess w r))"
  using assms by (auto simp: client_inv_def inj_on_def)

lemma client_invI:
  assumes "distinct (map fst (w_sessions w))"
    and "\<And>sid r. (sid, r) \<in> set (w_sessions w) \<longleftrightarrow>
          r < w_next w \<and> \<not> w_closed w \<and> \<not> s_closed (w_sess w r) \<and> s_ID (w_sess w r) = sid"
    and "\<And>r. r < w_next w \<Longrightarrow> once (w_sess w r) \<and> 0 < unat (s_ID (w_sess w r)) \<and> unat (s_ID (w_sess w r)) \<le> unat (w_count w)"
    and "\<And>r r'. r < w_next w \<Longrightarrow> r' < w_next w \<Longrightarrow> s_ID (w_sess w r) = s_ID (w_sess w r') \<Longrightarrow> r = r'"
    and "\<And>r. w_closed w \<Longrightarrow> r < w_next w \<Longrightarrow> s_closed (w_sess w r)"
  shows "client_inv w"
  using assms unfolding client_inv_def inj_on_def by blast

lemma Get_client:
  "client_inv w \<Longrightarrow> SessionManager_Get sid w = Some r \<longleftrightarrow>
     r < w_next w \<and> \<not> w_closed w \<and> \<not> s_closed (w_sess w r) \<and> s_ID (w_sess w r) = sid"
  using client_invD(2) [of w sid r] by (auto simp: SessionManager_Get_def client_inv_def)

lemma set_delete: "distinct (map fst al) \<Longrightarrow> set (AList.delete k al) = {(a, b) \<in> set al. a \<noteq> k}"
  by (auto simp: AList.delete_eq)

lemma set_update_fresh: "k \<notin> fst ` set al \<Longrightarrow> AList.update k v al = al @ [(k, v)]"
  by (induction al) auto

text \<open>
  The sessions are numbered in the order in which they are started, modulo \<open>2 ^ 16\<close>. The identifiers do not wrap
  if the limit on the number of sessions, read as a 16-bit value, is not 0, or as long as there were at most 65535.
\<close>

definition counted :: "world \<Rightarrow> bool" where
  "counted w \<longleftrightarrow> w_count w = of_nat (w_next w) \<and> (\<forall>r < w_next w. s_ID (w_sess w r) = of_nat (Suc r))"

definition no_wrap :: "ClientStrategy \<Rightarrow> world \<Rightarrow> bool" where
  "no_wrap strategy w \<longleftrightarrow> (ucast (MaxConnection strategy) :: u16) > 0 \<or> w_next w \<le> 65535"

lemma Allocate_count:
  assumes "counted w" and "no_wrap strategy (snd (Allocate strategy w))" and "fst (Allocate strategy w) = Some r"
  shows "unat (w_count w) < 65535"
proof (cases "(ucast (MaxConnection strategy) :: u16) > 0")
  case True
  then have "w_count w < ucast (MaxConnection strategy)"
    using assms(3) by (auto simp: Allocate_def Let_def not_le split: if_splits)
  then show ?thesis using unat_u16_less [of "ucast (MaxConnection strategy)"] by (auto simp: word_less_nat_alt)
next
  case False
  moreover have "w_next (snd (Allocate strategy w)) = Suc (w_next w)"
    using assms(3) by (auto simp: Allocate_def Let_def split: if_splits)
  ultimately have "w_next w < 65535" using assms(2) by (simp add: no_wrap_def)
  then show ?thesis using assms(1) by (simp add: counted_def unat_of_nat)
qed

lemma Allocate_client:
  assumes "client_inv w" and "counted w" and "no_wrap strategy (snd (Allocate strategy w))"
  shows "client_inv (snd (Allocate strategy w))"
    and "fst (Allocate strategy w) = Some r \<Longrightarrow> r = w_next w"
proof -
  show "client_inv (snd (Allocate strategy w))"
  proof (cases "fst (Allocate strategy w)")
    case None
    then have "snd (Allocate strategy w) = w" by (auto simp: Allocate_def Let_def split: if_splits)
    with assms show ?thesis by simp
  next
    case (Some r)
    let ?sid = "w_count w + 1"
    from Some have open': "\<not> w_closed w" by (auto simp: Allocate_def Let_def split: if_splits)
    have "unat (w_count w) < 65535" using assms(2,3) Some by (rule Allocate_count)
    then have sid: "unat ?sid = Suc (unat (w_count w))" by (simp add: unat_word_ariths)
    note d = client_invD [OF assms(1)]
    have new: "s_ID (w_sess w r') \<noteq> ?sid" if "r' < w_next w" for r' using d(4) [OF that] sid by auto
    have fresh: "?sid \<notin> fst ` set (w_sessions w)" using d(2) new by auto
    have upd: "AList.update ?sid (w_next w) (w_sessions w) = w_sessions w @ [(?sid, w_next w)]"
      using fresh by (rule set_update_fresh)
    define s where "s = \<lparr>s_ID = ?sid, s_transferType = TransferTypeStream, s_closed = False, s_done = Some False,
                    s_XUDP = None, s_out = [], s_released = 0, s_detached = 0\<rparr>"
    have w': "snd (Allocate strategy w) = w\<lparr>w_count := ?sid, w_sess := (w_sess w)(w_next w := s), w_next := Suc (w_next w),
        w_sessions := w_sessions w @ [(?sid, w_next w)]\<rparr>"
      using Some by (auto simp: Allocate_def Let_def upd s_def split: if_splits)
    have s: "once s" "s_ID s = ?sid" "\<not> s_closed s" by (simp_all add: s_def once_def)
    show ?thesis
    proof (rule client_invI)
      show "distinct (map fst (w_sessions (snd (Allocate strategy w))))" unfolding w' using d(1) fresh by auto
      fix r r' :: nat
      show "(sid, r) \<in> set (w_sessions (snd (Allocate strategy w))) \<longleftrightarrow> r < w_next (snd (Allocate strategy w))
          \<and> \<not> w_closed (snd (Allocate strategy w)) \<and> \<not> s_closed (w_sess (snd (Allocate strategy w)) r)
          \<and> s_ID (w_sess (snd (Allocate strategy w)) r) = sid" for sid
        unfolding w' using d(2) [of sid r] s open' by (auto simp: less_Suc_eq)
      show "r < w_next (snd (Allocate strategy w)) \<Longrightarrow> once (w_sess (snd (Allocate strategy w)) r)
          \<and> 0 < unat (s_ID (w_sess (snd (Allocate strategy w)) r))
          \<and> unat (s_ID (w_sess (snd (Allocate strategy w)) r)) \<le> unat (w_count (snd (Allocate strategy w)))"
        unfolding w' using d(3,4,7) [of r] s sid by (auto simp: less_Suc_eq)
      show "r < w_next (snd (Allocate strategy w)) \<Longrightarrow> r' < w_next (snd (Allocate strategy w)) \<Longrightarrow>
          s_ID (w_sess (snd (Allocate strategy w)) r) = s_ID (w_sess (snd (Allocate strategy w)) r') \<Longrightarrow> r = r'"
        unfolding w' using d(5) [of r r'] new [of r] new [of r'] s(2)
        by (cases "r = w_next w"; cases "r' = w_next w") (simp_all add: less_Suc_eq)
    qed (use w' open' in simp)
  qed
  show "fst (Allocate strategy w) = Some r \<Longrightarrow> r = w_next w"
    by (auto simp: Allocate_def Let_def split: if_splits)
qed

lemma Session_Close_client:
  assumes "client_inv w" and "r < w_next w"
  shows "client_inv (Session_Close now r w)"
proof (cases "s_closed (w_sess w r)")
  case True
  with assms show ?thesis by (simp add: Session_Close_def)
next
  case False
  note d = client_invD [OF assms(1)]
  from False d(6) assms(2) have op: "\<not> w_closed w" by auto
  let ?s = "w_sess w r"
  let ?s' = "?s\<lparr>s_closed := True, s_done := Some True, s_released := 1\<rparr>"
  have o: "once ?s" using d(3) [OF assms(2)] .
  then have w': "Session_Close now r w =
      w\<lparr>w_sess := (w_sess w)(r := ?s'), w_sessions := AList.delete (s_ID ?s) (w_sessions w)\<rparr>"
    using False op by (simp add: Session_Close_def SessionManager_Remove_def once_def Let_def)
  have o': "once ?s'" using o by (simp add: once_def)
  have "set (AList.delete (s_ID ?s) (w_sessions w)) = {(a, b) \<in> set (w_sessions w). a \<noteq> s_ID ?s}"
    using set_delete [OF d(1)] .
  note mem = this
  show ?thesis
  proof (rule client_invI)
    show "distinct (map fst (w_sessions (Session_Close now r w)))" unfolding w' using d(1) by (simp add: AList.distinct_delete)
    fix q q' :: nat
    show "(sid, q) \<in> set (w_sessions (Session_Close now r w)) \<longleftrightarrow> q < w_next (Session_Close now r w)
        \<and> \<not> w_closed (Session_Close now r w) \<and> \<not> s_closed (w_sess (Session_Close now r w) q)
        \<and> s_ID (w_sess (Session_Close now r w) q) = sid" for sid
      unfolding w' using mem d(2) [of sid q] d(5) [of q r] assms(2) by auto
    show "q < w_next (Session_Close now r w) \<Longrightarrow> once (w_sess (Session_Close now r w) q)
        \<and> 0 < unat (s_ID (w_sess (Session_Close now r w) q))
        \<and> unat (s_ID (w_sess (Session_Close now r w) q)) \<le> unat (w_count (Session_Close now r w))"
      unfolding w' using d(3,4,7) [of q] o' by auto
    show "q < w_next (Session_Close now r w) \<Longrightarrow> q' < w_next (Session_Close now r w) \<Longrightarrow>
        s_ID (w_sess (Session_Close now r w) q) = s_ID (w_sess (Session_Close now r w) q') \<Longrightarrow> q = q'"
      unfolding w' using d(5) [of q q'] by (auto split: if_splits)
  qed (use w' op in simp)
qed

text \<open>Closing the manager closes every session of the table.\<close>

definition close_one :: "Session \<Rightarrow> Session" where
  "close_one s = (if s_closed s then s
     else s\<lparr>s_closed := True, s_done := map_option (\<lambda>_. True) (s_done s), s_released := Suc (s_released s)\<rparr>)"

lemma close_one_simps [simp]:
  "s_closed (close_one s)" "s_XUDP (close_one s) = s_XUDP s" "close_one (close_one s) = close_one s"
  "s_ID (close_one s) = s_ID s" "once s \<Longrightarrow> once (close_one s)"
  by (auto simp: close_one_def once_def)

lemma fold_close:
  "w_closed w \<Longrightarrow> \<forall>r \<in> snd ` set l. s_XUDP (w_sess w r) = None \<Longrightarrow>
   fold (\<lambda>(sid, r). Session_Close now r) l w =
     w\<lparr>w_sess := (\<lambda>r. if r \<in> snd ` set l then close_one (w_sess w r) else w_sess w r)\<rparr>"
proof (induction l arbitrary: w)
  case (Cons x l)
  obtain sid r where x: "x = (sid, r)" by (cases x)
  let ?w = "w\<lparr>w_sess := (w_sess w)(r := close_one (w_sess w r))\<rparr>"
  have "Session_Close now r w = ?w"
    using Cons.prems x by (auto simp: Session_Close_def SessionManager_Remove_def close_one_def Let_def)
  moreover have "fold (\<lambda>(sid, r). Session_Close now r) l ?w =
      ?w\<lparr>w_sess := (\<lambda>q. if q \<in> snd ` set l then close_one (w_sess ?w q) else w_sess ?w q)\<rparr>"
    using Cons.prems x by (intro Cons.IH) auto
  moreover have "(\<lambda>q. if q \<in> snd ` set l then close_one (w_sess ?w q) else w_sess ?w q) =
      (\<lambda>q. if q \<in> snd ` set (x # l) then close_one (w_sess w q) else w_sess w q)"
    by (auto simp: x fun_eq_iff)
  ultimately show ?case by (simp add: x)
qed simp

lemma SessionManager_Close_client:
  assumes "client_inv w"
  shows "client_inv (SessionManager_Close now w)"
proof (cases "w_closed w")
  case True
  with assms show ?thesis by (simp add: SessionManager_Close_def)
next
  case False
  note d = client_invD [OF assms]
  let ?f = "\<lambda>r. if r \<in> snd ` set (w_sessions w) then close_one (w_sess w r) else w_sess w r"
  have "\<forall>r \<in> snd ` set (w_sessions w). s_XUDP (w_sess w r) = None" using d(2,3) by (force simp: once_def)
  with False have w': "SessionManager_Close now w = w\<lparr>w_closed := True, w_sess := ?f, w_sessions := []\<rparr>"
    using fold_close [of "w\<lparr>w_closed := True\<rparr>" "w_sessions w" now] by (simp add: SessionManager_Close_def cong: if_cong)
  have cl: "s_closed (?f r)" if "r < w_next w" for r
    using d(2) [of "s_ID (w_sess w r)" r] that False by force
  show ?thesis
  proof (rule client_invI)
    fix r r' :: nat
    show "r < w_next (SessionManager_Close now w) \<Longrightarrow> once (w_sess (SessionManager_Close now w) r)
        \<and> 0 < unat (s_ID (w_sess (SessionManager_Close now w) r))
        \<and> unat (s_ID (w_sess (SessionManager_Close now w) r)) \<le> unat (w_count (SessionManager_Close now w))"
      unfolding w' using d(3,4,7) [of r] by simp
    show "r < w_next (SessionManager_Close now w) \<Longrightarrow> r' < w_next (SessionManager_Close now w) \<Longrightarrow>
        s_ID (w_sess (SessionManager_Close now w) r) = s_ID (w_sess (SessionManager_Close now w) r') \<Longrightarrow> r = r'"
      unfolding w' using d(5) [of r r'] by (simp split: if_splits)
  qed (use cl in \<open>simp_all add: w'\<close>)
qed

lemma CloseIfIdle_client:
  assumes "client_inv w"
  shows "client_inv (snd (CloseIfNoSessionAndIdle checkSize checkCount w))"
proof (cases "\<not> w_closed w \<and> length (w_sessions w) = 0 \<and> checkSize = 0 \<and> checkCount = unat (w_count w)")
  case True
  note d = client_invD [OF assms]
  have "snd (CloseIfNoSessionAndIdle checkSize checkCount w) = w\<lparr>w_closed := True, w_sessions := []\<rparr>"
    using True by (simp add: CloseIfNoSessionAndIdle_def)
  moreover have "s_closed (w_sess w r)" if "r < w_next w" for r
    using d(2) [of "s_ID (w_sess w r)" r] that True by auto
  ultimately show ?thesis
    by (intro client_invI) (use d(3-5,7) in auto)
next
  case False
  then have "snd (CloseIfNoSessionAndIdle checkSize checkCount w) = w"
    by (auto simp: CloseIfNoSessionAndIdle_def)
  with assms show ?thesis by simp
qed

lemma deliver_fields [simp]:
  "w_sessions (deliver r p w) = w_sessions w" "w_next (deliver r p w) = w_next w" "w_closed (deliver r p w) = w_closed w"
  "w_count (deliver r p w) = w_count w" "s_ID (w_sess (deliver r p w) q) = s_ID (w_sess w q)"
  "s_closed (w_sess (deliver r p w) q) = s_closed (w_sess w q)" "once (w_sess (deliver r p w) q) = once (w_sess w q)"
  by (simp_all add: deliver_def once_def)

lemma deliver_client: "client_inv w \<Longrightarrow> client_inv (deliver r p w)"
  by (simp add: client_inv_def)

lemma send_end_client: "client_inv w \<Longrightarrow> client_inv (send_end sid w)"
  by (simp add: client_inv_def send_end_def)

lemma client_frame_client:
  assumes "client_inv w"
  shows "client_inv (snd (client_frame now wfail f w))"
proof -
  have "client_inv (handleStatusKeep now wfail meta p w)" for meta p
    using assms Session_Close_client Get_client [OF assms] deliver_client send_end_client
    by (auto simp: handleStatusKeep_def copy_payload_def split: option.split)
  moreover have "client_inv (handleStatusEnd now meta w)" for meta
    using assms Session_Close_client Get_client [OF assms] by (auto simp: handleStatusEnd_def split: option.split)
  ultimately show ?thesis using assms by (cases f) (simp add: client_frame_def)
qed

text \<open>Every step keeps the numbering, without any limit; only a dispatch starts a session.\<close>

lemma same_counted:
  assumes "w_count w' = w_count w" "w_next w' = w_next w" "\<And>r. s_ID (w_sess w' r) = s_ID (w_sess w r)"
  shows "counted w' = counted w"
  using assms by (simp add: counted_def)

lemma Session_Close_count:
  "w_count (Session_Close now q w) = w_count w" "w_next (Session_Close now q w) = w_next w"
  "s_ID (w_sess (Session_Close now q w) r) = s_ID (w_sess w r)"
  by (auto simp: Session_Close_def SessionManager_Remove_def Let_def split: option.split)

lemma close_all_count:
  "w_count (fold (\<lambda>(sid, r). Session_Close now r) xs w) = w_count w \<and> w_next (fold (\<lambda>(sid, r). Session_Close now r) xs w) = w_next w \<and>
     s_ID (w_sess (fold (\<lambda>(sid, r). Session_Close now r) xs w) q) = s_ID (w_sess w q)"
  by (induction xs arbitrary: w) (auto simp: Session_Close_count)

lemma client_frame_count:
  "w_count (snd (client_frame now wfail f w)) = w_count w" "w_next (snd (client_frame now wfail f w)) = w_next w"
  "s_ID (w_sess (snd (client_frame now wfail f w)) r) = s_ID (w_sess w r)"
  by (auto simp: client_frame_def handleStatusEnd_def handleStatusKeep_def copy_payload_def send_end_def Session_Close_count
      split: prod.split option.split)

lemma client_step_counted:
  assumes "client_step strategy w w'"
  shows "w_next w \<le> w_next w'" and "counted w \<Longrightarrow> counted w'"
proof -
  have other: "w_next w \<le> w_next w' \<and> (counted w \<longrightarrow> counted w')"
    if "w_count w' = w_count w" "w_next w' = w_next w" "\<And>r. s_ID (w_sess w' r) = s_ID (w_sess w r)"
    using same_counted [of w' w] that by simp
  have "w_next w \<le> w_next w' \<and> (counted w \<longrightarrow> counted w')"
    using assms
  proof cases
    case (dispatch isdone)
    then show ?thesis
      by (auto simp: ClientWorker_Dispatch_def Allocate_def Let_def counted_def less_Suc_eq)
  next
    case (shutdown now)
    then show ?thesis by (intro other) (auto simp: SessionManager_Close_def Let_def close_all_count)
  next
    case (idle checkSize checkCount)
    then show ?thesis by (intro other) (auto simp: CloseIfNoSessionAndIdle_def)
  next
    case (frame now wfail f)
    then show ?thesis by (intro other) (simp_all add: client_frame_count)
  next
    case (session_end r now)
    then show ?thesis by (intro other) (simp_all add: Session_Close_count)
  qed
  then show "w_next w \<le> w_next w'" "counted w \<Longrightarrow> counted w'" by auto
qed

lemma client_step_inv:
  assumes "client_step strategy w w'" and "no_wrap strategy w'" and "counted w" and "client_inv w"
  shows "client_inv w'"
  using assms(1)
proof cases
  case (dispatch isdone)
  then show ?thesis
    using assms(2-4) Allocate_client(1) by (auto simp: ClientWorker_Dispatch_def)
qed (use assms(4) client_frame_client Session_Close_client CloseIfIdle_client SessionManager_Close_client in auto)

lemma client_steps_inv:
  "(client_step strategy)\<^sup>*\<^sup>* w w' \<Longrightarrow> counted w \<Longrightarrow> counted w'"
  "(client_step strategy)\<^sup>*\<^sup>* w w' \<Longrightarrow> no_wrap strategy w' \<Longrightarrow> counted w \<Longrightarrow> client_inv w \<Longrightarrow> client_inv w'"
proof -
  show c: "(client_step strategy)\<^sup>*\<^sup>* w w' \<Longrightarrow> counted w \<Longrightarrow> counted w'" for w'
    by (induction rule: rtranclp_induct) (auto dest: client_step_counted(2))
  show "(client_step strategy)\<^sup>*\<^sup>* w w' \<Longrightarrow> no_wrap strategy w' \<Longrightarrow> counted w \<Longrightarrow> client_inv w \<Longrightarrow> client_inv w'"
  proof (induction rule: rtranclp_induct)
    case (step v u)
    have "no_wrap strategy v" using step.prems(1) client_step_counted(1) [OF step.hyps(2)] by (auto simp: no_wrap_def)
    then have "client_inv v" using step.IH step.prems by blast
    then show ?case using client_step_inv [OF step.hyps(2) step.prems(1)] c [OF step.hyps(1) step.prems(2)] by blast
  qed
qed

section \<open>Demultiplexing\<close>

text \<open>The bytes that a sequence of frames carries for one session.\<close>

fun addressed :: "u16 \<Rightarrow> (FrameMetadata \<times> byte list) list \<Rightarrow> byte list" where
  "addressed sid [] = []"
| "addressed sid ((m, p) # fs) =
     (if fm_SessionStatus m = SessionStatusEnd \<and> fm_SessionID m = sid then []
      else if fm_SessionStatus m = SessionStatusKeep \<and> bitmask_Has (fm_Option m) OptionData \<and> fm_SessionID m = sid
      then p @ addressed sid fs
      else if fm_SessionStatus m \<in> {SessionStatusNew, SessionStatusKeep, SessionStatusEnd, SessionStatusKeepAlive}
      then addressed sid fs else [])"

lemma Session_Close_sess:
  "q \<noteq> r \<Longrightarrow> w_sess (Session_Close now q w) r = w_sess w r"
  "s_out (w_sess (Session_Close now q w) r) = s_out (w_sess w r)"
  "w_closed (Session_Close now q w) = w_closed w" "w_next (Session_Close now q w) = w_next w"
  "s_closed (w_sess (Session_Close now q w) q)" "s_ID (w_sess (Session_Close now q w) r) = s_ID (w_sess w r)"
  by (auto simp: Session_Close_def SessionManager_Remove_def Let_def split: option.split)

text \<open>One frame, seen from an open session \<open>r\<close> whose writes succeed.\<close>

lemma client_frame_view:
  assumes "client_inv w" and "r < w_next w" and "\<not> s_closed (w_sess w r)" and "wfail r = None"
  defines "sid \<equiv> s_ID (w_sess w r)"
  shows "if fm_SessionStatus m = SessionStatusEnd \<and> fm_SessionID m = sid
     then s_closed (w_sess (snd (client_frame now wfail (m, p) w)) r)
       \<and> s_out (w_sess (snd (client_frame now wfail (m, p) w)) r) = s_out (w_sess w r)
     else \<not> s_closed (w_sess (snd (client_frame now wfail (m, p) w)) r)
       \<and> s_ID (w_sess (snd (client_frame now wfail (m, p) w)) r) = sid
       \<and> w_next (snd (client_frame now wfail (m, p) w)) = w_next w
       \<and> s_out (w_sess (snd (client_frame now wfail (m, p) w)) r) = s_out (w_sess w r) @
          (if fm_SessionStatus m = SessionStatusKeep \<and> bitmask_Has (fm_Option m) OptionData \<and> fm_SessionID m = sid then p else [])"
proof -
  have op: "\<not> w_closed w" using client_invD(6) [OF assms(1) _ assms(2)] assms(3) by blast
  have get: "SessionManager_Get x w = Some q \<longleftrightarrow> q < w_next w \<and> \<not> s_closed (w_sess w q) \<and> s_ID (w_sess w q) = x" for x q
    using Get_client [OF assms(1), of x q] op by blast
  have self: "SessionManager_Get sid w = Some r" using get assms(2,3) by (simp add: sid_def)
  have other: "q \<noteq> r" if "SessionManager_Get x w = Some q" "x \<noteq> sid" for x q
    using that get by (auto simp: sid_def)
  have st: "SessionStatusEnd \<noteq> SessionStatusKeep" "SessionStatusKeepAlive \<noteq> SessionStatusEnd"
    "SessionStatusNew \<noteq> SessionStatusKeep" "SessionStatusKeepAlive \<noteq> SessionStatusKeep" "SessionStatusNew \<noteq> SessionStatusEnd"
    by (simp_all add: mux_consts)
  consider (e) "fm_SessionStatus m = SessionStatusEnd" | (k) "fm_SessionStatus m = SessionStatusKeep"
    | (n) "fm_SessionStatus m \<noteq> SessionStatusEnd" "fm_SessionStatus m \<noteq> SessionStatusKeep" by blast
  then show ?thesis
  proof cases
    case e
    then have c: "snd (client_frame now wfail (m, p) w) = handleStatusEnd now m w"
      using st by (auto simp: client_frame_def)
    show ?thesis
      unfolding c using e st assms(3) self other Session_Close_sess
      by (cases "fm_SessionID m = sid"; cases "SessionManager_Get (fm_SessionID m) w") (auto simp: handleStatusEnd_def sid_def)
  next
    case k
    then have c: "snd (client_frame now wfail (m, p) w) = handleStatusKeep now wfail m p w"
      using st by (auto simp: client_frame_def)
    show ?thesis
      unfolding c using k st assms(3,4) self other Session_Close_sess
      by (cases "fm_SessionID m = sid"; cases "SessionManager_Get (fm_SessionID m) w")
        (auto simp: handleStatusKeep_def copy_payload_def sid_def send_end_def deliver_def split: option.split)
  next
    case n
    then have c: "snd (client_frame now wfail (m, p) w) = w" by (auto simp: client_frame_def)
    show ?thesis unfolding c using n assms(3) by (simp add: sid_def)
  qed
qed

lemma client_frame_closed:
  assumes "client_inv w" and "s_closed (w_sess w r)"
  shows "s_closed (w_sess (snd (client_frame now wfail f w)) r) \<and>
    s_out (w_sess (snd (client_frame now wfail f w)) r) = s_out (w_sess w r)"
proof -
  have get: "q \<noteq> r" if "SessionManager_Get x w = Some q" for x q
    using Get_client [OF assms(1), of x q] assms(2) that by auto
  have copy: "s_closed (w_sess (copy_payload now wfail q p w) r) \<and> s_out (w_sess (copy_payload now wfail q p w) r) = s_out (w_sess w r)"
    if "q \<noteq> r" for q p
    using assms(2) that by (simp add: copy_payload_def Session_Close_sess deliver_def split: option.split)
  have "s_closed (w_sess (handleStatusEnd now m w) r) \<and> s_out (w_sess (handleStatusEnd now m w) r) = s_out (w_sess w r)" for m
    using assms(2) Session_Close_sess get by (auto simp: handleStatusEnd_def split: option.split)
  moreover have "s_closed (w_sess (handleStatusKeep now wfail m p w) r)
      \<and> s_out (w_sess (handleStatusKeep now wfail m p w) r) = s_out (w_sess w r)" for m p
    using assms(2) get copy by (simp add: handleStatusKeep_def send_end_def split: option.split)
  ultimately show ?thesis using assms(2) by (cases f) (simp add: client_frame_def)
qed

lemma fetchOutput_closed:
  "client_inv w \<Longrightarrow> s_closed (w_sess w r) \<Longrightarrow> s_out (w_sess (fetchOutput now wfail fs w) r) = s_out (w_sess w r)"
proof (induction fs arbitrary: w)
  case (Cons f fs)
  note c = client_frame_closed [OF Cons.prems, of now wfail f] client_frame_client [OF Cons.prems(1), of now wfail f]
  with Cons.IH [of "snd (client_frame now wfail f w)"] show ?case by (auto simp: Let_def split: prod.split)
qed simp

lemma client_frame_known:
  "fst (client_frame now wfail (m, p) w) \<longleftrightarrow>
     fm_SessionStatus m \<in> {SessionStatusNew, SessionStatusKeep, SessionStatusEnd, SessionStatusKeepAlive}"
  by (auto simp: client_frame_def)

lemma fetchOutput_view:
  "\<lbrakk>client_inv w; r < w_next w; \<not> s_closed (w_sess w r); wfail r = None\<rbrakk> \<Longrightarrow>
   s_out (w_sess (fetchOutput now wfail fs w) r) = s_out (w_sess w r) @ addressed (s_ID (w_sess w r)) fs"
proof (induction fs arbitrary: w)
  case (Cons f fs)
  obtain m p where f: "f = (m, p)" by (cases f)
  let ?w = "snd (client_frame now wfail (m, p) w)" and ?sid = "s_ID (w_sess w r)"
  note v = client_frame_view [of w r wfail m now p, OF Cons.prems]
  note inv = client_frame_client [OF Cons.prems(1), of now wfail "(m, p)"]
  have code: "fetchOutput now wfail (f # fs) w = (if fst (client_frame now wfail (m, p) w) then fetchOutput now wfail fs ?w else ?w)"
    by (simp add: f Let_def split: prod.split)
  show ?case
  proof (cases "fm_SessionStatus m = SessionStatusEnd \<and> fm_SessionID m = ?sid")
    case True
    with v have "s_closed (w_sess ?w r)" "s_out (w_sess ?w r) = s_out (w_sess w r)" by auto
    with fetchOutput_closed [OF inv] True code show ?thesis by (simp add: f)
  next
    case False
    with v have o: "\<not> s_closed (w_sess ?w r)" "s_ID (w_sess ?w r) = ?sid" "w_next ?w = w_next w"
      "s_out (w_sess ?w r) = s_out (w_sess w r) @
        (if fm_SessionStatus m = SessionStatusKeep \<and> bitmask_Has (fm_Option m) OptionData \<and> fm_SessionID m = ?sid then p else [])"
      by auto
    from Cons.IH [OF inv _ o(1) Cons.prems(4)] o(2,3) Cons.prems(2)
    have ih: "s_out (w_sess (fetchOutput now wfail fs ?w) r) = s_out (w_sess ?w r) @ addressed ?sid fs" by simp
    show ?thesis
      using code False client_frame_known [of now wfail m p w] ih o(4) by (auto simp: f)
  qed
qed simp

section \<open>Properties\<close>

text \<open>The state of a new client connection.\<close>

definition new_client :: "world \<Rightarrow> bool" where
  "new_client w \<longleftrightarrow> w_next w = 0 \<and> w = NewSessionManager w"

lemma new_client_inv: "new_client w \<Longrightarrow> client_inv w"
proof -
  assume n: "new_client w"
  then have "w = NewSessionManager w" "w_next w = 0" by (simp_all add: new_client_def)
  then have "w_sessions w = []" "\<not> w_closed w"
    by (metis NewSessionManager_def world.select_convs(1) world.surjective world.update_convs(1-3) world.select_convs(3))+
  with \<open>w_next w = 0\<close> show ?thesis by (simp add: client_inv_def)
qed

lemma new_client_counted: "new_client w \<Longrightarrow> counted w"
proof -
  assume n: "new_client w"
  then have "w = NewSessionManager w" "w_next w = 0" by (simp_all add: new_client_def)
  then have "w_count w = 0" by (metis NewSessionManager_def world.select_convs(2) world.surjective world.update_convs(1-3))
  with \<open>w_next w = 0\<close> show ?thesis by (simp add: counted_def)
qed

lemma client_sessions:
  assumes "new_client w0" and "(client_step strategy)\<^sup>*\<^sup>* w0 w" and "no_wrap strategy w"
  shows "r < w_next w \<Longrightarrow> q < w_next w \<Longrightarrow> s_ID (w_sess w r) = s_ID (w_sess w q) \<Longrightarrow> r = q"
    and "r < w_next w \<Longrightarrow> s_released (w_sess w r) = (if s_closed (w_sess w r) then 1 else 0)"
    and "\<not> SessionManager_Closed w \<Longrightarrow>
      SessionManager_Get sid w = Some r \<longleftrightarrow> r < w_next w \<and> \<not> s_closed (w_sess w r) \<and> s_ID (w_sess w r) = sid"
    and "SessionManager_Closed w \<Longrightarrow> r < w_next w \<Longrightarrow> s_closed (w_sess w r)"
    and "SessionManager_Size w = card {r. r < w_next w \<and> \<not> w_closed w \<and> \<not> s_closed (w_sess w r)}"
proof -
  have inv: "client_inv w" using client_steps_inv(2) [OF assms(2,3) new_client_counted [OF assms(1)] new_client_inv [OF assms(1)]] .
  note d = client_invD [OF inv]
  show "r < w_next w \<Longrightarrow> q < w_next w \<Longrightarrow> s_ID (w_sess w r) = s_ID (w_sess w q) \<Longrightarrow> r = q" by (rule d(5))
  show "r < w_next w \<Longrightarrow> s_released (w_sess w r) = (if s_closed (w_sess w r) then 1 else 0)"
    using d(3) by (simp add: once_def)
  show "\<not> SessionManager_Closed w \<Longrightarrow>
      SessionManager_Get sid w = Some r \<longleftrightarrow> r < w_next w \<and> \<not> s_closed (w_sess w r) \<and> s_ID (w_sess w r) = sid"
    using Get_client [OF inv, of sid r] by (simp add: SessionManager_Closed_def)
  show "SessionManager_Closed w \<Longrightarrow> r < w_next w \<Longrightarrow> s_closed (w_sess w r)" using d(6) by (simp add: SessionManager_Closed_def)
  have "snd ` set (w_sessions w) = {r. r < w_next w \<and> \<not> w_closed w \<and> \<not> s_closed (w_sess w r)}"
    using d(2) by (auto simp: image_iff Bex_def split_paired_Ex)
  moreover have "inj_on snd (set (w_sessions w))"
    by (rule inj_onI) (metis d(2) prod.collapse)
  then have "distinct (map snd (w_sessions w))" using d(1) by (simp add: distinct_map)
  ultimately show "SessionManager_Size w = card {r. r < w_next w \<and> \<not> w_closed w \<and> \<not> s_closed (w_sess w r)}"
    by (metis SessionManager_Size_def distinct_card length_map set_map)
qed


text \<open>A connection on which two sessions were started and the first one was ended by the peer.\<close>

definition ex_session :: Session where
  "ex_session = \<lparr>s_ID = 0, s_transferType = TransferTypeStream, s_closed = False, s_done = None,
     s_XUDP = None, s_out = [], s_released = 0, s_detached = 0\<rparr>"

definition ex_world :: world where
  "ex_world = \<lparr>w_sessions = [], w_count = 0, w_closed = False, w_sess = (\<lambda>_. ex_session), w_next = 0,
     w_xudp = (\<lambda>_. \<lparr>x_GlobalID = [], x_Status = Initializing, x_Expire = 0, x_Mux = 0\<rparr>), w_xmap = [], w_sent = []\<rparr>"

definition ex_strategy :: ClientStrategy where
  "ex_strategy = \<lparr>MaxConcurrency = 8, MaxConnection = 128\<rparr>"

definition ex_frame :: "u16 \<Rightarrow> byte \<Rightarrow> byte list \<Rightarrow> FrameMetadata \<times> byte list" where
  "ex_frame sid status p =
     (zero_FrameMetadata\<lparr>fm_SessionID := sid, fm_SessionStatus := status, fm_Option := OptionData\<rparr>, p)"

definition ex_two :: world where
  "ex_two = snd (ClientWorker_Dispatch ex_strategy False (snd (ClientWorker_Dispatch ex_strategy False ex_world)))"

lemma ex_new: "new_client ex_world"
  by (simp add: new_client_def ex_world_def NewSessionManager_def)

lemma ex_two_steps: "(client_step ex_strategy)\<^sup>*\<^sup>* ex_world ex_two"
  unfolding ex_two_def
  by (rule rtranclp_trans [OF r_into_rtranclp r_into_rtranclp]; rule client_step.dispatch)

lemma ex_strategy_limit: "(ucast (MaxConnection ex_strategy) :: u16) > 0"
  by (simp add: ex_strategy_def)

lemma ex_two_fields:
  "w_next ex_two = 2" "\<not> w_closed ex_two" "\<not> s_closed (w_sess ex_two 0)" "\<not> s_closed (w_sess ex_two 1)"
  "s_ID (w_sess ex_two 0) = 1" "s_ID (w_sess ex_two 1) = 2" "s_out (w_sess ex_two 0) = []"
  "s_XUDP (w_sess ex_two 0) = None"
  by (simp_all add: ex_two_def ClientWorker_Dispatch_def IsFull_def IsClosing_def Allocate_def ex_world_def
      ex_strategy_def SessionManager_Count_def SessionManager_Size_def word_le_nat_alt)


text \<open>
  C8. Demultiplexing: whatever a client connection did before, if the limit on the number of its sessions is not 0 as a 16-bit
  value or it started at most 65535 sessions, an open session whose output accepts its writes receives, from any further sequence of frames, exactly the payloads of the Keep frames with its identifier, in order,
  up to its End frame or a frame of unknown status; frames of other sessions, and failures of their
  outputs, do not change what it receives.
\<close>

theorem mux_demultiplex:
  assumes "new_client w0" and "(client_step strategy)\<^sup>*\<^sup>* w0 w"
    and "(ucast (MaxConnection strategy) :: u16) > 0 \<or> w_next w \<le> 65535"
    and "r < w_next w" and "\<not> s_closed (w_sess w r)" and "wfail r = None"
  shows "s_out (w_sess (fetchOutput now wfail fs w) r) = s_out (w_sess w r) @ addressed (s_ID (w_sess w r)) fs"
proof -
  have "no_wrap strategy w" using assms(3) by (simp add: no_wrap_def)
  from client_steps_inv(2) [OF assms(2) this new_client_counted [OF assms(1)] new_client_inv [OF assms(1)]] assms(4-6)
  show ?thesis by (rule fetchOutput_view)
qed

theorem mux_demultiplex_witness:
  "s_out (w_sess (fetchOutput 0 (\<lambda>r. if r = 1 then Some 0 else None)
      [ex_frame 1 SessionStatusKeep [7], ex_frame 2 SessionStatusKeep [8], ex_frame 1 SessionStatusKeep [9],
       ex_frame 1 SessionStatusEnd [], ex_frame 1 SessionStatusKeep [5]] ex_two) 0) = [7, 9]"
  by (subst mux_demultiplex [OF ex_new ex_two_steps disjI1 [OF ex_strategy_limit]])
    (simp_all add: ex_two_fields ex_frame_def mux_consts bitmask_Has_def)

lemma reused_id:
  fixes now :: nat and wfail :: "nat \<Rightarrow> nat option" and payload :: "byte list" and w :: world and meta :: FrameMetadata
  assumes "\<not> SessionManager_Closed w" and "r < w_next w" and "\<not> s_closed (w_sess w r)" and "s_XUDP (w_sess w r) = None"
    and "s_ID (w_sess w r) = fm_SessionID meta" and "\<not> bitmask_Has (fm_Option meta) OptionData"
  defines "w1 \<equiv> snd (server_new now True wfail meta payload w)"
  defines "w2 \<equiv> Session_Close now r w1"
  shows "SessionManager_Get (fm_SessionID meta) w1 = Some (w_next w)"
    and "\<not> s_closed (w_sess w2 (w_next w))" and "SessionManager_Get (fm_SessionID meta) w2 = None"
    and "bitmask_Has (fm_Option meta') OptionData \<Longrightarrow> fm_SessionID meta' = fm_SessionID meta \<Longrightarrow>
      handleStatusKeep now wfail meta' p w2 = send_end (fm_SessionID meta) w2"
proof -
  let ?s = "\<lparr>s_ID = fm_SessionID meta,
     s_transferType = (if dest_Network (fm_Target meta) = Network_UDP then TransferTypePacket else TransferTypeStream),
     s_closed = False, s_done = None, s_XUDP = None, s_out = [], s_released = 0, s_detached = 0\<rparr>"
  have w1: "w1 = w\<lparr>w_sess := (w_sess w)(w_next w := ?s), w_next := Suc (w_next w), w_count := w_count w + 1,
      w_sessions := AList.update (fm_SessionID meta) (w_next w) (w_sessions w)\<rparr>"
    using assms(1,6) unfolding w1_def by (simp add: server_new_def SessionManager_Add_def SessionManager_Closed_def Let_def)
  show "SessionManager_Get (fm_SessionID meta) w1 = Some (w_next w)"
    using assms(1) by (simp add: w1 SessionManager_Get_def SessionManager_Closed_def update_conv)
  have w2: "w_sessions w2 = AList.delete (fm_SessionID meta) (w_sessions w1)" "w_closed w2 = w_closed w"
      "w_sess w2 (w_next w) = ?s"
    using assms(1-5) by (auto simp: w2_def w1 Session_Close_def SessionManager_Remove_def SessionManager_Closed_def Let_def)
  show "\<not> s_closed (w_sess w2 (w_next w))" using w2(3) by simp
  show gone: "SessionManager_Get (fm_SessionID meta) w2 = None"
    by (simp add: SessionManager_Get_def w2(1) delete_conv)
  show "bitmask_Has (fm_Option meta') OptionData \<Longrightarrow> fm_SessionID meta' = fm_SessionID meta \<Longrightarrow>
      handleStatusKeep now wfail meta' p w2 = send_end (fm_SessionID meta) w2"
    using gone by (simp add: handleStatusKeep_def)
qed

text \<open>
  C36. The server does not check that the identifier of a new session is free. A New frame with the identifier of an open
  session replaces the table's entry, and when the replaced session ends, \<^verbatim>\<open>Session.Close\<close> removes the entry by
  identifier: the new session, though open, can no longer be found, so that its data is answered with an
  End frame and dropped.
\<close>

theorem server_id_reuse:
  assumes "\<not> SessionManager_Closed w" and "r < w_next w" and "\<not> s_closed (w_sess w r)" and "s_XUDP (w_sess w r) = None"
    and "s_ID (w_sess w r) = fm_SessionID meta" and "\<not> bitmask_Has (fm_Option meta) OptionData"
    and "bitmask_Has (fm_Option meta') OptionData" and "fm_SessionID meta' = fm_SessionID meta"
  shows "let w1 = snd (server_new now True wfail meta payload w); w2 = Session_Close now r w1 in
     SessionManager_Get (fm_SessionID meta) w1 = Some (w_next w)
     \<and> \<not> s_closed (w_sess w2 (w_next w)) \<and> SessionManager_Get (fm_SessionID meta) w2 = None
     \<and> handleStatusKeep now wfail meta' p w2 = send_end (fm_SessionID meta) w2"
  using reused_id [OF assms(1-6)] assms(7,8) by (simp add: Let_def)

theorem server_id_reuse_witness:
  "let w2 = Session_Close 0 0 (snd (server_new 0 True (\<lambda>_. None) (zero_FrameMetadata\<lparr>fm_SessionID := 1\<rparr>) [] ex_two)) in
     SessionManager_Get 1 w2 = None \<and> \<not> s_closed (w_sess w2 2)"
  using server_id_reuse [of ex_two 0 "zero_FrameMetadata\<lparr>fm_SessionID := 1\<rparr>"
    "zero_FrameMetadata\<lparr>fm_SessionID := 1, fm_Option := OptionData\<rparr>" 0 "\<lambda>_. None" "[]" "[]"]
  by (simp add: ex_two_fields SessionManager_Closed_def zero_FrameMetadata_def bitmask_Has_def mux_consts Let_def)

end
