(* ===== verification/Vision.thy ===== *)
theory Vision
  imports Multi_Buffer Addr_Codec
begin

text \<open>
  The Vision flow of VLESS, from \<^verbatim>\<open>proxy/proxy.go\<close>: the first writes of a connection are wrapped into
  padded blocks, the peer removes the padding, and both ends look at the TLS handshake inside to decide
  when the padding ends and whether the rest of the connection is copied directly, past the
  outer encryption. \<^verbatim>\<open>InboundState\<close> and \<^verbatim>\<open>OutboundState\<close> have the same fields up to their names, so one record
  serves for both; the pointers that the code sets up by direction are the selectors \<open>reader_link\<close> and
  \<open>writer_link\<close>. Random numbers are a parameter, bounded as \<^verbatim>\<open>rand.Int\<close> documents; slices of the
  buffer pool are a parameter as in the other theories. Counters of statistics and the splicing of
  kernel sockets are left out.

  The lemmas show that what a Vision writer writes, cut into pieces in any way on the way, is what the
  removal of padding at the other end yields, and that the detection of complete TLS records is the
  record grammar.
\<close>

section \<open>Constants and state\<close>

definition Tls13SupportedVersions :: "byte list" where
  "Tls13SupportedVersions = [0x00, 0x2b, 0x00, 0x02, 0x03, 0x04]"

definition TlsClientHandShakeStart :: "byte list" where
  "TlsClientHandShakeStart = [0x16, 0x03]"

definition TlsServerHandShakeStart :: "byte list" where
  "TlsServerHandShakeStart = [0x16, 0x03, 0x03]"

definition TlsApplicationDataStart :: "byte list" where
  "TlsApplicationDataStart = [0x17, 0x03, 0x03]"

definition Tls13CipherSuiteDic :: "u16 \<Rightarrow> string option" where
  "Tls13CipherSuiteDic = map_of
     [(0x1301, ''TLS_AES_128_GCM_SHA256''), (0x1302, ''TLS_AES_256_GCM_SHA384''),
      (0x1303, ''TLS_CHACHA20_POLY1305_SHA256''), (0x1304, ''TLS_AES_128_CCM_SHA256''),
      (0x1305, ''TLS_AES_128_CCM_8_SHA256'')]"

abbreviation TlsHandshakeTypeClientHello :: byte where
  "TlsHandshakeTypeClientHello \<equiv> 1"

abbreviation TlsHandshakeTypeServerHello :: byte where
  "TlsHandshakeTypeServerHello \<equiv> 2"

abbreviation CommandPaddingContinue :: byte where
  "CommandPaddingContinue \<equiv> 0"

abbreviation CommandPaddingEnd :: byte where
  "CommandPaddingEnd \<equiv> 1"

abbreviation CommandPaddingDirect :: byte where
  "CommandPaddingDirect \<equiv> 2"

record LinkState =
  WithinPaddingBuffers :: bool
  ReaderDirectCopy :: bool
  RemainingCommand :: int
  RemainingContent :: int
  RemainingPadding :: int
  CurrentCommand :: int
  IsPadding :: bool
  WriterDirectCopy :: bool

record TrafficState =
  UserUUID :: "byte list"
  NumberOfPacketToFilter :: int
  EnableXtls :: bool
  IsTLS12orAbove :: bool
  IsTLS :: bool
  Cipher :: u16
  RemainingServerHello :: int
  ts_Inbound :: LinkState
  ts_Outbound :: LinkState

definition new_link :: LinkState where
  "new_link = \<lparr>WithinPaddingBuffers = True, ReaderDirectCopy = False, RemainingCommand = -1, RemainingContent = -1,
     RemainingPadding = -1, CurrentCommand = 0, IsPadding = True, WriterDirectCopy = False\<rparr>"

definition NewTrafficState :: "byte list \<Rightarrow> TrafficState" where
  "NewTrafficState userUUID =
     \<lparr>UserUUID = userUUID, NumberOfPacketToFilter = 8, EnableXtls = False, IsTLS12orAbove = False, IsTLS = False,
      Cipher = 0, RemainingServerHello = -1, ts_Inbound = new_link, ts_Outbound = new_link\<rparr>"

definition reader_link :: "bool \<Rightarrow> TrafficState \<Rightarrow> LinkState" where
  "reader_link isUplink s = (if isUplink then ts_Inbound s else ts_Outbound s)"

definition set_reader_link :: "bool \<Rightarrow> LinkState \<Rightarrow> TrafficState \<Rightarrow> TrafficState" where
  "set_reader_link isUplink l s = (if isUplink then s\<lparr>ts_Inbound := l\<rparr> else s\<lparr>ts_Outbound := l\<rparr>)"

definition writer_link :: "bool \<Rightarrow> TrafficState \<Rightarrow> LinkState" where
  "writer_link isUplink s = (if isUplink then ts_Outbound s else ts_Inbound s)"

definition set_writer_link :: "bool \<Rightarrow> LinkState \<Rightarrow> TrafficState \<Rightarrow> TrafficState" where
  "set_writer_link isUplink l s = (if isUplink then s\<lparr>ts_Outbound := l\<rparr> else s\<lparr>ts_Inbound := l\<rparr>)"

section \<open>Library functions\<close>

text \<open>\<^verbatim>\<open>bytes.LastIndex\<close>, \<^verbatim>\<open>bytes.Contains\<close> and \<^verbatim>\<open>rand.Int\<close>, which panics for a bound that is not positive.\<close>

definition bytes_LastIndex :: "byte list \<Rightarrow> byte list \<Rightarrow> int" where
  "bytes_LastIndex s sep =
     (let hits = [i \<leftarrow> [0 ..< Suc (length s)]. take (length sep) (drop i s) = sep]
      in if hits = [] then -1 else int (last hits))"

definition bytes_Contains :: "byte list \<Rightarrow> byte list \<Rightarrow> bool" where
  "bytes_Contains s sep \<longleftrightarrow> list_ex (\<lambda>i. take (length sep) (drop i s) = sep) [0 ..< Suc (length s)]"

definition rand_Int :: "(int \<Rightarrow> int) \<Rightarrow> int \<Rightarrow> int go" where
  "rand_Int rnd bound = (if bound \<le> 0 then None else Some (rnd bound))"

definition nth_go :: "'a list \<Rightarrow> nat \<Rightarrow> 'a go" where
  "nth_go xs i = (if i < length xs then Some (xs ! i) else None)"

section \<open>Complete TLS records\<close>

text \<open>The loop over the bytes; \<open>hl\<close> is \<^verbatim>\<open>headerLen\<close>, \<open>rl\<close> is \<^verbatim>\<open>recordLen\<close>, the list is \<^verbatim>\<open>b[i:]\<close>.\<close>

function complete_loop :: "nat \<Rightarrow> nat \<Rightarrow> byte list \<Rightarrow> bool" where
  "complete_loop hl rl [] = (hl = 5 \<and> rl = 0)"
| "complete_loop hl rl (data # bs) =
     (if hl > 0 then
        if hl = 5 \<and> data \<noteq> 0x17 then False
        else if hl = 4 \<and> data \<noteq> 0x03 then False
        else if hl = 3 \<and> data \<noteq> 0x03 then False
        else complete_loop (hl - 1)
          (if hl = 2 then push_bit 8 (unat data) else if hl = 1 then or rl (unat data) else rl) bs
      else if rl > 0 then
        if length (data # bs) < rl then False
        else complete_loop 5 0 (drop rl (data # bs))
      else False)"
  by pat_completeness auto
termination
  by (relation "measure (\<lambda>(_, _, bs). length bs)") auto

definition IsCompleteRecord :: "MultiBuffer \<Rightarrow> bool go" where
  "IsCompleteRecord buffer = do {
     b \<leftarrow> MultiBuffer_Copy buffer (nat (MultiBuffer_Len buffer));
     if int (length b) \<noteq> MultiBuffer_Len buffer then None
     else Some (complete_loop 5 0 b)
   }"

section \<open>Padding\<close>

definition reshape_index :: "byte list \<Rightarrow> int" where
  "reshape_index bs =
     (let index = bytes_LastIndex bs TlsApplicationDataStart
      in if index < 21 \<or> index > int Size - 21 then int Size div 2 else index)"

fun reshape_loop :: "(nat \<Rightarrow> slice) \<Rightarrow> nat \<Rightarrow> MultiBuffer \<Rightarrow> MultiBuffer go" where
  "reshape_loop gots k [] = Some []"
| "reshape_loop gots k (buffer1 # buffer) =
     (if Buffer_Len buffer1 \<ge> int Size - 21 then do {
        bs \<leftarrow> Buffer_Bytes buffer1;
        let index = reshape_index bs;
        rear \<leftarrow> Buffer_BytesFrom buffer1 index;
        (_, _, buffer2) \<leftarrow> Buffer_Write (Buffer_New (gots k)) rear;
        buffer1 \<leftarrow> Buffer_Resize buffer1 0 index;
        rest \<leftarrow> reshape_loop gots (Suc k) buffer;
        Some (buffer1 # buffer2 # rest)
      } else do {
        rest \<leftarrow> reshape_loop gots k buffer;
        Some (buffer1 # rest)
      })"

definition ReshapeMultiBuffer :: "(nat \<Rightarrow> slice) \<Rightarrow> MultiBuffer \<Rightarrow> MultiBuffer go" where
  "ReshapeMultiBuffer gots buffer =
     (if \<not> list_ex (\<lambda>b. Buffer_Len b \<ge> int Size - 21) buffer then Some buffer
      else reshape_loop gots 0 buffer)"

text \<open>
  \<^verbatim>\<open>XtlsPadding\<close>: the new buffer and the bytes behind the pointer \<^verbatim>\<open>userUUID\<close> afterwards.
\<close>

definition padding_len :: "(int \<Rightarrow> int) \<Rightarrow> u32 list \<Rightarrow> int \<Rightarrow> bool \<Rightarrow> int go" where
  "padding_len rnd testseed contentLen longPadding = do {
     s0 \<leftarrow> nth_go testseed 0;
     paddingLen \<leftarrow>
       (if contentLen < int32 (uint s0) \<and> longPadding then do {
          s1 \<leftarrow> nth_go testseed 1;
          l \<leftarrow> rand_Int rnd (uint s1);
          s2 \<leftarrow> nth_go testseed 2;
          Some (int32 (int32 (int32 l + int32 (uint s2)) - contentLen))
        } else do {
          s3 \<leftarrow> nth_go testseed 3;
          l \<leftarrow> rand_Int rnd (uint s3);
          Some (int32 l)
        });
     Some (if paddingLen > int Size - 21 - contentLen then int Size - 21 - contentLen else paddingLen)
   }"

definition XtlsPadding ::
  "slice \<Rightarrow> (int \<Rightarrow> int) \<Rightarrow> Buffer option \<Rightarrow> byte \<Rightarrow> byte list option \<Rightarrow> bool \<Rightarrow> u32 list \<Rightarrow> (Buffer \<times> byte list option) go" where
  "XtlsPadding got rnd b command userUUID longPadding testseed = do {
     let contentLen = (case b of None \<Rightarrow> 0 | Some b \<Rightarrow> Buffer_Len b);
     paddingLen \<leftarrow> padding_len rnd testseed contentLen longPadding;
     let newbuffer = Buffer_New got;
     (newbuffer, userUUID) \<leftarrow>
       (case userUUID of
          None \<Rightarrow> Some (newbuffer, None)
        | Some uuid \<Rightarrow> do { (_, _, nb) \<leftarrow> Buffer_Write newbuffer uuid; Some (nb, Some []) });
     (_, _, newbuffer) \<leftarrow> Buffer_Write newbuffer
       [command, word_of_int (contentLen div 256), word_of_int contentLen,
        word_of_int (paddingLen div 256), word_of_int paddingLen];
     newbuffer \<leftarrow>
       (case b of
          None \<Rightarrow> Some newbuffer
        | Some b \<Rightarrow> do { bs \<leftarrow> Buffer_Bytes b; (_, _, nb) \<leftarrow> Buffer_Write newbuffer bs; Some nb });
     newbuffer \<leftarrow> Buffer_Extend newbuffer paddingLen;
     Some (newbuffer, userUUID)
   }"

section \<open>Removing the padding\<close>

text \<open>The header switch of the loop: what the byte \<open>data\<close> does when \<open>RemainingCommand\<close> bytes are expected.\<close>

definition header_byte :: "byte \<Rightarrow> LinkState \<Rightarrow> LinkState" where
  "header_byte data l =
     (let l = (if RemainingCommand l = 5 then l\<lparr>CurrentCommand := uint data\<rparr>
               else if RemainingCommand l = 4 then l\<lparr>RemainingContent := push_bit 8 (uint data)\<rparr>
               else if RemainingCommand l = 3 then l\<lparr>RemainingContent := or (RemainingContent l) (uint data)\<rparr>
               else if RemainingCommand l = 2 then l\<lparr>RemainingPadding := push_bit 8 (uint data)\<rparr>
               else if RemainingCommand l = 1 then l\<lparr>RemainingPadding := or (RemainingPadding l) (uint data)\<rparr>
               else l)
      in l\<lparr>RemainingCommand := RemainingCommand l - 1\<rparr>)"

definition block_done :: "LinkState \<Rightarrow> bool" where
  "block_done l \<longleftrightarrow> RemainingCommand l \<le> 0 \<and> RemainingContent l \<le> 0 \<and> RemainingPadding l \<le> 0"

definition initial_state :: "LinkState \<Rightarrow> bool" where
  "initial_state l \<longleftrightarrow> RemainingCommand l = -1 \<and> RemainingContent l = -1 \<and> RemainingPadding l = -1"

definition to_initial :: "LinkState \<Rightarrow> LinkState" where
  "to_initial l = l\<lparr>RemainingCommand := -1, RemainingContent := -1, RemainingPadding := -1\<rparr>"

text \<open>One turn of the loop before the test for the end of the block.\<close>

definition unpad_turn :: "LinkState \<Rightarrow> Buffer \<Rightarrow> Buffer \<Rightarrow> (go_error option \<times> LinkState \<times> Buffer \<times> Buffer) go" where
  "unpad_turn l b newbuffer =
     (if RemainingCommand l > 0 then do {
        (data, err, b) \<leftarrow> Buffer_ReadByte b;
        if err \<noteq> None then Some (err, l, b, newbuffer) else Some (None, header_byte data l, b, newbuffer)
      } else if RemainingContent l > 0 then do {
        let len = (if Buffer_Len b < RemainingContent l then Buffer_Len b else RemainingContent l);
        (data, err, b) \<leftarrow> Buffer_ReadBytes b len;
        if err \<noteq> None then Some (err, l, b, newbuffer)
        else do {
          (_, _, newbuffer) \<leftarrow> Buffer_Write newbuffer data;
          Some (None, l\<lparr>RemainingContent := RemainingContent l - len\<rparr>, b, newbuffer)
        }
      } else do {
        let len = (if Buffer_Len b < RemainingPadding l then Buffer_Len b else RemainingPadding l);
        Some (None, l\<lparr>RemainingPadding := RemainingPadding l - len\<rparr>, Buffer_Advance b len, newbuffer)
      })"

partial_function (option) unpad_loop :: "LinkState \<Rightarrow> Buffer \<Rightarrow> Buffer \<Rightarrow> (LinkState \<times> Buffer) go" where
  "unpad_loop l b newbuffer =
     (if Buffer_Len b > 0 then do {
        (err, l, b, newbuffer) \<leftarrow> unpad_turn l b newbuffer;
        if err \<noteq> None then Some (l, newbuffer)
        else if block_done l then
          if CurrentCommand l = 0 then unpad_loop (l\<lparr>RemainingCommand := 5\<rparr>) b newbuffer
          else if Buffer_Len b > 0 then do {
            bs \<leftarrow> Buffer_Bytes b;
            (_, _, newbuffer) \<leftarrow> Buffer_Write newbuffer bs;
            Some (to_initial l, newbuffer)
          } else Some (to_initial l, newbuffer)
        else unpad_loop l b newbuffer
      } else Some (l, newbuffer))"

definition unpad_link :: "slice \<Rightarrow> byte list \<Rightarrow> Buffer \<Rightarrow> LinkState \<Rightarrow> (Buffer \<times> LinkState) go" where
  "unpad_link got uuid b l = do {
     enter \<leftarrow> (if initial_state l \<and> Buffer_Len b \<ge> 21 then map_option (\<lambda>bs. uuid = bs) (Buffer_BytesTo b 16) else Some False);
     if initial_state l \<and> \<not> enter then Some (b, l)
     else do {
       let b = (if initial_state l then Buffer_Advance b 16 else b);
       let l = (if initial_state l then l\<lparr>RemainingCommand := 5\<rparr> else l);
       (l, newbuffer) \<leftarrow> unpad_loop l b (Buffer_New got);
       Some (newbuffer, l)
     }
   }"

definition XtlsUnpadding :: "slice \<Rightarrow> Buffer \<Rightarrow> TrafficState \<Rightarrow> bool \<Rightarrow> (Buffer \<times> TrafficState) go" where
  "XtlsUnpadding got b s isUplink = do {
     (b, l) \<leftarrow> unpad_link got (UserUUID s) b (reader_link isUplink s);
     Some (b, set_reader_link isUplink l s)
   }"

section \<open>Watching the TLS handshake\<close>

definition filter_hello :: "Buffer \<Rightarrow> TrafficState \<Rightarrow> TrafficState go" where
  "filter_hello b ts =
     (if Buffer_Len b \<ge> 6 then do {
        startsBytes \<leftarrow> Buffer_BytesTo b 6;
        if TlsServerHandShakeStart = take 3 startsBytes \<and> startsBytes ! 5 = TlsHandshakeTypeServerHello then do {
          let ts = ts\<lparr>RemainingServerHello := or (push_bit 8 (uint (startsBytes ! 3))) (uint (startsBytes ! 4)) + 5,
                      IsTLS12orAbove := True, IsTLS := True\<rparr>;
          if Buffer_Len b \<ge> 79 \<and> RemainingServerHello ts \<ge> 79 then do {
            sid \<leftarrow> Buffer_Byte b 43;
            let sessionIdLen = uint sid;
            cipherSuite \<leftarrow> Buffer_BytesRange b (43 + sessionIdLen + 1) (43 + sessionIdLen + 3);
            Some (ts\<lparr>Cipher := or (push_bit 8 (ucast (cipherSuite ! 0))) (ucast (cipherSuite ! 1))\<rparr>)
          } else Some ts
        }
        else if TlsClientHandShakeStart = take 2 startsBytes \<and> startsBytes ! 5 = TlsHandshakeTypeClientHello
        then Some (ts\<lparr>IsTLS := True\<rparr>)
        else Some ts
      } else Some ts)"

fun XtlsFilterTls :: "Buffer option list \<Rightarrow> TrafficState \<Rightarrow> TrafficState go" where
  "XtlsFilterTls [] ts = Some ts"
| "XtlsFilterTls (None # buffer) ts = XtlsFilterTls buffer ts"
| "XtlsFilterTls (Some b # buffer) ts = do {
     ts \<leftarrow> filter_hello b (ts\<lparr>NumberOfPacketToFilter := NumberOfPacketToFilter ts - 1\<rparr>);
     if RemainingServerHello ts > 0 then do {
       let limit = (if RemainingServerHello ts > Buffer_Len b then Buffer_Len b else RemainingServerHello ts);
       let ts = ts\<lparr>RemainingServerHello := int32 (RemainingServerHello ts - Buffer_Len b)\<rparr>;
       bs \<leftarrow> Buffer_BytesTo b limit;
       if bytes_Contains bs Tls13SupportedVersions then
         Some (ts\<lparr>NumberOfPacketToFilter := 0,
           EnableXtls := (case Tls13CipherSuiteDic (Cipher ts) of
              None \<Rightarrow> EnableXtls ts
            | Some v \<Rightarrow> v \<noteq> ''TLS_AES_128_CCM_8_SHA256'' \<or> EnableXtls ts)\<rparr>)
       else if RemainingServerHello ts \<le> 0 then Some (ts\<lparr>NumberOfPacketToFilter := 0\<rparr>)
       else XtlsFilterTls buffer ts
     } else XtlsFilterTls buffer ts
   }"

section \<open>The Vision writer\<close>

text \<open>
  \<open>vw_direct\<close> tells that the writer has been replaced by one on the raw connection. A call of
  \<^verbatim>\<open>WriteMultiBuffer\<close> gives the multi buffer that it passes to the writer, whose error it returns.
\<close>

record VisionWriter =
  vw_isUplink :: bool
  vw_writeOnceUserUUID :: "byte list"
  vw_testseed :: "u32 list"
  vw_direct :: bool

definition NewVisionWriter :: "TrafficState \<Rightarrow> bool \<Rightarrow> u32 list \<Rightarrow> VisionWriter" where
  "NewVisionWriter trafficState isUplink testseed =
     \<lparr>vw_isUplink = isUplink, vw_writeOnceUserUUID = UserUUID trafficState,
      vw_testseed = (if length testseed < 4 then [900, 500, 900, 256] else testseed), vw_direct = False\<rparr>"

text \<open>
  The loop that pads the buffers: \<open>l\<close> is the link state of the writer, \<open>uuid\<close> the bytes to write once. The
  test for the last index is the test for an empty rest of the list.
\<close>

definition end_command :: "TrafficState \<Rightarrow> byte" where
  "end_command ts = (if EnableXtls ts then CommandPaddingDirect else CommandPaddingEnd)"

fun vision_loop ::
  "(nat \<Rightarrow> slice) \<Rightarrow> (nat \<Rightarrow> int \<Rightarrow> int) \<Rightarrow> u32 list \<Rightarrow> TrafficState \<Rightarrow> bool \<Rightarrow> nat \<Rightarrow> LinkState \<Rightarrow> bool \<Rightarrow> byte list \<Rightarrow> MultiBuffer \<Rightarrow>
   (LinkState \<times> byte list \<times> MultiBuffer) go" where
  "vision_loop gots rnd testseed ts isComplete i l longPadding uuid [] = Some (l, uuid, [])"
| "vision_loop gots rnd testseed ts isComplete i l longPadding uuid (b # mb) = do {
     app \<leftarrow> (if IsTLS ts \<and> Buffer_Len b \<ge> 6 then map_option (\<lambda>bs. TlsApplicationDataStart = bs \<and> isComplete) (Buffer_BytesTo b 3)
            else Some False);
     if app then do {
       let l = (if EnableXtls ts then l\<lparr>WriterDirectCopy := True\<rparr> else l);
       let command = (if mb = [] then end_command ts else CommandPaddingContinue);
       (nb, u) \<leftarrow> XtlsPadding (gots i) (rnd i) (Some b) command (Some uuid) True testseed;
       (l, uuid, rest) \<leftarrow> vision_loop gots rnd testseed ts isComplete (Suc i) (l\<lparr>IsPadding := False\<rparr>) False (the u) mb;
       Some (l, uuid, nb # rest)
     }
     else if \<not> IsTLS12orAbove ts \<and> NumberOfPacketToFilter ts \<le> 1 then do {
       (nb, u) \<leftarrow> XtlsPadding (gots i) (rnd i) (Some b) CommandPaddingEnd (Some uuid) longPadding testseed;
       Some (l\<lparr>IsPadding := False\<rparr>, the u, nb # mb)
     }
     else do {
       let command = (if mb = [] \<and> \<not> IsPadding l then end_command ts else CommandPaddingContinue);
       (nb, u) \<leftarrow> XtlsPadding (gots i) (rnd i) (Some b) command (Some uuid) longPadding testseed;
       (l, uuid, rest) \<leftarrow> vision_loop gots rnd testseed ts isComplete (Suc i) l longPadding (the u) mb;
       Some (l, uuid, nb # rest)
     }
   }"

text \<open>\<open>pad_all\<close> is the part of \<^verbatim>\<open>WriteMultiBuffer\<close> under \<^verbatim>\<open>if *isPadding\<close>.\<close>

definition pad_all ::
  "(nat \<Rightarrow> slice) \<Rightarrow> (nat \<Rightarrow> slice) \<Rightarrow> (nat \<Rightarrow> int \<Rightarrow> int) \<Rightarrow> u32 list \<Rightarrow> TrafficState \<Rightarrow> LinkState \<Rightarrow> byte list \<Rightarrow> Buffer option list \<Rightarrow>
   (LinkState \<times> byte list \<times> MultiBuffer) go" where
  "pad_all gots gots' rnd testseed ts l uuid mb =
     (if mb = [None] then do {
        (nb, u) \<leftarrow> XtlsPadding (gots 0) (rnd 0) None CommandPaddingContinue (Some uuid) True testseed;
        Some (l, the u, [nb])
      }
      else if None \<in> set mb then None
      else do {
        let mb = map the mb;
        isComplete \<leftarrow> IsCompleteRecord mb;
        mb \<leftarrow> ReshapeMultiBuffer gots' mb;
        vision_loop gots rnd testseed ts isComplete 0 l (IsTLS ts) uuid mb
      })"

definition VisionWriter_WriteMultiBuffer ::
  "(nat \<Rightarrow> slice) \<Rightarrow> (nat \<Rightarrow> slice) \<Rightarrow> (nat \<Rightarrow> int \<Rightarrow> int) \<Rightarrow> VisionWriter \<Rightarrow> TrafficState \<Rightarrow> Buffer option list \<Rightarrow>
   (Buffer option list \<times> VisionWriter \<times> TrafficState) go" where
  "VisionWriter_WriteMultiBuffer gots gots' rnd w ts mb = do {
     let l = writer_link (vw_isUplink w) ts;
     let w = (if WriterDirectCopy l then w\<lparr>vw_direct := True\<rparr> else w);
     let ts = set_writer_link (vw_isUplink w) (l\<lparr>WriterDirectCopy := False\<rparr>) ts;
     ts \<leftarrow> (if NumberOfPacketToFilter ts > 0 then XtlsFilterTls mb ts else Some ts);
     let l = writer_link (vw_isUplink w) ts;
     if IsPadding l then do {
       (l, uuid, mb) \<leftarrow> pad_all gots gots' rnd (vw_testseed w) ts l (vw_writeOnceUserUUID w) mb;
       Some (map Some mb, w\<lparr>vw_writeOnceUserUUID := uuid\<rparr>, set_writer_link (vw_isUplink w) l ts)
     } else Some (mb, w, ts)
   }"

section \<open>The Vision reader\<close>

text \<open>
  One call of \<^verbatim>\<open>ReadMultiBuffer\<close>: \<open>buffer\<close> and \<open>err\<close> are what the underlying reader returned; \<open>input\<close> and
  \<open>rawInput\<close> are the bytes that the TLS connection holds decrypted and undecrypted. \<open>vr_direct\<close> tells
  that the reader has been replaced by one on the raw connection.
\<close>

record VisionReader =
  vr_isUplink :: bool
  vr_direct :: bool

fun unpad_all :: "(nat \<Rightarrow> slice) \<Rightarrow> nat \<Rightarrow> bool \<Rightarrow> MultiBuffer \<Rightarrow> TrafficState \<Rightarrow> (MultiBuffer \<times> TrafficState) go" where
  "unpad_all gots i isUplink [] ts = Some ([], ts)"
| "unpad_all gots i isUplink (b # buffer) ts = do {
     (newbuffer, ts) \<leftarrow> XtlsUnpadding (gots i) b ts isUplink;
     (mb2, ts) \<leftarrow> unpad_all gots (Suc i) isUplink buffer ts;
     Some (if Buffer_Len newbuffer > 0 then newbuffer # mb2 else mb2, ts)
   }"

definition after_unpadding :: "LinkState \<Rightarrow> LinkState" where
  "after_unpadding l =
     (if RemainingContent l > 0 \<or> RemainingPadding l > 0 \<or> CurrentCommand l = 0 then l\<lparr>WithinPaddingBuffers := True\<rparr>
      else if CurrentCommand l = 1 then l\<lparr>WithinPaddingBuffers := False\<rparr>
      else if CurrentCommand l = 2 then l\<lparr>WithinPaddingBuffers := False, ReaderDirectCopy := True\<rparr>
      else l)"

definition tls_leftover :: "(nat \<Rightarrow> slice) \<Rightarrow> byte list \<Rightarrow> MultiBuffer \<Rightarrow> MultiBuffer go" where
  "tls_leftover gots input buffer = do {
     (mb, err) \<leftarrow> MultiBuffer_ReadFrom gots input;
     Some (if err = None \<and> \<not> MultiBuffer_IsEmpty mb then fst (MergeMulti buffer mb) else buffer)
   }"

definition VisionReader_ReadMultiBuffer ::
  "(nat \<Rightarrow> slice) \<Rightarrow> (nat \<Rightarrow> slice) \<Rightarrow> (nat \<Rightarrow> slice) \<Rightarrow> byte list \<Rightarrow> byte list \<Rightarrow> VisionReader \<Rightarrow> TrafficState \<Rightarrow> MultiBuffer \<Rightarrow>
   go_error option \<Rightarrow> (MultiBuffer \<times> go_error option \<times> VisionReader \<times> TrafficState) go" where
  "VisionReader_ReadMultiBuffer gots gots' gots'' input rawInput w ts buffer err =
     (if MultiBuffer_IsEmpty buffer \<or> ReaderDirectCopy (reader_link (vr_isUplink w) ts) then Some (buffer, err, w, ts)
      else do {
        (buffer, ts) \<leftarrow>
          (if WithinPaddingBuffers (reader_link (vr_isUplink w) ts) \<or> NumberOfPacketToFilter ts > 0 then do {
             (mb2, ts) \<leftarrow> unpad_all gots 0 (vr_isUplink w) buffer ts;
             Some (mb2, set_reader_link (vr_isUplink w) (after_unpadding (reader_link (vr_isUplink w) ts)) ts)
           } else Some (buffer, ts));
        ts \<leftarrow> (if NumberOfPacketToFilter ts > 0 then XtlsFilterTls (map Some buffer) ts else Some ts);
        if ReaderDirectCopy (reader_link (vr_isUplink w) ts) then do {
          buffer \<leftarrow> tls_leftover gots' input buffer;
          buffer \<leftarrow> tls_leftover gots'' rawInput buffer;
          Some (buffer, err, w\<lparr>vr_direct := True\<rparr>, ts)
        } else Some (buffer, err, w, ts)
      })"

section \<open>Removing the padding, byte by byte\<close>

text \<open>
  The reference decoder takes one byte at a time, so that it does not matter where a stream is cut; in
  the initial state it passes bytes through.
\<close>

definition finish :: "LinkState \<Rightarrow> LinkState" where
  "finish l = (if block_done l then if CurrentCommand l = 0 then l\<lparr>RemainingCommand := 5\<rparr> else to_initial l else l)"

definition unpad_byte :: "byte \<Rightarrow> LinkState \<Rightarrow> LinkState \<times> byte list" where
  "unpad_byte x l =
     (if initial_state l then (l, [x])
      else if RemainingCommand l > 0 then (finish (header_byte x l), [])
      else if RemainingContent l > 0 then (finish (l\<lparr>RemainingContent := RemainingContent l - 1\<rparr>), [x])
      else (finish (l\<lparr>RemainingPadding := RemainingPadding l - 1\<rparr>), []))"

fun unpad_bytes :: "LinkState \<Rightarrow> byte list \<Rightarrow> LinkState \<times> byte list" where
  "unpad_bytes l [] = (l, [])"
| "unpad_bytes l (x # xs) =
     (let (l, out) = unpad_byte x l; (l, rest) = unpad_bytes l xs in (l, out @ rest))"

lemma unpad_bytes_append:
  "unpad_bytes l (xs @ ys) =
     (let (l, out) = unpad_bytes l xs; (l, rest) = unpad_bytes l ys in (l, out @ rest))"
  by (induction xs arbitrary: l) (auto simp: Let_def split: prod.splits)

lemma unpad_bytes_initial: "initial_state l \<Longrightarrow> unpad_bytes l xs = (l, xs)"
  by (induction xs) (auto simp: unpad_byte_def)

text \<open>The states between two bytes.\<close>

definition unpad_wf :: "LinkState \<Rightarrow> bool" where
  "unpad_wf l \<longleftrightarrow> initial_state l
     \<or> (1 \<le> RemainingCommand l \<and> RemainingCommand l \<le> 5 \<and> (RemainingCommand l \<le> 3 \<longrightarrow> 0 \<le> RemainingContent l)
        \<and> (RemainingCommand l \<le> 1 \<longrightarrow> 0 \<le> RemainingPadding l))
     \<or> (RemainingCommand l = 0 \<and> 0 \<le> RemainingContent l \<and> 0 \<le> RemainingPadding l
        \<and> (0 < RemainingContent l \<or> 0 < RemainingPadding l))"

lemma initial_to_initial [simp]: "initial_state (to_initial l)"
  by (simp add: initial_state_def to_initial_def)

lemma finish_wf:
  "RemainingCommand l = 0 \<Longrightarrow> 0 \<le> RemainingContent l \<Longrightarrow> 0 \<le> RemainingPadding l \<Longrightarrow> unpad_wf (finish l)"
  by (auto simp: finish_def block_done_def unpad_wf_def)

lemma finish_header: "1 \<le> RemainingCommand l \<Longrightarrow> finish l = l"
  by (simp add: finish_def block_done_def)

lemma header_byte_wf:
  assumes "unpad_wf l" and "RemainingCommand l > 0"
  shows "unpad_wf (finish (header_byte x l))"
proof (cases "RemainingCommand l = 1")
  case True
  then have "RemainingCommand (header_byte x l) = 0" "0 \<le> RemainingContent (header_byte x l)" "0 \<le> RemainingPadding (header_byte x l)"
    using assms by (auto simp: header_byte_def Let_def unpad_wf_def initial_state_def)
  then show ?thesis by (rule finish_wf)
next
  case False
  then show ?thesis
    using assms
    by (subst finish_header) (auto simp: header_byte_def Let_def unpad_wf_def initial_state_def or_nonnegative_int_iff)
qed

lemma unpad_byte_wf: "unpad_wf l \<Longrightarrow> unpad_wf (fst (unpad_byte x l))"
  using header_byte_wf [of l x]
  by (auto simp: unpad_byte_def intro!: finish_wf) (auto simp: unpad_wf_def initial_state_def)

lemma unpad_bytes_wf: "unpad_wf l \<Longrightarrow> unpad_wf (fst (unpad_bytes l xs))"
proof (induction xs arbitrary: l)
  case (Cons x xs)
  have "fst (unpad_bytes l (x # xs)) = fst (unpad_bytes (fst (unpad_byte x l)) xs)" by (simp split: prod.split)
  then show ?case using Cons.IH unpad_byte_wf [OF Cons.prems] by simp
qed simp

text \<open>Runs of content and of padding.\<close>

lemma unpad_content:
  assumes "RemainingCommand l = 0" and "0 \<le> RemainingPadding l" and "xs \<noteq> []" and "int (length xs) \<le> RemainingContent l"
  shows "unpad_bytes l xs = (finish (l\<lparr>RemainingContent := RemainingContent l - int (length xs)\<rparr>), xs)"
  using assms
proof (induction xs arbitrary: l)
  case (Cons x xs)
  have ni: "\<not> initial_state l" "0 < RemainingContent l" using Cons.prems by (auto simp: initial_state_def)
  let ?l = "l\<lparr>RemainingContent := RemainingContent l - 1\<rparr>"
  have b: "unpad_byte x l = (finish ?l, [x])" using ni Cons.prems(1) by (simp add: unpad_byte_def)
  show ?case
  proof (cases "xs = []")
    case True
    then show ?thesis using b by simp
  next
    case False
    then have "int (length xs) \<le> RemainingContent ?l" using Cons.prems(4) by simp
    moreover from this False have "finish ?l = ?l" by (cases xs) (auto simp: finish_def block_done_def)
    ultimately show ?thesis using Cons.IH [of ?l] Cons.prems(1,2) False b by (simp add: Let_def algebra_simps)
  qed
qed simp

lemma unpad_padding:
  assumes "RemainingCommand l = 0" and "RemainingContent l = 0" and "xs \<noteq> []" and "int (length xs) \<le> RemainingPadding l"
  shows "unpad_bytes l xs = (finish (l\<lparr>RemainingPadding := RemainingPadding l - int (length xs)\<rparr>), [])"
  using assms
proof (induction xs arbitrary: l)
  case (Cons x xs)
  have ni: "\<not> initial_state l" using Cons.prems by (auto simp: initial_state_def)
  let ?l = "l\<lparr>RemainingPadding := RemainingPadding l - 1\<rparr>"
  have b: "unpad_byte x l = (finish ?l, [])" using ni Cons.prems(1,2) by (simp add: unpad_byte_def)
  show ?case
  proof (cases "xs = []")
    case True
    then show ?thesis using b by simp
  next
    case False
    then have "int (length xs) \<le> RemainingPadding ?l" using Cons.prems(4) by simp
    moreover from this False have "finish ?l = ?l" by (cases xs) (auto simp: finish_def block_done_def)
    ultimately show ?thesis using Cons.IH [of ?l] Cons.prems(1,2) False b by (simp add: Let_def algebra_simps)
  qed
qed simp

section \<open>The loop is the reference decoder\<close>

text \<open>A buffer with room for \<open>n\<close> more bytes.\<close>

definition has_room :: "Buffer \<Rightarrow> nat \<Rightarrow> bool" where
  "has_room b n \<longleftrightarrow> buf_inv b \<and> int n \<le> Buffer_Available b"

lemma Buffer_Write_has_room:
  assumes "has_room b (length data + n)"
  shows "\<exists>b'. Buffer_Write b data = Some (length data, None, b') \<and> has_room b' n \<and> content b' = content b @ data"
  using assms Buffer_Write_grows [of b data] by (auto simp: has_room_def grows_def)

lemma has_room_New: "n \<le> Size \<Longrightarrow> has_room (Buffer_New got) n"
  by (simp add: has_room_def Buffer_New_inv)

lemma has_room_inv: "has_room b n \<Longrightarrow> buf_inv b" by (simp add: has_room_def)

lemma has_room_less: "has_room b n \<Longrightarrow> m \<le> n \<Longrightarrow> has_room b m" by (simp add: has_room_def)

text \<open>One turn takes a piece off the buffer and does on it what the reference decoder does.\<close>

lemma unpad_turn_spec:
  assumes "unpad_wf l" and "\<not> initial_state l" and "buf_inv b" and "content b \<noteq> []" and "has_room nb (length (content b))"
  shows "\<exists>l' b' nb' xs ys. unpad_turn l b nb = Some (None, l', b', nb') \<and> buf_inv b' \<and> xs \<noteq> [] \<and> content b = xs @ content b'
    \<and> content nb' = content nb @ ys \<and> has_room nb' (length (content b')) \<and> unpad_bytes l xs = (finish l', ys)"
proof -
  have len: "Buffer_Len b = int (length (content b))" using assms(3) by (rule Buffer_Len_content)
  consider (h) "RemainingCommand l > 0" | (c) "RemainingCommand l = 0" "RemainingContent l > 0" "0 \<le> RemainingPadding l"
    | (p) "RemainingCommand l = 0" "RemainingContent l = 0" "RemainingPadding l > 0"
    using assms(1,2) by (fastforce simp: unpad_wf_def)
  then show ?thesis
  proof cases
    case h
    obtain x xs where cb: "content b = x # xs" using assms(4) by (cases "content b") auto
    obtain b' where "Buffer_ReadByte b = Some (x, None, b')" "buf_inv b'" "content b' = xs"
      using Buffer_ReadByte_spec [OF assms(3)] cb advance_start [OF assms(3), of 1] length_content [OF assms(3)] by auto
    moreover from this cb have "unpad_turn l b nb = Some (None, header_byte x l, b', nb)"
      using h by (simp add: unpad_turn_def)
    moreover have "unpad_bytes l [x] = (finish (header_byte x l), [])"
      using h assms(2) by (simp add: unpad_byte_def)
    ultimately show ?thesis
      using cb has_room_less [OF assms(5)]
      by (intro exI [of _ "header_byte x l"] exI [of _ b'] exI [of _ nb] exI [of _ "[x]"] exI [of _ "[]"]) simp
  next
    case c
    let ?k = "if Buffer_Len b < RemainingContent l then Buffer_Len b else RemainingContent l"
    have k: "0 \<le> ?k" "?k \<le> Buffer_Len b" "?k \<le> RemainingContent l" "nat ?k \<le> length (content b)" "0 < nat ?k"
      using c(2) assms(4) len by auto
    let ?xs = "take (nat ?k) (content b)"
    have lxs: "length ?xs = nat ?k" "int (length ?xs) = ?k" using k by auto
    obtain b' where rb: "Buffer_ReadBytes b ?k = Some (?xs, None, b')" "buf_inv b'" "content b' = drop (nat ?k) (content b)"
      using Buffer_ReadBytes_spec [OF assms(3) k(1)] advance_start [OF assms(3) k(1)] k(2,4) len length_content [OF assms(3)] assms(3)
      by (auto simp: buf_inv_def)
    have "has_room nb (length ?xs + length (content b'))"
      using assms(5) k rb(3) by (simp add: has_room_def)
    from Buffer_Write_has_room [OF this] obtain nb' where w: "Buffer_Write nb ?xs = Some (length ?xs, None, nb')"
      "has_room nb' (length (content b'))" "content nb' = content nb @ ?xs" by blast
    have "unpad_turn l b nb = Some (None, l\<lparr>RemainingContent := RemainingContent l - ?k\<rparr>, b', nb')"
      using c rb(1) w(1) by (simp add: unpad_turn_def Let_def)
    moreover have "unpad_bytes l ?xs = (finish (l\<lparr>RemainingContent := RemainingContent l - ?k\<rparr>), ?xs)"
      using unpad_content [OF c(1) c(3), of ?xs] lxs k assms(4) by (cases "content b") auto
    ultimately show ?thesis
      using rb w k assms(4)
      by (intro exI [of _ "l\<lparr>RemainingContent := RemainingContent l - ?k\<rparr>"] exI [of _ b'] exI [of _ nb'] exI [of _ ?xs]) auto
  next
    case p
    let ?k = "if Buffer_Len b < RemainingPadding l then Buffer_Len b else RemainingPadding l"
    have k: "0 \<le> ?k" "?k \<le> Buffer_Len b" "?k \<le> RemainingPadding l" "nat ?k \<le> length (content b)" "0 < nat ?k"
      using p(3) assms(4) len by auto
    let ?xs = "take (nat ?k) (content b)"
    have lxs: "length ?xs = nat ?k" "int (length ?xs) = ?k" using k by auto
    note adv = Buffer_Advance_spec [OF assms(3) k(1,2)]
    have "unpad_turn l b nb = Some (None, l\<lparr>RemainingPadding := RemainingPadding l - ?k\<rparr>, Buffer_Advance b ?k, nb)"
      using p by (simp add: unpad_turn_def Let_def)
    moreover have "unpad_bytes l ?xs = (finish (l\<lparr>RemainingPadding := RemainingPadding l - ?k\<rparr>), [])"
      using unpad_padding [OF p(1,2), of ?xs] lxs k assms(4) by (cases "content b") auto
    ultimately show ?thesis
      using adv k assms(4) has_room_less [OF assms(5)]
      by (intro exI [of _ "l\<lparr>RemainingPadding := RemainingPadding l - ?k\<rparr>"] exI [of _ "Buffer_Advance b ?k"] exI [of _ nb] exI [of _ ?xs] exI [of _ "[]"])
        auto
  qed
qed

lemma unpad_loop_spec:
  assumes "unpad_wf l" and "\<not> initial_state l" and "buf_inv b" and "has_room nb (length (content b))"
  shows "\<exists>nb'. unpad_loop l b nb = Some (fst (unpad_bytes l (content b)), nb') \<and> buf_inv nb'
    \<and> content nb' = content nb @ snd (unpad_bytes l (content b))"
  using assms
proof (induction "length (content b)" arbitrary: l b nb rule: less_induct)
  case less
  have len: "Buffer_Len b = int (length (content b))" using less.prems(3) by (rule Buffer_Len_content)
  show ?case
  proof (cases "content b = []")
    case True
    then show ?thesis using len less.prems(4) by (subst unpad_loop.simps) (simp add: has_room_inv)
  next
    case False
    from unpad_turn_spec [OF less.prems(1-3) False less.prems(4)] obtain l1 b1 nb1 xs ys where
      t: "unpad_turn l b nb = Some (None, l1, b1, nb1)" "buf_inv b1" "xs \<noteq> []" "content b = xs @ content b1"
        "content nb1 = content nb @ ys" "has_room nb1 (length (content b1))" "unpad_bytes l xs = (finish l1, ys)" by blast
    have step: "unpad_bytes l (content b) = (fst (unpad_bytes (finish l1) (content b1)), ys @ snd (unpad_bytes (finish l1) (content b1)))"
      using t(4,7) by (simp add: unpad_bytes_append Let_def split: prod.split)
    have wf: "unpad_wf (finish l1)" using unpad_bytes_wf [OF less.prems(1), of xs] t(7) by simp
    have smaller: "length (content b1) < length (content b)" using t(3,4) by simp
    have len1: "Buffer_Len b1 = int (length (content b1))" using t(2) by (rule Buffer_Len_content)
    show ?thesis
    proof (cases "block_done l1 \<and> CurrentCommand l1 \<noteq> 0")
      case True
      then have fin: "finish l1 = to_initial l1" by (simp add: finish_def)
      from Buffer_Write_has_room [of nb1 "content b1" 0] t(6) obtain nb2 where
        w: "Buffer_Write nb1 (content b1) = Some (length (content b1), None, nb2)" "buf_inv nb2" "content nb2 = content nb1 @ content b1"
        by (auto simp: has_room_inv)
      show ?thesis
        using True False len len1 t(1) w step fin t(5) has_room_inv [OF t(6)]
        by (subst unpad_loop.simps) (auto simp: Buffer_Bytes_content [OF t(2)] unpad_bytes_initial)
    next
      case go: False
      then have ni: "\<not> initial_state (finish l1)"
        using wf by (auto simp: finish_def initial_state_def block_done_def split: if_splits)
      from less.hyps [OF smaller wf ni t(2,6)] obtain nb' where
        ih: "unpad_loop (finish l1) b1 nb1 = Some (fst (unpad_bytes (finish l1) (content b1)), nb')" "buf_inv nb'"
          "content nb' = content nb1 @ snd (unpad_bytes (finish l1) (content b1))" by blast
      have "unpad_loop l b nb = unpad_loop (finish l1) b1 nb1"
        using go False len t(1) by (subst unpad_loop.simps) (auto simp: finish_def)
      then show ?thesis using ih step t(5) by simp
    qed
  qed
qed

text \<open>What one buffer contributes, on byte sequences.\<close>

definition unpad_piece :: "byte list \<Rightarrow> LinkState \<Rightarrow> byte list \<Rightarrow> LinkState \<times> byte list" where
  "unpad_piece uuid l bs =
     (if initial_state l then
        if 21 \<le> length bs \<and> uuid = take 16 bs then unpad_bytes (l\<lparr>RemainingCommand := 5\<rparr>) (drop 16 bs) else (l, bs)
      else unpad_bytes l bs)"

lemma unpad_link_spec:
  assumes "unpad_wf l" and "buf_inv b" and "length (content b) \<le> Size"
  shows "\<exists>nb. unpad_link got uuid b l = Some (nb, fst (unpad_piece uuid l (content b)))
    \<and> buf_inv nb \<and> content nb = snd (unpad_piece uuid l (content b))"
proof -
  have len: "Buffer_Len b = int (length (content b))" using assms(2) by (rule Buffer_Len_content)
  show ?thesis
  proof (cases "initial_state l")
    case True
    show ?thesis
    proof (cases "21 \<le> length (content b) \<and> uuid = take 16 (content b)")
      case enter: True
      let ?l = "l\<lparr>RemainingCommand := 5\<rparr>" and ?b = "Buffer_Advance b 16"
      have to: "Buffer_BytesTo b 16 = Some (take 16 (content b))"
        using Buffer_BytesTo_spec [OF assms(2), of 16] enter len by simp
      have adv: "buf_inv ?b" "content ?b = drop 16 (content b)"
        using Buffer_Advance_spec [OF assms(2), of 16] enter len by simp_all
      have "has_room (Buffer_New got) (length (content ?b))" using adv assms(3) by (intro has_room_New) simp
      moreover have "unpad_wf ?l" "\<not> initial_state ?l" by (simp_all add: unpad_wf_def initial_state_def)
      ultimately obtain nb where "unpad_loop ?l ?b (Buffer_New got) = Some (fst (unpad_bytes ?l (content ?b)), nb)" "buf_inv nb"
          "content nb = snd (unpad_bytes ?l (content ?b))"
        using unpad_loop_spec [of ?l ?b "Buffer_New got"] adv by (auto simp: Buffer_New_inv)
      then show ?thesis
        using True enter len to adv by (simp add: unpad_link_def unpad_piece_def)
    next
      case False
      then have "(if initial_state l \<and> Buffer_Len b \<ge> 21 then map_option (\<lambda>bs. uuid = bs) (Buffer_BytesTo b 16) else Some False) = Some False"
        using len Buffer_BytesTo_spec [OF assms(2), of 16] by auto
      with True False assms(2) show ?thesis by (auto simp: unpad_link_def unpad_piece_def)
    qed
  next
    case False
    have "has_room (Buffer_New got) (length (content b))" using assms(3) by (rule has_room_New)
    then obtain nb where "unpad_loop l b (Buffer_New got) = Some (fst (unpad_bytes l (content b)), nb)" "buf_inv nb"
        "content nb = snd (unpad_bytes l (content b))"
      using unpad_loop_spec [OF assms(1) False assms(2), of "Buffer_New got"] by (auto simp: Buffer_New_inv)
    then show ?thesis using False by (simp add: unpad_link_def unpad_piece_def)
  qed
qed

lemma unpad_piece_wf: "unpad_wf l \<Longrightarrow> unpad_wf (fst (unpad_piece uuid l bs))"
  by (auto simp: unpad_piece_def intro!: unpad_bytes_wf) (simp add: unpad_wf_def)

fun unpad_pieces :: "byte list \<Rightarrow> LinkState \<Rightarrow> byte list list \<Rightarrow> LinkState \<times> byte list" where
  "unpad_pieces uuid l [] = (l, [])"
| "unpad_pieces uuid l (bs # bss) =
     (let (l, out) = unpad_piece uuid l bs; (l, rest) = unpad_pieces uuid l bss in (l, out @ rest))"

lemma reader_link_set [simp]:
  "reader_link u (set_reader_link u l ts) = l" "UserUUID (set_reader_link u l ts) = UserUUID ts"
  "NumberOfPacketToFilter (set_reader_link u l ts) = NumberOfPacketToFilter ts"
  "set_reader_link u l (set_reader_link u l' ts) = set_reader_link u l ts" "set_reader_link u (reader_link u ts) ts = ts"
  by (simp_all add: reader_link_def set_reader_link_def)

lemma unpad_all_spec:
  assumes "unpad_wf (reader_link u ts)" and "list_all (\<lambda>b. buf_inv b \<and> length (content b) \<le> Size) mb"
  shows "\<exists>mb2. unpad_all gots i u mb ts =
      Some (mb2, set_reader_link u (fst (unpad_pieces (UserUUID ts) (reader_link u ts) (map content mb))) ts)
    \<and> mb_inv mb2 \<and> mcontent mb2 = snd (unpad_pieces (UserUUID ts) (reader_link u ts) (map content mb))"
  using assms
proof (induction mb arbitrary: i ts)
  case (Cons b mb)
  let ?p = "unpad_piece (UserUUID ts) (reader_link u ts) (content b)"
  obtain nb where nb: "unpad_link (gots i) (UserUUID ts) b (reader_link u ts) = Some (nb, fst ?p)" "buf_inv nb" "content nb = snd ?p"
    using unpad_link_spec [OF Cons.prems(1), of b] Cons.prems(2) by auto
  have wf: "unpad_wf (reader_link u (set_reader_link u (fst ?p) ts))" using unpad_piece_wf [OF Cons.prems(1)] by simp
  from Cons.IH [OF wf, of "Suc i"] Cons.prems(2) obtain mb2 where
    mb2: "unpad_all gots (Suc i) u mb (set_reader_link u (fst ?p) ts) =
        Some (mb2, set_reader_link u (fst (unpad_pieces (UserUUID ts) (fst ?p) (map content mb))) ts)"
      "mb_inv mb2" "mcontent mb2 = snd (unpad_pieces (UserUUID ts) (fst ?p) (map content mb))" by auto
  have len: "Buffer_Len nb = int (length (content nb))" using nb(2) by (rule Buffer_Len_content)
  have "unpad_all gots i u (b # mb) ts =
      Some (if Buffer_Len nb > 0 then nb # mb2 else mb2, set_reader_link u (fst (unpad_pieces (UserUUID ts) (fst ?p) (map content mb))) ts)"
    using nb(1) mb2(1) by (simp add: XtlsUnpadding_def)
  then show ?case using nb(2,3) mb2(2,3) len by (auto simp: Let_def split: prod.split)
qed simp

section \<open>Blocks\<close>

definition enc_block :: "byte \<Rightarrow> byte list \<Rightarrow> nat \<Rightarrow> byte list" where
  "enc_block command cs n =
     [command, word_of_int (int (length cs) div 256), word_of_int (int (length cs)),
      word_of_int (int n div 256), word_of_int (int n)] @ cs @ replicate n 0"

lemma or_high_low:
  fixes n :: int
  assumes "0 \<le> n" and "n < 65536"
  shows "or (push_bit 8 (uint (word_of_int (n div 256) :: byte))) (uint (word_of_int n :: byte)) = n"
proof -
  have "uint (word_of_int (n div 256) :: byte) = n div 256" "uint (word_of_int n :: byte) = n mod 256"
    using assms by (simp_all add: uint_word_of_int)
  moreover have "or (push_bit 8 (n div 256)) (n mod 256) = push_bit 8 (n div 256) + n mod 256"
    by (rule disjunctive_add [symmetric])
      (auto simp: bit_push_bit_iff bit_take_bit_iff simp flip: take_bit_eq_mod [of 8 n, simplified])
  ultimately show ?thesis by (simp add: push_bit_eq_mult)
qed

text \<open>After a block the decoder expects the next header, or has left the padding.\<close>

lemma unpad_block:
  assumes "RemainingCommand l = 5" and "length cs < 65536" and "n < 65536"
  shows "unpad_bytes l (enc_block command cs n) =
    (let l' = l\<lparr>CurrentCommand := uint command, RemainingContent := 0, RemainingPadding := 0\<rparr>
     in if command = 0 then l' else to_initial l', cs)"
proof -
  let ?h = "[command, word_of_int (int (length cs) div 256), word_of_int (int (length cs)),
      word_of_int (int n div 256), word_of_int (int n)]"
  let ?l1 = "l\<lparr>CurrentCommand := uint command, RemainingContent := int (length cs), RemainingPadding := int n, RemainingCommand := 0\<rparr>"
  have hd: "unpad_bytes l ?h = (finish ?l1, [])"
    using assms or_high_low [of "int (length cs)"] or_high_low [of "int n"]
    by (simp add: unpad_byte_def initial_state_def header_byte_def finish_header)
  let ?l2 = "l\<lparr>CurrentCommand := uint command, RemainingContent := 0, RemainingPadding := int n, RemainingCommand := 0\<rparr>"
  let ?l3 = "l\<lparr>CurrentCommand := uint command, RemainingContent := 0, RemainingPadding := 0, RemainingCommand := 0\<rparr>"
  have upd: "?l1\<lparr>RemainingContent := 0\<rparr> = ?l2" "?l2\<lparr>RemainingPadding := 0\<rparr> = ?l3"
    by (simp_all add: LinkState.equality)
  have ct: "unpad_bytes (finish ?l1) cs = (finish ?l2, cs)"
  proof (cases "cs = []")
    case False
    then have "finish ?l1 = ?l1" by (cases cs) (auto simp: finish_def block_done_def)
    then show ?thesis using unpad_content [of ?l1 cs] False upd(1) by simp
  qed simp
  have pd: "unpad_bytes (finish ?l2) (replicate n 0) = (finish ?l3, [])"
  proof (cases "n = 0")
    case False
    then have "finish ?l2 = ?l2" by (simp add: finish_def block_done_def)
    then show ?thesis using unpad_padding [of ?l2 "replicate n 0"] False upd(2) by simp
  qed simp
  have "finish ?l3 = (let l' = l\<lparr>CurrentCommand := uint command, RemainingContent := 0, RemainingPadding := 0\<rparr>
     in if command = 0 then l' else to_initial l')"
    using assms(1) by (simp add: finish_def block_done_def to_initial_def uint_0_iff)
  moreover have "unpad_bytes l (?h @ cs @ replicate n 0) = (finish ?l3, cs)"
    by (simp only: unpad_bytes_append hd ct pd Let_def prod.case append_Nil append_Nil2)
  ultimately show ?thesis by (simp only: enc_block_def)
qed

text \<open>
  Seeds for which the padding lengths make sense: the default is 900, 500, 900, 256.
\<close>

definition seeds_ok :: "u32 list \<Rightarrow> bool" where
  "seeds_ok testseed \<longleftrightarrow> 4 \<le> length testseed \<and> 0 < uint (testseed ! 1) \<and> 0 < uint (testseed ! 3)
     \<and> uint (testseed ! 0) \<le> uint (testseed ! 2) \<and> uint (testseed ! 1) + uint (testseed ! 2) < 2147483648
     \<and> uint (testseed ! 3) < 2147483648"

definition rnd_ok :: "(int \<Rightarrow> int) \<Rightarrow> bool" where
  "rnd_ok rnd \<longleftrightarrow> (\<forall>m > 0. 0 \<le> rnd m \<and> rnd m < m)"

lemma padding_len_spec:
  assumes "seeds_ok testseed" and "rnd_ok rnd" and "0 \<le> c" and "c \<le> int Size - 21"
  shows "\<exists>n. padding_len rnd testseed c long = Some (int n) \<and> int n \<le> int Size - 21 - c"
proof -
  let ?s = "\<lambda>i. uint (testseed ! i)"
  have nn: "0 \<le> ?s 0" "0 \<le> ?s 2" by simp_all
  have s: "nth_go testseed i = Some (testseed ! i)" if "i < 4" for i using assms(1) that by (simp add: seeds_ok_def nth_go_def)
  have r1: "0 \<le> rnd (?s 1)" "rnd (?s 1) < ?s 1" and r3: "0 \<le> rnd (?s 3)" "rnd (?s 3) < ?s 3"
    using assms(1,2) by (auto simp: seeds_ok_def rnd_ok_def)
  have b: "?s 0 \<le> ?s 2" "?s 1 + ?s 2 < 2147483648" "?s 3 < 2147483648" "0 < ?s 1" "0 < ?s 3"
    using assms(1) by (auto simp: seeds_ok_def)
  have id0: "int32 (?s 0) = ?s 0" "int32 (?s 2) = ?s 2" "int32 (rnd (?s 1)) = rnd (?s 1)" "int32 (rnd (?s 3)) = rnd (?s 3)"
    "int32 (rnd (?s 1) + ?s 2) = rnd (?s 1) + ?s 2"
    by (rule int32_id; use r1 r3 b nn in linarith)+
  let ?cap = "\<lambda>p. if p > int Size - 21 - c then int Size - 21 - c else p"
  have cap: "0 \<le> p \<Longrightarrow> \<exists>n. ?cap p = int n \<and> int n \<le> int Size - 21 - c" for p
    using assms(4) by (intro exI [of _ "nat (?cap p)"]) auto
  show ?thesis
  proof (cases "c < ?s 0 \<and> long")
    case True
    have id: "int32 (rnd (?s 1) + ?s 2 - c) = rnd (?s 1) + ?s 2 - c"
      using True r1 b nn assms(3) by (intro int32_id) auto
    have "padding_len rnd testseed c long = Some (?cap (rnd (?s 1) + ?s 2 - c))"
      using True s id0 id b by (simp add: padding_len_def rand_Int_def)
    then show ?thesis using cap [of "rnd (?s 1) + ?s 2 - c"] True r1 b by simp
  next
    case False
    have "padding_len rnd testseed c long = Some (?cap (rnd (?s 3)))"
      using False s id0 b by (auto simp: padding_len_def rand_Int_def)
    then show ?thesis using cap [OF r3(1)] by simp
  qed
qed

lemma XtlsPadding_spec:
  assumes "seeds_ok testseed" and "rnd_ok rnd" and "length uuid \<le> 16"
    and "\<And>b'. b = Some b' \<Longrightarrow> buf_inv b' \<and> length (content b') \<le> Size - 21"
  defines "cs \<equiv> (case b of None \<Rightarrow> [] | Some b' \<Rightarrow> content b')"
  shows "\<exists>nb n. XtlsPadding got rnd b command (Some uuid) long testseed = Some (nb, Some [])
    \<and> buf_inv nb \<and> content nb = uuid @ enc_block command cs n \<and> length (content nb) \<le> Size \<and> length cs + n < 65536"
proof -
  let ?c = "int (length cs)"
  have c: "(case b of None \<Rightarrow> 0 | Some b \<Rightarrow> Buffer_Len b) = ?c" "?c \<le> int Size - 21"
    using assms(4) by (auto simp: cs_def Buffer_Len_content split: option.split)
  from padding_len_spec [OF assms(1,2) _ c(2)] obtain n where
    n: "padding_len rnd testseed ?c long = Some (int n)" "int n \<le> int Size - 21 - ?c" by auto
  let ?h = "[command, word_of_int (?c div 256), word_of_int ?c, word_of_int (int n div 256), word_of_int (int n)] :: byte list"
  have room: "length uuid + (5 + (length cs + n)) \<le> Size" using n(2) assms(3) by simp
  from Buffer_Write_has_room [OF has_room_New [OF this]] obtain b1 where
    b1: "Buffer_Write (Buffer_New got) uuid = Some (length uuid, None, b1)" "has_room b1 (5 + (length cs + n))" "content b1 = uuid"
    by (auto simp: Buffer_New_inv)
  have "has_room b1 (length ?h + (length cs + n))" using b1(2) by (simp add: eval_nat_numeral)
  from Buffer_Write_has_room [OF this] b1(3) obtain b2 where
    b2: "Buffer_Write b1 ?h = Some (length ?h, None, b2)" "has_room b2 (length cs + n)" "content b2 = uuid @ ?h" by blast
  from Buffer_Write_has_room [OF b2(2)] obtain b3 where
    b3: "Buffer_Write b2 cs = Some (length cs, None, b3)" "has_room b3 n" "content b3 = (uuid @ ?h) @ cs" using b2(3) by auto
  have nb: "(case b of None \<Rightarrow> Some b2 | Some b \<Rightarrow> do { bs \<leftarrow> Buffer_Bytes b; (_, _, nb) \<leftarrow> Buffer_Write b2 bs; Some nb }) =
      Some (case b of None \<Rightarrow> b2 | _ \<Rightarrow> b3)"
    using b3(1) assms(4) by (auto simp: cs_def Buffer_Bytes_content split: option.split)
  have last: "has_room (case b of None \<Rightarrow> b2 | _ \<Rightarrow> b3) n" "content (case b of None \<Rightarrow> b2 | _ \<Rightarrow> b3) = (uuid @ ?h) @ cs"
    using b2(2,3) b3(2,3) by (auto simp: cs_def split: option.split)
  from Buffer_Extend_grows [of _ n] last obtain b4 where
    b4: "Buffer_Extend (case b of None \<Rightarrow> b2 | _ \<Rightarrow> b3) (int n) = Some b4" "grows (case b of None \<Rightarrow> b2 | _ \<Rightarrow> b3) (replicate n 0) b4"
    by (metis has_room_def)
  have "XtlsPadding got rnd b command (Some uuid) long testseed = Some (b4, Some [])"
    unfolding XtlsPadding_def Let_def c(1)
    using n(1) b1(1) b2(1) nb b4(1) by (simp del: length_Cons)
  moreover have "content b4 = uuid @ enc_block command cs n" "buf_inv b4"
    using b4(2) last(2) by (simp_all add: grows_def enc_block_def)
  moreover have "length (uuid @ enc_block command cs n) \<le> Size" using room by (simp add: enc_block_def)
  ultimately show ?thesis using n(2) by (intro exI [of _ b4] exI [of _ n]) auto
qed

section \<open>Reshaping\<close>

definition fits :: "nat \<Rightarrow> Buffer \<Rightarrow> bool" where
  "fits n b \<longleftrightarrow> buf_inv b \<and> length (content b) \<le> n"

lemma fits_mb_inv: "list_all (fits n) mb \<Longrightarrow> mb_inv mb"
  by (auto simp: mb_inv_def list_all_iff fits_def)

lemma Buffer_cut:
  assumes "buf_inv b" and "0 \<le> k" and "k \<le> Buffer_Len b"
  shows "\<exists>b'. Buffer_Resize b 0 k = Some b' \<and> buf_inv b' \<and> content b' = take (nat k) (content b)"
    and "Buffer_BytesFrom b k = Some (drop (nat k) (content b))"
proof -
  have L: "Buffer_Len b = buf_end b - buf_start b" using assms(1) by (auto simp: Buffer_Len_def buf_inv_defs)
  have bnd: "0 \<le> buf_start b" "buf_start b + k \<le> buf_end b" "buf_end b < 2147483648" "buf_end b \<le> int (length (sl_arr (buf_v b)))"
    using assms L by (auto simp: buf_inv_defs)
  have id: "int32 (buf_start b + k) = buf_start b + k" "int32 (buf_start b) = buf_start b"
    using bnd assms(2) by (auto intro!: int32_id)
  have r: "resize_end b k = buf_start b + k" "resize_start b 0 k = buf_start b" "resize_to b k = k" "resize_to b 0 = 0"
    using id bnd assms(2) by (simp_all add: resize_end_def resize_start_def resize_to_def)
  have res: "Buffer_Resize b 0 k = Some (b\<lparr>buf_start := buf_start b, buf_end := buf_start b + k\<rparr>)"
    using Buffer_Resize_eq [OF assms(1), of 0 k] r bnd(2) assms(2) by simp
  moreover have "buf_inv (b\<lparr>buf_start := buf_start b, buf_end := buf_start b + k\<rparr>)"
    using assms(1,2) bnd by (auto simp: buf_inv_defs)
  moreover have "content (b\<lparr>buf_start := buf_start b, buf_end := buf_start b + k\<rparr>) = take (nat k) (content b)"
    using bnd assms(2) by (simp add: content_def nat_add_distrib min_def)
  ultimately show "\<exists>b'. Buffer_Resize b 0 k = Some b' \<and> buf_inv b' \<and> content b' = take (nat k) (content b)" by blast
  have "Buffer_BytesFrom b k = sl_sub (buf_v b) (buf_start b + k) (buf_end b)"
    using id assms(2) by (simp add: Buffer_BytesFrom_def)
  also have "\<dots> = Some (drop (nat k) (content b))"
    using bnd assms(2) by (auto simp: sl_sub_def sl_cap_def content_def drop_take nat_add_distrib add.commute)
  finally show "Buffer_BytesFrom b k = Some (drop (nat k) (content b))" .
qed

lemma reshape_index_bounds: "21 \<le> reshape_index bs" "reshape_index bs \<le> int Size - 21"
  by (auto simp: reshape_index_def Let_def)

lemma reshape_loop_spec:
  "list_all (fits Size) mb \<Longrightarrow>
   \<exists>mb'. reshape_loop gots k mb = Some mb' \<and> list_all (fits (Size - 21)) mb' \<and> mcontent mb' = mcontent mb"
proof (induction mb arbitrary: k)
  case (Cons b mb)
  then have b: "buf_inv b" "length (content b) \<le> Size" by (auto simp: fits_def)
  have len: "Buffer_Len b = int (length (content b))" using b(1) by (rule Buffer_Len_content)
  show ?case
  proof (cases "Buffer_Len b \<ge> int Size - 21")
    case True
    let ?i = "reshape_index (content b)"
    have i: "0 \<le> ?i" "?i \<le> Buffer_Len b" using True reshape_index_bounds [of "content b"] by linarith+
    note cut = Buffer_cut [OF b(1) i]
    from cut(1) obtain b1 where b1: "Buffer_Resize b 0 ?i = Some b1" "buf_inv b1" "content b1 = take (nat ?i) (content b)" by blast
    let ?rear = "drop (nat ?i) (content b)"
    have bk: "length ?rear \<le> Size - 21" using b(2) reshape_index_bounds(1) [of "content b"] by simp
    then obtain b2 where b2: "Buffer_Write (Buffer_New (gots k)) ?rear = Some (length ?rear, None, b2)" "buf_inv b2" "content b2 = ?rear"
      using Buffer_Write_New [of "gots k" ?rear] by auto
    from Cons.IH [of "Suc k"] Cons.prems obtain mb' where mb': "reshape_loop gots (Suc k) mb = Some mb'"
      "list_all (fits (Size - 21)) mb'" "mcontent mb' = mcontent mb" by auto
    have res: "reshape_loop gots k (b # mb) = Some (b1 # b2 # mb')"
      using True b1(1) b2(1) mb'(1) cut(2) Buffer_Bytes_content [OF b(1)] by simp
    have "length (content b1) \<le> Size - 21"
      using b1(3) reshape_index_bounds(2) [of "content b"] by simp
    moreover have "mcontent (b1 # b2 # mb') = mcontent (b # mb)" using b1(3) b2(3) mb'(3) by simp
    ultimately have "fits (Size - 21) b1" "fits (Size - 21) b2" using b1(2) b2(2,3) bk by (simp_all add: fits_def)
    then show ?thesis using res mb'(2) \<open>mcontent (b1 # b2 # mb') = mcontent (b # mb)\<close> by (metis list.pred_inject(2))
  next
    case False
    then show ?thesis using Cons.IH [of k] Cons.prems len by (auto simp: fits_def)
  qed
qed simp

lemma ReshapeMultiBuffer_spec:
  assumes "list_all (fits Size) mb"
  shows "\<exists>mb'. ReshapeMultiBuffer gots mb = Some mb' \<and> list_all (fits (Size - 21)) mb' \<and> mcontent mb' = mcontent mb"
proof (cases "list_ex (\<lambda>b. Buffer_Len b \<ge> int Size - 21) mb")
  case True
  then show ?thesis using reshape_loop_spec [OF assms] by (simp add: ReshapeMultiBuffer_def)
next
  case False
  then have "list_all (fits (Size - 21)) mb"
    using assms by (fastforce simp: list_all_iff list_ex_iff fits_def Buffer_Len_content)
  with False show ?thesis by (simp add: ReshapeMultiBuffer_def)
qed

section \<open>The writer's blocks\<close>

text \<open>
  How the decoder stands when the writer's link is in state \<open>l\<close> and \<open>mb\<close> is still to be padded: it expects a
  block, or it has left the padding with the command that agrees with the writer's next move.
\<close>

definition in_step :: "LinkState \<Rightarrow> MultiBuffer \<Rightarrow> LinkState \<Rightarrow> bool" where
  "in_step l mb d \<longleftrightarrow>
     (if IsPadding l \<or> mb \<noteq> [] then RemainingCommand d = 5
      else initial_state d \<and> CurrentCommand d = (if WriterDirectCopy l then 2 else 1))"

definition link_ok :: "TrafficState \<Rightarrow> LinkState \<Rightarrow> bool" where
  "link_ok ts l \<longleftrightarrow> WriterDirectCopy l = (\<not> IsPadding l \<and> EnableXtls ts)"

lemma unpad_block_step:
  assumes "RemainingCommand d = 5" and "length cs + n < 65536"
  shows "\<exists>d'. unpad_bytes d (enc_block command cs n) = (d', cs)
    \<and> (if command = 0 then RemainingCommand d' = 5 else initial_state d' \<and> CurrentCommand d' = uint command)"
  using unpad_block [OF assms(1), of cs n command] assms by (auto simp: Let_def to_initial_def initial_state_def)

definition loop_ok :: "LinkState \<Rightarrow> byte list \<Rightarrow> MultiBuffer \<Rightarrow> (LinkState \<times> byte list \<times> MultiBuffer) go \<Rightarrow> bool" where
  "loop_ok l uuid mb res \<longleftrightarrow> (\<exists>l' out S. res = Some (l', if mb = [] then uuid else [], out) \<and> list_all (fits Size) out
     \<and> mcontent out = (if mb = [] then [] else uuid) @ S
     \<and> (\<forall>d. in_step l mb d \<longrightarrow> (\<exists>d'. unpad_bytes d S = (d', mcontent mb) \<and> in_step l' [] d'))
     \<and> (IsPadding l \<longrightarrow> IsPadding l' \<or> mb \<noteq> []) \<and> (IsPadding l' \<longrightarrow> \<not> WriterDirectCopy l'))"

text \<open>One more buffer in front.\<close>

lemma loop_ok_Cons:
  assumes "loop_ok l1 [] mb rest" and "fits Size nb" and "content nb = uuid @ enc_block command (content b) n"
    and "length (content b) + n < 65536"
    and "\<And>d. (if command = 0 then RemainingCommand d = 5 else initial_state d \<and> CurrentCommand d = uint command) \<Longrightarrow> in_step l1 mb d"
  shows "loop_ok l uuid (b # mb) (do { (l', uuid', out) \<leftarrow> rest; Some (l', uuid', nb # out) })"
proof -
  from assms(1) obtain l' out S where r: "rest = Some (l', [], out)" "list_all (fits Size) out" "mcontent out = S"
    and st: "\<And>d. in_step l1 mb d \<Longrightarrow> \<exists>d'. unpad_bytes d S = (d', mcontent mb) \<and> in_step l' [] d'"
    and ll: "IsPadding l' \<longrightarrow> \<not> WriterDirectCopy l'"
    by (auto simp: loop_ok_def)
  have "\<exists>d'. unpad_bytes d (enc_block command (content b) n @ S) = (d', mcontent (b # mb)) \<and> in_step l' [] d'"
    if "RemainingCommand d = 5" for d
  proof -
    from unpad_block_step [OF that assms(4), of command] obtain d1 where d1: "unpad_bytes d (enc_block command (content b) n) = (d1, content b)"
      "in_step l1 mb d1" using assms(5) by blast
    from st [OF d1(2)] d1(1) show ?thesis by (auto simp: unpad_bytes_append)
  qed
  with r ll assms(2,3) show ?thesis by (auto simp: loop_ok_def in_step_def)
qed

definition ts_ok :: "TrafficState \<Rightarrow> bool" where
  "ts_ok ts \<longleftrightarrow> (EnableXtls ts \<or> RemainingServerHello ts > 0 \<longrightarrow> IsTLS12orAbove ts)"

lemma loop_ok_rest:
  assumes "list_all (fits (Size - 21)) mb" and "fits Size nb" and "content nb = uuid @ enc_block 1 (content b) n"
    and "length (content b) + n < 65536" and "\<not> IsPadding l'" and "\<not> WriterDirectCopy l'"
  shows "loop_ok l uuid (b # mb) (Some (l', [], nb # mb))"
proof -
  have "\<exists>d'. unpad_bytes d (enc_block 1 (content b) n @ mcontent mb) = (d', mcontent (b # mb)) \<and> in_step l' [] d'"
    if "RemainingCommand d = 5" for d
    using unpad_block_step [OF that assms(4), of 1] assms(5,6) by (auto simp: unpad_bytes_append unpad_bytes_initial in_step_def)
  moreover have "list_all (fits Size) mb" using assms(1) by (auto simp: list_all_iff fits_def)
  ultimately show ?thesis using assms(2,3,5) by (auto simp: loop_ok_def in_step_def)
qed

lemma vision_loop_spec:
  assumes "seeds_ok testseed" and "\<And>i. rnd_ok (rnd i)" and "ts_ok ts" and "length uuid \<le> 16"
    and "list_all (fits (Size - 21)) mb" and "link_ok ts l"
  shows "loop_ok l uuid mb (vision_loop gots rnd testseed ts isComplete i l long uuid mb)"
  using assms(4-6)
proof (induction mb arbitrary: i l long uuid)
  case Nil
  then show ?case by (auto simp: loop_ok_def link_ok_def)
next
  case (Cons b mb)
  have "fits (Size - 21) b" and mb: "list_all (fits (Size - 21)) mb" using Cons.prems(2) by auto
  then have b: "buf_inv b" "length (content b) \<le> Size - 21" by (simp_all add: fits_def)
  have pad: "\<exists>nb n. XtlsPadding (gots i) (rnd i) (Some b) c (Some uuid) lg testseed = Some (nb, Some []) \<and> fits Size nb
      \<and> content nb = uuid @ enc_block c (content b) n \<and> length (content b) + n < 65536" for c lg
    using XtlsPadding_spec [OF assms(1,2) Cons.prems(1), of "Some b" "gots i" i c lg] b by (auto simp: fits_def)
  define app where "app \<longleftrightarrow> IsTLS ts \<and> Buffer_Len b \<ge> 6 \<and> TlsApplicationDataStart = take 3 (content b) \<and> isComplete"
  have code: "(if IsTLS ts \<and> Buffer_Len b \<ge> 6 then map_option (\<lambda>bs. TlsApplicationDataStart = bs \<and> isComplete) (Buffer_BytesTo b 3)
            else Some False) = Some app"
    using Buffer_BytesTo_spec [OF b(1), of 3] by (auto simp: app_def)
  consider (a) app | (e) "\<not> app" "\<not> IsTLS12orAbove ts" "NumberOfPacketToFilter ts \<le> 1"
    | (c) "\<not> app" "\<not> (\<not> IsTLS12orAbove ts \<and> NumberOfPacketToFilter ts \<le> 1)" by blast
  then show ?case
  proof cases
    case a
    let ?l = "(if EnableXtls ts then l\<lparr>WriterDirectCopy := True\<rparr> else l)\<lparr>IsPadding := False\<rparr>"
    let ?c = "if mb = [] then end_command ts else 0"
    obtain nb n where nb: "XtlsPadding (gots i) (rnd i) (Some b) ?c (Some uuid) True testseed = Some (nb, Some [])" "fits Size nb"
      "content nb = uuid @ enc_block ?c (content b) n" "length (content b) + n < 65536" using pad by blast
    have lo: "link_ok ts ?l" using Cons.prems(3) by (auto simp: link_ok_def)
    have "loop_ok l uuid (b # mb)
        (do { (l', uuid', out) \<leftarrow> vision_loop gots rnd testseed ts isComplete (Suc i) ?l False [] mb; Some (l', uuid', nb # out) })"
      by (rule loop_ok_Cons [OF Cons.IH [OF _ mb lo] nb(2-4)]) (use lo in \<open>auto simp: in_step_def end_command_def link_ok_def\<close>)
    then show ?thesis using a code nb(1) by simp
  next
    case e
    obtain nb n where nb: "XtlsPadding (gots i) (rnd i) (Some b) 1 (Some uuid) long testseed = Some (nb, Some [])" "fits Size nb"
      "content nb = uuid @ enc_block 1 (content b) n" "length (content b) + n < 65536" using pad by blast
    have "\<not> EnableXtls ts" using e assms(3) by (auto simp: ts_ok_def)
    then have "loop_ok l uuid (b # mb) (Some (l\<lparr>IsPadding := False\<rparr>, [], nb # mb))"
      using Cons.prems(3) by (intro loop_ok_rest [OF mb nb(2-4)]) (auto simp: link_ok_def)
    then show ?thesis using e code nb(1) by simp
  next
    case c
    let ?c = "if mb = [] \<and> \<not> IsPadding l then end_command ts else 0"
    obtain nb n where nb: "XtlsPadding (gots i) (rnd i) (Some b) ?c (Some uuid) long testseed = Some (nb, Some [])" "fits Size nb"
      "content nb = uuid @ enc_block ?c (content b) n" "length (content b) + n < 65536" using pad by blast
    have "loop_ok l uuid (b # mb)
        (do { (l', uuid', out) \<leftarrow> vision_loop gots rnd testseed ts isComplete (Suc i) l long [] mb; Some (l', uuid', nb # out) })"
      by (rule loop_ok_Cons [OF Cons.IH [OF _ mb Cons.prems(3)] nb(2-4)])
        (use Cons.prems(3) in \<open>auto simp: in_step_def end_command_def link_ok_def split: if_splits\<close>)
    then show ?thesis using c code nb(1) by auto
  qed
qed

section \<open>Complete records are the record grammar\<close>

text \<open>
  A sequence of application data records with non-empty payloads; the empty sequence is one.
\<close>

function app_records :: "byte list \<Rightarrow> bool" where
  "app_records bs =
     (if bs = [] then True
      else if length bs < 5 \<or> take 3 bs \<noteq> TlsApplicationDataStart then False
      else let n = 256 * unat (bs ! 3) + unat (bs ! 4)
           in if n = 0 \<or> length bs < 5 + n then False else app_records (drop (5 + n) bs))"
  by pat_completeness auto
termination
  by (relation "measure length") auto

declare app_records.simps [simp del]

lemma or_push_nat: "b < 256 \<Longrightarrow> or (push_bit 8 a) b = 256 * a + (b :: nat)"
proof -
  assume "b < 256"
  then have "take_bit 8 b = b" by (simp add: take_bit_nat_eq_self)
  then have "or (push_bit 8 a) b = push_bit 8 a + b"
    by (intro disjunctive_add [symmetric]) (metis bit_push_bit_iff bit_take_bit_iff not_le)
  then show ?thesis by (simp add: push_bit_eq_mult)
qed

lemma complete_payload: "0 < n \<Longrightarrow> complete_loop 0 n bs \<longleftrightarrow> n \<le> length bs \<and> complete_loop 5 0 (drop n bs)"
  by (cases bs) auto

lemma complete_short: "length bs < hl \<Longrightarrow> hl \<le> 5 \<Longrightarrow> complete_loop hl rl bs \<longleftrightarrow> bs = [] \<and> hl = 5 \<and> rl = 0"
proof (induction bs arbitrary: hl rl)
  case (Cons x bs)
  then have "length bs < hl - 1" "hl - 1 \<le> 5" "hl - 1 \<noteq> 5" by auto
  with Cons.IH [OF this(1,2)] Cons.prems show ?case by auto
qed auto

lemma complete_header:
  assumes "5 \<le> length bs"
  shows "complete_loop 5 0 bs \<longleftrightarrow> take 3 bs = TlsApplicationDataStart
      \<and> complete_loop 0 (256 * unat (bs ! 3) + unat (bs ! 4)) (drop 5 bs)"
proof -
  obtain a b c d e ds where "bs = a # b # c # d # e # ds"
    using assms by (auto simp: numeral_eq_Suc Suc_le_length_iff)
  then show ?thesis by (auto simp: or_push_nat unat_byte_less TlsApplicationDataStart_def)
qed

lemma complete_loop_records: "complete_loop 5 0 bs = app_records bs"
proof (induction bs rule: app_records.induct)
  case (1 bs)
  let ?n = "256 * unat (bs ! 3) + unat (bs ! 4)"
  show ?case
  proof (cases "bs \<noteq> [] \<and> 5 \<le> length bs \<and> take 3 bs = TlsApplicationDataStart")
    case True
    then have "complete_loop 5 0 bs = complete_loop 0 ?n (drop 5 bs)" using complete_header by simp
    also have "\<dots> = (0 < ?n \<and> 5 + ?n \<le> length bs \<and> complete_loop 5 0 (drop (5 + ?n) bs) \<or> ?n = 0 \<and> complete_loop 0 0 (drop 5 bs))"
      using complete_payload [of ?n "drop 5 bs"] True by (cases "?n = 0") (auto simp: add.commute)
    also have "complete_loop 0 0 (drop 5 bs) = False" by (cases "drop 5 bs") auto
    finally show ?thesis using 1 True by (subst app_records.simps) (auto simp: Let_def)
  next
    case False
    then show ?thesis
      using complete_short [of bs 5 0] complete_header [of bs]
      by (cases "length bs < 5"; subst app_records.simps) auto
  qed
qed

lemma IsCompleteRecord_spec:
  assumes "mb_inv mb" and "length (mcontent mb) < 2147483648"
  shows "IsCompleteRecord mb = Some (app_records (mcontent mb))"
  using assms by (simp add: IsCompleteRecord_def MultiBuffer_Len_mcontent MultiBuffer_Copy_spec complete_loop_records)

section \<open>Watching the handshake\<close>

text \<open>
  A buffer for which reading the cipher suite does not run out of the slice, whatever session id length the
  server claims.
\<close>

definition roomy :: "Buffer \<Rightarrow> bool" where
  "roomy b \<longleftrightarrow> fits Size b \<and> buf_start b + 301 \<le> int (sl_cap (buf_v b)) \<and> sl_cap (buf_v b) < 2147483648"

definition same_links :: "TrafficState \<Rightarrow> TrafficState \<Rightarrow> bool" where
  "same_links ts ts' \<longleftrightarrow> ts_Inbound ts' = ts_Inbound ts \<and> ts_Outbound ts' = ts_Outbound ts \<and> UserUUID ts' = UserUUID ts"

lemma same_links_trans: "same_links a b \<Longrightarrow> same_links b c \<Longrightarrow> same_links a c"
  by (simp add: same_links_def)

lemma same_links_link: "same_links ts ts' \<Longrightarrow> writer_link u ts' = writer_link u ts" "same_links ts ts' \<Longrightarrow> reader_link u ts' = reader_link u ts"
  by (simp_all add: same_links_def writer_link_def reader_link_def)

lemma hello_bytes:
  assumes "roomy b" and "79 \<le> Buffer_Len b"
  shows "\<exists>sid. Buffer_Byte b 43 = Some sid \<and> (\<exists>c. Buffer_BytesRange b (43 + uint sid + 1) (43 + uint sid + 3) = Some c)"
proof -
  have inv: "buf_inv b" and cap: "buf_start b + 301 \<le> int (length (sl_arr (buf_v b)))" "length (sl_arr (buf_v b)) < 2147483648"
    using assms(1) by (auto simp: roomy_def fits_def sl_cap_def)
  have bnd: "0 \<le> buf_start b" "buf_start b + 79 \<le> buf_end b" "buf_end b \<le> int (sl_len (buf_v b))" "buf_end b < 2147483648"
    "sl_len (buf_v b) \<le> length (sl_arr (buf_v b))"
    using inv assms(2) by (auto simp: Buffer_Len_def buf_inv_defs)
  have id43: "int32 (buf_start b + 43) = buf_start b + 43" using bnd by (intro int32_id) auto
  then obtain sid where sid: "Buffer_Byte b 43 = Some sid" using bnd by (auto simp: Buffer_Byte_def sl_get_def)
  define k where "k = uint sid"
  have k: "0 \<le> k" "k < 256" using uint_lt2p [of sid] by (simp_all add: k_def)
  have "int32 (buf_start b + (43 + k + 1)) = buf_start b + (43 + k + 1)" "int32 (buf_start b + (43 + k + 3)) = buf_start b + (43 + k + 3)"
    using bnd cap k by (auto intro!: int32_id)
  then have "\<exists>c. Buffer_BytesRange b (43 + k + 1) (43 + k + 3) = Some c"
    using k cap bnd by (simp add: Buffer_BytesRange_def sl_sub_def sl_cap_def Let_def)
  with sid show ?thesis unfolding k_def by blast
qed

lemma filter_hello_spec:
  assumes "roomy b"
  shows "\<exists>ts'. filter_hello b ts = Some ts' \<and> same_links ts ts' \<and> (ts_ok ts \<longrightarrow> ts_ok ts')"
proof -
  have inv: "buf_inv b" using assms by (simp add: roomy_def fits_def)
  have to: "6 \<le> Buffer_Len b \<Longrightarrow> Buffer_BytesTo b 6 = Some (take 6 (content b))"
    using Buffer_BytesTo_spec [OF inv, of 6] by simp
  show ?thesis
    using hello_bytes [OF assms] to
    by (auto simp: filter_hello_def Let_def same_links_def ts_ok_def)
qed

lemma XtlsFilterTls_spec:
  assumes "list_all (pred_option roomy) mb"
  shows "\<exists>ts'. XtlsFilterTls mb ts = Some ts' \<and> same_links ts ts' \<and> (ts_ok ts \<longrightarrow> ts_ok ts')"
  using assms
proof (induction mb ts rule: XtlsFilterTls.induct)
  case (3 b mb ts)
  have b: "roomy b" and mb: "list_all (pred_option roomy) mb" using 3(3) by simp_all
  then have inv: "buf_inv b" by (simp add: roomy_def fits_def)
  let ?ts = "ts\<lparr>NumberOfPacketToFilter := NumberOfPacketToFilter ts - 1\<rparr>"
  obtain t1 where t1: "filter_hello b ?ts = Some t1" "same_links ?ts t1" "ts_ok ?ts \<longrightarrow> ts_ok t1"
    using filter_hello_spec [OF b] by blast
  then have t1': "same_links ts t1" "ts_ok ts \<longrightarrow> ts_ok t1" by (simp_all add: same_links_def ts_ok_def)
  show ?case
  proof (cases "RemainingServerHello t1 > 0")
    case False
    with 3(2) [OF t1(1) False mb] t1(1) t1' show ?thesis using same_links_trans by fastforce
  next
    case True
    let ?k = "if RemainingServerHello t1 > Buffer_Len b then Buffer_Len b else RemainingServerHello t1"
    let ?t2 = "t1\<lparr>RemainingServerHello := int32 (RemainingServerHello t1 - Buffer_Len b)\<rparr>"
    have "0 \<le> Buffer_Len b" using inv by (simp add: Buffer_Len_content)
    then have to: "Buffer_BytesTo b ?k = Some (take (nat ?k) (content b))"
      using True by (intro Buffer_BytesTo_spec [OF inv]) auto
    have t2: "same_links ts ?t2" "ts_ok ts \<longrightarrow> ts_ok ?t2" using t1' True by (auto simp: same_links_def ts_ok_def)
    show ?thesis
    proof (cases "bytes_Contains (take (nat ?k) (content b)) Tls13SupportedVersions \<or> RemainingServerHello ?t2 \<le> 0")
      case stop: True
      with True t1(1) to t1' show ?thesis by (auto simp: Let_def same_links_def ts_ok_def split: option.split)
    next
      case go: False
      then obtain ts' where ts': "XtlsFilterTls mb ?t2 = Some ts'" "same_links ?t2 ts'" "ts_ok ?t2 \<longrightarrow> ts_ok ts'"
        using 3(1) [OF t1(1) True refl refl to] mb by auto
      have "XtlsFilterTls (Some b # mb) ts = XtlsFilterTls mb ?t2"
        using go True t1(1) to by (simp add: Let_def)
      then show ?thesis using ts' t2 same_links_trans [OF t2(1) ts'(2)] by simp
    qed
  qed
qed (auto simp: same_links_def)

section \<open>A run of writes\<close>

definition ocontent :: "Buffer option list \<Rightarrow> byte list" where
  "ocontent mb = concat (map (case_option [] content) mb)"

lemma ocontent_Some [simp]: "ocontent (map Some mb) = mcontent mb"
  by (simp add: ocontent_def mcontent_def comp_def)

lemma ocontent_the: "None \<notin> set mb \<Longrightarrow> mcontent (map the mb) = ocontent mb"
  by (induction mb) (auto simp: ocontent_def split: option.split)

definition mb_ok :: "Buffer option list \<Rightarrow> bool" where
  "mb_ok mb \<longleftrightarrow> mb = [None] \<or> None \<notin> set mb \<and> list_all (pred_option roomy) mb \<and> length (ocontent mb) < 2147483648"

lemma mb_ok_roomy: "mb_ok mb \<Longrightarrow> list_all (pred_option roomy) mb"
  by (auto simp: mb_ok_def)

lemma mb_ok_fits: "mb_ok mb \<Longrightarrow> mb \<noteq> [None] \<Longrightarrow> list_all (fits Size) (map the mb)"
  by (auto simp: mb_ok_def list_all_iff) (metis not_None_eq option.pred_inject(2) option.sel roomy_def)

text \<open>The padded form of one multi buffer.\<close>

definition pad_ok :: "LinkState \<Rightarrow> byte list \<Rightarrow> byte list \<Rightarrow> (LinkState \<times> byte list \<times> MultiBuffer) go \<Rightarrow> bool" where
  "pad_ok l uuid c res \<longleftrightarrow> (\<exists>l' uuid' out S. res = Some (l', uuid', out)
     \<and> (mcontent out = [] \<and> S = [] \<and> uuid' = uuid \<and> IsPadding l' \<or> mcontent out = uuid @ S \<and> uuid' = [])
     \<and> (\<forall>d. RemainingCommand d = 5 \<longrightarrow> (\<exists>d'. unpad_bytes d S = (d', c) \<and> in_step l' [] d'))
     \<and> (IsPadding l' \<longrightarrow> \<not> WriterDirectCopy l'))"

lemma pad_all_spec:
  assumes "seeds_ok testseed" and "\<And>i. rnd_ok (rnd i)" and "ts_ok ts" and "length uuid \<le> 16"
    and "mb_ok mb" and "IsPadding l" and "\<not> WriterDirectCopy l"
  shows "pad_ok l uuid (ocontent mb) (pad_all gots gots' rnd testseed ts l uuid mb)"
proof (cases "mb = [None]")
  case True
  from XtlsPadding_spec [OF assms(1,2,4), of None "gots 0" 0 0 True] obtain nb n where
    nb: "XtlsPadding (gots 0) (rnd 0) None 0 (Some uuid) True testseed = Some (nb, Some [])"
      "content nb = uuid @ enc_block 0 [] n" "n < 65536" by auto
  have "\<exists>d'. unpad_bytes d (enc_block 0 [] n) = (d', []) \<and> in_step l [] d'" if "RemainingCommand d = 5" for d
    using unpad_block_step [OF that, of "[]" n 0] nb(3) assms(6) by (auto simp: in_step_def)
  with nb True assms(6,7) show ?thesis
    unfolding pad_ok_def by (intro exI [of _ l] exI [of _ "[]"] exI [of _ "[nb]"] exI [of _ "enc_block 0 [] n"])
      (simp add: pad_all_def ocontent_def)
next
  case False
  then have none: "None \<notin> set mb" and len: "length (ocontent mb) < 2147483648" using assms(5) by (auto simp: mb_ok_def)
  note f = mb_ok_fits [OF assms(5) False]
  have comp: "IsCompleteRecord (map the mb) = Some (app_records (ocontent mb))"
    using IsCompleteRecord_spec [OF fits_mb_inv [OF f]] len by (simp add: ocontent_the [OF none])
  from ReshapeMultiBuffer_spec [OF f] obtain mb' where mb': "ReshapeMultiBuffer gots' (map the mb) = Some mb'"
    "list_all (fits (Size - 21)) mb'" "mcontent mb' = ocontent mb" using ocontent_the [OF none] by auto
  have "link_ok ts l" using assms(6,7) by (simp add: link_ok_def)
  from vision_loop_spec [OF assms(1-4) mb'(2) this, where gots = gots and isComplete = "app_records (ocontent mb)" and i = 0 and long = "IsTLS ts"]
  have "loop_ok l uuid mb' (pad_all gots gots' rnd testseed ts l uuid mb)"
    using False none comp mb'(1) by (simp add: pad_all_def)
  then obtain l' out S where r: "pad_all gots gots' rnd testseed ts l uuid mb = Some (l', if mb' = [] then uuid else [], out)"
      "mcontent out = (if mb' = [] then [] else uuid) @ S" "IsPadding l' \<or> mb' \<noteq> []" "IsPadding l' \<longrightarrow> \<not> WriterDirectCopy l'"
    and st: "\<And>d. in_step l mb' d \<Longrightarrow> \<exists>d'. unpad_bytes d S = (d', ocontent mb) \<and> in_step l' [] d'"
    using assms(6) mb'(3) by (auto simp: loop_ok_def)
  show ?thesis
  proof (cases "mb' = []")
    case nil: True
    then have "ocontent mb = []" using mb'(3) by simp
    moreover have "out = [] \<and> l' = l" using r(1) False none comp mb'(1) nil by (simp add: pad_all_def)
    ultimately show ?thesis using r nil assms(6) by (auto simp: pad_ok_def in_step_def)
  next
    case False
    then have "\<forall>d. RemainingCommand d = 5 \<longrightarrow> (\<exists>d'. unpad_bytes d S = (d', ocontent mb) \<and> in_step l' [] d')"
      using st by (simp add: in_step_def [of l mb'])
    with r False show ?thesis
      unfolding pad_ok_def by (intro exI [of _ l'] exI [of _ "[]"] exI [of _ out] exI [of _ S]) simp
  qed
qed

text \<open>
  The state of the writer and the state the decoder will be in when it has seen all that was written.
\<close>

definition sync :: "VisionWriter \<Rightarrow> TrafficState \<Rightarrow> LinkState \<Rightarrow> bool" where
  "sync w ts d \<longleftrightarrow>
     (let l = writer_link (vw_isUplink w) ts
      in (IsPadding l \<longrightarrow> \<not> WriterDirectCopy l \<and> \<not> vw_direct w)
       \<and> (vw_direct w \<longrightarrow> \<not> WriterDirectCopy l)
       \<and> (vw_writeOnceUserUUID w \<noteq> [] \<longrightarrow> IsPadding l) \<and> length (vw_writeOnceUserUUID w) \<le> 16
       \<and> (if IsPadding l then RemainingCommand d = 5
          else initial_state d \<and> CurrentCommand d = (if WriterDirectCopy l \<or> vw_direct w then 2 else 1)))"

definition writes :: "VisionWriter \<Rightarrow> LinkState \<Rightarrow> byte list \<Rightarrow> byte list \<Rightarrow> VisionWriter \<Rightarrow> LinkState \<Rightarrow> byte list \<Rightarrow> byte list \<Rightarrow> bool" where
  "writes w d outer raw w' d' S c \<longleftrightarrow>
     (outer = [] \<and> S = [] \<and> vw_writeOnceUserUUID w' = vw_writeOnceUserUUID w
      \<or> outer = vw_writeOnceUserUUID w @ S \<and> vw_writeOnceUserUUID w' = [])
     \<and> (\<exists>Y. unpad_bytes d S = (d', Y) \<and> Y @ raw = c)
     \<and> (vw_direct w \<longrightarrow> S = [] \<and> vw_direct w') \<and> (raw \<noteq> [] \<longrightarrow> vw_direct w')
     \<and> vw_isUplink w' = vw_isUplink w \<and> vw_testseed w' = vw_testseed w"

lemma writer_link_set [simp]:
  "writer_link u (set_writer_link u l ts) = l" "UserUUID (set_writer_link u l ts) = UserUUID ts"
  "ts_ok (set_writer_link u l ts) = ts_ok ts" "NumberOfPacketToFilter (set_writer_link u l ts) = NumberOfPacketToFilter ts"
  by (simp_all add: writer_link_def set_writer_link_def ts_ok_def)

lemma write_step:
  assumes "seeds_ok (vw_testseed w)" and "\<And>i. rnd_ok (rnd i)" and "ts_ok ts" and "mb_ok mb" and "sync w ts d"
  shows "\<exists>out w' ts' d' S. VisionWriter_WriteMultiBuffer gots gots' rnd w ts mb = Some (out, w', ts') \<and> ts_ok ts' \<and> sync w' ts' d'
    \<and> writes w d (if vw_direct w' then [] else ocontent out) (if vw_direct w' then ocontent out else []) w' d' S (ocontent mb)"
proof -
  let ?u = "vw_isUplink w" and ?l = "writer_link (vw_isUplink w) ts"
  let ?w = "if WriterDirectCopy ?l then w\<lparr>vw_direct := True\<rparr> else w"
  let ?t1 = "set_writer_link ?u (?l\<lparr>WriterDirectCopy := False\<rparr>) ts"
  have w: "vw_isUplink ?w = ?u" "vw_testseed ?w = vw_testseed w" "vw_writeOnceUserUUID ?w = vw_writeOnceUserUUID w" by simp_all
  obtain t2 where t2: "(if NumberOfPacketToFilter ?t1 > 0 then XtlsFilterTls mb ?t1 else Some ?t1) = Some t2"
    "writer_link ?u t2 = ?l\<lparr>WriterDirectCopy := False\<rparr>" "ts_ok t2"
  proof (cases "NumberOfPacketToFilter ?t1 > 0")
    case True
    from XtlsFilterTls_spec [OF mb_ok_roomy [OF assms(4)], of ?t1] obtain t where
      "XtlsFilterTls mb ?t1 = Some t" "same_links ?t1 t" "ts_ok ?t1 \<longrightarrow> ts_ok t" by blast
    with True that [of t] same_links_link(1) [of ?t1 t ?u] assms(3) show ?thesis by simp
  next
    case False
    with that [of ?t1] assms(3) show ?thesis by simp
  qed
  have t2f: "(if NumberOfPacketToFilter ts > 0 then XtlsFilterTls mb ?t1 else Some ?t1) = Some t2" using t2(1) by simp
  show ?thesis
  proof (cases "IsPadding ?l")
    case True
    then have st: "\<not> WriterDirectCopy ?l" "\<not> vw_direct w" "RemainingCommand d = 5" "length (vw_writeOnceUserUUID w) \<le> 16"
      using assms(5) by (auto simp: sync_def Let_def)
    let ?l1 = "?l\<lparr>WriterDirectCopy := False\<rparr>"
    have "pad_ok ?l1 (vw_writeOnceUserUUID w) (ocontent mb) (pad_all gots gots' rnd (vw_testseed w) t2 ?l1 (vw_writeOnceUserUUID w) mb)"
      using True by (intro pad_all_spec [OF assms(1,2) t2(3) st(4) assms(4)]) simp_all
    then obtain l' uuid' out S where r: "pad_all gots gots' rnd (vw_testseed w) t2 ?l1 (vw_writeOnceUserUUID w) mb = Some (l', uuid', out)"
        "mcontent out = [] \<and> S = [] \<and> uuid' = vw_writeOnceUserUUID w \<and> IsPadding l' \<or> mcontent out = vw_writeOnceUserUUID w @ S \<and> uuid' = []"
        "IsPadding l' \<longrightarrow> \<not> WriterDirectCopy l'"
      and dec: "\<exists>d'. unpad_bytes d S = (d', ocontent mb) \<and> in_step l' [] d'"
      unfolding pad_ok_def using st(3) by blast
    from dec obtain d' where d': "unpad_bytes d S = (d', ocontent mb)" "in_step l' [] d'" by blast
    let ?w' = "w\<lparr>vw_writeOnceUserUUID := uuid'\<rparr>" and ?t' = "set_writer_link ?u l' t2"
    have "VisionWriter_WriteMultiBuffer gots gots' rnd w ts mb = Some (map Some out, ?w', ?t')"
      unfolding VisionWriter_WriteMultiBuffer_def Let_def w writer_link_set t2f using True st(1) t2(2) r(1) by simp
    moreover have "sync ?w' ?t' d'"
      using d'(2) r(2,3) st by (auto simp: sync_def in_step_def)
    moreover have "writes w d (mcontent out) [] ?w' d' S (ocontent mb)"
      using r(2) d'(1) st by (auto simp: writes_def)
    ultimately show ?thesis
      using t2(3) st(2) by (intro exI [of _ "map Some out"] exI [of _ ?w'] exI [of _ ?t'] exI [of _ d'] exI [of _ S]) simp
  next
    case False
    then have d: "initial_state d" "CurrentCommand d = (if WriterDirectCopy ?l \<or> vw_direct w then 2 else 1)"
      "vw_writeOnceUserUUID w = []" using assms(5) by (auto simp: sync_def Let_def)
    have code: "VisionWriter_WriteMultiBuffer gots gots' rnd w ts mb = Some (mb, ?w, t2)"
      unfolding VisionWriter_WriteMultiBuffer_def Let_def w writer_link_set t2f using False t2(2) by simp
    have "sync ?w t2 d" using t2(2) False d by (auto simp: sync_def)
    moreover have "writes w d (if vw_direct ?w then [] else ocontent mb) (if vw_direct ?w then ocontent mb else []) ?w d
        (if vw_direct ?w then [] else ocontent mb) (ocontent mb)"
      using d unpad_bytes_initial [OF d(1)] by (auto simp: writes_def)
    ultimately show ?thesis using code t2(3) by blast
  qed
qed

text \<open>
  A sequence of writes: before each write the other direction of the connection may have changed what the
  traffic state knows about the handshake. The result has the bytes written to the outer and to the raw
  connection.
\<close>

fun vision_run ::
  "(nat \<Rightarrow> nat \<Rightarrow> slice) \<Rightarrow> (nat \<Rightarrow> nat \<Rightarrow> slice) \<Rightarrow> (nat \<Rightarrow> nat \<Rightarrow> int \<Rightarrow> int) \<Rightarrow> nat \<Rightarrow> VisionWriter \<Rightarrow> TrafficState \<Rightarrow>
   ((TrafficState \<Rightarrow> TrafficState) \<times> Buffer option list) list \<Rightarrow> (byte list \<times> byte list \<times> VisionWriter \<times> TrafficState) go" where
  "vision_run gots gots' rnd k w ts [] = Some ([], [], w, ts)"
| "vision_run gots gots' rnd k w ts ((f, mb) # es) = do {
     (out, w, ts) \<leftarrow> VisionWriter_WriteMultiBuffer (gots k) (gots' k) (rnd k) w (f ts) mb;
     (outer, raw, w', ts) \<leftarrow> vision_run gots gots' rnd (Suc k) w ts es;
     Some ((if vw_direct w then [] else ocontent out) @ outer, (if vw_direct w then ocontent out else []) @ raw, w', ts)
   }"

definition env_ok :: "bool \<Rightarrow> (TrafficState \<Rightarrow> TrafficState) \<Rightarrow> bool" where
  "env_ok u f \<longleftrightarrow> (\<forall>ts. writer_link u (f ts) = writer_link u ts \<and> (ts_ok ts \<longrightarrow> ts_ok (f ts)))"

definition written :: "((TrafficState \<Rightarrow> TrafficState) \<times> Buffer option list) list \<Rightarrow> byte list" where
  "written es = concat (map (\<lambda>(f, mb). ocontent mb) es)"

lemma sync_env: "env_ok (vw_isUplink w) f \<Longrightarrow> sync w (f ts) d = sync w ts d"
  by (simp add: sync_def env_ok_def)

lemma writes_trans:
  assumes "writes w d o1 r1 w1 d1 S1 c1" and "writes w1 d1 o2 r2 w2 d2 S2 c2"
  shows "writes w d (o1 @ o2) (r1 @ r2) w2 d2 (S1 @ S2) (c1 @ c2)"
proof -
  obtain Y1 Y2 where y: "unpad_bytes d S1 = (d1, Y1)" "Y1 @ r1 = c1" "unpad_bytes d1 S2 = (d2, Y2)" "Y2 @ r2 = c2"
    using assms by (auto simp: writes_def)
  have "Y2 = []" if "r1 \<noteq> []" using assms that y(3) by (auto simp: writes_def)
  then have "(Y1 @ Y2) @ (r1 @ r2) = c1 @ c2" using y by (cases "r1 = []") auto
  moreover have "unpad_bytes d (S1 @ S2) = (d2, Y1 @ Y2)" using y by (simp add: unpad_bytes_append)
  ultimately show ?thesis using assms unfolding writes_def by auto
qed

lemma vision_run_spec:
  assumes "\<And>k i. rnd_ok (rnd k i)" and "\<forall>(f, mb) \<in> set es. env_ok u f \<and> mb_ok mb"
    and "seeds_ok (vw_testseed w)" and "ts_ok ts" and "sync w ts d" and "vw_isUplink w = u"
  shows "\<exists>outer raw w' ts' d' S. vision_run gots gots' rnd k w ts es = Some (outer, raw, w', ts') \<and> sync w' ts' d'
    \<and> writes w d outer raw w' d' S (written es)"
  using assms(2-)
proof (induction es arbitrary: k w ts d)
  case Nil
  then have "writes w d [] [] w d [] []" by (auto simp: writes_def sync_def Let_def)
  then show ?case using Nil by (auto simp: written_def)
next
  case (Cons e es)
  obtain f mb where e: "e = (f, mb)" by (cases e)
  have ev: "env_ok (vw_isUplink w) f" "mb_ok mb" and es: "\<forall>(f, mb) \<in> set es. env_ok u f \<and> mb_ok mb"
    using Cons.prems(1,5) by (auto simp: e)
  have ts: "ts_ok (f ts)" "sync w (f ts) d" using ev Cons.prems(3,4) sync_env by (auto simp: env_ok_def)
  from write_step [where rnd = "rnd k" and gots = "gots k" and gots' = "gots' k", OF Cons.prems(2) assms(1) ts(1) ev(2) ts(2)] obtain out w1 t1 d1 S1 where
    st: "VisionWriter_WriteMultiBuffer (gots k) (gots' k) (rnd k) w (f ts) mb = Some (out, w1, t1)" "ts_ok t1" "sync w1 t1 d1"
      and wr: "writes w d (if vw_direct w1 then [] else ocontent out) (if vw_direct w1 then ocontent out else []) w1 d1 S1 (ocontent mb)"
    by blast
  have w1: "vw_testseed w1 = vw_testseed w" "vw_isUplink w1 = u" using wr Cons.prems(5) by (auto simp: writes_def)
  from Cons.IH [OF es _ st(2,3) w1(2), of "Suc k"] Cons.prems(2) w1(1) obtain outer raw w' ts' d' S where
    ih: "vision_run gots gots' rnd (Suc k) w1 t1 es = Some (outer, raw, w', ts')" "sync w' ts' d'"
      "writes w1 d1 outer raw w' d' S (written es)" by auto
  have "vision_run gots gots' rnd k w ts (e # es) =
      Some ((if vw_direct w1 then [] else ocontent out) @ outer, (if vw_direct w1 then ocontent out else []) @ raw, w', ts')"
    using st(1) ih(1) by (simp add: e)
  moreover have "written (e # es) = ocontent mb @ written es" by (simp add: written_def e)
  ultimately show ?case using ih(2) writes_trans [OF wr ih(3)] by metis
qed

section \<open>Reading in pieces\<close>

lemma bytes_Contains_iff: "bytes_Contains s sep \<longleftrightarrow> (\<exists>xs ys. s = xs @ sep @ ys)"
proof
  assume "bytes_Contains s sep"
  then obtain i where "take (length sep) (drop i s) = sep" by (auto simp: bytes_Contains_def list_ex_iff)
  then have "s = take i s @ sep @ drop (length sep) (drop i s)" by (metis append_take_drop_id)
  then show "\<exists>xs ys. s = xs @ sep @ ys" by blast
next
  assume "\<exists>xs ys. s = xs @ sep @ ys"
  then obtain xs ys where "s = xs @ sep @ ys" by blast
  then show "bytes_Contains s sep" by (auto simp: bytes_Contains_def list_ex_iff intro!: bexI [of _ "length xs"])
qed

lemma unpad_pieces_bytes:
  "\<not> bytes_Contains (snd (unpad_bytes d (concat bss))) uuid \<Longrightarrow> unpad_pieces uuid d bss = unpad_bytes d (concat bss)"
proof (induction bss arbitrary: d)
  case (Cons bs bss)
  let ?r = "unpad_bytes d bs"
  have out: "snd (unpad_bytes d (concat (bs # bss))) = snd ?r @ snd (unpad_bytes (fst ?r) (concat bss))"
    by (simp add: unpad_bytes_append Let_def split: prod.split)
  have ih: "unpad_pieces uuid (fst ?r) bss = unpad_bytes (fst ?r) (concat bss)"
    using Cons.prems unfolding out by (intro Cons.IH) (metis append_assoc bytes_Contains_iff)
  have "unpad_piece uuid d bs = ?r"
  proof (cases "initial_state d")
    case True
    then have "snd ?r = bs" by (simp add: unpad_bytes_initial)
    then have "uuid \<noteq> take 16 bs" using Cons.prems unfolding out by (metis append_Nil append_assoc append_take_drop_id bytes_Contains_iff)
    with True show ?thesis by (simp add: unpad_piece_def unpad_bytes_initial)
  qed (simp add: unpad_piece_def)
  with ih show ?case by (cases ?r) (simp add: unpad_bytes_append)
qed simp

lemma writer_link_New [simp]: "writer_link u (NewTrafficState uuid) = new_link" "reader_link u (NewTrafficState uuid) = new_link"
  by (simp_all add: writer_link_def reader_link_def NewTrafficState_def)

lemma new_ts_ok: "ts_ok (NewTrafficState uuid)"
  by (simp add: ts_ok_def NewTrafficState_def)

text \<open>Removing the padding from an outer stream that begins with the user's identifier.\<close>

lemma unpad_all_stream:
  assumes "mcontent pieces = uuid @ S" and "list_all (fits Size) pieces" and "pieces \<noteq> []" and "21 \<le> length (content (hd pieces))"
    and "length uuid = 16" and "unpad_bytes (new_link\<lparr>RemainingCommand := 5\<rparr>) S = (d, Y)" and "\<not> bytes_Contains Y uuid"
  shows "\<exists>mb. unpad_all gots 0 u pieces (NewTrafficState uuid) = Some (mb, set_reader_link u d (NewTrafficState uuid)) \<and> mcontent mb = Y"
proof -
  let ?d = "new_link\<lparr>RemainingCommand := 5\<rparr>" and ?ts = "NewTrafficState uuid"
  obtain b bs where bs: "pieces = b # bs" using assms(3) by (cases pieces) auto
  have first: "take 16 (content b) = uuid" "drop 16 (content b) @ mcontent bs = S"
    using assms(1,4,5) bs by (auto simp: append_eq_append_conv_if split: if_splits)
  have ini: "initial_state new_link" by (simp add: initial_state_def new_link_def)
  then have "unpad_pieces uuid new_link (map content pieces) = unpad_pieces uuid ?d (drop 16 (content b) # map content bs)"
    using first(1) assms(4) bs by (simp add: unpad_piece_def) (simp add: initial_state_def)
  also have "\<dots> = (d, Y)"
  proof -
    have cat: "concat (drop 16 (content b) # map content bs) = S" using first(2) by (simp add: mcontent_def)
    show ?thesis using unpad_pieces_bytes [of ?d "drop 16 (content b) # map content bs" uuid, unfolded cat] assms(6,7) by simp
  qed
  finally have dec: "unpad_pieces uuid new_link (map content pieces) = (d, Y)" .
  have wf: "unpad_wf (reader_link u ?ts)" using ini by (simp add: unpad_wf_def)
  have fit: "list_all (\<lambda>b. buf_inv b \<and> length (content b) \<le> Size) pieces" using assms(2) by (simp add: fits_def list_all_iff)
  have "UserUUID ?ts = uuid" by (simp add: NewTrafficState_def)
  with unpad_all_spec [OF wf fit, of gots 0] dec show ?thesis by auto
qed

section \<open>Properties\<close>

text \<open>
  C3. The Vision flow is transparent. For every sequence of writes through a Vision writer on a new connection, whatever the
  handshake inspection reports in between, whatever the random padding and the recycled slices: the writes do not
  panic, and when the bytes that reached the outer connection arrive in buffers cut in any way (the first
  with at least 21 bytes), the removal of the padding gives, followed by the bytes that went to the raw connection,
  exactly the bytes written. If any bytes went to the raw connection the decoder ends with the command that makes the reader
  switch to it. The bytes written must not contain the user's identifier, which a reader takes for the start of a
  padded stream.
\<close>

theorem vision_transparent:
  assumes "\<And>k i. rnd_ok (rnd k i)" and "seeds_ok testseed" and "length uuid = 16"
    and "\<forall>(f, mb) \<in> set es. env_ok isUplink f \<and> mb_ok mb" and "\<not> bytes_Contains (written es) uuid"
  shows "\<exists>outer raw w ts.
      vision_run gots gots' rnd 0 (NewVisionWriter (NewTrafficState uuid) isUplink testseed) (NewTrafficState uuid) es =
        Some (outer, raw, w, ts)
    \<and> (\<forall>pieces. mcontent pieces = outer \<and> list_all (fits Size) pieces \<and> pieces \<noteq> [] \<and> 21 \<le> length (content (hd pieces)) \<longrightarrow>
        (\<exists>mb ts'. unpad_all gots'' 0 isUplink pieces (NewTrafficState uuid) = Some (mb, ts') \<and> mcontent mb @ raw = written es
          \<and> (raw \<noteq> [] \<longrightarrow> initial_state (reader_link isUplink ts') \<and> CurrentCommand (reader_link isUplink ts') = 2)))"
proof -
  let ?w = "NewVisionWriter (NewTrafficState uuid) isUplink testseed" and ?ts = "NewTrafficState uuid"
  let ?d = "new_link\<lparr>RemainingCommand := 5\<rparr>"
  have u: "vw_writeOnceUserUUID ?w = uuid" "vw_isUplink ?w = isUplink" "vw_testseed ?w = testseed" "\<not> vw_direct ?w"
    using assms(2) by (auto simp: NewVisionWriter_def NewTrafficState_def seeds_ok_def)
  have "sync ?w ?ts ?d" using u assms(3) by (simp add: sync_def) (simp add: new_link_def)
  from vision_run_spec [where rnd = rnd and gots = gots and gots' = gots' and k = 0, OF assms(1,4) _ new_ts_ok this u(2)] assms(2) u(3) obtain outer raw w ts d' S where
    run: "vision_run gots gots' rnd 0 ?w ?ts es = Some (outer, raw, w, ts)" "sync w ts d'" "writes ?w ?d outer raw w d' S (written es)"
    by auto
  have "\<exists>mb ts'. unpad_all gots'' 0 isUplink pieces ?ts = Some (mb, ts') \<and> mcontent mb @ raw = written es
      \<and> (raw \<noteq> [] \<longrightarrow> initial_state (reader_link isUplink ts') \<and> CurrentCommand (reader_link isUplink ts') = 2)"
    if p: "mcontent pieces = outer" "list_all (fits Size) pieces" "pieces \<noteq> []" "21 \<le> length (content (hd pieces))" for pieces
  proof -
    have "outer \<noteq> []" using p by (cases pieces) auto
    then have "outer = uuid @ S" and "\<exists>Y. unpad_bytes ?d S = (d', Y) \<and> Y @ raw = written es"
      using run(3) u(1) by (auto simp: writes_def)
    then obtain Y where o: "outer = uuid @ S" and Y: "unpad_bytes ?d S = (d', Y)" "Y @ raw = written es" by blast
    have "\<not> bytes_Contains Y uuid" using assms(5) Y(2) by (metis append_assoc bytes_Contains_iff)
    from unpad_all_stream [OF p(1) [unfolded o] p(2-4) assms(3) Y(1) this] obtain mb where
      mb: "unpad_all gots'' 0 isUplink pieces ?ts = Some (mb, set_reader_link isUplink d' ?ts)" "mcontent mb = Y" by blast
    have "initial_state d' \<and> CurrentCommand d' = 2" if "raw \<noteq> []"
      using run(2,3) that by (auto simp: writes_def sync_def Let_def)
    with mb Y(2) show ?thesis by auto
  qed
  with run(1) show ?thesis by blast
qed

definition ex_arr :: "byte list" where
  "ex_arr = [5, 6, 7] @ replicate 8189 0"

definition ex_buf :: Buffer where
  "ex_buf = \<lparr>buf_v = Slice ex_arr Size, buf_start = 0, buf_end = 3, buf_ownership = managed, buf_UDP = None\<rparr>"

lemma ex_buf_ok: "mb_ok [Some ex_buf]" "content ex_buf = [5, 6, 7]"
proof -
  show c: "content ex_buf = [5, 6, 7]" by (simp add: content_def ex_buf_def ex_arr_def)
  show "mb_ok [Some ex_buf]"
    using c by (simp add: mb_ok_def roomy_def fits_def ocontent_def) (simp add: buf_inv_defs ex_buf_def ex_arr_def)
qed

theorem vision_transparent_witness:
  "\<exists>outer raw w ts.
      vision_run (\<lambda>_ _. nil_slice) (\<lambda>_ _. nil_slice) (\<lambda>_ _ _. 0) 0
        (NewVisionWriter (NewTrafficState (replicate 16 1)) True [900, 500, 900, 256]) (NewTrafficState (replicate 16 1)) [(id, [Some ex_buf])] =
        Some (outer, raw, w, ts)
    \<and> (\<forall>pieces. mcontent pieces = outer \<and> list_all (fits Size) pieces \<and> pieces \<noteq> [] \<and> 21 \<le> length (content (hd pieces)) \<longrightarrow>
        (\<exists>mb ts'. unpad_all (\<lambda>_. nil_slice) 0 True pieces (NewTrafficState (replicate 16 1)) = Some (mb, ts') \<and> mcontent mb @ raw = [5, 6, 7]
          \<and> (raw \<noteq> [] \<longrightarrow> initial_state (reader_link True ts') \<and> CurrentCommand (reader_link True ts') = 2)))"
proof -
  have w: "written [(id, [Some ex_buf])] = [5, 6, 7]" by (simp add: written_def ocontent_def ex_buf_ok)
  have "\<not> bytes_Contains [5, 6, 7] (replicate 16 1)"
  proof
    assume "bytes_Contains [5, 6, 7] (replicate 16 1)"
    then obtain xs ys where "[5, 6, 7] = xs @ replicate 16 1 @ (ys :: byte list)" unfolding bytes_Contains_iff by blast
    from arg_cong [OF this, of length] show False by simp
  qed
  then show ?thesis
    using vision_transparent [of "\<lambda>_ _ _. 0" "[900, 500, 900, 256]" "replicate 16 1" "[(id, [Some ex_buf])]" True
        "\<lambda>_ _. nil_slice" "\<lambda>_ _. nil_slice" "\<lambda>_. nil_slice"]
    by (simp add: rnd_ok_def seeds_ok_def env_ok_def ex_buf_ok w)
qed

definition tls_record :: "byte list \<Rightarrow> byte list" where
  "tls_record p = TlsApplicationDataStart @ [of_nat (length p div 256), of_nat (length p)] @ p"

lemma record_len: "length p < 65536 \<Longrightarrow>
  256 * unat (of_nat (length p div 256) :: byte) + unat (of_nat (length p) :: byte) = length p"
proof -
  assume "length p < 65536"
  then have "unat (of_nat (length p div 256) :: byte) = length p div 256" "unat (of_nat (length p) :: byte) = length p mod 256"
    by (simp_all add: unat_of_nat)
  then show ?thesis by simp
qed

lemma high_low_bytes:
  fixes h l :: byte
  shows "of_nat ((256 * unat h + unat l) div 256) = h" and "of_nat (256 * unat h + unat l) = l"
proof -
  have "(256 * unat h + unat l) div 256 = unat h" using unat_byte_less [of l] by simp
  then show "of_nat ((256 * unat h + unat l) div 256) = h" by simp
  have "(of_nat (256 * unat h + unat l) :: byte) = of_nat 256 * of_nat (unat h) + of_nat (unat l)" by simp
  also have "(of_nat 256 :: byte) = 0" by simp
  finally show "of_nat (256 * unat h + unat l) = l" by simp
qed

lemma tls_record_fields:
  "\<not> length (tls_record p @ bs) < 5" "take 3 (tls_record p @ bs) = TlsApplicationDataStart"
  "(tls_record p @ bs) ! 3 = of_nat (length p div 256)" "(tls_record p @ bs) ! 4 = of_nat (length p)"
  "drop (5 + length p) (tls_record p @ bs) = bs" "\<not> length (tls_record p @ bs) < 5 + length p" "tls_record p @ bs \<noteq> []"
proof -
  have "drop (5 + length p) (tls_record p @ bs) = drop (length p) (drop 5 (tls_record p @ bs))" by (simp only: drop_drop add.commute)
  then show "drop (5 + length p) (tls_record p @ bs) = bs" by (simp add: tls_record_def TlsApplicationDataStart_def)
qed (simp_all add: tls_record_def TlsApplicationDataStart_def)

lemma app_records_record:
  assumes "p \<noteq> []" and "length p < 65536"
  shows "app_records (tls_record p @ bs) = app_records bs"
proof -
  have "length p \<noteq> 0" using assms(1) by simp
  then show ?thesis
    by (subst app_records.simps) (simp only: tls_record_fields record_len [OF assms(2)] Let_def if_False if_True simp_thms)
qed

lemma app_records_parse:
  "app_records bs \<Longrightarrow> \<exists>ps. list_all (\<lambda>p. p \<noteq> [] \<and> length p < 65536) ps \<and> bs = concat (map tls_record ps)"
proof (induction bs rule: app_records.induct)
  case (1 bs)
  let ?n = "256 * unat (bs ! 3) + unat (bs ! 4)"
  show ?case
  proof (cases "bs = []")
    case True
    then show ?thesis by (intro exI [of _ "[]"]) simp
  next
    case False
    with 1(2) have b: "5 \<le> length bs" "take 3 bs = TlsApplicationDataStart" "0 < ?n" "5 + ?n \<le> length bs" "app_records (drop (5 + ?n) bs)"
      by (subst (asm) app_records.simps, auto simp: Let_def split: if_splits)+
    have "\<exists>ps. list_all (\<lambda>p. p \<noteq> [] \<and> length p < 65536) ps \<and> drop (5 + ?n) bs = concat (map tls_record ps)"
      using 1(1) [OF False _ refl] b by simp
    then obtain ps where ps: "list_all (\<lambda>p. p \<noteq> [] \<and> length p < 65536) ps" "drop (5 + ?n) bs = concat (map tls_record ps)" by blast
    let ?p = "take ?n (drop 5 bs)"
    have len: "length ?p = ?n" using b(4) by simp
    have small: "?n < 65536" using unat_byte_less [of "bs ! 3"] unat_byte_less [of "bs ! 4"] by linarith
    obtain x y z u v r where bs: "bs = x # y # z # u # v # r" using b(1) by (auto simp: numeral_eq_Suc Suc_le_length_iff)
    have five: "take 5 bs = TlsApplicationDataStart @ [bs ! 3, bs ! 4]" using b(2) by (simp add: bs)
    have "tls_record ?p = TlsApplicationDataStart @ [bs ! 3, bs ! 4] @ ?p" unfolding tls_record_def len high_low_bytes ..
    then have "tls_record ?p = take (5 + ?n) bs" by (simp only: take_add [of 5 ?n bs] five append_assoc)
    then have "bs = concat (map tls_record (?p # ps))" using ps(2) by (metis append_take_drop_id concat.simps(2) list.map(2))
    moreover define q where "q = ?p"
    ultimately have "bs = concat (map tls_record (q # ps))" by simp
    moreover have "length q = ?n" using len by (simp only: q_def)
    then have "list_all (\<lambda>p. p \<noteq> [] \<and> length p < 65536) (q # ps)" using ps(1) small b(3) by auto
    ultimately show ?thesis by blast
  qed
qed

text \<open>
  C22. A multi buffer counts as complete exactly when its bytes are a sequence of TLS application data records, each with its
  five byte header and a payload of the length announced, which is not empty.
\<close>

theorem complete_record_grammar:
  assumes "mb_inv mb" and "length (mcontent mb) < 2147483648"
  shows "\<exists>complete. IsCompleteRecord mb = Some complete
    \<and> (complete \<longleftrightarrow> (\<exists>ps. list_all (\<lambda>p. p \<noteq> [] \<and> length p < 65536) ps \<and> mcontent mb = concat (map tls_record ps)))"
proof -
  have enc: "list_all (\<lambda>p. p \<noteq> [] \<and> length p < 65536) ps \<Longrightarrow> app_records (concat (map tls_record ps))" for ps
    by (induction ps) (simp_all add: app_records_record, subst app_records.simps, simp)
  have "app_records (mcontent mb) \<longleftrightarrow> (\<exists>ps. list_all (\<lambda>p. p \<noteq> [] \<and> length p < 65536) ps \<and> mcontent mb = concat (map tls_record ps))"
    by (rule iffI, erule app_records_parse, elim exE conjE) (simp add: enc)
  then show ?thesis using IsCompleteRecord_spec [OF assms] by (intro exI conjI)
qed

theorem complete_record_grammar_witness:
  "\<exists>complete. IsCompleteRecord [ex_buf] = Some complete
    \<and> (complete \<longleftrightarrow> (\<exists>ps. list_all (\<lambda>p. p \<noteq> [] \<and> length p < 65536) ps \<and> [5, 6, 7] = concat (map tls_record ps)))"
proof -
  have "mb_inv [ex_buf]" "mcontent [ex_buf] = [5, 6, 7]" using ex_buf_ok by (simp_all add: mb_ok_def roomy_def fits_def)
  with complete_record_grammar [of "[ex_buf]"] show ?thesis by auto
qed

text \<open>Removing padding does not touch the decision to read from the raw connection.\<close>

lemma unpad_pieces_direct: "ReaderDirectCopy (fst (unpad_pieces uuid l bss)) = ReaderDirectCopy l"
proof -
  have byte: "ReaderDirectCopy (fst (unpad_byte x l)) = ReaderDirectCopy l" for x l
    by (simp add: unpad_byte_def finish_def to_initial_def header_byte_def Let_def)
  have bytes: "ReaderDirectCopy (fst (unpad_bytes l xs)) = ReaderDirectCopy l" for xs l
    by (induction xs arbitrary: l) (simp_all add: byte case_prod_beta Let_def)
  have piece: "ReaderDirectCopy (fst (unpad_piece uuid l bs)) = ReaderDirectCopy l" for l bs
    by (simp add: unpad_piece_def bytes)
  show ?thesis by (induction bss arbitrary: l) (simp_all add: piece case_prod_beta Let_def)
qed

text \<open>
  C37. The reader decides whether it is still inside padding without looking at \<^verbatim>\<open>RemainingCommand\<close>. Take any read that
  arrives while the reader removes padding and the handshake inspection has no packets left to filter, and that ends just after the
  End command of a block header, with nothing left of the blocks before: whatever else the read carries, the reader leaves
  the padding mode in the middle of the header, and hands all that follows, the rest of the header and the padding of that
  block included, to the application as data.
\<close>

theorem vision_split_header:
  assumes "unpad_wf (reader_link u ts)" and "list_all (fits Size) mb" and "\<not> MultiBuffer_IsEmpty mb"
    and "WithinPaddingBuffers (reader_link u ts)" and "\<not> ReaderDirectCopy (reader_link u ts)" and "NumberOfPacketToFilter ts \<le> 0"
    and "unpad_all gots 0 u mb ts = Some (data, ts1)" and "RemainingCommand (reader_link u ts1) = 4"
    and "CurrentCommand (reader_link u ts1) = uint CommandPaddingEnd"
    and "RemainingContent (reader_link u ts1) \<le> 0" and "RemainingPadding (reader_link u ts1) \<le> 0"
    and "r = \<lparr>vr_isUplink = u, vr_direct = False\<rparr>"
  shows "\<exists>ts'. VisionReader_ReadMultiBuffer gots gots' gots'' input rawInput r ts mb err = Some (data, err, r, ts')
    \<and> RemainingCommand (reader_link u ts') = 4
    \<and> (\<forall>mb err. VisionReader_ReadMultiBuffer gots gots' gots'' input rawInput r ts' mb err = Some (mb, err, r, ts'))"
proof -
  let ?l = "reader_link u ts1"
  have "list_all (\<lambda>b. buf_inv b \<and> length (content b) \<le> Size) mb" using assms(2) by (simp add: fits_def list_all_iff)
  then have ts1: "ts1 = set_reader_link u (fst (unpad_pieces (UserUUID ts) (reader_link u ts) (map content mb))) ts"
    using unpad_all_spec [OF assms(1), of mb gots 0] assms(7) by auto
  have direct: "\<not> ReaderDirectCopy ?l" "NumberOfPacketToFilter ts1 \<le> 0"
    using assms(5,6) unpad_pieces_direct by (simp_all add: ts1)
  let ?l2 = "?l\<lparr>WithinPaddingBuffers := False\<rparr>"
  have af: "after_unpadding ?l = ?l2" using assms(9-11) by (simp add: after_unpadding_def)
  have "VisionReader_ReadMultiBuffer gots gots' gots'' input rawInput r ts mb err = Some (data, err, r, set_reader_link u ?l2 ts1)"
    using assms(3-7,12) af direct by (simp add: VisionReader_ReadMultiBuffer_def)
  moreover have "VisionReader_ReadMultiBuffer gots gots' gots'' input rawInput r (set_reader_link u ?l2 ts1) mb err =
      Some (mb, err, r, set_reader_link u ?l2 ts1)" for mb err
    using direct assms(12) by (simp add: VisionReader_ReadMultiBuffer_def)
  ultimately show ?thesis using assms(8) by (intro exI [of _ "set_reader_link u ?l2 ts1"]) simp
qed

text \<open>A read with a whole block, whose content is the byte 7, and the command of the last one.\<close>

definition ex_end :: Buffer where
  "ex_end = \<lparr>buf_v = Slice ([0, 0, 1, 0, 0, 7, 1] @ replicate 8185 0) Size, buf_start = 0, buf_end = 7, buf_ownership = managed, buf_UDP = None\<rparr>"

definition ex_reading :: TrafficState where
  "ex_reading = (NewTrafficState (replicate 16 1))\<lparr>NumberOfPacketToFilter := 0,
     ts_Outbound := new_link\<lparr>RemainingCommand := 5, RemainingContent := 0, RemainingPadding := 0\<rparr>\<rparr>"

theorem vision_split_header_witness:
  "\<exists>data ts'. VisionReader_ReadMultiBuffer (\<lambda>_. nil_slice) (\<lambda>_. nil_slice) (\<lambda>_. nil_slice) [] [] \<lparr>vr_isUplink = False, vr_direct = False\<rparr>
      ex_reading [ex_end] None = Some (data, None, \<lparr>vr_isUplink = False, vr_direct = False\<rparr>, ts') \<and> mcontent data = [7]
    \<and> VisionReader_ReadMultiBuffer (\<lambda>_. nil_slice) (\<lambda>_. nil_slice) (\<lambda>_. nil_slice) [] [] \<lparr>vr_isUplink = False, vr_direct = False\<rparr>
      ts' [ex_buf] None = Some ([ex_buf], None, \<lparr>vr_isUplink = False, vr_direct = False\<rparr>, ts')"
proof -
  have c: "content ex_end = [0, 0, 1, 0, 0, 7, 1]" "fits Size ex_end" by (simp_all add: content_def ex_end_def fits_def buf_inv_defs)
  let ?l = "reader_link False ex_reading"
  have l: "?l = new_link\<lparr>RemainingCommand := 5, RemainingContent := 0, RemainingPadding := 0\<rparr>"
    by (simp add: reader_link_def ex_reading_def)
  have wf: "unpad_wf ?l" by (simp add: l unpad_wf_def)
  have p: "unpad_pieces (UserUUID ex_reading) ?l (map content [ex_end]) =
      (new_link\<lparr>CurrentCommand := 1, RemainingCommand := 4, RemainingContent := 0, RemainingPadding := 0\<rparr>, [7])"
    by (simp add: l c unpad_piece_def unpad_byte_def initial_state_def header_byte_def finish_def block_done_def new_link_def)
  obtain data where d: "unpad_all (\<lambda>_. nil_slice) 0 False [ex_end] ex_reading = Some (data,
      set_reader_link False (new_link\<lparr>CurrentCommand := 1, RemainingCommand := 4, RemainingContent := 0, RemainingPadding := 0\<rparr>) ex_reading)"
      "mcontent data = [7]"
    using unpad_all_spec [OF wf, of "[ex_end]" "\<lambda>_. nil_slice" 0] c(2) p by (auto simp: fits_def)
  have st: "\<not> MultiBuffer_IsEmpty [ex_end]" "WithinPaddingBuffers ?l" "\<not> ReaderDirectCopy ?l" "NumberOfPacketToFilter ex_reading \<le> 0"
    using c by (simp_all add: MultiBuffer_IsEmpty_mcontent fits_def l new_link_def) (simp add: ex_reading_def)
  show ?thesis
    using vision_split_header [OF wf _ st d(1)] c(2) d(2) by simp blast
qed

definition ex_hello :: "byte \<Rightarrow> byte \<Rightarrow> Buffer" where
  "ex_hello c d = \<lparr>buf_v = Slice ([22, 3, 3, 0, 200, 2] @ replicate 37 0 @ [255] @ replicate 6 0 @ Tls13SupportedVersions
      @ replicate 243 0 @ [c, d] @ replicate 7891 0) Size,
     buf_start = 0, buf_end = 79, buf_ownership = managed, buf_UDP = None\<rparr>"

lemma ex_hello_facts:
  "content (ex_hello c d) = [22, 3, 3, 0, 200, 2] @ replicate 37 0 @ [255] @ replicate 6 0 @ Tls13SupportedVersions @ replicate 23 0"
  "buf_inv (ex_hello c d)" "Buffer_Byte (ex_hello c d) 43 = Some 255" "Buffer_BytesRange (ex_hello c d) 299 301 = Some [c, d]"
  "roomy (ex_hello c d)"
proof -
  show c: "content (ex_hello c d) = [22, 3, 3, 0, 200, 2] @ replicate 37 0 @ [255] @ replicate 6 0 @ Tls13SupportedVersions @ replicate 23 0"
    by (simp add: content_def ex_hello_def Tls13SupportedVersions_def)
  show i: "buf_inv (ex_hello c d)" by (simp add: buf_inv_defs ex_hello_def Tls13SupportedVersions_def)
  show "Buffer_Byte (ex_hello c d) 43 = Some 255"
    by (simp add: Buffer_Byte_def sl_get_def ex_hello_def Tls13SupportedVersions_def nth_append)
  show "Buffer_BytesRange (ex_hello c d) 299 301 = Some [c, d]"
    by (simp add: Buffer_BytesRange_def sl_sub_def sl_cap_def ex_hello_def Tls13SupportedVersions_def)
  show "roomy (ex_hello c d)"
    using c i by (simp add: roomy_def fits_def Tls13SupportedVersions_def) (simp add: ex_hello_def sl_cap_def Tls13SupportedVersions_def)
qed

lemma ex_hello_filter:
  "\<exists>t. XtlsFilterTls [Some (ex_hello c d)] (NewTrafficState uuid) = Some t
     \<and> EnableXtls t = (case Tls13CipherSuiteDic (or (push_bit 8 (ucast c)) (ucast d)) of
         None \<Rightarrow> False | Some v \<Rightarrow> v \<noteq> ''TLS_AES_128_CCM_8_SHA256'')"
proof -
  let ?b = "ex_hello c d" and ?cs = "[22, 3, 3, 0, 200, 2] @ replicate 37 0 @ [255] @ replicate 6 0 @ Tls13SupportedVersions @ replicate 23 (0 :: byte)"
  note f = ex_hello_facts [of c d]
  have len: "Buffer_Len ?b = 79" using Buffer_Len_content [OF f(2)] by (simp add: f(1) Tls13SupportedVersions_def)
  have six: "Buffer_BytesTo ?b 6 = Some [22, 3, 3, 0, 200, 2]"
    using Buffer_BytesTo_spec [OF f(2), of 6] len by (simp add: f(1))
  have all: "Buffer_BytesTo ?b 79 = Some ?cs"
    using Buffer_BytesTo_spec [OF f(2), of 79] len by (simp add: f(1) Tls13SupportedVersions_def)
  have has: "bytes_Contains ?cs Tls13SupportedVersions"
    unfolding bytes_Contains_iff
    by (intro exI [of _ "[22, 3, 3, 0, 200, 2] @ replicate 37 0 @ [255] @ replicate 6 0"] exI [of _ "replicate 23 0"]) simp
  have hello: "filter_hello ?b ((NewTrafficState uuid)\<lparr>NumberOfPacketToFilter := 7\<rparr>) =
      Some ((NewTrafficState uuid)\<lparr>NumberOfPacketToFilter := 7, RemainingServerHello := 205, IsTLS12orAbove := True, IsTLS := True,
        Cipher := or (push_bit 8 (ucast c)) (ucast d)\<rparr>)"
    using len six f(3,4) by (simp add: filter_hello_def TlsServerHandShakeStart_def)
  show ?thesis
    using hello len all has by (simp add: Let_def NewTrafficState_def split: option.split)
qed

text \<open>
  C38. The inspection of a server hello trusts the session id length in it: for a length above 32 the cipher suite is read behind the
  received bytes, in what the recycled slice held before. Two buffers with the same content, on which the Vision flow
  decides differently whether the rest of the connection is copied directly.
\<close>

theorem hello_stale_cipher:
  "\<exists>b b' t t'. roomy b \<and> roomy b' \<and> content b = content b'
     \<and> XtlsFilterTls [Some b] (NewTrafficState uuid) = Some t \<and> XtlsFilterTls [Some b'] (NewTrafficState uuid) = Some t'
     \<and> EnableXtls t \<and> \<not> EnableXtls t'"
proof -
  obtain t t' where "XtlsFilterTls [Some (ex_hello 0x13 0x01)] (NewTrafficState uuid) = Some t" "EnableXtls t"
      "XtlsFilterTls [Some (ex_hello 0 0)] (NewTrafficState uuid) = Some t'" "\<not> EnableXtls t'"
    using ex_hello_filter [of "0x13" "0x01" uuid] ex_hello_filter [of 0 0 uuid] by (auto simp: Tls13CipherSuiteDic_def)
  then show ?thesis using ex_hello_facts(1,5) by metis
qed

end
