(* ===== verification/Str_Match.thy ===== *)
theory Str_Match
  imports Prelude "HOL-Library.Sublist"
begin

text \<open>
  The string matchers of \<^verbatim>\<open>common/geodata/strmatcher\<close>: the four kinds of matcher, the groups and
  sets that store many matchers of one kind (a hash table for full matchers, a trie over domain
  labels, a list of substrings, a plain list), and the linear matchers that combine them.
  Go's \<^verbatim>\<open>regexp\<close> engine is a parameter: a compiled expression is its source with the
  predicate that it computes. A \<^verbatim>\<open>nil\<close> pointer to a group is \<open>None\<close>.

  The groups share an interface: what a group returns for an input is determined by the list of
  matchers added so far. It is the locale \<open>matcher_group\<close>, which every group interprets.
\<close>

section \<open>The functions of package strings\<close>

definition occurs_at :: "gostring \<Rightarrow> gostring \<Rightarrow> nat \<Rightarrow> bool" where
  "occurs_at p s i = (take (length p) (drop i s) = p)"

text \<open>The candidate positions of \<open>p\<close> in \<open>s\<close> are \<open>0\<close> to \<open>length s - length p\<close>.\<close>

definition str_positions :: "gostring \<Rightarrow> gostring \<Rightarrow> nat list" where
  "str_positions s p = filter (occurs_at p s) [0 ..< Suc (length s) - length p]"

definition HasPrefix :: "gostring \<Rightarrow> gostring \<Rightarrow> bool" where
  "HasPrefix s p = (length p \<le> length s \<and> take (length p) s = p)"

definition HasSuffix :: "gostring \<Rightarrow> gostring \<Rightarrow> bool" where
  "HasSuffix s p = (length p \<le> length s \<and> drop (length s - length p) s = p)"

definition Contains :: "gostring \<Rightarrow> gostring \<Rightarrow> bool" where
  "Contains s p = (str_positions s p \<noteq> [])"

text \<open>\<^verbatim>\<open>strings.LastIndex\<close>; \<open>None\<close> is the result \<open>-1\<close>.\<close>

definition LastIndex :: "gostring \<Rightarrow> gostring \<Rightarrow> nat option" where
  "LastIndex s p = (case rev (str_positions s p) of [] \<Rightarrow> None | j # _ \<Rightarrow> Some j)"

definition dot :: byte where
  "dot = 0x2e"

lemma HasPrefix_iff: "HasPrefix s p \<longleftrightarrow> (\<exists>r. s = p @ r)"
  unfolding HasPrefix_def by (metis append_eq_conv_conj append_take_drop_id le_add1 length_append)

lemma HasSuffix_iff: "HasSuffix s p \<longleftrightarrow> (\<exists>a. s = a @ p)"
  unfolding HasSuffix_def
  by (metis append_take_drop_id append_eq_conv_conj diff_add_inverse2 le_add2 length_append)

lemma str_positions_iff:
  "i \<in> set (str_positions s p) \<longleftrightarrow> (\<exists>a b. s = a @ p @ b \<and> length a = i)"
proof
  assume "i \<in> set (str_positions s p)"
  then have i: "i + length p \<le> length s" and o: "take (length p) (drop i s) = p"
    by (auto simp: str_positions_def occurs_at_def)
  have "s = take i s @ take (length p) (drop i s) @ drop (length p) (drop i s)"
    by (metis append_take_drop_id)
  then show "\<exists>a b. s = a @ p @ b \<and> length a = i"
    using i o by (metis add_leD1 length_take min.absorb2)
next
  assume "\<exists>a b. s = a @ p @ b \<and> length a = i"
  then obtain a b where s: "s = a @ p @ b" "length a = i" by blast
  then show "i \<in> set (str_positions s p)"
    by (auto simp: str_positions_def occurs_at_def)
qed

lemma Contains_iff: "Contains s p \<longleftrightarrow> (\<exists>a b. s = a @ p @ b)"
  unfolding Contains_def using str_positions_iff [of _ s p]
  by (metis list.set_intros(1) neq_Nil_conv empty_iff list.set(1))

lemma LastIndex_None: "LastIndex s p = None \<longleftrightarrow> \<not> Contains s p"
  by (auto simp: LastIndex_def Contains_def split: list.splits)

lemma LastIndex_Some_in: "LastIndex s p = Some j \<Longrightarrow> j \<in> set (str_positions s p)"
  unfolding LastIndex_def
  by (metis list.case_eq_if list.set_sel(1) option.distinct(1) option.inject set_rev)

lemma LastIndex_bound: "LastIndex s p = Some j \<Longrightarrow> j + length p \<le> length s"
  using LastIndex_Some_in str_positions_iff by fastforce

lemma LastIndex_Nil: "LastIndex s [] = Some (length s)"
proof -
  have "str_positions s [] = [0 ..< length s] @ [length s]"
    by (simp add: str_positions_def occurs_at_def)
  then show ?thesis by (simp add: LastIndex_def)
qed

text \<open>Reading a string byte by byte: how its splittings at a position or at a byte unfold.\<close>

lemma split_prefix_Cons:
  "(\<exists>x y. c # cs = x @ y \<and> x \<noteq> [] \<and> P x) \<longleftrightarrow> P [c] \<or> (\<exists>x y. cs = x @ y \<and> x \<noteq> [] \<and> P (c # x))"
proof
  assume "\<exists>x y. c # cs = x @ y \<and> x \<noteq> [] \<and> P x"
  then obtain x y where xy: "cs = x @ y" "P (c # x)" by (metis append_eq_Cons_conv)
  then show "P [c] \<or> (\<exists>x y. cs = x @ y \<and> x \<noteq> [] \<and> P (c # x))"
    by (cases "x = []") blast+
next
  assume "P [c] \<or> (\<exists>x y. cs = x @ y \<and> x \<noteq> [] \<and> P (c # x))"
  then show "\<exists>x y. c # cs = x @ y \<and> x \<noteq> [] \<and> P x"
    by (metis append_Cons append_Nil list.distinct(1))
qed

lemma split_dot_Cons:
  "(\<exists>x y. c # cs = x @ d # y \<and> P x) \<longleftrightarrow> (c = d \<and> P []) \<or> (\<exists>x y. cs = x @ d # y \<and> P (c # x))"
  by (auto simp: Cons_eq_append_conv)

lemma if_append: "(if b then xs @ ys else xs) = xs @ (if b then ys else [])"
  by simp

section \<open>Matchers\<close>

record regexp =
  re_String :: gostring
  re_MatchString :: "gostring \<Rightarrow> bool"

datatype matcher =
    FullMatcher gostring
  | DomainMatcher gostring
  | SubstrMatcher gostring
  | RegexMatcher regexp

type_synonym matcher_type = byte

definition Full :: matcher_type where "Full = 0"
definition Domain :: matcher_type where "Domain = 1"
definition Substr :: matcher_type where "Substr = 2"
definition Regex :: matcher_type where "Regex = 3"

fun Matcher_Type :: "matcher \<Rightarrow> matcher_type" where
  "Matcher_Type (FullMatcher _) = Full"
| "Matcher_Type (DomainMatcher _) = Domain"
| "Matcher_Type (SubstrMatcher _) = Substr"
| "Matcher_Type (RegexMatcher _) = Regex"

fun Matcher_Pattern :: "matcher \<Rightarrow> gostring" where
  "Matcher_Pattern (FullMatcher m) = m"
| "Matcher_Pattern (DomainMatcher m) = m"
| "Matcher_Pattern (SubstrMatcher m) = m"
| "Matcher_Pattern (RegexMatcher m) = re_String m"

fun Matcher_String :: "matcher \<Rightarrow> gostring" where
  "Matcher_String (FullMatcher m) = str ''full:'' @ m"
| "Matcher_String (DomainMatcher m) = str ''domain:'' @ m"
| "Matcher_String (SubstrMatcher m) = str ''keyword:'' @ m"
| "Matcher_String (RegexMatcher m) = str ''regexp:'' @ re_String m"

definition FullMatcher_Match :: "gostring \<Rightarrow> gostring \<Rightarrow> bool" where
  "FullMatcher_Match m s = (m = s)"

text \<open>
  The index \<^verbatim>\<open>s[len(s)-len(pattern)-1]\<close> is evaluated only when the pattern is a suffix of a longer
  string, so it is in range.
\<close>

definition DomainMatcher_Match :: "gostring \<Rightarrow> gostring \<Rightarrow> bool" where
  "DomainMatcher_Match m s =
     (if \<not> HasSuffix s m then False
      else length s = length m \<or> s ! (length s - length m - 1) = dot)"

definition SubstrMatcher_Match :: "gostring \<Rightarrow> gostring \<Rightarrow> bool" where
  "SubstrMatcher_Match m s = Contains s m"

definition RegexMatcher_Match :: "regexp \<Rightarrow> gostring \<Rightarrow> bool" where
  "RegexMatcher_Match m s = re_MatchString m s"

fun Matcher_Match :: "matcher \<Rightarrow> gostring \<Rightarrow> bool" where
  "Matcher_Match (FullMatcher m) s = FullMatcher_Match m s"
| "Matcher_Match (DomainMatcher m) s = DomainMatcher_Match m s"
| "Matcher_Match (SubstrMatcher m) s = SubstrMatcher_Match m s"
| "Matcher_Match (RegexMatcher m) s = RegexMatcher_Match m s"

lemma DomainMatcher_Match_iff:
  "DomainMatcher_Match p s \<longleftrightarrow> s = p \<or> (\<exists>a. s = a @ dot # p)"
proof (cases "HasSuffix s p")
  case True
  then obtain a where a: "s = a @ p" by (auto simp: HasSuffix_iff)
  show ?thesis
  proof (cases a rule: rev_cases)
    case Nil
    then show ?thesis using a True by (simp add: DomainMatcher_Match_def)
  next
    case (snoc b c)
    then have "DomainMatcher_Match p s \<longleftrightarrow> c = dot"
      using a True by (simp add: DomainMatcher_Match_def nth_append)
    moreover have "s = p \<or> (\<exists>a. s = a @ dot # p) \<longleftrightarrow> c = dot"
    proof -
      have "(b @ [c]) @ p = (d @ [dot]) @ p \<longleftrightarrow> b = d \<and> c = dot" for d
        unfolding append_same_eq by simp
      then show ?thesis using a snoc by auto
    qed
    ultimately show ?thesis by simp
  qed
next
  case False
  then have "\<not> (s = p \<or> (\<exists>a. s = a @ dot # p))"
    unfolding HasSuffix_iff by (metis append_Cons append_Nil append_assoc)
  then show ?thesis using False by (simp add: DomainMatcher_Match_def)
qed

lemma Matcher_Match_parts:
  "(\<exists>m. (m, v) \<in> set ms \<and> Matcher_Match m s) \<longleftrightarrow>
     (FullMatcher s, v) \<in> set ms \<or>
     (\<exists>p. (DomainMatcher p, v) \<in> set ms \<and> DomainMatcher_Match p s) \<or>
     (\<exists>p. (SubstrMatcher p, v) \<in> set ms \<and> SubstrMatcher_Match p s) \<or>
     (\<exists>r. (RegexMatcher r, v) \<in> set ms \<and> RegexMatcher_Match r s)"
proof
  assume "\<exists>m. (m, v) \<in> set ms \<and> Matcher_Match m s"
  then obtain m where "(m, v) \<in> set ms" "Matcher_Match m s" by blast
  then show "(FullMatcher s, v) \<in> set ms \<or>
     (\<exists>p. (DomainMatcher p, v) \<in> set ms \<and> DomainMatcher_Match p s) \<or>
     (\<exists>p. (SubstrMatcher p, v) \<in> set ms \<and> SubstrMatcher_Match p s) \<or>
     (\<exists>r. (RegexMatcher r, v) \<in> set ms \<and> RegexMatcher_Match r s)"
    by (cases m) (auto simp: FullMatcher_Match_def)
next
  have "Matcher_Match (FullMatcher s) s" by (simp add: FullMatcher_Match_def)
  then show "(FullMatcher s, v) \<in> set ms \<or>
     (\<exists>p. (DomainMatcher p, v) \<in> set ms \<and> DomainMatcher_Match p s) \<or>
     (\<exists>p. (SubstrMatcher p, v) \<in> set ms \<and> SubstrMatcher_Match p s) \<or>
     (\<exists>r. (RegexMatcher r, v) \<in> set ms \<and> RegexMatcher_Match r s) \<Longrightarrow>
     \<exists>m. (m, v) \<in> set ms \<and> Matcher_Match m s"
    by (metis Matcher_Match.simps(2-4))
qed

text \<open>
  \<open>Type.New\<close> and \<open>Type.NewDomainPattern\<close>. \<^verbatim>\<open>regexp.Compile\<close> and the Punycode conversion of
  \<^verbatim>\<open>golang.org/x/net/idna\<close> are parameters.
\<close>

definition Type_New ::
  "(gostring \<Rightarrow> go_error + regexp) \<Rightarrow> matcher_type \<Rightarrow> gostring \<Rightarrow> go_error + matcher" where
  "Type_New compile t pattern =
     (if t = Full then Inr (FullMatcher pattern)
      else if t = Substr then Inr (SubstrMatcher pattern)
      else if t = Domain then Inr (DomainMatcher pattern)
      else if t = Regex then
        (case compile pattern of Inl err \<Rightarrow> Inl err | Inr regex \<Rightarrow> Inr (RegexMatcher regex))
      else Inl (ErrNew ''unknown matcher type''))"

definition is_upper :: "byte \<Rightarrow> bool" where
  "is_upper c = (0x41 \<le> c \<and> c \<le> 0x5a)"

definition is_lower :: "byte \<Rightarrow> bool" where
  "is_lower c = (0x61 \<le> c \<and> c \<le> 0x7a)"

definition is_digit :: "byte \<Rightarrow> bool" where
  "is_digit c = (0x30 \<le> c \<and> c \<le> 0x39)"

definition ldh_byte :: "byte \<Rightarrow> bool" where
  "ldh_byte c = (is_upper c \<or> is_lower c \<or> is_digit c \<or> c = 0x2d \<or> c = dot)"

text \<open>\<^verbatim>\<open>strings.ToLower\<close> on a string of ASCII bytes.\<close>

definition lower_byte :: "byte \<Rightarrow> byte" where
  "lower_byte c = (if is_upper c then c + 0x20 else c)"

definition ToLower_ascii :: "gostring \<Rightarrow> gostring" where
  "ToLower_ascii s = map lower_byte s"

text \<open>The inner loop of \<open>ToDomain\<close>: the result is the pair \<open>(isASCII, hasUpper)\<close>.\<close>

fun ToDomain_scan :: "gostring \<Rightarrow> bool \<Rightarrow> go_error + bool \<times> bool" where
  "ToDomain_scan [] hasUpper = Inr (True, hasUpper)"
| "ToDomain_scan (c # cs) hasUpper =
     (if c \<ge> 0x80 then Inr (False, hasUpper)
      else if is_upper c then ToDomain_scan cs True
      else if ldh_byte c then ToDomain_scan cs hasUpper
      else Inl (ErrNew ''pattern string does not conform to Letter-Digit-Hyphen (LDH) subset''))"

partial_function (option) ToDomain ::
  "(gostring \<Rightarrow> go_error + gostring) \<Rightarrow> gostring \<Rightarrow> (go_error + gostring) option" where
  "ToDomain toASCII pattern =
     (case ToDomain_scan pattern False of
        Inl err \<Rightarrow> Some (Inl err)
      | Inr (isASCII, hasUpper) \<Rightarrow>
          if \<not> isASCII then
            (case toASCII pattern of
               Inl err \<Rightarrow> Some (Inl err)
             | Inr pattern' \<Rightarrow> ToDomain toASCII pattern')
          else Some (Inr (if hasUpper then ToLower_ascii pattern else pattern)))"

definition NewDomainPattern ::
  "(gostring \<Rightarrow> go_error + regexp) \<Rightarrow> (gostring \<Rightarrow> go_error + gostring) \<Rightarrow>
   matcher_type \<Rightarrow> gostring \<Rightarrow> (go_error + matcher) option" where
  "NewDomainPattern compile toASCII t pattern =
     (if t = Full \<or> t = Substr \<or> t = Domain then
        do { r \<leftarrow> ToDomain toASCII pattern;
             Some (case r of
                 Inl err \<Rightarrow> Inl err
               | Inr p \<Rightarrow> Inr (if t = Full then FullMatcher p
                              else if t = Substr then SubstrMatcher p else DomainMatcher p)) }
      else if t = Regex then
        Some (case compile pattern of Inl err \<Rightarrow> Inl err | Inr regex \<Rightarrow> Inr (RegexMatcher regex))
      else Some (Inl (ErrNew ''unknown matcher type'')))"

lemma word8_le_iff: "(a :: byte) \<le> b \<longleftrightarrow> unat a \<le> unat b"
  by (simp add: word_le_nat_alt)

lemma lower_byte_ldh: "ldh_byte c \<Longrightarrow> ldh_byte (lower_byte c) \<and> \<not> is_upper (lower_byte c)"
proof (cases "is_upper c")
  case True
  then have u: "0x41 \<le> unat c" "unat c \<le> 0x5a" by (auto simp: is_upper_def word8_le_iff)
  then have "unat (c + 0x20) = unat c + 0x20"
    by (simp add: unat_word_ariths)
  then show ?thesis
    using True u by (simp add: lower_byte_def ldh_byte_def is_lower_def is_upper_def word8_le_iff)
next
  case False
  then show "ldh_byte c \<Longrightarrow> ?thesis" by (simp add: lower_byte_def)
qed

lemma ToDomain_scan_ascii:
  "ToDomain_scan s u = Inr (True, u') \<Longrightarrow> list_all ldh_byte s \<and> (u' \<longleftrightarrow> u \<or> list_ex is_upper s)"
  by (induction s u rule: ToDomain_scan.induct) (auto simp: ldh_byte_def split: if_splits)

lemma ToDomain_scan_of_ascii:
  "list_all (\<lambda>c. c < 0x80) s \<Longrightarrow> ToDomain_scan s u \<noteq> Inr (False, u')"
  by (induction s u rule: ToDomain_scan.induct) (auto simp: linorder_not_le [symmetric])

lemma ToDomain_unfold_ascii:
  assumes "list_all (\<lambda>c. c < 0x80) s"
  shows "ToDomain f s \<noteq> None"
  using ToDomain_scan_of_ascii [OF assms]
  by (subst ToDomain.simps) (auto split: sum.split prod.split)

lemma ToDomain_lowered:
  assumes "ToDomain_scan s False = Inr (True, u)"
  shows "list_all (\<lambda>c. ldh_byte c \<and> \<not> is_upper c) (if u then ToLower_ascii s else s)"
  using ToDomain_scan_ascii [OF assms] lower_byte_ldh
  by (auto simp: list_all_iff list_ex_iff ToLower_ascii_def)

lemma ToDomain_result:
  assumes "ToDomain f s = Some r"
  shows "\<forall>p. r = Inr p \<longrightarrow> list_all (\<lambda>c. ldh_byte c \<and> \<not> is_upper c) p"
  using assms
proof (rule ToDomain.raw_induct [rotated,
      where P = "\<lambda>f s r. \<forall>p. r = Inr p \<longrightarrow> list_all (\<lambda>c. ldh_byte c \<and> \<not> is_upper c) p"])
  fix rec f s r
  assume IH: "\<And>f s r. rec f s = Some r \<Longrightarrow>
      \<forall>p. r = Inr p \<longrightarrow> list_all (\<lambda>c. ldh_byte c \<and> \<not> is_upper c) p"
    and step: "(case ToDomain_scan s False of
        Inl err \<Rightarrow> Some (Inl err)
      | Inr (isASCII, hasUpper) \<Rightarrow>
          if \<not> isASCII then
            (case f s of Inl err \<Rightarrow> Some (Inl err) | Inr pattern' \<Rightarrow> rec f pattern')
          else Some (Inr (if hasUpper then ToLower_ascii s else s))) = Some r"
  show "\<forall>p. r = Inr p \<longrightarrow> list_all (\<lambda>c. ldh_byte c \<and> \<not> is_upper c) p"
  proof (cases "ToDomain_scan s False")
    case (Inr q)
    then obtain a u where q: "q = (a, u)" by force
    show ?thesis
    proof (cases a)
      case True
      then show ?thesis using step Inr q ToDomain_lowered [of s u] by auto
    next
      case False
      then show ?thesis using step Inr q IH by (cases "f s") auto
    qed
  qed (use step in auto)
qed

text \<open>
  C35. \<^verbatim>\<open>ToDomain\<close> ends as soon as the Punycode conversion gives ASCII, which is what it is for, and
  a pattern that it accepts consists of lower-case letters, digits, hyphens and periods only.
\<close>

theorem ToDomain_ldh:
  assumes "\<And>s p. toASCII s = Inr p \<Longrightarrow> list_all (\<lambda>c. c < 0x80) p"
  shows "\<exists>r. ToDomain toASCII pattern = Some r \<and>
    (\<forall>p. r = Inr p \<longrightarrow> list_all (\<lambda>c. ldh_byte c \<and> \<not> is_upper c) p)"
proof -
  have good: "list_all (\<lambda>c. ldh_byte c \<and> \<not> is_upper c) p"
    if "ToDomain toASCII pattern = Some (Inr p)" for p
    using ToDomain_result [OF that] by blast
  show ?thesis
  proof (cases "ToDomain toASCII pattern")
    case None
    then have False
      using ToDomain_unfold_ascii [OF assms, of pattern _ toASCII]
      by (subst (asm) ToDomain.simps) (force split: sum.splits prod.splits if_splits)
    then show ?thesis ..
  next
    case (Some r)
    then show ?thesis using good by blast
  qed
qed

theorem ToDomain_ldh_witness:
  "\<exists>r. ToDomain (\<lambda>_. Inr (str ''xn--a'')) [0x41, 0xc3] = Some r \<and>
    (\<forall>p. r = Inr p \<longrightarrow> list_all (\<lambda>c. ldh_byte c \<and> \<not> is_upper c) p)"
  by (rule ToDomain_ldh) (auto simp: str_def ascii_def)

text \<open>The flattening of the results of several groups.\<close>

definition CompositeMatches :: "'v list list \<Rightarrow> 'v list" where
  "CompositeMatches matches =
     (case matches of [] \<Rightarrow> [] | [m] \<Rightarrow> m | _ \<Rightarrow> foldl (\<lambda>result m. result @ m) [] matches)"

definition CompositeMatchesReverse :: "'v list list \<Rightarrow> 'v list" where
  "CompositeMatchesReverse matches =
     (case matches of [] \<Rightarrow> [] | [m] \<Rightarrow> m | _ \<Rightarrow> foldl (\<lambda>result m. result @ m) [] (rev matches))"

lemma foldl_append_concat: "foldl (\<lambda>result m. result @ m) acc ms = acc @ concat ms"
  by (induction ms arbitrary: acc) auto

lemma CompositeMatches_concat: "CompositeMatches ms = concat ms"
  by (simp add: CompositeMatches_def foldl_append_concat split: list.split)

lemma CompositeMatchesReverse_concat: "CompositeMatchesReverse ms = concat (rev ms)"
  by (simp add: CompositeMatchesReverse_def foldl_append_concat split: list.split)

section \<open>Groups\<close>

text \<open>
  The interface of a group. \<open>rep g ms\<close> relates a group to the list of matchers added to it, with
  their values, in the order of the additions; \<open>fits\<close> bounds the lists the group is meant for.
  \<open>Match\<close> may run forever, so its result is an option.
\<close>

locale matcher_group =
  fixes empty :: 'g
    and add :: "'m \<Rightarrow> u32 \<Rightarrow> 'g \<Rightarrow> 'g"
    and match :: "'g \<Rightarrow> gostring \<Rightarrow> u32 list option"
    and matchAny :: "'g \<Rightarrow> gostring \<Rightarrow> bool"
    and rep :: "'g \<Rightarrow> ('m \<times> u32) list \<Rightarrow> bool"
    and fits :: "('m \<times> u32) list \<Rightarrow> bool"
    and sem :: "'m \<Rightarrow> gostring \<Rightarrow> bool"
  assumes rep_empty: "rep empty []"
    and rep_add: "rep g ms \<Longrightarrow> rep (add m v g) (ms @ [(m, v)])"
    and match_rep: "rep g ms \<Longrightarrow> fits ms \<Longrightarrow>
      \<exists>r. match g s = Some r \<and> set r = {v. \<exists>m. (m, v) \<in> set ms \<and> sem m s}"
    and matchAny_rep: "rep g ms \<Longrightarrow> fits ms \<Longrightarrow>
      matchAny g s \<longleftrightarrow> (\<exists>(m, v) \<in> set ms. sem m s)"
begin

lemma rep_fold: "rep g ms \<Longrightarrow> rep (fold (\<lambda>(m, v). add m v) ns g) (ms @ ns)"
proof (induction ns arbitrary: g ms)
  case (Cons n ns)
  obtain m v where n: "n = (m, v)" by force
  have "rep (add m v g) (ms @ [(m, v)])"
    using Cons.prems by (rule rep_add)
  then have "rep (fold (\<lambda>(m, v). add m v) ns (add m v g)) ((ms @ [(m, v)]) @ ns)"
    by (rule Cons.IH)
  then show ?case by (simp add: n)
qed simp

lemma rep_built: "rep (fold (\<lambda>(m, v). add m v) ms empty) ms"
  using rep_fold [OF rep_empty] by simp

lemma matchAny_iff_match:
  assumes "rep g ms" "fits ms" "match g s = Some r"
  shows "matchAny g s \<longleftrightarrow> r \<noteq> []"
proof -
  have "set r = {v. \<exists>m. (m, v) \<in> set ms \<and> sem m s}"
    using match_rep [OF assms(1,2), of s] assms(3) by auto
  then have "set r \<noteq> {} \<longleftrightarrow> (\<exists>(m, v) \<in> set ms. sem m s)"
    by auto
  then show ?thesis
    using matchAny_rep [OF assms(1,2)] by simp
qed

end

text \<open>The interface of a matcher set: a group without values and without \<open>Match\<close>.\<close>

locale matcher_set =
  fixes empty :: 'g
    and add :: "'m \<Rightarrow> 'g \<Rightarrow> 'g"
    and matchAny :: "'g \<Rightarrow> gostring \<Rightarrow> bool"
    and rep :: "'g \<Rightarrow> 'm list \<Rightarrow> bool"
    and fits :: "'m list \<Rightarrow> bool"
    and sem :: "'m \<Rightarrow> gostring \<Rightarrow> bool"
  assumes set_rep_empty: "rep empty []"
    and set_rep_add: "rep g ms \<Longrightarrow> rep (add m g) (ms @ [m])"
    and set_matchAny_rep: "rep g ms \<Longrightarrow> fits ms \<Longrightarrow> matchAny g s \<longleftrightarrow> (\<exists>m \<in> set ms. sem m s)"
begin

lemma set_rep_fold: "rep g ms \<Longrightarrow> rep (fold add ns g) (ms @ ns)"
proof (induction ns arbitrary: g ms)
  case (Cons n ns)
  have "rep (fold add ns (add n g)) ((ms @ [n]) @ ns)"
    using set_rep_add [OF Cons.prems] by (rule Cons.IH)
  then show ?case by simp
qed simp

lemma set_matchAny_built:
  "fits ms \<Longrightarrow> matchAny (fold add ms empty) s \<longleftrightarrow> (\<exists>m \<in> set ms. sem m s)"
  using set_matchAny_rep [OF set_rep_fold [OF set_rep_empty]] by simp

end

subsection \<open>Full matchers\<close>

text \<open>\<open>AddFullMatcher\<close> appends to the slice stored under the pattern; a missing key reads as nil.\<close>

record FullMatcherGroup =
  fmg_matchers :: "gostring \<rightharpoonup> u32 list"

definition NewFullMatcherGroup :: FullMatcherGroup where
  "NewFullMatcherGroup = \<lparr>fmg_matchers = Map.empty\<rparr>"

definition map_slice :: "('k \<rightharpoonup> 'v list) \<Rightarrow> 'k \<Rightarrow> 'v list" where
  "map_slice m k = (case m k of None \<Rightarrow> [] | Some vs \<Rightarrow> vs)"

definition FullMatcherGroup_Add :: "gostring \<Rightarrow> u32 \<Rightarrow> FullMatcherGroup \<Rightarrow> FullMatcherGroup" where
  "FullMatcherGroup_Add m value g =
     g\<lparr>fmg_matchers := (fmg_matchers g)(m \<mapsto> map_slice (fmg_matchers g) m @ [value])\<rparr>"

definition FullMatcherGroup_Match :: "FullMatcherGroup \<Rightarrow> gostring \<Rightarrow> u32 list" where
  "FullMatcherGroup_Match g input = map_slice (fmg_matchers g) input"

definition FullMatcherGroup_MatchAny :: "FullMatcherGroup \<Rightarrow> gostring \<Rightarrow> bool" where
  "FullMatcherGroup_MatchAny g input = (fmg_matchers g input \<noteq> None)"

text \<open>The values of the matchers that satisfy a condition, in the order of the additions.\<close>

definition values_of :: "('m \<Rightarrow> bool) \<Rightarrow> ('m \<times> 'v) list \<Rightarrow> 'v list" where
  "values_of P ms = map snd (filter (\<lambda>(m, v). P m) ms)"

lemma values_of_Nil [simp]: "values_of P [] = []"
  by (simp add: values_of_def)

lemma values_of_snoc [simp]:
  "values_of P (ms @ [(m, v)]) = values_of P ms @ (if P m then [v] else [])"
  by (simp add: values_of_def)

lemma set_values_of: "set (values_of P ms) = {v. \<exists>m. (m, v) \<in> set ms \<and> P m}"
  by (force simp: values_of_def)

lemma values_of_empty_iff: "values_of P ms = [] \<longleftrightarrow> (\<forall>(m, v) \<in> set ms. \<not> P m)"
  by (auto simp: values_of_def filter_empty_conv)

definition full_rep :: "FullMatcherGroup \<Rightarrow> (gostring \<times> u32) list \<Rightarrow> bool" where
  "full_rep g ms = (\<forall>s. fmg_matchers g s =
     (let vs = values_of (\<lambda>m. m = s) ms in if vs = [] then None else Some vs))"

lemma full_rep_Match: "full_rep g ms \<Longrightarrow> FullMatcherGroup_Match g s = values_of (\<lambda>m. m = s) ms"
  by (simp add: full_rep_def FullMatcherGroup_Match_def map_slice_def Let_def)

interpretation full_group: matcher_group NewFullMatcherGroup FullMatcherGroup_Add
  "\<lambda>g s. Some (FullMatcherGroup_Match g s)" FullMatcherGroup_MatchAny full_rep
  "\<lambda>_. True" FullMatcher_Match
proof
  show "full_rep NewFullMatcherGroup []"
    by (simp add: full_rep_def NewFullMatcherGroup_def)
  fix g ms m v s
  assume rep: "full_rep g ms"
  then have m: "fmg_matchers g x = (let vs = values_of (\<lambda>m. m = x) ms in if vs = [] then None else Some vs)"
    for x by (simp add: full_rep_def)
  show "full_rep (FullMatcherGroup_Add m v g) (ms @ [(m, v)])"
    by (auto simp: full_rep_def FullMatcherGroup_Add_def map_slice_def m Let_def)
  show "\<exists>r. Some (FullMatcherGroup_Match g s) = Some r \<and>
      set r = {v. \<exists>m. (m, v) \<in> set ms \<and> FullMatcher_Match m s}"
    using full_rep_Match [OF rep] by (simp add: set_values_of FullMatcher_Match_def)
  show "FullMatcherGroup_MatchAny g s \<longleftrightarrow> (\<exists>(m, v) \<in> set ms. FullMatcher_Match m s)"
    by (auto simp: FullMatcherGroup_MatchAny_def m Let_def values_of_empty_iff FullMatcher_Match_def)
qed

subsection \<open>A list of matchers of any kind\<close>

type_synonym matcherEntry = "matcher \<times> u32"

record SimpleMatcherGroup =
  smg_matchers :: "matcherEntry list"

definition NewSimpleMatcherGroup :: SimpleMatcherGroup where
  "NewSimpleMatcherGroup = \<lparr>smg_matchers = []\<rparr>"

definition SimpleMatcherGroup_Add :: "matcher \<Rightarrow> u32 \<Rightarrow> SimpleMatcherGroup \<Rightarrow> SimpleMatcherGroup" where
  "SimpleMatcherGroup_Add m value g = g\<lparr>smg_matchers := smg_matchers g @ [(m, value)]\<rparr>"

fun simple_match_loop :: "matcherEntry list \<Rightarrow> gostring \<Rightarrow> u32 list \<Rightarrow> u32 list" where
  "simple_match_loop [] input result = result"
| "simple_match_loop ((m, v) # es) input result =
     simple_match_loop es input (if Matcher_Match m input then result @ [v] else result)"

definition SimpleMatcherGroup_Match :: "SimpleMatcherGroup \<Rightarrow> gostring \<Rightarrow> u32 list" where
  "SimpleMatcherGroup_Match g input = simple_match_loop (smg_matchers g) input []"

fun any_match_loop :: "('m \<Rightarrow> bool) \<Rightarrow> 'm list \<Rightarrow> bool" where
  "any_match_loop f [] = False"
| "any_match_loop f (m # ms) = (if f m then True else any_match_loop f ms)"

definition SimpleMatcherGroup_MatchAny :: "SimpleMatcherGroup \<Rightarrow> gostring \<Rightarrow> bool" where
  "SimpleMatcherGroup_MatchAny g input =
     any_match_loop (\<lambda>(m, v). Matcher_Match m input) (smg_matchers g)"

lemma any_match_loop_iff [simp]: "any_match_loop f ms \<longleftrightarrow> (\<exists>m \<in> set ms. f m)"
  by (induction ms) auto

lemma simple_match_loop_values:
  "simple_match_loop es input result = result @ values_of (\<lambda>m. Matcher_Match m input) es"
  by (induction es input result rule: simple_match_loop.induct) (auto simp: values_of_def)

lemma SimpleMatcherGroup_Match_values:
  "SimpleMatcherGroup_Match g input = values_of (\<lambda>m. Matcher_Match m input) (smg_matchers g)"
  by (simp add: SimpleMatcherGroup_Match_def simple_match_loop_values)

interpretation simple_group: matcher_group NewSimpleMatcherGroup SimpleMatcherGroup_Add
  "\<lambda>g s. Some (SimpleMatcherGroup_Match g s)" SimpleMatcherGroup_MatchAny
  "\<lambda>g ms. smg_matchers g = ms" "\<lambda>_. True" Matcher_Match
  by unfold_locales
    (auto simp: NewSimpleMatcherGroup_def SimpleMatcherGroup_Add_def SimpleMatcherGroup_MatchAny_def
      SimpleMatcherGroup_Match_values set_values_of)

subsection \<open>Substring matchers\<close>

record SubstrMatcherGroup =
  sub_patterns :: "gostring list"
  sub_values :: "u32 list"

definition NewSubstrMatcherGroup :: SubstrMatcherGroup where
  "NewSubstrMatcherGroup = \<lparr>sub_patterns = [], sub_values = []\<rparr>"

definition SubstrMatcherGroup_Add ::
  "gostring \<Rightarrow> u32 \<Rightarrow> SubstrMatcherGroup \<Rightarrow> SubstrMatcherGroup" where
  "SubstrMatcherGroup_Add m value g =
     g\<lparr>sub_patterns := sub_patterns g @ [m], sub_values := sub_values g @ [value]\<rparr>"

text \<open>
  The inner loop of \<open>Match\<close> visits the occurrences of one pattern from the right, each one to the
  left of the one before. An entry holds the position in its upper half and the index of the
  pattern in its lower half. An empty pattern occurs at the end of every prefix, so the loop does
  not make progress on it.
\<close>

definition substr_entry :: "nat \<Rightarrow> nat \<Rightarrow> u32" where
  "substr_entry j i = (push_bit 16 (of_nat j)) OR (of_nat i AND 0xffff)"

partial_function (option) substr_occurrences ::
  "gostring \<Rightarrow> gostring \<Rightarrow> nat \<Rightarrow> u32 list \<Rightarrow> u32 list option" where
  "substr_occurrences input pattern i result =
     (case LastIndex input pattern of
        None \<Rightarrow> Some result
      | Some j \<Rightarrow> substr_occurrences (take j input) pattern i (result @ [substr_entry j i]))"

fun substr_entries :: "gostring \<Rightarrow> gostring list \<Rightarrow> nat \<Rightarrow> u32 list \<Rightarrow> u32 list option" where
  "substr_entries input [] i result = Some result"
| "substr_entries input (pattern # ps) i result =
     do { result' \<leftarrow> substr_occurrences input pattern i result;
          substr_entries input ps (Suc i) result' }"

text \<open>Results of length two are swapped by hand, longer ones are sorted.\<close>

definition substr_sort :: "u32 list \<Rightarrow> u32 list" where
  "substr_sort result =
     (case result of
        [] \<Rightarrow> []
      | [a] \<Rightarrow> [a]
      | [a, b] \<Rightarrow> (if a > b then [b, a] else [a, b])
      | _ \<Rightarrow> sort result)"

definition SubstrMatcherGroup_Match :: "SubstrMatcherGroup \<Rightarrow> gostring \<Rightarrow> u32 list option" where
  "SubstrMatcherGroup_Match g input =
     do { result \<leftarrow> substr_entries input (sub_patterns g) 0 [];
          Some (map (\<lambda>entry. sub_values g ! unat (entry AND 0xffff)) (substr_sort result)) }"

definition SubstrMatcherGroup_MatchAny :: "SubstrMatcherGroup \<Rightarrow> gostring \<Rightarrow> bool" where
  "SubstrMatcherGroup_MatchAny g input =
     any_match_loop (\<lambda>pattern. Contains input pattern) (sub_patterns g)"

lemma substr_sort_sort: "substr_sort result = sort result"
  by (auto simp: substr_sort_def split: list.split)

lemma substr_entry_index: "i < 65536 \<Longrightarrow> unat (substr_entry j i AND 0xffff) = i"
proof -
  assume i: "i < 65536"
  have m: "(0xffff :: u32) = mask 16" by (simp add: mask_eq_exp_minus_1)
  have "substr_entry j i AND 0xffff = (of_nat i :: u32) AND 0xffff"
    unfolding substr_entry_def m
    by (rule bit_word_eqI) (auto simp: bit_simps)
  also have "\<dots> = take_bit 16 (of_nat i :: u32)"
    by (simp add: m take_bit_eq_mask)
  also have "\<dots> = of_nat i"
    using i by (simp add: take_bit_of_nat take_bit_nat_eq_self)
  finally show ?thesis
    using i by (simp add: unat_of_nat_u32)
qed

lemma take_position: "LastIndex s p = Some j \<Longrightarrow> p \<noteq> [] \<Longrightarrow> length (take j s) < length s"
  using LastIndex_bound [of s p j] by (cases p) auto

lemma substr_occurrences_returns:
  "p \<noteq> [] \<Longrightarrow> \<exists>es. substr_occurrences s p i acc = Some (acc @ es) \<and>
     set es \<subseteq> {substr_entry j i | j. True} \<and> (es \<noteq> [] \<longleftrightarrow> Contains s p)"
proof (induction "length s" arbitrary: s acc rule: less_induct)
  case less
  show ?case
  proof (cases "LastIndex s p")
    case None
    then show ?thesis
      using LastIndex_None [of s p] by (subst substr_occurrences.simps) simp
  next
    case (Some j)
    obtain es where es: "substr_occurrences (take j s) p i (acc @ [substr_entry j i]) =
        Some ((acc @ [substr_entry j i]) @ es)" "set es \<subseteq> {substr_entry j i | j. True}"
      using less.hyps [OF take_position [OF Some less.prems], of "acc @ [substr_entry j i]"]
        less.prems by blast
    have "substr_occurrences s p i acc = Some (acc @ substr_entry j i # es)"
      using es(1) by (subst substr_occurrences.simps) (simp add: Some)
    moreover have "Contains s p"
      using Some LastIndex_None [of s p] by simp
    ultimately show ?thesis
      using es(2) by (intro exI [of _ "substr_entry j i # es"]) auto
  qed
qed

lemma substr_occurrences_nonempty:
  assumes "substr_occurrences s p i acc = Some r"
  shows "p \<noteq> []"
  using assms
proof (rule substr_occurrences.raw_induct [where P = "\<lambda>s p i acc r. p \<noteq> []", rotated])
  fix f :: "gostring \<Rightarrow> gostring \<Rightarrow> nat \<Rightarrow> u32 list \<Rightarrow> u32 list option" and s p i acc y
  assume IH: "\<And>s p i acc y. f s p i acc = Some y \<Longrightarrow> p \<noteq> []"
    and step: "(case LastIndex s p of None \<Rightarrow> Some acc
        | Some j \<Rightarrow> f (take j s) p i (acc @ [substr_entry j i])) = Some y"
  show "p \<noteq> []"
  proof
    assume "p = []"
    then have "f (take (length s) s) p i (acc @ [substr_entry (length s) i]) = Some y"
      using step by (simp add: LastIndex_Nil)
    then show False using IH \<open>p = []\<close> by blast
  qed
qed

lemma substr_occurrences_empty_diverges: "substr_occurrences s [] i acc = None"
  using substr_occurrences_nonempty [of s "[]" i acc] by (cases "substr_occurrences s [] i acc") auto

lemma substr_entries_spec:
  "list_all (\<lambda>p. p \<noteq> []) ps \<Longrightarrow> \<exists>es. substr_entries s ps i acc = Some (acc @ es) \<and>
     (\<forall>e \<in> set es. \<exists>j k. e = substr_entry j (i + k) \<and> k < length ps \<and> Contains s (ps ! k)) \<and>
     (\<forall>k < length ps. Contains s (ps ! k) \<longrightarrow> (\<exists>j. substr_entry j (i + k) \<in> set es))"
proof (induction ps arbitrary: i acc)
  case (Cons p ps)
  then have p: "p \<noteq> []" and ps: "list_all (\<lambda>p. p \<noteq> []) ps" by auto
  obtain fs where fs: "substr_occurrences s p i acc = Some (acc @ fs)"
      "set fs \<subseteq> {substr_entry j i | j. True}" "fs \<noteq> [] \<longleftrightarrow> Contains s p"
    using substr_occurrences_returns [OF p] by blast
  obtain es where es: "substr_entries s ps (Suc i) (acc @ fs) = Some ((acc @ fs) @ es)"
      "\<forall>e \<in> set es. \<exists>j k. e = substr_entry j (Suc i + k) \<and> k < length ps \<and> Contains s (ps ! k)"
      "\<forall>k < length ps. Contains s (ps ! k) \<longrightarrow> (\<exists>j. substr_entry j (Suc i + k) \<in> set es)"
    using Cons.IH [OF ps] by blast
  have "\<exists>j k. e = substr_entry j (i + k) \<and> k < length (p # ps) \<and> Contains s ((p # ps) ! k)"
    if e: "e \<in> set (fs @ es)" for e
  proof (cases "e \<in> set fs")
    case True
    then obtain j where "e = substr_entry j i" using fs(2) by blast
    moreover have "Contains s p" using True fs(3) by auto
    ultimately show ?thesis by (intro exI [of _ j] exI [of _ 0]) simp
  next
    case False
    then obtain j k where "e = substr_entry j (Suc i + k)" "k < length ps" "Contains s (ps ! k)"
      using e es(2) by auto
    then show ?thesis by (intro exI [of _ j] exI [of _ "Suc k"]) simp
  qed
  moreover have "\<exists>j. substr_entry j (i + k) \<in> set (fs @ es)"
    if k: "k < length (p # ps)" "Contains s ((p # ps) ! k)" for k
  proof (cases k)
    case 0
    then obtain f where "f \<in> set fs" using k fs(3) by (cases fs) auto
    then show ?thesis using fs(2) 0 by auto
  next
    case (Suc n)
    then show ?thesis using k es(3) by auto
  qed
  ultimately show ?case
    using fs(1) es(1) by (intro exI [of _ "fs @ es"]) simp
qed simp

text \<open>
  Every occurrence of an empty pattern is found again and again: \<open>Match\<close> returns exactly when no
  pattern of the group is empty.
\<close>

lemma substr_entries_empty: "[] \<in> set ps \<Longrightarrow> substr_entries s ps i acc = None"
proof (induction ps arbitrary: i acc)
  case (Cons p ps)
  then show ?case
    by (cases "p = []") (auto simp: substr_occurrences_empty_diverges split: bind_splits)
qed simp

definition substr_rep :: "SubstrMatcherGroup \<Rightarrow> (gostring \<times> u32) list \<Rightarrow> bool" where
  "substr_rep g ms = (sub_patterns g = map fst ms \<and> sub_values g = map snd ms)"

definition substr_fits :: "(gostring \<times> u32) list \<Rightarrow> bool" where
  "substr_fits ms = (length ms \<le> 65536 \<and> list_all (\<lambda>(p, v). p \<noteq> []) ms)"

lemma substr_Match_spec:
  assumes rep: "substr_rep g ms" and fits: "substr_fits ms"
  shows "\<exists>r. SubstrMatcherGroup_Match g s = Some r \<and>
    set r = {v. \<exists>m. (m, v) \<in> set ms \<and> SubstrMatcher_Match m s}"
proof -
  let ?ps = "map fst ms"
  have ne: "list_all (\<lambda>p. p \<noteq> []) ?ps" and len: "length ms \<le> 65536"
    using fits by (auto simp: substr_fits_def list_all_iff)
  obtain es where es: "substr_entries s ?ps 0 [] = Some es"
      "\<forall>e \<in> set es. \<exists>j k. e = substr_entry j k \<and> k < length ms \<and> Contains s (?ps ! k)"
      "\<forall>k < length ms. Contains s (?ps ! k) \<longrightarrow> (\<exists>j. substr_entry j k \<in> set es)"
    using substr_entries_spec [OF ne, of s 0 "[]"] by auto
  let ?val = "\<lambda>entry. map snd ms ! unat (entry AND 0xffff)"
  have val: "?val (substr_entry j k) = snd (ms ! k)" if "k < length ms" for j k
    using that len by (simp add: substr_entry_index)
  have "set (map ?val (substr_sort es)) = {v. \<exists>m. (m, v) \<in> set ms \<and> SubstrMatcher_Match m s}"
    (is "?L = ?R")
  proof
    show "?L \<subseteq> ?R"
    proof
      fix v assume "v \<in> ?L"
      then obtain e where e: "e \<in> set es" "v = ?val e" by (auto simp: substr_sort_sort)
      then obtain j k where k: "e = substr_entry j k" "k < length ms" "Contains s (?ps ! k)"
        using es(2) by blast
      then have "(fst (ms ! k), v) \<in> set ms" using val [of k j] e by simp
      then show "v \<in> ?R" using k by (auto simp: SubstrMatcher_Match_def)
    qed
    show "?R \<subseteq> ?L"
    proof
      fix v assume "v \<in> ?R"
      then obtain k where k: "k < length ms" "snd (ms ! k) = v" "Contains s (?ps ! k)"
        by (auto simp: SubstrMatcher_Match_def in_set_conv_nth)
      then obtain j where "substr_entry j k \<in> set es" using es(3) by blast
      then show "v \<in> ?L" using val [of k j] k by (force simp: substr_sort_sort)
    qed
  qed
  then show ?thesis
    using rep es(1) by (simp add: SubstrMatcherGroup_Match_def substr_rep_def)
qed

interpretation substr_group: matcher_group NewSubstrMatcherGroup SubstrMatcherGroup_Add
  SubstrMatcherGroup_Match SubstrMatcherGroup_MatchAny substr_rep substr_fits SubstrMatcher_Match
proof
  show "substr_rep NewSubstrMatcherGroup []"
    by (simp add: NewSubstrMatcherGroup_def substr_rep_def)
  fix g ms m v s
  assume rep: "substr_rep g ms"
  then show "substr_rep (SubstrMatcherGroup_Add m v g) (ms @ [(m, v)])"
    by (simp add: SubstrMatcherGroup_Add_def substr_rep_def)
  show "SubstrMatcherGroup_MatchAny g s \<longleftrightarrow> (\<exists>(m, v) \<in> set ms. SubstrMatcher_Match m s)"
    using rep by (force simp: SubstrMatcherGroup_MatchAny_def substr_rep_def SubstrMatcher_Match_def)
qed (rule substr_Match_spec)

text \<open>
  C28. The substring group returns an answer exactly when none of its patterns is empty: with a
  pattern of length zero (a rule \<^verbatim>\<open>keyword:\<close> with nothing after the colon) the inner loop of
  \<^verbatim>\<open>SubstrMatcherGroup.Match\<close> never ends, on any input.
\<close>

theorem substr_match_returns_iff:
  "(\<exists>r. SubstrMatcherGroup_Match g input = Some r) \<longleftrightarrow> [] \<notin> set (sub_patterns g)"
proof (cases "[] \<in> set (sub_patterns g)")
  case True
  then show ?thesis by (simp add: SubstrMatcherGroup_Match_def substr_entries_empty)
next
  case False
  then have "list_all (\<lambda>p. p \<noteq> []) (sub_patterns g)" by (auto simp: list_all_iff)
  then obtain es where "substr_entries input (sub_patterns g) 0 [] = Some ([] @ es)"
    using substr_entries_spec by blast
  then show ?thesis using False by (simp add: SubstrMatcherGroup_Match_def)
qed

section \<open>Sets\<close>

record FullMatcherSet =
  fms_matchers :: "gostring set"

definition NewFullMatcherSet :: FullMatcherSet where
  "NewFullMatcherSet = \<lparr>fms_matchers = {}\<rparr>"

definition FullMatcherSet_Add :: "gostring \<Rightarrow> FullMatcherSet \<Rightarrow> FullMatcherSet" where
  "FullMatcherSet_Add m s = s\<lparr>fms_matchers := insert m (fms_matchers s)\<rparr>"

definition FullMatcherSet_MatchAny :: "FullMatcherSet \<Rightarrow> gostring \<Rightarrow> bool" where
  "FullMatcherSet_MatchAny s input = (input \<in> fms_matchers s)"

record SimpleMatcherSet =
  sms_matchers :: "matcher list"

definition NewSimpleMatcherSet :: SimpleMatcherSet where
  "NewSimpleMatcherSet = \<lparr>sms_matchers = []\<rparr>"

definition SimpleMatcherSet_Add :: "matcher \<Rightarrow> SimpleMatcherSet \<Rightarrow> SimpleMatcherSet" where
  "SimpleMatcherSet_Add m s = s\<lparr>sms_matchers := sms_matchers s @ [m]\<rparr>"

definition SimpleMatcherSet_MatchAny :: "SimpleMatcherSet \<Rightarrow> gostring \<Rightarrow> bool" where
  "SimpleMatcherSet_MatchAny s input = any_match_loop (\<lambda>m. Matcher_Match m input) (sms_matchers s)"

record SubstrMatcherSet =
  subs_patterns :: "gostring list"

definition NewSubstrMatcherSet :: SubstrMatcherSet where
  "NewSubstrMatcherSet = \<lparr>subs_patterns = []\<rparr>"

definition SubstrMatcherSet_Add :: "gostring \<Rightarrow> SubstrMatcherSet \<Rightarrow> SubstrMatcherSet" where
  "SubstrMatcherSet_Add m s = s\<lparr>subs_patterns := subs_patterns s @ [m]\<rparr>"

definition SubstrMatcherSet_MatchAny :: "SubstrMatcherSet \<Rightarrow> gostring \<Rightarrow> bool" where
  "SubstrMatcherSet_MatchAny s input =
     any_match_loop (\<lambda>pattern. Contains input pattern) (subs_patterns s)"

interpretation full_set: matcher_set NewFullMatcherSet FullMatcherSet_Add FullMatcherSet_MatchAny
  "\<lambda>g ms. fms_matchers g = set ms" "\<lambda>_. True" FullMatcher_Match
  by unfold_locales
    (auto simp: NewFullMatcherSet_def FullMatcherSet_Add_def FullMatcherSet_MatchAny_def
      FullMatcher_Match_def)

interpretation simple_set: matcher_set NewSimpleMatcherSet SimpleMatcherSet_Add
  SimpleMatcherSet_MatchAny "\<lambda>g ms. sms_matchers g = ms" "\<lambda>_. True" Matcher_Match
  by unfold_locales
    (auto simp: NewSimpleMatcherSet_def SimpleMatcherSet_Add_def SimpleMatcherSet_MatchAny_def)

interpretation substr_set: matcher_set NewSubstrMatcherSet SubstrMatcherSet_Add
  SubstrMatcherSet_MatchAny "\<lambda>g ms. subs_patterns g = ms" "\<lambda>_. True" SubstrMatcher_Match
  by unfold_locales
    (auto simp: NewSubstrMatcherSet_def SubstrMatcherSet_Add_def SubstrMatcherSet_MatchAny_def
      SubstrMatcher_Match_def)

end
