(* ===== verification/Domain_Trie.thy ===== *)
theory Domain_Trie
  imports Str_Match
begin

text \<open>
  The trie over domain labels of \<^verbatim>\<open>matchergroup_domain.go\<close> and \<^verbatim>\<open>matcherset_domain.go\<close>. A domain is
  read from its last label to its first; the group keeps a list of values in each node and the
  set a flag. The two files differ only in that payload, so the loops are written once, over a
  node type with a payload. A \<^verbatim>\<open>nil\<close> map of children is \<open>None\<close>.

  The trie agrees with \<^verbatim>\<open>DomainMatcher.Match\<close> on every pattern that is not empty and does not
  begin with a dot.
\<close>

section \<open>Labels\<close>

text \<open>
  The inner loop shared by all operations: from position \<open>j\<close> downwards it looks for a dot and
  returns the label between the dot and \<open>i\<close>, with the position of the dot; without a dot it
  returns the whole rest and the position \<open>0\<close>. All indices are below \<open>i\<close>, hence in range.
\<close>

fun label_scan :: "gostring \<Rightarrow> nat \<Rightarrow> nat \<Rightarrow> gostring \<times> nat" where
  "label_scan s i 0 = (if s ! 0 = dot then (take (i - 1) (drop 1 s), 0) else (take i s, 0))"
| "label_scan s i (Suc j) =
     (if s ! Suc j = dot then (take (i - Suc (Suc j)) (drop (Suc (Suc j)) s), Suc j)
      else label_scan s i j)"

lemma label_scan_le: "snd (label_scan s i j) \<le> j"
  by (induction s i j rule: label_scan.induct) auto

lemma label_scan_less: "0 < i \<Longrightarrow> label_scan s i (i - 1) = (part, i') \<Longrightarrow> i' < i"
  using label_scan_le [of s i "i - 1"] by simp

section \<open>The trie\<close>

datatype 'v trieNode =
  TrieNode (tn_values: 'v) (tn_children: "(gostring \<rightharpoonup> 'v trieNode) option")

definition node_child :: "'v trieNode \<Rightarrow> gostring \<Rightarrow> 'v trieNode option" where
  "node_child node part = (case tn_children node of None \<Rightarrow> None | Some m \<Rightarrow> m part)"

text \<open>\<open>AddDomainMatcher\<close>: \<open>z\<close> is the payload of \<^verbatim>\<open>new(trieNode)\<close>, \<open>f\<close> the final assignment.\<close>

function trie_add :: "'v \<Rightarrow> ('v \<Rightarrow> 'v) \<Rightarrow> gostring \<Rightarrow> nat \<Rightarrow> 'v trieNode \<Rightarrow> 'v trieNode" where
  "trie_add z f pattern i node =
     (if i = 0 then TrieNode (f (tn_values node)) (tn_children node)
      else
        let (part, i') = label_scan pattern i (i - 1);
            children = (case tn_children node of None \<Rightarrow> Map.empty | Some m \<Rightarrow> m);
            nxt = (case children part of None \<Rightarrow> TrieNode z None | Some n \<Rightarrow> n)
        in TrieNode (tn_values node) (Some (children(part \<mapsto> trie_add z f pattern i' nxt))))"
  by pat_completeness auto
termination
  by (relation "measure (\<lambda>(z, f, pattern, i, node). i)")
    (auto dest: label_scan_less [OF _ sym])

declare trie_add.simps [simp del]

function trie_any :: "('v \<Rightarrow> bool) \<Rightarrow> gostring \<Rightarrow> nat \<Rightarrow> 'v trieNode \<Rightarrow> bool" where
  "trie_any ok input i node =
     (if i = 0 then False
      else
        let (part, i') = label_scan input i (i - 1) in
        case node_child node part of
          None \<Rightarrow> False
        | Some n \<Rightarrow>
            if ok (tn_values n) then True
            else if tn_children n = None then False
            else trie_any ok input i' n)"
  by pat_completeness auto
termination
  by (relation "measure (\<lambda>(ok, input, i, node). i)")
    (auto dest: label_scan_less [OF _ sym])

declare trie_any.simps [simp del]

function trie_match :: "gostring \<Rightarrow> nat \<Rightarrow> 'v list trieNode \<Rightarrow> 'v list list \<Rightarrow> 'v list list" where
  "trie_match input i node matches =
     (if i = 0 then matches
      else
        let (part, i') = label_scan input i (i - 1) in
        case node_child node part of
          None \<Rightarrow> matches
        | Some n \<Rightarrow>
            let matches' = (if length (tn_values n) > 0 then matches @ [tn_values n] else matches) in
            if tn_children n = None then matches'
            else trie_match input i' n matches')"
  by pat_completeness auto
termination
  by (relation "measure (\<lambda>(input, i, node, matches). i)")
    (auto dest: label_scan_less [OF _ sym])

declare trie_match.simps [simp del]

record DomainMatcherGroup =
  dmg_root :: "u32 list trieNode"

definition NewDomainMatcherGroup :: DomainMatcherGroup where
  "NewDomainMatcherGroup = \<lparr>dmg_root = TrieNode [] None\<rparr>"

definition DomainMatcherGroup_Add :: "gostring \<Rightarrow> u32 \<Rightarrow> DomainMatcherGroup \<Rightarrow> DomainMatcherGroup" where
  "DomainMatcherGroup_Add m value g =
     g\<lparr>dmg_root := trie_add [] (\<lambda>values. values @ [value]) m (length m) (dmg_root g)\<rparr>"

definition DomainMatcherGroup_Match :: "DomainMatcherGroup \<Rightarrow> gostring \<Rightarrow> u32 list" where
  "DomainMatcherGroup_Match g input =
     CompositeMatchesReverse (trie_match input (length input) (dmg_root g) [])"

definition DomainMatcherGroup_MatchAny :: "DomainMatcherGroup \<Rightarrow> gostring \<Rightarrow> bool" where
  "DomainMatcherGroup_MatchAny g input =
     trie_any (\<lambda>values. length values > 0) input (length input) (dmg_root g)"

record DomainMatcherSet =
  dms_root :: "bool trieNode"

definition NewDomainMatcherSet :: DomainMatcherSet where
  "NewDomainMatcherSet = \<lparr>dms_root = TrieNode False None\<rparr>"

definition DomainMatcherSet_Add :: "gostring \<Rightarrow> DomainMatcherSet \<Rightarrow> DomainMatcherSet" where
  "DomainMatcherSet_Add m g = g\<lparr>dms_root := trie_add False (\<lambda>_. True) m (length m) (dms_root g)\<rparr>"

definition DomainMatcherSet_MatchAny :: "DomainMatcherSet \<Rightarrow> gostring \<Rightarrow> bool" where
  "DomainMatcherSet_MatchAny g input =
     trie_any (\<lambda>matched. matched) input (length input) (dms_root g)"

section \<open>The labels of a domain, from the last to the first\<close>

function labels_upto :: "gostring \<Rightarrow> nat \<Rightarrow> gostring list" where
  "labels_upto s i =
     (if i = 0 then []
      else let (part, i') = label_scan s i (i - 1) in part # labels_upto s i')"
  by pat_completeness auto
termination
  by (relation "measure (\<lambda>(s, i). i)") (auto dest: label_scan_less [OF _ sym])

declare labels_upto.simps [simp del]

definition labels :: "gostring \<Rightarrow> gostring list" where
  "labels s = labels_upto s (length s)"

lemma label_scan_no_dot:
  "\<forall>k \<le> j. s ! k \<noteq> dot \<Longrightarrow> label_scan s i j = (take i s, 0)"
  by (induction s i j rule: label_scan.induct) auto

lemma label_scan_dot:
  assumes "s ! k = dot" "k \<le> j" "\<forall>n. k < n \<and> n \<le> j \<longrightarrow> s ! n \<noteq> dot"
  shows "label_scan s i j = (take (i - Suc k) (drop (Suc k) s), k)"
  using assms
proof (induction s i j rule: label_scan.induct)
  case (2 s i j)
  show ?case
  proof (cases "k = Suc j")
    case False
    then show ?thesis using 2 by auto
  qed (use 2 in simp)
qed simp

text \<open>The labels below \<open>i\<close> depend on the first \<open>i\<close> bytes only.\<close>

lemma label_scan_take:
  "j < i \<Longrightarrow> i \<le> n \<Longrightarrow> label_scan (take n s) i j = label_scan s i j"
  by (induction s i j rule: label_scan.induct) (auto simp: take_drop)

lemma labels_upto_take: "i \<le> n \<Longrightarrow> labels_upto (take n s) i = labels_upto s i"
proof (induction i rule: less_induct)
  case (less i)
  show ?case
  proof (cases "i = 0")
    case False
    obtain part i' where sc: "label_scan s i (i - 1) = (part, i')" by force
    then have "label_scan (take n s) i (i - 1) = (part, i')"
      using less.prems False by (simp add: label_scan_take)
    moreover have "i' < i" using sc False by (auto dest: label_scan_less)
    ultimately show ?thesis
      using sc less.IH [of i'] less.prems False
      by (subst (1 2) labels_upto.simps) simp
  qed (simp add: labels_upto.simps)
qed

lemma labels_Nil [simp]: "labels [] = []"
  by (simp add: labels_def labels_upto.simps)

lemma labels_single: "dot \<notin> set l \<Longrightarrow> l \<noteq> [] \<Longrightarrow> labels l = [l]"
proof -
  assume l: "dot \<notin> set l" "l \<noteq> []"
  have "\<forall>k \<le> length l - 1. l ! k \<noteq> dot"
    using l by (metis Suc_pred' in_set_conv_nth le_imp_less_Suc length_greater_0_conv)
  then have sc: "label_scan l (length l) (length l - 1) = (l, 0)"
    using label_scan_no_dot [of "length l - 1" l "length l"] by simp
  have z: "labels_upto l 0 = []" by (simp add: labels_upto.simps)
  show ?thesis
    unfolding labels_def using l sc z by (subst labels_upto.simps) (simp del: One_nat_def)
qed

lemma labels_snoc: "dot \<notin> set l \<Longrightarrow> labels (a @ dot # l) = l # labels a"
proof -
  assume l: "dot \<notin> set l"
  let ?s = "a @ dot # l"
  have "label_scan ?s (length ?s) (length ?s - 1)
      = (take (length ?s - Suc (length a)) (drop (Suc (length a)) ?s), length a)"
  proof (rule label_scan_dot)
    show "\<forall>n. length a < n \<and> n \<le> length ?s - 1 \<longrightarrow> ?s ! n \<noteq> dot"
      using l by (auto simp: nth_append nth_Cons' in_set_conv_nth)
  qed auto
  then have sc: "label_scan ?s (length ?s) (length ?s - 1) = (l, length a)" by simp
  have "labels_upto ?s (length a) = labels_upto a (length a)"
    using labels_upto_take [of "length a" "length a" ?s] by simp
  then show ?thesis
    unfolding labels_def using sc by (subst labels_upto.simps) (simp del: One_nat_def)
qed

lemma last_dot:
  obtains "dot \<notin> set s" | a l where "s = a @ dot # l" "dot \<notin> set l"
proof (cases "dot \<in> set s")
  case True
  then obtain a l where "s = a @ dot # l" "dot \<notin> set l"
    by (meson split_list_last)
  then show ?thesis using that by blast
qed (use that in blast)

lemma labels_induct [case_names empty single snoc]:
  assumes "P []"
    and "\<And>l. dot \<notin> set l \<Longrightarrow> l \<noteq> [] \<Longrightarrow> P l"
    and "\<And>a l. dot \<notin> set l \<Longrightarrow> P a \<Longrightarrow> P (a @ dot # l)"
  shows "P s"
proof (induction "length s" arbitrary: s rule: less_induct)
  case less
  show ?case
  proof (cases rule: last_dot [of s])
    case 1
    then show ?thesis using assms(1,2) by (cases "s = []") auto
  next
    case (2 a l)
    then show ?thesis using assms(3) less by auto
  qed
qed

lemma labels_Nil_iff: "labels s = [] \<longleftrightarrow> s = []"
  by (induction s rule: labels_induct) (auto simp: labels_single labels_snoc)

section \<open>Matching by labels\<close>

definition domain_pattern :: "gostring \<Rightarrow> bool" where
  "domain_pattern p = (p \<noteq> [] \<and> hd p \<noteq> dot)"

lemma append_dot_unique:
  "dot \<notin> set l \<Longrightarrow> dot \<notin> set l' \<Longrightarrow> a @ dot # l = a' @ dot # l' \<longleftrightarrow> a = a' \<and> l = l'"
proof
  assume n: "dot \<notin> set l" "dot \<notin> set l'" and eq: "a @ dot # l = a' @ dot # l'"
  have "takeWhile (\<lambda>c. c \<noteq> dot) (rev (a @ dot # l)) = rev l"
    "takeWhile (\<lambda>c. c \<noteq> dot) (rev (a' @ dot # l')) = rev l'"
    using n by (auto simp: takeWhile_append)
  then have "l = l'" using eq by simp
  then show "a = a' \<and> l = l'" using eq by simp
qed simp

text \<open>
  A pattern matches a domain exactly when the labels of the pattern are the last labels of the
  domain.
\<close>

lemma prefix_labels_iff:
  "domain_pattern p \<Longrightarrow> prefix (labels p) (labels s) \<longleftrightarrow> DomainMatcher_Match p s"
proof (induction p arbitrary: s rule: labels_induct)
  case empty
  then show ?case by (simp add: domain_pattern_def)
next
  case (single p)
  have p: "labels p = [p]" using single by (simp add: labels_single)
  show ?case
  proof (cases rule: last_dot [of s])
    case 1
    then have "DomainMatcher_Match p s \<longleftrightarrow> s = p" by (auto simp: DomainMatcher_Match_iff)
    then show ?thesis
      using 1 p single(2) by (cases "s = []") (auto simp: labels_single)
  next
    case (2 a l)
    then have "DomainMatcher_Match p s \<longleftrightarrow> l = p"
      using single(1) by (auto simp: DomainMatcher_Match_iff append_dot_unique)
    then show ?thesis using 2 p by (auto simp: labels_snoc)
  qed
next
  case (snoc b l)
  have b: "domain_pattern b"
    using snoc.prems by (cases b) (auto simp: domain_pattern_def)
  have p: "labels (b @ dot # l) = l # labels b" using snoc by (simp add: labels_snoc)
  show ?case
  proof (cases rule: last_dot [of s])
    case 1
    then have "\<not> DomainMatcher_Match (b @ dot # l) s" by (auto simp: DomainMatcher_Match_iff)
    moreover have "\<not> prefix (labels (b @ dot # l)) (labels s)"
      using 1 p b by (cases "s = []") (auto simp: labels_single labels_Nil_iff domain_pattern_def)
    ultimately show ?thesis by simp
  next
    case (2 a l')
    have "DomainMatcher_Match (b @ dot # l) s \<longleftrightarrow> l = l' \<and> DomainMatcher_Match b a"
      using append_dot_unique [OF 2(2) snoc(1), of a b] append_dot_unique [OF 2(2) snoc(1), of a]
      by (auto simp: DomainMatcher_Match_iff 2(1) simp flip: append_Cons append_assoc)
    then show ?thesis using p 2 snoc.IH [OF b, of a] by (auto simp: labels_snoc)
  qed
qed

section \<open>The trie as a function from label lists to payloads\<close>

fun trie_val :: "'v \<Rightarrow> 'v trieNode \<Rightarrow> gostring list \<Rightarrow> 'v" where
  "trie_val z node [] = tn_values node"
| "trie_val z node (l # ls) = (case node_child node l of None \<Rightarrow> z | Some n \<Rightarrow> trie_val z n ls)"

lemma trie_val_leaf: "tn_children n = None \<Longrightarrow> ls \<noteq> [] \<Longrightarrow> trie_val z n ls = z"
  by (cases ls) (auto simp: node_child_def)

lemma trie_val_fresh: "trie_val z (TrieNode z None) ls = z"
  by (cases ls) (auto simp: node_child_def)

lemma trie_val_add:
  "trie_val z (trie_add z f p i node) ls =
     (if ls = labels_upto p i then f (trie_val z node ls) else trie_val z node ls)"
proof (induction i arbitrary: node ls rule: less_induct)
  case (less i)
  show ?case
  proof (cases "i = 0")
    case True
    then show ?thesis
      by (subst trie_add.simps, subst labels_upto.simps) (cases ls; simp add: node_child_def)
  next
    case False
    obtain part i' where sc: "label_scan p i (i - 1) = (part, i')" by force
    then have "i' < i" using False by (auto dest: label_scan_less)
    note IH = less.IH [OF this]
    let ?nxt = "case node_child node part of None \<Rightarrow> TrieNode z None | Some n \<Rightarrow> n"
    have child: "node_child (trie_add z f p i node) l =
        (if l = part then Some (trie_add z f p i' ?nxt) else node_child node l)" for l
      using False sc
      by (subst trie_add.simps) (simp add: node_child_def split: option.split)
    have vals: "tn_values (trie_add z f p i node) = tn_values node"
      using False sc by (subst trie_add.simps) (simp add: Let_def)
    have nxt: "trie_val z ?nxt ls' = trie_val z node (part # ls')" for ls'
      by (simp add: trie_val_fresh split: option.split)
    have L: "labels_upto p i = part # labels_upto p i'"
      using False sc by (subst labels_upto.simps) simp
    show ?thesis
    proof (cases ls)
      case Nil
      then show ?thesis by (simp add: vals L)
    next
      case (Cons l ls')
      then show ?thesis using IH [of ?nxt ls'] by (auto simp: child L nxt)
    qed
  qed
qed

lemma upt_Suc_map: "map f [1 ..< Suc (Suc n)] = f 1 # map (\<lambda>k. f (Suc k)) [1 ..< Suc n]"
  by (simp add: map_Suc_upt [symmetric] upt_conv_Cons del: upt_Suc map_Suc_upt)

text \<open>The payloads met on the way down, from the last label on.\<close>

definition payloads :: "'v \<Rightarrow> 'v trieNode \<Rightarrow> gostring list \<Rightarrow> 'v list" where
  "payloads z node ls = map (\<lambda>k. trie_val z node (take k ls)) [1 ..< Suc (length ls)]"

lemma payloads_Nil [simp]: "payloads z node [] = []"
  by (simp add: payloads_def)

lemma payloads_Cons:
  "payloads z node (l # ls) =
     (case node_child node l of
        None \<Rightarrow> replicate (Suc (length ls)) z
      | Some n \<Rightarrow> tn_values n # payloads z n ls)"
proof -
  have "payloads z node (l # ls) = trie_val z node [l] #
      map (\<lambda>k. trie_val z node (l # take k ls)) [1 ..< Suc (length ls)]"
    unfolding payloads_def length_Cons upt_Suc_map by simp
  then show ?thesis
    by (simp add: payloads_def map_replicate_const del: upt_Suc split: option.split)
qed

lemma payloads_leaf: "tn_children n = None \<Longrightarrow> payloads z n ls = replicate (length ls) z"
  by (cases ls) (auto simp: payloads_Cons node_child_def)

lemma trie_any_payloads:
  assumes z: "\<not> ok z"
  shows "trie_any ok s i node \<longleftrightarrow> (\<exists>v \<in> set (payloads z node (labels_upto s i)). ok v)"
proof (induction i arbitrary: node rule: less_induct)
  case (less i)
  show ?case
  proof (cases "i = 0")
    case True
    then show ?thesis by (subst trie_any.simps, subst labels_upto.simps) simp
  next
    case False
    obtain part i' where sc: "label_scan s i (i - 1) = (part, i')" by force
    then have "i' < i" using False by (auto dest: label_scan_less)
    note IH = less.IH [OF this]
    have L: "labels_upto s i = part # labels_upto s i'"
      using False sc by (subst labels_upto.simps) simp
    show ?thesis
      using False sc z IH
      by (subst trie_any.simps) (auto simp: L payloads_Cons payloads_leaf split: option.split)
  qed
qed

lemma trie_match_payloads:
  "trie_match s i node acc =
     acc @ filter (\<lambda>vs. vs \<noteq> []) (payloads [] node (labels_upto s i))"
proof (induction i arbitrary: node acc rule: less_induct)
  case (less i)
  show ?case
  proof (cases "i = 0")
    case True
    then show ?thesis by (subst trie_match.simps, subst labels_upto.simps) simp
  next
    case False
    obtain part i' where sc: "label_scan s i (i - 1) = (part, i')" by force
    then have "i' < i" using False by (auto dest: label_scan_less)
    note IH = less.IH [OF this]
    have L: "labels_upto s i = part # labels_upto s i'"
      using False sc by (subst labels_upto.simps) simp
    show ?thesis
      using False sc IH
      by (subst trie_match.simps) (auto simp: L payloads_Cons payloads_leaf split: option.split)
  qed
qed

section \<open>The group and the set\<close>

lemma payloads_added:
  "payloads [] (trie_add [] (\<lambda>values. values @ [v]) p (length p) node) ls =
     map (\<lambda>k. trie_val [] node (take k ls) @ (if take k ls = labels p then [v] else []))
       [1 ..< Suc (length ls)]"
  by (simp add: payloads_def trie_val_add labels_def del: upt_Suc)

definition domain_rep :: "DomainMatcherGroup \<Rightarrow> (gostring \<times> u32) list \<Rightarrow> bool" where
  "domain_rep g ms = (\<forall>ls. trie_val [] (dmg_root g) ls = values_of (\<lambda>p. labels p = ls) ms)"

definition domain_fits :: "(gostring \<times> u32) list \<Rightarrow> bool" where
  "domain_fits ms = list_all (\<lambda>(p, v). domain_pattern p) ms"

lemma prefix_take_iff:
  "ls \<noteq> [] \<Longrightarrow> prefix ls L \<longleftrightarrow> (\<exists>k \<in> set [1 ..< Suc (length L)]. ls = take k L)"
proof
  assume "ls \<noteq> []" "prefix ls L"
  then have "ls = take (length ls) L" "1 \<le> length ls" "length ls \<le> length L"
    by (auto simp: prefix_def Suc_le_eq)
  then show "\<exists>k \<in> set [1 ..< Suc (length L)]. ls = take k L"
    by (intro bexI [of _ "length ls"]) auto
qed (auto simp: take_is_prefix)

lemma domain_Match_payloads:
  assumes "domain_rep g ms"
  shows "DomainMatcherGroup_Match g s =
    concat (rev (map (\<lambda>k. values_of (\<lambda>p. labels p = take k (labels s)) ms)
      [1 ..< Suc (length (labels s))]))"
proof -
  have "concat (rev (filter (\<lambda>vs. vs \<noteq> []) xss)) = concat (rev xss)" for xss :: "u32 list list"
    by (induction xss) auto
  then show ?thesis
    using assms
    by (simp add: DomainMatcherGroup_Match_def CompositeMatchesReverse_concat trie_match_payloads
        payloads_def domain_rep_def labels_def del: upt_Suc)
qed

lemma domain_values_iff:
  assumes "domain_fits ms"
  shows "(\<exists>k \<in> set [1 ..< Suc (length (labels s))].
      v \<in> set (values_of (\<lambda>p. labels p = take k (labels s)) ms)) \<longleftrightarrow>
    (\<exists>p. (p, v) \<in> set ms \<and> DomainMatcher_Match p s)"
proof -
  have "domain_pattern p" if "(p, v) \<in> set ms" for p v
    using assms that by (auto simp: domain_fits_def list_all_iff)
  then have "(\<exists>k \<in> set [1 ..< Suc (length (labels s))]. labels p = take k (labels s)) \<longleftrightarrow>
      DomainMatcher_Match p s" if "(p, v) \<in> set ms" for p v
    using that prefix_labels_iff [of p s] prefix_take_iff [of "labels p" "labels s"]
    by (metis domain_pattern_def labels_Nil_iff)
  then show ?thesis by (auto simp: set_values_of simp del: upt_Suc) blast
qed

interpretation domain_group: matcher_group NewDomainMatcherGroup DomainMatcherGroup_Add
  "\<lambda>g s. Some (DomainMatcherGroup_Match g s)" DomainMatcherGroup_MatchAny domain_rep
  domain_fits DomainMatcher_Match
proof
  show "domain_rep NewDomainMatcherGroup []"
    by (simp add: domain_rep_def NewDomainMatcherGroup_def trie_val_fresh)
  fix g ms m v s
  assume rep: "domain_rep g ms"
  then show "domain_rep (DomainMatcherGroup_Add m v g) (ms @ [(m, v)])"
    by (auto simp: domain_rep_def DomainMatcherGroup_Add_def trie_val_add labels_def)
  assume fits: "domain_fits ms"
  show "\<exists>r. Some (DomainMatcherGroup_Match g s) = Some r \<and>
      set r = {v. \<exists>m. (m, v) \<in> set ms \<and> DomainMatcher_Match m s}"
    using domain_values_iff [OF fits, of s]
    by (auto simp: domain_Match_payloads [OF rep] simp del: upt_Suc)
  show "DomainMatcherGroup_MatchAny g s \<longleftrightarrow> (\<exists>(m, v) \<in> set ms. DomainMatcher_Match m s)"
  proof -
    have "DomainMatcherGroup_MatchAny g s \<longleftrightarrow> (\<exists>k \<in> set [1 ..< Suc (length (labels s))].
        values_of (\<lambda>p. labels p = take k (labels s)) ms \<noteq> [])"
      using rep unfolding DomainMatcherGroup_MatchAny_def
      by (subst trie_any_payloads [where z = "[]"])
        (simp_all add: payloads_def domain_rep_def labels_def del: upt_Suc)
    also have "\<dots> \<longleftrightarrow> (\<exists>v. \<exists>k \<in> set [1 ..< Suc (length (labels s))].
        v \<in> set (values_of (\<lambda>p. labels p = take k (labels s)) ms))"
      unfolding set_empty [symmetric] ex_in_conv [symmetric] by blast
    finally have "DomainMatcherGroup_MatchAny g s \<longleftrightarrow> (\<exists>v. \<exists>k \<in> set [1 ..< Suc (length (labels s))].
        v \<in> set (values_of (\<lambda>p. labels p = take k (labels s)) ms))" .
    then show ?thesis unfolding domain_values_iff [OF fits] by blast
  qed
qed

definition domain_set_rep :: "DomainMatcherSet \<Rightarrow> gostring list \<Rightarrow> bool" where
  "domain_set_rep g ps = (\<forall>ls. trie_val False (dms_root g) ls = (\<exists>p \<in> set ps. labels p = ls))"

interpretation domain_set: matcher_set NewDomainMatcherSet DomainMatcherSet_Add
  DomainMatcherSet_MatchAny domain_set_rep "list_all domain_pattern" DomainMatcher_Match
proof
  show "domain_set_rep NewDomainMatcherSet []"
    by (simp add: domain_set_rep_def NewDomainMatcherSet_def trie_val_fresh)
  fix g ps p s
  assume rep: "domain_set_rep g ps"
  then show "domain_set_rep (DomainMatcherSet_Add p g) (ps @ [p])"
    by (auto simp: domain_set_rep_def DomainMatcherSet_Add_def trie_val_add labels_def)
  assume fits: "list_all domain_pattern ps"
  have "DomainMatcherSet_MatchAny g s \<longleftrightarrow>
      (\<exists>k \<in> set [1 ..< Suc (length (labels s))]. \<exists>p \<in> set ps. labels p = take k (labels s))"
    using rep unfolding DomainMatcherSet_MatchAny_def
    by (subst trie_any_payloads [where z = False])
      (simp_all add: payloads_def domain_set_rep_def labels_def del: upt_Suc)
  also have "\<dots> \<longleftrightarrow> (\<exists>p \<in> set ps. \<exists>k \<in> set [1 ..< Suc (length (labels s))]. labels p = take k (labels s))"
    by blast
  also have "\<dots> \<longleftrightarrow> (\<exists>p \<in> set ps. DomainMatcher_Match p s)"
  proof (rule bex_cong [OF refl])
    fix p assume "p \<in> set ps"
    then have p: "domain_pattern p" using fits by (auto simp: list_all_iff)
    then have "labels p \<noteq> []" by (simp add: domain_pattern_def labels_Nil_iff)
    then show "(\<exists>k \<in> set [1 ..< Suc (length (labels s))]. labels p = take k (labels s)) \<longleftrightarrow>
        DomainMatcher_Match p s"
      using prefix_labels_iff [OF p] prefix_take_iff by metis
  qed
  finally show "DomainMatcherSet_MatchAny g s \<longleftrightarrow> (\<exists>p \<in> set ps. DomainMatcher_Match p s)" .
qed

text \<open>
  A pattern with a leading dot: the trie drops the empty first label and so matches every
  subdomain, the matcher itself asks for two dots.
\<close>

lemma leading_dot_divergence:
  "DomainMatcherSet_MatchAny (DomainMatcherSet_Add (str ''.ab'') NewDomainMatcherSet) (str ''x.ab'') \<and>
   \<not> DomainMatcher_Match (str ''.ab'') (str ''x.ab'')"
proof -
  have eq: "str ''.ab'' = [] @ dot # str ''ab''" "str ''x.ab'' = str ''x'' @ dot # str ''ab''"
    by (simp_all add: str_def ascii_def dot_def)
  have nodot: "dot \<notin> set (str ''ab'')" "dot \<notin> set (str ''x'')" "str ''x'' \<noteq> []"
    by (simp_all add: str_def ascii_def dot_def)
  have L: "labels (str ''.ab'') = [str ''ab'']" "labels (str ''x.ab'') = [str ''ab'', str ''x'']"
    unfolding eq labels_snoc [OF nodot(1)] using nodot by (simp_all add: labels_single)
  let ?g = "DomainMatcherSet_Add (str ''.ab'') NewDomainMatcherSet"
  have "trie_val False (dms_root ?g) [str ''ab'']"
    using L(1) by (simp add: DomainMatcherSet_Add_def trie_val_add labels_def del: trie_val.simps)
  then have "DomainMatcherSet_MatchAny ?g (str ''x.ab'')"
    unfolding DomainMatcherSet_MatchAny_def
    using L(2) by (subst trie_any_payloads [where z = False])
      (simp_all add: payloads_def labels_def [symmetric] upt_conv_Cons)
  moreover have "\<not> DomainMatcher_Match (str ''.ab'') (str ''x.ab'')"
    by (simp add: DomainMatcher_Match_def HasSuffix_def str_def ascii_def dot_def)
  ultimately show ?thesis by blast
qed

end
