(* ===== verification/Linear_Match.thy ===== *)
theory Linear_Match
  imports Domain_Trie
begin

text \<open>
  The linear matchers of \<^verbatim>\<open>valuematcher_linear.go\<close>, \<^verbatim>\<open>indexmatcher_linear.go\<close> and
  \<^verbatim>\<open>anymatcher_linear.go\<close>: one group (or set) per kind of matcher, allocated when the first matcher
  of its kind is added. \<open>LinearIndexMatcher\<close> has the four groups of \<open>LinearValueMatcher\<close> and a
  counter; the bodies of its operations on the groups are the same text in both files.
\<close>

record LinearValueMatcher =
  lm_full :: "FullMatcherGroup option"
  lm_domain :: "DomainMatcherGroup option"
  lm_substr :: "SubstrMatcherGroup option"
  lm_regex :: "SimpleMatcherGroup option"

record LinearIndexMatcher = LinearValueMatcher +
  lm_count :: u32

definition NewLinearValueMatcher :: LinearValueMatcher where
  "NewLinearValueMatcher = \<lparr>lm_full = None, lm_domain = None, lm_substr = None, lm_regex = None\<rparr>"

definition NewLinearIndexMatcher :: LinearIndexMatcher where
  "NewLinearIndexMatcher =
     \<lparr>lm_full = None, lm_domain = None, lm_substr = None, lm_regex = None, lm_count = 0\<rparr>"

definition or_new :: "'g \<Rightarrow> 'g option \<Rightarrow> 'g" where
  "or_new z og = (case og of None \<Rightarrow> z | Some g \<Rightarrow> g)"

fun LinearValueMatcher_Add ::
  "matcher \<Rightarrow> u32 \<Rightarrow> 'a LinearValueMatcher_scheme \<Rightarrow> 'a LinearValueMatcher_scheme" where
  "LinearValueMatcher_Add (FullMatcher m) value g =
     g\<lparr>lm_full := Some (FullMatcherGroup_Add m value (or_new NewFullMatcherGroup (lm_full g)))\<rparr>"
| "LinearValueMatcher_Add (DomainMatcher m) value g =
     g\<lparr>lm_domain := Some (DomainMatcherGroup_Add m value (or_new NewDomainMatcherGroup (lm_domain g)))\<rparr>"
| "LinearValueMatcher_Add (SubstrMatcher m) value g =
     g\<lparr>lm_substr := Some (SubstrMatcherGroup_Add m value (or_new NewSubstrMatcherGroup (lm_substr g)))\<rparr>"
| "LinearValueMatcher_Add m value g =
     g\<lparr>lm_regex := Some (SimpleMatcherGroup_Add m value (or_new NewSimpleMatcherGroup (lm_regex g)))\<rparr>"

text \<open>\<open>LinearIndexMatcher.Add\<close> returns the index it gives to the matcher.\<close>

definition LinearIndexMatcher_Add ::
  "matcher \<Rightarrow> LinearIndexMatcher \<Rightarrow> u32 \<times> LinearIndexMatcher" where
  "LinearIndexMatcher_Add m g =
     (let g = g\<lparr>lm_count := lm_count g + 1\<rparr>;
          index = lm_count g
      in (index, LinearValueMatcher_Add m index g))"

definition LinearIndexMatcher_Size :: "LinearIndexMatcher \<Rightarrow> u32" where
  "LinearIndexMatcher_Size g = lm_count g"

text \<open>One block of \<open>Match\<close>: the result of a group is appended when the group exists and matches.\<close>

definition append_matches :: "u32 list option \<Rightarrow> u32 list list \<Rightarrow> u32 list list" where
  "append_matches matches result =
     (case matches of
        None \<Rightarrow> result
      | Some ms \<Rightarrow> if length ms > 0 then result @ [ms] else result)"

definition LinearValueMatcher_Match ::
  "'a LinearValueMatcher_scheme \<Rightarrow> gostring \<Rightarrow> u32 list option" where
  "LinearValueMatcher_Match g input = do {
     let result = append_matches (map_option (\<lambda>f. FullMatcherGroup_Match f input) (lm_full g)) [];
     let result = append_matches (map_option (\<lambda>d. DomainMatcherGroup_Match d input) (lm_domain g)) result;
     sub \<leftarrow> (case lm_substr g of
         None \<Rightarrow> Some None
       | Some s \<Rightarrow> map_option Some (SubstrMatcherGroup_Match s input));
     let result = append_matches sub result;
     let result = append_matches (map_option (\<lambda>r. SimpleMatcherGroup_Match r input) (lm_regex g)) result;
     Some (CompositeMatches result)
   }"

definition LinearValueMatcher_MatchAny :: "'a LinearValueMatcher_scheme \<Rightarrow> gostring \<Rightarrow> bool" where
  "LinearValueMatcher_MatchAny g input =
     (if (case lm_full g of None \<Rightarrow> False | Some f \<Rightarrow> FullMatcherGroup_MatchAny f input) then True
      else if (case lm_domain g of None \<Rightarrow> False | Some d \<Rightarrow> DomainMatcherGroup_MatchAny d input) then True
      else if (case lm_substr g of None \<Rightarrow> False | Some s \<Rightarrow> SubstrMatcherGroup_MatchAny s input) then True
      else (case lm_regex g of None \<Rightarrow> False | Some r \<Rightarrow> SimpleMatcherGroup_MatchAny r input))"

definition LinearIndexMatcher_Match :: "LinearIndexMatcher \<Rightarrow> gostring \<Rightarrow> u32 list option" where
  "LinearIndexMatcher_Match g input = LinearValueMatcher_Match g input"

definition LinearIndexMatcher_MatchAny :: "LinearIndexMatcher \<Rightarrow> gostring \<Rightarrow> bool" where
  "LinearIndexMatcher_MatchAny g input = LinearValueMatcher_MatchAny g input"

record LinearAnyMatcher =
  la_full :: "FullMatcherSet option"
  la_domain :: "DomainMatcherSet option"
  la_substr :: "SubstrMatcherSet option"
  la_regex :: "SimpleMatcherSet option"

definition NewLinearAnyMatcher :: LinearAnyMatcher where
  "NewLinearAnyMatcher = \<lparr>la_full = None, la_domain = None, la_substr = None, la_regex = None\<rparr>"

fun LinearAnyMatcher_Add :: "matcher \<Rightarrow> LinearAnyMatcher \<Rightarrow> LinearAnyMatcher" where
  "LinearAnyMatcher_Add (FullMatcher m) s =
     s\<lparr>la_full := Some (FullMatcherSet_Add m (or_new NewFullMatcherSet (la_full s)))\<rparr>"
| "LinearAnyMatcher_Add (DomainMatcher m) s =
     s\<lparr>la_domain := Some (DomainMatcherSet_Add m (or_new NewDomainMatcherSet (la_domain s)))\<rparr>"
| "LinearAnyMatcher_Add (SubstrMatcher m) s =
     s\<lparr>la_substr := Some (SubstrMatcherSet_Add m (or_new NewSubstrMatcherSet (la_substr s)))\<rparr>"
| "LinearAnyMatcher_Add m s =
     s\<lparr>la_regex := Some (SimpleMatcherSet_Add m (or_new NewSimpleMatcherSet (la_regex s)))\<rparr>"

definition LinearAnyMatcher_MatchAny :: "LinearAnyMatcher \<Rightarrow> gostring \<Rightarrow> bool" where
  "LinearAnyMatcher_MatchAny s input =
     (if (case la_full s of None \<Rightarrow> False | Some f \<Rightarrow> FullMatcherSet_MatchAny f input) then True
      else if (case la_domain s of None \<Rightarrow> False | Some d \<Rightarrow> DomainMatcherSet_MatchAny d input) then True
      else if (case la_substr s of None \<Rightarrow> False | Some u \<Rightarrow> SubstrMatcherSet_MatchAny u input) then True
      else (case la_regex s of None \<Rightarrow> False | Some r \<Rightarrow> SimpleMatcherSet_MatchAny r input))"

section \<open>The parts of a list of matchers\<close>

fun full_of :: "matcher \<times> 'v \<Rightarrow> (gostring \<times> 'v) option" where
  "full_of (FullMatcher p, v) = Some (p, v)"
| "full_of _ = None"

fun domain_of :: "matcher \<times> 'v \<Rightarrow> (gostring \<times> 'v) option" where
  "domain_of (DomainMatcher p, v) = Some (p, v)"
| "domain_of _ = None"

fun substr_of :: "matcher \<times> 'v \<Rightarrow> (gostring \<times> 'v) option" where
  "substr_of (SubstrMatcher p, v) = Some (p, v)"
| "substr_of _ = None"

fun regex_of :: "matcher \<times> 'v \<Rightarrow> (matcher \<times> 'v) option" where
  "regex_of (RegexMatcher p, v) = Some (RegexMatcher p, v)"
| "regex_of _ = None"

lemma map_filter_snoc:
  "List.map_filter f (xs @ [x]) = List.map_filter f xs @ (case f x of None \<Rightarrow> [] | Some y \<Rightarrow> [y])"
  by (simp add: List.map_filter_def split: option.split)

lemma part_iff:
  "(p, v) \<in> set (List.map_filter full_of ms) \<longleftrightarrow> (FullMatcher p, v) \<in> set ms"
  "(p, v) \<in> set (List.map_filter domain_of ms) \<longleftrightarrow> (DomainMatcher p, v) \<in> set ms"
  "(p, v) \<in> set (List.map_filter substr_of ms) \<longleftrightarrow> (SubstrMatcher p, v) \<in> set ms"
  "(m, v) \<in> set (List.map_filter regex_of ms) \<longleftrightarrow> (\<exists>r. m = RegexMatcher r \<and> (m, v) \<in> set ms)"
proof -
  have f: "full_of x = Some (p, v) \<longleftrightarrow> x = (FullMatcher p, v)" for x :: "matcher \<times> 'a" and p v
    by (cases x rule: full_of.cases) auto
  have d: "domain_of x = Some (p, v) \<longleftrightarrow> x = (DomainMatcher p, v)" for x :: "matcher \<times> 'a" and p v
    by (cases x rule: domain_of.cases) auto
  have s: "substr_of x = Some (p, v) \<longleftrightarrow> x = (SubstrMatcher p, v)" for x :: "matcher \<times> 'a" and p v
    by (cases x rule: substr_of.cases) auto
  have r: "regex_of x = Some (m, v) \<longleftrightarrow> (\<exists>r. m = RegexMatcher r \<and> x = (m, v))"
    for x :: "matcher \<times> 'a" and m v
    by (cases x rule: regex_of.cases) auto
  have mf: "y \<in> set (List.map_filter g xs) \<longleftrightarrow> (\<exists>x \<in> set xs. g x = Some y)"
    for g :: "'x \<Rightarrow> 'y option" and xs y
    by (force simp: List.map_filter_def)
  show "(p, v) \<in> set (List.map_filter full_of ms) \<longleftrightarrow> (FullMatcher p, v) \<in> set ms"
    "(p, v) \<in> set (List.map_filter domain_of ms) \<longleftrightarrow> (DomainMatcher p, v) \<in> set ms"
    "(p, v) \<in> set (List.map_filter substr_of ms) \<longleftrightarrow> (SubstrMatcher p, v) \<in> set ms"
    "(m, v) \<in> set (List.map_filter regex_of ms) \<longleftrightarrow> (\<exists>r. m = RegexMatcher r \<and> (m, v) \<in> set ms)"
    by (auto simp: mf f d s r)
qed

definition opt_rep :: "('g \<Rightarrow> 'x list \<Rightarrow> bool) \<Rightarrow> 'g option \<Rightarrow> 'x list \<Rightarrow> bool" where
  "opt_rep R og xs = (case og of None \<Rightarrow> xs = [] | Some g \<Rightarrow> R g xs)"

lemma opt_rep_add:
  assumes "opt_rep R og xs" "R z []" "\<And>g. R g xs \<Longrightarrow> R (f g) (xs @ [x])"
  shows "opt_rep R (Some (f (or_new z og))) (xs @ [x])"
  using assms by (auto simp: opt_rep_def or_new_def split: option.splits)

definition linear_rep :: "'a LinearValueMatcher_scheme \<Rightarrow> (matcher \<times> u32) list \<Rightarrow> bool" where
  "linear_rep g ms =
     (opt_rep full_rep (lm_full g) (List.map_filter full_of ms) \<and>
      opt_rep domain_rep (lm_domain g) (List.map_filter domain_of ms) \<and>
      opt_rep substr_rep (lm_substr g) (List.map_filter substr_of ms) \<and>
      opt_rep (\<lambda>g ms. smg_matchers g = ms) (lm_regex g) (List.map_filter regex_of ms))"

text \<open>
  What the linear matchers are meant for: domain patterns that are not empty and have no leading
  dot, non-empty substrings, and at most \<open>2\<^sup>1\<^sup>6\<close> of them.
\<close>

definition linear_fits :: "(matcher \<times> u32) list \<Rightarrow> bool" where
  "linear_fits ms =
     (domain_fits (List.map_filter domain_of ms) \<and> substr_fits (List.map_filter substr_of ms))"

lemma linear_rep_New: "linear_rep NewLinearValueMatcher []" "linear_rep NewLinearIndexMatcher []"
  by (simp_all add: linear_rep_def opt_rep_def NewLinearValueMatcher_def NewLinearIndexMatcher_def
      List.map_filter_def)

lemma linear_rep_Add:
  assumes "linear_rep g ms"
  shows "linear_rep (LinearValueMatcher_Add m v g) (ms @ [(m, v)])"
proof (cases m)
  case (FullMatcher p)
  then show ?thesis
    using assms opt_rep_add [where R = full_rep and f = "FullMatcherGroup_Add p v",
        OF _ full_group.rep_empty full_group.rep_add]
    by (simp add: linear_rep_def map_filter_snoc)
next
  case (DomainMatcher p)
  then show ?thesis
    using assms opt_rep_add [where R = domain_rep and f = "DomainMatcherGroup_Add p v",
        OF _ domain_group.rep_empty domain_group.rep_add]
    by (simp add: linear_rep_def map_filter_snoc)
next
  case (SubstrMatcher p)
  then show ?thesis
    using assms opt_rep_add [where R = substr_rep and f = "SubstrMatcherGroup_Add p v",
        OF _ substr_group.rep_empty substr_group.rep_add]
    by (simp add: linear_rep_def map_filter_snoc)
next
  case (RegexMatcher r)
  then show ?thesis
    using assms opt_rep_add [where R = "\<lambda>g ms. smg_matchers g = ms"
        and f = "SimpleMatcherGroup_Add (RegexMatcher r) v",
        OF _ simple_group.rep_empty simple_group.rep_add]
    by (simp add: linear_rep_def map_filter_snoc)
qed

text \<open>The answer of an optional group.\<close>

definition opt_values :: "('g \<Rightarrow> u32 list) \<Rightarrow> 'g option \<Rightarrow> u32 list" where
  "opt_values f og = (case og of None \<Rightarrow> [] | Some g \<Rightarrow> f g)"

lemma concat_append_matches:
  "concat (append_matches (map_option f og) result) = concat result @ opt_values f og"
  "concat (append_matches (Some vs) result) = concat result @ vs"
  "append_matches None result = result"
  by (auto simp: append_matches_def opt_values_def split: option.split)

definition domain_values :: "(gostring \<times> u32) list \<Rightarrow> gostring \<Rightarrow> u32 list" where
  "domain_values ms s =
     concat (rev (map (\<lambda>k. values_of (\<lambda>p. labels p = take k (labels s)) ms)
       [1 ..< Suc (length (labels s))]))"

lemma substr_part_spec:
  assumes "opt_rep substr_rep og ps" "substr_fits ps"
  shows "\<exists>sub. (case og of None \<Rightarrow> Some None | Some u \<Rightarrow> map_option Some (SubstrMatcherGroup_Match u s))
      = Some sub \<and> set (opt_values (\<lambda>vs. vs) sub) = {v. \<exists>p. (p, v) \<in> set ps \<and> SubstrMatcher_Match p s}"
proof (cases og)
  case None
  then show ?thesis using assms(1) by (auto simp: opt_rep_def opt_values_def)
next
  case (Some u)
  then obtain r where "SubstrMatcherGroup_Match u s = Some r"
      "set r = {v. \<exists>p. (p, v) \<in> set ps \<and> SubstrMatcher_Match p s}"
    using assms substr_group.match_rep [of u ps s] by (auto simp: opt_rep_def)
  then show ?thesis using Some by (auto simp: opt_values_def)
qed

lemma opt_values_reps:
  "opt_rep full_rep f ps \<Longrightarrow> opt_values (\<lambda>g. FullMatcherGroup_Match g s) f = values_of (\<lambda>p. p = s) ps"
  "opt_rep domain_rep d ps \<Longrightarrow> opt_values (\<lambda>g. DomainMatcherGroup_Match g s) d = domain_values ps s"
  "opt_rep (\<lambda>g ms. smg_matchers g = ms) r ms \<Longrightarrow>
     opt_values (\<lambda>g. SimpleMatcherGroup_Match g s) r = values_of (\<lambda>m. Matcher_Match m s) ms"
  by (auto simp: opt_rep_def opt_values_def full_rep_Match domain_Match_payloads domain_values_def
      SimpleMatcherGroup_Match_values values_of_def split: option.splits)

text \<open>
  The answer of the linear matchers, in the order of the priorities: full matchers, domain
  matchers with the longest match first, substrings, regular expressions; within each, the order
  of the additions.
\<close>

lemma linear_Match_parts:
  assumes "linear_rep g ms" "linear_fits ms"
  shows "\<exists>sub. LinearValueMatcher_Match g s = Some
      (values_of (\<lambda>p. p = s) (List.map_filter full_of ms) @
       domain_values (List.map_filter domain_of ms) s @
       sub @ values_of (\<lambda>m. Matcher_Match m s) (List.map_filter regex_of ms)) \<and>
    set sub = {v. \<exists>p. (p, v) \<in> set (List.map_filter substr_of ms) \<and> SubstrMatcher_Match p s}"
proof -
  have r: "opt_rep full_rep (lm_full g) (List.map_filter full_of ms)"
    "opt_rep domain_rep (lm_domain g) (List.map_filter domain_of ms)"
    "opt_rep (\<lambda>g ms. smg_matchers g = ms) (lm_regex g) (List.map_filter regex_of ms)"
    using assms(1) by (simp_all add: linear_rep_def)
  obtain sub where sub: "(case lm_substr g of None \<Rightarrow> Some None
        | Some u \<Rightarrow> map_option Some (SubstrMatcherGroup_Match u s)) = Some sub"
      "set (opt_values (\<lambda>vs. vs) sub) =
        {v. \<exists>p. (p, v) \<in> set (List.map_filter substr_of ms) \<and> SubstrMatcher_Match p s}"
    using substr_part_spec assms unfolding linear_rep_def linear_fits_def by blast
  have "concat (append_matches sub result) = concat result @ opt_values (\<lambda>vs. vs) sub" for result
    using concat_append_matches(1) [of "\<lambda>vs. vs" sub result] by (simp add: option.map_id0 option.map_ident)
  then have "LinearValueMatcher_Match g s = Some
      (values_of (\<lambda>p. p = s) (List.map_filter full_of ms) @
       domain_values (List.map_filter domain_of ms) s @ opt_values (\<lambda>vs. vs) sub @
       values_of (\<lambda>m. Matcher_Match m s) (List.map_filter regex_of ms))"
    unfolding LinearValueMatcher_Match_def Let_def sub(1) Option.bind.bind_lunit
      CompositeMatches_concat concat_append_matches(1)
    by (simp add: concat_append_matches(1) opt_values_reps(1) [OF r(1)]
      opt_values_reps(2) [OF r(2)] opt_values_reps(3) [OF r(3)])
  then show ?thesis using sub(2) by blast
qed

lemma domain_values_set:
  "domain_fits ms \<Longrightarrow> set (domain_values ms s) = {v. \<exists>p. (p, v) \<in> set ms \<and> DomainMatcher_Match p s}"
  using domain_values_iff [of ms s] by (auto simp: domain_values_def simp del: upt_Suc)

lemma linear_Match_set:
  assumes "linear_rep g ms" "linear_fits ms"
  shows "\<exists>r. LinearValueMatcher_Match g s = Some r \<and>
    set r = {v. \<exists>m. (m, v) \<in> set ms \<and> Matcher_Match m s}"
proof -
  have d: "domain_fits (List.map_filter domain_of ms)"
    using assms(2) by (simp add: linear_fits_def)
  obtain sub where sub: "LinearValueMatcher_Match g s = Some
      (values_of (\<lambda>p. p = s) (List.map_filter full_of ms) @
       domain_values (List.map_filter domain_of ms) s @
       sub @ values_of (\<lambda>m. Matcher_Match m s) (List.map_filter regex_of ms))"
    "set sub = {v. \<exists>p. (SubstrMatcher p, v) \<in> set ms \<and> SubstrMatcher_Match p s}"
    using linear_Match_parts [OF assms, of s] by (auto simp: part_iff)
  show ?thesis
    unfolding sub(1) Matcher_Match_parts
    by (auto simp: sub(2) set_values_of domain_values_set [OF d] part_iff)
qed

lemma opt_any:
  assumes "opt_rep R og ps" "\<And>g. R g ps \<Longrightarrow> any g \<longleftrightarrow> (\<exists>(p, v) \<in> set ps. sem p)"
  shows "(case og of None \<Rightarrow> False | Some g \<Rightarrow> any g) \<longleftrightarrow> (\<exists>p v. (p, v) \<in> set ps \<and> sem p)"
  using assms by (auto simp: opt_rep_def split: option.splits)

lemma if_True_False_simps: "(if a then True else b) \<longleftrightarrow> a \<or> b"
  by simp

lemma linear_MatchAny:
  assumes "linear_rep g ms" "linear_fits ms"
  shows "LinearValueMatcher_MatchAny g s \<longleftrightarrow> (\<exists>(m, v) \<in> set ms. Matcher_Match m s)"
proof -
  have fits: "domain_fits (List.map_filter domain_of ms)" "substr_fits (List.map_filter substr_of ms)"
    using assms(2) by (simp_all add: linear_fits_def)
  have r: "opt_rep full_rep (lm_full g) (List.map_filter full_of ms)"
    "opt_rep domain_rep (lm_domain g) (List.map_filter domain_of ms)"
    "opt_rep substr_rep (lm_substr g) (List.map_filter substr_of ms)"
    "opt_rep (\<lambda>g ms. smg_matchers g = ms) (lm_regex g) (List.map_filter regex_of ms)"
    using assms(1) by (simp_all add: linear_rep_def)
  have f: "(case lm_full g of None \<Rightarrow> False | Some f \<Rightarrow> FullMatcherGroup_MatchAny f s) \<longleftrightarrow>
      (\<exists>p v. (FullMatcher p, v) \<in> set ms \<and> FullMatcher_Match p s)"
    unfolding part_iff(1) [symmetric] by (rule opt_any [OF r(1)]) (rule full_group.matchAny_rep, simp_all)
  have d: "(case lm_domain g of None \<Rightarrow> False | Some d \<Rightarrow> DomainMatcherGroup_MatchAny d s) \<longleftrightarrow>
      (\<exists>p v. (DomainMatcher p, v) \<in> set ms \<and> DomainMatcher_Match p s)"
    unfolding part_iff(2) [symmetric]
    by (rule opt_any [OF r(2)]) (rule domain_group.matchAny_rep [OF _ fits(1)], assumption)
  have u: "(case lm_substr g of None \<Rightarrow> False | Some d \<Rightarrow> SubstrMatcherGroup_MatchAny d s) \<longleftrightarrow>
      (\<exists>p v. (SubstrMatcher p, v) \<in> set ms \<and> SubstrMatcher_Match p s)"
    unfolding part_iff(3) [symmetric]
    by (rule opt_any [OF r(3)]) (rule substr_group.matchAny_rep [OF _ fits(2)], assumption)
  have r: "(case lm_regex g of None \<Rightarrow> False | Some d \<Rightarrow> SimpleMatcherGroup_MatchAny d s) \<longleftrightarrow>
      (\<exists>m v. (m, v) \<in> set (List.map_filter regex_of ms) \<and> Matcher_Match m s)"
    by (rule opt_any [OF r(4)]) (rule simple_group.matchAny_rep, simp_all)
  have r': "(\<exists>m v. (m, v) \<in> set (List.map_filter regex_of ms) \<and> Matcher_Match m s) \<longleftrightarrow>
      (\<exists>r v. (RegexMatcher r, v) \<in> set ms \<and> RegexMatcher_Match r s)"
    by (auto simp: part_iff)
  have "(\<exists>(m, v) \<in> set ms. Matcher_Match m s) \<longleftrightarrow> (\<exists>v. \<exists>m. (m, v) \<in> set ms \<and> Matcher_Match m s)"
    by blast
  also have "\<dots> \<longleftrightarrow> LinearValueMatcher_MatchAny g s"
    unfolding LinearValueMatcher_MatchAny_def f d u r r' Matcher_Match_parts FullMatcher_Match_def
    by (simp only: if_True_False_simps) blast
  finally show ?thesis by simp
qed

interpretation linear_group: matcher_group NewLinearValueMatcher LinearValueMatcher_Add
  LinearValueMatcher_Match LinearValueMatcher_MatchAny linear_rep linear_fits Matcher_Match
  by unfold_locales (rule linear_rep_New linear_rep_Add linear_Match_set linear_MatchAny; assumption)+

section \<open>The index matcher\<close>

definition index_built :: "matcher list \<Rightarrow> LinearIndexMatcher" where
  "index_built ms = fold (\<lambda>m g. snd (LinearIndexMatcher_Add m g)) ms NewLinearIndexMatcher"

definition indexed :: "matcher list \<Rightarrow> (matcher \<times> u32) list" where
  "indexed ms = zip ms (map of_nat [1 ..< Suc (length ms)])"

lemma count_Add [simp]: "lm_count (LinearValueMatcher_Add m v g) = lm_count g"
  by (cases m) simp_all

lemma linear_rep_count [simp]: "linear_rep (lm_count_update f g) ms = linear_rep g ms"
  by (simp add: linear_rep_def)

lemma indexed_snoc: "indexed (ms @ [m]) = indexed ms @ [(m, of_nat (Suc (length ms)))]"
proof -
  have "[1 ..< Suc (Suc (length ms))] = [1 ..< Suc (length ms)] @ [Suc (length ms)]" by simp
  then show ?thesis by (simp add: indexed_def del: upt_Suc)
qed

lemma map_fst_indexed [simp]: "map fst (indexed ms) = ms"
  by (simp add: indexed_def del: upt_Suc)

lemma index_built_rep:
  "linear_rep (index_built ms) (indexed ms) \<and> lm_count (index_built ms) = of_nat (length ms)"
proof (induction ms rule: rev_induct)
  case Nil
  show ?case
    using linear_rep_New(2) by (simp add: index_built_def indexed_def NewLinearIndexMatcher_def)
next
  case (snoc m ms)
  let ?g = "index_built ms"
  have "index_built (ms @ [m]) = LinearValueMatcher_Add m (lm_count ?g + 1) (?g\<lparr>lm_count := lm_count ?g + 1\<rparr>)"
    by (simp add: index_built_def LinearIndexMatcher_Add_def Let_def)
  then show ?case
    using snoc linear_rep_Add [of "?g\<lparr>lm_count := lm_count ?g + 1\<rparr>" "indexed ms" m "lm_count ?g + 1"]
    by (simp add: indexed_snoc add.commute)
qed

lemma indexed_iff: "(m, v) \<in> set (indexed ms) \<longleftrightarrow> (\<exists>i < length ms. m = ms ! i \<and> v = of_nat (Suc i))"
  by (auto simp: indexed_def set_zip simp del: upt_Suc)

text \<open>
  The patterns the matchers accept: domain patterns without a leading dot, non-empty substrings,
  at most \<open>2\<^sup>1\<^sup>6\<close> substrings.
\<close>

fun pattern_ok :: "matcher \<Rightarrow> bool" where
  "pattern_ok (DomainMatcher p) = domain_pattern p"
| "pattern_ok (SubstrMatcher p) = (p \<noteq> [])"
| "pattern_ok _ = True"

fun is_substr :: "matcher \<Rightarrow> bool" where
  "is_substr (SubstrMatcher p) = True"
| "is_substr _ = False"

lemma length_substr_part:
  "length (List.map_filter substr_of ms) = length (filter is_substr (map fst ms))"
proof -
  have "substr_of x \<noteq> None \<longleftrightarrow> is_substr (fst x)" for x :: "matcher \<times> 'a"
    by (cases x rule: substr_of.cases) auto
  then show ?thesis by (simp add: List.map_filter_def filter_map comp_def)
qed

lemma linear_fitsI:
  assumes "list_all (\<lambda>(m, v). pattern_ok m) ms" "length (filter is_substr (map fst ms)) \<le> 65536"
  shows "linear_fits ms"
  using assms
  by (fastforce simp: linear_fits_def domain_fits_def substr_fits_def length_substr_part part_iff
      list_all_iff)

lemma indexed_fits:
  assumes "list_all pattern_ok ms" "length (filter is_substr ms) \<le> 65536"
  shows "linear_fits (indexed ms)"
  using assms by (intro linear_fitsI) (auto simp: indexed_iff list_all_iff)

lemma fst_bex: "(\<exists>(m, v) \<in> set xs. P m) \<longleftrightarrow> (\<exists>m \<in> set (map fst xs). P m)"
  by (induction xs) auto

text \<open>
  The index matcher answers with exactly the indices of the matchers that match the input,
  numbered from one in the order of the additions, and \<^verbatim>\<open>MatchAny\<close> says whether there is one: the
  hash table, the label trie, the packed substring entries and the list together are equivalent
  to asking every matcher.
\<close>

theorem linear_index_equivalence:
  assumes "list_all pattern_ok ms" "length (filter is_substr ms) \<le> 65536"
  shows "\<exists>r. LinearIndexMatcher_Match (index_built ms) input = Some r \<and>
    set r = {of_nat (Suc i) | i. i < length ms \<and> Matcher_Match (ms ! i) input} \<and>
    (LinearIndexMatcher_MatchAny (index_built ms) input \<longleftrightarrow> (\<exists>m \<in> set ms. Matcher_Match m input))"
proof -
  have rep: "linear_rep (index_built ms) (indexed ms)" using index_built_rep by blast
  note fits = indexed_fits [OF assms]
  obtain r where r: "LinearValueMatcher_Match (index_built ms) input = Some r"
      "set r = {v. \<exists>m. (m, v) \<in> set (indexed ms) \<and> Matcher_Match m input}"
    using linear_Match_set [OF rep fits] by blast
  have "set r = {of_nat (Suc i) | i. i < length ms \<and> Matcher_Match (ms ! i) input}"
    unfolding r(2) indexed_iff by blast
  moreover have "LinearValueMatcher_MatchAny (index_built ms) input \<longleftrightarrow>
      (\<exists>m \<in> set ms. Matcher_Match m input)"
    unfolding linear_MatchAny [OF rep fits] fst_bex map_fst_indexed ..
  ultimately show ?thesis
    using r(1) by (simp add: LinearIndexMatcher_Match_def LinearIndexMatcher_MatchAny_def)
qed

theorem linear_index_equivalence_witness:
  "\<exists>r. LinearIndexMatcher_Match
      (index_built [DomainMatcher (str ''b.c''), SubstrMatcher (str ''x'')]) (str ''a.b.c'') = Some r \<and>
    set r = {of_nat (Suc i) | i. i < length [DomainMatcher (str ''b.c''), SubstrMatcher (str ''x'')] \<and>
      Matcher_Match ([DomainMatcher (str ''b.c''), SubstrMatcher (str ''x'')] ! i) (str ''a.b.c'')} \<and>
    (LinearIndexMatcher_MatchAny
       (index_built [DomainMatcher (str ''b.c''), SubstrMatcher (str ''x'')]) (str ''a.b.c'') \<longleftrightarrow>
      (\<exists>m \<in> set [DomainMatcher (str ''b.c''), SubstrMatcher (str ''x'')]. Matcher_Match m (str ''a.b.c'')))"
  by (rule linear_index_equivalence) (simp_all add: str_def ascii_def domain_pattern_def dot_def)

section \<open>The any-matcher\<close>

definition any_rep :: "LinearAnyMatcher \<Rightarrow> matcher list \<Rightarrow> bool" where
  "any_rep g ms =
     (opt_rep (\<lambda>g ps. fms_matchers g = set ps) (la_full g) [p. FullMatcher p \<leftarrow> ms] \<and>
      opt_rep domain_set_rep (la_domain g) [p. DomainMatcher p \<leftarrow> ms] \<and>
      opt_rep (\<lambda>g ps. subs_patterns g = ps) (la_substr g) [p. SubstrMatcher p \<leftarrow> ms] \<and>
      opt_rep (\<lambda>g ms. sms_matchers g = ms) (la_regex g) [RegexMatcher p. RegexMatcher p \<leftarrow> ms])"

lemma any_rep_Add: "any_rep g ms \<Longrightarrow> any_rep (LinearAnyMatcher_Add m g) (ms @ [m])"
proof (cases m)
  case (FullMatcher p)
  then show "any_rep g ms \<Longrightarrow> ?thesis"
    using opt_rep_add [where R = "\<lambda>g ps. fms_matchers g = set ps" and f = "FullMatcherSet_Add p",
        OF _ full_set.set_rep_empty full_set.set_rep_add]
    by (simp add: any_rep_def)
next
  case (DomainMatcher p)
  then show "any_rep g ms \<Longrightarrow> ?thesis"
    using opt_rep_add [where R = domain_set_rep and f = "DomainMatcherSet_Add p",
        OF _ domain_set.set_rep_empty domain_set.set_rep_add]
    by (simp add: any_rep_def)
next
  case (SubstrMatcher p)
  then show "any_rep g ms \<Longrightarrow> ?thesis"
    using opt_rep_add [where R = "\<lambda>g ps. subs_patterns g = ps" and f = "SubstrMatcherSet_Add p",
        OF _ substr_set.set_rep_empty substr_set.set_rep_add]
    by (simp add: any_rep_def)
next
  case (RegexMatcher r)
  then show "any_rep g ms \<Longrightarrow> ?thesis"
    using opt_rep_add [where R = "\<lambda>g ms. sms_matchers g = ms" and f = "SimpleMatcherSet_Add m",
        OF _ simple_set.set_rep_empty simple_set.set_rep_add]
    by (simp add: any_rep_def)
qed

lemma opt_set_any:
  assumes "opt_rep R og ps" "\<And>g. R g ps \<Longrightarrow> any g \<longleftrightarrow> (\<exists>p \<in> set ps. sem p)"
  shows "(case og of None \<Rightarrow> False | Some g \<Rightarrow> any g) \<longleftrightarrow> (\<exists>p \<in> set ps. sem p)"
  using assms by (auto simp: opt_rep_def split: option.splits)

definition domain_patterns_ok :: "matcher list \<Rightarrow> bool" where
  "domain_patterns_ok ms = list_all domain_pattern [p. DomainMatcher p \<leftarrow> ms]"

lemma any_rep_MatchAny:
  assumes rep: "any_rep g ms" and ok: "domain_patterns_ok ms"
  shows "LinearAnyMatcher_MatchAny g s \<longleftrightarrow> (\<exists>m \<in> set ms. Matcher_Match m s)"
proof -
  note r = rep [unfolded any_rep_def, THEN conjunct1]
    rep [unfolded any_rep_def, THEN conjunct2, THEN conjunct1]
    rep [unfolded any_rep_def, THEN conjunct2, THEN conjunct2, THEN conjunct1]
    rep [unfolded any_rep_def, THEN conjunct2, THEN conjunct2, THEN conjunct2]
  have f: "(case la_full g of None \<Rightarrow> False | Some f \<Rightarrow> FullMatcherSet_MatchAny f s) \<longleftrightarrow>
      (\<exists>p \<in> set [p. FullMatcher p \<leftarrow> ms]. FullMatcher_Match p s)"
    by (rule opt_set_any [OF r(1)]) (rule full_set.set_matchAny_rep [OF _ TrueI])
  have d: "(case la_domain g of None \<Rightarrow> False | Some d \<Rightarrow> DomainMatcherSet_MatchAny d s) \<longleftrightarrow>
      (\<exists>p \<in> set [p. DomainMatcher p \<leftarrow> ms]. DomainMatcher_Match p s)"
    by (rule opt_set_any [OF r(2)])
      (rule domain_set.set_matchAny_rep [OF _ ok [unfolded domain_patterns_ok_def]])
  have u: "(case la_substr g of None \<Rightarrow> False | Some d \<Rightarrow> SubstrMatcherSet_MatchAny d s) \<longleftrightarrow>
      (\<exists>p \<in> set [p. SubstrMatcher p \<leftarrow> ms]. SubstrMatcher_Match p s)"
    by (rule opt_set_any [OF r(3)]) (rule substr_set.set_matchAny_rep [OF _ TrueI])
  have x: "(case la_regex g of None \<Rightarrow> False | Some d \<Rightarrow> SimpleMatcherSet_MatchAny d s) \<longleftrightarrow>
      (\<exists>p \<in> set [RegexMatcher p. RegexMatcher p \<leftarrow> ms]. Matcher_Match p s)"
    by (rule opt_set_any [OF r(4)]) (rule simple_set.set_matchAny_rep [OF _ TrueI])
  have "(\<exists>m \<in> set ms. Matcher_Match m s) \<longleftrightarrow>
      (\<exists>p \<in> set [p. FullMatcher p \<leftarrow> ms]. FullMatcher_Match p s) \<or>
      (\<exists>p \<in> set [p. DomainMatcher p \<leftarrow> ms]. DomainMatcher_Match p s) \<or>
      (\<exists>p \<in> set [p. SubstrMatcher p \<leftarrow> ms]. SubstrMatcher_Match p s) \<or>
      (\<exists>p \<in> set [RegexMatcher p. RegexMatcher p \<leftarrow> ms]. Matcher_Match p s)"
  proof (induction ms)
    case (Cons m ms)
    then show ?case by (cases m) auto
  qed simp
  then show ?thesis
    unfolding LinearAnyMatcher_MatchAny_def f d u x by (simp only: if_True_False_simps)
qed

interpretation linear_any: matcher_set NewLinearAnyMatcher LinearAnyMatcher_Add
  LinearAnyMatcher_MatchAny any_rep domain_patterns_ok Matcher_Match
proof
  show "any_rep NewLinearAnyMatcher []"
    by (simp add: any_rep_def opt_rep_def NewLinearAnyMatcher_def)
qed (rule any_rep_Add any_rep_MatchAny; assumption)+

end
