(* ===== verification/Ac_Automaton.thy ===== *)
theory Ac_Automaton
  imports Str_Match "HOL-Library.Sublist"
begin

text \<open>
  The Aho-Corasick automaton of \<^verbatim>\<open>matchergroup_ac_automation.go\<close>, which matches full, domain and
  substring patterns together. Patterns are inserted from their last byte to their first, over an
  alphabet of 39 codes; \<open>Build\<close> completes the trie to an automaton by a breadth-first walk that
  fills the missing edges in place and compresses the fail paths to the nodes that carry a
  substring pattern.

  The fixed-size arrays of a node are functions with Go's zero values; every index is a code
  below 39. Node and match indices are natural numbers: the slices they index would need \<open>2\<^sup>3\<^sup>2\<close>
  nodes before the 32-bit indices wrap.
\<close>

section \<open>The automaton\<close>

definition acValidCharCount :: nat where
  "acValidCharCount = 39"

definition acTrieEdge :: byte where
  "acTrieEdge = 1"

definition acFailEdge :: byte where
  "acFailEdge = 0"

record acNode =
  ac_next :: "nat \<Rightarrow> nat"
  ac_edge :: "nat \<Rightarrow> byte"
  ac_fail :: nat
  ac_match :: nat

type_synonym acValue = "matcher_type \<Rightarrow> u32 list"

record ACAutomatonMatcherGroup =
  ac_nodes :: "acNode list"
  ac_values :: "acValue list"

definition acCharset :: "byte \<Rightarrow> nat" where
  "acCharset c =
     (if is_upper c then unat c - 0x40
      else if is_lower c then unat c - 0x60
      else if c = 0x2d then 27
      else if c = dot then 28
      else if is_digit c then unat c - 0x30 + 29
      else 0)"

definition addNode :: "ACAutomatonMatcherGroup \<Rightarrow> ACAutomatonMatcherGroup \<times> nat" where
  "addNode ac =
     (ac\<lparr>ac_nodes := ac_nodes ac @ [\<lparr>ac_next = \<lambda>_. 0, ac_edge = \<lambda>_. 0, ac_fail = 0, ac_match = 0\<rparr>]\<rparr>,
      length (ac_nodes ac))"

definition addMatchEntry :: "ACAutomatonMatcherGroup \<Rightarrow> ACAutomatonMatcherGroup \<times> nat" where
  "addMatchEntry ac = (ac\<lparr>ac_values := ac_values ac @ [\<lambda>_. []]\<rparr>, length (ac_values ac))"

definition NewACAutomatonMatcherGroup :: ACAutomatonMatcherGroup where
  "NewACAutomatonMatcherGroup =
     (let ac = \<lparr>ac_nodes = [], ac_values = []\<rparr>;
          (ac, _) = addNode ac;
          (ac, _) = addMatchEntry ac
      in ac)"

definition set_next :: "nat \<Rightarrow> nat \<Rightarrow> nat \<Rightarrow> byte \<Rightarrow> acNode list \<Rightarrow> acNode list" where
  "set_next nodeIdx edgeIdx nextIdx kind nodes =
     nodes[nodeIdx := (nodes ! nodeIdx)
       \<lparr>ac_next := (ac_next (nodes ! nodeIdx))(edgeIdx := nextIdx),
        ac_edge := (ac_edge (nodes ! nodeIdx))(edgeIdx := kind)\<rparr>]"

text \<open>The loop of \<open>addPattern\<close> over the bytes of the pattern, the last one first.\<close>

fun addPattern_loop ::
  "gostring \<Rightarrow> ACAutomatonMatcherGroup \<Rightarrow> nat \<Rightarrow> ACAutomatonMatcherGroup \<times> nat" where
  "addPattern_loop [] ac nodeIdx = (ac, nodeIdx)"
| "addPattern_loop (c # cs) ac nodeIdx =
     (let edgeIdx = acCharset c;
          nextIdx = ac_next (ac_nodes ac ! nodeIdx) edgeIdx
      in if nextIdx = 0 then
           let (ac, nextIdx) = addNode ac;
               ac = ac\<lparr>ac_nodes := set_next nodeIdx edgeIdx nextIdx acTrieEdge (ac_nodes ac)\<rparr>
           in addPattern_loop cs ac nextIdx
         else addPattern_loop cs ac nextIdx)"

definition addPattern ::
  "nat \<Rightarrow> gostring \<Rightarrow> matcher_type \<Rightarrow> u32 \<Rightarrow> ACAutomatonMatcherGroup \<Rightarrow>
   ACAutomatonMatcherGroup \<times> nat" where
  "addPattern nodeIdx pattern matcherType value ac =
     (let (ac, nodeIdx) = addPattern_loop (rev pattern) ac nodeIdx;
          ac = (if ac_match (ac_nodes ac ! nodeIdx) = 0 then
                  let (ac, m) = addMatchEntry ac in
                  ac\<lparr>ac_nodes := (ac_nodes ac)[nodeIdx := (ac_nodes ac ! nodeIdx)\<lparr>ac_match := m\<rparr>]\<rparr>
                else ac);
          match = ac_match (ac_nodes ac ! nodeIdx);
          entry = ac_values ac ! match
      in (ac\<lparr>ac_values := (ac_values ac)[match := entry(matcherType := entry matcherType @ [value])]\<rparr>,
          nodeIdx))"

definition AC_AddFullMatcher ::
  "gostring \<Rightarrow> u32 \<Rightarrow> ACAutomatonMatcherGroup \<Rightarrow> ACAutomatonMatcherGroup" where
  "AC_AddFullMatcher m value ac = fst (addPattern 0 m Full value ac)"

definition AC_AddDomainMatcher ::
  "gostring \<Rightarrow> u32 \<Rightarrow> ACAutomatonMatcherGroup \<Rightarrow> ACAutomatonMatcherGroup" where
  "AC_AddDomainMatcher m value ac =
     (let (ac, node) = addPattern 0 m Domain value ac
      in fst (addPattern node [dot] Domain value ac))"

definition AC_AddSubstrMatcher ::
  "gostring \<Rightarrow> u32 \<Rightarrow> ACAutomatonMatcherGroup \<Rightarrow> ACAutomatonMatcherGroup" where
  "AC_AddSubstrMatcher m value ac = fst (addPattern 0 m Substr value ac)"

text \<open>
  \<open>Build\<close>: the state of the walk is the nodes, the full fail links and the queue. \<open>build_edges\<close> is
  the loop over the edges of one node \<open>u\<close>, from edge \<open>k\<close> on; \<open>f\<close> is the fail node of \<open>u\<close>.
\<close>

type_synonym build_state = "acNode list \<times> nat list \<times> nat list"

definition substr_node :: "acValue list \<Rightarrow> acNode \<Rightarrow> bool" where
  "substr_node values node = (ac_match node \<noteq> 0 \<and> length ((values ! ac_match node) Substr) > 0)"

definition build_edge :: "acValue list \<Rightarrow> nat \<Rightarrow> nat \<Rightarrow> nat \<Rightarrow> build_state \<Rightarrow> build_state" where
  "build_edge values u f edgeIdx = (\<lambda>(nodes, fail, queue).
     let nodeIdx = ac_next (nodes ! u) edgeIdx;
         failIdx = ac_next (nodes ! f) edgeIdx
     in if nodeIdx \<noteq> 0 then
          (nodes[nodeIdx := (nodes ! nodeIdx)\<lparr>ac_fail :=
             (if substr_node values (nodes ! failIdx) then failIdx else ac_fail (nodes ! failIdx))\<rparr>],
           fail[nodeIdx := failIdx], queue @ [nodeIdx])
        else (set_next u edgeIdx failIdx acFailEdge nodes, fail, queue))"

definition build_node :: "acValue list \<Rightarrow> nat \<Rightarrow> build_state \<Rightarrow> build_state" where
  "build_node values u = (\<lambda>(nodes, fail, queue).
     fold (build_edge values u (fail ! u)) [0 ..< acValidCharCount] (nodes, fail, queue))"

partial_function (option) build_loop :: "acValue list \<Rightarrow> build_state \<Rightarrow> acNode list option" where
  "build_loop values s =
     (case s of (nodes, fail, queue) \<Rightarrow>
        if queue = [] then Some nodes
        else build_loop values (build_node values (hd queue) (nodes, fail, tl queue)))"

definition AC_Build :: "ACAutomatonMatcherGroup \<Rightarrow> ACAutomatonMatcherGroup option" where
  "AC_Build ac = do {
     let fail = replicate (length (ac_nodes ac)) 0;
     let queue = filter (\<lambda>nextIdx. nextIdx \<noteq> 0)
       (map (ac_next (ac_nodes ac ! 0)) [0 ..< acValidCharCount]);
     nodes \<leftarrow> build_loop (ac_values ac) (ac_nodes ac, fail, queue);
     Some (ac\<lparr>ac_nodes := nodes\<rparr>)
   }"

text \<open>
  The fail-path loop of \<open>Match\<close>. The post statement assigns both variables at once, so the new
  \<open>failNode\<close> is the node of the \<^emph>\<open>old\<close> \<open>failIdx\<close>.
\<close>

partial_function (option) fail_path ::
  "ACAutomatonMatcherGroup \<Rightarrow> nat \<Rightarrow> nat \<Rightarrow> u32 list list \<Rightarrow> u32 list list option" where
  "fail_path ac failIdx failNode substrMatches =
     (if failIdx = 0 then Some substrMatches
      else fail_path ac (ac_fail (ac_nodes ac ! failNode)) failIdx
        (substrMatches @ [(ac_values ac ! ac_match (ac_nodes ac ! failNode)) Substr]))"

text \<open>One turn of the loop over the input, for the byte \<open>c\<close>.\<close>

fun AC_Match_loop ::
  "ACAutomatonMatcherGroup \<Rightarrow> gostring \<Rightarrow> bool \<Rightarrow> nat \<Rightarrow> u32 list list \<Rightarrow> u32 list list \<Rightarrow>
   (bool \<times> nat \<times> u32 list list \<times> u32 list list) option" where
  "AC_Match_loop ac [] fullMatch node suffixMatches substrMatches =
     Some (fullMatch, node, suffixMatches, substrMatches)"
| "AC_Match_loop ac (c # cs) fullMatch node suffixMatches substrMatches =
     (let edge = acCharset c;
          fullMatch = (fullMatch \<and> ac_edge (ac_nodes ac ! node) edge = acTrieEdge);
          node = ac_next (ac_nodes ac ! node) edge;
          nd = ac_nodes ac ! node
      in do {
        substrMatches \<leftarrow>
          (if ac_fail nd \<noteq> 0 then fail_path ac (ac_fail nd) (ac_fail nd) substrMatches
           else Some substrMatches);
        let values = ac_values ac ! ac_match nd;
        let substrMatches =
          (if ac_match nd \<noteq> 0 \<and> length (values Substr) > 0 then substrMatches @ [values Substr]
           else substrMatches);
        let suffixMatches =
          (if ac_match nd \<noteq> 0 \<and> fullMatch \<and> c = dot \<and> length (values Domain) > 0
           then suffixMatches @ [values Domain] else suffixMatches);
        AC_Match_loop ac cs fullMatch node suffixMatches substrMatches
      })"

definition AC_Match :: "ACAutomatonMatcherGroup \<Rightarrow> gostring \<Rightarrow> u32 list option" where
  "AC_Match ac input = do {
     (fullMatch, node, suffixMatches, substrMatches) \<leftarrow> AC_Match_loop ac (rev input) True 0 [] [];
     let nd = ac_nodes ac ! node;
     let values = ac_values ac ! ac_match nd;
     let suffixMatches =
       (if fullMatch \<and> ac_match nd \<noteq> 0 then
          let s = (if length (values Domain) > 0 then suffixMatches @ [values Domain] else suffixMatches)
          in if length (values Full) > 0 then s @ [values Full] else s
        else suffixMatches);
     Some (if length substrMatches = 0 then CompositeMatchesReverse suffixMatches
           else CompositeMatchesReverse (substrMatches @ suffixMatches))
   }"

fun AC_MatchAny_loop :: "ACAutomatonMatcherGroup \<Rightarrow> gostring \<Rightarrow> bool \<Rightarrow> nat \<Rightarrow> bool" where
  "AC_MatchAny_loop ac [] fullMatch node = (fullMatch \<and> ac_match (ac_nodes ac ! node) \<noteq> 0)"
| "AC_MatchAny_loop ac (c # cs) fullMatch node =
     (let edge = acCharset c;
          fullMatch = (fullMatch \<and> ac_edge (ac_nodes ac ! node) edge = acTrieEdge);
          node = ac_next (ac_nodes ac ! node) edge;
          nd = ac_nodes ac ! node;
          values = ac_values ac ! ac_match nd
      in if ac_fail nd \<noteq> 0 then True
         else if ac_match nd \<noteq> 0 \<and> length (values Substr) > 0 then True
         else if ac_match nd \<noteq> 0 \<and> fullMatch \<and> c = dot \<and> length (values Domain) > 0 then True
         else AC_MatchAny_loop ac cs fullMatch node)"

definition AC_MatchAny :: "ACAutomatonMatcherGroup \<Rightarrow> gostring \<Rightarrow> bool" where
  "AC_MatchAny ac input = AC_MatchAny_loop ac (rev input) True 0"

section \<open>Longest suffixes\<close>

text \<open>The longest suffix of a word that belongs to a set, or the empty word.\<close>

primrec lsuf :: "'a list set \<Rightarrow> 'a list \<Rightarrow> 'a list" where
  "lsuf T [] = []"
| "lsuf T (x # xs) = (if x # xs \<in> T then x # xs else lsuf T xs)"

definition prefix_closed :: "'a list set \<Rightarrow> bool" where
  "prefix_closed T = ([] \<in> T \<and> (\<forall>x c. x @ [c] \<in> T \<longrightarrow> x \<in> T))"

lemma lsuf_suffix: "suffix (lsuf T x) x"
  by (induction x) (auto intro: suffix_ConsI)

lemma lsuf_in: "lsuf T x \<in> T \<or> lsuf T x = []"
  by (induction x) auto

lemma lsuf_self: "x \<in> T \<Longrightarrow> lsuf T x = x"
  by (cases x) auto

lemma lsuf_longest: "suffix z x \<Longrightarrow> z \<in> T \<Longrightarrow> suffix z (lsuf T x)"
  by (induction x) (auto simp: suffix_Cons)

lemma lsuf_unique:
  assumes "suffix y x" "y \<in> T \<or> y = []" "\<And>z. suffix z x \<Longrightarrow> z \<in> T \<Longrightarrow> suffix z y"
  shows "lsuf T x = y"
proof -
  have "suffix (lsuf T x) y"
    using assms(3) lsuf_suffix lsuf_in by (metis Nil_suffix)
  moreover have "suffix y (lsuf T x)"
    using assms(1,2) lsuf_longest by (metis Nil_suffix)
  ultimately show ?thesis by (metis suffix_order.antisym)
qed

lemma lsuf_drop: "x \<notin> T \<Longrightarrow> lsuf T x = lsuf T (tl x)"
  by (cases x) auto

text \<open>Reading one more letter from the longest suffix is the same as reading it from the word.\<close>

lemma lsuf_step:
  assumes "prefix_closed T"
  shows "lsuf T (lsuf T x @ [c]) = lsuf T (x @ [c])"
proof (rule sym, rule lsuf_unique)
  have "suffix (lsuf T x @ [c]) (x @ [c])"
    using lsuf_suffix [of T x] by simp
  then show "suffix (lsuf T (lsuf T x @ [c])) (x @ [c])"
    using lsuf_suffix suffix_order.trans by blast
  show "lsuf T (lsuf T x @ [c]) \<in> T \<or> lsuf T (lsuf T x @ [c]) = []" by (rule lsuf_in)
  fix z assume z: "suffix z (x @ [c])" "z \<in> T"
  show "suffix z (lsuf T (lsuf T x @ [c]))"
  proof (cases z rule: rev_cases)
    case (snoc y d)
    then have "d = c" "suffix y x" "y \<in> T"
      using z assms by (auto simp: prefix_closed_def)
    then have "suffix z (lsuf T x @ [c])"
      using snoc lsuf_longest by simp
    then show ?thesis using z(2) by (rule lsuf_longest)
  qed simp
qed

lemma lsuf_subset: "M \<subseteq> T \<Longrightarrow> lsuf M (lsuf T x) = lsuf M x"
  by (induction x) auto

lemma lsuf_nonempty_iff: "[] \<notin> M \<Longrightarrow> lsuf M w \<noteq> [] \<longleftrightarrow> (\<exists>z \<in> M. suffix z w)"
  by (induction w) (auto simp: suffix_Cons)

section \<open>Insertion\<close>

text \<open>
  \<open>ps ! i\<close> is the word that leads from the root to node \<open>i\<close>. \<open>codes p\<close> is the word of a pattern.
\<close>

definition codes :: "gostring \<Rightarrow> nat list" where
  "codes p = map acCharset (rev p)"

definition ac_child :: "nat list list \<Rightarrow> acNode list \<Rightarrow> nat \<Rightarrow> nat \<Rightarrow> bool" where
  "ac_child ps ns i c =
     (if ps ! i @ [c] \<in> set ps
      then ac_next (ns ! i) c \<noteq> 0 \<and> ac_next (ns ! i) c < length ps \<and>
           ps ! ac_next (ns ! i) c = ps ! i @ [c] \<and> ac_edge (ns ! i) c = acTrieEdge
      else ac_next (ns ! i) c = 0 \<and> ac_edge (ns ! i) c = acFailEdge)"

definition ac_words :: "nat list list \<Rightarrow> bool" where
  "ac_words ps = (ps \<noteq> [] \<and> ps ! 0 = [] \<and> distinct ps \<and> prefix_closed (set ps) \<and>
     (\<forall>w \<in> set ps. \<forall>c \<in> set w. c < acValidCharCount))"

definition ac_tree :: "nat list list \<Rightarrow> acNode list \<Rightarrow> bool" where
  "ac_tree ps ns = (ac_words ps \<and> length ns = length ps \<and> (\<forall>i < length ps. \<forall>c. ac_child ps ns i c))"

lemma acCharset_less: "acCharset c < acValidCharCount"
proof -
  have "is_upper c \<Longrightarrow> unat c \<le> 0x5a" "is_lower c \<Longrightarrow> unat c \<le> 0x7a" "is_digit c \<Longrightarrow> unat c \<le> 0x39"
    by (auto simp: is_upper_def is_lower_def is_digit_def word8_le_iff)
  then show ?thesis by (auto simp: acCharset_def acValidCharCount_def)
qed

text \<open>What the nodes carry: the values under a word and a type, in the order of the additions.\<close>

definition node_values :: "acValue list \<Rightarrow> acNode \<Rightarrow> matcher_type \<Rightarrow> u32 list" where
  "node_values vs n t = (if ac_match n = 0 then [] else (vs ! ac_match n) t)"

type_synonym ac_entry = "(nat list \<times> matcher_type) \<times> u32"

definition ac_matches :: "nat list list \<Rightarrow> acNode list \<Rightarrow> acValue list \<Rightarrow> ac_entry list \<Rightarrow> bool" where
  "ac_matches ps ns vs es =
     (vs \<noteq> [] \<and> (\<forall>e \<in> set es. fst (fst e) \<in> set ps) \<and>
      (\<forall>i < length ps. ac_match (ns ! i) < length vs \<and>
        (\<forall>t. node_values vs (ns ! i) t = values_of (\<lambda>k. k = (ps ! i, t)) es) \<and>
        (ac_match (ns ! i) \<noteq> 0 \<longrightarrow> (\<exists>e \<in> set es. fst (fst e) = ps ! i)) \<and>
        (\<forall>j < length ps. ac_match (ns ! i) = ac_match (ns ! j) \<and> ac_match (ns ! i) \<noteq> 0 \<longrightarrow> i = j)))"

definition ac_rep :: "nat list list \<Rightarrow> ACAutomatonMatcherGroup \<Rightarrow> ac_entry list \<Rightarrow> bool" where
  "ac_rep ps ac es = (ac_tree ps (ac_nodes ac) \<and> ac_matches ps (ac_nodes ac) (ac_values ac) es \<and>
     (\<forall>i < length ps. ac_fail (ac_nodes ac ! i) = 0))"

lemma ac_rep_New: "ac_rep [[]] NewACAutomatonMatcherGroup []"
  by (simp add: ac_rep_def NewACAutomatonMatcherGroup_def addNode_def addMatchEntry_def ac_tree_def
      ac_words_def ac_child_def prefix_closed_def ac_matches_def node_values_def acFailEdge_def)

lemma root_iff: "ac_words ps \<Longrightarrow> i < length ps \<Longrightarrow> ps ! i = [] \<longleftrightarrow> i = 0"
  unfolding ac_words_def by (metis length_greater_0_conv nth_eq_iff_index_eq)

lemma ac_words_snoc:
  assumes "ac_words ps" "i < length ps" "ps ! i @ [c] \<notin> set ps" "c < acValidCharCount"
  shows "ac_words (ps @ [ps ! i @ [c]])"
  using assms by (auto simp: ac_words_def prefix_closed_def nth_append)

lemma ac_tree_snoc:
  assumes tree: "ac_tree ps (ac_nodes ac)" and i: "i < length ps"
    and new: "ps ! i @ [c] \<notin> set ps" and c: "c < acValidCharCount"
  shows "ac_tree (ps @ [ps ! i @ [c]])
    (set_next i c (length ps) acTrieEdge (ac_nodes (fst (addNode ac))))"
proof -
  let ?q = "ps ! i @ [c]"
  let ?ps = "ps @ [?q]"
  let ?ns = "set_next i c (length ps) acTrieEdge (ac_nodes (fst (addNode ac)))"
  have w: "ac_words ps" and len: "length (ac_nodes ac) = length ps"
    and ch: "\<And>j d. j < length ps \<Longrightarrow> ac_child ps (ac_nodes ac) j d"
    using tree by (auto simp: ac_tree_def)
  have w': "ac_words ?ps" using ac_words_snoc [OF w i new c] .
  have ns: "?ns ! j = (if j = i then (ac_nodes ac ! i)
        \<lparr>ac_next := (ac_next (ac_nodes ac ! i))(c := length ps),
         ac_edge := (ac_edge (ac_nodes ac ! i))(c := acTrieEdge)\<rparr> else ac_nodes ac ! j)"
    if "j < length ps" for j
    using that i len by (auto simp: set_next_def addNode_def nth_append nth_list_update)
  have last: "?ns ! length ps = \<lparr>ac_next = \<lambda>_. 0, ac_edge = \<lambda>_. 0, ac_fail = 0, ac_match = 0\<rparr>"
    using i len by (auto simp: set_next_def addNode_def nth_append nth_list_update)
  have ne: "length ps \<noteq> 0" using i by auto
  have "ac_child ?ps ?ns j d" if j: "j < length ?ps" for j d
  proof (cases "j = length ps")
    case True
    have "?q @ [d] \<notin> set ?ps"
    proof
      assume "?q @ [d] \<in> set ?ps"
      then have "?q @ [d] \<in> set ps" by auto
      then show False using w new by (auto simp: ac_words_def prefix_closed_def simp del: append_assoc)
    qed
    then show ?thesis
      using True last by (simp add: ac_child_def acFailEdge_def)
  next
    case False
    then have j: "j < length ps" using that by simp
    have q: "ps ! j @ [d] = ?q \<longleftrightarrow> j = i \<and> d = c"
      using w j i by (auto simp: ac_words_def nth_eq_iff_index_eq)
    show ?thesis
      using ch [OF j, of d] q ns [OF j] j new ne
      by (auto simp: ac_child_def nth_append split: if_splits)
  qed
  moreover have "length ?ns = length ?ps"
    using len by (simp add: set_next_def addNode_def)
  ultimately show ?thesis using w' by (simp add: ac_tree_def)
qed

lemma ac_matches_snoc:
  assumes m: "ac_matches ps (ac_nodes ac) (ac_values ac) es"
    and len: "length (ac_nodes ac) = length ps" and i: "i < length ps" and new: "q \<notin> set ps"
  shows "ac_matches (ps @ [q]) (set_next i c (length ps) acTrieEdge (ac_nodes (fst (addNode ac))))
    (ac_values ac) es"
proof -
  let ?ns = "set_next i c (length ps) acTrieEdge (ac_nodes (fst (addNode ac)))"
  have old: "ac_match (?ns ! j) = ac_match (ac_nodes ac ! j)" if "j < length ps" for j
    using that i len by (auto simp: set_next_def addNode_def nth_append nth_list_update)
  have lastn: "ac_match (?ns ! length ps) = 0"
    using i len by (auto simp: set_next_def addNode_def nth_append nth_list_update)
  have es: "fst (fst e) \<noteq> q" if "e \<in> set es" for e
    using m new that by (auto simp: ac_matches_def)
  then have "values_of (\<lambda>k. k = (q, t)) es = []" for t
    by (force simp: values_of_empty_iff)
  then show ?thesis
    using m old lastn unfolding ac_matches_def node_values_def
    by (auto simp: nth_append less_Suc_eq)
qed

lemma addPattern_loop_rep:
  assumes "ac_rep ps ac es" "i < length ps"
  shows "\<exists>qs. case addPattern_loop cs ac i of (ac', j) \<Rightarrow>
    ac_rep (ps @ qs) ac' es \<and> ac_values ac' = ac_values ac \<and>
    j < length (ps @ qs) \<and> (ps @ qs) ! j = ps ! i @ map acCharset cs"
  using assms
proof (induction cs arbitrary: ps ac i)
  case Nil
  then show ?case by (intro exI [of _ "[]"]) simp
next
  case (Cons c cs)
  let ?e = "acCharset c"
  let ?n = "ac_next (ac_nodes ac ! i) ?e"
  have tree: "ac_tree ps (ac_nodes ac)" and m: "ac_matches ps (ac_nodes ac) (ac_values ac) es"
    using Cons.prems by (auto simp: ac_rep_def)
  have ch: "ac_child ps (ac_nodes ac) i ?e" and len: "length (ac_nodes ac) = length ps"
    using tree Cons.prems by (auto simp: ac_tree_def)
  show ?case
  proof (cases "ps ! i @ [?e] \<in> set ps")
    case True
    then have n: "?n \<noteq> 0" "?n < length ps" "ps ! ?n = ps ! i @ [?e]"
      using ch by (auto simp: ac_child_def)
    then show ?thesis
      using Cons.IH [OF Cons.prems(1) n(2)] by (simp add: Let_def)
  next
    case False
    let ?ps = "ps @ [ps ! i @ [?e]]"
    let ?ac = "(fst (addNode ac))\<lparr>ac_nodes := set_next i ?e (length ps) acTrieEdge (ac_nodes (fst (addNode ac)))\<rparr>"
    have n: "?n = 0" using ch False by (auto simp: ac_child_def)
    have "ac_rep ?ps ?ac es"
      unfolding ac_rep_def
      using ac_tree_snoc [OF tree Cons.prems(2) False acCharset_less]
        ac_matches_snoc [OF m len Cons.prems(2) False] Cons.prems len
      by (auto simp: addNode_def ac_rep_def set_next_def nth_append nth_list_update less_Suc_eq)
    then obtain qs where "case addPattern_loop cs ?ac (length ps) of (ac', j) \<Rightarrow>
        ac_rep (?ps @ qs) ac' es \<and> ac_values ac' = ac_values ?ac \<and>
        j < length (?ps @ qs) \<and> (?ps @ qs) ! j = ?ps ! length ps @ map acCharset cs"
      using Cons.IH [of ?ps ?ac "length ps"] by auto
    then show ?thesis
      using n len
      by (intro exI [of _ "(ps ! i @ [?e]) # qs"]) (simp add: Let_def addNode_def)
  qed
qed

lemma ac_matchesD:
  assumes "ac_matches ps ns vs es" "i < length ps"
  shows "ac_match (ns ! i) < length vs"
    and "node_values vs (ns ! i) t = values_of (\<lambda>k. k = (ps ! i, t)) es"
    and "ac_match (ns ! i) \<noteq> 0 \<Longrightarrow> \<exists>e \<in> set es. fst (fst e) = ps ! i"
    and "j < length ps \<Longrightarrow> ac_match (ns ! i) = ac_match (ns ! j) \<Longrightarrow> ac_match (ns ! i) \<noteq> 0 \<Longrightarrow> i = j"
  using assms unfolding ac_matches_def by blast+

lemma ac_matches_add:
  assumes m: "ac_matches ps ns vs es" and d: "distinct ps" and j: "j < length ps" "length ns = length ps"
    and mj: "ac_match (ns ! j) \<noteq> 0"
  shows "ac_matches ps ns
    (vs[ac_match (ns ! j) := (vs ! ac_match (ns ! j))(t := (vs ! ac_match (ns ! j)) t @ [v])])
    (es @ [((ps ! j, t), v)])"
proof -
  let ?vs = "vs[ac_match (ns ! j) := (vs ! ac_match (ns ! j))(t := (vs ! ac_match (ns ! j)) t @ [v])]"
  have bnd: "ac_match (ns ! i) < length vs" if "i < length ps" for i
    using m that by (simp add: ac_matches_def)
  have inj: "ac_match (ns ! i) = ac_match (ns ! j) \<Longrightarrow> i = j" if "i < length ps" for i
    using m that j mj by (auto simp: ac_matches_def)
  have "node_values ?vs (ns ! i) t' = node_values vs (ns ! i) t' @ (if i = j \<and> t' = t then [v] else [])"
    if i: "i < length ps" for i t'
    using inj [OF i] bnd [OF j(1)] mj by (auto simp: node_values_def nth_list_update)
  then have "node_values ?vs (ns ! i) t' = values_of (\<lambda>k. k = (ps ! i, t')) (es @ [((ps ! j, t), v)])"
    if i: "i < length ps" for i t'
    using i d j ac_matchesD(2) [OF m i] by (auto simp: nth_eq_iff_index_eq)
  then show ?thesis
    using m j unfolding ac_matches_def by auto
qed

lemma ac_matches_new:
  assumes m: "ac_matches ps ns vs es" and d: "distinct ps" and j: "j < length ps" "length ns = length ps"
    and mj: "ac_match (ns ! j) = 0"
  shows "ac_matches ps (ns[j := (ns ! j)\<lparr>ac_match := length vs\<rparr>])
    ((vs @ [\<lambda>_. []])[length vs := (\<lambda>_. [])(t := [v])]) (es @ [((ps ! j, t), v)])"
proof -
  let ?ns = "ns[j := (ns ! j)\<lparr>ac_match := length vs\<rparr>]"
  let ?vs = "(vs @ [\<lambda>_. []])[length vs := (\<lambda>_. [])(t := [v])]"
  have bnd: "ac_match (ns ! i) < length vs" if "i < length ps" for i
    using m that by (simp add: ac_matches_def)
  have vs: "vs \<noteq> []" using m by (simp add: ac_matches_def)
  have match: "ac_match (?ns ! i) = (if i = j then length vs else ac_match (ns ! i))"
    if "i < length ps" for i using that j by (simp add: nth_list_update)
  have "node_values ?vs (?ns ! i) t' = values_of (\<lambda>k. k = (ps ! i, t')) (es @ [((ps ! j, t), v)])"
    if i: "i < length ps" for i t'
  proof (cases "i = j")
    case True
    then show ?thesis
      using match [OF i] vs ac_matchesD(2) [OF m j(1), of t'] mj by (simp add: node_values_def)
  next
    case False
    then have "node_values ?vs (?ns ! i) t' = node_values vs (ns ! i) t'"
      using match [OF i] bnd [OF i] by (simp add: node_values_def nth_append)
    moreover have "(ps ! i, t') \<noteq> (ps ! j, t)" using d j i False by (auto simp: nth_eq_iff_index_eq)
    ultimately show ?thesis using ac_matchesD(2) [OF m i] by auto
  qed
  moreover have "i = k" if "i < length ps" "k < length ps" "ac_match (?ns ! i) = ac_match (?ns ! k)"
      "ac_match (?ns ! i) \<noteq> 0" for i k
    using that m bnd [of i] bnd [of k] unfolding match [OF that(1)] match [OF that(2)] ac_matches_def
    by (auto split: if_splits)
  moreover have "ac_match (?ns ! i) < length ?vs" if "i < length ps" for i
    using match [OF that] bnd [OF that] by (simp split: if_splits)
  moreover have "\<exists>e \<in> set (es @ [((ps ! j, t), v)]). fst (fst e) = ps ! i"
    if "i < length ps" "ac_match (?ns ! i) \<noteq> 0" for i
    using that m match [OF that(1)] by (auto simp: ac_matches_def split: if_splits)
  ultimately show ?thesis
    using m vs j unfolding ac_matches_def by auto
qed

lemma ac_tree_match:
  "ac_tree ps (ns[j := (ns ! j)\<lparr>ac_match := m\<rparr>]) \<longleftrightarrow> ac_tree ps ns"
proof -
  have "ac_next (ns[j := (ns ! j)\<lparr>ac_match := m\<rparr>] ! i) = ac_next (ns ! i)"
    "ac_edge (ns[j := (ns ! j)\<lparr>ac_match := m\<rparr>] ! i) = ac_edge (ns ! i)" if "i < length ns" for i
    using that by (cases "i = j"; simp)+
  then show ?thesis by (auto simp: ac_tree_def ac_child_def)
qed

lemma addPattern_rep:
  assumes "ac_rep ps ac es" "i < length ps"
  shows "\<exists>qs. case addPattern i p t v ac of (ac', j) \<Rightarrow>
    ac_rep (ps @ qs) ac' (es @ [((ps ! i @ codes p, t), v)]) \<and>
    j < length (ps @ qs) \<and> (ps @ qs) ! j = ps ! i @ codes p"
proof -
  obtain ac1 j where loop: "addPattern_loop (rev p) ac i = (ac1, j)" by force
  obtain qs where rep: "ac_rep (ps @ qs) ac1 es" and j: "j < length (ps @ qs)"
      and w: "(ps @ qs) ! j = ps ! i @ codes p"
    using addPattern_loop_rep [OF assms, of "rev p"] loop by (auto simp: codes_def)
  let ?ps = "ps @ qs"
  have tree: "ac_tree ?ps (ac_nodes ac1)"
    and m: "ac_matches ?ps (ac_nodes ac1) (ac_values ac1) es"
    using rep by (auto simp: ac_rep_def)
  have nf: "ac_fail (ac_nodes ac1 ! k) = 0" if "k < length ?ps" for k
    using rep that by (auto simp: ac_rep_def)
  have len: "length (ac_nodes ac1) = length ?ps" and d: "distinct ?ps"
    using tree by (auto simp: ac_tree_def ac_words_def)
  let ?m = "ac_match (ac_nodes ac1 ! j)"
  show ?thesis
  proof (cases "?m = 0")
    case True
    then have "addPattern i p t v ac = (\<lparr>
        ac_nodes = (ac_nodes ac1)[j := (ac_nodes ac1 ! j)\<lparr>ac_match := length (ac_values ac1)\<rparr>],
        ac_values = (ac_values ac1 @ [\<lambda>_. []])[length (ac_values ac1) := (\<lambda>_. [])(t := [v])]\<rparr>, j)"
      using j len by (simp add: addPattern_def loop Let_def addMatchEntry_def)
    then show ?thesis
      using ac_matches_new [OF m d j len True, of t v] tree j w nf len
      by (intro exI [of _ qs]) (simp add: ac_rep_def ac_tree_match nth_list_update)
  next
    case False
    then have "addPattern i p t v ac = (ac1\<lparr>ac_values := (ac_values ac1)
        [?m := (ac_values ac1 ! ?m)(t := (ac_values ac1 ! ?m) t @ [v])]\<rparr>, j)"
      by (simp add: addPattern_def loop Let_def)
    then show ?thesis
      using ac_matches_add [OF m d j len False, of t v] tree j w nf
      by (intro exI [of _ qs]) (simp add: ac_rep_def)
  qed
qed

section \<open>Building\<close>

text \<open>
  The invariant of the walk. \<open>N0\<close> are the nodes before \<open>Build\<close>; \<open>M\<close> is the set of the words of the
  substring patterns. \<open>D\<close> are the nodes that are done (the root from the start), \<open>Q\<close> the queue: a
  done node has all its edges, a node that was put in the queue has its fail link and its
  compressed fail link, and the others are as they were.
\<close>

definition edges_done :: "nat list list \<Rightarrow> acNode list \<Rightarrow> nat \<Rightarrow> bool" where
  "edges_done ps ns i =
     (\<forall>c < acValidCharCount. ac_next (ns ! i) c < length ps \<and>
        ps ! ac_next (ns ! i) c = lsuf (set ps) (ps ! i @ [c]))"

definition fail_done :: "nat list list \<Rightarrow> nat list set \<Rightarrow> acNode list \<Rightarrow> nat list \<Rightarrow> nat \<Rightarrow> bool" where
  "fail_done ps M ns fl i =
     (fl ! i < length ps \<and> ps ! (fl ! i) = lsuf (set ps) (tl (ps ! i)) \<and>
      ac_fail (ns ! i) < length ps \<and> ps ! ac_fail (ns ! i) = lsuf M (tl (ps ! i)))"

definition same_tree :: "nat list list \<Rightarrow> acNode list \<Rightarrow> acNode list \<Rightarrow> bool" where
  "same_tree ps N0 ns =
     (length ns = length ps \<and>
      (\<forall>i < length ps. ac_match (ns ! i) = ac_match (N0 ! i) \<and> ac_edge (ns ! i) = ac_edge (N0 ! i)))"

definition bfs_order :: "nat list list \<Rightarrow> nat set \<Rightarrow> nat list \<Rightarrow> bool" where
  "bfs_order ps D Q =
     (0 \<in> D \<and> D \<inter> set Q = {} \<and> distinct Q \<and> D \<union> set Q \<subseteq> {..<length ps} \<and>
      (\<forall>i < length ps. i \<noteq> 0 \<longrightarrow>
         (i \<in> D \<union> set Q \<longleftrightarrow> (\<exists>d \<in> D. ps ! d = butlast (ps ! i)))) \<and>
      sorted (map (\<lambda>i. length (ps ! i)) Q) \<and>
      (Q \<noteq> [] \<longrightarrow> (\<forall>i \<in> set Q. length (ps ! i) \<le> Suc (length (ps ! hd Q)))))"

definition build_inv ::
  "nat list list \<Rightarrow> nat list set \<Rightarrow> acNode list \<Rightarrow> nat set \<Rightarrow> build_state \<Rightarrow> bool" where
  "build_inv ps M N0 D = (\<lambda>(ns, fl, Q).
     same_tree ps N0 ns \<and> length fl = length ps \<and> bfs_order ps D Q \<and>
     (\<forall>i \<in> D. edges_done ps ns i) \<and>
     (\<forall>i < length ps. i \<notin> D \<longrightarrow> ac_next (ns ! i) = ac_next (N0 ! i)) \<and>
     (\<forall>i \<in> D \<union> set Q. fail_done ps M ns fl i))"

text \<open>At the moment a node leaves the queue, all shorter words are done and all words of its
  length have been queued.\<close>

lemma bfs_visited:
  assumes w: "ac_words ps" and bfs: "bfs_order ps D (u # Q)"
    and i: "i < length ps" "length (ps ! i) \<le> length (ps ! u)"
  shows "i \<in> D \<union> set (u # Q)"
  using i
proof (induction "length (ps ! i)" arbitrary: i rule: less_induct)
  case less
  show ?case
  proof (cases "i = 0")
    case True
    then show ?thesis using bfs by (simp add: bfs_order_def)
  next
    case False
    then have ne: "ps ! i \<noteq> []"
      using w less.prems(1) by (metis ac_words_def length_greater_0_conv nth_eq_iff_index_eq)
    then have "butlast (ps ! i) @ [last (ps ! i)] \<in> set ps"
      using less.prems(1) by simp
    then have "butlast (ps ! i) \<in> set ps"
      using w unfolding ac_words_def prefix_closed_def by blast
    then obtain p where p: "p < length ps" "ps ! p = butlast (ps ! i)"
      by (metis in_set_conv_nth)
    have plen: "length (ps ! p) < length (ps ! i)" using ne p by simp
    then have "p \<in> D \<union> set (u # Q)"
      using less.hyps [of p] p less.prems by simp
    moreover have "p \<notin> set (u # Q)"
    proof
      assume "p \<in> set (u # Q)"
      then have "length (ps ! u) \<le> length (ps ! p)"
        using bfs by (auto simp: bfs_order_def)
      then show False using plen less.prems by simp
    qed
    ultimately show ?thesis
      using bfs p less.prems(1) False unfolding bfs_order_def by blast
  qed
qed

lemma bfs_done:
  assumes "ac_words ps" "bfs_order ps D (u # Q)" "i < length ps" "length (ps ! i) < length (ps ! u)"
  shows "i \<in> D"
proof -
  have "i \<in> D \<union> set (u # Q)" using bfs_visited assms by simp
  moreover have "i \<notin> set (u # Q)"
    using assms(2,4) by (auto simp: bfs_order_def)
  ultimately show ?thesis by blast
qed

text \<open>The children of a node over the first \<open>k\<close> edges, and the invariant of the loop over edges.\<close>

definition kids :: "acNode list \<Rightarrow> nat \<Rightarrow> nat \<Rightarrow> nat list" where
  "kids N0 u k = filter (\<lambda>v. v \<noteq> 0) (map (ac_next (N0 ! u)) [0 ..< k])"

definition edge_inv ::
  "nat list list \<Rightarrow> nat list set \<Rightarrow> acNode list \<Rightarrow> nat set \<Rightarrow> nat \<Rightarrow> nat list \<Rightarrow> nat \<Rightarrow>
   build_state \<Rightarrow> bool" where
  "edge_inv ps M N0 D u Q k = (\<lambda>(ns, fl, Q').
     same_tree ps N0 ns \<and> length fl = length ps \<and> Q' = Q @ kids N0 u k \<and>
     (\<forall>i \<in> D. edges_done ps ns i) \<and>
     (\<forall>i < length ps. i \<notin> insert u D \<longrightarrow> ac_next (ns ! i) = ac_next (N0 ! i)) \<and>
     (\<forall>c < k. ac_next (ns ! u) c < length ps \<and>
        ps ! ac_next (ns ! u) c = lsuf (set ps) (ps ! u @ [c])) \<and>
     (\<forall>c \<ge> k. ac_next (ns ! u) c = ac_next (N0 ! u) c) \<and>
     (\<forall>i \<in> D \<union> {u} \<union> set Q'. fail_done ps M ns fl i))"

lemma kids_Suc: "kids N0 u (Suc k) =
    kids N0 u k @ (if ac_next (N0 ! u) k = 0 then [] else [ac_next (N0 ! u) k])"
  by (simp add: kids_def)

lemma kids_iff:
  assumes "ac_tree ps N0" "u < length ps"
  shows "v \<in> set (kids N0 u k) \<longleftrightarrow> v < length ps \<and> (\<exists>c < k. ps ! v = ps ! u @ [c])"
proof -
  have d: "distinct ps" and ch: "ac_child ps N0 u c" for c
    using assms by (auto simp: ac_tree_def ac_words_def)
  have "(\<exists>c < k. ac_next (N0 ! u) c = v \<and> v \<noteq> 0) \<longleftrightarrow> (\<exists>c < k. v < length ps \<and> ps ! v = ps ! u @ [c])"
  proof (rule ex_cong1, rule conj_cong [OF refl])
    fix c
    show "ac_next (N0 ! u) c = v \<and> v \<noteq> 0 \<longleftrightarrow> v < length ps \<and> ps ! v = ps ! u @ [c]"
  proof
    assume "ac_next (N0 ! u) c = v \<and> v \<noteq> 0"
    then show "v < length ps \<and> ps ! v = ps ! u @ [c]"
      using ch [of c] by (auto simp: ac_child_def split: if_splits)
  next
    assume v: "v < length ps \<and> ps ! v = ps ! u @ [c]"
    then have "ps ! u @ [c] \<in> set ps" by (metis nth_mem)
    then have "ac_next (N0 ! u) c \<noteq> 0" "ac_next (N0 ! u) c < length ps"
        "ps ! ac_next (N0 ! u) c = ps ! v"
      using ch [of c] v by (auto simp: ac_child_def)
    then show "ac_next (N0 ! u) c = v \<and> v \<noteq> 0"
      using v d by (metis nth_eq_iff_index_eq)
  qed
  qed
  moreover have "v \<in> set (kids N0 u k) \<longleftrightarrow> (\<exists>c < k. ac_next (N0 ! u) c = v \<and> v \<noteq> 0)"
    by (auto simp: kids_def)
  ultimately show ?thesis by blast
qed

text \<open>The fail target of an edge.\<close>

lemma fail_target:
  assumes w: "ac_words ps" and f: "ps ! f = lsuf (set ps) (tl (ps ! u))" and u: "ps ! u \<noteq> []"
    and e: "edges_done ps ns f" and c: "c < acValidCharCount"
  shows "ac_next (ns ! f) c < length ps \<and>
    ps ! ac_next (ns ! f) c = lsuf (set ps) (tl (ps ! u @ [c]))"
proof -
  have "lsuf (set ps) (ps ! f @ [c]) = lsuf (set ps) (tl (ps ! u) @ [c])"
    unfolding f using w by (intro lsuf_step) (simp add: ac_words_def)
  then show ?thesis using e c u by (simp add: edges_done_def)
qed

lemma compressed_fail:
  assumes "M \<subseteq> T" "g = lsuf T x"
  shows "lsuf M x = (if g \<in> M then g else lsuf M (tl g))"
  using assms lsuf_subset [OF assms(1), of x] lsuf_self [of g M] lsuf_drop [of g M] by auto

lemma edge_step:
  assumes tree: "ac_tree ps N0" and sub: "\<And>i. i < length ps \<Longrightarrow> substr_node vs (N0 ! i) \<longleftrightarrow> ps ! i \<in> M"
    and MT: "M \<subseteq> set ps"
    and bfs: "bfs_order ps D (u # Q)" and k: "k < acValidCharCount"
    and inv: "edge_inv ps M N0 D u Q k (ns, fl, Q')"
  shows "edge_inv ps M N0 D u Q (Suc k) (build_edge vs u (fl ! u) k (ns, fl, Q')) \<and>
    fst (snd (build_edge vs u (fl ! u) k (ns, fl, Q'))) ! u = fl ! u"
proof -
  have w: "ac_words ps" and dist: "distinct ps" using tree by (auto simp: ac_tree_def ac_words_def)
  have u: "u < length ps" "u \<notin> D" "0 \<in> D" using bfs by (auto simp: bfs_order_def)
  have une: "ps ! u \<noteq> []"
    using w u by (metis ac_words_def length_greater_0_conv nth_eq_iff_index_eq)
  have st: "same_tree ps N0 ns" and flen: "length fl = length ps" and Q': "Q' = Q @ kids N0 u k"
    and De: "\<And>i. i \<in> D \<Longrightarrow> edges_done ps ns i"
    and nx: "\<And>i. i < length ps \<Longrightarrow> i \<notin> insert u D \<Longrightarrow> ac_next (ns ! i) = ac_next (N0 ! i)"
    and lo: "\<And>c. c < k \<Longrightarrow> ac_next (ns ! u) c < length ps \<and>
        ps ! ac_next (ns ! u) c = lsuf (set ps) (ps ! u @ [c])"
    and hi: "\<And>c. k \<le> c \<Longrightarrow> ac_next (ns ! u) c = ac_next (N0 ! u) c"
    and fd: "\<And>i. i \<in> D \<union> {u} \<union> set Q' \<Longrightarrow> fail_done ps M ns fl i"
    using inv by (auto simp: edge_inv_def)
  have len: "length ns = length ps" using st by (simp add: same_tree_def)
  let ?f = "fl ! u"
  have f: "?f < length ps" "ps ! ?f = lsuf (set ps) (tl (ps ! u))"
    using fd [of u] by (auto simp: fail_done_def)
  have flt: "length (ps ! ?f) < length (ps ! u)"
    using f(2) lsuf_suffix [of "set ps" "tl (ps ! u)"] une
    by (metis length_tl diff_less length_greater_0_conv less_numeral_extra(1) order_le_less_trans suffix_length_le)
  then have fD: "?f \<in> D" using bfs_done [OF w bfs f(1)] by simp
  let ?g = "ac_next (ns ! ?f) k"
  have g: "?g < length ps" "ps ! ?g = lsuf (set ps) (tl (ps ! u @ [k]))"
    using fail_target [OF w f(2) une De [OF fD] k] by auto
  have ch: "ac_child ps N0 u k" using tree u by (auto simp: ac_tree_def)
  have nu: "ac_next (ns ! u) k = ac_next (N0 ! u) k" by (rule hi) simp
  show ?thesis
  proof (cases "ps ! u @ [k] \<in> set ps")
    case True
    let ?v = "ac_next (N0 ! u) k"
    have v: "?v \<noteq> 0" "?v < length ps" "ps ! ?v = ps ! u @ [k]"
      using ch True by (auto simp: ac_child_def)
    have "?v \<notin> D \<union> set (u # Q)"
    proof
      assume "?v \<in> D \<union> set (u # Q)"
      then obtain d where "d \<in> D" "ps ! d = ps ! u"
        using bfs v unfolding bfs_order_def by (metis butlast_snoc)
      moreover have "d < length ps" using \<open>d \<in> D\<close> bfs by (auto simp: bfs_order_def)
      ultimately show False using u dist by (metis nth_eq_iff_index_eq)
    qed
    moreover have "?v \<notin> set (kids N0 u k)"
      using v by (auto simp: kids_iff [OF tree u(1)])
    ultimately have fresh: "?v \<notin> D \<union> {u} \<union> set Q'" by (auto simp: Q')
    have "length (ps ! ?g) \<le> length (ps ! u)"
      using g(2) lsuf_suffix [of "set ps" "tl (ps ! u @ [k])"] by (metis suffix_length_le length_tl length_append_singleton diff_Suc_1)
    then have "?g \<in> D \<union> set (u # Q)" using bfs_visited [OF w bfs g(1)] by simp
    then have gfd: "fail_done ps M ns fl ?g" by (intro fd) (auto simp: Q')
    let ?fail = "if substr_node vs (ns ! ?g) then ?g else ac_fail (ns ! ?g)"
    have "substr_node vs (ns ! ?g) \<longleftrightarrow> ps ! ?g \<in> M"
      using sub [OF g(1)] st g(1) by (simp add: same_tree_def substr_node_def)
    then have cf: "?fail < length ps" "ps ! ?fail = lsuf M (tl (ps ! ?v))"
      using compressed_fail [OF MT g(2)] gfd g v(3) by (auto simp: fail_done_def)
    let ?ns = "ns[?v := (ns ! ?v)\<lparr>ac_fail := ?fail\<rparr>]"
    have same: "ac_next (?ns ! i) = ac_next (ns ! i)" "ac_edge (?ns ! i) = ac_edge (ns ! i)"
        "ac_match (?ns ! i) = ac_match (ns ! i)" for i
      using v len by (cases "i = ?v"; simp)+
    have "fail_done ps M ?ns (fl[?v := ?g]) i" if "i \<in> D \<union> {u} \<union> set Q'" for i
    proof -
      have "i \<noteq> ?v" using that fresh by blast
      then show ?thesis using fd [OF that] by (simp add: fail_done_def)
    qed
    moreover have "fail_done ps M ?ns (fl[?v := ?g]) ?v"
      using cf g v flen len by (simp add: fail_done_def)
    ultimately have "\<forall>i \<in> D \<union> {u} \<union> set (Q' @ [?v]). fail_done ps M ?ns (fl[?v := ?g]) i" by auto
    moreover have "build_edge vs u ?f k (ns, fl, Q') = (?ns, fl[?v := ?g], Q' @ [?v])"
      using v nu by (simp add: build_edge_def Let_def)
    moreover have "ac_next (ns ! u) c < length ps \<and> ps ! ac_next (ns ! u) c = lsuf (set ps) (ps ! u @ [c])"
      if "c < Suc k" for c
      using that lo [of c] v nu True by (cases "c = k") (auto simp: lsuf_self)
    moreover have "?v \<noteq> u" using fresh by blast
    ultimately show ?thesis
      using st flen Q' De nx hi v(1)
      by (simp add: edge_inv_def same_tree_def edges_done_def same kids_Suc)
  next
    case False
    then have z: "ac_next (N0 ! u) k = 0" "ac_edge (N0 ! u) k = acFailEdge"
      using ch by (auto simp: ac_child_def)
    let ?ns = "set_next u k ?g acFailEdge ns"
    have nsu: "?ns ! u = (ns ! u)\<lparr>ac_next := (ac_next (ns ! u))(k := ?g)\<rparr>"
    proof -
      have "(ac_edge (ns ! u))(k := acFailEdge) = ac_edge (ns ! u)"
        using st u z by (simp add: same_tree_def fun_upd_idem)
      then show ?thesis using u len by (simp add: set_next_def)
    qed
    have nso: "?ns ! i = ns ! i" if "i \<noteq> u" for i
      using that by (simp add: set_next_def)
    have same: "ac_edge (?ns ! i) = ac_edge (ns ! i)" "ac_match (?ns ! i) = ac_match (ns ! i)"
        "ac_fail (?ns ! i) = ac_fail (ns ! i)" for i
      using nsu nso [of i] by (cases "i = u"; simp)+
    have "edges_done ps ?ns i" if "i \<in> D" for i
    proof -
      have "i \<noteq> u" using that u by blast
      then show ?thesis using De [OF that] nso by (simp add: edges_done_def)
    qed
    moreover have "build_edge vs u ?f k (ns, fl, Q') = (?ns, fl, Q')"
      using z nu by (simp add: build_edge_def Let_def)
    moreover have "ac_next (?ns ! u) c < length ps \<and> ps ! ac_next (?ns ! u) c = lsuf (set ps) (ps ! u @ [c])"
      if "c < Suc k" for c
      using that lo [of c] g lsuf_drop [OF False] by (cases "c = k") (auto simp: nsu)
    moreover have "ac_next (?ns ! u) c = ac_next (N0 ! u) c" if "Suc k \<le> c" for c
      using that hi [of c] by (simp add: nsu)
    moreover have "length ?ns = length ps" by (simp add: set_next_def len)
    ultimately show ?thesis
      using st flen Q' nx nso z(1) fd
      by (simp add: edge_inv_def same_tree_def fail_done_def same kids_Suc)
  qed
qed

lemma edges_all:
  assumes tree: "ac_tree ps N0" and sub: "\<And>i. i < length ps \<Longrightarrow> substr_node vs (N0 ! i) \<longleftrightarrow> ps ! i \<in> M"
    and MT: "M \<subseteq> set ps" and inv: "build_inv ps M N0 D (ns, fl, u # Q)"
    and k: "k \<le> acValidCharCount"
  shows "edge_inv ps M N0 D u Q k (fold (build_edge vs u (fl ! u)) [0 ..< k] (ns, fl, Q)) \<and>
    fst (snd (fold (build_edge vs u (fl ! u)) [0 ..< k] (ns, fl, Q))) ! u = fl ! u"
  using k
proof (induction k)
  case 0
  have "u \<notin> D" "u < length ps" using inv by (auto simp: build_inv_def bfs_order_def)
  then show ?case
    using inv by (auto simp: build_inv_def edge_inv_def kids_def)
next
  case (Suc k)
  have bfs: "bfs_order ps D (u # Q)" using inv by (simp add: build_inv_def)
  obtain ns' fl' Q' where s: "fold (build_edge vs u (fl ! u)) [0 ..< k] (ns, fl, Q) = (ns', fl', Q')"
    by (metis prod_cases3)
  then have IH: "edge_inv ps M N0 D u Q k (ns', fl', Q')" and fl': "fl' ! u = fl ! u"
    using Suc by auto
  have "edge_inv ps M N0 D u Q (Suc k) (build_edge vs u (fl' ! u) k (ns', fl', Q')) \<and>
      fst (snd (build_edge vs u (fl' ! u) k (ns', fl', Q'))) ! u = fl' ! u"
    by (rule edge_step [OF tree sub MT bfs _ IH]) (use Suc.prems in simp_all)
  then show ?case by (simp add: s fl')
qed

lemma distinct_kids:
  assumes "ac_tree ps N0" "u < length ps"
  shows "distinct (kids N0 u k)"
proof (induction k)
  case (Suc k)
  have "ac_child ps N0 u k" using assms by (auto simp: ac_tree_def)
  then have "ac_next (N0 ! u) k \<notin> set (kids N0 u k)" if "ac_next (N0 ! u) k \<noteq> 0"
    using that by (auto simp: kids_iff [OF assms] ac_child_def split: if_splits)
  then show ?case using Suc by (simp add: kids_Suc)
qed (simp add: kids_def)

lemma kids_all:
  assumes tree: "ac_tree ps N0" and u: "u < length ps"
  shows "v \<in> set (kids N0 u acValidCharCount) \<longleftrightarrow> v < length ps \<and> v \<noteq> 0 \<and> ps ! u = butlast (ps ! v)"
proof -
  have w: "ps ! 0 = []" "distinct ps" "ps \<noteq> []"
      "\<And>x c. x \<in> set ps \<Longrightarrow> c \<in> set x \<Longrightarrow> c < acValidCharCount"
    using tree by (auto simp: ac_tree_def ac_words_def)
  have "(\<exists>c < acValidCharCount. ps ! v = ps ! u @ [c]) \<longleftrightarrow> v \<noteq> 0 \<and> ps ! u = butlast (ps ! v)"
    if v: "v < length ps"
  proof
    assume "v \<noteq> 0 \<and> ps ! u = butlast (ps ! v)"
    moreover have "ps ! v \<noteq> []" if "v \<noteq> 0"
      using w v that by (metis length_greater_0_conv nth_eq_iff_index_eq)
    ultimately have "ps ! v = ps ! u @ [last (ps ! v)]" "last (ps ! v) \<in> set (ps ! v)" by auto
    then show "\<exists>c < acValidCharCount. ps ! v = ps ! u @ [c]"
      using w(4) v by (metis nth_mem)
  next
    assume "\<exists>c < acValidCharCount. ps ! v = ps ! u @ [c]"
    then obtain c where "ps ! v = ps ! u @ [c]" by blast
    then show "v \<noteq> 0 \<and> ps ! u = butlast (ps ! v)" using w(1) by (cases "v = 0") auto
  qed
  then show ?thesis unfolding kids_iff [OF tree u] by blast
qed

lemma bfs_step:
  assumes tree: "ac_tree ps N0" and bfs: "bfs_order ps D (u # Q)"
  shows "bfs_order ps (insert u D) (Q @ kids N0 u acValidCharCount)"
proof -
  let ?K = "kids N0 u acValidCharCount"
  have w: "ac_words ps" "distinct ps" using tree by (auto simp: ac_tree_def ac_words_def)
  have u: "u < length ps" "u \<notin> D" using bfs by (auto simp: bfs_order_def)
  note K = kids_all [OF tree u(1)]
  have vis: "i \<in> D \<union> set (u # Q) \<longleftrightarrow> (\<exists>d \<in> D. ps ! d = butlast (ps ! i))" if "i < length ps" "i \<noteq> 0" for i
    using bfs that by (simp add: bfs_order_def)
  have Dlen: "d < length ps" if "d \<in> D" for d using bfs that by (auto simp: bfs_order_def)
  have fresh: "v \<notin> D \<union> set (u # Q)" if v: "v \<in> set ?K" for v
  proof
    assume "v \<in> D \<union> set (u # Q)"
    then obtain d where "d \<in> D" "ps ! d = ps ! u" using vis [of v] v K by metis
    then show False using u Dlen w(2) by (metis nth_eq_iff_index_eq)
  qed
  have klen: "length (ps ! v) = Suc (length (ps ! u))" if "v \<in> set ?K" for v
    using that kids_iff [OF tree u(1)] by auto
  have Qlen: "length (ps ! u) \<le> length (ps ! q)" "length (ps ! q) \<le> Suc (length (ps ! u))"
    if "q \<in> set Q" for q using bfs that by (auto simp: bfs_order_def)
  have "sorted (map (\<lambda>i. length (ps ! i)) ?K)"
    using klen by (auto simp: sorted_iff_nth_mono)
  moreover have "sorted (map (\<lambda>i. length (ps ! i)) Q)" using bfs by (simp add: bfs_order_def)
  ultimately have c4: "sorted (map (\<lambda>i. length (ps ! i)) (Q @ ?K))"
    using klen Qlen by (auto simp: sorted_append)
  have c5: "length (ps ! i) \<le> Suc (length (ps ! hd (Q @ ?K)))"
    if i: "i \<in> set (Q @ ?K)" for i
  proof -
    have "hd (Q @ ?K) \<in> set (Q @ ?K)" using i by (metis hd_in_set empty_iff list.set(1))
    then have "length (ps ! u) \<le> length (ps ! hd (Q @ ?K))"
      using klen [of "hd (Q @ ?K)"] Qlen(1) [of "hd (Q @ ?K)"] by auto
    moreover have "length (ps ! i) \<le> Suc (length (ps ! u))"
      using i klen [of i] Qlen(2) [of i] by auto
    ultimately show ?thesis by simp
  qed
  have c6: "i \<in> insert u D \<union> set (Q @ ?K) \<longleftrightarrow> (\<exists>d \<in> insert u D. ps ! d = butlast (ps ! i))"
    if "i < length ps" "i \<noteq> 0" for i
    using vis [OF that] K [of i] that by auto
  have c1: "distinct (Q @ ?K)"
    using bfs fresh distinct_kids [OF tree u(1)] by (auto simp: bfs_order_def)
  have c2: "0 \<in> insert u D" "insert u D \<inter> set (Q @ ?K) = {}"
    using bfs fresh by (auto simp: bfs_order_def)
  have c3: "insert u D \<union> set (Q @ ?K) \<subseteq> {..<length ps}"
    using bfs K by (auto simp: bfs_order_def)
  show ?thesis
    unfolding bfs_order_def using c1 c2 c3 c4 c5 c6 by blast
qed

lemma build_node_inv:
  assumes tree: "ac_tree ps N0" and sub: "\<And>i. i < length ps \<Longrightarrow> substr_node vs (N0 ! i) \<longleftrightarrow> ps ! i \<in> M"
    and MT: "M \<subseteq> set ps" and inv: "build_inv ps M N0 D (ns, fl, u # Q)"
  shows "build_inv ps M N0 (insert u D) (build_node vs u (ns, fl, Q))"
proof -
  have bfs: "bfs_order ps D (u # Q)" using inv by (simp add: build_inv_def)
  obtain ns' fl' Q' where s: "build_node vs u (ns, fl, Q) = (ns', fl', Q')"
    by (metis prod_cases3)
  then have e: "edge_inv ps M N0 D u Q acValidCharCount (ns', fl', Q')"
    using edges_all [OF tree sub MT inv order_refl] by (simp add: build_node_def)
  then have "edges_done ps ns' u" by (simp add: edge_inv_def edges_done_def)
  then show ?thesis
    using e bfs_step [OF tree bfs] by (simp add: s build_inv_def edge_inv_def)
qed

text \<open>The result of \<open>Build\<close>.\<close>

definition ac_built ::
  "nat list list \<Rightarrow> nat list set \<Rightarrow> acNode list \<Rightarrow> acNode list \<Rightarrow> bool" where
  "ac_built ps M N0 ns = (same_tree ps N0 ns \<and>
     (\<forall>i < length ps. edges_done ps ns i \<and> ac_fail (ns ! i) < length ps \<and>
        ps ! ac_fail (ns ! i) = lsuf M (tl (ps ! i))))"

lemma bfs_empty_queue:
  assumes w: "ac_words ps" and bfs: "bfs_order ps D []" and i: "i < length ps"
  shows "i \<in> D"
  using i
proof (induction "length (ps ! i)" arbitrary: i rule: less_induct)
  case less
  show ?case
  proof (cases "i = 0")
    case False
    then have ne: "ps ! i \<noteq> []"
      using w less.prems(1) by (metis ac_words_def length_greater_0_conv nth_eq_iff_index_eq)
    then have "butlast (ps ! i) @ [last (ps ! i)] \<in> set ps"
      using less.prems(1) by simp
    then have "butlast (ps ! i) \<in> set ps"
      using w unfolding ac_words_def prefix_closed_def by blast
    then obtain p where p: "p < length ps" "ps ! p = butlast (ps ! i)"
      by (metis in_set_conv_nth)
    moreover have "length (ps ! p) < length (ps ! i)" using ne p by simp
    ultimately have "p \<in> D" using less.hyps by simp
    then show ?thesis
      using bfs p(2) less.prems(1) False unfolding bfs_order_def by (metis Un_iff list.set(1) empty_iff)
  qed (use bfs in \<open>simp add: bfs_order_def\<close>)
qed

lemma build_loop_returns:
  assumes tree: "ac_tree ps N0" and sub: "\<And>i. i < length ps \<Longrightarrow> substr_node vs (N0 ! i) \<longleftrightarrow> ps ! i \<in> M"
    and MT: "M \<subseteq> set ps" and inv: "build_inv ps M N0 D s"
  shows "\<exists>ns. build_loop vs s = Some ns \<and> ac_built ps M N0 ns"
  using inv
proof (induction "length ps - card D" arbitrary: D s rule: less_induct)
  case less
  obtain ns fl Q where s: "s = (ns, fl, Q)" by (metis prod_cases3)
  have w: "ac_words ps" using tree by (simp add: ac_tree_def)
  have bfs: "bfs_order ps D Q" using less.prems s by (simp add: build_inv_def)
  show ?case
  proof (cases Q)
    case Nil
    then have "i \<in> D" if "i < length ps" for i
      using bfs_empty_queue [OF w _ that] bfs by simp
    then have "ac_built ps M N0 ns"
      using less.prems s by (simp add: ac_built_def build_inv_def fail_done_def)
    then show ?thesis
      using Nil by (subst build_loop.simps) (simp add: s)
  next
    case (Cons u Q')
    have sD: "D \<subseteq> {..<length ps}" and u: "u \<notin> D" "u < length ps"
      using bfs Cons by (auto simp: bfs_order_def)
    then have "card (insert u D) \<le> card {..<length ps}"
      by (intro card_mono) auto
    moreover have "card (insert u D) = Suc (card D)"
      using u sD finite_subset by (metis card_insert_disjoint finite_lessThan)
    ultimately have "length ps - card (insert u D) < length ps - card D" by simp
    moreover have "build_inv ps M N0 (insert u D) (build_node vs u (ns, fl, Q'))"
      using less.prems s Cons by (intro build_node_inv [OF tree sub MT]) simp_all
    ultimately obtain ns' where "build_loop vs (build_node vs u (ns, fl, Q')) = Some ns'"
        "ac_built ps M N0 ns'" using less.hyps by blast
    then show ?thesis
      using Cons by (subst build_loop.simps) (simp add: s)
  qed
qed

lemma build_start:
  assumes tree: "ac_tree ps N0" and nofail: "\<forall>i < length ps. ac_fail (N0 ! i) = 0"
  shows "build_inv ps M N0 {0} (N0, replicate (length ps) 0, kids N0 0 acValidCharCount)"
proof -
  have w: "ps ! 0 = []" "distinct ps" "0 < length ps" "length N0 = length ps"
    using tree by (auto simp: ac_tree_def ac_words_def)
  note K = kids_all [OF tree w(3)]
  have K1: "length (ps ! v) = 1" if "v \<in> set (kids N0 0 acValidCharCount)" for v
    using that kids_iff [OF tree w(3)] w(1) by auto
  have "sorted (map (\<lambda>i. length (ps ! i)) (kids N0 0 acValidCharCount))"
    using K1 by (auto simp: sorted_iff_nth_mono)
  then have bfs: "bfs_order ps {0} (kids N0 0 acValidCharCount)"
    unfolding bfs_order_def
    using K K1 w distinct_kids [OF tree w(3)] by auto
  have ed: "edges_done ps N0 0"
    unfolding edges_done_def
  proof (intro allI impI)
    fix c
    have "ac_child ps N0 0 c" using tree w(3) by (auto simp: ac_tree_def)
    then show "ac_next (N0 ! 0) c < length ps \<and>
        ps ! ac_next (N0 ! 0) c = lsuf (set ps) (ps ! 0 @ [c])"
      using w by (auto simp: ac_child_def split: if_splits)
  qed
  have "fail_done ps M N0 (replicate (length ps) 0) i"
    if "i \<in> {0} \<union> set (kids N0 0 acValidCharCount)" for i
  proof -
    have "i < length ps" using that K w(3) by auto
    moreover have "tl (ps ! i) = []" using that K1 [of i] w(1) by (cases "ps ! i") auto
    ultimately show ?thesis using w nofail by (simp add: fail_done_def)
  qed
  then show ?thesis
    using w bfs ed by (simp add: build_inv_def same_tree_def)
qed

definition substr_words :: "ac_entry list \<Rightarrow> nat list set" where
  "substr_words es = {w. \<exists>v. ((w, Substr), v) \<in> set es}"

lemma substr_node_iff:
  assumes "ac_matches ps ns vs es" "i < length ps"
  shows "substr_node vs (ns ! i) \<longleftrightarrow> ps ! i \<in> substr_words es"
proof -
  have "substr_node vs (ns ! i) \<longleftrightarrow> node_values vs (ns ! i) Substr \<noteq> []"
    by (simp add: substr_node_def node_values_def)
  then show ?thesis
    using ac_matchesD(2) [OF assms, of Substr]
    by (auto simp: substr_words_def values_of_empty_iff)
qed

text \<open>
  A group that is ready: the words of its nodes, the values they carry, and the edges and fail
  links that \<open>Build\<close> computed.
\<close>

definition ac_ready :: "nat list list \<Rightarrow> ACAutomatonMatcherGroup \<Rightarrow> ac_entry list \<Rightarrow> bool" where
  "ac_ready ps ac es = (\<exists>N0. ac_tree ps N0 \<and> ac_matches ps (ac_nodes ac) (ac_values ac) es \<and>
     ac_built ps (substr_words es) N0 (ac_nodes ac))"

lemma AC_Build_ready:
  assumes rep: "ac_rep ps ac es"
  shows "\<exists>ac'. AC_Build ac = Some ac' \<and> ac_ready ps ac' es"
proof -
  let ?N0 = "ac_nodes ac"
  have tree: "ac_tree ps ?N0" and m: "ac_matches ps ?N0 (ac_values ac) es"
      and nofail: "\<forall>i < length ps. ac_fail (ac_nodes ac ! i) = 0"
    using rep by (auto simp: ac_rep_def)
  have len: "length ?N0 = length ps" using tree by (simp add: ac_tree_def)
  have MT: "substr_words es \<subseteq> set ps"
    using m by (force simp: substr_words_def ac_matches_def)
  obtain ns where ns: "build_loop (ac_values ac)
      (?N0, replicate (length ps) 0, kids ?N0 0 acValidCharCount) = Some ns"
      "ac_built ps (substr_words es) ?N0 ns"
    using build_loop_returns [OF tree substr_node_iff [OF m] MT build_start [OF tree nofail]] by blast
  have "ac_match (ns ! i) = ac_match (?N0 ! i)" if "i < length ps" for i
    using ns(2) that by (simp add: ac_built_def same_tree_def)
  then have "ac_matches ps ns (ac_values ac) es"
    using m by (auto simp: ac_matches_def node_values_def)
  then have "ac_ready ps (ac\<lparr>ac_nodes := ns\<rparr>) es"
    using tree ns(2) by (auto simp: ac_ready_def)
  then show ?thesis
    using ns(1) len by (simp add: AC_Build_def kids_def)
qed

section \<open>Reading an input\<close>

text \<open>Where the automaton is after reading a word.\<close>

definition ac_at :: "nat list list \<Rightarrow> nat list \<Rightarrow> bool \<Rightarrow> nat \<Rightarrow> bool" where
  "ac_at ps w fullMatch u =
     (u < length ps \<and> ps ! u = lsuf (set ps) w \<and> (fullMatch \<longleftrightarrow> w \<in> set ps))"

lemma ac_at_start: "ac_words ps \<Longrightarrow> ac_at ps [] True 0"
  by (auto simp: ac_at_def ac_words_def prefix_closed_def)

lemma ac_at_step:
  assumes "ac_ready ps ac es" "ac_at ps w fm u" "c < acValidCharCount"
  shows "ac_at ps (w @ [c]) (fm \<and> ac_edge (ac_nodes ac ! u) c = acTrieEdge)
    (ac_next (ac_nodes ac ! u) c)"
proof -
  obtain N0 where tree: "ac_tree ps N0" and b: "ac_built ps (substr_words es) N0 (ac_nodes ac)"
    using assms(1) by (auto simp: ac_ready_def)
  have u: "u < length ps" "ps ! u = lsuf (set ps) w" "fm \<longleftrightarrow> w \<in> set ps"
    using assms(2) by (auto simp: ac_at_def)
  have w: "prefix_closed (set ps)" using tree by (simp add: ac_tree_def ac_words_def)
  have "ac_next (ac_nodes ac ! u) c < length ps"
      "ps ! ac_next (ac_nodes ac ! u) c = lsuf (set ps) (w @ [c])"
    using b u assms(3) lsuf_step [OF w, of w c] by (auto simp: ac_built_def edges_done_def)
  moreover have "ac_edge (ac_nodes ac ! u) c = acTrieEdge \<longleftrightarrow> ps ! u @ [c] \<in> set ps"
  proof -
    have "ac_child ps N0 u c" using tree u(1) by (simp add: ac_tree_def)
    moreover have "ac_edge (ac_nodes ac ! u) = ac_edge (N0 ! u)"
      using b u(1) by (simp add: ac_built_def same_tree_def)
    ultimately show ?thesis
      by (auto simp: ac_child_def acTrieEdge_def acFailEdge_def split: if_splits)
  qed
  moreover have "w @ [c] \<in> set ps \<Longrightarrow> w \<in> set ps"
    using w by (auto simp: prefix_closed_def)
  ultimately show ?thesis
    using u lsuf_self [of w "set ps"] by (auto simp: ac_at_def)
qed

text \<open>What the node that was reached tells about the word.\<close>

lemma ac_at_substr:
  assumes "ac_ready ps ac es" "ac_at ps w fm u" "[] \<notin> substr_words es"
  shows "ac_fail (ac_nodes ac ! u) \<noteq> 0 \<or> node_values (ac_values ac) (ac_nodes ac ! u) Substr \<noteq> []
    \<longleftrightarrow> (\<exists>z \<in> substr_words es. suffix z w)"
proof -
  obtain N0 where tree: "ac_tree ps N0" and b: "ac_built ps (substr_words es) N0 (ac_nodes ac)"
      and m: "ac_matches ps (ac_nodes ac) (ac_values ac) es"
    using assms(1) by (auto simp: ac_ready_def)
  let ?M = "substr_words es"
  have u: "u < length ps" "ps ! u = lsuf (set ps) w" using assms(2) by (auto simp: ac_at_def)
  have MT: "?M \<subseteq> set ps" using m by (force simp: substr_words_def ac_matches_def)
  have f: "ac_fail (ac_nodes ac ! u) < length ps" "ps ! ac_fail (ac_nodes ac ! u) = lsuf ?M (tl (ps ! u))"
    using b u by (auto simp: ac_built_def)
  have "ac_fail (ac_nodes ac ! u) \<noteq> 0 \<longleftrightarrow> lsuf ?M (tl (ps ! u)) \<noteq> []"
    using tree f(2) root_iff [OF _ f(1)] by (simp add: ac_tree_def)
  moreover have "node_values (ac_values ac) (ac_nodes ac ! u) Substr \<noteq> [] \<longleftrightarrow> ps ! u \<in> ?M"
    using ac_matchesD(2) [OF m u(1), of Substr] by (auto simp: values_of_empty_iff substr_words_def)
  moreover have "lsuf ?M w = (if ps ! u \<in> ?M then ps ! u else lsuf ?M (tl (ps ! u)))"
    by (rule compressed_fail [OF MT u(2)])
  moreover have "lsuf ?M w \<noteq> [] \<longleftrightarrow> (\<exists>z \<in> ?M. suffix z w)"
    using assms(3) by (rule lsuf_nonempty_iff)
  ultimately show ?thesis using assms(3) by metis
qed

lemma ac_at_values:
  assumes "ac_ready ps ac es" "ac_at ps w fm u" fm
  shows "node_values (ac_values ac) (ac_nodes ac ! u) t = values_of (\<lambda>k. k = (w, t)) es"
proof -
  have m: "ac_matches ps (ac_nodes ac) (ac_values ac) es"
    using assms(1) by (auto simp: ac_ready_def)
  have "u < length ps" "ps ! u = w"
    using assms(2,3) lsuf_self [of w "set ps"] by (auto simp: ac_at_def)
  then show ?thesis using ac_matchesD(2) [OF m, of u t] by simp
qed

lemma ac_entry_in:
  assumes "ac_ready ps ac es" "ac_at ps w fm u" "((w, t), v) \<in> set es"
  shows fm
  using assms by (force simp: ac_ready_def ac_matches_def ac_at_def)

lemma ac_at_match:
  assumes "ac_ready ps ac es" "ac_at ps w fm u"
  shows "fm \<and> ac_match (ac_nodes ac ! u) \<noteq> 0 \<longleftrightarrow> (\<exists>t v. ((w, t), v) \<in> set es)"
proof
  assume a: "fm \<and> ac_match (ac_nodes ac ! u) \<noteq> 0"
  have m: "ac_matches ps (ac_nodes ac) (ac_values ac) es"
    using assms(1) by (auto simp: ac_ready_def)
  have "u < length ps" "ps ! u = w"
    using a assms(2) lsuf_self [of w "set ps"] by (auto simp: ac_at_def)
  then obtain e where "e \<in> set es" "fst (fst e) = w"
    using ac_matchesD(3) [OF m, of u] a by auto
  then show "\<exists>t v. ((w, t), v) \<in> set es" by (metis prod.collapse)
next
  assume "\<exists>t v. ((w, t), v) \<in> set es"
  then obtain t v where e: "((w, t), v) \<in> set es" by blast
  then have fm using ac_entry_in [OF assms] by blast
  moreover have "v \<in> set (values_of (\<lambda>k. k = (w, t)) es)" using e by (auto simp: set_values_of)
  ultimately show "fm \<and> ac_match (ac_nodes ac ! u) \<noteq> 0"
    using ac_at_values [OF assms, of t] by (auto simp: node_values_def split: if_splits)
qed

lemma AC_MatchAny_loop_iff:
  assumes "ac_ready ps ac es" "[] \<notin> substr_words es" "ac_at ps (map acCharset x0) fm u"
  shows "AC_MatchAny_loop ac cs fm u \<longleftrightarrow>
    (\<exists>x y. cs = x @ y \<and> x \<noteq> [] \<and> (\<exists>z \<in> substr_words es. suffix z (map acCharset (x0 @ x)))) \<or>
    (\<exists>x y. cs = x @ dot # y \<and> (\<exists>v. ((map acCharset (x0 @ x @ [dot]), Domain), v) \<in> set es)) \<or>
    (\<exists>t v. ((map acCharset (x0 @ cs), t), v) \<in> set es)"
  using assms(3)
proof (induction cs arbitrary: x0 fm u)
  case Nil
  then show ?case using ac_at_match [OF assms(1) Nil] by simp
next
  case (Cons c cs)
  let ?e = "acCharset c"
  let ?fm = "fm \<and> ac_edge (ac_nodes ac ! u) ?e = acTrieEdge"
  let ?u = "ac_next (ac_nodes ac ! u) ?e"
  let ?w = "map acCharset (x0 @ [c])"
  have at: "ac_at ps ?w ?fm ?u"
    using ac_at_step [OF assms(1) Cons.prems acCharset_less] by simp
  have IH: "AC_MatchAny_loop ac cs ?fm ?u \<longleftrightarrow>
    (\<exists>x y. cs = x @ y \<and> x \<noteq> [] \<and> (\<exists>z \<in> substr_words es. suffix z (map acCharset (x0 @ c # x)))) \<or>
    (\<exists>x y. cs = x @ dot # y \<and> (\<exists>v. ((map acCharset (x0 @ (c # x) @ [dot]), Domain), v) \<in> set es)) \<or>
    (\<exists>t v. ((map acCharset (x0 @ c # cs), t), v) \<in> set es)"
    using Cons.IH [of "x0 @ [c]"] at by simp
  let ?nd = "ac_nodes ac ! ?u"
  have s: "ac_fail ?nd \<noteq> 0 \<or> node_values (ac_values ac) ?nd Substr \<noteq> [] \<longleftrightarrow>
      (\<exists>z \<in> substr_words es. suffix z ?w)"
    using ac_at_substr [OF assms(1) at assms(2)] .
  have d: "?fm \<and> node_values (ac_values ac) ?nd Domain \<noteq> [] \<longleftrightarrow> (\<exists>v. ((?w, Domain), v) \<in> set es)"
  proof -
    have "values_of (\<lambda>k. k = (?w, Domain)) es \<noteq> [] \<longleftrightarrow> (\<exists>v. ((?w, Domain), v) \<in> set es)"
      by (auto simp: values_of_empty_iff)
    then show ?thesis
      using ac_at_values [OF assms(1) at, of Domain] ac_entry_in [OF assms(1) at] by metis
  qed
  have "AC_MatchAny_loop ac (c # cs) fm u \<longleftrightarrow>
      (ac_fail ?nd \<noteq> 0 \<or> node_values (ac_values ac) ?nd Substr \<noteq> []) \<or>
      (c = dot \<and> ?fm \<and> node_values (ac_values ac) ?nd Domain \<noteq> []) \<or> AC_MatchAny_loop ac cs ?fm ?u"
    by (auto simp: Let_def node_values_def split: if_splits)
  then show ?case
    unfolding s d IH split_prefix_Cons split_dot_Cons by auto
qed

section \<open>The matchers of a group\<close>

text \<open>\<^verbatim>\<open>AddMatcherToGroup\<close> for this group: regular expressions are refused.\<close>

fun AddMatcherToGroup_AC ::
  "matcher \<Rightarrow> u32 \<Rightarrow> ACAutomatonMatcherGroup \<Rightarrow> ACAutomatonMatcherGroup \<times> go_error option" where
  "AddMatcherToGroup_AC (FullMatcher p) v ac = (AC_AddFullMatcher p v ac, None)"
| "AddMatcherToGroup_AC (DomainMatcher p) v ac = (AC_AddDomainMatcher p v ac, None)"
| "AddMatcherToGroup_AC (SubstrMatcher p) v ac = (AC_AddSubstrMatcher p v ac, None)"
| "AddMatcherToGroup_AC (RegexMatcher r) v ac = (ac, Some (ErrNew ''cannot add matcher to matcher group''))"

definition ac_added :: "(matcher \<times> u32) list \<Rightarrow> ACAutomatonMatcherGroup" where
  "ac_added ms = fold (\<lambda>(m, v) ac. fst (AddMatcherToGroup_AC m v ac)) ms NewACAutomatonMatcherGroup"

fun ac_entries :: "matcher \<times> u32 \<Rightarrow> ac_entry list" where
  "ac_entries (FullMatcher p, v) = [((codes p, Full), v)]"
| "ac_entries (DomainMatcher p, v) = [((codes p, Domain), v), ((codes p @ codes [dot], Domain), v)]"
| "ac_entries (SubstrMatcher p, v) = [((codes p, Substr), v)]"
| "ac_entries (RegexMatcher r, v) = []"

lemma add_entries_rep:
  assumes "ac_rep ps ac es"
  shows "\<exists>ps'. ac_rep ps' (fst (AddMatcherToGroup_AC m v ac)) (es @ ac_entries (m, v))"
proof -
  have p0: "0 < length ps" "ps ! 0 = []"
    using assms by (auto simp: ac_rep_def ac_tree_def ac_words_def)
  have one: "\<exists>ps'. ac_rep ps' (fst (addPattern 0 p t v ac)) (es @ [((codes p, t), v)])" for p t
    using addPattern_rep [OF assms p0(1), of p t v] p0(2) by (cases "addPattern 0 p t v ac") auto
  show ?thesis
  proof (cases m)
    case (DomainMatcher p)
    obtain ac1 j where ac1: "addPattern 0 p Domain v ac = (ac1, j)" by force
    then obtain ps1 where ps1: "ac_rep ps1 ac1 (es @ [((codes p, Domain), v)])"
        "j < length ps1" "ps1 ! j = codes p"
      using addPattern_rep [OF assms p0(1), of p Domain v] p0(2) by auto
    then show ?thesis
      using addPattern_rep [OF ps1(1,2), of "[dot]" Domain v] ac1 DomainMatcher
      by (cases "addPattern j [dot] Domain v ac1") (auto simp: AC_AddDomainMatcher_def)
  qed (use one assms in \<open>auto simp: AC_AddFullMatcher_def AC_AddSubstrMatcher_def\<close>)
qed

lemma ac_added_rep: "\<exists>ps. ac_rep ps (ac_added ms) (concat (map ac_entries ms))"
proof (induction ms rule: rev_induct)
  case Nil
  show ?case using ac_rep_New by (auto simp: ac_added_def)
next
  case (snoc x ms)
  obtain m v where x: "x = (m, v)" by force
  show ?case using snoc add_entries_rep [of _ "ac_added ms" _ m v] by (auto simp: ac_added_def x)
qed

text \<open>
  The strings the automaton is meant for: the lower-case letters, digits, hyphens and periods that
  \<open>ToDomain\<close> produces. On them the codes are a faithful encoding.
\<close>

definition ldh_lower :: "gostring \<Rightarrow> bool" where
  "ldh_lower s = list_all (\<lambda>c. ldh_byte c \<and> \<not> is_upper c) s"

definition uncode :: "nat \<Rightarrow> nat" where
  "uncode n = (if n \<le> 26 then n + 0x60 else if n = 27 then 0x2d else if n = 28 then 0x2e else n - 29 + 0x30)"

lemma uncode_acCharset:
  assumes "ldh_byte c" "\<not> is_upper c"
  shows "uncode (acCharset c) = unat c"
proof -
  consider "is_lower c" | "c = 0x2d" | "c = dot" | "is_digit c"
    using assms by (auto simp: ldh_byte_def)
  then show ?thesis
  proof cases
    case 1
    then have "0x61 \<le> unat c" "unat c \<le> 0x7a" by (auto simp: is_lower_def word8_le_iff)
    then show ?thesis using 1 assms(2) by (simp add: acCharset_def uncode_def)
  next
    case 2
    then show ?thesis by (simp add: acCharset_def uncode_def is_upper_def is_lower_def)
  next
    case 3
    then show ?thesis by (simp add: acCharset_def uncode_def is_upper_def is_lower_def dot_def)
  next
    case 4
    then have u: "0x30 \<le> unat c" "unat c \<le> 0x39" by (auto simp: is_digit_def word8_le_iff)
    then have "\<not> is_lower c" "c \<noteq> 0x2d" "c \<noteq> dot" by (auto simp: is_lower_def word8_le_iff dot_def)
    then show ?thesis using 4 assms(2) u by (auto simp: acCharset_def uncode_def)
  qed
qed

lemma acCharset_inj: "inj_on acCharset {c. ldh_byte c \<and> \<not> is_upper c}"
proof (rule inj_onI)
  fix c d assume "c \<in> {c. ldh_byte c \<and> \<not> is_upper c}" "d \<in> {c. ldh_byte c \<and> \<not> is_upper c}"
    and "acCharset c = acCharset d"
  then have "unat c = unat d" using uncode_acCharset by (metis mem_Collect_eq)
  then show "c = d" by (rule unsigned_word_eqI)
qed

lemma codes_eq_iff:
  assumes "ldh_lower s" "ldh_lower p"
  shows "map acCharset (rev s) = codes p \<longleftrightarrow> s = p"
proof -
  have "inj_on acCharset (set (rev s) \<union> set (rev p))"
    using assms by (intro inj_on_subset [OF acCharset_inj]) (auto simp: ldh_lower_def list_all_iff)
  then show ?thesis
    unfolding codes_def by (metis inj_on_map_eq_map rev_is_rev_conv)
qed

lemma ldh_lower_append [simp]: "ldh_lower (a @ b) \<longleftrightarrow> ldh_lower a \<and> ldh_lower b"
  by (simp add: ldh_lower_def)

lemma codes_dot: "codes p @ codes [dot] = codes (dot # p)"
  by (simp add: codes_def)

lemma ldh_lower_dot [simp]: "ldh_lower (dot # p) = ldh_lower p"
  by (simp add: ldh_lower_def ldh_byte_def is_upper_def dot_def)

lemma codes_contains:
  assumes "ldh_lower s" "ldh_lower p" "p \<noteq> []"
  shows "(\<exists>x y. rev s = x @ y \<and> x \<noteq> [] \<and> suffix (codes p) (map acCharset x)) \<longleftrightarrow> Contains s p"
proof
  assume "\<exists>x y. rev s = x @ y \<and> x \<noteq> [] \<and> suffix (codes p) (map acCharset x)"
  then obtain x y where xy: "rev s = x @ y" "suffix (codes p) (map acCharset x)" by blast
  then obtain a b where ab: "x = a @ b" "map acCharset b = codes p"
    by (metis append_eq_map_conv suffix_def)
  have s: "s = rev y @ rev b @ rev a" using xy(1) ab(1) by (metis append.assoc rev_append rev_rev_ident)
  then have "ldh_lower (rev b)" using assms(1) by simp
  then have "rev b = p" using codes_eq_iff [of "rev b" p] assms(2) ab(2) by simp
  then show "Contains s p" using s by (auto simp: Contains_iff)
next
  assume "Contains s p"
  then obtain a b where s: "s = a @ p @ b" by (auto simp: Contains_iff)
  then have "rev s = (rev b @ rev p) @ rev a" "suffix (codes p) (map acCharset (rev b @ rev p))"
    by (auto simp: codes_def suffix_def)
  then show "\<exists>x y. rev s = x @ y \<and> x \<noteq> [] \<and> suffix (codes p) (map acCharset x)"
    using assms(3) by (metis append_is_Nil_conv rev_is_Nil_conv)
qed

lemma codes_dotted:
  assumes "ldh_lower s" "ldh_lower q"
  shows "(\<exists>x y. rev s = x @ dot # y \<and> map acCharset (x @ [dot]) = codes q) \<longleftrightarrow>
    (\<exists>p a. q = dot # p \<and> s = a @ dot # p)"
proof
  assume "\<exists>x y. rev s = x @ dot # y \<and> map acCharset (x @ [dot]) = codes q"
  then obtain x y where xy: "rev s = x @ dot # y" "map acCharset (x @ [dot]) = codes q" by blast
  have s: "s = rev y @ dot # rev x" using xy(1) by (metis append.assoc append_Cons append_Nil rev.simps(2) rev_append rev_rev_ident)
  then have "ldh_lower (dot # rev x)" using assms(1) by simp
  then have "dot # rev x = q" using codes_eq_iff [of "dot # rev x" q] assms(2) xy(2) by simp
  then show "\<exists>p a. q = dot # p \<and> s = a @ dot # p" using s by blast
next
  assume "\<exists>p a. q = dot # p \<and> s = a @ dot # p"
  then show "\<exists>x y. rev s = x @ dot # y \<and> map acCharset (x @ [dot]) = codes q"
    by (force simp: codes_def)
qed

text \<open>The matchers the group accepts and is meant for.\<close>

fun ac_ok :: "matcher \<Rightarrow> bool" where
  "ac_ok (FullMatcher p) = ldh_lower p"
| "ac_ok (DomainMatcher p) = (ldh_lower p \<and> \<not> HasPrefix p [dot])"
| "ac_ok (SubstrMatcher p) = (ldh_lower p \<and> p \<noteq> [])"
| "ac_ok (RegexMatcher r) = False"

lemma types_distinct: "Substr \<noteq> Full" "Substr \<noteq> Domain" "Full \<noteq> Domain"
  by (simp_all add: Substr_def Full_def Domain_def)

lemma ac_entries_iff:
  "((w, Substr), v) \<in> set (concat (map ac_entries ms)) \<longleftrightarrow> (\<exists>p. (SubstrMatcher p, v) \<in> set ms \<and> w = codes p)"
  "((w, Full), v) \<in> set (concat (map ac_entries ms)) \<longleftrightarrow> (\<exists>p. (FullMatcher p, v) \<in> set ms \<and> w = codes p)"
  "((w, Domain), v) \<in> set (concat (map ac_entries ms)) \<longleftrightarrow>
     (\<exists>p. (DomainMatcher p, v) \<in> set ms \<and> (w = codes p \<or> w = codes (dot # p)))"
proof -
  have e: "((w, t), v) \<in> set (ac_entries x) \<longleftrightarrow>
      (\<exists>p. (t = Substr \<and> x = (SubstrMatcher p, v) \<and> w = codes p) \<or>
           (t = Full \<and> x = (FullMatcher p, v) \<and> w = codes p) \<or>
           (t = Domain \<and> x = (DomainMatcher p, v) \<and> (w = codes p \<or> w = codes (dot # p))))" for t x
    by (cases x rule: ac_entries.cases) (auto simp: codes_dot)
  show "((w, Substr), v) \<in> set (concat (map ac_entries ms)) \<longleftrightarrow> (\<exists>p. (SubstrMatcher p, v) \<in> set ms \<and> w = codes p)"
    "((w, Full), v) \<in> set (concat (map ac_entries ms)) \<longleftrightarrow> (\<exists>p. (FullMatcher p, v) \<in> set ms \<and> w = codes p)"
    "((w, Domain), v) \<in> set (concat (map ac_entries ms)) \<longleftrightarrow>
       (\<exists>p. (DomainMatcher p, v) \<in> set ms \<and> (w = codes p \<or> w = codes (dot # p)))"
    using types_distinct types_distinct [symmetric] by (auto simp: e)
qed

lemma ac_entry_type: "((w, t), v) \<in> set (concat (map ac_entries ms)) \<Longrightarrow> t = Full \<or> t = Domain \<or> t = Substr"
proof -
  have "((w, t), v) \<in> set (ac_entries x) \<Longrightarrow> t = Full \<or> t = Domain \<or> t = Substr" for x
    by (cases x rule: ac_entries.cases) auto
  then show "((w, t), v) \<in> set (concat (map ac_entries ms)) \<Longrightarrow> t = Full \<or> t = Domain \<or> t = Substr" by auto
qed

text \<open>
  The three ways an entry is found by reading an input: at the end of a prefix of the reversed
  input, at a dot, and at the end of the input.
\<close>

definition found :: "(matcher \<times> u32) list \<Rightarrow> gostring \<Rightarrow> u32 \<Rightarrow> bool" where
  "found ms s v = (let es = concat (map ac_entries ms) in
     (\<exists>x y. rev s = x @ y \<and> x \<noteq> [] \<and> (\<exists>z. suffix z (map acCharset x) \<and> ((z, Substr), v) \<in> set es)) \<or>
     (\<exists>x y. rev s = x @ dot # y \<and> ((map acCharset (x @ [dot]), Domain), v) \<in> set es) \<or>
     (\<exists>t. t \<noteq> Substr \<and> ((map acCharset (rev s), t), v) \<in> set es))"

lemma found_iff:
  assumes ok: "\<forall>(m, v) \<in> set ms. ac_ok m" and s: "ldh_lower s"
  shows "found ms s v \<longleftrightarrow> (\<exists>m. (m, v) \<in> set ms \<and> Matcher_Match m s)"
proof -
  have okS: "ldh_lower p" "p \<noteq> []" if "(SubstrMatcher p, v) \<in> set ms" for p using ok that by auto
  have okF: "ldh_lower p" if "(FullMatcher p, v) \<in> set ms" for p using ok that by auto
  have okD: "ldh_lower p" "\<And>q. p \<noteq> dot # q" if "(DomainMatcher p, v) \<in> set ms" for p
    using ok that by (fastforce simp: HasPrefix_def)+
  have S: "(\<exists>x y. rev s = x @ y \<and> x \<noteq> [] \<and> (\<exists>z. suffix z (map acCharset x) \<and>
        ((z, Substr), v) \<in> set (concat (map ac_entries ms)))) \<longleftrightarrow>
      (\<exists>p. (SubstrMatcher p, v) \<in> set ms \<and> SubstrMatcher_Match p s)"
  proof -
    have "(\<exists>x y. rev s = x @ y \<and> x \<noteq> [] \<and> suffix (codes p) (map acCharset x)) \<longleftrightarrow> Contains s p"
      if "(SubstrMatcher p, v) \<in> set ms" for p
      using codes_contains [OF s okS [OF that]] .
    then show ?thesis unfolding ac_entries_iff SubstrMatcher_Match_def by blast
  qed
  have D: "(\<exists>x y. rev s = x @ dot # y \<and> ((map acCharset (x @ [dot]), Domain), v) \<in> set (concat (map ac_entries ms))) \<longleftrightarrow>
      (\<exists>p. (DomainMatcher p, v) \<in> set ms \<and> (\<exists>a. s = a @ dot # p))"
  proof -
    have "(\<exists>x y. rev s = x @ dot # y \<and> (map acCharset (x @ [dot]) = codes p \<or>
        map acCharset (x @ [dot]) = codes (dot # p))) \<longleftrightarrow> (\<exists>a. s = a @ dot # p)"
      if "(DomainMatcher p, v) \<in> set ms" for p
      using codes_dotted [OF s, of p] codes_dotted [OF s, of "dot # p"] okD [OF that] by auto
    then show ?thesis unfolding ac_entries_iff by blast
  qed
  have E: "(\<exists>t. t \<noteq> Substr \<and> ((map acCharset (rev s), t), v) \<in> set (concat (map ac_entries ms))) \<longleftrightarrow>
      (FullMatcher s, v) \<in> set ms \<or> (\<exists>p. (DomainMatcher p, v) \<in> set ms \<and> (s = p \<or> s = dot # p))"
  proof -
    have "(\<exists>t. t \<noteq> Substr \<and> ((map acCharset (rev s), t), v) \<in> set (concat (map ac_entries ms))) \<longleftrightarrow>
        ((map acCharset (rev s), Full), v) \<in> set (concat (map ac_entries ms)) \<or>
        ((map acCharset (rev s), Domain), v) \<in> set (concat (map ac_entries ms))"
      using ac_entry_type types_distinct by metis
    also have "\<dots> \<longleftrightarrow> (\<exists>p. (FullMatcher p, v) \<in> set ms \<and> s = p) \<or>
        (\<exists>p. (DomainMatcher p, v) \<in> set ms \<and> (s = p \<or> s = dot # p))"
    proof -
      have "map acCharset (rev s) = codes p \<longleftrightarrow> s = p" if "(FullMatcher p, v) \<in> set ms" for p
        using codes_eq_iff [OF s okF [OF that]] .
      moreover have "map acCharset (rev s) = codes p \<longleftrightarrow> s = p"
          "map acCharset (rev s) = codes (dot # p) \<longleftrightarrow> s = dot # p"
        if "(DomainMatcher p, v) \<in> set ms" for p
        using codes_eq_iff [OF s, of p] codes_eq_iff [OF s, of "dot # p"] okD(1) [OF that] by simp_all
      ultimately show ?thesis unfolding ac_entries_iff by blast
    qed
    finally show ?thesis by simp
  qed
  have R: "(RegexMatcher r, v) \<notin> set ms" for r using ok by auto
  show ?thesis
    unfolding found_def Let_def S D E Matcher_Match_parts DomainMatcher_Match_iff
    using R by auto
qed

lemma ac_added_built:
  "\<exists>ps ac. AC_Build (ac_added ms) = Some ac \<and> ac_ready ps ac (concat (map ac_entries ms))"
  using ac_added_rep [of ms] AC_Build_ready by blast

lemma ac_ready_words: "ac_ready ps ac es \<Longrightarrow> ac_words ps"
  by (auto simp: ac_ready_def ac_tree_def)

lemma substr_words_nonempty:
  assumes "\<forall>(m, v) \<in> set ms. ac_ok m"
  shows "[] \<notin> substr_words (concat (map ac_entries ms))"
proof
  assume "[] \<in> substr_words (concat (map ac_entries ms))"
  then obtain v p where "(SubstrMatcher p, v) \<in> set ms" "codes p = []"
    unfolding substr_words_def ac_entries_iff by auto
  then show False using assms by (auto simp: codes_def)
qed

lemma AC_MatchAny_found:
  assumes "ac_ready ps ac (concat (map ac_entries ms))" "\<forall>(m, v) \<in> set ms. ac_ok m"
  shows "AC_MatchAny ac s \<longleftrightarrow> (\<exists>v. found ms s v)"
proof -
  let ?es = "concat (map ac_entries ms)"
  have ne: "[] \<notin> substr_words ?es" using assms(2) by (rule substr_words_nonempty)
  have loop: "AC_MatchAny ac s \<longleftrightarrow>
    (\<exists>x y. rev s = x @ y \<and> x \<noteq> [] \<and> (\<exists>z \<in> substr_words ?es. suffix z (map acCharset x))) \<or>
    (\<exists>x y. rev s = x @ dot # y \<and> (\<exists>v. ((map acCharset (x @ [dot]), Domain), v) \<in> set ?es)) \<or>
    (\<exists>t v. ((map acCharset (rev s), t), v) \<in> set ?es)"
    unfolding AC_MatchAny_def
    using AC_MatchAny_loop_iff [OF assms(1) ne, of "[]" True 0 "rev s"]
      ac_at_start [OF ac_ready_words [OF assms(1)]] by simp
  let ?A = "\<exists>x y. rev s = x @ y \<and> x \<noteq> [] \<and> (\<exists>z \<in> substr_words ?es. suffix z (map acCharset x))"
  have whole: ?A if "((map acCharset (rev s), Substr), v) \<in> set ?es" for v
  proof -
    have z: "map acCharset (rev s) \<in> substr_words ?es" using that by (auto simp: substr_words_def)
    then have "rev s \<noteq> []" using ne by auto
    then show ?thesis using z by (intro exI [of _ "rev s"] exI [of _ "[]"]) auto
  qed
  have A: "?A \<longleftrightarrow> (\<exists>v x y. rev s = x @ y \<and> x \<noteq> [] \<and>
      (\<exists>z. suffix z (map acCharset x) \<and> ((z, Substr), v) \<in> set ?es))"
    unfolding substr_words_def by blast
  have B: "(\<exists>x y. rev s = x @ dot # y \<and> (\<exists>v. ((map acCharset (x @ [dot]), Domain), v) \<in> set ?es)) \<longleftrightarrow>
      (\<exists>v x y. rev s = x @ dot # y \<and> ((map acCharset (x @ [dot]), Domain), v) \<in> set ?es)"
    by blast
  have "?A \<or> (\<exists>t v. ((map acCharset (rev s), t), v) \<in> set ?es) \<longleftrightarrow>
      ?A \<or> (\<exists>v t. t \<noteq> Substr \<and> ((map acCharset (rev s), t), v) \<in> set ?es)"
    using whole by metis
  then show ?thesis
    unfolding loop found_def Let_def ex_disj_distrib A [symmetric] B by blast
qed



section \<open>The values of a match\<close>

definition substr_values :: "ac_entry list \<Rightarrow> nat list \<Rightarrow> u32 set" where
  "substr_values es w = {v. \<exists>z. suffix z w \<and> ((z, Substr), v) \<in> set es}"

lemma substr_values_node:
  assumes ready: "ac_ready ps ac es" and at: "ac_at ps w fm u" and ne: "[] \<notin> substr_words es"
  shows "substr_values es w = set (node_values (ac_values ac) (ac_nodes ac ! u) Substr) \<union>
    substr_values es (ps ! ac_fail (ac_nodes ac ! u))"
proof -
  obtain N0 where b: "ac_built ps (substr_words es) N0 (ac_nodes ac)"
      and m: "ac_matches ps (ac_nodes ac) (ac_values ac) es"
    using ready by (auto simp: ac_ready_def)
  let ?M = "substr_words es"
  have u: "u < length ps" "ps ! u = lsuf (set ps) w" using at by (auto simp: ac_at_def)
  have MT: "?M \<subseteq> set ps" using m by (force simp: substr_words_def ac_matches_def)
  have f: "ps ! ac_fail (ac_nodes ac ! u) = lsuf ?M (tl (ps ! u))"
    using b u by (auto simp: ac_built_def)
  have "suffix z w \<longleftrightarrow> z = ps ! u \<or> suffix z (lsuf ?M (tl (ps ! u)))" if z: "z \<in> ?M" for z
  proof -
    have "suffix z w \<longleftrightarrow> suffix z (ps ! u)"
      unfolding u(2) using z MT lsuf_longest lsuf_suffix suffix_order.trans by blast
    also have "\<dots> \<longleftrightarrow> z = ps ! u \<or> suffix z (tl (ps ! u))"
      by (cases "ps ! u") (auto simp: suffix_Cons)
    also have "suffix z (tl (ps ! u)) \<longleftrightarrow> suffix z (lsuf ?M (tl (ps ! u)))"
      using z lsuf_longest lsuf_suffix suffix_order.trans by blast
    finally show ?thesis .
  qed
  moreover have "set (node_values (ac_values ac) (ac_nodes ac ! u) Substr) =
      {v. ((ps ! u, Substr), v) \<in> set es}"
    unfolding ac_matchesD(2) [OF m u(1)] by (auto simp: set_values_of)
  ultimately show ?thesis
    unfolding substr_values_def f by (auto simp: substr_words_def)
qed

lemma substr_values_root: "[] \<notin> substr_words es \<Longrightarrow> substr_values es [] = {}"
  by (auto simp: substr_values_def substr_words_def)

lemma fail_path_stop: "fail_path ac 0 j acc = Some acc"
  by (subst fail_path.simps) simp

lemma fail_path_once:
  "i \<noteq> 0 \<Longrightarrow> fail_path ac i j acc = fail_path ac (ac_fail (ac_nodes ac ! j)) i
     (acc @ [(ac_values ac ! ac_match (ac_nodes ac ! j)) Substr])"
  by (subst fail_path.simps) simp

text \<open>
  When the fail path goes on, the values of its current node are appended twice: \<open>failNode\<close> lags
  one turn behind \<open>failIdx\<close>.
\<close>

lemma fail_path_twice:
  assumes "i \<noteq> 0" "ac_fail (ac_nodes ac ! i) \<noteq> 0"
  shows "fail_path ac i i acc =
    fail_path ac (ac_fail (ac_nodes ac ! i)) (ac_fail (ac_nodes ac ! i))
      (acc @ replicate 2 ((ac_values ac ! ac_match (ac_nodes ac ! i)) Substr))"
  using assms by (simp add: fail_path_once numeral_2_eq_2)

lemma fail_path_values:
  assumes ready: "ac_ready ps ac es" and ne: "[] \<notin> substr_words es"
    and i: "i < length ps" "ps ! i \<in> substr_words es"
  shows "\<exists>r. fail_path ac i i acc = Some (acc @ r) \<and> set (concat r) = substr_values es (ps ! i)"
  using i
proof (induction "length (ps ! i)" arbitrary: i acc rule: less_induct)
  case less
  obtain N0 where tree: "ac_tree ps N0" and b: "ac_built ps (substr_words es) N0 (ac_nodes ac)"
      and m: "ac_matches ps (ac_nodes ac) (ac_values ac) es"
    using ready by (auto simp: ac_ready_def)
  have w: "ac_words ps" using tree by (simp add: ac_tree_def)
  let ?f = "ac_fail (ac_nodes ac ! i)"
  let ?v = "(ac_values ac ! ac_match (ac_nodes ac ! i)) Substr"
  have i0: "i \<noteq> 0" using less.prems(2) ne root_iff [OF w less.prems(1)] by metis
  have f: "?f < length ps" "ps ! ?f = lsuf (substr_words es) (tl (ps ! i))"
    using b less.prems by (auto simp: ac_built_def)
  have at: "ac_at ps (ps ! i) True i"
    using less.prems by (simp add: ac_at_def lsuf_self)
  have nv: "node_values (ac_values ac) (ac_nodes ac ! i) Substr = ?v"
  proof -
    have "node_values (ac_values ac) (ac_nodes ac ! i) Substr \<noteq> []"
      unfolding ac_matchesD(2) [OF m less.prems(1)]
      using less.prems(2) by (auto simp: values_of_empty_iff substr_words_def)
    then show ?thesis by (auto simp: node_values_def split: if_splits)
  qed
  have vals: "substr_values es (ps ! i) = set ?v \<union> substr_values es (ps ! ?f)"
    using substr_values_node [OF ready at ne] nv by simp
  show ?case
  proof (cases "?f = 0")
    case True
    then have "fail_path ac i i acc = Some (acc @ [?v])"
      using i0 by (simp add: fail_path_once fail_path_stop)
    moreover have "substr_values es (ps ! ?f) = {}"
      using True w substr_values_root [OF ne] by (simp add: ac_words_def)
    ultimately show ?thesis using vals by (intro exI [of _ "[?v]"]) simp
  next
    case False
    have "ps ! ?f \<noteq> []" using root_iff [OF w f(1)] False by simp
    then have M: "ps ! ?f \<in> substr_words es" using f(2) lsuf_in by metis
    have "ps ! i \<noteq> []" using root_iff [OF w less.prems(1)] i0 by simp
    then have "length (ps ! ?f) < length (ps ! i)"
      using f(2) lsuf_suffix [of "substr_words es" "tl (ps ! i)"]
      by (metis One_nat_def Suc_pred' le_imp_less_Suc length_greater_0_conv length_tl suffix_length_le)
    then obtain r where r: "fail_path ac ?f ?f (acc @ replicate 2 ?v) = Some ((acc @ replicate 2 ?v) @ r)"
        "set (concat r) = substr_values es (ps ! ?f)"
      using less.hyps [OF _ f(1) M] by blast
    then have "fail_path ac i i acc = Some (acc @ replicate 2 ?v @ r)"
      using fail_path_twice [OF i0 False] by simp
    then show ?thesis
      using r(2) vals by (intro exI [of _ "replicate 2 ?v @ r"]) (simp add: numeral_2_eq_2)
  qed
qed

text \<open>What one turn of the loop adds to the substring matches.\<close>

lemma turn_substr:
  assumes ready: "ac_ready ps ac es" and ne: "[] \<notin> substr_words es" and at: "ac_at ps w fm u"
  shows "\<exists>r. (if ac_fail (ac_nodes ac ! u) \<noteq> 0
        then fail_path ac (ac_fail (ac_nodes ac ! u)) (ac_fail (ac_nodes ac ! u)) sub else Some sub)
      = Some (sub @ r) \<and> set (concat r) = substr_values es (ps ! ac_fail (ac_nodes ac ! u))"
proof -
  obtain N0 where b: "ac_built ps (substr_words es) N0 (ac_nodes ac)"
    using ready by (auto simp: ac_ready_def)
  have w: "ac_words ps" using ac_ready_words [OF ready] .
  let ?f = "ac_fail (ac_nodes ac ! u)"
  have f: "?f < length ps" "ps ! ?f = lsuf (substr_words es) (tl (ps ! u))"
    using b at by (auto simp: ac_built_def ac_at_def)
  show ?thesis
  proof (cases "?f = 0")
    case True
    then show ?thesis using w substr_values_root [OF ne] by (auto simp: ac_words_def)
  next
    case False
    then have "ps ! ?f \<noteq> []" using root_iff [OF w f(1)] by simp
    then have "ps ! ?f \<in> substr_words es" using f(2) lsuf_in by metis
    then show ?thesis using fail_path_values [OF ready ne f(1)] False by auto
  qed
qed

lemma AC_Match_loop_values:
  assumes ready: "ac_ready ps ac es" and ne: "[] \<notin> substr_words es"
    and "ac_at ps (map acCharset x0) fm u"
  shows "\<exists>fm' u' suf' sub'. AC_Match_loop ac cs fm u suf sub = Some (fm', u', suf @ suf', sub @ sub') \<and>
    ac_at ps (map acCharset (x0 @ cs)) fm' u' \<and>
    set (concat suf') = {v. \<exists>x y. cs = x @ dot # y \<and> ((map acCharset (x0 @ x @ [dot]), Domain), v) \<in> set es} \<and>
    set (concat sub') = {v. \<exists>x y. cs = x @ y \<and> x \<noteq> [] \<and> v \<in> substr_values es (map acCharset (x0 @ x))}"
  using assms(3)
proof (induction cs arbitrary: x0 fm u suf sub)
  case (Cons c cs)
  let ?e = "acCharset c"
  let ?fm = "fm \<and> ac_edge (ac_nodes ac ! u) ?e = acTrieEdge"
  let ?u = "ac_next (ac_nodes ac ! u) ?e"
  let ?nd = "ac_nodes ac ! ?u"
  let ?w = "map acCharset (x0 @ [c])"
  let ?vals = "ac_values ac ! ac_match ?nd"
  have at: "ac_at ps ?w ?fm ?u"
    using ac_at_step [OF ready Cons.prems acCharset_less] by simp
  obtain r where r: "(if ac_fail ?nd \<noteq> 0 then fail_path ac (ac_fail ?nd) (ac_fail ?nd) sub else Some sub)
      = Some (sub @ r)" "set (concat r) = substr_values es (ps ! ac_fail ?nd)"
    using turn_substr [OF ready ne at] by blast
  let ?s1 = "if ac_match ?nd \<noteq> 0 \<and> length (?vals Substr) > 0 then [?vals Substr] else []"
  let ?d1 = "if ac_match ?nd \<noteq> 0 \<and> ?fm \<and> c = dot \<and> length (?vals Domain) > 0 then [?vals Domain] else []"
  obtain fm' u' suf' sub' where IH:
    "AC_Match_loop ac cs ?fm ?u (suf @ ?d1) (sub @ r @ ?s1) =
       Some (fm', u', (suf @ ?d1) @ suf', (sub @ r @ ?s1) @ sub')"
    "ac_at ps (map acCharset ((x0 @ [c]) @ cs)) fm' u'"
    "set (concat suf') = {v. \<exists>x y. cs = x @ dot # y \<and>
       ((map acCharset ((x0 @ [c]) @ x @ [dot]), Domain), v) \<in> set es}"
    "set (concat sub') = {v. \<exists>x y. cs = x @ y \<and> x \<noteq> [] \<and>
       v \<in> substr_values es (map acCharset ((x0 @ [c]) @ x))}"
    using Cons.IH [OF at, of "suf @ ?d1" "sub @ r @ ?s1"] by blast
  have "AC_Match_loop ac (c # cs) fm u suf sub = AC_Match_loop ac cs ?fm ?u (suf @ ?d1) (sub @ r @ ?s1)"
    unfolding AC_Match_loop.simps Let_def r(1) Option.bind.bind_lunit if_append append_assoc ..
  then have run: "AC_Match_loop ac (c # cs) fm u suf sub =
      Some (fm', u', suf @ (?d1 @ suf'), sub @ ((r @ ?s1) @ sub'))"
    unfolding IH(1) by simp
  have s1: "set (concat (r @ ?s1)) = substr_values es ?w"
    using substr_values_node [OF ready at ne] r(2) by (auto simp: node_values_def)
  have d1: "set (concat ?d1) = {v. c = dot \<and> ((?w, Domain), v) \<in> set es}"
  proof -
    have "set (node_values (ac_values ac) ?nd Domain) = {v. ((?w, Domain), v) \<in> set es}" if ?fm
      using ac_at_values [OF ready at that] by (auto simp: set_values_of)
    then show ?thesis using ac_entry_in [OF ready at] by (auto simp: node_values_def split: if_splits)
  qed
  have "set (concat (?d1 @ suf')) = {v. \<exists>x y. c # cs = x @ dot # y \<and>
      ((map acCharset (x0 @ x @ [dot]), Domain), v) \<in> set es}"
    unfolding concat_append [of ?d1] set_append d1 IH(3) split_dot_Cons by auto
  moreover have "set (concat ((r @ ?s1) @ sub')) = {v. \<exists>x y. c # cs = x @ y \<and> x \<noteq> [] \<and>
      v \<in> substr_values es (map acCharset (x0 @ x))}"
    unfolding concat_append [of "r @ ?s1"] set_append [of "concat (r @ ?s1)"] s1 IH(4) split_prefix_Cons
    by auto
  moreover have "ac_at ps (map acCharset (x0 @ c # cs)) fm' u'" using IH(2) by simp
  ultimately show ?case using run by blast
qed simp

lemma set_concat_rev3:
  "set (concat (rev (a @ b @ c))) = set (concat a) \<union> set (concat b) \<union> set (concat c)"
  by auto

lemma AC_Match_found:
  assumes ready: "ac_ready ps ac (concat (map ac_entries ms))" and ok: "\<forall>(m, v) \<in> set ms. ac_ok m"
  shows "\<exists>r. AC_Match ac input = Some r \<and> set r = {v. found ms input v}"
proof -
  let ?es = "concat (map ac_entries ms)"
  have ne: "[] \<notin> substr_words ?es" using ok by (rule substr_words_nonempty)
  have start: "ac_at ps (map acCharset []) True 0"
    using ac_at_start [OF ac_ready_words [OF ready]] by simp
  obtain fm u suf sub where
    loop: "AC_Match_loop ac (rev input) True 0 [] [] = Some (fm, u, [] @ suf, [] @ sub)"
    and at: "ac_at ps (map acCharset ([] @ rev input)) fm u"
    and suf: "set (concat suf) = {v. \<exists>x y. rev input = x @ dot # y \<and>
      ((map acCharset ([] @ x @ [dot]), Domain), v) \<in> set ?es}"
    and sub: "set (concat sub) = {v. \<exists>x y. rev input = x @ y \<and> x \<noteq> [] \<and>
      v \<in> substr_values ?es (map acCharset ([] @ x))}"
    using AC_Match_loop_values [OF ready ne start, of "rev input" "[]" "[]"] by (elim exE conjE) (rule that)
  let ?w = "map acCharset (rev input)"
  let ?nd = "ac_nodes ac ! u"
  let ?nv = "\<lambda>t. node_values (ac_values ac) ?nd t"
  let ?last = "(if fm \<and> ?nv Domain \<noteq> [] then [?nv Domain] else []) @
    (if fm \<and> ?nv Full \<noteq> [] then [?nv Full] else [])"
  have res: "AC_Match ac input = Some (concat (rev (sub @ suf @ ?last)))"
    unfolding AC_Match_def loop Option.bind.bind_lunit Let_def
    by (auto simp: CompositeMatchesReverse_concat node_values_def)
  have last: "set (concat ?last) = {v. \<exists>t. t \<noteq> Substr \<and> ((?w, t), v) \<in> set ?es}"
  proof -
    have nv: "set (?nv t) = {v. ((?w, t), v) \<in> set ?es}" if fm for t
      using ac_at_values [OF ready at that] by (auto simp: set_values_of)
    have fm: "((?w, t), v) \<in> set ?es \<Longrightarrow> fm" for t v using ac_entry_in [OF ready at] by simp
    have T: "(\<exists>t. t \<noteq> Substr \<and> ((?w, t), v) \<in> set ?es) \<longleftrightarrow>
        ((?w, Domain), v) \<in> set ?es \<or> ((?w, Full), v) \<in> set ?es" for v
      using ac_entry_type types_distinct by metis
    have "set (concat ?last) = {v. fm \<and> (v \<in> set (?nv Domain) \<or> v \<in> set (?nv Full))}"
      by auto
    also have "\<dots> = {v. ((?w, Domain), v) \<in> set ?es \<or> ((?w, Full), v) \<in> set ?es}"
      using nv fm by (cases fm) auto
    finally show ?thesis unfolding T .
  qed
  have "set (concat (rev (sub @ suf @ ?last))) = {v. found ms input v}"
    unfolding set_concat_rev3 suf sub last found_def Let_def substr_values_def append_Nil
    by blast
  then show ?thesis using res by blast
qed



end
