(* ===== verification/Mph.thy ===== *)
theory Mph
  imports Str_Match "HOL-Library.AList" "HOL-Library.Multiset"
begin

text \<open>
  The minimal-perfect-hash matcher group of \<^verbatim>\<open>matchergroup_mph.go\<close> for full and domain patterns:
  a rolling hash from the end of the string chooses a bucket, the bucket's seed chooses a second
  hash, and the second hash the only rule the string can be equal to.

  \<open>MemHash\<close> is the run-time's string hash, an assembly routine of the Go run-time reached through a
  linker directive; it is the parameter \<open>mem\<close>. The Unicode case tables that \<^verbatim>\<open>strings.ToLower\<close> uses
  on strings that are not ASCII are the parameter \<open>uni\<close>. \<open>Build\<close> searches for the seeds and may run
  forever for a hash that has none; an operation that panics (a nil \<open>ruleInfos\<close> after \<open>Build\<close>) or
  does not return gives \<open>None\<close>.
\<close>

section \<open>Hashes\<close>

definition PrimeRK :: u32 where
  "PrimeRK = 16777619"

definition rk_step :: "u32 \<Rightarrow> byte \<Rightarrow> u32" where
  "rk_step hash c = hash * PrimeRK + ucast c"

definition RollingHash :: "u32 \<Rightarrow> gostring \<Rightarrow> u32" where
  "RollingHash hash input = foldl rk_step hash (rev input)"

definition ToLower :: "(gostring \<Rightarrow> gostring) \<Rightarrow> gostring \<Rightarrow> gostring" where
  "ToLower uni s = (if list_all (\<lambda>c. c < 0x80) s then ToLower_ascii s else uni s)"

fun bits_Len :: "nat \<Rightarrow> nat" where
  "bits_Len v = (if v = 0 then 0 else Suc (bits_Len (v div 2)))"

declare bits_Len.simps [simp del]

text \<open>\<^verbatim>\<open>(MaxUInt >> bits.LeadingZeros(uint(v))) + 1\<close>, for a 64-bit \<^verbatim>\<open>uint\<close>.\<close>

definition nextPow2 :: "nat \<Rightarrow> nat" where
  "nextPow2 v = (if v \<le> 1 then 1 else (2 ^ 64 - 1) div 2 ^ (64 - bits_Len v) + 1)"

section \<open>The group\<close>

record mphRuleInfo =
  ri_rollingHash :: u32
  ri_matchers :: "matcher_type \<Rightarrow> u32 list"

record MphMatcherGroup =
  mph_rules :: "gostring list"
  mph_values :: "u32 list list"
  mph_level0 :: "u32 list"
  mph_level0Mask :: u32
  mph_level1 :: "nat list"
  mph_level1Mask :: u32
  mph_ruleInfos :: "(gostring \<times> mphRuleInfo) list option"

definition NewMphMatcherGroup :: MphMatcherGroup where
  "NewMphMatcherGroup = \<lparr>mph_rules = [[]], mph_values = [[]], mph_level0 = [], mph_level0Mask = 0,
     mph_level1 = [], mph_level1Mask = 0, mph_ruleInfos = Some []\<rparr>"

definition mph_addPattern ::
  "u32 \<Rightarrow> gostring \<Rightarrow> gostring \<Rightarrow> matcher_type \<Rightarrow> u32 \<Rightarrow> MphMatcherGroup \<Rightarrow>
   (MphMatcherGroup \<times> u32) option" where
  "mph_addPattern suffixHash suffixPattern pattern matcherType value g = do {
     ruleInfos \<leftarrow> mph_ruleInfos g;
     let fullPattern = pattern @ suffixPattern;
     let (info, g) = (case map_of ruleInfos fullPattern of
         Some info \<Rightarrow> (info, g)
       | None \<Rightarrow> (\<lparr>ri_rollingHash = RollingHash suffixHash pattern, ri_matchers = \<lambda>_. []\<rparr>,
           g\<lparr>mph_rules := mph_rules g @ [fullPattern], mph_values := mph_values g @ [[]]\<rparr>));
     let info = info\<lparr>ri_matchers :=
       (ri_matchers info)(matcherType := ri_matchers info matcherType @ [value])\<rparr>;
     Some (g\<lparr>mph_ruleInfos := Some (AList.update fullPattern info ruleInfos)\<rparr>, ri_rollingHash info)
   }"

definition Mph_AddFullMatcher ::
  "(gostring \<Rightarrow> gostring) \<Rightarrow> gostring \<Rightarrow> u32 \<Rightarrow> MphMatcherGroup \<Rightarrow> MphMatcherGroup option" where
  "Mph_AddFullMatcher uni m value g =
     map_option fst (mph_addPattern 0 [] (ToLower uni m) Full value g)"

definition Mph_AddDomainMatcher ::
  "(gostring \<Rightarrow> gostring) \<Rightarrow> gostring \<Rightarrow> u32 \<Rightarrow> MphMatcherGroup \<Rightarrow> MphMatcherGroup option" where
  "Mph_AddDomainMatcher uni m value g = do {
     let pattern = ToLower uni m;
     (g, hash) \<leftarrow> mph_addPattern 0 [] pattern Domain value g;
     map_option fst (mph_addPattern hash pattern [dot] Domain value g)
   }"

text \<open>
  \<open>Build\<close>. The rules are put into buckets by their rolling hash; \<open>bucket_pass\<close> is one attempt to
  place all rules of a bucket with one seed, which takes back what it placed when it meets an
  occupied slot, and \<open>bucket_loop\<close> repeats it with the next seed.
\<close>

fun mph_buckets ::
  "(gostring \<times> mphRuleInfo) list \<Rightarrow> gostring list \<Rightarrow> u32 \<Rightarrow> nat list \<Rightarrow>
   nat list list \<Rightarrow> u32 list list \<Rightarrow> nat list list \<times> u32 list list" where
  "mph_buckets infos rules msk [] buckets values = (buckets, values)"
| "mph_buckets infos rules msk (ruleIdx # idxs) buckets values =
     (let ruleInfo = (case map_of infos (rules ! ruleIdx) of
            Some i \<Rightarrow> i | None \<Rightarrow> \<lparr>ri_rollingHash = 0, ri_matchers = \<lambda>_. []\<rparr>);
          bucketIdx = unat (ri_rollingHash ruleInfo AND msk)
      in mph_buckets infos rules msk idxs
           (buckets[bucketIdx := buckets ! bucketIdx @ [ruleIdx]])
           (values[ruleIdx := ri_matchers ruleInfo Full @ ri_matchers ruleInfo Domain]))"

type_synonym slots = "bool list \<times> nat list"

fun bucket_pass ::
  "(gostring \<Rightarrow> nat) \<Rightarrow> gostring list \<Rightarrow> nat list \<Rightarrow> slots \<Rightarrow> nat list \<Rightarrow> bool \<times> slots \<times> nat list" where
  "bucket_pass hash rules [] slots hashed = (False, slots, hashed)"
| "bucket_pass hash rules (ruleIdx # bucket) (occupied, level1) hashed =
     (let memHash = hash (rules ! ruleIdx)
      in if occupied ! memHash then
           (True, foldl (\<lambda>(occ, l1) h. (occ[h := False], l1[h := 0])) (occupied, level1) hashed, [])
         else bucket_pass hash rules bucket
                (occupied[memHash := True], level1[memHash := ruleIdx]) (hashed @ [memHash]))"

definition masked_hash :: "(u32 \<Rightarrow> gostring \<Rightarrow> u32) \<Rightarrow> u32 \<Rightarrow> u32 \<Rightarrow> gostring \<Rightarrow> nat" where
  "masked_hash mem msk seed s = unat (mem seed s AND msk)"

partial_function (option) bucket_loop ::
  "(u32 \<Rightarrow> gostring \<Rightarrow> u32) \<Rightarrow> u32 \<Rightarrow> gostring list \<Rightarrow> nat list \<Rightarrow> u32 \<Rightarrow> slots \<Rightarrow> nat list \<Rightarrow>
   (u32 \<times> slots) option" where
  "bucket_loop mem msk rules bucket seed slots hashed =
     (if length hashed = length bucket then Some (seed, slots)
      else
        (case bucket_pass (masked_hash mem msk seed) rules bucket slots hashed of
           (collision, slots', hashed') \<Rightarrow>
             bucket_loop mem msk rules bucket (if collision then seed + 1 else seed) slots' hashed'))"

fun place_buckets ::
  "(u32 \<Rightarrow> gostring \<Rightarrow> u32) \<Rightarrow> u32 \<Rightarrow> gostring list \<Rightarrow> nat list list \<Rightarrow> nat list \<Rightarrow>
   u32 list \<Rightarrow> slots \<Rightarrow> (u32 list \<times> slots) option" where
  "place_buckets mem msk rules buckets [] level0 slots = Some (level0, slots)"
| "place_buckets mem msk rules buckets (bucketIdx # idxs) level0 slots = do {
     (seed, slots) \<leftarrow> bucket_loop mem msk rules (buckets ! bucketIdx) 0 slots [];
     place_buckets mem msk rules buckets idxs (level0[bucketIdx := seed]) slots
   }"

definition Mph_Build ::
  "(u32 \<Rightarrow> gostring \<Rightarrow> u32) \<Rightarrow> MphMatcherGroup \<Rightarrow> MphMatcherGroup option" where
  "Mph_Build mem g = do {
     ruleInfos \<leftarrow> mph_ruleInfos g;
     let ruleCount = length ruleInfos;
     let level0 = replicate (nextPow2 (ruleCount div 4)) 0;
     let level0Mask = of_nat (length level0 - 1);
     let level1 = replicate (nextPow2 ruleCount) 0;
     let level1Mask = of_nat (length level1 - 1);
     let (buckets, values) = mph_buckets ruleInfos (mph_rules g) level0Mask
       [1 ..< length (mph_rules g)] (replicate (length level0) []) (mph_values g);
     let bucketIdxs = sort_key (\<lambda>i. - int (length (buckets ! i))) [0 ..< length buckets];
     (level0, (_, level1)) \<leftarrow> place_buckets mem level1Mask (mph_rules g) buckets bucketIdxs level0
       (replicate (length level1) False, level1);
     Some (g\<lparr>mph_values := values, mph_level0 := level0, mph_level0Mask := level0Mask,
       mph_level1 := level1, mph_level1Mask := level1Mask, mph_ruleInfos := None\<rparr>)
   }"

definition Mph_Lookup :: "(u32 \<Rightarrow> gostring \<Rightarrow> u32) \<Rightarrow> MphMatcherGroup \<Rightarrow> u32 \<Rightarrow> gostring \<Rightarrow> nat" where
  "Mph_Lookup mem g rollingHash input =
     (let i0 = unat (rollingHash AND mph_level0Mask g);
          seed = mph_level0 g ! i0;
          i1 = masked_hash mem (mph_level1Mask g) seed input;
          n = mph_level1 g ! i1
      in if mph_rules g ! n = input then n else 0)"

text \<open>
  The loops of \<open>Match\<close> and \<open>MatchAny\<close> run from the last byte to the first: \<open>rest\<close> are the bytes still
  to be read, the nearest one first, and \<open>suf\<close> is \<^verbatim>\<open>input[i+1:]\<close>.
\<close>

fun Mph_Match_loop ::
  "(u32 \<Rightarrow> gostring \<Rightarrow> u32) \<Rightarrow> MphMatcherGroup \<Rightarrow> gostring \<Rightarrow> gostring \<Rightarrow> u32 \<Rightarrow> u32 list list \<Rightarrow>
   u32 \<times> u32 list list" where
  "Mph_Match_loop mem g [] suf hash matches = (hash, matches)"
| "Mph_Match_loop mem g (c # rest) suf hash matches =
     (let hash = rk_step hash c;
          mphIdx = Mph_Lookup mem g hash (c # suf);
          matches = (if c = dot \<and> mphIdx \<noteq> 0 then matches @ [mph_values g ! mphIdx] else matches)
      in Mph_Match_loop mem g rest (c # suf) hash matches)"

definition Mph_Match :: "(u32 \<Rightarrow> gostring \<Rightarrow> u32) \<Rightarrow> MphMatcherGroup \<Rightarrow> gostring \<Rightarrow> u32 list" where
  "Mph_Match mem g input =
     (let (hash, matches) = Mph_Match_loop mem g (rev input) [] 0 [];
          mphIdx = Mph_Lookup mem g hash input;
          matches = (if mphIdx \<noteq> 0 then matches @ [mph_values g ! mphIdx] else matches)
      in CompositeMatchesReverse matches)"

fun Mph_MatchAny_loop ::
  "(u32 \<Rightarrow> gostring \<Rightarrow> u32) \<Rightarrow> MphMatcherGroup \<Rightarrow> gostring \<Rightarrow> gostring \<Rightarrow> u32 \<Rightarrow> bool" where
  "Mph_MatchAny_loop mem g [] suf hash = (Mph_Lookup mem g hash suf \<noteq> 0)"
| "Mph_MatchAny_loop mem g (c # rest) suf hash =
     (let hash = rk_step hash c
      in if c = dot \<and> Mph_Lookup mem g hash (c # suf) \<noteq> 0 then True
         else Mph_MatchAny_loop mem g rest (c # suf) hash)"

definition Mph_MatchAny :: "(u32 \<Rightarrow> gostring \<Rightarrow> u32) \<Rightarrow> MphMatcherGroup \<Rightarrow> gostring \<Rightarrow> bool" where
  "Mph_MatchAny mem g input = Mph_MatchAny_loop mem g (rev input) [] 0"

section \<open>Adding patterns\<close>

type_synonym mph_entry = "(gostring \<times> matcher_type) \<times> u32"

definition mph_rep :: "MphMatcherGroup \<Rightarrow> mph_entry list \<Rightarrow> bool" where
  "mph_rep g es = (\<exists>infos. mph_ruleInfos g = Some infos \<and>
     mph_rules g = [] # map fst infos \<and> length (mph_values g) = length (mph_rules g) \<and>
     distinct (map fst infos) \<and> fst ` fst ` set es = fst ` set infos \<and>
     (\<forall>s info. map_of infos s = Some info \<longrightarrow> ri_rollingHash info = RollingHash 0 s \<and>
        (\<forall>t. ri_matchers info t = values_of (\<lambda>k. k = (s, t)) es)))"

lemma RollingHash_append: "RollingHash (RollingHash h b) a = RollingHash h (a @ b)"
  by (simp add: RollingHash_def)

lemma RollingHash_Cons: "RollingHash h (c # s) = rk_step (RollingHash h s) c"
  by (simp add: RollingHash_def)

lemma mph_rep_New: "mph_rep NewMphMatcherGroup []"
  by (simp add: mph_rep_def NewMphMatcherGroup_def)

lemma mph_addPattern_rep:
  assumes rep: "mph_rep g es" and h: "suffixHash = RollingHash 0 suffixPattern"
  shows "\<exists>g'. mph_addPattern suffixHash suffixPattern pattern t v g =
      Some (g', RollingHash 0 (pattern @ suffixPattern)) \<and>
    mph_rep g' (es @ [((pattern @ suffixPattern, t), v)])"
proof -
  let ?p = "pattern @ suffixPattern"
  obtain infos where infos: "mph_ruleInfos g = Some infos" "mph_rules g = [] # map fst infos"
      "length (mph_values g) = length (mph_rules g)" "distinct (map fst infos)"
      "fst ` fst ` set es = fst ` set infos"
      "\<And>s info. map_of infos s = Some info \<Longrightarrow> ri_rollingHash info = RollingHash 0 s"
      "\<And>s info t. map_of infos s = Some info \<Longrightarrow> ri_matchers info t = values_of (\<lambda>k. k = (s, t)) es"
    using rep unfolding mph_rep_def by (elim exE conjE) simp
  define info where "info = (case map_of infos ?p of Some i \<Rightarrow> i
    | None \<Rightarrow> \<lparr>ri_rollingHash = RollingHash suffixHash pattern, ri_matchers = \<lambda>_. []\<rparr>)"
  define info' where "info' = info\<lparr>ri_matchers := (ri_matchers info)(t := ri_matchers info t @ [v])\<rparr>"
  let ?infos = "AList.update ?p info' infos"
  have none: "map_of infos ?p = None \<longleftrightarrow> ?p \<notin> fst ` set infos" by (simp add: map_of_eq_None_iff)
  have "ri_matchers info t' = values_of (\<lambda>k. k = (?p, t')) es" for t'
  proof (cases "map_of infos ?p")
    case None
    then have "values_of (\<lambda>k. k = (?p, t')) es = []"
      using infos(5) none by (force simp: values_of_empty_iff)
    then show ?thesis using None by (simp add: info_def)
  qed (use infos(7) in \<open>simp add: info_def\<close>)
  moreover have rh: "ri_rollingHash info = RollingHash 0 ?p"
    using infos(6) by (auto simp: info_def h RollingHash_append split: option.split)
  ultimately have each: "ri_rollingHash i = RollingHash 0 s \<and>
      (\<forall>t'. ri_matchers i t' = values_of (\<lambda>k. k = (s, t')) (es @ [((?p, t), v)]))"
    if "map_of ?infos s = Some i" for s i
    using that infos(6,7) by (auto simp: update_conv' info'_def split: if_splits)
  let ?g = "if map_of infos ?p = None
    then g\<lparr>mph_rules := mph_rules g @ [?p], mph_values := mph_values g @ [[]]\<rparr> else g"
  have "mph_addPattern suffixHash suffixPattern pattern t v g =
      Some (?g\<lparr>mph_ruleInfos := Some ?infos\<rparr>, RollingHash 0 ?p)"
    using infos(1) rh
    by (cases "map_of infos ?p") (simp_all add: mph_addPattern_def Let_def info_def info'_def)
  moreover have "mph_rep (?g\<lparr>mph_ruleInfos := Some ?infos\<rparr>) (es @ [((?p, t), v)])"
    unfolding mph_rep_def
  proof (intro exI [of _ ?infos] conjI)
    show "\<forall>s info. map_of ?infos s = Some info \<longrightarrow> ri_rollingHash info = RollingHash 0 s \<and>
        (\<forall>t'. ri_matchers info t' = values_of (\<lambda>k. k = (s, t')) (es @ [((?p, t), v)]))"
      using each by blast
    show "distinct (map fst ?infos)" using infos(4) by (rule distinct_update)
    show "fst ` fst ` set (es @ [((?p, t), v)]) = fst ` set ?infos"
      using infos(5) by (auto simp: dom_update)
  qed (use infos(2,3) none in \<open>auto simp: update_keys\<close>)
  ultimately show ?thesis by blast
qed

text \<open>\<^verbatim>\<open>AddMatcherToGroup\<close> for this group: only full and domain matchers are accepted.\<close>

fun Mph_Add ::
  "(gostring \<Rightarrow> gostring) \<Rightarrow> matcher \<Rightarrow> u32 \<Rightarrow> MphMatcherGroup \<Rightarrow>
   (MphMatcherGroup \<times> go_error option) option" where
  "Mph_Add uni (FullMatcher p) v g = map_option (\<lambda>g. (g, None)) (Mph_AddFullMatcher uni p v g)"
| "Mph_Add uni (DomainMatcher p) v g = map_option (\<lambda>g. (g, None)) (Mph_AddDomainMatcher uni p v g)"
| "Mph_Add uni _ v g = Some (g, Some (ErrNew ''cannot add matcher to matcher group''))"

fun mph_entries :: "(gostring \<Rightarrow> gostring) \<Rightarrow> matcher \<times> u32 \<Rightarrow> mph_entry list" where
  "mph_entries uni (FullMatcher p, v) = [((ToLower uni p, Full), v)]"
| "mph_entries uni (DomainMatcher p, v) =
     [((ToLower uni p, Domain), v), ((dot # ToLower uni p, Domain), v)]"
| "mph_entries uni _ = []"

lemma Mph_Add_rep:
  assumes "mph_rep g es"
  shows "\<exists>g' e. Mph_Add uni m v g = Some (g', e) \<and> mph_rep g' (es @ mph_entries uni (m, v))"
proof -
  have z: "(0 :: u32) = RollingHash 0 []" by (simp add: RollingHash_def)
  show ?thesis
  proof (cases m)
    case (FullMatcher p)
    then show ?thesis
      using mph_addPattern_rep [OF assms z, of "ToLower uni p" Full v]
      by (auto simp: Mph_AddFullMatcher_def)
  next
    case (DomainMatcher p)
    let ?p = "ToLower uni p"
    obtain g1 where g1: "mph_addPattern 0 [] ?p Domain v g = Some (g1, RollingHash 0 ?p)"
        "mph_rep g1 (es @ [((?p, Domain), v)])"
      using mph_addPattern_rep [OF assms z, of ?p Domain v] by auto
    obtain g2 where g2: "mph_addPattern (RollingHash 0 ?p) ?p [dot] Domain v g1 =
          Some (g2, RollingHash 0 (dot # ?p))"
        "mph_rep g2 ((es @ [((?p, Domain), v)]) @ [((dot # ?p, Domain), v)])"
      using mph_addPattern_rep [OF g1(2) refl, of ?p "[dot]" Domain v] by auto
    then show ?thesis
      using g1 DomainMatcher by (auto simp: Mph_AddDomainMatcher_def Let_def)
  qed (use assms in auto)
qed

text \<open>Adding a list of matchers; it does not panic before \<open>Build\<close>.\<close>

fun mph_add_all ::
  "(gostring \<Rightarrow> gostring) \<Rightarrow> (matcher \<times> u32) list \<Rightarrow> MphMatcherGroup \<Rightarrow> MphMatcherGroup option" where
  "mph_add_all uni [] g = Some g"
| "mph_add_all uni ((m, v) # ms) g = do { (g', _) \<leftarrow> Mph_Add uni m v g; mph_add_all uni ms g' }"

lemma mph_add_all_rep:
  "mph_rep g es \<Longrightarrow> \<exists>g'. mph_add_all uni ms g = Some g' \<and> mph_rep g' (es @ concat (map (mph_entries uni) ms))"
proof (induction ms arbitrary: g es)
  case (Cons x ms)
  obtain m v where x: "x = (m, v)" by force
  obtain g1 e where "Mph_Add uni m v g = Some (g1, e)" "mph_rep g1 (es @ mph_entries uni (m, v))"
    using Mph_Add_rep [OF Cons.prems] by blast
  then show ?case using Cons.IH [of g1 "es @ mph_entries uni (m, v)"] by (auto simp: x)
qed simp

section \<open>Placing the buckets\<close>

text \<open>
  \<open>place h rs\<close> puts every rule of \<open>rs\<close> into its slot; \<open>fits h occ rs\<close> says that the slots are free and
  different.
\<close>

definition place :: "(nat \<Rightarrow> nat) \<Rightarrow> nat list \<Rightarrow> slots \<Rightarrow> slots" where
  "place h rs = (\<lambda>(occ, l1). foldl (\<lambda>(occ, l1) r. (occ[h r := True], l1[h r := r])) (occ, l1) rs)"

definition fits :: "(nat \<Rightarrow> nat) \<Rightarrow> bool list \<Rightarrow> nat list \<Rightarrow> bool" where
  "fits h occ rs = (distinct (map h rs) \<and> (\<forall>r \<in> set rs. \<not> occ ! h r))"

definition slots_ok :: "nat \<Rightarrow> slots \<Rightarrow> bool" where
  "slots_ok n = (\<lambda>(occ, l1). length occ = n \<and> length l1 = n \<and> (\<forall>i < n. \<not> occ ! i \<longrightarrow> l1 ! i = 0))"

lemma place_Nil [simp]: "place h [] s = s"
  by (simp add: place_def split: prod.split)

lemma place_snoc: "place h (rs @ [r]) s = (case place h rs s of (occ, l1) \<Rightarrow> (occ[h r := True], l1[h r := r]))"
  by (simp add: place_def split: prod.split)

lemma place_spec:
  assumes "slots_ok n (occ, l1)" "\<And>r. r \<in> set rs \<Longrightarrow> h r < n" "fits h occ rs"
  shows "\<exists>occ' l1'. place h rs (occ, l1) = (occ', l1') \<and> slots_ok n (occ', l1') \<and>
    (\<forall>i < n. occ' ! i \<longleftrightarrow> occ ! i \<or> i \<in> h ` set rs) \<and>
    (\<forall>i < n. i \<notin> h ` set rs \<longrightarrow> l1' ! i = l1 ! i) \<and>
    (\<forall>r \<in> set rs. l1' ! h r = r)"
  using assms(2,3)
proof (induction rs rule: rev_induct)
  case Nil
  then show ?case using assms(1) by simp
next
  case (snoc r rs)
  have "fits h occ rs" "h r \<notin> h ` set rs" using snoc.prems by (auto simp: fits_def)
  then obtain occ' l1' where IH: "place h rs (occ, l1) = (occ', l1')" "slots_ok n (occ', l1')"
      "\<forall>i < n. occ' ! i \<longleftrightarrow> occ ! i \<or> i \<in> h ` set rs"
      "\<forall>i < n. i \<notin> h ` set rs \<longrightarrow> l1' ! i = l1 ! i" "\<forall>r \<in> set rs. l1' ! h r = r"
    using snoc.IH snoc.prems(1) by auto
  have hr: "h r < n" using snoc.prems by simp
  have len: "length occ' = n" "length l1' = n" using IH(2) by (auto simp: slots_ok_def)
  have "\<forall>q \<in> set (rs @ [r]). l1'[h r := r] ! h q = q"
  proof
    fix q assume "q \<in> set (rs @ [r])"
    then consider "q = r" | "q \<in> set rs" "h q \<noteq> h r"
      using \<open>h r \<notin> h ` set rs\<close> by (metis Un_iff empty_iff image_eqI insert_iff list.set set_append)
    then show "l1'[h r := r] ! h q = q"
      using IH(5) hr len by cases auto
  qed
  then show ?case
    using IH hr len by (auto simp: place_snoc slots_ok_def nth_list_update)
qed

lemma revert_spec:
  "\<exists>o2 l2. foldl (\<lambda>(occ, l1) i. (occ[i := False], l1[i := 0 :: nat])) (o1, l1) is = (o2, l2) \<and>
      length o2 = length o1 \<and> length l2 = length l1 \<and>
      (\<forall>i < length o1. o2 ! i = (if i \<in> set is then False else o1 ! i)) \<and>
      (\<forall>i < length l1. l2 ! i = (if i \<in> set is then 0 else l1 ! i))"
proof (induction "is" arbitrary: o1 l1)
  case (Cons a "is")
  obtain o2 l2 where "foldl (\<lambda>(occ, l1) i. (occ[i := False], l1[i := 0])) (o1[a := False], l1[a := 0]) is = (o2, l2)"
      "length o2 = length o1" "length l2 = length l1"
      "\<forall>i < length o1. o2 ! i = (if i \<in> set is then False else o1[a := False] ! i)"
      "\<forall>i < length l1. l2 ! i = (if i \<in> set is then 0 else l1[a := 0] ! i)"
    using Cons.IH [of "o1[a := False]" "l1[a := 0]"] by auto
  then show ?case by (intro exI [of _ o2] exI [of _ l2]) (auto simp: nth_list_update)
qed simp

lemma revert_place:
  assumes "slots_ok n (occ, l1)" "\<And>r. r \<in> set rs \<Longrightarrow> h r < n" "fits h occ rs"
  shows "foldl (\<lambda>(occ, l1) i. (occ[i := False], l1[i := 0])) (place h rs (occ, l1)) (map h rs) = (occ, l1)"
proof -
  obtain occ' l1' where p: "place h rs (occ, l1) = (occ', l1')" "slots_ok n (occ', l1')"
      "\<forall>i < n. occ' ! i \<longleftrightarrow> occ ! i \<or> i \<in> h ` set rs"
      "\<forall>i < n. i \<notin> h ` set rs \<longrightarrow> l1' ! i = l1 ! i"
    using place_spec [OF assms] by blast
  have len: "length occ = n" "length l1 = n" "length occ' = n" "length l1' = n"
    using assms(1) p(2) by (auto simp: slots_ok_def)
  have zero: "\<not> occ ! i" "l1 ! i = 0" if "i \<in> h ` set rs" for i
    using that assms by (auto simp: fits_def slots_ok_def)
  obtain o2 l2 where r: "foldl (\<lambda>(occ, l1) i. (occ[i := False], l1[i := 0])) (occ', l1') (map h rs) = (o2, l2)"
      "length o2 = n" "length l2 = n"
      "\<forall>i < n. o2 ! i = (if i \<in> h ` set rs then False else occ' ! i)"
      "\<forall>i < n. l2 ! i = (if i \<in> h ` set rs then 0 else l1' ! i)"
    using revert_spec [of occ' l1' "map h rs"] len by auto
  have "o2 = occ" "l2 = l1"
    using r len p zero by (auto intro!: nth_equalityI)
  then show ?thesis using p(1) r(1) by simp
qed

text \<open>One attempt: all rules are placed, or the slots are as before.\<close>

lemma bucket_pass_spec:
  assumes ok: "slots_ok n (occ, l1)" and bnd: "\<And>s. hash s < n"
    and "fits (\<lambda>r. hash (rules ! r)) occ ds"
  shows "bucket_pass hash rules rs (place (\<lambda>r. hash (rules ! r)) ds (occ, l1))
      (map (\<lambda>r. hash (rules ! r)) ds) =
    (if fits (\<lambda>r. hash (rules ! r)) occ (ds @ rs)
     then (False, place (\<lambda>r. hash (rules ! r)) (ds @ rs) (occ, l1), map (\<lambda>r. hash (rules ! r)) (ds @ rs))
     else (True, (occ, l1), []))"
  using assms(3)
proof (induction rs arbitrary: ds)
  case (Cons r rs)
  let ?h = "\<lambda>r. hash (rules ! r)"
  obtain occ' l1' where p: "place ?h ds (occ, l1) = (occ', l1')"
      "\<forall>i < n. occ' ! i \<longleftrightarrow> occ ! i \<or> i \<in> ?h ` set ds"
    using place_spec [OF ok bnd Cons.prems] by blast
  have hit: "occ' ! ?h r \<longleftrightarrow> occ ! ?h r \<or> ?h r \<in> ?h ` set ds" using p(2) bnd by blast
  show ?case
  proof (cases "occ' ! ?h r")
    case True
    then have "\<not> fits ?h occ (ds @ r # rs)" using hit by (auto simp: fits_def)
    moreover have "foldl (\<lambda>(occ, l1) i. (occ[i := False], l1[i := 0])) (occ', l1') (map ?h ds) = (occ, l1)"
      using revert_place [OF ok bnd Cons.prems] p(1) by simp
    ultimately show ?thesis using True p(1) by (simp add: Let_def)
  next
    case False
    then have "fits ?h occ (ds @ [r])" using hit Cons.prems by (auto simp: fits_def)
    from Cons.IH [OF this] show ?thesis
      using False p(1) by (simp add: Let_def place_snoc)
  qed
qed simp

definition seed_hash :: "(u32 \<Rightarrow> gostring \<Rightarrow> u32) \<Rightarrow> u32 \<Rightarrow> gostring list \<Rightarrow> u32 \<Rightarrow> nat \<Rightarrow> nat" where
  "seed_hash mem msk rules seed r = masked_hash mem msk seed (rules ! r)"

lemma bucket_pass_seed:
  assumes "slots_ok n (occ, l1)" "\<And>s. masked_hash mem msk seed s < n"
  shows "bucket_pass (masked_hash mem msk seed) rules rs (occ, l1) [] =
    (if fits (seed_hash mem msk rules seed) occ rs
     then (False, place (seed_hash mem msk rules seed) rs (occ, l1), map (seed_hash mem msk rules seed) rs)
     else (True, (occ, l1), []))"
  using bucket_pass_spec [OF assms, where ds = "[]"]
  by (simp add: fits_def seed_hash_def [abs_def])

lemma bucket_loop_success:
  assumes "slots_ok n (occ, l1)" "\<And>s. masked_hash mem msk seed s < n"
    and fit: "fits (seed_hash mem msk rules seed) occ rs"
  shows "bucket_loop mem msk rules rs seed (occ, l1) [] =
    Some (seed, place (seed_hash mem msk rules seed) rs (occ, l1))"
proof (cases "rs = []")
  case False
  then have "bucket_loop mem msk rules rs seed (occ, l1) [] =
      bucket_loop mem msk rules rs seed (place (seed_hash mem msk rules seed) rs (occ, l1))
        (map (seed_hash mem msk rules seed) rs)"
    using bucket_pass_seed [OF assms(1,2)] fit by (subst bucket_loop.simps) simp
  also have "\<dots> = Some (seed, place (seed_hash mem msk rules seed) rs (occ, l1))"
    by (subst bucket_loop.simps) simp
  finally show ?thesis .
qed (subst bucket_loop.simps, simp)

lemma bucket_loop_skip:
  assumes "slots_ok n (occ, l1)" "\<And>s. masked_hash mem msk seed s < n"
    and "\<not> fits (seed_hash mem msk rules seed) occ rs"
  shows "bucket_loop mem msk rules rs seed (occ, l1) [] = bucket_loop mem msk rules rs (seed + 1) (occ, l1) []"
proof -
  have "rs \<noteq> []" using assms(3) by (auto simp: fits_def)
  then show ?thesis using bucket_pass_seed [OF assms(1,2)] assms(3) by (subst bucket_loop.simps) simp
qed

text \<open>The search from seed 0 ends at the first seed that fits.\<close>

lemma bucket_loop_first:
  assumes ok: "slots_ok n (occ, l1)" and bnd: "\<And>seed s. masked_hash mem msk seed s < n"
    and fit: "fits (seed_hash mem msk rules seed) occ rs" and first: "\<forall>s < seed. \<not> fits (seed_hash mem msk rules s) occ rs"
  shows "bucket_loop mem msk rules rs 0 (occ, l1) [] = Some (seed, place (seed_hash mem msk rules seed) rs (occ, l1))"
proof -
  have "k \<le> unat seed \<Longrightarrow> bucket_loop mem msk rules rs 0 (occ, l1) [] = bucket_loop mem msk rules rs (of_nat k) (occ, l1) []" for k
  proof (induction k)
    case (Suc k)
    have "k < 2 ^ 32" using Suc.prems unat_u32_less [of seed] by simp
    then have "(of_nat k :: u32) < seed" using Suc.prems by (simp add: word_less_nat_alt unat_of_nat_u32)
    then show ?case using Suc bucket_loop_skip [OF ok bnd, of rules "of_nat k" rs] first by (simp add: add.commute)
  qed simp
  from this [of "unat seed"] bucket_loop_success [OF ok bnd fit] show ?thesis by simp
qed

text \<open>If no seed fits, the search does not end.\<close>

lemma bucket_loop_fits:
  assumes bnd: "\<And>seed s. masked_hash mem msk seed s < n" and none: "\<forall>seed. \<not> fits (seed_hash mem msk rules seed) occ rs"
    and ok: "slots_ok n (occ, l1)"
  shows "bucket_loop mem msk rules rs seed (occ, l1) [] = None"
proof (rule ccontr)
  assume "bucket_loop mem msk rules rs seed (occ, l1) [] \<noteq> None"
  then obtain r where r: "bucket_loop mem msk rules rs seed (occ, l1) [] = Some r" by blast
  have "(mem, msk, rules, rs, (occ, l1), [] :: nat list) \<noteq> (mem, msk, rules, rs, (occ, l1), [])"
  proof (rule bucket_loop.raw_induct [rotated, OF r,
      where P = "\<lambda>m k us bs s sl hs r. (m, k, us, bs, sl, hs) \<noteq> (mem, msk, rules, rs, (occ, l1), [])"])
    fix f m k us bs s sl hs y
    assume IH: "\<And>m k us bs s sl hs y. f m k us bs s sl hs = Some (y :: u32 \<times> slots) \<Longrightarrow>
        (m, k, us, bs, sl, hs) \<noteq> (mem, msk, rules, rs, (occ, l1), [])"
      and step: "(if length hs = length bs then Some (s, sl)
        else case bucket_pass (masked_hash m k s) us bs sl hs of
          (collision, slots', hashed') \<Rightarrow> f m k us bs (if collision then s + 1 else s) slots' hashed') = Some y"
    show "(m, k, us, bs, sl, hs) \<noteq> (mem, msk, rules, rs, (occ, l1), [])"
    proof
      assume eq: "(m, k, us, bs, sl, hs) = (mem, msk, rules, rs, (occ, l1), [])"
      have "rs \<noteq> []" using none by (auto simp: fits_def)
      then have "f mem msk rules rs (s + 1) (occ, l1) [] = Some y"
        using step eq none bucket_pass_seed [OF ok bnd] by simp
      then show False using IH by blast
    qed
  qed
  then show False by simp
qed

text \<open>
  What the seed search needs, bucket after bucket: with the slots that the buckets before it have taken,
  some seed sends the rules of the bucket to different free slots; the first such seed is taken.
\<close>

fun seeds_found :: "(u32 \<Rightarrow> gostring \<Rightarrow> u32) \<Rightarrow> u32 \<Rightarrow> gostring list \<Rightarrow> nat list list \<Rightarrow> slots \<Rightarrow> bool" where
  "seeds_found mem msk rules [] slots = True"
| "seeds_found mem msk rules (rs # bs) slots =
     (\<exists>seed. fits (seed_hash mem msk rules seed) (fst slots) rs \<and>
        (\<forall>s < seed. \<not> fits (seed_hash mem msk rules s) (fst slots) rs) \<and>
        seeds_found mem msk rules bs (place (seed_hash mem msk rules seed) rs slots))"

lemma place_ok:
  assumes "slots_ok n sl" "\<And>r. r \<in> set rs \<Longrightarrow> h r < n" "fits h (fst sl) rs"
  shows "slots_ok n (place h rs sl)"
  using place_spec [of n "fst sl" "snd sl" rs h] assms by auto

lemma place_buckets_seeds:
  assumes bnd: "\<And>seed s. masked_hash mem msk seed s < n" and "slots_ok n sl"
    and "place_buckets mem msk rules buckets idxs level0 sl \<noteq> None"
  shows "seeds_found mem msk rules (map ((!) buckets) idxs) sl"
  using assms(2,3)
proof (induction idxs arbitrary: level0 sl)
  case (Cons b idxs)
  let ?h = "seed_hash mem msk rules" and ?rs = "buckets ! b"
  obtain occ l1 where sl: "sl = (occ, l1)" by (cases sl)
  obtain s0 where "fits (?h s0) occ ?rs"
    using bucket_loop_fits [OF bnd, of rules occ ?rs l1 0] Cons.prems by (fastforce simp: sl)
  then obtain seed where s: "fits (?h seed) occ ?rs" "\<forall>s. fits (?h s) occ ?rs \<longrightarrow> unat seed \<le> unat s"
    using ex_has_least_nat [of "\<lambda>s. fits (?h s) occ ?rs" s0 unat] by blast
  then have first: "\<forall>s < seed. \<not> fits (?h s) occ ?rs" by (auto simp: word_less_nat_alt not_le [symmetric])
  have "bucket_loop mem msk rules ?rs 0 (occ, l1) [] = Some (seed, place (?h seed) ?rs (occ, l1))"
    using bucket_loop_first [OF _ bnd s(1) first] Cons.prems(1) by (simp add: sl)
  moreover have "slots_ok n (place (?h seed) ?rs sl)"
    using Cons.prems(1) s(1) bnd by (intro place_ok) (simp_all add: sl seed_hash_def)
  ultimately show ?case using Cons.IH [of "place (?h seed) ?rs sl" "level0[b := seed]"] Cons.prems(2) s(1) first by (auto simp: sl)
qed simp

lemma place_buckets_spec:
  assumes bnd: "\<And>seed s. masked_hash mem msk seed s < n"
    and "distinct idxs" "\<And>b. b \<in> set idxs \<Longrightarrow> b < length buckets" "length level0 = length buckets"
    and "slots_ok n (occ, l1)" "seeds_found mem msk rules (map ((!) buckets) idxs) (occ, l1)"
  shows "\<exists>level0' occ' l1'.
    place_buckets mem msk rules buckets idxs level0 (occ, l1) = Some (level0', (occ', l1')) \<and>
    length level0' = length buckets \<and> length l1' = n \<and>
    (\<forall>b. b \<notin> set idxs \<longrightarrow> level0' ! b = level0 ! b) \<and>
    (\<forall>i < n. occ ! i \<longrightarrow> l1' ! i = l1 ! i) \<and>
    (\<forall>i < n. l1' ! i = l1 ! i \<or> (\<exists>b \<in> set idxs. l1' ! i \<in> set (buckets ! b))) \<and>
    (\<forall>b \<in> set idxs. \<forall>r \<in> set (buckets ! b). l1' ! seed_hash mem msk rules (level0' ! b) r = r)"
  using assms(2-)
proof (induction idxs arbitrary: level0 occ l1)
  case Nil
  then show ?case by (auto simp: slots_ok_def)
next
  case (Cons b idxs)
  let ?rs = "buckets ! b"
  have b: "b < length buckets" using Cons.prems by simp
  obtain seed where fit: "fits (seed_hash mem msk rules seed) occ ?rs" "\<forall>s < seed. \<not> fits (seed_hash mem msk rules s) occ ?rs"
      and later: "seeds_found mem msk rules (map ((!) buckets) idxs) (place (seed_hash mem msk rules seed) ?rs (occ, l1))"
    using Cons.prems(5) by auto
  have loop: "bucket_loop mem msk rules ?rs 0 (occ, l1) [] = Some (seed, place (seed_hash mem msk rules seed) ?rs (occ, l1))"
    using bucket_loop_first [OF Cons.prems(4) bnd fit] .
  let ?h = "seed_hash mem msk rules seed"
  have hb: "?h r < n" for r using bnd by (simp add: seed_hash_def)
  obtain occ1 l11 where p: "place ?h ?rs (occ, l1) = (occ1, l11)" "slots_ok n (occ1, l11)"
      "\<forall>i < n. occ1 ! i \<longleftrightarrow> occ ! i \<or> i \<in> ?h ` set ?rs"
      "\<forall>i < n. i \<notin> ?h ` set ?rs \<longrightarrow> l11 ! i = l1 ! i" "\<forall>r \<in> set ?rs. l11 ! ?h r = r"
    using place_spec [OF Cons.prems(4) hb fit(1)] by blast
  obtain level0' occ' l1' where IH:
      "place_buckets mem msk rules buckets idxs (level0[b := seed]) (occ1, l11) = Some (level0', (occ', l1'))"
      "length level0' = length buckets" "length l1' = n"
      "\<forall>c. c \<notin> set idxs \<longrightarrow> level0' ! c = level0[b := seed] ! c"
      "\<forall>i < n. occ1 ! i \<longrightarrow> l1' ! i = l11 ! i"
      "\<forall>i < n. l1' ! i = l11 ! i \<or> (\<exists>b \<in> set idxs. l1' ! i \<in> set (buckets ! b))"
      "\<forall>b \<in> set idxs. \<forall>r \<in> set (buckets ! b). l1' ! seed_hash mem msk rules (level0' ! b) r = r"
    using Cons.IH [of "level0[b := seed]" occ1 l11] Cons.prems p(1,2) later by auto
  have run: "place_buckets mem msk rules buckets (b # idxs) level0 (occ, l1) = Some (level0', (occ', l1'))"
    using loop p(1) IH(1) by simp
  have lb: "level0' ! b = seed" using IH(4) Cons.prems b by simp
  have placed: "l1' ! ?h r = r" if "r \<in> set ?rs" for r
    using that p(3,5) IH(5) hb by auto
  have "l1' ! i = l1 ! i" if "i < n" "occ ! i" for i
  proof -
    have "i \<notin> ?h ` set ?rs" using fit(1) that by (auto simp: fits_def)
    then show ?thesis using that p(3,4) IH(5) by simp
  qed
  moreover have "l1' ! i = l1 ! i \<or> (\<exists>c \<in> set (b # idxs). l1' ! i \<in> set (buckets ! c))" if "i < n" for i
  proof (cases "i \<in> ?h ` set ?rs")
    case True
    then show ?thesis using placed by auto
  next
    case False
    then show ?thesis using that p(4) IH(6) by auto
  qed
  moreover have "level0' ! c = level0 ! c" if "c \<notin> set (b # idxs)" for c
    using that IH(4) by simp
  ultimately show ?case
    using run IH(2,3,7) lb placed by (intro exI [of _ level0'] exI [of _ occ'] exI [of _ l1']) auto
qed

section \<open>The buckets\<close>

definition bucket_of :: "(gostring \<times> mphRuleInfo) list \<Rightarrow> gostring list \<Rightarrow> u32 \<Rightarrow> nat \<Rightarrow> nat" where
  "bucket_of infos rules msk r =
     unat ((case map_of infos (rules ! r) of Some i \<Rightarrow> ri_rollingHash i | None \<Rightarrow> 0) AND msk)"

lemma mph_buckets_spec:
  assumes "\<And>r. r \<in> set idxs \<Longrightarrow> bucket_of infos rules msk r < length buckets"
    "\<And>r. r \<in> set idxs \<Longrightarrow> r < length values" "distinct idxs"
  shows "\<exists>buckets' values'. mph_buckets infos rules msk idxs buckets values = (buckets', values') \<and>
    length buckets' = length buckets \<and> length values' = length values \<and>
    (\<forall>b < length buckets. set (buckets' ! b) = set (buckets ! b) \<union> {r \<in> set idxs. bucket_of infos rules msk r = b}) \<and>
    sum_list (map length buckets') = sum_list (map length buckets) + length idxs \<and>
    (\<forall>r < length values. values' ! r = (if r \<in> set idxs then
       (case map_of infos (rules ! r) of Some i \<Rightarrow> ri_matchers i Full @ ri_matchers i Domain | None \<Rightarrow> [])
       else values ! r))"
  using assms
proof (induction idxs arbitrary: buckets "values")
  case (Cons r idxs)
  let ?b = "bucket_of infos rules msk r"
  let ?buckets = "buckets[?b := buckets ! ?b @ [r]]"
  let ?v = "case map_of infos (rules ! r) of Some i \<Rightarrow> ri_matchers i Full @ ri_matchers i Domain | None \<Rightarrow> []"
  let ?vals = "values[r := ?v]"
  have step: "mph_buckets infos rules msk (r # idxs) buckets values =
      mph_buckets infos rules msk idxs ?buckets ?vals"
    by (simp add: bucket_of_def Let_def split: option.split)
  have b: "?b < length buckets" "r < length values" using Cons.prems by auto
  have sum: "sum_list (map length ?buckets) = Suc (sum_list (map length buckets))"
    using b(1) by (simp add: map_update sum_list_update)
  obtain buckets' values' where IH: "mph_buckets infos rules msk idxs ?buckets ?vals = (buckets', values')"
      "length buckets' = length buckets" "length values' = length values"
      "\<forall>b < length buckets. set (buckets' ! b) = set (?buckets ! b) \<union> {r \<in> set idxs. bucket_of infos rules msk r = b}"
      "sum_list (map length buckets') = sum_list (map length ?buckets) + length idxs"
      "\<forall>r < length values. values' ! r = (if r \<in> set idxs then
         (case map_of infos (rules ! r) of Some i \<Rightarrow> ri_matchers i Full @ ri_matchers i Domain | None \<Rightarrow> [])
         else ?vals ! r)"
    using Cons.IH [of ?buckets ?vals] Cons.prems by auto
  have "\<forall>c < length buckets. set (buckets' ! c) =
      set (buckets ! c) \<union> {q \<in> set (r # idxs). bucket_of infos rules msk q = c}"
    using IH(4) b(1) by (auto simp: nth_list_update)
  moreover have "\<forall>q < length values. values' ! q = (if q \<in> set (r # idxs) then
      (case map_of infos (rules ! q) of Some i \<Rightarrow> ri_matchers i Full @ ri_matchers i Domain | None \<Rightarrow> [])
      else values ! q)"
    using IH(6) Cons.prems(3) b(2) by (auto simp: nth_list_update)
  ultimately show ?case
    using step IH(1,2,3,5) sum by (intro exI [of _ buckets'] exI [of _ values']) simp
qed simp

section \<open>Build\<close>

lemma nextPow2_pos: "0 < nextPow2 v"
  by (simp add: nextPow2_def)

lemma unat_and_le: "unat (x AND y) \<le> unat (y :: u32)"
proof -
  have "uint x AND uint y \<le> uint y" by (rule AND_upper2) simp
  then have "uint (x AND y) \<le> uint y" by (simp only: unsigned_and_eq)
  then show ?thesis by (simp only: unat_eq_nat_uint nat_mono)
qed

lemma masked_less: "0 < n \<Longrightarrow> unat ((x :: u32) AND of_nat (n - 1)) < n"
proof -
  assume n: "0 < n"
  have "unat (of_nat (n - 1) :: u32) \<le> n - 1"
    by (simp only: unsigned_of_nat of_nat_id take_bit_nat_less_eq_self)
  then show ?thesis using n unat_and_le [of x "of_nat (n - 1)"] by linarith
qed

text \<open>A group after \<open>Build\<close>.\<close>

definition mph_ready :: "(u32 \<Rightarrow> gostring \<Rightarrow> u32) \<Rightarrow> MphMatcherGroup \<Rightarrow> mph_entry list \<Rightarrow> bool" where
  "mph_ready mem g es =
     (mph_rules g \<noteq> [] \<and> mph_rules g ! 0 = [] \<and> set (tl (mph_rules g)) = fst ` fst ` set es \<and>
      (\<forall>seed s. mph_level1 g ! masked_hash mem (mph_level1Mask g) seed s < length (mph_rules g)) \<and>
      (\<forall>r \<in> {1 ..< length (mph_rules g)}.
         mph_level1 g ! masked_hash mem (mph_level1Mask g)
           (mph_level0 g ! unat (RollingHash 0 (mph_rules g ! r) AND mph_level0Mask g)) (mph_rules g ! r) = r \<and>
         mph_values g ! r = values_of (\<lambda>k. k = (mph_rules g ! r, Full)) es @
           values_of (\<lambda>k. k = (mph_rules g ! r, Domain)) es))"

text \<open>
  The buckets of a group, and that the search finds a seed for each of them, from the largest bucket to
  the smallest. This describes the run of \<open>Build\<close> and is no assumption about the hash: the run returns
  exactly if it holds.
\<close>

definition group_buckets :: "MphMatcherGroup \<Rightarrow> nat list list" where
  "group_buckets g = (case mph_ruleInfos g of None \<Rightarrow> [] | Some infos \<Rightarrow>
     fst (mph_buckets infos (mph_rules g) (of_nat (nextPow2 (length infos div 4) - 1))
       [1 ..< length (mph_rules g)] (replicate (nextPow2 (length infos div 4)) []) (mph_values g)))"

definition bucket_order :: "nat list list \<Rightarrow> nat list" where
  "bucket_order buckets = sort_key (\<lambda>i. - int (length (buckets ! i))) [0 ..< length buckets]"

definition mph_seeded :: "(u32 \<Rightarrow> gostring \<Rightarrow> u32) \<Rightarrow> MphMatcherGroup \<Rightarrow> bool" where
  "mph_seeded mem g =
     (let n = nextPow2 (length (mph_rules g) - 1)
      in seeds_found mem (of_nat (n - 1)) (mph_rules g) (map ((!) (group_buckets g)) (bucket_order (group_buckets g)))
           (replicate n False, replicate n 0))"

lemma Mph_Build_ready:
  assumes rep: "mph_rep g es"
  shows "(\<exists>g'. Mph_Build mem g = Some g') \<longleftrightarrow> mph_seeded mem g"
    and "\<forall>g'. Mph_Build mem g = Some g' \<longrightarrow> mph_ready mem g' es"
proof -
  obtain infos where infos: "mph_ruleInfos g = Some infos" "mph_rules g = [] # map fst infos"
      "length (mph_values g) = length (mph_rules g)" "distinct (map fst infos)"
      "fst ` fst ` set es = fst ` set infos"
      "\<And>s info. map_of infos s = Some info \<Longrightarrow> ri_rollingHash info = RollingHash 0 s"
      "\<And>s info t. map_of infos s = Some info \<Longrightarrow> ri_matchers info t = values_of (\<lambda>k. k = (s, t)) es"
    using rep unfolding mph_rep_def by (elim exE conjE) simp
  let ?rules = "mph_rules g"
  let ?n0 = "nextPow2 (length infos div 4)"
  let ?n1 = "nextPow2 (length infos)"
  define m0 where "m0 = (of_nat (?n0 - 1) :: u32)"
  define m1 where "m1 = (of_nat (?n1 - 1) :: u32)"
  have cnt: "length ?rules - 1 = length infos" using infos(2) by simp
  have bnd: "masked_hash mem m1 seed s < ?n1" for seed s
    unfolding masked_hash_def m1_def using masked_less [OF nextPow2_pos] .
  have less0: "unat (x AND m0) < ?n0" for x
    unfolding m0_def using masked_less [OF nextPow2_pos] .
  have rule: "?rules ! r \<in> fst ` set infos" if "r \<in> {1 ..< length ?rules}" for r
    using that infos(2) by (cases r) auto
  have info: "\<exists>i. map_of infos (?rules ! r) = Some i" if "r \<in> {1 ..< length ?rules}" for r
    using rule [OF that] by (metis map_of_eq_None_iff not_None_eq)
  have bo: "bucket_of infos ?rules m0 r = unat (RollingHash 0 (?rules ! r) AND m0)"
    if "r \<in> {1 ..< length ?rules}" for r
    using info [OF that] infos(6) by (auto simp: bucket_of_def)
  have "bucket_of infos ?rules m0 r < length (replicate ?n0 ([] :: nat list))" for r
    unfolding bucket_of_def using less0 by simp
  then obtain buckets vals where bk: "mph_buckets infos ?rules m0 [1 ..< length ?rules]
        (replicate ?n0 []) (mph_values g) = (buckets, vals)"
      "length buckets = ?n0" "length vals = length (mph_values g)"
      "\<forall>b < ?n0. set (buckets ! b) = {r \<in> set [1 ..< length ?rules]. bucket_of infos ?rules m0 r = b}"
      "sum_list (map length buckets) = length [1 ..< length ?rules]"
      "\<forall>r < length (mph_values g). vals ! r = (if r \<in> set [1 ..< length ?rules] then
         (case map_of infos (?rules ! r) of Some i \<Rightarrow> ri_matchers i Full @ ri_matchers i Domain | None \<Rightarrow> [])
         else mph_values g ! r)"
    using mph_buckets_spec [of "[1 ..< length ?rules]" infos ?rules m0 "replicate ?n0 []" "mph_values g"]
      infos(3) by (auto simp: sum_list_replicate map_replicate)
  have gb: "group_buckets g = buckets" using infos(1) bk(1) by (simp add: group_buckets_def m0_def)
  let ?idxs = "bucket_order buckets" and ?sl = "(replicate ?n1 False, replicate ?n1 (0 :: nat))"
  have idx: "distinct ?idxs" "\<And>b. b \<in> set ?idxs \<longleftrightarrow> b < length buckets" by (simp_all add: bucket_order_def)
  have sl: "slots_ok ?n1 ?sl" by (simp add: slots_ok_def)
  have seeded: "mph_seeded mem g \<longleftrightarrow> seeds_found mem m1 ?rules (map ((!) buckets) ?idxs) ?sl"
    unfolding mph_seeded_def Let_def cnt gb m1_def ..
  have build: "Mph_Build mem g = map_option (\<lambda>(level0, occ, level1).
      g\<lparr>mph_values := vals, mph_level0 := level0, mph_level0Mask := m0, mph_level1 := level1,
        mph_level1Mask := m1, mph_ruleInfos := None\<rparr>) (place_buckets mem m1 ?rules buckets ?idxs (replicate ?n0 0) ?sl)"
    using infos(1) bk(1)
    by (auto simp: Mph_Build_def Let_def m0_def m1_def bucket_order_def map_option_case split: option.split)
  have ready: "\<exists>g'. Mph_Build mem g = Some g' \<and> mph_ready mem g' es" if found: "mph_seeded mem g"
  proof -
    obtain level0 occ level1 where pl:
        "place_buckets mem m1 ?rules buckets ?idxs (replicate ?n0 0) ?sl = Some (level0, (occ, level1))"
        "length level0 = length buckets" "length level1 = ?n1"
        "\<forall>i < ?n1. level1 ! i = replicate ?n1 0 ! i \<or> (\<exists>b \<in> set ?idxs. level1 ! i \<in> set (buckets ! b))"
        "\<forall>b \<in> set ?idxs. \<forall>r \<in> set (buckets ! b). level1 ! seed_hash mem m1 ?rules (level0 ! b) r = r"
      using place_buckets_spec [OF bnd idx(1) _ _ sl found [unfolded seeded], of "replicate ?n0 0"] idx(2) bk(2) by auto
    let ?g = "g\<lparr>mph_values := vals, mph_level0 := level0, mph_level0Mask := m0,
         mph_level1 := level1, mph_level1Mask := m1, mph_ruleInfos := None\<rparr>"
    have run: "Mph_Build mem g = Some ?g" unfolding build pl(1) by simp
    have range: "level1 ! i < length ?rules" if "i < ?n1" for i
      using pl(4) that bk(2,4) infos(2) idx(2) by fastforce
    have slot: "level1 ! masked_hash mem m1 (level0 ! unat (RollingHash 0 (?rules ! r) AND m0)) (?rules ! r) = r"
      if r: "r \<in> {1 ..< length ?rules}" for r
    proof -
      let ?b = "unat (RollingHash 0 (?rules ! r) AND m0)"
      have b: "?b < ?n0" by (rule less0)
      then have "r \<in> set (buckets ! ?b)" using bk(4) bo [OF r] r by auto
      then show ?thesis using pl(5) b bk(2) idx(2) by (auto simp: seed_hash_def)
    qed
    have "vals ! r = values_of (\<lambda>k. k = (?rules ! r, Full)) es @ values_of (\<lambda>k. k = (?rules ! r, Domain)) es"
      if r: "r \<in> {1 ..< length ?rules}" for r
      using info [OF r] infos(7) bk(6) r infos(3) by auto
    then have "mph_ready mem ?g es"
      using range bnd slot infos(2,5) by (auto simp: mph_ready_def)
    then show ?thesis using run by blast
  qed
  have seeds: "mph_seeded mem g" if "Mph_Build mem g = Some g'" for g'
    unfolding seeded by (rule place_buckets_seeds [OF bnd sl]) (use that build in auto)
  show "(\<exists>g'. Mph_Build mem g = Some g') \<longleftrightarrow> mph_seeded mem g" using ready seeds by blast
  show "\<forall>g'. Mph_Build mem g = Some g' \<longrightarrow> mph_ready mem g' es" using ready seeds by fastforce
qed

section \<open>Lookup and matching\<close>

lemma Mph_Lookup_spec:
  assumes "mph_ready mem g es"
  shows "(Mph_Lookup mem g (RollingHash 0 s) s \<noteq> 0 \<longleftrightarrow> s \<in> fst ` fst ` set es) \<and>
    (Mph_Lookup mem g (RollingHash 0 s) s \<noteq> 0 \<longrightarrow>
       set (mph_values g ! Mph_Lookup mem g (RollingHash 0 s) s) =
         {v. ((s, Full), v) \<in> set es \<or> ((s, Domain), v) \<in> set es})"
proof -
  let ?rules = "mph_rules g"
  let ?n = "mph_level1 g ! masked_hash mem (mph_level1Mask g)
    (mph_level0 g ! unat (RollingHash 0 s AND mph_level0Mask g)) s"
  have lk: "Mph_Lookup mem g (RollingHash 0 s) s = (if ?rules ! ?n = s then ?n else 0)"
    by (simp add: Mph_Lookup_def Let_def)
  have r: "?rules \<noteq> []" "set (tl ?rules) = fst ` fst ` set es"
      "\<And>seed s. mph_level1 g ! masked_hash mem (mph_level1Mask g) seed s < length ?rules"
      "\<And>r. r \<in> {1 ..< length ?rules} \<Longrightarrow> mph_level1 g ! masked_hash mem (mph_level1Mask g)
           (mph_level0 g ! unat (RollingHash 0 (?rules ! r) AND mph_level0Mask g)) (?rules ! r) = r"
      "\<And>r. r \<in> {1 ..< length ?rules} \<Longrightarrow> mph_values g ! r = values_of (\<lambda>k. k = (?rules ! r, Full)) es @
           values_of (\<lambda>k. k = (?rules ! r, Domain)) es"
    using assms by (auto simp: mph_ready_def)
  have mem_iff: "s \<in> fst ` fst ` set es \<longleftrightarrow> (\<exists>r \<in> {1 ..< length ?rules}. ?rules ! r = s)"
    unfolding r(2) [symmetric] using r(1)
    by (cases ?rules) (auto simp: in_set_conv_nth Bex_def Suc_le_eq gr0_conv_Suc)
  have n: "?n \<in> {1 ..< length ?rules}" if "?rules ! ?n = s" "?n \<noteq> 0"
    using r(3) that by (simp add: Suc_le_eq)
  have "Mph_Lookup mem g (RollingHash 0 s) s \<noteq> 0 \<longleftrightarrow> s \<in> fst ` fst ` set es"
  proof
    assume "Mph_Lookup mem g (RollingHash 0 s) s \<noteq> 0"
    then have "?rules ! ?n = s" "?n \<noteq> 0" unfolding lk by (simp_all split: if_splits)
    then show "s \<in> fst ` fst ` set es" unfolding mem_iff using n by blast
  next
    assume "s \<in> fst ` fst ` set es"
    then obtain q where q: "q \<in> {1 ..< length ?rules}" "?rules ! q = s" unfolding mem_iff by blast
    then have "?n = q" using r(4) [OF q(1)] by simp
    then show "Mph_Lookup mem g (RollingHash 0 s) s \<noteq> 0" using q unfolding lk by simp
  qed
  moreover have "set (mph_values g ! Mph_Lookup mem g (RollingHash 0 s) s) =
      {v. ((s, Full), v) \<in> set es \<or> ((s, Domain), v) \<in> set es}"
    if "Mph_Lookup mem g (RollingHash 0 s) s \<noteq> 0"
  proof -
    have h: "?rules ! ?n = s" "?n \<noteq> 0" using that unfolding lk by (simp_all split: if_splits)
    have "Mph_Lookup mem g (RollingHash 0 s) s = ?n" using h(1) unfolding lk by simp
    then show ?thesis using r(5) [OF n [OF h]] h(1) by (auto simp: set_values_of)
  qed
  ultimately show ?thesis by blast
qed

definition entry_strings :: "mph_entry list \<Rightarrow> gostring set" where
  "entry_strings es = fst ` fst ` set es"

definition entry_values :: "mph_entry list \<Rightarrow> gostring \<Rightarrow> u32 set" where
  "entry_values es s = {v. ((s, Full), v) \<in> set es \<or> ((s, Domain), v) \<in> set es}"

lemma entry_values_empty: "s \<notin> fst ` fst ` set es \<Longrightarrow> entry_values es s = {}"
  by (force simp: entry_values_def)

lemma Mph_MatchAny_loop_iff:
  assumes "mph_ready mem g es"
  shows "Mph_MatchAny_loop mem g rest suf (RollingHash 0 suf) \<longleftrightarrow>
    (\<exists>x y. rest = x @ dot # y \<and> dot # rev x @ suf \<in> entry_strings es) \<or>
    rev rest @ suf \<in> entry_strings es"
proof (induction rest arbitrary: suf)
  case Nil
  then show ?case using Mph_Lookup_spec [OF assms] by (simp add: entry_strings_def)
next
  case (Cons c rest)
  have "Mph_MatchAny_loop mem g (c # rest) suf (RollingHash 0 suf) \<longleftrightarrow>
      (c = dot \<and> c # suf \<in> entry_strings es) \<or> Mph_MatchAny_loop mem g rest (c # suf) (RollingHash 0 (c # suf))"
    using Mph_Lookup_spec [OF assms, of "c # suf"]
    by (auto simp: Let_def RollingHash_Cons entry_strings_def)
  moreover have "(\<exists>x y. c # rest = x @ dot # y \<and> dot # rev x @ suf \<in> entry_strings es) \<longleftrightarrow>
      (c = dot \<and> c # suf \<in> entry_strings es) \<or>
      (\<exists>x y. rest = x @ dot # y \<and> dot # rev x @ c # suf \<in> entry_strings es)"
    unfolding split_dot_Cons by auto
  ultimately show ?case using Cons.IH [of "c # suf"] by simp
qed

lemma Mph_Match_loop_values:
  assumes "mph_ready mem g es"
  shows "\<exists>ms. Mph_Match_loop mem g rest suf (RollingHash 0 suf) matches =
      (RollingHash 0 (rev rest @ suf), matches @ ms) \<and>
    set (concat ms) = {v. \<exists>x y. rest = x @ dot # y \<and> v \<in> entry_values es (dot # rev x @ suf)}"
proof (induction rest arbitrary: suf matches)
  case Nil
  then show ?case by simp
next
  case (Cons c rest)
  let ?i = "Mph_Lookup mem g (RollingHash 0 (c # suf)) (c # suf)"
  let ?m = "if c = dot \<and> ?i \<noteq> 0 then [mph_values g ! ?i] else []"
  obtain ms where IH: "Mph_Match_loop mem g rest (c # suf) (RollingHash 0 (c # suf)) (matches @ ?m) =
      (RollingHash 0 (rev rest @ c # suf), (matches @ ?m) @ ms)"
    "set (concat ms) = {v. \<exists>x y. rest = x @ dot # y \<and> v \<in> entry_values es (dot # rev x @ c # suf)}"
    using Cons.IH by blast
  have m: "set (concat ?m) = {v. c = dot \<and> v \<in> entry_values es (c # suf)}"
  proof (cases "?i = 0")
    case True
    then have "entry_values es (c # suf) = {}"
      using Mph_Lookup_spec [OF assms, of "c # suf"] by (intro entry_values_empty) simp
    then show ?thesis using True by simp
  next
    case False
    then have "set (mph_values g ! ?i) = entry_values es (c # suf)"
      using Mph_Lookup_spec [OF assms, of "c # suf"] by (simp add: entry_values_def)
    then show ?thesis using False by auto
  qed
  have "Mph_Match_loop mem g (c # rest) suf (RollingHash 0 suf) matches =
      (RollingHash 0 (rev (c # rest) @ suf), matches @ (?m @ ms))"
    unfolding Mph_Match_loop.simps Let_def RollingHash_Cons [symmetric] if_append IH(1) by simp
  moreover have "set (concat (?m @ ms)) =
      {v. \<exists>x y. c # rest = x @ dot # y \<and> v \<in> entry_values es (dot # rev x @ suf)}"
    unfolding concat_append set_append m IH(2) split_dot_Cons by auto
  ultimately show ?case by blast
qed

lemma rev_split: "(\<exists>x y. rev s = x @ d # y \<and> P (rev x)) \<longleftrightarrow> (\<exists>a q. s = a @ d # q \<and> P q)"
proof
  assume "\<exists>x y. rev s = x @ d # y \<and> P (rev x)"
  then obtain x y where "rev s = x @ d # y" "P (rev x)" by blast
  then have "s = rev y @ d # rev x" "P (rev x)" by (simp_all add: rev_swap)
  then show "\<exists>a q. s = a @ d # q \<and> P q" by blast
next
  assume "\<exists>a q. s = a @ d # q \<and> P q"
  then obtain a q where "s = a @ d # q" "P q" by blast
  then have "rev s = rev q @ d # rev a" "P (rev (rev q))" by simp_all
  then show "\<exists>x y. rev s = x @ d # y \<and> P (rev x)" by blast
qed

lemma Mph_Match_found:
  assumes "mph_ready mem g es"
  shows "set (Mph_Match mem g s) =
    {v. \<exists>a q. s = a @ dot # q \<and> v \<in> entry_values es (dot # q)} \<union> entry_values es s"
proof -
  have z: "(0 :: u32) = RollingHash 0 []" by (simp add: RollingHash_def)
  obtain ms where loop: "Mph_Match_loop mem g (rev s) [] 0 [] = (RollingHash 0 s, ms)"
      "set (concat ms) = {v. \<exists>x y. rev s = x @ dot # y \<and> v \<in> entry_values es (dot # rev x)}"
    using Mph_Match_loop_values [OF assms, of "rev s" "[]" "[]"] z by auto
  let ?i = "Mph_Lookup mem g (RollingHash 0 s) s"
  have "set (if ?i \<noteq> 0 then mph_values g ! ?i else []) = entry_values es s"
    using Mph_Lookup_spec [OF assms, of s] entry_values_empty [of s es]
    by (auto simp: entry_values_def)
  moreover have "set (Mph_Match mem g s) = set (concat ms) \<union> set (if ?i \<noteq> 0 then mph_values g ! ?i else [])"
    by (auto simp: Mph_Match_def loop(1) CompositeMatchesReverse_concat Let_def)
  moreover have "(\<exists>x y. rev s = x @ dot # y \<and> v \<in> entry_values es (dot # rev x)) \<longleftrightarrow>
      (\<exists>a q. s = a @ dot # q \<and> v \<in> entry_values es (dot # q))" for v
    by (rule rev_split)
  ultimately show ?thesis using loop(2) by simp
qed

lemma Mph_MatchAny_found:
  assumes "mph_ready mem g es"
  shows "Mph_MatchAny mem g s \<longleftrightarrow>
    (\<exists>a q. s = a @ dot # q \<and> dot # q \<in> entry_strings es) \<or> s \<in> entry_strings es"
proof -
  have z: "(0 :: u32) = RollingHash 0 []" by (simp add: RollingHash_def)
  have "Mph_MatchAny mem g s \<longleftrightarrow>
      (\<exists>x y. rev s = x @ dot # y \<and> dot # rev x \<in> entry_strings es) \<or> s \<in> entry_strings es"
    unfolding Mph_MatchAny_def using Mph_MatchAny_loop_iff [OF assms, of "rev s" "[]"] z by simp
  moreover have "(\<exists>x y. rev s = x @ dot # y \<and> dot # rev x \<in> entry_strings es) \<longleftrightarrow>
      (\<exists>a q. s = a @ dot # q \<and> dot # q \<in> entry_strings es)"
    by (rule rev_split)
  ultimately show ?thesis by simp
qed

text \<open>
  The patterns the group is meant for: ASCII without upper-case letters and without a leading dot.
\<close>

definition mph_plain :: "gostring \<Rightarrow> bool" where
  "mph_plain p = (list_all (\<lambda>c. c < 0x80 \<and> \<not> is_upper c) p \<and> \<not> HasPrefix p [dot])"

lemma ToLower_plain: "mph_plain p \<Longrightarrow> ToLower uni p = p"
  by (auto simp: mph_plain_def ToLower_def ToLower_ascii_def lower_byte_def list_all_iff intro!: map_idI)

fun mph_ok :: "matcher \<Rightarrow> bool" where
  "mph_ok (FullMatcher p) = mph_plain p"
| "mph_ok (DomainMatcher p) = mph_plain p"
| "mph_ok _ = True"

fun mph_kind :: "matcher \<Rightarrow> bool" where
  "mph_kind (FullMatcher p) = True"
| "mph_kind (DomainMatcher p) = True"
| "mph_kind _ = False"

lemma types_Full_Domain: "Full \<noteq> Domain"
  by (simp add: Full_def Domain_def)

lemma mph_entries_iff:
  assumes "\<forall>(m, v) \<in> set ms. mph_ok m"
  shows "((s, Full), v) \<in> set (concat (map (mph_entries uni) ms)) \<longleftrightarrow> (FullMatcher s, v) \<in> set ms"
    and "((s, Domain), v) \<in> set (concat (map (mph_entries uni) ms)) \<longleftrightarrow>
      (\<exists>p. (DomainMatcher p, v) \<in> set ms \<and> (s = p \<or> s = dot # p))"
proof -
  have F: "((s, Full), v) \<in> set (mph_entries uni x) \<longleftrightarrow> (\<exists>p. x = (FullMatcher p, v) \<and> s = ToLower uni p)" for x
    using types_Full_Domain by (cases x; cases "fst x") auto
  have D: "((s, Domain), v) \<in> set (mph_entries uni x) \<longleftrightarrow>
      (\<exists>p. x = (DomainMatcher p, v) \<and> (s = ToLower uni p \<or> s = dot # ToLower uni p))" for x
    using types_Full_Domain by (cases x; cases "fst x") auto
  have pf: "ToLower uni p = p" if "(FullMatcher p, v) \<in> set ms" for p using assms that by (fastforce intro: ToLower_plain)
  have pd: "ToLower uni p = p" if "(DomainMatcher p, v) \<in> set ms" for p using assms that by (fastforce intro: ToLower_plain)
  have "((s, Full), v) \<in> set (concat (map (mph_entries uni) ms)) \<longleftrightarrow>
      (\<exists>p. (FullMatcher p, v) \<in> set ms \<and> s = ToLower uni p)"
    by (simp add: F) blast
  then show "((s, Full), v) \<in> set (concat (map (mph_entries uni) ms)) \<longleftrightarrow> (FullMatcher s, v) \<in> set ms"
    using pf by metis
  have "((s, Domain), v) \<in> set (concat (map (mph_entries uni) ms)) \<longleftrightarrow>
      (\<exists>p. (DomainMatcher p, v) \<in> set ms \<and> (s = ToLower uni p \<or> s = dot # ToLower uni p))"
    by (simp add: D) blast
  then show "((s, Domain), v) \<in> set (concat (map (mph_entries uni) ms)) \<longleftrightarrow>
      (\<exists>p. (DomainMatcher p, v) \<in> set ms \<and> (s = p \<or> s = dot # p))"
    using pd by metis
qed

lemma mph_found_iff:
  assumes ok: "\<forall>(m, v) \<in> set ms. mph_ok m" and es: "es = concat (map (mph_entries uni) ms)"
  shows "(\<exists>a q. s = a @ dot # q \<and> v \<in> entry_values es (dot # q)) \<or> v \<in> entry_values es s \<longleftrightarrow>
    (\<exists>m. mph_kind m \<and> (m, v) \<in> set ms \<and> Matcher_Match m s)"
proof -
  have nf: "p \<noteq> dot # q" if "(FullMatcher p, v) \<in> set ms \<or> (DomainMatcher p, v) \<in> set ms" for p q
    using ok that by (fastforce simp: mph_plain_def HasPrefix_def)
  have ev: "v \<in> entry_values es t \<longleftrightarrow> (FullMatcher t, v) \<in> set ms \<or>
      (\<exists>p. (DomainMatcher p, v) \<in> set ms \<and> (t = p \<or> t = dot # p))" for t
    unfolding entry_values_def es mph_entries_iff [OF ok] by simp
  have "(\<exists>m. mph_kind m \<and> (m, v) \<in> set ms \<and> Matcher_Match m s) \<longleftrightarrow>
      (FullMatcher s, v) \<in> set ms \<or> (\<exists>p. (DomainMatcher p, v) \<in> set ms \<and> DomainMatcher_Match p s)"
  proof
    assume "\<exists>m. mph_kind m \<and> (m, v) \<in> set ms \<and> Matcher_Match m s"
    then obtain m where "mph_kind m" "(m, v) \<in> set ms" "Matcher_Match m s" by blast
    then show "(FullMatcher s, v) \<in> set ms \<or> (\<exists>p. (DomainMatcher p, v) \<in> set ms \<and> DomainMatcher_Match p s)"
      by (cases m) (auto simp: FullMatcher_Match_def)
  next
    have "Matcher_Match (FullMatcher s) s" by (simp add: FullMatcher_Match_def)
    then show "(FullMatcher s, v) \<in> set ms \<or> (\<exists>p. (DomainMatcher p, v) \<in> set ms \<and> DomainMatcher_Match p s) \<Longrightarrow>
        \<exists>m. mph_kind m \<and> (m, v) \<in> set ms \<and> Matcher_Match m s"
      by (metis Matcher_Match.simps(2) mph_kind.simps(1,2))
  qed
  moreover have "(\<exists>a q. s = a @ dot # q \<and> v \<in> entry_values es (dot # q)) \<longleftrightarrow>
      (\<exists>p a. (DomainMatcher p, v) \<in> set ms \<and> s = a @ dot # p)"
    unfolding ev using nf by blast
  moreover have "s = dot # p \<Longrightarrow> \<exists>a. s = a @ dot # p" for p by (metis append_Nil)
  ultimately show ?thesis
    unfolding ev DomainMatcher_Match_iff by blast
qed

end
