(* ===== verification/Mph_Match.thy ===== *)
theory Mph_Match
  imports Mph Ac_Automaton Linear_Match
begin

text \<open>
  The matchers of \<^verbatim>\<open>valuematcher_mph.go\<close> and \<^verbatim>\<open>indexmatcher_mph.go\<close>: full and domain patterns in the
  perfect-hash group, substrings in the Aho-Corasick automaton, regular expressions in a list.
  On phones the linear matchers are used instead; the two give the same answers. An operation
  gives \<open>None\<close> when a call in it panics or does not return.
\<close>

record MphValueMatcher =
  mv_mph :: "MphMatcherGroup option"
  mv_ac :: "ACAutomatonMatcherGroup option"
  mv_regex :: "SimpleMatcherGroup option"

record MphIndexMatcher = MphValueMatcher +
  mi_count :: u32

definition NewMphValueMatcher :: MphValueMatcher where
  "NewMphValueMatcher = \<lparr>mv_mph = None, mv_ac = None, mv_regex = None\<rparr>"

definition NewMphIndexMatcher :: MphIndexMatcher where
  "NewMphIndexMatcher = \<lparr>mv_mph = None, mv_ac = None, mv_regex = None, mi_count = 0\<rparr>"

fun MphValueMatcher_Add ::
  "(gostring \<Rightarrow> gostring) \<Rightarrow> matcher \<Rightarrow> u32 \<Rightarrow> 'a MphValueMatcher_scheme \<Rightarrow>
   'a MphValueMatcher_scheme option" where
  "MphValueMatcher_Add uni (FullMatcher p) value g =
     do { h \<leftarrow> Mph_AddFullMatcher uni p value (or_new NewMphMatcherGroup (mv_mph g));
          Some (g\<lparr>mv_mph := Some h\<rparr>) }"
| "MphValueMatcher_Add uni (DomainMatcher p) value g =
     do { h \<leftarrow> Mph_AddDomainMatcher uni p value (or_new NewMphMatcherGroup (mv_mph g));
          Some (g\<lparr>mv_mph := Some h\<rparr>) }"
| "MphValueMatcher_Add uni (SubstrMatcher p) value g =
     Some (g\<lparr>mv_ac := Some (AC_AddSubstrMatcher p value (or_new NewACAutomatonMatcherGroup (mv_ac g)))\<rparr>)"
| "MphValueMatcher_Add uni (RegexMatcher r) value g =
     Some (g\<lparr>mv_regex := Some (SimpleMatcherGroup_Add (RegexMatcher r) value
       (or_new NewSimpleMatcherGroup (mv_regex g)))\<rparr>)"

definition MphIndexMatcher_Add ::
  "(gostring \<Rightarrow> gostring) \<Rightarrow> matcher \<Rightarrow> MphIndexMatcher \<Rightarrow> (u32 \<times> MphIndexMatcher) option" where
  "MphIndexMatcher_Add uni m g = do {
     let g = g\<lparr>mi_count := mi_count g + 1\<rparr>;
     let index = mi_count g;
     g \<leftarrow> MphValueMatcher_Add uni m index g;
     Some (index, g)
   }"

definition MphIndexMatcher_Size :: "MphIndexMatcher \<Rightarrow> u32" where
  "MphIndexMatcher_Size g = mi_count g"

text \<open>\<open>Build\<close>: the errors of the groups are dropped by the code; they are always nil.\<close>

definition MphValueMatcher_Build ::
  "(u32 \<Rightarrow> gostring \<Rightarrow> u32) \<Rightarrow> 'a MphValueMatcher_scheme \<Rightarrow> 'a MphValueMatcher_scheme option" where
  "MphValueMatcher_Build mem g = do {
     g \<leftarrow> (case mv_mph g of
         None \<Rightarrow> Some g
       | Some h \<Rightarrow> map_option (\<lambda>h. g\<lparr>mv_mph := Some h\<rparr>) (Mph_Build mem h));
     (case mv_ac g of
         None \<Rightarrow> Some g
       | Some ac \<Rightarrow> map_option (\<lambda>ac. g\<lparr>mv_ac := Some ac\<rparr>) (AC_Build ac))
   }"

definition MphValueMatcher_Match ::
  "(u32 \<Rightarrow> gostring \<Rightarrow> u32) \<Rightarrow> 'a MphValueMatcher_scheme \<Rightarrow> gostring \<Rightarrow> u32 list option" where
  "MphValueMatcher_Match mem g input = do {
     let result = append_matches (map_option (\<lambda>h. Mph_Match mem h input) (mv_mph g)) [];
     sub \<leftarrow> (case mv_ac g of
         None \<Rightarrow> Some None
       | Some ac \<Rightarrow> map_option Some (AC_Match ac input));
     let result = append_matches sub result;
     let result = append_matches (map_option (\<lambda>r. SimpleMatcherGroup_Match r input) (mv_regex g)) result;
     Some (CompositeMatches result)
   }"

definition MphValueMatcher_MatchAny ::
  "(u32 \<Rightarrow> gostring \<Rightarrow> u32) \<Rightarrow> 'a MphValueMatcher_scheme \<Rightarrow> gostring \<Rightarrow> bool" where
  "MphValueMatcher_MatchAny mem g input =
     (if (case mv_mph g of None \<Rightarrow> False | Some h \<Rightarrow> Mph_MatchAny mem h input) then True
      else if (case mv_ac g of None \<Rightarrow> False | Some ac \<Rightarrow> AC_MatchAny ac input) then True
      else (case mv_regex g of None \<Rightarrow> False | Some r \<Rightarrow> SimpleMatcherGroup_MatchAny r input))"

definition MphIndexMatcher_Build ::
  "(u32 \<Rightarrow> gostring \<Rightarrow> u32) \<Rightarrow> MphIndexMatcher \<Rightarrow> MphIndexMatcher option" where
  "MphIndexMatcher_Build mem g = MphValueMatcher_Build mem g"

definition MphIndexMatcher_Match ::
  "(u32 \<Rightarrow> gostring \<Rightarrow> u32) \<Rightarrow> MphIndexMatcher \<Rightarrow> gostring \<Rightarrow> u32 list option" where
  "MphIndexMatcher_Match mem g input = MphValueMatcher_Match mem g input"

definition MphIndexMatcher_MatchAny ::
  "(u32 \<Rightarrow> gostring \<Rightarrow> u32) \<Rightarrow> MphIndexMatcher \<Rightarrow> gostring \<Rightarrow> bool" where
  "MphIndexMatcher_MatchAny mem g input = MphValueMatcher_MatchAny mem g input"

section \<open>Adding matchers\<close>

fun value_added ::
  "(gostring \<Rightarrow> gostring) \<Rightarrow> (matcher \<times> u32) list \<Rightarrow> 'a MphValueMatcher_scheme \<Rightarrow>
   'a MphValueMatcher_scheme option" where
  "value_added uni [] g = Some g"
| "value_added uni ((m, v) # ms) g = do { g' \<leftarrow> MphValueMatcher_Add uni m v g; value_added uni ms g' }"

definition substr_ms :: "(matcher \<times> u32) list \<Rightarrow> (matcher \<times> u32) list" where
  "substr_ms ms = filter (\<lambda>(m, v). is_substr m) ms"

definition mv_rep ::
  "(gostring \<Rightarrow> gostring) \<Rightarrow> 'a MphValueMatcher_scheme \<Rightarrow> (matcher \<times> u32) list \<Rightarrow> bool" where
  "mv_rep uni g ms =
     (opt_rep mph_rep (mv_mph g) (concat (map (mph_entries uni) ms)) \<and>
      opt_rep (\<lambda>ac es. \<exists>ps. ac_rep ps ac es) (mv_ac g) (concat (map ac_entries (substr_ms ms))) \<and>
      opt_rep (\<lambda>g ms. smg_matchers g = ms) (mv_regex g) (List.map_filter regex_of ms))"

lemma opt_rep_or_new: "opt_rep R og xs \<Longrightarrow> R z [] \<Longrightarrow> R (or_new z og) xs"
  by (auto simp: opt_rep_def or_new_def split: option.splits)

lemma mv_rep_New: "mv_rep uni NewMphValueMatcher []"
  by (simp add: mv_rep_def NewMphValueMatcher_def opt_rep_def substr_ms_def List.map_filter_def)

lemma opt_rep_Some: "opt_rep R (Some g) xs = R g xs"
  by (simp add: opt_rep_def)

lemma mv_rep_Add:
  assumes "mv_rep uni g ms"
  shows "\<exists>g'. MphValueMatcher_Add uni m v g = Some g' \<and> mv_rep uni g' (ms @ [(m, v)])"
proof -
  have r: "opt_rep mph_rep (mv_mph g) (concat (map (mph_entries uni) ms))"
    "opt_rep (\<lambda>ac es. \<exists>ps. ac_rep ps ac es) (mv_ac g) (concat (map ac_entries (substr_ms ms)))"
    "opt_rep (\<lambda>g ms. smg_matchers g = ms) (mv_regex g) (List.map_filter regex_of ms)"
    using assms by (simp_all add: mv_rep_def)
  have mph: "mph_rep (or_new NewMphMatcherGroup (mv_mph g)) (concat (map (mph_entries uni) ms))"
    using opt_rep_or_new [OF r(1) mph_rep_New] .
  have ac: "\<exists>ps. ac_rep ps (or_new NewACAutomatonMatcherGroup (mv_ac g)) (concat (map ac_entries (substr_ms ms)))"
    by (rule opt_rep_or_new [OF r(2)]) (use ac_rep_New in blast)
  have sm: "smg_matchers (or_new NewSimpleMatcherGroup (mv_regex g)) = List.map_filter regex_of ms"
    by (rule opt_rep_or_new [OF r(3)]) (simp add: NewSimpleMatcherGroup_def)
  show ?thesis
  proof (cases m)
    case (FullMatcher p)
    then show ?thesis
      using Mph_Add_rep [OF mph, of uni m v] r
      by (auto simp: mv_rep_def opt_rep_Some substr_ms_def map_filter_snoc)
  next
    case (DomainMatcher p)
    then show ?thesis
      using Mph_Add_rep [OF mph, of uni m v] r
      by (auto simp: mv_rep_def opt_rep_Some substr_ms_def map_filter_snoc)
  next
    case (SubstrMatcher p)
    then show ?thesis
      using ac add_entries_rep [where m = m and v = v] r
      by (fastforce simp: mv_rep_def opt_rep_Some substr_ms_def map_filter_snoc)
  next
    case (RegexMatcher x)
    then show ?thesis
      using sm r by (simp add: mv_rep_def opt_rep_Some substr_ms_def map_filter_snoc SimpleMatcherGroup_Add_def)
  qed
qed

lemma value_added_rep:
  "mv_rep uni g ms \<Longrightarrow> \<exists>g'. value_added uni ns g = Some g' \<and> mv_rep uni g' (ms @ ns)"
proof (induction ns arbitrary: g ms)
  case (Cons n ns)
  obtain m v where n: "n = (m, v)" by force
  obtain g' where "MphValueMatcher_Add uni m v g = Some g'" "mv_rep uni g' (ms @ [(m, v)])"
    using mv_rep_Add [OF Cons.prems] by blast
  then show ?case using Cons.IH [of g' "ms @ [(m, v)]"] by (auto simp: n)
qed simp

section \<open>Matching\<close>

text \<open>The patterns the matcher is meant for.\<close>

fun value_ok :: "matcher \<Rightarrow> bool" where
  "value_ok (FullMatcher p) = mph_plain p"
| "value_ok (DomainMatcher p) = mph_plain p"
| "value_ok (SubstrMatcher p) = (ldh_lower p \<and> p \<noteq> [])"
| "value_ok (RegexMatcher r) = True"

definition mv_ready ::
  "(gostring \<Rightarrow> gostring) \<Rightarrow> (u32 \<Rightarrow> gostring \<Rightarrow> u32) \<Rightarrow> 'a MphValueMatcher_scheme \<Rightarrow>
   (matcher \<times> u32) list \<Rightarrow> bool" where
  "mv_ready uni mem g ms =
     (opt_rep (mph_ready mem) (mv_mph g) (concat (map (mph_entries uni) ms)) \<and>
      opt_rep (\<lambda>ac es. \<exists>ps. ac_ready ps ac es) (mv_ac g) (concat (map ac_entries (substr_ms ms))) \<and>
      opt_rep (\<lambda>g ms. smg_matchers g = ms) (mv_regex g) (List.map_filter regex_of ms))"

text \<open>The seed search of the hash group succeeds: exactly then \<open>Build\<close> returns.\<close>

definition mv_seeded :: "(u32 \<Rightarrow> gostring \<Rightarrow> u32) \<Rightarrow> 'a MphValueMatcher_scheme \<Rightarrow> bool" where
  "mv_seeded mem g = (case mv_mph g of None \<Rightarrow> True | Some h \<Rightarrow> mph_seeded mem h)"

lemma MphValueMatcher_Build_seeded:
  assumes rep: "mv_rep uni g ms" and "MphValueMatcher_Build mem g = Some g'"
  shows "mv_seeded mem g"
proof (cases "mv_mph g")
  case (Some h)
  then have "mph_rep h (concat (map (mph_entries uni) ms))" using rep by (simp add: mv_rep_def opt_rep_def)
  moreover have "\<exists>h'. Mph_Build mem h = Some h'"
    using assms(2) Some by (cases "Mph_Build mem h") (auto simp: MphValueMatcher_Build_def)
  ultimately show ?thesis using Mph_Build_ready(1) Some by (auto simp: mv_seeded_def)
qed (simp add: mv_seeded_def)

lemma MphValueMatcher_Build_ready:
  assumes rep: "mv_rep uni g ms" and seeds: "mv_seeded mem g"
  shows "\<exists>g'. MphValueMatcher_Build mem g = Some g' \<and> mv_ready uni mem g' ms"
proof -
  have mph: "\<exists>o1. (case mv_mph g of None \<Rightarrow> Some g | Some h \<Rightarrow> map_option (\<lambda>h. g\<lparr>mv_mph := Some h\<rparr>) (Mph_Build mem h))
      = Some (g\<lparr>mv_mph := o1\<rparr>) \<and> opt_rep (mph_ready mem) o1 (concat (map (mph_entries uni) ms))"
  proof (cases "mv_mph g")
    case None
    then show ?thesis
      using rep by (intro exI [of _ None]) (auto simp: mv_rep_def opt_rep_def)
  next
    case (Some h)
    then have "mph_rep h (concat (map (mph_entries uni) ms))" using rep by (simp add: mv_rep_def opt_rep_def)
    from Mph_Build_ready [OF this, of mem] obtain h'
      where "Mph_Build mem h = Some h'" "mph_ready mem h' (concat (map (mph_entries uni) ms))"
      using seeds Some by (auto simp: mv_seeded_def)
    then show ?thesis using Some by (intro exI [of _ "Some h'"]) (simp add: opt_rep_def)
  qed
  have ac: "\<exists>o2. (case mv_ac g of None \<Rightarrow> Some g1 | Some ac \<Rightarrow> map_option (\<lambda>ac. g1\<lparr>mv_ac := Some ac\<rparr>) (AC_Build ac))
      = Some (g1\<lparr>mv_ac := o2\<rparr>) \<and>
      opt_rep (\<lambda>ac es. \<exists>ps. ac_ready ps ac es) o2 (concat (map ac_entries (substr_ms ms)))"
    if "mv_ac g1 = mv_ac g" for g1
  proof (cases "mv_ac g")
    case None
    then show ?thesis
      using rep that by (intro exI [of _ None]) (auto simp: mv_rep_def opt_rep_def)
  next
    case (Some a)
    then obtain ps where "ac_rep ps a (concat (map ac_entries (substr_ms ms)))"
      using rep by (auto simp: mv_rep_def opt_rep_def)
    then obtain a' where "AC_Build a = Some a'" "ac_ready ps a' (concat (map ac_entries (substr_ms ms)))"
      using AC_Build_ready by blast
    then show ?thesis using Some by (intro exI [of _ "Some a'"]) (auto simp: opt_rep_def)
  qed
  obtain o1 where o1: "(case mv_mph g of None \<Rightarrow> Some g | Some h \<Rightarrow> map_option (\<lambda>h. g\<lparr>mv_mph := Some h\<rparr>) (Mph_Build mem h))
      = Some (g\<lparr>mv_mph := o1\<rparr>)" "opt_rep (mph_ready mem) o1 (concat (map (mph_entries uni) ms))"
    using mph by blast
  obtain o2 where o2: "(case mv_ac (g\<lparr>mv_mph := o1\<rparr>) of None \<Rightarrow> Some (g\<lparr>mv_mph := o1\<rparr>)
        | Some ac \<Rightarrow> map_option (\<lambda>ac. g\<lparr>mv_mph := o1\<rparr>\<lparr>mv_ac := Some ac\<rparr>) (AC_Build ac))
      = Some (g\<lparr>mv_mph := o1\<rparr>\<lparr>mv_ac := o2\<rparr>)"
      "opt_rep (\<lambda>ac es. \<exists>ps. ac_ready ps ac es) o2 (concat (map ac_entries (substr_ms ms)))"
    using ac [of "g\<lparr>mv_mph := o1\<rparr>"] by auto
  have "MphValueMatcher_Build mem g = Some (g\<lparr>mv_mph := o1\<rparr>\<lparr>mv_ac := o2\<rparr>)"
    unfolding MphValueMatcher_Build_def o1(1) Option.bind.bind_lunit by (rule o2(1))
  moreover have "mv_ready uni mem (g\<lparr>mv_mph := o1\<rparr>\<lparr>mv_ac := o2\<rparr>) ms"
    using o1(2) o2(2) rep by (simp add: mv_ready_def mv_rep_def)
  ultimately show ?thesis by blast
qed

lemma Matcher_kinds:
  "(\<exists>m. (m, v) \<in> set ms \<and> Matcher_Match m s) \<longleftrightarrow>
     (\<exists>m. mph_kind m \<and> (m, v) \<in> set ms \<and> Matcher_Match m s) \<or>
     (\<exists>m. (m, v) \<in> set (substr_ms ms) \<and> Matcher_Match m s) \<or>
     (\<exists>m. (m, v) \<in> set (List.map_filter regex_of ms) \<and> Matcher_Match m s)"
proof -
  have "mph_kind m \<or> is_substr m \<or> (\<exists>r. m = RegexMatcher r)" for m by (cases m) auto
  then show ?thesis unfolding part_iff substr_ms_def by auto blast
qed

lemma mph_part:
  assumes "opt_rep (mph_ready mem) og (concat (map (mph_entries uni) ms))"
    and ok: "\<forall>(m, v) \<in> set ms. mph_ok m"
  shows "set (opt_values (\<lambda>h. Mph_Match mem h s) og) =
      {v. \<exists>m. mph_kind m \<and> (m, v) \<in> set ms \<and> Matcher_Match m s}"
    and "(case og of None \<Rightarrow> False | Some h \<Rightarrow> Mph_MatchAny mem h s) \<longleftrightarrow>
      (\<exists>v m. mph_kind m \<and> (m, v) \<in> set ms \<and> Matcher_Match m s)"
proof -
  let ?es = "concat (map (mph_entries uni) ms)"
  note fi = mph_found_iff [OF ok refl, of s _ uni, symmetric]
  have str: "t \<in> entry_strings ?es \<longleftrightarrow> (\<exists>v. v \<in> entry_values ?es t)" for t
  proof -
    have "x = Full \<or> x = Domain" if "((t, x), v) \<in> set ?es" for x v
    proof -
      have "((t, x), v) \<in> set (mph_entries uni y) \<Longrightarrow> x = Full \<or> x = Domain" for y
        by (cases y; cases "fst y") auto
      then show ?thesis using that by auto
    qed
    then show ?thesis unfolding entry_strings_def entry_values_def by force
  qed
  show "set (opt_values (\<lambda>h. Mph_Match mem h s) og) =
      {v. \<exists>m. mph_kind m \<and> (m, v) \<in> set ms \<and> Matcher_Match m s}"
  proof (cases og)
    case None
    then have "entry_values ?es t = {}" for t using assms(1) by (simp add: opt_rep_def entry_values_def)
    then show ?thesis unfolding fi using None by (simp add: opt_values_def)
  next
    case (Some h)
    then have "mph_ready mem h ?es" using assms(1) by (simp add: opt_rep_def)
    from Mph_Match_found [OF this] show ?thesis unfolding fi using Some by (auto simp: opt_values_def)
  qed
  show "(case og of None \<Rightarrow> False | Some h \<Rightarrow> Mph_MatchAny mem h s) \<longleftrightarrow>
      (\<exists>v m. mph_kind m \<and> (m, v) \<in> set ms \<and> Matcher_Match m s)"
  proof (cases og)
    case None
    then have "entry_values ?es t = {}" for t using assms(1) by (simp add: opt_rep_def entry_values_def)
    then show ?thesis unfolding fi using None by simp
  next
    case (Some h)
    then have "mph_ready mem h ?es" using assms(1) by (simp add: opt_rep_def)
    from Mph_MatchAny_found [OF this] show ?thesis unfolding fi str using Some by auto
  qed
qed

lemma substr_ms_ok: "\<forall>(m, v) \<in> set ms. value_ok m \<Longrightarrow> \<forall>(m, v) \<in> set (substr_ms ms). ac_ok m"
proof -
  have "value_ok m \<Longrightarrow> is_substr m \<Longrightarrow> ac_ok m" for m by (cases m) auto
  then show "\<forall>(m, v) \<in> set ms. value_ok m \<Longrightarrow> \<forall>(m, v) \<in> set (substr_ms ms). ac_ok m"
    by (fastforce simp: substr_ms_def)
qed

lemma value_ok_mph: "\<forall>(m, v) \<in> set ms. value_ok m \<Longrightarrow> \<forall>(m, v) \<in> set ms. mph_ok m"
proof -
  have "value_ok m \<Longrightarrow> mph_ok m" for m by (cases m) auto
  then show "\<forall>(m, v) \<in> set ms. value_ok m \<Longrightarrow> \<forall>(m, v) \<in> set ms. mph_ok m" by fastforce
qed

lemma ac_part:
  assumes "opt_rep (\<lambda>ac es. \<exists>ps. ac_ready ps ac es) og (concat (map ac_entries ss))"
    and ok: "\<forall>(m, v) \<in> set ss. ac_ok m" and s: "ldh_lower s"
  shows "\<exists>sub. (case og of None \<Rightarrow> Some None | Some ac \<Rightarrow> map_option Some (AC_Match ac s)) = Some sub \<and>
      set (opt_values (\<lambda>vs. vs) sub) = {v. \<exists>m. (m, v) \<in> set ss \<and> Matcher_Match m s}"
    and "(case og of None \<Rightarrow> False | Some ac \<Rightarrow> AC_MatchAny ac s) \<longleftrightarrow>
      (\<exists>v m. (m, v) \<in> set ss \<and> Matcher_Match m s)"
proof -
  have none: "\<not> (\<exists>m. (m, v) \<in> set ss \<and> Matcher_Match m s)" if "concat (map ac_entries ss) = []" for v
  proof -
    have "\<not> found ss s v" unfolding found_def that by simp
    then show ?thesis unfolding found_iff [OF ok s] .
  qed
  show "\<exists>sub. (case og of None \<Rightarrow> Some None | Some ac \<Rightarrow> map_option Some (AC_Match ac s)) = Some sub \<and>
      set (opt_values (\<lambda>vs. vs) sub) = {v. \<exists>m. (m, v) \<in> set ss \<and> Matcher_Match m s}"
  proof (cases og)
    case None
    then show ?thesis using assms(1) none by (simp add: opt_rep_def opt_values_def)
  next
    case (Some ac)
    then obtain ps where "ac_ready ps ac (concat (map ac_entries ss))" using assms(1) by (auto simp: opt_rep_def)
    then obtain r where "AC_Match ac s = Some r" "set r = {v. found ss s v}"
      using AC_Match_found [OF _ ok] by blast
    then show ?thesis unfolding found_iff [OF ok s] using Some by (simp add: opt_values_def)
  qed
  show "(case og of None \<Rightarrow> False | Some ac \<Rightarrow> AC_MatchAny ac s) \<longleftrightarrow>
      (\<exists>v m. (m, v) \<in> set ss \<and> Matcher_Match m s)"
  proof (cases og)
    case None
    then show ?thesis using assms(1) none by (simp add: opt_rep_def)
  next
    case (Some ac)
    then obtain ps where "ac_ready ps ac (concat (map ac_entries ss))" using assms(1) by (auto simp: opt_rep_def)
    from AC_MatchAny_found [OF this ok] Some show ?thesis by (simp add: found_iff [OF ok s])
  qed
qed

lemma mv_ready_Match:
  assumes ready: "mv_ready uni mem g ms" and ok: "\<forall>(m, v) \<in> set ms. value_ok m" and s: "ldh_lower s"
  shows "\<exists>r. MphValueMatcher_Match mem g s = Some r \<and> set r = {v. \<exists>m. (m, v) \<in> set ms \<and> Matcher_Match m s}"
    and "MphValueMatcher_MatchAny mem g s \<longleftrightarrow> (\<exists>(m, v) \<in> set ms. Matcher_Match m s)"
proof -
  have r: "opt_rep (mph_ready mem) (mv_mph g) (concat (map (mph_entries uni) ms))"
    "opt_rep (\<lambda>ac es. \<exists>ps. ac_ready ps ac es) (mv_ac g) (concat (map ac_entries (substr_ms ms)))"
    "opt_rep (\<lambda>g ms. smg_matchers g = ms) (mv_regex g) (List.map_filter regex_of ms)"
    using ready by (simp_all add: mv_ready_def)
  note mph = mph_part [OF r(1) value_ok_mph [OF ok], of s]
  note ac = ac_part [OF r(2) substr_ms_ok [OF ok] s]
  have rx: "set (opt_values (\<lambda>g. SimpleMatcherGroup_Match g s) (mv_regex g)) =
      {v. \<exists>m. (m, v) \<in> set (List.map_filter regex_of ms) \<and> Matcher_Match m s}"
    unfolding opt_values_reps(3) [OF r(3)] set_values_of ..
  have rany: "(case mv_regex g of None \<Rightarrow> False | Some r \<Rightarrow> SimpleMatcherGroup_MatchAny r s) \<longleftrightarrow>
      (\<exists>m v. (m, v) \<in> set (List.map_filter regex_of ms) \<and> Matcher_Match m s)"
    by (rule opt_any [OF r(3)]) (rule simple_group.matchAny_rep, simp_all)
  obtain sub where sub: "(case mv_ac g of None \<Rightarrow> Some None | Some ac \<Rightarrow> map_option Some (AC_Match ac s)) = Some sub"
      "set (opt_values (\<lambda>vs. vs) sub) = {v. \<exists>m. (m, v) \<in> set (substr_ms ms) \<and> Matcher_Match m s}"
    using ac(1) by blast
  have cs: "concat (append_matches sub result) = concat result @ opt_values (\<lambda>vs. vs) sub" for result
    using concat_append_matches(1) [of "\<lambda>vs. vs" sub result] by (simp add: option.map_id0 option.map_ident)
  have "MphValueMatcher_Match mem g s = Some (opt_values (\<lambda>h. Mph_Match mem h s) (mv_mph g) @
      opt_values (\<lambda>vs. vs) sub @ opt_values (\<lambda>g. SimpleMatcherGroup_Match g s) (mv_regex g))"
    unfolding MphValueMatcher_Match_def Let_def sub(1) Option.bind.bind_lunit
      CompositeMatches_concat concat_append_matches(1) cs by simp
  then show "\<exists>r. MphValueMatcher_Match mem g s = Some r \<and> set r = {v. \<exists>m. (m, v) \<in> set ms \<and> Matcher_Match m s}"
    unfolding Matcher_kinds [of _ ms s] Collect_disj_eq by (simp add: mph(1) sub(2) rx)
  have "(\<exists>(m, v) \<in> set ms. Matcher_Match m s) \<longleftrightarrow> (\<exists>v m. (m, v) \<in> set ms \<and> Matcher_Match m s)" by blast
  then show "MphValueMatcher_MatchAny mem g s \<longleftrightarrow> (\<exists>(m, v) \<in> set ms. Matcher_Match m s)"
    unfolding MphValueMatcher_MatchAny_def if_True_False_simps mph(2) ac(2) rany Matcher_kinds [of _ ms s] by blast
qed


text \<open>A group with one pattern has one bucket; the first seed is taken if any slot is hit.\<close>

lemma seeded_one:
  assumes "mph_rules h = [[], p]" "mph_ruleInfos h = Some [(p, info)]"
  shows "mph_seeded mem h"
proof -
  have n: "nextPow2 (Suc 0) = 1" "nextPow2 0 = 1" by (simp_all add: nextPow2_def)
  have b: "group_buckets h = [[1]]" by (simp add: group_buckets_def assms n Let_def)
  have "fits (seed_hash mem 0 (mph_rules h) 0) [False] [1]"
    by (simp add: fits_def seed_hash_def masked_hash_def)
  then show ?thesis
    unfolding mph_seeded_def b by (simp add: assms bucket_order_def n Let_def) (rule exI [of _ 0], simp)
qed

text \<open>A list with one full and one domain pattern under a hash by length: three rules in one bucket.\<close>

definition ex_mem :: "u32 \<Rightarrow> gostring \<Rightarrow> u32" where
  "ex_mem seed s = seed + of_nat (length s)"

definition ex_ms :: "(matcher \<times> u32) list" where
  "ex_ms = [(FullMatcher (str ''ab''), 7), (DomainMatcher (str ''xyz''), 8), (SubstrMatcher (str ''b''), 9)]"

lemmas ex_chars = str_def ascii_def is_upper_def is_lower_def HasPrefix_def dot_def ldh_byte_def

lemma ex_ms_seeded:
  assumes "value_added (\<lambda>s. s) ex_ms NewMphValueMatcher = Some g"
  shows "mv_seeded ex_mem g"
proof -
  have low: "ToLower (\<lambda>s. s) (str ''ab'') = str ''ab''" "ToLower (\<lambda>s. s) (str ''xyz'') = str ''xyz''"
    by (rule ToLower_plain, simp add: mph_plain_def ex_chars)+
  have ne: "str ''ab'' \<noteq> str ''xyz''" "str ''ab'' \<noteq> dot # str ''xyz''" "str ''xyz'' \<noteq> dot # str ''xyz''"
      "dot # str ''xyz'' \<noteq> str ''ab''" "dot # str ''xyz'' \<noteq> str ''xyz''" "str ''xyz'' \<noteq> str ''ab''"
    by (simp_all add: ex_chars)
  obtain h i1 i2 i3 where h: "mv_mph g = Some h" "mph_rules h = [[], str ''ab'', str ''xyz'', dot # str ''xyz'']"
      "mph_ruleInfos h = Some [(str ''ab'', i1), (str ''xyz'', i2), (dot # str ''xyz'', i3)]"
    using assms by (simp add: ex_ms_def Mph_AddFullMatcher_def Mph_AddDomainMatcher_def mph_addPattern_def low ne
        or_new_def NewMphMatcherGroup_def NewMphValueMatcher_def Let_def) auto
  have n: "nextPow2 3 = 4" "nextPow2 0 = 1" by (simp_all add: nextPow2_def bits_Len.simps)
  have b: "group_buckets h = [[1, 2, 3]]"
    by (simp add: group_buckets_def h n Let_def upt_rec)
  have slot: "masked_hash ex_mem 3 0 (str ''ab'') = 2" "masked_hash ex_mem 3 0 (str ''xyz'') = 3"
      "masked_hash ex_mem 3 0 (dot # str ''xyz'') = 0"
    by (simp_all add: masked_hash_def ex_mem_def str_def)
  have "fits (seed_hash ex_mem 3 (mph_rules h) 0) (replicate 4 False) [1, 2, 3]"
    by (simp add: fits_def seed_hash_def h slot)
  moreover have "length (mph_rules h) - 1 = 3" by (simp add: h)
  ultimately have "mph_seeded ex_mem h"
    unfolding mph_seeded_def b by (simp add: bucket_order_def n Let_def) (rule exI [of _ 0], simp)
  then show ?thesis by (simp add: mv_seeded_def h)
qed


end
