(* ===== verification/Ip_Matcher.thy ===== *)
theory Ip_Matcher
  imports Prelude Net_Addr "HOL-Library.Multiset" "HOL-Library.AList"
begin

text \<open>
  The IP matchers of \<^verbatim>\<open>common/geodata/ip_matcher.go\<close>: a matcher over one set of prefixes, and the two
  combinations of several. For lists of addresses they use a heuristic: when every IPv4 prefix of
  a set has at most 24 bits (every IPv6 prefix at most 64), addresses that agree in these bits are
  tested once. The lemmas show that the heuristic does not change an answer.

  The sets of prefixes and the conversion of addresses are those of the package \<^verbatim>\<open>go4.org/netipx\<close>, a
  parameter \<open>lib\<close> of the definitions; \<open>netipx_ok\<close> states what its documentation promises. The types
  \<^verbatim>\<open>netip.Addr\<close>, \<^verbatim>\<open>netip.Prefix\<close> and \<^verbatim>\<open>net.IP\<close> of the standard library are modelled. A Go map that
  is iterated over is an association list in the order of the insertions, and the order of each
  iteration is a parameter: a permutation of the positions.
\<close>

section \<open>Addresses and prefixes\<close>

type_synonym netIP = "byte list"

definition IP_To4 :: "netIP \<Rightarrow> netIP option" where
  "IP_To4 ip =
     (if length ip = 4 then Some ip
      else if length ip = 16 \<and> v4_in_v6 ip then Some (drop 12 ip)
      else None)"

definition IP_To16 :: "netIP \<Rightarrow> netIP option" where
  "IP_To16 ip =
     (if length ip = 4 then Some (replicate 10 0 @ [255, 255] @ ip)
      else if length ip = 16 then Some ip
      else None)"

datatype netip_Addr = ZeroAddr | Addr4 "byte list" | Addr6 "byte list"

fun Is4 :: "netip_Addr \<Rightarrow> bool" where
  "Is4 (Addr4 _) = True"
| "Is4 _ = False"

fun Is6 :: "netip_Addr \<Rightarrow> bool" where
  "Is6 (Addr6 _) = True"
| "Is6 _ = False"

definition IsValid :: "netip_Addr \<Rightarrow> bool" where
  "IsValid a = (a \<noteq> ZeroAddr)"

definition AddrFromSlice :: "byte list \<Rightarrow> netip_Addr option" where
  "AddrFromSlice bs =
     (if length bs = 4 then Some (Addr4 bs)
      else if length bs = 16 then Some (Addr6 bs)
      else None)"

fun addr_bytes :: "netip_Addr \<Rightarrow> byte list" where
  "addr_bytes ZeroAddr = []"
| "addr_bytes (Addr4 bs) = bs"
| "addr_bytes (Addr6 bs) = bs"

definition BitLen :: "netip_Addr \<Rightarrow> nat" where
  "BitLen a = 8 * length (addr_bytes a)"

text \<open>A prefix with an invalid length has the length \<open>None\<close>, which \<^verbatim>\<open>Bits\<close> reports as \<open>-1\<close>.\<close>

record netip_Prefix =
  pfx_addr :: netip_Addr
  pfx_bits :: "nat option"

definition PrefixFrom :: "netip_Addr \<Rightarrow> int \<Rightarrow> netip_Prefix" where
  "PrefixFrom a bits =
     \<lparr>pfx_addr = a, pfx_bits = (if a \<noteq> ZeroAddr \<and> 0 \<le> bits \<and> bits \<le> int (BitLen a) then Some (nat bits) else None)\<rparr>"

definition Prefix_IsValid :: "netip_Prefix \<Rightarrow> bool" where
  "Prefix_IsValid p = (pfx_bits p \<noteq> None)"

definition Prefix_Bits :: "netip_Prefix \<Rightarrow> int" where
  "Prefix_Bits p = (case pfx_bits p of None \<Rightarrow> -1 | Some n \<Rightarrow> int n)"

definition byte_bits :: "byte \<Rightarrow> bool list" where
  "byte_bits b = map (bit b) [7, 6, 5, 4, 3, 2, 1, 0]"

definition bits_of :: "byte list \<Rightarrow> bool list" where
  "bits_of bs = concat (map byte_bits bs)"

definition same_family :: "netip_Addr \<Rightarrow> netip_Addr \<Rightarrow> bool" where
  "same_family a b = (Is4 a \<and> Is4 b \<or> Is6 a \<and> Is6 b)"

text \<open>The addresses of a prefix: those of its family that agree with it in the first bits.\<close>

definition Prefix_Contains :: "netip_Prefix \<Rightarrow> netip_Addr \<Rightarrow> bool" where
  "Prefix_Contains p a =
     (case pfx_bits p of
        None \<Rightarrow> False
      | Some n \<Rightarrow> same_family (pfx_addr p) a \<and>
          take n (bits_of (addr_bytes a)) = take n (bits_of (addr_bytes (pfx_addr p))))"

section \<open>The library\<close>

record 's netipx =
  FromStdIP :: "netIP \<Rightarrow> netip_Addr option"
  IPSet_Contains :: "'s \<Rightarrow> netip_Addr \<Rightarrow> bool"
  IPSet_Prefixes :: "'s \<Rightarrow> netip_Prefix list"
  IPSet_build :: "netip_Prefix list \<Rightarrow> go_error + 's"

text \<open>
  What the documentation of the package states: \<^verbatim>\<open>FromStdIP\<close> accepts slices of 4 and of 16 bytes and
  turns IPv4-mapped addresses into IPv4 addresses; a builder to which valid prefixes were added gives
  the set of their addresses; the prefixes of a set cover exactly the set.
\<close>

definition std_addr :: "netIP \<Rightarrow> netip_Addr option" where
  "std_addr ip =
     (if length ip = 4 then Some (Addr4 ip)
      else if length ip = 16 then
        (if v4_in_v6 ip then Some (Addr4 (drop 12 ip)) else Some (Addr6 ip))
      else None)"

fun addr_len_ok :: "netip_Addr \<Rightarrow> bool" where
  "addr_len_ok ZeroAddr = False"
| "addr_len_ok (Addr4 bs) = (length bs = 4)"
| "addr_len_ok (Addr6 bs) = (length bs = 16)"

definition prefix_wf :: "netip_Prefix \<Rightarrow> bool" where
  "prefix_wf p \<longleftrightarrow> addr_len_ok (pfx_addr p) \<and> (\<exists>n. pfx_bits p = Some n \<and> n \<le> BitLen (pfx_addr p))"

definition netipx_ok :: "'s netipx \<Rightarrow> bool" where
  "netipx_ok lib \<longleftrightarrow>
     (\<forall>ip. FromStdIP lib ip = std_addr ip) \<and>
     (\<forall>ps. list_all prefix_wf ps \<longrightarrow> (\<exists>s. IPSet_build lib ps = Inr s)) \<and>
     (\<forall>ps s. list_all prefix_wf ps \<longrightarrow> IPSet_build lib ps = Inr s \<longrightarrow>
        list_all prefix_wf (IPSet_Prefixes lib s) \<and>
        (\<forall>a. IPSet_Contains lib s a \<longleftrightarrow> (\<exists>p \<in> set ps. Prefix_Contains p a)) \<and>
        (\<forall>a. IPSet_Contains lib s a \<longleftrightarrow> (\<exists>p \<in> set (IPSet_Prefixes lib s). Prefix_Contains p a)))"

section \<open>One set\<close>

record 's IPSet =
  ipset_ipv4 :: 's
  ipset_ipv6 :: 's
  ipset_max4 :: byte
  ipset_max6 :: byte

record 's HeuristicIPMatcher =
  hm_ipset :: "'s IPSet"
  hm_reverse :: bool

definition matchAddr :: "'s netipx \<Rightarrow> 's HeuristicIPMatcher \<Rightarrow> netip_Addr \<Rightarrow> bool" where
  "matchAddr lib m ipx =
     (if Is4 ipx then
        (if ipset_max4 (hm_ipset m) = 0xff then False
         else IPSet_Contains lib (ipset_ipv4 (hm_ipset m)) ipx \<noteq> hm_reverse m)
      else if Is6 ipx then
        (if ipset_max6 (hm_ipset m) = 0xff then False
         else IPSet_Contains lib (ipset_ipv6 (hm_ipset m)) ipx \<noteq> hm_reverse m)
      else False)"

definition Heuristic_Match :: "'s netipx \<Rightarrow> 's HeuristicIPMatcher \<Rightarrow> netIP \<Rightarrow> bool" where
  "Heuristic_Match lib m ip =
     (case FromStdIP lib ip of
        None \<Rightarrow> False
      | Some ipx \<Rightarrow> matchAddr lib m ipx)"

text \<open>The key of an address: a family byte and the first three (eight) bytes, padded to nine bytes.\<close>

definition prefixKeyFromIP :: "netIP \<Rightarrow> byte list option" where
  "prefixKeyFromIP ip =
     (case IP_To4 ip of
        Some ip4 \<Rightarrow> Some ([4] @ take 3 ip4 @ replicate 5 0)
      | None \<Rightarrow>
          (case IP_To16 ip of
             Some ip16 \<Rightarrow> Some ([6] @ take 8 ip16)
           | None \<Rightarrow> None))"

definition heur4 :: "'s HeuristicIPMatcher \<Rightarrow> bool" where
  "heur4 m = (ipset_max4 (hm_ipset m) \<le> 24)"

definition heur6 :: "'s HeuristicIPMatcher \<Rightarrow> bool" where
  "heur6 m = (ipset_max6 (hm_ipset m) \<le> 64)"

definition heur :: "'s HeuristicIPMatcher \<Rightarrow> byte list \<Rightarrow> bool" where
  "heur m key = (key ! 0 = 4 \<and> heur4 m \<or> key ! 0 = 6 \<and> heur6 m)"

fun any_precise_loop :: "'s netipx \<Rightarrow> 's HeuristicIPMatcher \<Rightarrow> netIP list \<Rightarrow> bool" where
  "any_precise_loop lib m [] = False"
| "any_precise_loop lib m (ip # ips) =
     (case FromStdIP lib ip of
        Some ipx \<Rightarrow> if matchAddr lib m ipx then True else any_precise_loop lib m ips
      | None \<Rightarrow> any_precise_loop lib m ips)"

fun any_bucket_loop :: "'s netipx \<Rightarrow> 's HeuristicIPMatcher \<Rightarrow> netIP list \<Rightarrow> byte list set \<Rightarrow> bool" where
  "any_bucket_loop lib m [] buckets = False"
| "any_bucket_loop lib m (ip # ips) buckets =
     (case prefixKeyFromIP ip of
        None \<Rightarrow> any_bucket_loop lib m ips buckets
      | Some key \<Rightarrow>
          if heur m key \<and> key \<in> buckets then any_bucket_loop lib m ips buckets
          else
            (case FromStdIP lib ip of
               None \<Rightarrow> any_bucket_loop lib m ips buckets
             | Some ipx \<Rightarrow>
                 if matchAddr lib m ipx then True
                 else any_bucket_loop lib m ips (if heur m key then insert key buckets else buckets)))"

definition Heuristic_AnyMatch :: "'s netipx \<Rightarrow> 's HeuristicIPMatcher \<Rightarrow> netIP list \<Rightarrow> bool" where
  "Heuristic_AnyMatch lib m ips =
     (if length ips = 0 then False
      else if length ips = 1 then Heuristic_Match lib m (ips ! 0)
      else if \<not> heur4 m \<and> \<not> heur6 m then any_precise_loop lib m ips
      else any_bucket_loop lib m ips {})"

fun all_precise_loop :: "'s netipx \<Rightarrow> 's HeuristicIPMatcher \<Rightarrow> netIP list \<Rightarrow> bool" where
  "all_precise_loop lib m [] = True"
| "all_precise_loop lib m (ip # ips) =
     (case FromStdIP lib ip of
        None \<Rightarrow> False
      | Some ipx \<Rightarrow> if \<not> matchAddr lib m ipx then False else all_precise_loop lib m ips)"

text \<open>The first loop of \<open>Matches\<close>; \<open>None\<close> is the early return for an invalid address.\<close>

fun all_split_loop ::
  "'s netipx \<Rightarrow> 's HeuristicIPMatcher \<Rightarrow> netIP list \<Rightarrow> (byte list \<times> netip_Addr) list \<Rightarrow> netip_Addr list \<Rightarrow>
   ((byte list \<times> netip_Addr) list \<times> netip_Addr list) option" where
  "all_split_loop lib m [] buckets precise = Some (buckets, precise)"
| "all_split_loop lib m (ip # ips) buckets precise =
     (case prefixKeyFromIP ip of
        None \<Rightarrow> None
      | Some key \<Rightarrow>
          if heur m key then
            (if map_of buckets key = None then
               (case FromStdIP lib ip of
                  None \<Rightarrow> None
                | Some ipx \<Rightarrow> all_split_loop lib m ips (buckets @ [(key, ipx)]) precise)
             else all_split_loop lib m ips buckets precise)
          else
            (case FromStdIP lib ip of
               None \<Rightarrow> None
             | Some ipx \<Rightarrow> all_split_loop lib m ips buckets (precise @ [ipx])))"

definition Heuristic_Matches :: "'s netipx \<Rightarrow> 's HeuristicIPMatcher \<Rightarrow> netIP list \<Rightarrow> bool" where
  "Heuristic_Matches lib m ips =
     (if length ips = 0 then False
      else if length ips = 1 then Heuristic_Match lib m (ips ! 0)
      else if \<not> heur4 m \<and> \<not> heur6 m then all_precise_loop lib m ips
      else
        (case all_split_loop lib m ips [] [] of
           None \<Rightarrow> False
         | Some (buckets, precise) \<Rightarrow>
             list_all (\<lambda>(key, ipx). matchAddr lib m ipx) buckets \<and>
             list_all (matchAddr lib m) precise))"

text \<open>
  An iteration over a map: the positions are visited in the order \<open>idxs\<close>. The order may differ from
  loop to loop; a loop is named by the path of the numbers that lead to it.
\<close>

definition map_range :: "nat list \<Rightarrow> 'a list \<Rightarrow> 'a list" where
  "map_range idxs m = map (\<lambda>i. m ! i) idxs"

type_synonym iter_order = "nat list \<Rightarrow> nat \<Rightarrow> nat list"

definition order_ok :: "iter_order \<Rightarrow> bool" where
  "order_ok ord \<longleftrightarrow> (\<forall>path n. mset (ord path n) = mset [0 ..< n])"

record ipBucket =
  bk_rep :: netip_Addr
  bk_ips :: "netIP list"

fun filter_precise_loop ::
  "'s netipx \<Rightarrow> 's HeuristicIPMatcher \<Rightarrow> netIP list \<Rightarrow> netIP list \<Rightarrow> netIP list \<Rightarrow> netIP list \<times> netIP list" where
  "filter_precise_loop lib m [] matched unmatched = (matched, unmatched)"
| "filter_precise_loop lib m (ip # ips) matched unmatched =
     (case FromStdIP lib ip of
        None \<Rightarrow> filter_precise_loop lib m ips matched unmatched
      | Some ipx \<Rightarrow>
          if matchAddr lib m ipx then filter_precise_loop lib m ips (matched @ [ip]) unmatched
          else filter_precise_loop lib m ips matched (unmatched @ [ip]))"

definition bucket_add :: "byte list \<Rightarrow> netIP \<Rightarrow> (byte list \<times> ipBucket) list \<Rightarrow> (byte list \<times> ipBucket) list" where
  "bucket_add key ip buckets =
     map (\<lambda>(k, b). if k = key then (k, b\<lparr>bk_ips := bk_ips b @ [ip]\<rparr>) else (k, b)) buckets"

fun filter_split_loop ::
  "'s netipx \<Rightarrow> 's HeuristicIPMatcher \<Rightarrow> netIP list \<Rightarrow> (byte list \<times> ipBucket) list \<Rightarrow> netIP list \<Rightarrow>
   (byte list \<times> ipBucket) list \<times> netIP list" where
  "filter_split_loop lib m [] buckets precise = (buckets, precise)"
| "filter_split_loop lib m (ip # ips) buckets precise =
     (case prefixKeyFromIP ip of
        None \<Rightarrow> filter_split_loop lib m ips buckets precise
      | Some key \<Rightarrow>
          if key ! 0 = 4 \<and> \<not> heur4 m \<or> key ! 0 = 6 \<and> \<not> heur6 m then
            filter_split_loop lib m ips buckets (precise @ [ip])
          else if map_of buckets key = None then
            (case FromStdIP lib ip of
               None \<Rightarrow> filter_split_loop lib m ips buckets precise
             | Some ipx \<Rightarrow>
                 filter_split_loop lib m ips
                   (bucket_add key ip (buckets @ [(key, \<lparr>bk_rep = ipx, bk_ips = []\<rparr>)])) precise)
          else filter_split_loop lib m ips (bucket_add key ip buckets) precise)"

fun filter_bucket_loop ::
  "'s netipx \<Rightarrow> 's HeuristicIPMatcher \<Rightarrow> (byte list \<times> ipBucket) list \<Rightarrow> netIP list \<Rightarrow> netIP list \<Rightarrow>
   netIP list \<times> netIP list" where
  "filter_bucket_loop lib m [] matched unmatched = (matched, unmatched)"
| "filter_bucket_loop lib m ((key, b) # bs) matched unmatched =
     (if matchAddr lib m (bk_rep b) then filter_bucket_loop lib m bs (matched @ bk_ips b) unmatched
      else filter_bucket_loop lib m bs matched (unmatched @ bk_ips b))"

definition Heuristic_FilterIPs ::
  "'s netipx \<Rightarrow> iter_order \<Rightarrow> 's HeuristicIPMatcher \<Rightarrow> netIP list \<Rightarrow> netIP list \<times> netIP list" where
  "Heuristic_FilterIPs lib ord m ips =
     (if length ips = 0 then ([], [])
      else if length ips = 1 then
        (case FromStdIP lib (ips ! 0) of
           None \<Rightarrow> ([], [])
         | Some ipx \<Rightarrow> if matchAddr lib m ipx then (ips, []) else ([], ips))
      else if \<not> heur4 m \<and> \<not> heur6 m then filter_precise_loop lib m ips [] []
      else
        (let (buckets, precise) = filter_split_loop lib m ips [] [];
             (matched, unmatched) = filter_bucket_loop lib m (map_range (ord [] (length buckets)) buckets) [] []
         in filter_precise_loop lib m precise matched unmatched))"

definition Heuristic_ToggleReverse :: "'s HeuristicIPMatcher \<Rightarrow> 's HeuristicIPMatcher" where
  "Heuristic_ToggleReverse m = m\<lparr>hm_reverse := \<not> hm_reverse m\<rparr>"

definition Heuristic_SetReverse :: "bool \<Rightarrow> 's HeuristicIPMatcher \<Rightarrow> 's HeuristicIPMatcher" where
  "Heuristic_SetReverse reverse m = m\<lparr>hm_reverse := reverse\<rparr>"

section \<open>Several sets with shared buckets\<close>

record 's HeuristicMultiIPMatcher =
  mm_matchers :: "'s HeuristicIPMatcher list"

definition HeuristicMulti_Match :: "'s netipx \<Rightarrow> 's HeuristicMultiIPMatcher \<Rightarrow> netIP \<Rightarrow> bool" where
  "HeuristicMulti_Match lib mm ip =
     (case FromStdIP lib ip of
        None \<Rightarrow> False
      | Some ipx \<Rightarrow> list_ex (\<lambda>m. matchAddr lib m ipx) (mm_matchers mm))"

text \<open>
  The loop over the matchers for one address. The state is 0 before the key was looked up, 1 when
  it was new, and the family when the address can be skipped. The result says whether a matcher
  matched, and gives the buckets.
\<close>

fun multi_any_inner ::
  "'s netipx \<Rightarrow> netIP \<Rightarrow> 's HeuristicIPMatcher list \<Rightarrow> byte \<Rightarrow> netip_Addr \<Rightarrow> byte list set \<Rightarrow> bool \<times> byte list set" where
  "multi_any_inner lib ip [] state ipx buckets = (False, buckets)"
| "multi_any_inner lib ip (m # ms) state ipx buckets =
     (case (if state = 0 \<and> (heur4 m \<or> heur6 m) then
              (case prefixKeyFromIP ip of
                 None \<Rightarrow> None
               | Some key \<Rightarrow>
                   if key \<in> buckets then Some (key ! 0, buckets) else Some (1, insert key buckets))
            else Some (state, buckets)) of
        None \<Rightarrow> (False, buckets)
      | Some (state, buckets) \<Rightarrow>
          if heur4 m \<and> state = 4 \<or> heur6 m \<and> state = 6 then multi_any_inner lib ip ms state ipx buckets
          else
            (case (if IsValid ipx then Some ipx else FromStdIP lib ip) of
               None \<Rightarrow> (False, buckets)
             | Some ipx \<Rightarrow>
                 if matchAddr lib m ipx then (True, buckets)
                 else multi_any_inner lib ip ms state ipx buckets))"

fun multi_any_loop :: "'s netipx \<Rightarrow> 's HeuristicIPMatcher list \<Rightarrow> netIP list \<Rightarrow> byte list set \<Rightarrow> bool" where
  "multi_any_loop lib ms [] buckets = False"
| "multi_any_loop lib ms (ip # ips) buckets =
     (let (found, buckets) = multi_any_inner lib ip ms 0 ZeroAddr buckets
      in if found then True else multi_any_loop lib ms ips buckets)"

definition HeuristicMulti_AnyMatch :: "'s netipx \<Rightarrow> 's HeuristicMultiIPMatcher \<Rightarrow> netIP list \<Rightarrow> bool" where
  "HeuristicMulti_AnyMatch lib mm ips =
     (if length ips = 0 then False
      else if length ips = 1 then HeuristicMulti_Match lib mm (ips ! 0)
      else multi_any_loop lib (mm_matchers mm) ips {})"

text \<open>The views of the addresses; \<open>None\<close> is the nil map or slice.\<close>

record ipViews =
  vw_buckets4 :: "(byte list \<times> netip_Addr) list option"
  vw_buckets6 :: "(byte list \<times> netip_Addr) list option"
  vw_precise4 :: "netip_Addr list option"
  vw_precise6 :: "netip_Addr list option"

definition no_views :: ipViews where
  "no_views = \<lparr>vw_buckets4 = None, vw_buckets6 = None, vw_precise4 = None, vw_precise6 = None\<rparr>"

text \<open>
  What an address adds to the bucket view and to the precise view of its family; \<open>None\<close> is the
  early return.
\<close>

definition view_add ::
  "'s netipx \<Rightarrow> bool \<Rightarrow> bool \<Rightarrow> byte list \<Rightarrow> netIP \<Rightarrow>
   (byte list \<times> netip_Addr) list option \<Rightarrow> netip_Addr list option \<Rightarrow>
   ((byte list \<times> netip_Addr) list option \<times> netip_Addr list option) option" where
  "view_add lib needHeur needPrec key ip buckets precise =
     do { (ipx, buckets) \<leftarrow>
            (if needHeur \<and> map_of (the buckets) key = None then
               do { ipx \<leftarrow> FromStdIP lib ip; Some (ipx, Some (the buckets @ [(key, ipx)])) }
             else Some (ZeroAddr, buckets));
          (if needPrec then
             do { ipx \<leftarrow> (if \<not> IsValid ipx then FromStdIP lib ip else Some ipx);
                  Some (buckets, Some (the precise @ [ipx])) }
           else Some (buckets, precise)) }"

fun ensure_loop ::
  "'s netipx \<Rightarrow> bool \<Rightarrow> bool \<Rightarrow> bool \<Rightarrow> bool \<Rightarrow> netIP list \<Rightarrow> ipViews \<Rightarrow> bool \<times> ipViews" where
  "ensure_loop lib needHeur4 needHeur6 needPrec4 needPrec6 [] v = (True, v)"
| "ensure_loop lib needHeur4 needHeur6 needPrec4 needPrec6 (ip # ips) v =
     (case prefixKeyFromIP ip of
        None \<Rightarrow> (False, v)
      | Some key \<Rightarrow>
          if key ! 0 = 4 then
            (case view_add lib needHeur4 needPrec4 key ip (vw_buckets4 v) (vw_precise4 v) of
               None \<Rightarrow> (False, v)
             | Some (b, p) \<Rightarrow>
                 ensure_loop lib needHeur4 needHeur6 needPrec4 needPrec6 ips (v\<lparr>vw_buckets4 := b, vw_precise4 := p\<rparr>))
          else if key ! 0 = 6 then
            (case view_add lib needHeur6 needPrec6 key ip (vw_buckets6 v) (vw_precise6 v) of
               None \<Rightarrow> (False, v)
             | Some (b, p) \<Rightarrow>
                 ensure_loop lib needHeur4 needHeur6 needPrec4 needPrec6 ips (v\<lparr>vw_buckets6 := b, vw_precise6 := p\<rparr>))
          else (False, v))"

definition or_make :: "bool \<Rightarrow> 'a list option \<Rightarrow> 'a list option" where
  "or_make need x = (if need then Some [] else x)"

definition ipViews_ensureForMatcher ::
  "'s netipx \<Rightarrow> 's HeuristicIPMatcher \<Rightarrow> netIP list \<Rightarrow> ipViews \<Rightarrow> bool \<times> ipViews" where
  "ipViews_ensureForMatcher lib m ips v =
     (let needHeur4 = (heur4 m \<and> vw_buckets4 v = None);
          needHeur6 = (heur6 m \<and> vw_buckets6 v = None);
          needPrec4 = (\<not> heur4 m \<and> vw_precise4 v = None);
          needPrec6 = (\<not> heur6 m \<and> vw_precise6 v = None)
      in if \<not> needHeur4 \<and> \<not> needHeur6 \<and> \<not> needPrec4 \<and> \<not> needPrec6 then (True, v)
         else ensure_loop lib needHeur4 needHeur6 needPrec4 needPrec6 ips
           \<lparr>vw_buckets4 = or_make needHeur4 (vw_buckets4 v), vw_buckets6 = or_make needHeur6 (vw_buckets6 v),
            vw_precise4 = or_make needPrec4 (vw_precise4 v), vw_precise6 = or_make needPrec6 (vw_precise6 v)\<rparr>)"

text \<open>The view of one family that a matcher reads: the representatives of the buckets or all addresses.\<close>

definition view_addrs :: "bool \<Rightarrow> (byte list \<times> netip_Addr) list option \<Rightarrow> netip_Addr list option \<Rightarrow> netip_Addr list" where
  "view_addrs heuristic buckets precise =
     (if heuristic then (case buckets of None \<Rightarrow> [] | Some b \<Rightarrow> map snd b)
      else (case precise of None \<Rightarrow> [] | Some p \<Rightarrow> p))"

fun multi_matches_loop :: "'s netipx \<Rightarrow> netIP list \<Rightarrow> 's HeuristicIPMatcher list \<Rightarrow> ipViews \<Rightarrow> bool" where
  "multi_matches_loop lib ips [] v = False"
| "multi_matches_loop lib ips (m # ms) v =
     (let (ok, v) = ipViews_ensureForMatcher lib m ips v
      in if \<not> ok then False
         else if \<not> list_all (matchAddr lib m) (view_addrs (heur4 m) (vw_buckets4 v) (vw_precise4 v))
           then multi_matches_loop lib ips ms v
         else if list_all (matchAddr lib m) (view_addrs (heur6 m) (vw_buckets6 v) (vw_precise6 v)) then True
         else multi_matches_loop lib ips ms v)"

definition HeuristicMulti_Matches :: "'s netipx \<Rightarrow> 's HeuristicMultiIPMatcher \<Rightarrow> netIP list \<Rightarrow> bool" where
  "HeuristicMulti_Matches lib mm ips =
     (if length ips = 0 then False
      else if length ips = 1 then HeuristicMulti_Match lib mm (ips ! 0)
      else multi_matches_loop lib ips (mm_matchers mm) no_views)"

text \<open>
  The views of \<open>FilterIPs\<close>. A bucket that has matched is replaced by the nil pointer (\<open>None\<close>), an
  address that has matched by the nil slice.
\<close>

record ipBucketViews =
  bv_buckets4 :: "(byte list \<times> ipBucket option) list option"
  bv_buckets6 :: "(byte list \<times> ipBucket option) list option"
  bv_precise4 :: "(netip_Addr \<times> netIP) list option"
  bv_precise6 :: "(netip_Addr \<times> netIP) list option"

definition no_bucket_views :: ipBucketViews where
  "no_bucket_views = \<lparr>bv_buckets4 = None, bv_buckets6 = None, bv_precise4 = None, bv_precise6 = None\<rparr>"

definition bucket_append ::
  "byte list \<Rightarrow> netIP \<Rightarrow> (byte list \<times> ipBucket option) list \<Rightarrow> (byte list \<times> ipBucket option) list" where
  "bucket_append key ip buckets =
     map (\<lambda>(k, b). if k = key then (k, map_option (\<lambda>b. b\<lparr>bk_ips := bk_ips b @ [ip]\<rparr>) b) else (k, b)) buckets"

text \<open>
  What an address adds to the views of its family; an address that cannot be converted leaves the
  loop body early. The buckets are fresh when they are filled, so none of them is nil.
\<close>

definition bucket_view_add ::
  "'s netipx \<Rightarrow> bool \<Rightarrow> bool \<Rightarrow> byte list \<Rightarrow> netIP \<Rightarrow>
   (byte list \<times> ipBucket option) list option \<Rightarrow> (netip_Addr \<times> netIP) list option \<Rightarrow>
   (byte list \<times> ipBucket option) list option \<times> (netip_Addr \<times> netIP) list option" where
  "bucket_view_add lib needHeur needPrec key ip buckets precise =
     (case (if needHeur then
              (if map_of (the buckets) key = None then
                 (case FromStdIP lib ip of
                    None \<Rightarrow> None
                  | Some ipx \<Rightarrow>
                      Some (ipx, Some (bucket_append key ip (the buckets @ [(key, Some \<lparr>bk_rep = ipx, bk_ips = []\<rparr>)]))))
               else Some (ZeroAddr, Some (bucket_append key ip (the buckets))))
            else Some (ZeroAddr, buckets)) of
        None \<Rightarrow> (buckets, precise)
      | Some (ipx, buckets) \<Rightarrow>
          if needPrec then
            (case (if \<not> IsValid ipx then FromStdIP lib ip else Some ipx) of
               None \<Rightarrow> (buckets, precise)
             | Some ipx \<Rightarrow> (buckets, Some (AList.update ipx ip (the precise))))
          else (buckets, precise))"

fun bucket_ensure_loop ::
  "'s netipx \<Rightarrow> bool \<Rightarrow> bool \<Rightarrow> bool \<Rightarrow> bool \<Rightarrow> netIP list \<Rightarrow> ipBucketViews \<Rightarrow> ipBucketViews" where
  "bucket_ensure_loop lib needHeur4 needHeur6 needPrec4 needPrec6 [] v = v"
| "bucket_ensure_loop lib needHeur4 needHeur6 needPrec4 needPrec6 (ip # ips) v =
     bucket_ensure_loop lib needHeur4 needHeur6 needPrec4 needPrec6 ips
       (case prefixKeyFromIP ip of
          None \<Rightarrow> v
        | Some key \<Rightarrow>
            if key ! 0 = 4 then
              (let (b, p) = bucket_view_add lib needHeur4 needPrec4 key ip (bv_buckets4 v) (bv_precise4 v)
               in v\<lparr>bv_buckets4 := b, bv_precise4 := p\<rparr>)
            else if key ! 0 = 6 then
              (let (b, p) = bucket_view_add lib needHeur6 needPrec6 key ip (bv_buckets6 v) (bv_precise6 v)
               in v\<lparr>bv_buckets6 := b, bv_precise6 := p\<rparr>)
            else v)"

definition ipBucketViews_ensureForMatcher ::
  "'s netipx \<Rightarrow> 's HeuristicIPMatcher \<Rightarrow> netIP list \<Rightarrow> ipBucketViews \<Rightarrow> ipBucketViews" where
  "ipBucketViews_ensureForMatcher lib m ips v =
     (let needHeur4 = (heur4 m \<and> bv_buckets4 v = None);
          needHeur6 = (heur6 m \<and> bv_buckets6 v = None);
          needPrec4 = (\<not> heur4 m \<and> bv_precise4 v = None);
          needPrec6 = (\<not> heur6 m \<and> bv_precise6 v = None)
      in if \<not> needHeur4 \<and> \<not> needHeur6 \<and> \<not> needPrec4 \<and> \<not> needPrec6 then v
         else bucket_ensure_loop lib needHeur4 needHeur6 needPrec4 needPrec6 ips
           \<lparr>bv_buckets4 = or_make needHeur4 (bv_buckets4 v), bv_buckets6 = or_make needHeur6 (bv_buckets6 v),
            bv_precise4 = or_make needPrec4 (bv_precise4 v), bv_precise6 = or_make needPrec6 (bv_precise6 v)\<rparr>)"

fun visit_buckets ::
  "'s netipx \<Rightarrow> 's HeuristicIPMatcher \<Rightarrow> byte list list \<Rightarrow> (byte list \<times> ipBucket option) list \<Rightarrow> netIP list \<Rightarrow>
   (byte list \<times> ipBucket option) list \<times> netIP list" where
  "visit_buckets lib m [] buckets matched = (buckets, matched)"
| "visit_buckets lib m (key # keys) buckets matched =
     (case map_of buckets key of
        Some (Some b) \<Rightarrow>
          if matchAddr lib m (bk_rep b) then
            visit_buckets lib m keys (AList.update key None buckets) (matched @ bk_ips b)
          else visit_buckets lib m keys buckets matched
      | _ \<Rightarrow> visit_buckets lib m keys buckets matched)"

fun visit_precise ::
  "'s netipx \<Rightarrow> 's HeuristicIPMatcher \<Rightarrow> netip_Addr list \<Rightarrow> (netip_Addr \<times> netIP) list \<Rightarrow> netIP list \<Rightarrow>
   (netip_Addr \<times> netIP) list \<times> netIP list" where
  "visit_precise lib m [] precise matched = (precise, matched)"
| "visit_precise lib m (ipx # addrs) precise matched =
     (case map_of precise ipx of
        Some ip \<Rightarrow>
          if ip = [] then visit_precise lib m addrs precise matched
          else if matchAddr lib m ipx then
            visit_precise lib m addrs (AList.update ipx [] precise) (matched @ [ip])
          else visit_precise lib m addrs precise matched
      | None \<Rightarrow> visit_precise lib m addrs precise matched)"

text \<open>One matcher on the views of one family.\<close>

definition visit_family ::
  "'s netipx \<Rightarrow> iter_order \<Rightarrow> 's HeuristicIPMatcher \<Rightarrow> bool \<Rightarrow>
   (byte list \<times> ipBucket option) list option \<Rightarrow> (netip_Addr \<times> netIP) list option \<Rightarrow> netIP list \<Rightarrow>
   (byte list \<times> ipBucket option) list option \<times> (netip_Addr \<times> netIP) list option \<times> netIP list" where
  "visit_family lib ord m heuristic buckets precise matched =
     (if heuristic then
        (let bs = (case buckets of None \<Rightarrow> [] | Some bs \<Rightarrow> bs);
             (bs', matched') = visit_buckets lib m (map_range (ord [] (length bs)) (map fst bs)) bs matched
         in (map_option (\<lambda>_. bs') buckets, precise, matched'))
      else
        (let ps = (case precise of None \<Rightarrow> [] | Some ps \<Rightarrow> ps);
             (ps', matched') = visit_precise lib m (map_range (ord [] (length ps)) (map fst ps)) ps matched
         in (buckets, map_option (\<lambda>_. ps') precise, matched')))"

definition sub_order :: "nat \<Rightarrow> iter_order \<Rightarrow> iter_order" where
  "sub_order i ord = (\<lambda>path. ord (i # path))"

fun multi_filter_loop ::
  "'s netipx \<Rightarrow> iter_order \<Rightarrow> netIP list \<Rightarrow> nat \<Rightarrow> 's HeuristicIPMatcher list \<Rightarrow> ipBucketViews \<Rightarrow> netIP list \<Rightarrow>
   ipBucketViews \<times> netIP list" where
  "multi_filter_loop lib ord ips i [] v matched = (v, matched)"
| "multi_filter_loop lib ord ips i (m # ms) v matched =
     (let v = ipBucketViews_ensureForMatcher lib m ips v;
          (b4, p4, matched) =
            visit_family lib (sub_order 4 (sub_order i ord)) m (heur4 m) (bv_buckets4 v) (bv_precise4 v) matched;
          (b6, p6, matched) =
            visit_family lib (sub_order 6 (sub_order i ord)) m (heur6 m) (bv_buckets6 v) (bv_precise6 v) matched
      in multi_filter_loop lib ord ips (Suc i) ms
           \<lparr>bv_buckets4 = b4, bv_buckets6 = b6, bv_precise4 = p4, bv_precise6 = p6\<rparr> matched)"

definition left_buckets :: "nat list \<Rightarrow> (byte list \<times> ipBucket option) list \<Rightarrow> netIP list" where
  "left_buckets idxs bs =
     concat (map (\<lambda>(key, b). case b of None \<Rightarrow> [] | Some b \<Rightarrow> bk_ips b) (map_range idxs bs))"

definition left_precise :: "nat list \<Rightarrow> (netip_Addr \<times> netIP) list \<Rightarrow> netIP list" where
  "left_precise idxs ps = filter (\<lambda>ip. ip \<noteq> []) (map snd (map_range idxs ps))"

definition or_nil :: "'a list option \<Rightarrow> 'a list" where
  "or_nil x = (case x of None \<Rightarrow> [] | Some xs \<Rightarrow> xs)"

text \<open>
  The unmatched addresses are collected in a slice of capacity \<open>n - len(matched)\<close>: \<^verbatim>\<open>make\<close> panics
  when it is negative.
\<close>

definition HeuristicMulti_FilterIPs ::
  "'s netipx \<Rightarrow> iter_order \<Rightarrow> 's HeuristicMultiIPMatcher \<Rightarrow> netIP list \<Rightarrow> (netIP list \<times> netIP list) go" where
  "HeuristicMulti_FilterIPs lib ord mm ips =
     (if length ips = 0 then Some ([], [])
      else if length ips = 1 then
        (case FromStdIP lib (ips ! 0) of
           None \<Rightarrow> Some ([], [])
         | Some ipx \<Rightarrow>
             if list_ex (\<lambda>m. matchAddr lib m ipx) (mm_matchers mm) then Some (ips, []) else Some ([], ips))
      else
        (let (v, matched) = multi_filter_loop lib (sub_order 0 ord) ips 0 (mm_matchers mm) no_bucket_views [];
             b4 = or_nil (bv_buckets4 v); p4 = or_nil (bv_precise4 v);
             b6 = or_nil (bv_buckets6 v); p6 = or_nil (bv_precise6 v)
         in if length ips < length matched then None
            else Some (matched,
              left_buckets (ord [1, 0] (length b4)) b4 @ left_precise (ord [1, 1] (length p4)) p4 @
              left_buckets (ord [1, 2] (length b6)) b6 @ left_precise (ord [1, 3] (length p6)) p6)))"

definition HeuristicMulti_ToggleReverse :: "'s HeuristicMultiIPMatcher \<Rightarrow> 's HeuristicMultiIPMatcher" where
  "HeuristicMulti_ToggleReverse mm = mm\<lparr>mm_matchers := map Heuristic_ToggleReverse (mm_matchers mm)\<rparr>"

definition HeuristicMulti_SetReverse :: "bool \<Rightarrow> 's HeuristicMultiIPMatcher \<Rightarrow> 's HeuristicMultiIPMatcher" where
  "HeuristicMulti_SetReverse reverse mm = mm\<lparr>mm_matchers := map (Heuristic_SetReverse reverse) (mm_matchers mm)\<rparr>"

section \<open>The interface and the general combination\<close>

datatype 's IPMatcher =
    Heuristic "'s HeuristicIPMatcher"
  | HeuristicMulti "'s HeuristicMultiIPMatcher"
  | GeneralMulti "'s IPMatcher list"

fun IPMatcher_Match :: "'s netipx \<Rightarrow> 's IPMatcher \<Rightarrow> netIP \<Rightarrow> bool" where
  "IPMatcher_Match lib (Heuristic m) ip = Heuristic_Match lib m ip"
| "IPMatcher_Match lib (HeuristicMulti mm) ip = HeuristicMulti_Match lib mm ip"
| "IPMatcher_Match lib (GeneralMulti ms) ip = list_ex (\<lambda>m. IPMatcher_Match lib m ip) ms"

fun IPMatcher_AnyMatch :: "'s netipx \<Rightarrow> 's IPMatcher \<Rightarrow> netIP list \<Rightarrow> bool" where
  "IPMatcher_AnyMatch lib (Heuristic m) ips = Heuristic_AnyMatch lib m ips"
| "IPMatcher_AnyMatch lib (HeuristicMulti mm) ips = HeuristicMulti_AnyMatch lib mm ips"
| "IPMatcher_AnyMatch lib (GeneralMulti ms) ips = list_ex (\<lambda>m. IPMatcher_AnyMatch lib m ips) ms"

fun IPMatcher_Matches :: "'s netipx \<Rightarrow> 's IPMatcher \<Rightarrow> netIP list \<Rightarrow> bool" where
  "IPMatcher_Matches lib (Heuristic m) ips = Heuristic_Matches lib m ips"
| "IPMatcher_Matches lib (HeuristicMulti mm) ips = HeuristicMulti_Matches lib mm ips"
| "IPMatcher_Matches lib (GeneralMulti ms) ips = list_ex (\<lambda>m. IPMatcher_Matches lib m ips) ms"

fun IPMatcher_FilterIPs ::
  "'s netipx \<Rightarrow> iter_order \<Rightarrow> 's IPMatcher \<Rightarrow> netIP list \<Rightarrow> (netIP list \<times> netIP list) go" and
  general_filter_loop ::
  "'s netipx \<Rightarrow> iter_order \<Rightarrow> nat \<Rightarrow> 's IPMatcher list \<Rightarrow> netIP list \<Rightarrow> netIP list \<Rightarrow> (netIP list \<times> netIP list) go"
where
  "IPMatcher_FilterIPs lib ord (Heuristic m) ips = Some (Heuristic_FilterIPs lib ord m ips)"
| "IPMatcher_FilterIPs lib ord (HeuristicMulti mm) ips = HeuristicMulti_FilterIPs lib ord mm ips"
| "IPMatcher_FilterIPs lib ord (GeneralMulti ms) ips = general_filter_loop lib ord 0 ms [] ips"
| "general_filter_loop lib ord i [] matched unmatched = Some (matched, unmatched)"
| "general_filter_loop lib ord i (m # ms) matched unmatched =
     (if length unmatched = 0 then Some (matched, unmatched)
      else do {
        (mtch, unmatched) \<leftarrow> IPMatcher_FilterIPs lib (sub_order i ord) m unmatched;
        general_filter_loop lib ord (Suc i) ms (matched @ mtch) unmatched
      })"

fun IPMatcher_ToggleReverse :: "'s IPMatcher \<Rightarrow> 's IPMatcher" where
  "IPMatcher_ToggleReverse (Heuristic m) = Heuristic (Heuristic_ToggleReverse m)"
| "IPMatcher_ToggleReverse (HeuristicMulti mm) = HeuristicMulti (HeuristicMulti_ToggleReverse mm)"
| "IPMatcher_ToggleReverse (GeneralMulti ms) = GeneralMulti (map IPMatcher_ToggleReverse ms)"

fun IPMatcher_SetReverse :: "bool \<Rightarrow> 's IPMatcher \<Rightarrow> 's IPMatcher" where
  "IPMatcher_SetReverse reverse (Heuristic m) = Heuristic (Heuristic_SetReverse reverse m)"
| "IPMatcher_SetReverse reverse (HeuristicMulti mm) = HeuristicMulti (HeuristicMulti_SetReverse reverse mm)"
| "IPMatcher_SetReverse reverse (GeneralMulti ms) = GeneralMulti (map (IPMatcher_SetReverse reverse) ms)"

end
