(* ===== verification/Ip_Heuristic.thy ===== *)
theory Ip_Heuristic
  imports Ip_Matcher
begin

text \<open>
  The bucket heuristic of the IP matchers does not change an answer: \<open>AnyMatch\<close> and \<open>Matches\<close> of a
  matcher over one set and over several sets agree with testing every address, and \<open>FilterIPs\<close> of a
  matcher over one set is the partition of its input.
\<close>

section \<open>Prefixes and keys\<close>

lemma length_byte_bits [simp]: "length (byte_bits b) = 8"
  by (simp add: byte_bits_def)

lemma take_bits_of: "take (8 * k) (bits_of bs) = bits_of (take k bs)"
proof (induction bs arbitrary: k)
  case (Cons b bs)
  then show ?case by (cases k) (auto simp: bits_of_def)
qed (simp add: bits_of_def)

lemma take_bits_agree:
  assumes "n \<le> 8 * k" "take k as = take k bs"
  shows "take n (bits_of as) = take n (bits_of bs)"
proof -
  have "take n (bits_of cs) = take n (bits_of (take k cs))" for cs
    using assms(1) take_bits_of [of k cs] by (metis min.absorb1 take_take)
  then show ?thesis using assms(2) by metis
qed

fun addr_key :: "netip_Addr \<Rightarrow> byte list" where
  "addr_key ZeroAddr = []"
| "addr_key (Addr4 bs) = [4] @ take 3 bs @ replicate 5 0"
| "addr_key (Addr6 bs) = [6] @ take 8 bs"

lemma std_addr_ok: "std_addr ip = Some a \<Longrightarrow> addr_len_ok a"
  by (auto simp: std_addr_def split: if_splits)

lemma std_addr_valid: "std_addr ip = Some a \<Longrightarrow> IsValid a"
  by (auto simp: std_addr_def IsValid_def split: if_splits)

lemma prefixKey_std: "prefixKeyFromIP ip = map_option addr_key (std_addr ip)"
  by (auto simp: prefixKeyFromIP_def IP_To4_def IP_To16_def std_addr_def)

lemma addr_key_family: "addr_len_ok a \<Longrightarrow> addr_key a ! 0 = 4 \<and> Is4 a \<or> addr_key a ! 0 = 6 \<and> Is6 a"
  by (cases a) auto

lemma addr_key_same4:
  assumes "addr_key a = addr_key b" "addr_len_ok a" "addr_len_ok b" "Is4 a"
  shows "Is4 b \<and> take 3 (addr_bytes a) = take 3 (addr_bytes b)"
  using assms by (cases a; cases b) auto

lemma addr_key_same6:
  assumes "addr_key a = addr_key b" "addr_len_ok a" "addr_len_ok b" "Is6 a"
  shows "Is6 b \<and> take 8 (addr_bytes a) = take 8 (addr_bytes b)"
  using assms by (cases a; cases b) auto

lemma Is4_not_Is6: "Is4 a \<Longrightarrow> \<not> Is6 a" by (cases a) auto

section \<open>Sets whose prefixes are short\<close>

definition set_ok :: "'s netipx \<Rightarrow> 's \<Rightarrow> bool" where
  "set_ok lib s \<longleftrightarrow>
     (\<forall>a. IPSet_Contains lib s a \<longleftrightarrow> (\<exists>p \<in> set (IPSet_Prefixes lib s). Prefix_Contains p a))"

definition short_set :: "'s netipx \<Rightarrow> 's \<Rightarrow> int \<Rightarrow> bool" where
  "short_set lib s n \<longleftrightarrow> (\<forall>p \<in> set (IPSet_Prefixes lib s). Prefix_Bits p \<le> n)"

definition hm_ok :: "'s netipx \<Rightarrow> 's HeuristicIPMatcher \<Rightarrow> bool" where
  "hm_ok lib m \<longleftrightarrow> set_ok lib (ipset_ipv4 (hm_ipset m)) \<and> set_ok lib (ipset_ipv6 (hm_ipset m)) \<and>
     (heur4 m \<longrightarrow> short_set lib (ipset_ipv4 (hm_ipset m)) 24) \<and>
     (heur6 m \<longrightarrow> short_set lib (ipset_ipv6 (hm_ipset m)) 64)"

lemma Prefix_Contains_agree:
  assumes "Prefix_Bits p \<le> int (8 * k)" "take k (addr_bytes a) = take k (addr_bytes b)" "same_family a b"
  shows "Prefix_Contains p a = Prefix_Contains p b"
proof (cases "pfx_bits p")
  case (Some n)
  then have "n \<le> 8 * k" using assms(1) by (simp add: Prefix_Bits_def)
  then have "take n (bits_of (addr_bytes a)) = take n (bits_of (addr_bytes b))"
    using assms(2) by (rule take_bits_agree)
  moreover have "same_family (pfx_addr p) a = same_family (pfx_addr p) b"
    using assms(3) Is4_not_Is6 by (auto simp: same_family_def)
  ultimately show ?thesis using Some by (simp add: Prefix_Contains_def)
qed (simp add: Prefix_Contains_def)

lemma short_set_Contains:
  assumes "set_ok lib s" "short_set lib s (int (8 * k))" "take k (addr_bytes a) = take k (addr_bytes b)" "same_family a b"
  shows "IPSet_Contains lib s a = IPSet_Contains lib s b"
proof -
  have "Prefix_Contains p a = Prefix_Contains p b" if "p \<in> set (IPSet_Prefixes lib s)" for p
    using Prefix_Contains_agree [OF _ assms(3,4)] that assms(2) by (simp add: short_set_def)
  then show ?thesis using assms(1) by (simp add: set_ok_def cong: bex_cong)
qed

lemma same_key_match:
  assumes m: "hm_ok lib m" and k: "addr_key a = addr_key b" and ok: "addr_len_ok a" "addr_len_ok b"
    and h: "heur m (addr_key a)"
  shows "matchAddr lib m a = matchAddr lib m b"
proof -
  consider "addr_key a ! 0 = 4" "Is4 a" | "addr_key a ! 0 = 6" "Is6 a"
    using addr_key_family [OF ok(1)] by blast
  then show ?thesis
  proof cases
    case 1
    then have "heur4 m" using h by (simp add: heur_def)
    moreover have b: "Is4 b" "take 3 (addr_bytes a) = take 3 (addr_bytes b)"
      using addr_key_same4 [OF k ok 1(2)] by auto
    ultimately have "IPSet_Contains lib (ipset_ipv4 (hm_ipset m)) a = IPSet_Contains lib (ipset_ipv4 (hm_ipset m)) b"
      using m 1 by (intro short_set_Contains [where k = 3]) (auto simp: hm_ok_def same_family_def)
    then show ?thesis using 1 b by (simp add: matchAddr_def)
  next
    case 2
    then have "heur6 m" using h by (simp add: heur_def)
    moreover have b: "Is6 b" "take 8 (addr_bytes a) = take 8 (addr_bytes b)"
      using addr_key_same6 [OF k ok 2(2)] by auto
    ultimately have "IPSet_Contains lib (ipset_ipv6 (hm_ipset m)) a = IPSet_Contains lib (ipset_ipv6 (hm_ipset m)) b"
      using m 2 by (intro short_set_Contains [where k = 8]) (auto simp: hm_ok_def same_family_def)
    moreover have "\<not> Is4 a" "\<not> Is4 b" using 2 b Is4_not_Is6 by blast+
    ultimately show ?thesis using 2 b by (simp add: matchAddr_def)
  qed
qed

lemma FromStdIP_std: "netipx_ok lib \<Longrightarrow> FromStdIP lib ip = std_addr ip"
  by (simp add: netipx_ok_def)

definition ip_test :: "'s netipx \<Rightarrow> 's HeuristicIPMatcher \<Rightarrow> netIP \<Rightarrow> bool" where
  "ip_test lib m ip = (case std_addr ip of None \<Rightarrow> False | Some a \<Rightarrow> matchAddr lib m a)"

lemma Heuristic_Match_test: "netipx_ok lib \<Longrightarrow> Heuristic_Match lib m ip = ip_test lib m ip"
  by (simp add: Heuristic_Match_def ip_test_def FromStdIP_std)

lemma same_key_test:
  assumes "hm_ok lib m" "prefixKeyFromIP ip = Some key" "prefixKeyFromIP ip' = Some key" "heur m key"
  shows "ip_test lib m ip = ip_test lib m ip'"
proof -
  obtain a b where ab: "std_addr ip = Some a" "std_addr ip' = Some b" "addr_key a = key" "addr_key b = key"
    using assms(2,3) by (auto simp: prefixKey_std)
  then have "matchAddr lib m a = matchAddr lib m b"
    using assms(1,4) by (intro same_key_match) (auto intro: std_addr_ok)
  then show ?thesis using ab by (simp add: ip_test_def)
qed

lemma test_invalid: "prefixKeyFromIP ip = None \<Longrightarrow> \<not> ip_test lib m ip"
  by (auto simp: prefixKey_std ip_test_def)

section \<open>AnyMatch and Matches over one set\<close>

lemma any_precise_loop_iff:
  "netipx_ok lib \<Longrightarrow> any_precise_loop lib m ips \<longleftrightarrow> (\<exists>ip \<in> set ips. ip_test lib m ip)"
  by (induction ips) (auto simp: FromStdIP_std ip_test_def split: option.splits)

lemma any_bucket_loop_iff:
  assumes "netipx_ok lib" "hm_ok lib m"
    and "\<forall>ip key. prefixKeyFromIP ip = Some key \<longrightarrow> key \<in> buckets \<longrightarrow> heur m key \<longrightarrow> \<not> ip_test lib m ip"
  shows "any_bucket_loop lib m ips buckets \<longleftrightarrow> (\<exists>ip \<in> set ips. ip_test lib m ip)"
  using assms(3)
proof (induction ips arbitrary: buckets)
  case (Cons ip ips)
  show ?case
  proof (cases "prefixKeyFromIP ip")
    case None
    then show ?thesis using Cons by (auto dest: test_invalid)
  next
    case (Some key)
    then obtain a where a: "std_addr ip = Some a" by (auto simp: prefixKey_std)
    show ?thesis
    proof (cases "heur m key \<and> key \<in> buckets")
      case True
      then show ?thesis using Cons Some by auto
    next
      case new: False
      show ?thesis
      proof (cases "matchAddr lib m a")
        case True
        then show ?thesis using Some new a by (auto simp: FromStdIP_std [OF assms(1)] ip_test_def)
      next
        case False
        then have no: "\<not> ip_test lib m ip" using a by (simp add: ip_test_def)
        let ?b = "if heur m key then insert key buckets else buckets"
        have "any_bucket_loop lib m ips ?b \<longleftrightarrow> (\<exists>ip \<in> set ips. ip_test lib m ip)"
          using Cons.prems same_key_test [OF assms(2) Some] no by (intro Cons.IH) auto
        then show ?thesis using Some new a False no by (auto simp: FromStdIP_std [OF assms(1)])
      qed
    qed
  qed
qed simp

lemma length_1_nth: "length xs = 1 \<Longrightarrow> xs = [xs ! 0]"
  by (cases xs) auto

lemma Heuristic_AnyMatch_iff:
  assumes "netipx_ok lib" "hm_ok lib m"
  shows "Heuristic_AnyMatch lib m ips \<longleftrightarrow> (\<exists>ip \<in> set ips. Heuristic_Match lib m ip)"
proof -
  consider "ips = []" | ip where "ips = [ip]" | "length ips \<noteq> 0" "length ips \<noteq> 1"
    by (cases ips rule: list.exhaust; cases "tl ips") auto
  then show ?thesis
    by cases (auto simp: Heuristic_AnyMatch_def any_precise_loop_iff [OF assms(1)]
      any_bucket_loop_iff [OF assms] Heuristic_Match_test [OF assms(1)])
qed

lemma all_precise_loop_iff:
  "netipx_ok lib \<Longrightarrow> all_precise_loop lib m ips \<longleftrightarrow> (\<forall>ip \<in> set ips. ip_test lib m ip)"
  by (induction ips) (auto simp: FromStdIP_std ip_test_def split: option.splits)

definition bucket_of_ip :: "netIP list \<Rightarrow> byte list \<times> netip_Addr \<Rightarrow> bool" where
  "bucket_of_ip ips = (\<lambda>(key, a). \<exists>ip \<in> set ips. std_addr ip = Some a \<and> addr_key a = key)"

lemma all_split_loop_spec:
  assumes "netipx_ok lib"
    and "list_all (\<lambda>(key, a). heur m key \<and> addr_len_ok a \<and> addr_key a = key) buckets"
  shows "case all_split_loop lib m ips buckets precise of
      None \<Rightarrow> (\<exists>ip \<in> set ips. std_addr ip = None)
    | Some (bs, ps) \<Rightarrow> (\<forall>ip \<in> set ips. std_addr ip \<noteq> None) \<and>
        ((list_all (\<lambda>(key, a). matchAddr lib m a) bs \<and> list_all (matchAddr lib m) ps \<longleftrightarrow>
          list_all (\<lambda>(key, a). matchAddr lib m a) buckets \<and> list_all (matchAddr lib m) precise \<and>
          (\<forall>ip \<in> set ips. ip_test lib m ip)) \<or> \<not> hm_ok lib m)"
  using assms(2)
proof (induction ips arbitrary: buckets precise)
  case (Cons ip ips)
  show ?case
  proof (cases "std_addr ip")
    case None
    then show ?thesis by (simp add: prefixKey_std)
  next
    case (Some a)
    let ?k = "addr_key a"
    have t: "ip_test lib m ip = matchAddr lib m a" using Some by (simp add: ip_test_def)
    have ok: "addr_len_ok a" using Some by (rule std_addr_ok)
    consider "heur m ?k" "map_of buckets ?k = None" | b where "heur m ?k" "map_of buckets ?k = Some b" | "\<not> heur m ?k"
      by fastforce
    then show ?thesis
    proof cases
      case 1
      then show ?thesis using Cons.IH [of "buckets @ [(?k, a)]" precise] Cons.prems Some ok t
        by (simp add: prefixKey_std FromStdIP_std [OF assms(1)] split: option.splits) blast
    next
      case 2
      have b: "heur m ?k \<and> addr_len_ok b \<and> addr_key b = ?k"
        using map_of_SomeD [OF 2(2)] Cons.prems by (auto simp: list_all_iff)
      have same: "matchAddr lib m b = matchAddr lib m a" if "hm_ok lib m"
        using same_key_match [OF that, of a b] b ok 2 by simp
      have "list_all (\<lambda>(key, a). matchAddr lib m a) buckets \<Longrightarrow> matchAddr lib m b"
        using map_of_SomeD [OF 2(2)] by (auto simp: list_all_iff)
      then show ?thesis using Cons.IH [of buckets precise] Cons.prems Some t same 2
        by (simp add: prefixKey_std FromStdIP_std [OF assms(1)] split: option.splits) blast
    next
      case 3
      then show ?thesis using Cons.IH [of buckets "precise @ [a]"] Cons.prems Some t
        by (simp add: prefixKey_std FromStdIP_std [OF assms(1)] split: option.splits) blast
    qed
  qed
qed simp

lemma Heuristic_Matches_iff:
  assumes "netipx_ok lib" "hm_ok lib m"
  shows "Heuristic_Matches lib m ips \<longleftrightarrow> ips \<noteq> [] \<and> (\<forall>ip \<in> set ips. Heuristic_Match lib m ip)"
proof -
  have bad: "\<not> ip_test lib m ip" if "std_addr ip = None" for ip using that by (simp add: ip_test_def)
  consider "ips = []" | ip where "ips = [ip]" | "length ips \<noteq> 0" "length ips \<noteq> 1"
    by (cases ips rule: list.exhaust; cases "tl ips") auto
  then show ?thesis
  proof cases
    case 3
    then show ?thesis
      using all_split_loop_spec [OF assms(1), of m "[]" ips "[]"] assms(2) bad
      by (auto simp: Heuristic_Matches_def all_precise_loop_iff [OF assms(1)] Heuristic_Match_test [OF assms(1)]
          split: option.splits)
  qed (auto simp: Heuristic_Matches_def)
qed

section \<open>AnyMatch over several sets\<close>

lemma heur_key4: "key ! 0 = 4 \<Longrightarrow> heur m key = heur4 m"
  by (simp add: heur_def)

lemma heur_key6: "key ! 0 = 6 \<Longrightarrow> heur m key = heur6 m"
  by (simp add: heur_def)

lemma inner_checked:
  assumes "netipx_ok lib" "std_addr ip = Some a" "ipx = ZeroAddr \<or> ipx = a"
  shows "multi_any_inner lib ip ms 1 ipx B = ((\<exists>m \<in> set ms. matchAddr lib m a), B)"
  using assms(3)
proof (induction ms arbitrary: ipx)
  case (Cons m ms)
  have "(if IsValid ipx then Some ipx else FromStdIP lib ip) = Some a"
    using Cons.prems assms(2) std_addr_valid [OF assms(2)] by (auto simp: FromStdIP_std [OF assms(1)] IsValid_def)
  then show ?case using Cons.IH [of a] by simp
qed simp

lemma inner_skipped:
  assumes "netipx_ok lib" "std_addr ip = Some a" "ipx = ZeroAddr \<or> ipx = a"
  shows "multi_any_inner lib ip ms (addr_key a ! 0) ipx B =
    ((\<exists>m \<in> set ms. \<not> heur m (addr_key a) \<and> matchAddr lib m a), B)"
  using assms(3)
proof (induction ms arbitrary: ipx)
  case (Cons m ms)
  have "(if IsValid ipx then Some ipx else FromStdIP lib ip) = Some a"
    using Cons.prems assms(2) std_addr_valid [OF assms(2)] by (auto simp: FromStdIP_std [OF assms(1)] IsValid_def)
  moreover have "addr_key a ! 0 = 4 \<or> addr_key a ! 0 = 6"
    using addr_key_family [OF std_addr_ok [OF assms(2)]] by auto
  ultimately show ?case using Cons.IH [of a] Cons.IH [of ipx] Cons.prems by (auto simp: heur_def)
qed simp

lemma inner_known:
  assumes "netipx_ok lib" "std_addr ip = Some a" "ipx = ZeroAddr \<or> ipx = a" "addr_key a \<in> B"
  shows "multi_any_inner lib ip ms 0 ipx B =
    ((\<exists>m \<in> set ms. \<not> heur m (addr_key a) \<and> matchAddr lib m a), B)"
  using assms(3)
proof (induction ms arbitrary: ipx)
  case (Cons m ms)
  show ?case
  proof (cases "heur4 m \<or> heur6 m")
    case True
    have "addr_key a ! 0 \<noteq> 0"
      using addr_key_family [OF std_addr_ok [OF assms(2)]] by auto
    then have "multi_any_inner lib ip (m # ms) 0 ipx B = multi_any_inner lib ip (m # ms) (addr_key a ! 0) ipx B"
      using True assms(2,4) by (simp add: prefixKey_std)
    then show ?thesis by (simp only: inner_skipped [OF assms(1,2) Cons.prems])
  next
    case False
    have "(if IsValid ipx then Some ipx else FromStdIP lib ip) = Some a"
      using Cons.prems assms(2) std_addr_valid [OF assms(2)] by (auto simp: FromStdIP_std [OF assms(1)] IsValid_def)
    then show ?thesis using False Cons.IH [of a] by (simp add: heur_def)
  qed
qed simp

lemma inner_new:
  assumes "netipx_ok lib" "std_addr ip = Some a" "ipx = ZeroAddr \<or> ipx = a" "addr_key a \<notin> B"
  shows "\<exists>B'. multi_any_inner lib ip ms 0 ipx B = ((\<exists>m \<in> set ms. matchAddr lib m a), B') \<and>
    (B' = B \<or> B' = insert (addr_key a) B)"
  using assms(3)
proof (induction ms arbitrary: ipx)
  case (Cons m ms)
  show ?case
  proof (cases "heur4 m \<or> heur6 m")
    case True
    then have "multi_any_inner lib ip (m # ms) 0 ipx B =
        multi_any_inner lib ip (m # ms) 1 ipx (insert (addr_key a) B)"
      using assms(2,4) by (simp add: prefixKey_std)
    then show ?thesis by (simp only: inner_checked [OF assms(1,2) Cons.prems]) blast
  next
    case False
    have "(if IsValid ipx then Some ipx else FromStdIP lib ip) = Some a"
      using Cons.prems assms(2) std_addr_valid [OF assms(2)] by (auto simp: FromStdIP_std [OF assms(1)] IsValid_def)
    then show ?thesis using False Cons.IH [of a] by simp
  qed
qed simp

lemma inner_invalid:
  assumes "netipx_ok lib" "std_addr ip = None"
  shows "multi_any_inner lib ip ms 0 ZeroAddr B = (False, B)"
  using assms by (cases ms) (auto simp: prefixKey_std FromStdIP_std IsValid_def)

lemma multi_any_loop_iff:
  assumes "netipx_ok lib" "list_all (hm_ok lib) ms"
    and "\<forall>ip key m. prefixKeyFromIP ip = Some key \<longrightarrow> key \<in> B \<longrightarrow> m \<in> set ms \<longrightarrow> heur m key \<longrightarrow> \<not> ip_test lib m ip"
  shows "multi_any_loop lib ms ips B \<longleftrightarrow> (\<exists>ip \<in> set ips. \<exists>m \<in> set ms. ip_test lib m ip)"
  using assms(3)
proof (induction ips arbitrary: B)
  case (Cons ip ips)
  show ?case
  proof (cases "std_addr ip")
    case None
    then show ?thesis using Cons inner_invalid [OF assms(1) None] by (simp add: ip_test_def)
  next
    case (Some a)
    then have t: "ip_test lib m ip = matchAddr lib m a" and k: "prefixKeyFromIP ip = Some (addr_key a)" for m
      by (simp_all add: ip_test_def prefixKey_std)
    show ?thesis
    proof (cases "addr_key a \<in> B")
      case True
      then have "(\<exists>m \<in> set ms. \<not> heur m (addr_key a) \<and> matchAddr lib m a) \<longleftrightarrow> (\<exists>m \<in> set ms. ip_test lib m ip)"
        using Cons.prems k t by blast
      then show ?thesis using Cons inner_known [OF assms(1) Some _ True, of ZeroAddr ms] by (simp add: t)
    next
      case False
      obtain B' where B': "multi_any_inner lib ip ms 0 ZeroAddr B = ((\<exists>m \<in> set ms. matchAddr lib m a), B')"
          "B' = B \<or> B' = insert (addr_key a) B"
        using inner_new [OF assms(1) Some _ False, of ZeroAddr ms] by blast
      show ?thesis
      proof (cases "\<exists>m \<in> set ms. matchAddr lib m a")
        case True
        then show ?thesis using B'(1) t by auto
      next
        case no: False
        have "\<forall>ip key m. prefixKeyFromIP ip = Some key \<longrightarrow> key \<in> B' \<longrightarrow> m \<in> set ms \<longrightarrow> heur m key \<longrightarrow> \<not> ip_test lib m ip"
          using Cons.prems B'(2) no t k same_key_test [of lib _ _ "addr_key a" ip] assms(2)
          by (metis insert_iff list_all_iff)
        then show ?thesis using Cons.IH B'(1) no t by simp
      qed
    qed
  qed
qed simp

lemma HeuristicMulti_Match_test:
  "netipx_ok lib \<Longrightarrow> HeuristicMulti_Match lib mm ip \<longleftrightarrow> (\<exists>m \<in> set (mm_matchers mm). ip_test lib m ip)"
  by (auto simp: HeuristicMulti_Match_def FromStdIP_std ip_test_def list_ex_iff split: option.splits)

lemma HeuristicMulti_AnyMatch_iff:
  assumes "netipx_ok lib" "list_all (hm_ok lib) (mm_matchers mm)"
  shows "HeuristicMulti_AnyMatch lib mm ips \<longleftrightarrow> (\<exists>ip \<in> set ips. HeuristicMulti_Match lib mm ip)"
proof -
  consider "ips = []" | ip where "ips = [ip]" | "length ips \<noteq> 0" "length ips \<noteq> 1"
    by (cases ips rule: list.exhaust; cases "tl ips") auto
  then show ?thesis
    by cases (auto simp: HeuristicMulti_AnyMatch_def HeuristicMulti_Match_test [OF assms(1)]
      multi_any_loop_iff [OF assms])
qed

end
