(* ===== verification/Ip_Filter.thy ===== *)
theory Ip_Filter
  imports Ip_Heuristic
begin

text \<open>
  \<open>FilterIPs\<close> of a matcher over one set partitions the valid addresses of its input, and \<open>Matches\<close>
  over several sets asks for one set that matches every address.
\<close>

section \<open>Filtering by one set\<close>

lemma mset_map_range:
  assumes "mset idxs = mset [0 ..< length xs]"
  shows "mset (map_range idxs xs) = mset xs"
proof -
  have "mset (map_range idxs xs) = image_mset (\<lambda>i. xs ! i) (mset idxs)" by (simp add: map_range_def)
  also have "\<dots> = mset (map (\<lambda>i. xs ! i) [0 ..< length xs])" by (simp add: assms)
  also have "\<dots> = mset xs" by (simp add: map_nth)
  finally show ?thesis .
qed

lemma mset_concat_map: "mset (concat (map f xs)) = \<Sum>\<^sub># (image_mset (\<lambda>x. mset (f x)) (mset xs))"
  by (induction xs) auto

lemma order_okD: "order_ok ord \<Longrightarrow> mset (ord path n) = mset [0 ..< n]"
  by (simp add: order_ok_def)

definition ip_valid :: "netIP \<Rightarrow> bool" where
  "ip_valid ip \<longleftrightarrow> std_addr ip \<noteq> None"

definition ip_key :: "netIP \<Rightarrow> byte list" where
  "ip_key ip = (case std_addr ip of None \<Rightarrow> [] | Some a \<Rightarrow> addr_key a)"

lemma test_valid: "ip_test lib m ip \<Longrightarrow> ip_valid ip"
  by (auto simp: ip_test_def ip_valid_def split: option.splits)

lemma prefixKey_ip_key: "prefixKeyFromIP ip = (if ip_valid ip then Some (ip_key ip) else None)"
  by (auto simp: prefixKey_std ip_valid_def ip_key_def split: option.splits)

lemma ip_key_family: "ip_valid ip \<Longrightarrow> ip_key ip ! 0 = 4 \<or> ip_key ip ! 0 = 6"
  using addr_key_family std_addr_ok by (fastforce simp: ip_valid_def ip_key_def)

lemma filter_precise_loop_eq:
  assumes "netipx_ok lib"
  shows "filter_precise_loop lib m ips matched unmatched =
    (matched @ filter (ip_test lib m) ips, unmatched @ filter (\<lambda>ip. ip_valid ip \<and> \<not> ip_test lib m ip) ips)"
  by (induction ips arbitrary: matched unmatched)
    (auto simp: FromStdIP_std [OF assms] ip_test_def ip_valid_def split: option.splits)

definition bucket_good :: "byte list \<Rightarrow> netip_Addr \<Rightarrow> netIP list \<Rightarrow> bool" where
  "bucket_good key rep ips \<longleftrightarrow> addr_len_ok rep \<and> addr_key rep = key \<and>
     (\<forall>ip \<in> set ips. ip_valid ip \<and> ip_key ip = key)"

definition buckets_good :: "(byte list \<times> ipBucket) list \<Rightarrow> bool" where
  "buckets_good bs \<longleftrightarrow> distinct (map fst bs) \<and> (\<forall>(key, b) \<in> set bs. bucket_good key (bk_rep b) (bk_ips b))"

definition bucket_ips :: "(byte list \<times> ipBucket) list \<Rightarrow> netIP list" where
  "bucket_ips bs = concat (map (\<lambda>(key, b). bk_ips b) bs)"

lemma map_fst_bucket_add [simp]: "map fst (bucket_add key ip bs) = map fst bs"
  by (auto simp: bucket_add_def)

lemma mset_bucket_add:
  assumes "distinct (map fst bs)" "key \<in> fst ` set bs"
  shows "mset (bucket_ips (bucket_add key ip bs)) = add_mset ip (mset (bucket_ips bs))"
  using assms
proof (induction bs)
  case (Cons e bs)
  obtain k b where e: "e = (k, b)" by (cases e)
  show ?case
  proof (cases "k = key")
    case True
    then have "bucket_add key ip bs = bs"
      using Cons.prems e by (auto simp: bucket_add_def rev_image_eqI intro!: map_idI)
    then show ?thesis using True e by (simp add: bucket_add_def bucket_ips_def)
  next
    case False
    then show ?thesis using Cons e by (auto simp: bucket_add_def bucket_ips_def)
  qed
qed simp

lemma buckets_good_add:
  assumes "buckets_good bs" "ip_valid ip" "ip_key ip = key"
  shows "buckets_good (bucket_add key ip bs)"
proof -
  have "distinct (map fst (bucket_add key ip bs))" using assms(1) by (simp add: buckets_good_def)
  moreover have "bucket_good k (bk_rep b) (bk_ips b)" if "(k, b) \<in> set (bucket_add key ip bs)" for k b
    using that assms by (force simp: buckets_good_def bucket_add_def bucket_good_def split: if_splits)
  ultimately show ?thesis by (auto simp: buckets_good_def)
qed

lemma filter_split_loop_spec:
  assumes "netipx_ok lib" "buckets_good buckets" "\<forall>k \<in> fst ` set buckets. heur m k"
  shows "\<exists>bs ps. filter_split_loop lib m ips buckets precise = (bs, ps) \<and> buckets_good bs \<and>
    (\<forall>k \<in> fst ` set bs. heur m k) \<and>
    mset (bucket_ips bs) + mset ps = mset (bucket_ips buckets) + mset precise + mset (filter ip_valid ips)"
  using assms(2,3)
proof (induction ips arbitrary: buckets precise)
  case (Cons ip ips)
  show ?case
  proof (cases "ip_valid ip")
    case False
    then show ?thesis using Cons by (simp add: prefixKey_ip_key)
  next
    case valid: True
    let ?k = "ip_key ip"
    obtain a where a: "std_addr ip = Some a" "?k = addr_key a"
      using valid by (auto simp: ip_valid_def ip_key_def)
    have h: "?k ! 0 = 4 \<and> \<not> heur4 m \<or> ?k ! 0 = 6 \<and> \<not> heur6 m \<longleftrightarrow> \<not> heur m ?k"
      using ip_key_family [OF valid] by (auto simp: heur_def)
    consider "\<not> heur m ?k" | "heur m ?k" "map_of buckets ?k = None" | "heur m ?k" "map_of buckets ?k \<noteq> None"
      by blast
    then show ?thesis
    proof cases
      case 1
      then show ?thesis using Cons.IH [OF Cons.prems, of "precise @ [ip]"] valid h
        by (auto simp: prefixKey_ip_key)
    next
      case 2
      let ?b = "buckets @ [(?k, \<lparr>bk_rep = a, bk_ips = []\<rparr>)]"
      have "buckets_good ?b"
        using Cons.prems(1) 2 std_addr_ok [OF a(1)] a(2)
        by (auto simp: buckets_good_def bucket_good_def map_of_eq_None_iff)
      then have g: "buckets_good (bucket_add ?k ip ?b)" using valid by (intro buckets_good_add) auto
      have k: "fst ` set (bucket_add ?k ip ?b) = fst ` set ?b"
        by (metis map_fst_bucket_add set_map)
      have "mset (bucket_ips (bucket_add ?k ip ?b)) = add_mset ip (mset (bucket_ips ?b))"
        using \<open>buckets_good ?b\<close> by (intro mset_bucket_add) (auto simp: buckets_good_def)
      moreover have "filter_split_loop lib m (ip # ips) buckets precise =
          filter_split_loop lib m ips (bucket_add ?k ip ?b) precise"
        using 2 valid h a by (auto simp: prefixKey_ip_key FromStdIP_std [OF assms(1)])
      moreover have "\<forall>k \<in> fst ` set (bucket_add ?k ip ?b). heur m k"
        unfolding k using Cons.prems(2) 2(1) by simp
      moreover have "bucket_ips ?b = bucket_ips buckets" by (simp add: bucket_ips_def)
      ultimately show ?thesis using Cons.IH [OF g, of precise] valid by simp
    next
      case 3
      have g: "buckets_good (bucket_add ?k ip buckets)"
        using Cons.prems(1) valid by (intro buckets_good_add) auto
      have k: "fst ` set (bucket_add ?k ip buckets) = fst ` set buckets"
        by (metis map_fst_bucket_add set_map)
      have "mset (bucket_ips (bucket_add ?k ip buckets)) = add_mset ip (mset (bucket_ips buckets))"
        using Cons.prems(1) 3 by (intro mset_bucket_add) (auto simp: buckets_good_def map_of_eq_None_iff)
      moreover have "filter_split_loop lib m (ip # ips) buckets precise =
          filter_split_loop lib m ips (bucket_add ?k ip buckets) precise"
        using 3 valid h by (auto simp: prefixKey_ip_key)
      moreover have "\<forall>k \<in> fst ` set (bucket_add ?k ip buckets). heur m k"
        unfolding k using Cons.prems(2) by simp
      ultimately show ?thesis using Cons.IH [OF g, of precise] valid by simp
    qed
  qed
qed simp

lemma bucket_test:
  assumes "hm_ok lib m" "bucket_good key rep ips" "heur m key" "ip \<in> set ips"
  shows "ip_test lib m ip = matchAddr lib m rep"
proof -
  obtain a where a: "std_addr ip = Some a" "addr_key a = key"
    using assms(2,4) by (auto simp: bucket_good_def ip_valid_def ip_key_def)
  then have "matchAddr lib m a = matchAddr lib m rep"
    using assms(2,3) by (intro same_key_match [OF assms(1)]) (auto simp: bucket_good_def intro: std_addr_ok)
  then show ?thesis using a by (simp add: ip_test_def)
qed

lemma filter_bucket_loop_spec:
  assumes "hm_ok lib m" "\<forall>(key, b) \<in> set bs. bucket_good key (bk_rep b) (bk_ips b) \<and> heur m key"
  shows "filter_bucket_loop lib m bs matched unmatched =
    (matched @ filter (ip_test lib m) (bucket_ips bs), unmatched @ filter (\<lambda>ip. \<not> ip_test lib m ip) (bucket_ips bs))"
  using assms(2)
proof (induction bs arbitrary: matched unmatched)
  case (Cons e bs)
  obtain k b where e: "e = (k, b)" by (cases e)
  have "\<forall>ip \<in> set (bk_ips b). ip_test lib m ip = matchAddr lib m (bk_rep b)"
    using Cons.prems e bucket_test [OF assms(1)] by auto
  then have "filter (ip_test lib m) (bk_ips b) = (if matchAddr lib m (bk_rep b) then bk_ips b else [])"
    "filter (\<lambda>ip. \<not> ip_test lib m ip) (bk_ips b) = (if matchAddr lib m (bk_rep b) then [] else bk_ips b)"
    by (auto simp: filter_empty_conv filter_id_conv)
  then show ?case using Cons e by (simp add: bucket_ips_def)
qed (simp add: bucket_ips_def)

lemma Heuristic_FilterIPs_partition:
  assumes "netipx_ok lib" "hm_ok lib m" "order_ok ord"
  shows "\<exists>matched unmatched. Heuristic_FilterIPs lib ord m ips = (matched, unmatched) \<and>
    mset matched = mset (filter (Heuristic_Match lib m) ips) \<and>
    mset unmatched = mset (filter (\<lambda>ip. ip_valid ip \<and> \<not> Heuristic_Match lib m ip) ips)"
proof -
  note t = Heuristic_Match_test [OF assms(1)]
  have ft: "Heuristic_Match lib m = ip_test lib m" by (rule ext) (rule t)
  consider "ips = []" | ip where "ips = [ip]" | "length ips \<noteq> 0" "length ips \<noteq> 1"
    by (cases ips rule: list.exhaust; cases "tl ips") auto
  then show ?thesis
  proof cases
    case 3
    show ?thesis
    proof (cases "\<not> heur4 m \<and> \<not> heur6 m")
      case True
      then show ?thesis using 3 by (simp add: Heuristic_FilterIPs_def filter_precise_loop_eq [OF assms(1)] ft)
    next
      case False
      obtain bs ps where split: "filter_split_loop lib m ips [] [] = (bs, ps)" "buckets_good bs"
          "\<forall>k \<in> fst ` set bs. heur m k" "mset (bucket_ips bs) + mset ps = mset (filter ip_valid ips)"
        using filter_split_loop_spec [OF assms(1), of "[]" m ips "[]"]
        by (auto simp: buckets_good_def bucket_ips_def)
      let ?r = "map_range (ord [] (length bs)) bs"
      have r: "mset ?r = mset bs" using assms(3) by (intro mset_map_range order_okD)
      then have "set ?r = set bs" by (metis set_mset_mset)
      then have good: "\<forall>(key, b) \<in> set ?r. bucket_good key (bk_rep b) (bk_ips b) \<and> heur m key"
        using split(2,3) by (force simp: buckets_good_def)
      have "mset (bucket_ips ?r) = mset (bucket_ips bs)"
        by (simp only: bucket_ips_def mset_concat_map r)
      then have all: "mset (bucket_ips ?r @ ps) = mset (filter ip_valid ips)"
        using split(4) by simp
      have part: "mset (filter P (bucket_ips ?r @ ps)) = mset (filter P (filter ip_valid ips))" for P
        by (simp only: mset_filter all)
      have "\<forall>ip \<in> set ps. ip_valid ip"
        using arg_cong [OF all, of set_mset] by auto
      then have "filter (\<lambda>ip. ip_valid ip \<and> \<not> ip_test lib m ip) ps = filter (\<lambda>ip. \<not> ip_test lib m ip) ps"
        by (auto intro: filter_cong)
      then have eq: "Heuristic_FilterIPs lib ord m ips =
          (filter (ip_test lib m) (bucket_ips ?r @ ps), filter (\<lambda>ip. \<not> ip_test lib m ip) (bucket_ips ?r @ ps))"
        unfolding Heuristic_FilterIPs_def split(1)
        using 3 False by (auto simp: filter_bucket_loop_spec [OF assms(2) good] filter_precise_loop_eq [OF assms(1)])
      have f1: "filter (ip_test lib m) (filter ip_valid ips) = filter (ip_test lib m) ips"
        by (auto intro!: filter_cong dest: test_valid)
      have f2: "filter (\<lambda>ip. \<not> ip_test lib m ip) (filter ip_valid ips) =
          filter (\<lambda>ip. ip_valid ip \<and> \<not> ip_test lib m ip) ips"
        by (simp add: filter_filter conj_commute)
      show ?thesis unfolding eq ft using part [of "ip_test lib m"] part [of "\<lambda>ip. \<not> ip_test lib m ip"]
        unfolding f1 f2 by blast
    qed
  qed (auto simp: Heuristic_FilterIPs_def FromStdIP_std [OF assms(1)] ft ip_test_def ip_valid_def split: option.splits)
qed

section \<open>Matches over several sets\<close>

definition fam_addrs :: "byte \<Rightarrow> netIP list \<Rightarrow> netip_Addr set" where
  "fam_addrs f ips = {a. \<exists>ip \<in> set ips. std_addr ip = Some a \<and> addr_key a ! 0 = f}"

definition reps_good :: "byte \<Rightarrow> netIP list \<Rightarrow> (byte list \<times> netip_Addr) list \<Rightarrow> bool" where
  "reps_good f ips bs \<longleftrightarrow> (\<forall>(k, a) \<in> set bs. addr_key a = k \<and> a \<in> fam_addrs f ips) \<and>
     (\<forall>a \<in> fam_addrs f ips. addr_key a \<in> fst ` set bs)"

text \<open>The views of one family that are being filled hold what the addresses visited so far give.\<close>

definition view_ok ::
  "bool \<Rightarrow> bool \<Rightarrow> byte \<Rightarrow> netIP list \<Rightarrow> (byte list \<times> netip_Addr) list option \<Rightarrow> netip_Addr list option \<Rightarrow> bool" where
  "view_ok nh np f ips b p \<longleftrightarrow>
     (nh \<longrightarrow> (\<exists>bs. b = Some bs \<and> reps_good f ips bs)) \<and>
     (np \<longrightarrow> (\<exists>ps. p = Some ps \<and> set ps = fam_addrs f ips))"

lemma fam_addrs_snoc:
  "fam_addrs f (ips @ [ip]) =
    (case std_addr ip of Some a \<Rightarrow> if addr_key a ! 0 = f then insert a (fam_addrs f ips) else fam_addrs f ips
     | None \<Rightarrow> fam_addrs f ips)"
  by (auto simp: fam_addrs_def split: option.splits)

lemma view_ok_other:
  "view_ok nh np f ips b p \<Longrightarrow> std_addr ip = Some a \<Longrightarrow> addr_key a ! 0 \<noteq> f \<Longrightarrow> view_ok nh np f (ips @ [ip]) b p"
  by (simp add: view_ok_def reps_good_def fam_addrs_snoc)

lemma reps_good_known:
  assumes "reps_good f ips bs" "map_of bs (addr_key a) \<noteq> None" "std_addr ip = Some a" "addr_key a ! 0 = f"
  shows "reps_good f (ips @ [ip]) bs"
  using assms by (auto simp: reps_good_def fam_addrs_snoc map_of_eq_None_iff)

lemma reps_good_new:
  assumes "reps_good f ips bs" "std_addr ip = Some a" "addr_key a ! 0 = f"
  shows "reps_good f (ips @ [ip]) (bs @ [(addr_key a, a)])"
  using assms by (auto simp: reps_good_def fam_addrs_snoc)

lemma view_add_spec:
  assumes "netipx_ok lib" "view_ok nh np f ips b p" "std_addr ip = Some a" "addr_key a ! 0 = f"
  shows "\<exists>b' p'. view_add lib nh np (addr_key a) ip b p = Some (b', p') \<and> view_ok nh np f (ips @ [ip]) b' p' \<and>
    (\<not> nh \<longrightarrow> b' = b) \<and> (\<not> np \<longrightarrow> p' = p)"
proof -
  define q where "q = (if np then Some (the p @ [a]) else p)"
  have v: "IsValid a" using assms(3) by (rule std_addr_valid)
  have std: "FromStdIP lib ip = Some a" using assms(1,3) by (simp add: FromStdIP_std)
  have z: "\<not> IsValid ZeroAddr" by (simp add: IsValid_def)
  note put = view_add_def q_def std v z
  have q: "np \<longrightarrow> (\<exists>ps. q = Some ps \<and> set ps = fam_addrs f (ips @ [ip]))" "\<not> np \<longrightarrow> q = p"
    using assms(2-4) by (auto simp: view_ok_def fam_addrs_snoc q_def)
  show ?thesis
  proof (cases nh)
    case False
    then have "view_add lib nh np (addr_key a) ip b p = Some (b, q)" by (simp add: put)
    then show ?thesis using False q by (simp add: view_ok_def)
  next
    case True
    then obtain bs where bs: "b = Some bs" "reps_good f ips bs" using assms(2) by (auto simp: view_ok_def)
    show ?thesis
    proof (cases "map_of bs (addr_key a)")
      case None
      then have "view_add lib nh np (addr_key a) ip b p = Some (Some (bs @ [(addr_key a, a)]), q)"
        using True bs(1) by (simp add: put)
      then show ?thesis using True q reps_good_new [OF bs(2) assms(3,4)] by (simp add: view_ok_def)
    next
      case (Some r)
      then have "view_add lib nh np (addr_key a) ip b p = Some (Some bs, q)"
        using True bs(1) by (simp add: put)
      then show ?thesis using True q reps_good_known [OF bs(2) _ assms(3,4)] Some by (simp add: view_ok_def)
    qed
  qed
qed

lemma ensure_loop_spec:
  assumes "netipx_ok lib"
    and "view_ok h4 p4 4 dn (vw_buckets4 v) (vw_precise4 v)" "view_ok h6 p6 6 dn (vw_buckets6 v) (vw_precise6 v)"
  shows "if list_all ip_valid ips then
      \<exists>v'. ensure_loop lib h4 h6 p4 p6 ips v = (True, v') \<and>
        view_ok h4 p4 4 (dn @ ips) (vw_buckets4 v') (vw_precise4 v') \<and>
        view_ok h6 p6 6 (dn @ ips) (vw_buckets6 v') (vw_precise6 v') \<and>
        (\<not> h4 \<longrightarrow> vw_buckets4 v' = vw_buckets4 v) \<and> (\<not> h6 \<longrightarrow> vw_buckets6 v' = vw_buckets6 v) \<and>
        (\<not> p4 \<longrightarrow> vw_precise4 v' = vw_precise4 v) \<and> (\<not> p6 \<longrightarrow> vw_precise6 v' = vw_precise6 v)
    else \<not> fst (ensure_loop lib h4 h6 p4 p6 ips v)"
  using assms(2,3)
proof (induction ips arbitrary: dn v)
  case (Cons ip ips)
  show ?case
  proof (cases "std_addr ip")
    case None
    then show ?thesis by (simp add: ip_valid_def prefixKey_std)
  next
    case (Some a)
    then have valid: "ip_valid ip" by (simp add: ip_valid_def)
    have fam: "addr_key a ! 0 = 4 \<or> addr_key a ! 0 = 6"
      using addr_key_family [OF std_addr_ok [OF Some]] by auto
    then show ?thesis
    proof
      assume f: "addr_key a ! 0 = 4"
      obtain b p where add: "view_add lib h4 p4 (addr_key a) ip (vw_buckets4 v) (vw_precise4 v) = Some (b, p)"
          "view_ok h4 p4 4 (dn @ [ip]) b p" "\<not> h4 \<longrightarrow> b = vw_buckets4 v" "\<not> p4 \<longrightarrow> p = vw_precise4 v"
        using view_add_spec [OF assms(1) Cons.prems(1) Some f] by blast
      have "view_ok h6 p6 6 (dn @ [ip]) (vw_buckets6 v) (vw_precise6 v)"
        using view_ok_other [OF Cons.prems(2) Some] f by simp
      moreover have "ensure_loop lib h4 h6 p4 p6 (ip # ips) v =
          ensure_loop lib h4 h6 p4 p6 ips (v\<lparr>vw_buckets4 := b, vw_precise4 := p\<rparr>)"
        using Some f add(1) by (simp add: prefixKey_std)
      ultimately show ?thesis
        using Cons.IH [of "dn @ [ip]" "v\<lparr>vw_buckets4 := b, vw_precise4 := p\<rparr>"] add valid
        by (simp split: if_splits)
    next
      assume f: "addr_key a ! 0 = 6"
      obtain b p where add: "view_add lib h6 p6 (addr_key a) ip (vw_buckets6 v) (vw_precise6 v) = Some (b, p)"
          "view_ok h6 p6 6 (dn @ [ip]) b p" "\<not> h6 \<longrightarrow> b = vw_buckets6 v" "\<not> p6 \<longrightarrow> p = vw_precise6 v"
        using view_add_spec [OF assms(1) Cons.prems(2) Some f] by blast
      have "view_ok h4 p4 4 (dn @ [ip]) (vw_buckets4 v) (vw_precise4 v)"
        using view_ok_other [OF Cons.prems(1) Some] f by simp
      moreover have "ensure_loop lib h4 h6 p4 p6 (ip # ips) v =
          ensure_loop lib h4 h6 p4 p6 ips (v\<lparr>vw_buckets6 := b, vw_precise6 := p\<rparr>)"
        using Some f add(1) by (simp add: prefixKey_std)
      ultimately show ?thesis
        using Cons.IH [of "dn @ [ip]" "v\<lparr>vw_buckets6 := b, vw_precise6 := p\<rparr>"] add valid
        by (simp split: if_splits)
    qed
  qed
qed simp

text \<open>Between the matchers every view is absent or complete, and there are none before the first.\<close>

definition full_view :: "byte \<Rightarrow> netIP list \<Rightarrow> (byte list \<times> netip_Addr) list option \<Rightarrow> netip_Addr list option \<Rightarrow> bool" where
  "full_view f ips b p \<longleftrightarrow> (\<forall>bs. b = Some bs \<longrightarrow> reps_good f ips bs) \<and> (\<forall>ps. p = Some ps \<longrightarrow> set ps = fam_addrs f ips)"

definition views_good :: "netIP list \<Rightarrow> ipViews \<Rightarrow> bool" where
  "views_good ips v \<longleftrightarrow> full_view 4 ips (vw_buckets4 v) (vw_precise4 v) \<and> full_view 6 ips (vw_buckets6 v) (vw_precise6 v) \<and>
     (v = no_views \<or> list_all ip_valid ips)"

definition has_view :: "bool \<Rightarrow> 'a option \<Rightarrow> 'b option \<Rightarrow> bool" where
  "has_view heuristic b p \<longleftrightarrow> (if heuristic then b \<noteq> None else p \<noteq> None)"

lemma view_ok_make: "view_ok nh np f [] (or_make nh b) (or_make np p)"
  by (simp add: view_ok_def or_make_def reps_good_def fam_addrs_def)

lemma full_view_step:
  assumes "view_ok nh np f ips b' p'" "full_view f ips b p" "\<not> nh \<longrightarrow> b' = b" "\<not> np \<longrightarrow> p' = p"
  shows "full_view f ips b' p'"
  using assms by (cases nh; cases np) (auto simp: view_ok_def full_view_def)

lemma view_ok_has:
  assumes "view_ok (h \<and> b = None) (\<not> h \<and> p = None) f ips b' p'"
    "\<not> (h \<and> b = None) \<longrightarrow> b' = b" "\<not> (\<not> h \<and> p = None) \<longrightarrow> p' = p"
  shows "has_view h b' p'"
  using assms by (cases h) (auto simp: view_ok_def has_view_def)

lemma ensure_spec:
  assumes "netipx_ok lib" "views_good ips v"
  shows "\<exists>v'. ipViews_ensureForMatcher lib m ips v = (list_all ip_valid ips, v') \<and>
    (list_all ip_valid ips \<longrightarrow> views_good ips v' \<and>
       has_view (heur4 m) (vw_buckets4 v') (vw_precise4 v') \<and> has_view (heur6 m) (vw_buckets6 v') (vw_precise6 v'))"
proof -
  define h4 h6 p4 p6 where needs: "h4 = (heur4 m \<and> vw_buckets4 v = None)" "h6 = (heur6 m \<and> vw_buckets6 v = None)"
    "p4 = (\<not> heur4 m \<and> vw_precise4 v = None)" "p6 = (\<not> heur6 m \<and> vw_precise6 v = None)"
  let ?v = "\<lparr>vw_buckets4 = or_make h4 (vw_buckets4 v), vw_buckets6 = or_make h6 (vw_buckets6 v),
            vw_precise4 = or_make p4 (vw_precise4 v), vw_precise6 = or_make p6 (vw_precise6 v)\<rparr>"
  show ?thesis
  proof (cases "\<not> h4 \<and> \<not> h6 \<and> \<not> p4 \<and> \<not> p6")
    case True
    then have "ipViews_ensureForMatcher lib m ips v = (True, v)"
      unfolding ipViews_ensureForMatcher_def needs Let_def by simp
    moreover have "v \<noteq> no_views" using True by (auto simp: needs no_views_def)
    then have "list_all ip_valid ips" using assms(2) by (simp add: views_good_def)
    moreover have "has_view (heur4 m) (vw_buckets4 v) (vw_precise4 v)" "has_view (heur6 m) (vw_buckets6 v) (vw_precise6 v)"
      using True by (auto simp: needs has_view_def)
    ultimately show ?thesis using assms(2) by auto
  next
    case False
    then have e: "ipViews_ensureForMatcher lib m ips v = ensure_loop lib h4 h6 p4 p6 ips ?v"
      unfolding ipViews_ensureForMatcher_def needs Let_def by auto
    have ok: "view_ok h4 p4 4 [] (vw_buckets4 ?v) (vw_precise4 ?v)" "view_ok h6 p6 6 [] (vw_buckets6 ?v) (vw_precise6 ?v)"
      by (simp_all add: view_ok_make)
    note spec = ensure_loop_spec [OF assms(1) ok, of ips]
    show ?thesis
    proof (cases "list_all ip_valid ips")
      case True
      then obtain v' where v': "ensure_loop lib h4 h6 p4 p6 ips ?v = (True, v')"
          "view_ok h4 p4 4 ips (vw_buckets4 v') (vw_precise4 v')" "view_ok h6 p6 6 ips (vw_buckets6 v') (vw_precise6 v')"
          "\<not> h4 \<longrightarrow> vw_buckets4 v' = vw_buckets4 v" "\<not> h6 \<longrightarrow> vw_buckets6 v' = vw_buckets6 v"
          "\<not> p4 \<longrightarrow> vw_precise4 v' = vw_precise4 v" "\<not> p6 \<longrightarrow> vw_precise6 v' = vw_precise6 v"
        using spec by (auto simp: or_make_def)
      have "full_view 4 ips (vw_buckets4 v') (vw_precise4 v')" "full_view 6 ips (vw_buckets6 v') (vw_precise6 v')"
        using full_view_step [OF v'(2) _ v'(4) v'(6)] full_view_step [OF v'(3) _ v'(5) v'(7)] assms(2)
        by (auto simp: views_good_def)
      moreover have "has_view (heur4 m) (vw_buckets4 v') (vw_precise4 v')" "has_view (heur6 m) (vw_buckets6 v') (vw_precise6 v')"
        using v'(2-7) unfolding needs by (blast intro: view_ok_has)+
      ultimately show ?thesis using True e v'(1) by (auto simp: views_good_def)
    next
      case False
      then have "\<not> fst (ensure_loop lib h4 h6 p4 p6 ips ?v)" using spec by simp
      then show ?thesis using False e by (cases "ensure_loop lib h4 h6 p4 p6 ips ?v") auto
    qed
  qed
qed

lemma view_addrs_all:
  assumes "hm_ok lib m" "full_view f ips b p" "has_view h b p" "h \<Longrightarrow> \<forall>a \<in> fam_addrs f ips. heur m (addr_key a)"
  shows "list_all (matchAddr lib m) (view_addrs h b p) \<longleftrightarrow> (\<forall>a \<in> fam_addrs f ips. matchAddr lib m a)"
proof (cases h)
  case False
  then obtain ps where "p = Some ps" using assms(3) by (auto simp: has_view_def)
  then show ?thesis using assms(2) False by (auto simp: view_addrs_def full_view_def list_all_iff)
next
  case True
  then obtain bs where bs: "b = Some bs" "reps_good f ips bs"
    using assms(2,3) by (auto simp: has_view_def full_view_def)
  have "matchAddr lib m a" if all: "\<forall>(k, r) \<in> set bs. matchAddr lib m r" and a: "a \<in> fam_addrs f ips" for a
  proof -
    obtain r where r: "(addr_key a, r) \<in> set bs" using bs(2) a by (auto simp: reps_good_def)
    then have "addr_key r = addr_key a" "r \<in> fam_addrs f ips" using bs(2) by (auto simp: reps_good_def)
    then have "matchAddr lib m a = matchAddr lib m r"
      using a assms(4) True by (intro same_key_match [OF assms(1)]) (auto simp: fam_addrs_def intro: std_addr_ok)
    then show ?thesis using all r by auto
  qed
  moreover have "matchAddr lib m r" if "\<forall>a \<in> fam_addrs f ips. matchAddr lib m a" "(k, r) \<in> set bs" for k r
    using bs(2) that by (auto simp: reps_good_def)
  ultimately have "(\<forall>(k, r) \<in> set bs. matchAddr lib m r) \<longleftrightarrow> (\<forall>a \<in> fam_addrs f ips. matchAddr lib m a)"
    by (metis (no_types, lifting) case_prodI2)
  then show ?thesis using True bs by (simp add: view_addrs_def list_all_iff case_prod_beta)
qed

lemma all_test_families:
  assumes "list_all ip_valid ips"
  shows "(\<forall>ip \<in> set ips. ip_test lib m ip) \<longleftrightarrow>
    (\<forall>a \<in> fam_addrs 4 ips. matchAddr lib m a) \<and> (\<forall>a \<in> fam_addrs 6 ips. matchAddr lib m a)"
proof -
  have "(\<forall>ip \<in> set ips. ip_test lib m ip) \<longleftrightarrow> (\<forall>ip \<in> set ips. \<forall>a. std_addr ip = Some a \<longrightarrow> matchAddr lib m a)"
    using assms by (auto simp: ip_test_def list_all_iff ip_valid_def split: option.splits)
  moreover have "a \<in> fam_addrs 4 ips \<or> a \<in> fam_addrs 6 ips" if "ip \<in> set ips" "std_addr ip = Some a" for ip a
    using addr_key_family [OF std_addr_ok [OF that(2)]] that by (auto simp: fam_addrs_def)
  moreover have "\<exists>ip \<in> set ips. std_addr ip = Some a" if "a \<in> fam_addrs f ips" for a f
    using that by (auto simp: fam_addrs_def)
  ultimately show ?thesis by meson
qed

lemma multi_matches_loop_iff:
  assumes "netipx_ok lib" "list_all (hm_ok lib) ms" "views_good ips v" "ips \<noteq> []"
  shows "multi_matches_loop lib ips ms v \<longleftrightarrow> (\<exists>m \<in> set ms. \<forall>ip \<in> set ips. ip_test lib m ip)"
  using assms(2,3)
proof (induction ms arbitrary: v)
  case (Cons m ms)
  obtain v' where v': "ipViews_ensureForMatcher lib m ips v = (list_all ip_valid ips, v')"
      "list_all ip_valid ips \<longrightarrow> views_good ips v' \<and>
       has_view (heur4 m) (vw_buckets4 v') (vw_precise4 v') \<and> has_view (heur6 m) (vw_buckets6 v') (vw_precise6 v')"
    using ensure_spec [OF assms(1) Cons.prems(2)] by blast
  show ?case
  proof (cases "list_all ip_valid ips")
    case False
    then have "\<not> (\<forall>ip \<in> set ips. ip_test lib m' ip)" for m'
      using test_valid by (auto simp: list_all_iff)
    then show ?thesis using False v'(1) by simp
  next
    case True
    then have g: "views_good ips v'" "has_view (heur4 m) (vw_buckets4 v') (vw_precise4 v')"
        "has_view (heur6 m) (vw_buckets6 v') (vw_precise6 v')"
      using v'(2) by auto
    have m: "hm_ok lib m" using Cons.prems(1) by simp
    have "list_all (matchAddr lib m) (view_addrs (heur4 m) (vw_buckets4 v') (vw_precise4 v')) \<longleftrightarrow>
        (\<forall>a \<in> fam_addrs 4 ips. matchAddr lib m a)"
      using g by (intro view_addrs_all m) (auto simp: views_good_def fam_addrs_def heur_def)
    moreover have "list_all (matchAddr lib m) (view_addrs (heur6 m) (vw_buckets6 v') (vw_precise6 v')) \<longleftrightarrow>
        (\<forall>a \<in> fam_addrs 6 ips. matchAddr lib m a)"
      using g by (intro view_addrs_all m) (auto simp: views_good_def fam_addrs_def heur_def)
    ultimately show ?thesis
      using Cons.IH [OF _ g(1)] Cons.prems(1) v'(1) True all_test_families [OF True, of lib m] by auto
  qed
qed simp

lemma HeuristicMulti_Matches_iff:
  assumes "netipx_ok lib" "list_all (hm_ok lib) (mm_matchers mm)"
  shows "HeuristicMulti_Matches lib mm ips \<longleftrightarrow>
    ips \<noteq> [] \<and> (\<exists>m \<in> set (mm_matchers mm). \<forall>ip \<in> set ips. Heuristic_Match lib m ip)"
proof -
  have "views_good ips no_views" by (simp add: views_good_def no_views_def full_view_def)
  note loop = multi_matches_loop_iff [OF assms this]
  consider "ips = []" | ip where "ips = [ip]" | "length ips \<noteq> 0" "length ips \<noteq> 1"
    by (cases ips rule: list.exhaust; cases "tl ips") auto
  then show ?thesis
    by cases (auto simp: HeuristicMulti_Matches_def HeuristicMulti_Match_test [OF assms(1)]
      Heuristic_Match_test [OF assms(1)] loop)
qed

end
