(* ===== verification/Ip_Multi_Filter.thy ===== *)
theory Ip_Multi_Filter
  imports Ip_Filter
begin

text \<open>
  \<open>FilterIPs\<close> over several sets. The views it works on are described by the buckets and the
  addresses of the input; the multiset of the matched addresses follows. When the matchers agree on
  the views they use the result is a partition; when they do not, an address is delivered once for
  each view, and \<^verbatim>\<open>make\<close> is called with a negative capacity.
\<close>

section \<open>The fresh views\<close>

definition in_family :: "byte \<Rightarrow> netIP \<Rightarrow> bool" where
  "in_family f ip \<longleftrightarrow> ip_valid ip \<and> ip_key ip ! 0 = f"

definition bucket_put :: "netIP \<Rightarrow> (byte list \<times> ipBucket) list \<Rightarrow> (byte list \<times> ipBucket) list" where
  "bucket_put ip bs =
     bucket_add (ip_key ip) ip
       (if map_of bs (ip_key ip) = None then bs @ [(ip_key ip, \<lparr>bk_rep = the (std_addr ip), bk_ips = []\<rparr>)] else bs)"

definition precise_put :: "netIP \<Rightarrow> (netip_Addr \<times> netIP) list \<Rightarrow> (netip_Addr \<times> netIP) list" where
  "precise_put ip ps = AList.update (the (std_addr ip)) ip ps"

definition fresh_buckets :: "byte \<Rightarrow> netIP list \<Rightarrow> (byte list \<times> ipBucket) list" where
  "fresh_buckets f ips = fold bucket_put (filter (in_family f) ips) []"

definition fresh_precise :: "byte \<Rightarrow> netIP list \<Rightarrow> (netip_Addr \<times> netIP) list" where
  "fresh_precise f ips = fold precise_put (filter (in_family f) ips) []"

definition lift_buckets :: "(byte list \<times> ipBucket) list \<Rightarrow> (byte list \<times> ipBucket option) list" where
  "lift_buckets bs = map (\<lambda>(k, b). (k, Some b)) bs"

lemma map_of_lift: "map_of (lift_buckets bs) k = map_option Some (map_of bs k)"
  by (induction bs) (auto simp: lift_buckets_def)

lemma bucket_append_lift: "bucket_append k ip (lift_buckets bs) = lift_buckets (bucket_add k ip bs)"
  by (simp add: bucket_append_def lift_buckets_def bucket_add_def comp_def case_prod_beta if_distrib cong: if_cong)

lemma bucket_view_add_eq:
  assumes "netipx_ok lib" "ip_valid ip" "nh \<longrightarrow> b = Some (lift_buckets bs)" "np \<longrightarrow> p = Some ps"
  shows "bucket_view_add lib nh np (ip_key ip) ip b p =
    (if nh then Some (lift_buckets (bucket_put ip bs)) else b, if np then Some (precise_put ip ps) else p)"
proof -
  obtain a where a: "std_addr ip = Some a" using assms(2) by (auto simp: ip_valid_def)
  have std: "FromStdIP lib ip = Some a" using assms(1) a by (simp add: FromStdIP_std)
  have v: "IsValid a" "\<not> IsValid ZeroAddr" using std_addr_valid [OF a] by (auto simp: IsValid_def)
  have l: "lift_buckets bs @ [(k, Some b)] = lift_buckets (bs @ [(k, b)])" for k b
    by (simp add: lift_buckets_def)
  show ?thesis
    using assms(3,4) a v std
    by (cases nh; cases np) (auto simp: bucket_view_add_def bucket_put_def precise_put_def map_of_lift
      bucket_append_lift l)
qed

lemma bucket_ensure_loop_eq:
  assumes "netipx_ok lib"
    and "h4 \<longrightarrow> b4 = Some (lift_buckets x4)" "h6 \<longrightarrow> b6 = Some (lift_buckets x6)"
    and "p4 \<longrightarrow> q4 = Some y4" "p6 \<longrightarrow> q6 = Some y6"
  shows "bucket_ensure_loop lib h4 h6 p4 p6 ips
      \<lparr>bv_buckets4 = b4, bv_buckets6 = b6, bv_precise4 = q4, bv_precise6 = q6\<rparr> =
    \<lparr>bv_buckets4 = if h4 then Some (lift_buckets (fold bucket_put (filter (in_family 4) ips) x4)) else b4,
     bv_buckets6 = if h6 then Some (lift_buckets (fold bucket_put (filter (in_family 6) ips) x6)) else b6,
     bv_precise4 = if p4 then Some (fold precise_put (filter (in_family 4) ips) y4) else q4,
     bv_precise6 = if p6 then Some (fold precise_put (filter (in_family 6) ips) y6) else q6\<rparr>"
  using assms(2-)
proof (induction ips arbitrary: b4 b6 q4 q6 x4 x6 y4 y6)
  case Nil
  then show ?case by auto
next
  case (Cons ip ips)
  consider "\<not> ip_valid ip" | "in_family 4 ip" | "in_family 6 ip"
    using ip_key_family by (auto simp: in_family_def)
  then show ?case
  proof cases
    case 1
    then have "\<not> in_family 4 ip" "\<not> in_family 6 ip" by (simp_all add: in_family_def)
    then show ?thesis using 1 Cons.IH [OF Cons.prems] by (simp add: prefixKey_ip_key)
  next
    case 2
    then have f: "ip_valid ip" "ip_key ip ! 0 = 4" "\<not> in_family 6 ip" by (auto simp: in_family_def)
    let ?b = "if h4 then Some (lift_buckets (bucket_put ip x4)) else b4"
    let ?q = "if p4 then Some (precise_put ip y4) else q4"
    have "bucket_ensure_loop lib h4 h6 p4 p6 (ip # ips)
        \<lparr>bv_buckets4 = b4, bv_buckets6 = b6, bv_precise4 = q4, bv_precise6 = q6\<rparr> =
      bucket_ensure_loop lib h4 h6 p4 p6 ips
        \<lparr>bv_buckets4 = ?b, bv_buckets6 = b6, bv_precise4 = ?q, bv_precise6 = q6\<rparr>"
      using f bucket_view_add_eq [OF assms(1) f(1) Cons.prems(1,3)] by (simp add: prefixKey_ip_key)
    then show ?thesis using Cons.IH [of ?b "bucket_put ip x4" b6 x6 ?q "precise_put ip y4" q6 y6] Cons.prems 2 f(3)
      by simp
  next
    case 3
    then have f: "ip_valid ip" "ip_key ip ! 0 = 6" "\<not> in_family 4 ip" by (auto simp: in_family_def)
    let ?b = "if h6 then Some (lift_buckets (bucket_put ip x6)) else b6"
    let ?q = "if p6 then Some (precise_put ip y6) else q6"
    have "bucket_ensure_loop lib h4 h6 p4 p6 (ip # ips)
        \<lparr>bv_buckets4 = b4, bv_buckets6 = b6, bv_precise4 = q4, bv_precise6 = q6\<rparr> =
      bucket_ensure_loop lib h4 h6 p4 p6 ips
        \<lparr>bv_buckets4 = b4, bv_buckets6 = ?b, bv_precise4 = q4, bv_precise6 = ?q\<rparr>"
      using f bucket_view_add_eq [OF assms(1) f(1) Cons.prems(2,4)] by (simp add: prefixKey_ip_key)
    then show ?thesis using Cons.IH [of b4 x4 ?b "bucket_put ip x6" q4 y4 ?q "precise_put ip y6"] Cons.prems 3 f(3)
      by simp
  qed
qed

lemma ensureForMatcher_eq:
  assumes "netipx_ok lib"
  shows "ipBucketViews_ensureForMatcher lib m ips v =
    \<lparr>bv_buckets4 = if heur4 m \<and> bv_buckets4 v = None then Some (lift_buckets (fresh_buckets 4 ips)) else bv_buckets4 v,
     bv_buckets6 = if heur6 m \<and> bv_buckets6 v = None then Some (lift_buckets (fresh_buckets 6 ips)) else bv_buckets6 v,
     bv_precise4 = if \<not> heur4 m \<and> bv_precise4 v = None then Some (fresh_precise 4 ips) else bv_precise4 v,
     bv_precise6 = if \<not> heur6 m \<and> bv_precise6 v = None then Some (fresh_precise 6 ips) else bv_precise6 v\<rparr>"
proof -
  have e: "Some [] = Some (lift_buckets [])" by (simp add: lift_buckets_def)
  define h4 h6 p4 p6 where needs: "h4 = (heur4 m \<and> bv_buckets4 v = None)" "h6 = (heur6 m \<and> bv_buckets6 v = None)"
    "p4 = (\<not> heur4 m \<and> bv_precise4 v = None)" "p6 = (\<not> heur6 m \<and> bv_precise6 v = None)"
  show ?thesis
  proof (cases "\<not> h4 \<and> \<not> h6 \<and> \<not> p4 \<and> \<not> p6")
    case True
    then show ?thesis unfolding ipBucketViews_ensureForMatcher_def needs Let_def by simp
  next
    case False
    then have "ipBucketViews_ensureForMatcher lib m ips v = bucket_ensure_loop lib h4 h6 p4 p6 ips
      \<lparr>bv_buckets4 = or_make h4 (bv_buckets4 v), bv_buckets6 = or_make h6 (bv_buckets6 v),
       bv_precise4 = or_make p4 (bv_precise4 v), bv_precise6 = or_make p6 (bv_precise6 v)\<rparr>"
      unfolding ipBucketViews_ensureForMatcher_def needs Let_def by auto
    also have "\<dots> =
      \<lparr>bv_buckets4 = if h4 then Some (lift_buckets (fresh_buckets 4 ips)) else or_make h4 (bv_buckets4 v),
       bv_buckets6 = if h6 then Some (lift_buckets (fresh_buckets 6 ips)) else or_make h6 (bv_buckets6 v),
       bv_precise4 = if p4 then Some (fresh_precise 4 ips) else or_make p4 (bv_precise4 v),
       bv_precise6 = if p6 then Some (fresh_precise 6 ips) else or_make p6 (bv_precise6 v)\<rparr>"
      unfolding fresh_buckets_def fresh_precise_def
      by (rule bucket_ensure_loop_eq [OF assms]) (auto simp: or_make_def e)
    finally show ?thesis by (simp add: or_make_def needs [symmetric])
  qed
qed

section \<open>Visiting a map\<close>

fun visit ::
  "('k \<Rightarrow> 'v \<Rightarrow> bool) \<Rightarrow> 'v \<Rightarrow> ('v \<Rightarrow> 'o list) \<Rightarrow> 'k list \<Rightarrow> ('k \<times> 'v) list \<Rightarrow> 'o list \<Rightarrow> ('k \<times> 'v) list \<times> 'o list" where
  "visit hit z out [] xs acc = (xs, acc)"
| "visit hit z out (k # ks) xs acc =
     (case map_of xs k of
        None \<Rightarrow> visit hit z out ks xs acc
      | Some v \<Rightarrow>
          if hit k v then visit hit z out ks (AList.update k z xs) (acc @ out v)
          else visit hit z out ks xs acc)"

definition bucket_hit :: "'s netipx \<Rightarrow> 's HeuristicIPMatcher \<Rightarrow> ipBucket option \<Rightarrow> bool" where
  "bucket_hit lib m b = (case b of None \<Rightarrow> False | Some b \<Rightarrow> matchAddr lib m (bk_rep b))"

definition bucket_out :: "ipBucket option \<Rightarrow> netIP list" where
  "bucket_out b = (case b of None \<Rightarrow> [] | Some b \<Rightarrow> bk_ips b)"

lemma visit_buckets_visit:
  "visit_buckets lib m ks bs acc = visit (\<lambda>k. bucket_hit lib m) None bucket_out ks bs acc"
  by (induction ks arbitrary: bs acc) (auto simp: bucket_hit_def bucket_out_def split: option.splits)

lemma visit_precise_visit:
  "visit_precise lib m ks ps acc = visit (\<lambda>a ip. ip \<noteq> [] \<and> matchAddr lib m a) [] (\<lambda>ip. [ip]) ks ps acc"
  by (induction ks arbitrary: ps acc) (auto split: option.splits)

lemma update_present:
  "distinct (map fst xs) \<Longrightarrow> map_of xs k = Some v \<Longrightarrow> AList.update k z xs = map (\<lambda>(k', v'). (k', if k' = k then z else v')) xs"
  by (induction xs) (auto simp: rev_image_eqI split: if_splits intro!: map_idI [symmetric])

lemma visit_eq:
  assumes "distinct ks" "distinct (map fst xs)"
  shows "visit hit z out ks xs acc =
    (map (\<lambda>(k, v). (k, if k \<in> set ks \<and> hit k v then z else v)) xs,
     acc @ concat (map (\<lambda>k. case map_of xs k of None \<Rightarrow> [] | Some v \<Rightarrow> if hit k v then out v else []) ks))"
  using assms
proof (induction ks arbitrary: xs acc)
  case (Cons k ks)
  show ?case
  proof (cases "map_of xs k")
    case None
    then have "k \<notin> fst ` set xs" by (simp add: map_of_eq_None_iff)
    then show ?thesis using Cons None by (force simp: intro!: map_cong)
  next
    case (Some v)
    have only: "v' = v" if "(k, v') \<in> set xs" for v'
      using that Some Cons.prems(2) by (simp add: map_of_eq_Some_iff)
    show ?thesis
    proof (cases "hit k v")
      case True
      let ?xs = "AList.update k z xs"
      have up: "?xs = map (\<lambda>(k', v'). (k', if k' = k then z else v')) xs"
        using Cons.prems(2) Some by (rule update_present)
      have "distinct (map fst ?xs)" using Cons.prems(2) by (rule distinct_update)
      then have "visit hit z out (k # ks) xs acc =
          (map (\<lambda>(k, v). (k, if k \<in> set ks \<and> hit k v then z else v)) ?xs,
           acc @ out v @ concat (map (\<lambda>k. case map_of ?xs k of None \<Rightarrow> [] | Some v \<Rightarrow> if hit k v then out v else []) ks))"
        using Cons.IH [of ?xs "acc @ out v"] Cons.prems(1) Some True by simp
      moreover have "map (\<lambda>(k, v). (k, if k \<in> set ks \<and> hit k v then z else v)) ?xs =
          map (\<lambda>(k', v). (k', if k' \<in> set (k # ks) \<and> hit k' v then z else v)) xs"
        using Cons.prems(1) only True by (auto simp: up)
      moreover have "map_of ?xs k' = map_of xs k'" if "k' \<in> set ks" for k'
        using that Cons.prems(1) by (auto simp: update_conv)
      then have "map (\<lambda>k. case map_of ?xs k of None \<Rightarrow> [] | Some v \<Rightarrow> if hit k v then out v else []) ks =
          map (\<lambda>k. case map_of xs k of None \<Rightarrow> [] | Some v \<Rightarrow> if hit k v then out v else []) ks"
        by (intro map_cong) auto
      ultimately show ?thesis using Some True by simp
    next
      case False
      then have "map (\<lambda>(k, v). (k, if k \<in> set ks \<and> hit k v then z else v)) xs =
          map (\<lambda>(k', v). (k', if k' \<in> set (k # ks) \<and> hit k' v then z else v)) xs"
        using only by auto
      then show ?thesis using Cons Some False by simp
    qed
  qed
qed simp

lemma visit_all:
  assumes "distinct (map fst xs)" "mset idxs = mset [0 ..< length xs]"
  shows "\<exists>acc'. visit hit z out (map_range idxs (map fst xs)) xs acc =
      (map (\<lambda>(k, v). (k, if hit k v then z else v)) xs, acc') \<and>
    mset acc' = mset acc + mset (concat (map (\<lambda>(k, v). if hit k v then out v else []) xs))"
proof -
  let ?ks = "map_range idxs (map fst xs)"
  let ?g = "\<lambda>k. case map_of xs k of None \<Rightarrow> [] | Some v \<Rightarrow> if hit k v then out v else []"
  have ks: "mset ?ks = mset (map fst xs)" using assms(2) by (intro mset_map_range) simp
  then have d: "distinct ?ks" and s: "set ?ks = fst ` set xs"
    using assms(1) mset_eq_imp_distinct_iff [OF ks] mset_eq_setD [OF ks] by simp_all
  have g: "map ?g (map fst xs) = map (\<lambda>(k, v). if hit k v then out v else []) xs"
    using assms(1) by (auto simp: map_of_eq_Some_iff)
  have "mset (concat (map ?g ?ks)) = mset (concat (map ?g (map fst xs)))"
    by (simp only: mset_concat_map ks)
  moreover have "map (\<lambda>(k, v). (k, if k \<in> set ?ks \<and> hit k v then z else v)) xs =
      map (\<lambda>(k, v). (k, if hit k v then z else v)) xs"
    unfolding s by (auto simp: rev_image_eqI)
  ultimately show ?thesis unfolding visit_eq [OF d assms(1)] g by simp
qed

section \<open>What the fresh views hold\<close>

lemma fresh_buckets_snoc:
  "fresh_buckets f (ips @ [ip]) = (if in_family f ip then bucket_put ip (fresh_buckets f ips) else fresh_buckets f ips)"
  by (simp add: fresh_buckets_def)

lemma fresh_precise_snoc:
  "fresh_precise f (ips @ [ip]) = (if in_family f ip then precise_put ip (fresh_precise f ips) else fresh_precise f ips)"
  by (simp add: fresh_precise_def)

lemma bucket_put_good:
  assumes "buckets_good bs" "ip_valid ip"
  shows "buckets_good (bucket_put ip bs) \<and> mset (bucket_ips (bucket_put ip bs)) = add_mset ip (mset (bucket_ips bs)) \<and>
    fst ` set (bucket_put ip bs) = insert (ip_key ip) (fst ` set bs)"
proof -
  let ?bs = "if map_of bs (ip_key ip) = None then bs @ [(ip_key ip, \<lparr>bk_rep = the (std_addr ip), bk_ips = []\<rparr>)] else bs"
  obtain a where a: "std_addr ip = Some a" "ip_key ip = addr_key a"
    using assms(2) by (auto simp: ip_valid_def ip_key_def)
  have g: "buckets_good ?bs"
    using assms(1) a std_addr_ok [OF a(1)] by (auto simp: buckets_good_def bucket_good_def map_of_eq_None_iff)
  have k: "ip_key ip \<in> fst ` set ?bs" "fst ` set ?bs = insert (ip_key ip) (fst ` set bs)"
    by (auto simp: map_of_eq_None_iff)
  have i: "bucket_ips ?bs = bucket_ips bs" by (simp add: bucket_ips_def)
  have "buckets_good (bucket_add (ip_key ip) ip ?bs)"
    using g assms(2) by (rule buckets_good_add) simp
  moreover have "mset (bucket_ips (bucket_add (ip_key ip) ip ?bs)) = add_mset ip (mset (bucket_ips ?bs))"
    using g k(1) by (intro mset_bucket_add) (auto simp: buckets_good_def)
  moreover have "fst ` set (bucket_add (ip_key ip) ip ?bs) = fst ` set ?bs"
    by (metis map_fst_bucket_add set_map)
  ultimately show ?thesis unfolding bucket_put_def k(2) i by blast
qed

lemma fresh_buckets_spec:
  "buckets_good (fresh_buckets f ips) \<and> mset (bucket_ips (fresh_buckets f ips)) = mset (filter (in_family f) ips) \<and>
   (\<forall>k \<in> fst ` set (fresh_buckets f ips). k ! 0 = f)"
proof (induction ips rule: rev_induct)
  case Nil
  then show ?case by (simp add: fresh_buckets_def buckets_good_def bucket_ips_def)
next
  case (snoc ip ips)
  show ?case
  proof (cases "in_family f ip")
    case True
    then have "ip_valid ip" "ip_key ip ! 0 = f" by (simp_all add: in_family_def)
    then show ?thesis using bucket_put_good [of "fresh_buckets f ips" ip] snoc True
      by (simp add: fresh_buckets_snoc)
  next
    case False
    then show ?thesis using snoc by (simp add: fresh_buckets_snoc)
  qed
qed

definition fam_ip :: "byte \<Rightarrow> netIP list \<Rightarrow> netip_Addr \<Rightarrow> netIP \<Rightarrow> bool" where
  "fam_ip f ips a ip \<longleftrightarrow> ip \<in> set ips \<and> in_family f ip \<and> std_addr ip = Some a"

lemma set_update_subset: "set (AList.update k v xs) \<subseteq> insert (k, v) (set xs)"
  by (induction xs) auto

lemma length_update_le: "length (AList.update k v xs) \<le> Suc (length xs)"
  by (induction xs) auto

lemma fresh_precise_spec:
  "distinct (map fst (fresh_precise f ips)) \<and> (\<forall>(a, ip) \<in> set (fresh_precise f ips). fam_ip f ips a ip) \<and>
   fst ` set (fresh_precise f ips) = {a. \<exists>ip. fam_ip f ips a ip} \<and>
   length (fresh_precise f ips) \<le> length (filter (in_family f) ips)"
proof (induction ips rule: rev_induct)
  case Nil
  then show ?case by (simp add: fresh_precise_def fam_ip_def)
next
  case (snoc ip ips)
  show ?case
  proof (cases "in_family f ip")
    case False
    then have "fam_ip f (ips @ [ip]) = fam_ip f ips" by (auto simp: fam_ip_def fun_eq_iff)
    then show ?thesis using snoc False by (simp add: fresh_precise_snoc)
  next
    case True
    then obtain a where a: "std_addr ip = Some a" by (auto simp: in_family_def ip_valid_def)
    let ?ps = "fresh_precise f ips"
    have eq: "fresh_precise f (ips @ [ip]) = AList.update a ip ?ps"
      using True a by (simp add: fresh_precise_snoc precise_put_def)
    have "\<forall>(b, i) \<in> set (AList.update a ip ?ps). fam_ip f (ips @ [ip]) b i"
      using set_update_subset [of a ip ?ps] snoc True a by (fastforce simp: fam_ip_def)
    moreover have "{b. \<exists>i. fam_ip f (ips @ [ip]) b i} = insert a {b. \<exists>i. fam_ip f ips b i}"
      using True a by (auto simp: fam_ip_def)
    ultimately show ?thesis using snoc True distinct_update [of ?ps a ip] length_update_le [of a ip ?ps]
      by (simp add: eq dom_update)
  qed
qed

section \<open>One matcher on one family\<close>

definition left_b :: "'s netipx \<Rightarrow> ('s HeuristicIPMatcher \<Rightarrow> bool) \<Rightarrow> 's HeuristicIPMatcher list \<Rightarrow> byte \<Rightarrow> netIP list \<Rightarrow>
    (byte list \<times> ipBucket option) list option" where
  "left_b lib h ds f ips =
     (if \<exists>m \<in> set ds. h m
      then Some (map (\<lambda>(k, b). (k, if \<exists>m \<in> set ds. h m \<and> matchAddr lib m (bk_rep b) then None else Some b)) (fresh_buckets f ips))
      else None)"

definition left_p :: "'s netipx \<Rightarrow> ('s HeuristicIPMatcher \<Rightarrow> bool) \<Rightarrow> 's HeuristicIPMatcher list \<Rightarrow> byte \<Rightarrow> netIP list \<Rightarrow>
    (netip_Addr \<times> netIP) list option" where
  "left_p lib h ds f ips =
     (if \<exists>m \<in> set ds. \<not> h m
      then Some (map (\<lambda>(a, ip). (a, if \<exists>m \<in> set ds. \<not> h m \<and> matchAddr lib m a then [] else ip)) (fresh_precise f ips))
      else None)"

definition got_b :: "'s netipx \<Rightarrow> ('s HeuristicIPMatcher \<Rightarrow> bool) \<Rightarrow> 's HeuristicIPMatcher list \<Rightarrow> byte \<Rightarrow> netIP list \<Rightarrow>
    netIP multiset" where
  "got_b lib h ds f ips =
     mset (concat (map (\<lambda>(k, b). if \<exists>m \<in> set ds. h m \<and> matchAddr lib m (bk_rep b) then bk_ips b else []) (fresh_buckets f ips)))"

definition got_p :: "'s netipx \<Rightarrow> ('s HeuristicIPMatcher \<Rightarrow> bool) \<Rightarrow> 's HeuristicIPMatcher list \<Rightarrow> byte \<Rightarrow> netIP list \<Rightarrow>
    netIP multiset" where
  "got_p lib h ds f ips =
     mset (concat (map (\<lambda>(a, ip). if \<exists>m \<in> set ds. \<not> h m \<and> matchAddr lib m a then [ip] else []) (fresh_precise f ips)))"

lemma mset_concat_if_or:
  "mset (concat (map (\<lambda>x. if P x \<or> Q x then g x else []) xs)) =
   mset (concat (map (\<lambda>x. if P x then g x else []) xs)) + mset (concat (map (\<lambda>x. if \<not> P x \<and> Q x then g x else []) xs))"
  by (induction xs) auto

lemma visit_family_bucket:
  assumes "order_ok ord" "h m"
  shows "\<exists>acc'. visit_family lib ord m True
      (if left_b lib h ds f ips = None then Some (lift_buckets (fresh_buckets f ips)) else left_b lib h ds f ips) p acc =
      (left_b lib h (ds @ [m]) f ips, p, acc') \<and>
    mset acc' + got_b lib h ds f ips = mset acc + got_b lib h (ds @ [m]) f ips"
proof -
  let ?A = "\<lambda>b. \<exists>m \<in> set ds. h m \<and> matchAddr lib m (bk_rep b)"
  let ?fb = "fresh_buckets f ips"
  let ?bs = "map (\<lambda>(k, b). (k, if ?A b then None else Some b)) ?fb"
  have bs: "(if left_b lib h ds f ips = None then Some (lift_buckets ?fb) else left_b lib h ds f ips) = Some ?bs"
    by (auto simp: left_b_def lift_buckets_def)
  have d: "distinct (map fst ?bs)"
    using fresh_buckets_spec [of f ips] by (simp add: buckets_good_def comp_def case_prod_beta)
  obtain acc' where acc': "visit (\<lambda>k. bucket_hit lib m) None bucket_out (map_range (ord [] (length ?bs)) (map fst ?bs)) ?bs acc =
      (map (\<lambda>(k, v). (k, if bucket_hit lib m v then None else v)) ?bs, acc')"
      "mset acc' = mset acc + mset (concat (map (\<lambda>(k, v). if bucket_hit lib m v then bucket_out v else []) ?bs))"
    using visit_all [OF d order_okD [OF assms(1)], where hit = "\<lambda>k. bucket_hit lib m" and z = None and out = bucket_out] by blast
  have l: "Some (map (\<lambda>(k, v). (k, if bucket_hit lib m v then None else v)) ?bs) = left_b lib h (ds @ [m]) f ips"
    using assms(2) by (auto simp: left_b_def bucket_hit_def)
  have o: "map (\<lambda>(k, v). if bucket_hit lib m v then bucket_out v else []) ?bs =
      map (\<lambda>x. if \<not> ?A (snd x) \<and> matchAddr lib m (bk_rep (snd x)) then bk_ips (snd x) else []) ?fb"
    by (auto simp: bucket_hit_def bucket_out_def)
  have g: "got_b lib h (ds @ [m]) f ips = got_b lib h ds f ips +
      mset (concat (map (\<lambda>x. if \<not> ?A (snd x) \<and> matchAddr lib m (bk_rep (snd x)) then bk_ips (snd x) else []) ?fb))"
    using mset_concat_if_or [of "\<lambda>x. ?A (snd x)" "\<lambda>x. matchAddr lib m (bk_rep (snd x))" "\<lambda>x. bk_ips (snd x)" ?fb] assms(2)
    by (simp add: got_b_def case_prod_unfold bex_Un disj_commute)
  have "visit_family lib ord m True (Some ?bs) p acc = (left_b lib h (ds @ [m]) f ips, p, acc')"
    unfolding visit_family_def visit_buckets_visit using acc'(1) l by simp
  then show ?thesis unfolding bs g using acc'(2) [unfolded o] by auto
qed

lemma visit_family_precise:
  assumes "order_ok ord" "\<not> h m"
  shows "\<exists>acc'. visit_family lib ord m False b
      (if left_p lib h ds f ips = None then Some (fresh_precise f ips) else left_p lib h ds f ips) acc =
      (b, left_p lib h (ds @ [m]) f ips, acc') \<and>
    mset acc' + got_p lib h ds f ips = mset acc + got_p lib h (ds @ [m]) f ips"
proof -
  let ?A = "\<lambda>a. \<exists>m \<in> set ds. \<not> h m \<and> matchAddr lib m a"
  let ?fp = "fresh_precise f ips"
  let ?ps = "map (\<lambda>(a, ip). (a, if ?A a then [] else ip)) ?fp"
  have ps: "(if left_p lib h ds f ips = None then Some ?fp else left_p lib h ds f ips) = Some ?ps"
    by (auto simp: left_p_def intro!: map_idI [symmetric])
  have ne: "ip \<noteq> []" if "(a, ip) \<in> set ?fp" for a ip
    using that fresh_precise_spec [of f ips] by (auto simp: fam_ip_def std_addr_def)
  have d: "distinct (map fst ?ps)"
    using fresh_precise_spec [of f ips] by (simp add: comp_def case_prod_beta)
  let ?hit = "\<lambda>a ip. ip \<noteq> [] \<and> matchAddr lib m a"
  obtain acc' where acc': "visit ?hit [] (\<lambda>ip. [ip]) (map_range (ord [] (length ?ps)) (map fst ?ps)) ?ps acc =
      (map (\<lambda>(k, v). (k, if ?hit k v then [] else v)) ?ps, acc')"
      "mset acc' = mset acc + mset (concat (map (\<lambda>(k, v). if ?hit k v then [v] else []) ?ps))"
    using visit_all [OF d order_okD [OF assms(1)], where hit = ?hit and z = "[]" and out = "\<lambda>ip. [ip]"] by blast
  have l: "Some (map (\<lambda>(k, v). (k, if ?hit k v then [] else v)) ?ps) = left_p lib h (ds @ [m]) f ips"
    using assms(2) by (auto simp: left_p_def)
  have o: "map (\<lambda>(k, v). if ?hit k v then [v] else []) ?ps =
      map (\<lambda>x. if \<not> ?A (fst x) \<and> matchAddr lib m (fst x) then [snd x] else []) ?fp"
    using ne by auto
  have g: "got_p lib h (ds @ [m]) f ips = got_p lib h ds f ips +
      mset (concat (map (\<lambda>x. if \<not> ?A (fst x) \<and> matchAddr lib m (fst x) then [snd x] else []) ?fp))"
    using mset_concat_if_or [of "\<lambda>x. ?A (fst x)" "\<lambda>x. matchAddr lib m (fst x)" "\<lambda>x. [snd x]" ?fp] assms(2)
    by (simp add: got_p_def case_prod_unfold bex_Un disj_commute)
  have "visit_family lib ord m False b (Some ?ps) acc = (b, left_p lib h (ds @ [m]) f ips, acc')"
    unfolding visit_family_def visit_precise_visit using acc'(1) l by simp
  then show ?thesis unfolding ps g using acc'(2) [unfolded o] by auto
qed

lemma visit_family_step:
  assumes "order_ok ord"
  shows "\<exists>acc'. visit_family lib ord m (h m)
      (if h m \<and> left_b lib h ds f ips = None then Some (lift_buckets (fresh_buckets f ips)) else left_b lib h ds f ips)
      (if \<not> h m \<and> left_p lib h ds f ips = None then Some (fresh_precise f ips) else left_p lib h ds f ips) acc =
      (left_b lib h (ds @ [m]) f ips, left_p lib h (ds @ [m]) f ips, acc') \<and>
    mset acc' + (got_b lib h ds f ips + got_p lib h ds f ips) =
    mset acc + (got_b lib h (ds @ [m]) f ips + got_p lib h (ds @ [m]) f ips)"
proof (cases "h m")
  case True
  then have "left_p lib h (ds @ [m]) f ips = left_p lib h ds f ips" "got_p lib h (ds @ [m]) f ips = got_p lib h ds f ips"
    by (simp_all add: left_p_def got_p_def bex_Un)
  then show ?thesis using True visit_family_bucket [OF assms, of h m lib ds f ips "left_p lib h ds f ips" acc]
    by (auto simp: ac_simps)
next
  case False
  then have "left_b lib h (ds @ [m]) f ips = left_b lib h ds f ips" "got_b lib h (ds @ [m]) f ips = got_b lib h ds f ips"
    by (simp_all add: left_b_def got_b_def bex_Un)
  then show ?thesis using False visit_family_precise [OF assms, of h m lib "left_b lib h ds f ips" ds f ips acc]
    by (auto simp: ac_simps)
qed

section \<open>All matchers\<close>

lemma order_ok_sub: "order_ok ord \<Longrightarrow> order_ok (sub_order i ord)"
  by (simp add: order_ok_def sub_order_def)

definition views_after :: "'s netipx \<Rightarrow> 's HeuristicIPMatcher list \<Rightarrow> netIP list \<Rightarrow> ipBucketViews" where
  "views_after lib ds ips =
     \<lparr>bv_buckets4 = left_b lib heur4 ds 4 ips, bv_buckets6 = left_b lib heur6 ds 6 ips,
      bv_precise4 = left_p lib heur4 ds 4 ips, bv_precise6 = left_p lib heur6 ds 6 ips\<rparr>"

definition got_all :: "'s netipx \<Rightarrow> 's HeuristicIPMatcher list \<Rightarrow> netIP list \<Rightarrow> netIP multiset" where
  "got_all lib ds ips =
     (got_b lib heur4 ds 4 ips + got_p lib heur4 ds 4 ips) + (got_b lib heur6 ds 6 ips + got_p lib heur6 ds 6 ips)"

lemma mset_two_steps:
  fixes a b m x y x' y' :: "'a multiset"
  assumes "a + x = m + x'" "b + y = a + y'"
  shows "b + (x + y) = m + (x' + y')"
proof -
  have "b + (x + y) = (b + y) + x" by (simp add: ac_simps)
  also have "\<dots> = (a + x) + y'" by (simp add: assms(2) ac_simps)
  also have "\<dots> = m + (x' + y')" by (simp add: assms(1) ac_simps)
  finally show ?thesis .
qed

lemma multi_filter_loop_spec:
  assumes "netipx_ok lib" "order_ok ord" "mset matched = got_all lib ds ips"
  shows "\<exists>matched'. multi_filter_loop lib ord ips i ms (views_after lib ds ips) matched =
    (views_after lib (ds @ ms) ips, matched') \<and> mset matched' = got_all lib (ds @ ms) ips"
  using assms(3)
proof (induction ms arbitrary: ds i matched)
  case (Cons m ms)
  let ?v = "ipBucketViews_ensureForMatcher lib m ips (views_after lib ds ips)"
  have v: "bv_buckets4 ?v = (if heur4 m \<and> left_b lib heur4 ds 4 ips = None then Some (lift_buckets (fresh_buckets 4 ips)) else left_b lib heur4 ds 4 ips)"
      "bv_precise4 ?v = (if \<not> heur4 m \<and> left_p lib heur4 ds 4 ips = None then Some (fresh_precise 4 ips) else left_p lib heur4 ds 4 ips)"
      "bv_buckets6 ?v = (if heur6 m \<and> left_b lib heur6 ds 6 ips = None then Some (lift_buckets (fresh_buckets 6 ips)) else left_b lib heur6 ds 6 ips)"
      "bv_precise6 ?v = (if \<not> heur6 m \<and> left_p lib heur6 ds 6 ips = None then Some (fresh_precise 6 ips) else left_p lib heur6 ds 6 ips)"
    by (simp_all add: ensureForMatcher_eq [OF assms(1)] views_after_def)
  have o: "order_ok (sub_order j (sub_order i ord))" for j using assms(2) by (intro order_ok_sub)
  obtain acc where acc: "visit_family lib (sub_order 4 (sub_order i ord)) m (heur4 m) (bv_buckets4 ?v) (bv_precise4 ?v) matched =
      (left_b lib heur4 (ds @ [m]) 4 ips, left_p lib heur4 (ds @ [m]) 4 ips, acc)"
      "mset acc + (got_b lib heur4 ds 4 ips + got_p lib heur4 ds 4 ips) =
       mset matched + (got_b lib heur4 (ds @ [m]) 4 ips + got_p lib heur4 (ds @ [m]) 4 ips)"
    using visit_family_step [OF o [of 4], of lib m heur4 ds 4 ips matched]
    unfolding v by blast
  obtain acc2 where acc2: "visit_family lib (sub_order 6 (sub_order i ord)) m (heur6 m) (bv_buckets6 ?v) (bv_precise6 ?v) acc =
      (left_b lib heur6 (ds @ [m]) 6 ips, left_p lib heur6 (ds @ [m]) 6 ips, acc2)"
      "mset acc2 + (got_b lib heur6 ds 6 ips + got_p lib heur6 ds 6 ips) =
       mset acc + (got_b lib heur6 (ds @ [m]) 6 ips + got_p lib heur6 (ds @ [m]) 6 ips)"
    using visit_family_step [OF o [of 6], of lib m heur6 ds 6 ips acc]
    unfolding v by blast
  have "mset acc2 + got_all lib ds ips = mset matched + got_all lib (ds @ [m]) ips"
    unfolding got_all_def using acc(2) acc2(2) by (rule mset_two_steps)
  then have "mset acc2 = got_all lib (ds @ [m]) ips" using Cons.prems by (simp add: add.commute)
  moreover have "multi_filter_loop lib ord ips i (m # ms) (views_after lib ds ips) matched =
      multi_filter_loop lib ord ips (Suc i) ms (views_after lib (ds @ [m]) ips) acc2"
    using acc(1) acc2(1) by (simp add: views_after_def)
  ultimately show ?case using Cons.IH [of acc2 "ds @ [m]" "Suc i"] by simp
qed (use assms(3) in auto)

lemma got_all_Nil: "got_all lib [] ips = {#}"
  by (simp add: got_all_def got_b_def got_p_def)

lemma views_after_Nil: "views_after lib [] ips = no_bucket_views"
  by (simp add: views_after_def no_bucket_views_def left_b_def left_p_def)

definition rest_b :: "'s netipx \<Rightarrow> ('s HeuristicIPMatcher \<Rightarrow> bool) \<Rightarrow> 's HeuristicIPMatcher list \<Rightarrow> byte \<Rightarrow> netIP list \<Rightarrow>
    netIP multiset" where
  "rest_b lib h ds f ips = (if \<exists>m \<in> set ds. h m
     then mset (concat (map (\<lambda>(k, b). if \<exists>m \<in> set ds. h m \<and> matchAddr lib m (bk_rep b) then [] else bk_ips b) (fresh_buckets f ips)))
     else {#})"

definition rest_p :: "'s netipx \<Rightarrow> ('s HeuristicIPMatcher \<Rightarrow> bool) \<Rightarrow> 's HeuristicIPMatcher list \<Rightarrow> byte \<Rightarrow> netIP list \<Rightarrow>
    netIP multiset" where
  "rest_p lib h ds f ips = (if \<exists>m \<in> set ds. \<not> h m
     then mset (concat (map (\<lambda>(a, ip). if \<exists>m \<in> set ds. \<not> h m \<and> matchAddr lib m a then [] else [ip]) (fresh_precise f ips)))
     else {#})"

lemma left_buckets_rest:
  assumes "order_ok ord"
  shows "mset (left_buckets (ord path (length (or_nil (left_b lib h ds f ips)))) (or_nil (left_b lib h ds f ips))) =
    rest_b lib h ds f ips"
proof -
  have "mset (left_buckets (ord path (length bs)) bs) = mset (concat (map (\<lambda>(k, b). bucket_out b) bs))" for bs
    using mset_map_range [OF order_okD [OF assms, of path "length bs"]]
    by (simp add: left_buckets_def mset_concat_map bucket_out_def)
  note gen = this
  show ?thesis
  proof (cases "\<exists>m \<in> set ds. h m")
    case True
    let ?A = "\<lambda>b. \<exists>m \<in> set ds. h m \<and> matchAddr lib m (bk_rep b)"
    let ?bs = "map (\<lambda>(k, b). (k, if ?A b then None else Some b)) (fresh_buckets f ips)"
    have "or_nil (left_b lib h ds f ips) = ?bs" using True by (simp add: left_b_def or_nil_def)
    moreover have "map (\<lambda>(k, b). bucket_out b) ?bs = map (\<lambda>(k, b). if ?A b then [] else bk_ips b) (fresh_buckets f ips)"
      by (auto simp: bucket_out_def)
    ultimately show ?thesis using gen [of ?bs] True by (simp only: rest_b_def if_True)
  next
    case False
    then show ?thesis using gen [of "[]"] by (simp add: left_b_def rest_b_def or_nil_def)
  qed
qed

lemma left_precise_rest:
  assumes "order_ok ord"
  shows "mset (left_precise (ord path (length (or_nil (left_p lib h ds f ips)))) (or_nil (left_p lib h ds f ips))) =
    rest_p lib h ds f ips"
proof -
  have ne: "ip \<noteq> []" if "(a, ip) \<in> set (fresh_precise f ips)" for a ip
    using that fresh_precise_spec [of f ips] by (auto simp: fam_ip_def std_addr_def)
  have perm: "mset (left_precise (ord path (length ps)) ps) = mset (filter (\<lambda>ip. ip \<noteq> []) (map snd ps))" for ps
    using mset_map_range [OF order_okD [OF assms, of path "length ps"]]
    by (simp add: left_precise_def)
  have "filter (\<lambda>ip. ip \<noteq> []) (map (\<lambda>(a, ip). if Q a then [] else ip) xs) =
      concat (map (\<lambda>(a, ip). if Q a then [] else [ip]) xs)" if "\<forall>(a, ip) \<in> set xs. ip \<noteq> []" for Q and xs :: "(netip_Addr \<times> netIP) list"
    using that by (induction xs) (auto split: if_splits)
  note gen = this
  show ?thesis
  proof (cases "\<exists>m \<in> set ds. \<not> h m")
    case True
    let ?A = "\<lambda>a. \<exists>m \<in> set ds. \<not> h m \<and> matchAddr lib m a"
    let ?ps = "map (\<lambda>(a, ip). (a, if ?A a then [] else ip)) (fresh_precise f ips)"
    have "or_nil (left_p lib h ds f ips) = ?ps" using True by (simp add: left_p_def or_nil_def)
    moreover have "map snd ?ps = map (\<lambda>(a, ip). if ?A a then [] else ip) (fresh_precise f ips)" by auto
    moreover have "\<forall>(a, ip) \<in> set (fresh_precise f ips). ip \<noteq> []" using ne by auto
    ultimately show ?thesis using perm [of ?ps] True gen [of "fresh_precise f ips" ?A]
      by (simp only: rest_p_def if_True)
  next
    case False
    then show ?thesis using perm [of "[]"] by (simp add: left_p_def rest_p_def or_nil_def)
  qed
qed

lemma HeuristicMulti_FilterIPs_eq:
  assumes "netipx_ok lib" "order_ok ord" "2 \<le> length ips"
  shows "if length ips < size (got_all lib (mm_matchers mm) ips) then HeuristicMulti_FilterIPs lib ord mm ips = None
    else \<exists>matched unmatched. HeuristicMulti_FilterIPs lib ord mm ips = Some (matched, unmatched) \<and>
      mset matched = got_all lib (mm_matchers mm) ips \<and>
      mset unmatched = rest_b lib heur4 (mm_matchers mm) 4 ips + rest_p lib heur4 (mm_matchers mm) 4 ips +
        (rest_b lib heur6 (mm_matchers mm) 6 ips + rest_p lib heur6 (mm_matchers mm) 6 ips)"
proof -
  let ?ms = "mm_matchers mm"
  obtain matched where m: "multi_filter_loop lib (sub_order 0 ord) ips 0 ?ms no_bucket_views [] = (views_after lib ?ms ips, matched)"
      "mset matched = got_all lib ?ms ips"
    using multi_filter_loop_spec [OF assms(1) order_ok_sub [OF assms(2)], of "[]" "[]" ips 0 0 ?ms]
    by (auto simp: got_all_Nil views_after_Nil)
  have sz: "length matched = size (got_all lib ?ms ips)" using m(2) by (metis size_mset)
  have len: "length ips \<noteq> 0" "length ips \<noteq> 1" using assms(3) by auto
  show ?thesis
  proof (cases "length ips < size (got_all lib ?ms ips)")
    case True
    then show ?thesis unfolding HeuristicMulti_FilterIPs_def m(1) using len sz by (simp add: Let_def)
  next
    case False
    let ?v = "views_after lib ?ms ips"
    let ?u = "left_buckets (ord [1, 0] (length (or_nil (bv_buckets4 ?v)))) (or_nil (bv_buckets4 ?v)) @
      left_precise (ord [1, 1] (length (or_nil (bv_precise4 ?v)))) (or_nil (bv_precise4 ?v)) @
      left_buckets (ord [1, 2] (length (or_nil (bv_buckets6 ?v)))) (or_nil (bv_buckets6 ?v)) @
      left_precise (ord [1, 3] (length (or_nil (bv_precise6 ?v)))) (or_nil (bv_precise6 ?v))"
    have "HeuristicMulti_FilterIPs lib ord mm ips = Some (matched, ?u)"
      unfolding HeuristicMulti_FilterIPs_def m(1) using len sz False by (simp add: Let_def)
    moreover have "mset ?u = rest_b lib heur4 ?ms 4 ips + rest_p lib heur4 ?ms 4 ips +
        (rest_b lib heur6 ?ms 6 ips + rest_p lib heur6 ?ms 6 ips)"
      by (simp only: views_after_def ipBucketViews.simps mset_append left_buckets_rest [OF assms(2)]
          left_precise_rest [OF assms(2)] add.assoc)
    ultimately show ?thesis using False m(2) by auto
  qed
qed

section \<open>The two views as filters\<close>

definition family_heur :: "byte \<Rightarrow> ('s HeuristicIPMatcher \<Rightarrow> bool) \<Rightarrow> bool" where
  "family_heur f h \<longleftrightarrow> (\<forall>m key. key ! 0 = f \<longrightarrow> heur m key = h m)"

lemma family_heur4: "family_heur 4 heur4" by (simp add: family_heur_def heur_key4)
lemma family_heur6: "family_heur 6 heur6" by (simp add: family_heur_def heur_key6)

lemma bucket_any_test:
  assumes "family_heur f h" "list_all (hm_ok lib) ds" "x \<in> set (fresh_buckets f ips)" "ip \<in> set (bk_ips (snd x))"
  shows "(\<exists>m \<in> set ds. h m \<and> matchAddr lib m (bk_rep (snd x))) \<longleftrightarrow> (\<exists>m \<in> set ds. h m \<and> ip_test lib m ip)"
proof -
  obtain k b where x: "x = (k, b)" by (cases x)
  have g: "bucket_good k (bk_rep b) (bk_ips b)" "k ! 0 = f"
    using fresh_buckets_spec [of f ips] assms(3) by (auto simp: buckets_good_def x)
  have "ip_test lib m ip = matchAddr lib m (bk_rep (snd x))" if "m \<in> set ds" "h m" for m
    using that assms(1,2,4) g unfolding x snd_conv by (intro bucket_test [of lib m k]) (auto simp: list_all_iff family_heur_def)
  then show ?thesis by blast
qed

lemma concat_if_filter:
  "\<forall>x \<in> set xs. \<forall>y \<in> set (g x). P x = Q y \<Longrightarrow>
   concat (map (\<lambda>x. if P x then g x else []) xs) = filter Q (concat (map g xs))"
  by (induction xs) (auto simp: filter_id_conv filter_empty_conv)

lemma got_b_filter:
  assumes "family_heur f h" "list_all (hm_ok lib) ds"
  shows "got_b lib h ds f ips = mset (filter (\<lambda>ip. in_family f ip \<and> (\<exists>m \<in> set ds. h m \<and> ip_test lib m ip)) ips)"
proof -
  let ?Q = "\<lambda>ip. \<exists>m \<in> set ds. h m \<and> ip_test lib m ip"
  have "concat (map (\<lambda>x. if \<exists>m \<in> set ds. h m \<and> matchAddr lib m (bk_rep (snd x)) then bk_ips (snd x) else []) (fresh_buckets f ips)) =
      filter ?Q (concat (map (\<lambda>x. bk_ips (snd x)) (fresh_buckets f ips)))"
    by (rule concat_if_filter) (intro ballI bucket_any_test [OF assms])
  then have "got_b lib h ds f ips = mset (filter ?Q (bucket_ips (fresh_buckets f ips)))"
    unfolding got_b_def bucket_ips_def case_prod_unfold by simp
  also have "\<dots> = filter_mset ?Q (mset (filter (in_family f) ips))"
    using fresh_buckets_spec [of f ips] by simp
  finally show ?thesis by (simp add: filter_filter_mset conj_commute)
qed

lemma rest_b_filter:
  assumes "family_heur f h" "list_all (hm_ok lib) ds" "\<exists>m \<in> set ds. h m"
  shows "rest_b lib h ds f ips = mset (filter (\<lambda>ip. in_family f ip \<and> \<not> (\<exists>m \<in> set ds. h m \<and> ip_test lib m ip)) ips)"
proof -
  let ?Q = "\<lambda>ip. \<not> (\<exists>m \<in> set ds. h m \<and> ip_test lib m ip)"
  have "concat (map (\<lambda>x. if \<not> (\<exists>m \<in> set ds. h m \<and> matchAddr lib m (bk_rep (snd x))) then bk_ips (snd x) else []) (fresh_buckets f ips)) =
      filter ?Q (concat (map (\<lambda>x. bk_ips (snd x)) (fresh_buckets f ips)))"
    by (rule concat_if_filter) (intro ballI arg_cong [where f = Not] bucket_any_test [OF assms(1,2)])
  moreover have "(if A then [] else x) = (if \<not> A then x else [])" for A and x :: "netIP list" by simp
  ultimately have "rest_b lib h ds f ips = mset (filter ?Q (bucket_ips (fresh_buckets f ips)))"
    unfolding rest_b_def bucket_ips_def case_prod_unfold using assms(3) by (simp only: if_True)
  also have "\<dots> = filter_mset ?Q (mset (filter (in_family f) ips))"
    using fresh_buckets_spec [of f ips] by simp
  finally show ?thesis by (simp add: filter_filter_mset conj_commute)
qed

lemma got_p_set:
  "set_mset (got_p lib h ds f ips) =
   {ip. \<exists>a. (a, ip) \<in> set (fresh_precise f ips) \<and> (\<exists>m \<in> set ds. \<not> h m \<and> matchAddr lib m a)}"
  by (auto simp: got_p_def split: if_splits)

lemma size_concat_if: "length (concat (map (\<lambda>x. if P x then [g x] else []) xs)) = length (filter P xs)"
  by (induction xs) auto

lemma size_got_p: "size (got_p lib h ds f ips) = length (filter (\<lambda>x. \<exists>m \<in> set ds. \<not> h m \<and> matchAddr lib m (fst x)) (fresh_precise f ips))"
  unfolding got_p_def case_prod_unfold size_mset by (rule size_concat_if)

lemma size_got_p_le: "size (got_p lib h ds f ips) \<le> length (filter (in_family f) ips)"
proof -
  have "size (got_p lib h ds f ips) \<le> length (fresh_precise f ips)"
    unfolding size_got_p by (rule length_filter_le)
  then show ?thesis using fresh_precise_spec [of f ips] by linarith
qed

lemma rest_p_set:
  "\<exists>m \<in> set ds. \<not> h m \<Longrightarrow> set_mset (rest_p lib h ds f ips) =
   {ip. \<exists>a. (a, ip) \<in> set (fresh_precise f ips) \<and> \<not> (\<exists>m \<in> set ds. \<not> h m \<and> matchAddr lib m a)}"
  by (auto simp: rest_p_def split: if_splits)

text \<open>The addresses of the precise view, by a condition on the address.\<close>

lemma precise_addrs:
  "std_addr ` {ip. \<exists>a. (a, ip) \<in> set (fresh_precise f ips) \<and> P a} =
   std_addr ` {ip \<in> set ips. in_family f ip \<and> (\<exists>a. std_addr ip = Some a \<and> P a)}"
proof -
  have f: "fam_ip f ips a ip" if "(a, ip) \<in> set (fresh_precise f ips)" for a ip
    using that fresh_precise_spec [of f ips] by auto
  have e: "\<exists>i. (a, i) \<in> set (fresh_precise f ips)" if "fam_ip f ips a ip" for a ip
    using that fresh_precise_spec [of f ips] by (metis (mono_tags, lifting) imageE mem_Collect_eq prod.collapse)
  show ?thesis
  proof (intro equalityI subsetI)
    fix x assume "x \<in> std_addr ` {ip. \<exists>a. (a, ip) \<in> set (fresh_precise f ips) \<and> P a}"
    then show "x \<in> std_addr ` {ip \<in> set ips. in_family f ip \<and> (\<exists>a. std_addr ip = Some a \<and> P a)}"
      using f by (force simp: fam_ip_def)
  next
    fix x assume "x \<in> std_addr ` {ip \<in> set ips. in_family f ip \<and> (\<exists>a. std_addr ip = Some a \<and> P a)}"
    then obtain ip a where ip: "fam_ip f ips a ip" "P a" "x = Some a" by (auto simp: fam_ip_def)
    then obtain i where i: "(a, i) \<in> set (fresh_precise f ips)" using e by blast
    then have "std_addr i = x" using f ip(3) by (simp add: fam_ip_def)
    then show "x \<in> std_addr ` {ip. \<exists>a. (a, ip) \<in> set (fresh_precise f ips) \<and> P a}" using i ip(2) by blast
  qed
qed

lemma test_some: "std_addr ip = Some a \<Longrightarrow> ip_test lib m ip = matchAddr lib m a"
  by (simp add: ip_test_def)

text \<open>When the matchers agree on the view they use for a family, its addresses are partitioned.\<close>

lemma family_uniform:
  assumes "family_heur f h" "list_all (hm_ok lib) ds" "\<forall>m \<in> set ds. h m = c" "ds \<noteq> []"
  shows "std_addr ` set_mset (got_b lib h ds f ips + got_p lib h ds f ips) =
      std_addr ` {ip \<in> set ips. in_family f ip \<and> (\<exists>m \<in> set ds. ip_test lib m ip)} \<and>
    std_addr ` set_mset (rest_b lib h ds f ips + rest_p lib h ds f ips) =
      std_addr ` {ip \<in> set ips. in_family f ip \<and> \<not> (\<exists>m \<in> set ds. ip_test lib m ip)} \<and>
    size (got_b lib h ds f ips + got_p lib h ds f ips) \<le> length (filter (in_family f) ips)"
proof (cases c)
  case True
  then have h: "\<forall>m \<in> set ds. h m" "\<exists>m \<in> set ds. h m" using assms(3,4) by (auto simp: neq_Nil_conv)
  have p: "got_p lib h ds f ips = {#}" "rest_p lib h ds f ips = {#}"
    using h by (auto simp: got_p_def rest_p_def concat_eq_Nil_conv)
  have "size (filter_mset (\<lambda>ip. in_family f ip \<and> Q ip) (mset ips)) \<le> length (filter (in_family f) ips)" for Q
    by (induction ips) auto
  then show ?thesis using h unfolding p got_b_filter [OF assms(1,2)] rest_b_filter [OF assms(1,2) h(2)]
    by (auto intro!: arg_cong [where f = "image std_addr"])
next
  case False
  then have h: "\<forall>m \<in> set ds. \<not> h m" "\<exists>m \<in> set ds. \<not> h m" using assms(3,4) by (auto simp: neq_Nil_conv)
  have b: "got_b lib h ds f ips = {#}" "rest_b lib h ds f ips = {#}"
    using h by (auto simp: got_b_def rest_b_def concat_eq_Nil_conv)
  have e: "{ip \<in> set ips. in_family f ip \<and> (\<exists>a. std_addr ip = Some a \<and> P (\<exists>m \<in> set ds. \<not> h m \<and> matchAddr lib m a))} =
      {ip \<in> set ips. in_family f ip \<and> P (\<exists>m \<in> set ds. ip_test lib m ip)}" for P
    using h(1) by (auto simp: in_family_def ip_valid_def ip_test_def)
  have "std_addr ` set_mset (got_p lib h ds f ips) =
      std_addr ` {ip \<in> set ips. in_family f ip \<and> (\<exists>m \<in> set ds. ip_test lib m ip)}"
    unfolding got_p_set precise_addrs using e [of "\<lambda>x. x"] by simp
  moreover have "std_addr ` set_mset (rest_p lib h ds f ips) =
      std_addr ` {ip \<in> set ips. in_family f ip \<and> \<not> (\<exists>m \<in> set ds. ip_test lib m ip)}"
    unfolding rest_p_set [OF h(2)] precise_addrs using e [of Not] by simp
  ultimately show ?thesis using size_got_p_le [of lib h ds f ips] by (simp add: b)
qed

section \<open>The results\<close>

lemma family_split: "length (filter (in_family 4) ips) + length (filter (in_family 6) ips) \<le> length ips"
  by (induction ips) (auto simp: in_family_def)

lemma valid_family: "ip_valid ip \<longleftrightarrow> in_family 4 ip \<or> in_family 6 ip"
  using ip_key_family by (auto simp: in_family_def)

definition uniform_views :: "'s HeuristicIPMatcher list \<Rightarrow> bool" where
  "uniform_views ms \<longleftrightarrow> (\<exists>c4 c6. \<forall>m \<in> set ms. heur4 m = c4 \<and> heur6 m = c6)"

lemma multi_filter_partition:
  assumes "netipx_ok lib" "order_ok ord" "list_all (hm_ok lib) (mm_matchers mm)" "mm_matchers mm \<noteq> []"
    and "uniform_views (mm_matchers mm)"
  shows "\<exists>matched unmatched. HeuristicMulti_FilterIPs lib ord mm ips = Some (matched, unmatched) \<and>
    std_addr ` set matched = std_addr ` {ip \<in> set ips. HeuristicMulti_Match lib mm ip} \<and>
    std_addr ` set unmatched = std_addr ` {ip \<in> set ips. ip_valid ip \<and> \<not> HeuristicMulti_Match lib mm ip}"
proof -
  let ?ms = "mm_matchers mm"
  note t = HeuristicMulti_Match_test [OF assms(1)]
  consider "ips = []" | ip where "ips = [ip]" | "2 \<le> length ips"
    by (cases ips rule: list.exhaust; cases "tl ips") auto
  then show ?thesis
  proof cases
    case 1
    then show ?thesis by (simp add: HeuristicMulti_FilterIPs_def)
  next
    case (2 ip)
    have "HeuristicMulti_FilterIPs lib ord mm ips =
        (if HeuristicMulti_Match lib mm ip then Some (ips, []) else if ip_valid ip then Some ([], ips) else Some ([], []))"
      using 2 by (cases "std_addr ip")
        (auto simp: HeuristicMulti_FilterIPs_def HeuristicMulti_Match_def FromStdIP_std [OF assms(1)] ip_valid_def)
    moreover have "{i \<in> set ips. P i} = (if P ip then {ip} else {})" for P using 2 by auto
    ultimately show ?thesis using 2 by auto
  next
    case 3
    obtain c4 c6 where c: "\<forall>m \<in> set ?ms. heur4 m = c4" "\<forall>m \<in> set ?ms. heur6 m = c6"
      using assms(5) by (auto simp: uniform_views_def)
    note u4 = family_uniform [OF family_heur4 assms(3) c(1) assms(4), of ips]
    note u6 = family_uniform [OF family_heur6 assms(3) c(2) assms(4), of ips]
    have "size (got_all lib ?ms ips) \<le> length ips"
      using u4 u6 family_split [of ips] unfolding got_all_def by (simp only: size_union) linarith
    then obtain matched unmatched where r: "HeuristicMulti_FilterIPs lib ord mm ips = Some (matched, unmatched)"
        "mset matched = got_all lib ?ms ips"
        "mset unmatched = rest_b lib heur4 ?ms 4 ips + rest_p lib heur4 ?ms 4 ips +
          (rest_b lib heur6 ?ms 6 ips + rest_p lib heur6 ?ms 6 ips)"
      using HeuristicMulti_FilterIPs_eq [OF assms(1,2) 3, of mm] by (simp split: if_splits) blast
    have fam: "{ip \<in> set ips. ip_valid ip \<and> Q ip} = {ip \<in> set ips. in_family 4 ip \<and> Q ip} \<union> {ip \<in> set ips. in_family 6 ip \<and> Q ip}" for Q
      by (auto simp: valid_family)
    have "set matched = set_mset (got_b lib heur4 ?ms 4 ips + got_p lib heur4 ?ms 4 ips) \<union>
        set_mset (got_b lib heur6 ?ms 6 ips + got_p lib heur6 ?ms 6 ips)"
      using arg_cong [OF r(2), of set_mset] by (simp add: got_all_def)
    then have "std_addr ` set matched = std_addr ` {ip \<in> set ips. ip_valid ip \<and> (\<exists>m \<in> set ?ms. ip_test lib m ip)}"
      using u4 u6 by (simp only: fam image_Un)
    moreover have "set unmatched = set_mset (rest_b lib heur4 ?ms 4 ips + rest_p lib heur4 ?ms 4 ips) \<union>
        set_mset (rest_b lib heur6 ?ms 6 ips + rest_p lib heur6 ?ms 6 ips)"
      using arg_cong [OF r(3), of set_mset] by simp
    then have "std_addr ` set unmatched = std_addr ` {ip \<in> set ips. ip_valid ip \<and> \<not> (\<exists>m \<in> set ?ms. ip_test lib m ip)}"
      using u4 u6 by (simp only: fam image_Un)
    moreover have "{ip \<in> set ips. ip_valid ip \<and> (\<exists>m \<in> set ?ms. ip_test lib m ip)} = {ip \<in> set ips. HeuristicMulti_Match lib mm ip}"
      using test_valid by (auto simp: t)
    ultimately show ?thesis using r(1) by (simp add: t)
  qed
qed

lemma multi_filter_duplicates:
  assumes "netipx_ok lib" "order_ok ord" "2 \<le> length ips" "list_all (hm_ok lib) (mm_matchers mm)"
    and "list_all (in_family 4) ips" "distinct (map std_addr ips)"
    and "m1 \<in> set (mm_matchers mm)" "heur4 m1" "list_all (ip_test lib m1) ips"
    and "m2 \<in> set (mm_matchers mm)" "\<not> heur4 m2" "list_all (ip_test lib m2) ips"
  shows "HeuristicMulti_FilterIPs lib ord mm ips = None"
proof -
  let ?ms = "mm_matchers mm"
  have "filter (\<lambda>ip. in_family 4 ip \<and> (\<exists>m \<in> set ?ms. heur4 m \<and> ip_test lib m ip)) ips = ips"
    using assms(5,7-9) by (auto simp: filter_id_conv list_all_iff)
  then have b: "size (got_b lib heur4 ?ms 4 ips) = length ips"
    unfolding got_b_filter [OF family_heur4 assms(4)] by (simp only: size_mset)
  let ?fp = "fresh_precise 4 ips"
  have f: "fam_ip 4 ips (fst x) (snd x)" if "x \<in> set ?fp" for x
    using that fresh_precise_spec [of 4 ips] by auto
  have "\<exists>m \<in> set ?ms. \<not> heur4 m \<and> matchAddr lib m (fst x)" if "x \<in> set ?fp" for x
    using f [OF that] assms(10-12) test_some by (fastforce simp: fam_ip_def list_all_iff)
  then have "size (got_p lib heur4 ?ms 4 ips) = length ?fp"
    unfolding size_got_p by (metis (mono_tags, lifting) filter_True)
  moreover have "set (map std_addr ips) = Some ` {a. \<exists>ip. fam_ip 4 ips a ip}"
    using assms(5) by (force simp: fam_ip_def list_all_iff in_family_def ip_valid_def)
  then have "length ips = card (Some ` fst ` set ?fp)"
    using fresh_precise_spec [of 4 ips] distinct_card [OF assms(6)] by simp
  then have "length ips \<le> length ?fp"
    by (metis card_image_le card_length dual_order.trans finite_imageI finite_set length_map list.set_map)
  ultimately have "length ips < size (got_all lib ?ms ips)"
    using b assms(3) unfolding got_all_def by (simp only: size_union)
  then show ?thesis using HeuristicMulti_FilterIPs_eq [OF assms(1-3), of mm] by simp
qed

end
