(* ===== verification/Ip_Set.thy ===== *)
theory Ip_Set
  imports Ip_Multi_Filter "HOL-Library.List_Lexorder" "HOL-Library.Product_Lexorder"
begin

text \<open>
  The construction of IP matchers from rules (\<^verbatim>\<open>common/geodata/ip_matcher.go\<close>, from \<^verbatim>\<open>IPSetFactory\<close> on)
  and their registry (\<^verbatim>\<open>ip_registry.go\<close>). The addresses of a GeoIP code are loaded from a file: \<open>load\<close>
  is a parameter. The cache of the factory holds its sets weakly, so any entry may be missing from
  it; the lemmas hold for every cache whose entries were built from rules with their key.
\<close>

section \<open>Rules\<close>

record CIDR =
  cidr_Ip :: "byte list"
  cidr_Prefix :: u32

record GeoIPRule =
  gi_File :: gostring
  gi_Code :: gostring
  gi_ReverseMatch :: bool

record CIDRRule =
  cr_Cidr :: CIDR
  cr_ReverseMatch :: bool

text \<open>The value of a rule is one of two messages, or unset.\<close>

datatype IPRule = IPRule_Custom CIDRRule | IPRule_Geoip GeoIPRule | IPRule_Unset

section \<open>The factory\<close>

definition cidr_prefix :: "CIDR \<Rightarrow> netip_Prefix option" where
  "cidr_prefix c =
     (case AddrFromSlice (cidr_Ip c) of
        None \<Rightarrow> None
      | Some addr \<Rightarrow>
          let prefix = PrefixFrom addr (int (unat (cidr_Prefix c))) in
          if \<not> Prefix_IsValid prefix then None else Some prefix)"

text \<open>The callback that adds a CIDR to one of the two builders.\<close>

definition add_cidr :: "CIDR \<Rightarrow> netip_Prefix list \<times> netip_Prefix list \<Rightarrow> netip_Prefix list \<times> netip_Prefix list" where
  "add_cidr c = (\<lambda>(b4, b6).
     case cidr_prefix c of
       None \<Rightarrow> (b4, b6)
     | Some p \<Rightarrow> if Is4 (pfx_addr p) then (b4 @ [p], b6) else if Is6 (pfx_addr p) then (b4, b6 @ [p]) else (b4, b6))"

definition max_bits :: "netip_Prefix list \<Rightarrow> int" where
  "max_bits ps = foldl (\<lambda>mx p. if Prefix_Bits p > mx then Prefix_Bits p else mx) 0 ps"

definition max_field :: "netip_Prefix list \<Rightarrow> byte" where
  "max_field ps = (if ps = [] then 0xff else if max_bits ps = 0 then 0xfe else word_of_int (max_bits ps))"

text \<open>\<open>createFrom\<close> on the CIDRs that \<^verbatim>\<open>yield\<close> has added when it returns, with its error.\<close>

definition createFrom :: "'s netipx \<Rightarrow> CIDR list \<times> go_error option \<Rightarrow> go_error + 's IPSet" where
  "createFrom lib yielded =
     (let (cidrs, err) = yielded; (b4, b6) = fold add_cidr cidrs ([], []) in
      case err of
        Some e \<Rightarrow> Inl e
      | None \<Rightarrow>
          (case IPSet_build lib b4 of
             Inl e \<Rightarrow> Inl (ErrNew ''failed to build IPv4 set'')
           | Inr ipv4 \<Rightarrow>
               (case IPSet_build lib b6 of
                  Inl e \<Rightarrow> Inl (ErrNew ''failed to build IPv6 set'')
                | Inr ipv6 \<Rightarrow>
                    Inr \<lparr>ipset_ipv4 = ipv4, ipset_ipv6 = ipv6,
                         ipset_max4 = max_field (IPSet_Prefixes lib ipv4),
                         ipset_max6 = max_field (IPSet_Prefixes lib ipv6)\<rparr>)))"

definition CreateFromCIDRs :: "'s netipx \<Rightarrow> CIDR list \<Rightarrow> go_error + 's IPSet" where
  "CreateFromCIDRs lib cidrs = createFrom lib (cidrs, None)"

type_synonym ip_loader = "gostring \<Rightarrow> gostring \<Rightarrow> go_error + CIDR list"

text \<open>The loop that loads the rules; it stops at the first error.\<close>

fun load_rules :: "ip_loader \<Rightarrow> GeoIPRule list \<Rightarrow> CIDR list \<times> go_error option" where
  "load_rules load [] = ([], None)"
| "load_rules load (r # rs) =
     (case load (gi_File r) (gi_Code r) of
        Inl e \<Rightarrow> ([], Some e)
      | Inr cidrs \<Rightarrow> let (cs, err) = load_rules load rs in (cidrs @ cs, err))"

definition rule_names :: "GeoIPRule list \<Rightarrow> (gostring \<times> gostring) list" where
  "rule_names rules = map (\<lambda>r. (gi_File r, gi_Code r)) rules"

fun key_loop :: "(gostring \<times> gostring) list \<Rightarrow> (gostring \<times> gostring) option \<Rightarrow> gostring" where
  "key_loop [] lst = []"
| "key_loop ((file, code) # rs) lst =
     (if lst = None \<or> lst \<noteq> Some (file, code)
      then file @ str '':'' @ code @ str '','' @ key_loop rs (Some (file, code))
      else key_loop rs lst)"

text \<open>Rules that the sort does not distinguish have the same file and code.\<close>

definition buildGeoIPRulesKey :: "GeoIPRule list \<Rightarrow> gostring" where
  "buildGeoIPRulesKey rules = key_loop (sort (rule_names rules)) None"

type_synonym 's ip_cache = "gostring \<rightharpoonup> 's IPSet"

definition GetOrCreateFromGeoIPRules ::
  "'s netipx \<Rightarrow> ip_loader \<Rightarrow> GeoIPRule list \<Rightarrow> 's ip_cache \<Rightarrow> (go_error + 's IPSet) \<times> 's ip_cache" where
  "GetOrCreateFromGeoIPRules lib load rules shared =
     (let key = buildGeoIPRulesKey rules in
      case shared key of
        Some ipset \<Rightarrow> (Inr ipset, shared)
      | None \<Rightarrow>
          (case createFrom lib (load_rules load rules) of
             Inl e \<Rightarrow> (Inl e, shared)
           | Inr ipset \<Rightarrow> (Inr ipset, shared(key \<mapsto> ipset))))"

record rule_groups =
  posCustom :: "CIDR list"
  negCustom :: "CIDR list"
  posGeoip :: "GeoIPRule list"
  negGeoip :: "GeoIPRule list"

text \<open>\<open>None\<close> is the panic on a rule without a value.\<close>

fun group_rules :: "IPRule list \<Rightarrow> rule_groups \<Rightarrow> rule_groups go" where
  "group_rules [] g = Some g"
| "group_rules (IPRule_Custom v # rs) g =
     (if \<not> cr_ReverseMatch v then group_rules rs (g\<lparr>posCustom := posCustom g @ [cr_Cidr v]\<rparr>)
      else group_rules rs (g\<lparr>negCustom := negCustom g @ [cr_Cidr v]\<rparr>))"
| "group_rules (IPRule_Geoip v # rs) g =
     (if \<not> gi_ReverseMatch v then group_rules rs (g\<lparr>posGeoip := posGeoip g @ [v]\<rparr>)
      else group_rules rs (g\<lparr>negGeoip := negGeoip g @ [v]\<rparr>))"
| "group_rules (IPRule_Unset # rs) g = None"

text \<open>One of the four optional sub-matchers: the result of its construction is appended or returned.\<close>

definition add_sub ::
  "bool \<Rightarrow> bool \<Rightarrow> (go_error + 's IPSet) \<Rightarrow> 's HeuristicIPMatcher list \<Rightarrow> go_error + 's HeuristicIPMatcher list" where
  "add_sub wanted reverse ipset subs =
     (if wanted then
        (case ipset of Inl e \<Rightarrow> Inl e | Inr s \<Rightarrow> Inr (subs @ [\<lparr>hm_ipset = s, hm_reverse = reverse\<rparr>]))
      else Inr subs)"

definition geo_sub ::
  "'s netipx \<Rightarrow> ip_loader \<Rightarrow> GeoIPRule list \<Rightarrow> bool \<Rightarrow> 's HeuristicIPMatcher list \<times> 's ip_cache \<Rightarrow>
   (go_error + 's HeuristicIPMatcher list) \<times> 's ip_cache" where
  "geo_sub lib load rules reverse = (\<lambda>(subs, shared).
     if rules = [] then (Inr subs, shared)
     else let (r, shared) = GetOrCreateFromGeoIPRules lib load rules shared in (add_sub True reverse r subs, shared))"

definition finish_matcher :: "'s HeuristicIPMatcher list \<Rightarrow> go_error + 's IPMatcher" where
  "finish_matcher subs =
     (case subs of
        [] \<Rightarrow> Inl (ErrNew ''no valid ip matcher'')
      | [m] \<Rightarrow> Inr (Heuristic m)
      | _ \<Rightarrow> Inr (HeuristicMulti \<lparr>mm_matchers = subs\<rparr>))"

definition no_groups :: rule_groups where
  "no_groups = \<lparr>posCustom = [], negCustom = [], posGeoip = [], negGeoip = []\<rparr>"

definition buildOptimizedIPMatcher ::
  "'s netipx \<Rightarrow> ip_loader \<Rightarrow> IPRule list \<Rightarrow> 's ip_cache \<Rightarrow> ((go_error + 's IPMatcher) \<times> 's ip_cache) go" where
  "buildOptimizedIPMatcher lib load rules shared =
     (case group_rules rules no_groups of
        None \<Rightarrow> None
      | Some g \<Rightarrow> Some
          (case add_sub (posCustom g \<noteq> []) False (CreateFromCIDRs lib (posCustom g)) [] of
             Inl e \<Rightarrow> (Inl e, shared)
           | Inr subs \<Rightarrow>
          (case add_sub (negCustom g \<noteq> []) True (CreateFromCIDRs lib (negCustom g)) subs of
             Inl e \<Rightarrow> (Inl e, shared)
           | Inr subs \<Rightarrow>
          (case geo_sub lib load (posGeoip g) False (subs, shared) of
             (Inl e, shared) \<Rightarrow> (Inl e, shared)
           | (Inr subs, shared) \<Rightarrow>
          (case geo_sub lib load (negGeoip g) True (subs, shared) of
             (Inl e, shared) \<Rightarrow> (Inl e, shared)
           | (Inr subs, shared) \<Rightarrow> (finish_matcher subs, shared))))))"

section \<open>The registry\<close>

record 's DynamicIPMatcher =
  dyn_rules :: "IPRule list"
  dyn_matcher :: "'s IPMatcher"
  dyn_reverse :: bool
  dyn_reverseSet :: bool

definition Dynamic_Match :: "'s netipx \<Rightarrow> 's DynamicIPMatcher \<Rightarrow> netIP \<Rightarrow> bool" where
  "Dynamic_Match lib d ip = IPMatcher_Match lib (dyn_matcher d) ip"

definition Dynamic_AnyMatch :: "'s netipx \<Rightarrow> 's DynamicIPMatcher \<Rightarrow> netIP list \<Rightarrow> bool" where
  "Dynamic_AnyMatch lib d ips = IPMatcher_AnyMatch lib (dyn_matcher d) ips"

definition Dynamic_Matches :: "'s netipx \<Rightarrow> 's DynamicIPMatcher \<Rightarrow> netIP list \<Rightarrow> bool" where
  "Dynamic_Matches lib d ips = IPMatcher_Matches lib (dyn_matcher d) ips"

definition Dynamic_FilterIPs ::
  "'s netipx \<Rightarrow> iter_order \<Rightarrow> 's DynamicIPMatcher \<Rightarrow> netIP list \<Rightarrow> (netIP list \<times> netIP list) go" where
  "Dynamic_FilterIPs lib ord d ips = IPMatcher_FilterIPs lib ord (dyn_matcher d) ips"

definition Dynamic_ToggleReverse :: "'s DynamicIPMatcher \<Rightarrow> 's DynamicIPMatcher" where
  "Dynamic_ToggleReverse d =
     d\<lparr>dyn_reverse := \<not> dyn_reverse d, dyn_matcher := IPMatcher_ToggleReverse (dyn_matcher d)\<rparr>"

definition Dynamic_SetReverse :: "bool \<Rightarrow> 's DynamicIPMatcher \<Rightarrow> 's DynamicIPMatcher" where
  "Dynamic_SetReverse reverse d =
     d\<lparr>dyn_reverse := reverse, dyn_reverseSet := True, dyn_matcher := IPMatcher_SetReverse reverse (dyn_matcher d)\<rparr>"

definition Dynamic_Reload :: "'s IPMatcher \<Rightarrow> 's DynamicIPMatcher \<Rightarrow> 's DynamicIPMatcher" where
  "Dynamic_Reload newMatcher d =
     d\<lparr>dyn_matcher :=
         (if dyn_reverseSet d then IPMatcher_SetReverse (dyn_reverse d) newMatcher
          else if dyn_reverse d then IPMatcher_ToggleReverse newMatcher
          else newMatcher)\<rparr>"

definition NewDynamicIPMatcher :: "IPRule list \<Rightarrow> 's IPMatcher \<Rightarrow> 's DynamicIPMatcher" where
  "NewDynamicIPMatcher rules m =
     Dynamic_Reload m \<lparr>dyn_rules = rules, dyn_matcher = m, dyn_reverse = False, dyn_reverseSet = False\<rparr>"

text \<open>The registry: the cache of its factory, and the matchers it has built. One that nobody holds any more is collected, which cannot be observed.\<close>

record 's IPRegistry =
  reg_factory :: "'s ip_cache"
  reg_matchers :: "'s DynamicIPMatcher list"

definition newIPRegistry :: "'s IPRegistry" where
  "newIPRegistry = \<lparr>reg_factory = Map.empty, reg_matchers = []\<rparr>"

definition BuildIPMatcher ::
  "'s netipx \<Rightarrow> ip_loader \<Rightarrow> IPRule list \<Rightarrow> 's IPRegistry \<Rightarrow> ((go_error + 's DynamicIPMatcher) \<times> 's IPRegistry) go" where
  "BuildIPMatcher lib load rules r = do {
     (m, shared) \<leftarrow> buildOptimizedIPMatcher lib load rules (reg_factory r);
     let r = r\<lparr>reg_factory := shared\<rparr>;
     (case m of
        Inl e \<Rightarrow> Some (Inl e, r)
      | Inr m \<Rightarrow>
          let d = NewDynamicIPMatcher rules m in
          Some (Inr d, r\<lparr>reg_matchers := reg_matchers r @ [d]\<rparr>))
   }"

fun rebuild_loop ::
  "'s netipx \<Rightarrow> ip_loader \<Rightarrow> 's DynamicIPMatcher list \<Rightarrow> 's ip_cache \<Rightarrow>
   ((go_error + 's IPMatcher list) \<times> 's ip_cache) go" where
  "rebuild_loop lib load [] shared = Some (Inr [], shared)"
| "rebuild_loop lib load (d # ds) shared = do {
     (m, shared) \<leftarrow> buildOptimizedIPMatcher lib load (dyn_rules d) shared;
     (case m of
        Inl e \<Rightarrow> Some (Inl e, shared)
      | Inr m \<Rightarrow> do {
          (ms, shared) \<leftarrow> rebuild_loop lib load ds shared;
          (case ms of Inl e \<Rightarrow> Some (Inl e, shared) | Inr ms \<Rightarrow> Some (Inr (m # ms), shared))
        })
   }"

definition IPRegistry_Reload ::
  "'s netipx \<Rightarrow> ip_loader \<Rightarrow> 's IPRegistry \<Rightarrow> (go_error option \<times> 's IPRegistry) go" where
  "IPRegistry_Reload lib load r = do {
     (reloaded, factory) \<leftarrow> rebuild_loop lib load (reg_matchers r) Map.empty;
     (case reloaded of
        Inl e \<Rightarrow> Some (Some e, r)
      | Inr ms \<Rightarrow>
          Some (None, r\<lparr>reg_matchers := map (\<lambda>(m, d). Dynamic_Reload m d) (zip ms (reg_matchers r)),
                        reg_factory := factory\<rparr>))
   }"

end
