(* ===== verification/Ip_Rules.thy ===== *)
theory Ip_Rules
  imports Ip_Set
begin

text \<open>
  What a list of IP rules means. The rules are grouped into four sets (custom and GeoIP, plain and
  reversed); an address matches when one of the four groups accepts it. The matcher that is built
  from the rules, with the bucket heuristic and with every cache of earlier sets, answers so.
\<close>

section \<open>The prefixes of a set\<close>

lemma PrefixFrom_wf:
  assumes "addr_len_ok a" "Prefix_IsValid (PrefixFrom a (int k))"
  shows "prefix_wf (PrefixFrom a (int k))"
  using assms by (auto simp: PrefixFrom_def Prefix_IsValid_def prefix_wf_def split: if_splits)

lemma AddrFromSlice_len: "AddrFromSlice bs = Some a \<Longrightarrow> addr_len_ok a"
  by (auto simp: AddrFromSlice_def split: if_splits)

lemma cidr_prefix_wf:
  assumes "cidr_prefix c = Some p"
  shows "prefix_wf p" "Prefix_IsValid p"
proof -
  define k where "k = unat (cidr_Prefix c)"
  obtain a where "AddrFromSlice (cidr_Ip c) = Some a" "p = PrefixFrom a (int k)" "Prefix_IsValid p"
    using assms unfolding cidr_prefix_def Let_def k_def [symmetric] by (auto split: option.splits if_splits)
  then show "prefix_wf p" "Prefix_IsValid p" using PrefixFrom_wf [OF AddrFromSlice_len] by auto
qed

lemma addr_len_family: "addr_len_ok a \<Longrightarrow> Is4 a \<or> Is6 a"
  by (cases a) auto

definition prefixes_of :: "(netip_Addr \<Rightarrow> bool) \<Rightarrow> CIDR list \<Rightarrow> netip_Prefix list" where
  "prefixes_of P cs = filter (\<lambda>p. P (pfx_addr p)) (List.map_filter cidr_prefix cs)"

lemma fold_add_cidr:
  "fold add_cidr cs (b4, b6) = (b4 @ prefixes_of Is4 cs, b6 @ prefixes_of Is6 cs)"
proof (induction cs arbitrary: b4 b6)
  case (Cons c cs)
  show ?case
  proof (cases "cidr_prefix c")
    case None
    then show ?thesis using Cons by (simp add: add_cidr_def prefixes_of_def)
  next
    case (Some p)
    then have "addr_len_ok (pfx_addr p)" using cidr_prefix_wf(1) by (simp add: prefix_wf_def)
    then show ?thesis using Cons Some addr_len_family [of "pfx_addr p"] Is4_not_Is6 [of "pfx_addr p"]
      by (auto simp: add_cidr_def prefixes_of_def)
  qed
qed (simp add: prefixes_of_def)

lemma set_prefixes_of: "p \<in> set (prefixes_of P cs) \<longleftrightarrow> P (pfx_addr p) \<and> (\<exists>c \<in> set cs. cidr_prefix c = Some p)"
  by (force simp: prefixes_of_def List.map_filter_def)

lemma prefixes_of_wf: "list_all prefix_wf (prefixes_of P cs)"
  by (auto simp: list_all_iff set_prefixes_of intro: cidr_prefix_wf(1))

lemma prefix_wf_self: "prefix_wf p \<Longrightarrow> Prefix_Contains p (pfx_addr p)"
  using addr_len_family by (auto simp: prefix_wf_def Prefix_Contains_def same_family_def)

lemma prefix_wf_bits: "prefix_wf p \<Longrightarrow> 0 \<le> Prefix_Bits p \<and> Prefix_Bits p \<le> 128"
  by (cases "pfx_addr p") (auto simp: prefix_wf_def Prefix_Bits_def BitLen_def)

lemma foldl_max_bounds:
  "mx \<le> foldl (\<lambda>mx p. if Prefix_Bits p > mx then Prefix_Bits p else mx) mx ps \<and>
   (\<forall>p \<in> set ps. Prefix_Bits p \<le> foldl (\<lambda>mx p. if Prefix_Bits p > mx then Prefix_Bits p else mx) mx ps) \<and>
   foldl (\<lambda>mx p. if Prefix_Bits p > mx then Prefix_Bits p else mx) mx ps \<in> insert mx (Prefix_Bits ` set ps)"
proof (induction ps arbitrary: mx)
  case (Cons p ps)
  show ?case using Cons.IH [of "Prefix_Bits p"] Cons.IH [of mx] by (cases "Prefix_Bits p > mx") auto
qed simp

lemma max_bits_bounds:
  assumes "list_all prefix_wf ps"
  shows "0 \<le> max_bits ps" "max_bits ps \<le> 128" "p \<in> set ps \<Longrightarrow> Prefix_Bits p \<le> max_bits ps"
proof -
  show "0 \<le> max_bits ps" "p \<in> set ps \<Longrightarrow> Prefix_Bits p \<le> max_bits ps"
    using foldl_max_bounds [of 0 ps] by (auto simp: max_bits_def)
  have "max_bits ps \<in> insert 0 (Prefix_Bits ` set ps)" using foldl_max_bounds [of 0 ps] by (simp add: max_bits_def)
  then show "max_bits ps \<le> 128" using assms prefix_wf_bits by (auto simp: list_all_iff)
qed

lemma unat_max_field:
  assumes "list_all prefix_wf ps"
  shows "unat (max_field ps) = (if ps = [] then 255 else if max_bits ps = 0 then 254 else nat (max_bits ps))"
proof -
  have "unat (word_of_int (max_bits ps) :: byte) = nat (max_bits ps)"
    using max_bits_bounds(1,2) [OF assms] unat_of_nat_byte [of "nat (max_bits ps)"] by simp
  then show ?thesis by (simp add: max_field_def)
qed

lemma max_field_empty: "list_all prefix_wf ps \<Longrightarrow> max_field ps = 0xff \<longleftrightarrow> ps = []"
proof -
  assume a: "list_all prefix_wf ps"
  have "max_field ps = 0xff \<longleftrightarrow> unat (max_field ps) = unat (0xff :: byte)"
    by (rule word_unat_eq_iff)
  then show ?thesis using unat_max_field [OF a] max_bits_bounds(1,2) [OF a] by auto
qed

lemma max_field_short:
  assumes "list_all prefix_wf ps" "max_field ps \<le> of_nat n" "n < 128" "p \<in> set ps"
  shows "Prefix_Bits p \<le> int n"
proof -
  have "unat (max_field ps) \<le> n" using assms(2,3) by (simp add: word_le_nat_alt unat_of_nat_byte)
  then have "max_bits ps \<le> int n"
    using assms(3,4) max_bits_bounds(1) [OF assms(1)] by (auto simp: unat_max_field [OF assms(1)] split: if_splits)
  then show ?thesis using max_bits_bounds(3) [OF assms(1,4)] by linarith
qed

section \<open>What a group of prefixes accepts\<close>

definition group_match :: "bool \<Rightarrow> CIDR list \<Rightarrow> netip_Addr \<Rightarrow> bool" where
  "group_match reverse cs a \<longleftrightarrow>
     (\<exists>c \<in> set cs. \<exists>p. cidr_prefix c = Some p \<and> same_family (pfx_addr p) a) \<and>
     ((\<exists>c \<in> set cs. \<exists>p. cidr_prefix c = Some p \<and> Prefix_Contains p a) \<noteq> reverse)"

lemma netipx_build:
  assumes "netipx_ok lib"
  shows "\<exists>s. IPSet_build lib (prefixes_of P cs) = Inr s \<and> set_ok lib s \<and> list_all prefix_wf (IPSet_Prefixes lib s) \<and>
    (\<forall>a. IPSet_Contains lib s a \<longleftrightarrow> (\<exists>p \<in> set (prefixes_of P cs). Prefix_Contains p a)) \<and>
    (IPSet_Prefixes lib s = [] \<longleftrightarrow> prefixes_of P cs = [])"
proof -
  obtain s where s: "IPSet_build lib (prefixes_of P cs) = Inr s"
    using assms prefixes_of_wf [of P cs] by (auto simp: netipx_ok_def)
  then have laws: "list_all prefix_wf (IPSet_Prefixes lib s)"
      "\<forall>a. IPSet_Contains lib s a \<longleftrightarrow> (\<exists>p \<in> set (prefixes_of P cs). Prefix_Contains p a)"
      "\<forall>a. IPSet_Contains lib s a \<longleftrightarrow> (\<exists>p \<in> set (IPSet_Prefixes lib s). Prefix_Contains p a)"
    using assms prefixes_of_wf [of P cs] unfolding netipx_ok_def by blast+
  have "\<exists>q \<in> set (prefixes_of P cs). Prefix_Contains q (pfx_addr p)" if "p \<in> set (IPSet_Prefixes lib s)" for p
    using that laws prefix_wf_self [of p] by (auto simp: list_all_iff)
  moreover have "\<exists>q \<in> set (IPSet_Prefixes lib s). Prefix_Contains q (pfx_addr p)" if "p \<in> set (prefixes_of P cs)" for p
  proof -
    have "prefix_wf p" using that cidr_prefix_wf(1) by (auto simp: set_prefixes_of)
    then show ?thesis using that laws(2,3) prefix_wf_self [of p] by blast
  qed
  ultimately have "IPSet_Prefixes lib s = [] \<longleftrightarrow> prefixes_of P cs = []"
    by (metis equals0D list.set(1) list.set_intros(1) neq_Nil_conv)
  then show ?thesis using s laws by (auto simp: set_ok_def)
qed

lemma group_family:
  assumes "\<And>x. same_family x a \<longleftrightarrow> P x"
  shows "(\<exists>c \<in> set cs. \<exists>p. cidr_prefix c = Some p \<and> same_family (pfx_addr p) a) \<longleftrightarrow> prefixes_of P cs \<noteq> []"
    and "(\<exists>c \<in> set cs. \<exists>p. cidr_prefix c = Some p \<and> Prefix_Contains p a) \<longleftrightarrow>
      (\<exists>p \<in> set (prefixes_of P cs). Prefix_Contains p a)"
proof -
  have fam: "Prefix_Contains p a \<Longrightarrow> P (pfx_addr p)" for p
    using assms by (auto simp: Prefix_Contains_def split: option.splits)
  have "prefixes_of P cs \<noteq> [] \<longleftrightarrow> (\<exists>p. p \<in> set (prefixes_of P cs))" by (cases "prefixes_of P cs") auto
  then show "(\<exists>c \<in> set cs. \<exists>p. cidr_prefix c = Some p \<and> same_family (pfx_addr p) a) \<longleftrightarrow> prefixes_of P cs \<noteq> []"
    unfolding set_prefixes_of assms by blast
  show "(\<exists>c \<in> set cs. \<exists>p. cidr_prefix c = Some p \<and> Prefix_Contains p a) \<longleftrightarrow>
      (\<exists>p \<in> set (prefixes_of P cs). Prefix_Contains p a)"
    unfolding Bex_def set_prefixes_of using fam by blast
qed

lemma createFrom_spec:
  assumes "netipx_ok lib"
  shows "\<exists>s. createFrom lib (cs, None) = Inr s \<and> (\<forall>reverse. hm_ok lib \<lparr>hm_ipset = s, hm_reverse = reverse\<rparr> \<and>
    (\<forall>a. addr_len_ok a \<longrightarrow> matchAddr lib \<lparr>hm_ipset = s, hm_reverse = reverse\<rparr> a = group_match reverse cs a))"
proof -
  obtain s4 where s4: "IPSet_build lib (prefixes_of Is4 cs) = Inr s4" "set_ok lib s4" "list_all prefix_wf (IPSet_Prefixes lib s4)"
      "\<forall>a. IPSet_Contains lib s4 a \<longleftrightarrow> (\<exists>p \<in> set (prefixes_of Is4 cs). Prefix_Contains p a)"
      "IPSet_Prefixes lib s4 = [] \<longleftrightarrow> prefixes_of Is4 cs = []"
    using netipx_build [OF assms, of Is4 cs] by blast
  obtain s6 where s6: "IPSet_build lib (prefixes_of Is6 cs) = Inr s6" "set_ok lib s6" "list_all prefix_wf (IPSet_Prefixes lib s6)"
      "\<forall>a. IPSet_Contains lib s6 a \<longleftrightarrow> (\<exists>p \<in> set (prefixes_of Is6 cs). Prefix_Contains p a)"
      "IPSet_Prefixes lib s6 = [] \<longleftrightarrow> prefixes_of Is6 cs = []"
    using netipx_build [OF assms, of Is6 cs] by blast
  let ?s = "\<lparr>ipset_ipv4 = s4, ipset_ipv6 = s6, ipset_max4 = max_field (IPSet_Prefixes lib s4),
    ipset_max6 = max_field (IPSet_Prefixes lib s6)\<rparr>"
  have c: "createFrom lib (cs, None) = Inr ?s"
    using s4(1) s6(1) by (simp add: createFrom_def fold_add_cidr)
  have ok: "hm_ok lib \<lparr>hm_ipset = ?s, hm_reverse = r\<rparr>" for r
    using s4(2,3) s6(2,3) max_field_short [of "IPSet_Prefixes lib s4" 24] max_field_short [of "IPSet_Prefixes lib s6" 64]
    by (auto simp: hm_ok_def heur4_def heur6_def short_set_def)
  have "matchAddr lib \<lparr>hm_ipset = ?s, hm_reverse = r\<rparr> a = group_match r cs a" if "addr_len_ok a" for r a
  proof (cases "Is4 a")
    case True
    then have "same_family x a \<longleftrightarrow> Is4 x" for x using Is4_not_Is6 by (auto simp: same_family_def)
    note g = group_family [OF this, of cs]
    show ?thesis using g True s4(4,5) max_field_empty [OF s4(3)] by (simp add: matchAddr_def group_match_def)
  next
    case False
    then have i: "Is6 a" using that addr_len_family by blast
    then have "same_family x a \<longleftrightarrow> Is6 x" for x using False Is4_not_Is6 by (auto simp: same_family_def)
    note g = group_family [OF this, of cs]
    show ?thesis using g i False s6(4,5) max_field_empty [OF s6(3)] by (simp add: matchAddr_def group_match_def)
  qed
  then show ?thesis using c ok by blast
qed

section \<open>The key of a set in the cache\<close>

definition colon :: byte where "colon = 58"
definition comma :: byte where "comma = 44"

lemma str_colon: "str '':'' = [colon]" by (simp add: str_def ascii_def colon_def)
lemma str_comma: "str '','' = [comma]" by (simp add: str_def ascii_def comma_def)

definition name_ok :: "gostring \<times> gostring \<Rightarrow> bool" where
  "name_ok = (\<lambda>(file, code). colon \<notin> set file \<and> comma \<notin> set code)"

definition name_enc :: "gostring \<times> gostring \<Rightarrow> gostring" where
  "name_enc = (\<lambda>(file, code). file @ [colon] @ code @ [comma])"

fun skip_same :: "'a list \<Rightarrow> 'a option \<Rightarrow> 'a list" where
  "skip_same [] lst = []"
| "skip_same (n # ns) lst = (if lst = Some n then skip_same ns lst else n # skip_same ns (Some n))"

lemma key_loop_enc: "key_loop ns lst = concat (map name_enc (skip_same ns lst))"
  by (induction ns lst rule: key_loop.induct) (auto simp: name_enc_def str_colon str_comma)

lemma set_skip_same: "set (skip_same ns lst) \<union> set_option lst = set ns \<union> set_option lst"
  by (induction ns lst rule: skip_same.induct) auto

lemma sep_unique:
  assumes "s \<notin> set a" "s \<notin> set b" "a @ s # x = b @ s # y"
  shows "a = b \<and> x = y"
  using assms
proof (induction a arbitrary: b)
  case Nil
  then show ?case by (cases b) auto
next
  case (Cons c a)
  then show ?case by (cases b) auto
qed

lemma name_enc_unique:
  assumes "list_all name_ok ns" "list_all name_ok ms" "concat (map name_enc ns) = concat (map name_enc ms)"
  shows "ns = ms"
  using assms
proof (induction ns arbitrary: ms)
  case Nil
  then show ?case by (cases ms) (auto simp: name_enc_def)
next
  case (Cons n ns)
  then obtain m ms' where ms: "ms = m # ms'" by (cases ms) (auto simp: name_enc_def split: prod.splits)
  obtain f c where n: "n = (f, c)" by (cases n)
  obtain g d where m: "m = (g, d)" by (cases m)
  have ok: "colon \<notin> set f" "comma \<notin> set c" "colon \<notin> set g" "comma \<notin> set d"
    using Cons.prems(1,2) by (auto simp: n m ms name_ok_def)
  have "f @ colon # (c @ comma # concat (map name_enc ns)) = g @ colon # (d @ comma # concat (map name_enc ms'))"
    using Cons.prems(3) by (simp add: n m ms name_enc_def)
  then have "f = g" "c @ comma # concat (map name_enc ns) = d @ comma # concat (map name_enc ms')"
    using sep_unique [OF ok(1,3)] by blast+
  moreover from this have "c = d" "concat (map name_enc ns) = concat (map name_enc ms')"
    using sep_unique [OF ok(2,4)] by blast+
  ultimately show ?case using Cons.IH [of ms'] Cons.prems n m ms by simp
qed

lemma key_names:
  assumes "list_all name_ok (rule_names rs)" "list_all name_ok (rule_names rs')"
    and "buildGeoIPRulesKey rs = buildGeoIPRulesKey rs'"
  shows "set (rule_names rs) = set (rule_names rs')"
proof -
  have set: "set (skip_same (sort (rule_names xs)) None) = set (rule_names xs)" for xs
    using set_skip_same [of "sort (rule_names xs)" None] by simp
  then have "list_all name_ok (skip_same (sort (rule_names rs)) None)" "list_all name_ok (skip_same (sort (rule_names rs')) None)"
    using assms(1,2) by (auto simp: list_all_iff)
  then have "skip_same (sort (rule_names rs)) None = skip_same (sort (rule_names rs')) None"
    using assms(3) by (intro name_enc_unique) (simp_all add: buildGeoIPRulesKey_def key_loop_enc)
  then show ?thesis using set by metis
qed

section \<open>Sets from the cache\<close>

text \<open>The CIDRs of a list of rules, when every file can be loaded.\<close>

definition rules_cidrs :: "ip_loader \<Rightarrow> GeoIPRule list \<Rightarrow> CIDR set" where
  "rules_cidrs load rs = {c. \<exists>r \<in> set rs. \<exists>cs. load (gi_File r) (gi_Code r) = Inr cs \<and> c \<in> set cs}"

definition rules_load :: "ip_loader \<Rightarrow> GeoIPRule list \<Rightarrow> bool" where
  "rules_load load rs \<longleftrightarrow> (\<forall>r \<in> set rs. \<exists>cs. load (gi_File r) (gi_Code r) = Inr cs)"

lemma load_rules_spec:
  "\<exists>cs err. load_rules load rs = (cs, err) \<and> (err = None \<longleftrightarrow> rules_load load rs) \<and>
    (err = None \<longrightarrow> set cs = rules_cidrs load rs)"
proof (induction rs)
  case (Cons r rs)
  then show ?case
    by (cases "load (gi_File r) (gi_Code r)") (auto simp: rules_load_def rules_cidrs_def split: prod.splits)
qed (simp add: rules_load_def rules_cidrs_def)

lemma rules_names_same:
  assumes "set (rule_names rs) = set (rule_names rs')"
  shows "rules_load load rs = rules_load load rs'" "rules_cidrs load rs = rules_cidrs load rs'"
proof -
  have l: "rules_load load xs \<longleftrightarrow> (\<forall>n \<in> set (rule_names xs). \<exists>cs. load (fst n) (snd n) = Inr cs)" for xs
    by (auto simp: rules_load_def rule_names_def)
  have c: "rules_cidrs load xs = {c. \<exists>n \<in> set (rule_names xs). \<exists>cs. load (fst n) (snd n) = Inr cs \<and> c \<in> set cs}" for xs
    by (auto simp: rules_cidrs_def rule_names_def)
  show "rules_load load rs = rules_load load rs'" "rules_cidrs load rs = rules_cidrs load rs'"
    unfolding l c assms by simp_all
qed

text \<open>A set that accepts what the CIDRs accept, for both directions.\<close>

definition set_for :: "'s netipx \<Rightarrow> CIDR set \<Rightarrow> 's IPSet \<Rightarrow> bool" where
  "set_for lib C s \<longleftrightarrow> (\<forall>reverse. hm_ok lib \<lparr>hm_ipset = s, hm_reverse = reverse\<rparr> \<and>
    (\<forall>a cs. addr_len_ok a \<longrightarrow> set cs = C \<longrightarrow> matchAddr lib \<lparr>hm_ipset = s, hm_reverse = reverse\<rparr> a = group_match reverse cs a))"

definition cache_ok :: "'s netipx \<Rightarrow> ip_loader \<Rightarrow> 's ip_cache \<Rightarrow> bool" where
  "cache_ok lib load shared \<longleftrightarrow> (\<forall>key s. shared key = Some s \<longrightarrow>
     (\<exists>rs. list_all name_ok (rule_names rs) \<and> buildGeoIPRulesKey rs = key \<and> rules_load load rs \<and>
       set_for lib (rules_cidrs load rs) s))"

lemma group_match_set: "set cs = set cs' \<Longrightarrow> group_match reverse cs a = group_match reverse cs' a"
  by (simp add: group_match_def)

lemma createFrom_set_for:
  assumes "netipx_ok lib"
  shows "\<exists>s. createFrom lib (cs, None) = Inr s \<and> set_for lib (set cs) s"
  using createFrom_spec [OF assms, of cs] group_match_set unfolding set_for_def by metis

lemma GetOrCreate_spec:
  assumes "netipx_ok lib" "cache_ok lib load shared" "list_all name_ok (rule_names rs)"
  shows "\<exists>r shared'. GetOrCreateFromGeoIPRules lib load rs shared = (r, shared') \<and> cache_ok lib load shared' \<and>
    (if rules_load load rs then \<exists>s. r = Inr s \<and> set_for lib (rules_cidrs load rs) s else \<exists>e. r = Inl e)"
proof (cases "shared (buildGeoIPRulesKey rs)")
  case (Some s)
  then obtain rs' where rs': "list_all name_ok (rule_names rs')" "buildGeoIPRulesKey rs' = buildGeoIPRulesKey rs"
      "rules_load load rs'" "set_for lib (rules_cidrs load rs') s"
    using assms(2) unfolding cache_ok_def by blast
  have "set (rule_names rs') = set (rule_names rs)" using key_names [OF rs'(1) assms(3) rs'(2)] .
  then have "rules_load load rs" "set_for lib (rules_cidrs load rs) s" using rs'(3,4) rules_names_same by metis+
  then show ?thesis using Some assms(2) by (simp add: GetOrCreateFromGeoIPRules_def)
next
  case None
  obtain cs err where l: "load_rules load rs = (cs, err)" "err = None \<longleftrightarrow> rules_load load rs"
      "err = None \<longrightarrow> set cs = rules_cidrs load rs"
    using load_rules_spec [of load rs] by blast
  show ?thesis
  proof (cases err)
    case (Some e)
    then show ?thesis using None l assms(2) by (simp add: GetOrCreateFromGeoIPRules_def createFrom_def split: prod.splits)
  next
    case none: None
    obtain s where s: "createFrom lib (cs, None) = Inr s" "set_for lib (set cs) s"
      using createFrom_set_for [OF assms(1)] by blast
    have "cache_ok lib load (shared(buildGeoIPRulesKey rs \<mapsto> s))"
      using assms(2,3) s(2) l none unfolding cache_ok_def by auto
    then show ?thesis using None none l s by (simp add: GetOrCreateFromGeoIPRules_def)
  qed
qed

section \<open>The matcher of a list of rules\<close>

fun custom_cidr :: "bool \<Rightarrow> IPRule \<Rightarrow> CIDR list" where
  "custom_cidr reverse (IPRule_Custom v) = (if cr_ReverseMatch v = reverse then [cr_Cidr v] else [])"
| "custom_cidr reverse _ = []"

fun geo_rule :: "bool \<Rightarrow> IPRule \<Rightarrow> GeoIPRule list" where
  "geo_rule reverse (IPRule_Geoip v) = (if gi_ReverseMatch v = reverse then [v] else [])"
| "geo_rule reverse _ = []"

definition custom_cidrs :: "bool \<Rightarrow> IPRule list \<Rightarrow> CIDR list" where
  "custom_cidrs reverse rules = concat (map (custom_cidr reverse) rules)"

definition geo_rules :: "bool \<Rightarrow> IPRule list \<Rightarrow> GeoIPRule list" where
  "geo_rules reverse rules = concat (map (geo_rule reverse) rules)"

definition geo_cidrs :: "ip_loader \<Rightarrow> GeoIPRule list \<Rightarrow> CIDR list" where
  "geo_cidrs load rs = concat (map (\<lambda>r. case load (gi_File r) (gi_Code r) of Inl _ \<Rightarrow> [] | Inr cs \<Rightarrow> cs) rs)"

text \<open>What the rules accept: one of the four groups.\<close>

definition ip_rules_accept :: "ip_loader \<Rightarrow> IPRule list \<Rightarrow> netip_Addr \<Rightarrow> bool" where
  "ip_rules_accept load rules a \<longleftrightarrow>
     group_match False (custom_cidrs False rules) a \<or> group_match True (custom_cidrs True rules) a \<or>
     group_match False (geo_cidrs load (geo_rules False rules)) a \<or>
     group_match True (geo_cidrs load (geo_rules True rules)) a"

lemma group_rules_spec:
  "IPRule_Unset \<notin> set rules \<Longrightarrow> group_rules rules g =
    Some \<lparr>posCustom = posCustom g @ custom_cidrs False rules, negCustom = negCustom g @ custom_cidrs True rules,
      posGeoip = posGeoip g @ geo_rules False rules, negGeoip = negGeoip g @ geo_rules True rules\<rparr>"
  by (induction rules g rule: group_rules.induct) (auto simp: custom_cidrs_def geo_rules_def)

lemma set_geo_cidrs: "set (geo_cidrs load rs) = rules_cidrs load rs"
  by (force simp: geo_cidrs_def rules_cidrs_def split: sum.splits)

definition subs_ok :: "'s netipx \<Rightarrow> (netip_Addr \<Rightarrow> bool) \<Rightarrow> 's HeuristicIPMatcher list \<Rightarrow> bool" where
  "subs_ok lib P subs \<longleftrightarrow> list_all (hm_ok lib) subs \<and>
     (\<forall>a. addr_len_ok a \<longrightarrow> (\<exists>m \<in> set subs. matchAddr lib m a) = P a)"

lemma group_match_Nil: "\<not> group_match reverse [] a"
  by (simp add: group_match_def)

lemma subs_ok_snoc:
  assumes "subs_ok lib P subs" "set_for lib (set cs) s"
  shows "subs_ok lib (\<lambda>a. P a \<or> group_match reverse cs a) (subs @ [\<lparr>hm_ipset = s, hm_reverse = reverse\<rparr>])"
  using assms unfolding subs_ok_def set_for_def by (simp add: bex_Un) blast

lemma add_sub_custom:
  assumes "netipx_ok lib" "subs_ok lib P subs"
  shows "\<exists>subs'. add_sub (cs \<noteq> []) reverse (CreateFromCIDRs lib cs) subs = Inr subs' \<and>
    subs_ok lib (\<lambda>a. P a \<or> group_match reverse cs a) subs' \<and> (subs' = [] \<longleftrightarrow> subs = [] \<and> cs = [])"
proof (cases "cs = []")
  case True
  then show ?thesis using assms(2) by (simp add: add_sub_def group_match_Nil)
next
  case False
  obtain s where "createFrom lib (cs, None) = Inr s" "set_for lib (set cs) s"
    using createFrom_set_for [OF assms(1)] by blast
  then show ?thesis using False subs_ok_snoc [OF assms(2)] by (simp add: add_sub_def CreateFromCIDRs_def)
qed

lemma geo_sub_spec:
  assumes "netipx_ok lib" "subs_ok lib P subs" "cache_ok lib load shared" "list_all name_ok (rule_names rs)"
    and "rules_load load rs"
  shows "\<exists>subs' shared'. geo_sub lib load rs reverse (subs, shared) = (Inr subs', shared') \<and>
    subs_ok lib (\<lambda>a. P a \<or> group_match reverse (geo_cidrs load rs) a) subs' \<and> cache_ok lib load shared' \<and>
    (subs' = [] \<longleftrightarrow> subs = [] \<and> rs = [])"
proof (cases "rs = []")
  case True
  then show ?thesis using assms(2,3) by (simp add: geo_sub_def group_match_Nil geo_cidrs_def)
next
  case False
  obtain s shared' where "GetOrCreateFromGeoIPRules lib load rs shared = (Inr s, shared')" "cache_ok lib load shared'"
      "set_for lib (rules_cidrs load rs) s"
    using GetOrCreate_spec [OF assms(1,3,4)] assms(5) by auto
  then show ?thesis using False subs_ok_snoc [OF assms(2), of "geo_cidrs load rs" s reverse]
    by (simp add: geo_sub_def add_sub_def set_geo_cidrs)
qed

lemma finish_matcher_spec:
  assumes "netipx_ok lib" "subs_ok lib P subs" "subs \<noteq> []"
  shows "\<exists>m. finish_matcher subs = Inr m \<and>
    (\<forall>ips. IPMatcher_AnyMatch lib m ips \<longleftrightarrow> (\<exists>ip \<in> set ips. \<exists>a. std_addr ip = Some a \<and> P a))"
proof -
  have ok: "list_all (hm_ok lib) subs" using assms(2) by (simp add: subs_ok_def)
  have P: "(\<exists>m \<in> set subs. ip_test lib m ip) \<longleftrightarrow> (\<exists>a. std_addr ip = Some a \<and> P a)" for ip
  proof (cases "std_addr ip")
    case (Some a)
    then show ?thesis using assms(2) std_addr_ok [OF Some] by (simp add: subs_ok_def ip_test_def)
  qed (simp add: ip_test_def)
  consider m where "subs = [m]" | "finish_matcher subs = Inr (HeuristicMulti \<lparr>mm_matchers = subs\<rparr>)"
    using assms(3) by (cases subs rule: list.exhaust; cases "tl subs") (auto simp: finish_matcher_def)
  then show ?thesis
  proof cases
    case (1 m)
    then have "Heuristic_AnyMatch lib m ips \<longleftrightarrow> (\<exists>ip \<in> set ips. \<exists>a. std_addr ip = Some a \<and> P a)" for ips
      using Heuristic_AnyMatch_iff [OF assms(1), of m ips] Heuristic_Match_test [OF assms(1)] ok P by simp
    then show ?thesis using 1 by (simp add: finish_matcher_def)
  next
    case 2
    then have "HeuristicMulti_AnyMatch lib \<lparr>mm_matchers = subs\<rparr> ips \<longleftrightarrow> (\<exists>ip \<in> set ips. \<exists>a. std_addr ip = Some a \<and> P a)" for ips
      using HeuristicMulti_AnyMatch_iff [OF assms(1), of "\<lparr>mm_matchers = subs\<rparr>" ips]
        HeuristicMulti_Match_test [OF assms(1)] ok P by simp
    then show ?thesis using 2 by simp
  qed
qed

lemma rules_groups_empty:
  assumes "IPRule_Unset \<notin> set rules" "rules \<noteq> []"
  shows "\<not> (custom_cidrs False rules = [] \<and> custom_cidrs True rules = [] \<and> geo_rules False rules = [] \<and> geo_rules True rules = [])"
proof -
  obtain r rs where "rules = r # rs" using assms(2) by (cases rules) auto
  then show ?thesis using assms(1) by (cases r) (auto simp: custom_cidrs_def geo_rules_def)
qed

definition geo_names_ok :: "IPRule list \<Rightarrow> bool" where
  "geo_names_ok rules \<longleftrightarrow> (\<forall>v. IPRule_Geoip v \<in> set rules \<longrightarrow> name_ok (gi_File v, gi_Code v))"

lemma set_geo_rules: "v \<in> set (geo_rules reverse rules) \<longleftrightarrow> IPRule_Geoip v \<in> set rules \<and> gi_ReverseMatch v = reverse"
proof -
  have "v \<in> set (geo_rule reverse r) \<longleftrightarrow> r = IPRule_Geoip v \<and> gi_ReverseMatch v = reverse" for r
    by (cases r) auto
  then show ?thesis by (auto simp: geo_rules_def)
qed

text \<open>Rules with a value, whose codes load, and whose file names and codes do not contain the separators of keys.\<close>

definition rules_ok :: "ip_loader \<Rightarrow> IPRule list \<Rightarrow> bool" where
  "rules_ok load rules \<longleftrightarrow> rules \<noteq> [] \<and> IPRule_Unset \<notin> set rules \<and> geo_names_ok rules \<and>
     (\<forall>v. IPRule_Geoip v \<in> set rules \<longrightarrow> (\<exists>cs. load (gi_File v) (gi_Code v) = Inr cs))"

definition answers :: "ip_loader \<Rightarrow> IPRule list \<Rightarrow> (netIP list \<Rightarrow> bool) \<Rightarrow> bool" where
  "answers load rules any \<longleftrightarrow>
     (\<forall>ips. any ips \<longleftrightarrow> (\<exists>ip \<in> set ips. \<exists>a. std_addr ip = Some a \<and> ip_rules_accept load rules a))"

lemma buildOptimized_spec:
  assumes "netipx_ok lib" "cache_ok lib load shared" and rules: "rules_ok load rules"
  shows "\<exists>m shared'. buildOptimizedIPMatcher lib load rules shared = Some (Inr m, shared') \<and> cache_ok lib load shared' \<and>
    answers load rules (IPMatcher_AnyMatch lib m)"
proof -
  have unset: "IPRule_Unset \<notin> set rules" "rules \<noteq> []" using rules by (simp_all add: rules_ok_def)
  have g: "group_rules rules no_groups = Some \<lparr>posCustom = custom_cidrs False rules, negCustom = custom_cidrs True rules,
      posGeoip = geo_rules False rules, negGeoip = geo_rules True rules\<rparr>"
    using group_rules_spec [OF unset(1)] by (simp add: no_groups_def)
  have n: "list_all name_ok (rule_names (geo_rules r rules))" "rules_load load (geo_rules r rules)" for r
    using rules by (auto simp: rules_ok_def geo_names_ok_def rule_names_def rules_load_def list_all_iff set_geo_rules)
  have s0: "subs_ok lib (\<lambda>a. False) []" by (simp add: subs_ok_def)
  obtain s1 where s1: "add_sub (custom_cidrs False rules \<noteq> []) False (CreateFromCIDRs lib (custom_cidrs False rules)) [] = Inr s1"
      "subs_ok lib (\<lambda>a. False \<or> group_match False (custom_cidrs False rules) a) s1"
      "s1 = [] \<longleftrightarrow> custom_cidrs False rules = []"
    using add_sub_custom [OF assms(1) s0] by blast
  obtain s2 where s2: "add_sub (custom_cidrs True rules \<noteq> []) True (CreateFromCIDRs lib (custom_cidrs True rules)) s1 = Inr s2"
      "subs_ok lib (\<lambda>a. (False \<or> group_match False (custom_cidrs False rules) a) \<or> group_match True (custom_cidrs True rules) a) s2"
      "s2 = [] \<longleftrightarrow> s1 = [] \<and> custom_cidrs True rules = []"
    using add_sub_custom [OF assms(1) s1(2)] by blast
  obtain s3 c3 where s3: "geo_sub lib load (geo_rules False rules) False (s2, shared) = (Inr s3, c3)"
      "subs_ok lib (\<lambda>a. ((False \<or> group_match False (custom_cidrs False rules) a) \<or> group_match True (custom_cidrs True rules) a) \<or>
         group_match False (geo_cidrs load (geo_rules False rules)) a) s3" "cache_ok lib load c3"
      "s3 = [] \<longleftrightarrow> s2 = [] \<and> geo_rules False rules = []"
    using geo_sub_spec [OF assms(1) s2(2) assms(2) n, of False] by blast
  obtain s4 c4 where s4: "geo_sub lib load (geo_rules True rules) True (s3, c3) = (Inr s4, c4)"
      "subs_ok lib (\<lambda>a. (((False \<or> group_match False (custom_cidrs False rules) a) \<or> group_match True (custom_cidrs True rules) a) \<or>
         group_match False (geo_cidrs load (geo_rules False rules)) a) \<or>
         group_match True (geo_cidrs load (geo_rules True rules)) a) s4" "cache_ok lib load c4"
      "s4 = [] \<longleftrightarrow> s3 = [] \<and> geo_rules True rules = []"
    using geo_sub_spec [OF assms(1) s3(2,3) n, of True] by blast
  have "s4 \<noteq> []" using rules_groups_empty [OF unset] s1(3) s2(3) s3(4) s4(4) by blast
  then obtain m where m: "finish_matcher s4 = Inr m"
      "\<forall>ips. IPMatcher_AnyMatch lib m ips \<longleftrightarrow> (\<exists>ip \<in> set ips. \<exists>a. std_addr ip = Some a \<and>
        ((((False \<or> group_match False (custom_cidrs False rules) a) \<or> group_match True (custom_cidrs True rules) a) \<or>
         group_match False (geo_cidrs load (geo_rules False rules)) a) \<or>
         group_match True (geo_cidrs load (geo_rules True rules)) a))"
    using finish_matcher_spec [OF assms(1) s4(2)] by blast
  have "buildOptimizedIPMatcher lib load rules shared = Some (Inr m, c4)"
    using g s1(1) s2(1) s3(1) s4(1) m(1) by (simp add: buildOptimizedIPMatcher_def)
  then show ?thesis using s4(3) m(2) by (simp add: answers_def ip_rules_accept_def disj_assoc)
qed

section \<open>Reversing and reloading\<close>

lemma Toggle_Toggle [simp]: "IPMatcher_ToggleReverse (IPMatcher_ToggleReverse m) = m"
  by (induction m)
    (auto simp: Heuristic_ToggleReverse_def HeuristicMulti_ToggleReverse_def comp_def map_idI)

lemma Set_Toggle [simp]: "IPMatcher_SetReverse r (IPMatcher_ToggleReverse m) = IPMatcher_SetReverse r m"
  by (induction m)
    (auto simp: Heuristic_ToggleReverse_def HeuristicMulti_ToggleReverse_def Heuristic_SetReverse_def
      HeuristicMulti_SetReverse_def comp_def)

lemma Toggle_Set [simp]: "IPMatcher_ToggleReverse (IPMatcher_SetReverse r m) = IPMatcher_SetReverse (\<not> r) m"
  by (induction m)
    (auto simp: Heuristic_ToggleReverse_def HeuristicMulti_ToggleReverse_def Heuristic_SetReverse_def
      HeuristicMulti_SetReverse_def comp_def)

lemma Set_Set [simp]: "IPMatcher_SetReverse r (IPMatcher_SetReverse r' m) = IPMatcher_SetReverse r m"
  by (induction m)
    (auto simp: Heuristic_SetReverse_def HeuristicMulti_SetReverse_def comp_def)

datatype reverse_op = Toggle | SetRev bool

fun apply_reverse :: "reverse_op \<Rightarrow> 's DynamicIPMatcher \<Rightarrow> 's DynamicIPMatcher" where
  "apply_reverse Toggle d = Dynamic_ToggleReverse d"
| "apply_reverse (SetRev b) d = Dynamic_SetReverse b d"

lemma reload_reverse_op: "Dynamic_Reload m (apply_reverse x d) = apply_reverse x (Dynamic_Reload m d)"
  by (cases x) (simp_all add: Dynamic_Reload_def Dynamic_ToggleReverse_def Dynamic_SetReverse_def)

text \<open>
  A reload keeps what callers did to a matcher. After any sequence of calls of \<^verbatim>\<open>ToggleReverse\<close>
  and \<^verbatim>\<open>SetReverse\<close>, reloading a dynamic matcher with a new matcher gives the state in which the same
  calls had been made on a matcher created from the new one.
\<close>

theorem ip_reload_keeps_reverse:
  "Dynamic_Reload m' (fold apply_reverse ops (NewDynamicIPMatcher rules m)) =
     fold apply_reverse ops (NewDynamicIPMatcher rules m')"
proof -
  have "Dynamic_Reload m' (fold apply_reverse ops d) = fold apply_reverse ops (Dynamic_Reload m' d)" for d
    by (induction ops arbitrary: d) (simp_all add: reload_reverse_op)
  then show ?thesis by (simp add: NewDynamicIPMatcher_def Dynamic_Reload_def)
qed

section \<open>The registry\<close>

lemma rebuild_loop_spec:
  assumes "netipx_ok lib" "cache_ok lib load shared" "\<forall>d \<in> set ds. rules_ok load (dyn_rules d)"
  shows "\<exists>ms shared'. rebuild_loop lib load ds shared = Some (Inr ms, shared') \<and> cache_ok lib load shared' \<and>
    list_all2 (\<lambda>d m. answers load (dyn_rules d) (IPMatcher_AnyMatch lib m)) ds ms"
  using assms(2,3)
proof (induction ds arbitrary: shared)
  case (Cons d ds)
  obtain m c where m: "buildOptimizedIPMatcher lib load (dyn_rules d) shared = Some (Inr m, c)" "cache_ok lib load c"
      "answers load (dyn_rules d) (IPMatcher_AnyMatch lib m)"
    using buildOptimized_spec [OF assms(1) Cons.prems(1), of "dyn_rules d"] Cons.prems(2) by auto
  obtain ms c' where "rebuild_loop lib load ds c = Some (Inr ms, c')" "cache_ok lib load c'"
      "list_all2 (\<lambda>d m. answers load (dyn_rules d) (IPMatcher_AnyMatch lib m)) ds ms"
    using Cons.IH [OF m(2)] Cons.prems(2) by auto
  then show ?case using m by simp
qed simp

definition reloaded :: "'s netipx \<Rightarrow> ip_loader \<Rightarrow> 's DynamicIPMatcher \<Rightarrow> 's DynamicIPMatcher \<Rightarrow> bool" where
  "reloaded lib load d d' \<longleftrightarrow> dyn_rules d' = dyn_rules d \<and> dyn_reverse d' = dyn_reverse d \<and> dyn_reverseSet d' = dyn_reverseSet d \<and>
     (\<not> dyn_reverse d \<longrightarrow> \<not> dyn_reverseSet d \<longrightarrow> answers load (dyn_rules d) (Dynamic_AnyMatch lib d'))"

lemma reloaded_Reload:
  "answers load (dyn_rules d) (IPMatcher_AnyMatch lib m) \<Longrightarrow> reloaded lib load d (Dynamic_Reload m d)"
  by (simp add: reloaded_def Dynamic_Reload_def Dynamic_AnyMatch_def [abs_def])

lemma list_all2_reload:
  assumes "list_all2 (\<lambda>d m. answers load (dyn_rules d) (IPMatcher_AnyMatch lib m)) ds ms"
  shows "list_all2 (reloaded lib load) ds (map (\<lambda>(m, d). Dynamic_Reload m d) (zip ms ds))"
  using assms by (induction rule: list_all2_induct) (auto intro: reloaded_Reload)

lemma cache_ok_empty: "cache_ok lib load Map.empty"
  by (simp add: cache_ok_def)

text \<open>
  What a list of IP rules means. The matcher built from rules that load, whatever sets the
  factory has cached, accepts a list of addresses exactly when one of them is valid and is in a
  plain group (custom or GeoIP) or outside a reversed group that has prefixes of its family.
\<close>

theorem ip_rules_meaning:
  assumes "netipx_ok lib" "cache_ok lib load shared" "rules_ok load rules"
  shows "\<exists>m shared'. buildOptimizedIPMatcher lib load rules shared = Some (Inr m, shared') \<and> cache_ok lib load shared' \<and>
    (\<forall>ips. IPMatcher_AnyMatch lib m ips \<longleftrightarrow> (\<exists>ip \<in> set ips. \<exists>a. std_addr ip = Some a \<and> ip_rules_accept load rules a))"
  using buildOptimized_spec [OF assms] by (simp add: answers_def)

text \<open>
  A reload of the registry replaces every matcher by one that answers by the newly loaded data
  under its own rules and keeps the flags of callers; the cache of the new factory is right for the new
  data.
\<close>

theorem registry_reload_meaning:
  assumes "netipx_ok lib" "\<forall>d \<in> set (reg_matchers r). rules_ok load (dyn_rules d)"
  shows "\<exists>r'. IPRegistry_Reload lib load r = Some (None, r') \<and> cache_ok lib load (reg_factory r') \<and>
    list_all2 (reloaded lib load) (reg_matchers r) (reg_matchers r')"
proof -
  obtain ms c where "rebuild_loop lib load (reg_matchers r) Map.empty = Some (Inr ms, c)" "cache_ok lib load c"
      "list_all2 (\<lambda>d m. answers load (dyn_rules d) (IPMatcher_AnyMatch lib m)) (reg_matchers r) ms"
    using rebuild_loop_spec [OF assms(1) cache_ok_empty assms(2)] by blast
  then show ?thesis by (auto simp: IPRegistry_Reload_def intro: list_all2_reload)
qed

section \<open>Examples\<close>

text \<open>A library that satisfies the laws: a set is the list of its prefixes.\<close>

definition list_netipx :: "netip_Prefix list netipx" where
  "list_netipx = \<lparr>FromStdIP = std_addr, IPSet_Contains = (\<lambda>s a. list_ex (\<lambda>p. Prefix_Contains p a) s),
     IPSet_Prefixes = (\<lambda>s. s), IPSet_build = Inr\<rparr>"

lemma list_netipx_ok: "netipx_ok list_netipx"
  by (simp add: netipx_ok_def list_netipx_def list_ex_iff)

definition ex_load :: ip_loader where
  "ex_load file code = Inr [\<lparr>cidr_Ip = [8, 8, 8, 8], cidr_Prefix = 32\<rparr>]"

definition ex_rules :: "IPRule list" where
  "ex_rules = [IPRule_Custom \<lparr>cr_Cidr = \<lparr>cidr_Ip = [10, 0, 0, 0], cidr_Prefix = 8\<rparr>, cr_ReverseMatch = False\<rparr>,
     IPRule_Geoip \<lparr>gi_File = [103], gi_Code = [67, 78], gi_ReverseMatch = False\<rparr>]"

lemma ex_rules_ok: "rules_ok ex_load ex_rules"
  by (simp add: rules_ok_def ex_rules_def geo_names_ok_def ex_load_def name_ok_def colon_def comma_def)

lemma ex_accept: "ip_rules_accept ex_load ex_rules (Addr4 [10, 1, 2, 3])" "\<not> ip_rules_accept ex_load ex_rules (Addr4 [9, 1, 2, 3])"
  by (simp_all add: ip_rules_accept_def ex_rules_def ex_load_def custom_cidrs_def geo_rules_def geo_cidrs_def group_match_def
      cidr_prefix_def AddrFromSlice_def PrefixFrom_def Prefix_IsValid_def BitLen_def Prefix_Contains_def same_family_def
      bits_of_def byte_bits_def)

theorem ip_rules_meaning_witness:
  "\<exists>m shared'. buildOptimizedIPMatcher list_netipx ex_load ex_rules Map.empty = Some (Inr m, shared') \<and>
    IPMatcher_AnyMatch list_netipx m [[9, 1, 2, 3], [10, 1, 2, 3]] \<and> \<not> IPMatcher_AnyMatch list_netipx m [[9, 1, 2, 3], [10]]"
  using ip_rules_meaning [OF list_netipx_ok cache_ok_empty ex_rules_ok] ex_accept
  by (auto simp: std_addr_def)

theorem registry_reload_meaning_witness:
  "\<exists>r'. IPRegistry_Reload list_netipx ex_load
      \<lparr>reg_factory = Map.empty, reg_matchers = [NewDynamicIPMatcher ex_rules (GeneralMulti [])]\<rparr> = Some (None, r') \<and>
    length (reg_matchers r') = 1"
  using registry_reload_meaning [OF list_netipx_ok,
      of "\<lparr>reg_factory = Map.empty, reg_matchers = [NewDynamicIPMatcher ex_rules (GeneralMulti [])]\<rparr>" ex_load]
    ex_rules_ok by (auto simp: NewDynamicIPMatcher_def Dynamic_Reload_def dest: list_all2_lengthD)

section \<open>Filtering lists of addresses\<close>

text \<open>
  C25. Over one set, \<^verbatim>\<open>FilterIPs\<close> splits its input: whatever the order in which the maps of buckets
  are visited, the valid addresses are returned once each, matched or unmatched as \<^verbatim>\<open>Match\<close> says,
  although a bucket is tested by one representative only.
\<close>

theorem ip_filter_partition:
  assumes "netipx_ok lib" "hm_ok lib m" "order_ok ord"
  shows "\<exists>matched unmatched. Heuristic_FilterIPs lib ord m ips = (matched, unmatched) \<and>
    mset matched = mset (filter (Heuristic_Match lib m) ips) \<and>
    mset unmatched = mset (filter (\<lambda>ip. ip_valid ip \<and> \<not> Heuristic_Match lib m ip) ips)"
  using assms by (rule Heuristic_FilterIPs_partition)

text \<open>
  C26. Over several sets, \<^verbatim>\<open>FilterIPs\<close> panics on inputs that it should return whole. When a set whose
  IPv4 prefixes are short and one that has a long prefix both contain all of two or more distinct
  IPv4 addresses, every address is collected twice, and the capacity of the slice for the rest,
  \<^verbatim>\<open>len(ips)-len(matched)\<close>, is negative.
\<close>

theorem ip_multi_filter_panics:
  assumes "netipx_ok lib" "order_ok ord" "2 \<le> length ips" "list_all (hm_ok lib) [m1, m2]"
    and "list_all (in_family 4) ips" "distinct (map std_addr ips)"
    and "heur4 m1" "list_all (Heuristic_Match lib m1) ips"
    and "\<not> heur4 m2" "list_all (Heuristic_Match lib m2) ips"
  shows "HeuristicMulti_FilterIPs lib ord \<lparr>mm_matchers = [m1, m2]\<rparr> ips = None"
  using assms Heuristic_Match_test [OF assms(1)]
  by (intro multi_filter_duplicates [where ?m1.0 = m1 and ?m2.0 = m2]) (simp_all add: list_all_iff)

definition ex_order :: iter_order where
  "ex_order path n = [0 ..< n]"

lemma ex_order_ok: "order_ok ex_order"
  by (simp add: order_ok_def ex_order_def)

definition ex_matcher :: "nat \<Rightarrow> byte \<Rightarrow> netip_Prefix list HeuristicIPMatcher" where
  "ex_matcher n mx = \<lparr>hm_ipset = \<lparr>ipset_ipv4 = [\<lparr>pfx_addr = Addr4 [10, 0, 0, 0], pfx_bits = Some n\<rparr>], ipset_ipv6 = [],
     ipset_max4 = mx, ipset_max6 = 0xff\<rparr>, hm_reverse = False\<rparr>"

lemma ex_matcher_ok: "hm_ok list_netipx (ex_matcher 8 8)" "hm_ok list_netipx (ex_matcher 25 25)"
  by (simp_all add: hm_ok_def set_ok_def short_set_def heur4_def heur6_def ex_matcher_def list_netipx_def Prefix_Bits_def)

lemma ex_matcher_heur: "heur4 (ex_matcher 8 8)" "\<not> heur4 (ex_matcher 25 25)"
  by (simp_all add: heur4_def ex_matcher_def)

lemma ex_matcher_Match:
  "Heuristic_Match list_netipx (ex_matcher 8 8) [10, 0, 0, 1]" "Heuristic_Match list_netipx (ex_matcher 8 8) [10, 0, 0, 2]"
  "Heuristic_Match list_netipx (ex_matcher 25 25) [10, 0, 0, 1]" "Heuristic_Match list_netipx (ex_matcher 25 25) [10, 0, 0, 2]"
  "\<not> Heuristic_Match list_netipx (ex_matcher 8 8) [11, 0, 0, 1]" "\<not> Heuristic_Match list_netipx (ex_matcher 8 8) []"
  by (simp_all add: Heuristic_Match_def list_netipx_def std_addr_def matchAddr_def ex_matcher_def Prefix_Contains_def
      same_family_def bits_of_def byte_bits_def)

theorem ip_filter_partition_witness:
  "\<exists>matched unmatched. Heuristic_FilterIPs list_netipx ex_order (ex_matcher 8 8) [[10, 0, 0, 1], [10, 0, 0, 2], [11, 0, 0, 1], []] =
      (matched, unmatched) \<and> mset matched = {#[10, 0, 0, 1], [10, 0, 0, 2]#} \<and> mset unmatched = {#[11, 0, 0, 1]#}"
  using ip_filter_partition [OF list_netipx_ok ex_matcher_ok(1) ex_order_ok, of "[[10, 0, 0, 1], [10, 0, 0, 2], [11, 0, 0, 1], []]"]
  by (simp add: ex_matcher_Match ip_valid_def std_addr_def)

theorem ip_multi_filter_panics_witness:
  "HeuristicMulti_FilterIPs list_netipx ex_order \<lparr>mm_matchers = [ex_matcher 8 8, ex_matcher 25 25]\<rparr>
     [[10, 0, 0, 1], [10, 0, 0, 2]] = None"
  by (rule ip_multi_filter_panics [OF list_netipx_ok ex_order_ok])
    (simp_all add: ex_matcher_ok ex_matcher_Match in_family_def ip_valid_def ip_key_def std_addr_def ex_matcher_heur)

end
