(* ===== verification/Geo_Data.thy ===== *)
theory Geo_Data
  imports Ip_Rules Mph_Match
begin

unbundle bit_operations_syntax

text \<open>
  Rules as text and the data files behind them: \<^verbatim>\<open>common/geodata/geodat_loader.go\<close> and
  \<^verbatim>\<open>rule_parser.go\<close>. A data file is a sequence of protobuf messages; the loader walks over it and
  decodes only the entry with the wanted code.

  The environment has what is not part of the program: the bytes of an asset, the decoding of a
  message by the protobuf library, the largest allocation of the run-time, and the Unicode case
  tables and \<^verbatim>\<open>regexp.Compile\<close> of the standard library. A reader of a file delivers its bytes and
  then \<^verbatim>\<open>io.EOF\<close>.
\<close>

section \<open>Messages\<close>

datatype Domain_Type = Domain_Substr | Domain_Regex | Domain_Domain | Domain_Full | Domain_Unknown nat

text \<open>Of an attribute only the key is used.\<close>

record GeoDomain =
  gd_Type :: Domain_Type
  gd_Value :: gostring
  gd_Attribute :: "gostring list"

record GeoSiteRule =
  gs_File :: gostring
  gs_Code :: gostring
  gs_Attrs :: gostring

datatype DomainRule = DomainRule_Custom "GeoDomain option" | DomainRule_Geosite GeoSiteRule | DomainRule_Unset

record geo_env =
  ge_asset :: "gostring \<Rightarrow> go_error + byte list"
  ge_GeoIP :: "byte list \<Rightarrow> go_error + CIDR list"
  ge_GeoSite :: "byte list \<Rightarrow> go_error + GeoDomain list"
  ge_maxAlloc :: nat
  ge_lower :: "gostring \<Rightarrow> gostring"
  ge_upper :: "gostring \<Rightarrow> gostring"
  ge_compile :: "gostring \<Rightarrow> go_error + regexp"

section \<open>Finding an entry\<close>

fun varint_loop :: "nat \<Rightarrow> 64 word \<Rightarrow> byte list \<Rightarrow> (go_error + 64 word) \<times> byte list" where
  "varint_loop shift x [] = (if shift < 64 then (Inl EOF, []) else (Inl (ErrNew ''varint overflow''), []))"
| "varint_loop shift x (b # bs) =
     (if shift < 64 then
        let x = x OR push_bit shift (ucast b AND 0x7f) in
        if b AND 0x80 = 0 then (Inr x, bs) else varint_loop (shift + 7) x bs
      else (Inl (ErrNew ''varint overflow''), b # bs))"

definition decodeVarint :: "byte list \<Rightarrow> (go_error + 64 word) \<times> byte list" where
  "decodeVarint bs = varint_loop 0 0 bs"

text \<open>\<^verbatim>\<open>io.ReadFull\<close> and \<^verbatim>\<open>Discard\<close> on the bytes that are left.\<close>

definition ReadFull :: "nat \<Rightarrow> byte list \<Rightarrow> go_error + byte list \<times> byte list" where
  "ReadFull n bs =
     (if n \<le> length bs then Inr (take n bs, drop n bs)
      else if bs = [] then Inl EOF else Inl ErrUnexpectedEOF)"

definition Discard :: "nat \<Rightarrow> byte list \<Rightarrow> go_error + byte list" where
  "Discard n bs = (if n \<le> length bs then Inr (drop n bs) else Inl EOF)"

lemma varint_loop_length: "length (snd (varint_loop shift x bs)) \<le> length bs"
  by (induction shift x bs rule: varint_loop.induct) (auto simp: Let_def)

lemma ReadFull_length: "ReadFull n bs = Inr (p, bs') \<Longrightarrow> length bs' \<le> length bs"
  by (auto simp: ReadFull_def split: if_splits)

lemma Discard_length: "Discard n bs = Inr bs' \<Longrightarrow> length bs' \<le> length bs"
  by (auto simp: Discard_def split: if_splits)

lemma decodeVarint_length: "decodeVarint bs = (r, bs') \<Longrightarrow> length bs' \<le> length bs"
  using varint_loop_length [of 0 0 bs] by (simp add: decodeVarint_def)

text \<open>
  \<open>int(x)\<close> reads the length as signed. \<open>None\<close> is the panic of \<^verbatim>\<open>make\<close> on a body that is longer than
  the largest allocation. When the body is not wanted the result of a match is the nil slice.
\<close>

function find_loop :: "nat \<Rightarrow> byte list \<Rightarrow> bool \<Rightarrow> byte list \<Rightarrow> (go_error + byte list) go" where
  "find_loop maxAlloc code readBody bs =
     (case bs of
        [] \<Rightarrow> Some (Inl EOF)
      | _ # bs \<Rightarrow>
     (case decodeVarint bs of
        (Inl e, _) \<Rightarrow> Some (Inl e)
      | (Inr x, bs) \<Rightarrow>
          let need = 2 + length code; bodyL = sint x in
          if bodyL \<le> 0 then Some (Inl (ErrNew ''invalid body length: ''))
          else
            let prefixL = (if nat bodyL > need then need else nat bodyL); remain = nat bodyL - prefixL in
            (case ReadFull prefixL bs of
               Inl e \<Rightarrow> Some (Inl e)
             | Inr (pre, bs) \<Rightarrow>
                 let match = (nat bodyL \<ge> need \<and> unat (pre ! 1) = length code \<and> drop 2 pre = code) in
                 if match \<and> \<not> readBody then Some (Inr [])
                 else if match then
                   (if nat bodyL > maxAlloc then None
                    else if remain > 0 then
                      (case ReadFull remain bs of Inl e \<Rightarrow> Some (Inl e) | Inr (rest, _) \<Rightarrow> Some (Inr (pre @ rest)))
                    else Some (Inr pre))
                 else if remain > 0 then
                   (case Discard remain bs of Inl e \<Rightarrow> Some (Inl e) | Inr bs \<Rightarrow> find_loop maxAlloc code readBody bs)
                 else find_loop maxAlloc code readBody bs)))"
  by pat_completeness auto
termination
  by (relation "measure (\<lambda>(_, _, _, bs). length bs)")
    (auto dest!: decodeVarint_length [OF sym] ReadFull_length Discard_length)

declare find_loop.simps [simp del]

definition find_code :: "nat \<Rightarrow> byte list \<Rightarrow> byte list \<Rightarrow> bool \<Rightarrow> (go_error + byte list) go" where
  "find_code maxAlloc r code readBody =
     (if length code = 0 then Some (Inl (ErrNew ''empty code'')) else find_loop maxAlloc code readBody r)"

definition checkFile :: "geo_env \<Rightarrow> gostring \<Rightarrow> gostring \<Rightarrow> go_error option go" where
  "checkFile env file code =
     (case ge_asset env file of
        Inl e \<Rightarrow> Some (Some (ErrNew ''failed to open ''))
      | Inr r \<Rightarrow> do {
          res \<leftarrow> find_code (ge_maxAlloc env) r code False;
          Some (case res of Inl e \<Rightarrow> Some (ErrNew ''failed to check code '') | Inr _ \<Rightarrow> None) })"

definition loadFile :: "geo_env \<Rightarrow> gostring \<Rightarrow> gostring \<Rightarrow> (go_error + byte list) go" where
  "loadFile env file code =
     (case ge_asset env file of
        Inl e \<Rightarrow> Some (Inl (ErrNew ''failed to open ''))
      | Inr r \<Rightarrow> do {
          res \<leftarrow> find_code (ge_maxAlloc env) r code True;
          Some (case res of Inl e \<Rightarrow> Inl (ErrNew ''failed to load code '') | Inr bs \<Rightarrow> Inr bs) })"

definition loadIP :: "geo_env \<Rightarrow> gostring \<Rightarrow> gostring \<Rightarrow> (go_error + CIDR list) go" where
  "loadIP env file code = do {
     bs \<leftarrow> loadFile env file code;
     Some (case bs of
         Inl e \<Rightarrow> Inl e
       | Inr bs \<Rightarrow> (case ge_GeoIP env bs of Inl e \<Rightarrow> Inl (ErrNew ''error unmarshal IP in '') | Inr cidrs \<Rightarrow> Inr cidrs)) }"

definition loadSite :: "geo_env \<Rightarrow> gostring \<Rightarrow> gostring \<Rightarrow> (go_error + GeoDomain list) go" where
  "loadSite env file code = do {
     bs \<leftarrow> loadFile env file code;
     Some (case bs of
         Inl e \<Rightarrow> Inl e
       | Inr bs \<Rightarrow> (case ge_GeoSite env bs of Inl e \<Rightarrow> Inl (ErrNew ''error unmarshal Site in '') | Inr ds \<Rightarrow> Inr ds)) }"

section \<open>Attributes\<close>

fun HasAttrMatcher_Match :: "gostring \<Rightarrow> GeoDomain \<Rightarrow> bool" where
  "HasAttrMatcher_Match m domain = list_ex (\<lambda>key. key = m) (gd_Attribute domain)"

definition AllAttrsMatcher_Match :: "gostring list \<Rightarrow> GeoDomain \<Rightarrow> bool" where
  "AllAttrsMatcher_Match matchers domain = list_all (\<lambda>m. HasAttrMatcher_Match m domain) matchers"

text \<open>\<^verbatim>\<open>strings.Split\<close> and \<^verbatim>\<open>strings.Cut\<close> with a separator of one byte.\<close>

fun Split :: "byte \<Rightarrow> gostring \<Rightarrow> gostring list" where
  "Split c [] = [[]]"
| "Split c (x # xs) =
     (if x = c then [] # Split c xs
      else (case Split c xs of [] \<Rightarrow> [[x]] | y # ys \<Rightarrow> (x # y) # ys))"

definition Cut :: "byte \<Rightarrow> gostring \<Rightarrow> gostring \<times> gostring \<times> bool" where
  "Cut c s =
     (if c \<in> set s then (takeWhile (\<lambda>x. x \<noteq> c) s, tl (dropWhile (\<lambda>x. x \<noteq> c) s), True) else (s, [], False))"

definition at_sign :: byte where
  "at_sign = 0x40"

definition NewAllAttrsMatcher :: "gostring \<Rightarrow> gostring list option" where
  "NewAllAttrsMatcher attrs = (if attrs = [] then None else Some (Split at_sign attrs))"

definition loadSiteWithAttrs :: "geo_env \<Rightarrow> gostring \<Rightarrow> gostring \<Rightarrow> gostring \<Rightarrow> (go_error + GeoDomain list) go" where
  "loadSiteWithAttrs env file code attrs = do {
     domains \<leftarrow> loadSite env file code;
     Some (case domains of
         Inl e \<Rightarrow> Inl e
       | Inr domains \<Rightarrow>
           (case NewAllAttrsMatcher attrs of
              None \<Rightarrow> Inr domains
            | Some m \<Rightarrow> Inr (filter (AllAttrsMatcher_Match m) domains))) }"

section \<open>Rules as text\<close>

definition DefaultGeoIPDat :: gostring where "DefaultGeoIPDat = str ''geoip.dat''"
definition DefaultGeoSiteDat :: gostring where "DefaultGeoSiteDat = str ''geosite.dat''"

definition ToUpper_ascii :: "gostring \<Rightarrow> gostring" where
  "ToUpper_ascii s = map (\<lambda>c. if is_lower c then c - 0x20 else c) s"

definition ToUpper :: "(gostring \<Rightarrow> gostring) \<Rightarrow> gostring \<Rightarrow> gostring" where
  "ToUpper uni s = (if list_all (\<lambda>c. c < 0x80) s then ToUpper_ascii s else uni s)"

fun cut_loop :: "gostring \<Rightarrow> bool \<Rightarrow> gostring \<times> bool" where
  "cut_loop (c # s) reverse = (if c = 0x21 then cut_loop s (\<not> reverse) else (c # s, reverse))"
| "cut_loop [] reverse = ([], reverse)"

definition cutReversePrefix :: "gostring \<Rightarrow> gostring \<times> bool" where
  "cutReversePrefix s = cut_loop s False"

text \<open>The prefix of an external rule, as the length of the first one that fits.\<close>

definition ext_prefix :: "gostring list \<Rightarrow> gostring \<Rightarrow> nat" where
  "ext_prefix exts r = (case List.find (HasPrefix r) exts of None \<Rightarrow> 0 | Some ext \<Rightarrow> length ext)"

definition colon_byte :: byte where
  "colon_byte = 0x3a"

definition parseGeoIPRule :: "geo_env \<Rightarrow> gostring \<Rightarrow> bool \<Rightarrow> (go_error + IPRule) go" where
  "parseGeoIPRule env rule reverse =
     (let (file, code, ok) = Cut colon_byte rule in
      if \<not> ok then Some (Inl (ErrNew ''syntax error''))
      else if file = [] then Some (Inl (ErrNew ''empty file''))
      else
        let (code, codeReverse) = cutReversePrefix code; reverse = (reverse \<noteq> codeReverse) in
        if code = [] then Some (Inl (ErrNew ''empty code''))
        else
          let code = ToUpper (ge_upper env) code in do {
            err \<leftarrow> checkFile env file code;
            Some (case err of
                Some e \<Rightarrow> Inl e
              | None \<Rightarrow> Inr (IPRule_Geoip \<lparr>gi_File = file, gi_Code = code, gi_ReverseMatch = reverse\<rparr>)) })"

text \<open>The address is one that \<^verbatim>\<open>IP\<close> accepts, since domains were refused before.\<close>

definition parseCIDR :: "gostring \<Rightarrow> (go_error + CIDR) go" where
  "parseCIDR s = do {
     let (ipStr, prefixStr, _) = Cut 0x2f s;
     ipAddr \<leftarrow> ParseAddress ipStr;
     (case (case Family ipAddr of AddressFamilyIPv4 \<Rightarrow> Some 32 | AddressFamilyIPv6 \<Rightarrow> Some 128 | _ \<Rightarrow> None) of
        None \<Rightarrow> Some (Inl (ErrNew ''unsupported address family''))
      | Some maxPrefix \<Rightarrow>
          (case (if prefixStr \<noteq> [] then ParseUint32 prefixStr else Some maxPrefix) of
             None \<Rightarrow> Some (Inl (ErrNew ''invalid CIDR prefix length: ''))
           | Some prefixBits \<Rightarrow>
               if prefixBits > maxPrefix then Some (Inl (ErrNew ''CIDR prefix length ''))
               else do { ip \<leftarrow> Address_IP ipAddr; Some (Inr \<lparr>cidr_Ip = ip, cidr_Prefix = prefixBits\<rparr>) })) }"

definition parseCustomIPRule :: "gostring \<Rightarrow> bool \<Rightarrow> (go_error + IPRule) go" where
  "parseCustomIPRule rule reverse = do {
     cidr \<leftarrow> parseCIDR rule;
     Some (case cidr of
         Inl e \<Rightarrow> Inl e
       | Inr c \<Rightarrow> Inr (IPRule_Custom \<lparr>cr_Cidr = c, cr_ReverseMatch = reverse\<rparr>)) }"

text \<open>The body of the loop of \<^verbatim>\<open>ParseIPRules\<close>.\<close>

definition parse_ip_rule :: "geo_env \<Rightarrow> gostring \<Rightarrow> (go_error + IPRule) go" where
  "parse_ip_rule env r =
     (let (r, reverse) = cutReversePrefix r;
          r = (if HasPrefix r (str ''geoip:'') then str ''ext:'' @ DefaultGeoIPDat @ str '':'' @ drop 6 r else r);
          pre = ext_prefix [str ''ext:'', str ''ext-ip:''] r
      in if pre > 0 then parseGeoIPRule env (drop pre r) reverse else parseCustomIPRule r reverse)"

fun ParseIPRules :: "geo_env \<Rightarrow> gostring list \<Rightarrow> (go_error + IPRule list) go" where
  "ParseIPRules env [] = Some (Inr [])"
| "ParseIPRules env (r # rs) = do {
     rule \<leftarrow> parse_ip_rule env r;
     (case rule of
        Inl e \<Rightarrow> Some (Inl (ErrNew ''illegal ip rule: ''))
      | Inr rule \<Rightarrow> do {
          rest \<leftarrow> ParseIPRules env rs;
          Some (case rest of Inl e \<Rightarrow> Inl e | Inr rules \<Rightarrow> Inr (rule # rules)) }) }"

definition parseGeoSiteRule :: "geo_env \<Rightarrow> gostring \<Rightarrow> (go_error + DomainRule) go" where
  "parseGeoSiteRule env rule =
     (let (file, codeWithAttrs, ok) = Cut colon_byte rule in
      if \<not> ok then Some (Inl (ErrNew ''syntax error''))
      else if file = [] then Some (Inl (ErrNew ''empty file''))
      else if HasSuffix codeWithAttrs [at_sign] \<or> Contains codeWithAttrs [at_sign, at_sign]
      then Some (Inl (ErrNew ''empty attr''))
      else
        let (code, attrs, _) = Cut at_sign codeWithAttrs in
        if code = [] then Some (Inl (ErrNew ''empty code''))
        else
          let code = ToUpper (ge_upper env) code in do {
            err \<leftarrow> checkFile env file code;
            Some (case err of
                Some e \<Rightarrow> Inl e
              | None \<Rightarrow> Inr (DomainRule_Geosite \<lparr>gs_File = file, gs_Code = code, gs_Attrs = ToLower (ge_lower env) attrs\<rparr>)) })"

definition custom_rule :: "Domain_Type \<Rightarrow> gostring \<Rightarrow> go_error + DomainRule" where
  "custom_rule t v = Inr (DomainRule_Custom (Some \<lparr>gd_Type = t, gd_Value = v, gd_Attribute = []\<rparr>))"

definition parseCustomDomainRule :: "gostring \<Rightarrow> Domain_Type \<Rightarrow> go_error + DomainRule" where
  "parseCustomDomainRule rule defaultType =
     (if HasPrefix rule (str ''regexp:'') then custom_rule Domain_Regex (drop 7 rule)
      else if HasPrefix rule (str ''domain:'') then custom_rule Domain_Domain (drop 7 rule)
      else if HasPrefix rule (str ''full:'') then custom_rule Domain_Full (drop 5 rule)
      else if HasPrefix rule (str ''keyword:'') then custom_rule Domain_Substr (drop 8 rule)
      else if HasPrefix rule (str ''dotless:'') then
        (let substr = drop 8 rule in
         if substr = [] then custom_rule Domain_Regex (str ''^[^.]*$'')
         else if \<not> Contains substr [dot] then custom_rule Domain_Regex (str ''^[^.]*'' @ substr @ str ''[^.]*$'')
         else Inl (ErrNew ''substr in dotless rule should not contain a dot''))
      else custom_rule defaultType rule)"

definition parse_domain_rule :: "geo_env \<Rightarrow> gostring \<Rightarrow> Domain_Type \<Rightarrow> (go_error + DomainRule) go" where
  "parse_domain_rule env r defaultType =
     (let r = (if HasPrefix r (str ''geosite:'') then str ''ext:'' @ DefaultGeoSiteDat @ str '':'' @ drop 8 r else r);
          pre = ext_prefix [str ''ext:'', str ''ext-domain:'', str ''ext-site:''] r
      in if pre > 0 then parseGeoSiteRule env (drop pre r) else Some (parseCustomDomainRule r defaultType))"

definition ParseDomainRule :: "geo_env \<Rightarrow> gostring \<Rightarrow> Domain_Type \<Rightarrow> (go_error + DomainRule) go" where
  "ParseDomainRule env r defaultType = do {
     rule \<leftarrow> parse_domain_rule env r defaultType;
     Some (case rule of Inl e \<Rightarrow> Inl (ErrNew ''illegal domain rule: '') | Inr rule \<Rightarrow> Inr rule) }"

fun ParseDomainRules :: "geo_env \<Rightarrow> gostring list \<Rightarrow> Domain_Type \<Rightarrow> (go_error + DomainRule list) go" where
  "ParseDomainRules env [] defaultType = Some (Inr [])"
| "ParseDomainRules env (r # rs) defaultType = do {
     rule \<leftarrow> parse_domain_rule env r defaultType;
     (case rule of
        Inl e \<Rightarrow> Some (Inl (ErrNew ''illegal domain rule: ''))
      | Inr rule \<Rightarrow> do {
          rest \<leftarrow> ParseDomainRules env rs defaultType;
          Some (case rest of Inl e \<Rightarrow> Inl e | Inr rules \<Rightarrow> Inr (rule # rules)) }) }"

end
