(* ===== verification/Geo_Rules.thy ===== *)
theory Geo_Rules
  imports Geo_Data
begin

unbundle bit_operations_syntax

text \<open>
  The lookup in a data file returns the first entry with the wanted code, and the rules that the
  parser accepts have the form the matchers rely on.
\<close>

section \<open>Lengths\<close>

fun enc_varint :: "nat \<Rightarrow> byte list" where
  "enc_varint n = (if n < 128 then [of_nat n] else of_nat (n mod 128 + 128) # enc_varint (n div 128))"

declare enc_varint.simps [simp del]

lemma byte_high_bit: "k < 256 \<Longrightarrow> (of_nat k :: byte) AND 0x80 = 0 \<longleftrightarrow> k < 128"
proof -
  assume k: "k < 256"
  have "(of_nat k :: byte) AND 2 ^ 7 = 0 \<longleftrightarrow> \<not> bit (of_nat k :: byte) 7"
    by (rule and_exp_eq_0_iff_not_bit)
  also have "bit (of_nat k :: byte) 7 \<longleftrightarrow> bit k 7"
    by (simp add: bit_of_nat_iff)
  also have "bit k 7 \<longleftrightarrow> 128 \<le> k"
  proof (cases "128 \<le> k")
    case True
    then have "k div 128 = 1" using k by (intro div_nat_eqI) auto
    then show ?thesis using True by (simp add: bit_iff_odd)
  qed (simp add: bit_iff_odd)
  finally show ?thesis by (simp add: not_le)
qed

lemma low_bits: "k < 256 \<Longrightarrow> (ucast (of_nat k :: byte) :: 64 word) AND 0x7f = of_nat (k mod 128)"
proof -
  assume k: "k < 256"
  have "(ucast (of_nat k :: byte) :: 64 word) = of_nat k"
    using k by (simp add: unsigned_of_nat take_bit_nat_eq_self)
  moreover have "(of_nat k :: 64 word) AND mask 7 = take_bit 7 (of_nat k)" by (simp add: take_bit_eq_mask)
  moreover have "take_bit 7 (of_nat k :: 64 word) = of_nat (k mod 128)"
    by (simp only: take_bit_of_nat) (simp add: take_bit_nat_def)
  moreover have "(mask 7 :: 64 word) = 0x7f" by (simp add: mask_eq_exp_minus_1)
  ultimately show ?thesis by metis
qed

lemma or_shifted:
  fixes x y :: "64 word"
  assumes "unat x < 2 ^ shift"
  shows "x OR push_bit shift y = x + y * 2 ^ shift"
proof -
  have "take_bit shift x = x"
    using assms by (simp add: word_unat_eq_iff unsigned_take_bit_eq take_bit_nat_eq_self)
  then have "\<not> bit x n" if "shift \<le> n" for n using that by (metis bit_take_bit_iff not_le)
  then have "x + push_bit shift y = x OR push_bit shift y"
    by (intro disjunctive_add) (auto simp: bit_push_bit_iff)
  then show ?thesis by (simp add: push_bit_eq_mult)
qed

lemma unat_shifted_sum: "unat (x + of_nat k * 2 ^ shift :: 64 word) \<le> unat x + k * 2 ^ shift"
proof -
  have "x + of_nat k * 2 ^ shift = (of_nat (unat x + k * 2 ^ shift) :: 64 word)" by simp
  then show ?thesis by (simp only: unsigned_of_nat take_bit_nat_def of_nat_id mod_less_eq_dividend)
qed

lemma varint_loop_enc:
  assumes "n * 2 ^ shift < 2 ^ 64" "unat x < 2 ^ shift" "shift < 64"
  shows "varint_loop shift x (enc_varint n @ rest) = (Inr (x + of_nat n * 2 ^ shift), rest)"
  using assms
proof (induction n arbitrary: shift x rule: enc_varint.induct)
  case (1 n)
  let ?k = "n mod 128"
  have or: "x OR push_bit shift (of_nat ?k) = x + of_nat ?k * 2 ^ shift"
    using "1.prems"(2) by (rule or_shifted)
  show ?case
  proof (cases "n < 128")
    case True
    then show ?thesis using "1.prems"(3) or low_bits [of n] byte_high_bit [of n]
      by (simp add: enc_varint.simps [of n])
  next
    case False
    let ?x = "x + of_nat ?k * 2 ^ shift :: 64 word"
    have le: "n div 128 * 2 ^ (shift + 7) \<le> n * 2 ^ shift"
      using div_mult_mod_eq [of n 128] by (simp add: power_add mult.assoc [symmetric])
    have s: "shift + 7 < 64"
    proof (rule ccontr)
      assume "\<not> shift + 7 < 64"
      then have "(2 :: nat) ^ 64 \<le> 2 ^ (shift + 7)" by (intro power_increasing) auto
      also have "\<dots> \<le> n div 128 * 2 ^ (shift + 7)" using False by (simp add: div_greater_zero_iff Suc_le_eq)
      finally show False using le "1.prems"(1) by linarith
    qed
    have "unat ?x \<le> unat x + ?k * 2 ^ shift"
      using unat_shifted_sum [of x ?k shift] .
    also have "\<dots> < 2 ^ (shift + 7)"
    proof -
      have "?k * 2 ^ shift \<le> 127 * 2 ^ shift" by (intro mult_le_mono1) (simp add: less_Suc_eq_le [symmetric])
      then have "unat x + ?k * 2 ^ shift < 2 ^ shift + 127 * 2 ^ shift" using "1.prems"(2) by linarith
      then show ?thesis by (simp add: power_add)
    qed
    finally have x: "unat ?x < 2 ^ (shift + 7)" .
    have "varint_loop (shift + 7) ?x (enc_varint (n div 128) @ rest) =
        (Inr (?x + of_nat (n div 128) * 2 ^ (shift + 7)), rest)"
      using "1.IH" [OF False _ x s] le "1.prems"(1) by linarith
    moreover have "?x + of_nat (n div 128) * 2 ^ (shift + 7) = x + of_nat n * 2 ^ shift"
    proof -
      have "(of_nat n :: 64 word) = of_nat (n div 128) * 128 + of_nat ?k"
        by (metis div_mult_mod_eq of_nat_add of_nat_mult of_nat_numeral)
      then show ?thesis by (simp add: power_add algebra_simps)
    qed
    ultimately show ?thesis
      using False "1.prems"(3) or low_bits [of "?k + 128"] byte_high_bit [of "?k + 128"]
      by (simp add: enc_varint.simps [of n] mod_add_self2)
  qed
qed

lemma decodeVarint_enc: "n < 2 ^ 64 \<Longrightarrow> decodeVarint (enc_varint n @ rest) = (Inr (of_nat n), rest)"
  using varint_loop_enc [of n 0 0 rest] by (simp add: decodeVarint_def)

lemma sint_length: "n < 2 ^ 63 \<Longrightarrow> sint (of_nat n :: 64 word) = int n"
  by (simp add: signed_of_nat signed_take_bit_int_eq_self)

section \<open>Finding an entry\<close>

text \<open>An entry of a file: a tag byte, the length of the body, and the body, whose first field is the code.\<close>

definition enc_entry :: "byte \<times> byte list \<Rightarrow> byte list" where
  "enc_entry = (\<lambda>(tag, body). tag # enc_varint (length body) @ body)"

definition entry_ok :: "byte \<times> byte list \<Rightarrow> bool" where
  "entry_ok = (\<lambda>(tag, body). body \<noteq> [] \<and> length body < 2 ^ 63)"

definition has_code :: "byte list \<Rightarrow> byte list \<Rightarrow> bool" where
  "has_code code body \<longleftrightarrow> 2 + length code \<le> length body \<and> unat (body ! 1) = length code \<and>
     take (length code) (drop 2 body) = code"

lemma ReadFull_append: "n \<le> length xs \<Longrightarrow> ReadFull n (xs @ ys) = Inr (take n xs, drop n xs @ ys)"
  by (simp add: ReadFull_def)

lemma find_loop_entry:
  assumes "entry_ok (tag, body)"
  shows "find_loop maxAlloc code readBody (enc_entry (tag, body) @ rest) =
    (if has_code code body then
       (if \<not> readBody then Some (Inr []) else if maxAlloc < length body then None else Some (Inr body))
     else find_loop maxAlloc code readBody rest)"
proof -
  let ?need = "2 + length code"
  let ?p = "if length body > ?need then ?need else length body"
  have ok: "body \<noteq> []" "length body < 2 ^ 63" using assms by (simp_all add: entry_ok_def)
  have d: "decodeVarint (enc_varint (length body) @ body @ rest) = (Inr (of_nat (length body)), body @ rest)"
    using ok(2) by (intro decodeVarint_enc) simp
  have p: "?p \<le> length body" by simp
  have r: "ReadFull ?p (body @ rest) = Inr (take ?p body, drop ?p body @ rest)" by (rule ReadFull_append [OF p])
  have m: "length body \<ge> ?need \<and> unat (take ?p body ! 1) = length code \<and> drop 2 (take ?p body) = code \<longleftrightarrow> has_code code body"
  proof (cases "length body \<ge> ?need")
    case True
    then have "?p = ?need" by simp
    moreover have "take ?need body ! 1 = body ! 1" by simp
    ultimately show ?thesis using True by (simp add: has_code_def drop_take)
  qed (simp add: has_code_def)
  have rest: "ReadFull (length body - ?p) (drop ?p body @ rest) = Inr (drop ?p body, rest)"
      "Discard (length body - ?p) (drop ?p body @ rest) = Inr rest"
    using ReadFull_append [of "length body - ?p" "drop ?p body" rest] by (simp_all add: Discard_def)
  have z: "0 < int (length body)" using ok(1) by simp
  have e: "take ?p body @ drop ?p body = body" "length body - ?p = 0 \<Longrightarrow> take ?p body = body \<and> drop ?p body = []" by auto
  have eq: "enc_entry (tag, body) @ rest = tag # enc_varint (length body) @ body @ rest" by (simp add: enc_entry_def)
  show ?thesis
    unfolding eq find_loop.simps [of maxAlloc code readBody "tag # enc_varint (length body) @ body @ rest"]
      list.case d prod.case sum.case sint_length [OF ok(2)] Let_def nat_int r m rest e(1)
    using z e(2) by auto
qed

lemma find_loop_entries:
  assumes "list_all entry_ok es"
  shows "find_loop maxAlloc code readBody (concat (map enc_entry es) @ rest) =
    (case List.find (has_code code) (map snd es) of
       Some body \<Rightarrow> if \<not> readBody then Some (Inr []) else if maxAlloc < length body then None else Some (Inr body)
     | None \<Rightarrow> find_loop maxAlloc code readBody rest)"
  using assms
proof (induction es)
  case (Cons e es)
  then show ?case using find_loop_entry [of "fst e" "snd e" maxAlloc code readBody "concat (map enc_entry es) @ rest"]
    by simp
qed simp

lemma find_loop_Nil: "find_loop maxAlloc code readBody [] = Some (Inl EOF)"
  by (simp add: find_loop.simps)

text \<open>A code of 256 bytes or more does not fit the one length byte that is compared, and is never found.\<close>

lemma long_code_never_found:
  assumes "list_all entry_ok es" "256 \<le> length code"
  shows "find_code maxAlloc (concat (map enc_entry es)) code readBody = Some (Inl EOF)"
proof -
  have "\<not> has_code code body" for body
    using assms(2) unsigned_less [of "body ! 1", where 'a = nat] by (auto simp: has_code_def)
  then have "List.find (has_code code) (map snd es) = None" by (simp add: find_None_iff)
  then show ?thesis
    using assms(2) find_loop_entries [OF assms(1), of maxAlloc code readBody "[]"]
    by (auto simp: find_code_def find_loop_Nil)
qed

text \<open>
  C29. The loader finds the first entry with the wanted code. In a file that is a sequence of
  entries, whatever their tags and lengths, the body of the first entry whose code field has exactly
  the wanted bytes is returned, or the nil slice when the body is not wanted; a file without such
  an entry gives \<^verbatim>\<open>io.EOF\<close>. The only panic is on a body that cannot be allocated.
\<close>

theorem geodata_find_first:
  assumes "list_all entry_ok es" "code \<noteq> []"
  shows "find_code maxAlloc (concat (map enc_entry es)) code readBody =
    (case List.find (has_code code) (map snd es) of
       Some body \<Rightarrow> if \<not> readBody then Some (Inr []) else if maxAlloc < length body then None else Some (Inr body)
     | None \<Rightarrow> Some (Inl EOF))"
  using assms(2) find_loop_entries [OF assms(1), of maxAlloc code readBody "[]", unfolded find_loop_Nil]
  by (simp add: find_code_def)

theorem geodata_find_first_witness:
  "find_code 100 (concat (map enc_entry [(10, [10, 1, 65]), (10, [10, 2, 67, 78, 18, 0])])) [67, 78] True =
    Some (Inr [10, 2, 67, 78, 18, 0])"
proof -
  have "list_all entry_ok [(10, [10, 1, 65]), (10, [10, 2, 67, 78, 18, 0])]" by (simp add: entry_ok_def)
  from geodata_find_first [OF this, of "[67, 78]" 100 True] show ?thesis by (simp add: has_code_def)
qed

section \<open>What the parser accepts\<close>

lemma cut_loop_eq:
  "cut_loop s reverse = (dropWhile (\<lambda>c. c = 0x21) s, reverse \<noteq> odd (length (takeWhile (\<lambda>c. c = 0x21) s)))"
  by (induction s reverse rule: cut_loop.induct) auto

lemma Cut_first: "Cut c s = (a, b, True) \<Longrightarrow> c \<notin> set a \<and> s = a @ c # b"
proof -
  assume a: "Cut c s = (a, b, True)"
  then have c: "c \<in> set s" "a = takeWhile (\<lambda>x. x \<noteq> c) s" "b = tl (dropWhile (\<lambda>x. x \<noteq> c) s)"
    by (auto simp: Cut_def split: if_splits)
  then have "dropWhile (\<lambda>x. x \<noteq> c) s \<noteq> []" by auto
  then have "dropWhile (\<lambda>x. x \<noteq> c) s = c # b" using hd_dropWhile [of "\<lambda>x. x \<noteq> c" s] c(3) by (cases "dropWhile (\<lambda>x. x \<noteq> c) s") auto
  then show ?thesis using c(2) takeWhile_dropWhile_id [of "\<lambda>x. x \<noteq> c" s] set_takeWhileD by fastforce
qed

text \<open>What a custom rule gives: a prefix that the factory keeps.\<close>

lemma parseCIDR_valid:
  shows "\<exists>r. parseCIDR s = Some r \<and> (\<forall>c. r = Inr c \<longrightarrow> cidr_prefix c \<noteq> None)"
proof -
  obtain ipStr prefixStr ok where cut: "Cut 0x2f s = (ipStr, prefixStr, ok)" by (cases "Cut 0x2f s")
  obtain a where a: "ParseAddress ipStr = Some a" "addr_wf a" using ParseAddress_total by blast
  have valid: "cidr_prefix \<lparr>cidr_Ip = ip, cidr_Prefix = n\<rparr> \<noteq> None"
    if "length ip = 4 \<and> n \<le> 32 \<or> length ip = 16 \<and> n \<le> 128" for ip n
    using that by (auto simp: cidr_prefix_def AddrFromSlice_def PrefixFrom_def Prefix_IsValid_def BitLen_def word_le_def)
  show ?thesis
  proof (cases a)
    case (ipv4Address ip)
    then show ?thesis using a cut valid [of ip] by (auto simp: parseCIDR_def not_less split: option.splits)
  next
    case (ipv6Address ip)
    then show ?thesis using a cut valid [of ip] by (auto simp: parseCIDR_def not_less split: option.splits)
  next
    case (domainAddress d)
    then show ?thesis using a cut by (auto simp: parseCIDR_def)
  qed
qed

lemma find_check_returns: "find_loop maxAlloc code False bs \<noteq> None"
proof (induction bs rule: length_induct)
  case (1 bs)
  have "find_loop maxAlloc code False bs' \<noteq> None" if "length bs' < length bs" for bs'
    using 1 that by blast
  then show ?case
    by (subst find_loop.simps)
      (auto simp: Let_def split: list.splits prod.splits sum.splits
        dest!: decodeVarint_length ReadFull_length Discard_length)
qed

lemma checkFile_returns: "\<exists>err. checkFile env file code = Some err \<and> (err = None \<longrightarrow> code \<noteq> [])"
proof (cases "ge_asset env file")
  case (Inr r)
  obtain res where "find_code (ge_maxAlloc env) r code False = Some res" "code = [] \<Longrightarrow> \<exists>e. res = Inl e"
    using find_check_returns [of "ge_maxAlloc env" code r] by (cases "code = []") (auto simp: find_code_def)
  then show ?thesis using Inr by (auto simp: checkFile_def split: sum.splits)
qed (simp add: checkFile_def)

definition bangs :: "gostring \<Rightarrow> nat" where
  "bangs s = length (takeWhile (\<lambda>c. c = 0x21) s)"

text \<open>What is known of a rule that was parsed from a string.\<close>

fun parsed_ip :: "geo_env \<Rightarrow> gostring \<Rightarrow> IPRule \<Rightarrow> bool" where
  "parsed_ip env r (IPRule_Custom v) \<longleftrightarrow> cidr_prefix (cr_Cidr v) \<noteq> None \<and> cr_ReverseMatch v = odd (bangs r)"
| "parsed_ip env r (IPRule_Geoip v) \<longleftrightarrow>
     gi_File v \<noteq> [] \<and> colon_byte \<notin> set (gi_File v) \<and> gi_Code v \<noteq> [] \<and> checkFile env (gi_File v) (gi_Code v) = Some None"
| "parsed_ip env r IPRule_Unset \<longleftrightarrow> False"

lemma parseGeoIPRule_parsed:
  "\<exists>res. parseGeoIPRule env rule reverse = Some res \<and> (\<forall>x. res = Inr x \<longrightarrow> parsed_ip env r x)"
proof -
  obtain f code ok where cut: "Cut colon_byte rule = (f, code, ok)" by (cases "Cut colon_byte rule")
  obtain code' rev where rev: "cutReversePrefix code = (code', rev)" by (cases "cutReversePrefix code")
  obtain err where err: "checkFile env f (ToUpper (ge_upper env) code') = Some err"
      "err = None \<longrightarrow> ToUpper (ge_upper env) code' \<noteq> []"
    using checkFile_returns by blast
  have "ok \<Longrightarrow> colon_byte \<notin> set f" using cut Cut_first by auto
  then show ?thesis
    using cut rev err by (cases err) (auto simp: parseGeoIPRule_def)
qed

lemma parse_ip_rule_parsed:
  "\<exists>res. parse_ip_rule env r = Some res \<and> (\<forall>x. res = Inr x \<longrightarrow> parsed_ip env r x)"
proof -
  obtain s rev where cut: "cutReversePrefix r = (s, rev)" by (cases "cutReversePrefix r")
  then have rev: "rev = odd (bangs r)" by (auto simp: cutReversePrefix_def cut_loop_eq bangs_def)
  define t where "t = (if HasPrefix s (str ''geoip:'') then str ''ext:'' @ DefaultGeoIPDat @ str '':'' @ drop 6 s else s)"
  define pre where "pre = ext_prefix [str ''ext:'', str ''ext-ip:''] t"
  have "\<exists>res. parseCustomIPRule t rev = Some res \<and> (\<forall>x. res = Inr x \<longrightarrow> parsed_ip env r x)"
    using parseCIDR_valid [of t] rev by (auto simp: parseCustomIPRule_def split: sum.splits)
  moreover have "parse_ip_rule env r = (if pre > 0 then parseGeoIPRule env (drop pre t) rev else parseCustomIPRule t rev)"
    using cut by (simp add: parse_ip_rule_def t_def pre_def Let_def)
  ultimately show ?thesis using parseGeoIPRule_parsed [of env "drop pre t" rev r] by (cases "pre > 0") auto
qed

lemma ParseIPRules_parsed:
  "\<exists>res. ParseIPRules env rules = Some res \<and> (\<forall>rs. res = Inr rs \<longrightarrow> list_all2 (parsed_ip env) rules rs)"
proof (induction rules)
  case (Cons r rules)
  then show ?case using parse_ip_rule_parsed [of env r] by (auto split: sum.splits)
qed simp

text \<open>
  The parser of IP rules never panics, and what it accepts is in order: one rule for each string;
  a custom rule has a prefix that the factory keeps, reversed exactly when the string starts with an
  odd number of exclamation marks; a GeoIP rule has a file and a code that were found in the assets,
  and a file name that does not contain the separator of cache keys.
\<close>

theorem parsed_ip_rules_in_order:
  "\<exists>res. ParseIPRules env rules = Some res \<and> (\<forall>rs. res = Inr rs \<longrightarrow> list_all2 (parsed_ip env) rules rs)"
  by (rule ParseIPRules_parsed)

definition ex_geo_env :: geo_env where
  "ex_geo_env = \<lparr>ge_asset = (\<lambda>f. Inr (enc_entry (10, [10, 2, 67, 78]))), ge_GeoIP = (\<lambda>bs. Inr []),
     ge_GeoSite = (\<lambda>bs. Inr []), ge_maxAlloc = 1000, ge_lower = (\<lambda>s. s), ge_upper = (\<lambda>s. s),
     ge_compile = (\<lambda>s. Inl EOF)\<rparr>"

lemma ex_checkFile: "checkFile ex_geo_env f (str ''CN'') = Some None"
  using find_loop_entry [of 10 "[10, 2, 67, 78]" 1000 "str ''CN''" False "[]"]
  by (simp add: checkFile_def ex_geo_env_def find_code_def entry_ok_def has_code_def str_def ascii_def)

lemma ex_custom_steps:
  "cutReversePrefix (str ''!10.0.0.0/8'') = (str ''10.0.0.0/8'', True)" "HasPrefix (str ''10.0.0.0/8'') (str ''geoip:'') = False"
  "ext_prefix [str ''ext:'', str ''ext-ip:''] (str ''10.0.0.0/8'') = 0" "str ''8'' \<noteq> []"
  by (simp_all add: cutReversePrefix_def HasPrefix_def ext_prefix_def str_def ascii_def)

lemma ex_custom_values:
  "Cut 0x2f (str ''10.0.0.0/8'') = (str ''10.0.0.0'', str ''8'', True)"
  "ParseAddress (str ''10.0.0.0'') = Some (ipv4Address [10, 0, 0, 0])" "ParseUint32 (str ''8'') = Some 8"
  by (simp_all add: Cut_def ParseAddress_def isAlphaNum_def ParseIP_def parse_ipv4_def Net_Addr.is_digit_def IPAddress_def
      v4_in_v6_def nth_append ParseUint32_def dec_val_def str_def ascii_def)

lemma ex_parse_custom:
  "parse_ip_rule ex_geo_env (str ''!10.0.0.0/8'') =
     Some (Inr (IPRule_Custom \<lparr>cr_Cidr = \<lparr>cidr_Ip = [10, 0, 0, 0], cidr_Prefix = 8\<rparr>, cr_ReverseMatch = True\<rparr>))"
  by (simp add: parse_ip_rule_def parseCustomIPRule_def parseCIDR_def ex_custom_steps ex_custom_values)

lemma ex_geo_steps:
  "cutReversePrefix (str ''geoip:cn'') = (str ''geoip:cn'', False)" "HasPrefix (str ''geoip:cn'') (str ''geoip:'')"
  "drop 6 (str ''geoip:cn'') = str ''cn''" "cutReversePrefix (str ''cn'') = (str ''cn'', False)"
  "ext_prefix [str ''ext:'', str ''ext-ip:''] (str ''ext:'' @ DefaultGeoIPDat @ str '':'' @ str ''cn'') = 4"
  "Cut colon_byte (drop 4 (str ''ext:'' @ DefaultGeoIPDat @ str '':'' @ str ''cn'')) = (str ''geoip.dat'', str ''cn'', True)"
  "ToUpper u (str ''cn'') = str ''CN''" "str ''cn'' \<noteq> []" "str ''geoip.dat'' \<noteq> []"
  by (simp_all add: cutReversePrefix_def HasPrefix_def ext_prefix_def str_def ascii_def Cut_def colon_byte_def ToUpper_def
      ToUpper_ascii_def is_lower_def DefaultGeoIPDat_def)

lemma ex_parse_geo:
  "parse_ip_rule ex_geo_env (str ''geoip:cn'') =
     Some (Inr (IPRule_Geoip \<lparr>gi_File = str ''geoip.dat'', gi_Code = str ''CN'', gi_ReverseMatch = False\<rparr>))"
  by (simp only: parse_ip_rule_def parseGeoIPRule_def ex_geo_steps prod.case Let_def if_True ex_checkFile) simp

lemma ex_parse:
  "ParseIPRules ex_geo_env [str ''!10.0.0.0/8'', str ''geoip:cn''] =
     Some (Inr [IPRule_Custom \<lparr>cr_Cidr = \<lparr>cidr_Ip = [10, 0, 0, 0], cidr_Prefix = 8\<rparr>, cr_ReverseMatch = True\<rparr>,
       IPRule_Geoip \<lparr>gi_File = str ''geoip.dat'', gi_Code = str ''CN'', gi_ReverseMatch = False\<rparr>])"
  by (simp add: ex_parse_custom ex_parse_geo)

theorem parsed_ip_rules_in_order_witness:
  "list_all2 (parsed_ip ex_geo_env) [str ''!10.0.0.0/8'', str ''geoip:cn'']
     [IPRule_Custom \<lparr>cr_Cidr = \<lparr>cidr_Ip = [10, 0, 0, 0], cidr_Prefix = 8\<rparr>, cr_ReverseMatch = True\<rparr>,
      IPRule_Geoip \<lparr>gi_File = str ''geoip.dat'', gi_Code = str ''CN'', gi_ReverseMatch = False\<rparr>]"
  using parsed_ip_rules_in_order [of ex_geo_env "[str ''!10.0.0.0/8'', str ''geoip:cn'']"] ex_parse by simp

text \<open>\<^verbatim>\<open>ParseDomainRules\<close> repeats the body of \<^verbatim>\<open>ParseDomainRule\<close>; the two agree.\<close>

lemma ParseDomainRules_each:
  "ParseDomainRules env rules t = Some (Inr rs) \<longleftrightarrow> list_all2 (\<lambda>r x. ParseDomainRule env r t = Some (Inr x)) rules rs"
proof (induction rules arbitrary: rs)
  case Nil
  then show ?case by auto
next
  case (Cons r rules)
  have "ParseDomainRules env (r # rules) t = Some (Inr rs) \<longleftrightarrow>
      (\<exists>x xs. rs = x # xs \<and> ParseDomainRule env r t = Some (Inr x) \<and> ParseDomainRules env rules t = Some (Inr xs))"
    by (cases "parse_domain_rule env r t"; cases "the (parse_domain_rule env r t)"; cases "ParseDomainRules env rules t")
      (auto simp: ParseDomainRule_def split: sum.splits)
  then show ?case by (simp add: list_all2_Cons1 Cons)
qed

section \<open>From the text of rules to answers\<close>

text \<open>The data of a code that a rule names: it is loaded without a panic, and the code has no comma.\<close>

definition geo_data_ok :: "geo_env \<Rightarrow> ip_loader \<Rightarrow> IPRule list \<Rightarrow> bool" where
  "geo_data_ok env load rs \<longleftrightarrow> (\<forall>v. IPRule_Geoip v \<in> set rs \<longrightarrow> comma \<notin> set (gi_Code v) \<and>
     (\<exists>cs. load (gi_File v) (gi_Code v) = Inr cs \<and> loadIP env (gi_File v) (gi_Code v) = Some (Inr cs)))"

lemma parsed_rules_ok:
  assumes "ParseIPRules env rules = Some (Inr rs)" "rules \<noteq> []" "geo_data_ok env load rs"
  shows "rules_ok load rs"
proof -
  have p: "list_all2 (parsed_ip env) rules rs" using assms(1) ParseIPRules_parsed [of env rules] by simp
  have each: "\<exists>r. parsed_ip env r x" if x: "x \<in> set rs" for x
  proof -
    obtain i where "i < length rs" "x = rs ! i" using x by (metis in_set_conv_nth)
    then show ?thesis using p by (metis list_all2_conv_all_nth)
  qed
  have "colon \<notin> set (gi_File v)" if "IPRule_Geoip v \<in> set rs" for v
    using each [OF that] by (simp add: colon_def colon_byte_def)
  moreover have "IPRule_Unset \<notin> set rs" using each by fastforce
  moreover have "rs \<noteq> []" using p assms(2) by auto
  ultimately show ?thesis
    using assms(3) by (auto simp: rules_ok_def geo_names_ok_def name_ok_def geo_data_ok_def)
qed

end
