(* ===== verification/Ip_Text.thy ===== *)
theory Ip_Text
  imports Geo_Rules
begin

text \<open>
  The texts of IP rules as a grammar of its own: prefixes and names of GeoIP lists, with exclamation
  marks in front of the rule and of the name. The parser reads every text of the grammar as the rule
  it stands for, so that the matcher that is built from the texts answers what the texts say.
\<close>

section \<open>The grammar\<close>

datatype ip_text =
    V4_text nat "byte \<times> byte \<times> byte \<times> byte" "nat option"
  | V6_text nat gostring "byte list" "nat option"
  | Geoip_text nat nat gostring
  | Ext_text nat bool gostring nat gostring

definition marks :: "nat \<Rightarrow> gostring" where
  "marks k = replicate k 0x21"

fun slash_bits :: "nat option \<Rightarrow> gostring" where
  "slash_bits None = []"
| "slash_bits (Some n) = 0x2f # itoa n"

fun dotted :: "byte \<times> byte \<times> byte \<times> byte \<Rightarrow> gostring" where
  "dotted (a, b, c, d) = itoa (unat a) @ [46] @ itoa (unat b) @ [46] @ itoa (unat c) @ [46] @ itoa (unat d)"

fun ip_text_string :: "ip_text \<Rightarrow> gostring" where
  "ip_text_string (V4_text k ip bits) = marks k @ dotted ip @ slash_bits bits"
| "ip_text_string (V6_text k s ip bits) = marks k @ s @ slash_bits bits"
| "ip_text_string (Geoip_text k j code) = marks k @ str ''geoip:'' @ marks j @ code"
| "ip_text_string (Ext_text k long f j code) =
     marks k @ (if long then str ''ext-ip:'' else str ''ext:'') @ f @ str '':'' @ marks j @ code"

text \<open>What a text stands for: an odd number of exclamation marks reverses the rule; codes are upper case.\<close>

fun ip_text_rule :: "geo_env \<Rightarrow> ip_text \<Rightarrow> IPRule" where
  "ip_text_rule env (V4_text k (a, b, c, d) bits) =
     IPRule_Custom \<lparr>cr_Cidr = \<lparr>cidr_Ip = [a, b, c, d], cidr_Prefix = (case bits of None \<Rightarrow> 32 | Some n \<Rightarrow> of_nat n)\<rparr>,
       cr_ReverseMatch = odd k\<rparr>"
| "ip_text_rule env (V6_text k s ip bits) =
     IPRule_Custom \<lparr>cr_Cidr = \<lparr>cidr_Ip = ip, cidr_Prefix = (case bits of None \<Rightarrow> 128 | Some n \<Rightarrow> of_nat n)\<rparr>,
       cr_ReverseMatch = odd k\<rparr>"
| "ip_text_rule env (Geoip_text k j code) =
     IPRule_Geoip \<lparr>gi_File = str ''geoip.dat'', gi_Code = ToUpper (ge_upper env) code, gi_ReverseMatch = odd (k + j)\<rparr>"
| "ip_text_rule env (Ext_text k long f j code) =
     IPRule_Geoip \<lparr>gi_File = f, gi_Code = ToUpper (ge_upper env) code, gi_ReverseMatch = odd (k + j)\<rparr>"

text \<open>
  The texts meant: prefix lengths within the family; the text of an IPv6 address, in its alphabet, with
  the bytes that \<^verbatim>\<open>ParseAddress\<close> reads from it; names of lists that are in the assets.
\<close>

definition v6_byte :: "byte \<Rightarrow> bool" where
  "v6_byte c \<longleftrightarrow> hex_val c \<noteq> None \<or> c = 58 \<or> c = 46"

definition code_ok :: "geo_env \<Rightarrow> gostring \<Rightarrow> gostring \<Rightarrow> bool" where
  "code_ok env f code \<longleftrightarrow> code \<noteq> [] \<and> hd code \<noteq> 0x21 \<and> checkFile env f (ToUpper (ge_upper env) code) = Some None"

fun ip_text_ok :: "geo_env \<Rightarrow> ip_text \<Rightarrow> bool" where
  "ip_text_ok env (V4_text k ip bits) \<longleftrightarrow> (\<forall>n. bits = Some n \<longrightarrow> n \<le> 32)"
| "ip_text_ok env (V6_text k s ip bits) \<longleftrightarrow>
     (\<forall>n. bits = Some n \<longrightarrow> n \<le> 128) \<and> list_all v6_byte s \<and> ParseAddress s = Some (ipv6Address ip)"
| "ip_text_ok env (Geoip_text k j code) \<longleftrightarrow> code_ok env (str ''geoip.dat'') code"
| "ip_text_ok env (Ext_text k long f j code) \<longleftrightarrow> f \<noteq> [] \<and> colon_byte \<notin> set f \<and> code_ok env f code"

section \<open>Reading a prefix\<close>

lemma itoa_cases:
  "n < 10 \<Longrightarrow> itoa n = [48 + of_nat n]"
  "10 \<le> n \<Longrightarrow> n < 100 \<Longrightarrow> itoa n = [48 + of_nat (n div 10), 48 + of_nat (n mod 10)]"
  "100 \<le> n \<Longrightarrow> n < 1000 \<Longrightarrow> itoa n = [48 + of_nat (n div 100), 48 + of_nat (n div 10 mod 10), 48 + of_nat (n mod 10)]"
proof -
  show one: "n < 10 \<Longrightarrow> itoa n = [48 + of_nat n]" for n by (simp add: itoa.simps)
  show two: "10 \<le> n \<Longrightarrow> n < 100 \<Longrightarrow> itoa n = [48 + of_nat (n div 10), 48 + of_nat (n mod 10)]" for n
    using one [of "n div 10"] by (subst itoa.simps) auto
  show "100 \<le> n \<Longrightarrow> n < 1000 \<Longrightarrow> itoa n = [48 + of_nat (n div 100), 48 + of_nat (n div 10 mod 10), 48 + of_nat (n mod 10)]"
    using two [of "n div 10"] by (subst itoa.simps) (auto simp: div_mult2_eq [symmetric])
qed

lemma octet_read:
  assumes "n < 256"
  shows "parse_ipv4_fields (itoa n @ rest) acc 0 0 pd = parse_ipv4_fields rest acc n (length (itoa n)) False"
proof -
  consider "n < 10" | "10 \<le> n" "n < 100" | "100 \<le> n" "n < 1000" using assms by linarith
  then show ?thesis
  proof cases
    case 1
    then show ?thesis using digit_byte [of n] by (simp add: itoa_cases)
  next
    case 2
    then have "n div 10 * 10 + n mod 10 = n" "0 < n div 10" "n div 10 < 10" by auto
    then show ?thesis using 2 digit_byte [of "n div 10"] digit_byte [of "n mod 10"] assms by (simp add: itoa_cases)
  next
    case 3
    have h: "n div 100 = n div 10 div 10" by (simp add: div_mult2_eq [symmetric])
    have "n div 100 * 10 + n div 10 mod 10 = n div 10" unfolding h by simp
    moreover have "n div 10 * 10 + n mod 10 = n" "0 < n div 100" "n div 100 < 10" "\<not> 255 < n div 10" using 3 assms by auto
    ultimately show ?thesis
      using 3 digit_byte [of "n div 100"] digit_byte [of "n div 10 mod 10"] digit_byte [of "n mod 10"] assms
      by (simp add: itoa_cases Let_def)
  qed
qed

lemma parse_dotted: "parse_ipv4 (dotted (a, b, c, d)) = Some [a, b, c, d]"
proof -
  have u: "unat x < 256" for x :: byte using unsigned_less [of x, where 'a = nat] by simp
  have ne: "itoa n \<noteq> []" for n using itoa_digits by blast
  have e: "parse_ipv4_fields (itoa n) acc 0 0 pd = parse_ipv4_fields [] acc n (length (itoa n)) False" if "n < 256" for n acc pd
    using octet_read [OF that, of "[]"] by simp
  show ?thesis
    by (simp add: parse_ipv4_def octet_read [OF u] e [OF u] ne Net_Addr.is_digit_def)
qed

lemma digits_alphabet: "c \<in> set (itoa n) \<Longrightarrow> Net_Addr.is_digit c"
  using itoa_digits [of n] by (simp add: list_all_iff)

lemma digit_not: "Net_Addr.is_digit c \<Longrightarrow> c \<noteq> 46 \<and> c \<noteq> 58 \<and> c \<noteq> 37 \<and> c \<noteq> 91 \<and> c \<noteq> 0x2f \<and> c \<noteq> 0x21 \<and> isAlphaNum c"
  by (auto simp: Net_Addr.is_digit_def isAlphaNum_def)

lemma find_skip: "\<forall>x \<in> set xs. \<not> P x \<Longrightarrow> List.find P (xs @ ys) = List.find P ys"
  by (induction xs) auto

lemma ParseAddress_dotted: "ParseAddress (dotted (a, b, c, d)) = Some (ipv4Address [a, b, c, d])"
proof -
  have ne: "itoa n \<noteq> []" for n using itoa_digits by blast
  have hd: "hd (dotted (a, b, c, d)) = hd (itoa (unat a))" "last (dotted (a, b, c, d)) = last (itoa (unat d))"
    "dotted (a, b, c, d) \<noteq> []" using ne by simp_all
  have dig: "Net_Addr.is_digit (hd (dotted (a, b, c, d)))" "Net_Addr.is_digit (last (dotted (a, b, c, d)))"
    unfolding hd using ne digits_alphabet by (metis hd_in_set, metis last_in_set)
  have "\<forall>x \<in> set (itoa (unat a)). \<not> (x = 46 \<or> x = 58 \<or> x = 37)" using digits_alphabet digit_not by blast
  from find_skip [OF this] have "List.find (\<lambda>c. c = 46 \<or> c = 58 \<or> c = 37) (dotted (a, b, c, d)) = Some 46" by simp
  then have "ParseIP (dotted (a, b, c, d)) = Some (replicate 10 0 @ [255, 255] @ [a, b, c, d])"
    unfolding ParseIP_def by (simp only: option.case parse_dotted) simp
  moreover have "IPAddress (replicate 10 0 @ [255, 255] @ [a, b, c, d]) = Some (ipv4Address [a, b, c, d])"
    by (simp add: IPAddress_def v4_in_v6_def nth_append)
  moreover have "hd (dotted (a, b, c, d)) \<noteq> 91" "isAlphaNum (hd (dotted (a, b, c, d)))" "isAlphaNum (last (dotted (a, b, c, d)))"
    using digit_not dig by blast+
  ultimately show ?thesis by (simp only: ParseAddress_def Let_def simp_thms if_False option.case)
qed

text \<open>A text without a slash, followed by the length of a prefix.\<close>

lemma Cut_slash:
  assumes "0x2f \<notin> set s"
  shows "Cut 0x2f (s @ slash_bits bits) = (s, (case bits of None \<Rightarrow> [] | Some n \<Rightarrow> itoa n), bits \<noteq> None)"
proof (cases bits)
  case (Some n)
  have "takeWhile (\<lambda>x. x \<noteq> 0x2f) (s @ 0x2f # itoa n) = s" "dropWhile (\<lambda>x. x \<noteq> 0x2f) (s @ 0x2f # itoa n) = 0x2f # itoa n"
    using assms by (simp_all add: takeWhile_append dropWhile_append)
  then show ?thesis by (simp add: Some Cut_def)
qed (use assms in \<open>simp add: Cut_def\<close>)

lemma ParseUint32_itoa: "n < 2 ^ 32 \<Longrightarrow> ParseUint32 (itoa n) = Some (of_nat n)"
  using itoa_digits [of n] by (simp add: ParseUint32_def)

lemma of_nat_le_bits: "n \<le> m \<Longrightarrow> m < 2 ^ 32 \<Longrightarrow> (of_nat n :: u32) \<le> of_nat m"
  by (simp add: word_le_nat_alt unat_of_nat_u32)

lemma parseCIDR_text:
  assumes s: "0x2f \<notin> set s" and bits: "\<forall>n. bits = Some n \<longrightarrow> n \<le> (if length ip = 4 then 32 else 128)"
    and addr: "ParseAddress s = Some (if length ip = 4 then ipv4Address ip else ipv6Address ip)"
  shows "parseCIDR (s @ slash_bits bits) = Some (Inr \<lparr>cidr_Ip = ip,
    cidr_Prefix = (case bits of None \<Rightarrow> (if length ip = 4 then 32 else 128) | Some n \<Rightarrow> of_nat n)\<rparr>)"
proof (cases bits)
  case None
  then show ?thesis
    unfolding parseCIDR_def Let_def Cut_slash [OF s] using addr by (simp split: if_splits)
next
  case (Some n)
  have n: "n \<le> (if length ip = 4 then 32 else 128)" using bits Some by simp
  then have "ParseUint32 (itoa n) = Some (of_nat n)" by (intro ParseUint32_itoa) (simp split: if_splits)
  moreover have "(of_nat n :: u32) \<le> (if length ip = 4 then 32 else 128)"
    using n of_nat_le_bits [of n "if length ip = 4 then 32 else 128"] by (simp split: if_splits)
  moreover have "itoa n \<noteq> []" using itoa_digits by blast
  ultimately show ?thesis
    unfolding parseCIDR_def Let_def Cut_slash [OF s] using addr by (simp add: Some not_less split: if_splits)
qed

section \<open>Reading a rule\<close>

lemma cut_marks: "s \<noteq> [] \<Longrightarrow> hd s \<noteq> 0x21 \<Longrightarrow> cutReversePrefix (marks k @ s) = (s, odd k)"
proof -
  assume "s \<noteq> []" "hd s \<noteq> 0x21"
  then obtain c t where s: "s = c # t" "c \<noteq> 0x21" by (cases s) auto
  have "cut_loop (replicate k 0x21 @ s) r = (s, r \<noteq> odd k)" for r
    by (induction k arbitrary: r) (auto simp: s)
  then show ?thesis by (simp add: cutReversePrefix_def marks_def)
qed

text \<open>A text that starts with a letter of an address is no name of a list.\<close>

lemma custom_text:
  assumes "s \<noteq> []" "list_all v6_byte s" "parseCIDR (s @ slash_bits bits) = Some (Inr c)"
  shows "parse_ip_rule env (marks k @ s @ slash_bits bits) = Some (Inr (IPRule_Custom \<lparr>cr_Cidr = c, cr_ReverseMatch = odd k\<rparr>))"
proof -
  let ?t = "s @ slash_bits bits"
  have hex: "v6_byte c" if "Net_Addr.is_digit c" for c using that by (simp add: v6_byte_def hex_val_def)
  have alpha: "v6_byte c \<or> c = 0x2f" if "c \<in> set ?t" for c
    using that assms(2) digits_alphabet hex by (cases bits) (auto simp: list_all_iff)
  have no: "\<not> HasPrefix ?t p" if p: "c \<in> set p" "\<not> v6_byte c" "c \<noteq> 0x2f" for p c
  proof
    assume "HasPrefix ?t p"
    then have "c \<in> set ?t" using p(1) unfolding HasPrefix_def by (metis in_set_takeD)
    then show False using alpha p(2,3) by blast
  qed
  have odd_bytes: "\<not> v6_byte 0x67" "\<not> v6_byte 0x78" "\<not> v6_byte 0x21"
    by (simp_all add: v6_byte_def hex_val_def Net_Addr.is_digit_def)
  have "\<not> HasPrefix ?t (str ''geoip:'')" "\<not> HasPrefix ?t (str ''ext:'')" "\<not> HasPrefix ?t (str ''ext-ip:'')"
    using no [OF _ odd_bytes(1)] no [OF _ odd_bytes(2)] by (simp_all add: str_def ascii_def)
  moreover have "hd ?t \<noteq> 0x21" using alpha [of "hd ?t"] assms(1) odd_bytes(3) by auto
  ultimately show ?thesis
    using assms(1,3) cut_marks [of ?t k] by (simp add: parse_ip_rule_def ext_prefix_def parseCustomIPRule_def)
qed

lemma Cut_colon: "colon_byte \<notin> set f \<Longrightarrow> Cut colon_byte (f @ colon_byte # r) = (f, r, True)"
  by (simp add: Cut_def takeWhile_append dropWhile_append)

lemma geo_text:
  assumes "f \<noteq> []" "colon_byte \<notin> set f" "code_ok env f code"
  shows "parseGeoIPRule env (f @ colon_byte # marks j @ code) r =
    Some (Inr (IPRule_Geoip \<lparr>gi_File = f, gi_Code = ToUpper (ge_upper env) code, gi_ReverseMatch = (r \<noteq> odd j)\<rparr>))"
  using assms cut_marks [of code j] by (simp add: parseGeoIPRule_def Cut_colon code_ok_def)

lemma str_prefixes:
  "str ''geoip:'' = [0x67, 0x65, 0x6f, 0x69, 0x70, colon_byte]" "str ''ext:'' = [0x65, 0x78, 0x74, colon_byte]"
  "str ''ext-ip:'' = [0x65, 0x78, 0x74, 0x2d, 0x69, 0x70, colon_byte]" "str '':'' = [colon_byte]"
  by (simp_all add: str_def ascii_def colon_byte_def)

lemma parse_ip_text: "ip_text_ok env t \<Longrightarrow> parse_ip_rule env (ip_text_string t) = Some (Inr (ip_text_rule env t))"
proof (cases t)
  case (V4_text k ip bits)
  assume ok: "ip_text_ok env t"
  obtain a b c d where ip: "ip = (a, b, c, d)" by (cases ip)
  have dig: "Net_Addr.is_digit x \<or> x = 46" if "x \<in> set (dotted ip)" for x using that digits_alphabet by (auto simp: ip)
  then have "0x2f \<notin> set (dotted ip)" using digit_not by fastforce
  moreover have "list_all v6_byte (dotted ip)" using dig by (auto simp: list_all_iff v6_byte_def hex_val_def)
  moreover have "dotted ip \<noteq> []" by (simp add: ip)
  moreover have "ParseAddress (dotted ip) = Some (ipv4Address [a, b, c, d])" unfolding ip by (rule ParseAddress_dotted)
  ultimately show ?thesis
    using ok parseCIDR_text [of "dotted ip" bits "[a, b, c, d]"] custom_text [of "dotted ip" bits _ env k] V4_text by (simp add: ip)
next
  case (V6_text k s ip bits)
  assume ok: "ip_text_ok env t"
  have "\<not> v6_byte 0x2f" by (simp add: v6_byte_def hex_val_def Net_Addr.is_digit_def)
  then have "0x2f \<notin> set s" using ok V6_text by (auto simp: list_all_iff)
  moreover have "length ip = 16" using ok V6_text ParseAddress_total [of s] by auto
  moreover have "s \<noteq> []" using ok V6_text by (auto simp: ParseAddress_def ParseIP_def DomainAddress_def)
  ultimately show ?thesis
    using ok parseCIDR_text [of s bits ip] custom_text [of s bits _ env k] V6_text by simp
next
  case (Geoip_text k j code)
  assume ok: "ip_text_ok env t"
  have f: "str ''geoip.dat'' \<noteq> []" "colon_byte \<notin> set (str ''geoip.dat'')" by (simp_all add: str_def ascii_def colon_byte_def)
  have "cutReversePrefix (ip_text_string t) = (str ''geoip:'' @ marks j @ code, odd k)"
    using cut_marks [of "str ''geoip:'' @ marks j @ code" k] Geoip_text by (simp add: str_prefixes)
  then show ?thesis
    using geo_text [OF f, of env code j "odd k"] ok Geoip_text
    by (simp add: parse_ip_rule_def HasPrefix_def ext_prefix_def str_prefixes DefaultGeoIPDat_def)
next
  case (Ext_text k long f j code)
  assume ok: "ip_text_ok env t"
  let ?e = "if long then str ''ext-ip:'' else str ''ext:''"
  have "cutReversePrefix (ip_text_string t) = (?e @ f @ str '':'' @ marks j @ code, odd k)"
    using cut_marks [of "?e @ f @ str '':'' @ marks j @ code" k] Ext_text by (simp add: str_prefixes)
  then show ?thesis
    using geo_text [of f env code j "odd k"] ok Ext_text
    by (cases long) (simp_all add: parse_ip_rule_def HasPrefix_def ext_prefix_def str_prefixes colon_byte_def)
qed

lemma ParseIPRules_texts:
  "list_all (ip_text_ok env) ts \<Longrightarrow> ParseIPRules env (map ip_text_string ts) = Some (Inr (map (ip_text_rule env) ts))"
  by (induction ts) (simp_all add: parse_ip_text)

section \<open>From the texts to the answers\<close>

text \<open>
  C13. From the text of IP rules to the answers of the router. For texts of the grammar --- IPv4 and IPv6
  prefixes and names of GeoIP lists whose data loads, each with any number of exclamation marks --- the
  parser gives one rule for each text, with the address, the prefix length, the file and the code that are
  written and reversed exactly for an odd number of marks. The matcher of these rules is built and
  accepts exactly the lists of addresses with a valid address that these rules accept. The cache holds
  only matchers of the data, and keeps to that.
\<close>

theorem ip_rules_from_text:
  assumes "netipx_ok lib" "cache_ok lib load shared"
    and "list_all (ip_text_ok env) ts" "ts \<noteq> []" "geo_data_ok env load (map (ip_text_rule env) ts)"
  shows "\<exists>rs m shared'. ParseIPRules env (map ip_text_string ts) = Some (Inr rs) \<and> rs = map (ip_text_rule env) ts \<and>
    buildOptimizedIPMatcher lib load rs shared = Some (Inr m, shared') \<and> cache_ok lib load shared' \<and>
    (\<forall>ips. IPMatcher_AnyMatch lib m ips \<longleftrightarrow>
      (\<exists>ip \<in> set ips. \<exists>a. std_addr ip = Some a \<and> ip_rules_accept load (map (ip_text_rule env) ts) a))"
proof -
  have p: "ParseIPRules env (map ip_text_string ts) = Some (Inr (map (ip_text_rule env) ts))"
    using ParseIPRules_texts [OF assms(3)] .
  show ?thesis
    using p buildOptimized_spec [OF assms(1,2) parsed_rules_ok [OF p _ assms(5)]] assms(4) by (simp add: answers_def)
qed

definition ex_texts :: "ip_text list" where
  "ex_texts = [V4_text 1 (10, 0, 0, 0) (Some 8)]"

lemma ex_texts_string: "map ip_text_string ex_texts = [str ''!10.0.0.0/8'']"
  by (simp add: ex_texts_def marks_def itoa.simps str_def ascii_def)

theorem ip_rules_from_text_witness:
  "\<exists>rs m shared'. ParseIPRules ex_geo_env [str ''!10.0.0.0/8''] = Some (Inr rs) \<and>
    buildOptimizedIPMatcher list_netipx ex_load rs Map.empty = Some (Inr m, shared') \<and>
    IPMatcher_AnyMatch list_netipx m [[11, 0, 0, 1]] \<and> \<not> IPMatcher_AnyMatch list_netipx m [[10, 0, 0, 1]]"
proof -
  let ?rs = "map (ip_text_rule ex_geo_env) ex_texts"
  have ok: "list_all (ip_text_ok ex_geo_env) ex_texts" "ex_texts \<noteq> []" "geo_data_ok ex_geo_env ex_load ?rs"
    by (simp_all add: ex_texts_def geo_data_ok_def)
  have "ip_rules_accept ex_load ?rs (Addr4 [11, 0, 0, 1])" "\<not> ip_rules_accept ex_load ?rs (Addr4 [10, 0, 0, 1])"
    by (simp_all add: ex_texts_def ip_rules_accept_def custom_cidrs_def geo_rules_def geo_cidrs_def group_match_def cidr_prefix_def
        AddrFromSlice_def PrefixFrom_def Prefix_IsValid_def BitLen_def Prefix_Contains_def same_family_def bits_of_def byte_bits_def)
  then show ?thesis
    using ip_rules_from_text [OF list_netipx_ok cache_ok_empty ok, unfolded ex_texts_string] by (auto simp: std_addr_def)
qed

end
