(* ===== verification/Domain_Rules.thy ===== *)
theory Domain_Rules
  imports Geo_Data Linear_Match
begin

text \<open>
  Domain rules: the factories that compile them (\<^verbatim>\<open>common/geodata/domain_matcher.go\<close>), one with a
  perfect-hash matcher for all rules and one with a compact matcher that shares the sets of
  GeoSite codes, and the registry of live matchers (\<^verbatim>\<open>domain_registry.go\<close>). The caches of the
  factories hold their matchers weakly: any entry may be missing.
\<close>

section \<open>Parsing a domain and the key of a rule list\<close>

definition parseDomain :: "geo_env \<Rightarrow> GeoDomain option \<Rightarrow> go_error + matcher" where
  "parseDomain env d =
     (case d of
        None \<Rightarrow> Inl (ErrNew ''domain must not be nil'')
      | Some d \<Rightarrow>
          (case gd_Type d of
             Domain_Substr \<Rightarrow> Type_New (ge_compile env) Substr (ToLower (ge_lower env) (gd_Value d))
           | Domain_Regex \<Rightarrow> Type_New (ge_compile env) Regex (gd_Value d)
           | Domain_Domain \<Rightarrow> Type_New (ge_compile env) Domain (ToLower (ge_lower env) (gd_Value d))
           | Domain_Full \<Rightarrow> Type_New (ge_compile env) Full (ToLower (ge_lower env) (gd_Value d))
           | Domain_Unknown n \<Rightarrow> Inl (ErrNew ''unknown domain type: '')))"

text \<open>The name of an enum value; an unknown value is printed as a number.\<close>

fun Domain_Type_String :: "Domain_Type \<Rightarrow> gostring" where
  "Domain_Type_String Domain_Substr = str ''Substr''"
| "Domain_Type_String Domain_Regex = str ''Regex''"
| "Domain_Type_String Domain_Domain = str ''Domain''"
| "Domain_Type_String Domain_Full = str ''Full''"
| "Domain_Type_String (Domain_Unknown n) = itoa n"

text \<open>The text of one rule in a key and whether it is one of a file; \<open>None\<close> is a panic.\<close>

fun key_part :: "DomainRule \<Rightarrow> (gostring \<times> bool) go" where
  "key_part (DomainRule_Custom None) = None"
| "key_part (DomainRule_Custom (Some d)) =
     Some (Domain_Type_String (gd_Type d) @ str '':'' @ gd_Value d @ str '','', False)"
| "key_part (DomainRule_Geosite v) =
     Some (gs_File v @ str '':'' @ gs_Code v @ str ''@'' @ gs_Attrs v @ str '','', True)"
| "key_part DomainRule_Unset = None"

fun domain_key_loop :: "DomainRule list \<Rightarrow> gostring \<Rightarrow> bool \<Rightarrow> gostring go" where
  "domain_key_loop [] sb cache = Some (if \<not> cache then [] else sb)"
| "domain_key_loop (r # rs) sb cache = do {
     (part, geo) \<leftarrow> key_part r;
     domain_key_loop rs (sb @ part) (cache \<or> geo) }"

definition buildDomainRulesKey :: "DomainRule list \<Rightarrow> gostring go" where
  "buildDomainRulesKey rules = domain_key_loop rules [] False"

section \<open>The factory of perfect-hash matchers\<close>

type_synonym mem_hash = "u32 \<Rightarrow> gostring \<Rightarrow> u32"

text \<open>The domains of a code are added; an entry that does not parse is logged and skipped.\<close>

fun add_domains :: "geo_env \<Rightarrow> u32 \<Rightarrow> GeoDomain list \<Rightarrow> MphValueMatcher \<Rightarrow> MphValueMatcher go" where
  "add_domains env i [] g = Some g"
| "add_domains env i (d # ds) g =
     (case parseDomain env (Some d) of
        Inl e \<Rightarrow> add_domains env i ds g
      | Inr m \<Rightarrow> do { g \<leftarrow> MphValueMatcher_Add (ge_lower env) m i g; add_domains env i ds g })"

fun mph_rules_loop :: "geo_env \<Rightarrow> nat \<Rightarrow> DomainRule list \<Rightarrow> MphValueMatcher \<Rightarrow> (go_error + MphValueMatcher) go" where
  "mph_rules_loop env i [] g = Some (Inr g)"
| "mph_rules_loop env i (DomainRule_Custom d # rs) g =
     (case parseDomain env d of
        Inl e \<Rightarrow> Some (Inl e)
      | Inr m \<Rightarrow> do { g \<leftarrow> MphValueMatcher_Add (ge_lower env) m (of_nat i) g; mph_rules_loop env (Suc i) rs g })"
| "mph_rules_loop env i (DomainRule_Geosite v # rs) g = do {
     domains \<leftarrow> loadSiteWithAttrs env (gs_File v) (gs_Code v) (gs_Attrs v);
     (case domains of
        Inl e \<Rightarrow> Some (Inl e)
      | Inr ds \<Rightarrow> do { g \<leftarrow> add_domains env (of_nat i) ds g; mph_rules_loop env (Suc i) rs g }) }"
| "mph_rules_loop env i (DomainRule_Unset # rs) g = None"

type_synonym mph_cache = "gostring \<rightharpoonup> MphValueMatcher"

definition MphFactory_BuildMatcher ::
  "mem_hash \<Rightarrow> geo_env \<Rightarrow> DomainRule list \<Rightarrow> mph_cache \<Rightarrow> ((go_error + MphValueMatcher) \<times> mph_cache) go" where
  "MphFactory_BuildMatcher mem env rules shared =
     (if length rules = 0 then Some (Inl (ErrNew ''empty domain rule list''), shared)
      else do {
        key \<leftarrow> buildDomainRulesKey rules;
        (case (if key \<noteq> [] then shared key else None) of
           Some g \<Rightarrow> Some (Inr g, shared)
         | None \<Rightarrow> do {
             g \<leftarrow> mph_rules_loop env 0 rules NewMphValueMatcher;
             (case g of
                Inl e \<Rightarrow> Some (Inl e, shared)
              | Inr g \<Rightarrow> do {
                  g \<leftarrow> MphValueMatcher_Build mem g;
                  Some (Inr g, if key \<noteq> [] then shared(key \<mapsto> g) else shared) }) }) })"

section \<open>The factory of compact matchers\<close>

fun add_any :: "geo_env \<Rightarrow> GeoDomain list \<Rightarrow> LinearAnyMatcher \<Rightarrow> LinearAnyMatcher" where
  "add_any env [] s = s"
| "add_any env (d # ds) s =
     (case parseDomain env (Some d) of
        Inl e \<Rightarrow> add_any env ds s
      | Inr m \<Rightarrow> add_any env ds (LinearAnyMatcher_Add m s))"

type_synonym any_cache = "gostring \<rightharpoonup> LinearAnyMatcher"

definition getOrCreateFrom ::
  "geo_env \<Rightarrow> GeoSiteRule \<Rightarrow> any_cache \<Rightarrow> ((go_error + LinearAnyMatcher) \<times> any_cache) go" where
  "getOrCreateFrom env rule shared =
     (let key = gs_File rule @ str '':'' @ gs_Code rule @ str ''@'' @ gs_Attrs rule in
      case shared key of
        Some s \<Rightarrow> Some (Inr s, shared)
      | None \<Rightarrow> do {
          domains \<leftarrow> loadSiteWithAttrs env (gs_File rule) (gs_Code rule) (gs_Attrs rule);
          (case domains of
             Inl e \<Rightarrow> Some (Inl e, shared)
           | Inr ds \<Rightarrow> let s = add_any env ds NewLinearAnyMatcher in Some (Inr s, shared(key \<mapsto> s))) })"

record CompactDomainMatcher =
  cd_custom :: "LinearValueMatcher option"
  cd_matchers :: "LinearAnyMatcher list"
  cd_values :: "u32 list"

fun compact_rules_loop ::
  "geo_env \<Rightarrow> nat \<Rightarrow> DomainRule list \<Rightarrow> CompactDomainMatcher \<Rightarrow> any_cache \<Rightarrow>
   ((go_error + CompactDomainMatcher) \<times> any_cache) go" where
  "compact_rules_loop env i [] c shared = Some (Inr c, shared)"
| "compact_rules_loop env i (DomainRule_Custom d # rs) c shared =
     (case parseDomain env d of
        Inl e \<Rightarrow> Some (Inl e, shared)
      | Inr m \<Rightarrow>
          compact_rules_loop env (Suc i) rs
            (c\<lparr>cd_custom := Some (LinearValueMatcher_Add m (of_nat i) (or_new NewLinearValueMatcher (cd_custom c)))\<rparr>) shared)"
| "compact_rules_loop env i (DomainRule_Geosite v # rs) c shared = do {
     (m, shared) \<leftarrow> getOrCreateFrom env v shared;
     (case m of
        Inl e \<Rightarrow> Some (Inl e, shared)
      | Inr m \<Rightarrow>
          compact_rules_loop env (Suc i) rs
            (c\<lparr>cd_matchers := cd_matchers c @ [m], cd_values := cd_values c @ [of_nat i]\<rparr>) shared) }"
| "compact_rules_loop env i (DomainRule_Unset # rs) c shared = None"

definition CompactFactory_BuildMatcher ::
  "geo_env \<Rightarrow> DomainRule list \<Rightarrow> any_cache \<Rightarrow> ((go_error + CompactDomainMatcher) \<times> any_cache) go" where
  "CompactFactory_BuildMatcher env rules shared =
     (if length rules = 0 then Some (Inl (ErrNew ''empty domain rule list''), shared)
      else compact_rules_loop env 0 rules \<lparr>cd_custom = None, cd_matchers = [], cd_values = []\<rparr> shared)"

text \<open>\<open>None\<close> is the panic on a missing value, or a \<^verbatim>\<open>Match\<close> of the custom rules that does not return.\<close>

fun compact_match_loop :: "gostring \<Rightarrow> LinearAnyMatcher list \<Rightarrow> nat \<Rightarrow> u32 list \<Rightarrow> u32 list \<Rightarrow> u32 list go" where
  "compact_match_loop input [] i vals result = Some result"
| "compact_match_loop input (m # ms) i vals result =
     (if LinearAnyMatcher_MatchAny m input then
        (if i < length vals then compact_match_loop input ms (Suc i) vals (result @ [vals ! i]) else None)
      else compact_match_loop input ms (Suc i) vals result)"

definition CompactDomainMatcher_Match :: "CompactDomainMatcher \<Rightarrow> gostring \<Rightarrow> u32 list go" where
  "CompactDomainMatcher_Match c input = do {
     result \<leftarrow> (case cd_custom c of None \<Rightarrow> Some [] | Some g \<Rightarrow> LinearValueMatcher_Match g input);
     compact_match_loop input (cd_matchers c) 0 (cd_values c) result }"

definition CompactDomainMatcher_MatchAny :: "CompactDomainMatcher \<Rightarrow> gostring \<Rightarrow> bool" where
  "CompactDomainMatcher_MatchAny c input =
     (if (case cd_custom c of None \<Rightarrow> False | Some g \<Rightarrow> LinearValueMatcher_MatchAny g input) then True
      else list_ex (\<lambda>m. LinearAnyMatcher_MatchAny m input) (cd_matchers c))"

section \<open>Factories, dynamic matchers and the registry\<close>

datatype domain_matcher = Mph_domain MphValueMatcher | Compact_domain CompactDomainMatcher

fun DomainMatcher_MatchAny :: "mem_hash \<Rightarrow> domain_matcher \<Rightarrow> gostring \<Rightarrow> bool" where
  "DomainMatcher_MatchAny mem (Mph_domain g) input = MphValueMatcher_MatchAny mem g input"
| "DomainMatcher_MatchAny mem (Compact_domain c) input = CompactDomainMatcher_MatchAny c input"

fun DomainMatcher_Values :: "mem_hash \<Rightarrow> domain_matcher \<Rightarrow> gostring \<Rightarrow> u32 list go" where
  "DomainMatcher_Values mem (Mph_domain g) input = MphValueMatcher_Match mem g input"
| "DomainMatcher_Values mem (Compact_domain c) input = CompactDomainMatcher_Match c input"

datatype DomainMatcherFactory = MphDomainMatcherFactory mph_cache | CompactDomainMatcherFactory any_cache

fun Factory_BuildMatcher ::
  "mem_hash \<Rightarrow> geo_env \<Rightarrow> DomainRule list \<Rightarrow> DomainMatcherFactory \<Rightarrow>
   ((go_error + domain_matcher) \<times> DomainMatcherFactory) go" where
  "Factory_BuildMatcher mem env rules (MphDomainMatcherFactory shared) =
     map_option (\<lambda>(r, shared). (map_sum id Mph_domain r, MphDomainMatcherFactory shared)) (MphFactory_BuildMatcher mem env rules shared)"
| "Factory_BuildMatcher mem env rules (CompactDomainMatcherFactory shared) =
     map_option (\<lambda>(r, shared). (map_sum id Compact_domain r, CompactDomainMatcherFactory shared))
       (CompactFactory_BuildMatcher env rules shared)"

definition newDomainMatcherFactory :: "string \<Rightarrow> DomainMatcherFactory" where
  "newDomainMatcherFactory GOOS =
     (if GOOS \<in> {''ios'', ''android''} then CompactDomainMatcherFactory Map.empty else MphDomainMatcherFactory Map.empty)"

record DynamicDomainMatcher =
  dd_rules :: "DomainRule list"
  dd_matcher :: domain_matcher

definition DynamicDomain_Match :: "mem_hash \<Rightarrow> DynamicDomainMatcher \<Rightarrow> gostring \<Rightarrow> u32 list go" where
  "DynamicDomain_Match mem d input = DomainMatcher_Values mem (dd_matcher d) input"

definition DynamicDomain_MatchAny :: "mem_hash \<Rightarrow> DynamicDomainMatcher \<Rightarrow> gostring \<Rightarrow> bool" where
  "DynamicDomain_MatchAny mem d input = DomainMatcher_MatchAny mem (dd_matcher d) input"

definition DynamicDomain_Reload :: "domain_matcher \<Rightarrow> DynamicDomainMatcher \<Rightarrow> DynamicDomainMatcher" where
  "DynamicDomain_Reload m d = d\<lparr>dd_matcher := m\<rparr>"

definition NewDynamicDomainMatcher :: "DomainRule list \<Rightarrow> domain_matcher \<Rightarrow> DynamicDomainMatcher" where
  "NewDynamicDomainMatcher rules m = DynamicDomain_Reload m \<lparr>dd_rules = rules, dd_matcher = m\<rparr>"

record DomainRegistry =
  dr_factory :: DomainMatcherFactory
  dr_matchers :: "DynamicDomainMatcher list"

definition newDomainRegistry :: "string \<Rightarrow> DomainRegistry" where
  "newDomainRegistry GOOS = \<lparr>dr_factory = newDomainMatcherFactory GOOS, dr_matchers = []\<rparr>"

definition BuildDomainMatcher ::
  "mem_hash \<Rightarrow> geo_env \<Rightarrow> DomainRule list \<Rightarrow> DomainRegistry \<Rightarrow> ((go_error + DynamicDomainMatcher) \<times> DomainRegistry) go" where
  "BuildDomainMatcher mem env rules r = do {
     (m, factory) \<leftarrow> Factory_BuildMatcher mem env rules (dr_factory r);
     let r = r\<lparr>dr_factory := factory\<rparr>;
     (case m of
        Inl e \<Rightarrow> Some (Inl e, r)
      | Inr m \<Rightarrow>
          let d = NewDynamicDomainMatcher rules m in
          Some (Inr d, r\<lparr>dr_matchers := dr_matchers r @ [d]\<rparr>)) }"

fun domain_rebuild_loop ::
  "mem_hash \<Rightarrow> geo_env \<Rightarrow> DynamicDomainMatcher list \<Rightarrow> DomainMatcherFactory \<Rightarrow>
   ((go_error + domain_matcher list) \<times> DomainMatcherFactory) go" where
  "domain_rebuild_loop mem env [] factory = Some (Inr [], factory)"
| "domain_rebuild_loop mem env (d # ds) factory = do {
     (m, factory) \<leftarrow> Factory_BuildMatcher mem env (dd_rules d) factory;
     (case m of
        Inl e \<Rightarrow> Some (Inl e, factory)
      | Inr m \<Rightarrow> do {
          (ms, factory) \<leftarrow> domain_rebuild_loop mem env ds factory;
          (case ms of Inl e \<Rightarrow> Some (Inl e, factory) | Inr ms \<Rightarrow> Some (Inr (m # ms), factory)) }) }"

definition DomainRegistry_Reload ::
  "mem_hash \<Rightarrow> geo_env \<Rightarrow> string \<Rightarrow> DomainRegistry \<Rightarrow> (go_error option \<times> DomainRegistry) go" where
  "DomainRegistry_Reload mem env GOOS r = do {
     (reloaded, factory) \<leftarrow> domain_rebuild_loop mem env (dr_matchers r) (newDomainMatcherFactory GOOS);
     (case reloaded of
        Inl e \<Rightarrow> Some (Some e, r)
      | Inr ms \<Rightarrow>
          Some (None, r\<lparr>dr_matchers := map (\<lambda>(m, d). DynamicDomain_Reload m d) (zip ms (dr_matchers r)),
                        dr_factory := factory\<rparr>)) }"

end
