(* ===== verification/Domain_Meaning.thy ===== *)
theory Domain_Meaning
  imports Domain_Rules Geo_Rules
begin

text \<open>
  What a list of domain rules means: the indices of the rules one of whose patterns matches. Both
  factories build matchers that answer so when no text of a rule contains the separators of the cache
  keys and the caches hold only matchers of such lists; a value with a comma is enough to confuse two lists.
\<close>

section \<open>The patterns of a rule\<close>

definition parsed_domains :: "geo_env \<Rightarrow> GeoDomain list \<Rightarrow> matcher list" where
  "parsed_domains env ds = List.map_filter (\<lambda>d. case parseDomain env (Some d) of Inl _ \<Rightarrow> None | Inr m \<Rightarrow> Some m) ds"

fun rule_matchers :: "geo_env \<Rightarrow> DomainRule \<Rightarrow> matcher list" where
  "rule_matchers env (DomainRule_Custom d) = (case parseDomain env d of Inl _ \<Rightarrow> [] | Inr m \<Rightarrow> [m])"
| "rule_matchers env (DomainRule_Geosite v) =
     (case loadSiteWithAttrs env (gs_File v) (gs_Code v) (gs_Attrs v) of Some (Inr ds) \<Rightarrow> parsed_domains env ds | _ \<Rightarrow> [])"
| "rule_matchers env DomainRule_Unset = []"

fun rule_loads :: "geo_env \<Rightarrow> DomainRule \<Rightarrow> bool" where
  "rule_loads env (DomainRule_Custom d) \<longleftrightarrow> (\<exists>m. parseDomain env d = Inr m)"
| "rule_loads env (DomainRule_Geosite v) \<longleftrightarrow> (\<exists>ds. loadSiteWithAttrs env (gs_File v) (gs_Code v) (gs_Attrs v) = Some (Inr ds))"
| "rule_loads env DomainRule_Unset \<longleftrightarrow> False"

fun rule_pairs :: "geo_env \<Rightarrow> nat \<Rightarrow> DomainRule list \<Rightarrow> (matcher \<times> u32) list" where
  "rule_pairs env i [] = []"
| "rule_pairs env i (r # rs) = map (\<lambda>m. (m, of_nat i)) (rule_matchers env r) @ rule_pairs env (Suc i) rs"

definition rule_hits :: "geo_env \<Rightarrow> DomainRule list \<Rightarrow> gostring \<Rightarrow> u32 set" where
  "rule_hits env rules input =
     {of_nat i | i. i < length rules \<and> (\<exists>m \<in> set (rule_matchers env (rules ! i)). Matcher_Match m input)}"

lemma set_rule_pairs:
  "(m, v) \<in> set (rule_pairs env k rs) \<longleftrightarrow> (\<exists>i < length rs. v = of_nat (k + i) \<and> m \<in> set (rule_matchers env (rs ! i)))"
proof (induction rs arbitrary: k)
  case (Cons r rs)
  show ?case by (auto simp: Cons less_Suc_eq_0_disj)
qed simp

lemma rule_pairs_hits: "{v. \<exists>m. (m, v) \<in> set (rule_pairs env 0 rules) \<and> Matcher_Match m input} = rule_hits env rules input"
  by (auto simp: set_rule_pairs rule_hits_def)

lemma rule_pairs_any: "(\<exists>(m, v) \<in> set (rule_pairs env 0 rules). Matcher_Match m input) \<longleftrightarrow> rule_hits env rules input \<noteq> {}"
  unfolding rule_pairs_hits [symmetric] by blast

lemma value_added_append:
  "value_added uni (xs @ ys) g = Option.bind (value_added uni xs g) (value_added uni ys)"
proof (induction xs arbitrary: g)
  case (Cons x xs)
  then show ?case by (cases x) (auto split: bind_splits)
qed simp

lemma parsed_domains_simps [simp]:
  "parsed_domains env [] = []"
  "parsed_domains env (d # ds) = (case parseDomain env (Some d) of Inl _ \<Rightarrow> parsed_domains env ds | Inr m \<Rightarrow> m # parsed_domains env ds)"
  by (auto simp: parsed_domains_def List.map_filter_def split: sum.splits)

lemma add_domains_eq:
  "add_domains env i ds g = value_added (ge_lower env) (map (\<lambda>m. (m, i)) (parsed_domains env ds)) g"
proof (induction ds arbitrary: g)
  case (Cons d ds)
  have "add_domains env i ds = value_added (ge_lower env) (map (\<lambda>m. (m, i)) (parsed_domains env ds))"
    by (rule ext) (rule Cons)
  then show ?case by (auto split: sum.splits)
qed simp

lemma mph_rules_loop_eq:
  "list_all (rule_loads env) rs \<Longrightarrow> mph_rules_loop env i rs g = map_option Inr (value_added (ge_lower env) (rule_pairs env i rs) g)"
proof (induction rs arbitrary: i g)
  case (Cons r rs)
  show ?case
  proof (cases r)
    case (DomainRule_Custom d)
    then obtain m where m: "parseDomain env d = Inr m" using Cons.prems by auto
    then show ?thesis using Cons DomainRule_Custom by (cases "MphValueMatcher_Add (ge_lower env) m (of_nat i) g") auto
  next
    case (DomainRule_Geosite v)
    then obtain ds where ds: "loadSiteWithAttrs env (gs_File v) (gs_Code v) (gs_Attrs v) = Some (Inr ds)" using Cons.prems by auto
    then show ?thesis using Cons DomainRule_Geosite
      by (cases "value_added (ge_lower env) (map (\<lambda>m. (m, of_nat i)) (parsed_domains env ds)) g")
        (auto simp: add_domains_eq value_added_append)
  qed (use Cons.prems in auto)
qed simp

section \<open>Keys\<close>

definition type_names :: "gostring set" where
  "type_names = {str ''Substr'', str ''Regex'', str ''Domain'', str ''Full''}"

fun known_type :: "Domain_Type \<Rightarrow> bool" where
  "known_type (Domain_Unknown _) = False"
| "known_type _ = True"

definition site_name_ok :: "GeoSiteRule \<Rightarrow> bool" where
  "site_name_ok v \<longleftrightarrow> colon \<notin> set (gs_File v) \<and> comma \<notin> set (gs_File v) \<and> gs_File v \<notin> type_names \<and>
     at_sign \<notin> set (gs_Code v) \<and> comma \<notin> set (gs_Code v) \<and> comma \<notin> set (gs_Attrs v)"

fun key_ok :: "DomainRule \<Rightarrow> bool" where
  "key_ok (DomainRule_Custom (Some d)) \<longleftrightarrow> comma \<notin> set (gd_Value d) \<and> known_type (gd_Type d)"
| "key_ok (DomainRule_Geosite v) \<longleftrightarrow> site_name_ok v"
| "key_ok _ \<longleftrightarrow> False"

definition site_key :: "GeoSiteRule \<Rightarrow> gostring" where
  "site_key v = gs_File v @ colon # gs_Code v @ at_sign # gs_Attrs v"

fun key_body :: "DomainRule \<Rightarrow> gostring" where
  "key_body (DomainRule_Custom (Some d)) = Domain_Type_String (gd_Type d) @ colon # gd_Value d"
| "key_body (DomainRule_Geosite v) = site_key v"
| "key_body _ = []"

fun is_geosite :: "DomainRule \<Rightarrow> bool" where
  "is_geosite (DomainRule_Geosite _) = True"
| "is_geosite _ = False"

lemma str_at: "str ''@'' = [at_sign]" by (simp add: str_def ascii_def at_sign_def)

lemma key_part_body: "key_ok r \<Longrightarrow> key_part r = Some (key_body r @ [comma], is_geosite r)"
  by (induction r rule: key_ok.induct) (auto simp: str_colon str_comma str_at site_key_def)

lemma type_names_plain: "t \<in> type_names \<Longrightarrow> comma \<notin> set t \<and> colon \<notin> set t"
  by (auto simp: type_names_def str_def ascii_def comma_def colon_def)

lemma at_colon_comma: "at_sign \<noteq> comma" "colon \<noteq> comma" "at_sign \<noteq> colon"
  by (simp_all add: at_sign_def comma_def colon_def)

lemma known_type_name: "known_type t \<Longrightarrow> Domain_Type_String t \<in> type_names"
  by (cases t) (simp_all add: type_names_def)

lemma known_type_inj: "known_type t \<Longrightarrow> known_type t' \<Longrightarrow> Domain_Type_String t = Domain_Type_String t' \<Longrightarrow> t = t'"
  by (cases t; cases t') (simp_all add: str_def ascii_def)

lemma key_body_no_comma: "key_ok r \<Longrightarrow> comma \<notin> set (key_body r)"
  using at_colon_comma type_names_plain known_type_name
  by (induction r rule: key_ok.induct) (auto simp: site_name_ok_def site_key_def)

lemma site_key_unique:
  assumes "site_name_ok v" "site_name_ok w" "site_key v = site_key w"
  shows "gs_File v = gs_File w \<and> gs_Code v = gs_Code w \<and> gs_Attrs v = gs_Attrs w"
proof -
  have "gs_File v = gs_File w \<and> gs_Code v @ at_sign # gs_Attrs v = gs_Code w @ at_sign # gs_Attrs w"
    using assms by (intro sep_unique [of colon]) (auto simp: site_name_ok_def site_key_def)
  moreover from this have "gs_Code v = gs_Code w \<and> gs_Attrs v = gs_Attrs w"
    using assms by (intro sep_unique [of at_sign]) (auto simp: site_name_ok_def)
  ultimately show ?thesis by simp
qed

lemma custom_key_unique:
  assumes "known_type (gd_Type d)" "known_type (gd_Type e)"
    and "Domain_Type_String (gd_Type d) @ colon # gd_Value d = Domain_Type_String (gd_Type e) @ colon # gd_Value e"
  shows "gd_Type d = gd_Type e \<and> gd_Value d = gd_Value e"
  using sep_unique [OF _ _ assms(3)] known_type_inj assms(1,2) type_names_plain known_type_name by metis

lemma custom_site_keys:
  assumes "known_type (gd_Type d)" "site_name_ok v"
  shows "Domain_Type_String (gd_Type d) @ colon # gd_Value d \<noteq> site_key v"
proof
  assume "Domain_Type_String (gd_Type d) @ colon # gd_Value d = site_key v"
  moreover have "colon \<notin> set (Domain_Type_String (gd_Type d))" "colon \<notin> set (gs_File v)"
    using type_names_plain [OF known_type_name [OF assms(1)]] assms(2) by (simp_all add: site_name_ok_def)
  ultimately have "Domain_Type_String (gd_Type d) = gs_File v"
    unfolding site_key_def by (metis sep_unique)
  then show False using known_type_name [OF assms(1)] assms(2) by (simp add: site_name_ok_def)
qed

lemma key_body_matchers:
  assumes "key_ok r" "key_ok r'" "key_body r = key_body r'"
  shows "rule_matchers env r = rule_matchers env r'"
proof -
  have custom: "\<exists>d. r = DomainRule_Custom (Some d) \<and> known_type (gd_Type d)" if "key_ok r" "\<not> is_geosite r" for r
    using that by (induction r rule: key_ok.induct) auto
  have site: "\<exists>v. r = DomainRule_Geosite v \<and> site_name_ok v" if "key_ok r" "is_geosite r" for r
    using that by (induction r rule: key_ok.induct) auto
  show ?thesis
  proof (cases "is_geosite r"; cases "is_geosite r'")
    assume "is_geosite r" "is_geosite r'"
    then obtain v w where vw: "r = DomainRule_Geosite v" "r' = DomainRule_Geosite w" "site_name_ok v" "site_name_ok w"
      using site [OF assms(1)] site [OF assms(2)] by blast
    then show ?thesis using site_key_unique [of v w] assms(3) by simp
  next
    assume "\<not> is_geosite r" "\<not> is_geosite r'"
    then obtain d e where de: "r = DomainRule_Custom (Some d)" "r' = DomainRule_Custom (Some e)"
        "known_type (gd_Type d)" "known_type (gd_Type e)"
      using custom [OF assms(1)] custom [OF assms(2)] by blast
    then have eq: "gd_Type d = gd_Type e" "gd_Value d = gd_Value e" using custom_key_unique [of d e] assms(3) by simp_all
    then have "parseDomain env (Some d) = parseDomain env (Some e)" by (simp only: parseDomain_def option.case)
    then show ?thesis using de by simp
  next
    assume "is_geosite r" "\<not> is_geosite r'"
    then obtain v d where vd: "r = DomainRule_Geosite v" "r' = DomainRule_Custom (Some d)" "site_name_ok v" "known_type (gd_Type d)"
      using site [OF assms(1)] custom [OF assms(2)] by blast
    then show ?thesis using custom_site_keys [of d v] assms(3) by simp
  next
    assume "\<not> is_geosite r" "is_geosite r'"
    then obtain v d where vd: "r' = DomainRule_Geosite v" "r = DomainRule_Custom (Some d)" "site_name_ok v" "known_type (gd_Type d)"
      using site [OF assms(2)] custom [OF assms(1)] by blast
    then show ?thesis using custom_site_keys [of d v] assms(3) by simp
  qed
qed

lemma separated_unique:
  assumes "list_all (\<lambda>x. c \<notin> set x) xs" "list_all (\<lambda>x. c \<notin> set x) ys"
    and "concat (map (\<lambda>x. x @ [c]) xs) = concat (map (\<lambda>x. x @ [c]) ys)"
  shows "xs = ys"
  using assms
proof (induction xs arbitrary: ys)
  case Nil
  then show ?case by (cases ys) auto
next
  case (Cons x xs)
  then obtain y zs where ys: "ys = y # zs" by (cases ys) auto
  have "x = y \<and> concat (map (\<lambda>x. x @ [c]) xs) = concat (map (\<lambda>x. x @ [c]) zs)"
    using Cons.prems ys by (intro sep_unique [of c]) auto
  then show ?case using Cons ys by auto
qed

lemma domain_key_loop_eq:
  "list_all key_ok rs \<Longrightarrow> domain_key_loop rs sb cache =
     Some (if cache \<or> list_ex is_geosite rs then sb @ concat (map (\<lambda>x. x @ [comma]) (map key_body rs)) else [])"
  by (induction rs arbitrary: sb cache) (auto simp: key_part_body)

lemma domain_key_matchers:
  assumes "list_all key_ok rs" "list_all key_ok rs'" "key \<noteq> []"
    and "buildDomainRulesKey rs = Some key" "buildDomainRulesKey rs' = Some key"
  shows "rule_pairs env i rs = rule_pairs env i rs'"
proof -
  have "map key_body rs = map key_body rs'"
    using assms by (intro separated_unique [of comma])
      (auto simp: buildDomainRulesKey_def domain_key_loop_eq list_all_iff key_body_no_comma split: if_splits)
  then show ?thesis using assms(1,2)
  proof (induction rs arbitrary: rs' i)
    case (Cons r rs)
    then obtain r' xs where "rs' = r' # xs" "key_body r = key_body r'" "map key_body rs = map key_body xs" by (cases rs') auto
    then show ?case using Cons.IH [of xs] Cons.prems key_body_matchers [of r r' env] by simp
  qed auto
qed

section \<open>Perfect-hash matchers\<close>

definition mph_cache_ok :: "mem_hash \<Rightarrow> geo_env \<Rightarrow> mph_cache \<Rightarrow> bool" where
  "mph_cache_ok mem env shared \<longleftrightarrow> (\<forall>key g. shared key = Some g \<longrightarrow>
     (\<exists>rs. list_all key_ok rs \<and> buildDomainRulesKey rs = Some key \<and> mv_ready (ge_lower env) mem g (rule_pairs env 0 rs)))"

lemma mph_cache_ok_empty: "mph_cache_ok mem env Map.empty"
  by (simp add: mph_cache_ok_def)

text \<open>The seed search over the patterns succeeds; or the matcher is in the cache.\<close>

definition rules_seeded :: "mem_hash \<Rightarrow> geo_env \<Rightarrow> DomainRule list \<Rightarrow> bool" where
  "rules_seeded mem env rules \<longleftrightarrow>
     (\<forall>g. value_added (ge_lower env) (rule_pairs env 0 rules) NewMphValueMatcher = Some g \<longrightarrow> mv_seeded mem g)"

definition rules_cached :: "DomainRule list \<Rightarrow> mph_cache \<Rightarrow> bool" where
  "rules_cached rules shared \<longleftrightarrow> (\<exists>key. buildDomainRulesKey rules = Some key \<and> key \<noteq> [] \<and> shared key \<noteq> None)"

text \<open>Only a list with a GeoSite rule is cached, and has to have a clear key.\<close>

definition keys_ok :: "DomainRule list \<Rightarrow> bool" where
  "keys_ok rules \<longleftrightarrow> (list_ex is_geosite rules \<longrightarrow> list_all key_ok rules)"

lemma no_geosite_key:
  "list_all (rule_loads env) rs \<Longrightarrow> \<not> list_ex is_geosite rs \<Longrightarrow> domain_key_loop rs sb False = Some []"
proof (induction rs arbitrary: sb)
  case (Cons r rs)
  then obtain d where "r = DomainRule_Custom (Some d)"
    by (cases r) (auto simp: parseDomain_def split: option.splits)
  then show ?case using Cons by simp
qed simp

lemma rules_key:
  assumes "keys_ok rules" "list_all (rule_loads env) rules"
  shows "\<exists>key. buildDomainRulesKey rules = Some key \<and> (key \<noteq> [] \<longrightarrow> list_all key_ok rules)"
proof (cases "list_ex is_geosite rules")
  case True
  then show ?thesis using assms(1) domain_key_loop_eq [of rules "[]" False] by (simp add: keys_ok_def buildDomainRulesKey_def)
next
  case False
  then show ?thesis using no_geosite_key [OF assms(2)] by (simp add: buildDomainRulesKey_def)
qed

lemma MphFactory_ready:
  assumes "rules \<noteq> []" "keys_ok rules" "list_all (rule_loads env) rules" "mph_cache_ok mem env shared"
  shows "MphFactory_BuildMatcher mem env rules shared \<noteq> None \<longleftrightarrow> rules_cached rules shared \<or> rules_seeded mem env rules"
    and "MphFactory_BuildMatcher mem env rules shared = Some (res, shared') \<Longrightarrow>
      \<exists>g. res = Inr g \<and> mph_cache_ok mem env shared' \<and> mv_ready (ge_lower env) mem g (rule_pairs env 0 rules)"
proof -
  let ?F = "MphFactory_BuildMatcher mem env rules shared"
  obtain key where key: "buildDomainRulesKey rules = Some key" "key \<noteq> [] \<longrightarrow> list_all key_ok rules"
    using rules_key [OF assms(2,3)] by blast
  obtain g where g: "value_added (ge_lower env) (rule_pairs env 0 rules) NewMphValueMatcher = Some g"
      "mv_rep (ge_lower env) g (rule_pairs env 0 rules)"
    using value_added_rep [OF mv_rep_New, of "ge_lower env" "rule_pairs env 0 rules"] by auto
  have seeded: "rules_seeded mem env rules \<longleftrightarrow> (\<exists>g'. MphValueMatcher_Build mem g = Some g')"
    using MphValueMatcher_Build_seeded [OF g(2)] MphValueMatcher_Build_ready [OF g(2), of mem] g(1)
    unfolding rules_seeded_def by (metis option.inject)
  have ready: "mv_ready (ge_lower env) mem g' (rule_pairs env 0 rules)" if "MphValueMatcher_Build mem g = Some g'" for g'
    using MphValueMatcher_Build_ready [OF g(2) MphValueMatcher_Build_seeded [OF g(2) that]] that by simp
  have hit: "?F = Some (Inr c, shared) \<and> mv_ready (ge_lower env) mem c (rule_pairs env 0 rules)"
    if c: "key \<noteq> []" "shared key = Some c" for c
  proof -
    obtain rs where rs: "list_all key_ok rs" "buildDomainRulesKey rs = Some key" "mv_ready (ge_lower env) mem c (rule_pairs env 0 rs)"
      using assms(4) c(2) unfolding mph_cache_ok_def by blast
    have "rule_pairs env 0 rs = rule_pairs env 0 rules" using rs(1,2) key c(1) by (metis domain_key_matchers)
    then show ?thesis using assms(1) key(1) c rs(3) by (simp add: MphFactory_BuildMatcher_def)
  qed
  have miss: "?F = map_option (\<lambda>g'. (Inr g', if key \<noteq> [] then shared(key \<mapsto> g') else shared)) (MphValueMatcher_Build mem g)"
    if "key = [] \<or> shared key = None"
    using assms(1) key(1) that g(1)
    by (cases "MphValueMatcher_Build mem g") (auto simp: MphFactory_BuildMatcher_def mph_rules_loop_eq [OF assms(3)])
  have kept: "mph_cache_ok mem env (shared(key \<mapsto> g'))" if "key \<noteq> []" "MphValueMatcher_Build mem g = Some g'" for g'
    using that assms(4) key ready unfolding mph_cache_ok_def by auto
  have cached: "rules_cached rules shared \<longleftrightarrow> key \<noteq> [] \<and> shared key \<noteq> None" using key(1) by (simp add: rules_cached_def)
  show "?F \<noteq> None \<longleftrightarrow> rules_cached rules shared \<or> rules_seeded mem env rules"
    using hit miss unfolding cached seeded by fastforce
  assume run: "?F = Some (res, shared')"
  show "\<exists>g. res = Inr g \<and> mph_cache_ok mem env shared' \<and> mv_ready (ge_lower env) mem g (rule_pairs env 0 rules)"
  proof (cases "key = [] \<or> shared key = None")
    case True
    then show ?thesis using miss run ready kept assms(4) by (cases "MphValueMatcher_Build mem g") auto
  next
    case False
    then show ?thesis using hit run assms(4) by auto
  qed
qed

definition patterns_ok :: "geo_env \<Rightarrow> DomainRule list \<Rightarrow> bool" where
  "patterns_ok env rules \<longleftrightarrow> (\<forall>r \<in> set rules. \<forall>m \<in> set (rule_matchers env r). value_ok m \<and> pattern_ok m)"

lemma patterns_ok_pairs: "patterns_ok env rules \<Longrightarrow> (m, v) \<in> set (rule_pairs env 0 rules) \<Longrightarrow> value_ok m \<and> pattern_ok m"
  by (auto simp: set_rule_pairs patterns_ok_def)

lemma mph_hits:
  assumes "mv_ready (ge_lower env) mem g (rule_pairs env 0 rules)" "patterns_ok env rules" "ldh_lower input"
  shows "\<exists>r. MphValueMatcher_Match mem g input = Some r \<and> set r = rule_hits env rules input"
    and "MphValueMatcher_MatchAny mem g input \<longleftrightarrow> rule_hits env rules input \<noteq> {}"
proof -
  have ok: "\<forall>(m, v) \<in> set (rule_pairs env 0 rules). value_ok m" using patterns_ok_pairs [OF assms(2)] by blast
  show "\<exists>r. MphValueMatcher_Match mem g input = Some r \<and> set r = rule_hits env rules input"
    using mv_ready_Match(1) [OF assms(1) ok assms(3)] by (simp only: rule_pairs_hits)
  show "MphValueMatcher_MatchAny mem g input \<longleftrightarrow> rule_hits env rules input \<noteq> {}"
    using mv_ready_Match(2) [OF assms(1) ok assms(3)] by (simp only: rule_pairs_any)
qed

section \<open>Compact matchers\<close>

definition any_cache_ok :: "geo_env \<Rightarrow> any_cache \<Rightarrow> bool" where
  "any_cache_ok env shared \<longleftrightarrow> (\<forall>key s. shared key = Some s \<longrightarrow>
     (\<exists>v. site_name_ok v \<and> site_key v = key \<and> any_rep s (rule_matchers env (DomainRule_Geosite v))))"

lemma any_cache_ok_empty: "any_cache_ok env Map.empty"
  by (simp add: any_cache_ok_def)

lemma add_any_rep: "any_rep s ms \<Longrightarrow> any_rep (add_any env ds s) (ms @ parsed_domains env ds)"
proof (induction ds arbitrary: s ms)
  case (Cons d ds)
  show ?case
  proof (cases "parseDomain env (Some d)")
    case (Inr m)
    then show ?thesis using Cons.IH [OF any_rep_Add [OF Cons.prems, of m]] by simp
  qed (use Cons in simp)
qed simp

lemma getOrCreateFrom_spec:
  assumes "site_name_ok v" "rule_loads env (DomainRule_Geosite v)" "any_cache_ok env shared"
  shows "\<exists>s shared'. getOrCreateFrom env v shared = Some (Inr s, shared') \<and> any_cache_ok env shared' \<and>
    any_rep s (rule_matchers env (DomainRule_Geosite v))"
proof -
  have key: "gs_File v @ str '':'' @ gs_Code v @ str ''@'' @ gs_Attrs v = site_key v"
    by (simp add: site_key_def str_colon str_at)
  show ?thesis
  proof (cases "shared (site_key v)")
    case (Some s)
    then obtain w where "site_name_ok w" "site_key w = site_key v" "any_rep s (rule_matchers env (DomainRule_Geosite w))"
      using assms(3) unfolding any_cache_ok_def by blast
    then show ?thesis using Some assms(1,3) site_key_unique [of w v] unfolding getOrCreateFrom_def key by simp
  next
    case None
    obtain ds where ds: "loadSiteWithAttrs env (gs_File v) (gs_Code v) (gs_Attrs v) = Some (Inr ds)" using assms(2) by auto
    let ?s = "add_any env ds NewLinearAnyMatcher"
    have rep: "any_rep ?s (rule_matchers env (DomainRule_Geosite v))"
      using add_any_rep [OF linear_any.set_rep_empty, of env ds] ds by simp
    then have "any_cache_ok env (shared(site_key v \<mapsto> ?s))"
      using assms(1,3) unfolding any_cache_ok_def by (auto simp del: rule_matchers.simps)
    then show ?thesis using None ds rep unfolding getOrCreateFrom_def key by (simp add: Let_def)
  qed
qed

fun custom_pairs :: "geo_env \<Rightarrow> nat \<Rightarrow> DomainRule list \<Rightarrow> (matcher \<times> u32) list" where
  "custom_pairs env i [] = []"
| "custom_pairs env i (r # rs) =
     (if is_geosite r then custom_pairs env (Suc i) rs
      else map (\<lambda>m. (m, of_nat i)) (rule_matchers env r) @ custom_pairs env (Suc i) rs)"

fun site_sets :: "geo_env \<Rightarrow> nat \<Rightarrow> DomainRule list \<Rightarrow> (matcher list \<times> u32) list" where
  "site_sets env i [] = []"
| "site_sets env i (r # rs) =
     (if is_geosite r then (rule_matchers env r, of_nat i) # site_sets env (Suc i) rs else site_sets env (Suc i) rs)"

lemma pairs_split:
  "(m, v) \<in> set (rule_pairs env i rs) \<longleftrightarrow> (m, v) \<in> set (custom_pairs env i rs) \<or> (\<exists>ms. (ms, v) \<in> set (site_sets env i rs) \<and> m \<in> set ms)"
  by (induction rs arbitrary: i) auto

definition compact_rep :: "CompactDomainMatcher \<Rightarrow> (matcher \<times> u32) list \<Rightarrow> (matcher list \<times> u32) list \<Rightarrow> bool" where
  "compact_rep c ps ss \<longleftrightarrow>
     (case cd_custom c of None \<Rightarrow> ps = [] | Some g \<Rightarrow> linear_rep g ps) \<and>
     list_all2 any_rep (cd_matchers c) (map fst ss) \<and> cd_values c = map snd ss"

lemma compact_rep_custom:
  assumes "compact_rep c ps ss"
  shows "compact_rep (c\<lparr>cd_custom := Some (LinearValueMatcher_Add m v (or_new NewLinearValueMatcher (cd_custom c)))\<rparr>) (ps @ [(m, v)]) ss"
proof -
  have "linear_rep (or_new NewLinearValueMatcher (cd_custom c)) ps"
    using assms linear_rep_New(1) by (auto simp: compact_rep_def or_new_def split: option.splits)
  then show ?thesis using assms linear_rep_Add by (simp add: compact_rep_def)
qed

lemma compact_rep_site:
  assumes "compact_rep c ps ss" "any_rep s ms"
  shows "compact_rep (c\<lparr>cd_matchers := cd_matchers c @ [s], cd_values := cd_values c @ [v]\<rparr>) ps (ss @ [(ms, v)])"
  using assms by (simp add: compact_rep_def list_all2_appendI)

lemma compact_rules_spec:
  assumes "compact_rep c ps ss" "list_all (rule_loads env) rs" "list_all (\<lambda>r. is_geosite r \<longrightarrow> key_ok r) rs" "any_cache_ok env shared"
  shows "\<exists>c' shared'. compact_rules_loop env i rs c shared = Some (Inr c', shared') \<and> any_cache_ok env shared' \<and>
    compact_rep c' (ps @ custom_pairs env i rs) (ss @ site_sets env i rs)"
  using assms
proof (induction rs arbitrary: i c ps ss shared)
  case (Cons r rs)
  show ?case
  proof (cases r)
    case (DomainRule_Custom d)
    then obtain m where m: "parseDomain env d = Inr m" using Cons.prems(2) by auto
    show ?thesis
      using Cons.IH [OF compact_rep_custom [OF Cons.prems(1), of m "of_nat i"] _ _ Cons.prems(4), of "Suc i"]
        Cons.prems(2,3) DomainRule_Custom m by simp
  next
    case (DomainRule_Geosite v)
    obtain s sh where s: "getOrCreateFrom env v shared = Some (Inr s, sh)" "any_cache_ok env sh" "any_rep s (rule_matchers env r)"
      using getOrCreateFrom_spec [OF _ _ Cons.prems(4), of v] Cons.prems(2,3) DomainRule_Geosite by auto
    show ?thesis
      using Cons.IH [OF compact_rep_site [OF Cons.prems(1) s(3), of "of_nat i"] _ _ s(2), of "Suc i"]
        Cons.prems(2,3) DomainRule_Geosite s(1) by simp
  qed (use Cons.prems in auto)
qed simp

lemma compact_match_loop_eq:
  assumes "length ms + i \<le> length vs"
  shows "compact_match_loop input ms i vs result =
    Some (result @ [vs ! (i + j). j \<leftarrow> [0 ..< length ms], LinearAnyMatcher_MatchAny (ms ! j) input])"
  using assms
proof (induction ms arbitrary: i result)
  case (Cons m ms)
  have "[vs ! (i + j). j \<leftarrow> [0 ..< length (m # ms)], LinearAnyMatcher_MatchAny ((m # ms) ! j) input] =
      (if LinearAnyMatcher_MatchAny m input then [vs ! i] else []) @
      [vs ! (Suc i + j). j \<leftarrow> [0 ..< length ms], LinearAnyMatcher_MatchAny (ms ! j) input]"
    by (simp add: upt_conv_Cons map_Suc_upt [symmetric] comp_def del: upt_Suc)
      (rule arg_cong [where f = concat], rule map_cong, simp_all)
  then show ?case using Cons by simp
qed simp

lemma site_sets_any:
  assumes "list_all2 any_rep ms (map fst ss)" "\<forall>(ps, v) \<in> set ss. domain_patterns_ok ps"
  shows "set [map snd ss ! (0 + j). j \<leftarrow> [0 ..< length ms], LinearAnyMatcher_MatchAny (ms ! j) input] =
      {v. \<exists>ps. (ps, v) \<in> set ss \<and> (\<exists>m \<in> set ps. Matcher_Match m input)}"
    and "list_ex (\<lambda>m. LinearAnyMatcher_MatchAny m input) ms \<longleftrightarrow> (\<exists>(ps, v) \<in> set ss. \<exists>m \<in> set ps. Matcher_Match m input)"
proof -
  have len: "length ms = length ss" using assms(1) by (auto dest: list_all2_lengthD)
  have each: "LinearAnyMatcher_MatchAny (ms ! j) input \<longleftrightarrow> (\<exists>m \<in> set (fst (ss ! j)). Matcher_Match m input)" if "j < length ss" for j
  proof -
    have "any_rep (ms ! j) (fst (ss ! j))" using assms(1) that len by (simp add: list_all2_conv_all_nth)
    moreover have "domain_patterns_ok (fst (ss ! j))" using assms(2) that by (metis case_prodE fst_conv nth_mem)
    ultimately show ?thesis by (rule any_rep_MatchAny)
  qed
  show "set [map snd ss ! (0 + j). j \<leftarrow> [0 ..< length ms], LinearAnyMatcher_MatchAny (ms ! j) input] =
      {v. \<exists>ps. (ps, v) \<in> set ss \<and> (\<exists>m \<in> set ps. Matcher_Match m input)}"
  proof (rule set_eqI)
    fix v
    have "v \<in> set [map snd ss ! (0 + j). j \<leftarrow> [0 ..< length ms], LinearAnyMatcher_MatchAny (ms ! j) input] \<longleftrightarrow>
        (\<exists>j < length ss. v = snd (ss ! j) \<and> (\<exists>m \<in> set (fst (ss ! j)). Matcher_Match m input))"
      using each len by auto
    also have "\<dots> \<longleftrightarrow> (\<exists>x \<in> set ss. v = snd x \<and> (\<exists>m \<in> set (fst x). Matcher_Match m input))"
      by (metis in_set_conv_nth)
    finally show "v \<in> set [map snd ss ! (0 + j). j \<leftarrow> [0 ..< length ms], LinearAnyMatcher_MatchAny (ms ! j) input] \<longleftrightarrow>
        v \<in> {v. \<exists>ps. (ps, v) \<in> set ss \<and> (\<exists>m \<in> set ps. Matcher_Match m input)}" by force
  qed
  have "list_ex (\<lambda>m. LinearAnyMatcher_MatchAny m input) ms \<longleftrightarrow> (\<exists>j < length ss. LinearAnyMatcher_MatchAny (ms ! j) input)"
    using len by (metis list_ex_iff in_set_conv_nth)
  also have "\<dots> \<longleftrightarrow> (\<exists>j < length ss. \<exists>m \<in> set (fst (ss ! j)). Matcher_Match m input)" using each by blast
  also have "\<dots> \<longleftrightarrow> (\<exists>x \<in> set ss. \<exists>m \<in> set (fst x). Matcher_Match m input)" by (metis in_set_conv_nth)
  finally show "list_ex (\<lambda>m. LinearAnyMatcher_MatchAny m input) ms \<longleftrightarrow> (\<exists>(ps, v) \<in> set ss. \<exists>m \<in> set ps. Matcher_Match m input)"
    by (simp add: case_prod_unfold)
qed

lemma compact_hits:
  assumes "compact_rep c (custom_pairs env 0 rules) (site_sets env 0 rules)" "linear_fits (custom_pairs env 0 rules)"
    and "\<forall>(ps, v) \<in> set (site_sets env 0 rules). domain_patterns_ok ps"
  shows "\<exists>r. CompactDomainMatcher_Match c input = Some r \<and> set r = rule_hits env rules input"
    and "CompactDomainMatcher_MatchAny c input \<longleftrightarrow> rule_hits env rules input \<noteq> {}"
proof -
  let ?ps = "custom_pairs env 0 rules" let ?ss = "site_sets env 0 rules"
  have rep: "case cd_custom c of None \<Rightarrow> ?ps = [] | Some g \<Rightarrow> linear_rep g ?ps"
      "list_all2 any_rep (cd_matchers c) (map fst ?ss)" "cd_values c = map snd ?ss"
    using assms(1) by (simp_all add: compact_rep_def)
  have hits: "rule_hits env rules input = {v. \<exists>m. (m, v) \<in> set ?ps \<and> Matcher_Match m input} \<union>
      {v. \<exists>ps. (ps, v) \<in> set ?ss \<and> (\<exists>m \<in> set ps. Matcher_Match m input)}"
    unfolding rule_pairs_hits [symmetric] pairs_split by blast
  obtain r0 where r0: "(case cd_custom c of None \<Rightarrow> Some [] | Some g \<Rightarrow> LinearValueMatcher_Match g input) = Some r0"
      "set r0 = {v. \<exists>m. (m, v) \<in> set ?ps \<and> Matcher_Match m input}"
  proof (cases "cd_custom c")
    case None
    then show ?thesis using rep(1) that [of "[]"] by simp
  next
    case (Some g)
    then obtain r where "LinearValueMatcher_Match g input = Some r" "set r = {v. \<exists>m. (m, v) \<in> set ?ps \<and> Matcher_Match m input}"
      using rep(1) linear_Match_set [OF _ assms(2), of g input] by auto
    then show ?thesis using Some that [of r] by simp
  qed
  have len: "length (cd_matchers c) + 0 \<le> length (cd_values c)"
    using rep(2,3) by (auto dest: list_all2_lengthD)
  have "CompactDomainMatcher_Match c input = compact_match_loop input (cd_matchers c) 0 (cd_values c) r0"
    unfolding CompactDomainMatcher_Match_def r0(1) by simp
  then show "\<exists>r. CompactDomainMatcher_Match c input = Some r \<and> set r = rule_hits env rules input"
    unfolding compact_match_loop_eq [OF len] hits using r0(2) site_sets_any(1) [OF rep(2) assms(3), of input]
    unfolding rep(3) by simp
  have "(case cd_custom c of None \<Rightarrow> False | Some g \<Rightarrow> LinearValueMatcher_MatchAny g input) \<longleftrightarrow>
      (\<exists>(m, v) \<in> set ?ps. Matcher_Match m input)"
    using rep(1) linear_MatchAny [OF _ assms(2), of _ input] by (cases "cd_custom c") auto
  then show "CompactDomainMatcher_MatchAny c input \<longleftrightarrow> rule_hits env rules input \<noteq> {}"
    unfolding CompactDomainMatcher_MatchAny_def site_sets_any(2) [OF rep(2) assms(3)] hits by (simp split: if_splits) blast
qed

lemma set_custom_pairs:
  "(m, v) \<in> set (custom_pairs env i rs) \<Longrightarrow> \<exists>r \<in> set rs. m \<in> set (rule_matchers env r)"
  by (induction rs arbitrary: i) (auto split: if_splits)

lemma set_site_sets: "(ms, v) \<in> set (site_sets env i rs) \<Longrightarrow> \<exists>r \<in> set rs. ms = rule_matchers env r"
  by (induction rs arbitrary: i) (auto split: if_splits)

lemma patterns_linear:
  assumes "patterns_ok env rules" "length (filter is_substr (map fst (custom_pairs env 0 rules))) \<le> 65536"
  shows "linear_fits (custom_pairs env 0 rules)"
    and "\<forall>(ps, v) \<in> set (site_sets env 0 rules). domain_patterns_ok ps"
proof -
  have c: "pattern_ok m" if "(m, v) \<in> set (custom_pairs env 0 rules)" for m v
    using set_custom_pairs [OF that] assms(1) by (auto simp: patterns_ok_def)
  have "domain_pattern p" if "(DomainMatcher p, v) \<in> set (custom_pairs env 0 rules)" for p v using c [OF that] by simp
  moreover have "(SubstrMatcher [], v) \<notin> set (custom_pairs env 0 rules)" for v using c by fastforce
  ultimately show "linear_fits (custom_pairs env 0 rules)"
    using assms(2) by (auto simp: linear_fits_def domain_fits_def substr_fits_def list_all_iff length_substr_part part_iff)
  have "domain_patterns_ok ps" if "(ps, v) \<in> set (site_sets env 0 rules)" for ps v
    using set_site_sets [OF that] assms(1) by (fastforce simp: patterns_ok_def domain_patterns_ok_def list_all_iff)
  then show "\<forall>(ps, v) \<in> set (site_sets env 0 rules). domain_patterns_ok ps" by blast
qed

lemma keys_ok_sites: "keys_ok rules \<Longrightarrow> list_all (\<lambda>r. is_geosite r \<longrightarrow> key_ok r) rules"
  by (auto simp: keys_ok_def list_all_iff list_ex_iff)

lemma CompactFactory_rep:
  assumes "rules \<noteq> []" "keys_ok rules" "list_all (rule_loads env) rules" "any_cache_ok env shared"
  shows "\<exists>c shared'. CompactFactory_BuildMatcher env rules shared = Some (Inr c, shared') \<and> any_cache_ok env shared' \<and>
    compact_rep c (custom_pairs env 0 rules) (site_sets env 0 rules)"
proof -
  have "compact_rep \<lparr>cd_custom = None, cd_matchers = [], cd_values = []\<rparr> [] []" by (simp add: compact_rep_def)
  from compact_rules_spec [OF this assms(3) keys_ok_sites [OF assms(2)] assms(4), of 0]
  show ?thesis using assms(1) by (simp add: CompactFactory_BuildMatcher_def)
qed

section \<open>What the factories promise\<close>

text \<open>
  C11. What a list of domain rules means, on the platforms with perfect-hash matchers. The rules load,
  have the lower-case patterns of host names and, if a GeoSite rule is among them, no separator of the
  cache keys in their texts, and the cache holds only matchers of such lists. The factory returns exactly
  if the matcher is cached or the seed search over the patterns succeeds. What it returns is a matcher,
  the cache stays as described, \<^verbatim>\<open>Match\<close> returns exactly the indices of the rules with a pattern that
  matches the input, and \<^verbatim>\<open>MatchAny\<close> says whether there is one.
\<close>

theorem domain_rules_meaning:
  assumes "rules \<noteq> []" "keys_ok rules" "list_all (rule_loads env) rules" "mph_cache_ok mem env shared" "patterns_ok env rules"
  shows "(MphFactory_BuildMatcher mem env rules shared \<noteq> None \<longleftrightarrow> rules_cached rules shared \<or> rules_seeded mem env rules) \<and>
    (\<forall>res shared'. MphFactory_BuildMatcher mem env rules shared = Some (res, shared') \<longrightarrow>
      mph_cache_ok mem env shared' \<and>
      (\<exists>g. res = Inr g \<and> (\<forall>input. ldh_lower input \<longrightarrow>
        (\<exists>r. MphValueMatcher_Match mem g input = Some r \<and> set r = rule_hits env rules input) \<and>
        (MphValueMatcher_MatchAny mem g input \<longleftrightarrow> rule_hits env rules input \<noteq> {}))))"
  using MphFactory_ready [OF assms(1-4)] mph_hits [OF _ assms(5)] by meson

text \<open>
  C12. The factory of the mobile platforms needs no hash and gives the same answers. For such rules, at
  most 65536 of them custom substrings, and a cache with only sets of unambiguous GeoSite rules, the compact matcher
  is built and returns exactly the indices of the rules that match; and whenever the perfect-hash factory
  returns for the same rules, its matcher returns the same indices on every input.
\<close>

theorem domain_factories_agree:
  assumes "rules \<noteq> []" "keys_ok rules" "list_all (rule_loads env) rules" "mph_cache_ok mem env shared"
    and "any_cache_ok env shared'" "patterns_ok env rules"
    and "length (filter is_substr (map fst (custom_pairs env 0 rules))) \<le> 65536"
  shows "\<exists>c s'. CompactFactory_BuildMatcher env rules shared' = Some (Inr c, s') \<and> any_cache_ok env s' \<and>
    (\<forall>input.
      (\<exists>r. CompactDomainMatcher_Match c input = Some r \<and> set r = rule_hits env rules input) \<and>
      (CompactDomainMatcher_MatchAny c input \<longleftrightarrow> rule_hits env rules input \<noteq> {})) \<and>
    (\<forall>res s. MphFactory_BuildMatcher mem env rules shared = Some (res, s) \<longrightarrow>
      (\<exists>g. res = Inr g \<and> (\<forall>input. ldh_lower input \<longrightarrow>
        (\<exists>r r'. MphValueMatcher_Match mem g input = Some r \<and> CompactDomainMatcher_Match c input = Some r' \<and> set r = set r') \<and>
        MphValueMatcher_MatchAny mem g input = CompactDomainMatcher_MatchAny c input)))"
proof -
  obtain c s' where c: "CompactFactory_BuildMatcher env rules shared' = Some (Inr c, s')" "any_cache_ok env s'"
      "compact_rep c (custom_pairs env 0 rules) (site_sets env 0 rules)"
    using CompactFactory_rep [OF assms(1-3,5)] by blast
  note n = compact_hits [OF c(3) patterns_linear [OF assms(6,7)]]
  have "\<exists>g. res = Inr g \<and> (\<forall>input. ldh_lower input \<longrightarrow>
      (\<exists>r r'. MphValueMatcher_Match mem g input = Some r \<and> CompactDomainMatcher_Match c input = Some r' \<and> set r = set r') \<and>
      MphValueMatcher_MatchAny mem g input = CompactDomainMatcher_MatchAny c input)"
    if run: "MphFactory_BuildMatcher mem env rules shared = Some (res, s)" for res s
  proof -
    obtain g where g: "res = Inr g" "mv_ready (ge_lower env) mem g (rule_pairs env 0 rules)"
      using MphFactory_ready(2) [OF assms(1-4) run] by blast
    have "(\<exists>r r'. MphValueMatcher_Match mem g input = Some r \<and> CompactDomainMatcher_Match c input = Some r' \<and> set r = set r') \<and>
        MphValueMatcher_MatchAny mem g input = CompactDomainMatcher_MatchAny c input" if "ldh_lower input" for input
      using mph_hits [OF g(2) assms(6) that] n [of input] by auto
    then show ?thesis using g(1) by blast
  qed
  then show ?thesis using c(1,2) n by blast
qed

section \<open>Examples\<close>

definition ex_domain :: "Domain_Type \<Rightarrow> string \<Rightarrow> DomainRule" where
  "ex_domain t s = DomainRule_Custom (Some \<lparr>gd_Type = t, gd_Value = str s, gd_Attribute = []\<rparr>)"

definition ex_domain_rules :: "DomainRule list" where
  "ex_domain_rules = [ex_domain Domain_Full ''ab'', ex_domain Domain_Substr ''b'']"

lemma ex_lower: "ToLower u (str ''ab'') = str ''ab''" "ToLower u (str ''b'') = str ''b''"
  by (rule ToLower_plain, simp add: mph_plain_def str_def ascii_def is_upper_def HasPrefix_def dot_def)+

lemma ex_matchers:
  "rule_matchers env (ex_domain Domain_Full ''ab'') = [FullMatcher (str ''ab'')]"
  "rule_matchers env (ex_domain Domain_Substr ''b'') = [SubstrMatcher (str ''b'')]"
  by (simp_all add: ex_domain_def parseDomain_def ex_lower Type_New_def Full_def Substr_def Str_Match.Domain_def Regex_def)

lemma ex_not_geosite: "\<not> is_geosite (ex_domain t s)"
  by (simp add: ex_domain_def)

lemma ex_domain_ok:
  "ex_domain_rules \<noteq> []" "keys_ok ex_domain_rules" "list_all (rule_loads env) ex_domain_rules"
  "patterns_ok env ex_domain_rules" "length (filter is_substr (map fst (custom_pairs env 0 ex_domain_rules))) \<le> 65536"
proof -
  show "keys_ok ex_domain_rules" "ex_domain_rules \<noteq> []" by (simp_all add: keys_ok_def ex_domain_rules_def ex_domain_def)
  show "list_all (rule_loads env) ex_domain_rules"
    by (simp add: ex_domain_rules_def ex_domain_def parseDomain_def Type_New_def Full_def Substr_def Str_Match.Domain_def Regex_def)
  show "patterns_ok env ex_domain_rules"
    by (simp add: patterns_ok_def ex_domain_rules_def ex_matchers mph_plain_def ldh_lower_def str_def ascii_def ldh_byte_def
        is_upper_def is_lower_def dot_def HasPrefix_def)
  show "length (filter is_substr (map fst (custom_pairs env 0 ex_domain_rules))) \<le> 65536"
    by (simp add: ex_domain_rules_def ex_matchers ex_not_geosite)
qed

lemma ex_seeded: "rules_seeded mem env ex_domain_rules"
  unfolding rules_seeded_def
proof (intro allI impI)
  fix g
  assume "value_added (ge_lower env) (rule_pairs env 0 ex_domain_rules) NewMphValueMatcher = Some g"
  then obtain h info where "mv_mph g = Some h" "mph_rules h = [[], str ''ab'']" "mph_ruleInfos h = Some [(str ''ab'', info)]"
    by (auto simp: ex_domain_rules_def ex_matchers Mph_AddFullMatcher_def mph_addPattern_def ex_lower or_new_def
        NewMphMatcherGroup_def NewMphValueMatcher_def Let_def)
  then show "mv_seeded mem g" using seeded_one by (simp add: mv_seeded_def)
qed

lemma ex_hits: "rule_hits env ex_domain_rules (str ''ab'') \<noteq> {}" "ldh_lower (str ''ab'')"
proof -
  have "of_nat 0 \<in> rule_hits env ex_domain_rules (str ''ab'')"
    unfolding rule_hits_def by (rule CollectI, rule exI [of _ 0])
      (simp add: ex_domain_rules_def ex_matchers FullMatcher_Match_def)
  then show "rule_hits env ex_domain_rules (str ''ab'') \<noteq> {}" by blast
  show "ldh_lower (str ''ab'')" by (simp add: ldh_lower_def str_def ascii_def ldh_byte_def is_upper_def is_lower_def)
qed

theorem domain_rules_meaning_witness:
  "\<exists>g shared'. MphFactory_BuildMatcher ex_mem ex_geo_env ex_domain_rules Map.empty = Some (Inr g, shared') \<and>
    MphValueMatcher_MatchAny ex_mem g (str ''ab'')"
  using domain_rules_meaning [OF ex_domain_ok(1-3) mph_cache_ok_empty ex_domain_ok(4), of ex_mem ex_geo_env] ex_seeded ex_hits
  by fastforce

theorem domain_factories_agree_witness:
  "\<exists>c s' g s. CompactFactory_BuildMatcher ex_geo_env ex_domain_rules Map.empty = Some (Inr c, s') \<and>
    CompactDomainMatcher_MatchAny c (str ''ab'') \<and>
    MphFactory_BuildMatcher ex_mem ex_geo_env ex_domain_rules Map.empty = Some (Inr g, s) \<and>
    MphValueMatcher_MatchAny ex_mem g (str ''ab'')"
proof -
  obtain res s where "MphFactory_BuildMatcher ex_mem ex_geo_env ex_domain_rules Map.empty = Some (res, s)"
    using MphFactory_ready(1) [OF ex_domain_ok(1-3) mph_cache_ok_empty] ex_seeded by fastforce
  then show ?thesis
    using domain_factories_agree [OF ex_domain_ok(1-3) mph_cache_ok_empty any_cache_ok_empty ex_domain_ok(4,5), of ex_geo_env ex_mem]
      ex_hits by fastforce
qed

section \<open>A key that two lists share\<close>

definition full_rule :: "gostring \<Rightarrow> DomainRule" where
  "full_rule s = DomainRule_Custom (Some \<lparr>gd_Type = Domain_Full, gd_Value = s, gd_Attribute = []\<rparr>)"

lemma collision_key:
  "buildDomainRulesKey [DomainRule_Geosite v, full_rule (a @ str '',Full:'' @ b)] =
     buildDomainRulesKey [DomainRule_Geosite v, full_rule a, full_rule b]"
  "\<exists>key. buildDomainRulesKey [DomainRule_Geosite v, full_rule a, full_rule b] = Some key \<and> key \<noteq> []"
  by (simp_all add: buildDomainRulesKey_def full_rule_def str_def)

lemma built_is_cached:
  assumes "MphFactory_BuildMatcher mem env rules shared = Some (Inr g, shared')" "buildDomainRulesKey rules = Some key" "key \<noteq> []"
  shows "shared' key = Some g"
  using assms by (auto simp: MphFactory_BuildMatcher_def split: if_splits option.splits sum.splits bind_splits)

text \<open>
  C34. A comma in a custom value confuses the cache. The list of a GeoSite rule and one full-domain rule
  for the string \<^verbatim>\<open>a,Full:b\<close> has the key of the list with two full-domain rules for \<^verbatim>\<open>a\<close> and \<^verbatim>\<open>b\<close>: once
  the first matcher is built and alive, the factory returns it for the second list, which
  has a rule more.
\<close>

theorem domain_key_collision:
  assumes "MphFactory_BuildMatcher mem env [DomainRule_Geosite v, full_rule (a @ str '',Full:'' @ b)] shared = Some (Inr g, shared')"
  shows "MphFactory_BuildMatcher mem env [DomainRule_Geosite v, full_rule a, full_rule b] shared' = Some (Inr g, shared')"
proof -
  obtain key where key: "buildDomainRulesKey [DomainRule_Geosite v, full_rule a, full_rule b] = Some key" "key \<noteq> []"
    using collision_key(2) by blast
  then show ?thesis
    using built_is_cached [OF assms, of key] collision_key(1) by (simp add: MphFactory_BuildMatcher_def)
qed

definition ex_site :: GeoSiteRule where
  "ex_site = \<lparr>gs_File = str ''geosite.dat'', gs_Code = str ''CN'', gs_Attrs = []\<rparr>"

lemma ex_site_loads: "loadSiteWithAttrs ex_geo_env (gs_File ex_site) (gs_Code ex_site) (gs_Attrs ex_site) = Some (Inr [])"
  using find_loop_entry [of 10 "[10, 2, 67, 78]" 1000 "str ''CN''" True "[]"]
  by (simp add: ex_site_def loadSiteWithAttrs_def loadSite_def loadFile_def ex_geo_env_def find_code_def entry_ok_def has_code_def
      NewAllAttrsMatcher_def str_def ascii_def)

lemma ex_full: "ToLower u (str ''a'' @ str '',Full:'' @ str ''b'') = str ''a,full:b''"
  by (simp add: ToLower_def ToLower_ascii_def lower_byte_def is_upper_def str_def ascii_def)

definition ex_collision :: "DomainRule list" where
  "ex_collision = [DomainRule_Geosite ex_site, full_rule (str ''a'' @ str '',Full:'' @ str ''b'')]"

lemma ex_collision_pairs:
  "rule_pairs ex_geo_env 0 ex_collision = [(FullMatcher (str ''a,full:b''), 1)]" "list_all (rule_loads ex_geo_env) ex_collision"
  by (simp_all add: ex_collision_def full_rule_def ex_site_loads parseDomain_def ex_full Type_New_def)

lemma ex_collision_seeded: "rules_seeded mem ex_geo_env ex_collision"
  unfolding rules_seeded_def ex_collision_pairs
proof (intro allI impI)
  fix g
  assume g: "value_added (ge_lower ex_geo_env) [(FullMatcher (str ''a,full:b''), 1)] NewMphValueMatcher = Some g"
  have low: "ToLower u (str ''a,full:b'') = str ''a,full:b''" for u
    by (rule ToLower_plain) (simp add: mph_plain_def str_def ascii_def is_upper_def HasPrefix_def dot_def)
  obtain h info where "mv_mph g = Some h" "mph_rules h = [[], str ''a,full:b'']" "mph_ruleInfos h = Some [(str ''a,full:b'', info)]"
    using g by (auto simp: Mph_AddFullMatcher_def mph_addPattern_def low or_new_def NewMphMatcherGroup_def NewMphValueMatcher_def Let_def)
  then show "mv_seeded mem g" using seeded_one by (simp add: mv_seeded_def)
qed

lemma ex_collision_built: "\<exists>g shared'. MphFactory_BuildMatcher (\<lambda>_ _. 0) ex_geo_env ex_collision Map.empty = Some (Inr g, shared')"
proof -
  obtain g where g: "value_added (ge_lower ex_geo_env) (rule_pairs ex_geo_env 0 ex_collision) NewMphValueMatcher = Some g"
      "mv_rep (ge_lower ex_geo_env) g (rule_pairs ex_geo_env 0 ex_collision)"
    using value_added_rep [OF mv_rep_New, of "ge_lower ex_geo_env" "rule_pairs ex_geo_env 0 ex_collision"] by auto
  obtain g' where "MphValueMatcher_Build (\<lambda>_ _. 0) g = Some g'"
    using MphValueMatcher_Build_ready [OF g(2)] ex_collision_seeded g(1) unfolding rules_seeded_def by blast
  moreover obtain key where "buildDomainRulesKey ex_collision = Some key"
    unfolding ex_collision_def collision_key(1) using collision_key(2) by blast
  moreover have "ex_collision \<noteq> []" by (simp add: ex_collision_def)
  ultimately show ?thesis
    using g(1) by (simp add: MphFactory_BuildMatcher_def mph_rules_loop_eq [OF ex_collision_pairs(2)])
qed

theorem domain_key_collision_witness:
  "\<exists>g shared'. MphFactory_BuildMatcher (\<lambda>_ _. 0) ex_geo_env ex_collision Map.empty = Some (Inr g, shared') \<and>
    MphFactory_BuildMatcher (\<lambda>_ _. 0) ex_geo_env [DomainRule_Geosite ex_site, full_rule (str ''a''), full_rule (str ''b'')] shared' =
      Some (Inr g, shared')"
  using ex_collision_built domain_key_collision unfolding ex_collision_def by blast

end
