(* ===== verification/Route_Condition.thy ===== *)
theory Route_Condition
  imports Domain_Rules
begin

text \<open>
  The conditions of routing rules (\<^verbatim>\<open>app/router/condition.go\<close>, \<^verbatim>\<open>config.go\<close>) on the context of a connection
  (\<^verbatim>\<open>features/routing/session\<close>), which may resolve its target domain (\<^verbatim>\<open>features/routing/dns\<close>).

  A rule holds its IP and domain matchers as positions in the registries, so that a reload of the
  geodata reaches the rules. The DNS client is a parameter: its answer may depend on how many lookups
  were made before. The lookup of the process of a connection, which asks the operating system, and
  the path functions of the platform are parameters too. \<open>None\<close> is a panic.
\<close>

section \<open>The context of a connection\<close>

record Session_Inbound =
  in_Source :: Destination
  in_Local :: Destination
  in_Tag :: gostring
  in_User :: "gostring option"
  in_VlessRoute :: Port

record Outbound =
  ob_Target :: Destination
  ob_RouteTarget :: Destination

text \<open>A map of attributes is listed in the order of an iteration; \<open>None\<close> is the nil map.\<close>

record Content =
  ct_Protocol :: gostring
  ct_Attributes :: "(gostring \<times> gostring) list option"
  ct_SkipDNSResolve :: bool

record Context =
  cx_Inbound :: "Session_Inbound option"
  cx_Outbound :: "Outbound option"
  cx_Content :: "Content option"

definition GetInboundTag :: "Context \<Rightarrow> gostring" where
  "GetInboundTag ctx = (case cx_Inbound ctx of None \<Rightarrow> [] | Some i \<Rightarrow> in_Tag i)"

text \<open>The address list of a valid destination; a nil address panics.\<close>

definition dest_IPs :: "Destination \<Rightarrow> netIP list go" where
  "dest_IPs d =
     (if \<not> Destination_IsValid d then Some []
      else do {
        a \<leftarrow> dest_Address d;
        if IsIP (Family a) then do { ip \<leftarrow> Address_IP a; Some [ip] } else Some [] })"

definition dest_port :: "Destination \<Rightarrow> Port" where
  "dest_port d = (if \<not> Destination_IsValid d then 0 else dest_Port d)"

definition GetSourceIPs :: "Context \<Rightarrow> netIP list go" where
  "GetSourceIPs ctx = (case cx_Inbound ctx of None \<Rightarrow> Some [] | Some i \<Rightarrow> dest_IPs (in_Source i))"

definition GetSourcePort :: "Context \<Rightarrow> Port" where
  "GetSourcePort ctx = (case cx_Inbound ctx of None \<Rightarrow> 0 | Some i \<Rightarrow> dest_port (in_Source i))"

definition Context_GetTargetIPs :: "Context \<Rightarrow> netIP list go" where
  "Context_GetTargetIPs ctx = (case cx_Outbound ctx of None \<Rightarrow> Some [] | Some ob \<Rightarrow> dest_IPs (ob_Target ob))"

definition GetTargetPort :: "Context \<Rightarrow> Port" where
  "GetTargetPort ctx = (case cx_Outbound ctx of None \<Rightarrow> 0 | Some ob \<Rightarrow> dest_port (ob_Target ob))"

definition GetLocalIPs :: "Context \<Rightarrow> netIP list go" where
  "GetLocalIPs ctx = (case cx_Inbound ctx of None \<Rightarrow> Some [] | Some i \<Rightarrow> dest_IPs (in_Local i))"

definition GetLocalPort :: "Context \<Rightarrow> Port" where
  "GetLocalPort ctx = (case cx_Inbound ctx of None \<Rightarrow> 0 | Some i \<Rightarrow> dest_port (in_Local i))"

definition GetTargetDomain :: "Context \<Rightarrow> gostring go" where
  "GetTargetDomain ctx =
     (case cx_Outbound ctx of
        None \<Rightarrow> Some []
      | Some ob \<Rightarrow>
          if \<not> Destination_IsValid (ob_Target ob) then Some []
          else do {
            route \<leftarrow> (if Destination_IsValid (ob_RouteTarget ob) then do {
                a \<leftarrow> dest_Address (ob_RouteTarget ob);
                Some (if Family a = AddressFamilyDomain then Some a else None) }
              else Some None);
            (case route of
               Some a \<Rightarrow> Address_Domain a
             | None \<Rightarrow> do {
                 a \<leftarrow> dest_Address (ob_Target ob);
                 if Family a \<noteq> AddressFamilyDomain then Some [] else Address_Domain a }) })"

definition GetNetwork :: "Context \<Rightarrow> Network" where
  "GetNetwork ctx = (case cx_Outbound ctx of None \<Rightarrow> Network_Unknown | Some ob \<Rightarrow> dest_Network (ob_Target ob))"

definition GetProtocol :: "Context \<Rightarrow> gostring" where
  "GetProtocol ctx = (case cx_Content ctx of None \<Rightarrow> [] | Some c \<Rightarrow> ct_Protocol c)"

definition GetUser :: "Context \<Rightarrow> gostring" where
  "GetUser ctx =
     (case cx_Inbound ctx of None \<Rightarrow> [] | Some i \<Rightarrow> (case in_User i of None \<Rightarrow> [] | Some email \<Rightarrow> email))"

definition GetVlessRoute :: "Context \<Rightarrow> Port" where
  "GetVlessRoute ctx = (case cx_Inbound ctx of None \<Rightarrow> 0 | Some i \<Rightarrow> in_VlessRoute i)"

definition GetAttributes :: "Context \<Rightarrow> (gostring \<times> gostring) list option" where
  "GetAttributes ctx = (case cx_Content ctx of None \<Rightarrow> None | Some c \<Rightarrow> ct_Attributes c)"

definition GetSkipDNSResolve :: "Context \<Rightarrow> bool" where
  "GetSkipDNSResolve ctx = (case cx_Content ctx of None \<Rightarrow> False | Some c \<Rightarrow> ct_SkipDNSResolve c)"

section \<open>Resolving the target\<close>

text \<open>
  A context with a DNS client: the addresses it has cached and whether resolving failed. \<open>rs_calls\<close>
  counts the lookups made so far. Without a resolver the context is the session's own.
\<close>

record resolver =
  rs_cacheIPs :: "netIP list"
  rs_hasError :: bool
  rs_calls :: nat

type_synonym dns_client = "nat \<Rightarrow> gostring \<Rightarrow> go_error + netIP list"

definition ContextWithDNSClient :: resolver where
  "ContextWithDNSClient = \<lparr>rs_cacheIPs = [], rs_hasError = False, rs_calls = 0\<rparr>"

definition keep_original :: "Context \<Rightarrow> resolver \<Rightarrow> (netIP list \<times> resolver) go" where
  "keep_original ctx r = do {
     ips \<leftarrow> Context_GetTargetIPs ctx;
     if length ips \<noteq> 0 then Some (ips, r\<lparr>rs_cacheIPs := ips\<rparr>) else Some ([], r\<lparr>rs_hasError := True\<rparr>) }"

definition Resolvable_GetTargetIPs :: "dns_client \<Rightarrow> Context \<Rightarrow> resolver \<Rightarrow> (netIP list \<times> resolver) go" where
  "Resolvable_GetTargetIPs dns ctx r =
     (if length (rs_cacheIPs r) > 0 then Some (rs_cacheIPs r, r)
      else if rs_hasError r then Some ([], r)
      else do {
        domain \<leftarrow> GetTargetDomain ctx;
        if length domain \<noteq> 0 then
          let ans = dns (rs_calls r) domain; r = r\<lparr>rs_calls := rs_calls r + 1\<rparr> in
          (case ans of
             Inr ips \<Rightarrow> Some (ips, r\<lparr>rs_cacheIPs := ips\<rparr>)
           | Inl e \<Rightarrow> keep_original ctx r)
        else keep_original ctx r })"

definition GetTargetIPs :: "dns_client \<Rightarrow> Context \<Rightarrow> resolver option \<Rightarrow> (netIP list \<times> resolver option) go" where
  "GetTargetIPs dns ctx ro =
     (case ro of
        None \<Rightarrow> map_option (\<lambda>ips. (ips, None)) (Context_GetTargetIPs ctx)
      | Some r \<Rightarrow> map_option (\<lambda>(ips, r). (ips, Some r)) (Resolvable_GetTargetIPs dns ctx r))"

section \<open>Conditions\<close>

datatype MatcherAsType = MatcherAsType_Local | MatcherAsType_Source | MatcherAsType_Target | MatcherAsType_VlessRoute

record ProcessNameMatcher =
  pm_ProcessNames :: "gostring list"
  pm_AbsPaths :: "gostring list"
  pm_Folders :: "gostring list"
  pm_MatchXraySelf :: bool

text \<open>IP and domain matchers are positions in the registries.\<close>

datatype Condition =
    DomainCondition nat
  | IPCondition nat MatcherAsType
  | PortCondition "MemoryPortRange list" MatcherAsType
  | NetworkCondition "bool list"
  | UserCondition "gostring list" "regexp list"
  | InboundTagCondition "gostring list"
  | ProtocolCondition "gostring list"
  | AttributeCondition "(gostring \<times> regexp) list"
  | ProcessCondition ProcessNameMatcher

text \<open>What the conditions use of the system: registries, DNS client, processes, case tables.\<close>

record 's route_env =
  re_geo :: geo_env
  re_netipx :: "'s netipx"
  re_load :: ip_loader
  re_mem :: mem_hash
  re_dns :: dns_client
  re_FindProcess :: "Network \<Rightarrow> netIP \<Rightarrow> Port \<Rightarrow> netIP option \<Rightarrow> Port \<Rightarrow> go_error + int \<times> gostring \<times> gostring"
  re_Executable :: "gostring option"
  re_Getpid :: int
  re_ToSlash :: "gostring \<Rightarrow> gostring"

record 's registries =
  rg_IP :: "'s IPRegistry"
  rg_Domain :: DomainRegistry

text \<open>The enum numbers of networks, with which the array of eight flags is indexed.\<close>

fun network_number :: "Network \<Rightarrow> nat" where
  "network_number Network_Unknown = 0"
| "network_number Network_TCP = 2"
| "network_number Network_UDP = 3"
| "network_number Network_UNIX = 4"

definition NewNetworkMatcher :: "Network list \<Rightarrow> bool list" where
  "NewNetworkMatcher network = foldl (\<lambda>l n. l[network_number n := True]) (replicate 8 False) network"

definition non_empty :: "gostring list \<Rightarrow> gostring list" where
  "non_empty ss = filter (\<lambda>s. length s > 0) ss"

text \<open>The loops of \<^verbatim>\<open>NewUserMatcher\<close>: an invalid expression is ignored.\<close>

fun user_loop :: "geo_env \<Rightarrow> gostring list \<Rightarrow> gostring list \<Rightarrow> regexp list \<Rightarrow> gostring list \<times> regexp list" where
  "user_loop env [] us ps = (us, ps)"
| "user_loop env (user # rest) us ps =
     (if length user > 0 then
        (if length user > 7 \<and> HasPrefix user (str ''regexp:'') then
           (case ge_compile env (drop 7 user) of
              Inr re \<Rightarrow> user_loop env rest us (ps @ [re])
            | Inl e \<Rightarrow> user_loop env rest us ps)
         else user_loop env rest (us @ [user]) ps)
      else user_loop env rest us ps)"

definition NewUserMatcher :: "geo_env \<Rightarrow> gostring list \<Rightarrow> Condition" where
  "NewUserMatcher env users = (let (us, ps) = user_loop env users [] [] in UserCondition us ps)"

definition NewInboundTagMatcher :: "gostring list \<Rightarrow> Condition" where
  "NewInboundTagMatcher tags = InboundTagCondition (non_empty tags)"

definition NewProtocolMatcher :: "gostring list \<Rightarrow> Condition" where
  "NewProtocolMatcher protocols = ProtocolCondition (non_empty protocols)"

definition NewPortMatcher :: "PortRange list \<Rightarrow> MatcherAsType \<Rightarrow> Condition" where
  "NewPortMatcher l asType = PortCondition (PortListFromProto l) asType"

definition slash :: byte where "slash = 0x2f"

definition TrimSuffix :: "gostring \<Rightarrow> gostring \<Rightarrow> gostring" where
  "TrimSuffix s suf = (if HasSuffix s suf then take (length s - length suf) s else s)"

fun process_loop :: "'s route_env \<Rightarrow> gostring list \<Rightarrow> ProcessNameMatcher \<Rightarrow> ProcessNameMatcher" where
  "process_loop env [] m = m"
| "process_loop env (name # rest) m =
     (if name = str ''self/'' then process_loop env rest (m\<lparr>pm_MatchXraySelf := True\<rparr>)
      else
        (case (if name = str ''xray/'' then re_Executable env else Some name) of
           None \<Rightarrow> process_loop env rest m
         | Some name \<Rightarrow>
             let name = re_ToSlash env name in
             if HasSuffix name [slash] then process_loop env rest (m\<lparr>pm_Folders := pm_Folders m @ [name]\<rparr>)
             else if Contains name [slash] then process_loop env rest (m\<lparr>pm_AbsPaths := pm_AbsPaths m @ [name]\<rparr>)
             else process_loop env rest (m\<lparr>pm_ProcessNames := pm_ProcessNames m @ [TrimSuffix name (str ''.exe'')]\<rparr>)))"

definition NewProcessNameMatcher :: "'s route_env \<Rightarrow> gostring list \<Rightarrow> Condition" where
  "NewProcessNameMatcher env names =
     ProcessCondition (process_loop env names \<lparr>pm_ProcessNames = [], pm_AbsPaths = [], pm_Folders = [], pm_MatchXraySelf = False\<rparr>)"

section \<open>Applying a condition\<close>

definition Domain_Apply :: "'s route_env \<Rightarrow> 's registries \<Rightarrow> nat \<Rightarrow> Context \<Rightarrow> bool go" where
  "Domain_Apply env rg i ctx = do {
     domain \<leftarrow> GetTargetDomain ctx;
     if length domain = 0 then Some False
     else Some (DynamicDomain_MatchAny (re_mem env) (dr_matchers (rg_Domain rg) ! i) (ToLower (ge_lower (re_geo env)) domain)) }"

definition IP_Apply ::
  "'s route_env \<Rightarrow> 's registries \<Rightarrow> nat \<Rightarrow> MatcherAsType \<Rightarrow> Context \<Rightarrow> resolver option \<Rightarrow> (bool \<times> resolver option) go" where
  "IP_Apply env rg i asType ctx ro = do {
     (ips, ro) \<leftarrow> (case asType of
         MatcherAsType_Local \<Rightarrow> map_option (\<lambda>ips. (ips, ro)) (GetLocalIPs ctx)
       | MatcherAsType_Source \<Rightarrow> map_option (\<lambda>ips. (ips, ro)) (GetSourceIPs ctx)
       | MatcherAsType_Target \<Rightarrow> GetTargetIPs (re_dns env) ctx ro
       | MatcherAsType_VlessRoute \<Rightarrow> None);
     Some (Dynamic_AnyMatch (re_netipx env) (reg_matchers (rg_IP rg) ! i) ips, ro) }"

fun Port_Apply :: "MemoryPortRange list \<Rightarrow> MatcherAsType \<Rightarrow> Context \<Rightarrow> bool" where
  "Port_Apply l MatcherAsType_Local ctx = MemoryPortList_Contains l (GetLocalPort ctx)"
| "Port_Apply l MatcherAsType_Source ctx = MemoryPortList_Contains l (GetSourcePort ctx)"
| "Port_Apply l MatcherAsType_Target ctx = MemoryPortList_Contains l (GetTargetPort ctx)"
| "Port_Apply l MatcherAsType_VlessRoute ctx = MemoryPortList_Contains l (GetVlessRoute ctx)"

definition User_Apply :: "gostring list \<Rightarrow> regexp list \<Rightarrow> Context \<Rightarrow> bool" where
  "User_Apply us ps ctx =
     (let user = GetUser ctx in
      if length user = 0 then False
      else if list_ex (\<lambda>u. u = user) us then True
      else list_ex (\<lambda>re. re_MatchString re user) ps)"

definition InboundTag_Apply :: "gostring list \<Rightarrow> Context \<Rightarrow> bool" where
  "InboundTag_Apply tags ctx =
     (let tag = GetInboundTag ctx in if length tag = 0 then False else list_ex (\<lambda>t. t = tag) tags)"

definition Protocol_Apply :: "gostring list \<Rightarrow> Context \<Rightarrow> bool" where
  "Protocol_Apply ps ctx =
     (let protocol = GetProtocol ctx in if length protocol = 0 then False else list_ex (\<lambda>p. HasPrefix protocol p) ps)"

definition Attribute_Match :: "geo_env \<Rightarrow> (gostring \<times> regexp) list \<Rightarrow> (gostring \<times> gostring) list \<Rightarrow> bool" where
  "Attribute_Match env keys attrs =
     (let httpHeaders = foldl (\<lambda>m (key, value). m(ToLower (ge_lower env) key \<mapsto> value)) Map.empty attrs in
      list_all (\<lambda>(key, regex). case httpHeaders key of None \<Rightarrow> False | Some a \<Rightarrow> re_MatchString regex a) keys)"

definition Attribute_Apply :: "geo_env \<Rightarrow> (gostring \<times> regexp) list \<Rightarrow> Context \<Rightarrow> bool" where
  "Attribute_Apply env keys ctx =
     (case GetAttributes ctx of None \<Rightarrow> False | Some attrs \<Rightarrow> Attribute_Match env keys attrs)"

text \<open>The target address that is given to the process lookup.\<close>

definition process_target :: "'s route_env \<Rightarrow> Context \<Rightarrow> resolver option \<Rightarrow> ((netIP option \<times> Port) \<times> resolver option) go" where
  "process_target env ctx ro = do {
     orig \<leftarrow> (if ro \<noteq> None then Context_GetTargetIPs ctx else Some []);
     if length orig > 0 then Some ((Some (orig ! 0), GetTargetPort ctx), ro)
     else do {
       (ips, ro) \<leftarrow> GetTargetIPs (re_dns env) ctx ro;
       if length ips > 0 then do {
         (ips, ro) \<leftarrow> GetTargetIPs (re_dns env) ctx ro;
         if length ips > 0 then Some ((Some (ips ! 0), GetTargetPort ctx), ro) else None }
       else Some ((None, 0), ro) } }"

definition Process_Apply :: "'s route_env \<Rightarrow> ProcessNameMatcher \<Rightarrow> Context \<Rightarrow> resolver option \<Rightarrow> (bool \<times> resolver option) go" where
  "Process_Apply env m ctx ro = do {
     srcIPs \<leftarrow> GetSourceIPs ctx;
     if length srcIPs = 0 then Some (False, ro)
     else if GetNetwork ctx \<notin> {Network_TCP, Network_UDP} then Some (False, ro)
     else do {
       ((dstIP, dstPort), ro) \<leftarrow> process_target env ctx ro;
       Some (case re_FindProcess env (GetNetwork ctx) (srcIPs ! 0) (GetSourcePort ctx) dstIP dstPort of
           Inl e \<Rightarrow> False
         | Inr (pid, name, absPath) \<Rightarrow>
             if pm_MatchXraySelf m \<and> pid = re_Getpid env then True
             else if name \<in> set (pm_ProcessNames m) then True
             else if absPath \<in> set (pm_AbsPaths m) then True
             else list_ex (\<lambda>f. HasPrefix absPath f) (pm_Folders m), ro) } }"

fun Condition_Apply ::
  "'s route_env \<Rightarrow> 's registries \<Rightarrow> Condition \<Rightarrow> Context \<Rightarrow> resolver option \<Rightarrow> (bool \<times> resolver option) go" where
  "Condition_Apply env rg (DomainCondition i) ctx ro = map_option (\<lambda>b. (b, ro)) (Domain_Apply env rg i ctx)"
| "Condition_Apply env rg (IPCondition i asType) ctx ro = IP_Apply env rg i asType ctx ro"
| "Condition_Apply env rg (PortCondition l asType) ctx ro = Some (Port_Apply l asType ctx, ro)"
| "Condition_Apply env rg (NetworkCondition l) ctx ro = Some (l ! network_number (GetNetwork ctx), ro)"
| "Condition_Apply env rg (UserCondition us ps) ctx ro = Some (User_Apply us ps ctx, ro)"
| "Condition_Apply env rg (InboundTagCondition tags) ctx ro = Some (InboundTag_Apply tags ctx, ro)"
| "Condition_Apply env rg (ProtocolCondition ps) ctx ro = Some (Protocol_Apply ps ctx, ro)"
| "Condition_Apply env rg (AttributeCondition keys) ctx ro = Some (Attribute_Apply (re_geo env) keys ctx, ro)"
| "Condition_Apply env rg (ProcessCondition m) ctx ro = Process_Apply env m ctx ro"

fun ConditionChan_Apply ::
  "'s route_env \<Rightarrow> 's registries \<Rightarrow> Condition list \<Rightarrow> Context \<Rightarrow> resolver option \<Rightarrow> (bool \<times> resolver option) go" where
  "ConditionChan_Apply env rg [] ctx ro = Some (True, ro)"
| "ConditionChan_Apply env rg (cond # cs) ctx ro = do {
     (ok, ro) \<leftarrow> Condition_Apply env rg cond ctx ro;
     if \<not> ok then Some (False, ro) else ConditionChan_Apply env rg cs ctx ro }"

section \<open>Building the conditions of a rule\<close>

record RoutingRule =
  rr_Tag :: gostring
  rr_BalancingTag :: gostring
  rr_RuleTag :: gostring
  rr_InboundTag :: "gostring list"
  rr_Networks :: "Network list"
  rr_Protocol :: "gostring list"
  rr_PortList :: "PortRange list option"
  rr_SourcePortList :: "PortRange list option"
  rr_LocalPortList :: "PortRange list option"
  rr_VlessRouteList :: "PortRange list option"
  rr_UserEmail :: "gostring list"
  rr_Attributes :: "(gostring \<times> gostring) list"
  rr_Ip :: "IPRule list"
  rr_SourceIp :: "IPRule list"
  rr_LocalIp :: "IPRule list"
  rr_Domain :: "DomainRule list"
  rr_Process :: "gostring list"
  rr_Webhook :: "gostring option"

definition NewIPMatcher ::
  "'s route_env \<Rightarrow> IPRule list \<Rightarrow> MatcherAsType \<Rightarrow> 's registries \<Rightarrow> ((go_error + Condition) \<times> 's registries) go" where
  "NewIPMatcher env rules asType rg = do {
     (m, r) \<leftarrow> BuildIPMatcher (re_netipx env) (re_load env) rules (rg_IP rg);
     Some (map_sum id (\<lambda>_. IPCondition (length (reg_matchers (rg_IP rg))) asType) m, rg\<lparr>rg_IP := r\<rparr>) }"

definition NewDomainMatcher ::
  "'s route_env \<Rightarrow> DomainRule list \<Rightarrow> 's registries \<Rightarrow> ((go_error + Condition) \<times> 's registries) go" where
  "NewDomainMatcher env rules rg = do {
     (m, r) \<leftarrow> BuildDomainMatcher (re_mem env) (re_geo env) rules (rg_Domain rg);
     Some (map_sum id (\<lambda>_. DomainCondition (length (dr_matchers (rg_Domain rg)))) m, rg\<lparr>rg_Domain := r\<rparr>) }"

text \<open>One of the steps that may fail: the built condition is appended or the error returned.\<close>

definition add_cond ::
  "bool \<Rightarrow> ('s registries \<Rightarrow> ((go_error + Condition) \<times> 's registries) go) \<Rightarrow>
   (go_error + Condition list) \<times> 's registries \<Rightarrow> ((go_error + Condition list) \<times> 's registries) go" where
  "add_cond wanted build = (\<lambda>(conds, rg).
     case conds of
       Inl e \<Rightarrow> Some (Inl e, rg)
     | Inr cs \<Rightarrow>
         if wanted then do { (c, rg) \<leftarrow> build rg; Some (map_sum id (\<lambda>c. cs @ [c]) c, rg) }
         else Some (Inr cs, rg))"

definition port_cond :: "PortRange list option \<Rightarrow> MatcherAsType \<Rightarrow> Condition list" where
  "port_cond l asType = (case l of None \<Rightarrow> [] | Some l \<Rightarrow> [NewPortMatcher l asType])"

text \<open>\<^verbatim>\<open>regexp.MustCompile\<close> panics on an expression that does not compile.\<close>

fun compile_keys :: "geo_env \<Rightarrow> (gostring \<times> gostring) list \<Rightarrow> (gostring \<times> regexp) list \<Rightarrow> (gostring \<times> regexp) list go" where
  "compile_keys env [] keys = Some keys"
| "compile_keys env ((key, value) # rest) keys =
     (case ge_compile env value of
        Inl e \<Rightarrow> None
      | Inr re \<Rightarrow> compile_keys env rest (AList.update (ToLower (ge_lower env) key) re keys))"

definition BuildCondition ::
  "'s route_env \<Rightarrow> RoutingRule \<Rightarrow> 's registries \<Rightarrow> ((go_error + Condition list) \<times> 's registries) go" where
  "BuildCondition env rr rg = do {
     let conds =
       (if rr_InboundTag rr \<noteq> [] then [NewInboundTagMatcher (rr_InboundTag rr)] else []) @
       (if rr_Networks rr \<noteq> [] then [NetworkCondition (NewNetworkMatcher (rr_Networks rr))] else []) @
       (if rr_Protocol rr \<noteq> [] then [NewProtocolMatcher (rr_Protocol rr)] else []) @
       port_cond (rr_PortList rr) MatcherAsType_Target @
       port_cond (rr_SourcePortList rr) MatcherAsType_Source @
       port_cond (rr_LocalPortList rr) MatcherAsType_Local @
       port_cond (rr_VlessRouteList rr) MatcherAsType_VlessRoute @
       (if rr_UserEmail rr \<noteq> [] then [NewUserMatcher (re_geo env) (rr_UserEmail rr)] else []);
     keys \<leftarrow> compile_keys (re_geo env) (rr_Attributes rr) [];
     let conds = conds @ (if rr_Attributes rr \<noteq> [] then [AttributeCondition keys] else []);
     b \<leftarrow> add_cond (rr_Ip rr \<noteq> []) (NewIPMatcher env (rr_Ip rr) MatcherAsType_Target) (Inr conds, rg);
     b \<leftarrow> add_cond (rr_SourceIp rr \<noteq> []) (NewIPMatcher env (rr_SourceIp rr) MatcherAsType_Source) b;
     b \<leftarrow> add_cond (rr_LocalIp rr \<noteq> []) (NewIPMatcher env (rr_LocalIp rr) MatcherAsType_Local) b;
     (b, rg) \<leftarrow> add_cond (rr_Domain rr \<noteq> []) (NewDomainMatcher env (rr_Domain rr)) b;
     Some (case b of
         Inl e \<Rightarrow> Inl e
       | Inr cs \<Rightarrow>
           let cs = cs @ (if rr_Process rr \<noteq> [] then [NewProcessNameMatcher env (rr_Process rr)] else []) in
           if length cs = 0 then Inl (ErrNew ''this rule has no effective fields'') else Inr cs, rg) }"

end
