(* ===== verification/Balancer.thy ===== *)
theory Balancer
  imports Prelude Mph "HOL-Library.List_Lexorder" "HOL-Library.Product_Lexorder"
begin

text \<open>
  Load balancers (\<^verbatim>\<open>app/router/balancing.go\<close>, \<^verbatim>\<open>strategy_*.go\<close>, \<^verbatim>\<open>balancing_override.go\<close>). The outbounds that
  the selectors choose, the report of the observatory and the random numbers of \<^verbatim>\<open>dice\<close> are parameters.
  Of the least-load strategy the two floating point computations, the weighted cost of a round
  trip time and the comparison of the failure rate with the tolerance, are functions in its settings.
\<close>

section \<open>Observations\<close>

record HealthPing =
  hp_All :: int
  hp_Fail :: int
  hp_Deviation :: int
  hp_Average :: int

record OutboundStatus =
  os_OutboundTag :: gostring
  os_Alive :: bool
  os_Delay :: int
  os_HealthPing :: "HealthPing option"

text \<open>What the strategies ask for; a report of another type is \<open>Inr None\<close>.\<close>

record balance_env =
  be_Observation :: "go_error + OutboundStatus list option"
  be_Roll :: "nat \<Rightarrow> nat"
  be_Select :: "(gostring list \<Rightarrow> gostring list) option"

definition alive_tags :: "OutboundStatus list \<Rightarrow> gostring list \<Rightarrow> gostring list" where
  "alive_tags status tags =
     (let statusMap = foldl (\<lambda>m s. m(os_OutboundTag s \<mapsto> s)) Map.empty status in
      filter (\<lambda>candidate. case statusMap candidate of Some s \<Rightarrow> os_Alive s | None \<Rightarrow> True) tags)"

definition observed :: "balance_env \<Rightarrow> bool \<Rightarrow> gostring list \<Rightarrow> gostring list" where
  "observed env observatory tags =
     (if observatory then
        (case be_Observation env of
           Inr (Some status) \<Rightarrow> alive_tags status tags
         | _ \<Rightarrow> tags)
      else tags)"

section \<open>Round robin and random\<close>

text \<open>The observatory of these two is set exactly when they have a fallback tag.\<close>

record RoundRobinStrategy =
  rb_FallbackTag :: gostring
  rb_observatory :: bool
  rb_index :: nat

definition RoundRobin_InjectContext :: "RoundRobinStrategy \<Rightarrow> RoundRobinStrategy" where
  "RoundRobin_InjectContext s = (if length (rb_FallbackTag s) > 0 then s\<lparr>rb_observatory := True\<rparr> else s)"

definition RoundRobin_PickOutbound :: "balance_env \<Rightarrow> gostring list \<Rightarrow> RoundRobinStrategy \<Rightarrow> gostring \<times> RoundRobinStrategy" where
  "RoundRobin_PickOutbound env tags s =
     (let tags = observed env (rb_observatory s) tags; n = length tags in
      if n = 0 then ([], s)
      else (tags ! (rb_index s mod n), s\<lparr>rb_index := (rb_index s + 1) mod n\<rparr>))"

record RandomStrategy =
  rd_FallbackTag :: gostring
  rd_observatory :: bool

definition Random_InjectContext :: "RandomStrategy \<Rightarrow> RandomStrategy" where
  "Random_InjectContext s = (if length (rd_FallbackTag s) > 0 then s\<lparr>rd_observatory := True\<rparr> else s)"

definition Random_PickOutbound :: "balance_env \<Rightarrow> gostring list \<Rightarrow> RandomStrategy \<Rightarrow> gostring" where
  "Random_PickOutbound env candidates s =
     (let candidates = observed env (rd_observatory s) candidates; cnt = length candidates in
      if cnt = 0 then [] else candidates ! be_Roll env cnt)"

section \<open>Least ping\<close>

fun leastping_loop :: "gostring list \<Rightarrow> OutboundStatus list \<Rightarrow> int \<Rightarrow> gostring \<Rightarrow> gostring" where
  "leastping_loop tags [] leastPing selected = selected"
| "leastping_loop tags (v # vs) leastPing selected =
     (if os_OutboundTag v \<in> set tags \<and> os_Alive v \<and> os_Delay v < leastPing
      then leastping_loop tags vs (os_Delay v) (os_OutboundTag v)
      else leastping_loop tags vs leastPing selected)"

text \<open>The flag says whether the observatory was injected.\<close>

definition LeastPing_PickOutbound :: "balance_env \<Rightarrow> gostring list \<Rightarrow> bool \<Rightarrow> gostring" where
  "LeastPing_PickOutbound env tags observatory =
     (if \<not> observatory then []
      else
        (case be_Observation env of
           Inl e \<Rightarrow> []
         | Inr (Some status) \<Rightarrow> leastping_loop tags status 99999999 []
         | Inr None \<Rightarrow> []))"

section \<open>Least load\<close>

record StrategyLeastLoadConfig =
  ll_Expected :: int
  ll_Baselines :: "int list"
  ll_MaxRTT :: int
  ll_TolerancePositive :: bool
  ll_exceeds :: "int \<Rightarrow> int \<Rightarrow> bool"
  ll_cost :: "gostring \<Rightarrow> int \<Rightarrow> int"

record node =
  nd_Tag :: gostring
  nd_CountAll :: int
  nd_CountFail :: int
  nd_RTTAverage :: int
  nd_RTTDeviation :: int
  nd_RTTDeviationCost :: int

definition int64 :: "int \<Rightarrow> int" where
  "int64 x = (x + 2 ^ 63) mod 2 ^ 64 - 2 ^ 63"

text \<open>\<^verbatim>\<open>Duration.Milliseconds\<close>: the quotient is truncated towards zero.\<close>

definition Milliseconds :: "int \<Rightarrow> int" where
  "Milliseconds d = (if d \<ge> 0 then d div 1000000 else - ((- d) div 1000000))"

definition shouldSelectNode :: "StrategyLeastLoadConfig \<Rightarrow> OutboundStatus \<Rightarrow> gostring list \<Rightarrow> bool" where
  "shouldSelectNode cfg v candidates =
     (if \<not> os_Alive v then False
      else if ll_MaxRTT cfg \<noteq> 0 \<and> os_Delay v \<ge> Milliseconds (ll_MaxRTT cfg) then False
      else if os_OutboundTag v \<notin> set candidates then False
      else if (case os_HealthPing v of
                 None \<Rightarrow> False
               | Some h \<Rightarrow> hp_All h > 0 \<and> ll_TolerancePositive cfg \<and> ll_exceeds cfg (hp_Fail h) (hp_All h)) then False
      else True)"

definition node_of :: "StrategyLeastLoadConfig \<Rightarrow> OutboundStatus \<Rightarrow> node" where
  "node_of cfg v =
     (let d = int64 (os_Delay v * 1000000); tag = os_OutboundTag v in
      case os_HealthPing v of
        None \<Rightarrow> \<lparr>nd_Tag = tag, nd_CountAll = 1, nd_CountFail = 1, nd_RTTAverage = d, nd_RTTDeviation = d,
                nd_RTTDeviationCost = ll_cost cfg tag d\<rparr>
      | Some h \<Rightarrow> \<lparr>nd_Tag = tag, nd_CountAll = hp_All h, nd_CountFail = hp_Fail h, nd_RTTAverage = hp_Average h,
                  nd_RTTDeviation = hp_Deviation h, nd_RTTDeviationCost = ll_cost cfg tag (hp_Deviation h)\<rparr>)"

text \<open>
  The order of \<^verbatim>\<open>leastloadSort\<close>. Nodes that it does not separate differ at most in the deviation, which
  nobody reads.
\<close>

definition node_key :: "node \<Rightarrow> int \<times> int \<times> int \<times> int \<times> gostring" where
  "node_key n = (nd_RTTDeviationCost n, nd_RTTAverage n, nd_CountFail n, - nd_CountAll n, nd_Tag n)"

definition leastloadSort :: "node list \<Rightarrow> node list" where
  "leastloadSort nodes = sort_key node_key nodes"

text \<open>A report of another type panics in the type assertion.\<close>

definition getNodes :: "balance_env \<Rightarrow> StrategyLeastLoadConfig \<Rightarrow> bool \<Rightarrow> gostring list \<Rightarrow> node list go" where
  "getNodes env cfg observer candidates =
     (if \<not> observer then Some []
      else
        (case be_Observation env of
           Inl e \<Rightarrow> Some []
         | Inr None \<Rightarrow> None
         | Inr (Some status) \<Rightarrow>
             Some (leastloadSort (map (node_of cfg) (filter (\<lambda>v. shouldSelectNode cfg v candidates) status)))))"

fun baseline_scan :: "int \<Rightarrow> node list \<Rightarrow> nat \<Rightarrow> nat" where
  "baseline_scan baseline [] cnt = cnt"
| "baseline_scan baseline (n # ns) cnt =
     (if nd_RTTDeviationCost n \<ge> baseline then cnt else baseline_scan baseline ns (cnt + 1))"

fun baselines_loop :: "int list \<Rightarrow> node list \<Rightarrow> int \<Rightarrow> nat \<Rightarrow> nat" where
  "baselines_loop [] nodes expected cnt = cnt"
| "baselines_loop (b # bs) nodes expected cnt =
     (let cnt = baseline_scan b (drop cnt nodes) cnt in
      if int cnt \<ge> expected then cnt else baselines_loop bs nodes expected cnt)"

text \<open>\<open>None\<close> is the panic of a slice expression beyond the capacity.\<close>

definition first_nodes :: "node list \<Rightarrow> int \<Rightarrow> node list go" where
  "first_nodes nodes n = (if 0 \<le> n \<and> n \<le> int (length nodes) then Some (take (nat n) nodes) else None)"

definition selectLeastLoad :: "StrategyLeastLoadConfig \<Rightarrow> node list \<Rightarrow> node list go" where
  "selectLeastLoad cfg nodes =
     (if length nodes = 0 then Some []
      else if ll_Expected cfg > int (length nodes) then Some nodes
      else
        let expected = (if ll_Expected cfg \<le> 0 then 1 else ll_Expected cfg) in
        if length (ll_Baselines cfg) = 0 then first_nodes nodes expected
        else
          let cnt = int (baselines_loop (ll_Baselines cfg) nodes expected 0);
              cnt = (if ll_Expected cfg > 0 \<and> cnt < expected then expected else cnt)
          in first_nodes nodes cnt)"

definition LeastLoad_pickOutbounds :: "balance_env \<Rightarrow> StrategyLeastLoadConfig \<Rightarrow> bool \<Rightarrow> gostring list \<Rightarrow> node list go" where
  "LeastLoad_pickOutbounds env cfg observer candidates = do {
     qualified \<leftarrow> getNodes env cfg observer candidates;
     selectLeastLoad cfg qualified }"

definition LeastLoad_PickOutbound :: "balance_env \<Rightarrow> StrategyLeastLoadConfig \<Rightarrow> bool \<Rightarrow> gostring list \<Rightarrow> gostring go" where
  "LeastLoad_PickOutbound env cfg observer candidates = do {
     selects \<leftarrow> LeastLoad_pickOutbounds env cfg observer candidates;
     let cnt = length selects;
     Some (if cnt = 0 then [] else nd_Tag (selects ! be_Roll env cnt)) }"

section \<open>The balancer\<close>

datatype BalancingStrategy =
    RoundRobin RoundRobinStrategy
  | Random RandomStrategy
  | LeastPing bool
  | LeastLoad StrategyLeastLoadConfig bool

fun Strategy_PickOutbound :: "balance_env \<Rightarrow> BalancingStrategy \<Rightarrow> gostring list \<Rightarrow> (gostring \<times> BalancingStrategy) go" where
  "Strategy_PickOutbound env (RoundRobin s) tags =
     (let (tag, s) = RoundRobin_PickOutbound env tags s in Some (tag, RoundRobin s))"
| "Strategy_PickOutbound env (Random s) tags = Some (Random_PickOutbound env tags s, Random s)"
| "Strategy_PickOutbound env (LeastPing o1) tags = Some (LeastPing_PickOutbound env tags o1, LeastPing o1)"
| "Strategy_PickOutbound env (LeastLoad cfg o1) tags =
     map_option (\<lambda>tag. (tag, LeastLoad cfg o1)) (LeastLoad_PickOutbound env cfg o1 tags)"

fun Strategy_InjectContext :: "BalancingStrategy \<Rightarrow> BalancingStrategy" where
  "Strategy_InjectContext (RoundRobin s) = RoundRobin (RoundRobin_InjectContext s)"
| "Strategy_InjectContext (Random s) = Random (Random_InjectContext s)"
| "Strategy_InjectContext (LeastPing _) = LeastPing True"
| "Strategy_InjectContext (LeastLoad cfg _) = LeastLoad cfg True"

fun Strategy_GetPrincipleTarget :: "balance_env \<Rightarrow> BalancingStrategy \<Rightarrow> gostring list \<Rightarrow> gostring list go" where
  "Strategy_GetPrincipleTarget env (RoundRobin s) tags = Some tags"
| "Strategy_GetPrincipleTarget env (Random s) tags = Some tags"
| "Strategy_GetPrincipleTarget env (LeastPing o1) tags = Some [LeastPing_PickOutbound env tags o1]"
| "Strategy_GetPrincipleTarget env (LeastLoad cfg o1) tags =
     map_option (map nd_Tag) (LeastLoad_pickOutbounds env cfg o1 tags)"

record Balancer =
  ba_selectors :: "gostring list"
  ba_strategy :: BalancingStrategy
  ba_fallbackTag :: gostring
  ba_override :: gostring

definition SelectOutbounds :: "balance_env \<Rightarrow> Balancer \<Rightarrow> go_error + gostring list" where
  "SelectOutbounds env b =
     (case be_Select env of
        None \<Rightarrow> Inl (ErrNew ''outbound.Manager is not a HandlerSelector'')
      | Some select \<Rightarrow> Inr (select (ba_selectors b)))"

definition Balancer_PickOutbound :: "balance_env \<Rightarrow> Balancer \<Rightarrow> ((go_error + gostring) \<times> Balancer) go" where
  "Balancer_PickOutbound env b =
     (case SelectOutbounds env b of
        Inl e \<Rightarrow> Some (if ba_fallbackTag b \<noteq> [] then Inr (ba_fallbackTag b) else Inl e, b)
      | Inr candidates \<Rightarrow> do {
          (tag, strategy) \<leftarrow>
            (if ba_override b \<noteq> [] then Some (ba_override b, ba_strategy b)
             else Strategy_PickOutbound env (ba_strategy b) candidates);
          let b = b\<lparr>ba_strategy := strategy\<rparr>;
          Some (if tag = [] then
                  (if ba_fallbackTag b \<noteq> [] then Inr (ba_fallbackTag b)
                   else Inl (ErrNew ''balancing strategy returns empty tag''))
                else Inr tag, b) })"

definition Balancer_InjectContext :: "Balancer \<Rightarrow> Balancer" where
  "Balancer_InjectContext b = b\<lparr>ba_strategy := Strategy_InjectContext (ba_strategy b)\<rparr>"

definition override_Put :: "gostring \<Rightarrow> Balancer \<Rightarrow> Balancer" where
  "override_Put target b = b\<lparr>ba_override := target\<rparr>"

definition override_Clear :: "Balancer \<Rightarrow> Balancer" where
  "override_Clear b = b\<lparr>ba_override := []\<rparr>"

record BalancingRule =
  br_Tag :: gostring
  br_OutboundSelector :: "gostring list"
  br_Strategy :: gostring
  br_StrategySettings :: "go_error + StrategyLeastLoadConfig option"
  br_FallbackTag :: gostring

definition BalancingRule_Build :: "(gostring \<Rightarrow> gostring) \<Rightarrow> BalancingRule \<Rightarrow> go_error + Balancer" where
  "BalancingRule_Build uni br =
     (let s = ToLower uni (br_Strategy br);
          mk = (\<lambda>strategy. \<lparr>ba_selectors = br_OutboundSelector br, ba_strategy = strategy,
                  ba_fallbackTag = br_FallbackTag br, ba_override = []\<rparr>)
      in if s = str ''leastping'' then Inr (mk (LeastPing False))
         else if s = str ''roundrobin'' then
           Inr (mk (RoundRobin \<lparr>rb_FallbackTag = br_FallbackTag br, rb_observatory = False, rb_index = 0\<rparr>))
         else if s = str ''leastload'' then
           (case br_StrategySettings br of
              Inl e \<Rightarrow> Inl e
            | Inr None \<Rightarrow> Inl (ErrNew ''not a StrategyLeastLoadConfig'')
            | Inr (Some cfg) \<Rightarrow> Inr (mk (LeastLoad cfg False)))
         else if s = str ''random'' \<or> s = [] then
           Inr (mk (Random \<lparr>rd_FallbackTag = br_FallbackTag br, rd_observatory = False\<rparr>))
         else Inl (ErrNew ''unrecognized balancer type''))"

section \<open>Round robin is fair\<close>

fun rr_picks :: "balance_env \<Rightarrow> gostring list \<Rightarrow> nat \<Rightarrow> RoundRobinStrategy \<Rightarrow> gostring list" where
  "rr_picks env tags 0 s = []"
| "rr_picks env tags (Suc k) s =
     (let (tag, s) = RoundRobin_PickOutbound env tags s in tag # rr_picks env tags k s)"

lemma rr_picks_nth:
  assumes "observed env (rb_observatory s) tags = alive" "alive \<noteq> []"
  shows "rr_picks env tags k s = map (\<lambda>i. alive ! ((rb_index s + i) mod length alive)) [0 ..< k]"
  using assms(1)
proof (induction k arbitrary: s)
  case (Suc k)
  let ?n = "length alive" let ?s = "s\<lparr>rb_index := (rb_index s + 1) mod ?n\<rparr>"
  have pick: "RoundRobin_PickOutbound env tags s = (alive ! (rb_index s mod ?n), ?s)"
    using Suc.prems assms(2) by (simp add: RoundRobin_PickOutbound_def Let_def)
  have "rr_picks env tags k ?s = map (\<lambda>i. alive ! ((rb_index s + Suc i) mod ?n)) [0 ..< k]"
    using Suc.IH [of ?s] Suc.prems by (simp add: mod_add_left_eq)
  then show ?case using pick
    by (simp add: upt_conv_Cons map_Suc_upt [symmetric] comp_def del: upt_Suc)
qed simp

text \<open>
  C30. Round robin is fair. As long as the selected outbounds and the report of the observatory stay
  the same, as many picks in a row as there are outbounds that are not reported dead give each of
  them exactly once, from whatever index the strategy starts.
\<close>

theorem round_robin_fair:
  assumes "observed env (rb_observatory s) tags = alive" "alive \<noteq> []"
  shows "mset (rr_picks env tags (length alive) s) = mset alive"
proof -
  have "rr_picks env tags (length alive) s = rotate (rb_index s) alive"
    by (rule nth_equalityI) (simp_all add: rr_picks_nth [OF assms] nth_rotate)
  also have "mset \<dots> = mset alive"
    unfolding rotate_drop_take by (metis append_take_drop_id mset_append union_commute)
  finally show ?thesis .
qed

theorem round_robin_fair_witness:
  "mset (rr_picks \<lparr>be_Observation = Inl EOF, be_Roll = (\<lambda>n. 0), be_Select = None\<rparr> [[1], [2], [3]] (length [[1], [2], [3 :: byte]])
     \<lparr>rb_FallbackTag = [], rb_observatory = False, rb_index = 5\<rparr>) = mset [[1], [2], [3]]"
  by (rule round_robin_fair) (simp_all add: observed_def)

section \<open>Least ping takes the fastest\<close>

definition ping_candidate :: "gostring list \<Rightarrow> OutboundStatus \<Rightarrow> bool" where
  "ping_candidate tags v \<longleftrightarrow> os_OutboundTag v \<in> set tags \<and> os_Alive v"

lemma leastping_loop_spec:
  "leastping_loop tags status least selected = selected \<and> (\<forall>v \<in> set status. ping_candidate tags v \<longrightarrow> least \<le> os_Delay v) \<or>
   (\<exists>v \<in> set status. ping_candidate tags v \<and> os_Delay v < least \<and> leastping_loop tags status least selected = os_OutboundTag v \<and>
     (\<forall>w \<in> set status. ping_candidate tags w \<longrightarrow> os_Delay v \<le> os_Delay w))"
proof (induction status arbitrary: least selected)
  case (Cons v vs)
  show ?case
  proof (cases "ping_candidate tags v \<and> os_Delay v < least")
    case True
    then have step: "leastping_loop tags (v # vs) least selected = leastping_loop tags vs (os_Delay v) (os_OutboundTag v)"
      by (simp add: ping_candidate_def)
    show ?thesis using Cons.IH [of "os_Delay v" "os_OutboundTag v"] True unfolding step by fastforce
  next
    case False
    then have step: "leastping_loop tags (v # vs) least selected = leastping_loop tags vs least selected"
      by (auto simp: ping_candidate_def)
    show ?thesis using Cons.IH [of least selected] False unfolding step by fastforce
  qed
qed simp

text \<open>
  C31. Least ping takes the fastest. The strategy returns the tag of a selected outbound that is reported
  alive and that no other such outbound beats; it returns nothing exactly when no such outbound
  has a delay below 99999999.
\<close>

theorem leastping_fastest:
  assumes "be_Observation env = Inr (Some status)"
  shows "(\<exists>v \<in> set status. ping_candidate tags v \<and> os_Delay v < 99999999 \<and> LeastPing_PickOutbound env tags True = os_OutboundTag v \<and>
      (\<forall>w \<in> set status. ping_candidate tags w \<longrightarrow> os_Delay v \<le> os_Delay w)) \<or>
    LeastPing_PickOutbound env tags True = [] \<and> (\<forall>v \<in> set status. ping_candidate tags v \<longrightarrow> 99999999 \<le> os_Delay v)"
  using leastping_loop_spec [of tags status 99999999 "[]"] assms by (auto simp: LeastPing_PickOutbound_def)

definition ex_status :: "byte \<Rightarrow> bool \<Rightarrow> int \<Rightarrow> OutboundStatus" where
  "ex_status t alive d = \<lparr>os_OutboundTag = [t], os_Alive = alive, os_Delay = d, os_HealthPing = None\<rparr>"

theorem leastping_fastest_witness:
  "LeastPing_PickOutbound \<lparr>be_Observation = Inr (Some [ex_status 1 False 5, ex_status 2 True 30, ex_status 3 True 20]),
     be_Roll = (\<lambda>n. 0), be_Select = None\<rparr> [[1], [2], [3]] True = [3]"
  using leastping_fastest [of "\<lparr>be_Observation = Inr (Some [ex_status 1 False 5, ex_status 2 True 30, ex_status 3 True 20]),
     be_Roll = (\<lambda>n. 0), be_Select = None\<rparr>" "[ex_status 1 False 5, ex_status 2 True 30, ex_status 3 True 20]" "[[1], [2], [3]]"]
  by (simp add: ping_candidate_def ex_status_def)

section \<open>What least load selects\<close>

definition below :: "int \<Rightarrow> node list \<Rightarrow> node list" where
  "below b nodes = filter (\<lambda>n. nd_RTTDeviationCost n < b) nodes"

definition by_cost :: "node list \<Rightarrow> bool" where
  "by_cost nodes \<longleftrightarrow> sorted (map nd_RTTDeviationCost nodes)"

lemma below_prefix: "by_cost nodes \<Longrightarrow> below b nodes = take (length (below b nodes)) nodes"
proof (induction nodes)
  case (Cons n ns)
  show ?case
  proof (cases "nd_RTTDeviationCost n < b")
    case True
    then show ?thesis using Cons by (simp add: below_def by_cost_def)
  next
    case False
    then have "below b (n # ns) = []" using Cons.prems by (auto simp: below_def by_cost_def filter_empty_conv)
    then show ?thesis by simp
  qed
qed (simp add: below_def)

lemma baseline_scan_eq: "baseline_scan b ns c = c + length (takeWhile (\<lambda>n. nd_RTTDeviationCost n < b) ns)"
  by (induction ns arbitrary: c) auto

lemma by_cost_Cons: "by_cost (n # ns) \<Longrightarrow> \<not> nd_RTTDeviationCost n < b \<Longrightarrow> below b ns = []"
  by (force simp: below_def by_cost_def filter_empty_conv)

lemma by_cost_tl: "by_cost (n # ns) \<Longrightarrow> by_cost ns"
  by (simp add: by_cost_def)

lemma takeWhile_below: "by_cost ns \<Longrightarrow> takeWhile (\<lambda>n. nd_RTTDeviationCost n < b) ns = below b ns"
proof (induction ns)
  case (Cons n ns)
  then show ?case using by_cost_tl [OF Cons.prems] by_cost_Cons [OF Cons.prems, of b]
    by (auto simp: below_def)
qed (simp add: below_def)

lemma by_cost_drop: "by_cost nodes \<Longrightarrow> by_cost (drop k nodes)"
  unfolding by_cost_def drop_map [symmetric] by (rule sorted_wrt_drop)

lemma below_drop: "by_cost nodes \<Longrightarrow> below b (drop c nodes) = drop c (below b nodes)"
proof (induction nodes arbitrary: c)
  case (Cons n ns)
  show ?case
  proof (cases c)
    case (Suc k)
    have IH: "below b (drop k ns) = drop k (below b ns)" by (rule Cons.IH [OF by_cost_tl [OF Cons.prems]])
    show ?thesis
    proof (cases "nd_RTTDeviationCost n < b")
      case True
      then show ?thesis using Suc IH by (simp add: below_def)
    next
      case False
      have "below b (n # ns) = []" using False by_cost_Cons [OF Cons.prems False] by (simp add: below_def)
      then show ?thesis using Suc IH by_cost_Cons [OF Cons.prems False] by simp
    qed
  qed simp
qed (simp add: below_def)

lemma scan_max:
  assumes "by_cost nodes"
  shows "baseline_scan b (drop c nodes) c = max c (length (below b nodes))"
  by (simp add: baseline_scan_eq takeWhile_below [OF by_cost_drop [OF assms]] below_drop [OF assms])

lemma baselines_loop_spec:
  assumes "by_cost nodes" "int c < expected"
  shows "case List.find (\<lambda>b. expected \<le> int (length (below b nodes))) bs of
      Some b \<Rightarrow> baselines_loop bs nodes expected c = length (below b nodes)
    | None \<Rightarrow> int (baselines_loop bs nodes expected c) < expected"
  using assms(2)
proof (induction bs arbitrary: c)
  case (Cons b bs)
  let ?c = "max c (length (below b nodes))"
  show ?case
  proof (cases "expected \<le> int (length (below b nodes))")
    case True
    then have "?c = length (below b nodes)" using Cons.prems by linarith
    then show ?thesis using True by (simp add: scan_max [OF assms(1)])
  next
    case False
    then have "int ?c < expected" using Cons.prems by linarith
    then have "baselines_loop (b # bs) nodes expected c = baselines_loop bs nodes expected ?c"
        "case List.find (\<lambda>b. expected \<le> int (length (below b nodes))) bs of
          Some b \<Rightarrow> baselines_loop bs nodes expected ?c = length (below b nodes)
        | None \<Rightarrow> int (baselines_loop bs nodes expected ?c) < expected"
      using Cons.IH [of ?c] by (simp_all add: scan_max [OF assms(1)])
    moreover have "List.find (\<lambda>b. expected \<le> int (length (below b nodes))) (b # bs) =
        List.find (\<lambda>b. expected \<le> int (length (below b nodes))) bs" using False by simp
    ultimately show ?thesis by (simp only:)
  qed
qed simp

text \<open>
  C32. What the least-load strategy selects from the nodes in the order of their costs. It never
  panics. With more nodes expected than there are it takes all; without baselines the expected number
  of cheapest nodes, and one if none is expected; otherwise all nodes below the first baseline that
  has the expected number of nodes below it, and if there is no such baseline the expected number
  of nodes, or none when no number was configured.
\<close>

theorem leastload_selection:
  assumes "by_cost nodes" "nodes \<noteq> []"
  shows "selectLeastLoad cfg nodes = Some
    (if ll_Expected cfg > int (length nodes) then nodes
     else if ll_Baselines cfg = [] then take (nat (max 1 (ll_Expected cfg))) nodes
     else
       (case List.find (\<lambda>b. max 1 (ll_Expected cfg) \<le> int (length (below b nodes))) (ll_Baselines cfg) of
          Some b \<Rightarrow> below b nodes
        | None \<Rightarrow> if ll_Expected cfg > 0 then take (nat (ll_Expected cfg)) nodes else []))"
proof (cases "ll_Expected cfg > int (length nodes)")
  case True
  then show ?thesis using assms(2) by (simp add: selectLeastLoad_def)
next
  case False
  let ?e = "max 1 (ll_Expected cfg)"
  have e: "(if ll_Expected cfg \<le> 0 then 1 else ll_Expected cfg) = ?e" by auto
  have le: "?e \<le> int (length nodes)" using False assms(2) by (cases nodes) auto
  show ?thesis
  proof (cases "ll_Baselines cfg = []")
    case True
    then show ?thesis using False assms(2) le by (simp add: selectLeastLoad_def e first_nodes_def Let_def)
  next
    case base: False
    let ?n = "baselines_loop (ll_Baselines cfg) nodes ?e 0"
    have sel: "selectLeastLoad cfg nodes = first_nodes nodes (if ll_Expected cfg > 0 \<and> int ?n < ?e then ?e else int ?n)"
      using False base assms(2) by (simp add: selectLeastLoad_def e Let_def)
    have spec: "case List.find (\<lambda>b. ?e \<le> int (length (below b nodes))) (ll_Baselines cfg) of
        Some b \<Rightarrow> ?n = length (below b nodes) | None \<Rightarrow> int ?n < ?e"
      by (rule baselines_loop_spec [OF assms(1)]) simp
    show ?thesis
    proof (cases "List.find (\<lambda>b. ?e \<le> int (length (below b nodes))) (ll_Baselines cfg)")
      case None
      then show ?thesis using spec sel le False base by (auto simp: first_nodes_def)
    next
      case (Some b)
      have b: "?n = length (below b nodes)" using spec unfolding Some by simp
      have "?e \<le> int (length (below b nodes))" using Some by (metis (mono_tags, lifting) find_Some_iff)
      note b = b this
      have "length (below b nodes) \<le> length nodes" by (simp add: below_def)
      then have "first_nodes nodes (int (length (below b nodes))) = Some (below b nodes)"
        using below_prefix [OF assms(1), of b] by (simp add: first_nodes_def)
      then show ?thesis using sel b Some False base by simp
    qed
  qed
qed

lemma leastloadSort_by_cost: "by_cost (leastloadSort nodes)"
proof -
  have "sorted (map node_key (leastloadSort nodes))" by (simp add: leastloadSort_def)
  then have "sorted_wrt (\<lambda>m n. nd_RTTDeviationCost m \<le> nd_RTTDeviationCost n) (leastloadSort nodes)"
    unfolding sorted_map by (rule sorted_wrt_mono_rel [rotated]) (auto simp: node_key_def less_eq_prod_def less_imp_le)
  then show ?thesis by (simp add: by_cost_def sorted_map)
qed

definition ex_node :: "byte \<Rightarrow> int \<Rightarrow> node" where
  "ex_node t c = \<lparr>nd_Tag = [t], nd_CountAll = 1, nd_CountFail = 0, nd_RTTAverage = c, nd_RTTDeviation = c, nd_RTTDeviationCost = c\<rparr>"

definition ex_load_cfg :: StrategyLeastLoadConfig where
  "ex_load_cfg = \<lparr>ll_Expected = 1, ll_Baselines = [10, 40], ll_MaxRTT = 0, ll_TolerancePositive = False,
     ll_exceeds = (\<lambda>f a. False), ll_cost = (\<lambda>t d. d)\<rparr>"

theorem leastload_selection_witness:
  "selectLeastLoad ex_load_cfg [ex_node 1 20, ex_node 2 30, ex_node 3 50] = Some [ex_node 1 20, ex_node 2 30]"
  using leastload_selection [of "[ex_node 1 20, ex_node 2 30, ex_node 3 50]" ex_load_cfg]
  by (simp add: by_cost_def ex_node_def ex_load_cfg_def below_def)

end
