(* ===== verification/Router.thy ===== *)
theory Router
  imports Route_Condition Balancer
begin

text \<open>
  The router (\<^verbatim>\<open>app/router/router.go\<close>, \<^verbatim>\<open>config.go\<close>): a list of rules, each with conditions and an outbound tag
  or a balancer, and the operations that load, extend and remove rules. Rules share balancers and
  webhooks by reference: both are positions in lists of the router's state; of a webhook only
  whether it is closed is kept. \<open>None\<close> is a panic.
\<close>

section \<open>State\<close>

datatype DomainStrategy = Config_AsIs | Config_IpIfNonMatch | Config_IpOnDemand

record Rule =
  ru_Tag :: gostring
  ru_RuleTag :: gostring
  ru_Balancer :: "nat option"
  ru_Condition :: "Condition list"
  ru_Webhook :: "nat option"

record 's Router =
  ro_domainStrategy :: DomainStrategy
  ro_rules :: "Rule list"
  ro_balancers :: "gostring \<rightharpoonup> nat"
  ro_heap :: "Balancer list"
  ro_webhooks :: "bool list"
  ro_registries :: "'s registries"

record Router_Config =
  cf_DomainStrategy :: DomainStrategy
  cf_Rule :: "RoutingRule list"
  cf_BalancingRule :: "BalancingRule list"

record Route =
  rt_outboundTag :: gostring
  rt_ruleTag :: gostring

section \<open>Webhooks\<close>

definition webhook_Close :: "nat option \<Rightarrow> bool list \<Rightarrow> bool list" where
  "webhook_Close wh ws = (case wh of None \<Rightarrow> ws | Some i \<Rightarrow> ws[i := True])"

definition close_all :: "Rule list \<Rightarrow> bool list \<Rightarrow> bool list" where
  "close_all rules ws = foldl (\<lambda>ws rule. webhook_Close (ru_Webhook rule) ws) ws rules"

definition closeWebhooks :: "'s Router \<Rightarrow> 's Router" where
  "closeWebhooks r = r\<lparr>ro_webhooks := close_all (ro_rules r) (ro_webhooks r)\<rparr>"

definition Router_Close :: "'s Router \<Rightarrow> 's Router" where
  "Router_Close r = closeWebhooks r"

text \<open>A webhook without an address gives no notifier.\<close>

definition NewWebhookNotifier :: "gostring option \<Rightarrow> bool list \<Rightarrow> nat option \<times> bool list" where
  "NewWebhookNotifier cfg ws =
     (case cfg of
        None \<Rightarrow> (None, ws)
      | Some url \<Rightarrow> if url = [] then (None, ws) else (Some (length ws), ws @ [False]))"

section \<open>Rules\<close>

definition RuleExists :: "gostring \<Rightarrow> Rule list \<Rightarrow> bool" where
  "RuleExists tag rules = (if tag \<noteq> [] then list_ex (\<lambda>rule. ru_RuleTag rule = tag) rules else False)"

text \<open>
  The body of the loops over the rules of a configuration, which \<^verbatim>\<open>Init\<close> and \<^verbatim>\<open>ReloadRules\<close> share: the
  conditions, the webhook, and the balancer, without which the new webhook is closed.
\<close>

definition build_rule :: "'s route_env \<Rightarrow> RoutingRule \<Rightarrow> 's Router \<Rightarrow> ((go_error + Rule) \<times> 's Router) go" where
  "build_rule env rule r = do {
     (cond, rg) \<leftarrow> BuildCondition env rule (ro_registries r);
     let r = r\<lparr>ro_registries := rg\<rparr>;
     (case cond of
        Inl e \<Rightarrow> Some (Inl e, r)
      | Inr cond \<Rightarrow>
          let (wh, ws) = NewWebhookNotifier (rr_Webhook rule) (ro_webhooks r);
              rr = \<lparr>ru_Tag = rr_Tag rule, ru_RuleTag = rr_RuleTag rule, ru_Balancer = None, ru_Condition = cond, ru_Webhook = wh\<rparr>;
              btag = rr_BalancingTag rule
          in if length btag > 0 then
               (case ro_balancers r btag of
                  None \<Rightarrow> Some (Inl (ErrNew ''balancer ''), r\<lparr>ro_webhooks := webhook_Close wh ws\<rparr>)
                | Some b \<Rightarrow> Some (Inr (rr\<lparr>ru_Balancer := Some b\<rparr>), r\<lparr>ro_webhooks := ws\<rparr>))
             else Some (Inr rr, r\<lparr>ro_webhooks := ws\<rparr>)) }"

fun init_rules :: "'s route_env \<Rightarrow> RoutingRule list \<Rightarrow> 's Router \<Rightarrow> (go_error option \<times> 's Router) go" where
  "init_rules env [] r = Some (None, r)"
| "init_rules env (rule # rest) r = do {
     (rr, r) \<leftarrow> build_rule env rule r;
     (case rr of
        Inl e \<Rightarrow> Some (Some e, closeWebhooks r)
      | Inr rr \<Rightarrow> init_rules env rest (r\<lparr>ro_rules := ro_rules r @ [rr]\<rparr>)) }"

definition add_balancer :: "Balancer \<Rightarrow> gostring \<Rightarrow> 's Router \<Rightarrow> 's Router" where
  "add_balancer b tag r =
     r\<lparr>ro_balancers := (ro_balancers r)(tag \<mapsto> length (ro_heap r)),
       ro_heap := ro_heap r @ [Balancer_InjectContext b]\<rparr>"

fun init_balancers :: "'s route_env \<Rightarrow> BalancingRule list \<Rightarrow> 's Router \<Rightarrow> go_error option \<times> 's Router" where
  "init_balancers env [] r = (None, r)"
| "init_balancers env (rule # rest) r =
     (case BalancingRule_Build (ge_lower (re_geo env)) rule of
        Inl e \<Rightarrow> (Some e, r)
      | Inr b \<Rightarrow> init_balancers env rest (add_balancer b (br_Tag rule) r))"

definition Router_Init :: "'s route_env \<Rightarrow> Router_Config \<Rightarrow> 's registries \<Rightarrow> (go_error option \<times> 's Router) go" where
  "Router_Init env config rg =
     (let r = \<lparr>ro_domainStrategy = cf_DomainStrategy config, ro_rules = [], ro_balancers = Map.empty, ro_heap = [],
               ro_webhooks = [], ro_registries = rg\<rparr>;
          (err, r) = init_balancers env (cf_BalancingRule config) r
      in if err \<noteq> None then Some (err, r) else init_rules env (cf_Rule config) r)"

text \<open>The balancers of \<^verbatim>\<open>ReloadRules\<close>; a tag that is in use is an error.\<close>

fun reload_balancers :: "'s route_env \<Rightarrow> BalancingRule list \<Rightarrow> 's Router \<Rightarrow> go_error option \<times> 's Router" where
  "reload_balancers env [] r = (None, r)"
| "reload_balancers env (rule # rest) r =
     (if ro_balancers r (br_Tag rule) \<noteq> None then (Some (ErrNew ''duplicate balancer tag''), r)
      else
        (case BalancingRule_Build (ge_lower (re_geo env)) rule of
           Inl e \<Rightarrow> (Some e, r)
         | Inr b \<Rightarrow> reload_balancers env rest (add_balancer b (br_Tag rule) r)))"

definition closeNewWebhooks :: "nat \<Rightarrow> 's Router \<Rightarrow> 's Router" where
  "closeNewWebhooks startIdx r =
     r\<lparr>ro_webhooks := close_all (drop startIdx (ro_rules r)) (ro_webhooks r), ro_rules := take startIdx (ro_rules r)\<rparr>"

fun reload_loop :: "'s route_env \<Rightarrow> nat \<Rightarrow> RoutingRule list \<Rightarrow> 's Router \<Rightarrow> (go_error option \<times> 's Router) go" where
  "reload_loop env startIdx [] r = Some (None, r)"
| "reload_loop env startIdx (rule # rest) r =
     (if RuleExists (rr_RuleTag rule) (ro_rules r)
      then Some (Some (ErrNew ''duplicate ruleTag ''), closeNewWebhooks startIdx r)
      else do {
        (rr, r) \<leftarrow> build_rule env rule r;
        (case rr of
           Inl e \<Rightarrow> Some (Some e, closeNewWebhooks startIdx r)
         | Inr rr \<Rightarrow> reload_loop env startIdx rest (r\<lparr>ro_rules := ro_rules r @ [rr]\<rparr>)) })"

definition ReloadRules :: "'s route_env \<Rightarrow> Router_Config \<Rightarrow> bool \<Rightarrow> 's Router \<Rightarrow> (go_error option \<times> 's Router) go" where
  "ReloadRules env config shouldAppend r =
     (let r = (if \<not> shouldAppend
               then r\<lparr>ro_webhooks := close_all (ro_rules r) (ro_webhooks r), ro_balancers := Map.empty, ro_rules := []\<rparr>
               else r);
          (err, r) = reload_balancers env (cf_BalancingRule config) r
      in if err \<noteq> None then Some (err, r)
         else reload_loop env (length (ro_rules r)) (cf_Rule config) r)"

text \<open>The message of \<^verbatim>\<open>AddRule\<close> as its decoded instance: an error, another type, or a configuration.\<close>

definition AddRule :: "'s route_env \<Rightarrow> go_error + Router_Config option \<Rightarrow> bool \<Rightarrow> 's Router \<Rightarrow> (go_error option \<times> 's Router) go" where
  "AddRule env config shouldAppend r =
     (case config of
        Inl e \<Rightarrow> Some (Some e, r)
      | Inr (Some c) \<Rightarrow> ReloadRules env c shouldAppend r
      | Inr None \<Rightarrow> Some (Some (ErrNew ''AddRule: config type error''), r))"

definition RemoveRule :: "gostring \<Rightarrow> 's Router \<Rightarrow> go_error option \<times> 's Router" where
  "RemoveRule tag r =
     (if tag \<noteq> [] then
        (None, r\<lparr>ro_rules := filter (\<lambda>rule. ru_RuleTag rule \<noteq> tag) (ro_rules r),
                 ro_webhooks := close_all (filter (\<lambda>rule. ru_RuleTag rule = tag) (ro_rules r)) (ro_webhooks r)\<rparr>)
      else (Some (ErrNew ''empty tag name!''), r))"

definition ListRule :: "'s Router \<Rightarrow> Route list" where
  "ListRule r = map (\<lambda>rule. \<lparr>rt_outboundTag = ru_Tag rule, rt_ruleTag = ru_RuleTag rule\<rparr>) (ro_rules r)"

section \<open>Picking a route\<close>

definition Rule_Apply :: "'s route_env \<Rightarrow> 's registries \<Rightarrow> Rule \<Rightarrow> Context \<Rightarrow> resolver option \<Rightarrow> (bool \<times> resolver option) go" where
  "Rule_Apply env rg rule ctx res = ConditionChan_Apply env rg (ru_Condition rule) ctx res"

fun apply_rules ::
  "'s route_env \<Rightarrow> 's registries \<Rightarrow> Rule list \<Rightarrow> Context \<Rightarrow> resolver option \<Rightarrow> (Rule option \<times> resolver option) go" where
  "apply_rules env rg [] ctx res = Some (None, res)"
| "apply_rules env rg (rule # rest) ctx res = do {
     (ok, res) \<leftarrow> Rule_Apply env rg rule ctx res;
     if ok then Some (Some rule, res) else apply_rules env rg rest ctx res }"

definition ErrNoClue :: go_error where
  "ErrNoClue = ErrNew ''not enough information for making a decision''"

definition pickRouteInternal ::
  "'s route_env \<Rightarrow> 's Router \<Rightarrow> Context \<Rightarrow> ((go_error + Rule) \<times> resolver option) go" where
  "pickRouteInternal env r ctx = do {
     let skipDNSResolve = GetSkipDNSResolve ctx;
     let res = (if ro_domainStrategy r = Config_IpOnDemand \<and> \<not> skipDNSResolve then Some ContextWithDNSClient else None);
     (found, res) \<leftarrow> apply_rules env (ro_registries r) (ro_rules r) ctx res;
     (case found of
        Some rule \<Rightarrow> Some (Inr rule, res)
      | None \<Rightarrow>
          if ro_domainStrategy r \<noteq> Config_IpIfNonMatch then Some (Inl ErrNoClue, res)
          else do {
            domain \<leftarrow> GetTargetDomain ctx;
            if length domain = 0 \<or> skipDNSResolve then Some (Inl ErrNoClue, res)
            else do {
              (found, res) \<leftarrow> apply_rules env (ro_registries r) (ro_rules r) ctx (Some ContextWithDNSClient);
              Some (case found of Some rule \<Rightarrow> Inr rule | None \<Rightarrow> Inl ErrNoClue, res) } }) }"

definition Rule_GetTag :: "balance_env \<Rightarrow> Rule \<Rightarrow> 's Router \<Rightarrow> ((go_error + gostring) \<times> 's Router) go" where
  "Rule_GetTag benv rule r =
     (case ru_Balancer rule of
        None \<Rightarrow> Some (Inr (ru_Tag rule), r)
      | Some i \<Rightarrow> do {
          (tag, b) \<leftarrow> Balancer_PickOutbound benv (ro_heap r ! i);
          Some (tag, r\<lparr>ro_heap := (ro_heap r)[i := b]\<rparr>) })"

definition PickRoute :: "'s route_env \<Rightarrow> balance_env \<Rightarrow> Context \<Rightarrow> 's Router \<Rightarrow> ((go_error + Route) \<times> 's Router) go" where
  "PickRoute env benv ctx r = do {
     (found, _) \<leftarrow> pickRouteInternal env r ctx;
     (case found of
        Inl e \<Rightarrow> Some (Inl e, r)
      | Inr rule \<Rightarrow> do {
          (tag, r) \<leftarrow> Rule_GetTag benv rule r;
          Some (map_sum id (\<lambda>tag. \<lparr>rt_outboundTag = tag, rt_ruleTag = ru_RuleTag rule\<rparr>) tag, r) }) }"

section \<open>Balancers of the router\<close>

definition Router_GetPrincipleTarget :: "balance_env \<Rightarrow> gostring \<Rightarrow> 's Router \<Rightarrow> (go_error + gostring list) go" where
  "Router_GetPrincipleTarget benv tag r =
     (case ro_balancers r tag of
        None \<Rightarrow> Some (Inl (ErrNew ''cannot find tag''))
      | Some i \<Rightarrow>
          (case SelectOutbounds benv (ro_heap r ! i) of
             Inl e \<Rightarrow> Some (Inl (ErrNew ''unable to select outbounds''))
           | Inr candidates \<Rightarrow> map_option Inr (Strategy_GetPrincipleTarget benv (ba_strategy (ro_heap r ! i)) candidates)))"

definition SetOverrideTarget :: "gostring \<Rightarrow> gostring \<Rightarrow> 's Router \<Rightarrow> go_error option \<times> 's Router" where
  "SetOverrideTarget tag target r =
     (case ro_balancers r tag of
        None \<Rightarrow> (Some (ErrNew ''cannot find tag''), r)
      | Some i \<Rightarrow> (None, r\<lparr>ro_heap := (ro_heap r)[i := override_Put target (ro_heap r ! i)]\<rparr>))"

definition OverrideBalancer :: "gostring \<Rightarrow> gostring \<Rightarrow> 's Router \<Rightarrow> go_error option \<times> 's Router" where
  "OverrideBalancer balancer target r =
     (case ro_balancers r balancer of
        None \<Rightarrow> (Some (ErrNew ''balancer not found''), r)
      | Some i \<Rightarrow> (None, r\<lparr>ro_heap := (ro_heap r)[i := override_Put target (ro_heap r ! i)]\<rparr>))"

definition GetOverrideTarget :: "gostring \<Rightarrow> 's Router \<Rightarrow> go_error + gostring" where
  "GetOverrideTarget tag r =
     (case ro_balancers r tag of
        None \<Rightarrow> Inl (ErrNew ''cannot find tag'')
      | Some i \<Rightarrow> Inr (ba_override (ro_heap r ! i)))"

end
