(* ===== verification/Routing.thy ===== *)
theory Routing
  imports Router Domain_Meaning
begin

text \<open>
  What the router promises. Picking a route is a search for the first rule whose conditions hold, first
  on the addresses of the target and, by the strategy, on the resolved ones; the caches of the resolving
  context do not show. Failing to extend the rules leaves the rules, but not the balancers, as they were;
  no open webhook is lost.
\<close>

section \<open>Conditions as predicates\<close>

text \<open>A context whose valid destinations have an address, so that no accessor panics.\<close>

definition ctx_ok :: "Context \<Rightarrow> bool" where
  "ctx_ok ctx \<longleftrightarrow> GetSourceIPs ctx \<noteq> None \<and> GetLocalIPs ctx \<noteq> None \<and> Context_GetTargetIPs ctx \<noteq> None \<and> GetTargetDomain ctx \<noteq> None"

definition orig_ips :: "Context \<Rightarrow> netIP list" where
  "orig_ips ctx = the (Context_GetTargetIPs ctx)"

text \<open>The resolved addresses, for a client that answers a domain always in the same way.\<close>

definition resolved_ips :: "(gostring \<Rightarrow> go_error + netIP list) \<Rightarrow> Context \<Rightarrow> netIP list" where
  "resolved_ips L ctx =
     (let domain = the (GetTargetDomain ctx) in
      if domain \<noteq> [] then (case L domain of Inr ips \<Rightarrow> ips | Inl _ \<Rightarrow> orig_ips ctx) else orig_ips ctx)"

definition process_holds :: "'s route_env \<Rightarrow> ProcessNameMatcher \<Rightarrow> Context \<Rightarrow> netIP list \<Rightarrow> bool" where
  "process_holds env m ctx ips \<longleftrightarrow>
     (let src = the (GetSourceIPs ctx);
          ips = (if orig_ips ctx \<noteq> [] then orig_ips ctx else ips);
          dst = (if ips \<noteq> [] then (Some (ips ! 0), GetTargetPort ctx) else (None, 0))
      in src \<noteq> [] \<and> GetNetwork ctx \<in> {Network_TCP, Network_UDP} \<and>
         (case re_FindProcess env (GetNetwork ctx) (src ! 0) (GetSourcePort ctx) (fst dst) (snd dst) of
            Inl e \<Rightarrow> False
          | Inr (pid, name, absPath) \<Rightarrow>
              pm_MatchXraySelf m \<and> pid = re_Getpid env \<or> name \<in> set (pm_ProcessNames m) \<or>
              absPath \<in> set (pm_AbsPaths m) \<or> (\<exists>f \<in> set (pm_Folders m). HasPrefix absPath f)))"

text \<open>A condition on a context whose target has the addresses \<open>ips\<close>.\<close>

fun cond_holds :: "'s route_env \<Rightarrow> 's registries \<Rightarrow> Condition \<Rightarrow> Context \<Rightarrow> netIP list \<Rightarrow> bool" where
  "cond_holds env rg (DomainCondition i) ctx ips \<longleftrightarrow>
     (let domain = the (GetTargetDomain ctx) in domain \<noteq> [] \<and>
      DynamicDomain_MatchAny (re_mem env) (dr_matchers (rg_Domain rg) ! i) (ToLower (ge_lower (re_geo env)) domain))"
| "cond_holds env rg (IPCondition i asType) ctx ips \<longleftrightarrow>
     Dynamic_AnyMatch (re_netipx env) (reg_matchers (rg_IP rg) ! i)
       (case asType of
          MatcherAsType_Local \<Rightarrow> the (GetLocalIPs ctx)
        | MatcherAsType_Source \<Rightarrow> the (GetSourceIPs ctx)
        | _ \<Rightarrow> ips)"
| "cond_holds env rg (PortCondition l asType) ctx ips \<longleftrightarrow> Port_Apply l asType ctx"
| "cond_holds env rg (NetworkCondition l) ctx ips \<longleftrightarrow> l ! network_number (GetNetwork ctx)"
| "cond_holds env rg (UserCondition us ps) ctx ips \<longleftrightarrow> User_Apply us ps ctx"
| "cond_holds env rg (InboundTagCondition tags) ctx ips \<longleftrightarrow> InboundTag_Apply tags ctx"
| "cond_holds env rg (ProtocolCondition ps) ctx ips \<longleftrightarrow> Protocol_Apply ps ctx"
| "cond_holds env rg (AttributeCondition keys) ctx ips \<longleftrightarrow> Attribute_Apply (re_geo env) keys ctx"
| "cond_holds env rg (ProcessCondition m) ctx ips \<longleftrightarrow> process_holds env m ctx ips"

fun cond_ok :: "Condition \<Rightarrow> bool" where
  "cond_ok (IPCondition i asType) \<longleftrightarrow> asType \<noteq> MatcherAsType_VlessRoute"
| "cond_ok _ \<longleftrightarrow> True"

definition rule_holds :: "'s route_env \<Rightarrow> 's registries \<Rightarrow> Context \<Rightarrow> netIP list \<Rightarrow> Rule \<Rightarrow> bool" where
  "rule_holds env rg ctx ips rule \<longleftrightarrow> (\<forall>c \<in> set (ru_Condition rule). cond_holds env rg c ctx ips)"

section \<open>The resolving context\<close>

text \<open>The states that a resolver can be in: nothing known, the answer cached, or known to be empty.\<close>

definition res_ok :: "netIP list \<Rightarrow> resolver \<Rightarrow> bool" where
  "res_ok view r \<longleftrightarrow> rs_cacheIPs r = [] \<and> \<not> rs_hasError r \<or> rs_cacheIPs r = view \<or> rs_cacheIPs r = [] \<and> view = []"

definition view_of :: "(gostring \<Rightarrow> go_error + netIP list) \<Rightarrow> Context \<Rightarrow> resolver option \<Rightarrow> netIP list" where
  "view_of L ctx ro = (case ro of None \<Rightarrow> orig_ips ctx | Some r \<Rightarrow> resolved_ips L ctx)"

definition ro_ok :: "(gostring \<Rightarrow> go_error + netIP list) \<Rightarrow> Context \<Rightarrow> resolver option \<Rightarrow> bool" where
  "ro_ok L ctx ro \<longleftrightarrow> (case ro of None \<Rightarrow> True | Some r \<Rightarrow> res_ok (resolved_ips L ctx) r)"

definition same_kind :: "resolver option \<Rightarrow> resolver option \<Rightarrow> bool" where
  "same_kind ro ro' \<longleftrightarrow> (ro = None \<longleftrightarrow> ro' = None)"

lemma view_same: "same_kind ro ro' \<Longrightarrow> view_of L ctx ro' = view_of L ctx ro"
  by (auto simp: same_kind_def view_of_def split: option.splits)

lemma same_kind_trans: "same_kind a b \<Longrightarrow> same_kind b c \<Longrightarrow> same_kind a c"
  by (simp add: same_kind_def)

lemma keep_original_spec:
  assumes "ctx_ok ctx" "view = orig_ips ctx" "rs_cacheIPs r = []"
  shows "\<exists>r'. keep_original ctx r = Some (view, r') \<and> res_ok view r'"
  using assms by (auto simp: keep_original_def ctx_ok_def orig_ips_def res_ok_def)

lemma GetTargetIPs_view:
  assumes "ctx_ok ctx" "\<And>n d. dns n d = L d" "ro_ok L ctx ro"
  shows "\<exists>ro'. GetTargetIPs dns ctx ro = Some (view_of L ctx ro, ro') \<and> ro_ok L ctx ro' \<and> same_kind ro ro'"
proof (cases ro)
  case None
  then show ?thesis using assms(1) by (auto simp: GetTargetIPs_def view_of_def orig_ips_def ctx_ok_def ro_ok_def same_kind_def)
next
  case (Some r)
  let ?v = "resolved_ips L ctx"
  have r: "res_ok ?v r" using assms(3) Some by (simp add: ro_ok_def)
  have "\<exists>r'. Resolvable_GetTargetIPs dns ctx r = Some (?v, r') \<and> res_ok ?v r'"
  proof (cases "length (rs_cacheIPs r) > 0 \<or> rs_hasError r")
    case True
    then show ?thesis using r by (auto simp: res_ok_def Resolvable_GetTargetIPs_def)
  next
    case False
    obtain domain where d: "GetTargetDomain ctx = Some domain" using assms(1) by (auto simp: ctx_ok_def)
    show ?thesis
    proof (cases "domain = []")
      case True
      then have "?v = orig_ips ctx" using d by (simp add: resolved_ips_def)
      then show ?thesis using keep_original_spec [OF assms(1), of ?v r] False True d by (simp add: Resolvable_GetTargetIPs_def)
    next
      case ne: False
      show ?thesis
      proof (cases "L domain")
        case (Inl e)
        then have "?v = orig_ips ctx" using d ne by (simp add: resolved_ips_def)
        then show ?thesis
          using keep_original_spec [OF assms(1), of ?v "r\<lparr>rs_calls := rs_calls r + 1\<rparr>"] False ne d Inl assms(2)
          by (simp add: Resolvable_GetTargetIPs_def)
      next
        case (Inr ips)
        then show ?thesis using False ne d assms(2) by (simp add: Resolvable_GetTargetIPs_def resolved_ips_def res_ok_def)
      qed
    qed
  qed
  then show ?thesis using Some by (auto simp: GetTargetIPs_def view_of_def ro_ok_def same_kind_def)
qed

lemma process_target_spec:
  assumes "ctx_ok ctx" "\<And>n d. re_dns env n d = L d" "ro_ok L ctx ro"
  shows "\<exists>ro'. process_target env ctx ro = Some
      (let ips = (if orig_ips ctx \<noteq> [] then orig_ips ctx else view_of L ctx ro)
       in if ips \<noteq> [] then (Some (ips ! 0), GetTargetPort ctx) else (None, 0), ro') \<and> ro_ok L ctx ro' \<and> same_kind ro ro'"
proof -
  obtain ro1 where r1: "GetTargetIPs (re_dns env) ctx ro = Some (view_of L ctx ro, ro1)" "ro_ok L ctx ro1" "same_kind ro ro1"
    using GetTargetIPs_view [of ctx "re_dns env" L ro, OF assms] by blast
  obtain ro2 where r2: "GetTargetIPs (re_dns env) ctx ro1 = Some (view_of L ctx ro, ro2)" "ro_ok L ctx ro2" "same_kind ro ro2"
    using GetTargetIPs_view [of ctx "re_dns env" L ro1, OF assms(1,2) r1(2)] view_same [OF r1(3)] same_kind_trans [OF r1(3)] by auto
  obtain o1 where o1: "Context_GetTargetIPs ctx = Some o1" using assms(1) by (auto simp: ctx_ok_def)
  then have orig: "orig_ips ctx = o1" by (simp add: orig_ips_def)
  have plain: "view_of L ctx ro = o1" if "ro = None" using that orig by (simp add: view_of_def)
  have refl: "same_kind ro ro" by (simp add: same_kind_def)
  show ?thesis
  proof (cases "ro \<noteq> None \<and> o1 \<noteq> []")
    case True
    then show ?thesis using o1 orig assms(3) refl by (simp add: process_target_def)
  next
    case False
    then show ?thesis using o1 orig plain r1 r2 by (auto simp: process_target_def Let_def)
  qed
qed

lemma Process_Apply_spec:
  assumes "ctx_ok ctx" "\<And>n d. re_dns env n d = L d" "ro_ok L ctx ro"
  shows "\<exists>ro'. Process_Apply env m ctx ro = Some (process_holds env m ctx (view_of L ctx ro), ro') \<and> ro_ok L ctx ro' \<and> same_kind ro ro'"
proof -
  obtain src where src: "GetSourceIPs ctx = Some src" using assms(1) by (auto simp: ctx_ok_def)
  obtain ro' where t: "process_target env ctx ro = Some
      (let ips = (if orig_ips ctx \<noteq> [] then orig_ips ctx else view_of L ctx ro)
       in if ips \<noteq> [] then (Some (ips ! 0), GetTargetPort ctx) else (None, 0), ro')" "ro_ok L ctx ro'" "same_kind ro ro'"
    using process_target_spec [OF assms] by blast
  define dst where "dst = (let ips = (if orig_ips ctx \<noteq> [] then orig_ips ctx else view_of L ctx ro)
       in if ips \<noteq> [] then (Some (ips ! 0), GetTargetPort ctx) else (None, 0 :: Port))"
  have t': "process_target env ctx ro = Some (dst, ro')" using t(1) by (simp only: dst_def)
  have h: "process_holds env m ctx (view_of L ctx ro) \<longleftrightarrow> src \<noteq> [] \<and> GetNetwork ctx \<in> {Network_TCP, Network_UDP} \<and>
     (case re_FindProcess env (GetNetwork ctx) (src ! 0) (GetSourcePort ctx) (fst dst) (snd dst) of
        Inl e \<Rightarrow> False
      | Inr (pid, name, absPath) \<Rightarrow>
          pm_MatchXraySelf m \<and> pid = re_Getpid env \<or> name \<in> set (pm_ProcessNames m) \<or>
          absPath \<in> set (pm_AbsPaths m) \<or> (\<exists>f \<in> set (pm_Folders m). HasPrefix absPath f))"
    unfolding process_holds_def Let_def dst_def using src by simp
  have refl: "same_kind ro ro" by (simp add: same_kind_def)
  show ?thesis
  proof (cases "src = [] \<or> GetNetwork ctx \<notin> {Network_TCP, Network_UDP}")
    case True
    then have "Process_Apply env m ctx ro = Some (False, ro)" using src by (auto simp: Process_Apply_def)
    moreover have "\<not> process_holds env m ctx (view_of L ctx ro)" using True h by blast
    ultimately show ?thesis using assms(3) refl by simp
  next
    case False
    then have "Process_Apply env m ctx ro = Some (process_holds env m ctx (view_of L ctx ro), ro')"
      unfolding Process_Apply_def src h t' using False
      by (cases dst) (auto simp: list_ex_iff split: sum.splits prod.splits)
    then show ?thesis using t(2,3) by blast
  qed
qed

lemma Condition_Apply_spec:
  assumes "ctx_ok ctx" "\<And>n d. re_dns env n d = L d" "ro_ok L ctx ro" "cond_ok c"
  shows "\<exists>ro'. Condition_Apply env rg c ctx ro = Some (cond_holds env rg c ctx (view_of L ctx ro), ro') \<and> ro_ok L ctx ro' \<and> same_kind ro ro'"
proof -
  have refl: "same_kind ro ro" by (simp add: same_kind_def)
  show ?thesis
  proof (cases c)
    case (DomainCondition i)
    then show ?thesis using assms(1,3) refl by (auto simp: Domain_Apply_def ctx_ok_def Let_def)
  next
    case (IPCondition i asType)
    obtain ro1 where "GetTargetIPs (re_dns env) ctx ro = Some (view_of L ctx ro, ro1)" "ro_ok L ctx ro1" "same_kind ro ro1"
      using GetTargetIPs_view [of ctx "re_dns env" L ro, OF assms(1-3)] by blast
    then show ?thesis using IPCondition assms(1,3,4) refl by (cases asType) (auto simp: IP_Apply_def ctx_ok_def)
  next
    case (ProcessCondition m)
    then show ?thesis using Process_Apply_spec [OF assms(1-3), of m] by simp
  qed (use assms(3) refl in simp_all)
qed

lemma ConditionChan_Apply_spec:
  assumes "ctx_ok ctx" "\<And>n d. re_dns env n d = L d" "ro_ok L ctx ro" "list_all cond_ok cs"
  shows "\<exists>ro'. ConditionChan_Apply env rg cs ctx ro = Some (\<forall>c \<in> set cs. cond_holds env rg c ctx (view_of L ctx ro), ro') \<and>
    ro_ok L ctx ro' \<and> same_kind ro ro'"
  using assms(3,4)
proof (induction cs arbitrary: ro)
  case (Cons c cs)
  obtain r1 where r1: "Condition_Apply env rg c ctx ro = Some (cond_holds env rg c ctx (view_of L ctx ro), r1)" "ro_ok L ctx r1" "same_kind ro r1"
    using Condition_Apply_spec [OF assms(1,2) Cons.prems(1)] Cons.prems(2) by auto
  obtain r2 where "ConditionChan_Apply env rg cs ctx r1 = Some (\<forall>c \<in> set cs. cond_holds env rg c ctx (view_of L ctx ro), r2)" "ro_ok L ctx r2" "same_kind ro r2"
    using Cons.IH [OF r1(2)] Cons.prems(2) view_same [OF r1(3), of L ctx] same_kind_trans [OF r1(3)] by auto
  then show ?case using r1 by auto
qed (simp add: same_kind_def)

lemma apply_rules_spec:
  assumes "ctx_ok ctx" "\<And>n d. re_dns env n d = L d" "ro_ok L ctx ro" "\<forall>rule \<in> set rules. list_all cond_ok (ru_Condition rule)"
  shows "\<exists>ro'. apply_rules env rg rules ctx ro = Some (List.find (rule_holds env rg ctx (view_of L ctx ro)) rules, ro') \<and>
    ro_ok L ctx ro' \<and> same_kind ro ro'"
  using assms(3,4)
proof (induction rules arbitrary: ro)
  case (Cons rule rules)
  let ?v = "view_of L ctx ro"
  obtain r1 where r1: "Rule_Apply env rg rule ctx ro = Some (rule_holds env rg ctx ?v rule, r1)" "ro_ok L ctx r1" "same_kind ro r1"
    using ConditionChan_Apply_spec [OF assms(1,2) Cons.prems(1), of "ru_Condition rule" rg] Cons.prems(2)
    by (auto simp: Rule_Apply_def rule_holds_def)
  obtain r2 where "apply_rules env rg rules ctx r1 = Some (List.find (rule_holds env rg ctx ?v) rules, r2)" "ro_ok L ctx r2" "same_kind ro r2"
    using Cons.IH [OF r1(2)] Cons.prems(2) view_same [OF r1(3), of L ctx] same_kind_trans [OF r1(3)] by auto
  then show ?case using r1 by auto
qed (simp add: same_kind_def)

text \<open>The reference: the first rule that holds on the addresses of the target, then by the strategy on the resolved ones.\<close>

definition first_match :: "'s route_env \<Rightarrow> (gostring \<Rightarrow> go_error + netIP list) \<Rightarrow> 's Router \<Rightarrow> Context \<Rightarrow> Rule option" where
  "first_match env L r ctx =
     (let skip = GetSkipDNSResolve ctx; holds = rule_holds env (ro_registries r) ctx in
      if ro_domainStrategy r = Config_IpOnDemand \<and> \<not> skip then List.find (holds (resolved_ips L ctx)) (ro_rules r)
      else
        (case List.find (holds (orig_ips ctx)) (ro_rules r) of
           Some rule \<Rightarrow> Some rule
         | None \<Rightarrow>
             if ro_domainStrategy r = Config_IpIfNonMatch \<and> the (GetTargetDomain ctx) \<noteq> [] \<and> \<not> skip
             then List.find (holds (resolved_ips L ctx)) (ro_rules r) else None))"

lemma pick_first_match:
  assumes "ctx_ok ctx" "\<And>n d. re_dns env n d = L d" "\<forall>rule \<in> set (ro_rules r). list_all cond_ok (ru_Condition rule)"
  shows "\<exists>ro. pickRouteInternal env r ctx =
    Some (case first_match env L r ctx of Some rule \<Rightarrow> Inr rule | None \<Rightarrow> Inl ErrNoClue, ro)"
proof -
  let ?rg = "ro_registries r"
  have none: "ro_ok L ctx None" and fresh: "ro_ok L ctx (Some ContextWithDNSClient)"
    by (simp_all add: ro_ok_def res_ok_def ContextWithDNSClient_def)
  obtain d where d: "GetTargetDomain ctx = Some d" using assms(1) by (auto simp: ctx_ok_def)
  obtain a where a: "apply_rules env ?rg (ro_rules r) ctx None = Some (List.find (rule_holds env ?rg ctx (orig_ips ctx)) (ro_rules r), a)"
    using apply_rules_spec [OF assms(1,2) none assms(3), of ?rg] by (auto simp: view_of_def)
  obtain b where b: "apply_rules env ?rg (ro_rules r) ctx (Some ContextWithDNSClient) =
      Some (List.find (rule_holds env ?rg ctx (resolved_ips L ctx)) (ro_rules r), b)"
    using apply_rules_spec [OF assms(1,2) fresh assms(3), of ?rg] by (auto simp: view_of_def)
  show ?thesis
    using a b d by (cases "ro_domainStrategy r"; cases "GetSkipDNSResolve ctx")
      (auto simp: pickRouteInternal_def first_match_def split: option.splits)
qed

section \<open>Failing to load rules\<close>

lemma build_rule_frame:
  assumes "build_rule env rule r = Some (res, r')"
  shows "ro_rules r' = ro_rules r" "ro_balancers r' = ro_balancers r" "ro_heap r' = ro_heap r"
  using assms by (auto simp: build_rule_def Let_def split: bind_splits sum.splits prod.splits if_splits option.splits)

lemma reload_loop_fails:
  assumes "reload_loop env k rest r = Some (Some e, r')" "k \<le> length (ro_rules r)"
  shows "ro_rules r' = take k (ro_rules r)"
  using assms
proof (induction env k rest r rule: reload_loop.induct)
  case (2 env k rule rest r)
  show ?case
  proof (cases "RuleExists (rr_RuleTag rule) (ro_rules r)")
    case True
    then show ?thesis using "2.prems" by (auto simp: closeNewWebhooks_def)
  next
    case False
    then obtain rr r1 where b: "build_rule env rule r = Some (rr, r1)" using "2.prems"(1) by (auto split: bind_splits)
    note f = build_rule_frame [OF b]
    show ?thesis
    proof (cases rr)
      case (Inl e')
      then show ?thesis using "2.prems" False b f by (auto simp: closeNewWebhooks_def)
    next
      case (Inr x)
      have "ro_rules r' = take k (ro_rules (r1\<lparr>ro_rules := ro_rules r1 @ [x]\<rparr>))"
        using "2.IH" [OF False b refl Inr] "2.prems" False b f Inr by simp
      then show ?thesis using "2.prems"(2) f by simp
    qed
  qed
qed simp

lemma reload_loop_balancers:
  assumes "reload_loop env k rest r = Some (err, r')"
  shows "ro_balancers r' = ro_balancers r"
  using assms
proof (induction env k rest r rule: reload_loop.induct)
  case (2 env k rule rest r)
  show ?case
  proof (cases "RuleExists (rr_RuleTag rule) (ro_rules r)")
    case True
    then show ?thesis using "2.prems" by (auto simp: closeNewWebhooks_def)
  next
    case False
    then obtain rr r1 where b: "build_rule env rule r = Some (rr, r1)" using "2.prems" by (auto split: bind_splits)
    show ?thesis
      using "2.prems" "2.IH" [OF False b refl] False b build_rule_frame(2) [OF b]
      by (cases rr) (auto simp: closeNewWebhooks_def)
  qed
qed simp

lemma reload_balancers_frame:
  "reload_balancers env brs r = (err, r') \<Longrightarrow> ro_rules r' = ro_rules r \<and> ro_webhooks r' = ro_webhooks r \<and>
     ro_registries r' = ro_registries r \<and> (\<forall>tag. ro_balancers r tag \<noteq> None \<longrightarrow> ro_balancers r' tag \<noteq> None) \<and>
     (err = None \<longrightarrow> (\<forall>br \<in> set brs. ro_balancers r' (br_Tag br) \<noteq> None))"
proof (induction brs arbitrary: r)
  case (Cons br brs)
  show ?case
  proof (cases "ro_balancers r (br_Tag br) \<noteq> None")
    case True
    then show ?thesis using Cons.prems by auto
  next
    case False
    show ?thesis
    proof (cases "BalancingRule_Build (ge_lower (re_geo env)) br")
      case (Inl e)
      then show ?thesis using Cons.prems False by auto
    next
      case (Inr b)
      then have "reload_balancers env brs (add_balancer b (br_Tag br) r) = (err, r')" using Cons.prems False by simp
      from Cons.IH [OF this] show ?thesis by (auto simp: add_balancer_def)
    qed
  qed
qed simp

text \<open>
  C33. What a failed load of rules leaves behind. A failed extension leaves the rules as they were, and
  a failed replacement leaves no rule at all. But the balancers of a failed extension stay: when the
  balancers, at least one, had been loaded and a rule was at fault, the same extension with the rules corrected
  is refused, since its balancers are duplicates. (A replacement starts from an empty table of balancers, so a
  corrected replacement is not refused for this reason.)
\<close>

theorem reload_failure:
  assumes "ReloadRules env cfg shouldAppend r = Some (Some e, r')"
  shows "ro_rules r' = (if shouldAppend then ro_rules r else []) \<and>
    (shouldAppend \<and> fst (reload_balancers env (cf_BalancingRule cfg) r) = None \<and> cf_BalancingRule cfg \<noteq> [] \<and>
     cf_BalancingRule cfg' = cf_BalancingRule cfg \<longrightarrow>
       ReloadRules env cfg' True r' = Some (Some (ErrNew ''duplicate balancer tag''), r'))"
proof -
  define r0 where "r0 = (if \<not> shouldAppend
      then r\<lparr>ro_webhooks := close_all (ro_rules r) (ro_webhooks r), ro_balancers := Map.empty, ro_rules := []\<rparr> else r)"
  obtain err r2 where b: "reload_balancers env (cf_BalancingRule cfg) r0 = (err, r2)" by (cases "reload_balancers env (cf_BalancingRule cfg) r0")
  have step: "(if err \<noteq> None then Some (err, r2) else reload_loop env (length (ro_rules r2)) (cf_Rule cfg) r2) = Some (Some e, r')"
    using assms b by (simp add: ReloadRules_def r0_def [symmetric])
  have "ro_rules r2 = ro_rules r0" using reload_balancers_frame [OF b] by simp
  moreover have "ro_rules r' = ro_rules r2"
    using step reload_loop_fails [of env "length (ro_rules r2)" "cf_Rule cfg" r2 e r'] by (auto split: if_splits)
  ultimately have rules: "ro_rules r' = (if shouldAppend then ro_rules r else [])" by (simp add: r0_def)
  have "ReloadRules env cfg' True r' = Some (Some (ErrNew ''duplicate balancer tag''), r')"
    if app: shouldAppend and ok: "fst (reload_balancers env (cf_BalancingRule cfg) r) = None"
      and ne: "cf_BalancingRule cfg \<noteq> []" and same: "cf_BalancingRule cfg' = cf_BalancingRule cfg"
  proof -
    have "err = None" using ok b app by (simp add: r0_def)
    then have "reload_loop env (length (ro_rules r2)) (cf_Rule cfg) r2 = Some (Some e, r')" using step by simp
    then have "ro_balancers r' = ro_balancers r2" by (rule reload_loop_balancers)
    then have "ro_balancers r' (br_Tag (hd (cf_BalancingRule cfg))) \<noteq> None"
      using reload_balancers_frame [OF b] ne \<open>err = None\<close> by simp
    then show ?thesis using ne same by (cases "cf_BalancingRule cfg") (auto simp: ReloadRules_def)
  qed
  then show ?thesis using rules by blast
qed

section \<open>The invariant of the router\<close>

fun cond_in :: "'s registries \<Rightarrow> Condition \<Rightarrow> bool" where
  "cond_in rg (DomainCondition i) \<longleftrightarrow> i < length (dr_matchers (rg_Domain rg))"
| "cond_in rg (IPCondition i asType) \<longleftrightarrow> i < length (reg_matchers (rg_IP rg)) \<and> asType \<noteq> MatcherAsType_VlessRoute"
| "cond_in rg _ \<longleftrightarrow> True"

definition rg_le :: "'s registries \<Rightarrow> 's registries \<Rightarrow> bool" where
  "rg_le rg rg' \<longleftrightarrow> length (reg_matchers (rg_IP rg)) \<le> length (reg_matchers (rg_IP rg')) \<and>
     length (dr_matchers (rg_Domain rg)) \<le> length (dr_matchers (rg_Domain rg'))"

lemma rg_le_refl [simp]: "rg_le rg rg"
  by (simp add: rg_le_def)

lemma rg_le_trans: "rg_le a b \<Longrightarrow> rg_le b c \<Longrightarrow> rg_le a c"
  by (simp add: rg_le_def)

lemma cond_in_mono: "rg_le rg rg' \<Longrightarrow> cond_in rg c \<Longrightarrow> cond_in rg' c"
  by (cases c) (auto simp: rg_le_def)

lemma cond_in_ok: "cond_in rg c \<Longrightarrow> cond_ok c"
  by (cases c) auto

lemma NewIPMatcher_in:
  assumes "NewIPMatcher env rules asType rg = Some (res, rg')" "asType \<noteq> MatcherAsType_VlessRoute"
  shows "rg_le rg rg'" "res = Inr c \<Longrightarrow> cond_in rg' c"
  using assms by (auto simp: NewIPMatcher_def BuildIPMatcher_def rg_le_def Let_def split: bind_splits sum.splits)

lemma NewDomainMatcher_in:
  assumes "NewDomainMatcher env rules rg = Some (res, rg')"
  shows "rg_le rg rg'" "res = Inr c \<Longrightarrow> cond_in rg' c"
  using assms by (auto simp: NewDomainMatcher_def BuildDomainMatcher_def rg_le_def Let_def split: bind_splits sum.splits)

definition built_in :: "'s registries \<Rightarrow> (go_error + Condition list) \<times> 's registries \<Rightarrow> bool" where
  "built_in rg b \<longleftrightarrow> rg_le rg (snd b) \<and> (\<forall>cs. fst b = Inr cs \<longrightarrow> list_all (cond_in (snd b)) cs)"

lemma add_cond_in:
  assumes "built_in rg b" "add_cond wanted build b = Some b'"
    and "\<And>rg0 res rg1. build rg0 = Some (res, rg1) \<Longrightarrow> rg_le rg0 rg1 \<and> (\<forall>c. res = Inr c \<longrightarrow> cond_in rg1 c)"
  shows "built_in rg b'"
proof -
  obtain conds rg0 where b: "b = (conds, rg0)" by (cases b)
  show ?thesis
  proof (cases conds)
    case (Inl e)
    then show ?thesis using assms(1,2) b by (auto simp: add_cond_def)
  next
    case (Inr cs)
    show ?thesis
    proof (cases wanted)
      case True
      then obtain c rg1 where c: "build rg0 = Some (c, rg1)" "b' = (map_sum id (\<lambda>c. cs @ [c]) c, rg1)"
        using assms(2) b Inr by (auto simp: add_cond_def split: bind_splits)
      have le: "rg_le rg0 rg1" "\<forall>x. c = Inr x \<longrightarrow> cond_in rg1 x" using assms(3) [OF c(1)] by auto
      have "list_all (cond_in rg1) cs"
        using assms(1) b Inr cond_in_mono [OF le(1)] by (auto simp: built_in_def list_all_iff)
      then show ?thesis using assms(1) b c(2) le rg_le_trans by (cases c) (auto simp: built_in_def)
    next
      case False
      then show ?thesis using assms(1,2) b Inr by (auto simp: add_cond_def)
    qed
  qed
qed

lemma plain_in:
  "list_all (cond_in rg) (port_cond l asType)" "cond_in rg (NewInboundTagMatcher ts)" "cond_in rg (NewProtocolMatcher ps)"
  "cond_in rg (NewUserMatcher genv us)" "cond_in rg (NewProcessNameMatcher env ns)"
  by (auto simp: port_cond_def NewPortMatcher_def NewInboundTagMatcher_def NewProtocolMatcher_def NewUserMatcher_def
      NewProcessNameMatcher_def split: option.splits prod.splits)

lemma BuildCondition_in:
  assumes "BuildCondition env rr rg = Some b"
  shows "built_in rg b"
proof -
  define cs0 where "cs0 = (if rr_InboundTag rr \<noteq> [] then [NewInboundTagMatcher (rr_InboundTag rr)] else []) @
       (if rr_Networks rr \<noteq> [] then [NetworkCondition (NewNetworkMatcher (rr_Networks rr))] else []) @
       (if rr_Protocol rr \<noteq> [] then [NewProtocolMatcher (rr_Protocol rr)] else []) @
       port_cond (rr_PortList rr) MatcherAsType_Target @
       port_cond (rr_SourcePortList rr) MatcherAsType_Source @
       port_cond (rr_LocalPortList rr) MatcherAsType_Local @
       port_cond (rr_VlessRouteList rr) MatcherAsType_VlessRoute @
       (if rr_UserEmail rr \<noteq> [] then [NewUserMatcher (re_geo env) (rr_UserEmail rr)] else [])"
  obtain keys b1 b2 b3 b4 where
      "compile_keys (re_geo env) (rr_Attributes rr) [] = Some keys"
    and b1: "add_cond (rr_Ip rr \<noteq> []) (NewIPMatcher env (rr_Ip rr) MatcherAsType_Target)
        (Inr (cs0 @ (if rr_Attributes rr \<noteq> [] then [AttributeCondition keys] else [])), rg) = Some b1"
    and b2: "add_cond (rr_SourceIp rr \<noteq> []) (NewIPMatcher env (rr_SourceIp rr) MatcherAsType_Source) b1 = Some b2"
    and b3: "add_cond (rr_LocalIp rr \<noteq> []) (NewIPMatcher env (rr_LocalIp rr) MatcherAsType_Local) b2 = Some b3"
    and b4: "add_cond (rr_Domain rr \<noteq> []) (NewDomainMatcher env (rr_Domain rr)) b3 = Some b4"
    and b: "b = (case fst b4 of
         Inl e \<Rightarrow> Inl e
       | Inr cs \<Rightarrow>
           let cs = cs @ (if rr_Process rr \<noteq> [] then [NewProcessNameMatcher env (rr_Process rr)] else []) in
           if length cs = 0 then Inl (ErrNew ''this rule has no effective fields'') else Inr cs, snd b4)"
    using assms unfolding BuildCondition_def Let_def cs0_def [symmetric] by (auto split: bind_splits)
  have i0: "built_in rg (Inr (cs0 @ (if rr_Attributes rr \<noteq> [] then [AttributeCondition keys] else [])), rg)"
    by (auto simp: built_in_def cs0_def plain_in)
  have ip: "rg_le rg0 rg1 \<and> (\<forall>c. res = Inr c \<longrightarrow> cond_in rg1 c)"
    if "NewIPMatcher env rules t rg0 = Some (res, rg1)" "t \<noteq> MatcherAsType_VlessRoute" for rules t rg0 res rg1
    using NewIPMatcher_in [OF that] by blast
  have dm: "rg_le rg0 rg1 \<and> (\<forall>c. res = Inr c \<longrightarrow> cond_in rg1 c)"
    if "NewDomainMatcher env rules rg0 = Some (res, rg1)" for rules rg0 res rg1
    using NewDomainMatcher_in [OF that] by blast
  have i1: "built_in rg b1" by (rule add_cond_in [OF i0 b1], erule ip) simp
  have i2: "built_in rg b2" by (rule add_cond_in [OF i1 b2], erule ip) simp
  have i3: "built_in rg b3" by (rule add_cond_in [OF i2 b3], erule ip) simp
  have "built_in rg b4" by (rule add_cond_in [OF i3 b4], erule dm)
  then show ?thesis unfolding b by (auto simp: built_in_def plain_in Let_def split: sum.splits)
qed

definition rule_webhooks :: "Rule list \<Rightarrow> nat list" where
  "rule_webhooks rules = List.map_filter ru_Webhook rules"

lemma rule_webhooks_simps [simp]:
  "rule_webhooks [] = []" "rule_webhooks (xs @ ys) = rule_webhooks xs @ rule_webhooks ys"
  "rule_webhooks [r] = (case ru_Webhook r of None \<Rightarrow> [] | Some i \<Rightarrow> [i])"
  by (simp_all add: rule_webhooks_def List.map_filter_def split: option.split)

lemma set_rule_webhooks: "i \<in> set (rule_webhooks rules) \<longleftrightarrow> (\<exists>rule \<in> set rules. ru_Webhook rule = Some i)"
  by (force simp: rule_webhooks_def List.map_filter_def)

lemma rule_webhooks_mono: "set rules \<subseteq> set rules' \<Longrightarrow> set (rule_webhooks rules) \<subseteq> set (rule_webhooks rules')"
  by (auto simp: set_rule_webhooks subset_iff)

lemma mset_rule_webhooks: "mset rules = mset rules' \<Longrightarrow> mset (rule_webhooks rules) = mset (rule_webhooks rules')"
  by (simp add: rule_webhooks_def List.map_filter_def mset_filter)

definition webhooks_inv :: "Rule list \<Rightarrow> bool list \<Rightarrow> bool" where
  "webhooks_inv rules ws \<longleftrightarrow> distinct (rule_webhooks rules) \<and>
     (\<forall>rule \<in> set rules. \<forall>i. ru_Webhook rule = Some i \<longrightarrow> i < length ws) \<and>
     (\<forall>i < length ws. \<not> ws ! i \<longrightarrow> (\<exists>rule \<in> set rules. ru_Webhook rule = Some i))"

definition rule_inv :: "'s registries \<Rightarrow> Balancer list \<Rightarrow> Rule \<Rightarrow> bool" where
  "rule_inv rg heap rule \<longleftrightarrow> list_all (cond_in rg) (ru_Condition rule) \<and> (\<forall>i. ru_Balancer rule = Some i \<longrightarrow> i < length heap)"

definition router_inv :: "'s Router \<Rightarrow> bool" where
  "router_inv r \<longleftrightarrow> webhooks_inv (ro_rules r) (ro_webhooks r) \<and> list_all (rule_inv (ro_registries r) (ro_heap r)) (ro_rules r) \<and>
     (\<forall>tag i. ro_balancers r tag = Some i \<longrightarrow> i < length (ro_heap r))"

lemma length_close_all [simp]: "length (close_all rules ws) = length ws"
proof (induction rules arbitrary: ws)
  case (Cons rule rules)
  have "length (webhook_Close wh ws) = length ws" for wh by (auto simp: webhook_Close_def split: option.splits)
  then show ?case using Cons [of "webhook_Close (ru_Webhook rule) ws"] by (simp add: close_all_def)
qed (simp add: close_all_def)

lemma close_all_nth:
  "i < length ws \<Longrightarrow> close_all rules ws ! i \<longleftrightarrow> ws ! i \<or> (\<exists>rule \<in> set rules. ru_Webhook rule = Some i)"
proof (induction rules arbitrary: ws)
  case (Cons rule rules)
  have "ws[x := True] ! i \<longleftrightarrow> ws ! i \<or> x = i" for x using Cons.prems by (cases "x = i") auto
  then have "webhook_Close wh ws ! i \<longleftrightarrow> ws ! i \<or> wh = Some i" and "length (webhook_Close wh ws) = length ws" for wh
    by (auto simp: webhook_Close_def split: option.splits)
  then show ?case using Cons.IH [of "webhook_Close (ru_Webhook rule) ws"] Cons.prems by (auto simp: close_all_def)
qed (simp add: close_all_def)

text \<open>Closing the webhooks of the rules that are dropped keeps the invariant for the rules that stay.\<close>

lemma webhooks_drop:
  assumes "webhooks_inv (keep @ gone) ws"
  shows "webhooks_inv keep (close_all gone ws)"
  using assms by (auto simp: webhooks_inv_def close_all_nth)

lemma webhooks_same: "webhooks_inv rules ws \<Longrightarrow> webhooks_inv rules (close_all rules ws)"
  by (auto simp: webhooks_inv_def close_all_nth)

lemma webhooks_mset: "mset rules = mset rules' \<Longrightarrow> webhooks_inv rules ws = webhooks_inv rules' ws"
proof -
  assume m: "mset rules = mset rules'"
  have "distinct (rule_webhooks rules) = distinct (rule_webhooks rules')"
    using mset_rule_webhooks [OF m] by (rule mset_eq_imp_distinct_iff)
  then show ?thesis unfolding webhooks_inv_def mset_eq_setD [OF m] by simp
qed

lemma webhooks_new:
  assumes "webhooks_inv rules ws" "NewWebhookNotifier cfg ws = (wh, ws')"
  shows "ru_Webhook rr = wh \<Longrightarrow> webhooks_inv (rules @ [rr]) ws'" "webhooks_inv rules (webhook_Close wh ws')"
proof -
  have fresh: "length ws \<notin> set (rule_webhooks rules)" using assms(1) by (auto simp: webhooks_inv_def set_rule_webhooks)
  show "webhooks_inv (rules @ [rr]) ws'" if rr: "ru_Webhook rr = wh"
  proof (cases wh)
    case None
    then have "ws' = ws" using assms(2) by (auto simp: NewWebhookNotifier_def split: option.splits if_splits)
    then show ?thesis using assms(1) rr None by (auto simp: webhooks_inv_def)
  next
    case (Some k)
    then have k: "k = length ws" "ws' = ws @ [False]"
      using assms(2) by (auto simp: NewWebhookNotifier_def split: option.splits if_splits)
    have "distinct (rule_webhooks (rules @ [rr]))" using assms(1) fresh rr Some k by (simp add: webhooks_inv_def)
    then show ?thesis using assms(1) rr Some k by (fastforce simp: webhooks_inv_def nth_append less_Suc_eq)
  qed
  show "webhooks_inv rules (webhook_Close wh ws')"
    using assms by (fastforce simp: NewWebhookNotifier_def webhook_Close_def webhooks_inv_def nth_append less_Suc_eq
        split: option.splits if_splits)
qed

lemma rule_inv_mono: "rg_le rg rg' \<Longrightarrow> length heap \<le> length heap' \<Longrightarrow> rule_inv rg heap rule \<Longrightarrow> rule_inv rg' heap' rule"
  using cond_in_mono by (fastforce simp: rule_inv_def list_all_iff)

lemma build_rule_inv:
  assumes "router_inv r" "build_rule env rule r = Some (res, r')"
  shows "case res of Inl e \<Rightarrow> router_inv r' | Inr rr \<Rightarrow> router_inv (r'\<lparr>ro_rules := ro_rules r' @ [rr]\<rparr>)"
proof -
  obtain cond rg where c: "BuildCondition env rule (ro_registries r) = Some (cond, rg)"
    using assms(2) by (auto simp: build_rule_def split: bind_splits)
  have le: "rg_le (ro_registries r) rg" and cs: "\<forall>cs. cond = Inr cs \<longrightarrow> list_all (cond_in rg) cs"
    using BuildCondition_in [OF c] by (auto simp: built_in_def)
  have old: "list_all (rule_inv rg (ro_heap r)) (ro_rules r)"
    using assms(1) rule_inv_mono [OF le order_refl] by (auto simp: router_inv_def list_all_iff)
  obtain wh ws where w: "NewWebhookNotifier (rr_Webhook rule) (ro_webhooks r) = (wh, ws)" by force
  have wi: "webhooks_inv (ro_rules r) (ro_webhooks r)" using assms(1) by (simp add: router_inv_def)
  note n = webhooks_new [OF wi w]
  have b: "ro_balancers r tag = Some i \<Longrightarrow> i < length (ro_heap r)" for tag i using assms(1) by (simp add: router_inv_def)
  show ?thesis
  proof (cases cond)
    case (Inl e)
    then show ?thesis using assms(2) c old wi b by (auto simp: build_rule_def router_inv_def)
  next
    case (Inr x)
    then show ?thesis using assms(2) c cs w old n b
      by (auto simp: build_rule_def router_inv_def rule_inv_def Let_def split: if_splits option.splits)
  qed
qed

lemma close_new_inv:
  assumes "router_inv r"
  shows "router_inv (closeNewWebhooks k r)"
proof -
  have "webhooks_inv (take k (ro_rules r) @ drop k (ro_rules r)) (ro_webhooks r)" using assms by (simp add: router_inv_def)
  from webhooks_drop [OF this] show ?thesis
    using assms by (auto simp: router_inv_def closeNewWebhooks_def list_all_iff dest: in_set_takeD)
qed

lemma closeWebhooks_inv: "router_inv r \<Longrightarrow> router_inv (closeWebhooks r)"
  using webhooks_same by (auto simp: router_inv_def closeWebhooks_def)

lemma init_rules_inv: "router_inv r \<Longrightarrow> init_rules env rules r = Some (err, r') \<Longrightarrow> router_inv r'"
proof (induction env rules r rule: init_rules.induct)
  case (2 env rule rest r)
  then obtain rr r1 where b: "build_rule env rule r = Some (rr, r1)" by (auto split: bind_splits)
  then show ?case using 2 build_rule_inv [OF "2.prems"(1) b] closeWebhooks_inv by (cases rr) auto
qed simp

lemma reload_loop_inv: "router_inv r \<Longrightarrow> reload_loop env k rules r = Some (err, r') \<Longrightarrow> router_inv r'"
proof (induction env k rules r rule: reload_loop.induct)
  case (2 env k rule rest r)
  show ?case
  proof (cases "RuleExists (rr_RuleTag rule) (ro_rules r)")
    case True
    then show ?thesis using 2 close_new_inv by auto
  next
    case False
    then obtain rr r1 where b: "build_rule env rule r = Some (rr, r1)" using "2.prems" by (auto split: bind_splits)
    then show ?thesis using 2 False build_rule_inv [OF "2.prems"(1) b] close_new_inv by (cases rr) auto
  qed
qed simp

lemma add_balancer_inv: "router_inv r \<Longrightarrow> router_inv (add_balancer b tag r)"
  using rule_inv_mono [OF rg_le_refl, of "ro_heap r" "ro_heap r @ [Balancer_InjectContext b]" "ro_registries r"]
  by (auto simp: router_inv_def add_balancer_def list_all_iff less_Suc_eq split: if_splits)

lemma init_balancers_inv: "router_inv r \<Longrightarrow> init_balancers env brs r = (err, r') \<Longrightarrow> router_inv r'"
  by (induction env brs r rule: init_balancers.induct) (auto simp: add_balancer_inv split: sum.splits)

lemma reload_balancers_inv: "router_inv r \<Longrightarrow> reload_balancers env brs r = (err, r') \<Longrightarrow> router_inv r'"
  by (induction env brs r rule: reload_balancers.induct) (auto simp: add_balancer_inv split: sum.splits if_splits)

lemma Router_Init_inv:
  assumes "Router_Init env config rg = Some (err, r)"
  shows "router_inv r"
proof -
  let ?r = "\<lparr>ro_domainStrategy = cf_DomainStrategy config, ro_rules = [], ro_balancers = Map.empty, ro_heap = [],
               ro_webhooks = [], ro_registries = rg\<rparr>"
  obtain e r1 where b: "init_balancers env (cf_BalancingRule config) ?r = (e, r1)" by force
  have "router_inv ?r" by (simp add: router_inv_def webhooks_inv_def)
  from init_balancers_inv [OF this b] have "router_inv r1" .
  then show ?thesis using assms b init_rules_inv by (auto simp: Router_Init_def split: if_splits)
qed

lemma ReloadRules_inv:
  assumes "router_inv r" "ReloadRules env config app r = Some (err, r')"
  shows "router_inv r'"
proof -
  let ?r = "if \<not> app then r\<lparr>ro_webhooks := close_all (ro_rules r) (ro_webhooks r), ro_balancers := Map.empty, ro_rules := []\<rparr> else r"
  obtain e r1 where b: "reload_balancers env (cf_BalancingRule config) ?r = (e, r1)" by force
  have "webhooks_inv [] (close_all (ro_rules r) (ro_webhooks r))"
    using webhooks_drop [of "[]" "ro_rules r" "ro_webhooks r"] assms(1) by (simp add: router_inv_def)
  then have "router_inv ?r" using assms(1) by (simp add: router_inv_def)
  from reload_balancers_inv [OF this b] have "router_inv r1" .
  then show ?thesis using assms(2) b reload_loop_inv by (auto simp: ReloadRules_def Let_def split: if_splits)
qed

lemma RemoveRule_inv:
  assumes "router_inv r"
  shows "router_inv (snd (RemoveRule tag r))"
proof -
  let ?keep = "filter (\<lambda>rule. ru_RuleTag rule \<noteq> tag) (ro_rules r)" and ?gone = "filter (\<lambda>rule. ru_RuleTag rule = tag) (ro_rules r)"
  have "webhooks_inv (?keep @ ?gone) (ro_webhooks r)"
    using assms webhooks_mset [of "?keep @ ?gone" "ro_rules r"] multiset_partition [of "mset (ro_rules r)" "\<lambda>rule. ru_RuleTag rule \<noteq> tag"]
    by (simp add: router_inv_def)
  from webhooks_drop [OF this] show ?thesis using assms by (auto simp: RemoveRule_def router_inv_def list_all_iff)
qed

lemma PickRoute_inv:
  assumes "router_inv r" "PickRoute env benv ctx r = Some (res, r')"
  shows "router_inv r'"
  using assms
  by (auto simp: PickRoute_def Rule_GetTag_def router_inv_def rule_inv_def list_all_iff split: bind_splits sum.splits option.splits)

lemma SetOverrideTarget_inv: "router_inv r \<Longrightarrow> router_inv (snd (SetOverrideTarget tag target r))"
  by (auto simp: SetOverrideTarget_def router_inv_def rule_inv_def list_all_iff split: option.splits)

lemma rebuild_loop_length: "rebuild_loop lib load ds c = Some (Inr ms, c') \<Longrightarrow> length ms = length ds"
  by (induction ds arbitrary: c ms c') (auto split: bind_splits sum.splits prod.splits)

lemma domain_rebuild_length: "domain_rebuild_loop mem env ds f = Some (Inr ms, f') \<Longrightarrow> length ms = length ds"
  by (induction ds arbitrary: f ms f') (auto split: bind_splits sum.splits prod.splits)

lemma geodata_reload_inv:
  assumes "router_inv r"
  shows "IPRegistry_Reload lib load (rg_IP (ro_registries r)) = Some (e, reg) \<Longrightarrow>
      router_inv (r\<lparr>ro_registries := (ro_registries r)\<lparr>rg_IP := reg\<rparr>\<rparr>)"
    and "DomainRegistry_Reload mem genv os (rg_Domain (ro_registries r)) = Some (e, dreg) \<Longrightarrow>
      router_inv (r\<lparr>ro_registries := (ro_registries r)\<lparr>rg_Domain := dreg\<rparr>\<rparr>)"
proof -
  have mono: "router_inv (r\<lparr>ro_registries := rg\<rparr>)" if "rg_le (ro_registries r) rg" for rg
    using assms rule_inv_mono [OF that order_refl] by (auto simp: router_inv_def list_all_iff)
  assume "IPRegistry_Reload lib load (rg_IP (ro_registries r)) = Some (e, reg)"
  then have "length (reg_matchers reg) = length (reg_matchers (rg_IP (ro_registries r)))"
    by (auto simp: IPRegistry_Reload_def dest!: rebuild_loop_length split: bind_splits sum.splits)
  then show "router_inv (r\<lparr>ro_registries := (ro_registries r)\<lparr>rg_IP := reg\<rparr>\<rparr>)" by (intro mono) (simp add: rg_le_def)
next
  have mono: "router_inv (r\<lparr>ro_registries := rg\<rparr>)" if "rg_le (ro_registries r) rg" for rg
    using assms rule_inv_mono [OF that order_refl] by (auto simp: router_inv_def list_all_iff)
  assume "DomainRegistry_Reload mem genv os (rg_Domain (ro_registries r)) = Some (e, dreg)"
  then have "length (dr_matchers dreg) = length (dr_matchers (rg_Domain (ro_registries r)))"
    by (auto simp: DomainRegistry_Reload_def dest!: domain_rebuild_length split: bind_splits sum.splits)
  then show "router_inv (r\<lparr>ro_registries := (ro_registries r)\<lparr>rg_Domain := dreg\<rparr>\<rparr>)" by (intro mono) (simp add: rg_le_def)
qed

lemma OverrideBalancer_inv: "router_inv r \<Longrightarrow> router_inv (snd (OverrideBalancer tag target r))"
  by (auto simp: OverrideBalancer_def router_inv_def rule_inv_def list_all_iff split: option.splits)

text \<open>
  The states of a router: after \<^verbatim>\<open>Init\<close>, successful or not, and any sequence of its operations and of
  reloads of the geodata, with other files, other answers and other observations at each step.
\<close>

inductive router_reach :: "'s Router \<Rightarrow> bool" where
  reach_init: "Router_Init env config rg = Some (err, r) \<Longrightarrow> router_reach r"
| reach_add: "router_reach r \<Longrightarrow> AddRule env config shouldAppend r = Some (err, r') \<Longrightarrow> router_reach r'"
| reach_remove: "router_reach r \<Longrightarrow> RemoveRule tag r = (err, r') \<Longrightarrow> router_reach r'"
| reach_close: "router_reach r \<Longrightarrow> router_reach (Router_Close r)"
| reach_pick: "router_reach r \<Longrightarrow> PickRoute env benv ctx r = Some (res, r') \<Longrightarrow> router_reach r'"
| reach_set_override: "router_reach r \<Longrightarrow> SetOverrideTarget tag target r = (err, r') \<Longrightarrow> router_reach r'"
| reach_override: "router_reach r \<Longrightarrow> OverrideBalancer tag target r = (err, r') \<Longrightarrow> router_reach r'"
| reach_ip_reload: "router_reach r \<Longrightarrow> IPRegistry_Reload lib load (rg_IP (ro_registries r)) = Some (err, reg) \<Longrightarrow>
    router_reach (r\<lparr>ro_registries := (ro_registries r)\<lparr>rg_IP := reg\<rparr>\<rparr>)"
| reach_domain_reload: "router_reach r \<Longrightarrow> DomainRegistry_Reload mem genv os (rg_Domain (ro_registries r)) = Some (err, dreg) \<Longrightarrow>
    router_reach (r\<lparr>ro_registries := (ro_registries r)\<lparr>rg_Domain := dreg\<rparr>\<rparr>)"

lemma AddRule_inv: "router_inv r \<Longrightarrow> AddRule env config app r = Some (err, r') \<Longrightarrow> router_inv r'"
  by (auto simp: AddRule_def dest: ReloadRules_inv split: sum.splits option.splits)

lemma router_reach_inv: "router_reach r \<Longrightarrow> router_inv r"
proof (induction rule: router_reach.induct)
  case (reach_remove r tag err r')
  then show ?case using RemoveRule_inv [of r tag] by simp
next
  case (reach_set_override r tag target err r')
  then show ?case using SetOverrideTarget_inv [of r tag target] by simp
next
  case (reach_override r tag target err r')
  then show ?case using OverrideBalancer_inv [of r tag target] by simp
qed (auto simp: Router_Close_def intro: Router_Init_inv AddRule_inv closeWebhooks_inv PickRoute_inv geodata_reload_inv)

section \<open>Open webhooks\<close>

text \<open>
  Until it is closed, a router whose \<^verbatim>\<open>Init\<close> succeeded has the webhooks of all its rules open.
\<close>

definition webhooks_open :: "'s Router \<Rightarrow> bool" where
  "webhooks_open r \<longleftrightarrow> (\<forall>i \<in> set (rule_webhooks (ro_rules r)). \<not> ro_webhooks r ! i)"

inductive router_live :: "'s Router \<Rightarrow> bool" where
  live_init: "Router_Init env config rg = Some (None, r) \<Longrightarrow> router_live r"
| live_add: "router_live r \<Longrightarrow> AddRule env config shouldAppend r = Some (err, r') \<Longrightarrow> router_live r'"
| live_remove: "router_live r \<Longrightarrow> RemoveRule tag r = (err, r') \<Longrightarrow> router_live r'"
| live_pick: "router_live r \<Longrightarrow> PickRoute env benv ctx r = Some (res, r') \<Longrightarrow> router_live r'"
| live_set_override: "router_live r \<Longrightarrow> SetOverrideTarget tag target r = (err, r') \<Longrightarrow> router_live r'"
| live_override: "router_live r \<Longrightarrow> OverrideBalancer tag target r = (err, r') \<Longrightarrow> router_live r'"
| live_ip_reload: "router_live r \<Longrightarrow> IPRegistry_Reload lib load (rg_IP (ro_registries r)) = Some (err, reg) \<Longrightarrow>
    router_live (r\<lparr>ro_registries := (ro_registries r)\<lparr>rg_IP := reg\<rparr>\<rparr>)"
| live_domain_reload: "router_live r \<Longrightarrow> DomainRegistry_Reload mem genv os (rg_Domain (ro_registries r)) = Some (err, dreg) \<Longrightarrow>
    router_live (r\<lparr>ro_registries := (ro_registries r)\<lparr>rg_Domain := dreg\<rparr>\<rparr>)"

lemma router_live_inv: "router_live r \<Longrightarrow> router_inv r"
proof (induction rule: router_live.induct)
  case (live_remove r tag err r')
  then show ?case using RemoveRule_inv [of r tag] by simp
next
  case (live_set_override r tag target err r')
  then show ?case using SetOverrideTarget_inv [of r tag target] by simp
next
  case (live_override r tag target err r')
  then show ?case using OverrideBalancer_inv [of r tag target] by simp
qed (auto intro: Router_Init_inv AddRule_inv PickRoute_inv geodata_reload_inv)

lemma close_others:
  assumes "webhooks_inv (keep @ gone) ws" "\<forall>i \<in> set (rule_webhooks keep). \<not> ws ! i"
  shows "\<forall>i \<in> set (rule_webhooks keep). \<not> close_all gone ws ! i"
proof
  fix i assume i: "i \<in> set (rule_webhooks keep)"
  have "i < length ws" using i assms(1) by (auto simp: webhooks_inv_def set_rule_webhooks)
  moreover have "i \<notin> set (rule_webhooks gone)" using i assms(1) by (auto simp: webhooks_inv_def)
  ultimately show "\<not> close_all gone ws ! i" using assms(2) i by (simp add: close_all_nth set_rule_webhooks)
qed

lemma build_rule_open:
  assumes "router_inv r" "webhooks_open r" "build_rule env rule r = Some (res, r')"
  shows "case res of Inl e \<Rightarrow> webhooks_open r' | Inr rr \<Rightarrow> webhooks_open (r'\<lparr>ro_rules := ro_rules r' @ [rr]\<rparr>)"
proof -
  have "\<forall>i \<in> set (rule_webhooks (ro_rules r)). i < length (ro_webhooks r)"
    using assms(1) by (auto simp: router_inv_def webhooks_inv_def set_rule_webhooks)
  then show ?thesis
    using assms(2,3)
    by (auto simp: build_rule_def webhooks_open_def NewWebhookNotifier_def webhook_Close_def nth_append Let_def
        split: bind_splits sum.splits option.splits if_splits)
qed

lemma close_new_open:
  assumes "router_inv r" "webhooks_open r"
  shows "webhooks_open (closeNewWebhooks k r)"
proof -
  have split: "take k (ro_rules r) @ drop k (ro_rules r) = ro_rules r" by simp
  have "\<forall>i \<in> set (rule_webhooks (take k (ro_rules r))). \<not> ro_webhooks r ! i"
    using assms(2) rule_webhooks_mono [OF set_take_subset] unfolding webhooks_open_def by blast
  from close_others [OF _ this, of "drop k (ro_rules r)", unfolded split] show ?thesis
    using assms(1) by (simp add: webhooks_open_def closeNewWebhooks_def router_inv_def)
qed

lemma init_rules_open:
  "router_inv r \<Longrightarrow> webhooks_open r \<Longrightarrow> init_rules env rules r = Some (None, r') \<Longrightarrow> webhooks_open r'"
proof (induction env rules r rule: init_rules.induct)
  case (2 env rule rest r)
  then obtain rr r1 where b: "build_rule env rule r = Some (rr, r1)" by (auto split: bind_splits)
  then show ?case using 2 build_rule_inv [OF "2.prems"(1) b] build_rule_open [OF "2.prems"(1,2) b] by (cases rr) auto
qed simp

lemma reload_loop_open:
  "router_inv r \<Longrightarrow> webhooks_open r \<Longrightarrow> reload_loop env k rules r = Some (err, r') \<Longrightarrow> webhooks_open r'"
proof (induction env k rules r rule: reload_loop.induct)
  case (2 env k rule rest r)
  show ?case
  proof (cases "RuleExists (rr_RuleTag rule) (ro_rules r)")
    case True
    then show ?thesis using 2 close_new_open by auto
  next
    case False
    then obtain rr r1 where b: "build_rule env rule r = Some (rr, r1)" using "2.prems" by (auto split: bind_splits)
    then show ?thesis
      using 2 False build_rule_inv [OF "2.prems"(1) b] build_rule_open [OF "2.prems"(1,2) b] close_new_open by (cases rr) auto
  qed
qed simp

lemma init_balancers_frame:
  "init_balancers env brs r = (err, r') \<Longrightarrow> ro_rules r' = ro_rules r \<and> ro_webhooks r' = ro_webhooks r"
  by (induction env brs r rule: init_balancers.induct) (auto simp: add_balancer_def split: sum.splits)

lemma Router_Init_open:
  assumes "Router_Init env config rg = Some (None, r)"
  shows "webhooks_open r"
proof -
  let ?r = "\<lparr>ro_domainStrategy = cf_DomainStrategy config, ro_rules = [], ro_balancers = Map.empty, ro_heap = [],
               ro_webhooks = [], ro_registries = rg\<rparr>"
  obtain e r1 where b: "init_balancers env (cf_BalancingRule config) ?r = (e, r1)" by force
  have "router_inv ?r" by (simp add: router_inv_def webhooks_inv_def)
  from init_balancers_inv [OF this b] have "router_inv r1" .
  moreover have "webhooks_open r1" using init_balancers_frame [OF b] by (simp add: webhooks_open_def)
  ultimately show ?thesis using assms b init_rules_open by (auto simp: Router_Init_def split: if_splits)
qed

lemma ReloadRules_open:
  assumes "router_inv r" "webhooks_open r" "ReloadRules env config app r = Some (err, r')"
  shows "webhooks_open r'"
proof -
  let ?r = "if \<not> app then r\<lparr>ro_webhooks := close_all (ro_rules r) (ro_webhooks r), ro_balancers := Map.empty, ro_rules := []\<rparr> else r"
  obtain e r1 where b: "reload_balancers env (cf_BalancingRule config) ?r = (e, r1)" by force
  have "webhooks_inv [] (close_all (ro_rules r) (ro_webhooks r))"
    using webhooks_drop [of "[]" "ro_rules r" "ro_webhooks r"] assms(1) by (simp add: router_inv_def)
  then have "router_inv ?r" using assms(1) by (simp add: router_inv_def)
  from reload_balancers_inv [OF this b] have "router_inv r1" .
  moreover have "webhooks_open r1" using reload_balancers_frame [OF b] assms(2) by (auto simp: webhooks_open_def)
  ultimately show ?thesis using assms(3) b reload_loop_open by (auto simp: ReloadRules_def Let_def split: if_splits)
qed

lemma RemoveRule_open:
  assumes "router_inv r" "webhooks_open r"
  shows "webhooks_open (snd (RemoveRule tag r))"
proof -
  let ?keep = "filter (\<lambda>rule. ru_RuleTag rule \<noteq> tag) (ro_rules r)" and ?gone = "filter (\<lambda>rule. ru_RuleTag rule = tag) (ro_rules r)"
  have "webhooks_inv (?keep @ ?gone) (ro_webhooks r)"
    using assms(1) webhooks_mset [of "?keep @ ?gone" "ro_rules r"] multiset_partition [of "mset (ro_rules r)" "\<lambda>rule. ru_RuleTag rule \<noteq> tag"]
    by (simp add: router_inv_def)
  moreover have "\<forall>i \<in> set (rule_webhooks ?keep). \<not> ro_webhooks r ! i" 
    using assms(2) rule_webhooks_mono [OF filter_is_subset] unfolding webhooks_open_def by blast
  ultimately show ?thesis using close_others [of ?keep ?gone] assms(2) by (auto simp: RemoveRule_def webhooks_open_def)
qed

lemma router_live_open: "router_live r \<Longrightarrow> webhooks_open r"
proof (induction rule: router_live.induct)
  case (live_add r env config app err r')
  then show ?case using router_live_inv [OF live_add(1)]
    by (auto simp: AddRule_def dest: ReloadRules_open split: sum.splits option.splits)
next
  case (live_remove r tag err r')
  then show ?case using RemoveRule_open [OF router_live_inv [OF live_remove(1)], of tag] by simp
next
  case (live_pick r env benv ctx res r')
  then show ?case
    by (auto simp: PickRoute_def Rule_GetTag_def webhooks_open_def split: bind_splits sum.splits option.splits)
next
  case (live_set_override r tag target err r')
  then show ?case by (auto simp: SetOverrideTarget_def webhooks_open_def split: option.splits)
next
  case (live_override r tag target err r')
  then show ?case by (auto simp: OverrideBalancer_def webhooks_open_def split: option.splits)
next
  case (live_init env config rg r)
  then show ?case by (rule Router_Init_open)
qed (simp_all add: webhooks_open_def)

text \<open>
  C10. The webhooks of a router follow its rules. In every state that a router reaches by any sequence of
  loads that succeed or fail, removals, picks, overrides, geodata reloads and closings, the webhooks of the rules
  exist and no two rules share one, a webhook that is still open belongs to a rule, and closing the router
  leaves none open. A router whose \<^verbatim>\<open>Init\<close> succeeded and that was not closed has open exactly the webhooks of its
  present rules. In every state the matchers of the rules are in the registries, and the balancers of the rules and
  of the tags exist.
\<close>

theorem router_invariant:
  assumes "router_reach r"
  shows "distinct (rule_webhooks (ro_rules r)) \<and>
    (\<forall>rule \<in> set (ro_rules r). \<forall>i. ru_Webhook rule = Some i \<longrightarrow> i < length (ro_webhooks r)) \<and>
    (\<forall>i < length (ro_webhooks r). \<not> ro_webhooks r ! i \<longrightarrow> (\<exists>rule \<in> set (ro_rules r). ru_Webhook rule = Some i)) \<and>
    list_all (\<lambda>closed. closed) (ro_webhooks (Router_Close r)) \<and>
    (router_live r \<longrightarrow> (\<forall>i < length (ro_webhooks r). \<not> ro_webhooks r ! i \<longleftrightarrow> (\<exists>rule \<in> set (ro_rules r). ru_Webhook rule = Some i))) \<and>
    (\<forall>rule \<in> set (ro_rules r). list_all (cond_in (ro_registries r)) (ru_Condition rule) \<and>
      (\<forall>i. ru_Balancer rule = Some i \<longrightarrow> i < length (ro_heap r))) \<and>
    (\<forall>tag i. ro_balancers r tag = Some i \<longrightarrow> i < length (ro_heap r))"
proof -
  have inv: "router_inv r" using assms by (rule router_reach_inv)
  then have closed: "list_all (\<lambda>closed. closed) (ro_webhooks (Router_Close r))"
    by (simp add: Router_Close_def closeWebhooks_def list_all_length close_all_nth router_inv_def webhooks_inv_def) blast
  have webhooks: "distinct (rule_webhooks (ro_rules r))"
      "\<forall>rule \<in> set (ro_rules r). \<forall>i. ru_Webhook rule = Some i \<longrightarrow> i < length (ro_webhooks r)"
      "\<forall>i < length (ro_webhooks r). \<not> ro_webhooks r ! i \<longrightarrow> (\<exists>rule \<in> set (ro_rules r). ru_Webhook rule = Some i)"
    using inv unfolding router_inv_def webhooks_inv_def by blast+
  have live: "\<forall>i < length (ro_webhooks r). \<not> ro_webhooks r ! i \<longleftrightarrow> (\<exists>rule \<in> set (ro_rules r). ru_Webhook rule = Some i)"
    if "router_live r"
    using router_live_open [OF that] webhooks(3) unfolding webhooks_open_def set_rule_webhooks [symmetric] by blast
  have refs: "\<forall>rule \<in> set (ro_rules r). list_all (cond_in (ro_registries r)) (ru_Condition rule) \<and>
        (\<forall>i. ru_Balancer rule = Some i \<longrightarrow> i < length (ro_heap r))"
      "\<forall>tag i. ro_balancers r tag = Some i \<longrightarrow> i < length (ro_heap r)"
    using inv unfolding router_inv_def rule_inv_def list_all_iff by blast+
  show ?thesis by (intro conjI webhooks refs closed impI live)
qed

text \<open>
  C9. The router picks the first rule that holds. In every state a router reaches, for a context whose addresses are set, and a DNS client
  that does not change its answers, picking a route returns without a panic the first rule whose conditions
  all hold on the addresses of the target (the resolved ones under \<^verbatim>\<open>IpOnDemand\<close>), after them, under
  \<^verbatim>\<open>IpIfNonMatch\<close> and for a target with a domain, the first one that holds on the resolved addresses, and
  \<^verbatim>\<open>ErrNoClue\<close> if there is none; the order of lookups and the cache of the resolving context do not matter.
\<close>

theorem route_first_match:
  assumes "router_reach r" "ctx_ok ctx" "\<And>n d. re_dns env n d = L d"
  shows "\<exists>ro. pickRouteInternal env r ctx =
    Some (case first_match env L r ctx of Some rule \<Rightarrow> Inr rule | None \<Rightarrow> Inl ErrNoClue, ro)"
proof (rule pick_first_match [OF assms(2,3)])
  show "\<forall>rule \<in> set (ro_rules r). list_all cond_ok (ru_Condition rule)"
    using router_reach_inv [OF assms(1)] by (auto simp: router_inv_def rule_inv_def list_all_iff intro: cond_in_ok)
qed

section \<open>Witnesses\<close>

definition ex_env :: "netip_Prefix list route_env" where
  "ex_env = \<lparr>re_geo = ex_geo_env, re_netipx = list_netipx, re_load = ex_load, re_mem = (\<lambda>_ _. 0), re_dns = (\<lambda>_ _. Inr [[10, 0, 0, 1]]),
     re_FindProcess = (\<lambda>_ _ _ _ _. Inl EOF), re_Executable = None, re_Getpid = 1, re_ToSlash = (\<lambda>s. s)\<rparr>"

definition ex_rg :: "netip_Prefix list registries" where
  "ex_rg = \<lparr>rg_IP = \<lparr>reg_factory = Map.empty, reg_matchers = []\<rparr>, rg_Domain = newDomainRegistry ''linux''\<rparr>"

definition ex_rule :: "gostring \<Rightarrow> Network list \<Rightarrow> RoutingRule" where
  "ex_rule tag ns = \<lparr>rr_Tag = tag, rr_BalancingTag = [], rr_RuleTag = tag, rr_InboundTag = [], rr_Networks = ns, rr_Protocol = [],
     rr_PortList = None, rr_SourcePortList = None, rr_LocalPortList = None, rr_VlessRouteList = None, rr_UserEmail = [],
     rr_Attributes = [], rr_Ip = [], rr_SourceIp = [], rr_LocalIp = [], rr_Domain = [], rr_Process = [], rr_Webhook = Some [104]\<rparr>"

definition ex_cfg :: "RoutingRule list \<Rightarrow> Router_Config" where
  "ex_cfg rules = \<lparr>cf_DomainStrategy = Config_IpIfNonMatch, cf_Rule = rules,
     cf_BalancingRule = [\<lparr>br_Tag = [98], br_OutboundSelector = [], br_Strategy = [], br_StrategySettings = Inr None, br_FallbackTag = []\<rparr>]\<rparr>"

definition ex_router :: "netip_Prefix list Router" where
  "ex_router = \<lparr>ro_domainStrategy = Config_IpIfNonMatch, ro_rules =
       [\<lparr>ru_Tag = [1], ru_RuleTag = [1], ru_Balancer = None, ru_Condition = [NetworkCondition (NewNetworkMatcher [Network_UDP])], ru_Webhook = Some 0\<rparr>,
        \<lparr>ru_Tag = [2], ru_RuleTag = [2], ru_Balancer = None, ru_Condition = [NetworkCondition (NewNetworkMatcher [Network_TCP])], ru_Webhook = Some 1\<rparr>],
     ro_balancers = [[98] \<mapsto> 0],
     ro_heap = [\<lparr>ba_selectors = [], ba_strategy = Random \<lparr>rd_FallbackTag = [], rd_observatory = False\<rparr>, ba_fallbackTag = [], ba_override = []\<rparr>],
     ro_webhooks = [False, False], ro_registries = ex_rg\<rparr>"

definition ex_ctx :: Context where
  "ex_ctx = \<lparr>cx_Inbound = None, cx_Outbound = Some \<lparr>ob_Target = TCPDestination (Some (domainAddress (str ''ab''))) 80,
     ob_RouteTarget = zero_Destination\<rparr>, cx_Content = None\<rparr>"

lemma ex_env_geo [simp]: "re_geo ex_env = ex_geo_env"
  by (simp add: ex_env_def)

lemma ex_rule_tag [simp]: "rr_RuleTag (ex_rule tag ns) = tag"
  by (simp add: ex_rule_def)

lemma ex_balancer:
  "BalancingRule_Build uni \<lparr>br_Tag = [98], br_OutboundSelector = [], br_Strategy = [], br_StrategySettings = Inr None, br_FallbackTag = []\<rparr> =
     Inr \<lparr>ba_selectors = [], ba_strategy = Random \<lparr>rd_FallbackTag = [], rd_observatory = False\<rparr>, ba_fallbackTag = [], ba_override = []\<rparr>"
  by (simp add: BalancingRule_Build_def ToLower_def ToLower_ascii_def str_def)

lemma ex_build_rule:
  "ns \<noteq> [] \<Longrightarrow> build_rule ex_env (ex_rule tag ns) r =
     Some (Inr \<lparr>ru_Tag = tag, ru_RuleTag = tag, ru_Balancer = None, ru_Condition = [NetworkCondition (NewNetworkMatcher ns)],
       ru_Webhook = Some (length (ro_webhooks r))\<rparr>, r\<lparr>ro_webhooks := ro_webhooks r @ [False]\<rparr>)"
  by (simp add: build_rule_def BuildCondition_def ex_rule_def add_cond_def port_cond_def NewWebhookNotifier_def)

lemma ex_build_fails: "build_rule ex_env (ex_rule tag []) r = Some (Inl (ErrNew ''this rule has no effective fields''), r)"
  by (simp add: build_rule_def BuildCondition_def ex_rule_def add_cond_def port_cond_def)

lemma ex_init: "Router_Init ex_env (ex_cfg [ex_rule [1] [Network_UDP], ex_rule [2] [Network_TCP]]) ex_rg = Some (None, ex_router)"
  by (simp add: Router_Init_def ex_cfg_def ex_build_rule ex_balancer add_balancer_def ex_router_def Balancer_InjectContext_def
      Random_InjectContext_def)

theorem reload_failure_witness:
  "\<exists>r'. ReloadRules ex_env (ex_cfg [ex_rule [3] []]) True (ex_router\<lparr>ro_balancers := Map.empty\<rparr>) =
      Some (Some (ErrNew ''this rule has no effective fields''), r') \<and> length (ro_rules r') = 2 \<and>
    ReloadRules ex_env (ex_cfg [ex_rule [3] [Network_TCP]]) True r' = Some (Some (ErrNew ''duplicate balancer tag''), r')"
proof -
  let ?r = "ex_router\<lparr>ro_balancers := Map.empty\<rparr>"
  let ?r' = "closeNewWebhooks 2 (add_balancer \<lparr>ba_selectors = [], ba_strategy = Random \<lparr>rd_FallbackTag = [], rd_observatory = False\<rparr>,
      ba_fallbackTag = [], ba_override = []\<rparr> [98] ?r)"
  have b: "fst (reload_balancers ex_env (cf_BalancingRule (ex_cfg rules)) ?r) = None" for rules
    by (simp add: ex_cfg_def ex_balancer)
  have fail: "ReloadRules ex_env (ex_cfg [ex_rule [3] []]) True ?r = Some (Some (ErrNew ''this rule has no effective fields''), ?r')"
    by (simp add: ReloadRules_def ex_cfg_def ex_balancer ex_build_fails RuleExists_def ex_router_def add_balancer_def numeral_2_eq_2)
  from reload_failure [OF fail, of "ex_cfg [ex_rule [3] [Network_TCP]]"] show ?thesis
    using fail b by (auto simp: ex_cfg_def ex_router_def)
qed

lemma ex_ctx_ok: "ctx_ok ex_ctx"
  by (simp add: ctx_ok_def ex_ctx_def GetSourceIPs_def GetLocalIPs_def Context_GetTargetIPs_def GetTargetDomain_def dest_IPs_def
      TCPDestination_def zero_Destination_def Destination_IsValid_def IsIP_def)

theorem route_first_match_witness:
  "\<exists>ro. pickRouteInternal ex_env ex_router ex_ctx = Some (Inr (ro_rules ex_router ! 1), ro)"
proof -
  have "first_match ex_env (\<lambda>d. Inr [[10, 0, 0, 1]]) ex_router ex_ctx = Some (ro_rules ex_router ! 1)"
    by (simp add: first_match_def ex_router_def ex_ctx_def rule_holds_def GetSkipDNSResolve_def GetNetwork_def NewNetworkMatcher_def
        TCPDestination_def numeral_eq_Suc)
  then show ?thesis
    using route_first_match [OF reach_init [OF ex_init] ex_ctx_ok, of ex_env "\<lambda>d. Inr [[10, 0, 0, 1]]"]
    by (simp add: ex_env_def)
qed

theorem router_invariant_witness:
  "\<not> ro_webhooks ex_router ! 0 \<and> \<not> ro_webhooks ex_router ! 1 \<and> rule_webhooks (ro_rules ex_router) = [0, 1] \<and>
    list_all (\<lambda>closed. closed) (ro_webhooks (Router_Close ex_router))"
  using router_invariant [OF reach_init [OF ex_init]] live_init [OF ex_init]
  by (auto simp: ex_router_def rule_webhooks_def List.map_filter_def)

end
