(* ===== verification/Kcp_Segment.thy ===== *)
theory Kcp_Segment
  imports Multi_Buffer Wire_Codec
begin

text \<open>
  \<^verbatim>\<open>transport/internet/kcp/segment.go\<close>, \<^verbatim>\<open>io.go\<close> and \<^verbatim>\<open>output.go\<close>: the three kinds of mKCP
  segments, their encoding and decoding, the reader that takes a packet apart and the writer that
  encodes a segment into its own buffer. A payload is a pooled buffer, so decoding takes the
  slices the pool hands out. The lemmas give the round trip from the writer to the reader.
\<close>

section \<open>Segments\<close>

type_synonym Command = byte
type_synonym SegmentOption = byte

definition CommandACK :: Command where
  "CommandACK = 0"

definition CommandData :: Command where
  "CommandData = 1"

definition CommandTerminate :: Command where
  "CommandTerminate = 2"

definition CommandPing :: Command where
  "CommandPing = 3"

definition SegmentOptionClose :: SegmentOption where
  "SegmentOptionClose = 1"

definition DataSegmentOverhead :: u32 where
  "DataSegmentOverhead = 18"

record DataSegment =
  ds_Conv :: u16
  ds_Option :: SegmentOption
  ds_Timestamp :: u32
  ds_Number :: u32
  ds_SendingNext :: u32
  ds_payload :: "Buffer option"
  ds_timeout :: u32
  ds_transmit :: u32

definition NewDataSegment :: DataSegment where
  "NewDataSegment = \<lparr>ds_Conv = 0, ds_Option = 0, ds_Timestamp = 0, ds_Number = 0, ds_SendingNext = 0,
     ds_payload = None, ds_timeout = 0, ds_transmit = 0\<rparr>"

text \<open>\<^verbatim>\<open>Data\<close>: the payload, allocated on first use, and the segment after it.\<close>

definition DataSegment_Data :: "slice \<Rightarrow> DataSegment \<Rightarrow> Buffer \<times> DataSegment" where
  "DataSegment_Data got s =
     (case ds_payload s of
        Some b \<Rightarrow> (b, s)
      | None \<Rightarrow> (Buffer_New got, s\<lparr>ds_payload := Some (Buffer_New got)\<rparr>))"

text \<open>A decoder returns the segment and the remaining bytes; no bytes when it reports failure.\<close>

definition DataSegment_parse ::
  "slice \<Rightarrow> DataSegment \<Rightarrow> u16 \<Rightarrow> Command \<Rightarrow> SegmentOption \<Rightarrow> byte list \<Rightarrow> (DataSegment \<times> byte list option) go" where
  "DataSegment_parse got s conv cmd opt buf =
     (let s = s\<lparr>ds_Conv := conv, ds_Option := opt\<rparr> in
      if length buf < 15 then Some (s, None)
      else do {
        ts \<leftarrow> be_get32 buf; let buf = drop 4 buf;
        num \<leftarrow> be_get32 buf; let buf = drop 4 buf;
        sn \<leftarrow> be_get32 buf; let buf = drop 4 buf;
        len \<leftarrow> be_get16 buf; let buf = drop 2 buf;
        let s = s\<lparr>ds_Timestamp := ts, ds_Number := num, ds_SendingNext := sn\<rparr>;
        let dataLen = unat len;
        if length buf < dataLen then Some (s, None)
        else do {
          let (b, s) = DataSegment_Data got s;
          (_, _, b') \<leftarrow> Buffer_Write (Buffer_Clear b) (take dataLen buf);
          Some (s\<lparr>ds_payload := Some b'\<rparr>, Some (drop dataLen buf))
        }
      })"

definition DataSegment_Detach :: "DataSegment \<Rightarrow> Buffer option \<times> DataSegment" where
  "DataSegment_Detach s = (ds_payload s, s\<lparr>ds_payload := None\<rparr>)"

text \<open>
  \<^verbatim>\<open>Serialize\<close> into a slice with the bytes \<open>b\<close>: the bytes afterwards. Stores past the end panic,
  the final \<^verbatim>\<open>copy\<close> truncates.
\<close>

definition DataSegment_Serialize :: "DataSegment \<Rightarrow> byte list \<Rightarrow> byte list go" where
  "DataSegment_Serialize s b = do {
     payload \<leftarrow> ds_payload s;
     bs \<leftarrow> Buffer_Bytes payload;
     if length b < 18 then None
     else Some (list_blit b 0
       (be_put16 (ds_Conv s) @ [CommandData, ds_Option s] @ be_put32 (ds_Timestamp s) @ be_put32 (ds_Number s)
        @ be_put32 (ds_SendingNext s) @ be_put16 (word_of_int (Buffer_Len payload)) @ bs))
   }"

definition DataSegment_ByteSize :: "DataSegment \<Rightarrow> int go" where
  "DataSegment_ByteSize s = map_option (\<lambda>b. int32 (18 + Buffer_Len b)) (ds_payload s)"

text \<open>\<^verbatim>\<open>Release\<close> on a nil payload does nothing.\<close>

definition DataSegment_Release :: "DataSegment \<Rightarrow> DataSegment \<times> recycled" where
  "DataSegment_Release s =
     (s\<lparr>ds_payload := None\<rparr>, case ds_payload s of None \<Rightarrow> NotRecycled | Some b \<Rightarrow> snd (Buffer_Release b))"

record AckSegment =
  as_Conv :: u16
  as_Option :: SegmentOption
  as_ReceivingWindow :: u32
  as_ReceivingNext :: u32
  as_Timestamp :: u32
  as_NumberList :: "u32 list"
  as_Limit :: int

definition ackNumberLimit :: int where
  "ackNumberLimit = 128"

definition NewAckSegment :: "int \<Rightarrow> AckSegment" where
  "NewAckSegment lim =
     (let l1 = (if lim \<le> 0 then 1 else lim);
          l2 = (if l1 > ackNumberLimit then ackNumberLimit else l1)
      in \<lparr>as_Conv = 0, as_Option = 0, as_ReceivingWindow = 0, as_ReceivingNext = 0, as_Timestamp = 0,
          as_NumberList = [], as_Limit = l2\<rparr>)"

definition PutTimestamp :: "u32 \<Rightarrow> AckSegment \<Rightarrow> AckSegment" where
  "PutTimestamp timestamp s =
     (if timestamp - as_Timestamp s < 0x7FFFFFFF then s\<lparr>as_Timestamp := timestamp\<rparr> else s)"

definition PutNumber :: "u32 \<Rightarrow> AckSegment \<Rightarrow> AckSegment" where
  "PutNumber number s = s\<lparr>as_NumberList := as_NumberList s @ [number]\<rparr>"

definition AckSegment_IsFull :: "AckSegment \<Rightarrow> bool" where
  "AckSegment_IsFull s \<longleftrightarrow> int (length (as_NumberList s)) = as_Limit s"

definition AckSegment_IsEmpty :: "AckSegment \<Rightarrow> bool" where
  "AckSegment_IsEmpty s \<longleftrightarrow> as_NumberList s = []"

text \<open>The loop of \<^verbatim>\<open>AckSegment.parse\<close> over the acknowledged numbers.\<close>

fun parse_numbers :: "nat \<Rightarrow> AckSegment \<Rightarrow> byte list \<Rightarrow> (AckSegment \<times> byte list) go" where
  "parse_numbers 0 s buf = Some (s, buf)"
| "parse_numbers (Suc n) s buf = do { x \<leftarrow> be_get32 buf; parse_numbers n (PutNumber x s) (drop 4 buf) }"

definition AckSegment_parse ::
  "AckSegment \<Rightarrow> u16 \<Rightarrow> Command \<Rightarrow> SegmentOption \<Rightarrow> byte list \<Rightarrow> (AckSegment \<times> byte list option) go" where
  "AckSegment_parse s conv cmd opt buf =
     (let s = s\<lparr>as_Conv := conv, as_Option := opt\<rparr> in
      if length buf < 13 then Some (s, None)
      else do {
        rw \<leftarrow> be_get32 buf; let buf = drop 4 buf;
        rn \<leftarrow> be_get32 buf; let buf = drop 4 buf;
        ts \<leftarrow> be_get32 buf; let buf = drop 4 buf;
        let s = s\<lparr>as_ReceivingWindow := rw, as_ReceivingNext := rn, as_Timestamp := ts\<rparr>;
        case buf of
          [] \<Rightarrow> None
        | c # buf \<Rightarrow>
            let count = unat c in
            if length buf < count * 4 then Some (s, None)
            else do { (s, buf) \<leftarrow> parse_numbers count s buf; Some (s, Some buf) }
      })"

definition AckSegment_ByteSize :: "AckSegment \<Rightarrow> int" where
  "AckSegment_ByteSize s = int32 (17 + int32 (int (length (as_NumberList s) * 4)))"

definition AckSegment_Serialize :: "AckSegment \<Rightarrow> byte list \<Rightarrow> byte list go" where
  "AckSegment_Serialize s b =
     (if length b < 17 + 4 * length (as_NumberList s) then None
      else Some (list_blit b 0
        (be_put16 (as_Conv s) @ [CommandACK, as_Option s] @ be_put32 (as_ReceivingWindow s)
         @ be_put32 (as_ReceivingNext s) @ be_put32 (as_Timestamp s)
         @ [of_nat (length (as_NumberList s))] @ concat (map be_put32 (as_NumberList s)))))"

record CmdOnlySegment =
  cs_Conv :: u16
  cs_Cmd :: Command
  cs_Option :: SegmentOption
  cs_SendingNext :: u32
  cs_ReceivingNext :: u32
  cs_PeerRTO :: u32

definition NewCmdOnlySegment :: CmdOnlySegment where
  "NewCmdOnlySegment = \<lparr>cs_Conv = 0, cs_Cmd = 0, cs_Option = 0, cs_SendingNext = 0,
     cs_ReceivingNext = 0, cs_PeerRTO = 0\<rparr>"

definition CmdOnlySegment_parse ::
  "CmdOnlySegment \<Rightarrow> u16 \<Rightarrow> Command \<Rightarrow> SegmentOption \<Rightarrow> byte list \<Rightarrow> (CmdOnlySegment \<times> byte list option) go" where
  "CmdOnlySegment_parse s conv cmd opt buf =
     (let s = s\<lparr>cs_Conv := conv, cs_Cmd := cmd, cs_Option := opt\<rparr> in
      if length buf < 12 then Some (s, None)
      else do {
        sn \<leftarrow> be_get32 buf; let buf = drop 4 buf;
        rn \<leftarrow> be_get32 buf; let buf = drop 4 buf;
        rto \<leftarrow> be_get32 buf; let buf = drop 4 buf;
        Some (s\<lparr>cs_SendingNext := sn, cs_ReceivingNext := rn, cs_PeerRTO := rto\<rparr>, Some buf)
      })"

definition CmdOnlySegment_ByteSize :: int where
  "CmdOnlySegment_ByteSize = 2 + 1 + 1 + 4 + 4 + 4"

definition CmdOnlySegment_Serialize :: "CmdOnlySegment \<Rightarrow> byte list \<Rightarrow> byte list go" where
  "CmdOnlySegment_Serialize s b =
     (if length b < 16 then None
      else Some (list_blit b 0
        (be_put16 (cs_Conv s) @ [cs_Cmd s, cs_Option s] @ be_put32 (cs_SendingNext s)
         @ be_put32 (cs_ReceivingNext s) @ be_put32 (cs_PeerRTO s))))"

datatype Segment = SegData DataSegment | SegAck AckSegment | SegCmd CmdOnlySegment

fun Segment_Conversation :: "Segment \<Rightarrow> u16" where
  "Segment_Conversation (SegData s) = ds_Conv s"
| "Segment_Conversation (SegAck s) = as_Conv s"
| "Segment_Conversation (SegCmd s) = cs_Conv s"

fun Segment_Command :: "Segment \<Rightarrow> Command" where
  "Segment_Command (SegData s) = CommandData"
| "Segment_Command (SegAck s) = CommandACK"
| "Segment_Command (SegCmd s) = cs_Cmd s"

fun Segment_ByteSize :: "Segment \<Rightarrow> int go" where
  "Segment_ByteSize (SegData s) = DataSegment_ByteSize s"
| "Segment_ByteSize (SegAck s) = Some (AckSegment_ByteSize s)"
| "Segment_ByteSize (SegCmd s) = Some CmdOnlySegment_ByteSize"

fun Segment_Serialize :: "Segment \<Rightarrow> byte list \<Rightarrow> byte list go" where
  "Segment_Serialize (SegData s) b = DataSegment_Serialize s b"
| "Segment_Serialize (SegAck s) b = AckSegment_Serialize s b"
| "Segment_Serialize (SegCmd s) b = CmdOnlySegment_Serialize s b"

section \<open>Reading and writing\<close>

text \<open>\<^verbatim>\<open>ReadSegment\<close>: the inner \<open>None\<close> is the nil segment.\<close>

definition ReadSegment :: "slice \<Rightarrow> byte list \<Rightarrow> (Segment \<times> byte list) option go" where
  "ReadSegment got buf =
     (if length buf < 4 then Some None
      else do {
        conv \<leftarrow> be_get16 buf; let buf = drop 2 buf;
        let cmd = buf ! 0; let opt = buf ! 1; let buf = drop 2 buf;
        if cmd = CommandData then do {
          (seg, extra) \<leftarrow> DataSegment_parse got NewDataSegment conv cmd opt buf;
          Some (map_option (Pair (SegData seg)) extra)
        } else if cmd = CommandACK then do {
          (seg, extra) \<leftarrow> AckSegment_parse (NewAckSegment 128) conv cmd opt buf;
          Some (map_option (Pair (SegAck seg)) extra)
        } else do {
          (seg, extra) \<leftarrow> CmdOnlySegment_parse NewCmdOnlySegment conv cmd opt buf;
          Some (map_option (Pair (SegCmd seg)) extra)
        }
      })"

text \<open>
  \<^verbatim>\<open>KCPPacketReader.Read\<close>. Every call of \<^verbatim>\<open>ReadSegment\<close> uses up at least four bytes, so a fuel of the
  packet's length is enough.
\<close>

fun packet_read_loop :: "(nat \<Rightarrow> slice) \<Rightarrow> nat \<Rightarrow> nat \<Rightarrow> byte list \<Rightarrow> Segment list go" where
  "packet_read_loop gots k 0 b = Some []"
| "packet_read_loop gots k (Suc fuel) b =
     (if b = [] then Some []
      else do {
        r \<leftarrow> ReadSegment (gots k) b;
        case r of
          None \<Rightarrow> Some []
        | Some (seg, x) \<Rightarrow> do { segs \<leftarrow> packet_read_loop gots (Suc k) fuel x; Some (seg # segs) }
      })"

definition KCPPacketReader_Read :: "(nat \<Rightarrow> slice) \<Rightarrow> byte list \<Rightarrow> Segment list go" where
  "KCPPacketReader_Read gots b = packet_read_loop gots 0 (length b) b"

text \<open>
  \<^verbatim>\<open>SimpleSegmentWriter.Write\<close>: the bytes handed to the underlying writer, and the buffer after it.
\<close>

definition SimpleSegmentWriter_Write :: "Buffer \<Rightarrow> Segment \<Rightarrow> (byte list \<times> Buffer) go" where
  "SimpleSegmentWriter_Write buffer seg = do {
     let b0 = Buffer_Clear buffer;
     n \<leftarrow> Segment_ByteSize seg;
     b1 \<leftarrow> Buffer_Extend b0 n;
     let rawBytes = replicate (nat n) 0;
     raw \<leftarrow> Segment_Serialize seg rawBytes;
     let b2 = Buffer_fill b1 (buf_end b0) raw;
     out \<leftarrow> Buffer_Bytes b2;
     Some (out, b2)
   }"

section \<open>The wire format\<close>

fun seg_wire :: "Segment \<Rightarrow> byte list" where
  "seg_wire (SegData s) =
     (let bs = (case ds_payload s of None \<Rightarrow> [] | Some b \<Rightarrow> content b) in
      be_put16 (ds_Conv s) @ [CommandData, ds_Option s] @ be_put32 (ds_Timestamp s) @ be_put32 (ds_Number s)
        @ be_put32 (ds_SendingNext s) @ be_put16 (of_nat (length bs)) @ bs)"
| "seg_wire (SegAck s) =
     be_put16 (as_Conv s) @ [CommandACK, as_Option s] @ be_put32 (as_ReceivingWindow s)
       @ be_put32 (as_ReceivingNext s) @ be_put32 (as_Timestamp s)
       @ [of_nat (length (as_NumberList s))] @ concat (map be_put32 (as_NumberList s))"
| "seg_wire (SegCmd s) =
     be_put16 (cs_Conv s) @ [cs_Cmd s, cs_Option s] @ be_put32 (cs_SendingNext s)
       @ be_put32 (cs_ReceivingNext s) @ be_put32 (cs_PeerRTO s)"

text \<open>The segments a connection sends: a payload that is not empty and fits with the header.\<close>

fun seg_ok :: "Segment \<Rightarrow> bool" where
  "seg_ok (SegData s) =
     (case ds_payload s of None \<Rightarrow> False
      | Some b \<Rightarrow> buf_inv b \<and> content b \<noteq> [] \<and> length (content b) + 18 \<le> Size)"
| "seg_ok (SegAck s) = (length (as_NumberList s) < 256)"
| "seg_ok (SegCmd s) = (cs_Cmd s \<noteq> CommandACK \<and> cs_Cmd s \<noteq> CommandData)"

text \<open>Equal up to the fields that do not travel and the representation of the payload.\<close>

fun same_seg :: "Segment \<Rightarrow> Segment \<Rightarrow> bool" where
  "same_seg (SegData s) (SegData t) \<longleftrightarrow>
     ds_Conv t = ds_Conv s \<and> ds_Option t = ds_Option s \<and> ds_Timestamp t = ds_Timestamp s
     \<and> ds_Number t = ds_Number s \<and> ds_SendingNext t = ds_SendingNext s
     \<and> (\<exists>b c. ds_payload s = Some b \<and> ds_payload t = Some c \<and> buf_inv c \<and> content c = content b)"
| "same_seg (SegAck s) (SegAck t) \<longleftrightarrow> t = s\<lparr>as_Limit := 128\<rparr>"
| "same_seg (SegCmd s) (SegCmd t) \<longleftrightarrow> t = s"
| "same_seg _ _ \<longleftrightarrow> False"

lemma parse_numbers_wire:
  "parse_numbers (length ns) s (concat (map be_put32 ns) @ rest) =
     Some (s\<lparr>as_NumberList := as_NumberList s @ ns\<rparr>, rest)"
  by (induction ns arbitrary: s) (simp_all add: wire_simps PutNumber_def)

lemma length_numbers_wire [simp]: "length (concat (map be_put32 ns)) = 4 * length ns"
  by (induction ns) simp_all

lemma Buffer_Clear_New [simp]: "Buffer_Clear (Buffer_New got) = Buffer_New got"
  by (simp add: Buffer_Clear_def Buffer_New_def)

lemma DataSegment_parse_wire:
  assumes "0 < length bs" and "length bs \<le> Size"
  shows "\<exists>b. DataSegment_parse got NewDataSegment conv cmd opt
      (be_put32 ts @ be_put32 num @ be_put32 sn @ be_put16 (of_nat (length bs)) @ bs @ rest) =
    Some (NewDataSegment\<lparr>ds_Conv := conv, ds_Option := opt, ds_Timestamp := ts, ds_Number := num,
       ds_SendingNext := sn, ds_payload := Some b\<rparr>, Some rest) \<and> buf_inv b \<and> content b = bs"
proof -
  from Buffer_Write_New [of got bs] assms(2) obtain err b where
    w: "Buffer_Write (Buffer_New got) bs = Some (length bs, err, b)" "buf_inv b" "content b = bs"
    by (auto simp: min_def)
  have n: "unat (of_nat (length bs) :: u16) = length bs"
    using assms(2) by (simp add: unat_of_nat_u16)
  show ?thesis
    using assms w n
    by (simp add: DataSegment_parse_def wire_simps DataSegment_Data_def NewDataSegment_def)
qed

lemma AckSegment_parse_wire:
  assumes "length ns < 256"
  shows "AckSegment_parse s conv cmd opt
      (be_put32 rw @ be_put32 rn @ be_put32 ts @ of_nat (length ns) # concat (map be_put32 ns) @ rest) =
    Some (s\<lparr>as_Conv := conv, as_Option := opt, as_ReceivingWindow := rw, as_ReceivingNext := rn,
       as_Timestamp := ts, as_NumberList := as_NumberList s @ ns\<rparr>, Some rest)"
  using assms by (simp add: AckSegment_parse_def wire_simps parse_numbers_wire unat_of_nat_byte)

lemma CmdOnlySegment_parse_wire:
  "CmdOnlySegment_parse s conv cmd opt (be_put32 sn @ be_put32 rn @ be_put32 rto @ rest) =
    Some (s\<lparr>cs_Conv := conv, cs_Cmd := cmd, cs_Option := opt, cs_SendingNext := sn,
       cs_ReceivingNext := rn, cs_PeerRTO := rto\<rparr>, Some rest)"
  by (simp add: CmdOnlySegment_parse_def wire_simps)

lemma ReadSegment_header:
  "ReadSegment got (be_put16 conv @ cmd # opt # body) =
     (if cmd = CommandData then do {
        (seg, extra) \<leftarrow> DataSegment_parse got NewDataSegment conv cmd opt body;
        Some (map_option (Pair (SegData seg)) extra)
      } else if cmd = CommandACK then do {
        (seg, extra) \<leftarrow> AckSegment_parse (NewAckSegment 128) conv cmd opt body;
        Some (map_option (Pair (SegAck seg)) extra)
      } else do {
        (seg, extra) \<leftarrow> CmdOnlySegment_parse NewCmdOnlySegment conv cmd opt body;
        Some (map_option (Pair (SegCmd seg)) extra)
      })"
  by (simp add: ReadSegment_def wire_simps Let_def)

lemma ReadSegment_wire:
  assumes "seg_ok seg"
  shows "\<exists>seg'. ReadSegment got (seg_wire seg @ rest) = Some (Some (seg', rest)) \<and> same_seg seg seg'"
proof (cases seg)
  case (SegData s)
  with assms obtain b where b: "ds_payload s = Some b" "buf_inv b" "content b \<noteq> []" "length (content b) \<le> Size"
    by (auto split: option.splits)
  with DataSegment_parse_wire [of "content b" got "ds_Conv s" CommandData "ds_Option s" "ds_Timestamp s"
      "ds_Number s" "ds_SendingNext s" rest] SegData show ?thesis
    by (auto simp: ReadSegment_header Let_def)
next
  case (SegAck s)
  with assms show ?thesis
    by (auto simp: ReadSegment_header AckSegment_parse_wire CommandACK_def CommandData_def NewAckSegment_def
        ackNumberLimit_def)
next
  case (SegCmd s)
  with assms show ?thesis
    by (auto simp: ReadSegment_header CmdOnlySegment_parse_wire NewCmdOnlySegment_def)
qed

text \<open>The segment decoder as a wire codec; a nil segment and a panic are both failures.\<close>

definition seg_dec :: "(nat \<Rightarrow> slice) \<Rightarrow> nat \<Rightarrow> byte list \<Rightarrow> (Segment \<times> byte list) option" where
  "seg_dec gots k bs = Option.bind (ReadSegment (gots k) bs) (\<lambda>r. r)"

interpretation segments: wire_codec seg_ok seg_wire "seg_dec gots" same_seg for gots
proof
  show "\<exists>y. seg_dec gots k (seg_wire x @ rest) = Some (y, rest) \<and> same_seg x y" if "seg_ok x" for x k rest
    using ReadSegment_wire [OF that, of "gots k" rest] by (auto simp: seg_dec_def)
  show "seg_wire x \<noteq> []" for x
    by (cases x) (simp_all add: be_put16_def Let_def)
qed

text \<open>\<^verbatim>\<open>ReadSegment\<close> never panics, whatever bytes arrive.\<close>

lemma parse_numbers_total: "4 * n \<le> length buf \<Longrightarrow> parse_numbers n s buf \<noteq> None"
proof (induction n arbitrary: s buf)
  case (Suc n)
  then obtain x where "be_get32 buf = Some x"
    using be_get32_long [of buf] by auto
  with Suc show ?case by simp
qed simp

fun seg_wf :: "Segment \<Rightarrow> bool" where
  "seg_wf (SegData s) \<longleftrightarrow> (\<exists>b. ds_payload s = Some b \<and> buf_inv b \<and> length (content b) \<le> Size)"
| "seg_wf _ \<longleftrightarrow> True"

lemma DataSegment_parse_total:
  "\<exists>s extra. DataSegment_parse got NewDataSegment conv cmd opt buf = Some (s, extra)
     \<and> (extra = None \<or> seg_wf (SegData s))"
proof (cases "length buf < 15")
  case True
  then show ?thesis by (simp add: DataSegment_parse_def Let_def)
next
  case False
  from False be_get32_at [of 0 buf] obtain ts where ts: "be_get32 buf = Some ts" by auto
  from False be_get32_at [of 4 buf] obtain num where num: "be_get32 (drop 4 buf) = Some num" by auto
  from False be_get32_at [of 8 buf] obtain sn where sn: "be_get32 (drop 8 buf) = Some sn" by auto
  from False be_get16_at [of 12 buf] obtain len where len: "be_get16 (drop 12 buf) = Some len" by auto
  from Buffer_Write_New [of got "take (unat len) (drop 14 buf)"] obtain n err b where
    "Buffer_Write (Buffer_New got) (take (unat len) (drop 14 buf)) = Some (n, err, b)" "buf_inv b"
    "length (content b) \<le> Size" by auto
  with False ts num sn len show ?thesis
    by (simp add: DataSegment_parse_def DataSegment_Data_def NewDataSegment_def Let_def)
qed

lemma AckSegment_parse_total: "AckSegment_parse s conv cmd opt buf \<noteq> None"
proof (cases "length buf < 13")
  case True
  then show ?thesis by (simp add: AckSegment_parse_def Let_def)
next
  case False
  from False be_get32_at [of 0 buf] obtain rw where rw: "be_get32 buf = Some rw" by auto
  from False be_get32_at [of 4 buf] obtain rn where rn: "be_get32 (drop 4 buf) = Some rn" by auto
  from False be_get32_at [of 8 buf] obtain ts where ts: "be_get32 (drop 8 buf) = Some ts" by auto
  from False obtain c cs where c: "drop 12 buf = c # cs"
    by (cases "drop 12 buf") auto
  from rw rn ts c False show ?thesis
    using parse_numbers_total [of "unat c" cs
        "s\<lparr>as_Conv := conv, as_Option := opt, as_ReceivingWindow := rw, as_ReceivingNext := rn, as_Timestamp := ts\<rparr>"]
    by (auto simp: AckSegment_parse_def Let_def)
qed

lemma CmdOnlySegment_parse_total: "CmdOnlySegment_parse s conv cmd opt buf \<noteq> None"
proof (cases "length buf < 12")
  case True
  then show ?thesis by (simp add: CmdOnlySegment_parse_def Let_def)
next
  case False
  from False be_get32_at [of 0 buf] obtain sn where sn: "be_get32 buf = Some sn" by auto
  from False be_get32_at [of 4 buf] obtain rn where rn: "be_get32 (drop 4 buf) = Some rn" by auto
  from False be_get32_at [of 8 buf] obtain rto where rto: "be_get32 (drop 8 buf) = Some rto" by auto
  from False sn rn rto show ?thesis by (simp add: CmdOnlySegment_parse_def Let_def)
qed

lemma read_wf_extra:
  "(case map_option (Pair seg) extra of None \<Rightarrow> True | Some (sg, _) \<Rightarrow> seg_wf sg) \<longleftrightarrow> extra = None \<or> seg_wf seg"
  by (cases extra) auto

lemma ReadSegment_total:
  "\<exists>r. ReadSegment got buf = Some r \<and> (case r of None \<Rightarrow> True | Some (seg, _) \<Rightarrow> seg_wf seg)"
proof (cases "length buf < 4")
  case False
  then obtain conv where conv: "be_get16 buf = Some conv"
    using be_get16_long [of buf] by auto
  let ?cmd = "drop 2 buf ! 0" and ?opt = "drop 2 buf ! 1" and ?buf = "drop 4 buf"
  show ?thesis
    using False conv DataSegment_parse_total [of got conv ?cmd ?opt ?buf]
      AckSegment_parse_total [of "NewAckSegment 128" conv ?cmd ?opt ?buf]
      CmdOnlySegment_parse_total [of NewCmdOnlySegment conv ?cmd ?opt ?buf]
    by (auto simp: ReadSegment_def Let_def read_wf_extra simp del: case_map_option)
qed (simp add: ReadSegment_def)

lemma packet_read_loop_decode_all:
  "packet_read_loop gots k n b = Some (decode_all (seg_dec gots) k n b)"
proof (induction n arbitrary: k b)
  case (Suc n)
  from ReadSegment_total [of "gots k" b] obtain r where "ReadSegment (gots k) b = Some r" by blast
  with Suc show ?case by (auto simp: seg_dec_def split: option.splits)
qed simp

lemma decode_all_wf: "list_all seg_wf (decode_all (seg_dec gots) k n b)"
proof (induction n arbitrary: k b)
  case (Suc n)
  from ReadSegment_total [of "gots k" b] obtain r where
    "ReadSegment (gots k) b = Some r" "case r of None \<Rightarrow> True | Some (seg, _) \<Rightarrow> seg_wf seg" by blast
  with Suc show ?case by (auto simp: seg_dec_def split: option.splits)
qed simp

section \<open>The writer\<close>

lemma list_blit_all: "length ys = length xs \<Longrightarrow> list_blit xs 0 ys = ys"
  by (simp add: list_blit_def)

lemma Buffer_Clear_facts:
  "buf_inv b \<Longrightarrow> buf_inv (Buffer_Clear b)" "content (Buffer_Clear b) = []"
  "buf_v (Buffer_Clear b) = buf_v b" "buf_end (Buffer_Clear b) = 0" "buf_start (Buffer_Clear b) = 0"
  by (auto simp: Buffer_Clear_def buf_inv_defs content_def)

lemma Segment_ByteSize_wire:
  assumes "seg_ok seg"
  shows "Segment_ByteSize seg = Some (int (length (seg_wire seg)))" and "length (seg_wire seg) \<le> Size"
proof -
  have "Segment_ByteSize seg = Some (int (length (seg_wire seg))) \<and> length (seg_wire seg) \<le> Size"
  proof (cases seg)
    case (SegData s)
    with assms show ?thesis
      by (auto simp: DataSegment_ByteSize_def Buffer_Len_content Let_def split: option.splits)
  next
    case (SegAck s)
    with assms show ?thesis by (simp add: AckSegment_ByteSize_def)
  next
    case (SegCmd s)
    then show ?thesis by (simp add: CmdOnlySegment_ByteSize_def)
  qed
  then show "Segment_ByteSize seg = Some (int (length (seg_wire seg)))" and "length (seg_wire seg) \<le> Size"
    by blast+
qed

lemma Segment_Serialize_wire:
  assumes "seg_ok seg" and "length b = length (seg_wire seg)"
  shows "Segment_Serialize seg b = Some (seg_wire seg)"
proof (cases seg)
  case (SegData s)
  with assms(1) obtain p where p: "ds_payload s = Some p" "buf_inv p" "content p \<noteq> []"
    by (auto split: option.splits)
  have "(word_of_int (Buffer_Len p) :: u16) = of_nat (length (content p))"
    using p(2) by (simp add: Buffer_Len_content)
  with assms p SegData show ?thesis
    by (simp add: DataSegment_Serialize_def Buffer_Bytes_content list_blit_all Let_def)
next
  case (SegAck s)
  with assms show ?thesis by (simp add: AckSegment_Serialize_def list_blit_all)
next
  case (SegCmd s)
  with assms show ?thesis by (simp add: CmdOnlySegment_Serialize_def list_blit_all)
qed

lemma SimpleSegmentWriter_Write_spec:
  assumes "buf_inv buffer" and "sl_len (buf_v buffer) = Size" and "seg_ok seg"
  shows "\<exists>b'. SimpleSegmentWriter_Write buffer seg = Some (seg_wire seg, b') \<and> buf_inv b'
    \<and> sl_len (buf_v b') = Size"
proof -
  let ?w = "seg_wire seg" and ?c = "Buffer_Clear buffer"
  have inv: "buf_inv ?c" using assms(1) by (rule Buffer_Clear_facts)
  have av: "Buffer_Available ?c = int Size"
    using inv assms(2) by (simp add: Buffer_Available_inv Buffer_Clear_facts)
  from Buffer_Extend_spec [OF inv, of "int (length ?w)"] Segment_ByteSize_wire(2) [OF assms(3)] av
  obtain b1 where b1: "Buffer_Extend ?c (int (length ?w)) = Some b1" "buf_inv b1"
      "buf_end b1 = int (length ?w)" "sl_len (buf_v b1) = Size" "buf_start b1 = 0"
    using assms(2) by (auto simp: Buffer_Clear_facts)
  define b2 where "b2 = Buffer_fill b1 0 ?w"
  have room: "length ?w \<le> length (sl_arr (buf_v b1))"
    using b1 by (auto simp: buf_inv_defs)
  have "buf_inv b2" "sl_len (buf_v b2) = Size"
    using b1 by (auto simp: b2_def buf_inv_defs Buffer_fill_def sl_blit_def)
  moreover have "content b2 = ?w"
    using b1 take_list_blit_end [of 0 ?w "sl_arr (buf_v b1)"] room
    by (simp add: b2_def content_def Buffer_fill_def sl_blit_def)
  ultimately have "Buffer_Bytes b2 = Some ?w"
    by (simp add: Buffer_Bytes_content)
  with \<open>buf_inv b2\<close> \<open>sl_len (buf_v b2) = Size\<close> b1 show ?thesis
    using Segment_ByteSize_wire(1) [OF assms(3)] Segment_Serialize_wire [OF assms(3), of "replicate (length ?w) 0"]
    by (simp add: SimpleSegmentWriter_Write_def Buffer_Clear_facts b2_def)
qed

text \<open>The packet that successive writes of a segment list make.\<close>

fun write_segments :: "Buffer \<Rightarrow> Segment list \<Rightarrow> (byte list \<times> Buffer) go" where
  "write_segments buffer [] = Some ([], buffer)"
| "write_segments buffer (seg # segs) = do {
     (out, b') \<leftarrow> SimpleSegmentWriter_Write buffer seg;
     (outs, b'') \<leftarrow> write_segments b' segs;
     Some (out @ outs, b'')
   }"

lemma write_segments_spec:
  "buf_inv buffer \<Longrightarrow> sl_len (buf_v buffer) = Size \<Longrightarrow> list_all seg_ok segs \<Longrightarrow>
     \<exists>b'. write_segments buffer segs = Some (concat (map seg_wire segs), b')"
proof (induction segs arbitrary: buffer)
  case (Cons seg segs)
  then have ok: "seg_ok seg" "list_all seg_ok segs" by simp_all
  from SimpleSegmentWriter_Write_spec [OF Cons.prems(1,2) ok(1)] obtain b1 where
    b1: "SimpleSegmentWriter_Write buffer seg = Some (seg_wire seg, b1)" "buf_inv b1"
      "sl_len (buf_v b1) = Size" by blast
  from Cons.IH [OF b1(2,3) ok(2)] b1(1) show ?case by auto
qed simp

section \<open>Segments of a stream\<close>

text \<open>
  \<open>log\<close> lists the payloads pushed so far, in order. A segment matches it when its number is the
  position of its payload; the payloads are what a connection cuts: not empty, and small enough to
  be encoded in a pooled buffer.
\<close>

definition seg_matches :: "byte list list \<Rightarrow> DataSegment \<Rightarrow> bool" where
  "seg_matches log seg \<longleftrightarrow> unat (ds_Number seg) < length log \<and>
     (\<exists>b. ds_payload seg = Some b \<and> buf_inv b \<and> content b = log ! unat (ds_Number seg)
        \<and> content b \<noteq> [] \<and> length (content b) + 18 \<le> Size)"

lemma seg_matches_append: "seg_matches log seg \<Longrightarrow> seg_matches (log @ extra) seg"
  by (auto simp: seg_matches_def nth_append)

section \<open>Properties\<close>

text \<open>
  C15. The mKCP wire format round-trips from writer to reader: when the segment writer encodes any
  list of segments whose data payloads are not empty and fit a pooled buffer with the header, none
  of the writes panics, and the packet reader takes the concatenation apart into the same segments,
  in order, with the same fields and payload bytes, whatever recycled slices it is given.
\<close>
theorem segments_roundtrip:
  assumes "list_all seg_ok segs" and "buf_inv buffer" and "sl_len (buf_v buffer) = Size"
  shows "\<exists>packet buffer' segs'. write_segments buffer segs = Some (packet, buffer')
    \<and> KCPPacketReader_Read gots packet = Some segs' \<and> list_all2 same_seg segs segs'"
proof -
  from write_segments_spec [OF assms(2,3,1)] obtain b' where
    "write_segments buffer segs = Some (concat (map seg_wire segs), b')" by blast
  then show ?thesis
    using segments.decode_all_enc [OF assms(1) order_refl, of gots 0]
    by (auto simp: KCPPacketReader_Read_def packet_read_loop_decode_all)
qed

theorem segments_roundtrip_witness:
  "\<exists>packet buffer' segs'.
     write_segments (Buffer_New nil_slice)
       [SegAck ((NewAckSegment 128)\<lparr>as_NumberList := [7, 9]\<rparr>),
        SegCmd (NewCmdOnlySegment\<lparr>cs_Cmd := CommandPing\<rparr>)] = Some (packet, buffer')
     \<and> KCPPacketReader_Read (\<lambda>_. nil_slice) packet = Some segs'
     \<and> list_all2 same_seg
       [SegAck ((NewAckSegment 128)\<lparr>as_NumberList := [7, 9]\<rparr>),
        SegCmd (NewCmdOnlySegment\<lparr>cs_Cmd := CommandPing\<rparr>)] segs'"
  by (rule segments_roundtrip)
     (simp_all add: CommandPing_def CommandACK_def CommandData_def Buffer_New_inv)

text \<open>
  The packet reader is total on hostile input: it returns a list of segments for every byte
  string, never panicking on a short or inconsistent packet, and every data payload it returns
  is a well-formed buffer of at most the size of a pooled one.
\<close>
theorem packet_reader_total:
  "\<exists>segs. KCPPacketReader_Read gots packet = Some segs \<and> list_all seg_wf segs"
  by (simp add: KCPPacketReader_Read_def packet_read_loop_decode_all decode_all_wf)

text \<open>
  A data segment with an empty payload does not round-trip: its encoding has the 18 bytes of the
  header, but the decoder asks for one more byte than the header has and drops the packet.
\<close>
theorem empty_data_segment_rejected:
  assumes "ds_payload s = Some b" and "content b = []"
  shows "ReadSegment got (seg_wire (SegData s)) = Some None"
  using assms by (simp add: ReadSegment_header DataSegment_parse_def)

theorem empty_data_segment_rejected_witness:
  "ReadSegment nil_slice (seg_wire (SegData (NewDataSegment\<lparr>ds_payload := Some (Buffer_New nil_slice)\<rparr>)))
     = Some None"
  by (rule empty_data_segment_rejected [where b = "Buffer_New nil_slice"]) (simp_all add: Buffer_New_inv)

end
