(* ===== verification/Kcp_Receiving.thy ===== *)
theory Kcp_Receiving
  imports Kcp_Segment "HOL-Library.Signed_Division"
begin

text \<open>
  \<^verbatim>\<open>transport/internet/kcp/receiving.go\<close>: the receiving window, the list of acknowledgements that are
  due, and the receiving worker. What the worker reads of its connection (the round-trip timeout,
  the conversation number, whether the state is \<^verbatim>\<open>StateReadyToClose\<close>) is passed as arguments;
  the acknowledgements it writes to the connection's output are returned. Numbers are 32-bit
  words and their differences wrap as in Go.

  The lemmas show the window invariant and that reads deliver consecutive numbers only.
\<close>

section \<open>The receiving window\<close>

type_synonym ReceivingWindow = "u32 \<rightharpoonup> DataSegment"

definition NewReceivingWindow :: ReceivingWindow where
  "NewReceivingWindow = Map.empty"

definition ReceivingWindow_Set :: "ReceivingWindow \<Rightarrow> u32 \<Rightarrow> DataSegment \<Rightarrow> bool \<times> ReceivingWindow" where
  "ReceivingWindow_Set cache idx value =
     (case cache idx of Some _ \<Rightarrow> (False, cache) | None \<Rightarrow> (True, cache(idx \<mapsto> value)))"

definition ReceivingWindow_Has :: "ReceivingWindow \<Rightarrow> u32 \<Rightarrow> bool" where
  "ReceivingWindow_Has cache idx \<longleftrightarrow> cache idx \<noteq> None"

definition ReceivingWindow_Remove :: "ReceivingWindow \<Rightarrow> u32 \<Rightarrow> DataSegment option \<times> ReceivingWindow" where
  "ReceivingWindow_Remove cache idx =
     (case cache idx of None \<Rightarrow> (None, cache) | Some v \<Rightarrow> (Some v, cache(idx := None)))"

section \<open>The acknowledgement list\<close>

record AckList =
  al_timestamps :: "u32 list"
  al_numbers :: "u32 list"
  al_nextFlush :: "u32 list"
  al_flushCandidates :: "u32 list"
  al_dirty :: bool
  al_mss :: u32

definition NewAckList :: "u32 \<Rightarrow> AckList" where
  "NewAckList mss = \<lparr>al_timestamps = [], al_numbers = [], al_nextFlush = [], al_flushCandidates = [],
     al_dirty = False, al_mss = mss\<rparr>"

definition AckList_Add :: "u32 \<Rightarrow> u32 \<Rightarrow> AckList \<Rightarrow> AckList" where
  "AckList_Add number timestamp l =
     l\<lparr>al_timestamps := al_timestamps l @ [timestamp], al_numbers := al_numbers l @ [number],
       al_nextFlush := al_nextFlush l @ [0], al_dirty := True\<rparr>"

text \<open>\<^verbatim>\<open>Clear\<close> compacts the three parallel slices in place, keeping the same positions of each.\<close>

definition AckList_Clear :: "u32 \<Rightarrow> AckList \<Rightarrow> AckList" where
  "AckList_Clear una l =
     (let keep = filter (\<lambda>i. \<not> al_numbers l ! i < una) [0..<length (al_numbers l)] in
      if length keep < length (al_numbers l) then
        l\<lparr>al_numbers := map (\<lambda>i. al_numbers l ! i) keep,
          al_timestamps := map (\<lambda>i. al_timestamps l ! i) keep,
          al_nextFlush := map (\<lambda>i. al_nextFlush l ! i) keep,
          al_dirty := True\<rparr>
      else l)"

text \<open>
  The loop of \<^verbatim>\<open>Flush\<close> over the parallel slices: the segment being filled, the rewritten
  \<^verbatim>\<open>nextFlush\<close>, the candidates, the dirty flag and the segments written, in order. The capacity of
  \<^verbatim>\<open>flushCandidates\<close> is 128 throughout.
\<close>

fun ack_flush_loop :: "u32 \<Rightarrow> u32 \<Rightarrow> int \<Rightarrow> AckSegment \<Rightarrow> u32 list \<Rightarrow> bool \<Rightarrow> (u32 \<times> u32 \<times> u32) list
    \<Rightarrow> AckSegment \<times> u32 list \<times> u32 list \<times> bool \<times> AckSegment list" where
  "ack_flush_loop current rto lim seg cands dirty [] = (seg, [], cands, dirty, [])"
| "ack_flush_loop current rto lim seg cands dirty ((number, timestamp, nf) # rest) =
     (if nf > current then
        (let cands' = (if length cands < 128 then cands @ [number] else cands);
             (seg', nfs, cands'', dirty', out) = ack_flush_loop current rto lim seg cands' dirty rest
         in (seg', nf # nfs, cands'', dirty', out))
      else
        (let seg1 = PutTimestamp timestamp (PutNumber number seg);
             timeout = (if rto div 2 < 20 then 20 else rto div 2);
             nf' = current + timeout
         in if AckSegment_IsFull seg1 then
              (let (seg', nfs, cands'', dirty', out) =
                     ack_flush_loop current rto lim (NewAckSegment lim) cands False rest
               in (seg', nf' # nfs, cands'', dirty', seg1 # out))
            else
              (let (seg', nfs, cands'', dirty', out) = ack_flush_loop current rto lim seg1 cands dirty rest
               in (seg', nf' # nfs, cands'', dirty', out))))"

fun put_candidates :: "AckSegment \<Rightarrow> u32 list \<Rightarrow> AckSegment" where
  "put_candidates seg [] = seg"
| "put_candidates seg (number # rest) =
     (if AckSegment_IsFull seg then seg else put_candidates (PutNumber number seg) rest)"

definition AckList_Flush :: "u32 \<Rightarrow> u32 \<Rightarrow> AckList \<Rightarrow> AckSegment list \<times> AckList" where
  "AckList_Flush current rto l =
     (let lim = (uint (al_mss l) - 17) sdiv 4;
          (seg, nfs, cands, dirty, out) =
            ack_flush_loop current rto lim (NewAckSegment lim) [] (al_dirty l)
              (zip (al_numbers l) (zip (al_timestamps l) (al_nextFlush l)));
          l1 = l\<lparr>al_nextFlush := nfs, al_flushCandidates := cands, al_dirty := dirty\<rparr>
      in if dirty \<or> \<not> AckSegment_IsEmpty seg
         then (out @ [put_candidates seg cands], l1\<lparr>al_dirty := False\<rparr>)
         else (out, l1))"

section \<open>The receiving worker\<close>

record ReceivingWorker =
  rw_leftOver :: "MultiBuffer option"
  rw_window :: ReceivingWindow
  rw_acklist :: AckList
  rw_nextNumber :: u32
  rw_windowSize :: u32

text \<open>The arguments stand for \<^verbatim>\<open>kcp.mss\<close> and \<^verbatim>\<open>kcp.Config.GetReceivingInFlightSize()\<close>.\<close>

definition NewReceivingWorker :: "u32 \<Rightarrow> u32 \<Rightarrow> ReceivingWorker" where
  "NewReceivingWorker mss inFlight = \<lparr>rw_leftOver = None, rw_window = NewReceivingWindow,
     rw_acklist = NewAckList (mss + DataSegmentOverhead), rw_nextNumber = 0, rw_windowSize = inFlight\<rparr>"

definition ReceivingWorker_Release :: "ReceivingWorker \<Rightarrow> ReceivingWorker \<times> recycled list" where
  "ReceivingWorker_Release w =
     (w\<lparr>rw_leftOver := None\<rparr>,
      snd (ReleaseMulti (case rw_leftOver w of None \<Rightarrow> [] | Some mb \<Rightarrow> mb)))"

definition ProcessSendingNext :: "u32 \<Rightarrow> ReceivingWorker \<Rightarrow> ReceivingWorker" where
  "ProcessSendingNext number w = w\<lparr>rw_acklist := AckList_Clear number (rw_acklist w)\<rparr>"

definition ReceivingWorker_ProcessSegment :: "DataSegment \<Rightarrow> ReceivingWorker \<Rightarrow> ReceivingWorker \<times> recycled list" where
  "ReceivingWorker_ProcessSegment seg w =
     (let number = ds_Number seg; idx = number - rw_nextNumber w in
      if idx \<ge> rw_windowSize w then (w, [])
      else
        let acks = AckList_Add number (ds_Timestamp seg) (AckList_Clear (ds_SendingNext seg) (rw_acklist w));
            (fresh, cache) = ReceivingWindow_Set (rw_window w) (ds_Number seg) seg
        in (w\<lparr>rw_acklist := acks, rw_window := cache\<rparr>,
            if fresh then [] else [snd (DataSegment_Release seg)]))"

text \<open>
  The loop of \<^verbatim>\<open>ReadMultiBuffer\<close>: it ends because every round removes an entry of the cache. The
  decoder gives every segment a payload; a nil payload would contribute no bytes.
\<close>

function receive_loop :: "ReceivingWindow \<Rightarrow> u32 \<Rightarrow> MultiBuffer \<Rightarrow> ReceivingWindow \<times> u32 \<times> MultiBuffer" where
  "receive_loop cache next mb =
     (case ReceivingWindow_Remove cache next of
        (None, _) \<Rightarrow> (cache, next, mb)
      | (Some seg, cache') \<Rightarrow>
          receive_loop cache' (next + 1)
            (case fst (DataSegment_Detach seg) of None \<Rightarrow> mb | Some b \<Rightarrow> mb @ [b]))"
  by pat_completeness auto
termination
proof (relation "measure (\<lambda>(cache, _, _). card (dom cache))", goal_cases)
  case (2 cache "next" mb x cache' seg)
  then have "dom cache' = dom cache - {next}" "next \<in> dom cache"
    by (auto simp: ReceivingWindow_Remove_def split: option.splits)
  then show ?case
    using card_Diff1_less [OF finite, of "next" "dom cache"] by simp
qed simp

definition ReceivingWorker_ReadMultiBuffer :: "ReceivingWorker \<Rightarrow> MultiBuffer \<times> ReceivingWorker" where
  "ReceivingWorker_ReadMultiBuffer w =
     (case rw_leftOver w of
        Some mb \<Rightarrow> (mb, w\<lparr>rw_leftOver := None\<rparr>)
      | None \<Rightarrow>
          let (cache, next, mb) = receive_loop (rw_window w) (rw_nextNumber w) []
          in (mb, w\<lparr>rw_window := cache, rw_nextNumber := next\<rparr>))"

text \<open>\<^verbatim>\<open>Read\<close> into a slice of \<open>n\<close> bytes: the bytes stored and the worker after it.\<close>

definition ReceivingWorker_Read :: "nat \<Rightarrow> ReceivingWorker \<Rightarrow> (byte list \<times> ReceivingWorker) go" where
  "ReceivingWorker_Read n w =
     (let (mb, w1) = ReceivingWorker_ReadMultiBuffer w in
      if MultiBuffer_IsEmpty mb then Some ([], w1)
      else do {
        (rest, bs, _) \<leftarrow> SplitBytes mb n;
        Some (bs, if \<not> MultiBuffer_IsEmpty rest then w1\<lparr>rw_leftOver := Some rest\<rparr> else w1)
      })"

definition IsDataAvailable :: "ReceivingWorker \<Rightarrow> bool" where
  "IsDataAvailable w = ReceivingWindow_Has (rw_window w) (rw_nextNumber w)"

text \<open>\<^verbatim>\<open>ReceivingWorker.Write\<close> completes an acknowledgement before it goes to the output.\<close>

definition ReceivingWorker_Write :: "u16 \<Rightarrow> bool \<Rightarrow> ReceivingWorker \<Rightarrow> AckSegment \<Rightarrow> AckSegment" where
  "ReceivingWorker_Write conv readyToClose w seg =
     seg\<lparr>as_Conv := conv, as_ReceivingNext := rw_nextNumber w,
         as_ReceivingWindow := rw_nextNumber w + rw_windowSize w,
         as_Option := (if readyToClose then SegmentOptionClose else 0)\<rparr>"

definition ReceivingWorker_Flush ::
  "u16 \<Rightarrow> bool \<Rightarrow> u32 \<Rightarrow> u32 \<Rightarrow> ReceivingWorker \<Rightarrow> AckSegment list \<times> ReceivingWorker" where
  "ReceivingWorker_Flush conv readyToClose rto current w =
     (let (out, l) = AckList_Flush current rto (rw_acklist w)
      in (map (ReceivingWorker_Write conv readyToClose w) out, w\<lparr>rw_acklist := l\<rparr>))"

definition ReceivingWorker_UpdateNecessary :: "ReceivingWorker \<Rightarrow> bool" where
  "ReceivingWorker_UpdateNecessary w \<longleftrightarrow> 0 < length (al_numbers (rw_acklist w))"

section \<open>The acknowledgements\<close>

text \<open>The three parallel slices stay in step.\<close>

definition al_ok :: "AckList \<Rightarrow> bool" where
  "al_ok l \<longleftrightarrow> length (al_timestamps l) = length (al_numbers l) \<and> length (al_nextFlush l) = length (al_numbers l)"

lemma al_ok_New: "al_ok (NewAckList mss)"
  by (simp add: al_ok_def NewAckList_def)

lemma al_ok_Add: "al_ok l \<Longrightarrow> al_ok (AckList_Add number timestamp l)"
  by (simp add: al_ok_def AckList_Add_def)

lemma al_ok_Clear: "al_ok l \<Longrightarrow> al_ok (AckList_Clear una l)"
  by (simp add: al_ok_def AckList_Clear_def Let_def)

lemma AckList_Clear_numbers:
  "set (al_numbers (AckList_Clear una l)) = {n \<in> set (al_numbers l). una \<le> n}"
proof (cases "\<exists>n \<in> set (al_numbers l). n < una")
  case True
  let ?keep = "filter (\<lambda>i. \<not> al_numbers l ! i < una) [0..<length (al_numbers l)]"
  have "length ?keep < length [0..<length (al_numbers l)]"
  proof -
    from True obtain i where "i < length (al_numbers l)" "al_numbers l ! i < una"
      by (auto simp: in_set_conv_nth)
    then show ?thesis by (intro length_filter_less [of i]) auto
  qed
  then have "al_numbers (AckList_Clear una l) = map (\<lambda>i. al_numbers l ! i) ?keep"
    by (simp add: AckList_Clear_def Let_def)
  then have "set (al_numbers (AckList_Clear una l)) =
      (\<lambda>i. al_numbers l ! i) ` {i. i < length (al_numbers l) \<and> \<not> al_numbers l ! i < una}"
    by (auto simp del: not_less)
  then show ?thesis
    by (auto simp: set_conv_nth)
next
  case False
  then have "filter (\<lambda>i. \<not> al_numbers l ! i < una) [0..<length (al_numbers l)] = [0..<length (al_numbers l)]"
    by (simp add: filter_id_conv)
  with False show ?thesis
    by (auto simp: AckList_Clear_def)
qed

definition ack_lim_ok :: "AckSegment \<Rightarrow> bool" where
  "ack_lim_ok seg \<longleftrightarrow> 1 \<le> as_Limit seg \<and> as_Limit seg \<le> 128 \<and> int (length (as_NumberList seg)) \<le> as_Limit seg"

lemma NewAckSegment_facts:
  "as_NumberList (NewAckSegment lim) = []" "1 \<le> as_Limit (NewAckSegment lim)"
  "as_Limit (NewAckSegment lim) \<le> 128" "1 \<le> lim \<Longrightarrow> as_Limit (NewAckSegment lim) \<le> lim"
  by (simp_all add: NewAckSegment_def ackNumberLimit_def Let_def)

lemma NewAckSegment_room: "int (length (as_NumberList (NewAckSegment lim))) < as_Limit (NewAckSegment lim)"
  using NewAckSegment_facts(2) [of lim] by (simp add: NewAckSegment_facts(1))

lemma PutNumber_facts [simp]:
  "as_NumberList (PutNumber x seg) = as_NumberList seg @ [x]" "as_Limit (PutNumber x seg) = as_Limit seg"
  "as_NumberList (PutTimestamp t seg) = as_NumberList seg" "as_Limit (PutTimestamp t seg) = as_Limit seg"
  by (simp_all add: PutNumber_def PutTimestamp_def)

text \<open>
  What the loop of \<^verbatim>\<open>Flush\<close> does with a list of pending entries: the segments it writes and the one it
  is filling hold, besides what that one held, exactly the numbers that are due, in order.
\<close>

lemma ack_flush_loop_spec:
  "int (length (as_NumberList seg)) < as_Limit seg \<Longrightarrow> as_Limit seg = as_Limit (NewAckSegment lim) \<Longrightarrow>
   ack_flush_loop current rt lim seg cands dirty ents = (seg', nfs, cands', dirty', out) \<Longrightarrow>
     concat (map as_NumberList out) @ as_NumberList seg' =
       as_NumberList seg @ map fst (filter (\<lambda>(_, _, nf). \<not> current < nf) ents)
     \<and> length nfs = length ents
     \<and> set cands' \<subseteq> set cands \<union> fst ` set ents
     \<and> int (length (as_NumberList seg')) < as_Limit seg' \<and> as_Limit seg' = as_Limit seg
     \<and> (\<forall>s \<in> set out. int (length (as_NumberList s)) = as_Limit seg)"
proof (induction ents arbitrary: seg cands dirty seg' nfs cands' dirty' out)
  case Nil
  then show ?case by auto
next
  case (Cons e ents)
  obtain number timestamp nf where e: "e = (number, timestamp, nf)" by (rule prod_cases3)
  show ?case
  proof (cases "current < nf")
    case True
    define c1 where "c1 = (if length cands < 128 then cands @ [number] else cands)"
    obtain s1 n1 d1 e1 o1 where r: "ack_flush_loop current rt lim seg c1 dirty ents = (s1, n1, d1, e1, o1)"
      by (metis prod_cases5)
    from Cons.IH [OF Cons.prems(1,2) r] Cons.prems(3) r True show ?thesis
      by (auto simp: e Let_def c1_def split: if_splits)
  next
    case False
    define s0 where "s0 = PutTimestamp timestamp (PutNumber number seg)"
    have s0: "as_NumberList s0 = as_NumberList seg @ [number]" "as_Limit s0 = as_Limit seg"
      by (simp_all add: s0_def)
    show ?thesis
    proof (cases "AckSegment_IsFull s0")
      case full: True
      obtain s1 n1 d1 e1 o1 where
        r: "ack_flush_loop current rt lim (NewAckSegment lim) cands False ents = (s1, n1, d1, e1, o1)"
        by (metis prod_cases5)
      from Cons.IH [OF NewAckSegment_room refl r] Cons.prems r False full s0 show ?thesis
        by (auto simp: e Let_def s0_def [symmetric] AckSegment_IsFull_def NewAckSegment_facts(1))
    next
      case notfull: False
      obtain s1 n1 d1 e1 o1 where r: "ack_flush_loop current rt lim s0 cands dirty ents = (s1, n1, d1, e1, o1)"
        by (metis prod_cases5)
      have "int (length (as_NumberList s0)) < as_Limit s0"
        using Cons.prems(1) notfull s0 by (auto simp: AckSegment_IsFull_def)
      from Cons.IH [OF this _ r] Cons.prems r False notfull s0 show ?thesis
        by (auto simp: e Let_def s0_def [symmetric])
    qed
  qed
qed

lemma put_candidates_spec:
  "int (length (as_NumberList seg)) \<le> as_Limit seg \<Longrightarrow>
     int (length (as_NumberList (put_candidates seg cands))) \<le> as_Limit seg
     \<and> set (as_NumberList (put_candidates seg cands)) \<subseteq> set (as_NumberList seg) \<union> set cands
     \<and> set (as_NumberList seg) \<subseteq> set (as_NumberList (put_candidates seg cands))"
proof (induction cands arbitrary: seg)
  case (Cons c cands)
  show ?case
  proof (cases "AckSegment_IsFull seg")
    case False
    with Cons.prems have "int (length (as_NumberList (PutNumber c seg))) \<le> as_Limit (PutNumber c seg)"
      by (simp add: AckSegment_IsFull_def)
    from Cons.IH [OF this] False show ?thesis by auto
  qed (use Cons.prems in auto)
qed simp

definition ack_limit :: "u32 \<Rightarrow> int" where
  "ack_limit mss = as_Limit (NewAckSegment ((uint mss - 17) sdiv 4))"

lemma ack_limit_bounds: "1 \<le> ack_limit mss" "ack_limit mss \<le> 128"
  by (simp_all add: ack_limit_def NewAckSegment_facts(2,3))

text \<open>
  \<^verbatim>\<open>Flush\<close>: the acknowledgements written hold every number that is due and only numbers of the list,
  none holds more than the limit, and the list keeps its entries.
\<close>

lemma AckList_Flush_spec:
  assumes "al_ok l" and "AckList_Flush current rt l = (out, l')"
  shows "al_ok l'" and "al_numbers l' = al_numbers l" and "al_timestamps l' = al_timestamps l"
    and "\<forall>seg \<in> set out. set (as_NumberList seg) \<subseteq> set (al_numbers l)
           \<and> int (length (as_NumberList seg)) \<le> ack_limit (al_mss l)"
    and "\<forall>i < length (al_numbers l). al_nextFlush l ! i \<le> current \<longrightarrow>
           (\<exists>seg \<in> set out. al_numbers l ! i \<in> set (as_NumberList seg))"
proof -
  define lim where "lim = (uint (al_mss l) - 17) sdiv 4"
  define ents where "ents = zip (al_numbers l) (zip (al_timestamps l) (al_nextFlush l))"
  obtain seg nfs cands dirty o1 where
    r: "ack_flush_loop current rt lim (NewAckSegment lim) [] (al_dirty l) ents = (seg, nfs, cands, dirty, o1)"
    by (metis prod_cases5)
  note spec = ack_flush_loop_spec [OF NewAckSegment_room refl r, unfolded NewAckSegment_facts(1) append_Nil]
  have lens: "length ents = length (al_numbers l)" and "map fst ents = al_numbers l"
    using assms(1) by (simp_all add: ents_def al_ok_def)
  then have fsts: "fst ` set ents = set (al_numbers l)"
    by (metis list.set_map)
  have res: "out = (if dirty \<or> \<not> AckSegment_IsEmpty seg then o1 @ [put_candidates seg cands] else o1)"
    "al_numbers l' = al_numbers l" "al_timestamps l' = al_timestamps l" "al_nextFlush l' = nfs"
    using assms(2) r by (auto simp: AckList_Flush_def Let_def lim_def ents_def split: if_splits)
  then show "al_numbers l' = al_numbers l" "al_timestamps l' = al_timestamps l" by simp_all
  from spec res lens assms(1) show "al_ok l'" by (simp add: al_ok_def)
  have due: "fst ` set (filter (\<lambda>(_, _, nf). \<not> current < nf) ents) \<subseteq> set (al_numbers l)"
    using fsts by auto
  have all: "set (as_NumberList seg) \<union> (\<Union>s \<in> set o1. set (as_NumberList s)) =
      fst ` set (filter (\<lambda>(_, _, nf). \<not> current < nf) ents)"
    using arg_cong [OF conjunct1 [OF spec], of set] by auto
  have pc: "int (length (as_NumberList (put_candidates seg cands))) \<le> as_Limit seg"
    "set (as_NumberList (put_candidates seg cands)) \<subseteq> set (as_NumberList seg) \<union> set cands"
    "set (as_NumberList seg) \<subseteq> set (as_NumberList (put_candidates seg cands))"
    using put_candidates_spec [of seg cands] spec by auto
  have lim: "as_Limit (NewAckSegment lim) = ack_limit (al_mss l)"
    by (simp add: ack_limit_def lim_def)
  show "\<forall>seg \<in> set out. set (as_NumberList seg) \<subseteq> set (al_numbers l)
      \<and> int (length (as_NumberList seg)) \<le> ack_limit (al_mss l)"
  proof
    fix s assume "s \<in> set out"
    then consider "s \<in> set o1" | "s = put_candidates seg cands"
      using res(1) by (auto split: if_splits)
    then show "set (as_NumberList s) \<subseteq> set (al_numbers l) \<and> int (length (as_NumberList s)) \<le> ack_limit (al_mss l)"
    proof cases
      case 1
      with spec lim all due show ?thesis by auto
    next
      case 2
      have "set (as_NumberList seg) \<subseteq> set (al_numbers l)" "set cands \<subseteq> set (al_numbers l)"
        using all due spec fsts by auto
      with 2 pc(1,2) spec lim show ?thesis by auto
    qed
  qed
  show "\<forall>i < length (al_numbers l). al_nextFlush l ! i \<le> current \<longrightarrow>
      (\<exists>seg \<in> set out. al_numbers l ! i \<in> set (as_NumberList seg))"
  proof (intro allI impI)
    fix i assume i: "i < length (al_numbers l)" "al_nextFlush l ! i \<le> current"
    then have "(al_numbers l ! i, al_timestamps l ! i, al_nextFlush l ! i) \<in> set ents"
      using assms(1) by (auto simp: ents_def al_ok_def set_zip)
    with i have "al_numbers l ! i \<in> fst ` set (filter (\<lambda>(_, _, nf). \<not> current < nf) ents)"
      by force
    with all consider "al_numbers l ! i \<in> set (as_NumberList seg)"
      | s where "s \<in> set o1" "al_numbers l ! i \<in> set (as_NumberList s)" by blast
    then show "\<exists>seg \<in> set out. al_numbers l ! i \<in> set (as_NumberList seg)"
    proof cases
      case 1
      then have "\<not> AckSegment_IsEmpty seg" by (auto simp: AckSegment_IsEmpty_def)
      with 1 pc res(1) show ?thesis by auto
    next
      case 2
      with res(1) show ?thesis by auto
    qed
  qed
qed

section \<open>What the worker has received\<close>

definition received :: "ReceivingWorker \<Rightarrow> nat \<Rightarrow> bool" where
  "received w n \<longleftrightarrow> n < unat (rw_nextNumber w) \<or> (\<exists>k. rw_window w k \<noteq> None \<and> unat k = n)"

definition left_mb :: "ReceivingWorker \<Rightarrow> MultiBuffer" where
  "left_mb w = (case rw_leftOver w of None \<Rightarrow> [] | Some mb \<Rightarrow> mb)"

definition window_ok :: "byte list list \<Rightarrow> ReceivingWindow \<Rightarrow> bool" where
  "window_ok log cache \<longleftrightarrow> (\<forall>k seg. cache k = Some seg \<longrightarrow> ds_Number seg = k \<and> seg_matches log seg)"

definition rv_ok :: "byte list list \<Rightarrow> ReceivingWorker \<Rightarrow> bool" where
  "rv_ok log w \<longleftrightarrow> unat (rw_nextNumber w) \<le> length log \<and> window_ok log (rw_window w)
     \<and> mb_inv (left_mb w) \<and> al_ok (rw_acklist w)
     \<and> (\<forall>n \<in> set (al_numbers (rw_acklist w)). received w (unat n))"

lemma window_ok_append: "window_ok log cache \<Longrightarrow> window_ok (log @ extra) cache"
  by (auto simp: window_ok_def seg_matches_append)

lemma rv_ok_append: "rv_ok log w \<Longrightarrow> rv_ok (log @ extra) w"
  by (auto simp: rv_ok_def window_ok_append)

lemma rv_ok_New: "rv_ok [] (NewReceivingWorker mss sz)"
  by (simp add: rv_ok_def NewReceivingWorker_def NewReceivingWindow_def window_ok_def left_mb_def al_ok_New)
     (simp add: NewAckList_def)

text \<open>The worker keeps what it has and its next number never goes back.\<close>

definition keeps :: "ReceivingWorker \<Rightarrow> ReceivingWorker \<Rightarrow> bool" where
  "keeps w w' \<longleftrightarrow> (\<forall>n. received w n \<longrightarrow> received w' n) \<and> unat (rw_nextNumber w) \<le> unat (rw_nextNumber w')"

lemma keeps_refl [simp, intro]: "keeps w w"
  by (simp add: keeps_def)

lemma keeps_trans: "keeps w w' \<Longrightarrow> keeps w' w'' \<Longrightarrow> keeps w w''"
  by (auto simp: keeps_def)

lemma rv_ok_ProcessSendingNext:
  "rv_ok log w \<Longrightarrow> rv_ok log (ProcessSendingNext n w) \<and> keeps w (ProcessSendingNext n w)
     \<and> left_mb (ProcessSendingNext n w) = left_mb w \<and> rw_nextNumber (ProcessSendingNext n w) = rw_nextNumber w"
  by (auto simp: rv_ok_def ProcessSendingNext_def AckList_Clear_numbers al_ok_Clear left_mb_def keeps_def
      received_def)

lemma rv_ok_ProcessSegment:
  assumes "rv_ok log w" and "seg_matches log seg"
  defines "w' \<equiv> fst (ReceivingWorker_ProcessSegment seg w)"
  shows "rv_ok log w' \<and> keeps w w' \<and> left_mb w' = left_mb w \<and> rw_nextNumber w' = rw_nextNumber w"
proof (cases "rw_windowSize w \<le> ds_Number seg - rw_nextNumber w")
  case True
  then show ?thesis using assms(1) by (simp add: w'_def ReceivingWorker_ProcessSegment_def)
next
  case False
  define acks where "acks = AckList_Add (ds_Number seg) (ds_Timestamp seg)
    (AckList_Clear (ds_SendingNext seg) (rw_acklist w))"
  define cache where "cache = snd (ReceivingWindow_Set (rw_window w) (ds_Number seg) seg)"
  have w': "w' = w\<lparr>rw_acklist := acks, rw_window := cache\<rparr>"
    using False by (simp add: w'_def ReceivingWorker_ProcessSegment_def Let_def acks_def cache_def
        split: prod.splits)
  have cache: "cache (ds_Number seg) \<noteq> None" "\<And>k. rw_window w k \<noteq> None \<Longrightarrow> cache k = rw_window w k"
    "\<And>k. k \<noteq> ds_Number seg \<Longrightarrow> cache k = rw_window w k"
    "cache (ds_Number seg) = Some seg \<or> cache (ds_Number seg) = rw_window w (ds_Number seg)"
    by (auto simp: cache_def ReceivingWindow_Set_def split: option.splits)
  have "window_ok log cache"
    unfolding window_ok_def
  proof (intro allI impI)
    fix k s assume k: "cache k = Some s"
    show "ds_Number s = k \<and> seg_matches log s"
      using assms(1,2) k cache(3) [of k] cache(4)
      by (cases "k = ds_Number seg") (auto simp: rv_ok_def window_ok_def)
  qed
  moreover have keep: "received w' n" if "received w n" for n
    using that cache(2) by (force simp: received_def w')
  moreover have "received w' (unat (ds_Number seg))"
    using cache(1) by (auto simp: received_def w')
  moreover have "set (al_numbers acks) \<subseteq> insert (ds_Number seg) (set (al_numbers (rw_acklist w)))"
    by (auto simp: acks_def AckList_Add_def AckList_Clear_numbers)
  moreover have "al_ok acks"
    using assms(1) by (simp add: acks_def rv_ok_def al_ok_Add al_ok_Clear)
  ultimately show ?thesis
    using assms(1) by (auto simp: rv_ok_def w' left_mb_def keeps_def)
qed

declare receive_loop.simps [simp del]

lemma unat_next:
  assumes "unat (n :: u32) < m" and "m < 4294967296"
  shows "unat (n + 1) = Suc (unat n)"
proof -
  have "n + 1 = of_nat (Suc (unat n))" by simp
  then show ?thesis using assms by (metis Suc_leI le_less_trans unat_of_nat_u32)
qed

text \<open>
  The loop of \<^verbatim>\<open>ReadMultiBuffer\<close> takes the longest run of consecutive numbers that has arrived.
\<close>

lemma receive_loop_spec:
  assumes "length log < 4294967296"
  shows "window_ok log cache \<Longrightarrow> unat next \<le> length log \<Longrightarrow> mb_inv mb \<Longrightarrow>
    receive_loop cache next mb = (cache', next', mb') \<Longrightarrow>
      window_ok log cache' \<and> unat next \<le> unat next' \<and> unat next' \<le> length log \<and> mb_inv mb'
      \<and> mcontent mb' = mcontent mb @ concat (take (unat next' - unat next) (drop (unat next) log))
      \<and> cache' next' = None
      \<and> (\<forall>k. cache k \<noteq> None \<longrightarrow> cache' k \<noteq> None \<or> unat k < unat next')
      \<and> (\<forall>k. cache' k \<noteq> None \<longrightarrow> cache' k = cache k)"
proof (induction cache "next" mb rule: receive_loop.induct)
  case (1 cache "next" mb)
  show ?case
  proof (cases "cache next")
    case None
    then have "receive_loop cache next mb = (cache, next, mb)"
      by (subst receive_loop.simps) (simp add: ReceivingWindow_Remove_def)
    with "1.prems" None show ?thesis by simp
  next
    case (Some seg)
    let ?c = "cache(next := None)"
    from "1.prems"(1) Some have m: "ds_Number seg = next" "seg_matches log seg"
      by (auto simp: window_ok_def)
    then obtain b where b: "ds_payload seg = Some b" "buf_inv b" "content b = log ! unat next"
        and lt: "unat next < length log"
      by (auto simp: seg_matches_def)
    have suc: "unat (next + 1) = Suc (unat next)"
      by (rule unat_next [OF lt assms])
    have rm: "ReceivingWindow_Remove cache next = (Some seg, ?c)"
      using Some by (simp add: ReceivingWindow_Remove_def)
    have pay: "fst (DataSegment_Detach seg) = Some b" using b(1) by (simp add: DataSegment_Detach_def)
    have loop: "receive_loop ?c (next + 1) (mb @ [b]) = (cache', next', mb')"
      using "1.prems"(4) rm b(1) by (subst (asm) receive_loop.simps) (simp add: DataSegment_Detach_def)
    have wok: "window_ok log ?c" using "1.prems"(1) by (auto simp: window_ok_def)
    have ih: "window_ok log cache' \<and> unat (next + 1) \<le> unat next' \<and> unat next' \<le> length log \<and> mb_inv mb'
      \<and> mcontent mb' = mcontent (mb @ [b]) @ concat (take (unat next' - unat (next + 1)) (drop (unat (next + 1)) log))
      \<and> cache' next' = None
      \<and> (\<forall>k. ?c k \<noteq> None \<longrightarrow> cache' k \<noteq> None \<or> unat k < unat next')
      \<and> (\<forall>k. cache' k \<noteq> None \<longrightarrow> cache' k = ?c k)"
      by (rule "1.IH" [OF rm [symmetric] refl wok, unfolded pay option.case])
         (use "1.prems"(3) suc lt b loop in \<open>simp_all add: fun_upd_def\<close>)
    have step: "concat (take (unat next' - unat next) (drop (unat next) log)) =
        log ! unat next @ concat (take (unat next' - Suc (unat next)) (drop (Suc (unat next)) log))"
    proof -
      have "unat next' - unat next = Suc (unat next' - Suc (unat next))" using ih suc by linarith
      moreover have "drop (unat next) log = log ! unat next # drop (Suc (unat next)) log"
        using lt by (simp add: Cons_nth_drop_Suc)
      ultimately show ?thesis by simp
    qed
    show ?thesis
    proof (intro conjI allI impI)
      show "cache' k \<noteq> None \<or> unat k < unat next'" if "cache k \<noteq> None" for k
        using ih suc that by (cases "k = next") auto
      show "cache' k = cache k" if "cache' k \<noteq> None" for k
        using ih that by (cases "k = next") auto
    qed (use ih suc step b in auto)
  qed
qed

text \<open>
  \<open>rd\<close> stands for the bytes handed out so far: with the left-over they are the payloads below the next
  number, and reads keep it so.
\<close>

definition stream_at :: "byte list list \<Rightarrow> byte list \<Rightarrow> ReceivingWorker \<Rightarrow> bool" where
  "stream_at log rd w \<longleftrightarrow> rd @ mcontent (left_mb w) = concat (take (unat (rw_nextNumber w)) log)"

lemma ReadMultiBuffer_spec:
  assumes "rv_ok log w" and "length log < 4294967296" and "ReceivingWorker_ReadMultiBuffer w = (mb, w')"
    and "stream_at log rd w"
  shows "rv_ok log w' \<and> keeps w w' \<and> mb_inv mb \<and> rw_leftOver w' = None \<and> stream_at log (rd @ mcontent mb) w'"
proof (cases "rw_leftOver w")
  case (Some left)
  with assms(3) have "mb = left" "w' = w\<lparr>rw_leftOver := None\<rparr>"
    by (auto simp: ReceivingWorker_ReadMultiBuffer_def)
  with Some assms(1,4) show ?thesis
    by (auto simp: rv_ok_def left_mb_def keeps_def received_def stream_at_def)
next
  case None
  obtain cache nxt where loop: "receive_loop (rw_window w) (rw_nextNumber w) [] = (cache, nxt, mb)"
    and w': "w' = w\<lparr>rw_window := cache, rw_nextNumber := nxt\<rparr>"
    using assms(3) None by (auto simp: ReceivingWorker_ReadMultiBuffer_def split: prod.splits)
  note spec = receive_loop_spec [OF assms(2) _ _ _ loop]
  have ok: "window_ok log (rw_window w)" "unat (rw_nextNumber w) \<le> length log"
    using assms(1) by (auto simp: rv_ok_def)
  note spec = spec [OF ok mb_inv_simps(1)]
  have keep: "received w' n" if "received w n" for n
  proof -
    from that consider "n < unat (rw_nextNumber w)" | k where "rw_window w k \<noteq> None" "unat k = n"
      by (auto simp: received_def)
    then show ?thesis
    proof cases
      case 1
      with spec have "n < unat nxt" by linarith
      then show ?thesis by (simp add: received_def w')
    next
      case 2
      with spec have "cache k \<noteq> None \<or> n < unat nxt" by blast
      with 2(2) show ?thesis by (auto simp: received_def w')
    qed
  qed
  have "take (unat nxt) log = take (unat (rw_nextNumber w)) log
      @ take (unat nxt - unat (rw_nextNumber w)) (drop (unat (rw_nextNumber w)) log)"
    using spec by (metis le_add_diff_inverse take_add)
  then have "stream_at log (rd @ mcontent mb) w'"
    using assms(4) spec None by (simp add: stream_at_def w' left_mb_def)
  then show ?thesis
    using spec None assms(1) keep by (auto simp: rv_ok_def keeps_def w' left_mb_def)
qed

lemma ReceivingWorker_Read_spec:
  assumes "rv_ok log w" and "length log < 4294967296" and "stream_at log rd w"
  shows "\<exists>bs w'. ReceivingWorker_Read n w = Some (bs, w') \<and> rv_ok log w' \<and> keeps w w'
    \<and> stream_at log (rd @ bs) w'"
proof -
  obtain mb w1 where r: "ReceivingWorker_ReadMultiBuffer w = (mb, w1)" by fastforce
  from ReadMultiBuffer_spec [OF assms(1,2) r assms(3)] have
    w1: "rv_ok log w1" "keeps w w1" "mb_inv mb" "rw_leftOver w1 = None" "stream_at log (rd @ mcontent mb) w1"
    by blast+
  show ?thesis
  proof (cases "MultiBuffer_IsEmpty mb")
    case True
    with w1 r show ?thesis by (simp add: ReceivingWorker_Read_def MultiBuffer_IsEmpty_mcontent)
  next
    case False
    from SplitBytes_spec [OF w1(3), of n] obtain rest rel where
      s: "SplitBytes mb n = Some (rest, take n (mcontent mb), rel)" "mb_inv rest" "mcontent rest = drop n (mcontent mb)"
      by blast
    define w2 where "w2 = (if \<not> MultiBuffer_IsEmpty rest then w1\<lparr>rw_leftOver := Some rest\<rparr> else w1)"
    have "ReceivingWorker_Read n w = Some (take n (mcontent mb), w2)"
      using False r s by (simp add: ReceivingWorker_Read_def w2_def)
    moreover have "rv_ok log w2" "keeps w w2"
      using w1 s by (auto simp: w2_def rv_ok_def left_mb_def keeps_def received_def)
    moreover have "stream_at log (rd @ take n (mcontent mb)) w2"
      using w1(4,5) s by (auto simp: w2_def stream_at_def left_mb_def MultiBuffer_IsEmpty_mcontent)
    ultimately show ?thesis by blast
  qed
qed

text \<open>
  \<^verbatim>\<open>Flush\<close>: the acknowledgements are truthful. They name only numbers that were received, with the
  worker's next number, and they are encodable.
\<close>

lemma ReceivingWorker_Flush_spec:
  assumes "rv_ok log w" and "ReceivingWorker_Flush conv rtc rt current w = (out, w')"
  shows "rv_ok log w' \<and> keeps w w' \<and> left_mb w' = left_mb w \<and> rw_nextNumber w' = rw_nextNumber w
    \<and> (\<forall>seg \<in> set out. as_ReceivingNext seg = rw_nextNumber w \<and> length (as_NumberList seg) < 256
         \<and> (\<forall>n \<in> set (as_NumberList seg). received w (unat n)))"
proof -
  obtain o1 l where f: "AckList_Flush current rt (rw_acklist w) = (o1, l)" by fastforce
  with assms(2) have w': "out = map (ReceivingWorker_Write conv rtc w) o1" "w' = w\<lparr>rw_acklist := l\<rparr>"
    by (auto simp: ReceivingWorker_Flush_def)
  have "al_ok (rw_acklist w)" using assms(1) by (simp add: rv_ok_def)
  note spec = AckList_Flush_spec [OF this f]
  have nums: "set (as_NumberList seg) \<subseteq> set (al_numbers (rw_acklist w)) \<and> length (as_NumberList seg) < 256"
    if "seg \<in> set o1" for seg
    using spec(4) ack_limit_bounds(2) [of "al_mss (rw_acklist w)"] that by fastforce
  have rcv: "received w (unat n)" if "n \<in> set (al_numbers (rw_acklist w))" for n
    using assms(1) that by (simp add: rv_ok_def)
  show ?thesis
    using assms(1) spec(1,2) nums rcv
    by (auto simp: w' rv_ok_def left_mb_def keeps_def received_def ReceivingWorker_Write_def)
qed

section \<open>The window bound\<close>

text \<open>Every way the worker's state changes, for segments from any peer.\<close>

inductive recv_reachable :: "u32 \<Rightarrow> u32 \<Rightarrow> ReceivingWorker \<Rightarrow> bool" for mss sz where
  rr_new: "recv_reachable mss sz (NewReceivingWorker mss sz)"
| rr_segment: "recv_reachable mss sz w \<Longrightarrow> recv_reachable mss sz (fst (ReceivingWorker_ProcessSegment seg w))"
| rr_next: "recv_reachable mss sz w \<Longrightarrow> recv_reachable mss sz (ProcessSendingNext n w)"
| rr_read: "recv_reachable mss sz w \<Longrightarrow> recv_reachable mss sz (snd (ReceivingWorker_ReadMultiBuffer w))"
| rr_read_bytes: "recv_reachable mss sz w \<Longrightarrow> ReceivingWorker_Read n w = Some (bs, w') \<Longrightarrow> recv_reachable mss sz w'"
| rr_flush: "recv_reachable mss sz w \<Longrightarrow>
    recv_reachable mss sz (snd (ReceivingWorker_Flush conv rtc rt current w))"
| rr_release: "recv_reachable mss sz w \<Longrightarrow> recv_reachable mss sz (fst (ReceivingWorker_Release w))"

definition win_bound :: "u32 \<Rightarrow> ReceivingWindow \<Rightarrow> u32 \<Rightarrow> bool" where
  "win_bound sz cache nxt \<longleftrightarrow> (\<forall>k. cache k \<noteq> None \<longrightarrow> k - nxt < sz)"

lemma win_bound_next:
  assumes "win_bound sz cache nxt"
  shows "win_bound sz (cache(nxt := None)) (nxt + 1)"
  unfolding win_bound_def
proof (intro allI impI)
  fix k assume k: "(cache(nxt := None)) k \<noteq> None"
  then have "k - nxt < sz" "k - nxt \<noteq> 0"
    using assms by (auto simp: win_bound_def split: if_splits)
  moreover from \<open>k - nxt \<noteq> 0\<close> have "unat (k - nxt - 1) = unat (k - nxt) - 1"
    by (rule unat_minus_one)
  ultimately show "k - (nxt + 1) < sz"
    by (simp add: word_less_nat_alt diff_diff_eq)
qed

lemma receive_loop_bound:
  "win_bound sz cache nxt \<Longrightarrow> receive_loop cache nxt mb = (cache', nxt', mb') \<Longrightarrow> win_bound sz cache' nxt'"
proof (induction cache nxt mb rule: receive_loop.induct)
  case (1 cache nxt mb)
  show ?case
  proof (cases "cache nxt")
    case None
    with "1.prems" show ?thesis
      by (subst (asm) receive_loop.simps) (simp add: ReceivingWindow_Remove_def)
  next
    case (Some seg)
    then have rm: "ReceivingWindow_Remove cache nxt = (Some seg, cache(nxt := None))"
      by (simp add: ReceivingWindow_Remove_def)
    from "1.prems"(2) rm have "receive_loop (cache(nxt := None)) (nxt + 1)
        (case fst (DataSegment_Detach seg) of None \<Rightarrow> mb | Some b \<Rightarrow> mb @ [b]) = (cache', nxt', mb')"
      by (subst (asm) receive_loop.simps) simp
    from "1.IH" [OF rm [symmetric] refl win_bound_next [OF "1.prems"(1)] this] show ?thesis .
  qed
qed

lemma ReadMultiBuffer_bound:
  "win_bound sz (rw_window w) (rw_nextNumber w) \<Longrightarrow> ReceivingWorker_ReadMultiBuffer w = (mb, w') \<Longrightarrow>
     win_bound sz (rw_window w') (rw_nextNumber w') \<and> rw_windowSize w' = rw_windowSize w"
  using receive_loop_bound
  by (auto simp: ReceivingWorker_ReadMultiBuffer_def split: option.splits prod.splits)

lemma ProcessSegment_bound:
  "win_bound (rw_windowSize w) (rw_window w) (rw_nextNumber w) \<Longrightarrow>
     win_bound (rw_windowSize w) (rw_window (fst (ReceivingWorker_ProcessSegment seg w))) (rw_nextNumber w)
     \<and> rw_nextNumber (fst (ReceivingWorker_ProcessSegment seg w)) = rw_nextNumber w
     \<and> rw_windowSize (fst (ReceivingWorker_ProcessSegment seg w)) = rw_windowSize w"
  by (auto simp: ReceivingWorker_ProcessSegment_def Let_def win_bound_def ReceivingWindow_Set_def
      split: prod.splits option.splits if_splits)

lemma recv_reachable_bound:
  "recv_reachable mss sz w \<Longrightarrow> win_bound sz (rw_window w) (rw_nextNumber w) \<and> rw_windowSize w = sz"
proof (induction rule: recv_reachable.induct)
  case (rr_segment w seg)
  then show ?case using ProcessSegment_bound [of w seg] by simp
next
  case (rr_read w)
  obtain mb w' where "ReceivingWorker_ReadMultiBuffer w = (mb, w')" by fastforce
  with rr_read show ?case using ReadMultiBuffer_bound [of sz w mb w'] by simp
next
  case (rr_read_bytes w n bs w')
  obtain mb w1 where r: "ReceivingWorker_ReadMultiBuffer w = (mb, w1)" by fastforce
  with rr_read_bytes have "win_bound sz (rw_window w1) (rw_nextNumber w1) \<and> rw_windowSize w1 = sz"
    using ReadMultiBuffer_bound [of sz w mb w1] by simp
  moreover have "rw_window w' = rw_window w1 \<and> rw_nextNumber w' = rw_nextNumber w1 \<and> rw_windowSize w' = rw_windowSize w1"
    using rr_read_bytes.hyps(2) r
    by (auto simp: ReceivingWorker_Read_def Let_def split: if_splits bind_splits)
  ultimately show ?case by simp
qed (auto simp: NewReceivingWorker_def NewReceivingWindow_def win_bound_def ProcessSendingNext_def
    ReceivingWorker_Flush_def ReceivingWorker_Release_def split: prod.splits)

section \<open>Properties\<close>

text \<open>
  C16. The receiving window is bounded: whatever segments a peer sends and however the worker is
  read, the segments it buffers have distinct numbers within the window above the next number, so
  there are never more of them than the window size.
\<close>
theorem receiving_window_bounded:
  assumes "recv_reachable mss sz w"
  shows "card (dom (rw_window w)) \<le> unat sz \<and> (\<forall>k \<in> dom (rw_window w). k - rw_nextNumber w < sz)"
proof -
  from recv_reachable_bound [OF assms] have b: "\<forall>k \<in> dom (rw_window w). k - rw_nextNumber w < sz"
    by (auto simp: win_bound_def)
  have "card (dom (rw_window w)) \<le> card {..<unat sz}"
  proof (rule card_inj_on_le [where f = "\<lambda>k. unat (k - rw_nextNumber w)"])
    show "inj_on (\<lambda>k. unat (k - rw_nextNumber w)) (dom (rw_window w))"
    proof (rule inj_onI)
      fix x y :: u32 assume "unat (x - rw_nextNumber w) = unat (y - rw_nextNumber w)"
      then have "x - rw_nextNumber w = y - rw_nextNumber w" by (simp only: word_unat_eq_iff)
      then show "x = y" by simp
    qed
    show "(\<lambda>k. unat (k - rw_nextNumber w)) ` dom (rw_window w) \<subseteq> {..<unat sz}"
      using b by (auto simp: word_less_nat_alt)
  qed simp
  with b show ?thesis by simp
qed

theorem receiving_window_bounded_witness:
  "card (dom (rw_window (fst (ReceivingWorker_ProcessSegment NewDataSegment (NewReceivingWorker 1332 8))))) \<le> 8"
  using receiving_window_bounded [OF rr_segment [OF rr_new], of NewDataSegment 1332 8] by simp

text \<open>
  The acknowledgement flush is complete, truthful and fits the packet size: every number that
  is due appears in one of the acknowledgements written, they name only numbers on the list, none
  is larger than the maximum segment size, and the list itself keeps its entries in step.
\<close>
theorem ack_flush_complete:
  assumes "al_ok l" and "AckList_Flush current rt l = (out, l')" and "21 \<le> al_mss l"
  shows "al_ok l' \<and> al_numbers l' = al_numbers l
    \<and> (\<forall>i < length (al_numbers l). al_nextFlush l ! i \<le> current \<longrightarrow>
         (\<exists>seg \<in> set out. al_numbers l ! i \<in> set (as_NumberList seg)))
    \<and> (\<forall>seg \<in> set out. set (as_NumberList seg) \<subseteq> set (al_numbers l) \<and> AckSegment_ByteSize seg \<le> uint (al_mss l))"
proof -
  note spec = AckList_Flush_spec [OF assms(1,2)]
  have m: "21 \<le> uint (al_mss l)"
    using assms(3) by (simp add: word_le_def)
  define lim where "lim = (uint (al_mss l) - 17) div 4"
  have "(uint (al_mss l) - 17) sdiv 4 = lim"
    using m by (simp add: signed_divide_int_def lim_def)
  moreover have "1 \<le> lim" using m by (simp add: lim_def)
  ultimately have "ack_limit (al_mss l) \<le> lim"
    by (simp add: ack_limit_def NewAckSegment_facts(4))
  moreover have "17 + 4 * lim \<le> uint (al_mss l)"
    by (simp add: lim_def)
  ultimately have size: "AckSegment_ByteSize seg \<le> uint (al_mss l)" if "seg \<in> set out" for seg
  proof -
    from spec(4) that have n: "int (length (as_NumberList seg)) \<le> ack_limit (al_mss l)" by blast
    with ack_limit_bounds(2) [of "al_mss l"] have "int (length (as_NumberList seg)) \<le> 128" by linarith
    then have "AckSegment_ByteSize seg = 17 + 4 * int (length (as_NumberList seg))"
      by (simp add: AckSegment_ByteSize_def)
    with n \<open>ack_limit (al_mss l) \<le> lim\<close> \<open>17 + 4 * lim \<le> uint (al_mss l)\<close> show ?thesis by linarith
  qed
  with spec show ?thesis by blast
qed

theorem ack_flush_complete_witness:
  "\<exists>out l'. AckList_Flush 100 200 (AckList_Add 7 50 (NewAckList 1350)) = (out, l')
     \<and> (\<exists>seg \<in> set out. 7 \<in> set (as_NumberList seg) \<and> AckSegment_ByteSize seg \<le> 1350)"
proof -
  let ?l = "AckList_Add 7 50 (NewAckList 1350)"
  obtain out l' where f: "AckList_Flush 100 200 ?l = (out, l')" by fastforce
  have ok: "al_ok ?l" by (intro al_ok_Add al_ok_New)
  have l: "al_numbers ?l = [7]" "al_nextFlush ?l = [0]" "al_mss ?l = 1350"
    by (simp_all add: AckList_Add_def NewAckList_def)
  from ack_flush_complete [OF ok f] f show ?thesis
    by (simp add: l)
qed

end
