(* ===== verification/Kcp_Sending.thy ===== *)
theory Kcp_Sending
  imports Kcp_Segment
begin

text \<open>
  \<^verbatim>\<open>transport/internet/kcp/sending.go\<close> and \<^verbatim>\<open>config.go\<close>: the sending window, a list of the data
  segments not yet acknowledged, and the sending worker. The worker's view of its connection (the
  conversation number, the round-trip timeout, the state, the configured in-flight size) is passed
  as arguments; segments written to the output, the round-trip sample of an acknowledgement and
  the wish for a ping are returned.
\<close>

section \<open>Configuration\<close>

record Config =
  Mtu :: u32
  Tti :: u32
  UplinkCapacity :: u32
  DownlinkCapacity :: u32
  CwndMultiplier :: u32
  MaxSendingWindow :: u32

definition default_Config :: Config where
  "default_Config = \<lparr>Mtu = 1350, Tti = 50, UplinkCapacity = 5, DownlinkCapacity = 20,
     CwndMultiplier = 1, MaxSendingWindow = 2 * 1024 * 1024\<rparr>"

text \<open>Integer division panics on a zero divisor.\<close>

definition go_div :: "u32 \<Rightarrow> u32 \<Rightarrow> u32 go" where
  "go_div a b = (if b = 0 then None else Some (a div b))"

definition inFlightSize :: "u32 \<Rightarrow> Config \<Rightarrow> u32 go" where
  "inFlightSize capacity c = do {
     perMtu \<leftarrow> go_div (capacity * 1024 * 1024) (Mtu c);
     ticks \<leftarrow> go_div 1000 (Tti c);
     sz \<leftarrow> go_div perMtu ticks;
     Some (if sz < 8 then 8 else sz)
   }"

definition GetSendingInFlightSize :: "Config \<Rightarrow> u32 go" where
  "GetSendingInFlightSize c = inFlightSize (UplinkCapacity c) c"

definition GetSendingBufferSize :: "Config \<Rightarrow> u32 go" where
  "GetSendingBufferSize c = go_div (MaxSendingWindow c) (Mtu c)"

definition GetReceivingInFlightSize :: "Config \<Rightarrow> u32 go" where
  "GetReceivingInFlightSize c = inFlightSize (DownlinkCapacity c) c"

section \<open>The sending window\<close>

record SendingWindow =
  sw_cache :: "DataSegment list"
  sw_totalInFlightSize :: u32

definition NewSendingWindow :: SendingWindow where
  "NewSendingWindow = \<lparr>sw_cache = [], sw_totalInFlightSize = 0\<rparr>"

definition SendingWindow_Release :: "SendingWindow \<Rightarrow> SendingWindow \<times> recycled list" where
  "SendingWindow_Release sw =
     (sw\<lparr>sw_cache := []\<rparr>, map (\<lambda>seg. snd (DataSegment_Release seg)) (sw_cache sw))"

definition SendingWindow_Len :: "SendingWindow \<Rightarrow> u32" where
  "SendingWindow_Len sw = of_nat (length (sw_cache sw))"

definition SendingWindow_IsEmpty :: "SendingWindow \<Rightarrow> bool" where
  "SendingWindow_IsEmpty sw \<longleftrightarrow> sw_cache sw = []"

definition SendingWindow_Push :: "u32 \<Rightarrow> Buffer \<Rightarrow> SendingWindow \<Rightarrow> SendingWindow" where
  "SendingWindow_Push number b sw =
     sw\<lparr>sw_cache := sw_cache sw @ [NewDataSegment\<lparr>ds_Number := number, ds_payload := Some b\<rparr>]\<rparr>"

definition FirstNumber :: "SendingWindow \<Rightarrow> u32 go" where
  "FirstNumber sw = (case sw_cache sw of [] \<Rightarrow> None | seg # _ \<Rightarrow> Some (ds_Number seg))"

fun clear_loop :: "u32 \<Rightarrow> DataSegment list \<Rightarrow> DataSegment list \<times> recycled list" where
  "clear_loop una [] = ([], [])"
| "clear_loop una (seg # cache) =
     (if ds_Number seg \<ge> una then (seg # cache, [])
      else let (rest, rel) = clear_loop una cache in (rest, snd (DataSegment_Release seg) # rel))"

definition SendingWindow_Clear :: "u32 \<Rightarrow> SendingWindow \<Rightarrow> SendingWindow \<times> recycled list" where
  "SendingWindow_Clear una sw =
     (let (cache, rel) = clear_loop una (sw_cache sw) in (sw\<lparr>sw_cache := cache\<rparr>, rel))"

text \<open>\<^verbatim>\<open>Visit\<close> with the visitor of \<^verbatim>\<open>HandleFastAck\<close>, which stops at the acknowledged number.\<close>

fun fast_ack_visit :: "u32 \<Rightarrow> u32 \<Rightarrow> DataSegment list \<Rightarrow> DataSegment list" where
  "fast_ack_visit number rto [] = []"
| "fast_ack_visit number rto (seg # cache) =
     (if number = ds_Number seg \<or> number - ds_Number seg > 0x7FFFFFFF then seg # cache
      else (if ds_transmit seg > 0 \<and> ds_timeout seg > rto div 3
            then seg\<lparr>ds_timeout := ds_timeout seg - rto div 3\<rparr> else seg)
           # fast_ack_visit number rto cache)"

definition HandleFastAck :: "u32 \<Rightarrow> u32 \<Rightarrow> SendingWindow \<Rightarrow> SendingWindow" where
  "HandleFastAck number rto sw = sw\<lparr>sw_cache := fast_ack_visit number rto (sw_cache sw)\<rparr>"

text \<open>
  \<^verbatim>\<open>Visit\<close> with the visitor of \<^verbatim>\<open>Flush\<close>. The counters are \<^verbatim>\<open>totalInFlightSize\<close>, \<^verbatim>\<open>lost\<close> and
  \<^verbatim>\<open>inFlightSize\<close>; \<open>write\<close> completes a segment, which stays in the window as it was sent.
\<close>

fun flush_visit :: "(DataSegment \<Rightarrow> DataSegment) \<Rightarrow> u32 \<Rightarrow> u32 \<Rightarrow> u32 \<Rightarrow> u32 \<times> u32 \<times> u32 \<Rightarrow> DataSegment list
    \<Rightarrow> DataSegment list \<times> (u32 \<times> u32 \<times> u32) \<times> DataSegment list" where
  "flush_visit write current rto maxInFlight cnt [] = ([], cnt, [])"
| "flush_visit write current rto maxInFlight (tot, lost, inFlight) (seg # cache) =
     (if current - ds_timeout seg \<ge> 0x7FFFFFFF then
        (let (cache', cnt, out) = flush_visit write current rto maxInFlight (tot, lost, inFlight) cache
         in (seg # cache', cnt, out))
      else
        (let tot' = (if ds_transmit seg = 0 then tot + 1 else tot);
             lost' = (if ds_transmit seg = 0 then lost else lost + 1);
             seg' = write (seg\<lparr>ds_timeout := current + rto, ds_Timestamp := current,
                               ds_transmit := ds_transmit seg + 1\<rparr>);
             inFlight' = inFlight + 1
         in if inFlight' < maxInFlight then
              (let (cache', cnt, out) = flush_visit write current rto maxInFlight (tot', lost', inFlight') cache
               in (seg' # cache', cnt, seg' # out))
            else (seg' # cache, (tot', lost', inFlight'), [seg'])))"

text \<open>\<^verbatim>\<open>Flush\<close>: the window, the segments written, and the loss rate reported to \<^verbatim>\<open>onPacketLoss\<close>.\<close>

definition SendingWindow_Flush :: "(DataSegment \<Rightarrow> DataSegment) \<Rightarrow> u32 \<Rightarrow> u32 \<Rightarrow> u32 \<Rightarrow> SendingWindow
    \<Rightarrow> SendingWindow \<times> DataSegment list \<times> u32 option" where
  "SendingWindow_Flush write current rto maxInFlight sw =
     (if SendingWindow_IsEmpty sw then (sw, [], None)
      else
        let (cache, (tot, lost, inFlight), out) =
              flush_visit write current rto maxInFlight (sw_totalInFlightSize sw, 0, 0) (sw_cache sw)
        in (sw\<lparr>sw_cache := cache, sw_totalInFlightSize := tot\<rparr>, out,
            if inFlight > 0 \<and> tot \<noteq> 0 then Some (lost * 100 div tot) else None))"

fun remove_loop :: "u32 \<Rightarrow> DataSegment list \<Rightarrow> DataSegment list \<times> recycled option" where
  "remove_loop number [] = ([], None)"
| "remove_loop number (seg # cache) =
     (if ds_Number seg > number then (seg # cache, None)
      else if ds_Number seg = number then (cache, Some (snd (DataSegment_Release seg)))
      else let (cache', r) = remove_loop number cache in (seg # cache', r))"

definition SendingWindow_Remove :: "u32 \<Rightarrow> SendingWindow \<Rightarrow> bool \<times> SendingWindow" where
  "SendingWindow_Remove number sw =
     (case remove_loop number (sw_cache sw) of
        (_, None) \<Rightarrow> (False, sw)
      | (cache, Some _) \<Rightarrow>
          (True, sw\<lparr>sw_cache := cache,
                   sw_totalInFlightSize :=
                     (if sw_totalInFlightSize sw > 0 then sw_totalInFlightSize sw - 1
                      else sw_totalInFlightSize sw)\<rparr>))"

section \<open>The sending worker\<close>

record SendingWorker =
  sd_window :: SendingWindow
  sd_firstUnacknowledged :: u32
  sd_nextNumber :: u32
  sd_remoteNextNumber :: u32
  sd_controlWindow :: u32
  sd_fastResend :: u32
  sd_windowSize :: u32
  sd_firstUnacknowledgedUpdated :: bool
  sd_closed :: bool

definition NewSendingWorker :: "Config \<Rightarrow> SendingWorker go" where
  "NewSendingWorker config = do {
     controlWindow \<leftarrow> GetSendingInFlightSize config;
     windowSize \<leftarrow> GetSendingBufferSize config;
     Some \<lparr>sd_window = NewSendingWindow, sd_firstUnacknowledged = 0, sd_nextNumber = 0,
       sd_remoteNextNumber = 32, sd_controlWindow = controlWindow, sd_fastResend = 2,
       sd_windowSize = windowSize, sd_firstUnacknowledgedUpdated = False, sd_closed = False\<rparr>
   }"

definition SendingWorker_Release :: "SendingWorker \<Rightarrow> SendingWorker \<times> recycled list" where
  "SendingWorker_Release w =
     (let (sw, rel) = SendingWindow_Release (sd_window w)
      in (w\<lparr>sd_window := sw, sd_closed := True\<rparr>, rel))"

definition FindFirstUnacknowledged :: "SendingWorker \<Rightarrow> SendingWorker" where
  "FindFirstUnacknowledged w =
     (let first = sd_firstUnacknowledged w;
          new = (case FirstNumber (sd_window w) of Some n \<Rightarrow> n | None \<Rightarrow> sd_nextNumber w);
          w' = w\<lparr>sd_firstUnacknowledged := new\<rparr>
      in if first \<noteq> new then w'\<lparr>sd_firstUnacknowledgedUpdated := True\<rparr> else w')"

text \<open>\<^verbatim>\<open>ProcessReceivingNext\<close> is \<^verbatim>\<open>ProcessReceivingNextWithoutLock\<close> under the worker's lock.\<close>

definition ProcessReceivingNext :: "u32 \<Rightarrow> SendingWorker \<Rightarrow> SendingWorker" where
  "ProcessReceivingNext nextNumber w =
     FindFirstUnacknowledged (w\<lparr>sd_window := fst (SendingWindow_Clear nextNumber (sd_window w))\<rparr>)"

definition processAck :: "u32 \<Rightarrow> SendingWorker \<Rightarrow> bool \<times> SendingWorker" where
  "processAck number w =
     (if number - sd_firstUnacknowledged w > 0x7FFFFFFF \<or> number - sd_nextNumber w < 0x7FFFFFFF
      then (False, w)
      else let (removed, sw) = SendingWindow_Remove number (sd_window w);
               w' = w\<lparr>sd_window := sw\<rparr>
           in (removed, if removed then FindFirstUnacknowledged w' else w'))"

text \<open>The loop over the numbers of an acknowledgement, with \<^verbatim>\<open>maxack\<close> and \<^verbatim>\<open>maxackRemoved\<close>.\<close>

fun ack_numbers :: "u32 list \<Rightarrow> u32 \<Rightarrow> bool \<Rightarrow> SendingWorker \<Rightarrow> u32 \<times> bool \<times> SendingWorker" where
  "ack_numbers [] maxack maxackRemoved w = (maxack, maxackRemoved, w)"
| "ack_numbers (number # rest) maxack maxackRemoved w =
     (let (removed, w') = processAck number w
      in if maxack < number then ack_numbers rest number removed w'
         else ack_numbers rest maxack maxackRemoved w')"

text \<open>\<^verbatim>\<open>ProcessSegment\<close>: the worker, and the arguments of \<^verbatim>\<open>roundTrip.Update\<close> when it is called.\<close>

definition SendingWorker_ProcessSegment ::
  "u32 \<Rightarrow> AckSegment \<Rightarrow> u32 \<Rightarrow> SendingWorker \<Rightarrow> SendingWorker \<times> (u32 \<times> u32) option" where
  "SendingWorker_ProcessSegment current seg rto w =
     (if sd_closed w then (w, None)
      else
        let w1 = (if sd_remoteNextNumber w < as_ReceivingWindow seg
                  then w\<lparr>sd_remoteNextNumber := as_ReceivingWindow seg\<rparr> else w);
            w2 = ProcessReceivingNext (as_ReceivingNext seg) w1
        in if AckSegment_IsEmpty seg then (w2, None)
           else
             let (maxack, maxackRemoved, w3) = ack_numbers (as_NumberList seg) 0 False w2
             in if maxackRemoved then
                  (w3\<lparr>sd_window := HandleFastAck maxack rto (sd_window w3)\<rparr>,
                   if current - as_Timestamp seg < 10000 then Some (current - as_Timestamp seg, current) else None)
                else (w3, None))"

definition SendingWorker_Push :: "Buffer \<Rightarrow> SendingWorker \<Rightarrow> bool \<times> SendingWorker" where
  "SendingWorker_Push b w =
     (if sd_closed w then (False, w)
      else if SendingWindow_Len (sd_window w) > sd_windowSize w then (False, w)
      else (True, w\<lparr>sd_window := SendingWindow_Push (sd_nextNumber w) b (sd_window w),
                    sd_nextNumber := sd_nextNumber w + 1\<rparr>))"

definition SendingWorker_Write :: "u16 \<Rightarrow> bool \<Rightarrow> SendingWorker \<Rightarrow> DataSegment \<Rightarrow> DataSegment" where
  "SendingWorker_Write conv readyToClose w seg =
     seg\<lparr>ds_Conv := conv, ds_SendingNext := sd_firstUnacknowledged w,
         ds_Option := (if readyToClose then SegmentOptionClose else 0)\<rparr>"

definition OnPacketLoss :: "u32 \<Rightarrow> u32 \<Rightarrow> u32 \<Rightarrow> SendingWorker \<Rightarrow> SendingWorker" where
  "OnPacketLoss rto cwnd lossRate w =
     (if rto = 0 then w
      else
        let c1 = (if lossRate \<ge> 15 then 3 * sd_controlWindow w div 4 else sd_controlWindow w);
            c2 = (if lossRate \<le> 5 then c1 + c1 div 4 else c1);
            c3 = (if c2 < 16 then 16 else c2);
            c4 = (if c3 > cwnd then cwnd else c3)
        in w\<lparr>sd_controlWindow := c4\<rparr>)"

text \<open>
  \<^verbatim>\<open>Flush\<close>: the segments written, whether \<^verbatim>\<open>Ping(current, CommandPing)\<close> is called, the worker.
\<close>

definition SendingWorker_Flush :: "u16 \<Rightarrow> bool \<Rightarrow> u32 \<Rightarrow> Config \<Rightarrow> u32 \<Rightarrow> SendingWorker
    \<Rightarrow> (DataSegment list \<times> bool \<times> SendingWorker) go" where
  "SendingWorker_Flush conv readyToClose rto config current w =
     (if sd_closed w then Some ([], False, w)
      else do {
        inFlight \<leftarrow> GetSendingInFlightSize config;
        let remote = sd_remoteNextNumber w - sd_firstUnacknowledged w;
        let cwnd1 = (if inFlight > remote then remote else inFlight);
        let cwnd2 = (if cwnd1 > sd_controlWindow w then sd_controlWindow w else cwnd1);
        let cwnd = cwnd2 * CwndMultiplier config;
        let (out, w1) =
          (if SendingWindow_IsEmpty (sd_window w) then ([], w)
           else let (sw, out, loss) = SendingWindow_Flush (SendingWorker_Write conv readyToClose w)
                      current rto cwnd (sd_window w);
                    w' = w\<lparr>sd_window := sw\<rparr>;
                    w'' = (case loss of None \<Rightarrow> w' | Some rate \<Rightarrow> OnPacketLoss rto inFlight rate w')
                in (out, w''\<lparr>sd_firstUnacknowledgedUpdated := False\<rparr>));
        Some (out, sd_firstUnacknowledgedUpdated w1, w1\<lparr>sd_firstUnacknowledgedUpdated := False\<rparr>)
      })"

definition CloseWrite :: "SendingWorker \<Rightarrow> SendingWorker" where
  "CloseWrite w = w\<lparr>sd_window := fst (SendingWindow_Clear 0xFFFFFFFF (sd_window w))\<rparr>"

definition SendingWorker_IsEmpty :: "SendingWorker \<Rightarrow> bool" where
  "SendingWorker_IsEmpty w = SendingWindow_IsEmpty (sd_window w)"

definition SendingWorker_UpdateNecessary :: "SendingWorker \<Rightarrow> bool" where
  "SendingWorker_UpdateNecessary w \<longleftrightarrow> \<not> SendingWorker_IsEmpty w"

section \<open>What the window holds\<close>

definition win_numbers :: "SendingWindow \<Rightarrow> nat set" where
  "win_numbers sw = (unat \<circ> ds_Number) ` set (sw_cache sw)"

definition sd_ok :: "byte list list \<Rightarrow> SendingWorker \<Rightarrow> bool" where
  "sd_ok log w \<longleftrightarrow> sd_nextNumber w = of_nat (length log)
     \<and> (\<forall>seg \<in> set (sw_cache (sd_window w)). seg_matches log seg)"

abbreviation sd_numbers :: "SendingWorker \<Rightarrow> nat set" where
  "sd_numbers w \<equiv> win_numbers (sd_window w)"

text \<open>
  \<open>w'\<close> keeps the sender's promises to \<open>log\<close> and gave up only numbers in \<open>N\<close>.
\<close>

definition gives_up :: "nat set \<Rightarrow> SendingWorker \<Rightarrow> SendingWorker \<Rightarrow> bool" where
  "gives_up N w w' \<longleftrightarrow> (\<forall>log. sd_ok log w \<longrightarrow> sd_ok log w') \<and> sd_numbers w \<subseteq> sd_numbers w' \<union> N"

lemma gives_up_refl [simp, intro]: "gives_up N w w"
  by (simp add: gives_up_def)

lemma gives_up_trans: "gives_up M w w' \<Longrightarrow> gives_up N w' w'' \<Longrightarrow> gives_up (M \<union> N) w w''"
  by (auto simp: gives_up_def)

lemma gives_up_mono: "gives_up M w w' \<Longrightarrow> M \<subseteq> N \<Longrightarrow> gives_up N w w'"
  by (auto simp: gives_up_def)

lemma clear_loop_suffix:
  "clear_loop una cache = (rest, rel) \<Longrightarrow>
     \<exists>gone. cache = gone @ rest \<and> length rel = length gone \<and> (\<forall>seg \<in> set gone. ds_Number seg < una)
       \<and> (rest \<noteq> [] \<longrightarrow> una \<le> ds_Number (hd rest))"
proof (induction cache arbitrary: rest rel)
  case (Cons seg cache)
  show ?case
  proof (cases "una \<le> ds_Number seg")
    case True
    with Cons.prems show ?thesis by (intro exI [of _ "[]"]) auto
  next
    case False
    obtain rest' rel' where r: "clear_loop una cache = (rest', rel')" by fastforce
    from Cons.IH [OF r] obtain gone where "cache = gone @ rest'" "length rel' = length gone"
      "\<forall>seg \<in> set gone. ds_Number seg < una" "rest' \<noteq> [] \<longrightarrow> una \<le> ds_Number (hd rest')" by blast
    with Cons.prems False r show ?thesis by (intro exI [of _ "seg # gone"]) auto
  qed
qed simp

lemma gives_up_Clear:
  "gives_up {n. n < unat una} w (w\<lparr>sd_window := fst (SendingWindow_Clear una (sd_window w))\<rparr>)"
proof -
  obtain rest rel where c: "clear_loop una (sw_cache (sd_window w)) = (rest, rel)" by fastforce
  from clear_loop_suffix [OF c] obtain gone where
    "sw_cache (sd_window w) = gone @ rest" "\<forall>seg \<in> set gone. ds_Number seg < una" by blast
  with c show ?thesis
    by (auto simp: gives_up_def sd_ok_def win_numbers_def SendingWindow_Clear_def word_less_nat_alt)
qed

lemma gives_up_FindFirst: "gives_up {} w (FindFirstUnacknowledged w)"
  by (auto simp: gives_up_def sd_ok_def FindFirstUnacknowledged_def Let_def)

lemma gives_up_ReceivingNext: "gives_up {n. n < unat una} w (ProcessReceivingNext una w)"
  using gives_up_trans [OF gives_up_Clear gives_up_FindFirst] by (simp add: ProcessReceivingNext_def)

lemma remove_loop_set:
  "remove_loop number cache = (cache', r) \<Longrightarrow>
     set cache' \<subseteq> set cache \<and> (\<forall>seg \<in> set cache. seg \<in> set cache' \<or> ds_Number seg = number)"
  by (induction cache arbitrary: cache' r) (auto split: if_splits prod.splits)

lemma gives_up_Ack: "gives_up {unat number} w (snd (processAck number w))"
proof -
  obtain cache r where rm: "remove_loop number (sw_cache (sd_window w)) = (cache, r)" by fastforce
  from remove_loop_set [OF rm] have "gives_up {unat number} w (w\<lparr>sd_window := snd (SendingWindow_Remove number (sd_window w))\<rparr>)"
    using rm by (cases r) (auto simp: gives_up_def sd_ok_def win_numbers_def SendingWindow_Remove_def)
  with gives_up_trans [OF this gives_up_FindFirst] show ?thesis
    by (cases "SendingWindow_Remove number (sd_window w)") (simp add: processAck_def Let_def)
qed

lemma gives_up_ack_numbers:
  "ack_numbers ns mx rem w = (mx', rem', w') \<Longrightarrow> gives_up (unat ` set ns) w w'"
proof (induction ns arbitrary: mx rem w)
  case (Cons n ns)
  obtain removed w1 where p: "processAck n w = (removed, w1)" by fastforce
  with gives_up_Ack [of n w] have 1: "gives_up {unat n} w w1" by simp
  have "gives_up (unat ` set ns) w1 w'"
    using Cons p by (auto split: if_splits)
  from gives_up_trans [OF 1 this] show ?case by simp
qed simp

lemma fast_ack_visit_set:
  "map ds_Number (fast_ack_visit number rt cache) = map ds_Number cache"
  "map ds_payload (fast_ack_visit number rt cache) = map ds_payload cache"
  by (induction cache) auto

lemma map_fields_matches:
  "map ds_Number xs = map ds_Number ys \<Longrightarrow> map ds_payload xs = map ds_payload ys \<Longrightarrow>
     (\<forall>seg \<in> set ys. seg_matches log seg) \<Longrightarrow> (\<forall>seg \<in> set xs. seg_matches log seg)"
proof (induction xs arbitrary: ys)
  case (Cons x xs)
  from Cons.prems(1,2) obtain y ys' where ys: "ys = y # ys'" "ds_Number x = ds_Number y"
      "ds_payload x = ds_payload y" "map ds_Number xs = map ds_Number ys'" "map ds_payload xs = map ds_payload ys'"
    by (cases ys) auto
  from Cons.prems(3) ys(1) have y: "seg_matches log y" and rest: "\<forall>seg \<in> set ys'. seg_matches log seg"
    by simp_all
  from y have "seg_matches log x" unfolding seg_matches_def ys(2,3) .
  with Cons.IH [OF ys(4,5) rest] show ?case by simp
qed simp

lemma gives_up_same_fields:
  assumes "map ds_Number (sw_cache sw) = map ds_Number (sw_cache (sd_window w))"
    and "map ds_payload (sw_cache sw) = map ds_payload (sw_cache (sd_window w))"
  shows "gives_up {} w (w\<lparr>sd_window := sw\<rparr>)"
proof -
  have "win_numbers sw = sd_numbers w"
    using arg_cong [OF assms(1), of "\<lambda>xs. unat ` set xs"] by (simp add: win_numbers_def image_image)
  with map_fields_matches [OF assms] show ?thesis
    by (auto simp: gives_up_def sd_ok_def)
qed

lemma gives_up_FastAck: "gives_up {} w (w\<lparr>sd_window := HandleFastAck number rt (sd_window w)\<rparr>)"
  by (rule gives_up_same_fields) (simp_all add: HandleFastAck_def fast_ack_visit_set)

lemma gives_up_frame:
  "sd_window w' = sd_window w \<Longrightarrow> sd_nextNumber w' = sd_nextNumber w \<Longrightarrow> gives_up {} w w'"
  by (simp add: gives_up_def sd_ok_def)

text \<open>
  An acknowledgement makes the sender forget only what it acknowledges: the listed numbers and those
  below the receiver's next number.
\<close>

lemma gives_up_ProcessSegment:
  "gives_up (unat ` set (as_NumberList seg) \<union> {n. n < unat (as_ReceivingNext seg)}) w
     (fst (SendingWorker_ProcessSegment current seg rt w))"
proof (cases "sd_closed w")
  case True
  then show ?thesis by (simp add: SendingWorker_ProcessSegment_def)
next
  case False
  define w1 where "w1 = (if sd_remoteNextNumber w < as_ReceivingWindow seg
    then w\<lparr>sd_remoteNextNumber := as_ReceivingWindow seg\<rparr> else w)"
  define w2 where "w2 = ProcessReceivingNext (as_ReceivingNext seg) w1"
  obtain mx rem w3 where w3: "ack_numbers (as_NumberList seg) 0 False w2 = (mx, rem, w3)"
    by (metis prod_cases3)
  have "gives_up {} w w1" by (rule gives_up_frame) (simp_all add: w1_def)
  from gives_up_trans [OF this gives_up_ReceivingNext] have
    g2: "gives_up {n. n < unat (as_ReceivingNext seg)} w w2" by (simp add: w2_def)
  from gives_up_trans [OF g2 gives_up_ack_numbers [OF w3]] have
    g3: "gives_up ({n. n < unat (as_ReceivingNext seg)} \<union> unat ` set (as_NumberList seg)) w w3" .
  from gives_up_trans [OF g3 gives_up_FastAck [of w3 mx rt]] have
    g4: "gives_up ({n. n < unat (as_ReceivingNext seg)} \<union> unat ` set (as_NumberList seg)) w
       (w3\<lparr>sd_window := HandleFastAck mx rt (sd_window w3)\<rparr>)" by simp
  have "fst (SendingWorker_ProcessSegment current seg rt w) =
      (if AckSegment_IsEmpty seg then w2
       else if rem then w3\<lparr>sd_window := HandleFastAck mx rt (sd_window w3)\<rparr> else w3)"
    using False w3 by (simp add: SendingWorker_ProcessSegment_def Let_def w1_def [symmetric] w2_def [symmetric])
  moreover have "gives_up ({n. n < unat (as_ReceivingNext seg)} \<union> unat ` set (as_NumberList seg)) w w2"
    by (rule gives_up_mono [OF g2]) simp
  ultimately show ?thesis
    using g3 g4 by (simp add: Un_commute)
qed

text \<open>\<^verbatim>\<open>Flush\<close> changes neither the numbers nor the payloads, and writes segments of the window.\<close>

lemma flush_visit_fields:
  assumes "\<And>seg. ds_Number (wr seg) = ds_Number seg" and "\<And>seg. ds_payload (wr seg) = ds_payload seg"
  shows "flush_visit wr current rt mx cnt cache = (cache', cnt', out) \<Longrightarrow>
     map ds_Number cache' = map ds_Number cache \<and> map ds_payload cache' = map ds_payload cache
     \<and> set out \<subseteq> set cache'"
proof (induction cache arbitrary: cnt cache' cnt' out)
  case (Cons seg cache)
  obtain tot lost inFlight where cnt: "cnt = (tot, lost, inFlight)" by (rule prod_cases3)
  define tot' lost' where "tot' = (if ds_transmit seg = 0 then tot + 1 else tot)"
    and "lost' = (if ds_transmit seg = 0 then lost else lost + 1)"
  consider (skip) "0x7FFFFFFF \<le> current - ds_timeout seg"
    | (go) "\<not> 0x7FFFFFFF \<le> current - ds_timeout seg" "inFlight + 1 < mx"
    | (stop) "\<not> 0x7FFFFFFF \<le> current - ds_timeout seg" "\<not> inFlight + 1 < mx" by blast
  then show ?case
  proof cases
    case skip
    obtain c1 cnt1 o1 where r: "flush_visit wr current rt mx cnt cache = (c1, cnt1, o1)" by (rule prod_cases3)
    from Cons.IH [OF r] r skip Cons.prems show ?thesis by (auto simp: cnt)
  next
    case go
    obtain c1 cnt1 o1 where r: "flush_visit wr current rt mx (tot', lost', inFlight + 1) cache = (c1, cnt1, o1)"
      by (rule prod_cases3)
    from Cons.IH [OF r] r go Cons.prems assms show ?thesis
      by (auto simp: cnt Let_def tot'_def [symmetric] lost'_def [symmetric])
  next
    case stop
    with Cons.prems assms show ?thesis by (auto simp: cnt Let_def)
  qed
qed simp

lemma SendingWorker_Flush_spec:
  assumes "SendingWorker_Flush conv rtc rt config current w = Some (out, ping, w')"
  shows "gives_up {} w w' \<and> (\<forall>log. sd_ok log w \<longrightarrow> (\<forall>seg \<in> set out. seg_matches log seg))"
proof (cases "sd_closed w \<or> SendingWindow_IsEmpty (sd_window w)")
  case True
  with assms have "sd_window w' = sd_window w" "sd_nextNumber w' = sd_nextNumber w" "out = []"
    by (auto simp: SendingWorker_Flush_def Let_def split: bind_splits if_splits)
  then show ?thesis by (auto intro: gives_up_frame)
next
  case False
  let ?wr = "SendingWorker_Write conv rtc w"
  from assms False obtain mx cache cnt loss where
    f: "flush_visit ?wr current rt mx (sw_totalInFlightSize (sd_window w), 0, 0) (sw_cache (sd_window w))
         = (cache, cnt, out)"
      and w': "sw_cache (sd_window w') = cache" "sd_nextNumber w' = sd_nextNumber w"
    by (auto simp: SendingWorker_Flush_def SendingWindow_Flush_def OnPacketLoss_def Let_def
        split: bind_splits if_splits prod.splits option.splits)
  from flush_visit_fields [OF _ _ f] have
    fs: "map ds_Number cache = map ds_Number (sw_cache (sd_window w))"
      "map ds_payload cache = map ds_payload (sw_cache (sd_window w))" "set out \<subseteq> set cache"
    by (auto simp: SendingWorker_Write_def)
  have "gives_up {} w (w\<lparr>sd_window := sd_window w'\<rparr>)"
    by (rule gives_up_same_fields) (simp_all add: fs w')
  moreover have "gives_up {} (w\<lparr>sd_window := sd_window w'\<rparr>) w'"
    by (rule gives_up_frame) (simp_all add: w')
  ultimately have "gives_up {} w w'" using gives_up_trans by fastforce
  moreover have "seg_matches log seg" if "sd_ok log w" "seg \<in> set out" for log seg
    using map_fields_matches [OF fs(1,2)] that fs(3) by (auto simp: sd_ok_def)
  ultimately show ?thesis by blast
qed

text \<open>\<^verbatim>\<open>Push\<close> extends the log.\<close>

lemma SendingWorker_Push_spec:
  assumes "SendingWorker_Push b w = (True, w')" and "sd_ok log w" and "length log < 4294967296"
    and "buf_inv b" and "content b \<noteq> []" and "length (content b) + 18 \<le> Size"
  shows "sd_ok (log @ [content b]) w' \<and> sd_numbers w' = insert (length log) (sd_numbers w)
    \<and> sw_cache (sd_window w') = sw_cache (sd_window w) @
        [NewDataSegment\<lparr>ds_Number := of_nat (length log), ds_payload := Some b\<rparr>]"
proof -
  let ?seg = "NewDataSegment\<lparr>ds_Number := of_nat (length log), ds_payload := Some b\<rparr>"
  from assms(1,2) have w': "sw_cache (sd_window w') = sw_cache (sd_window w) @ [?seg]"
      "sd_nextNumber w' = of_nat (length log) + 1"
    by (auto simp: SendingWorker_Push_def SendingWindow_Push_def sd_ok_def split: if_splits)
  have n: "unat (of_nat (length log) :: u32) = length log"
    using assms(3) by (rule unat_of_nat_u32)
  then have "seg_matches (log @ [content b]) ?seg"
    using assms(4-6) by (simp add: seg_matches_def)
  moreover have "seg_matches (log @ [content b]) seg" if "seg \<in> set (sw_cache (sd_window w))" for seg
    using assms(2) that by (simp add: sd_ok_def seg_matches_append)
  ultimately show ?thesis
    using w' n by (auto simp: sd_ok_def win_numbers_def)
qed

end
