(* ===== verification/Kcp_Connection.thy ===== *)
theory Kcp_Connection
  imports Kcp_Receiving Kcp_Sending Pipe
begin

text \<open>
  \<^verbatim>\<open>transport/internet/kcp/connection.go\<close>: the round-trip estimator, the connection with its state
  machine, the input handler, the periodic flush and the read and write loops. A handler that reads
  the clock takes the reading \<open>current\<close>; since \<^verbatim>\<open>SetState\<close> reads the clock again, handlers that call
  it also take that later reading \<open>now\<close>. What goes to \<^verbatim>\<open>output\<close> is returned in order. The blocking loops
  are given by their iterations: each returns, or leaves the connection waiting for a notifier.
\<close>

section \<open>The round-trip estimator\<close>

record RoundTripInfo =
  variation :: u32
  srtt :: u32
  rto :: u32
  minRtt :: u32
  updatedTimestamp :: u32

definition UpdatePeerRTO :: "u32 \<Rightarrow> u32 \<Rightarrow> RoundTripInfo \<Rightarrow> RoundTripInfo" where
  "UpdatePeerRTO peer current info =
     (if current - updatedTimestamp info < 3000 then info
      else info\<lparr>updatedTimestamp := current, rto := peer\<rparr>)"

definition RoundTripInfo_Update :: "u32 \<Rightarrow> u32 \<Rightarrow> RoundTripInfo \<Rightarrow> RoundTripInfo" where
  "RoundTripInfo_Update rtt current info =
     (if rtt > 0x7FFFFFFF then info
      else
        let i1 = (if srtt info = 0 then info\<lparr>srtt := rtt, variation := rtt div 2\<rparr>
                  else
                    let delta = (if srtt info > rtt then srtt info - rtt else rtt - srtt info);
                        var = (3 * variation info + delta) div 4;
                        s = (7 * srtt info + rtt) div 8
                    in info\<lparr>variation := var, srtt := (if s < minRtt info then minRtt info else s)\<rparr>);
            r = (if minRtt i1 < 4 * variation i1 then srtt i1 + 4 * variation i1 else srtt i1 + variation i1);
            r' = (if r > 10000 then 10000 else r)
        in i1\<lparr>rto := r' * 5 div 4, updatedTimestamp := current\<rparr>)"

section \<open>The connection\<close>

datatype State = StateActive | StateReadyToClose | StatePeerClosed | StateTerminating
  | StatePeerTerminating | StateTerminated

text \<open>An updater: its interval in nanoseconds, and whether its one permit is free.\<close>

record Updater =
  up_interval :: int
  up_permit :: bool

definition NewUpdater :: "u32 \<Rightarrow> Updater" where
  "NewUpdater millis = \<lparr>up_interval = uint millis * 1000000, up_permit = True\<rparr>"

text \<open>\<^verbatim>\<open>WakeUp\<close> takes the permit and starts the loop, which gives the permit back when it ends.\<close>

definition WakeUp :: "Updater \<Rightarrow> Updater" where
  "WakeUp u = (if up_permit u then u\<lparr>up_permit := False\<rparr> else u)"

definition Updater_SetInterval :: "int \<Rightarrow> Updater \<Rightarrow> Updater" where
  "Updater_SetInterval d u = u\<lparr>up_interval := d\<rparr>"

record Connection =
  cn_Conversation :: u16
  cn_dataInput :: Notifier
  cn_dataOutput :: Notifier
  cn_Config :: Config
  cn_state :: State
  cn_stateBeginTime :: u32
  cn_lastIncomingTime :: u32
  cn_lastPingTime :: u32
  cn_mss :: u32
  cn_roundTrip :: RoundTripInfo
  cn_receivingWorker :: ReceivingWorker
  cn_sendingWorker :: SendingWorker
  cn_dataUpdater :: Updater
  cn_pingUpdater :: Updater
  cn_goTerminate :: bool     \<comment> \<open>the goroutine of \<^verbatim>\<open>go c.Terminate()\<close> has been started\<close>
  cn_closerClosed :: bool    \<comment> \<open>\<^verbatim>\<open>c.closer.Close()\<close> has been called\<close>

definition NewConnection :: "u16 \<Rightarrow> Config \<Rightarrow> Connection go" where
  "NewConnection conv config = do {
     recvSize \<leftarrow> GetReceivingInFlightSize config;
     sd \<leftarrow> NewSendingWorker config;
     let mss = Mtu config - DataSegmentOverhead;
     Some \<lparr>cn_Conversation = conv, cn_dataInput = NewNotifier, cn_dataOutput = NewNotifier,
       cn_Config = config, cn_state = StateActive, cn_stateBeginTime = 0, cn_lastIncomingTime = 0,
       cn_lastPingTime = 0, cn_mss = mss,
       cn_roundTrip = \<lparr>variation = 0, srtt = 0, rto = 100, minRtt = Tti config, updatedTimestamp = 0\<rparr>,
       cn_receivingWorker = NewReceivingWorker mss recvSize, cn_sendingWorker = sd,
       cn_dataUpdater = NewUpdater (Tti config), cn_pingUpdater = WakeUp (NewUpdater 5000),
       cn_goTerminate = False, cn_closerClosed = False\<rparr>
   }"

definition close_write :: "Connection \<Rightarrow> Connection" where
  "close_write c = c\<lparr>cn_sendingWorker := CloseWrite (cn_sendingWorker c)\<rparr>"

definition ping_each_second :: "Connection \<Rightarrow> Connection" where
  "ping_each_second c = c\<lparr>cn_pingUpdater := Updater_SetInterval 1000000000 (cn_pingUpdater c)\<rparr>"

definition wake_data :: "Connection \<Rightarrow> Connection" where
  "wake_data c = c\<lparr>cn_dataUpdater := WakeUp (cn_dataUpdater c)\<rparr>"

text \<open>\<^verbatim>\<open>CloseRead\<close> does nothing, so only \<^verbatim>\<open>CloseWrite\<close> shows in the branches.\<close>

definition SetState :: "u32 \<Rightarrow> State \<Rightarrow> Connection \<Rightarrow> Connection" where
  "SetState now st c =
     (let c1 = c\<lparr>cn_state := st, cn_stateBeginTime := now\<rparr> in
      case st of
        StateActive \<Rightarrow> c1
      | StateReadyToClose \<Rightarrow> c1
      | StatePeerClosed \<Rightarrow> close_write c1
      | StateTerminating \<Rightarrow> ping_each_second (close_write c1)
      | StatePeerTerminating \<Rightarrow> ping_each_second (close_write c1)
      | StateTerminated \<Rightarrow>
          let c2 = wake_data (ping_each_second (close_write c1))
          in c2\<lparr>cn_pingUpdater := WakeUp (cn_pingUpdater c2), cn_goTerminate := True\<rparr>)"

definition signal_both :: "Connection \<Rightarrow> Connection" where
  "signal_both c = c\<lparr>cn_dataInput := Notifier_Signal (cn_dataInput c),
                     cn_dataOutput := Notifier_Signal (cn_dataOutput c)\<rparr>"

definition ErrClosedConnection :: go_error where
  "ErrClosedConnection = ErrNew ''Connection closed.''"

text \<open>
  \<^verbatim>\<open>Close\<close> loads the state and then acts on what it loaded; no lock covers the two. \<open>close_act\<close> is the second part,
  with the state that was loaded; in \<open>Connection_Close\<close> no other handler runs in between.
\<close>

definition close_act :: "u32 \<Rightarrow> State \<Rightarrow> Connection \<Rightarrow> go_error option \<times> Connection" where
  "close_act now loaded c =
     (case loaded of
        StateReadyToClose \<Rightarrow> (Some ErrClosedConnection, c)
      | StateTerminating \<Rightarrow> (Some ErrClosedConnection, c)
      | StateTerminated \<Rightarrow> (Some ErrClosedConnection, c)
      | StateActive \<Rightarrow> (None, SetState now StateReadyToClose c)
      | StatePeerClosed \<Rightarrow> (None, SetState now StateTerminating c)
      | StatePeerTerminating \<Rightarrow> (None, SetState now StateTerminated c))"

definition Connection_Close :: "u32 \<Rightarrow> Connection \<Rightarrow> go_error option \<times> Connection" where
  "Connection_Close now c = (let c1 = signal_both c in close_act now (cn_state c1) c1)"

definition Terminate :: "Connection \<Rightarrow> Connection" where
  "Terminate c =
     (let c1 = signal_both c in
      c1\<lparr>cn_closerClosed := True,
         cn_sendingWorker := fst (SendingWorker_Release (cn_sendingWorker c1)),
         cn_receivingWorker := fst (ReceivingWorker_Release (cn_receivingWorker c1)),
         cn_goTerminate := False\<rparr>)"

definition OnPeerClosed :: "u32 \<Rightarrow> Connection \<Rightarrow> Connection" where
  "OnPeerClosed now c =
     (case cn_state c of
        StateReadyToClose \<Rightarrow> SetState now StateTerminating c
      | StateActive \<Rightarrow> SetState now StatePeerClosed c
      | _ \<Rightarrow> c)"

definition HandleOption :: "u32 \<Rightarrow> SegmentOption \<Rightarrow> Connection \<Rightarrow> Connection" where
  "HandleOption now opt c =
     (if opt AND SegmentOptionClose = SegmentOptionClose then OnPeerClosed now c else c)"

text \<open>The three cases of the type switch of \<^verbatim>\<open>Input\<close>.\<close>

definition input_data :: "u32 \<Rightarrow> DataSegment \<Rightarrow> Connection \<Rightarrow> Connection" where
  "input_data now seg c =
     (let c1 = HandleOption now (ds_Option seg) c;
          c2 = c1\<lparr>cn_receivingWorker := fst (ReceivingWorker_ProcessSegment seg (cn_receivingWorker c1))\<rparr>;
          c3 = (if IsDataAvailable (cn_receivingWorker c2)
                then c2\<lparr>cn_dataInput := Notifier_Signal (cn_dataInput c2)\<rparr> else c2)
      in wake_data c3)"

definition input_ack :: "u32 \<Rightarrow> u32 \<Rightarrow> AckSegment \<Rightarrow> Connection \<Rightarrow> Connection" where
  "input_ack current now seg c =
     (let c1 = HandleOption now (as_Option seg) c;
          (sd, sample) = SendingWorker_ProcessSegment current seg (rto (cn_roundTrip c1)) (cn_sendingWorker c1);
          c2 = c1\<lparr>cn_sendingWorker := sd,
                  cn_roundTrip := (case sample of None \<Rightarrow> cn_roundTrip c1
                                   | Some (rtt, t) \<Rightarrow> RoundTripInfo_Update rtt t (cn_roundTrip c1))\<rparr>
      in wake_data (c2\<lparr>cn_dataOutput := Notifier_Signal (cn_dataOutput c2)\<rparr>))"

definition input_terminate :: "u32 \<Rightarrow> Connection \<Rightarrow> Connection" where
  "input_terminate now c =
     (case cn_state c of
        StateActive \<Rightarrow> SetState now StatePeerTerminating c
      | StatePeerClosed \<Rightarrow> SetState now StatePeerTerminating c
      | StateReadyToClose \<Rightarrow> SetState now StateTerminating c
      | StateTerminating \<Rightarrow> SetState now StateTerminated c
      | _ \<Rightarrow> c)"

definition input_cmd :: "u32 \<Rightarrow> u32 \<Rightarrow> CmdOnlySegment \<Rightarrow> Connection \<Rightarrow> Connection" where
  "input_cmd current now seg c =
     (let c1 = HandleOption now (cs_Option seg) c;
          c2 = (if cs_Cmd seg = CommandTerminate then input_terminate now c1 else c1);
          c3 = (if cs_Option seg = SegmentOptionClose \<or> cs_Cmd seg = CommandTerminate
                then signal_both c2 else c2)
      in c3\<lparr>cn_sendingWorker := ProcessReceivingNext (cs_ReceivingNext seg) (cn_sendingWorker c3),
            cn_receivingWorker := ProcessSendingNext (cs_SendingNext seg) (cn_receivingWorker c3),
            cn_roundTrip := UpdatePeerRTO (cs_PeerRTO seg) current (cn_roundTrip c3)\<rparr>)"

fun input_loop :: "u32 \<Rightarrow> u32 \<Rightarrow> Segment list \<Rightarrow> Connection \<Rightarrow> Connection" where
  "input_loop current now [] c = c"
| "input_loop current now (seg # segs) c =
     (if Segment_Conversation seg \<noteq> cn_Conversation c then c
      else input_loop current now segs
        (case seg of
           SegData s \<Rightarrow> input_data now s c
         | SegAck s \<Rightarrow> input_ack current now s c
         | SegCmd s \<Rightarrow> input_cmd current now s c))"

definition Connection_Input :: "u32 \<Rightarrow> u32 \<Rightarrow> Segment list \<Rightarrow> Connection \<Rightarrow> Connection" where
  "Connection_Input current now segments c =
     input_loop current now segments (c\<lparr>cn_lastIncomingTime := current\<rparr>)"

definition Ping :: "u32 \<Rightarrow> Command \<Rightarrow> Connection \<Rightarrow> Segment list \<times> Connection" where
  "Ping current cmd c =
     ([SegCmd (NewCmdOnlySegment\<lparr>cs_Conv := cn_Conversation c, cs_Cmd := cmd,
        cs_ReceivingNext := rw_nextNumber (cn_receivingWorker c),
        cs_SendingNext := sd_firstUnacknowledged (cn_sendingWorker c),
        cs_PeerRTO := rto (cn_roundTrip c),
        cs_Option := (if cn_state c = StateReadyToClose then SegmentOptionClose else 0)\<rparr>)],
      c\<lparr>cn_lastPingTime := current\<rparr>)"

text \<open>The part of \<^verbatim>\<open>flush\<close> after the state checks: acknowledgements, data, and the periodic ping.\<close>

definition flush_workers :: "u32 \<Rightarrow> Connection \<Rightarrow> (Segment list \<times> Connection) go" where
  "flush_workers current c = do {
     let rtc = (cn_state c = StateReadyToClose);
     let (acks, rw) = ReceivingWorker_Flush (cn_Conversation c) rtc (rto (cn_roundTrip c)) current
           (cn_receivingWorker c);
     let c1 = c\<lparr>cn_receivingWorker := rw\<rparr>;
     (datas, ping, sd) \<leftarrow> SendingWorker_Flush (cn_Conversation c1) rtc (rto (cn_roundTrip c1)) (cn_Config c1)
           current (cn_sendingWorker c1);
     let c2 = c1\<lparr>cn_sendingWorker := sd\<rparr>;
     let (out1, c3) = (if ping then Ping current CommandPing c2 else ([], c2));
     let (out2, c4) = (if current - cn_lastPingTime c3 \<ge> 3000 then Ping current CommandPing c3 else ([], c3));
     Some (map SegAck acks @ map SegData datas @ out1 @ out2, c4)
   }"

definition flush :: "u32 \<Rightarrow> u32 \<Rightarrow> Connection \<Rightarrow> (Segment list \<times> Connection) go" where
  "flush current now c =
     (if cn_state c = StateTerminated then Some ([], c)
      else
        let c1 = (if cn_state c = StateActive \<and> current - cn_lastIncomingTime c \<ge> 30000
                  then snd (Connection_Close now c) else c);
            c2 = (if cn_state c1 = StateReadyToClose \<and> SendingWorker_IsEmpty (cn_sendingWorker c1)
                  then SetState now StateTerminating c1 else c1)
        in if cn_state c2 = StateTerminating then
             let (out, c3) = Ping current CommandTerminate c2
             in Some (out, if current - cn_stateBeginTime c3 > 8000 then SetState now StateTerminated c3 else c3)
           else
             let c3 = (if cn_state c2 = StatePeerTerminating \<and> current - cn_stateBeginTime c2 > 4000
                       then SetState now StateTerminating c2 else c2);
                 c4 = (if cn_state c3 = StateReadyToClose \<and> current - cn_stateBeginTime c3 > 15000
                       then SetState now StateTerminating c3 else c3)
             in flush_workers current c4)"

section \<open>The read and write loops\<close>

text \<open>One round of a blocking loop: the call returns a result, or waits for its notifier.\<close>

datatype 'a round = Returns 'a | Waits

definition reading_closed :: "State \<Rightarrow> bool" where
  "reading_closed st \<longleftrightarrow> st \<in> {StateReadyToClose, StateTerminating, StateTerminated}"

definition Connection_ReadMultiBuffer ::
  "Connection \<Rightarrow> (MultiBuffer \<times> go_error option) round \<times> Connection" where
  "Connection_ReadMultiBuffer c =
     (if reading_closed (cn_state c) then (Returns ([], Some EOF), c)
      else
        let (mb, rw) = ReceivingWorker_ReadMultiBuffer (cn_receivingWorker c);
            c1 = c\<lparr>cn_receivingWorker := rw\<rparr>
        in if \<not> MultiBuffer_IsEmpty mb then (Returns (mb, None), wake_data c1)
           else if cn_state c1 = StatePeerTerminating then (Returns ([], Some EOF), c1)
           else (Waits, c1))"

definition Connection_Read :: "nat \<Rightarrow> Connection \<Rightarrow> ((byte list \<times> go_error option) round \<times> Connection) go" where
  "Connection_Read n c =
     (if reading_closed (cn_state c) then Some (Returns ([], Some EOF), c)
      else do {
        (bs, rw) \<leftarrow> ReceivingWorker_Read n (cn_receivingWorker c);
        let c1 = c\<lparr>cn_receivingWorker := rw\<rparr>;
        Some (if length bs > 0 then (Returns (bs, None), wake_data c1) else (Waits, c1))
      })"

text \<open>
  \<^verbatim>\<open>b.ReadFrom(io.LimitReader(reader, mss))\<close> with a reader that holds the bytes \<open>input\<close>: one read of at
  most the limit. Both readers the callers pass, \<^verbatim>\<open>bytes.Reader\<close> and \<^verbatim>\<open>MultiBufferContainer\<close>, return
  the bytes they have up to the room, and \<^verbatim>\<open>io.EOF\<close> when they have none.
\<close>

definition limit_read :: "nat \<Rightarrow> byte list \<Rightarrow> nat \<Rightarrow> byte list \<times> go_error option" where
  "limit_read lim input room =
     (if lim = 0 \<or> input = [] then ([], Some EOF) else (take (min lim room) input, None))"

text \<open>
  The inner loop of \<^verbatim>\<open>writeMultiBufferInternal\<close>: \<open>b\<close> is the buffer cut off but not yet accepted,
  \<open>pend\<close> the flag \<^verbatim>\<open>updatePending\<close>. The loop returns an error value, or breaks to wait for output.
\<close>

function push_loop :: "(nat \<Rightarrow> slice) \<Rightarrow> nat \<Rightarrow> Buffer option \<Rightarrow> byte list \<Rightarrow> bool \<Rightarrow> Connection
    \<Rightarrow> (go_error option round \<times> Buffer option \<times> byte list \<times> bool \<times> Connection) go" where
  "push_loop gots k b input pend c =
     (if cn_state c \<noteq> StateActive then Some (Returns (Some ErrClosedPipe), b, input, pend, c)
      else
        case b of
          Some buffer \<Rightarrow>
            (case SendingWorker_Push buffer (cn_sendingWorker c) of
               (False, _) \<Rightarrow> Some (Waits, b, input, pend, c)
             | (True, sd) \<Rightarrow> push_loop gots k None input True (c\<lparr>cn_sendingWorker := sd\<rparr>))
        | None \<Rightarrow> do {
            let fresh = Buffer_New (gots k);
            let (bs, e) = limit_read (unat (cn_mss c)) input Size;
            (n, err, buffer) \<leftarrow> Buffer_ReadFrom fresh (\<lambda>room. (bs, e));
            if err \<noteq> None then Some (Returns None, Some buffer, input, pend, c)
            else (case SendingWorker_Push buffer (cn_sendingWorker c) of
               (False, _) \<Rightarrow> Some (Waits, Some buffer, drop (length bs) input, pend, c)
             | (True, sd) \<Rightarrow>
                 push_loop gots (Suc k) None (drop (length bs) input) True (c\<lparr>cn_sendingWorker := sd\<rparr>))
          })"
  by pat_completeness auto

lemma push_loop_reads:
  assumes "(bs, e) = limit_read lim input Size"
    and "Buffer_ReadFrom fresh (\<lambda>room. limit_read lim input Size) = Some (n, None, buffer)"
  shows "length input - length bs < length input"
  using assms by (cases input) (auto simp: limit_read_def Buffer_ReadFrom_def split: if_splits)

termination push_loop
  by (relation "measure (\<lambda>(_, _, b, input, _, _). 2 * length input + (if b = None then 0 else 1))")
     (auto dest: push_loop_reads)

text \<open>\<^verbatim>\<open>Write\<close> wakes the updater whenever the flag is set on leaving the loop or before waiting.\<close>

definition write_round :: "(nat \<Rightarrow> slice) \<Rightarrow> Buffer option \<Rightarrow> byte list \<Rightarrow> Connection
    \<Rightarrow> (go_error option round \<times> Buffer option \<times> byte list \<times> Connection) go" where
  "write_round gots b input c = do {
     (r, b', input', pend, c') \<leftarrow> push_loop gots 0 b input False c;
     Some (r, b', input', if pend then wake_data c' else c')
   }"

section \<open>What each handler may change\<close>

text \<open>
  A connection whose sending window still matters is active or closed locally; in every other state
  \<^verbatim>\<open>CloseWrite\<close> has emptied the window.
\<close>

definition live :: "State \<Rightarrow> bool" where
  "live st \<longleftrightarrow> st = StateActive \<or> st = StateReadyToClose"

definition term_ok :: "Connection \<Rightarrow> bool" where
  "term_ok c \<longleftrightarrow> (cn_goTerminate c \<longrightarrow> cn_state c = StateTerminated)"

text \<open>
  The sender's part of a step: it stays true to the log, gives up only numbers in \<open>N\<close> while it is
  live, never becomes live again, and a terminated connection stays terminated.
\<close>

definition sender_step :: "nat set \<Rightarrow> Connection \<Rightarrow> Connection \<Rightarrow> bool" where
  "sender_step N c c' \<longleftrightarrow>
     (\<forall>log. sd_ok log (cn_sendingWorker c) \<longrightarrow> sd_ok log (cn_sendingWorker c'))
     \<and> (live (cn_state c') \<longrightarrow> live (cn_state c) \<and> gives_up N (cn_sendingWorker c) (cn_sendingWorker c'))
     \<and> cn_Conversation c' = cn_Conversation c \<and> cn_mss c' = cn_mss c
     \<and> (term_ok c \<longrightarrow> term_ok c') \<and> (cn_state c = StateTerminated \<longrightarrow> cn_state c' = StateTerminated)"

lemma sender_step_refl [simp, intro]: "sender_step N c c"
  by (simp add: sender_step_def)

lemma sender_step_trans: "sender_step M c c' \<Longrightarrow> sender_step N c' c'' \<Longrightarrow> sender_step (M \<union> N) c c''"
  using gives_up_trans by (auto simp: sender_step_def)

lemma sender_step_seq: "sender_step {} c c' \<Longrightarrow> sender_step N c' c'' \<Longrightarrow> sender_step N c c''"
  using sender_step_trans [of "{}"] by simp

lemma sender_step_mono: "sender_step M c c' \<Longrightarrow> M \<subseteq> N \<Longrightarrow> sender_step N c c'"
  using gives_up_mono by (auto simp: sender_step_def)

lemma sender_step_frame:
  "cn_sendingWorker c' = cn_sendingWorker c \<Longrightarrow> cn_state c' = cn_state c \<Longrightarrow> cn_Conversation c' = cn_Conversation c
   \<Longrightarrow> cn_mss c' = cn_mss c \<Longrightarrow> cn_goTerminate c' = cn_goTerminate c \<Longrightarrow> sender_step N c c'"
  by (simp add: sender_step_def term_ok_def)

lemma sd_ok_CloseWrite: "sd_ok log w \<Longrightarrow> sd_ok log (CloseWrite w)"
  using gives_up_Clear by (auto simp: gives_up_def CloseWrite_def)

lemma SetState_frame [simp]:
  "cn_receivingWorker (SetState now st c) = cn_receivingWorker c"
  "cn_state (SetState now st c) = st" "cn_Conversation (SetState now st c) = cn_Conversation c"
  "cn_mss (SetState now st c) = cn_mss c" "cn_roundTrip (SetState now st c) = cn_roundTrip c"
  "cn_stateBeginTime (SetState now st c) = now" "cn_Config (SetState now st c) = cn_Config c"
  by (cases st; simp add: SetState_def close_write_def ping_each_second_def wake_data_def Let_def)+

lemma SetState_sending:
  "cn_sendingWorker (SetState now st c) = (if live st then cn_sendingWorker c else CloseWrite (cn_sendingWorker c))"
  "cn_goTerminate (SetState now st c) = (st = StateTerminated \<or> cn_goTerminate c)"
  by (cases st; simp add: SetState_def close_write_def ping_each_second_def wake_data_def Let_def live_def)+

lemma sender_step_SetState:
  "(live st \<Longrightarrow> live (cn_state c)) \<Longrightarrow> cn_state c \<noteq> StateTerminated \<Longrightarrow> sender_step {} c (SetState now st c)"
  by (auto simp: sender_step_def SetState_sending sd_ok_CloseWrite term_ok_def)

lemma OnPeerClosed_step:
  "sender_step {} c (OnPeerClosed now c) \<and> cn_receivingWorker (OnPeerClosed now c) = cn_receivingWorker c
     \<and> cn_roundTrip (OnPeerClosed now c) = cn_roundTrip c"
  by (cases "cn_state c") (auto simp: OnPeerClosed_def live_def intro!: sender_step_SetState)

lemma HandleOption_step:
  "sender_step {} c (HandleOption now opt c) \<and> cn_receivingWorker (HandleOption now opt c) = cn_receivingWorker c
     \<and> cn_roundTrip (HandleOption now opt c) = cn_roundTrip c"
  using OnPeerClosed_step by (simp add: HandleOption_def)

lemma input_terminate_step:
  "sender_step {} c (input_terminate now c) \<and> cn_receivingWorker (input_terminate now c) = cn_receivingWorker c"
  by (cases "cn_state c") (auto simp: input_terminate_def live_def intro!: sender_step_SetState)

lemma signal_both_step:
  "sender_step {} c (signal_both c) \<and> cn_receivingWorker (signal_both c) = cn_receivingWorker c"
  by (auto simp: signal_both_def intro: sender_step_frame)

lemma signal_both_frame [simp]:
  "cn_state (signal_both c) = cn_state c" "cn_sendingWorker (signal_both c) = cn_sendingWorker c"
  "cn_goTerminate (signal_both c) = cn_goTerminate c" "cn_receivingWorker (signal_both c) = cn_receivingWorker c"
  "cn_Conversation (signal_both c) = cn_Conversation c" "cn_mss (signal_both c) = cn_mss c"
  "cn_lastIncomingTime (signal_both c) = cn_lastIncomingTime c" "cn_stateBeginTime (signal_both c) = cn_stateBeginTime c"
  by (simp_all add: signal_both_def)

lemma wake_data_frame [simp]:
  "cn_state (wake_data c) = cn_state c" "cn_sendingWorker (wake_data c) = cn_sendingWorker c"
  "cn_goTerminate (wake_data c) = cn_goTerminate c" "cn_receivingWorker (wake_data c) = cn_receivingWorker c"
  "cn_Conversation (wake_data c) = cn_Conversation c" "cn_mss (wake_data c) = cn_mss c"
  by (simp_all add: wake_data_def)

lemma Connection_Close_step:
  "sender_step {} c (snd (Connection_Close now c))
     \<and> cn_receivingWorker (snd (Connection_Close now c)) = cn_receivingWorker c"
proof -
  have "sender_step {} (signal_both c) (snd (Connection_Close now c))"
    by (cases "cn_state c")
       (auto simp: Connection_Close_def close_act_def Let_def live_def intro!: sender_step_SetState)
  then have "sender_step {} c (snd (Connection_Close now c))"
    using signal_both_step sender_step_seq by blast
  moreover have "cn_receivingWorker (snd (Connection_Close now c)) = cn_receivingWorker c"
    by (cases "cn_state c") (simp_all add: Connection_Close_def close_act_def Let_def)
  ultimately show ?thesis by simp
qed

lemma Terminate_step:
  assumes "cn_goTerminate c" and "term_ok c"
  shows "sender_step {} c (Terminate c)"
  using assms
  by (auto simp: sender_step_def Terminate_def Let_def SendingWorker_Release_def SendingWindow_Release_def
      sd_ok_def term_ok_def live_def)

lemma input_data_step:
  "sender_step {} c (input_data now seg c)
     \<and> cn_receivingWorker (input_data now seg c) = fst (ReceivingWorker_ProcessSegment seg (cn_receivingWorker c))"
proof -
  note h = HandleOption_step [of c now "ds_Option seg"]
  have "sender_step {} (HandleOption now (ds_Option seg) c) (input_data now seg c)"
    by (rule sender_step_frame) (simp_all add: input_data_def Let_def)
  with h sender_step_seq show ?thesis by (auto simp: input_data_def Let_def)
qed

definition acked_by :: "AckSegment \<Rightarrow> nat set" where
  "acked_by seg = unat ` set (as_NumberList seg) \<union> {n. n < unat (as_ReceivingNext seg)}"

lemma input_ack_step:
  "sender_step (acked_by seg) c (input_ack current now seg c)
     \<and> cn_receivingWorker (input_ack current now seg c) = cn_receivingWorker c"
proof -
  let ?h = "HandleOption now (as_Option seg) c"
  note h = HandleOption_step [of c now "as_Option seg"]
  obtain sd sample where p: "SendingWorker_ProcessSegment current seg (rto (cn_roundTrip ?h)) (cn_sendingWorker ?h) = (sd, sample)"
    by fastforce
  with gives_up_ProcessSegment [of seg "cn_sendingWorker ?h" current "rto (cn_roundTrip ?h)"]
  have g: "gives_up (acked_by seg) (cn_sendingWorker ?h) sd" by (simp add: acked_by_def)
  then have "sender_step (acked_by seg) ?h (input_ack current now seg c)"
    using p by (auto simp: sender_step_def input_ack_def Let_def term_ok_def gives_up_def)
  with h have "sender_step (acked_by seg) c (input_ack current now seg c)"
    using sender_step_seq by blast
  moreover have "cn_receivingWorker (input_ack current now seg c) = cn_receivingWorker c"
    using h p by (simp add: input_ack_def Let_def)
  ultimately show ?thesis by simp
qed

lemma input_cmd_step:
  "sender_step {n. n < unat (cs_ReceivingNext seg)} c (input_cmd current now seg c)
     \<and> cn_receivingWorker (input_cmd current now seg c) = ProcessSendingNext (cs_SendingNext seg) (cn_receivingWorker c)"
proof -
  define c1 where "c1 = HandleOption now (cs_Option seg) c"
  define c2 where "c2 = (if cs_Cmd seg = CommandTerminate then input_terminate now c1 else c1)"
  define c3 where "c3 = (if cs_Option seg = SegmentOptionClose \<or> cs_Cmd seg = CommandTerminate
    then signal_both c2 else c2)"
  have 1: "sender_step {} c c1 \<and> cn_receivingWorker c1 = cn_receivingWorker c"
    using HandleOption_step by (simp add: c1_def)
  have 2: "sender_step {} c1 c2 \<and> cn_receivingWorker c2 = cn_receivingWorker c1"
    using input_terminate_step by (simp add: c2_def)
  have 3: "sender_step {} c2 c3 \<and> cn_receivingWorker c3 = cn_receivingWorker c2"
    using signal_both_step by (simp add: c3_def)
  have eq: "input_cmd current now seg c =
      c3\<lparr>cn_sendingWorker := ProcessReceivingNext (cs_ReceivingNext seg) (cn_sendingWorker c3),
         cn_receivingWorker := ProcessSendingNext (cs_SendingNext seg) (cn_receivingWorker c3),
         cn_roundTrip := UpdatePeerRTO (cs_PeerRTO seg) current (cn_roundTrip c3)\<rparr>"
    by (simp add: input_cmd_def Let_def c1_def c2_def c3_def)
  have "sender_step {n. n < unat (cs_ReceivingNext seg)} c3 (input_cmd current now seg c)"
    using gives_up_ReceivingNext [of "cs_ReceivingNext seg" "cn_sendingWorker c3"]
    by (auto simp: eq sender_step_def term_ok_def gives_up_def)
  with 1 2 3 have "sender_step {n. n < unat (cs_ReceivingNext seg)} c (input_cmd current now seg c)"
    using sender_step_seq by blast
  with 1 2 3 show ?thesis by (simp add: eq)
qed

text \<open>
  What a connection may send: data of its own log, and acknowledgements and commands that tell the
  truth about its receiving worker.
\<close>

fun fwd_true :: "byte list list \<Rightarrow> Segment \<Rightarrow> bool" where
  "fwd_true log (SegData s) = seg_matches log s"
| "fwd_true log _ = True"

fun back_true :: "ReceivingWorker \<Rightarrow> Segment \<Rightarrow> bool" where
  "back_true w (SegAck s) =
     (unat (as_ReceivingNext s) \<le> unat (rw_nextNumber w) \<and> (\<forall>n \<in> set (as_NumberList s). received w (unat n)))"
| "back_true w (SegCmd s) = (unat (cs_ReceivingNext s) \<le> unat (rw_nextNumber w))"
| "back_true w (SegData s) = True"

lemma back_true_keeps: "back_true w seg \<Longrightarrow> keeps w w' \<Longrightarrow> back_true w' seg"
  by (cases seg) (auto simp: keeps_def)

lemma fwd_true_append: "fwd_true log seg \<Longrightarrow> fwd_true (log @ extra) seg"
  by (cases seg) (auto simp: seg_matches_append)

lemma seg_matches_ok: "seg_matches log s \<Longrightarrow> seg_ok (SegData s)"
  by (auto simp: seg_matches_def)

lemma Ping_step:
  assumes "cmd = CommandPing \<or> cmd = CommandTerminate" and "Ping current cmd c = (out, c')"
  shows "sender_step {} c c' \<and> cn_receivingWorker c' = cn_receivingWorker c
    \<and> cn_state c' = cn_state c \<and> cn_stateBeginTime c' = cn_stateBeginTime c
    \<and> (\<forall>seg \<in> set out. seg_ok seg \<and> fwd_true log seg \<and> back_true (cn_receivingWorker c) seg)"
  using assms
  by (auto simp: Ping_def CommandPing_def CommandTerminate_def CommandACK_def CommandData_def
      intro: sender_step_frame)

text \<open>The receiver's part of a step that reads nothing.\<close>

definition receiver_step :: "ReceivingWorker \<Rightarrow> ReceivingWorker \<Rightarrow> bool" where
  "receiver_step w w' \<longleftrightarrow> (\<forall>log. rv_ok log w \<longrightarrow> rv_ok log w') \<and> keeps w w' \<and> left_mb w' = left_mb w
     \<and> rw_nextNumber w' = rw_nextNumber w"

lemma receiver_step_refl [simp, intro]: "receiver_step w w"
  by (simp add: receiver_step_def)

lemma flush_workers_step:
  assumes "flush_workers current c = Some (out, c')" and "rv_ok rlog (cn_receivingWorker c)"
  shows "sender_step {} c c' \<and> rv_ok rlog (cn_receivingWorker c')
    \<and> keeps (cn_receivingWorker c) (cn_receivingWorker c')
    \<and> left_mb (cn_receivingWorker c') = left_mb (cn_receivingWorker c)
    \<and> rw_nextNumber (cn_receivingWorker c') = rw_nextNumber (cn_receivingWorker c)
    \<and> (\<forall>log. sd_ok log (cn_sendingWorker c) \<longrightarrow>
         (\<forall>seg \<in> set out. seg_ok seg \<and> fwd_true log seg \<and> back_true (cn_receivingWorker c') seg))"
proof -
  let ?w = "cn_receivingWorker c" and ?rtc = "cn_state c = StateReadyToClose" and ?rto = "rto (cn_roundTrip c)"
  obtain acks rw where f: "ReceivingWorker_Flush (cn_Conversation c) ?rtc ?rto current ?w = (acks, rw)"
    by fastforce
  note r = ReceivingWorker_Flush_spec [OF assms(2) f]
  define c1 where "c1 = c\<lparr>cn_receivingWorker := rw\<rparr>"
  obtain datas ping sd where g: "SendingWorker_Flush (cn_Conversation c) ?rtc ?rto (cn_Config c) current
      (cn_sendingWorker c) = Some (datas, ping, sd)"
    using assms(1) f by (auto simp: flush_workers_def split: bind_splits)
  define c2 where "c2 = c1\<lparr>cn_sendingWorker := sd\<rparr>"
  obtain out1 c3 where p1: "(if ping then Ping current CommandPing c2 else ([], c2)) = (out1, c3)" by fastforce
  obtain out2 c4 where p2: "(if current - cn_lastPingTime c3 \<ge> 3000 then Ping current CommandPing c3 else ([], c3)) = (out2, c4)"
    by fastforce
  have res: "out = map SegAck acks @ map SegData datas @ out1 @ out2" "c' = c4"
    using assms(1) f g p1 p2 by (auto simp: flush_workers_def c1_def c2_def Let_def split: if_splits)
  have s2: "sender_step {} c c2"
    using SendingWorker_Flush_spec [OF g] by (auto simp: sender_step_def c2_def c1_def term_ok_def gives_up_def)
  have s3: "sender_step {} c2 c3 \<and> cn_receivingWorker c3 = rw
      \<and> (\<forall>seg \<in> set out1. seg_ok seg \<and> fwd_true log seg \<and> back_true rw seg)" for log
    using p1 Ping_step [of CommandPing current c2 out1 c3 log] by (auto simp: c2_def c1_def split: if_splits)
  have s4: "sender_step {} c3 c4 \<and> cn_receivingWorker c4 = rw
      \<and> (\<forall>seg \<in> set out2. seg_ok seg \<and> fwd_true log seg \<and> back_true rw seg)" for log
    using p2 s3 Ping_step [of CommandPing current c3 out2 c4 log] by (auto split: if_splits)
  have ack: "seg_ok (SegAck a) \<and> fwd_true log (SegAck a) \<and> back_true rw (SegAck a)" if "a \<in> set acks" for a log
    using r that by (auto simp: keeps_def)
  have dat: "seg_ok (SegData d) \<and> fwd_true log (SegData d) \<and> back_true rw (SegData d)"
    if "d \<in> set datas" "sd_ok log (cn_sendingWorker c)" for d log
    using SendingWorker_Flush_spec [OF g] that seg_matches_ok by auto
  have "sender_step {} c c4"
    using s2 s3 s4 sender_step_seq by blast
  then show ?thesis
    using r s4 s3 ack dat by (auto simp: res)
qed

lemma flush_step:
  assumes "flush current now c = Some (out, c')" and "rv_ok rlog (cn_receivingWorker c)"
  shows "sender_step {} c c' \<and> rv_ok rlog (cn_receivingWorker c')
    \<and> keeps (cn_receivingWorker c) (cn_receivingWorker c')
    \<and> left_mb (cn_receivingWorker c') = left_mb (cn_receivingWorker c)
    \<and> rw_nextNumber (cn_receivingWorker c') = rw_nextNumber (cn_receivingWorker c)
    \<and> (\<forall>log. sd_ok log (cn_sendingWorker c) \<longrightarrow>
         (\<forall>seg \<in> set out. seg_ok seg \<and> fwd_true log seg \<and> back_true (cn_receivingWorker c') seg))"
proof (cases "cn_state c = StateTerminated")
  case True
  with assms show ?thesis by (simp add: flush_def)
next
  case False
  define c1 where "c1 = (if cn_state c = StateActive \<and> current - cn_lastIncomingTime c \<ge> 30000
    then snd (Connection_Close now c) else c)"
  define c2 where "c2 = (if cn_state c1 = StateReadyToClose \<and> SendingWorker_IsEmpty (cn_sendingWorker c1)
    then SetState now StateTerminating c1 else c1)"
  have 1: "sender_step {} c c1 \<and> cn_receivingWorker c1 = cn_receivingWorker c"
    using Connection_Close_step by (simp add: c1_def)
  have 2: "sender_step {} c1 c2 \<and> cn_receivingWorker c2 = cn_receivingWorker c1"
    by (auto simp: c2_def live_def intro!: sender_step_SetState)
  have 12: "sender_step {} c c2" "cn_receivingWorker c2 = cn_receivingWorker c"
    using 1 2 sender_step_seq by auto
  show ?thesis
  proof (cases "cn_state c2 = StateTerminating")
    case True
    obtain o1 c3 where p: "Ping current CommandTerminate c2 = (o1, c3)" by fastforce
    have p': "sender_step {} c2 c3 \<and> cn_receivingWorker c3 = cn_receivingWorker c2 \<and> cn_state c3 = cn_state c2
        \<and> (\<forall>seg \<in> set o1. seg_ok seg \<and> fwd_true log seg \<and> back_true (cn_receivingWorker c2) seg)" for log
      using Ping_step [OF _ p, of log] by simp
    have res: "out = o1" "c' = (if current - cn_stateBeginTime c3 > 8000 then SetState now StateTerminated c3 else c3)"
      using assms(1) False True p by (auto simp: flush_def Let_def c1_def [symmetric] c2_def [symmetric])
    have "sender_step {} c3 c'" "cn_receivingWorker c' = cn_receivingWorker c3"
      using p' True by (auto simp: res live_def intro!: sender_step_SetState)
    then have "sender_step {} c c'" "cn_receivingWorker c' = cn_receivingWorker c"
      using 12 p' sender_step_seq by (blast, simp)
    with assms(2) p' 12(2) show ?thesis by (simp add: res(1))
  next
    case notT: False
    define c3 where "c3 = (if cn_state c2 = StatePeerTerminating \<and> current - cn_stateBeginTime c2 > 4000
      then SetState now StateTerminating c2 else c2)"
    define c4 where "c4 = (if cn_state c3 = StateReadyToClose \<and> current - cn_stateBeginTime c3 > 15000
      then SetState now StateTerminating c3 else c3)"
    have 3: "sender_step {} c2 c3" "cn_receivingWorker c3 = cn_receivingWorker c2"
      by (auto simp: c3_def live_def intro!: sender_step_SetState)
    have 4: "sender_step {} c3 c4" "cn_receivingWorker c4 = cn_receivingWorker c3"
      by (auto simp: c4_def live_def intro!: sender_step_SetState)
    have s: "sender_step {} c c4" "cn_receivingWorker c4 = cn_receivingWorker c"
      using 12 3 4 sender_step_seq by (blast, simp)
    have "flush current now c = flush_workers current c4"
      using False notT unfolding flush_def Let_def c4_def c3_def c2_def c1_def by (simp only: if_False)
    with assms(1) have fw: "flush_workers current c4 = Some (out, c')" by simp
    have ok: "sd_ok log (cn_sendingWorker c4)" if "sd_ok log (cn_sendingWorker c)" for log
      using s(1) that by (simp add: sender_step_def)
    from assms(2) s(2) have "rv_ok rlog (cn_receivingWorker c4)" by simp
    note fws = flush_workers_step [OF fw this, unfolded s(2)]
    moreover have "sender_step {} c c'" using fws s(1) sender_step_seq by blast
    ultimately show ?thesis using ok by meson
  qed
qed

section \<open>The write loop\<close>

definition payload_ok :: "Buffer \<Rightarrow> bool" where
  "payload_ok b \<longleftrightarrow> buf_inv b \<and> content b \<noteq> [] \<and> length (content b) + 18 \<le> Size"

definition mss_ok :: "Connection \<Rightarrow> bool" where
  "mss_ok c \<longleftrightarrow> 0 < unat (cn_mss c) \<and> unat (cn_mss c) + 18 \<le> Size"

definition seg_payload :: "DataSegment \<Rightarrow> byte list" where
  "seg_payload seg = (case ds_payload seg of None \<Rightarrow> [] | Some b \<Rightarrow> content b)"

text \<open>The payloads a step appended to the sending window.\<close>

definition pushed :: "Connection \<Rightarrow> Connection \<Rightarrow> byte list list" where
  "pushed c c' = map seg_payload
     (drop (length (sw_cache (sd_window (cn_sendingWorker c)))) (sw_cache (sd_window (cn_sendingWorker c'))))"

abbreviation cn_cache :: "Connection \<Rightarrow> DataSegment list" where
  "cn_cache c \<equiv> sw_cache (sd_window (cn_sendingWorker c))"

lemma Buffer_ReadFrom_New:
  assumes "length bs \<le> Size"
  shows "\<exists>b. Buffer_ReadFrom (Buffer_New got) (\<lambda>room. (bs, e)) = Some (length bs, e, b)
    \<and> buf_inv b \<and> content b = bs"
proof -
  let ?n = "Buffer_New got"
  have z: "buf_end ?n = 0" by (simp add: Buffer_New_def)
  have fits: "nat (buf_end ?n) + length bs \<le> sl_len (buf_v ?n)" using assms z by simp
  note a = append_at_end [OF Buffer_New_inv(1) fits]
  have "int32 (buf_end ?n + int32 (int (length bs))) = buf_end ?n + int (length bs)"
    using assms z by simp
  with a z show ?thesis by (simp add: Buffer_ReadFrom_def Buffer_New_inv)
qed

text \<open>One accepted push, seen from the connection.\<close>

lemma Push_effect:
  assumes "SendingWorker_Push b (cn_sendingWorker c) = (True, sd)" and "payload_ok b"
  defines "c' \<equiv> c\<lparr>cn_sendingWorker := sd\<rparr>"
  shows "\<exists>seg. cn_cache c' = cn_cache c @ [seg] \<and> seg_payload seg = content b"
  using assms by (auto simp: SendingWorker_Push_def SendingWindow_Push_def seg_payload_def split: if_splits)

lemma pushed_Cons:
  assumes "cn_cache c1 = cn_cache c @ [seg]" and "cn_cache c' = cn_cache c1 @ more_segs"
  shows "pushed c c' = seg_payload seg # pushed c1 c'"
  using assms by (simp add: pushed_def)

lemma pushed_refl [simp]: "pushed c c = []"
  by (simp add: pushed_def)

definition pend_bytes :: "Buffer option \<Rightarrow> byte list" where
  "pend_bytes b = (case b of None \<Rightarrow> [] | Some x \<Rightarrow> content x)"

text \<open>
  What a run of the loop promises when it is given the bytes \<open>given\<close>: it only appends to the window,
  and what it appended, followed by the buffer in hand and the unread input, is what it was given.
\<close>

definition same_but_sender :: "Connection \<Rightarrow> Connection \<Rightarrow> bool" where
  "same_but_sender c c' \<longleftrightarrow> c' = c\<lparr>cn_sendingWorker := cn_sendingWorker c'\<rparr>"

lemma same_but_sender_refl [simp]: "same_but_sender c c"
  by (simp add: same_but_sender_def)

lemma same_but_sender_upd: "same_but_sender (c\<lparr>cn_sendingWorker := sd\<rparr>) c' \<Longrightarrow> same_but_sender c c'"
  unfolding same_but_sender_def by (erule trans) simp

lemma same_but_sender_frame:
  assumes "same_but_sender c c'"
  shows "cn_state c' = cn_state c" "cn_receivingWorker c' = cn_receivingWorker c"
    "cn_Conversation c' = cn_Conversation c" "cn_mss c' = cn_mss c" "cn_goTerminate c' = cn_goTerminate c"
  by (subst assms [unfolded same_but_sender_def], simp)+

definition push_post :: "Connection \<Rightarrow> byte list
    \<Rightarrow> go_error option round \<times> Buffer option \<times> byte list \<times> bool \<times> Connection \<Rightarrow> bool" where
  "push_post c given res \<longleftrightarrow> (case res of (r, b', input', pend', c') \<Rightarrow>
     (\<exists>ext. cn_cache c' = cn_cache c @ ext)
     \<and> same_but_sender c c'
     \<and> concat (pushed c c') @ pend_bytes b' @ input' = given
     \<and> (r = Returns None \<longrightarrow> pend_bytes b' = [] \<and> input' = [])
     \<and> (r = Waits \<longrightarrow> (\<exists>x. b' = Some x \<and> payload_ok x))
     \<and> (\<forall>log. sd_ok log (cn_sendingWorker c) \<longrightarrow> length log + length (pushed c c') < 4294967296 \<longrightarrow>
          sd_ok (log @ pushed c c') (cn_sendingWorker c')
          \<and> sd_numbers (cn_sendingWorker c') =
              sd_numbers (cn_sendingWorker c) \<union> {length log..<length log + length (pushed c c')}))"

lemma push_post_log_step:
  assumes push: "SendingWorker_Push x (cn_sendingWorker c) = (True, sd)" and x: "payload_ok x"
    and more: "sd_ok (log @ [content x]) sd \<Longrightarrow> length (log @ [content x]) + length ps < 4294967296 \<Longrightarrow>
      sd_ok ((log @ [content x]) @ ps) w' \<and> sd_numbers w' = sd_numbers sd \<union> {length (log @ [content x])..<length (log @ [content x]) + length ps}"
    and log: "sd_ok log (cn_sendingWorker c)" "length log + length (content x # ps) < 4294967296"
  shows "sd_ok (log @ content x # ps) w'
    \<and> sd_numbers w' = sd_numbers (cn_sendingWorker c) \<union> {length log..<length log + length (content x # ps)}"
proof -
  have x': "buf_inv x" "content x \<noteq> []" "length (content x) + 18 \<le> Size"
    using x by (auto simp: payload_ok_def)
  have p: "sd_ok (log @ [content x]) sd" "sd_numbers sd = insert (length log) (sd_numbers (cn_sendingWorker c))"
  proof -
    have "length log < 4294967296" using log(2) by simp
    from SendingWorker_Push_spec [OF push log(1) this x']
    show "sd_ok (log @ [content x]) sd" "sd_numbers sd = insert (length log) (sd_numbers (cn_sendingWorker c))"
      by blast+
  qed
  have "length (log @ [content x]) + length ps < 4294967296" using log(2) by simp
  note m = more [OF p(1) this]
  have "insert n A \<union> {Suc n..<Suc (n + k)} = A \<union> {n..<Suc (n + k)}" for n k :: nat and A
    by auto
  with m p(2) show ?thesis by simp
qed

lemma push_post_step:
  assumes push: "SendingWorker_Push x (cn_sendingWorker c) = (True, sd)" and x: "payload_ok x"
    and post: "push_post (c\<lparr>cn_sendingWorker := sd\<rparr>) given1 res"
  shows "push_post c (content x @ given1) res"
proof -
  let ?c = "c\<lparr>cn_sendingWorker := sd\<rparr>"
  obtain r b' input' pend' c' where res: "res = (r, b', input', pend', c')" by (rule prod_cases5)
  from Push_effect [OF push x] obtain seg where
    seg: "cn_cache ?c = cn_cache c @ [seg]" "seg_payload seg = content x" by blast
  from post res obtain ext where ext: "cn_cache c' = cn_cache ?c @ ext"
    and c': "same_but_sender c c'"
    and given1: "concat (pushed ?c c') @ pend_bytes b' @ input' = given1"
    and rs: "r = Returns None \<longrightarrow> pend_bytes b' = [] \<and> input' = []"
      "r = Waits \<longrightarrow> (\<exists>x. b' = Some x \<and> payload_ok x)"
    and logs: "\<And>log. sd_ok log sd \<Longrightarrow> length log + length (pushed ?c c') < 4294967296 \<Longrightarrow>
      sd_ok (log @ pushed ?c c') (cn_sendingWorker c')
      \<and> sd_numbers (cn_sendingWorker c') = sd_numbers sd \<union> {length log..<length log + length (pushed ?c c')}"
    by (auto simp: push_post_def dest: same_but_sender_upd)
  have ps: "pushed c c' = content x # pushed ?c c'"
    using pushed_Cons [OF seg(1) ext] seg(2) by simp
  have "sd_ok (log @ pushed c c') (cn_sendingWorker c')
      \<and> sd_numbers (cn_sendingWorker c') =
         sd_numbers (cn_sendingWorker c) \<union> {length log..<length log + length (pushed c c')}"
    if "sd_ok log (cn_sendingWorker c)" "length log + length (pushed c c') < 4294967296" for log
    unfolding ps
    by (rule push_post_log_step [OF push x logs that(1)]) (use that(2) in \<open>simp_all add: ps\<close>)
  moreover have "cn_cache c' = cn_cache c @ seg # ext"
    using ext seg by simp
  moreover have "concat (pushed c c') @ pend_bytes b' @ input' = content x @ given1"
    using given1 by (simp add: ps)
  ultimately show ?thesis
    using c' rs unfolding push_post_def res by blast
qed

lemma push_post_stop:
  "(r = Returns None \<longrightarrow> pend_bytes b = [] \<and> input = []) \<Longrightarrow>
   (r = Waits \<longrightarrow> (\<exists>x. b = Some x \<and> payload_ok x)) \<Longrightarrow>
     push_post c (pend_bytes b @ input) (r, b, input, pend, c)"
  by (simp add: push_post_def)

declare push_loop.simps [simp del]

lemma push_loop_held:
  assumes "cn_state c = StateActive"
  shows "push_loop gots k (Some x) input pend c =
    (case SendingWorker_Push x (cn_sendingWorker c) of
       (False, _) \<Rightarrow> Some (Waits, Some x, input, pend, c)
     | (True, sd) \<Rightarrow> push_loop gots k None input True (c\<lparr>cn_sendingWorker := sd\<rparr>))"
  using assms by (subst push_loop.simps) simp

lemma push_loop_cut:
  assumes "cn_state c = StateActive" and "mss_ok c" and "input \<noteq> []"
  defines "bs \<equiv> take (min (unat (cn_mss c)) Size) input"
  shows "\<exists>x. payload_ok x \<and> content x @ drop (length bs) input = input \<and> push_loop gots k None input pend c =
    (case SendingWorker_Push x (cn_sendingWorker c) of
       (False, _) \<Rightarrow> Some (Waits, Some x, drop (length bs) input, pend, c)
     | (True, sd) \<Rightarrow> push_loop gots (Suc k) None (drop (length bs) input) True (c\<lparr>cn_sendingWorker := sd\<rparr>))"
proof -
  have lr: "limit_read (unat (cn_mss c)) input Size = (bs, None)"
    using assms(2,3) by (auto simp: limit_read_def bs_def mss_ok_def)
  have len: "length bs \<le> Size" "length bs \<le> unat (cn_mss c)" "bs \<noteq> []"
    using assms(2,3) by (auto simp: bs_def mss_ok_def)
  from Buffer_ReadFrom_New [OF len(1), of "gots k" None] obtain x where
    rd: "Buffer_ReadFrom (Buffer_New (gots k)) (\<lambda>room. (bs, None)) = Some (length bs, None, x)"
      "buf_inv x" "content x = bs" by blast
  have "payload_ok x"
    using rd len assms(2) by (simp add: payload_ok_def mss_ok_def)
  moreover have "content x @ drop (length bs) input = input"
    by (simp add: rd(3) bs_def min_def)
  moreover have "push_loop gots k None input pend c =
    (case SendingWorker_Push x (cn_sendingWorker c) of
       (False, _) \<Rightarrow> Some (Waits, Some x, drop (length bs) input, pend, c)
     | (True, sd) \<Rightarrow> push_loop gots (Suc k) None (drop (length bs) input) True (c\<lparr>cn_sendingWorker := sd\<rparr>))"
    using rd(1) lr assms(1) by (subst push_loop.simps) simp
  ultimately show ?thesis by blast
qed

lemma push_loop_end:
  assumes "cn_state c = StateActive"
  shows "\<exists>x. content x = [] \<and> push_loop gots k None [] pend c = Some (Returns None, Some x, [], pend, c)"
  using Buffer_ReadFrom_New [of "[]" "gots k" "Some EOF"] assms
  by (subst push_loop.simps) (auto simp: limit_read_def)

text \<open>The loop never panics and keeps its promise.\<close>

lemma push_loop_spec:
  "mss_ok c \<Longrightarrow> (\<forall>x. b = Some x \<longrightarrow> payload_ok x) \<Longrightarrow>
     \<exists>res. push_loop gots k b input pend c = Some res \<and> push_post c (pend_bytes b @ input) res"
proof (induction "2 * length input + (if b = None then 0 else 1)" arbitrary: k b input pend c rule: less_induct)
  case less
  show ?case
  proof (cases "cn_state c = StateActive")
    case False
    then show ?thesis
      by (subst push_loop.simps) (simp add: push_post_stop)
  next
    case active: True
    have mss: "mss_ok (c\<lparr>cn_sendingWorker := sd\<rparr>)" for sd
      using less.prems(1) by (simp add: mss_ok_def)
    consider (held) x where "b = Some x" | (cut) "b = None" "input \<noteq> []" | (over) "b = None" "input = []"
      by (cases b) auto
    then show ?thesis
    proof cases
      case held
      obtain ok sd where push: "SendingWorker_Push x (cn_sendingWorker c) = (ok, sd)" by fastforce
      have x: "payload_ok x" using less.prems(2) held by simp
      show ?thesis
      proof (cases ok)
        case True
        with push have push: "SendingWorker_Push x (cn_sendingWorker c) = (True, sd)" by simp
        have "2 * length input + (if (None :: Buffer option) = None then 0 else 1)
            < 2 * length input + (if b = None then 0 else 1)" using held by simp
        from less.hyps [OF this mss [of sd], of k True] obtain res where
          r: "push_loop gots k None input True (c\<lparr>cn_sendingWorker := sd\<rparr>) = Some res"
            "push_post (c\<lparr>cn_sendingWorker := sd\<rparr>) input res" by (auto simp: pend_bytes_def)
        with push_post_step [OF push x r(2)] held push show ?thesis
          by (simp add: push_loop_held [OF active] pend_bytes_def)
      next
        case False
        with held push x show ?thesis
          by (simp add: push_loop_held [OF active] push_post_stop)
      qed
    next
      case cut
      let ?n = "length (take (min (unat (cn_mss c)) Size) input)"
      obtain x where x: "payload_ok x" "content x @ drop ?n input = input" and
        eq: "push_loop gots k None input pend c =
          (case SendingWorker_Push x (cn_sendingWorker c) of
             (False, _) \<Rightarrow> Some (Waits, Some x, drop ?n input, pend, c)
           | (True, sd) \<Rightarrow> push_loop gots (Suc k) None (drop ?n input) True (c\<lparr>cn_sendingWorker := sd\<rparr>))"
        using push_loop_cut [OF active less.prems(1) cut(2), of gots k pend] by blast
      obtain ok sd where push: "SendingWorker_Push x (cn_sendingWorker c) = (ok, sd)" by fastforce
      show ?thesis
      proof (cases ok)
        case True
        with push have push: "SendingWorker_Push x (cn_sendingWorker c) = (True, sd)" by simp
        have "?n > 0" using cut(2) less.prems(1) by (auto simp: mss_ok_def)
        then have "2 * length (drop ?n input) + (if (None :: Buffer option) = None then 0 else 1)
            < 2 * length input + (if b = None then 0 else 1)" using cut by simp
        from less.hyps [OF this mss [of sd], of "Suc k" True] obtain res where
          r: "push_loop gots (Suc k) None (drop ?n input) True (c\<lparr>cn_sendingWorker := sd\<rparr>) = Some res"
            "push_post (c\<lparr>cn_sendingWorker := sd\<rparr>) (drop ?n input) res" by (auto simp: pend_bytes_def)
        with push_post_step [OF push x(1) r(2)] cut push eq x(2) show ?thesis
          by (simp add: pend_bytes_def)
      next
        case False
        have "push_post c (pend_bytes (Some x) @ drop ?n input) (Waits, Some x, drop ?n input, pend, c)"
          by (rule push_post_stop) (simp_all add: x(1))
        with False cut eq push x(2) show ?thesis
          by (simp add: pend_bytes_def)
      qed
    next
      case over
      from push_loop_end [OF active, of gots k pend] over show ?thesis
        by (auto simp: push_post_def pend_bytes_def)
    qed
  qed
qed

section \<open>The life of a connection\<close>

text \<open>Every handler of a connection, with any segments and at any time.\<close>

inductive conn_op :: "Connection \<Rightarrow> Connection \<Rightarrow> bool" where
  op_input: "conn_op c (Connection_Input current now segs c)"
| op_flush: "flush current now c = Some (out, c') \<Longrightarrow> conn_op c c'"
| op_close: "conn_op c (snd (Connection_Close now c))"
| op_terminate: "conn_op c (Terminate c)"
| op_write: "write_round gots b input c = Some (r, b', input', c') \<Longrightarrow> conn_op c c'"
| op_read: "Connection_Read n c = Some (r', c') \<Longrightarrow> conn_op c c'"
| op_read_mb: "Connection_ReadMultiBuffer c = (r'', c') \<Longrightarrow> conn_op c c'"

fun rank :: "State \<Rightarrow> nat" where
  "rank StateActive = 0"
| "rank StateReadyToClose = 1"
| "rank StatePeerClosed = 1"
| "rank StatePeerTerminating = 2"
| "rank StateTerminating = 3"
| "rank StateTerminated = 4"

definition forward :: "State \<Rightarrow> State \<Rightarrow> bool" where
  "forward st st' \<longleftrightarrow> st' = st \<or> rank st < rank st'"

lemma forward_refl [simp, intro]: "forward st st"
  by (simp add: forward_def)

lemma forward_trans: "forward st st' \<Longrightarrow> forward st' st'' \<Longrightarrow> forward st st''"
  by (auto simp: forward_def)

lemma forward_HandleOption: "forward (cn_state c) (cn_state (HandleOption now opt c))"
  by (cases "cn_state c") (auto simp: HandleOption_def OnPeerClosed_def forward_def)

lemma forward_input_terminate: "forward (cn_state c) (cn_state (input_terminate now c))"
  by (cases "cn_state c") (auto simp: input_terminate_def forward_def)

lemma forward_Close: "forward (cn_state c) (cn_state (snd (Connection_Close now c)))"
  by (cases "cn_state c") (auto simp: Connection_Close_def close_act_def forward_def Let_def)

lemma forward_input_seg:
  "forward (cn_state c) (cn_state (input_data now s c))"
  "forward (cn_state c) (cn_state (input_ack current now a c))"
  "forward (cn_state c) (cn_state (input_cmd current now m c))"
proof -
  show "forward (cn_state c) (cn_state (input_data now s c))"
    using forward_HandleOption by (simp add: input_data_def Let_def)
  show "forward (cn_state c) (cn_state (input_ack current now a c))"
    using forward_HandleOption by (simp add: input_ack_def Let_def split: prod.splits)
  show "forward (cn_state c) (cn_state (input_cmd current now m c))"
    using forward_HandleOption [of c now "cs_Option m"]
      forward_input_terminate [of "HandleOption now (cs_Option m) c" now]
    by (auto simp: input_cmd_def Let_def intro: forward_trans)
qed

lemma forward_input_loop: "forward (cn_state c) (cn_state (input_loop current now segs c))"
proof (induction segs arbitrary: c)
  case (Cons seg segs)
  define c1 where "c1 = (case seg of SegData s \<Rightarrow> input_data now s c | SegAck s \<Rightarrow> input_ack current now s c
    | SegCmd s \<Rightarrow> input_cmd current now s c)"
  have "forward (cn_state c) (cn_state c1)"
    by (cases seg) (simp_all add: c1_def forward_input_seg)
  then have "forward (cn_state c) (cn_state (input_loop current now segs c1))"
    using Cons.IH forward_trans by blast
  then show ?case by (simp add: c1_def)
qed simp

lemma flush_workers_state: "flush_workers current c = Some (out, c') \<Longrightarrow> cn_state c' = cn_state c"
  by (auto simp: flush_workers_def Ping_def Let_def split: bind_splits prod.splits if_splits)

lemma forward_flush:
  assumes "flush current now c = Some (out, c')"
  shows "forward (cn_state c) (cn_state c')"
proof (cases "cn_state c = StateTerminated")
  case True
  with assms show ?thesis by (simp add: flush_def)
next
  case False
  define c1 where "c1 = (if cn_state c = StateActive \<and> current - cn_lastIncomingTime c \<ge> 30000
    then snd (Connection_Close now c) else c)"
  define c2 where "c2 = (if cn_state c1 = StateReadyToClose \<and> SendingWorker_IsEmpty (cn_sendingWorker c1)
    then SetState now StateTerminating c1 else c1)"
  define c3 where "c3 = (if cn_state c2 = StatePeerTerminating \<and> current - cn_stateBeginTime c2 > 4000
    then SetState now StateTerminating c2 else c2)"
  define c4 where "c4 = (if cn_state c3 = StateReadyToClose \<and> current - cn_stateBeginTime c3 > 15000
    then SetState now StateTerminating c3 else c3)"
  have "forward (cn_state c) (cn_state c1)" using forward_Close [of c now] by (auto simp: c1_def)
  moreover have "forward (cn_state c1) (cn_state c2)" by (simp add: c2_def forward_def)
  ultimately have 2: "forward (cn_state c) (cn_state c2)" by (rule forward_trans)
  show ?thesis
  proof (cases "cn_state c2 = StateTerminating")
    case True
    then have "forward (cn_state c2) (cn_state c')"
      using assms False unfolding flush_def Let_def c2_def [symmetric] c1_def [symmetric]
      by (auto simp: Ping_def forward_def)
    with 2 forward_trans show ?thesis by blast
  next
    case notT: False
    have "flush current now c = flush_workers current c4"
      using False notT unfolding flush_def Let_def c4_def c3_def c2_def c1_def by (simp only: if_False)
    with assms have "cn_state c' = cn_state c4" using flush_workers_state by simp
    moreover have "forward (cn_state c2) (cn_state c3)" "forward (cn_state c3) (cn_state c4)"
      by (simp_all add: c3_def c4_def forward_def)
    ultimately show ?thesis using 2 forward_trans by metis
  qed
qed

lemma push_loop_state: "push_loop gots k b input pend c = Some (r, b', input', pend', c') \<Longrightarrow> cn_state c' = cn_state c"
proof (induction gots k b input pend c rule: push_loop.induct)
  case (1 gots k b input pend c)
  show ?case
    using "1.prems" "1.IH"
    by (subst (asm) push_loop.simps) (auto simp: Let_def split: if_splits option.splits prod.splits bind_splits bool.splits)
qed

section \<open>Properties\<close>

text \<open>
  C39. The connection's state machine moves forward as long as its handlers do not overlap: through any sequence of whole
  handlers, with any segments from the peer and at any time, the state stays or moves to one of higher rank
  (active, closed on one side, peer terminating, terminating, terminated), so a terminated connection stays terminated and a
  connection that has closed its writing side never becomes active again. The handlers are not locked against each other,
  and with an overlap this fails: a \<^verbatim>\<open>Close\<close> that has loaded the active state sets \<^verbatim>\<open>StateReadyToClose\<close> whatever the handlers
  that ran in between have made of the connection, a terminated one included.
\<close>
theorem kcp_state_forward:
  assumes "conn_op\<^sup>*\<^sup>* c c'"
  shows "forward (cn_state c) (cn_state c') \<and> (cn_state c = StateTerminated \<longrightarrow> cn_state c' = StateTerminated)
    \<and> (cn_state c = StateActive \<longrightarrow> cn_state (snd (close_act now (cn_state c) c')) = StateReadyToClose)"
proof -
  have step: "forward (cn_state x) (cn_state y)" if "conn_op x y" for x y
    using that
  proof cases
    case (op_input current now segs)
    then show ?thesis using forward_input_loop [of "x\<lparr>cn_lastIncomingTime := current\<rparr>"]
      by (simp add: Connection_Input_def)
  next
    case op_flush
    then show ?thesis using forward_flush by blast
  next
    case op_close
    then show ?thesis using forward_Close by simp
  next
    case op_terminate
    then show ?thesis by (simp add: Terminate_def Let_def)
  next
    case op_write
    then show ?thesis using push_loop_state
      by (auto simp: write_round_def split: bind_splits if_splits)
  next
    case op_read
    then show ?thesis by (auto simp: Connection_Read_def Let_def split: if_splits bind_splits)
  next
    case op_read_mb
    then show ?thesis by (auto simp: Connection_ReadMultiBuffer_def Let_def split: if_splits prod.splits)
  qed
  from assms have "forward (cn_state c) (cn_state c')"
    by (induction rule: rtranclp_induct) (use step forward_trans in blast)+
  moreover have "rank st \<le> 4" for st by (cases st) auto
  ultimately have "forward (cn_state c) (cn_state c') \<and> (cn_state c = StateTerminated \<longrightarrow> cn_state c' = StateTerminated)"
    by (auto simp: forward_def) (metis leD rank.simps(6))
  then show ?thesis by (simp add: close_act_def)
qed

text \<open>
  A new connection: the peer terminates, \<^verbatim>\<open>Close\<close> makes it terminated, and a second \<^verbatim>\<open>Close\<close> that had loaded the active state before
  sets it back.
\<close>

definition ex_conn :: Connection where
  "ex_conn = the (NewConnection 1 default_Config)"

definition ex_terminate :: Segment where
  "ex_terminate = SegCmd (NewCmdOnlySegment\<lparr>cs_Conv := 1, cs_Cmd := CommandTerminate\<rparr>)"

lemma ex_conn_state: "cn_state ex_conn = StateActive" "cn_Conversation ex_conn = 1"
  by (simp_all add: ex_conn_def NewConnection_def NewSendingWorker_def GetReceivingInFlightSize_def
      GetSendingInFlightSize_def GetSendingBufferSize_def inFlightSize_def go_div_def default_Config_def Let_def)

theorem kcp_state_forward_witness:
  "let c' = snd (Connection_Close 7 (Connection_Input 5 6 [ex_terminate] ex_conn)) in
     cn_state c' = StateTerminated \<and> forward StateActive (cn_state c') \<and>
     cn_state (snd (close_act 8 StateActive c')) = StateReadyToClose"
proof -
  let ?c1 = "Connection_Input 5 6 [ex_terminate] ex_conn"
  have "cn_state ?c1 = StatePeerTerminating"
    by (simp add: Connection_Input_def ex_terminate_def input_cmd_def HandleOption_def input_terminate_def ex_conn_state
        NewCmdOnlySegment_def SegmentOptionClose_def Let_def)
  then have t: "cn_state (snd (Connection_Close 7 ?c1)) = StateTerminated"
    by (simp add: Connection_Close_def close_act_def)
  have "conn_op ex_conn ?c1" "conn_op ?c1 (snd (Connection_Close 7 ?c1))" by (rule op_input, rule op_close)
  then have "conn_op\<^sup>*\<^sup>* ex_conn (snd (Connection_Close 7 ?c1))" by (meson r_into_rtranclp rtranclp.rtrancl_into_rtrancl)
  from kcp_state_forward [OF this, of 8] t show ?thesis by (simp add: ex_conn_state)
qed

text \<open>
  The retransmission timeout the estimator computes is bounded: after a round-trip sample it is at
  most 12.5 seconds whatever the sample and the history; samples above 2^31 - 1 change nothing.
\<close>
theorem rto_bounded:
  "if rtt > 0x7FFFFFFF then RoundTripInfo_Update rtt current info = info
   else rto (RoundTripInfo_Update rtt current info) \<le> 12500"
proof -
  have cap: "(if (r :: u32) > 10000 then 10000 else r) * 5 div 4 \<le> 12500" for r
  proof -
    define x where "x = (if r > 10000 then 10000 else r)"
    have x: "unat x \<le> 10000" by (auto simp: x_def word_le_nat_alt not_less)
    then have "unat (x * 5) = unat x * 5"
      by (subst unat_mult_lem [THEN iffD1]) simp_all
    with x have "unat (x * 5 div 4) \<le> 12500" by (simp add: unat_div)
    then show ?thesis by (simp add: x_def word_le_nat_alt)
  qed
  show ?thesis
    using cap by (simp add: RoundTripInfo_Update_def Let_def)
qed

text \<open>
  The flush compares the clock reading it took first with the state's begin time, which
  \<^verbatim>\<open>SetState\<close> reads later, in unsigned arithmetic. When the clock has advanced in between, a locally
  closed connection with nothing left to send passes through \<^verbatim>\<open>StateTerminating\<close> to
  \<^verbatim>\<open>StateTerminated\<close> in a single flush instead of staying in it for eight seconds.
\<close>
theorem flush_terminates_early:
  assumes "cn_state c = StateReadyToClose" and "SendingWorker_IsEmpty (cn_sendingWorker c)"
    and "current - now > 8000"
  shows "\<exists>out c'. flush current now c = Some (out, c') \<and> cn_state c' = StateTerminated"
  using assms by (simp add: flush_def Ping_def Let_def)

theorem flush_terminates_early_witness:
  "\<exists>out c'. flush 1000 1001 (SetState 0 StateReadyToClose (the (NewConnection 1 default_Config))) = Some (out, c')
     \<and> cn_state c' = StateTerminated"
proof (rule flush_terminates_early)
  show "SendingWorker_IsEmpty (cn_sendingWorker (SetState 0 StateReadyToClose (the (NewConnection 1 default_Config))))"
    by (simp add: SetState_sending live_def SendingWorker_IsEmpty_def SendingWindow_IsEmpty_def NewConnection_def
        NewSendingWorker_def GetReceivingInFlightSize_def GetSendingInFlightSize_def GetSendingBufferSize_def
        inFlightSize_def go_div_def default_Config_def NewSendingWindow_def Let_def)
qed simp_all

text \<open>
  A write cuts its input into segments without losing or repeating a byte: the loop never panics,
  what it appended to the window followed by the buffer in hand and the unread input is what it was
  given, and when it reports success everything has been accepted.
\<close>
theorem write_accounts_for_input:
  assumes "mss_ok c"
  shows "\<exists>r b' input' c'. write_round gots None input c = Some (r, b', input', c')
    \<and> concat (pushed c c') @ pend_bytes b' @ input' = input
    \<and> (r = Returns None \<longrightarrow> concat (pushed c c') = input)"
proof -
  from push_loop_spec [OF assms, of None gots 0 input False] obtain r b' input' pend c1 where
    l: "push_loop gots 0 None input False c = Some (r, b', input', pend, c1)"
      and p: "push_post c input (r, b', input', pend, c1)"
    by (auto simp: pend_bytes_def)
  define c' where "c' = (if pend then wake_data c1 else c1)"
  have "pushed c c' = pushed c c1" by (simp add: pushed_def c'_def)
  with p have "concat (pushed c c') @ pend_bytes b' @ input' = input"
    "r = Returns None \<longrightarrow> concat (pushed c c') = input" by (auto simp: push_post_def)
  moreover have "write_round gots None input c = Some (r, b', input', c')"
    using l by (simp add: write_round_def c'_def)
  ultimately show ?thesis by blast
qed

theorem write_accounts_for_input_witness:
  "\<exists>r b' input' c'. write_round (\<lambda>_. nil_slice) None [1, 2, 3] (the (NewConnection 1 default_Config)) =
       Some (r, b', input', c')
     \<and> concat (pushed (the (NewConnection 1 default_Config)) c') @ pend_bytes b' @ input' = [1, 2, 3]"
proof -
  have "mss_ok (the (NewConnection 1 default_Config))"
    by (simp add: mss_ok_def NewConnection_def NewSendingWorker_def GetReceivingInFlightSize_def
        GetSendingInFlightSize_def GetSendingBufferSize_def inFlightSize_def go_div_def default_Config_def
        DataSegmentOverhead_def Let_def)
  from write_accounts_for_input [OF this, of "\<lambda>_. nil_slice" "[1, 2, 3]"] show ?thesis by blast
qed

end
