(* ===== verification/Kcp_Session.thy ===== *)
theory Kcp_Session
  imports Kcp_Connection "HOL-Library.Sublist"
begin

text \<open>
  Two mKCP connections joined by a network that may lose, duplicate, delay and reorder packets: a
  packet, once sent, may be delivered any number of times or never. Each endpoint flushes, closes,
  terminates, writes, reads and receives in any order. The states record, as history, the payloads
  each endpoint has accepted for sending and the bytes its user has read.

  The theorems are the protocol's promise: what is read is a prefix of what was accepted, and while
  the sender is live nothing it accepted is forgotten before the receiver has it.
\<close>

record endpoint =
  ep_conn :: Connection
  ep_wbuf :: Buffer
  ep_sent :: "byte list set"
  ep_log :: "byte list list"
  ep_read :: "byte list"

text \<open>The segment writer sends every segment of a flush as a packet of its own.\<close>

fun emit :: "Buffer \<Rightarrow> Segment list \<Rightarrow> (byte list list \<times> Buffer) go" where
  "emit b [] = Some ([], b)"
| "emit b (seg # segs) = do {
     (p, b1) \<leftarrow> SimpleSegmentWriter_Write b seg;
     (ps, b2) \<leftarrow> emit b1 segs;
     Some (p # ps, b2)
   }"

definition round_bytes :: "(byte list \<times> go_error option) round \<Rightarrow> byte list" where
  "round_bytes r = (case r of Returns (bs, _) \<Rightarrow> bs | Waits \<Rightarrow> [])"

definition round_mb :: "(MultiBuffer \<times> go_error option) round \<Rightarrow> byte list" where
  "round_mb r = (case r of Returns (mb, _) \<Rightarrow> mcontent mb | Waits \<Rightarrow> [])"

text \<open>The steps of one endpoint, given the packets its peer has sent.\<close>

inductive ep_step :: "byte list set \<Rightarrow> endpoint \<Rightarrow> endpoint \<Rightarrow> bool" for avail where
  es_flush: "flush current now (ep_conn e) = Some (out, c') \<Longrightarrow> emit (ep_wbuf e) out = Some (ps, wb) \<Longrightarrow>
    ep_step avail e (e\<lparr>ep_conn := c', ep_wbuf := wb, ep_sent := ep_sent e \<union> set ps\<rparr>)"
| es_close: "ep_step avail e (e\<lparr>ep_conn := snd (Connection_Close now (ep_conn e))\<rparr>)"
| es_terminate: "cn_goTerminate (ep_conn e) \<Longrightarrow> ep_step avail e (e\<lparr>ep_conn := Terminate (ep_conn e)\<rparr>)"
| es_write: "write_round gots b input (ep_conn e) = Some (r, b', input', c') \<Longrightarrow>
    (\<forall>x. b = Some x \<longrightarrow> payload_ok x) \<Longrightarrow>
    ep_step avail e (e\<lparr>ep_conn := c', ep_log := ep_log e @ pushed (ep_conn e) c'\<rparr>)"
| es_recv: "p \<in> avail \<Longrightarrow> KCPPacketReader_Read gots p = Some segs \<Longrightarrow>
    ep_step avail e (e\<lparr>ep_conn := Connection_Input current now segs (ep_conn e)\<rparr>)"
| es_read: "Connection_Read n (ep_conn e) = Some (r, c') \<Longrightarrow>
    ep_step avail e (e\<lparr>ep_conn := c', ep_read := ep_read e @ round_bytes r\<rparr>)"
| es_read_mb: "Connection_ReadMultiBuffer (ep_conn e) = (r, c') \<Longrightarrow>
    ep_step avail e (e\<lparr>ep_conn := c', ep_read := ep_read e @ round_mb r\<rparr>)"

inductive link_step :: "endpoint \<times> endpoint \<Rightarrow> endpoint \<times> endpoint \<Rightarrow> bool" where
  left: "ep_step (ep_sent b) a a' \<Longrightarrow> link_step (a, b) (a', b)"
| right: "ep_step (ep_sent a) b b' \<Longrightarrow> link_step (a, b) (a, b')"

definition new_endpoint :: "slice \<Rightarrow> Connection \<Rightarrow> endpoint" where
  "new_endpoint got c = \<lparr>ep_conn = c, ep_wbuf = Buffer_New got, ep_sent = {}, ep_log = [], ep_read = []\<rparr>"

text \<open>A session of two new connections of one configuration and conversation number.\<close>

inductive session :: "u16 \<Rightarrow> Config \<Rightarrow> endpoint \<times> endpoint \<Rightarrow> bool" for conv config where
  start: "NewConnection conv config = Some c \<Longrightarrow> session conv config (new_endpoint got c, new_endpoint got' c)"
| step: "session conv config s \<Longrightarrow> link_step s s' \<Longrightarrow> session conv config s'"

section \<open>The invariant\<close>

abbreviation ep_rw :: "endpoint \<Rightarrow> ReceivingWorker" where
  "ep_rw e \<equiv> cn_receivingWorker (ep_conn e)"

abbreviation ep_sd :: "endpoint \<Rightarrow> SendingWorker" where
  "ep_sd e \<equiv> cn_sendingWorker (ep_conn e)"

abbreviation ep_state :: "endpoint \<Rightarrow> State" where
  "ep_state e \<equiv> cn_state (ep_conn e)"

definition sent_ok :: "endpoint \<Rightarrow> bool" where
  "sent_ok e \<longleftrightarrow> (\<forall>p \<in> ep_sent e. \<exists>seg. p = seg_wire seg \<and> seg_ok seg \<and> fwd_true (ep_log e) seg
     \<and> back_true (ep_rw e) seg)"

definition local_ok :: "endpoint \<Rightarrow> bool" where
  "local_ok e \<longleftrightarrow> buf_inv (ep_wbuf e) \<and> sl_len (buf_v (ep_wbuf e)) = Size \<and> term_ok (ep_conn e)
     \<and> mss_ok (ep_conn e) \<and> sent_ok e"

text \<open>What the reader of \<open>log\<close> has read.\<close>

definition read_ok :: "byte list list \<Rightarrow> endpoint \<Rightarrow> bool" where
  "read_ok log r \<longleftrightarrow> prefix (ep_read r) (concat log)
     \<and> (ep_state r \<noteq> StateTerminated \<longrightarrow> stream_at log (ep_read r) (ep_rw r))"

definition none_lost :: "endpoint \<Rightarrow> endpoint \<Rightarrow> bool" where
  "none_lost s r \<longleftrightarrow> (live (ep_state s) \<longrightarrow>
     (\<forall>n < length (ep_log s). n \<in> sd_numbers (ep_sd s) \<or> received (ep_rw r) n))"

text \<open>One direction of the link, from sender \<open>s\<close> to receiver \<open>r\<close>.\<close>

definition half_ok :: "endpoint \<Rightarrow> endpoint \<Rightarrow> bool" where
  "half_ok s r \<longleftrightarrow> sd_ok (ep_log s) (ep_sd s) \<and> rv_ok (ep_log s) (ep_rw r)
     \<and> read_ok (ep_log s) r \<and> none_lost s r"

definition pair_ok :: "endpoint \<Rightarrow> endpoint \<Rightarrow> bool" where
  "pair_ok e f \<longleftrightarrow> local_ok e \<and> local_ok f \<and> half_ok e f \<and> half_ok f e"

lemma pair_ok_sym: "pair_ok e f \<longleftrightarrow> pair_ok f e"
  by (auto simp: pair_ok_def)

text \<open>
  What a step of \<open>e\<close> does, as far as its peer \<open>f\<close> can tell: the sending side extends the log and gives up
  only what \<open>f\<close> has received; the receiving side keeps what it has.
\<close>

definition sending_effect :: "endpoint \<Rightarrow> endpoint \<Rightarrow> endpoint \<Rightarrow> bool" where
  "sending_effect f e e' \<longleftrightarrow> (\<exists>ext. ep_log e' = ep_log e @ ext) \<and> sd_ok (ep_log e') (ep_sd e')
     \<and> (live (ep_state e') \<longrightarrow> live (ep_state e)
        \<and> sd_numbers (ep_sd e) \<union> {length (ep_log e)..<length (ep_log e')}
            \<subseteq> sd_numbers (ep_sd e') \<union> {n. received (ep_rw f) n})"

definition receiving_effect :: "endpoint \<Rightarrow> endpoint \<Rightarrow> endpoint \<Rightarrow> bool" where
  "receiving_effect f e e' \<longleftrightarrow> rv_ok (ep_log f) (ep_rw e') \<and> keeps (ep_rw e) (ep_rw e') \<and> read_ok (ep_log f) e'"

lemma stream_at_append:
  "stream_at log rd w \<Longrightarrow> unat (rw_nextNumber w) \<le> length log \<Longrightarrow> stream_at (log @ ext) rd w"
  by (simp add: stream_at_def)

lemma read_ok_append: "read_ok log r \<Longrightarrow> rv_ok log (ep_rw r) \<Longrightarrow> read_ok (log @ ext) r"
  by (auto simp: read_ok_def rv_ok_def stream_at_append intro: prefix_prefix)

lemma half_ok_sending: "half_ok e f \<Longrightarrow> sending_effect f e e' \<Longrightarrow> half_ok e' f"
proof -
  assume h: "half_ok e f" and s: "sending_effect f e e'"
  then obtain ext where ext: "ep_log e' = ep_log e @ ext" by (auto simp: sending_effect_def)
  have "none_lost e' f"
    unfolding none_lost_def
  proof (intro impI allI)
    fix n assume live: "live (ep_state e')" and n: "n < length (ep_log e')"
    from s live have sub: "sd_numbers (ep_sd e) \<union> {length (ep_log e)..<length (ep_log e')}
        \<subseteq> sd_numbers (ep_sd e') \<union> {n. received (ep_rw f) n}" and "live (ep_state e)"
      by (auto simp: sending_effect_def)
    with h n have "n \<in> sd_numbers (ep_sd e) \<union> {length (ep_log e)..<length (ep_log e')} \<or> received (ep_rw f) n"
      by (cases "n < length (ep_log e)") (auto simp: half_ok_def none_lost_def)
    with sub show "n \<in> sd_numbers (ep_sd e') \<or> received (ep_rw f) n" by blast
  qed
  with h s ext show ?thesis
    by (auto simp: half_ok_def sending_effect_def rv_ok_append read_ok_append)
qed

lemma half_ok_receiving: "half_ok f e \<Longrightarrow> receiving_effect f e e' \<Longrightarrow> half_ok f e'"
  by (auto simp: half_ok_def receiving_effect_def none_lost_def keeps_def)

lemma pair_ok_effect:
  "pair_ok e f \<Longrightarrow> local_ok e' \<Longrightarrow> sending_effect f e e' \<Longrightarrow> receiving_effect f e e' \<Longrightarrow> pair_ok e' f"
  unfolding pair_ok_def using half_ok_sending half_ok_receiving by blast

section \<open>One lemma per step\<close>

lemma sending_effect_step:
  assumes "sender_step N (ep_conn e) (ep_conn e')" and "ep_log e' = ep_log e"
    and "sd_ok (ep_log e) (ep_sd e)" and "N \<subseteq> {n. received (ep_rw f) n}"
  shows "sending_effect f e e'"
  using assms by (auto simp: sending_effect_def sender_step_def gives_up_def)

lemma receiving_effect_quiet:
  assumes "rv_ok (ep_log f) (ep_rw e')" and "keeps (ep_rw e) (ep_rw e')"
    and "left_mb (ep_rw e') = left_mb (ep_rw e)" and "rw_nextNumber (ep_rw e') = rw_nextNumber (ep_rw e)"
    and "ep_read e' = ep_read e" and "ep_state e = StateTerminated \<longrightarrow> ep_state e' = StateTerminated"
    and "read_ok (ep_log f) e"
  shows "receiving_effect f e e'"
  using assms by (auto simp: receiving_effect_def read_ok_def stream_at_def)

lemma receiving_effect_same:
  "rv_ok (ep_log f) (ep_rw e) \<Longrightarrow> read_ok (ep_log f) e \<Longrightarrow> ep_rw e' = ep_rw e \<Longrightarrow> ep_read e' = ep_read e \<Longrightarrow>
   (ep_state e = StateTerminated \<longrightarrow> ep_state e' = StateTerminated) \<Longrightarrow> receiving_effect f e e'"
  by (rule receiving_effect_quiet) auto

lemma sent_ok_keeps:
  "sent_ok e \<Longrightarrow> ep_sent e' = ep_sent e \<Longrightarrow> ep_log e' = ep_log e @ ext \<Longrightarrow> keeps (ep_rw e) (ep_rw e') \<Longrightarrow> sent_ok e'"
  unfolding sent_ok_def using fwd_true_append back_true_keeps by metis

lemma local_ok_keeps:
  assumes "local_ok e" and "sender_step N (ep_conn e) (ep_conn e')" and "ep_wbuf e' = ep_wbuf e"
    and "ep_sent e' = ep_sent e" and "ep_log e' = ep_log e @ ext" and "keeps (ep_rw e) (ep_rw e')"
  shows "local_ok e'"
  using assms sent_ok_keeps [of e e' ext] by (auto simp: local_ok_def sender_step_def mss_ok_def)

lemma emit_wire:
  "buf_inv b \<Longrightarrow> sl_len (buf_v b) = Size \<Longrightarrow> list_all seg_ok segs \<Longrightarrow>
     \<exists>b'. emit b segs = Some (map seg_wire segs, b') \<and> buf_inv b' \<and> sl_len (buf_v b') = Size"
proof (induction segs arbitrary: b)
  case (Cons seg segs)
  then have ok: "seg_ok seg" "list_all seg_ok segs" by simp_all
  from SimpleSegmentWriter_Write_spec [OF Cons.prems(1,2) ok(1)] obtain b1 where
    b1: "SimpleSegmentWriter_Write b seg = Some (seg_wire seg, b1)" "buf_inv b1" "sl_len (buf_v b1) = Size"
    by blast
  from Cons.IH [OF b1(2,3) ok(2)] b1(1) show ?case by auto
qed simp

lemma step_flush:
  assumes ok: "pair_ok e f" and fl: "flush current now (ep_conn e) = Some (out, c')"
    and em: "emit (ep_wbuf e) out = Some (ps, wb)"
  shows "pair_ok (e\<lparr>ep_conn := c', ep_wbuf := wb, ep_sent := ep_sent e \<union> set ps\<rparr>) f" (is "pair_ok ?e f")
proof (rule pair_ok_effect [OF ok])
  from ok have l: "local_ok e" and sd: "sd_ok (ep_log e) (ep_sd e)" and rv: "rv_ok (ep_log f) (ep_rw e)"
    and rd: "read_ok (ep_log f) e" by (auto simp: pair_ok_def half_ok_def)
  note fs = flush_step [OF fl rv]
  from fs sd have outs: "\<forall>seg \<in> set out. seg_ok seg \<and> fwd_true (ep_log e) seg \<and> back_true (cn_receivingWorker c') seg"
    by blast
  from outs have "list_all seg_ok out" by (simp add: list_all_iff)
  with emit_wire [of "ep_wbuf e" out] l em have ps: "ps = map seg_wire out" "buf_inv wb" "sl_len (buf_v wb) = Size"
    by (auto simp: local_ok_def)
  have st: "sender_step {} (ep_conn e) c'" and kp: "keeps (ep_rw e) (cn_receivingWorker c')"
    using fs by blast+
  have "\<forall>p \<in> ep_sent e. \<exists>seg. p = seg_wire seg \<and> seg_ok seg \<and> fwd_true (ep_log e) seg
      \<and> back_true (cn_receivingWorker c') seg"
    using l kp back_true_keeps unfolding local_ok_def sent_ok_def by metis
  then have "sent_ok ?e"
    using outs by (auto simp: sent_ok_def ps(1))
  with l ps st show "local_ok ?e"
    by (auto simp: local_ok_def sender_step_def mss_ok_def)
  show "sending_effect f e ?e"
    by (rule sending_effect_step [where N = "{}"]) (use st sd in auto)
  show "receiving_effect f e ?e"
    by (rule receiving_effect_quiet) (use fs rd st in \<open>auto simp: sender_step_def\<close>)
qed

text \<open>Steps that change only the connection's state and its sender.\<close>

lemma step_local:
  assumes ok: "pair_ok e f" and st: "sender_step {} (ep_conn e) c'" and rw: "cn_receivingWorker c' = ep_rw e"
  shows "pair_ok (e\<lparr>ep_conn := c'\<rparr>) f" (is "pair_ok ?e f")
proof (rule pair_ok_effect [OF ok])
  from ok have l: "local_ok e" and sd: "sd_ok (ep_log e) (ep_sd e)" and rv: "rv_ok (ep_log f) (ep_rw e)"
    and rd: "read_ok (ep_log f) e" by (auto simp: pair_ok_def half_ok_def)
  show "local_ok ?e"
    by (rule local_ok_keeps [OF l, where N = "{}" and ext = "[]"]) (use st rw in auto)
  show "sending_effect f e ?e"
    by (rule sending_effect_step [where N = "{}"]) (use st sd in auto)
  show "receiving_effect f e ?e"
    by (rule receiving_effect_same) (use st rw rv rd in \<open>auto simp: sender_step_def\<close>)
qed

lemma step_terminate:
  assumes ok: "pair_ok e f" and go: "cn_goTerminate (ep_conn e)"
  shows "pair_ok (e\<lparr>ep_conn := Terminate (ep_conn e)\<rparr>) f" (is "pair_ok ?e f")
proof (rule pair_ok_effect [OF ok])
  from ok have l: "local_ok e" and sd: "sd_ok (ep_log e) (ep_sd e)" and rv: "rv_ok (ep_log f) (ep_rw e)"
    and rd: "read_ok (ep_log f) e" by (auto simp: pair_ok_def half_ok_def)
  have st: "sender_step {} (ep_conn e) (Terminate (ep_conn e))"
    using Terminate_step [OF go] l by (simp add: local_ok_def)
  have t: "ep_state ?e = StateTerminated"
    using go l by (simp add: local_ok_def term_ok_def Terminate_def Let_def)
  have rw: "cn_receivingWorker (Terminate (ep_conn e)) = fst (ReceivingWorker_Release (ep_rw e))"
    by (simp add: Terminate_def Let_def)
  have rel: "rv_ok (ep_log f) (fst (ReceivingWorker_Release (ep_rw e)))"
    "keeps (ep_rw e) (fst (ReceivingWorker_Release (ep_rw e)))"
    using rv by (auto simp: ReceivingWorker_Release_def rv_ok_def left_mb_def keeps_def received_def)
  show "local_ok ?e"
    by (rule local_ok_keeps [OF l, where N = "{}" and ext = "[]"]) (use st rw rel in auto)
  show "sending_effect f e ?e"
    by (rule sending_effect_step [where N = "{}"]) (use st sd in auto)
  show "receiving_effect f e ?e"
    using rel rd t by (auto simp: receiving_effect_def rw read_ok_def)
qed

lemma pushed_wake_data [simp]: "pushed c (wake_data c') = pushed c c'"
  by (simp add: pushed_def)

lemma step_write:
  assumes ok: "pair_ok e f" and wr: "write_round gots b input (ep_conn e) = Some (r, b', input', c')"
    and b: "\<forall>x. b = Some x \<longrightarrow> payload_ok x"
    and len: "length (ep_log e @ pushed (ep_conn e) c') < 4294967296"
  shows "pair_ok (e\<lparr>ep_conn := c', ep_log := ep_log e @ pushed (ep_conn e) c'\<rparr>) f" (is "pair_ok ?e f")
proof (rule pair_ok_effect [OF ok])
  from ok have l: "local_ok e" and sd: "sd_ok (ep_log e) (ep_sd e)" and rv: "rv_ok (ep_log f) (ep_rw e)"
    and rd: "read_ok (ep_log f) e" by (auto simp: pair_ok_def half_ok_def)
  have mss: "mss_ok (ep_conn e)" using l by (simp add: local_ok_def)
  from push_loop_spec [OF mss b, of gots 0 input False] wr obtain pend c1 where
    post: "push_post (ep_conn e) (pend_bytes b @ input) (r, b', input', pend, c1)"
    and c': "c' = (if pend then wake_data c1 else c1)"
    by (auto simp: write_round_def)
  have p: "pushed (ep_conn e) c' = pushed (ep_conn e) c1" by (simp add: c')
  from post have same: "same_but_sender (ep_conn e) c1" by (simp add: push_post_def)
  note fr = same_but_sender_frame [OF same]
  have "length (ep_log e) + length (pushed (ep_conn e) c1) < 4294967296" using len by (simp add: p)
  with post sd have new: "sd_ok (ep_log e @ pushed (ep_conn e) c1) (cn_sendingWorker c1)"
    "sd_numbers (cn_sendingWorker c1) =
       sd_numbers (ep_sd e) \<union> {length (ep_log e)..<length (ep_log e) + length (pushed (ep_conn e) c1)}"
    by (auto simp: push_post_def)
  have frames: "cn_state c' = ep_state e" "cn_receivingWorker c' = ep_rw e" "cn_mss c' = cn_mss (ep_conn e)"
    "cn_goTerminate c' = cn_goTerminate (ep_conn e)" "cn_sendingWorker c' = cn_sendingWorker c1"
    using fr by (simp_all add: c')
  have "sent_ok ?e"
    by (rule sent_ok_keeps [of e _ "pushed (ep_conn e) c'"]) (use l frames in \<open>auto simp: local_ok_def\<close>)
  with l frames show "local_ok ?e" by (auto simp: local_ok_def term_ok_def mss_ok_def)
  show "sending_effect f e ?e"
    using new frames by (auto simp: sending_effect_def p)
  show "receiving_effect f e ?e"
    by (rule receiving_effect_same) (use rv rd frames in auto)
qed

text \<open>A received packet decodes to the segment that was sent, with what is true of it.\<close>

lemma read_single:
  assumes "seg_ok seg" and "KCPPacketReader_Read gots (seg_wire seg) = Some segs"
  shows "\<exists>seg'. segs = [seg'] \<and> same_seg seg seg'"
proof -
  have "list_all2 same_seg [seg] segs"
    using segments.decode_all_enc [of "[seg]" "length (seg_wire seg)" gots 0] assms
    by (auto simp: KCPPacketReader_Read_def packet_read_loop_decode_all)
  then show ?thesis by (auto simp: list_all2_Cons1)
qed

lemma same_seg_true:
  assumes "same_seg seg seg'"
  shows "fwd_true log seg \<Longrightarrow> fwd_true log seg'" and "back_true w seg \<Longrightarrow> back_true w seg'"
  using assms by (cases seg; cases seg'; auto simp: seg_matches_def)+

lemma input_single:
  fixes current now :: u32
  assumes fwd: "fwd_true log seg" and bck: "back_true w seg" and rv: "rv_ok log (cn_receivingWorker c)"
  defines "c' \<equiv> Connection_Input current now [seg] c"
  shows "sender_step {n. received w n} c c' \<and> rv_ok log (cn_receivingWorker c')
    \<and> keeps (cn_receivingWorker c) (cn_receivingWorker c')
    \<and> left_mb (cn_receivingWorker c') = left_mb (cn_receivingWorker c)
    \<and> rw_nextNumber (cn_receivingWorker c') = rw_nextNumber (cn_receivingWorker c)"
proof -
  define c0 where "c0 = c\<lparr>cn_lastIncomingTime := current\<rparr>"
  have 0: "sender_step {} c c0" "cn_receivingWorker c0 = cn_receivingWorker c"
    by (auto simp: c0_def intro: sender_step_frame)
  show ?thesis
  proof (cases "Segment_Conversation seg = cn_Conversation c0")
    case False
    then have "c' = c0" by (simp add: c'_def Connection_Input_def c0_def)
    with 0 rv sender_step_mono show ?thesis by fastforce
  next
    case True
    have "sender_step {n. received w n} c0 c' \<and> rv_ok log (cn_receivingWorker c')
        \<and> keeps (cn_receivingWorker c) (cn_receivingWorker c')
        \<and> left_mb (cn_receivingWorker c') = left_mb (cn_receivingWorker c)
        \<and> rw_nextNumber (cn_receivingWorker c') = rw_nextNumber (cn_receivingWorker c)"
    proof (cases seg)
      case (SegData s)
      with True have "c' = input_data now s c0" by (simp add: c'_def Connection_Input_def c0_def)
      moreover have "sender_step {n. received w n} c0 (input_data now s c0)"
        using input_data_step sender_step_mono by blast
      ultimately show ?thesis
        using input_data_step [of c0 now s] rv_ok_ProcessSegment [OF rv, of s] fwd SegData 0 by simp
    next
      case (SegAck s)
      with True have "c' = input_ack current now s c0" by (simp add: c'_def Connection_Input_def c0_def)
      moreover have "acked_by s \<subseteq> {n. received w n}"
        using bck SegAck by (auto simp: acked_by_def received_def)
      then have "sender_step {n. received w n} c0 (input_ack current now s c0)"
        using input_ack_step sender_step_mono by blast
      ultimately show ?thesis
        using input_ack_step [of s c0 current now] rv 0 by simp
    next
      case (SegCmd s)
      with True have "c' = input_cmd current now s c0" by (simp add: c'_def Connection_Input_def c0_def)
      moreover have "{n. n < unat (cs_ReceivingNext s)} \<subseteq> {n. received w n}"
        using bck SegCmd by (auto simp: received_def)
      then have "sender_step {n. received w n} c0 (input_cmd current now s c0)"
        using input_cmd_step sender_step_mono by blast
      ultimately show ?thesis
        using input_cmd_step [of s c0 current now] rv_ok_ProcessSendingNext [OF rv] rv 0 by simp
    qed
    with 0(1) sender_step_seq show ?thesis by blast
  qed
qed

lemma step_recv:
  assumes ok: "pair_ok e f" and p: "p \<in> ep_sent f" and segs: "KCPPacketReader_Read gots p = Some segs"
  shows "pair_ok (e\<lparr>ep_conn := Connection_Input current now segs (ep_conn e)\<rparr>) f" (is "pair_ok ?e f")
proof (rule pair_ok_effect [OF ok])
  from ok have l: "local_ok e" and lf: "local_ok f" and sd: "sd_ok (ep_log e) (ep_sd e)"
    and rv: "rv_ok (ep_log f) (ep_rw e)" and rd: "read_ok (ep_log f) e" by (auto simp: pair_ok_def half_ok_def)
  from lf p obtain seg where seg: "p = seg_wire seg" "seg_ok seg" "fwd_true (ep_log f) seg" "back_true (ep_rw f) seg"
    by (auto simp: local_ok_def sent_ok_def)
  from read_single [OF seg(2)] segs seg(1) obtain seg' where s': "segs = [seg']" "same_seg seg seg'" by blast
  note eff = input_single [OF same_seg_true(1) [OF s'(2) seg(3)] same_seg_true(2) [OF s'(2) seg(4)] rv,
      of current now, folded s'(1)]
  show "local_ok ?e"
    by (rule local_ok_keeps [OF l, where N = "{n. received (ep_rw f) n}" and ext = "[]"]) (use eff in auto)
  show "sending_effect f e ?e"
    by (rule sending_effect_step [where N = "{n. received (ep_rw f) n}"]) (use eff sd in auto)
  show "receiving_effect f e ?e"
    by (rule receiving_effect_quiet) (use eff rd in \<open>auto simp: sender_step_def\<close>)
qed

text \<open>A read hands out the next bytes of the stream.\<close>

lemma step_reading:
  assumes ok: "pair_ok e f" and len: "length (ep_log f) < 4294967296"
    and fr: "cn_state c' = ep_state e" "cn_sendingWorker c' = ep_sd e" "cn_mss c' = cn_mss (ep_conn e)"
      "cn_goTerminate c' = cn_goTerminate (ep_conn e)" "cn_Conversation c' = cn_Conversation (ep_conn e)"
    and rw: "rv_ok (ep_log f) (cn_receivingWorker c')" "keeps (ep_rw e) (cn_receivingWorker c')"
      "stream_at (ep_log f) (ep_read e @ bs) (cn_receivingWorker c')"
  shows "pair_ok (e\<lparr>ep_conn := c', ep_read := ep_read e @ bs\<rparr>) f" (is "pair_ok ?e f")
proof (rule pair_ok_effect [OF ok])
  from ok have l: "local_ok e" and sd: "sd_ok (ep_log e) (ep_sd e)" by (auto simp: pair_ok_def half_ok_def)
  have st: "sender_step {} (ep_conn e) c'" by (rule sender_step_frame) (use fr in auto)
  show "local_ok ?e"
    by (rule local_ok_keeps [OF l, where N = "{}" and ext = "[]"]) (use st rw in auto)
  show "sending_effect f e ?e"
    by (rule sending_effect_step [where N = "{}"]) (use st sd in auto)
  have "ep_read e @ bs @ mcontent (left_mb (cn_receivingWorker c'))
      = concat (take (unat (rw_nextNumber (cn_receivingWorker c'))) (ep_log f))"
    using rw(3) by (simp add: stream_at_def)
  then have "concat (ep_log f) = (ep_read e @ bs) @ mcontent (left_mb (cn_receivingWorker c'))
      @ concat (drop (unat (rw_nextNumber (cn_receivingWorker c'))) (ep_log f))"
    by (metis append.assoc append_take_drop_id concat_append)
  then have "prefix (ep_read e @ bs) (concat (ep_log f))" unfolding prefix_def by blast
  with rw show "receiving_effect f e ?e"
    by (simp add: receiving_effect_def read_ok_def)
qed

lemma step_read:
  assumes ok: "pair_ok e f" and len: "length (ep_log f) < 4294967296"
    and r: "Connection_Read n (ep_conn e) = Some (r, c')"
  shows "pair_ok (e\<lparr>ep_conn := c', ep_read := ep_read e @ round_bytes r\<rparr>) f"
proof (cases "reading_closed (ep_state e)")
  case True
  with r have "c' = ep_conn e" "round_bytes r = []" by (auto simp: Connection_Read_def round_bytes_def)
  with ok show ?thesis by simp
next
  case False
  from ok have rv: "rv_ok (ep_log f) (ep_rw e)" and "read_ok (ep_log f) e" by (auto simp: pair_ok_def half_ok_def)
  with False have st: "stream_at (ep_log f) (ep_read e) (ep_rw e)"
    by (auto simp: read_ok_def reading_closed_def)
  from ReceivingWorker_Read_spec [OF rv len st, of n] obtain bs rw where
    rd: "ReceivingWorker_Read n (ep_rw e) = Some (bs, rw)" "rv_ok (ep_log f) rw" "keeps (ep_rw e) rw"
      "stream_at (ep_log f) (ep_read e @ bs) rw" by blast
  with r False have "round_bytes r = bs" "c' = (ep_conn e)\<lparr>cn_receivingWorker := rw\<rparr> \<or>
      c' = wake_data ((ep_conn e)\<lparr>cn_receivingWorker := rw\<rparr>)"
    by (auto simp: Connection_Read_def round_bytes_def Let_def split: if_splits)
  then show ?thesis
    using rd by (intro step_reading [OF ok len]) auto
qed

lemma step_read_mb:
  assumes ok: "pair_ok e f" and len: "length (ep_log f) < 4294967296"
    and r: "Connection_ReadMultiBuffer (ep_conn e) = (r, c')"
  shows "pair_ok (e\<lparr>ep_conn := c', ep_read := ep_read e @ round_mb r\<rparr>) f"
proof (cases "reading_closed (ep_state e)")
  case True
  with r have "c' = ep_conn e" "round_mb r = []" by (auto simp: Connection_ReadMultiBuffer_def round_mb_def)
  with ok show ?thesis by simp
next
  case False
  from ok have rv: "rv_ok (ep_log f) (ep_rw e)" and "read_ok (ep_log f) e" by (auto simp: pair_ok_def half_ok_def)
  with False have st: "stream_at (ep_log f) (ep_read e) (ep_rw e)"
    by (auto simp: read_ok_def reading_closed_def)
  obtain mb rw where m: "ReceivingWorker_ReadMultiBuffer (ep_rw e) = (mb, rw)" by fastforce
  from ReadMultiBuffer_spec [OF rv len m st] have
    rd: "rv_ok (ep_log f) rw" "keeps (ep_rw e) rw" "mb_inv mb" "stream_at (ep_log f) (ep_read e @ mcontent mb) rw"
    by blast+
  with r False m have "round_mb r = mcontent mb" "c' = (ep_conn e)\<lparr>cn_receivingWorker := rw\<rparr> \<or>
      c' = wake_data ((ep_conn e)\<lparr>cn_receivingWorker := rw\<rparr>)"
    by (auto simp: Connection_ReadMultiBuffer_def round_mb_def MultiBuffer_IsEmpty_mcontent Let_def split: if_splits)
  then show ?thesis
    using rd by (intro step_reading [OF ok len]) auto
qed

lemma pair_ok_step:
  assumes "ep_step (ep_sent f) e e'" and "pair_ok e f"
    and "length (ep_log e') < 4294967296" and "length (ep_log f) < 4294967296"
  shows "pair_ok e' f"
  using assms(1)
proof cases
  case (es_flush current now out c' ps wb)
  with assms step_flush show ?thesis by blast
next
  case (es_close now)
  with assms Connection_Close_step step_local show ?thesis by blast
next
  case es_terminate
  with assms step_terminate show ?thesis by blast
next
  case (es_write gots b input r b' input' c')
  with step_write [OF assms(2) es_write(2,3)] assms(3) show ?thesis by simp
next
  case (es_recv p gots segs current now)
  with assms step_recv show ?thesis by blast
next
  case (es_read n r c')
  with assms step_read show ?thesis by blast
next
  case (es_read_mb r c')
  with assms step_read_mb show ?thesis by blast
qed

lemma ep_step_log: "ep_step avail e e' \<Longrightarrow> length (ep_log e) \<le> length (ep_log e')"
  by (induction rule: ep_step.induct) auto

section \<open>Sessions\<close>

definition mtu_ok :: "Config \<Rightarrow> bool" where
  "mtu_ok config \<longleftrightarrow> 18 < Mtu config \<and> Mtu config \<le> 8192"

lemma unat_mss:
  assumes "mtu_ok config"
  shows "0 < unat (Mtu config - DataSegmentOverhead) \<and> unat (Mtu config - DataSegmentOverhead) + 18 \<le> Size"
proof -
  have m: "18 < unat (Mtu config)" "unat (Mtu config) \<le> 8192"
    using assms by (simp_all add: mtu_ok_def word_less_nat_alt word_le_nat_alt)
  then have "unat (Mtu config - 18) = unat (Mtu config) - 18"
    by (subst unat_sub) (simp_all add: word_le_nat_alt)
  with m show ?thesis by (simp add: DataSegmentOverhead_def)
qed

lemma pair_ok_start:
  assumes "NewConnection conv config = Some c" and "mtu_ok config"
  shows "pair_ok (new_endpoint got c) (new_endpoint got' c)"
proof -
  obtain rs sd where n: "NewSendingWorker config = Some sd"
    and c: "cn_sendingWorker c = sd" "cn_state c = StateActive" "\<not> cn_goTerminate c"
      "cn_mss c = Mtu config - DataSegmentOverhead"
      "cn_receivingWorker c = NewReceivingWorker (Mtu config - DataSegmentOverhead) rs"
    using assms(1) by (auto simp: NewConnection_def Let_def split: bind_splits)
  from n have "sw_cache (sd_window sd) = []" "sd_nextNumber sd = 0"
    by (auto simp: NewSendingWorker_def NewSendingWindow_def split: bind_splits)
  then have sd: "sd_ok [] sd" by (simp add: sd_ok_def)
  have st: "stream_at [] [] (NewReceivingWorker m k)" for m k
    by (simp add: stream_at_def NewReceivingWorker_def left_mb_def)
  have "local_ok (new_endpoint g c)" for g
    using unat_mss [OF assms(2)] c
    by (simp add: local_ok_def new_endpoint_def Buffer_New_inv sent_ok_def term_ok_def mss_ok_def)
  moreover have "half_ok (new_endpoint g c) (new_endpoint g' c)" for g g'
    using sd st c rv_ok_New by (simp add: half_ok_def new_endpoint_def read_ok_def none_lost_def)
  ultimately show ?thesis by (simp add: pair_ok_def)
qed

lemma session_ok:
  "session conv config s \<Longrightarrow> mtu_ok config \<Longrightarrow> length (ep_log (fst s)) < 4294967296 \<Longrightarrow>
   length (ep_log (snd s)) < 4294967296 \<Longrightarrow> pair_ok (fst s) (snd s)"
proof (induction rule: session.induct)
  case (start c got got')
  then show ?case by (simp add: pair_ok_start)
next
  case (step s s')
  from step.hyps(2) show ?case
  proof cases
    case (left b a a')
    with ep_step_log [OF left(3)] step.prems step.IH have "pair_ok a b" by simp
    with left step.prems show ?thesis using pair_ok_step [OF left(3)] by simp
  next
    case (right a b b')
    with ep_step_log [OF right(3)] step.prems step.IH have "pair_ok b a" by (simp add: pair_ok_sym)
    with right step.prems show ?thesis using pair_ok_step [OF right(3)] by (simp add: pair_ok_sym)
  qed
qed

section \<open>Properties\<close>

text \<open>
  C1. Reliable, ordered delivery over a bad network. Between two connections joined by a network that
  loses, duplicates, delays and reorders packets, the bytes read at either end are at every moment a
  prefix of the bytes the other end's writes accepted: nothing is delivered twice, out of order,
  altered or invented. The packet size must leave room for a payload and fit a pooled buffer, and
  fewer than 2^32 segments may have been accepted in each direction.
\<close>
theorem kcp_in_order_delivery:
  assumes "session conv config (a, b)" and "mtu_ok config"
    and "length (ep_log a) < 4294967296" and "length (ep_log b) < 4294967296"
  shows "prefix (ep_read b) (concat (ep_log a)) \<and> prefix (ep_read a) (concat (ep_log b))"
  using session_ok [OF assms(1,2)] assms(3,4) by (simp add: pair_ok_def half_ok_def read_ok_def)

definition sample_conn :: Connection where
  "sample_conn = the (NewConnection 1 default_Config)"

lemma sample_conn: "NewConnection 1 default_Config = Some sample_conn"
proof -
  have "NewConnection 1 default_Config \<noteq> None"
    by (simp add: NewConnection_def NewSendingWorker_def GetReceivingInFlightSize_def GetSendingInFlightSize_def
        GetSendingBufferSize_def inFlightSize_def go_div_def default_Config_def Let_def)
  then show ?thesis by (auto simp: sample_conn_def)
qed

lemma default_mtu_ok: "mtu_ok default_Config"
  by (simp add: mtu_ok_def default_Config_def)

abbreviation sample_end :: endpoint where
  "sample_end \<equiv> new_endpoint nil_slice sample_conn"

lemma sample_mss: "mss_ok sample_conn"
  using pair_ok_start [OF sample_conn default_mtu_ok] by (simp add: pair_ok_def local_ok_def new_endpoint_def)

lemma sample_conn_facts:
  "cn_state sample_conn = StateActive" "cn_mss sample_conn = 1332"
  "sd_closed (cn_sendingWorker sample_conn) = False" "sd_windowSize (cn_sendingWorker sample_conn) = 1553"
  "cn_cache sample_conn = []"
  by (simp_all add: sample_conn_def NewConnection_def NewSendingWorker_def GetReceivingInFlightSize_def
      GetSendingInFlightSize_def GetSendingBufferSize_def inFlightSize_def go_div_def default_Config_def
      NewSendingWindow_def DataSegmentOverhead_def Let_def)

text \<open>A session in which the left end has written three bytes.\<close>

lemma sample_session: "\<exists>a. session 1 default_Config (a, sample_end) \<and> ep_log a = [[1, 2, 3]] \<and> live (ep_state a)"
proof -
  let ?g = "\<lambda>_ :: nat. nil_slice"
  have n: "take (min (unat (cn_mss sample_conn)) Size) [1, 2, 3 :: byte] = [1, 2, 3]"
    by (simp add: sample_conn_facts)
  have d: "drop (length [1, 2, 3 :: byte]) [1, 2, 3 :: byte] = []" by simp
  obtain x where x: "payload_ok x" "content x = [1, 2, 3]" and
    cut: "push_loop ?g 0 None [1, 2, 3] False sample_conn =
      (case SendingWorker_Push x (cn_sendingWorker sample_conn) of
         (False, _) \<Rightarrow> Some (Waits, Some x, [], False, sample_conn)
       | (True, sd) \<Rightarrow> push_loop ?g (Suc 0) None [] True (sample_conn\<lparr>cn_sendingWorker := sd\<rparr>))"
    using push_loop_cut [OF sample_conn_facts(1) sample_mss, of "[1, 2, 3]" ?g 0 False, unfolded n d]
    by auto
  obtain sd where push: "SendingWorker_Push x (cn_sendingWorker sample_conn) = (True, sd)"
    by (simp add: SendingWorker_Push_def SendingWindow_Len_def sample_conn_facts)
  let ?c = "sample_conn\<lparr>cn_sendingWorker := sd\<rparr>"
  obtain y where "push_loop ?g (Suc 0) None [] True ?c = Some (Returns None, Some y, [], True, ?c)"
    using push_loop_end [of ?c ?g "Suc 0" True] sample_conn_facts(1) by auto
  with cut push have
    w: "write_round ?g None [1, 2, 3] (ep_conn sample_end) = Some (Returns None, Some y, [], wake_data ?c)"
    by (simp add: write_round_def new_endpoint_def)
  from Push_effect [OF push x(1)] obtain seg where "cn_cache ?c = [seg]" "seg_payload seg = [1, 2, 3]"
    using x(2) by (auto simp: sample_conn_facts)
  then have p: "pushed sample_conn ?c = [[1, 2, 3]]" by (simp add: pushed_def sample_conn_facts)
  let ?a = "sample_end\<lparr>ep_conn := wake_data ?c, ep_log := ep_log sample_end @ pushed (ep_conn sample_end) (wake_data ?c)\<rparr>"
  have "session 1 default_Config (?a, sample_end)"
    by (rule session.step [OF session.start [OF sample_conn] link_step.left [OF ep_step.es_write [OF w]]]) simp
  with p show ?thesis
    by (intro exI [of _ ?a]) (simp add: new_endpoint_def live_def sample_conn_facts)
qed

theorem kcp_in_order_delivery_witness:
  "\<exists>a b. session 1 default_Config (a, b) \<and> concat (ep_log a) = [1, 2, 3] \<and> prefix (ep_read b) [1, 2, 3]"
proof -
  from sample_session obtain a where a: "session 1 default_Config (a, sample_end)" "ep_log a = [[1, 2, 3]]" by blast
  have "length (ep_log a) < 4294967296" "length (ep_log sample_end) < 4294967296"
    by (simp_all add: a(2) new_endpoint_def)
  from kcp_in_order_delivery [OF a(1) default_mtu_ok this] a show ?thesis
    by (intro exI [of _ a] exI [of _ sample_end]) (simp add: new_endpoint_def)
qed

text \<open>
  C2. No loss: while the sending end is active or only closed locally, every payload its writes accepted
  is still in its window with its bytes, to be sent again, or has reached the receiver's window or been
  passed on. An acknowledgement therefore never makes the sender forget a payload that did not arrive.
\<close>
theorem kcp_no_loss:
  assumes "session conv config (a, b)" and "mtu_ok config"
    and "length (ep_log a) < 4294967296" and "length (ep_log b) < 4294967296"
    and "live (cn_state (ep_conn a))" and "n < length (ep_log a)"
  shows "(\<exists>seg \<in> set (cn_cache (ep_conn a)). unat (ds_Number seg) = n \<and> seg_payload seg = ep_log a ! n)
    \<or> received (cn_receivingWorker (ep_conn b)) n"
proof -
  have "pair_ok a b" using session_ok [OF assms(1,2)] assms(3,4) by simp
  then have sd: "sd_ok (ep_log a) (ep_sd a)" and "none_lost a b"
    by (auto simp: pair_ok_def half_ok_def)
  then have "n \<in> sd_numbers (ep_sd a) \<or> received (ep_rw b) n"
    using assms(5,6) by (simp add: none_lost_def)
  moreover have "seg_payload seg = ep_log a ! unat (ds_Number seg)" if "seg \<in> set (cn_cache (ep_conn a))" for seg
    using sd that by (auto simp: sd_ok_def seg_matches_def seg_payload_def)
  ultimately show ?thesis by (auto simp: win_numbers_def)
qed

theorem kcp_no_loss_witness:
  "\<exists>a b. session 1 default_Config (a, b) \<and> ep_log a = [[1, 2, 3]] \<and>
     ((\<exists>seg \<in> set (cn_cache (ep_conn a)). unat (ds_Number seg) = 0 \<and> seg_payload seg = [1, 2, 3])
      \<or> received (cn_receivingWorker (ep_conn b)) 0)"
proof -
  from sample_session obtain a where a: "session 1 default_Config (a, sample_end)" "ep_log a = [[1, 2, 3]]"
    "live (ep_state a)" by blast
  have len: "length (ep_log a) < 4294967296" "length (ep_log sample_end) < 4294967296" "0 < length (ep_log a)"
    by (simp_all add: a(2) new_endpoint_def)
  from kcp_no_loss [OF a(1) default_mtu_ok len(1,2) a(3) len(3)] a show ?thesis
    by (intro exI [of _ a] exI [of _ sample_end]) simp
qed

end
