(* ===== verification/Spec2Isabelle.thy ===== *)
theory Spec2Isabelle
  imports Prelude Net_Addr Byte_Channel Wire_Codec Buffer Multi_Buffer Pipe Addr_Codec Buf_IO Buf_Writer Mux_Frame Mux_Session Vision
    Str_Match Domain_Trie Linear_Match Ac_Automaton Mph Mph_Match Ip_Matcher Ip_Heuristic
    Ip_Filter Ip_Multi_Filter Ip_Set Ip_Rules Geo_Data Geo_Rules Ip_Text Domain_Rules Domain_Meaning
    Route_Condition Balancer Router Routing
    Kcp_Segment Kcp_Receiving Kcp_Sending Kcp_Connection Kcp_Session
begin

text \<open>
  A verification library for the Go core of Xray-core, the proxy platform whose sources are under
  \<^verbatim>\<open>src/xray-go\<close>.

  \<^bold>\<open>The program.\<close> A connection enters through an inbound proxy, the router picks an outbound by its
  rules, and the two are joined by pipes that carry lists of pooled buffers. Proxy protocols write
  addresses and chunks on these streams; the mux layer carries many sessions over one connection;
  the mKCP transport makes a reliable stream out of datagrams; the Vision flow pads and unpads the
  first packets of a TLS connection. The rules of the router and of the DNS module are lists of
  domains and of IP prefixes, compiled to matchers.

  \<^bold>\<open>Conventions\<close> (\<open>Prelude\<close>). Fixed-width integers are words, or integers with the wrap-around
  written out (\<open>int32\<close>); strings and slices are lists of bytes, buffers carry their capacity; a
  panic of the run-time is \<open>None\<close>; Go's \<open>(value, error)\<close> is a sum or a pair with an optional error;
  a loop that may not end is a \<open>partial_function\<close> whose value \<open>None\<close> is not returning, and the
  theorems about it state that it returns. Mutexes are not modelled where every operation holds
  them for its whole body; where goroutines interleave (\<open>Pipe\<close>, \<open>Kcp_Session\<close>, \<open>Mux_Session\<close>) the
  steps are those between lock and unlock, and the claims hold for all sequences of steps.

  \<^bold>\<open>Buffers.\<close>
  \<^item> \<open>Buffer\<close>: \<^verbatim>\<open>common/bytespool/pool.go\<close>, \<^verbatim>\<open>common/buf/buffer.go\<close>. Which slice a pool hands out is a
    parameter; the window of a buffer stays inside its slice, and recycled bytes are not seen by reads below the end of
    the content (reads by index or range behind it do see them).
  \<^item> \<open>Multi_Buffer\<close>: \<^verbatim>\<open>common/buf/multi_buffer.go\<close>. Splitting, merging and compacting preserve the bytes;
    the container is a byte queue.
  \<^item> \<open>Byte_Channel\<close>: the interface of a byte channel as a locale, interpreted by the containers.
  \<^item> \<open>Buf_IO\<close>, \<open>Buf_Writer\<close>: \<^verbatim>\<open>common/buf/reader.go\<close>, \<^verbatim>\<open>writer.go\<close>, \<^verbatim>\<open>copy.go\<close>, \<^verbatim>\<open>common/crypto/chunk.go\<close>.
    Chunk streams round-trip over any fragmentation; buffered writers keep the order of bytes.
  \<^item> \<open>Pipe\<close>: \<^verbatim>\<open>transport/pipe\<close>, \<^verbatim>\<open>common/signal\<close>. In every interleaving of any number of readers and writers
    no byte is lost or reordered and no wake-up is lost.

  \<^bold>\<open>Addresses and framing.\<close>
  \<^item> \<open>Net_Addr\<close>: \<^verbatim>\<open>common/net\<close> (addresses, ports, destinations), with the parsers of the standard library.
  \<^item> \<open>Wire_Codec\<close>: the interface of an encoder with its decoder, as a locale.
  \<^item> \<open>Addr_Codec\<close>: \<^verbatim>\<open>common/protocol/address.go\<close>. The reader implements the address grammar; round trip.
  \<^item> \<open>Mux_Frame\<close>, \<open>Mux_Session\<close>: \<^verbatim>\<open>common/mux\<close>. Frames round-trip; the sessions of a client are
    demultiplexed, closed and released exactly once, as long as their 16-bit identifiers do not wrap. Of the server's
    New frames the branch without a global id is modelled; the check of \<^verbatim>\<open>AllowedNetwork\<close> and the reuse of
    UDP sessions by global id are not.
  \<^item> \<open>Vision\<close>: \<^verbatim>\<open>proxy/proxy.go\<close>. Unpadding undoes padding for every cut of the stream
    whose first piece has 21 bytes; two flaws of the reader and of the handshake filter are proved.

  \<^bold>\<open>mKCP\<close> (\<^verbatim>\<open>transport/internet/kcp\<close>). \<open>Kcp_Segment\<close> (codec), \<open>Kcp_Receiving\<close>, \<open>Kcp_Sending\<close> (windows and
  acknowledgements), \<open>Kcp_Connection\<close> (handlers and the state machine), \<open>Kcp_Session\<close> (two endpoints over
  a network that loses, repeats and reorders packets: in-order delivery, nothing is lost). Each handler runs as a whole;
  \<open>close_act\<close> is the part of \<^verbatim>\<open>Close\<close> after its load of the state, to show what an overlap does.
  The fuel of \<open>packet_read_loop\<close> is the length of the packet, of which every turn takes a byte.

  \<^bold>\<open>Matchers of rules\<close> (\<^verbatim>\<open>common/geodata\<close>).
  \<^item> \<open>Str_Match\<close>: the matcher types, and the hash, list and substring groups; \<open>Domain_Trie\<close>: the label
    trie; \<open>Ac_Automaton\<close>: the Aho-Corasick automaton; \<open>Mph\<close>: the perfect hash table; \<open>Linear_Match\<close> and
    \<open>Mph_Match\<close>: their combinations. Every one answers as asking each matcher in turn would. The
    regular expressions, the Punycode conversion, the Unicode tables and the hash of the run-time are
    parameters.
  \<^item> \<open>Ip_Matcher\<close>, \<open>Ip_Heuristic\<close>, \<open>Ip_Filter\<close>, \<open>Ip_Multi_Filter\<close>: the prefixes, the bucket heuristic and the filters of
    \<^verbatim>\<open>ip_matcher.go\<close>. The heuristic does not change an answer, in any iteration order of the maps; the filter over several
    sets can panic. \<open>Ip_Set\<close>, \<open>Ip_Rules\<close>: the sets of prefixes, their cache keys and the factory that groups rules. The
    package \<^verbatim>\<open>netipx\<close> and the iteration order of maps are parameters.
  \<^item> \<open>Geo_Data\<close>, \<open>Geo_Rules\<close>, \<open>Ip_Text\<close>: the files of codes (\<^verbatim>\<open>geodat_loader.go\<close>, \<^verbatim>\<open>rule_parser.go\<close>), attributes, and the parsers of rules.
    The scanner finds the first entry of a code; texts of IP rules mean what they say, from the parser to the matcher. The
    contents of the assets, protobuf decoding and the Unicode case tables are fields of the parameter \<open>geo_env\<close>.
  \<^item> \<open>Domain_Rules\<close>, \<open>Domain_Meaning\<close>: the factories of domain matchers (\<^verbatim>\<open>domain_matcher.go\<close>, \<^verbatim>\<open>domain_registry.go\<close>). Both give the
    indices of the rules that match; a comma in a value can confuse the cache.

  \<^bold>\<open>The router\<close> (\<^verbatim>\<open>app/router\<close>).
  \<^item> \<open>Route_Condition\<close>: the routing context, the resolving context and the conditions of a rule (\<^verbatim>\<open>condition.go\<close>, \<^verbatim>\<open>config.go\<close>,
    \<^verbatim>\<open>features/routing\<close>). The DNS client and the lookup of processes are parameters.
  \<^item> \<open>Balancer\<close>: \<^verbatim>\<open>balancing.go\<close> and the four strategies. The observations, the random numbers and the floating-point costs of
    least load (\<^verbatim>\<open>weight.go\<close>) are parameters.
  \<^item> \<open>Router\<close>, \<open>Routing\<close>: \<^verbatim>\<open>router.go\<close>. Loading, extending and removing rules, picking routes, overrides; the first rule that
    holds is picked, webhooks follow the rules, and what a failed load leaves behind. Each operation runs as a
    whole, although \<^verbatim>\<open>PickRoute\<close> does not hold the router's mutex; of a webhook only its closing is kept, and its
    constructor, which never fails, has no error.

  \<^bold>\<open>The seed search\<close> of the perfect hash table is a \<open>partial_function\<close>: it returns exactly if seeds are found for all buckets
  (\<open>mph_seeded\<close>), and no theorem assumes anything about the run-time's hash.

  \<^bold>\<open>Not modelled.\<close> The proxies (VLESS, VMess, Trojan, Shadowsocks, SOCKS, HTTP, WireGuard and so on) and their cryptography;
  the transports other than mKCP, with TLS, REALITY, QUIC and its congestion control, and the final masks; the configuration
  files and their conversion; the DNS application, the dispatcher, the handlers of inbounds and outbounds, statistics and
  the command line; the HTTP posts of webhooks. They are bound to sockets, to cryptographic libraries, to
  reflection or to floating-point numbers.
\<close>

end
